(* ===== verification/Prelude.thy ===== *)
theory Prelude
  imports Main "HOL-Library.AList" "HOL-Library.Char_ord" "HOL-Library.List_Lexorder"
begin

section \<open>Shared vocabulary of the development\<close>

text \<open>
  What every component theory uses: the JavaScript \<open>Map\<close> as an insertion-ordered
  association list, results as sums, decimal printing, and the string searches
  (\<open>indexOf\<close>, \<open>lastIndexOf\<close>, \<open>split\<close>, \<open>startsWith\<close>) the sources call. Strings
  are Isabelle strings; a \<open>char\<close> stands for one code unit up to 0xFF.
\<close>

named_theorems jmap_simps \<open>equations of the insertion-ordered map\<close>
named_theorems str_simps \<open>equations of the string searches\<close>

subsection \<open>The JavaScript Map\<close>

text \<open>
  \<open>Map.prototype.set\<close> overwrites in place when the key is present and appends
  otherwise, which is what \<open>AList.update\<close> does; \<open>Map.prototype.delete\<close> drops the key.
\<close>

type_synonym ('k, 'v) jmap = "('k \<times> 'v) list"

abbreviation jget :: "('k, 'v) jmap \<Rightarrow> 'k \<Rightarrow> 'v option" where
  "jget m k \<equiv> map_of m k"

abbreviation jset :: "('k, 'v) jmap \<Rightarrow> 'k \<Rightarrow> 'v \<Rightarrow> ('k, 'v) jmap" where
  "jset m k v \<equiv> AList.update k v m"

abbreviation jdel :: "('k, 'v) jmap \<Rightarrow> 'k \<Rightarrow> ('k, 'v) jmap" where
  "jdel m k \<equiv> AList.delete k m"

abbreviation jkeys :: "('k, 'v) jmap \<Rightarrow> 'k list" where
  "jkeys m \<equiv> map fst m"

definition jhas :: "('k, 'v) jmap \<Rightarrow> 'k \<Rightarrow> bool" where
  "jhas m k \<longleftrightarrow> jget m k \<noteq> None"

lemma jget_jset [jmap_simps, simp]: "jget (jset m k v) k' = (if k' = k then Some v else jget m k')"
  by (simp add: update_conv')

lemma jget_jdel [jmap_simps, simp]: "jget (jdel m k) k' = (if k' = k then None else jget m k')"
  by (simp add: delete_conv')

lemma jhas_jset [jmap_simps, simp]: "jhas (jset m k v) k' \<longleftrightarrow> k' = k \<or> jhas m k'"
  by (simp add: jhas_def)

lemma jhas_jdel [jmap_simps, simp]: "jhas (jdel m k) k' \<longleftrightarrow> k' \<noteq> k \<and> jhas m k'"
  by (simp add: jhas_def)

lemma jhas_Nil [jmap_simps, simp]: "\<not> jhas [] k"
  by (simp add: jhas_def)

lemma jhas_iff_key: "jhas m k \<longleftrightarrow> k \<in> set (jkeys m)"
  by (simp add: jhas_def map_of_eq_None_iff)

lemma distinct_jset [jmap_simps, intro]: "distinct (jkeys m) \<Longrightarrow> distinct (jkeys (jset m k v))"
  by (rule distinct_update)

lemma distinct_jdel [jmap_simps, intro]: "distinct (jkeys m) \<Longrightarrow> distinct (jkeys (jdel m k))"
  by (rule distinct_delete)

lemma jset_ne_Nil [simp]: "jset m k v \<noteq> []"
  by (induction m) auto

lemma jkeys_jset_fresh: "k \<notin> set (jkeys m) \<Longrightarrow> jset m k v = m @ [(k, v)]"
  by (induction m) auto

lemma jdel_fresh: "k \<notin> set (jkeys m) \<Longrightarrow> jdel m k = m"
  by simp

lemma length_jdel: "jhas m k \<Longrightarrow> distinct (jkeys m) \<Longrightarrow> Suc (length (jdel m k)) = length m"
  by (induction m) (auto simp: jhas_iff_key jdel_fresh)

lemma length_jset: "length (jset m k v) = (if jhas m k then length m else Suc (length m))"
  by (induction m) (auto simp: jhas_def)

lemma jget_filter:
  "distinct (jkeys m) \<Longrightarrow>
     jget (filter P m) k = (case jget m k of None \<Rightarrow> None | Some v \<Rightarrow> if P (k, v) then Some v else None)"
proof (induction m)
  case (Cons p m)
  obtain k' v' where p: "p = (k', v')" by force
  show ?case
  proof (cases "k = k'")
    case True
    with Cons.prems p have none: "jget m k = None" by (simp add: map_of_eq_None_iff)
    with Cons p True show ?thesis by auto
  next
    case False
    with Cons p show ?thesis by auto
  qed
qed simp

subsection \<open>Results\<close>

text \<open>A throwing function returns \<open>Inl error\<close>; \<open>res_bind\<close> is the sequence of two.\<close>

fun res_bind :: "'e + 'a \<Rightarrow> ('a \<Rightarrow> 'e + 'b) \<Rightarrow> 'e + 'b" where
  "res_bind (Inl e) f = Inl e"
| "res_bind (Inr x) f = f x"

lemma res_bind_eq_Inr: "res_bind r f = Inr y \<longleftrightarrow> (\<exists>x. r = Inr x \<and> f x = Inr y)"
  by (cases r) auto

subsection \<open>String searches\<close>

definition starts_with :: "string \<Rightarrow> string \<Rightarrow> bool" where
  "starts_with s p \<longleftrightarrow> take (length p) s = p"

definition ends_with_char :: "string \<Rightarrow> char \<Rightarrow> bool" where
  "ends_with_char s c \<longleftrightarrow> s \<noteq> [] \<and> last s = c"

text \<open>\<open>s.indexOf(c)\<close> and \<open>s.lastIndexOf(c)\<close>, with \<open>None\<close> for \<open>-1\<close>.\<close>

fun index_of :: "char \<Rightarrow> string \<Rightarrow> nat option" where
  "index_of c [] = None"
| "index_of c (x # xs) = (if x = c then Some 0 else map_option Suc (index_of c xs))"

definition last_index_of :: "char \<Rightarrow> string \<Rightarrow> nat option" where
  "last_index_of c s = map_option (\<lambda>i. length s - Suc i) (index_of c (rev s))"

text \<open>\<open>s.split(c)\<close>: always at least one piece.\<close>

fun split_on :: "char \<Rightarrow> string \<Rightarrow> string list" where
  "split_on c [] = [[]]"
| "split_on c (x # xs) =
     (if x = c then [] # split_on c xs
      else (case split_on c xs of [] \<Rightarrow> [[x]] | p # ps \<Rightarrow> (x # p) # ps))"

fun join_with :: "char \<Rightarrow> string list \<Rightarrow> string" where
  "join_with c [] = []"
| "join_with c [p] = p"
| "join_with c (p # q # ps) = p @ c # join_with c (q # ps)"

lemma starts_with_append [str_simps, simp]: "starts_with (p @ s) p"
  by (simp add: starts_with_def)

lemma starts_with_iff: "starts_with s p \<longleftrightarrow> (\<exists>t. s = p @ t)"
  unfolding starts_with_def by (metis append_eq_conv_conj append_take_drop_id)

lemma index_of_None [str_simps]: "index_of c s = None \<longleftrightarrow> c \<notin> set s"
  by (induction s) auto

lemma index_of_append [str_simps]: "c \<notin> set p \<Longrightarrow> index_of c (p @ c # s) = Some (length p)"
  by (induction p) auto

lemma index_of_SomeD:
  "index_of c s = Some i \<Longrightarrow> i < length s \<and> s ! i = c \<and> c \<notin> set (take i s)"
proof (induction s arbitrary: i)
  case (Cons x xs)
  then show ?case by (cases "x = c") (auto simp: nth_Cons split: nat.splits)
qed simp

lemma last_index_of_append [str_simps]:
  "c \<notin> set s \<Longrightarrow> last_index_of c (p @ c # s) = Some (length p)"
  by (simp add: last_index_of_def index_of_append)

lemma last_index_of_None [str_simps]: "last_index_of c s = None \<longleftrightarrow> c \<notin> set s"
  by (simp add: last_index_of_def index_of_None)

lemma last_index_of_SomeD:
  assumes "last_index_of c s = Some i"
  shows "i < length s \<and> s = take i s @ c # drop (Suc i) s \<and> c \<notin> set (drop (Suc i) s)"
proof -
  obtain j where j: "index_of c (rev s) = Some j" and i: "i = length s - Suc j"
    using assms by (auto simp: last_index_of_def)
  have J: "j < length s" "rev s ! j = c" "c \<notin> set (take j (rev s))"
    using index_of_SomeD [OF j] by auto
  have "s ! i = c" using J i by (simp add: rev_nth)
  moreover have "drop (Suc i) s = rev (take j (rev s))"
    using J i by (simp add: take_rev Suc_diff_Suc)
  ultimately show ?thesis
    using J i id_take_nth_drop [of i s] by auto
qed

lemma split_on_ne [simp]: "split_on c s \<noteq> []"
  by (induction s) (auto split: list.splits)

lemma split_on_no_sep: "\<forall>p \<in> set (split_on c s). c \<notin> set p"
  by (induction s) (auto split: list.splits)

lemma join_split [str_simps]: "join_with c (split_on c s) = s"
proof (induction s)
  case (Cons x xs)
  then show ?case by (cases "split_on c xs"; cases "tl (split_on c xs)") auto
qed simp

lemma split_on_free: "c \<notin> set s \<Longrightarrow> split_on c s = [s]"
  by (induction s) auto

lemma split_on_append:
  "c \<notin> set p \<Longrightarrow> split_on c (p @ c # s) = p # split_on c s"
  by (induction p) auto

lemma split_join [str_simps]:
  "ps \<noteq> [] \<Longrightarrow> \<forall>p \<in> set ps. c \<notin> set p \<Longrightarrow> split_on c (join_with c ps) = ps"
  by (induction c ps rule: join_with.induct) (auto simp: split_on_free split_on_append)

lemma join_with_Cons: "ps \<noteq> [] \<Longrightarrow> join_with c (p # ps) = p @ c # join_with c ps"
  by (cases ps) auto

lemma join_with_snoc: "ps \<noteq> [] \<Longrightarrow> join_with c (ps @ [p]) = join_with c ps @ c # p"
  by (induction c ps rule: join_with.induct) auto

lemma set_join_with: "set (join_with c ps) \<subseteq> insert c (\<Union>p \<in> set ps. set p)"
  by (induction c ps rule: join_with.induct) auto

subsection \<open>Decimal printing\<close>

text \<open>\<open>String(n)\<close> of an integer.\<close>

definition digit_char :: "nat \<Rightarrow> char" where
  "digit_char d = char_of (if d < 10 then 48 + d else 87 + d)"

function show_base :: "nat \<Rightarrow> nat \<Rightarrow> string" where
  "show_base b n = (if b < 2 \<or> n < b then [digit_char n] else show_base b (n div b) @ [digit_char (n mod b)])"
  by pat_completeness auto
termination
  by (relation "measure (\<lambda>(b, n). n)") auto

declare show_base.simps [simp del]

definition show_nat :: "nat \<Rightarrow> string" where
  "show_nat n = show_base 10 n"

definition show_int :: "int \<Rightarrow> string" where
  "show_int i = (if i < 0 then CHR ''-'' # show_nat (nat (- i)) else show_nat (nat i))"

fun read_base :: "nat \<Rightarrow> nat \<Rightarrow> string \<Rightarrow> nat" where
  "read_base b acc [] = acc"
| "read_base b acc (c # cs) =
     read_base b (acc * b + (if of_char c < (58::nat) then of_char c - 48 else of_char c - 87)) cs"

lemma digit_char_value:
  "d < 36 \<Longrightarrow> (if of_char (digit_char d) < (58::nat) then of_char (digit_char d) - 48 else of_char (digit_char d) - 87) = d"
  by (simp add: digit_char_def of_char_of)

lemma read_base_append: "read_base b a (xs @ ys) = read_base b (read_base b a xs) ys"
  by (induction xs arbitrary: a) auto

lemma read_show_base: "2 \<le> b \<Longrightarrow> b \<le> 36 \<Longrightarrow> read_base b 0 (show_base b n) = n"
proof (induction b n rule: show_base.induct)
  case (1 b n)
  show ?case
  proof (cases "n < b")
    case True
    then show ?thesis using "1.prems" digit_char_value [of n] by (subst show_base.simps) simp
  next
    case False
    with 1 have ih: "read_base b 0 (show_base b (n div b)) = n div b" by simp
    have "n mod b < 36" using "1.prems" using mod_less_divisor [of b n] by linarith
    with ih False "1.prems" digit_char_value [of "n mod b"] show ?thesis
      by (subst show_base.simps) (simp add: read_base_append)
  qed
qed

lemma show_nat_inject [simp]: "show_nat m = show_nat n \<longleftrightarrow> m = n"
proof
  assume "show_nat m = show_nat n"
  then have "read_base 10 0 (show_base 10 m) = read_base 10 0 (show_base 10 n)"
    by (simp add: show_nat_def)
  then show "m = n" by (simp add: read_show_base)
qed simp

lemma show_base_ne [simp]: "show_base b n \<noteq> []"
  by (subst show_base.simps) simp

lemma show_nat_ne [simp]: "show_nat n \<noteq> []"
  by (simp add: show_nat_def)

definition is_digit :: "char \<Rightarrow> bool" where
  "is_digit c \<longleftrightarrow> (48::nat) \<le> of_char c \<and> of_char c \<le> (57::nat)"

lemma is_digit_digit_char: "d < 10 \<Longrightarrow> is_digit (digit_char d)"
  by (simp add: digit_char_def is_digit_def of_char_of)

lemma show_nat_digits: "list_all is_digit (show_nat n)"
  unfolding show_nat_def
proof (induction "10::nat" n rule: show_base.induct)
  case (1 n)
  show ?case
  proof (cases "n < 10")
    case True
    then show ?thesis by (subst show_base.simps) (simp add: is_digit_digit_char)
  next
    case False
    with 1 show ?thesis by (subst show_base.simps) (simp add: is_digit_digit_char)
  qed
qed

lemma show_nat_only_digits: "c \<in> set (show_nat n) \<Longrightarrow> is_digit c"
  using show_nat_digits [of n] by (auto simp: list_all_iff)

lemma not_digit_not_in_show: "\<not> is_digit c \<Longrightarrow> c \<notin> set (show_nat n)"
  using show_nat_only_digits by blast

lemma show_int_inject [simp]: "show_int i = show_int j \<longleftrightarrow> i = j"
proof -
  have "CHR ''-'' \<notin> set (show_nat n)" for n
    by (rule not_digit_not_in_show) (simp add: is_digit_def)
  then have "show_nat m \<noteq> CHR ''-'' # s" for m s
    by (metis list.set_intros(1))
  then show ?thesis
    by (auto simp: show_int_def split: if_splits) (metis show_int_def)+
qed


subsection \<open>Searching a list\<close>

lemma find_Some_mem: "List.find P xs = Some x \<Longrightarrow> x \<in> set xs \<and> P x"
  by (induction xs) (auto split: if_splits)

lemma find_None_mem: "List.find P xs = None \<Longrightarrow> x \<in> set xs \<Longrightarrow> \<not> P x"
  by (induction xs) (auto split: if_splits)

end
