(* ===== verification/Actor_Ids.thy ===== *)
theory Actor_Ids
  imports Prelude "HOL-Library.Word"
begin

unbundle bit_operations_syntax

section \<open>Actor identity, hashing and constant-time comparison\<close>

text \<open>
  \<open>types.ts\<close> (\<open>actorId\<close>), \<open>actor-key.ts\<close>, \<open>hash.ts\<close>, \<open>host/reminder-shards.ts\<close>,
  \<open>route.ts\<close> (\<open>hashRouteToken\<close>), \<open>timing-safe.ts\<close>, \<open>traceparent.ts\<close> and the
  \<open>actorIdOf\<close>/\<open>refOf\<close> pair of \<open>host/task-liveness.ts\<close>. The hash is on 32-bit
  words: \<open>^=\<close>, \<open>Math.imul\<close> and the final \<open>>>> 0\<close> all act modulo \<open>2^32\<close>.
\<close>

named_theorems id_simps \<open>actor identity and shards\<close>

subsection \<open>Actor references\<close>

record actor_ref =
  ref_type :: string
  ref_key :: string

abbreviation nul :: char where
  "nul \<equiv> CHR 0x00"

definition actor_id :: "actor_ref \<Rightarrow> string" where
  "actor_id r = ref_type r @ nul # ref_key r"

definition actor_label :: "actor_ref \<Rightarrow> string" where
  "actor_label r = ref_type r @ ''/'' @ ref_key r"

text \<open>\<open>refOf\<close>: split at the first NUL; no NUL is not an id.\<close>

definition ref_of :: "string \<Rightarrow> actor_ref option" where
  "ref_of s = (case index_of nul s of
       None \<Rightarrow> None
     | Some i \<Rightarrow> Some \<lparr>ref_type = take i s, ref_key = drop (Suc i) s\<rparr>)"

lemma ref_of_actor_id [id_simps]: "nul \<notin> set (ref_type r) \<Longrightarrow> ref_of (actor_id r) = Some r"
  by (simp add: ref_of_def actor_id_def index_of_append)

lemma ref_of_SomeD: "ref_of s = Some r \<Longrightarrow> actor_id r = s \<and> nul \<notin> set (ref_type r)"
  by (auto simp: ref_of_def actor_id_def split: option.splits dest!: index_of_SomeD
           intro: id_take_nth_drop [symmetric]) (metis id_take_nth_drop)

lemma actor_id_inject [id_simps]:
  "nul \<notin> set (ref_type r) \<Longrightarrow> nul \<notin> set (ref_type q) \<Longrightarrow> actor_id r = actor_id q \<longleftrightarrow> r = q"
  by (metis option.inject ref_of_actor_id)

subsection \<open>FNV-1a and the reminder shards\<close>

definition fnv_step :: "32 word \<Rightarrow> char \<Rightarrow> 32 word" where
  "fnv_step h c = (h XOR of_char c) * 0x01000193"

definition fnv1a :: "string \<Rightarrow> 32 word" where
  "fnv1a s = foldl fnv_step 0x811c9dc5 s"

definition reminder_shard_count :: nat where
  "reminder_shard_count = 16"

definition reminder_shard_of :: "string \<Rightarrow> string" where
  "reminder_shard_of aid = ''p'' @ show_nat (unat (fnv1a aid) mod reminder_shard_count)"

definition reminder_shard_keys :: "string list" where
  "reminder_shard_keys = map (\<lambda>i. ''p'' @ show_nat i) [0..<reminder_shard_count]"

lemma reminder_shard_of_mem [id_simps]: "reminder_shard_of aid \<in> set reminder_shard_keys"
  by (auto simp: reminder_shard_of_def reminder_shard_keys_def reminder_shard_count_def)

lemma distinct_reminder_shard_keys [id_simps]: "distinct reminder_shard_keys"
  by (auto simp: reminder_shard_keys_def distinct_map inj_on_def)

lemma length_reminder_shard_keys [id_simps]: "length reminder_shard_keys = 16"
  by (simp add: reminder_shard_keys_def reminder_shard_count_def)

subsection \<open>The routing token\<close>

definition pad_start :: "nat \<Rightarrow> char \<Rightarrow> string \<Rightarrow> string" where
  "pad_start n c s = replicate (n - length s) c @ s"

definition hash_route_token :: "string \<Rightarrow> string \<Rightarrow> string" where
  "hash_route_token type key =
     pad_start 7 (CHR ''0'') (show_base 36 (unat (fnv1a (actor_id \<lparr>ref_type = type, ref_key = key\<rparr>))))"

lemma length_show_base: "2 \<le> b \<Longrightarrow> n < b ^ k \<Longrightarrow> 0 < k \<Longrightarrow> length (show_base b n) \<le> k"
proof (induction k arbitrary: n)
  case (Suc k)
  show ?case
  proof (cases "n < b")
    case True
    then show ?thesis by (subst show_base.simps) simp
  next
    case False
    with Suc.prems have k: "0 < k" by (cases k) auto
    have "n div b < b ^ k"
      using Suc.prems by (simp add: div_less_iff_less_mult mult.commute)
    with Suc.IH Suc.prems k have "length (show_base b (n div b)) \<le> k" by blast
    with False Suc.prems show ?thesis by (subst show_base.simps) simp
  qed
qed simp

lemma length_pad_start: "length (pad_start n c s) = max n (length s)"
  by (simp add: pad_start_def max_def)

lemma hash_route_token_length: "length (hash_route_token type key) = 7"
proof -
  have "unat h < 36 ^ 7" for h :: "32 word"
    using unsigned_less [of h, where ?'a = nat] by simp
  then have "length (show_base 36 (unat h)) \<le> 7" for h :: "32 word"
    by (intro length_show_base) auto
  then show ?thesis by (simp add: hash_route_token_def length_pad_start max_absorb1)
qed

subsection \<open>Constant-time string comparison\<close>

text \<open>
  \<open>charCodeAt\<close> past the end is \<open>NaN\<close>, and \<open>NaN || 0\<close> is 0. The loop runs to the longer
  of the two, with the length difference folded in first. Lengths and code units are
  below \<open>2^31\<close>, so the bitwise operators act on naturals.
\<close>

definition char_code_at :: "string \<Rightarrow> nat \<Rightarrow> nat" where
  "char_code_at s i = (if i < length s then of_char (s ! i) else 0)"

definition timing_safe_equals :: "string \<Rightarrow> string \<Rightarrow> bool" where
  "timing_safe_equals a b =
     (foldl (\<lambda>mismatch i. mismatch OR (char_code_at a i XOR char_code_at b i))
        (length a XOR length b) [0..<max (length a) (length b)] = 0)"

lemma nat_xor_eq_0: "(a::nat) XOR b = 0 \<longleftrightarrow> a = b"
proof
  assume x: "a XOR b = 0"
  show "a = b"
  proof (rule bit_eqI)
    fix n
    have "bit (a XOR b) n = bit (0::nat) n" using x by simp
    then show "bit a n = bit b n" by (simp add: bit_xor_iff)
  qed
qed simp

lemma foldl_or_eq_0:
  "foldl (\<lambda>m i. m OR f i) (m0::nat) xs = 0 \<longleftrightarrow> m0 = 0 \<and> (\<forall>i \<in> set xs. f i = 0)"
  by (induction xs arbitrary: m0) (auto simp: or_eq_0_iff)

lemma timing_safe_equals_iff: "timing_safe_equals a b \<longleftrightarrow> a = b"
proof
  assume "timing_safe_equals a b"
  then have len: "length a = length b"
    and at: "\<forall>i < length a. char_code_at a i = char_code_at b i"
    by (auto simp: timing_safe_equals_def foldl_or_eq_0 nat_xor_eq_0)
  show "a = b"
    using len at by (auto simp: list_eq_iff_nth_eq char_code_at_def)
next
  assume "a = b"
  then show "timing_safe_equals a b"
    unfolding timing_safe_equals_def foldl_or_eq_0 by simp
qed

subsection \<open>The traceparent shape\<close>

text \<open>\<open>/^[0-9a-f]\{2\}-[0-9a-f]\{32\}-[0-9a-f]\{16\}-[0-9a-f]\{2\}$/\<close> and the three shapes the
  specification marks invalid.\<close>

definition is_lower_hex :: "char \<Rightarrow> bool" where
  "is_lower_hex c \<longleftrightarrow> is_digit c \<or> (97::nat) \<le> of_char c \<and> of_char c \<le> (102::nat)"

definition hex_run :: "nat \<Rightarrow> string \<Rightarrow> bool" where
  "hex_run n s \<longleftrightarrow> length s = n \<and> list_all is_lower_hex s"

definition traceparent_shape :: "string \<Rightarrow> bool" where
  "traceparent_shape v = (case split_on (CHR ''-'') v of
       [a, b, c, d] \<Rightarrow> hex_run 2 a \<and> hex_run 32 b \<and> hex_run 16 c \<and> hex_run 2 d
     | _ \<Rightarrow> False)"

definition is_traceparent :: "string \<Rightarrow> bool" where
  "is_traceparent v \<longleftrightarrow>
     traceparent_shape v
     \<and> \<not> starts_with v ''ff-''
     \<and> take 32 (drop 3 v) \<noteq> replicate 32 (CHR ''0'')
     \<and> take 16 (drop 36 v) \<noteq> replicate 16 (CHR ''0'')"

lemma traceparent_shape_length: "traceparent_shape v \<Longrightarrow> length v = 55"
proof -
  assume "traceparent_shape v"
  then obtain a b c d where s: "split_on (CHR ''-'') v = [a, b, c, d]"
    and l: "length a = 2" "length b = 32" "length c = 16" "length d = 2"
    by (auto simp: traceparent_shape_def hex_run_def split: list.splits)
  have "v = join_with (CHR ''-'') [a, b, c, d]" using join_split [of "CHR ''-''" v] s by simp
  with l show ?thesis by simp
qed

subsection \<open>Data keys\<close>

text \<open>\<open>actorKey()\<close>: the canonical tuple of one read, or its prefix when no method is given.
  The arguments are JSON primitives, anything else is the throw of \<open>assertKeyArgs\<close>.\<close>

datatype key_arg = KStr string | KNum int | KBool bool | KNull | KOther string

datatype key_error = NeedsKey | BadKeyArg nat

definition assert_key_args :: "key_arg list \<Rightarrow> key_error + unit" where
  "assert_key_args args =
     (case filter (\<lambda>(i, a). case a of KOther _ \<Rightarrow> True | _ \<Rightarrow> False) (zip [0..<length args] args) of
        [] \<Rightarrow> Inr ()
      | (i, _) # _ \<Rightarrow> Inl (BadKeyArg i))"

definition actor_key :: "string \<Rightarrow> string \<Rightarrow> string option \<Rightarrow> key_arg list \<Rightarrow> key_error + key_arg list" where
  "actor_key type key mth args =
     (if key = [] then Inl NeedsKey
      else case mth of
        None \<Rightarrow> Inr [KStr ''@actor'', KStr type, KStr key]
      | Some m \<Rightarrow> res_bind (assert_key_args args)
          (\<lambda>_. Inr ([KStr ''@actor'', KStr type, KStr key, KStr m] @ args)))"

end
