(* ===== verification/Cas_Storage.thy ===== *)
theory Cas_Storage
  imports Actor_Ids
begin

section \<open>Actor storage with optimistic concurrency\<close>

text \<open>
  \<open>host/storage-memory.ts\<close> and the contract of \<open>ActorStorage\<close> that its clients (the task
  ledger, the reminder table, the task roster) rely on. The contract is the locale
  \<open>cas_storage\<close>: a write carries the etag it expects, a mismatch is a conflict that
  changes nothing, and an etag is never given to two different records of one key.
  The last law is stated over the relation \<open>evolves\<close> that every operation of every
  writer stays inside, so that a client may reason about the other writers.
\<close>

named_theorems storage_simps \<open>equations of the storage operations\<close>

subsection \<open>The in-memory adapter\<close>

record 'v mem_record =
  mr_state :: 'v
  mr_etag :: string
  mr_log :: "'v list"

record 'v mem_storage =
  ms_records :: "(string, 'v mem_record) jmap"
  ms_counter :: nat

text \<open>\<open>ActorStorageConflict\<close>, and any other rejection of an adapter.\<close>

datatype storage_error = StorageConflict string string | StorageFailure string

fun is_storage_conflict :: "storage_error \<Rightarrow> bool" where
  "is_storage_conflict (StorageConflict type key) = True"
| "is_storage_conflict (StorageFailure m) = False"

definition memory_storage :: "'v mem_storage" where
  "memory_storage = \<lparr>ms_records = [], ms_counter = 0\<rparr>"

definition record_id :: "string \<Rightarrow> string \<Rightarrow> string" where
  "record_id type key = type @ nul # key"

definition mem_load :: "'v mem_storage \<Rightarrow> string \<Rightarrow> string \<Rightarrow> 'v mem_record option" where
  "mem_load s type key = jget (ms_records s) (record_id type key)"

definition etag_of :: "'v mem_record option \<Rightarrow> string option" where
  "etag_of r = map_option mr_etag r"

definition mem_save ::
  "'v mem_storage \<Rightarrow> string \<Rightarrow> string \<Rightarrow> 'v \<Rightarrow> string option
     \<Rightarrow> storage_error + (string \<times> 'v mem_storage)" where
  "mem_save s type key v expected =
     (let existing = jget (ms_records s) (record_id type key) in
      if etag_of existing \<noteq> expected then Inl (StorageConflict type key)
      else let c = Suc (ms_counter s); etag = show_nat c in
        Inr (etag, s\<lparr>ms_counter := c,
               ms_records := jset (ms_records s) (record_id type key)
                 \<lparr>mr_state = v, mr_etag = etag, mr_log = []\<rparr>\<rparr>))"

definition mem_append_text ::
  "'v mem_storage \<Rightarrow> string \<Rightarrow> string \<Rightarrow> 'v \<Rightarrow> string
     \<Rightarrow> storage_error + (string \<times> 'v mem_storage)" where
  "mem_append_text s type key entry expected =
     (case jget (ms_records s) (record_id type key) of
        None \<Rightarrow> Inl (StorageConflict type key)
      | Some r \<Rightarrow>
          if mr_etag r \<noteq> expected then Inl (StorageConflict type key)
          else let c = Suc (ms_counter s); etag = show_nat c in
            Inr (etag, s\<lparr>ms_counter := c,
                   ms_records := jset (ms_records s) (record_id type key)
                     (r\<lparr>mr_log := mr_log r @ [entry], mr_etag := etag\<rparr>)\<rparr>))"

definition mem_clear ::
  "'v mem_storage \<Rightarrow> string \<Rightarrow> string \<Rightarrow> string option \<Rightarrow> storage_error + 'v mem_storage" where
  "mem_clear s type key expected =
     (let existing = jget (ms_records s) (record_id type key) in
      if existing = None \<and> expected = None then Inr s
      else if etag_of existing \<noteq> expected then Inl (StorageConflict type key)
      else Inr (s\<lparr>ms_records := jdel (ms_records s) (record_id type key)\<rparr>))"

text \<open>A record's contents: what \<open>load\<close> hands out besides the etag.\<close>

definition mem_view :: "'v mem_storage \<Rightarrow> string \<Rightarrow> string \<Rightarrow> (('v \<times> 'v list) \<times> string) option" where
  "mem_view s type key = map_option (\<lambda>r. ((mr_state r, mr_log r), mr_etag r)) (mem_load s type key)"

subsection \<open>One writer's step, and what all writers keep\<close>

text \<open>Any operation of any writer, successful or not; conflicts leave the store alone.\<close>

inductive mem_step :: "'v mem_storage \<Rightarrow> 'v mem_storage \<Rightarrow> bool" where
  save: "mem_save s type key v e = Inr (et, s') \<Longrightarrow> mem_step s s'"
| append: "mem_append_text s type key v et0 = Inr (et, s') \<Longrightarrow> mem_step s s'"
| clear: "mem_clear s type key e = Inr s' \<Longrightarrow> mem_step s s'"

abbreviation mem_evolves :: "'v mem_storage \<Rightarrow> 'v mem_storage \<Rightarrow> bool" where
  "mem_evolves \<equiv> mem_step\<^sup>*\<^sup>*"

text \<open>Every etag in the store was minted by the counter.\<close>

definition mem_ok :: "'v mem_storage \<Rightarrow> bool" where
  "mem_ok s \<longleftrightarrow> (\<forall>k r. jget (ms_records s) k = Some r
                    \<longrightarrow> (\<exists>n. 0 < n \<and> n \<le> ms_counter s \<and> mr_etag r = show_nat n))"

lemma mem_ok_memory_storage [storage_simps, simp]: "mem_ok memory_storage"
  by (simp add: mem_ok_def memory_storage_def)

lemma mem_step_cases_record:
  assumes "mem_step s s'"
  shows "ms_counter s \<le> ms_counter s'
    \<and> (\<forall>k r. jget (ms_records s') k = Some r \<longrightarrow>
          jget (ms_records s) k = Some r
          \<or> mr_etag r = show_nat (Suc (ms_counter s)) \<and> ms_counter s' = Suc (ms_counter s))"
  using assms
  by (cases rule: mem_step.cases)
     (auto simp: mem_save_def mem_append_text_def mem_clear_def Let_def
           split: if_splits option.splits)

lemma mem_step_ok:
  assumes "mem_step s s'" "mem_ok s"
  shows "mem_ok s'"
  unfolding mem_ok_def
proof (intro allI impI)
  fix k r
  assume r: "jget (ms_records s') k = Some r"
  from mem_step_cases_record [OF assms(1)] have le: "ms_counter s \<le> ms_counter s'"
    and alt: "jget (ms_records s) k = Some r
          \<or> mr_etag r = show_nat (Suc (ms_counter s)) \<and> ms_counter s' = Suc (ms_counter s)"
    using r by auto
  from alt show "\<exists>n. 0 < n \<and> n \<le> ms_counter s' \<and> mr_etag r = show_nat n"
  proof
    assume "jget (ms_records s) k = Some r"
    with assms(2) obtain n where "0 < n" "n \<le> ms_counter s" "mr_etag r = show_nat n"
      by (auto simp: mem_ok_def)
    with le show ?thesis using le_trans by blast
  qed auto
qed

lemma mem_evolves_ok: "mem_evolves s s' \<Longrightarrow> mem_ok s \<Longrightarrow> mem_ok s'"
  by (induction rule: rtranclp_induct) (auto intro: mem_step_ok)

text \<open>A record found later is the old one, or carries an etag minted since.\<close>

lemma mem_evolves_record:
  assumes "mem_evolves s s'"
  shows "ms_counter s \<le> ms_counter s'
    \<and> (\<forall>k r. jget (ms_records s') k = Some r \<longrightarrow>
          jget (ms_records s) k = Some r
          \<or> (\<exists>n. ms_counter s < n \<and> n \<le> ms_counter s' \<and> mr_etag r = show_nat n))"
  using assms
proof (induction rule: rtranclp_induct)
  case (step t u)
  note tu = mem_step_cases_record [OF step.hyps(2)]
  show ?case
  proof (intro conjI allI impI)
    show "ms_counter s \<le> ms_counter u" using step.IH tu by linarith
  next
    fix k r
    assume r: "jget (ms_records u) k = Some r"
    show "jget (ms_records s) k = Some r
          \<or> (\<exists>n. ms_counter s < n \<and> n \<le> ms_counter u \<and> mr_etag r = show_nat n)"
    proof (cases "jget (ms_records t) k = Some r")
      case True
      with step.IH tu show ?thesis by (metis le_trans)
    next
      case False
      with r tu have "mr_etag r = show_nat (Suc (ms_counter t))" "ms_counter u = Suc (ms_counter t)"
        by auto
      with step.IH show ?thesis by (metis le_imp_less_Suc le_refl)
    qed
  qed
qed simp

lemma mem_etag_stable:
  assumes ok: "mem_ok s" and ev: "mem_evolves s s'"
    and a: "mem_view s type key = Some (v, e)" and b: "mem_view s' type key = Some (v', e)"
  shows "v' = v"
proof -
  obtain r r' where r: "jget (ms_records s) (record_id type key) = Some r" "mr_etag r = e"
      "v = (mr_state r, mr_log r)"
    and r': "jget (ms_records s') (record_id type key) = Some r'" "mr_etag r' = e"
      "v' = (mr_state r', mr_log r')"
    using a b by (auto simp: mem_view_def mem_load_def)
  obtain n where n: "n \<le> ms_counter s" "mr_etag r = show_nat n"
    using ok r(1) by (auto simp: mem_ok_def)
  have "r' = r"
  proof (rule ccontr)
    assume "r' \<noteq> r"
    then have "jget (ms_records s) (record_id type key) \<noteq> Some r'" using r(1) by simp
    then obtain m where "ms_counter s < m" "mr_etag r' = show_nat m"
      using mem_evolves_record [OF ev] r'(1) by blast
    with n r(2) r'(2) show False by simp
  qed
  then show ?thesis using r(3) r'(3) by simp
qed

lemma mem_step_evolves: "mem_step s s' \<Longrightarrow> mem_evolves s s'"
  by (rule r_into_rtranclp)

lemmas mem_evolves_intros = mem_step.intros [THEN mem_step_evolves]

subsection \<open>The contract\<close>

locale cas_storage =
  fixes load :: "'s \<Rightarrow> string \<Rightarrow> string \<Rightarrow> ('r \<times> string) option"
    and save :: "'s \<Rightarrow> string \<Rightarrow> string \<Rightarrow> 'v \<Rightarrow> string option \<Rightarrow> storage_error + (string \<times> 's)"
    and clear :: "'s \<Rightarrow> string \<Rightarrow> string \<Rightarrow> string option \<Rightarrow> storage_error + 's"
    and wrap :: "'v \<Rightarrow> 'r"
    and evolves :: "'s \<Rightarrow> 's \<Rightarrow> bool"
    and ok :: "'s \<Rightarrow> bool"
  assumes save_ok: "save s t k v e = Inr (et, s') \<Longrightarrow> map_option snd (load s t k) = e"
    and save_load: "save s t k v e = Inr (et, s') \<Longrightarrow> load s' t k = Some (wrap v, et)"
    and save_accepts: "map_option snd (load s t k) = e \<Longrightarrow> \<exists>et s'. save s t k v e = Inr (et, s')"
    and clear_ok: "clear s t k e = Inr s' \<Longrightarrow> map_option snd (load s t k) = e"
    and clear_load: "clear s t k e = Inr s' \<Longrightarrow> load s' t k = None"
    and clear_accepts: "map_option snd (load s t k) = e \<Longrightarrow> \<exists>s'. clear s t k e = Inr s'"
    and other_save: "save s t k v e = Inr (et, s') \<Longrightarrow> record_id t' k' \<noteq> record_id t k \<Longrightarrow> load s' t' k' = load s t' k'"
    and other_clear: "clear s t k e = Inr s' \<Longrightarrow> record_id t' k' \<noteq> record_id t k \<Longrightarrow> load s' t' k' = load s t' k'"
    and save_evolves: "save s t k v e = Inr (et, s') \<Longrightarrow> evolves s s'"
    and clear_evolves: "clear s t k e = Inr s' \<Longrightarrow> evolves s s'"
    and evolves_refl: "evolves s s"
    and evolves_trans: "evolves s s' \<Longrightarrow> evolves s' s'' \<Longrightarrow> evolves s s''"
    and evolves_ok: "evolves s s' \<Longrightarrow> ok s \<Longrightarrow> ok s'"
    and etag_stable: "ok s \<Longrightarrow> evolves s s' \<Longrightarrow> load s t k = Some (r, et) \<Longrightarrow> load s' t k = Some (r', et) \<Longrightarrow> r' = r"
begin

lemma matching_etag_same_record:
  assumes "ok s" "evolves s s'" "map_option snd (load s' t k) = map_option snd (load s t k)"
  shows "load s' t k = load s t k"
proof (cases "load s t k")
  case None
  with assms(3) show ?thesis by simp
next
  case (Some p)
  then obtain r et where p: "load s t k = Some (r, et)" by (cases p) auto
  with assms(3) obtain r' where "load s' t k = Some (r', et)" by auto
  with etag_stable [OF assms(1,2) p] p show ?thesis by simp
qed

text \<open>The heart of every client: a write whose etag was read earlier lands on exactly the
  record that was read, whatever the other writers did in between.\<close>

lemma cas_save_sees_read:
  assumes "ok s" "evolves s s'" "save s' t k v (map_option snd (load s t k)) = Inr (et, s'')"
  shows "load s' t k = load s t k \<and> load s'' t k = Some (wrap v, et) \<and> evolves s s''"
proof -
  have "load s' t k = load s t k"
    using matching_etag_same_record [OF assms(1,2)] save_ok [OF assms(3)] by simp
  with save_load [OF assms(3)] evolves_trans [OF assms(2) save_evolves [OF assms(3)]]
  show ?thesis by simp
qed

lemma cas_clear_sees_read:
  assumes "ok s" "evolves s s'" "clear s' t k (map_option snd (load s t k)) = Inr s''"
  shows "load s' t k = load s t k \<and> load s'' t k = None \<and> evolves s s''"
proof -
  have "load s' t k = load s t k"
    using matching_etag_same_record [OF assms(1,2)] clear_ok [OF assms(3)] by simp
  with clear_load [OF assms(3)] evolves_trans [OF assms(2) clear_evolves [OF assms(3)]]
  show ?thesis by simp
qed

end

text \<open>The in-memory adapter keeps the contract: a saved tree is the state with an empty log.\<close>

definition fresh_record :: "'v \<Rightarrow> 'v \<times> 'v list" where
  "fresh_record v = (v, [])"

interpretation mem: cas_storage mem_view mem_save mem_clear fresh_record mem_evolves mem_ok
proof unfold_locales
  show "mem_clear s t k e = Inr s' \<Longrightarrow> mem_evolves s s'" for s s' :: "'a mem_storage" and t k e
    by (rule mem_evolves_intros(3))
  show "mem_save s t k v e = Inr (et, s') \<Longrightarrow> mem_evolves s s'" for s s' :: "'a mem_storage" and t k v e et
    by (rule mem_evolves_intros(1))
  show "mem_evolves s s' \<Longrightarrow> mem_ok s \<Longrightarrow> mem_ok s'" for s s' :: "'a mem_storage"
    by (rule mem_evolves_ok)
  show "mem_ok s \<Longrightarrow> mem_evolves s s' \<Longrightarrow> mem_view s t k = Some (r, et)
      \<Longrightarrow> mem_view s' t k = Some (r', et) \<Longrightarrow> r' = r"
    for s s' :: "'a mem_storage" and t k r et r'
    by (rule mem_etag_stable)
qed (auto simp: mem_view_def mem_load_def mem_save_def mem_clear_def fresh_record_def etag_of_def
       Let_def option.map_comp comp_def split: if_splits
       intro: rtranclp_trans mem_evolves_intros)

end
