(* ===== verification/Task_Ledger.thy ===== *)
theory Task_Ledger
  imports Cas_Storage
begin

section \<open>The task ledger\<close>

text \<open>
  \<open>host/tasks.ts\<close>: the record of the detached runs of one actor, edited by
  reload-and-reapply under the storage CAS. The definitions take the storage operations
  and the host's codec as arguments; the locale lemmas use the contract of
  \<^verbatim>\<open>Cas_Storage\<close>, and the interpretation puts them on the in-memory adapter. Other
  writers act between a load and the write that follows it: \<open>env i\<close> is what they do to
  the store during attempt \<open>i\<close>.
\<close>

record 'i task_entry =
  te_input :: "'i option"
  te_started :: int
  te_restarts :: nat

type_synonym 'i task_ledger = "(string, 'i task_entry) jmap"

definition tasks_type :: string where
  "tasks_type = ''$sigx:tasks''"

definition mutate_attempts :: nat where
  "mutate_attempts = 3"

text \<open>\<open>load\<close>: an absent record is the empty ledger with no etag.\<close>

definition ledger_load ::
  "('s \<Rightarrow> string \<Rightarrow> string \<Rightarrow> ('r \<times> string) option) \<Rightarrow> ('r \<Rightarrow> 'i task_ledger)
     \<Rightarrow> string \<Rightarrow> 's \<Rightarrow> 'i task_ledger \<times> string option" where
  "ledger_load ld revive aid s =
     (case ld s tasks_type aid of
        None \<Rightarrow> ([], None)
      | Some (r, et) \<Rightarrow> (revive r, Some et))"

text \<open>The write half of one attempt: an empty ledger is a deleted record.\<close>

definition ledger_store ::
  "('s \<Rightarrow> string \<Rightarrow> string \<Rightarrow> 'v \<Rightarrow> string option \<Rightarrow> storage_error + (string \<times> 's))
     \<Rightarrow> ('s \<Rightarrow> string \<Rightarrow> string \<Rightarrow> string option \<Rightarrow> storage_error + 's)
     \<Rightarrow> ('i task_ledger \<Rightarrow> 'v) \<Rightarrow> string \<Rightarrow> 'i task_ledger \<Rightarrow> string option \<Rightarrow> 's \<Rightarrow> storage_error + 's" where
  "ledger_store sv cl encode aid ledger etag s =
     (if ledger = [] then (if etag \<noteq> None then cl s tasks_type aid etag else Inr s)
      else (case sv s tasks_type aid (encode ledger) etag of
              Inl e \<Rightarrow> Inl e
            | Inr (_, s') \<Rightarrow> Inr s'))"

text \<open>\<open>mutateNow\<close>, with the attempts left as the recursion's argument.\<close>

fun mutate_now ::
  "('s \<Rightarrow> string \<Rightarrow> string \<Rightarrow> ('r \<times> string) option)
     \<Rightarrow> ('s \<Rightarrow> string \<Rightarrow> string \<Rightarrow> 'v \<Rightarrow> string option \<Rightarrow> storage_error + (string \<times> 's))
     \<Rightarrow> ('s \<Rightarrow> string \<Rightarrow> string \<Rightarrow> string option \<Rightarrow> storage_error + 's)
     \<Rightarrow> ('i task_ledger \<Rightarrow> 'v) \<Rightarrow> ('r \<Rightarrow> 'i task_ledger) \<Rightarrow> ('i task_ledger \<Rightarrow> 'j)
     \<Rightarrow> string \<Rightarrow> ('i task_ledger \<Rightarrow> 'i task_ledger)
     \<Rightarrow> (nat \<Rightarrow> 's \<Rightarrow> 's) \<Rightarrow> nat \<Rightarrow> 's \<Rightarrow> (storage_error + 'i task_ledger) \<times> 's" where
  "mutate_now ld sv cl encode revive to_json aid edit env left s =
     (let (ledger, etag) = ledger_load ld revive aid s;
          edited = edit ledger
      in if to_json edited = to_json ledger then (Inr edited, s)
         else let s1 = env left s in
           case ledger_store sv cl encode aid edited etag s1 of
             Inr s2 \<Rightarrow> (Inr edited, s2)
           | Inl e \<Rightarrow>
               (case left of
                  0 \<Rightarrow> (Inl e, s1)
                | Suc n \<Rightarrow> if is_storage_conflict e
                          then mutate_now ld sv cl encode revive to_json aid edit env n s1
                          else (Inl e, s1)))"

declare mutate_now.simps [simp del]

text \<open>\<open>mutate\<close>: one writer chain, each edit after the one before it has settled.\<close>

fun ledger_chain ::
  "('s \<Rightarrow> string \<Rightarrow> string \<Rightarrow> ('r \<times> string) option)
     \<Rightarrow> ('s \<Rightarrow> string \<Rightarrow> string \<Rightarrow> 'v \<Rightarrow> string option \<Rightarrow> storage_error + (string \<times> 's))
     \<Rightarrow> ('s \<Rightarrow> string \<Rightarrow> string \<Rightarrow> string option \<Rightarrow> storage_error + 's)
     \<Rightarrow> ('i task_ledger \<Rightarrow> 'v) \<Rightarrow> ('r \<Rightarrow> 'i task_ledger) \<Rightarrow> ('i task_ledger \<Rightarrow> 'j)
     \<Rightarrow> string \<Rightarrow> (nat \<Rightarrow> 's \<Rightarrow> 's) \<Rightarrow> ('i task_ledger \<Rightarrow> 'i task_ledger) list \<Rightarrow> 's
     \<Rightarrow> (storage_error + 'i task_ledger) list \<times> 's" where
  "ledger_chain ld sv cl encode revive to_json aid env [] s = ([], s)"
| "ledger_chain ld sv cl encode revive to_json aid env (edit # edits) s =
     (let (r, s1) = mutate_now ld sv cl encode revive to_json aid edit env (mutate_attempts - 1) s;
          (rs, s2) = ledger_chain ld sv cl encode revive to_json aid env edits s1
      in (r # rs, s2))"

text \<open>What the runtime edits: a start, a restart, a finish.\<close>

definition ledger_start :: "string \<Rightarrow> 'i option \<Rightarrow> int \<Rightarrow> 'i task_ledger \<Rightarrow> 'i task_ledger" where
  "ledger_start name input now l = jset l name \<lparr>te_input = input, te_started = now, te_restarts = 0\<rparr>"

definition ledger_finish :: "string \<Rightarrow> 'i task_ledger \<Rightarrow> 'i task_ledger" where
  "ledger_finish name l = jdel l name"

subsection \<open>What an edit did to the store\<close>

text \<open>
  The store an edit of \<open>n\<close> retries meets once the others have acted in every attempt down to the one with \<open>k\<close> left: a failed
  attempt changes nothing itself. \<open>applied\<close> is the outcome of a successful edit: it applied to the ledger in that very store, and
  either changed nothing, or the store after it is the one its own write made of that store.
\<close>

definition store_at :: "(nat \<Rightarrow> 's \<Rightarrow> 's) \<Rightarrow> nat \<Rightarrow> nat \<Rightarrow> 's \<Rightarrow> 's" where
  "store_at env n k s = fold env (rev [k..<Suc n]) s"

definition applied ::
  "('s \<Rightarrow> string \<Rightarrow> string \<Rightarrow> ('r \<times> string) option)
     \<Rightarrow> ('s \<Rightarrow> string \<Rightarrow> string \<Rightarrow> 'v \<Rightarrow> string option \<Rightarrow> storage_error + (string \<times> 's))
     \<Rightarrow> ('s \<Rightarrow> string \<Rightarrow> string \<Rightarrow> string option \<Rightarrow> storage_error + 's)
     \<Rightarrow> ('i task_ledger \<Rightarrow> 'v) \<Rightarrow> ('r \<Rightarrow> 'i task_ledger)
     \<Rightarrow> string \<Rightarrow> ('i task_ledger \<Rightarrow> 'i task_ledger) \<Rightarrow> 's \<Rightarrow> 's \<Rightarrow> 'i task_ledger \<Rightarrow> bool" where
  "applied ld sv cl encode revive aid edit before after ledger \<longleftrightarrow>
     (let (old, etag) = ledger_load ld revive aid before in
      ledger = edit old \<and> fst (ledger_load ld revive aid after) = ledger
      \<and> (if ledger = old then after = before else ledger_store sv cl encode aid ledger etag before = Inr after))"

lemma store_at_simps [simp]: "store_at env n (Suc n) s = s" "store_at env n n s = env n s"
  "k \<le> Suc n \<Longrightarrow> store_at env n k (env (Suc n) s) = store_at env (Suc n) k s"
  by (simp_all add: store_at_def)

context cas_storage
begin

lemma ledger_load_etag: "snd (ledger_load load revive aid s) = map_option snd (load s tasks_type aid)"
  by (simp add: ledger_load_def split: option.splits prod.splits)

lemma ledger_load_cong:
  "load s' tasks_type aid = load s tasks_type aid
     \<Longrightarrow> ledger_load load revive aid s' = ledger_load load revive aid s"
  by (simp add: ledger_load_def)

lemma ledger_store_applied:
  assumes rt: "\<And>l. revive (wrap (encode l)) = l"
    and ok: "ok s" and ev: "evolves s s1"
    and st: "ledger_store save clear encode aid l (snd (ledger_load load revive aid s)) s1 = Inr s2"
    and none: "l = [] \<Longrightarrow> load s tasks_type aid \<noteq> None"
  shows "load s1 tasks_type aid = load s tasks_type aid
         \<and> fst (ledger_load load revive aid s2) = l \<and> evolves s s2"
proof (cases "l = []")
  case True
  with none st have "clear s1 tasks_type aid (map_option snd (load s tasks_type aid)) = Inr s2"
    by (simp add: ledger_store_def ledger_load_etag)
  from cas_clear_sees_read [OF ok ev this] True show ?thesis
    by (simp add: ledger_load_def)
next
  case False
  with st obtain et where
    "save s1 tasks_type aid (encode l) (map_option snd (load s tasks_type aid)) = Inr (et, s2)"
    by (auto simp: ledger_store_def ledger_load_etag split: sum.splits)
  from cas_save_sees_read [OF ok ev this] show ?thesis
    by (simp add: ledger_load_def rt)
qed

lemma ledger_empty_unloaded:
  "load s tasks_type aid = None \<Longrightarrow> fst (ledger_load load revive aid s) = []"
  by (simp add: ledger_load_def)

text \<open>One attempt that wrote: the edit met the record it had loaded.\<close>

lemma mutate_attempt_applied:
  assumes rt: "\<And>l. revive (wrap (encode l)) = l"
    and ok: "ok s" and ev: "evolves s s1"
    and edited: "edited = edit (fst (ledger_load load revive aid s))"
    and changed: "edited \<noteq> fst (ledger_load load revive aid s)"
    and st: "ledger_store save clear encode aid edited (snd (ledger_load load revive aid s)) s1 = Inr s2"
  shows "applied load save clear encode revive aid edit s1 s2 edited"
proof -
  have none: "edited = [] \<Longrightarrow> load s tasks_type aid \<noteq> None"
    using changed ledger_empty_unloaded by metis
  note res = ledger_store_applied [OF rt ok ev st none]
  then have "ledger_load load revive aid s1 = ledger_load load revive aid s" using ledger_load_cong [of s1 aid s revive] by blast
  with res edited changed st show ?thesis by (simp add: applied_def split_beta)
qed

lemma mutate_now_applied:
  assumes rt: "\<And>l. revive (wrap (encode l)) = l"
    and inj: "\<And>l l'. to_json l = to_json l' \<Longrightarrow> l = l'"
    and env: "\<And>i s. evolves s (env i s)"
  shows "ok s \<Longrightarrow>
         mutate_now load save clear encode revive to_json aid edit env n s = (Inr ledger, s') \<Longrightarrow>
         \<exists>k. k \<le> (if ledger = fst (ledger_load load revive aid (store_at env n k s)) then Suc n else n)
           \<and> applied load save clear encode revive aid edit (store_at env n k s) s' ledger"
proof (induction n arbitrary: s)
  case (0 s)
  let ?l = "ledger_load load revive aid s" and ?s1 = "env 0 s"
  show ?case
  proof (cases "to_json (edit (fst ?l)) = to_json (fst ?l)")
    case True
    with 0 inj have "applied load save clear encode revive aid edit s s' ledger" "ledger = fst ?l"
      by (auto simp: mutate_now.simps applied_def split_beta)
    then show ?thesis by (intro exI [of _ "Suc 0"]) simp
  next
    case False
    with 0 have st: "ledger_store save clear encode aid ledger (snd ?l) ?s1 = Inr s'"
      and l: "ledger = edit (fst ?l)"
      by (auto simp: mutate_now.simps split_beta Let_def split: sum.splits)
    from False l have "ledger \<noteq> fst ?l" by auto
    from mutate_attempt_applied [where edit = edit and revive = revive and encode = encode, OF rt "0.prems"(1) env l this st]
    show ?thesis by (intro exI [of _ 0]) simp
  qed
next
  case (Suc n s)
  let ?l = "ledger_load load revive aid s" and ?s1 = "env (Suc n) s"
  show ?case
  proof (cases "to_json (edit (fst ?l)) = to_json (fst ?l)")
    case True
    with Suc.prems inj have "applied load save clear encode revive aid edit s s' ledger" "ledger = fst ?l"
      by (auto simp: mutate_now.simps applied_def split_beta)
    then show ?thesis by (intro exI [of _ "Suc (Suc n)"]) simp
  next
    case False
    show ?thesis
    proof (cases "ledger_store save clear encode aid (edit (fst ?l)) (snd ?l) ?s1")
      case (Inr s2)
      with False Suc.prems have st: "ledger_store save clear encode aid ledger (snd ?l) ?s1 = Inr s'"
        and l: "ledger = edit (fst ?l)"
        by (auto simp: mutate_now.simps split_beta Let_def)
      from False l have "ledger \<noteq> fst ?l" by auto
      from mutate_attempt_applied [where edit = edit and revive = revive and encode = encode, OF rt Suc.prems(1) env l this st]
      show ?thesis by (intro exI [of _ "Suc n"]) simp
    next
      case (Inl e)
      with False Suc.prems
      have "mutate_now load save clear encode revive to_json aid edit env n ?s1 = (Inr ledger, s')"
        by (subst (asm) mutate_now.simps) (auto simp: split_beta Let_def split: if_splits)
      with Suc.IH [OF evolves_ok [OF env Suc.prems(1)]] obtain k where
        k: "k \<le> (if ledger = fst (ledger_load load revive aid (store_at env n k ?s1)) then Suc n else n)"
          "applied load save clear encode revive aid edit (store_at env n k ?s1) s' ledger"
        by blast
      then have "k \<le> Suc n" by (simp split: if_splits)
      with k show ?thesis by (intro exI [of _ k]) simp
    qed
  qed
qed

text \<open>With nobody else writing, the first attempt lands: no conflict is possible.\<close>

lemma mutate_now_alone:
  assumes rt: "\<And>l. revive (wrap (encode l)) = l"
    and inj: "\<And>l l'. to_json l = to_json l' \<Longrightarrow> l = l'"
    and ok: "ok s"
  shows "\<exists>s'. mutate_now load save clear encode revive to_json aid edit (\<lambda>_ s. s) n s
           = (Inr (edit (fst (ledger_load load revive aid s))), s')
         \<and> fst (ledger_load load revive aid s') = edit (fst (ledger_load load revive aid s))
         \<and> evolves s s'"
proof (cases "edit (fst (ledger_load load revive aid s)) = fst (ledger_load load revive aid s)")
  case True
  then show ?thesis by (auto simp: mutate_now.simps split_beta evolves_refl)
next
  case False
  let ?l = "ledger_load load revive aid s"
  have none: "edit (fst ?l) = [] \<Longrightarrow> load s tasks_type aid \<noteq> None"
    using False ledger_empty_unloaded by metis
  obtain sa where sa: "clear s tasks_type aid (snd ?l) = Inr sa"
    using clear_accepts ledger_load_etag by metis
  obtain et sb where sb: "save s tasks_type aid (encode (edit (fst ?l))) (snd ?l) = Inr (et, sb)"
    using save_accepts ledger_load_etag by metis
  obtain s2 where st: "ledger_store save clear encode aid (edit (fst ?l)) (snd ?l) s = Inr s2"
    unfolding ledger_store_def sa sb by (cases "edit (fst ?l) = []"; cases "snd ?l = None") auto
  have "to_json (edit (fst ?l)) \<noteq> to_json (fst ?l)" using False inj by blast
  with st have "mutate_now load save clear encode revive to_json aid edit (\<lambda>_ s. s) n s
      = (Inr (edit (fst ?l)), s2)"
    by (subst mutate_now.simps) (simp add: split_beta Let_def)
  with ledger_store_applied [OF rt ok evolves_refl st none] show ?thesis by blast
qed

end

subsection \<open>On the in-memory adapter\<close>

definition mem_mutate ::
  "string \<Rightarrow> ('i task_ledger \<Rightarrow> 'i task_ledger)
     \<Rightarrow> (nat \<Rightarrow> 'i task_ledger mem_storage \<Rightarrow> 'i task_ledger mem_storage) \<Rightarrow> nat
     \<Rightarrow> 'i task_ledger mem_storage \<Rightarrow> (storage_error + 'i task_ledger) \<times> 'i task_ledger mem_storage" where
  "mem_mutate aid edit env n s = mutate_now mem_view mem_save mem_clear id fst id aid edit env n s"

definition mem_ledger :: "string \<Rightarrow> 'i task_ledger mem_storage \<Rightarrow> 'i task_ledger" where
  "mem_ledger aid s = fst (ledger_load mem_view fst aid s)"

text \<open>
  C36. No lost updates: whatever other writers do to the store between the reads and the
  writes of a ledger edit, an edit that reports success and changed something applied to the ledger in the very store its write met: the
  one the others had left when one of its at most \<open>n + 1\<close> attempts came to write. The store afterwards differs from that one by the
  edit's own write alone, so no entry another writer had put there is undone except by the edit itself. An edit that
  changed nothing wrote nothing.
\<close>

theorem ledger_no_lost_update:
  assumes "mem_ok s" and "\<And>i s. mem_evolves s (env i s)"
    and "mem_mutate aid edit env n s = (Inr ledger, s')"
  shows "\<exists>k. let before = store_at env n k s in
     ledger = edit (mem_ledger aid before) \<and> mem_ledger aid s' = ledger
     \<and> (if ledger = mem_ledger aid before then k \<le> Suc n \<and> s' = before else k \<le> n \<and> mem_step before s')"
proof -
  have rt: "fst (fresh_record (id l)) = l" for l :: "'a task_ledger"
    by (simp add: fresh_record_def)
  from mem.mutate_now_applied [where revive = fst and encode = id and to_json = id and env = env, OF rt _ assms(2,1) assms(3) [unfolded mem_mutate_def]]
  obtain k where k: "k \<le> (if ledger = mem_ledger aid (store_at env n k s) then Suc n else n)"
      "applied mem_view mem_save mem_clear id fst aid edit (store_at env n k s) s' ledger" unfolding mem_ledger_def
    by auto
  let ?b = "store_at env n k s"
  have step: "mem_step ?b s'" if "ledger_store mem_save mem_clear id aid ledger (snd (ledger_load mem_view fst aid ?b)) ?b = Inr s'"
    "ledger \<noteq> mem_ledger aid ?b"
  proof (cases "ledger = []")
    case True
    with that have "snd (ledger_load mem_view fst aid ?b) \<noteq> None"
      by (auto simp: mem_ledger_def ledger_load_def split: option.splits prod.splits)
    with that True show ?thesis by (auto simp: ledger_store_def intro: mem_step.intros)
  next
    case False
    with that(1) show ?thesis by (auto simp: ledger_store_def split: sum.splits intro: mem_step.intros)
  qed
  from k step show ?thesis by (intro exI [of _ k]) (auto simp: applied_def mem_ledger_def Let_def split_beta split: if_splits)
qed

text \<open>
  A ledger edit with no other writer always succeeds at its first attempt, and the
  stored ledger is the edit of the stored ledger.
\<close>

theorem ledger_mutate_alone:
  assumes "mem_ok s"
  shows "\<exists>s'. mem_mutate aid edit (\<lambda>_ s. s) n s = (Inr (edit (mem_ledger aid s)), s')
           \<and> mem_ledger aid s' = edit (mem_ledger aid s)"
proof -
  have rt: "fst (fresh_record (id l)) = l" for l :: "'a task_ledger"
    by (simp add: fresh_record_def)
  from mem.mutate_now_alone [where revive = fst and encode = id and to_json = id, OF rt _ assms]
  show ?thesis by (simp add: mem_mutate_def mem_ledger_def) blast
qed

text \<open>A second writer that starts a run of its own just before our first write lands.\<close>

definition rival_write :: "string \<Rightarrow> nat \<Rightarrow> nat task_ledger mem_storage \<Rightarrow> nat task_ledger mem_storage" where
  "rival_write aid i s =
     (if i = 2 then (case mem_save s tasks_type aid (ledger_start ''b'' None 5 (mem_ledger aid s))
                              (etag_of (mem_load s tasks_type aid)) of
                       Inl _ \<Rightarrow> s | Inr (_, s') \<Rightarrow> s')
      else s)"

lemma rival_write_evolves: "mem_evolves s (rival_write aid i s)"
  by (auto simp: rival_write_def split: sum.splits intro: mem_evolves_intros(1))

theorem ledger_no_lost_update_witness:
  "\<exists>k. [(''b'', \<lparr>te_input = None, te_started = 5, te_restarts = 0\<rparr>),
        (''a'', \<lparr>te_input = Some (7::nat), te_started = 9, te_restarts = 0\<rparr>)]
         = ledger_start ''a'' (Some 7) 9 (mem_ledger ''x'' (store_at (rival_write ''x'') 2 k memory_storage))"
proof -
  let ?m = "mem_mutate ''x'' (ledger_start ''a'' (Some (7::nat)) 9) (rival_write ''x'') 2 memory_storage"
  have run: "?m = (Inr [(''b'', \<lparr>te_input = None, te_started = 5, te_restarts = 0\<rparr>),
        (''a'', \<lparr>te_input = Some 7, te_started = 9, te_restarts = 0\<rparr>)], snd ?m)"
    by (simp add: prod_eq_iff) code_simp
  from ledger_no_lost_update [OF mem_ok_memory_storage rival_write_evolves run]
  show ?thesis by (auto simp: Let_def)
qed

theorem ledger_mutate_alone_witness:
  "\<exists>s'. mem_mutate ''x'' (ledger_start ''a'' (Some (7::nat)) 9) (\<lambda>_ s. s) 2 memory_storage
          = (Inr (ledger_start ''a'' (Some 7) 9 (mem_ledger ''x'' memory_storage)), s')"
  using ledger_mutate_alone [OF mem_ok_memory_storage] by blast

end
