(* ===== verification/Cluster_Directory.thy ===== *)
theory Cluster_Directory
  imports Actor_Ids
begin

section \<open>Cluster membership and the actor directory\<close>

text \<open>
  \<open>cluster/types.ts\<close> and \<open>cluster/memory.ts\<close>: the member descriptor and view, the
  in-process hub (membership handles, kill, expire, the cached view) and the directory.
  The promises placement relies on are the locale \<open>actor_directory\<close>, which the hub's
  directory satisfies.
\<close>

named_theorems directory_simps \<open>equations of the directory operations\<close>

subsection \<open>Descriptors and views\<close>

datatype host_status = Joining | Active | Leaving

record host_desc =
  hd_id :: string
  hd_epoch :: int
  hd_address :: string
  hd_status :: host_status
  hd_addresses :: "(string, string) jmap option"
  hd_public :: "string option"
  hd_types :: "string list option"

record member_view =
  mv_version :: nat
  mv_hosts :: "host_desc list"

subsection \<open>The directory\<close>

record dir_entry =
  de_host :: string
  de_activation :: string

type_synonym directory = "(string, dir_entry) jmap"

definition dir_lookup :: "directory \<Rightarrow> string \<Rightarrow> dir_entry option" where
  "dir_lookup d aid = jget d aid"

definition dir_claim :: "directory \<Rightarrow> string \<Rightarrow> dir_entry \<Rightarrow> dir_entry \<times> directory" where
  "dir_claim d aid mine = (case jget d aid of Some existing \<Rightarrow> (existing, d) | None \<Rightarrow> (mine, jset d aid mine))"

definition same_activation :: "dir_entry option \<Rightarrow> dir_entry \<Rightarrow> bool" where
  "same_activation current expected \<longleftrightarrow> map_option de_activation current = Some (de_activation expected)"

definition dir_release :: "directory \<Rightarrow> string \<Rightarrow> dir_entry \<Rightarrow> directory" where
  "dir_release d aid expected = (if same_activation (jget d aid) expected then jdel d aid else d)"

definition dir_evict :: "directory \<Rightarrow> string \<Rightarrow> dir_entry \<Rightarrow> bool \<times> directory" where
  "dir_evict d aid expected =
     (if same_activation (jget d aid) expected then (True, jdel d aid) else (False, d))"

definition dir_evict_host :: "directory \<Rightarrow> string \<Rightarrow> nat \<times> directory" where
  "dir_evict_host d h =
     (length (filter (\<lambda>(_, e). de_host e = h) d), filter (\<lambda>(_, e). de_host e \<noteq> h) d)"

definition dir_ok :: "directory \<Rightarrow> bool" where
  "dir_ok d \<longleftrightarrow> distinct (jkeys d)"

lemma distinct_jkeys_filter: "distinct (jkeys m) \<Longrightarrow> distinct (jkeys (filter P m))"
  by (rule distinct_map_filter)

subsection \<open>The contract\<close>

locale actor_directory =
  fixes lookup :: "'d \<Rightarrow> string \<Rightarrow> dir_entry option"
    and claim :: "'d \<Rightarrow> string \<Rightarrow> dir_entry \<Rightarrow> dir_entry \<times> 'd"
    and release :: "'d \<Rightarrow> string \<Rightarrow> dir_entry \<Rightarrow> 'd"
    and evict :: "'d \<Rightarrow> string \<Rightarrow> dir_entry \<Rightarrow> bool \<times> 'd"
    and evict_host :: "'d \<Rightarrow> string \<Rightarrow> nat \<times> 'd"
    and ok :: "'d \<Rightarrow> bool"
  assumes claim_winner: "ok d \<Longrightarrow> fst (claim d a e) = (case lookup d a of None \<Rightarrow> e | Some x \<Rightarrow> x)"
    and claim_lookup: "ok d \<Longrightarrow> lookup (snd (claim d a e)) b = (if b = a then Some (fst (claim d a e)) else lookup d b)"
    and release_lookup: "ok d \<Longrightarrow> lookup (release d a e) b
          = (if b = a \<and> same_activation (lookup d a) e then None else lookup d b)"
    and evict_lookup: "ok d \<Longrightarrow> lookup (snd (evict d a e)) b
          = (if b = a \<and> same_activation (lookup d a) e then None else lookup d b)"
    and evict_removed: "ok d \<Longrightarrow> fst (evict d a e) \<longleftrightarrow> same_activation (lookup d a) e"
    and evict_host_lookup: "ok d \<Longrightarrow> lookup (snd (evict_host d h)) b
          = (case lookup d b of None \<Rightarrow> None | Some x \<Rightarrow> if de_host x = h then None else Some x)"
    and ok_claim: "ok d \<Longrightarrow> ok (snd (claim d a e))"
    and ok_release: "ok d \<Longrightarrow> ok (release d a e)"
    and ok_evict: "ok d \<Longrightarrow> ok (snd (evict d a e))"
    and ok_evict_host: "ok d \<Longrightarrow> ok (snd (evict_host d h))"
begin

text \<open>The laws that make a claim a lock: it is kept until exactly its holder's entry goes.\<close>

lemma claim_first_wins: "ok d \<Longrightarrow> lookup d a = Some x \<Longrightarrow> fst (claim d a e) = x"
  by (simp add: claim_winner)

lemma claim_free: "ok d \<Longrightarrow> lookup d a = None \<Longrightarrow> fst (claim d a e) = e \<and> lookup (snd (claim d a e)) a = Some e"
  by (simp add: claim_winner claim_lookup)

lemma release_foreign:
  "ok d \<Longrightarrow> lookup d a = Some x \<Longrightarrow> de_activation x \<noteq> de_activation e \<Longrightarrow> lookup (release d a e) a = Some x"
  by (simp add: release_lookup same_activation_def)

lemma second_claim_loses:
  assumes "ok d" and "fst (claim d a e) = e"
  shows "fst (claim (snd (claim d a e)) a e') = e"
  using assms by (simp add: claim_winner [OF ok_claim] claim_lookup)

lemma evict_then_claim:
  assumes "ok d" "lookup d a = Some x"
  shows "fst (claim (snd (evict d a x)) a e) = e"
  using assms by (simp add: claim_winner [OF ok_evict] evict_lookup same_activation_def)

lemmas directory_laws =
  claim_winner claim_lookup release_lookup evict_lookup evict_host_lookup
  ok_claim ok_release ok_evict ok_evict_host

end

interpretation hubdir: actor_directory dir_lookup dir_claim dir_release dir_evict dir_evict_host dir_ok
proof unfold_locales
  show "dir_ok d \<Longrightarrow> dir_lookup (snd (dir_evict_host d h)) b
          = (case dir_lookup d b of None \<Rightarrow> None | Some x \<Rightarrow> if de_host x = h then None else Some x)"
    for d h b
    by (auto simp: dir_lookup_def dir_evict_host_def dir_ok_def jget_filter split: option.splits)
  show "dir_lookup (snd (dir_claim d a e)) b = (if b = a then Some (fst (dir_claim d a e)) else dir_lookup d b)"
    for d a e b
    by (auto simp: dir_lookup_def dir_claim_def split: option.splits)
qed (auto simp: dir_lookup_def dir_claim_def dir_release_def dir_evict_def dir_evict_host_def dir_ok_def
       same_activation_def distinct_update distinct_delete distinct_jkeys_filter split: option.splits)

text \<open>\<open>evictHost\<close> counts what it removes.\<close>

lemma dir_evict_host_count: "fst (dir_evict_host d h) + length (snd (dir_evict_host d h)) = length d"
  using sum_length_filter_compl [of "\<lambda>(_, e). de_host e = h" d]
  by (simp add: dir_evict_host_def split_def)

subsection \<open>The membership hub\<close>

text \<open>
  One hub is shared by the hosts of the process; each takes a handle. A handle's suspect
  callbacks are one mutable set, which \<open>join\<close> registers under the host's id by reference:
  the map holds the handle's number. Callback runs are returned as notes, in order.
\<close>

datatype hub_note = Changed nat member_view | Suspected nat

record hub_handle =
  hh_self :: "string option"
  hh_suspect :: "nat list"

record hub =
  hub_version :: nat
  hub_members :: "(string, host_desc) jmap"
  hub_change_cbs :: "nat list"
  hub_suspect_cbs :: "(string, nat) jmap"
  hub_handles :: "(nat, hub_handle) jmap"
  hub_cached :: "member_view option"

definition memory_hub :: hub where
  "memory_hub = \<lparr>hub_version = 0, hub_members = [], hub_change_cbs = [], hub_suspect_cbs = [],
                 hub_handles = [], hub_cached = None\<rparr>"

definition fresh_view :: "hub \<Rightarrow> member_view" where
  "fresh_view h = \<lparr>mv_version = hub_version h, mv_hosts = map snd (hub_members h)\<rparr>"

definition hub_view :: "hub \<Rightarrow> member_view \<times> hub" where
  "hub_view h = (case hub_cached h of
       Some v \<Rightarrow> if mv_version v = hub_version h then (v, h)
                 else (fresh_view h, h\<lparr>hub_cached := Some (fresh_view h)\<rparr>)
     | None \<Rightarrow> (fresh_view h, h\<lparr>hub_cached := Some (fresh_view h)\<rparr>))"

definition hub_bump :: "hub \<Rightarrow> hub_note list \<times> hub" where
  "hub_bump h = (let (v, h') = hub_view (h\<lparr>hub_version := Suc (hub_version h)\<rparr>) in
     (map (\<lambda>cb. Changed cb v) (hub_change_cbs h'), h'))"

definition hub_handle :: "hub \<Rightarrow> nat \<Rightarrow> hub_handle" where
  "hub_handle h i = (case jget (hub_handles h) i of
     None \<Rightarrow> \<lparr>hh_self = None, hh_suspect = []\<rparr> | Some x \<Rightarrow> x)"

definition hub_join :: "nat \<Rightarrow> host_desc \<Rightarrow> hub \<Rightarrow> hub_note list \<times> hub" where
  "hub_join i self h = hub_bump (h\<lparr>
     hub_handles := jset (hub_handles h) i ((hub_handle h i)\<lparr>hh_self := Some (hd_id self)\<rparr>),
     hub_members := jset (hub_members h) (hd_id self) self,
     hub_suspect_cbs := jset (hub_suspect_cbs h) (hd_id self) i\<rparr>)"

definition hub_set_status :: "nat \<Rightarrow> host_status \<Rightarrow> hub \<Rightarrow> hub_note list \<times> hub" where
  "hub_set_status i status h =
     (case hh_self (hub_handle h i) of
        None \<Rightarrow> ([], h)
      | Some self \<Rightarrow>
          (case jget (hub_members h) self of
             None \<Rightarrow> ([], h)
           | Some current \<Rightarrow> hub_bump (h\<lparr>hub_members :=
               jset (hub_members h) (hd_id current) (current\<lparr>hd_status := status\<rparr>)\<rparr>)))"

definition hub_leave :: "nat \<Rightarrow> hub \<Rightarrow> hub_note list \<times> hub" where
  "hub_leave i h =
     (case hh_self (hub_handle h i) of
        None \<Rightarrow> ([], h)
      | Some self \<Rightarrow>
          let h1 = h\<lparr>hub_suspect_cbs := jdel (hub_suspect_cbs h) self\<rparr> in
          if jhas (hub_members h1) self
          then hub_bump (h1\<lparr>hub_members := jdel (hub_members h1) self\<rparr>)
          else ([], h1))"

definition hub_is_alive :: "hub \<Rightarrow> string \<Rightarrow> bool" where
  "hub_is_alive h host = jhas (hub_members h) host"

definition hub_on_change :: "nat \<Rightarrow> hub \<Rightarrow> hub" where
  "hub_on_change cb h = h\<lparr>hub_change_cbs := (if cb \<in> set (hub_change_cbs h) then hub_change_cbs h
                                              else hub_change_cbs h @ [cb])\<rparr>"

definition hub_on_self_suspect :: "nat \<Rightarrow> nat \<Rightarrow> hub \<Rightarrow> hub" where
  "hub_on_self_suspect i cb h = h\<lparr>hub_handles := jset (hub_handles h) i
     ((hub_handle h i)\<lparr>hh_suspect := (if cb \<in> set (hh_suspect (hub_handle h i)) then hh_suspect (hub_handle h i)
                                      else hh_suspect (hub_handle h i) @ [cb])\<rparr>)\<rparr>"

definition hub_kill :: "string \<Rightarrow> hub \<Rightarrow> hub_note list \<times> hub" where
  "hub_kill host h =
     (if \<not> jhas (hub_members h) host then ([], h)
      else let (notes, h1) = hub_bump (h\<lparr>hub_members := jdel (hub_members h) host\<rparr>);
               cbs = (case jget (hub_suspect_cbs h1) host of None \<Rightarrow> [] | Some i \<Rightarrow> hh_suspect (hub_handle h1 i))
           in (notes @ map Suspected cbs, h1\<lparr>hub_suspect_cbs := jdel (hub_suspect_cbs h1) host\<rparr>))"

definition hub_expire :: "string \<Rightarrow> hub \<Rightarrow> hub_note list \<times> hub" where
  "hub_expire host h =
     (if \<not> jhas (hub_members h) host then ([], h)
      else hub_bump (h\<lparr>hub_members := jdel (hub_members h) host\<rparr>))"

inductive hub_step :: "hub \<Rightarrow> hub_note list \<Rightarrow> hub \<Rightarrow> bool" where
  join: "hub_join i d h = (ns, h') \<Longrightarrow> hub_step h ns h'"
| status: "hub_set_status i st h = (ns, h') \<Longrightarrow> hub_step h ns h'"
| leave: "hub_leave i h = (ns, h') \<Longrightarrow> hub_step h ns h'"
| kill: "hub_kill host h = (ns, h') \<Longrightarrow> hub_step h ns h'"
| expire: "hub_expire host h = (ns, h') \<Longrightarrow> hub_step h ns h'"
| read: "hub_view h = (v, h') \<Longrightarrow> hub_step h [] h'"
| subscribe: "hub_step h [] (hub_on_change cb h)"
| watch_self: "hub_step h [] (hub_on_self_suspect i cb h)"

inductive hub_reachable :: "hub \<Rightarrow> bool" where
  start: "hub_reachable memory_hub"
| step: "hub_reachable h \<Longrightarrow> hub_step h ns h' \<Longrightarrow> hub_reachable h'"

text \<open>The cached view is a picture of the members whenever its version is current, and it is
  never from the future; members are filed under their own id.\<close>

definition hub_inv :: "hub \<Rightarrow> bool" where
  "hub_inv h \<longleftrightarrow>
     distinct (jkeys (hub_members h))
     \<and> (\<forall>k d. jget (hub_members h) k = Some d \<longrightarrow> hd_id d = k)
     \<and> (\<forall>v. hub_cached h = Some v \<longrightarrow>
          mv_version v \<le> hub_version h \<and> (mv_version v = hub_version h \<longrightarrow> v = fresh_view h))"

lemma fresh_view_simps [simp]:
  "fresh_view (h\<lparr>hub_cached := c\<rparr>) = fresh_view h"
  "fresh_view (h\<lparr>hub_suspect_cbs := sc\<rparr>) = fresh_view h"
  "fresh_view (h\<lparr>hub_handles := hs\<rparr>) = fresh_view h"
  "fresh_view (h\<lparr>hub_change_cbs := cc\<rparr>) = fresh_view h"
  by (simp_all add: fresh_view_def)

lemma hub_view_inv: "hub_inv h \<Longrightarrow> hub_view h = (v, h') \<Longrightarrow> hub_inv h' \<and> v = fresh_view h"
  by (auto simp: hub_view_def hub_inv_def fresh_view_def split: option.splits if_splits)

lemma hub_bump_inv:
  assumes "distinct (jkeys (hub_members h))"
    and "\<forall>k d. jget (hub_members h) k = Some d \<longrightarrow> hd_id d = k"
    and "\<forall>v. hub_cached h = Some v \<longrightarrow> mv_version v \<le> hub_version h"
    and "hub_bump h = (ns, h')"
  shows "hub_inv h'"
  using assms
  by (auto simp: hub_bump_def hub_view_def hub_inv_def fresh_view_def split: option.splits if_splits)

lemma hub_bump_notes:
  assumes "\<forall>v. hub_cached h = Some v \<longrightarrow> mv_version v \<le> hub_version h" and "hub_bump h = (ns, h')"
  shows "ns = map (\<lambda>cb. Changed cb (fresh_view h')) (hub_change_cbs h)
       \<and> hub_members h' = hub_members h \<and> hub_version h' = Suc (hub_version h)
       \<and> hub_handles h' = hub_handles h \<and> hub_suspect_cbs h' = hub_suspect_cbs h"
  using assms by (auto simp: hub_bump_def hub_view_def fresh_view_def split: option.splits if_splits)

lemma hub_step_inv: "hub_step h ns h' \<Longrightarrow> hub_inv h \<Longrightarrow> hub_inv h'"
proof (induction rule: hub_step.induct)
  case (join i d h ns h')
  then show ?case unfolding hub_join_def
    by (elim hub_bump_inv [rotated 3]) (auto simp: hub_inv_def distinct_update split: if_splits)
next
  case (status i st h ns h')
  then show ?case unfolding hub_set_status_def
    by (auto split: option.splits elim!: hub_bump_inv [rotated 3])
       (auto simp: hub_inv_def distinct_update split: if_splits)
next
  case (leave i h ns h')
  then show ?case unfolding hub_leave_def Let_def
    by (auto split: option.splits if_splits elim!: hub_bump_inv [rotated 3])
       (auto simp: hub_inv_def distinct_delete split: if_splits)
next
  case (kill host h ns h')
  then show ?case
  proof (cases "jhas (hub_members h) host")
    case True
    obtain n1 h1 where b: "hub_bump (h\<lparr>hub_members := jdel (hub_members h) host\<rparr>) = (n1, h1)" by force
    have "hub_inv h1" using kill.prems
      by (intro hub_bump_inv [OF _ _ _ b]) (auto simp: hub_inv_def distinct_delete split: if_splits)
    then have "hub_inv (h1\<lparr>hub_suspect_cbs := jdel (hub_suspect_cbs h1) host\<rparr>)"
      by (simp add: hub_inv_def)
    with kill.hyps True b show ?thesis by (auto simp: hub_kill_def Let_def)
  qed (auto simp: hub_kill_def)
next
  case (expire host h ns h')
  then show ?case unfolding hub_expire_def
    by (auto split: if_splits elim!: hub_bump_inv [rotated 3])
       (auto simp: hub_inv_def distinct_delete split: if_splits)
next
  case (read h v h')
  then show ?case using hub_view_inv by blast
qed (simp_all add: hub_inv_def hub_on_change_def hub_on_self_suspect_def)

lemma hub_reachable_inv: "hub_reachable h \<Longrightarrow> hub_inv h"
proof (induction rule: hub_reachable.induct)
  case start
  show ?case by (simp add: hub_inv_def memory_hub_def)
next
  case (step h ns h')
  then show ?case by (blast intro: hub_step_inv)
qed

text \<open>
  In every reachable hub the view handed out is the current membership at the current
  version: the per-version cache is never stale.
\<close>

theorem hub_view_current:
  assumes "hub_reachable h"
  shows "fst (hub_view h) = \<lparr>mv_version = hub_version h, mv_hosts = map snd (hub_members h)\<rparr>"
  using hub_view_inv [OF hub_reachable_inv [OF assms], of "fst (hub_view h)" "snd (hub_view h)"]
  by (simp add: fresh_view_def)

definition sample_desc :: "string \<Rightarrow> host_desc" where
  "sample_desc h = \<lparr>hd_id = h, hd_epoch = 1, hd_address = ''a'', hd_status = Active,
                    hd_addresses = None, hd_public = None, hd_types = None\<rparr>"

theorem hub_view_current_witness:
  "fst (hub_view (snd (hub_join 0 (sample_desc ''s'') memory_hub)))
     = \<lparr>mv_version = 1, mv_hosts = [sample_desc ''s'']\<rparr>"
proof -
  have "hub_reachable (snd (hub_join 0 (sample_desc ''s'') memory_hub))"
    by (rule hub_reachable.step [OF hub_reachable.start hub_step.join]) (rule prod.collapse [symmetric])
  from hub_view_current [OF this] show ?thesis
    by (simp add: hub_join_def hub_bump_def hub_view_def memory_hub_def sample_desc_def)
qed

text \<open>
  A killed host is told and an expired one is not: both remove the member and notify
  every view subscriber, and only \<open>kill\<close> runs the victim's suspicion callbacks.
\<close>

theorem kill_tells_expire_does_not:
  assumes "hub_reachable h" and "hub_is_alive h host"
    and "hub_kill host h = (nk, hk)" and "hub_expire host h = (ne, he)"
  shows "hub_members hk = hub_members he \<and> \<not> hub_is_alive hk host
    \<and> (\<forall>cb. Suspected cb \<notin> set ne)
    \<and> {cb. Suspected cb \<in> set nk}
           = (case jget (hub_suspect_cbs h) host of None \<Rightarrow> {} | Some i \<Rightarrow> set (hh_suspect (hub_handle h i)))
    \<and> (\<forall>cb \<in> set (hub_change_cbs h). \<exists>v. Changed cb v \<in> set nk \<and> Changed cb v \<in> set ne)"
proof -
  let ?g = "h\<lparr>hub_members := jdel (hub_members h) host\<rparr>"
  obtain n1 h1 where b: "hub_bump ?g = (n1, h1)" by force
  have c: "\<forall>v. hub_cached ?g = Some v \<longrightarrow> mv_version v \<le> hub_version ?g"
    using hub_reachable_inv [OF assms(1)] by (simp add: hub_inv_def)
  note N = hub_bump_notes [OF c b]
  have e: "ne = n1" "he = h1" using assms(2,4) b by (auto simp: hub_expire_def hub_is_alive_def)
  have k: "hub_members hk = hub_members h1"
    "nk = n1 @ map Suspected (case jget (hub_suspect_cbs h1) host of None \<Rightarrow> [] | Some i \<Rightarrow> hh_suspect (hub_handle h1 i))"
    using assms(2,3) b by (auto simp: hub_kill_def hub_is_alive_def Let_def)
  have m: "hub_members hk = hub_members he" "\<not> hub_is_alive hk host"
    using k(1) e N by (simp_all add: hub_is_alive_def)
  have "hub_handle h1 i = hub_handle h i" for i using N by (simp add: hub_handle_def)
  then have s: "{cb. Suspected cb \<in> set nk}
       = (case jget (hub_suspect_cbs h) host of None \<Rightarrow> {} | Some i \<Rightarrow> set (hh_suspect (hub_handle h i)))"
    using k(2) N by (auto split: option.splits)
  show ?thesis using m s e k(2) N by auto
qed

theorem kill_tells_expire_does_not_witness:
  "let h0 = hub_on_self_suspect 0 7 memory_hub;
       h1 = snd (hub_join 0 (sample_desc ''s'') h0)
   in Suspected 7 \<in> set (fst (hub_kill ''s'' h1)) \<and> Suspected 7 \<notin> set (fst (hub_expire ''s'' h1))"
proof -
  let ?h0 = "hub_on_self_suspect 0 7 memory_hub"
  let ?h1 = "snd (hub_join 0 (sample_desc ''s'') ?h0)"
  have r: "hub_reachable ?h1"
    by (rule hub_reachable.step [OF hub_reachable.step [OF hub_reachable.start hub_step.watch_self] hub_step.join])
       (rule prod.collapse [symmetric])
  have "hub_is_alive ?h1 ''s''" "jget (hub_suspect_cbs ?h1) ''s'' = Some 0"
    "hh_suspect (hub_handle ?h1 0) = [7]"
    by (simp_all add: hub_join_def hub_bump_def hub_view_def memory_hub_def sample_desc_def
         hub_on_self_suspect_def hub_handle_def hub_is_alive_def jhas_def)
  with kill_tells_expire_does_not [OF r, of "''s''" "fst (hub_kill ''s'' ?h1)" "snd (hub_kill ''s'' ?h1)"
      "fst (hub_expire ''s'' ?h1)" "snd (hub_expire ''s'' ?h1)"]
  show ?thesis by auto
qed

end
