(* ===== verification/Actor_Errors.thy ===== *)
theory Actor_Errors
  imports Actor_Ids
begin

section \<open>The error taxonomy and its host-to-host wire form\<close>

text \<open>
  \<open>errors.ts\<close>: every branded error as a value, one constructor function per class.
  \<open>cluster/wire-errors.ts\<close>: how an error crosses a host hop and comes back. A non-ASCII
  character of a message is written as its UTF-8 bytes.
\<close>

named_theorems error_simps \<open>the error constructors\<close>

datatype error_kind =
    Deadlock | Activation_Failed | State_Conflict | Method_Not_Found | Host_Shutdown | Call_Timeout
  | Wrong_Host | Unreachable | Unplaceable | Fenced | Watch_Declaration | Watch_Mutation | Overloaded

fun kind_name :: "error_kind \<Rightarrow> string" where
  "kind_name Deadlock = ''deadlock''"
| "kind_name Activation_Failed = ''activation''"
| "kind_name State_Conflict = ''state-conflict''"
| "kind_name Method_Not_Found = ''method-not-found''"
| "kind_name Host_Shutdown = ''host-shutdown''"
| "kind_name Call_Timeout = ''call-timeout''"
| "kind_name Wrong_Host = ''wrong-host''"
| "kind_name Unreachable = ''unreachable''"
| "kind_name Unplaceable = ''unplaceable''"
| "kind_name Fenced = ''fenced''"
| "kind_name Watch_Declaration = ''watch-declaration''"
| "kind_name Watch_Mutation = ''watch-mutation''"
| "kind_name Overloaded = ''overloaded''"

definition actor_error_kinds :: "error_kind list" where
  "actor_error_kinds =
     [Deadlock, Activation_Failed, State_Conflict, Method_Not_Found, Host_Shutdown, Call_Timeout,
      Wrong_Host, Unreachable, Unplaceable, Fenced, Watch_Declaration, Watch_Mutation, Overloaded]"

definition kind_of_name :: "string \<Rightarrow> error_kind option" where
  "kind_of_name s = List.find (\<lambda>k. kind_name k = s) actor_error_kinds"

text \<open>\<open>ActorOwnerHint\<close>.\<close>

record owner_hint =
  oh_host :: string
  oh_address :: "string option"
  oh_public :: "string option"

datatype overload_scope = Actor_Scope | Host_Scope

text \<open>A branded error, with the fields its class adds (absent on the others).\<close>

record actor_error =
  ae_kind :: error_kind
  ae_message :: string
  ae_owner :: "owner_hint option"
  ae_overload :: "(overload_scope \<times> nat \<times> nat) option"
  ae_skipped :: "bool option"
  ae_chain :: "string list option"


definition base_error :: "error_kind \<Rightarrow> string \<Rightarrow> actor_error" where
  "base_error k msg = \<lparr>ae_kind = k, ae_message = ''[sigx actors] '' @ msg, ae_owner = None,
                       ae_overload = None, ae_skipped = None, ae_chain = None\<rparr>"

subsection \<open>The classes\<close>

fun join_str :: "string \<Rightarrow> string list \<Rightarrow> string" where
  "join_str sep [] = []"
| "join_str sep [p] = p"
| "join_str sep (p # q # ps) = p @ sep @ join_str sep (q # ps)"

definition arrow :: string where
  "arrow = '' '' @ [CHR 0xE2, CHR 0x86, CHR 0x92] @ '' ''"

definition deadlock_error :: "string list \<Rightarrow> actor_error" where
  "deadlock_error ch = (base_error Deadlock
     (''call-chain deadlock: '' @ join_str arrow ch @
      ''. The target is already processing a turn in this chain and is not reentrant; declare `reentrant: true` on it to allow call-chain re-entry, `reentrant: '' @
      [CHR 0x27] @ ''always'' @ [CHR 0x27] @
      ''` for full interleaving, or map just this method in `methodReentrancy`.''))\<lparr>ae_chain := Some ch\<rparr>"

definition activation_error :: "string \<Rightarrow> actor_error" where
  "activation_error ref = base_error Activation_Failed (''activation of '' @ ref @ '' failed.'')"

definition state_conflict_error :: "string \<Rightarrow> actor_error" where
  "state_conflict_error ref = base_error State_Conflict
     (''stale state for '' @ ref @ '': the stored record changed under this activation. The activation is discarded; retry the call.'')"

definition method_not_found_error :: "string \<Rightarrow> string \<Rightarrow> actor_error" where
  "method_not_found_error ty m = base_error Method_Not_Found
     (''actor type '' @ [CHR 0x22] @ ty @ [CHR 0x22] @ '' has no method '' @ [CHR 0x22] @ m @ [CHR 0x22] @ ''.'')"

definition host_shutdown_error :: actor_error where
  "host_shutdown_error = base_error Host_Shutdown ''the host is shutting down; new calls are rejected.''"

definition call_timeout_error :: "string \<Rightarrow> string \<Rightarrow> int \<Rightarrow> bool \<Rightarrow> actor_error" where
  "call_timeout_error ref m ms skipped = (base_error Call_Timeout
     (if skipped then ''call to '' @ ref @ ''.'' @ m @ ''() was queued '' @ show_int ms @ ''ms past its deadline; skipped.''
      else ''call to '' @ ref @ ''.'' @ m @ ''() exceeded its '' @ show_int ms
             @ ''ms deadline. The turn keeps running; only this caller gave up.''))\<lparr>ae_skipped := Some skipped\<rparr>"

definition overloaded_error :: "overload_scope \<Rightarrow> string \<Rightarrow> nat \<Rightarrow> nat \<Rightarrow> actor_error" where
  "overloaded_error scope target depth limit = (base_error Overloaded
     (target @ '' refused: '' @ (if scope = Actor_Scope then ''maxQueued'' else ''maxInflightTurns'') @ '' ''
        @ show_nat limit @ '' reached ('' @ show_nat depth @ '' in flight).''))
     \<lparr>ae_overload := Some (scope, depth, limit)\<rparr>"

definition wrong_host_error :: "string \<Rightarrow> owner_hint option \<Rightarrow> actor_error" where
  "wrong_host_error ref owner = (base_error Wrong_Host
     (ref @ '' is not placed on this host'' @
      (case owner of None \<Rightarrow> '''' | Some o' \<Rightarrow> '' (owner: '' @ oh_host o' @ '')'') @
      ''; the caller should re-resolve placement and retry.''))\<lparr>ae_owner := owner\<rparr>"

definition unplaceable_error :: "string \<Rightarrow> nat \<Rightarrow> nat \<Rightarrow> actor_error" where
  "unplaceable_error ty hosts active = base_error Unplaceable
     (''actor type '' @ [CHR 0x22] @ ty @ [CHR 0x22] @ '' is registered by no ACTIVE host (view: ''
        @ show_nat hosts @ '' host'' @ (if hosts = 1 then '''' else ''s'') @ '', '' @ show_nat active
        @ '' active). Add '' @ [CHR 0x22] @ ty @ [CHR 0x22]
        @ '' to some host'' @ [CHR 0x27] @ ''s defineActorApp({ actors }), or check that the pods registering it are up.'')"

definition fenced_error :: "string \<Rightarrow> actor_error" where
  "fenced_error host = base_error Fenced
     (''host '' @ host @ '' is FENCED: it lost cluster membership, so its actors were re-placed elsewhere and it may not activate one again. Restart the process to rejoin.'')"

definition unreachable_error :: "string \<Rightarrow> actor_error" where
  "unreachable_error target = base_error Unreachable
     (''host '' @ target @ '' is unreachable; the call may be retried.'')"

definition watch_declaration_error :: "string \<Rightarrow> string \<Rightarrow> actor_error" where
  "watch_declaration_error ty m = base_error Watch_Declaration
     ([CHR 0x22] @ ty @ ''.'' @ m @ [CHR 0x22] @ '' declares `watches: { '' @ [CHR 0x27] @ m @ [CHR 0x27]
        @ '': { principalIndependent: true } }` but consulted `ctx.principal` while serving a watch. Identity is an input to this read, so its subscribers cannot share one loop. Remove the declaration ''
        @ [CHR 0xE2, CHR 0x80, CHR 0x94]
        @ '' or, if the touch was only to AUTHORIZE, move it to `authorize`/`methodAuthorize`, which run per subscriber at the entry point, outside any turn.'')"

definition watch_mutation_error :: "string \<Rightarrow> string \<Rightarrow> actor_error" where
  "watch_mutation_error ty m = base_error Watch_Mutation
     ([CHR 0x22] @ ty @ ''.'' @ m @ [CHR 0x22]
        @ '' wrote actor state while serving a watch. A watch re-runs its method after every change, so a mutating method would trigger itself indefinitely. Watch a read, and call the mutation instead.'')"

text \<open>The values the classes build.\<close>

inductive constructed :: "actor_error \<Rightarrow> bool" where
  "constructed (deadlock_error ch)"
| "constructed (activation_error r)"
| "constructed (state_conflict_error r)"
| "constructed (method_not_found_error t m)"
| "constructed host_shutdown_error"
| "constructed (call_timeout_error r m ms sk)"
| "constructed (overloaded_error sc t d l)"
| "constructed (wrong_host_error r ow)"
| "constructed (unplaceable_error t h a)"
| "constructed (fenced_error h)"
| "constructed (unreachable_error t)"
| "constructed (watch_declaration_error t m)"
| "constructed (watch_mutation_error t m)"

subsection \<open>Across a host hop\<close>

text \<open>\<open>HostWireError\<close>: the message, the status and, for a branded error, its data.\<close>

record wire_data =
  wd_kind :: string
  wd_owner :: "owner_hint option"
  wd_overload :: "(overload_scope \<times> nat \<times> nat) option"
  wd_skipped :: bool

record host_wire_error =
  we_message :: string
  we_status :: "int option"
  we_data :: "wire_data option"

text \<open>A thrown value: branded, or an ordinary error with the \<open>status\<close> and \<open>data\<close> it may carry.\<close>

datatype js_error = Branded actor_error | Plain string "int option" "wire_data option"

definition is_actor_error :: "js_error \<Rightarrow> bool" where
  "is_actor_error e \<longleftrightarrow> (case e of Branded _ \<Rightarrow> True | Plain _ _ _ \<Rightarrow> False)"

definition is_actor_error_kind :: "js_error \<Rightarrow> error_kind \<Rightarrow> bool" where
  "is_actor_error_kind e k \<longleftrightarrow> (case e of Branded b \<Rightarrow> ae_kind b = k | Plain _ _ _ \<Rightarrow> False)"

definition kind_status :: "error_kind \<Rightarrow> int" where
  "kind_status k =
     (if k = Wrong_Host then 421
      else if k = Method_Not_Found then 404
      else if k = State_Conflict then 409
      else if k = Host_Shutdown \<or> k = Unreachable \<or> k = Unplaceable \<or> k = Fenced then 503
      else if k = Call_Timeout then 504
      else if k = Overloaded then 429
      else 500)"

definition to_host_wire_error :: "js_error \<Rightarrow> host_wire_error" where
  "to_host_wire_error e =
     (case e of
        Plain msg status _ \<Rightarrow> \<lparr>we_message = msg, we_status = status, we_data = None\<rparr>
      | Branded b \<Rightarrow>
          \<lparr>we_message = ae_message b, we_status = Some (kind_status (ae_kind b)),
           we_data = Some \<lparr>wd_kind = kind_name (ae_kind b), wd_owner = ae_owner b,
                           wd_overload = (if ae_kind b = Overloaded then ae_overload b else None),
                           wd_skipped = (ae_kind b = Call_Timeout \<and> ae_skipped b = Some True)\<rparr>\<rparr>)"

text \<open>
  \<open>wireFail\<close> (\<open>wire-shared.ts\<close>) builds the ordinary server error: the wire's message, its status
  or else the response's, and the data. \<open>from_host_wire_error\<close> re-brands the kinds of the list.
\<close>

definition wire_fail :: "int \<Rightarrow> host_wire_error option \<Rightarrow> string \<Rightarrow> js_error" where
  "wire_fail status wire fallback =
     (case wire of
        None \<Rightarrow> Plain fallback (Some status) None
      | Some w \<Rightarrow> Plain (we_message w)
          (Some (case we_status w of Some st \<Rightarrow> st | None \<Rightarrow> status)) (we_data w))"

definition from_host_wire_error :: "int \<Rightarrow> host_wire_error option \<Rightarrow> string \<Rightarrow> js_error" where
  "from_host_wire_error status wire fallback =
     (case wire of
        None \<Rightarrow> wire_fail status wire fallback
      | Some w \<Rightarrow>
          (case we_data w of
             None \<Rightarrow> wire_fail status wire fallback
           | Some d \<Rightarrow>
               (case kind_of_name (wd_kind d) of
                  None \<Rightarrow> wire_fail status wire fallback
                | Some k \<Rightarrow> Branded
                    \<lparr>ae_kind = k, ae_message = we_message w,
                     ae_owner = (if k = Wrong_Host then wd_owner d else None),
                     ae_overload = (if k = Overloaded
                        then Some (case wd_overload d of Some f \<Rightarrow> f | None \<Rightarrow> (Actor_Scope, 0, 0)) else None),
                     ae_skipped = (if k = Call_Timeout then Some (wd_skipped d) else None),
                     ae_chain = None\<rparr>)))"

lemma kind_of_name_inv: "kind_of_name (kind_name k) = Some k"
  by (cases k) (simp_all add: kind_of_name_def actor_error_kinds_def)

lemmas error_defs =
  base_error_def deadlock_error_def activation_error_def state_conflict_error_def method_not_found_error_def
  host_shutdown_error_def call_timeout_error_def overloaded_error_def wrong_host_error_def
  unplaceable_error_def fenced_error_def unreachable_error_def watch_declaration_error_def
  watch_mutation_error_def

lemma constructed_fields:
  "constructed e \<Longrightarrow>
     (ae_kind e \<noteq> Wrong_Host \<longrightarrow> ae_owner e = None)
     \<and> (ae_overload e = None \<longleftrightarrow> ae_kind e \<noteq> Overloaded)
     \<and> (ae_skipped e = None \<longleftrightarrow> ae_kind e \<noteq> Call_Timeout)
     \<and> (ae_chain e = None \<longleftrightarrow> ae_kind e \<noteq> Deadlock)"
  by (induction rule: constructed.induct) (simp_all add: error_defs)

text \<open>
  An error that crosses a host hop comes back as the same branded error: same kind, message,
  owner hint, overload figures and skipped flag, whatever the response status and fallback.
  The one field that does not travel is a deadlock's \<open>chain\<close> array.
\<close>

theorem wire_error_roundtrip:
  assumes "constructed e"
  shows "from_host_wire_error st (Some (to_host_wire_error (Branded e))) fb = Branded (e\<lparr>ae_chain := None\<rparr>)"
  using constructed_fields [OF assms]
  by (cases e) (auto simp: from_host_wire_error_def to_host_wire_error_def kind_of_name_inv)

theorem wire_error_roundtrip_witness:
  "from_host_wire_error 429 (Some (to_host_wire_error (Branded (overloaded_error Host_Scope ''s.1'' 9 8)))) ''x''
     = Branded (overloaded_error Host_Scope ''s.1'' 9 8)"
  using wire_error_roundtrip [OF constructed.intros(7), of 429 Host_Scope "''s.1''" 9 8 "''x''"]
  by (simp add: overloaded_error_def base_error_def)

text \<open>
  A peer cannot fake a brand: what comes back is branded exactly when the payload names a
  kind of the list, and an error that was not branded never is after the hop.
\<close>

theorem no_invented_brand:
  "is_actor_error (from_host_wire_error st w fb)
       = (\<exists>w' d k. w = Some w' \<and> we_data w' = Some d \<and> k \<in> set actor_error_kinds \<and> wd_kind d = kind_name k)
   \<and> \<not> is_actor_error (from_host_wire_error st (Some (to_host_wire_error (Plain msg status data))) fb)"
proof -
  have S: "k \<in> set actor_error_kinds \<and> kind_name k = s" if "kind_of_name s = Some k" for s k
    using that by (auto simp: kind_of_name_def find_Some_iff)
  show ?thesis
    by (auto simp: from_host_wire_error_def to_host_wire_error_def is_actor_error_def wire_fail_def
          kind_of_name_inv split: option.splits dest: S)
       (metis S)
qed

end
