(* ===== verification/Claim_Protocol.thy ===== *)
theory Claim_Protocol
  imports Cluster_Directory Actor_Errors
begin

section \<open>The claim protocol of the cluster placement\<close>

text \<open>
  \<open>cluster/placement.ts\<close>, the hooks \<open>bind()\<close> hands the local host: \<open>beforeActivate\<close> claims an
  actor in the directory and \<open>afterDeactivate\<close> releases it. The code is cut at its awaits:
  one definition per stretch that runs without interruption. The sequential composition
  takes the directory's operations as arguments; the interleaving of any number of hosts,
  and the evictions by peers, is the step relation \<open>cluster_step\<close>.
\<close>

subsection \<open>State\<close>

record claimant =
  pl_host :: string
  pl_epoch :: int
  pl_seq :: nat
  pl_claimed :: "(string, dir_entry) jmap"
  pl_fenced :: bool
  pl_claims :: nat
  pl_evictions :: nat
  pl_conflicts :: nat
  pl_releases :: nat

definition new_claimant :: "string \<Rightarrow> int \<Rightarrow> claimant" where
  "new_claimant h epoch = \<lparr>pl_host = h, pl_epoch = epoch, pl_seq = 0, pl_claimed = [], pl_fenced = False,
                           pl_claims = 0, pl_evictions = 0, pl_conflicts = 0, pl_releases = 0\<rparr>"

definition activation_id :: "string \<Rightarrow> int \<Rightarrow> nat \<Rightarrow> string" where
  "activation_id h epoch n = h @ ''/'' @ show_int epoch @ ''/'' @ show_nat n"

definition member_of :: "member_view \<Rightarrow> string \<Rightarrow> host_desc option" where
  "member_of v h = List.find (\<lambda>d. hd_id d = h) (rev (mv_hosts v))"

definition owner_hint_of :: "member_view \<Rightarrow> string \<Rightarrow> owner_hint" where
  "owner_hint_of v h = (case member_of v h of
       None \<Rightarrow> \<lparr>oh_host = h, oh_address = None, oh_public = None\<rparr>
     | Some d \<Rightarrow> \<lparr>oh_host = h, oh_address = Some (hd_address d), oh_public = hd_public d\<rparr>)"

definition fenced_self :: "string \<Rightarrow> string" where
  "fenced_self h = h @ '' (self, fenced '' @ [CHR 0xE2, CHR 0x80, CHR 0x94] @ '' membership lost)''"

subsection \<open>beforeActivate and afterDeactivate\<close>

text \<open>Up to the first await: refuse when fenced, else mint the entry to claim.\<close>

definition claim_begin :: "claimant \<Rightarrow> actor_error + dir_entry \<times> claimant" where
  "claim_begin pl =
     (if pl_fenced pl then Inl (unreachable_error (fenced_self (pl_host pl)))
      else let n = Suc (pl_seq pl) in
        Inr (\<lparr>de_host = pl_host pl, de_activation = activation_id (pl_host pl) (pl_epoch pl) n\<rparr>,
             pl\<lparr>pl_seq := n, pl_claims := Suc (pl_claims pl)\<rparr>))"

text \<open>On the first answer: is the winner our own ghost?\<close>

definition claim_is_ghost :: "claimant \<Rightarrow> string \<Rightarrow> dir_entry \<Rightarrow> dir_entry \<Rightarrow> bool" where
  "claim_is_ghost pl aid mine winner \<longleftrightarrow>
     de_activation winner \<noteq> de_activation mine \<and> de_host winner = pl_host pl \<and> \<not> jhas (pl_claimed pl) aid"

definition claim_count_evict :: "claimant \<Rightarrow> claimant" where
  "claim_count_evict pl = pl\<lparr>pl_evictions := Suc (pl_evictions pl)\<rparr>"

definition claim_count_again :: "claimant \<Rightarrow> claimant" where
  "claim_count_again pl = pl\<lparr>pl_claims := Suc (pl_claims pl)\<rparr>"

text \<open>The verdict on the last answer.\<close>

definition claim_decide ::
  "member_view \<Rightarrow> actor_ref \<Rightarrow> dir_entry \<Rightarrow> dir_entry \<Rightarrow> claimant \<Rightarrow> (actor_error + unit) \<times> claimant" where
  "claim_decide v ref mine winner pl =
     (if de_activation winner \<noteq> de_activation mine
      then (Inl (wrong_host_error (actor_label ref) (Some (owner_hint_of v (de_host winner)))),
            pl\<lparr>pl_conflicts := Suc (pl_conflicts pl)\<rparr>)
      else (Inr (), pl\<lparr>pl_claimed := jset (pl_claimed pl) (actor_id ref) mine\<rparr>))"

text \<open>\<open>beforeActivate\<close> with nothing else running at the directory.\<close>

definition before_activate ::
  "('d \<Rightarrow> string \<Rightarrow> dir_entry \<Rightarrow> dir_entry \<times> 'd) \<Rightarrow> ('d \<Rightarrow> string \<Rightarrow> dir_entry \<Rightarrow> bool \<times> 'd)
     \<Rightarrow> member_view \<Rightarrow> actor_ref \<Rightarrow> claimant \<Rightarrow> 'd \<Rightarrow> (actor_error + unit) \<times> claimant \<times> 'd" where
  "before_activate claim evict v ref pl d =
     (case claim_begin pl of
        Inl e \<Rightarrow> (Inl e, pl, d)
      | Inr (mine, pl1) \<Rightarrow>
          let aid = actor_id ref;
              (winner, d1) = claim d aid mine;
              (winner', pl2, d2) =
                (if claim_is_ghost pl1 aid mine winner
                 then let d3 = snd (evict d1 aid winner); (w, d4) = claim d3 aid mine
                      in (w, claim_count_again (claim_count_evict pl1), d4)
                 else (winner, pl1, d1));
              (r, pl3) = claim_decide v ref mine winner' pl2
          in (r, pl3, d2))"

text \<open>Up to the await of \<open>afterDeactivate\<close>: forget the claim, then release what it was.\<close>

definition release_begin :: "string \<Rightarrow> claimant \<Rightarrow> dir_entry option \<times> claimant" where
  "release_begin aid pl =
     (case jget (pl_claimed pl) aid of
        None \<Rightarrow> (None, pl)
      | Some e \<Rightarrow> (Some e, pl\<lparr>pl_claimed := jdel (pl_claimed pl) aid, pl_releases := Suc (pl_releases pl)\<rparr>))"

definition after_deactivate ::
  "('d \<Rightarrow> string \<Rightarrow> dir_entry \<Rightarrow> 'd) \<Rightarrow> actor_ref \<Rightarrow> claimant \<Rightarrow> 'd \<Rightarrow> claimant \<times> 'd" where
  "after_deactivate release ref pl d =
     (case release_begin (actor_id ref) pl of
        (None, pl') \<Rightarrow> (pl', d)
      | (Some e, pl') \<Rightarrow> (pl', release d (actor_id ref) e))"

subsection \<open>Activation ids\<close>

lemma slash_free_show: "CHR 0x2F \<notin> set (show_nat n)" "CHR 0x2F \<notin> set (show_int i)"
  by (auto simp: show_int_def not_digit_not_in_show is_digit_def)

lemma activation_id_inject:
  assumes "CHR 0x2F \<notin> set h" "CHR 0x2F \<notin> set h'" "activation_id h e n = activation_id h' e' n'"
  shows "h = h' \<and> e = e' \<and> n = n'"
proof -
  have S: "split_on (CHR 0x2F) (activation_id g i m) = [g, show_int i, show_nat m]"
    if "CHR 0x2F \<notin> set g" for g i m
  proof -
    have "split_on (CHR 0x2F) (activation_id g i m) = g # split_on (CHR 0x2F) (show_int i @ CHR 0x2F # show_nat m)"
      using split_on_append [OF that, of "show_int i @ ''/'' @ show_nat m"] by (simp add: activation_id_def)
    also have "\<dots> = [g, show_int i, show_nat m]"
      by (simp only: split_on_append [OF slash_free_show(2)] split_on_free [OF slash_free_show(1)])
    finally show ?thesis .
  qed
  have "[h, show_int e, show_nat n] = [h', show_int e', show_nat n']"
    unfolding S [OF assms(1), symmetric] S [OF assms(2), symmetric] by (rule arg_cong [OF assms(3)])
  then show ?thesis by simp
qed

subsection \<open>One host, against the directory's contract\<close>

definition minted :: "claimant \<Rightarrow> dir_entry" where
  "minted pl = \<lparr>de_host = pl_host pl, de_activation = activation_id (pl_host pl) (pl_epoch pl) (Suc (pl_seq pl))\<rparr>"

lemma claim_begin_minted:
  "\<not> pl_fenced pl \<Longrightarrow>
     claim_begin pl = Inr (minted pl, pl\<lparr>pl_seq := Suc (pl_seq pl), pl_claims := Suc (pl_claims pl)\<rparr>)"
  by (simp add: claim_begin_def minted_def Let_def)

lemma new_claimant_sel [simp]:
  "pl_host (new_claimant h e) = h" "\<not> pl_fenced (new_claimant h e)" "pl_claimed (new_claimant h e) = []"
  "pl_epoch (new_claimant h e) = e" "pl_seq (new_claimant h e) = 0"
  by (simp_all add: new_claimant_def)

lemma de_host_minted [simp]: "de_host (minted pl) = pl_host pl"
  by (simp add: minted_def)

lemma claim_decide_frame:
  assumes "claim_decide v ref mine w pl = (r, pl')"
  shows "pl_host pl' = pl_host pl \<and> pl_epoch pl' = pl_epoch pl \<and> pl_seq pl' = pl_seq pl \<and> pl_fenced pl' = pl_fenced pl"
  using assms by (auto simp: claim_decide_def split: if_splits)

context actor_directory
begin

lemma before_activate_frame:
  assumes "ok d" "\<not> pl_fenced pl" and b: "before_activate claim evict v ref pl d = (r, pl', d')"
  shows "ok d' \<and> pl_host pl' = pl_host pl \<and> pl_epoch pl' = pl_epoch pl \<and> pl_seq pl' = Suc (pl_seq pl)
         \<and> pl_fenced pl' = pl_fenced pl"
proof -
  let ?a = "actor_id ref" and ?m = "minted pl"
  let ?pl1 = "pl\<lparr>pl_seq := Suc (pl_seq pl), pl_claims := Suc (pl_claims pl)\<rparr>"
  obtain w d1 where c: "claim d ?a ?m = (w, d1)" by force
  obtain w4 d4 where c4: "claim (snd (evict d1 ?a w)) ?a ?m = (w4, d4)" by force
  have ok: "ok d1" "ok d4" using ok_claim [OF assms(1), of ?a ?m] c
      ok_claim [OF ok_evict, of d1 ?a w ?a ?m] c4 by auto
  show ?thesis
  proof (cases "claim_is_ghost ?pl1 ?a ?m w")
    case True
    then have "claim_decide v ref ?m w4 (claim_count_again (claim_count_evict ?pl1)) = (r, pl')" "d' = d4"
      using b c c4 by (auto simp: before_activate_def claim_begin_minted [OF assms(2)] Let_def split: prod.splits)
    with claim_decide_frame [OF this(1)] ok show ?thesis
      by (simp add: claim_count_again_def claim_count_evict_def)
  next
    case False
    then have "claim_decide v ref ?m w ?pl1 = (r, pl')" "d' = d1"
      using b c by (auto simp: before_activate_def claim_begin_minted [OF assms(2)] Let_def split: prod.splits)
    with claim_decide_frame [OF this(1)] ok show ?thesis by simp
  qed
qed

lemma before_activate_free:
  assumes "ok d" "\<not> pl_fenced pl" "lookup d (actor_id ref) = None"
    and "before_activate claim evict v ref pl d = (r, pl', d')"
  shows "r = Inr () \<and> lookup d' (actor_id ref) = Some (minted pl)
         \<and> jget (pl_claimed pl') (actor_id ref) = Some (minted pl)"
proof -
  obtain w d1 where c: "claim d (actor_id ref) (minted pl) = (w, d1)" by force
  have "w = minted pl" "lookup d1 (actor_id ref) = Some (minted pl)"
    using claim_free [OF assms(1,3), of "minted pl"] c by auto
  with assms(2,4) c show ?thesis
    by (auto simp: before_activate_def claim_begin_minted Let_def
        claim_is_ghost_def claim_decide_def split: prod.splits)
qed

lemma before_activate_ghost:
  assumes "ok d" "\<not> pl_fenced pl" "lookup d (actor_id ref) = Some g" "de_host g = pl_host pl"
    and "de_activation g \<noteq> de_activation (minted pl)" "\<not> jhas (pl_claimed pl) (actor_id ref)"
    and "before_activate claim evict v ref pl d = (r, pl', d')"
  shows "r = Inr () \<and> lookup d' (actor_id ref) = Some (minted pl)
         \<and> jget (pl_claimed pl') (actor_id ref) = Some (minted pl)"
proof -
  let ?a = "actor_id ref" and ?m = "minted pl"
  obtain w d1 where c: "claim d ?a ?m = (w, d1)" by force
  have w: "w = g" and d1: "ok d1" "lookup d1 ?a = Some g"
    using claim_first_wins [OF assms(1,3), of ?m] claim_lookup [OF assms(1), of ?a ?m ?a] ok_claim [OF assms(1), of ?a ?m] c
    by auto
  obtain b d3 where e: "evict d1 ?a g = (b, d3)" by force
  have d3: "ok d3" "lookup d3 ?a = None"
    using evict_lookup [OF d1(1), of ?a g ?a] d1(2) ok_evict [OF d1(1), of ?a g] e
    by (auto simp: same_activation_def)
  obtain w2 d4 where c2: "claim d3 ?a ?m = (w2, d4)" by force
  have "w2 = ?m" "lookup d4 ?a = Some ?m"
    using claim_free [OF d3, of ?m] c2 by auto
  with assms(2,4-7) c w e c2 show ?thesis
    by (auto simp: before_activate_def claim_begin_minted Let_def
        claim_is_ghost_def claim_decide_def claim_count_again_def claim_count_evict_def split: prod.splits)
qed

lemma before_activate_foreign:
  assumes "ok d" "\<not> pl_fenced pl" "lookup d (actor_id ref) = Some g" "de_host g \<noteq> pl_host pl"
    and "de_activation g \<noteq> de_activation (minted pl)"
    and "before_activate claim evict v ref pl d = (r, pl', d')"
  shows "r = Inl (wrong_host_error (actor_label ref) (Some (owner_hint_of v (de_host g))))
         \<and> lookup d' b = lookup d b \<and> pl_claimed pl' = pl_claimed pl"
proof -
  let ?a = "actor_id ref" and ?m = "minted pl"
  obtain w d1 where c: "claim d ?a ?m = (w, d1)" by force
  have w: "w = g" and d1: "lookup d1 b = lookup d b"
    using claim_first_wins [OF assms(1,3), of ?m] claim_lookup [OF assms(1), of ?a ?m b] assms(3) c
    by auto
  with assms(2,4-6) c show ?thesis
    by (auto simp: before_activate_def claim_begin_minted Let_def
        claim_is_ghost_def claim_decide_def split: prod.splits)
qed

text \<open>A release gives the actor up: the next claim, whoever makes it, wins.\<close>

lemma handoff:
  assumes "ok d" "jget (pl_claimed pl) (actor_id ref) = Some e" "lookup d (actor_id ref) = Some e"
    and "after_deactivate release ref pl d = (pl', d')" and "\<not> pl_fenced q"
    and "before_activate claim evict v ref q d' = (r, q', d'')"
  shows "r = Inr () \<and> lookup d'' (actor_id ref) = Some (minted q) \<and> \<not> jhas (pl_claimed pl') (actor_id ref)"
proof -
  have d': "d' = release d (actor_id ref) e" "pl_claimed pl' = jdel (pl_claimed pl) (actor_id ref)"
    using assms(2,4) by (auto simp: after_deactivate_def release_begin_def)
  then have "ok d'" "lookup d' (actor_id ref) = None"
    using ok_release [OF assms(1)] release_lookup [OF assms(1), of "actor_id ref" e "actor_id ref"] assms(3)
    by (auto simp: same_activation_def)
  from before_activate_free [OF this(1) assms(5) this(2) assms(6)] d' show ?thesis by simp
qed

end

subsection \<open>Any number of hosts, interleaved at the awaits\<close>

text \<open>
  Where an activation attempt stands. The local host starts one attempt per actor at a time:
  its slot is taken until \<open>beforeActivate\<close> has settled.
\<close>

datatype claim_phase =
    No_Claim
  | Claiming dir_entry
  | Answered dir_entry dir_entry
  | Evicting dir_entry dir_entry
  | Reclaiming dir_entry
  | Reanswered dir_entry dir_entry

record cl_host =
  ch_place :: claimant
  ch_phase :: "string \<Rightarrow> claim_phase"
  ch_releases :: "(string \<times> dir_entry) list"
  ch_member :: bool

record cluster =
  cl_dir :: directory
  cl_host :: "string \<Rightarrow> cl_host"
  cl_observed :: "(string \<times> dir_entry) list"

definition start_cluster :: "(string \<Rightarrow> int) \<Rightarrow> cluster" where
  "start_cluster epoch = \<lparr>cl_dir = [],
     cl_host = (\<lambda>h. \<lparr>ch_place = new_claimant h (epoch h), ch_phase = (\<lambda>_. No_Claim), ch_releases = [], ch_member = True\<rparr>),
     cl_observed = []\<rparr>"

definition put_host :: "string \<Rightarrow> cl_host \<Rightarrow> cluster \<Rightarrow> cluster" where
  "put_host h H c = c\<lparr>cl_host := (cl_host c)(h := H)\<rparr>"

definition set_phase :: "string \<Rightarrow> claim_phase \<Rightarrow> cl_host \<Rightarrow> cl_host" where
  "set_phase aid ph H = H\<lparr>ch_phase := (ch_phase H)(aid := ph)\<rparr>"

text \<open>
  \<open>#resolveTarget\<close> and \<open>#noteFailure\<close> evict an entry they read when its owner is dead, or live
  without registering the type. Neither verdict is ever taken back: host ids are minted per
  start and descriptors are immutable, so a late eviction is as good as a prompt one.
\<close>

definition hopeless_owner :: "(string \<Rightarrow> string \<Rightarrow> bool) \<Rightarrow> cluster \<Rightarrow> actor_ref \<Rightarrow> dir_entry \<Rightarrow> bool" where
  "hopeless_owner registers c ref e \<longleftrightarrow>
     \<not> ch_member (cl_host c (de_host e)) \<or> \<not> registers (de_host e) (ref_type ref)"

text \<open>
  One step of the cluster: a stretch of \<open>beforeActivate\<close> or \<open>afterDeactivate\<close> on a host, a
  directory call taking effect, a call that fails, a peer's lookup, eviction or sweep, a
  fence, or the end of a membership.
\<close>

inductive cluster_step :: "(string \<Rightarrow> string \<Rightarrow> bool) \<Rightarrow> cluster \<Rightarrow> cluster \<Rightarrow> bool" for registers where
  begin_claim:
    "ch_phase (cl_host c h) (actor_id ref) = No_Claim \<Longrightarrow> registers h (ref_type ref)
       \<Longrightarrow> nul \<notin> set (ref_type ref) \<Longrightarrow> CHR ''/'' \<notin> set h
       \<Longrightarrow> claim_begin (ch_place (cl_host c h)) = Inr (mine, pl)
       \<Longrightarrow> cluster_step registers c
             (put_host h (set_phase (actor_id ref) (Claiming mine) ((cl_host c h)\<lparr>ch_place := pl\<rparr>)) c)"
| claim_lands:
    "ch_phase (cl_host c h) aid = Claiming mine \<Longrightarrow> dir_claim (cl_dir c) aid mine = (w, d)
       \<Longrightarrow> cluster_step registers c (put_host h (set_phase aid (Answered mine w) (cl_host c h)) (c\<lparr>cl_dir := d\<rparr>))"
| ghost:
    "ch_phase (cl_host c h) aid = Answered mine w \<Longrightarrow> claim_is_ghost (ch_place (cl_host c h)) aid mine w
       \<Longrightarrow> cluster_step registers c (put_host h (set_phase aid (Evicting mine w)
             ((cl_host c h)\<lparr>ch_place := claim_count_evict (ch_place (cl_host c h))\<rparr>)) c)"
| ghost_evicted:
    "ch_phase (cl_host c h) aid = Evicting mine w \<Longrightarrow> dir_evict (cl_dir c) aid w = (b, d)
       \<Longrightarrow> cluster_step registers c (put_host h (set_phase aid (Reclaiming mine)
             ((cl_host c h)\<lparr>ch_place := claim_count_again (ch_place (cl_host c h))\<rparr>)) (c\<lparr>cl_dir := d\<rparr>))"
| reclaim_lands:
    "ch_phase (cl_host c h) aid = Reclaiming mine \<Longrightarrow> dir_claim (cl_dir c) aid mine = (w, d)
       \<Longrightarrow> cluster_step registers c (put_host h (set_phase aid (Reanswered mine w) (cl_host c h)) (c\<lparr>cl_dir := d\<rparr>))"
| verdict:
    "ch_phase (cl_host c h) (actor_id ref) = Answered mine w
       \<Longrightarrow> \<not> claim_is_ghost (ch_place (cl_host c h)) (actor_id ref) mine w
       \<Longrightarrow> claim_decide v ref mine w (ch_place (cl_host c h)) = (r, pl)
       \<Longrightarrow> cluster_step registers c
             (put_host h (set_phase (actor_id ref) No_Claim ((cl_host c h)\<lparr>ch_place := pl\<rparr>)) c)"
| last_verdict:
    "ch_phase (cl_host c h) (actor_id ref) = Reanswered mine w
       \<Longrightarrow> claim_decide v ref mine w (ch_place (cl_host c h)) = (r, pl)
       \<Longrightarrow> cluster_step registers c
             (put_host h (set_phase (actor_id ref) No_Claim ((cl_host c h)\<lparr>ch_place := pl\<rparr>)) c)"
| claim_throws:
    "cluster_step registers c (put_host h (set_phase aid No_Claim (cl_host c h)) c)"
| release_starts:
    "release_begin aid (ch_place (cl_host c h)) = (Some e, pl)
       \<Longrightarrow> cluster_step registers c (put_host h
             ((cl_host c h)\<lparr>ch_place := pl, ch_releases := (aid, e) # ch_releases (cl_host c h)\<rparr>) c)"
| release_lands:
    "(aid, e) \<in> set (ch_releases (cl_host c h))
       \<Longrightarrow> cluster_step registers c (put_host h
             ((cl_host c h)\<lparr>ch_releases := remove1 (aid, e) (ch_releases (cl_host c h))\<rparr>)
             (c\<lparr>cl_dir := dir_release (cl_dir c) aid e\<rparr>))"
| release_lost:
    "cluster_step registers c (put_host h
             ((cl_host c h)\<lparr>ch_releases := remove1 (aid, e) (ch_releases (cl_host c h))\<rparr>) c)"
| peer_looks_up:
    "dir_lookup (cl_dir c) aid = Some e \<Longrightarrow> cluster_step registers c (c\<lparr>cl_observed := (aid, e) # cl_observed c\<rparr>)"
| peer_evicts:
    "(actor_id ref, e) \<in> set (cl_observed c) \<Longrightarrow> nul \<notin> set (ref_type ref) \<Longrightarrow> hopeless_owner registers c ref e
       \<Longrightarrow> cluster_step registers c (c\<lparr>cl_dir := snd (dir_evict (cl_dir c) (actor_id ref) e)\<rparr>)"
| peer_sweeps:
    "\<not> ch_member (cl_host c h) \<Longrightarrow> cluster_step registers c (c\<lparr>cl_dir := snd (dir_evict_host (cl_dir c) h)\<rparr>)"
| fence:
    "cluster_step registers c (put_host h ((cl_host c h)\<lparr>ch_place := (ch_place (cl_host c h))\<lparr>pl_fenced := True\<rparr>\<rparr>) c)"
| membership_ends:
    "cluster_step registers c (put_host h ((cl_host c h)\<lparr>ch_member := False\<rparr>) c)"

inductive cluster_reachable :: "(string \<Rightarrow> string \<Rightarrow> bool) \<Rightarrow> (string \<Rightarrow> int) \<Rightarrow> cluster \<Rightarrow> bool" for registers epoch where
  start: "cluster_reachable registers epoch (start_cluster epoch)"
| step: "cluster_reachable registers epoch c \<Longrightarrow> cluster_step registers c c' \<Longrightarrow> cluster_reachable registers epoch c'"

subsection \<open>The invariant\<close>

text \<open>An entry this claimant has minted; whether a host registers an actor's type.\<close>

definition own_entry :: "claimant \<Rightarrow> dir_entry \<Rightarrow> bool" where
  "own_entry pl e \<longleftrightarrow> CHR ''/'' \<notin> set (pl_host pl) \<and> de_host e = pl_host pl
     \<and> (\<exists>n \<le> pl_seq pl. de_activation e = activation_id (pl_host pl) (pl_epoch pl) n)"

definition serves :: "(string \<Rightarrow> string \<Rightarrow> bool) \<Rightarrow> string \<Rightarrow> string \<Rightarrow> bool" where
  "serves registers h aid \<longleftrightarrow> (case ref_of aid of Some r \<Rightarrow> registers h (ref_type r) | None \<Rightarrow> False)"

definition phase_mine :: "claim_phase \<Rightarrow> dir_entry option" where
  "phase_mine ph = (case ph of No_Claim \<Rightarrow> None | Claiming m \<Rightarrow> Some m | Answered m _ \<Rightarrow> Some m
     | Evicting m _ \<Rightarrow> Some m | Reclaiming m \<Rightarrow> Some m | Reanswered m _ \<Rightarrow> Some m)"

definition phase_winner :: "claim_phase \<Rightarrow> dir_entry option" where
  "phase_winner ph = (case ph of Answered _ w \<Rightarrow> Some w | Evicting _ w \<Rightarrow> Some w | Reanswered _ w \<Rightarrow> Some w
     | _ \<Rightarrow> None)"

definition phase_won :: "claim_phase \<Rightarrow> dir_entry option" where
  "phase_won ph = (case ph of
       Answered m w \<Rightarrow> if de_activation w = de_activation m then Some m else None
     | Reanswered m w \<Rightarrow> if de_activation w = de_activation m then Some m else None
     | _ \<Rightarrow> None)"

definition phase_reclaims :: "claim_phase \<Rightarrow> bool" where
  "phase_reclaims ph = (case ph of Evicting _ _ \<Rightarrow> True | Reclaiming _ \<Rightarrow> True | _ \<Rightarrow> False)"

definition host_inv :: "(string \<Rightarrow> string \<Rightarrow> bool) \<Rightarrow> directory \<Rightarrow> string \<Rightarrow> cl_host \<Rightarrow> bool" where
  "host_inv registers d h H \<longleftrightarrow>
     pl_host (ch_place H) = h
     \<and> (\<forall>aid e. jget (pl_claimed (ch_place H)) aid = Some e \<longrightarrow>
           own_entry (ch_place H) e \<and> serves registers h aid \<and> (ch_member H \<longrightarrow> dir_lookup d aid = Some e))
     \<and> (\<forall>aid e. phase_mine (ch_phase H aid) = Some e \<longrightarrow>
           own_entry (ch_place H) e \<and> serves registers h aid \<and> jget (pl_claimed (ch_place H)) aid \<noteq> Some e)
     \<and> (\<forall>aid e. phase_won (ch_phase H aid) = Some e \<longrightarrow> ch_member H \<longrightarrow> dir_lookup d aid = Some e)
     \<and> (\<forall>aid. phase_reclaims (ch_phase H aid) \<longrightarrow> jget (pl_claimed (ch_place H)) aid = None)
     \<and> (\<forall>aid m w. ch_phase H aid = Evicting m w \<longrightarrow> de_host w = h)
     \<and> (\<forall>aid e. (aid, e) \<in> set (ch_releases H) \<longrightarrow>
           own_entry (ch_place H) e \<and> jget (pl_claimed (ch_place H)) aid \<noteq> Some e
           \<and> phase_mine (ch_phase H aid) \<noteq> Some e)"

definition known :: "cluster \<Rightarrow> dir_entry \<Rightarrow> bool" where
  "known c e \<longleftrightarrow> own_entry (ch_place (cl_host c (de_host e))) e"

definition cluster_inv :: "(string \<Rightarrow> string \<Rightarrow> bool) \<Rightarrow> cluster \<Rightarrow> bool" where
  "cluster_inv registers c \<longleftrightarrow>
     dir_ok (cl_dir c)
     \<and> (\<forall>aid e. dir_lookup (cl_dir c) aid = Some e \<longrightarrow> known c e)
     \<and> (\<forall>x \<in> set (cl_observed c). known c (snd x))
     \<and> (\<forall>h aid w. phase_winner (ch_phase (cl_host c h) aid) = Some w \<longrightarrow> known c w)
     \<and> (\<forall>h. host_inv registers (cl_dir c) h (cl_host c h))"

lemma own_entry_host: "own_entry pl e \<Longrightarrow> own_entry pl' e' \<Longrightarrow> de_activation e = de_activation e'
    \<Longrightarrow> pl_host pl = pl_host pl'"
  unfolding own_entry_def using activation_id_inject by metis

lemma own_entry_eq: "own_entry pl e \<Longrightarrow> own_entry pl e' \<Longrightarrow> de_activation e = de_activation e' \<Longrightarrow> e = e'"
  by (auto simp: own_entry_def)

lemma own_entry_mono:
  "own_entry pl e \<Longrightarrow> pl_host pl' = pl_host pl \<Longrightarrow> pl_epoch pl' = pl_epoch pl \<Longrightarrow> pl_seq pl \<le> pl_seq pl' \<Longrightarrow> own_entry pl' e"
  unfolding own_entry_def using order_trans by fastforce

lemma phase_simps [simp]:
  "phase_mine No_Claim = None" "phase_mine (Claiming m) = Some m" "phase_mine (Answered m w) = Some m"
  "phase_mine (Evicting m w) = Some m" "phase_mine (Reclaiming m) = Some m" "phase_mine (Reanswered m w) = Some m"
  "phase_won No_Claim = None" "phase_won (Claiming m) = None" "phase_won (Evicting m w) = None"
  "phase_won (Reclaiming m) = None"
  "phase_winner No_Claim = None" "phase_winner (Claiming m) = None" "phase_winner (Answered m w) = Some w"
  "phase_winner (Evicting m w) = Some w" "phase_winner (Reclaiming m) = None" "phase_winner (Reanswered m w) = Some w"
  "\<not> phase_reclaims No_Claim" "\<not> phase_reclaims (Claiming m)" "\<not> phase_reclaims (Answered m w)"
  "phase_reclaims (Evicting m w)" "phase_reclaims (Reclaiming m)" "\<not> phase_reclaims (Reanswered m w)"
  by (simp_all add: phase_mine_def phase_won_def phase_winner_def phase_reclaims_def)

lemma phase_won_mine: "phase_won ph = Some e \<Longrightarrow> phase_mine ph = Some e"
  by (auto simp: phase_won_def phase_mine_def split: claim_phase.splits if_splits)

lemma set_phase_sel [simp]:
  "ch_place (set_phase aid ph H) = ch_place H" "ch_releases (set_phase aid ph H) = ch_releases H"
  "ch_member (set_phase aid ph H) = ch_member H"
  "ch_phase (set_phase aid ph H) a = (if a = aid then ph else ch_phase H a)"
  by (simp_all add: set_phase_def)

lemma host_inv_claimed: "host_inv R d h H \<Longrightarrow> jget (pl_claimed (ch_place H)) aid = Some e
    \<Longrightarrow> own_entry (ch_place H) e \<and> serves R h aid \<and> (ch_member H \<longrightarrow> dir_lookup d aid = Some e)"
  unfolding host_inv_def by blast

lemma host_inv_mine: "host_inv R d h H \<Longrightarrow> phase_mine (ch_phase H aid) = Some e
    \<Longrightarrow> own_entry (ch_place H) e \<and> serves R h aid \<and> jget (pl_claimed (ch_place H)) aid \<noteq> Some e"
  unfolding host_inv_def by blast

lemma host_inv_won: "host_inv R d h H \<Longrightarrow> phase_won (ch_phase H aid) = Some e \<Longrightarrow> ch_member H
    \<Longrightarrow> dir_lookup d aid = Some e"
  unfolding host_inv_def by blast

lemma host_inv_reclaims: "host_inv R d h H \<Longrightarrow> phase_reclaims (ch_phase H aid)
    \<Longrightarrow> jget (pl_claimed (ch_place H)) aid = None"
  unfolding host_inv_def by blast

lemma host_inv_evicting: "host_inv R d h H \<Longrightarrow> ch_phase H aid = Evicting m w \<Longrightarrow> de_host w = h"
  unfolding host_inv_def by blast

lemma host_inv_releases: "host_inv R d h H \<Longrightarrow> (aid, e) \<in> set (ch_releases H) \<Longrightarrow>
    own_entry (ch_place H) e \<and> jget (pl_claimed (ch_place H)) aid \<noteq> Some e \<and> phase_mine (ch_phase H aid) \<noteq> Some e"
  unfolding host_inv_def by blast

lemma host_inv_host: "host_inv R d h H \<Longrightarrow> pl_host (ch_place H) = h"
  unfolding host_inv_def by blast

lemma host_invI:
  assumes "pl_host (ch_place H) = h"
    and "\<And>aid e. jget (pl_claimed (ch_place H)) aid = Some e
          \<Longrightarrow> own_entry (ch_place H) e \<and> serves R h aid \<and> (ch_member H \<longrightarrow> dir_lookup d aid = Some e)"
    and "\<And>aid e. phase_mine (ch_phase H aid) = Some e
          \<Longrightarrow> own_entry (ch_place H) e \<and> serves R h aid \<and> jget (pl_claimed (ch_place H)) aid \<noteq> Some e"
    and "\<And>aid e. phase_won (ch_phase H aid) = Some e \<Longrightarrow> ch_member H \<Longrightarrow> dir_lookup d aid = Some e"
    and "\<And>aid. phase_reclaims (ch_phase H aid) \<Longrightarrow> jget (pl_claimed (ch_place H)) aid = None"
    and "\<And>aid m w. ch_phase H aid = Evicting m w \<Longrightarrow> de_host w = h"
    and "\<And>aid e. (aid, e) \<in> set (ch_releases H) \<Longrightarrow>
          own_entry (ch_place H) e \<and> jget (pl_claimed (ch_place H)) aid \<noteq> Some e \<and> phase_mine (ch_phase H aid) \<noteq> Some e"
  shows "host_inv R d h H"
  using assms unfolding host_inv_def by blast

lemmas host_inv_parts = host_inv_claimed host_inv_mine host_inv_won host_inv_reclaims host_inv_evicting host_inv_releases

lemma host_inv_dir:
  assumes "host_inv R d h H"
    and "\<And>aid e. ch_member H \<Longrightarrow> own_entry (ch_place H) e \<Longrightarrow> serves R h aid \<Longrightarrow> dir_lookup d aid = Some e
           \<Longrightarrow> jget (pl_claimed (ch_place H)) aid = Some e \<or> phase_won (ch_phase H aid) = Some e
           \<Longrightarrow> dir_lookup d' aid = Some e"
  shows "host_inv R d' h H"
  using assms phase_won_mine unfolding host_inv_def by blast

lemma host_inv_phase:
  assumes "host_inv R d h H"
    and "\<And>e. phase_mine ph = Some e \<Longrightarrow> phase_mine (ch_phase H aid) = Some e"
    and "\<And>e. phase_won ph = Some e \<Longrightarrow> ch_member H \<Longrightarrow> dir_lookup d aid = Some e"
    and "phase_reclaims ph \<Longrightarrow> jget (pl_claimed (ch_place H)) aid = None"
    and "\<And>m w. ph = Evicting m w \<Longrightarrow> de_host w = h"
  shows "host_inv R d h (set_phase aid ph H)"
  apply (rule host_invI)
  subgoal using host_inv_host [OF assms(1)] by simp
  subgoal using host_inv_claimed [OF assms(1)] by simp
  subgoal using host_inv_mine [OF assms(1)] assms(2) by (simp split: if_splits)
  subgoal using host_inv_won [OF assms(1)] assms(3) by (simp split: if_splits)
  subgoal using host_inv_reclaims [OF assms(1)] assms(4) by (simp split: if_splits)
  subgoal for a m w using host_inv_evicting [OF assms(1), of a m w] assms(5) [of m w] by (metis set_phase_sel(4))
  subgoal using host_inv_releases [OF assms(1)] assms(2) by (simp split: if_splits) blast
  done

lemma host_inv_place:
  assumes "host_inv R d h H" "pl_host pl = pl_host (ch_place H)" "pl_epoch pl = pl_epoch (ch_place H)"
    and "pl_seq pl = pl_seq (ch_place H)" "pl_claimed pl = pl_claimed (ch_place H)"
  shows "host_inv R d h (H\<lparr>ch_place := pl\<rparr>)"
proof -
  have "own_entry pl e = own_entry (ch_place H) e" for e
    using assms(2-4) by (simp add: own_entry_def)
  with assms show ?thesis by (simp add: host_inv_def)
qed

lemma set_phase_place: "set_phase aid ph (H\<lparr>ch_place := pl\<rparr>) = (set_phase aid ph H)\<lparr>ch_place := pl\<rparr>"
  by (simp add: set_phase_def)

lemma host_inv_begin:
  assumes H: "host_inv R d h H" and c: "claim_begin (ch_place H) = Inr (mine, pl)"
    and s: "serves R h aid" and sl: "CHR ''/'' \<notin> set h"
  shows "host_inv R d h (set_phase aid (Claiming mine) (H\<lparr>ch_place := pl\<rparr>))"
proof -
  let ?p = "ch_place H"
  have pl: "pl = ?p\<lparr>pl_seq := Suc (pl_seq ?p), pl_claims := Suc (pl_claims ?p)\<rparr>" and m: "mine = minted ?p"
    using c claim_begin_minted [of ?p] by (auto simp: claim_begin_def split: if_splits)
  have own: "own_entry pl mine" using H sl by (auto simp: pl m own_entry_def minted_def host_inv_def)
  have old: "own_entry pl e" if "own_entry ?p e" for e
    using that by (rule own_entry_mono) (simp_all add: pl)
  have fresh: "\<not> own_entry ?p mine"
    using activation_id_inject by (auto simp: own_entry_def m minted_def) (metis Suc_n_not_le_n)
  have f: "pl_host pl = pl_host ?p" "pl_claimed pl = pl_claimed ?p" by (simp_all add: pl)
  show ?thesis
    apply (rule host_invI)
    subgoal using host_inv_host [OF H] f by simp
    subgoal using host_inv_claimed [OF H] f old by simp
    subgoal using host_inv_mine [OF H] host_inv_claimed [OF H] f old own fresh s by (simp split: if_splits) blast
    subgoal using host_inv_won [OF H] by (simp split: if_splits)
    subgoal using host_inv_reclaims [OF H] f by (simp split: if_splits)
    subgoal using host_inv_evicting [OF H] by (simp split: if_splits)
    subgoal using host_inv_releases [OF H] f old fresh by (simp split: if_splits) blast
    done
qed

lemma host_inv_decide:
  assumes H: "host_inv R d h H" and c: "claim_decide v ref mine w (ch_place H) = (r, pl)"
    and p: "ch_phase H (actor_id ref) = Answered mine w \<or> ch_phase H (actor_id ref) = Reanswered mine w"
  shows "host_inv R d h (set_phase (actor_id ref) No_Claim (H\<lparr>ch_place := pl\<rparr>))"
proof -
  let ?a = "actor_id ref"
  have N: "host_inv R d h (set_phase ?a No_Claim H)"
    by (rule host_inv_phase [OF H]) (simp_all add: phase_mine_def phase_won_def phase_reclaims_def)
  show ?thesis
  proof (cases "de_activation w = de_activation mine")
    case False
    then have "pl = (ch_place H)\<lparr>pl_conflicts := Suc (pl_conflicts (ch_place H))\<rparr>"
      using c by (simp add: claim_decide_def)
    then show ?thesis
      unfolding set_phase_place by (intro host_inv_place [OF N]) (simp_all add: set_phase_def)
  next
    case True
    then have pl: "pl = (ch_place H)\<lparr>pl_claimed := jset (pl_claimed (ch_place H)) ?a mine\<rparr>"
      using c by (simp add: claim_decide_def)
    have m: "phase_mine (ch_phase H ?a) = Some mine" "phase_won (ch_phase H ?a) = Some mine"
      using p True by (auto simp: phase_mine_def phase_won_def)
    have own: "own_entry pl e = own_entry (ch_place H) e" for e by (simp add: own_entry_def pl)
    have F: "own_entry (ch_place H) mine \<and> serves R h ?a"
        "ch_member H \<Longrightarrow> dir_lookup d ?a = Some mine" "(?a, mine) \<notin> set (ch_releases H)"
      using H m unfolding host_inv_def by blast+
    have f: "pl_host pl = pl_host (ch_place H)" "pl_claimed pl = jset (pl_claimed (ch_place H)) ?a mine"
      by (simp_all add: pl)
    show ?thesis
      apply (rule host_invI)
      subgoal using host_inv_host [OF H] f by simp
      subgoal using host_inv_claimed [OF H] F f own by (simp split: if_splits)
      subgoal using host_inv_mine [OF H] f own by (simp split: if_splits)
      subgoal using host_inv_won [OF H] by (simp split: if_splits)
      subgoal using host_inv_reclaims [OF H] f by (simp split: if_splits)
      subgoal using host_inv_evicting [OF H] by (simp split: if_splits)
      subgoal using host_inv_releases [OF H] F f own by (simp split: if_splits) blast
      done
  qed
qed

lemma host_inv_release:
  assumes H: "host_inv R d h H" and c: "release_begin aid (ch_place H) = (Some e, pl)"
  shows "host_inv R d h (H\<lparr>ch_place := pl, ch_releases := (aid, e) # ch_releases H\<rparr>)"
proof -
  have j: "jget (pl_claimed (ch_place H)) aid = Some e"
    and pl: "pl = (ch_place H)\<lparr>pl_claimed := jdel (pl_claimed (ch_place H)) aid, pl_releases := Suc (pl_releases (ch_place H))\<rparr>"
    using c by (auto simp: release_begin_def split: option.splits)
  have own: "own_entry pl x = own_entry (ch_place H) x" for x by (simp add: own_entry_def pl)
  have f: "pl_host pl = pl_host (ch_place H)" "pl_claimed pl = jdel (pl_claimed (ch_place H)) aid"
    by (simp_all add: pl)
  have "own_entry (ch_place H) e" "phase_mine (ch_phase H aid) \<noteq> Some e" using H j unfolding host_inv_def by blast+
  then show ?thesis using H j by (auto simp: host_inv_def own f)
qed

subsection \<open>Every step keeps the invariant\<close>

lemma cluster_inv_host: "cluster_inv R c \<Longrightarrow> host_inv R (cl_dir c) h (cl_host c h)"
  by (simp add: cluster_inv_def)

lemma cluster_inv_winner: "cluster_inv R c \<Longrightarrow> phase_winner (ch_phase (cl_host c h) aid) = Some w \<Longrightarrow> known c w"
  unfolding cluster_inv_def by blast

lemma cluster_inv_entry: "cluster_inv R c \<Longrightarrow> dir_lookup (cl_dir c) aid = Some e \<Longrightarrow> known c e"
  unfolding cluster_inv_def by blast

lemma put_host_sel [simp]:
  "cl_dir (put_host h H c) = cl_dir c" "cl_observed (put_host h H c) = cl_observed c"
  "cl_host (put_host h H c) h' = (if h' = h then H else cl_host c h')"
  by (simp_all add: put_host_def)

lemma cluster_inv_local:
  assumes c: "cluster_inv R c" and H: "host_inv R (cl_dir c) h H"
    and pl: "pl_host (ch_place H) = pl_host (ch_place (cl_host c h))"
      "pl_epoch (ch_place H) = pl_epoch (ch_place (cl_host c h))"
      "pl_seq (ch_place (cl_host c h)) \<le> pl_seq (ch_place H)"
    and w: "\<And>aid w. phase_winner (ch_phase H aid) = Some w \<Longrightarrow> known c w"
  shows "cluster_inv R (put_host h H c)"
proof -
  have K: "known (put_host h H c) e" if "known c e" for e
    using that own_entry_mono [OF _ pl] by (auto simp: known_def)
  show ?thesis
    using c H w K by (simp add: cluster_inv_def)
qed

lemma cluster_inv_dir:
  assumes c: "cluster_inv R c" and "dir_ok d"
    and "\<And>aid e. dir_lookup d aid = Some e \<Longrightarrow> known c e"
    and "\<And>h aid e. ch_member (cl_host c h) \<Longrightarrow> own_entry (ch_place (cl_host c h)) e \<Longrightarrow> serves R h aid
           \<Longrightarrow> dir_lookup (cl_dir c) aid = Some e
           \<Longrightarrow> jget (pl_claimed (ch_place (cl_host c h))) aid = Some e \<or> phase_won (ch_phase (cl_host c h) aid) = Some e
           \<Longrightarrow> dir_lookup d aid = Some e"
  shows "cluster_inv R (c\<lparr>cl_dir := d\<rparr>)"
proof -
  have "host_inv R d h (cl_host c h)" for h
    by (rule host_inv_dir [OF cluster_inv_host [OF c]]) (rule assms(4))
  then show ?thesis
    using assms(1-3) by (simp add: cluster_inv_def known_def)
qed

text \<open>A call that lands at the directory.\<close>

lemma cluster_inv_claim:
  assumes c: "cluster_inv R c" and m: "phase_mine (ch_phase (cl_host c h) aid) = Some mine"
    and d: "dir_claim (cl_dir c) aid mine = (w, d)"
  shows "cluster_inv R (c\<lparr>cl_dir := d\<rparr>) \<and> known c w
         \<and> (de_activation w = de_activation mine \<longrightarrow> dir_lookup d aid = Some mine)"
proof -
  have ok: "dir_ok (cl_dir c)" using c by (simp add: cluster_inv_def)
  have own: "own_entry (ch_place (cl_host c h)) mine"
    using host_inv_mine [OF cluster_inv_host [OF c] m] by simp
  have host: "pl_host (ch_place (cl_host c h)) = h" by (rule host_inv_host [OF cluster_inv_host [OF c]])
  have km: "known c mine" using own host by (simp add: known_def own_entry_def)
  have w: "w = (case dir_lookup (cl_dir c) aid of None \<Rightarrow> mine | Some x \<Rightarrow> x)"
    using hubdir.claim_winner [OF ok, of aid mine] d by simp
  have l: "dir_lookup d b = (if b = aid then Some w else dir_lookup (cl_dir c) b)" for b
    using hubdir.claim_lookup [OF ok, of aid mine b] d by simp
  have kw: "known c w"
    using w km cluster_inv_entry [OF c, of aid] by (simp split: option.splits)
  have "w = mine" if "de_activation w = de_activation mine"
  proof -
    have ow: "own_entry (ch_place (cl_host c (de_host w))) w" using kw by (simp add: known_def)
    have "pl_host (ch_place (cl_host c (de_host w))) = h"
      using own_entry_host [OF ow own that] host by simp
    then have "de_host w = h" by (simp add: host_inv_host [OF cluster_inv_host [OF c]])
    with ow own that own_entry_eq show ?thesis by blast
  qed
  moreover have "cluster_inv R (c\<lparr>cl_dir := d\<rparr>)"
  proof (rule cluster_inv_dir [OF c])
    show "dir_ok d" using hubdir.ok_claim [OF ok, of aid mine] d by simp
    show "known c e" if "dir_lookup d b = Some e" for b e
      using that l kw cluster_inv_entry [OF c, of b e] by (simp split: if_splits)
    show "dir_lookup d b = Some e" if "dir_lookup (cl_dir c) b = Some e" for b e
      using that l w by (cases "b = aid") auto
  qed
  ultimately show ?thesis using kw l by simp
qed

text \<open>Removing an entry is harmless when no live host serves the actor under it.\<close>

lemma cluster_inv_remove:
  assumes c: "cluster_inv R c" and k: "known c e" and ok: "dir_ok d"
    and l: "\<And>b. dir_lookup d b = (if b = aid \<and> same_activation (dir_lookup (cl_dir c) aid) e then None
                                   else dir_lookup (cl_dir c) b)"
    and safe: "\<lbrakk>ch_member (cl_host c (de_host e)); serves R (de_host e) aid;
                jget (pl_claimed (ch_place (cl_host c (de_host e)))) aid = Some e
                \<or> phase_won (ch_phase (cl_host c (de_host e)) aid) = Some e\<rbrakk> \<Longrightarrow> False"
  shows "cluster_inv R (c\<lparr>cl_dir := d\<rparr>)"
proof (rule cluster_inv_dir [OF c ok])
  show "known c x" if "dir_lookup d b = Some x" for b x
    using that l cluster_inv_entry [OF c, of b x] by (simp split: if_splits)
next
  fix h b x
  assume A: "ch_member (cl_host c h)" "own_entry (ch_place (cl_host c h)) x" "serves R h b"
    "dir_lookup (cl_dir c) b = Some x"
    "jget (pl_claimed (ch_place (cl_host c h))) b = Some x \<or> phase_won (ch_phase (cl_host c h) b) = Some x"
  show "dir_lookup d b = Some x"
  proof (rule ccontr)
    assume "\<not> dir_lookup d b = Some x"
    then have b: "b = aid" and act: "de_activation x = de_activation e"
      using l [of b] A(4) by (auto simp: same_activation_def split: if_splits)
    have oe: "own_entry (ch_place (cl_host c (de_host e))) e" using k by (simp add: known_def)
    have "h = de_host e"
      using own_entry_host [OF A(2) oe act] by (simp add: host_inv_host [OF cluster_inv_host [OF c]])
    moreover from this have "x = e" using own_entry_eq A(2) oe act by blast
    ultimately show False using safe A b by blast
  qed
qed

lemma cluster_step_inv: "cluster_step R c c' \<Longrightarrow> cluster_inv R c \<Longrightarrow> cluster_inv R c'"
proof (induction rule: cluster_step.induct)
  case (begin_claim c h ref mine pl)
  note H = cluster_inv_host [OF begin_claim.prems, of h]
  have pl: "pl_host pl = pl_host (ch_place (cl_host c h))" "pl_epoch pl = pl_epoch (ch_place (cl_host c h))"
    "pl_seq (ch_place (cl_host c h)) \<le> pl_seq pl"
    using begin_claim.hyps(5) by (auto simp: claim_begin_def Let_def split: if_splits)
  show ?case
    using host_inv_begin [OF H begin_claim.hyps(5) _ begin_claim.hyps(4), of "actor_id ref"] begin_claim.hyps(2,3) pl
      cluster_inv_winner [OF begin_claim.prems, of h]
    by (intro cluster_inv_local [OF begin_claim.prems]) (auto simp: serves_def ref_of_actor_id split: if_splits)
next
  case (claim_lands c h aid mine w d)
  note L = cluster_inv_claim [OF claim_lands.prems, of h aid mine w d]
  have I: "cluster_inv R (c\<lparr>cl_dir := d\<rparr>)" and kw: "known c w"
    and won: "de_activation w = de_activation mine \<longrightarrow> dir_lookup d aid = Some mine"
    using L claim_lands.hyps by auto
  have "host_inv R d h (set_phase aid (Answered mine w) (cl_host c h))"
    using cluster_inv_host [OF I, of h] claim_lands.hyps won
    by (intro host_inv_phase) (auto simp: phase_won_def split: if_splits)
  then show ?case
    using kw cluster_inv_winner [OF I, of h]
    by (intro cluster_inv_local [OF I]) (auto simp: known_def split: if_splits)
next
  case (ghost c h aid mine w)
  note H = cluster_inv_host [OF ghost.prems, of h]
  have "host_inv R (cl_dir c) h (set_phase aid (Evicting mine w) (cl_host c h))"
    using H ghost.hyps host_inv_host [OF H]
    by (intro host_inv_phase) (auto simp: claim_is_ghost_def jhas_def)
  then have "host_inv R (cl_dir c) h (set_phase aid (Evicting mine w)
      ((cl_host c h)\<lparr>ch_place := claim_count_evict (ch_place (cl_host c h))\<rparr>))"
    unfolding set_phase_place by (rule host_inv_place) (simp_all add: claim_count_evict_def)
  then show ?case
    using ghost.hyps cluster_inv_winner [OF ghost.prems, of h] cluster_inv_winner [OF ghost.prems, of h aid w]
    by (intro cluster_inv_local [OF ghost.prems]) (auto simp: claim_count_evict_def split: if_splits)
next
  case (ghost_evicted c h aid mine w b d)
  note H = cluster_inv_host [OF ghost_evicted.prems, of h]
  have ok: "dir_ok (cl_dir c)" using ghost_evicted.prems by (simp add: cluster_inv_def)
  have kw: "known c w" and wh: "de_host w = h"
    using cluster_inv_winner [OF ghost_evicted.prems, of h aid w] host_inv_evicting [OF H] ghost_evicted.hyps by simp_all
  have I: "cluster_inv R (c\<lparr>cl_dir := d\<rparr>)"
  proof (rule cluster_inv_remove [OF ghost_evicted.prems kw])
    show "dir_ok d" using hubdir.ok_evict [OF ok, of aid w] ghost_evicted.hyps by simp
    show "dir_lookup d b = (if b = aid \<and> same_activation (dir_lookup (cl_dir c) aid) w then None
                                   else dir_lookup (cl_dir c) b)" for b
      using hubdir.evict_lookup [OF ok, of aid w b] ghost_evicted.hyps by simp
    show False if "jget (pl_claimed (ch_place (cl_host c (de_host w)))) aid = Some w
                \<or> phase_won (ch_phase (cl_host c (de_host w)) aid) = Some w"
      using that wh ghost_evicted.hyps host_inv_reclaims [OF H, of aid] by simp
  qed
  have "host_inv R d h (set_phase aid (Reclaiming mine) (cl_host c h))"
    using cluster_inv_host [OF I, of h] ghost_evicted.hyps host_inv_reclaims [OF H, of aid]
    by (intro host_inv_phase) auto
  then have "host_inv R d h (set_phase aid (Reclaiming mine)
      ((cl_host c h)\<lparr>ch_place := claim_count_again (ch_place (cl_host c h))\<rparr>))"
    unfolding set_phase_place by (rule host_inv_place) (simp_all add: claim_count_again_def)
  then show ?case
    using cluster_inv_winner [OF I, of h]
    by (intro cluster_inv_local [OF I]) (auto simp: claim_count_again_def split: if_splits)
next
  case (reclaim_lands c h aid mine w d)
  have I: "cluster_inv R (c\<lparr>cl_dir := d\<rparr>)" and kw: "known c w"
    and won: "de_activation w = de_activation mine \<longrightarrow> dir_lookup d aid = Some mine"
    using cluster_inv_claim [OF reclaim_lands.prems, of h aid mine w d] reclaim_lands.hyps by auto
  have "host_inv R d h (set_phase aid (Reanswered mine w) (cl_host c h))"
    using cluster_inv_host [OF I, of h] reclaim_lands.hyps won
    by (intro host_inv_phase) (auto simp: phase_won_def split: if_splits)
  then show ?case
    using kw cluster_inv_winner [OF I, of h]
    by (intro cluster_inv_local [OF I]) (auto simp: known_def split: if_splits)
next
  case (verdict c h ref mine w v r pl)
  have "pl_host pl = pl_host (ch_place (cl_host c h))" "pl_epoch pl = pl_epoch (ch_place (cl_host c h))"
    "pl_seq (ch_place (cl_host c h)) \<le> pl_seq pl"
    using verdict.hyps(3) by (auto simp: claim_decide_def split: if_splits)
  then show ?case
    using host_inv_decide [OF cluster_inv_host [OF verdict.prems, of h] verdict.hyps(3)] verdict.hyps(1)
      cluster_inv_winner [OF verdict.prems, of h]
    by (intro cluster_inv_local [OF verdict.prems]) (auto split: if_splits)
next
  case (last_verdict c h ref mine w v r pl)
  have "pl_host pl = pl_host (ch_place (cl_host c h))" "pl_epoch pl = pl_epoch (ch_place (cl_host c h))"
    "pl_seq (ch_place (cl_host c h)) \<le> pl_seq pl"
    using last_verdict.hyps(2) by (auto simp: claim_decide_def split: if_splits)
  then show ?case
    using host_inv_decide [OF cluster_inv_host [OF last_verdict.prems, of h] last_verdict.hyps(2)] last_verdict.hyps(1)
      cluster_inv_winner [OF last_verdict.prems, of h]
    by (intro cluster_inv_local [OF last_verdict.prems]) (auto split: if_splits)
next
  case (claim_throws c h aid)
  have "host_inv R (cl_dir c) h (set_phase aid No_Claim (cl_host c h))"
    by (rule host_inv_phase [OF cluster_inv_host [OF claim_throws.prems]]) simp_all
  then show ?case
    using cluster_inv_winner [OF claim_throws.prems, of h]
    by (intro cluster_inv_local [OF claim_throws.prems]) (auto split: if_splits)
next
  case (release_starts aid c h e pl)
  have "pl_host pl = pl_host (ch_place (cl_host c h))" "pl_epoch pl = pl_epoch (ch_place (cl_host c h))"
    "pl_seq (ch_place (cl_host c h)) \<le> pl_seq pl"
    using release_starts.hyps by (auto simp: release_begin_def split: option.splits)
  then show ?case
    using host_inv_release [OF cluster_inv_host [OF release_starts.prems, of h] release_starts.hyps]
      cluster_inv_winner [OF release_starts.prems, of h]
    by (intro cluster_inv_local [OF release_starts.prems]) auto
next
  case (release_lands aid e c h)
  note H = cluster_inv_host [OF release_lands.prems, of h]
  have ok: "dir_ok (cl_dir c)" using release_lands.prems by (simp add: cluster_inv_def)
  note R = host_inv_releases [OF H release_lands.hyps]
  have eh: "de_host e = h" using R host_inv_host [OF H] by (auto simp: own_entry_def)
  have I: "cluster_inv R (c\<lparr>cl_dir := dir_release (cl_dir c) aid e\<rparr>)"
  proof (rule cluster_inv_remove [OF release_lands.prems, of e _ aid])
    show "known c e" using R eh by (simp add: known_def)
    show "dir_ok (dir_release (cl_dir c) aid e)" by (rule hubdir.ok_release [OF ok])
    show "dir_lookup (dir_release (cl_dir c) aid e) b
        = (if b = aid \<and> same_activation (dir_lookup (cl_dir c) aid) e then None else dir_lookup (cl_dir c) b)" for b
      by (rule hubdir.release_lookup [OF ok])
    show False if "jget (pl_claimed (ch_place (cl_host c (de_host e)))) aid = Some e
                \<or> phase_won (ch_phase (cl_host c (de_host e)) aid) = Some e"
      using that R eh phase_won_mine by auto
  qed
  have "host_inv R (dir_release (cl_dir c) aid e) h
      ((cl_host c h)\<lparr>ch_releases := remove1 (aid, e) (ch_releases (cl_host c h))\<rparr>)"
    using cluster_inv_host [OF I, of h] by (auto simp: host_inv_def dest!: subsetD [OF set_remove1_subset])
  then show ?case
    using cluster_inv_winner [OF I, of h] by (intro cluster_inv_local [OF I]) auto
next
  case (release_lost c h aid e)
  have "host_inv R (cl_dir c) h
      ((cl_host c h)\<lparr>ch_releases := remove1 (aid, e) (ch_releases (cl_host c h))\<rparr>)"
    using cluster_inv_host [OF release_lost.prems, of h] by (auto simp: host_inv_def dest!: subsetD [OF set_remove1_subset])
  then show ?case
    using cluster_inv_winner [OF release_lost.prems, of h] by (intro cluster_inv_local [OF release_lost.prems]) auto
next
  case (peer_looks_up c aid e)
  then show ?case
    using cluster_inv_entry [OF peer_looks_up.prems, of aid e] by (auto simp: cluster_inv_def known_def)
next
  case (peer_evicts ref e c)
  have ok: "dir_ok (cl_dir c)" using peer_evicts.prems by (simp add: cluster_inv_def)
  have "known c e" using peer_evicts.prems peer_evicts.hyps(1) by (force simp: cluster_inv_def)
  then show ?case
  proof (rule cluster_inv_remove [OF peer_evicts.prems])
    show "dir_ok (snd (dir_evict (cl_dir c) (actor_id ref) e))" by (rule hubdir.ok_evict [OF ok])
    show "dir_lookup (snd (dir_evict (cl_dir c) (actor_id ref) e)) b
        = (if b = actor_id ref \<and> same_activation (dir_lookup (cl_dir c) (actor_id ref)) e then None
           else dir_lookup (cl_dir c) b)" for b
      by (rule hubdir.evict_lookup [OF ok])
    show False if "ch_member (cl_host c (de_host e))" "serves R (de_host e) (actor_id ref)"
      using that peer_evicts.hyps(2,3) by (simp add: hopeless_owner_def serves_def ref_of_actor_id)
  qed
next
  case (peer_sweeps c h)
  have ok: "dir_ok (cl_dir c)" using peer_sweeps.prems by (simp add: cluster_inv_def)
  note L = hubdir.evict_host_lookup [OF ok, of h]
  show ?case
  proof (rule cluster_inv_dir [OF peer_sweeps.prems])
    show "dir_ok (snd (dir_evict_host (cl_dir c) h))" by (rule hubdir.ok_evict_host [OF ok])
    show "known c e" if "dir_lookup (snd (dir_evict_host (cl_dir c) h)) b = Some e" for b e
      using that cluster_inv_entry [OF peer_sweeps.prems, of b e] by (auto simp: L split: option.splits if_splits)
    show "dir_lookup (snd (dir_evict_host (cl_dir c) h)) b = Some e"
      if "ch_member (cl_host c g)" "own_entry (ch_place (cl_host c g)) e" "dir_lookup (cl_dir c) b = Some e" for g b e
      using that peer_sweeps.hyps host_inv_host [OF cluster_inv_host [OF peer_sweeps.prems], of g]
      by (auto simp: L own_entry_def)
  qed
next
  case (fence c h)
  have "host_inv R (cl_dir c) h ((cl_host c h)\<lparr>ch_place := (ch_place (cl_host c h))\<lparr>pl_fenced := True\<rparr>\<rparr>)"
    by (rule host_inv_place [OF cluster_inv_host [OF fence.prems]]) simp_all
  then show ?case
    using cluster_inv_winner [OF fence.prems, of h] by (intro cluster_inv_local [OF fence.prems]) auto
next
  case (membership_ends c h)
  have "host_inv R (cl_dir c) h ((cl_host c h)\<lparr>ch_member := False\<rparr>)"
    using cluster_inv_host [OF membership_ends.prems, of h] by (simp add: host_inv_def)
  then show ?case
    using cluster_inv_winner [OF membership_ends.prems, of h]
    by (intro cluster_inv_local [OF membership_ends.prems]) auto
qed

lemma cluster_reachable_inv: "cluster_reachable R epoch c \<Longrightarrow> cluster_inv R c"
proof (induction rule: cluster_reachable.induct)
  case start
  show ?case
    by (auto simp: start_cluster_def cluster_inv_def host_inv_def new_claimant_def dir_ok_def dir_lookup_def)
next
  case (step c c')
  then show ?case by (blast intro: cluster_step_inv)
qed

subsection \<open>The properties\<close>

text \<open>
  C1. Single activation: in every interleaving of claims, ghost reclaims, releases, failing calls,
  peer evictions, sweeps and fences, at most one host with a live membership holds a claim
  on an actor, and the directory names exactly that claim.
\<close>

theorem single_activation:
  assumes "cluster_reachable registers epoch c"
    and "ch_member (cl_host c h1)" "jget (pl_claimed (ch_place (cl_host c h1))) aid = Some e1"
    and "ch_member (cl_host c h2)" "jget (pl_claimed (ch_place (cl_host c h2))) aid = Some e2"
  shows "h1 = h2 \<and> e1 = e2 \<and> dir_lookup (cl_dir c) aid = Some e1"
proof -
  note I = cluster_reachable_inv [OF assms(1)]
  have 1: "own_entry (ch_place (cl_host c h1)) e1" "dir_lookup (cl_dir c) aid = Some e1"
    using host_inv_claimed [OF cluster_inv_host [OF I] assms(3)] assms(2) by auto
  have 2: "own_entry (ch_place (cl_host c h2)) e2" "dir_lookup (cl_dir c) aid = Some e2"
    using host_inv_claimed [OF cluster_inv_host [OF I] assms(5)] assms(4) by auto
  have e: "e1 = e2" using 1 2 by simp
  have "h1 = h2"
    using 1(1) 2(1) e host_inv_host [OF cluster_inv_host [OF I], of h1] host_inv_host [OF cluster_inv_host [OF I], of h2]
    by (simp add: own_entry_def)
  with e 1 show ?thesis by simp
qed

text \<open>A run in which one host claims a fresh actor, with a step of the environment in the middle.\<close>

definition run_begin :: "string \<Rightarrow> actor_ref \<Rightarrow> cluster \<Rightarrow> cluster" where
  "run_begin h ref c = (case claim_begin (ch_place (cl_host c h)) of
     Inl _ \<Rightarrow> c
   | Inr (mine, pl) \<Rightarrow> put_host h (set_phase (actor_id ref) (Claiming mine) ((cl_host c h)\<lparr>ch_place := pl\<rparr>)) c)"

definition run_land :: "string \<Rightarrow> actor_ref \<Rightarrow> cluster \<Rightarrow> cluster" where
  "run_land h ref c = (case ch_phase (cl_host c h) (actor_id ref) of
     Claiming mine \<Rightarrow> (let (w, d) = dir_claim (cl_dir c) (actor_id ref) mine
        in put_host h (set_phase (actor_id ref) (Answered mine w) (cl_host c h)) (c\<lparr>cl_dir := d\<rparr>))
   | _ \<Rightarrow> c)"

definition run_verdict :: "string \<Rightarrow> actor_ref \<Rightarrow> cluster \<Rightarrow> cluster" where
  "run_verdict h ref c = (case ch_phase (cl_host c h) (actor_id ref) of
     Answered mine w \<Rightarrow> put_host h (set_phase (actor_id ref) No_Claim ((cl_host c h)
        \<lparr>ch_place := snd (claim_decide \<lparr>mv_version = 0, mv_hosts = []\<rparr> ref mine w (ch_place (cl_host c h)))\<rparr>)) c
   | _ \<Rightarrow> c)"

definition run_fence :: "string \<Rightarrow> cluster \<Rightarrow> cluster" where
  "run_fence h c = put_host h ((cl_host c h)\<lparr>ch_place := (ch_place (cl_host c h))\<lparr>pl_fenced := True\<rparr>\<rparr>) c"

definition demo_ref :: actor_ref where
  "demo_ref = \<lparr>ref_type = ''cart'', ref_key = ''7''\<rparr>"

definition demo_cluster :: cluster where
  "demo_cluster = run_verdict ''s.a'' demo_ref (run_land ''s.a'' demo_ref
     (run_begin ''s.a'' demo_ref (start_cluster (\<lambda>_. 5))))"

lemmas run_defs = run_begin_def run_land_def run_verdict_def run_fence_def start_cluster_def new_claimant_def
  claim_begin_def claim_decide_def claim_is_ghost_def Let_def dir_claim_def set_phase_def put_host_def

lemma demo_ref_ok: "nul \<notin> set (ref_type demo_ref)" "CHR ''/'' \<notin> set ''s.a''"
  by (simp_all add: demo_ref_def)

lemma run_begin_step:
  assumes "ch_phase (cl_host c ''s.a'') (actor_id demo_ref) = No_Claim" "\<not> pl_fenced (ch_place (cl_host c ''s.a''))"
  shows "cluster_step (\<lambda>_ _. True) c (run_begin ''s.a'' demo_ref c)"
  using assms demo_ref_ok cluster_step.begin_claim [of c "''s.a''" demo_ref "\<lambda>_ _. True"]
  by (simp add: run_begin_def claim_begin_minted)

lemma run_land_step:
  assumes "ch_phase (cl_host c ''s.a'') (actor_id demo_ref) = Claiming m"
  shows "cluster_step R c (run_land ''s.a'' demo_ref c)"
  using cluster_step.claim_lands [OF assms prod.collapse [symmetric], of R] assms
  by (simp add: run_land_def split_def Let_def)

lemma run_verdict_step:
  assumes "ch_phase (cl_host c ''s.a'') (actor_id demo_ref) = Answered m w"
    and "\<not> claim_is_ghost (ch_place (cl_host c ''s.a'')) (actor_id demo_ref) m w"
  shows "cluster_step R c (run_verdict ''s.a'' demo_ref c)"
  using cluster_step.verdict [OF assms prod.collapse [symmetric]] assms
  by (simp add: run_verdict_def)

lemma run_fence_step: "cluster_step R c (run_fence ''s.a'' c)"
  unfolding run_fence_def by (rule cluster_step.fence)

lemma demo_reachable: "cluster_reachable (\<lambda>_ _. True) (\<lambda>_. 5) demo_cluster"
proof -
  let ?m = "\<lparr>de_host = ''s.a'', de_activation = activation_id ''s.a'' 5 1\<rparr>"
  let ?c1 = "run_begin ''s.a'' demo_ref (start_cluster (\<lambda>_. 5))"
  have 1: "cluster_reachable (\<lambda>_ _. True) (\<lambda>_. 5) ?c1"
    by (rule cluster_reachable.step [OF cluster_reachable.start run_begin_step]) (simp_all add: run_defs)
  have 2: "cluster_reachable (\<lambda>_ _. True) (\<lambda>_. 5) (run_land ''s.a'' demo_ref ?c1)"
    by (rule cluster_reachable.step [OF 1 run_land_step [where m = ?m]]) (simp add: run_defs)
  show ?thesis unfolding demo_cluster_def
    by (rule cluster_reachable.step [OF 2 run_verdict_step [where m = ?m and w = ?m]]) (simp_all add: run_defs)
qed

theorem single_activation_witness:
  "ch_member (cl_host demo_cluster ''s.a'')
   \<and> jget (pl_claimed (ch_place (cl_host demo_cluster ''s.a''))) (actor_id demo_ref)
        = Some \<lparr>de_host = ''s.a'', de_activation = activation_id ''s.a'' 5 1\<rparr>
   \<and> dir_lookup (cl_dir demo_cluster) (actor_id demo_ref)
        = Some \<lparr>de_host = ''s.a'', de_activation = activation_id ''s.a'' 5 1\<rparr>"
proof -
  have 1: "ch_member (cl_host demo_cluster ''s.a'')"
    "jget (pl_claimed (ch_place (cl_host demo_cluster ''s.a''))) (actor_id demo_ref)
        = Some \<lparr>de_host = ''s.a'', de_activation = activation_id ''s.a'' 5 1\<rparr>"
    by (simp_all add: demo_cluster_def run_defs)
  with single_activation [OF demo_reachable 1 1] show ?thesis by simp
qed

text \<open>
  What one \<open>beforeActivate\<close> does when nothing runs beside it. A free actor is claimed; a
  leftover entry of the host itself is evicted and reclaimed; another host's entry is left
  alone and the caller is sent there with the owner hint.
\<close>

theorem before_activate_outcomes:
  assumes "dir_ok d" and "\<not> pl_fenced pl"
    and "before_activate dir_claim dir_evict v ref pl d = (r, pl', d')"
  shows "(case dir_lookup d (actor_id ref) of
       None \<Rightarrow> r = Inr () \<and> dir_lookup d' (actor_id ref) = Some (minted pl)
                \<and> jget (pl_claimed pl') (actor_id ref) = Some (minted pl)
     | Some g \<Rightarrow> de_activation g \<noteq> de_activation (minted pl) \<longrightarrow>
         (if de_host g = pl_host pl
          then \<not> jhas (pl_claimed pl) (actor_id ref) \<longrightarrow>
                 r = Inr () \<and> dir_lookup d' (actor_id ref) = Some (minted pl)
                 \<and> jget (pl_claimed pl') (actor_id ref) = Some (minted pl)
          else r = Inl (wrong_host_error (actor_label ref) (Some (owner_hint_of v (de_host g))))
               \<and> (\<forall>b. dir_lookup d' b = dir_lookup d b) \<and> pl_claimed pl' = pl_claimed pl))"
  using hubdir.before_activate_free [OF assms(1,2) _ assms(3)]
    hubdir.before_activate_ghost [OF assms(1,2) _ _ _ _ assms(3)]
    hubdir.before_activate_foreign [OF assms(1,2) _ _ _ assms(3)]
  by (simp split: option.split)

theorem before_activate_outcomes_witness:
  "fst (before_activate dir_claim dir_evict \<lparr>mv_version = 0, mv_hosts = []\<rparr> demo_ref (new_claimant ''s.a'' 5)
        [(actor_id demo_ref, \<lparr>de_host = ''s.b'', de_activation = ''s.b/4/1''\<rparr>)])
     = Inl (wrong_host_error ''cart/7'' (Some \<lparr>oh_host = ''s.b'', oh_address = None, oh_public = None\<rparr>))"
proof -
  let ?d = "[(actor_id demo_ref, \<lparr>de_host = ''s.b'', de_activation = ''s.b/4/1''\<rparr>)]"
  have d: "dir_ok ?d" "dir_lookup ?d (actor_id demo_ref) = Some \<lparr>de_host = ''s.b'', de_activation = ''s.b/4/1''\<rparr>"
    by (simp_all add: dir_ok_def dir_lookup_def)
  have a: "''s.b/4/1'' \<noteq> de_activation (minted (new_claimant ''s.a'' 5))"
    by (simp add: minted_def new_claimant_def activation_id_def)
  obtain r pl' d' where b: "before_activate dir_claim dir_evict \<lparr>mv_version = 0, mv_hosts = []\<rparr> demo_ref
      (new_claimant ''s.a'' 5) ?d = (r, pl', d')"
    by (rule prod_cases3)
  have "\<not> pl_fenced (new_claimant ''s.a'' 5)" "pl_host (new_claimant ''s.a'' 5) = ''s.a''"
    by (simp_all add: new_claimant_def)
  with before_activate_outcomes [OF d(1) _ b] d(2) a b show ?thesis
    by (simp add: owner_hint_of_def member_of_def actor_label_def demo_ref_def)
qed

text \<open>
  A hand-off: once an owner's release has landed the actor is free, and the next host to
  activate it wins the claim.
\<close>

theorem release_hands_over:
  assumes "dir_ok d" "jget (pl_claimed pl) (actor_id ref) = Some e" "dir_lookup d (actor_id ref) = Some e"
    and "after_deactivate dir_release ref pl d = (pl', d')" and "\<not> pl_fenced q"
    and "before_activate dir_claim dir_evict v ref q d' = (r, q', d'')"
  shows "r = Inr () \<and> dir_lookup d'' (actor_id ref) = Some (minted q) \<and> \<not> jhas (pl_claimed pl') (actor_id ref)"
  by (rule hubdir.handoff [OF assms])

theorem release_hands_over_witness:
  "let e = \<lparr>de_host = ''s.a'', de_activation = ''s.a/5/1''\<rparr>;
       pl = (new_claimant ''s.a'' 5)\<lparr>pl_claimed := [(actor_id demo_ref, e)]\<rparr>;
       (_, d') = after_deactivate dir_release demo_ref pl [(actor_id demo_ref, e)];
       (r, _, d'') = before_activate dir_claim dir_evict \<lparr>mv_version = 0, mv_hosts = []\<rparr> demo_ref (new_claimant ''s.b'' 6) d'
   in r = Inr () \<and> map_option de_host (dir_lookup d'' (actor_id demo_ref)) = Some ''s.b''"
proof -
  let ?e = "\<lparr>de_host = ''s.a'', de_activation = ''s.a/5/1''\<rparr>"
  let ?d = "[(actor_id demo_ref, ?e)]" and ?pl = "(new_claimant ''s.a'' 5)\<lparr>pl_claimed := [(actor_id demo_ref, ?e)]\<rparr>"
  obtain pl' d' where a: "after_deactivate dir_release demo_ref ?pl ?d = (pl', d')" by force
  obtain r q' d'' where b: "before_activate dir_claim dir_evict \<lparr>mv_version = 0, mv_hosts = []\<rparr> demo_ref
      (new_claimant ''s.b'' 6) d' = (r, q', d'')" by (rule prod_cases3)
  have "dir_ok ?d" "jget (pl_claimed ?pl) (actor_id demo_ref) = Some ?e" "dir_lookup ?d (actor_id demo_ref) = Some ?e"
    "\<not> pl_fenced (new_claimant ''s.b'' 6)"
    by (simp_all add: dir_ok_def dir_lookup_def new_claimant_def)
  from release_hands_over [OF this(1-3) a this(4) b] show ?thesis
    by (simp add: Let_def a b)
qed

text \<open>
  The promise of \<open>#activationFor\<close> (\<open>host/local-host.ts\<close>): claim, then create the
  activation. A failure of the second step only drops the slot.
\<close>

definition activate_attempt ::
  "('d \<Rightarrow> string \<Rightarrow> dir_entry \<Rightarrow> dir_entry \<times> 'd) \<Rightarrow> ('d \<Rightarrow> string \<Rightarrow> dir_entry \<Rightarrow> bool \<times> 'd)
     \<Rightarrow> member_view \<Rightarrow> (actor_ref \<Rightarrow> actor_error + 'a) \<Rightarrow> actor_ref \<Rightarrow> claimant \<Rightarrow> 'd
     \<Rightarrow> (actor_error + 'a) \<times> claimant \<times> 'd" where
  "activate_attempt claim evict v create ref pl d =
     (case before_activate claim evict v ref pl d of
        (Inl e, pl', d') \<Rightarrow> (Inl e, pl', d')
      | (Inr _, pl', d') \<Rightarrow> (create ref, pl', d'))"

lemma activation_id_later: "activation_id h e m = activation_id h e n \<longleftrightarrow> m = n"
  by (simp add: activation_id_def)

text \<open>
  What happens at the directory after the failure: another attempt on the same host, whatever its creation would answer and whatever view
  it is made under, or a claim or a release by others of any actor. No eviction, no fence.
\<close>

datatype 'a later = Tries member_view "actor_ref \<Rightarrow> actor_error + 'a" | Others_Claim string dir_entry | Others_Release string dir_entry

fun later_attempts :: "actor_ref \<Rightarrow> 'a later list \<Rightarrow> claimant \<Rightarrow> directory \<Rightarrow> (member_view \<times> (actor_error + 'a)) list \<times> claimant \<times> directory" where
  "later_attempts ref [] pl d = ([], pl, d)"
| "later_attempts ref (Tries v create # evs) pl d =
     (let (r, pl1, d1) = activate_attempt dir_claim dir_evict v create ref pl d;
          (rs, pl2, d2) = later_attempts ref evs pl1 d1 in ((v, r) # rs, pl2, d2))"
| "later_attempts ref (Others_Claim aid e # evs) pl d = later_attempts ref evs pl (snd (dir_claim d aid e))"
| "later_attempts ref (Others_Release aid e # evs) pl d = later_attempts ref evs pl (dir_release d aid e)"

text \<open>A claim that stands: in the directory and on the host's list, made before the host's present sequence number.\<close>

definition stands :: "actor_ref \<Rightarrow> dir_entry \<Rightarrow> claimant \<Rightarrow> directory \<Rightarrow> bool" where
  "stands ref e pl d \<longleftrightarrow> dir_ok d \<and> \<not> pl_fenced pl \<and> dir_lookup d (actor_id ref) = Some e \<and> jhas (pl_claimed pl) (actor_id ref)
     \<and> de_host e = pl_host pl \<and> (\<exists>n \<le> pl_seq pl. de_activation e = activation_id (pl_host pl) (pl_epoch pl) n)"

lemma granted_stands:
  assumes "dir_ok d" "\<not> pl_fenced pl" "dir_lookup d (actor_id ref) = None" "before_activate dir_claim dir_evict v ref pl d = (q, pl1, d1)"
  shows "q = Inr () \<and> stands ref (minted pl) pl1 d1"
  using hubdir.before_activate_free [OF assms] hubdir.before_activate_frame [OF assms(1,2,4)] assms(2)
  by (auto simp: stands_def minted_def jhas_def)

lemma standing_refuses:
  assumes st: "stands ref e pl d" and run: "activate_attempt dir_claim dir_evict v create ref pl d = (r, pl1, d1)"
  shows "r = Inl (wrong_host_error (actor_label ref) (Some (owner_hint_of v (pl_host pl)))) \<and> stands ref e pl1 d1 \<and> pl_host pl1 = pl_host pl"
proof -
  let ?a = "actor_id ref"
  from st obtain n where e: "dir_ok d" "\<not> pl_fenced pl" "dir_lookup d ?a = Some e" "jhas (pl_claimed pl) ?a" "de_host e = pl_host pl"
    "n \<le> pl_seq pl" "de_activation e = activation_id (pl_host pl) (pl_epoch pl) n" by (auto simp: stands_def)
  have ne: "de_activation e \<noteq> de_activation (minted pl)" using e(6) by (simp add: e(7) minted_def activation_id_later)
  obtain w d3 where d3: "dir_claim d ?a (minted pl) = (w, d3)" by force
  have w: "w = e" "dir_lookup d3 ?a = Some e" "dir_ok d3"
    using hubdir.claim_first_wins [OF e(1,3), of "minted pl"] hubdir.claim_lookup [OF e(1), of ?a "minted pl" ?a] hubdir.ok_claim [OF e(1), of ?a "minted pl"] d3 e(3)
    by simp_all
  have "before_activate dir_claim dir_evict v ref pl d
      = (Inl (wrong_host_error (actor_label ref) (Some (owner_hint_of v (pl_host pl)))),
         pl\<lparr>pl_seq := Suc (pl_seq pl), pl_claims := Suc (pl_claims pl), pl_conflicts := Suc (pl_conflicts pl)\<rparr>, d3)"
    using d3 w(1) ne e(2,4,5)
    by (auto simp: before_activate_def claim_begin_minted claim_is_ghost_def jhas_def claim_decide_def Let_def)
  with run w(2,3) e show ?thesis by (auto simp: activate_attempt_def stands_def intro!: exI [of _ n] le_SucI)
qed

lemma others_keep_standing:
  assumes "stands ref e pl d"
  shows "stands ref e pl (snd (dir_claim d aid e'))" "\<not> same_activation (Some e) e' \<Longrightarrow> stands ref e pl (dir_release d aid e')"
  using assms hubdir.claim_lookup [of d aid e' "actor_id ref"] hubdir.claim_winner [of d aid e'] hubdir.ok_claim [of d aid e'] hubdir.release_lookup [of d aid e' "actor_id ref"] hubdir.ok_release [of d aid e']
  by (auto simp: stands_def)

lemma later_refused:
  "stands ref e pl d \<Longrightarrow> later_attempts ref evs pl d = (rs, pl2, d2)
     \<Longrightarrow> list_all (\<lambda>ev. case ev of Others_Release aid e' \<Rightarrow> \<not> same_activation (Some e) e' | _ \<Rightarrow> True) evs
     \<Longrightarrow> list_all (\<lambda>(v, r). r = Inl (wrong_host_error (actor_label ref) (Some (owner_hint_of v (pl_host pl))))) rs
       \<and> dir_lookup d2 (actor_id ref) = Some e"
proof (induction ref evs pl d arbitrary: rs pl2 d2 rule: later_attempts.induct)
  case (2 ref v create evs pl d)
  obtain r pl1 d1 where a: "activate_attempt dir_claim dir_evict v create ref pl d = (r, pl1, d1)" by (rule prod_cases3)
  obtain rs' where l: "later_attempts ref evs pl1 d1 = (rs', pl2, d2)" "rs = (v, r) # rs'"
    using "2.prems"(2) a by (auto split: prod.splits)
  from standing_refuses [OF "2.prems"(1) a] "2.IH" [OF a [symmetric] refl refl _ l(1)] l(2) "2.prems"(3) show ?case by simp
next
  case (1 ref pl d)
  then show ?case by (auto simp: stands_def)
next
  case (3 ref aid e' evs pl d)
  from "3.IH" [OF others_keep_standing(1) [OF "3.prems"(1)]] "3.prems"(2,3) show ?case by simp
next
  case (4 ref aid e' evs pl d)
  from "4.IH" [OF others_keep_standing(2) [OF "4.prems"(1)]] "4.prems"(2,3) show ?case by simp
qed

text \<open>
  C38. An activation that fails after its claim was granted keeps the claim: until the entry is evicted or released or the host
  is fenced, every later attempt on that host, however many, under whatever view and with whatever others claim or
  release meanwhile, even one whose creation would now succeed, is refused as misplaced, with the host itself as the owner to go to.
\<close>

theorem failed_activation_keeps_claim:
  assumes "dir_ok d" "\<not> pl_fenced pl" "dir_lookup d (actor_id ref) = None" "create ref = Inl err"
    and "activate_attempt dir_claim dir_evict v create ref pl d = (r, pl1, d1)"
    and "later_attempts ref evs pl1 d1 = (rs, pl2, d2)"
    and "list_all (\<lambda>ev. case ev of Others_Release aid e \<Rightarrow> \<not> same_activation (Some (minted pl)) e | _ \<Rightarrow> True) evs"
  shows "r = Inl err
     \<and> list_all (\<lambda>(v, r). r = Inl (wrong_host_error (actor_label ref) (Some (owner_hint_of v (pl_host pl))))) rs
     \<and> dir_lookup d2 (actor_id ref) = Some (minted pl)"
proof -
  obtain q pl' d' where b: "before_activate dir_claim dir_evict v ref pl d = (q, pl', d')" by (rule prod_cases3)
  note G = granted_stands [OF assms(1-3) b] and F = hubdir.before_activate_frame [OF assms(1,2) b]
  have 1: "r = Inl err" "pl1 = pl'" "d1 = d'" using assms(4,5) b G by (auto simp: activate_attempt_def)
  with later_refused [OF _ assms(6,7)] G F show ?thesis by auto
qed

theorem failed_activation_keeps_claim_witness:
  "let (r, pl1, d1) = activate_attempt dir_claim dir_evict \<lparr>mv_version = 0, mv_hosts = []\<rparr>
          (\<lambda>_. Inl (activation_error ''cart/7'') :: actor_error + nat) demo_ref (new_claimant ''s.a'' 5) [];
       (rs, _, _) = later_attempts demo_ref [Tries \<lparr>mv_version = 0, mv_hosts = []\<rparr> (\<lambda>_. Inr (7 :: nat)),
          Tries \<lparr>mv_version = 1, mv_hosts = []\<rparr> (\<lambda>_. Inr 8)] pl1 d1
   in list_all (\<lambda>(v, r). r = Inl (wrong_host_error ''cart/7'' (Some \<lparr>oh_host = ''s.a'', oh_address = None, oh_public = None\<rparr>))) rs"
proof -
  let ?v = "\<lparr>mv_version = 0, mv_hosts = []\<rparr>"
  let ?f = "\<lambda>_. Inl (activation_error ''cart/7'') :: actor_error + nat"
  let ?evs = "[Tries ?v (\<lambda>_. Inr (7 :: nat)), Tries \<lparr>mv_version = 1, mv_hosts = []\<rparr> (\<lambda>_. Inr 8)]"
  obtain r pl1 d1 where a: "activate_attempt dir_claim dir_evict ?v ?f demo_ref (new_claimant ''s.a'' 5) [] = (r, pl1, d1)"
    by (rule prod_cases3)
  obtain rs pl2 d2 where b: "later_attempts demo_ref ?evs pl1 d1 = (rs, pl2, d2)" by (rule prod_cases3)
  have len: "map fst rs = [?v, \<lparr>mv_version = 1, mv_hosts = []\<rparr>]" using b by (auto split: prod.splits)
  have "dir_ok []" "dir_lookup [] (actor_id demo_ref) = None" by (simp_all add: dir_ok_def dir_lookup_def)
  from failed_activation_keeps_claim [OF this(1) _ this(2) _ a b] len a b show ?thesis
    by (auto simp: list_all_iff owner_hint_of_def member_of_def demo_ref_def actor_label_def image_iff simp del: later_attempts.simps)
qed

text \<open>
  The fence is only asked for before the claim: a host fenced while its claim is on the way
  is granted it all the same, and ends up fenced and holding the actor.
\<close>

theorem fence_misses_claim_in_flight:
  "\<exists>c. cluster_reachable (\<lambda>_ _. True) (\<lambda>_. 5) c \<and> pl_fenced (ch_place (cl_host c ''s.a''))
       \<and> jhas (pl_claimed (ch_place (cl_host c ''s.a''))) (actor_id demo_ref)"
proof -
  let ?m = "\<lparr>de_host = ''s.a'', de_activation = activation_id ''s.a'' 5 1\<rparr>"
  let ?c1 = "run_begin ''s.a'' demo_ref (start_cluster (\<lambda>_. 5))"
  let ?c2 = "run_land ''s.a'' demo_ref (run_fence ''s.a'' ?c1)"
  have "cluster_reachable (\<lambda>_ _. True) (\<lambda>_. 5) ?c1"
    by (rule cluster_reachable.step [OF cluster_reachable.start run_begin_step]) (simp_all add: run_defs)
  then have 1: "cluster_reachable (\<lambda>_ _. True) (\<lambda>_. 5) (run_fence ''s.a'' ?c1)"
    by (rule cluster_reachable.step [OF _ run_fence_step])
  have 2: "cluster_reachable (\<lambda>_ _. True) (\<lambda>_. 5) ?c2"
    by (rule cluster_reachable.step [OF 1 run_land_step [where m = ?m]]) (simp add: run_defs)
  have "cluster_reachable (\<lambda>_ _. True) (\<lambda>_. 5) (run_verdict ''s.a'' demo_ref ?c2)"
    by (rule cluster_reachable.step [OF 2 run_verdict_step [where m = ?m and w = ?m]]) (simp_all add: run_defs)
  moreover have "pl_fenced (ch_place (cl_host (run_verdict ''s.a'' demo_ref ?c2) ''s.a''))"
    "jhas (pl_claimed (ch_place (cl_host (run_verdict ''s.a'' demo_ref ?c2) ''s.a''))) (actor_id demo_ref)"
    by (simp_all add: run_defs jhas_def)
  ultimately show ?thesis by blast
qed

end
