(* ===== verification/Counters.thy ===== *)
theory Counters
  imports Prelude
begin

section \<open>The cluster counters\<close>

text \<open>
  \<open>cluster/counters.ts\<close>: one number per name. The record of numbers is a function from the
  names; a report of a peer on another build may miss some of them, so it is partial.
\<close>

datatype counter =
      N_DispatchesLocal | N_DispatchesRemote | N_RoutedLocal | N_RemoteDispatches
    | N_RemoteStreams | N_RemoteWatches | N_CoalescedWatches | N_Retries | N_RoutingFailures
    | N_TargetedDispatches | N_InboundDispatches | N_InboundStreams | N_InboundWatches
    | N_RouteCacheHits | N_RouteCacheMisses | N_Locates | N_LocateRemote | N_DirectoryLookups
    | N_DirectoryClaims | N_ClaimConflicts | N_DirectoryReleases | N_DirectoryEvictions
    | N_HostSweeps | N_SweptEntries | N_SweepsDelegated | N_SweepsSkippedGraceful
    | N_WrongHostRedirects | N_OverloadedReplies | N_UnreachableRetries | N_DrainingRetries
    | N_AuthFailures | N_TransportFallbacks | N_MembershipChanges | N_SelfFences
    | N_RejoinAttempts | N_Rejoins | N_RebalanceRounds | N_RebalanceMigrations | N_Claimed
    | N_RouteCacheSize | N_RemoteInflight | N_RemoteInflightPeak

type_synonym counters = "counter \<Rightarrow> nat"

definition create_counters :: counters where
  "create_counters = (\<lambda>_. 0)"

definition bump :: "counter \<Rightarrow> counters \<Rightarrow> counters" where
  "bump k c = c(k := Suc (c k))"

definition unbump :: "counter \<Rightarrow> counters \<Rightarrow> counters" where
  "unbump k c = c(k := c k - 1)"

definition add_counters :: "(counter \<Rightarrow> nat option) \<Rightarrow> (counter \<Rightarrow> nat option) \<Rightarrow> counters" where
  "add_counters a b = (\<lambda>k. (case a k of None \<Rightarrow> 0 | Some n \<Rightarrow> n) + (case b k of None \<Rightarrow> 0 | Some n \<Rightarrow> n))"

lemma bump_apply [simp]: "bump k c j = (if j = k then Suc (c j) else c j)"
  by (simp add: bump_def)

lemma unbump_apply [simp]: "unbump k c j = (if j = k then c j - 1 else c j)"
  by (simp add: unbump_def)

text \<open>
  Totals over a mixed-version cluster: folding \<open>addCounters\<close> over the reports sums, name by
  name, the numbers of the peers that sent one; a peer that does not know a name adds nothing.
\<close>

theorem counters_total:
  "foldl (\<lambda>acc r. add_counters (\<lambda>k. Some (acc k)) r) create_counters reports k
     = sum_list (map (\<lambda>r. case r k of None \<Rightarrow> 0 | Some n \<Rightarrow> n) reports)"
proof -
  have "foldl (\<lambda>acc r. add_counters (\<lambda>k. Some (acc k)) r) c reports k
     = c k + sum_list (map (\<lambda>r. case r k of None \<Rightarrow> 0 | Some n \<Rightarrow> n) reports)" for c
    by (induction reports arbitrary: c) (auto simp: add_counters_def)
  then show ?thesis by (simp add: create_counters_def)
qed

end
