(* ===== verification/Placement_Policy.thy ===== *)
theory Placement_Policy
  imports Cluster_Directory Actor_Errors
begin

section \<open>Views, eligibility and the placement policies\<close>

text \<open>
  \<open>cluster/placement.ts\<close>: the slices of a membership view (active hosts, the members filter,
  the hosts registering a type), rendezvous hashing, the built-in policies and the owner of a
  reminder shard. The per-view caches of the source (\<open>WeakMap\<close>s keyed by the view object)
  hold the values of these functions. What \<open>#resolveTarget\<close> relies on in a policy is the
  locale \<open>placement_policy\<close>.
\<close>

named_theorems view_simps \<open>slices of a membership view\<close>

subsection \<open>Slices of a view\<close>

definition active_hosts :: "member_view \<Rightarrow> host_desc list" where
  "active_hosts v = filter (\<lambda>h. hd_status h = Active) (mv_hosts v)"

definition host_registers :: "host_desc \<Rightarrow> string \<Rightarrow> bool" where
  "host_registers h ty = (case hd_types h of None \<Rightarrow> True | Some ts \<Rightarrow> ty \<in> set ts)"

text \<open>\<open>MembersFilter\<close>: the status asked for (\<open>None\<close> is \<open>'any'\<close>) and the type.\<close>

record members_filter =
  mf_status :: "host_status option option"
  mf_registers :: "string option"

definition filter_members :: "member_view \<Rightarrow> members_filter \<Rightarrow> host_desc list" where
  "filter_members v f =
     (let status = (case mf_status f of None \<Rightarrow> Some Active | Some s \<Rightarrow> s) in
      filter (\<lambda>h. (status = None \<or> status = Some (hd_status h))
                \<and> (case mf_registers f of None \<Rightarrow> True | Some ty \<Rightarrow> host_registers h ty)) (mv_hosts v))"

text \<open>\<open>memberById\<close>: the last descriptor of an id, as the map built from the list answers.\<close>

definition member_by_id :: "member_view \<Rightarrow> string \<Rightarrow> host_desc option" where
  "member_by_id v host = List.find (\<lambda>h. hd_id h = host) (rev (mv_hosts v))"

record eligible_hosts =
  el_view :: member_view
  el_ids :: "string set"

definition eligible_for :: "member_view \<Rightarrow> string \<Rightarrow> eligible_hosts" where
  "eligible_for v ty =
     (let hosts = filter (\<lambda>h. host_registers h ty) (mv_hosts v) in
      if length hosts = length (mv_hosts v)
      then \<lparr>el_view = v, el_ids = hd_id ` set (mv_hosts v)\<rparr>
      else \<lparr>el_view = \<lparr>mv_version = mv_version v, mv_hosts = hosts\<rparr>, el_ids = hd_id ` set hosts\<rparr>)"

lemma member_by_id_SomeD: "member_by_id v h = Some d \<Longrightarrow> d \<in> set (mv_hosts v) \<and> hd_id d = h"
proof -
  assume "member_by_id v h = Some d"
  then have "d \<in> set (rev (mv_hosts v)) \<and> hd_id d = h"
    unfolding member_by_id_def find_Some_iff by (metis nth_mem)
  then show ?thesis by simp
qed

lemma member_by_id_None: "member_by_id v h = None \<longleftrightarrow> h \<notin> hd_id ` set (mv_hosts v)"
  by (auto simp: member_by_id_def find_None_iff)

lemma filter_same_length: "length (filter P xs) = length xs \<Longrightarrow> filter P xs = xs"
  by (metis filter_id_conv length_filter_less less_irrefl)

lemma eligible_view_hosts [view_simps]:
  "mv_hosts (el_view (eligible_for v ty)) = filter (\<lambda>h. host_registers h ty) (mv_hosts v)"
  by (auto simp: eligible_for_def Let_def dest: filter_same_length)

lemma eligible_ids [view_simps]:
  "el_ids (eligible_for v ty) = hd_id ` {h \<in> set (mv_hosts v). host_registers h ty}"
proof (cases "length (filter (\<lambda>h. host_registers h ty) (mv_hosts v)) = length (mv_hosts v)")
  case True
  from filter_same_length [OF True] have "\<forall>h \<in> set (mv_hosts v). host_registers h ty"
    by (metis filter_id_conv)
  then show ?thesis using True by (auto simp: eligible_for_def)
next
  case False
  then show ?thesis by (simp add: eligible_for_def Let_def)
qed

lemma active_eligible [view_simps]:
  "active_hosts (el_view (eligible_for v ty)) = filter (\<lambda>h. host_registers h ty) (active_hosts v)"
  by (simp add: active_hosts_def eligible_view_hosts) (metis (no_types, lifting) conj_commute filter_cong)

subsection \<open>Rendezvous hashing\<close>

definition score :: "string \<Rightarrow> host_desc \<Rightarrow> int" where
  "score key h = uint (fnv1a (key @ ''|'' @ hd_id h))"

definition beats :: "string \<Rightarrow> host_desc \<Rightarrow> host_desc \<Rightarrow> bool" where
  "beats key h b \<longleftrightarrow> score key h > score key b \<or> score key h = score key b \<and> hd_id h < hd_id b"

fun rendezvous_from :: "string \<Rightarrow> host_desc option \<Rightarrow> int \<Rightarrow> host_desc list \<Rightarrow> host_desc option" where
  "rendezvous_from key best bs [] = best"
| "rendezvous_from key best bs (h # hs) =
     (let s = score key h in
      if s > bs \<or> s = bs \<and> (case best of None \<Rightarrow> False | Some b \<Rightarrow> hd_id h < hd_id b)
      then rendezvous_from key (Some h) s hs
      else rendezvous_from key best bs hs)"

definition rendezvous :: "string \<Rightarrow> host_desc list \<Rightarrow> host_desc option" where
  "rendezvous key hosts = rendezvous_from key None (- 1) hosts"

lemma beats_trans: "beats key a b \<Longrightarrow> beats key b c \<Longrightarrow> beats key a c"
  by (auto simp: beats_def)

lemma beats_irrefl: "\<not> beats key a a"
  by (simp add: beats_def)

lemma beats_total: "hd_id a \<noteq> hd_id b \<Longrightarrow> beats key a b \<or> beats key b a"
  by (auto simp: beats_def)

lemma rendezvous_from_Some:
  "\<exists>w. rendezvous_from key (Some b) (score key b) hs = Some w \<and> w \<in> insert b (set hs)
       \<and> (\<forall>h \<in> insert b (set hs). \<not> beats key h w)"
proof (induction hs arbitrary: b)
  case Nil
  then show ?case by (simp add: beats_irrefl)
next
  case (Cons h hs)
  show ?case
  proof (cases "beats key h b")
    case True
    obtain w where w: "rendezvous_from key (Some h) (score key h) hs = Some w" "w \<in> insert h (set hs)"
      "\<forall>x \<in> insert h (set hs). \<not> beats key x w" using Cons by blast
    have "\<not> beats key b w" using w True beats_trans by blast
    then show ?thesis using w True by (auto simp: beats_def Let_def)
  next
    case False
    obtain w where w: "rendezvous_from key (Some b) (score key b) hs = Some w" "w \<in> insert b (set hs)"
      "\<forall>x \<in> insert b (set hs). \<not> beats key x w" using Cons by blast
    have "\<not> beats key h w"
    proof
      assume "beats key h w"
      then show False using w(2,3) False by (auto simp: beats_def split: if_splits)
    qed
    then show ?thesis using w False by (auto simp: beats_def Let_def)
  qed
qed

lemma rendezvous_Some:
  assumes "hs \<noteq> []"
  shows "\<exists>w. rendezvous key hs = Some w \<and> w \<in> set hs \<and> (\<forall>h \<in> set hs. \<not> beats key h w)"
proof -
  obtain h t where hs: "hs = h # t" using assms by (cases hs) auto
  have "score key h > -1" by (simp add: score_def less_le_trans [of _ 0])
  then show ?thesis using rendezvous_from_Some [of key h t] by (simp add: hs rendezvous_def)
qed

lemma rendezvous_None [simp]: "rendezvous key hs = None \<longleftrightarrow> hs = []"
proof
  show "rendezvous key hs = None \<Longrightarrow> hs = []" using rendezvous_Some [of hs key] by (cases "hs = []") auto
qed (simp add: rendezvous_def)

lemma rendezvous_mem: "rendezvous key hs = Some w \<Longrightarrow> w \<in> set hs"
  using rendezvous_Some [of hs key] by (cases "hs = []") (auto simp: rendezvous_def)

lemma rendezvous_unbeaten: "rendezvous key hs = Some w \<Longrightarrow> h \<in> set hs \<Longrightarrow> \<not> beats key h w"
  using rendezvous_Some [of hs key] by (cases "hs = []") (auto simp: rendezvous_def)

lemma rendezvous_eqI:
  assumes "inj_on hd_id (set hs)" "w \<in> set hs" "\<And>h. h \<in> set hs \<Longrightarrow> \<not> beats key h w"
  shows "rendezvous key hs = Some w"
proof -
  obtain w' where w': "rendezvous key hs = Some w'" "w' \<in> set hs" "\<not> beats key w w'"
    using rendezvous_Some [of hs key] assms(2) by (metis empty_iff empty_set)
  then have "hd_id w = hd_id w'" using beats_total assms(3) by blast
  then show ?thesis using w' assms(1,2) by (auto dest: inj_onD)
qed

lemma rendezvous_order_free':
  assumes "inj_on hd_id (set hs)" and "set hs' = set hs"
  shows "rendezvous key hs' = rendezvous key hs"
proof (cases "hs = []")
  case False
  then obtain w where w: "rendezvous key hs = Some w" by fastforce
  have "rendezvous key hs' = Some w"
    by (rule rendezvous_eqI) (use assms rendezvous_mem [OF w] rendezvous_unbeaten [OF w] in auto)
  with w show ?thesis by simp
qed (use assms in simp)

text \<open>
  Rendezvous selection depends only on which hosts there are: any order of the same members
  elects the same host, so hosts that read the same membership agree without talking.
\<close>

theorem rendezvous_order_free:
  assumes "inj_on hd_id (set hs)" and "set hs' = set hs"
  shows "rendezvous key hs' = rendezvous key hs"
  by (rule rendezvous_order_free' [OF assms])

text \<open>
  Minimal disruption: when members leave, every key whose host stayed keeps it; when members
  join, a key either keeps its host or moves to a joiner.
\<close>

theorem rendezvous_minimal_disruption:
  assumes "inj_on hd_id (set hs)" and "set hs' \<subseteq> set hs" and "rendezvous key hs = Some w"
    and "rendezvous key hs' = Some w'"
  shows "(w \<in> set hs' \<longrightarrow> w' = w) \<and> (w' \<noteq> w \<longrightarrow> w \<in> set hs - set hs')"
proof -
  have "w' = w" if "w \<in> set hs'"
  proof -
    have "rendezvous key hs' = Some w"
      by (rule rendezvous_eqI)
        (use assms that rendezvous_unbeaten [OF assms(3)] in \<open>auto dest: inj_on_subset\<close>)
    then show ?thesis using assms(4) by simp
  qed
  then show ?thesis using rendezvous_mem [OF assms(3)] by auto
qed

definition host_named :: "string \<Rightarrow> host_desc" where
  "host_named h = \<lparr>hd_id = h, hd_epoch = 1, hd_address = ''http://'' @ h, hd_status = Active,
                   hd_addresses = None, hd_public = None, hd_types = None\<rparr>"

theorem rendezvous_order_free_witness:
  "rendezvous ''k'' [host_named ''s.b'', host_named ''s.a''] = rendezvous ''k'' [host_named ''s.a'', host_named ''s.b'']"
  by (rule rendezvous_order_free) (auto simp: host_named_def)

lemma demo_scores: "score ''k'' (host_named ''s.b'') < score ''k'' (host_named ''s.a'')"
  by code_simp

lemma demo_rendezvous:
  "rendezvous ''k'' [host_named ''s.b'', host_named ''s.a''] = Some (host_named ''s.a'')"
  "rendezvous ''k'' [host_named ''s.a''] = Some (host_named ''s.a'')"
  using demo_scores by (auto intro!: rendezvous_eqI simp: beats_def host_named_def)

theorem rendezvous_minimal_disruption_witness:
  "\<exists>w w'. rendezvous ''k'' [host_named ''s.b'', host_named ''s.a''] = Some w
     \<and> rendezvous ''k'' [host_named ''s.a''] = Some w' \<and> w' = w"
proof -
  have i: "inj_on hd_id (set [host_named ''s.b'', host_named ''s.a''])" by (simp add: host_named_def)
  from rendezvous_minimal_disruption [OF i _ demo_rendezvous] demo_rendezvous show ?thesis by simp
qed

subsection \<open>The policies\<close>

type_synonym policy = "actor_ref \<Rightarrow> member_view \<Rightarrow> host_desc \<Rightarrow> host_desc"

text \<open>\<open>Math.floor(Math.random() * n)\<close>, the draw being a multiple of \<open>2\<^sup>-\<^sup>5\<^sup>3\<close> below one.\<close>

definition draw_index :: "nat \<Rightarrow> nat \<Rightarrow> nat" where
  "draw_index r n = (r mod 2 ^ 53) * n div 2 ^ 53"

definition random_policy :: "nat \<Rightarrow> policy" where
  "random_policy r ref v self =
     (let active = active_hosts v in
      if active = [] then self else active ! draw_index r (length active))"

definition consistent_hash_policy :: policy where
  "consistent_hash_policy ref v self =
     (let active = active_hosts v in
      if active = [] then self
      else case rendezvous (actor_id ref) active of None \<Rightarrow> self | Some h \<Rightarrow> h)"

definition prefer_local_policy :: policy where
  "prefer_local_policy ref v self =
     (let active = active_hosts v in
      if \<exists>h \<in> set active. hd_id h = hd_id self then self
      else if active = [] then self
      else case rendezvous (actor_id ref) active of None \<Rightarrow> self | Some h \<Rightarrow> h)"

text \<open>What the router requires of any policy: an active member of the view it was handed, or self.\<close>

locale placement_policy =
  fixes pick :: "actor_ref \<Rightarrow> member_view \<Rightarrow> host_desc \<Rightarrow> host_desc"
  assumes chooses_active_or_self: "pick ref v self = self \<or> pick ref v self \<in> set (active_hosts v)"
begin

lemma choice_is_eligible:
  "hd_id (pick ref (el_view (eligible_for v ty)) self) = hd_id self
   \<or> pick ref (el_view (eligible_for v ty)) self \<in> set (mv_hosts v)
     \<and> hd_status (pick ref (el_view (eligible_for v ty)) self) = Active
     \<and> host_registers (pick ref (el_view (eligible_for v ty)) self) ty
     \<and> hd_id (pick ref (el_view (eligible_for v ty)) self) \<in> el_ids (eligible_for v ty)"
  using chooses_active_or_self [of ref "el_view (eligible_for v ty)" self]
  by (auto simp: view_simps active_hosts_def)

end

lemma draw_index_less: "0 < n \<Longrightarrow> draw_index r n < n"
proof -
  assume n: "0 < n"
  have "(r mod 2 ^ 53) * n < 2 ^ 53 * n" using n by simp
  then show ?thesis by (simp add: draw_index_def div_less_iff_less_mult mult.commute)
qed

interpretation random: placement_policy "random_policy r" for r
  by unfold_locales (auto simp: random_policy_def Let_def intro!: nth_mem draw_index_less)

interpretation consistent_hash: placement_policy consistent_hash_policy
  by unfold_locales (auto simp: consistent_hash_policy_def Let_def dest: rendezvous_mem split: option.splits)

interpretation prefer_local: placement_policy prefer_local_policy
  by unfold_locales (auto simp: prefer_local_policy_def Let_def dest: rendezvous_mem split: option.splits)

text \<open>
  Racing activations agree: two hosts that read the same members hand a new key to the same
  host under consistent hashing, and a host joining or leaving re-homes only keys it wins or had.
\<close>

theorem consistent_hash_agrees:
  assumes "inj_on hd_id (set (mv_hosts v))" and "set (mv_hosts v') = set (mv_hosts v)"
    and "active_hosts v \<noteq> []"
  shows "consistent_hash_policy ref v' self' = consistent_hash_policy ref v self
         \<and> consistent_hash_policy ref v self \<in> set (active_hosts v)"
proof -
  have s: "set (active_hosts v') = set (active_hosts v)" using assms(2) by (auto simp: active_hosts_def)
  have i: "inj_on hd_id (set (active_hosts v))"
    using assms(1) by (auto simp: active_hosts_def intro: inj_on_subset)
  have ne: "active_hosts v' \<noteq> []" using s assms(3) by (metis set_empty)
  obtain w where w: "rendezvous (actor_id ref) (active_hosts v) = Some w" using assms(3) by fastforce
  have "rendezvous (actor_id ref) (active_hosts v') = Some w"
    using rendezvous_order_free' [OF i s] w by simp
  then show ?thesis using assms(3) ne w rendezvous_mem [OF w] by (simp add: consistent_hash_policy_def Let_def)
qed

theorem consistent_hash_agrees_witness:
  "consistent_hash_policy \<lparr>ref_type = ''t'', ref_key = ''7''\<rparr>
       \<lparr>mv_version = 3, mv_hosts = [host_named ''s.b'', host_named ''s.a'']\<rparr> (host_named ''s.b'')
   = consistent_hash_policy \<lparr>ref_type = ''t'', ref_key = ''7''\<rparr>
       \<lparr>mv_version = 2, mv_hosts = [host_named ''s.a'', host_named ''s.b'']\<rparr> (host_named ''s.a'')"
  by (rule consistent_hash_agrees [THEN conjunct1]) (auto simp: host_named_def active_hosts_def)

text \<open>
  No built-in policy can misplace an actor: on the slice of the view that registers the type,
  every one of them answers with an active member registering it, or with the calling host.
\<close>

theorem policies_place_eligibly:
  assumes "pol \<in> {random_policy r, consistent_hash_policy, prefer_local_policy}"
    and "h = pol ref (el_view (eligible_for v (ref_type ref))) self"
  shows "hd_id h = hd_id self
         \<or> h \<in> set (mv_hosts v) \<and> hd_status h = Active \<and> host_registers h (ref_type ref)
           \<and> hd_id h \<in> el_ids (eligible_for v (ref_type ref))"
  using assms random.choice_is_eligible [of r ref v "ref_type ref" self]
    consistent_hash.choice_is_eligible [of ref v "ref_type ref" self]
    prefer_local.choice_is_eligible [of ref v "ref_type ref" self]
  by auto

theorem policies_place_eligibly_witness:
  "let v = \<lparr>mv_version = 1, mv_hosts = [(host_named ''s.a'')\<lparr>hd_types := Some [''cart'']\<rparr>, host_named ''s.b'']\<rparr>;
       h = prefer_local_policy \<lparr>ref_type = ''user'', ref_key = ''7''\<rparr> (el_view (eligible_for v ''user'')) (host_named ''s.a'')
   in hd_id h = ''s.a'' \<or> host_registers h ''user''"
  using policies_place_eligibly [of prefer_local_policy 0 _ "\<lparr>ref_type = ''user'', ref_key = ''7''\<rparr>"
      "\<lparr>mv_version = 1, mv_hosts = [(host_named ''s.a'')\<lparr>hd_types := Some [''cart'']\<rparr>, host_named ''s.b'']\<rparr>"
      "host_named ''s.a''", OF _ refl]
  by (auto simp: Let_def host_named_def)

subsection \<open>Reminder shards\<close>

definition owns_reminder_shard :: "string \<Rightarrow> member_view \<Rightarrow> string \<Rightarrow> bool" where
  "owns_reminder_shard self v shard =
     (let active = active_hosts v in
      if active = [] then True
      else map_option hd_id (rendezvous shard active) = Some self)"

text \<open>
  Every reminder has exactly one owner: among hosts that read the same members, in whatever
  order, the shard of an actor is owned by one active host, the same for all of them, and by
  nobody else.
\<close>

theorem one_shard_owner:
  assumes "inj_on hd_id (set (mv_hosts v))" and "active_hosts v \<noteq> []"
  shows "\<exists>h \<in> hd_id ` set (active_hosts v). \<forall>v' g. set (mv_hosts v') = set (mv_hosts v) \<longrightarrow>
           owns_reminder_shard g v' (reminder_shard_of aid) = (g = h)"
proof -
  obtain w where w: "rendezvous (reminder_shard_of aid) (active_hosts v) = Some w" using assms(2) by fastforce
  have i: "inj_on hd_id (set (active_hosts v))"
    using assms(1) by (auto simp: active_hosts_def intro: inj_on_subset)
  have "owns_reminder_shard g v' (reminder_shard_of aid) = (g = hd_id w)"
    if "set (mv_hosts v') = set (mv_hosts v)" for v' g
  proof -
    have s: "set (active_hosts v') = set (active_hosts v)" using that by (auto simp: active_hosts_def)
    then have "active_hosts v' \<noteq> []" using assms(2) by (metis set_empty)
    then show ?thesis using rendezvous_order_free' [OF i s] w by (auto simp: owns_reminder_shard_def Let_def)
  qed
  then show ?thesis using rendezvous_mem [OF w] by blast
qed

theorem one_shard_owner_witness:
  "\<exists>h \<in> {''s.a'', ''s.b''}. owns_reminder_shard h \<lparr>mv_version = 1, mv_hosts = [host_named ''s.b'', host_named ''s.a'']\<rparr>
      (reminder_shard_of ''cart7'')"
  using one_shard_owner [of "\<lparr>mv_version = 1, mv_hosts = [host_named ''s.b'', host_named ''s.a'']\<rparr>" "''cart7''"]
  by (auto simp: host_named_def active_hosts_def)

end
