(* ===== verification/Placement_Routing.thy ===== *)
theory Placement_Routing
  imports Placement_Policy Counters
begin

section \<open>Routing a call\<close>

text \<open>
  \<open>cluster/placement.ts\<close>: who should serve an actor (\<open>#resolveTarget\<close>), what a failed hop
  teaches (\<open>#noteFailure\<close>), the retry loop (\<open>#routedDispatch\<close>), the route cache, the
  transport chain and the inbound guard. What happens outside the placement while it waits is an
  argument: \<open>answer\<close> is the outcome of a call at its target, \<open>refresh\<close> a membership refresh.
\<close>

subsection \<open>State\<close>

datatype target = Local | Remote host_desc

record coalesced_watch =
  cw_id :: string
  cw_host :: string
  cw_established :: bool

record router =
  ro_self :: host_desc
  ro_fenced :: bool
  ro_claimed :: "(string, dir_entry) jmap"
  ro_cache :: "(string, string) jmap"
  ro_watches :: "(string, coalesced_watch) jmap"
  ro_settled :: "(string \<times> js_error option) list"
  ro_counters :: counters

record world =
  w_view :: member_view
  w_dir :: directory
  w_alive :: "string \<Rightarrow> bool"

record strategy =
  st_name :: "string option"
  st_choose :: policy

definition new_router :: "host_desc \<Rightarrow> router" where
  "new_router self = \<lparr>ro_self = self, ro_fenced = False, ro_claimed = [], ro_cache = [], ro_watches = [],
                      ro_settled = [], ro_counters = create_counters\<rparr>"

definition count :: "counter \<Rightarrow> router \<Rightarrow> router" where
  "count k r = r\<lparr>ro_counters := bump k (ro_counters r)\<rparr>"

definition self_id :: "router \<Rightarrow> string" where
  "self_id r = hd_id (ro_self r)"

subsection \<open>The route cache and the coalesced watches\<close>

definition route_cache_max :: nat where
  "route_cache_max = 10000"

definition cache_route :: "string \<Rightarrow> string \<Rightarrow> router \<Rightarrow> router" where
  "cache_route aid host r =
     (let c = (if route_cache_max \<le> length (ro_cache r)
               then (case ro_cache r of [] \<Rightarrow> [] | (oldest, _) # _ \<Rightarrow> jdel (ro_cache r) oldest)
               else ro_cache r)
      in r\<lparr>ro_cache := jset (jdel c aid) aid host\<rparr>)"

definition forget_route :: "string \<Rightarrow> router \<Rightarrow> router" where
  "forget_route aid r = r\<lparr>ro_cache := jdel (ro_cache r) aid\<rparr>"

text \<open>\<open>#settleEntry\<close>: off the map, aborted, and its subscribers told how it ended.\<close>

definition settle_entry :: "string \<Rightarrow> js_error option \<Rightarrow> router \<Rightarrow> router" where
  "settle_entry key how r = r\<lparr>ro_watches := jdel (ro_watches r) key, ro_settled := ro_settled r @ [(key, how)]\<rparr>"

definition settle_where :: "(coalesced_watch \<Rightarrow> bool) \<Rightarrow> (coalesced_watch \<Rightarrow> js_error option) \<Rightarrow> router \<Rightarrow> router" where
  "settle_where P how r = fold (\<lambda>(key, e) r. if P e then settle_entry key (how e) r else r) (ro_watches r) r"

definition drop_coalesced_for :: "string \<Rightarrow> js_error \<Rightarrow> router \<Rightarrow> router" where
  "drop_coalesced_for aid err = settle_where (\<lambda>e. cw_id e = aid \<and> cw_established e) (\<lambda>_. Some err)"

definition left_mid_watch :: "string \<Rightarrow> js_error" where
  "left_mid_watch host = Branded (unreachable_error (host @ '' left the membership view mid-watch''))"

definition prune_routes :: "member_view \<Rightarrow> router \<Rightarrow> router" where
  "prune_routes v r =
     (let live = hd_id ` set (mv_hosts v) in
      settle_where (\<lambda>e. cw_host e \<notin> live) (\<lambda>e. Some (left_mid_watch (cw_host e)))
        (r\<lparr>ro_cache := filter (\<lambda>(_, h). h \<in> live) (ro_cache r)\<rparr>))"

definition stop_watches :: "router \<Rightarrow> router" where
  "stop_watches = settle_where (\<lambda>_. True) (\<lambda>_. None)"

subsection \<open>Which policy\<close>

text \<open>What a type's definition declares: absent, or a strategy that may lack \<open>choose\<close>.\<close>

record declared_strategy =
  ds_name :: "string option"
  ds_backend :: "string option"
  ds_choose :: "policy option"

definition cluster_backend :: string where
  "cluster_backend = ''cluster''"

definition unusable_strategy :: "string \<Rightarrow> declared_strategy \<Rightarrow> js_error" where
  "unusable_strategy ty s = Plain (''[sigx actors] actor '' @ [CHR 0x22] @ ty @ [CHR 0x22] @ '' declares placement ''
     @ [CHR 0x22] @ (case ds_name s of Some n \<Rightarrow> n | None \<Rightarrow> ''unnamed'') @ [CHR 0x22]
     @ '', which is not a usable cluster PlacementPolicy '' @ [CHR 0xE2, CHR 0x80, CHR 0x94]
     @ '' it has no choose(). A strategy for a different backend must set `backend` so it can be told apart from a broken one.'')
     None None"

text \<open>\<open>#declaredPolicy\<close>, given what loading the definition answers: \<open>Inl\<close> is a failed load.\<close>

definition declared_policy ::
  "(string, strategy option) jmap \<Rightarrow> bool \<Rightarrow> js_error + declared_strategy option \<Rightarrow> string
     \<Rightarrow> (js_error + strategy option) \<times> (string, strategy option) jmap" where
  "declared_policy memo bound load ty =
     (case jget memo ty of
        Some p \<Rightarrow> (Inr p, memo)
      | None \<Rightarrow>
          if \<not> bound then (Inr None, memo)
          else case load of
            Inl _ \<Rightarrow> (Inr None, memo)
          | Inr None \<Rightarrow> (Inr None, jset memo ty None)
          | Inr (Some s) \<Rightarrow>
              if ds_backend s \<noteq> None \<and> ds_backend s \<noteq> Some cluster_backend then (Inr None, jset memo ty None)
              else (case ds_choose s of
                  None \<Rightarrow> (Inl (unusable_strategy ty s), memo)
                | Some c \<Rightarrow> let p = Some \<lparr>st_name = ds_name s, st_choose = c\<rparr> in (Inr p, jset memo ty p)))"

text \<open>The precedence: declared on the actor, else the configured map, else the default.\<close>

definition policy_for ::
  "js_error + strategy option \<Rightarrow> (string, strategy) jmap \<Rightarrow> strategy \<Rightarrow> string \<Rightarrow> js_error + strategy" where
  "policy_for declared typed dflt ty =
     (case declared of
        Inl e \<Rightarrow> Inl e
      | Inr (Some p) \<Rightarrow> Inr p
      | Inr None \<Rightarrow> Inr (case jget typed ty of Some p \<Rightarrow> p | None \<Rightarrow> dflt))"

subsection \<open>Resolving a target\<close>

definition policy_bug :: "strategy \<Rightarrow> string \<Rightarrow> string \<Rightarrow> js_error" where
  "policy_bug p chosen ty = Plain (''[sigx actors] placement policy '' @ [CHR 0x22]
     @ (case st_name p of Some n \<Rightarrow> n | None \<Rightarrow> ''unnamed'') @ [CHR 0x22] @ '' chose '' @ chosen @ '' for ''
     @ [CHR 0x22] @ ty @ [CHR 0x22]
     @ '', which is not an eligible member of the view it was handed. A policy must answer with a member of that view, or with self.'')
     None None"

definition place_fresh ::
  "(string \<Rightarrow> js_error + strategy) \<Rightarrow> actor_ref \<Rightarrow> world \<Rightarrow> router \<Rightarrow> (js_error + target) \<times> router" where
  "place_fresh pol ref w r =
     (let v = w_view w; ty = ref_type ref;
          settled = (\<lambda>chosen. (Inr (if hd_id chosen = self_id r then Local else Remote chosen),
                               cache_route (actor_id ref) (hd_id chosen) r)) in
      if mv_hosts v = [] then (Inr Local, r)
      else case pol ty of
        Inl e \<Rightarrow> (Inl e, r)
      | Inr p \<Rightarrow>
          if active_hosts v = [] then settled (st_choose p ref v (ro_self r))
          else let el = eligible_for v ty in
            if active_hosts (el_view el) = []
            then (Inl (Branded (unplaceable_error ty (length (mv_hosts v)) (length (active_hosts v)))), r)
            else let chosen = st_choose p ref (el_view el) (ro_self r) in
              if hd_id chosen \<noteq> self_id r \<and> hd_id chosen \<notin> el_ids el then (Inl (policy_bug p (hd_id chosen) ty), r)
              else settled chosen)"

definition cached_target :: "actor_ref \<Rightarrow> world \<Rightarrow> router \<Rightarrow> target option" where
  "cached_target ref w r =
     (case jget (ro_cache r) (actor_id ref) of
        None \<Rightarrow> None
      | Some h \<Rightarrow>
          if h = self_id r then Some Local
          else (case member_by_id (w_view w) h of
              None \<Rightarrow> None
            | Some m \<Rightarrow> if host_registers m (ref_type ref) then Some (Remote m) else None))"

definition evict_entry :: "string \<Rightarrow> dir_entry \<Rightarrow> world \<Rightarrow> world" where
  "evict_entry aid e w = w\<lparr>w_dir := snd (dir_evict (w_dir w) aid e)\<rparr>"

definition resolve_directory ::
  "(string \<Rightarrow> js_error + strategy) \<Rightarrow> actor_ref \<Rightarrow> world \<Rightarrow> router \<Rightarrow> (js_error + target) \<times> world \<times> router" where
  "resolve_directory pol ref w r =
     (let aid = actor_id ref;
          fresh = (\<lambda>w r. case place_fresh pol ref w r of (t, r') \<Rightarrow> (t, w, r')) in
      case dir_lookup (w_dir w) aid of
        None \<Rightarrow> fresh w r
      | Some e \<Rightarrow>
          if de_host e = self_id r then (Inr Local, w, r)
          else (case member_by_id (w_view w) (de_host e) of
              Some m \<Rightarrow>
                if host_registers m (ref_type ref) then (Inr (Remote m), w, cache_route aid (de_host e) r)
                else fresh (evict_entry aid e w) (count N_DirectoryEvictions r)
            | None \<Rightarrow>
                if \<not> w_alive w (de_host e) then fresh (evict_entry aid e w) (count N_DirectoryEvictions r)
                else fresh w r))"

definition resolve_target ::
  "(string \<Rightarrow> js_error + strategy) \<Rightarrow> actor_ref \<Rightarrow> world \<Rightarrow> router \<Rightarrow> (js_error + target) \<times> world \<times> router" where
  "resolve_target pol ref w r =
     (let aid = actor_id ref in
      if ro_fenced r then (Inl (Branded (fenced_error (self_id r))), w, r)
      else if jhas (ro_claimed r) aid then (Inr Local, w, r)
      else case cached_target ref w r of
        Some t \<Rightarrow> (Inr t, w, count N_RouteCacheHits r)
      | None \<Rightarrow> resolve_directory pol ref w (count N_DirectoryLookups (count N_RouteCacheMisses (forget_route aid r))))"

subsection \<open>What a failure teaches\<close>

datatype retry_kind = Retry_Wrong_Host | Retry_Unreachable | Retry_Draining

definition note_failure ::
  "(world \<Rightarrow> js_error + world) \<Rightarrow> string \<Rightarrow> js_error \<Rightarrow> bool \<Rightarrow> world \<Rightarrow> router
     \<Rightarrow> (js_error + retry_kind option) \<times> world \<times> router" where
  "note_failure refresh aid e remote w r =
     (let refreshed = (\<lambda>k w r. case refresh w of Inl x \<Rightarrow> (Inl x, w, r) | Inr w' \<Rightarrow> (Inr (Some k), w', r)) in
      if is_actor_error_kind e Wrong_Host then
        (let r1 = drop_coalesced_for aid e (forget_route aid (count N_WrongHostRedirects r));
             owner = (case e of Branded b \<Rightarrow> ae_owner b | Plain _ _ _ \<Rightarrow> None);
             r2 = (case owner of
                 None \<Rightarrow> r1
               | Some oh \<Rightarrow> if oh_host oh \<noteq> '''' \<and> oh_host oh \<noteq> self_id r then cache_route aid (oh_host oh) r1 else r1)
         in (Inr (Some Retry_Wrong_Host), w, r2))
      else if is_actor_error_kind e Unreachable then
        (let r1 = count N_DirectoryLookups (drop_coalesced_for aid e (forget_route aid (count N_UnreachableRetries r)))
         in case dir_lookup (w_dir w) aid of
              None \<Rightarrow> refreshed Retry_Unreachable w r1
            | Some entry \<Rightarrow>
                if \<not> w_alive w (de_host entry)
                then refreshed Retry_Unreachable (evict_entry aid entry w) (count N_DirectoryEvictions r1)
                else refreshed Retry_Unreachable w r1)
      else if remote \<and> is_actor_error_kind e Overloaded then (Inr None, w, count N_OverloadedReplies r)
      else if remote \<and> is_actor_error_kind e Host_Shutdown then
        refreshed Retry_Draining w (drop_coalesced_for aid e (forget_route aid (count N_DrainingRetries r)))
      else (Inr None, w, r))"

subsection \<open>The retry loop\<close>

text \<open>What the loop did: a call at a target with the error it met, or a backoff sleep.\<close>

datatype route_event = Called target "js_error option" | Slept int

definition enter_remote :: "router \<Rightarrow> router" where
  "enter_remote r =
     (let c = bump N_RemoteInflight (bump N_RemoteDispatches (ro_counters r)) in
      r\<lparr>ro_counters := (if c N_RemoteInflight > c N_RemoteInflightPeak
                         then c(N_RemoteInflightPeak := c N_RemoteInflight) else c)\<rparr>)"

definition leave_remote :: "router \<Rightarrow> router" where
  "leave_remote r = r\<lparr>ro_counters := unbump N_RemoteInflight (ro_counters r)\<rparr>"

definition give_up :: "actor_ref \<Rightarrow> js_error" where
  "give_up ref = Branded (activation_error (actor_label ref))"

definition account_target :: "bool \<Rightarrow> target \<Rightarrow> router \<Rightarrow> router" where
  "account_target accounted t r =
     (if accounted then r
      else count (case t of Local \<Rightarrow> N_DispatchesLocal | Remote _ \<Rightarrow> N_DispatchesRemote) r)"

definition backoff_ms :: "int \<Rightarrow> nat \<Rightarrow> int" where
  "backoff_ms base attempt = max 0 (base * (int attempt + 1))"

fun route_loop ::
  "(string \<Rightarrow> js_error + strategy) \<Rightarrow> (world \<Rightarrow> js_error + world)
     \<Rightarrow> (nat \<Rightarrow> target \<Rightarrow> world \<Rightarrow> (js_error + 'v) \<times> world) \<Rightarrow> int \<Rightarrow> nat \<Rightarrow> actor_ref
     \<Rightarrow> nat \<Rightarrow> bool \<Rightarrow> world \<Rightarrow> router \<Rightarrow> (js_error + 'v) \<times> route_event list \<times> world \<times> router" where
  "route_loop pol refresh answer base retries ref left accounted w r =
     (let attempt = retries - left;
          r1 = (if attempt > 0 then count N_Retries r else r) in
      case resolve_target pol ref w r1 of
        (Inl e, w2, r2) \<Rightarrow>
          if \<not> is_actor_error_kind e Unplaceable then (Inl e, [], w2, r2)
          else (case left of
              0 \<Rightarrow> (Inl (give_up ref), [], w2, count N_RoutingFailures r2)
            | Suc n \<Rightarrow>
                let w3 = (case refresh w2 of Inl _ \<Rightarrow> w2 | Inr w' \<Rightarrow> w');
                    (res, evs, w4, r4) = route_loop pol refresh answer base retries ref n accounted w3 r2
                in (res, Slept (backoff_ms base attempt) # evs, w4, r4))
      | (Inr t, w2, r2) \<Rightarrow>
          let r3 = account_target accounted t r2;
              r4 = (case t of Local \<Rightarrow> count N_RoutedLocal r3 | Remote _ \<Rightarrow> enter_remote r3);
              (res, w3) = answer attempt t w2;
              r5 = (case t of Local \<Rightarrow> r4 | Remote _ \<Rightarrow> leave_remote r4)
          in (case res of
              Inr v \<Rightarrow> (Inr v, [Called t None], w3, r5)
            | Inl e \<Rightarrow>
                (case note_failure refresh (actor_id ref) e (t \<noteq> Local) w3 r5 of
                   (Inl e', w4, r6) \<Rightarrow> (Inl e', [Called t (Some e)], w4, r6)
                 | (Inr None, w4, r6) \<Rightarrow> (Inl e, [Called t (Some e)], w4, r6)
                 | (Inr (Some k), w4, r6) \<Rightarrow>
                     (case left of
                        0 \<Rightarrow> (Inl (give_up ref), [Called t (Some e)], w4, count N_RoutingFailures r6)
                      | Suc n \<Rightarrow>
                          let (res', evs, w5, r7) = route_loop pol refresh answer base retries ref n True w4 r6
                          in (res', Called t (Some e)
                                # (if k \<noteq> Retry_Wrong_Host then [Slept (backoff_ms base attempt)] else []) @ evs,
                              w5, r7)))))"

declare route_loop.simps [simp del]

definition routed_dispatch ::
  "(string \<Rightarrow> js_error + strategy) \<Rightarrow> (world \<Rightarrow> js_error + world)
     \<Rightarrow> (nat \<Rightarrow> target \<Rightarrow> world \<Rightarrow> (js_error + 'v) \<times> world) \<Rightarrow> int \<Rightarrow> nat \<Rightarrow> actor_ref
     \<Rightarrow> world \<Rightarrow> router \<Rightarrow> (js_error + 'v) \<times> route_event list \<times> world \<times> router" where
  "routed_dispatch pol refresh answer base retries ref w r =
     route_loop pol refresh answer base retries ref retries False w r"

subsection \<open>What the loop never does\<close>

definition calls :: "route_event list \<Rightarrow> (target \<times> js_error option) list" where
  "calls evs = List.map_filter (\<lambda>ev. case ev of Called t e \<Rightarrow> Some (t, e) | Slept _ \<Rightarrow> None) evs"

definition sleeps :: "route_event list \<Rightarrow> int list" where
  "sleeps evs = List.map_filter (\<lambda>ev. case ev of Called _ _ \<Rightarrow> None | Slept ms \<Rightarrow> Some ms) evs"

lemma calls_simps [simp]:
  "calls [] = []" "calls (Called t e # evs) = (t, e) # calls evs" "calls (Slept ms # evs) = calls evs"
  "calls (evs @ evs') = calls evs @ calls evs'"
  by (simp_all add: calls_def List.map_filter_def)

lemma sleeps_simps [simp]:
  "sleeps [] = []" "sleeps (Called t e # evs) = sleeps evs" "sleeps (Slept ms # evs) = ms # sleeps evs"
  "sleeps (evs @ evs') = sleeps evs @ sleeps evs'"
  by (simp_all add: sleeps_def List.map_filter_def)

text \<open>
  The failures after which the call is sent again, by their kind: a wrong host, an unreachable one, and the shutdown of another host. The
  kind does not prove that the call did not run: a shutdown may also be thrown from the middle of a method's body.
\<close>

definition resendable :: "target \<Rightarrow> js_error \<Rightarrow> bool" where
  "resendable t e \<longleftrightarrow> is_actor_error_kind e Wrong_Host \<or> is_actor_error_kind e Unreachable
     \<or> t \<noteq> Local \<and> is_actor_error_kind e Host_Shutdown"

lemma note_failure_retries:
  "note_failure refresh aid e (t \<noteq> Local) w r = (Inr (Some k), w', r') \<Longrightarrow> resendable t e"
  by (auto simp: note_failure_def resendable_def Let_def split: if_splits sum.splits option.splits)

definition calls_ok :: "nat \<Rightarrow> js_error + 'v \<Rightarrow> (target \<times> js_error option) list \<Rightarrow> bool" where
  "calls_ok n res cs \<longleftrightarrow> length cs \<le> n
     \<and> (\<forall>(t, e) \<in> set (butlast cs). \<exists>x. e = Some x \<and> resendable t x)
     \<and> (case res of Inr _ \<Rightarrow> cs \<noteq> [] \<and> snd (last cs) = None
                  | Inl _ \<Rightarrow> \<forall>(t, e) \<in> set cs. e \<noteq> None)"

lemma calls_ok_Cons:
  assumes "calls_ok n res cs" "resendable t e"
  shows "calls_ok (Suc n) res ((t, Some e) # cs)"
  using assms by (auto simp: calls_ok_def split: sum.splits)

lemma calls_ok_mono: "calls_ok n res cs \<Longrightarrow> n \<le> m \<Longrightarrow> calls_ok m res cs"
  by (auto simp: calls_ok_def)

lemma route_loop_calls:
  "route_loop pol refresh answer base retries ref left acc w r = (res, evs, w', r') \<Longrightarrow>
     calls_ok (Suc left) res (calls evs) \<and> length (sleeps evs) \<le> left"
proof (induction left arbitrary: acc w r res evs w' r')
  case 0
  then show ?case
    by (subst (asm) route_loop.simps)
       (auto simp: calls_ok_def Let_def split: prod.splits sum.splits option.splits if_splits)
next
  case (Suc n)
  show ?case
  proof (cases "resolve_target pol ref w (if retries - Suc n > 0 then count N_Retries r else r)")
    case (fields t w2 r2)
    show ?thesis
    proof (cases t)
      case (Inl e)
      obtain res3 evs3 w4 r4 where rec: "route_loop pol refresh answer base retries ref n acc
          (case refresh w2 of Inl _ \<Rightarrow> w2 | Inr w' \<Rightarrow> w') r2 = (res3, evs3, w4, r4)" by (metis prod_cases4)
      show ?thesis
        using Suc.prems fields Inl rec Suc.IH [OF rec]
        by (subst (asm) route_loop.simps)
           (auto simp: Let_def calls_ok_def split: if_splits sum.splits)
    next
      case (Inr tg)
      let ?r4 = "\<lambda>r3. case tg of Local \<Rightarrow> count N_RoutedLocal r3 | Remote _ \<Rightarrow> enter_remote r3"
      let ?r5 = "case tg of Local \<Rightarrow> ?r4 (account_target acc tg r2) | Remote _ \<Rightarrow> leave_remote (?r4 (account_target acc tg r2))"
      obtain a w3 where ans: "answer (retries - Suc n) tg w2 = (a, w3)" by force
      show ?thesis
      proof (cases a)
        case (Inr v)
        then show ?thesis
          using Suc.prems fields \<open>t = Inr tg\<close> ans
          by (subst (asm) route_loop.simps) (auto simp: Let_def calls_ok_def)
      next
        case (Inl e)
        obtain f w4 r6 where nf: "note_failure refresh (actor_id ref) e (tg \<noteq> Local) w3 ?r5 = (f, w4, r6)"
          by (rule prod_cases3)
        obtain res3 evs3 w5 r7 where rec: "route_loop pol refresh answer base retries ref n True w4 r6 = (res3, evs3, w5, r7)"
          by (metis prod_cases4)
        show ?thesis
        proof (cases "\<exists>k. f = Inr (Some k)")
          case True
          then obtain k where k: "f = Inr (Some k)" by blast
          have "resendable tg e" using note_failure_retries nf k by blast
          then show ?thesis
            using Suc.prems fields \<open>t = Inr tg\<close> ans Inl nf k rec Suc.IH [OF rec]
            by (subst (asm) route_loop.simps) (auto simp: Let_def calls_ok_Cons)
        next
          case False
          then show ?thesis
            using Suc.prems fields \<open>t = Inr tg\<close> ans Inl nf
            by (subst (asm) route_loop.simps) (auto simp: Let_def calls_ok_def split: sum.splits option.splits)
        qed
      qed
    qed
  qed
qed

text \<open>
  C37. A routed call is sent again only after a failure of one of three kinds: the target was the wrong host, was unreachable, or was another
  host that is shutting down. Any other failure, and any value, ends the loop at once. It calls at most \<open>retries + 1\<close> targets and
  sleeps at most \<open>retries\<close> times; a value returned is the last call's, and an error returned means no call succeeded.
\<close>

theorem routed_dispatch_resends_by_kind:
  assumes "routed_dispatch pol refresh answer base retries ref w r = (res, evs, w', r')"
  shows "length (calls evs) \<le> retries + 1
         \<and> (\<forall>(t, e) \<in> set (butlast (calls evs)). \<exists>x. e = Some x \<and> resendable t x)
         \<and> (case res of Inr _ \<Rightarrow> calls evs \<noteq> [] \<and> snd (last (calls evs)) = None
                      | Inl _ \<Rightarrow> \<forall>(t, e) \<in> set (calls evs). e \<noteq> None)
         \<and> length (sleeps evs) \<le> retries"
  using route_loop_calls [OF assms [unfolded routed_dispatch_def]] by (simp add: calls_ok_def)

subsection \<open>One turn of the loop\<close>

definition hop :: "bool \<Rightarrow> target \<Rightarrow> router \<Rightarrow> router" where
  "hop acc t r = (case t of Local \<Rightarrow> count N_RoutedLocal (account_target acc t r)
     | Remote _ \<Rightarrow> leave_remote (enter_remote (account_target acc t r)))"

text \<open>The router after a turn, and whether the loop goes on: no call, or one call and its lesson.\<close>

inductive turn_ends :: "(string \<Rightarrow> js_error + strategy) \<Rightarrow> actor_ref \<Rightarrow> bool \<Rightarrow> world \<Rightarrow> router
    \<Rightarrow> nat \<Rightarrow> bool \<Rightarrow> router \<Rightarrow> bool" for pol ref acc w r where
  unresolved: "resolve_target pol ref w r = (Inl e, w2, r2) \<Longrightarrow> turn_ends pol ref acc w r 0 acc r2"
| answered: "resolve_target pol ref w r = (Inr t, w2, r2) \<Longrightarrow> turn_ends pol ref acc w r 1 True (hop acc t r2)"
| failed: "resolve_target pol ref w r = (Inr t, w2, r2)
    \<Longrightarrow> note_failure refresh aid e rm w3 (hop acc t r2) = (f, w4, r6) \<Longrightarrow> turn_ends pol ref acc w r 1 True r6"

inductive_cases turn_endsE: "turn_ends pol ref acc w r n acc' r'"

lemma route_loop_turn:
  assumes "route_loop pol refresh answer base retries ref left acc w r = (res, evs, w', r')"
  shows "\<exists>n acc1 r1. turn_ends pol ref acc w (if retries - left > 0 then count N_Retries r else r) n acc1 r1
     \<and> (length (calls evs) = n \<and> (r' = r1 \<or> r' = count N_RoutingFailures r1)
        \<or> (\<exists>m evs' w1. left = Suc m \<and> length (calls evs) = n + length (calls evs')
              \<and> route_loop pol refresh answer base retries ref m acc1 w1 r1 = (res, evs', w', r')))"
proof -
  let ?r1 = "if retries - left > 0 then count N_Retries r else r"
  obtain t w2 r2 where res: "resolve_target pol ref w ?r1 = (t, w2, r2)" by (rule prod_cases3)
  show ?thesis
  proof (cases t)
    case (Inl e)
    have T: "turn_ends pol ref acc w ?r1 0 acc r2" by (rule turn_ends.unresolved [OF res [unfolded Inl]])
    show ?thesis
      using assms res Inl T
      by (subst (asm) route_loop.simps)
         (fastforce simp: Let_def split: if_splits nat.splits prod.splits)
  next
    case (Inr tg)
    obtain a w3 where ans: "answer (retries - left) tg w2 = (a, w3)" by force
    have h: "(case tg of Local \<Rightarrow> (case tg of Local \<Rightarrow> count N_RoutedLocal (account_target acc tg r2)
          | Remote _ \<Rightarrow> enter_remote (account_target acc tg r2))
        | Remote x \<Rightarrow> leave_remote (case tg of Local \<Rightarrow> count N_RoutedLocal (account_target acc tg r2)
          | Remote _ \<Rightarrow> enter_remote (account_target acc tg r2))) = hop acc tg r2"
      by (cases tg) (simp_all add: hop_def)
    show ?thesis
    proof (cases a)
      case (Inr v)
      have T: "turn_ends pol ref acc w ?r1 1 True (hop acc tg r2)"
        by (rule turn_ends.answered [OF res [unfolded \<open>t = Inr tg\<close>]])
      show ?thesis
        using assms res \<open>t = Inr tg\<close> ans Inr T
        by (subst (asm) route_loop.simps) (fastforce simp: Let_def h)
    next
      case (Inl e)
      obtain f w4 r6 where nf: "note_failure refresh (actor_id ref) e (tg \<noteq> Local) w3 (hop acc tg r2) = (f, w4, r6)"
        by (rule prod_cases3)
      have T: "turn_ends pol ref acc w ?r1 1 True r6"
        by (rule turn_ends.failed [OF res [unfolded \<open>t = Inr tg\<close>] nf])
      show ?thesis
        using assms res \<open>t = Inr tg\<close> ans Inl nf T
        by (subst (asm) route_loop.simps)
           (fastforce simp: Let_def h split: if_splits nat.splits prod.splits sum.splits option.splits)
    qed
  qed
qed

subsection \<open>Counters\<close>

lemma settle_where_counters [simp]: "ro_counters (settle_where P how r) = ro_counters r"
proof -
  have "ro_counters (fold (\<lambda>(key, e) r. if P e then settle_entry key (how e) r else r) m r) = ro_counters r" for m
    by (induction m arbitrary: r) (auto simp: settle_entry_def)
  then show ?thesis by (simp add: settle_where_def)
qed

lemma router_frame [simp]:
  "ro_counters (cache_route aid h r) = ro_counters r" "ro_counters (forget_route aid r) = ro_counters r"
  "ro_counters (drop_coalesced_for aid e r) = ro_counters r"
  "ro_counters (count k r) = bump k (ro_counters r)"
  by (simp_all add: cache_route_def forget_route_def drop_coalesced_for_def count_def Let_def)

lemma place_fresh_counters: "place_fresh pol ref w r = (t, r') \<Longrightarrow> ro_counters r' = ro_counters r"
  by (auto simp: place_fresh_def Let_def split: if_splits sum.splits)

lemma resolve_target_counters:
  assumes "resolve_target pol ref w r = (t, w', r')"
    and "k \<notin> {N_RouteCacheHits, N_RouteCacheMisses, N_DirectoryLookups, N_DirectoryEvictions}"
  shows "ro_counters r' k = ro_counters r k"
  using assms
  by (auto simp: resolve_target_def resolve_directory_def Let_def dest!: place_fresh_counters
      split: if_splits option.splits prod.splits)

lemma note_failure_counters:
  assumes "note_failure refresh aid e rm w r = (t, w', r')"
    and "k \<notin> {N_WrongHostRedirects, N_UnreachableRetries, N_DrainingRetries, N_OverloadedReplies,
               N_DirectoryLookups, N_DirectoryEvictions}"
  shows "ro_counters r' k = ro_counters r k"
  using assms by (auto simp: note_failure_def Let_def split: if_splits option.splits sum.splits js_error.splits)

lemma hop_counters:
  "ro_counters (hop acc t r) N_DispatchesLocal + ro_counters (hop acc t r) N_DispatchesRemote
     = ro_counters r N_DispatchesLocal + ro_counters r N_DispatchesRemote + (if acc then 0 else 1)"
  "ro_counters (hop acc t r) N_RoutedLocal + ro_counters (hop acc t r) N_RemoteDispatches
     = Suc (ro_counters r N_RoutedLocal + ro_counters r N_RemoteDispatches)"
  "ro_counters (hop acc t r) N_RemoteInflight = ro_counters r N_RemoteInflight"
  by (cases t; auto simp: hop_def account_target_def enter_remote_def leave_remote_def Let_def)+

lemma turn_counters:
  assumes "turn_ends pol ref acc w r n acc' r'"
  shows "ro_counters r' N_DispatchesLocal + ro_counters r' N_DispatchesRemote
           = ro_counters r N_DispatchesLocal + ro_counters r N_DispatchesRemote + (if acc \<or> n = 0 then 0 else 1)
       \<and> ro_counters r' N_RoutedLocal + ro_counters r' N_RemoteDispatches
           = ro_counters r N_RoutedLocal + ro_counters r N_RemoteDispatches + n
       \<and> ro_counters r' N_RemoteInflight = ro_counters r N_RemoteInflight
       \<and> acc' = (acc \<or> n \<noteq> 0)"
  using assms
proof cases
  case (unresolved e w2)
  then show ?thesis using resolve_target_counters [OF unresolved(3)] by simp
next
  case (answered t w2 r2)
  then show ?thesis using resolve_target_counters [OF answered(4)] hop_counters [of acc t r2] by simp
next
  case (failed t w2 r2 refresh aid e rm w3 f w4)
  then show ?thesis
    using resolve_target_counters [OF failed(3)] note_failure_counters [OF failed(4)] hop_counters [of acc t r2]
    by simp
qed

lemma route_loop_counters:
  "route_loop pol refresh answer base retries ref left acc w r = (res, evs, w', r') \<Longrightarrow>
     ro_counters r' N_DispatchesLocal + ro_counters r' N_DispatchesRemote
       = ro_counters r N_DispatchesLocal + ro_counters r N_DispatchesRemote + (if acc \<or> calls evs = [] then 0 else 1)
   \<and> ro_counters r' N_RoutedLocal + ro_counters r' N_RemoteDispatches
       = ro_counters r N_RoutedLocal + ro_counters r N_RemoteDispatches + length (calls evs)
   \<and> ro_counters r' N_RemoteInflight = ro_counters r N_RemoteInflight"
proof (induction left arbitrary: acc w r res evs w' r')
  case 0
  then show ?case
    by (auto dest!: route_loop_turn turn_counters split: if_splits)
next
  case (Suc m)
  from route_loop_turn [OF Suc.prems] obtain n acc1 r1 where
    T: "turn_ends pol ref acc w (if retries - Suc m > 0 then count N_Retries r else r) n acc1 r1" and
    C: "length (calls evs) = n \<and> (r' = r1 \<or> r' = count N_RoutingFailures r1)
        \<or> (\<exists>evs' w1. length (calls evs) = n + length (calls evs')
              \<and> route_loop pol refresh answer base retries ref m acc1 w1 r1 = (res, evs', w', r'))"
    by blast
  note A = turn_counters [OF T]
  from C show ?case
  proof
    assume "length (calls evs) = n \<and> (r' = r1 \<or> r' = count N_RoutingFailures r1)"
    then show ?thesis using A by (auto split: if_splits)
  next
    assume "\<exists>evs' w1. length (calls evs) = n + length (calls evs')
              \<and> route_loop pol refresh answer base retries ref m acc1 w1 r1 = (res, evs', w', r')"
    then obtain evs' w1 where l: "length (calls evs) = n + length (calls evs')"
      and rec: "route_loop pol refresh answer base retries ref m acc1 w1 r1 = (res, evs', w', r')" by blast
    have "calls evs = [] \<longleftrightarrow> n = 0 \<and> calls evs' = []" using l by auto
    then show ?thesis using A Suc.IH [OF rec] l by (auto split: if_splits)
  qed
qed

text \<open>
  The locality counters count calls, not attempts: whatever the loop went through, a routed call
  adds one to \<open>dispatchesLocal + dispatchesRemote\<close> (nothing when it never found a target), one
  per attempt to \<open>routedLocal + remoteDispatches\<close>, and leaves the in-flight gauge where it was.
\<close>

theorem routed_dispatch_counts_once:
  assumes "routed_dispatch pol refresh answer base retries ref w r = (res, evs, w', r')"
  shows "ro_counters r' N_DispatchesLocal + ro_counters r' N_DispatchesRemote
       = ro_counters r N_DispatchesLocal + ro_counters r N_DispatchesRemote + (if calls evs = [] then 0 else 1)
   \<and> ro_counters r' N_RoutedLocal + ro_counters r' N_RemoteDispatches
       = ro_counters r N_RoutedLocal + ro_counters r N_RemoteDispatches + length (calls evs)
   \<and> ro_counters r' N_RemoteInflight = ro_counters r N_RemoteInflight"
  using route_loop_counters [OF assms [unfolded routed_dispatch_def]] by simp

subsection \<open>What a resolved target is\<close>

lemma place_fresh_remote:
  assumes "place_fresh pol ref w r = (Inr (Remote m), r')" and "active_hosts (w_view w) \<noteq> []"
  shows "hd_id m \<noteq> self_id r \<and> (\<exists>h \<in> set (mv_hosts (w_view w)). hd_id h = hd_id m \<and> host_registers h (ref_type ref))"
  using assms by (auto simp: place_fresh_def Let_def eligible_ids split: if_splits sum.splits)

lemma self_id_frame [simp]:
  "self_id (cache_route aid h r) = self_id r" "self_id (forget_route aid r) = self_id r" "self_id (count k r) = self_id r"
  by (simp_all add: self_id_def cache_route_def forget_route_def count_def Let_def)

lemma evict_entry_view [simp]: "w_view (evict_entry aid e w) = w_view w"
  by (simp add: evict_entry_def)

text \<open>
  A call is never sent somewhere that cannot serve it: when some host is active, a remote target is
  another member of the current view under an id whose descriptor registers the type; and a
  host that is fenced resolves nothing, while one holding the claim answers locally with no
  store read and no counter moved.
\<close>

theorem resolved_target_serves:
  assumes "resolve_target pol ref w r = (t, w', r')" and "active_hosts (w_view w) \<noteq> []"
  shows "(\<forall>m. t = Inr (Remote m) \<longrightarrow>
             \<not> ro_fenced r \<and> \<not> jhas (ro_claimed r) (actor_id ref) \<and> hd_id m \<noteq> self_id r
             \<and> (\<exists>h \<in> set (mv_hosts (w_view w)). hd_id h = hd_id m \<and> host_registers h (ref_type ref)))
         \<and> (ro_fenced r \<longrightarrow> t = Inl (Branded (fenced_error (self_id r))))
         \<and> (\<not> ro_fenced r \<and> jhas (ro_claimed r) (actor_id ref) \<longrightarrow> t = Inr Local \<and> w' = w \<and> r' = r)"
proof -
  have "\<not> ro_fenced r \<and> \<not> jhas (ro_claimed r) (actor_id ref) \<and> hd_id m \<noteq> self_id r
        \<and> (\<exists>h \<in> set (mv_hosts (w_view w)). hd_id h = hd_id m \<and> host_registers h (ref_type ref))"
    if t: "t = Inr (Remote m)" for m
  proof -
    have nf: "\<not> ro_fenced r" and nc: "\<not> jhas (ro_claimed r) (actor_id ref)"
      using assms(1) t by (auto simp: resolve_target_def Let_def split: if_splits)
    show ?thesis
    proof (cases "cached_target ref w r")
      case (Some tg)
      then have "cached_target ref w r = Some (Remote m)"
        using assms(1) t nf nc by (simp add: resolve_target_def)
      then show ?thesis
        using nf nc member_by_id_SomeD [of "w_view w" _ m]
        by (fastforce simp: cached_target_def split: option.splits if_splits)
    next
      case None
      let ?r = "count N_DirectoryLookups (count N_RouteCacheMisses (forget_route (actor_id ref) r))"
      have rd: "resolve_directory pol ref w ?r = (Inr (Remote m), w', r')"
        using assms(1) t nf nc None by (simp add: resolve_target_def)
      show ?thesis
      proof (cases "dir_lookup (w_dir w) (actor_id ref)")
        case None
        then show ?thesis
          using rd nf nc place_fresh_remote [of pol ref w ?r m] assms(2)
          by (auto simp: resolve_directory_def Let_def split: prod.splits)
      next
        case (Some e)
        show ?thesis
        proof (cases "member_by_id (w_view w) (de_host e)")
          case None
          then show ?thesis
            using rd nf nc Some assms(2) place_fresh_remote [of pol ref w ?r m]
              place_fresh_remote [of pol ref "evict_entry (actor_id ref) e w" "count N_DirectoryEvictions ?r" m]
            by (auto simp: resolve_directory_def Let_def split: prod.splits if_splits)
        next
          case (Some d)
          then show ?thesis
            using rd nf nc \<open>dir_lookup _ _ = Some e\<close> assms(2) member_by_id_SomeD [OF Some]
              place_fresh_remote [of pol ref "evict_entry (actor_id ref) e w" "count N_DirectoryEvictions ?r" m]
            by (auto simp: resolve_directory_def Let_def split: prod.splits if_splits)
        qed
      qed
    qed
  qed
  then show ?thesis using assms(1) by (auto simp: resolve_target_def Let_def)
qed

subsection \<open>A fenced host sends nothing\<close>

text \<open>
  A fenced host is terminal for routing: its calls fail at once with the fence itself, un-wrapped,
  after no call, no sleep and no store read, however many retries are left.
\<close>

theorem fenced_dispatch_fails_fast:
  assumes "ro_fenced r"
  shows "routed_dispatch pol refresh answer base retries ref w r
           = (Inl (Branded (fenced_error (self_id r))), [], w, r)"
  using assms
  by (simp add: routed_dispatch_def route_loop.simps resolve_target_def is_actor_error_kind_def fenced_error_def base_error_def)

subsection \<open>The route cache is bounded\<close>

definition cache_ok :: "router \<Rightarrow> bool" where
  "cache_ok r \<longleftrightarrow> distinct (jkeys (ro_cache r)) \<and> length (ro_cache r) \<le> route_cache_max"

lemma length_jdel_le: "length (jdel (m :: (string, string) jmap) k) \<le> length m"
  by (rule length_delete_le)

lemma cache_ok_cache_route [simp]: "cache_ok r \<Longrightarrow> cache_ok (cache_route aid h r)"
proof -
  assume c: "cache_ok r"
  define c1 where "c1 = (if route_cache_max \<le> length (ro_cache r)
               then (case ro_cache r of [] \<Rightarrow> [] | (oldest, _) # _ \<Rightarrow> jdel (ro_cache r) oldest) else ro_cache r)"
  have d1: "distinct (jkeys c1)" using c by (auto simp: c1_def cache_ok_def split: list.splits)
  have l1: "length c1 < route_cache_max"
  proof (cases "route_cache_max \<le> length (ro_cache r)")
    case True
    then obtain k v rest where e: "ro_cache r = (k, v) # rest"
      by (cases "ro_cache r") (auto simp: route_cache_max_def)
    have "jhas (ro_cache r) k" by (simp add: e jhas_def)
    from length_jdel [OF this] c True e show ?thesis by (simp add: c1_def cache_ok_def)
  qed (simp add: c1_def)
  have "length (jset (jdel c1 aid) aid h) = Suc (length (jdel c1 aid))" by (simp add: length_jset)
  also have "\<dots> \<le> route_cache_max" using l1 length_jdel_le [of aid c1] by simp
  finally show ?thesis using d1 by (auto simp: cache_ok_def cache_route_def Let_def c1_def [symmetric])
qed

lemma cache_ok_forget [simp]: "cache_ok r \<Longrightarrow> cache_ok (forget_route aid r)"
  using length_jdel_le [of aid "ro_cache r"] by (auto simp: cache_ok_def forget_route_def)

lemma cache_ok_cong: "ro_cache r' = ro_cache r \<Longrightarrow> cache_ok r' = cache_ok r"
  by (simp add: cache_ok_def)

lemma settle_where_cache [simp]: "ro_cache (settle_where P how r) = ro_cache r"
proof -
  have "ro_cache (fold (\<lambda>(key, e) r. if P e then settle_entry key (how e) r else r) m r) = ro_cache r" for m
    by (induction m arbitrary: r) (auto simp: settle_entry_def)
  then show ?thesis by (simp add: settle_where_def)
qed

lemma cache_ok_frame [simp]:
  "cache_ok (count k r) = cache_ok r" "cache_ok (drop_coalesced_for aid e r) = cache_ok r"
  "cache_ok (account_target a t r) = cache_ok r" "cache_ok (enter_remote r) = cache_ok r"
  "cache_ok (leave_remote r) = cache_ok r" "cache_ok (hop a t r) = cache_ok r"
  by (auto intro!: cache_ok_cong simp: count_def drop_coalesced_for_def account_target_def enter_remote_def
      leave_remote_def hop_def Let_def split: target.splits)

lemma cache_ok_prune: "cache_ok r \<Longrightarrow> cache_ok (prune_routes v r)"
proof -
  assume c: "cache_ok r"
  have "ro_cache (prune_routes v r) = filter (\<lambda>(_, h). h \<in> hd_id ` set (mv_hosts v)) (ro_cache r)"
    by (simp add: prune_routes_def Let_def)
  then show ?thesis
    using c distinct_map_filter [of fst "ro_cache r"]
      le_trans [OF length_filter_le [of "\<lambda>(_, h). h \<in> hd_id ` set (mv_hosts v)" "ro_cache r"]]
    by (simp add: cache_ok_def)
qed

lemma cache_ok_place: "place_fresh pol ref w r = (t, r') \<Longrightarrow> cache_ok r \<Longrightarrow> cache_ok r'"
  by (auto simp: place_fresh_def Let_def split: if_splits sum.splits)

lemma cache_ok_resolve: "resolve_target pol ref w r = (t, w', r') \<Longrightarrow> cache_ok r \<Longrightarrow> cache_ok r'"
  by (auto simp: resolve_target_def resolve_directory_def Let_def dest!: cache_ok_place
      split: if_splits option.splits prod.splits)

lemma cache_ok_note: "note_failure refresh aid e rm w r = (f, w', r') \<Longrightarrow> cache_ok r \<Longrightarrow> cache_ok r'"
  by (auto simp: note_failure_def Let_def split: if_splits option.splits sum.splits js_error.splits)

lemma cache_ok_turn: "turn_ends pol ref acc w r n acc' r' \<Longrightarrow> cache_ok r \<Longrightarrow> cache_ok r'"
proof (induction rule: turn_ends.induct)
  case (failed t w2 r2 refresh aid e rm w3 f w4 r6)
  then have "cache_ok (hop acc t r2)" using cache_ok_resolve by simp
  then show ?case by (rule cache_ok_note [OF failed(2)])
qed (auto dest: cache_ok_resolve)

lemma cache_ok_loop:
  "route_loop pol refresh answer base retries ref left acc w r = (res, evs, w', r') \<Longrightarrow> cache_ok r \<Longrightarrow> cache_ok r'"
proof (induction left arbitrary: acc w r res evs w' r')
  case 0
  then show ?case by (auto dest!: route_loop_turn cache_ok_turn split: if_splits)
next
  case (Suc m)
  from route_loop_turn [OF Suc.prems(1)] Suc.prems(2) Suc.IH show ?case
    by (auto dest!: cache_ok_turn split: if_splits)
qed

text \<open>
  Routing keeps its memory bounded: whatever happens to a call, the route cache it leaves behind
  has distinct keys and at most 10 000 of them, if the one it found had.
\<close>

theorem route_cache_bounded:
  assumes "routed_dispatch pol refresh answer base retries ref w r = (res, evs, w', r')"
    and "distinct (jkeys (ro_cache r))" and "length (ro_cache r) \<le> 10000"
  shows "distinct (jkeys (ro_cache r')) \<and> length (ro_cache r') \<le> 10000
         \<and> length (ro_cache (prune_routes v r')) \<le> 10000"
  using cache_ok_loop [OF assms(1) [unfolded routed_dispatch_def]] cache_ok_prune [of r' v] assms(2,3)
  by (simp add: cache_ok_def route_cache_max_def)

subsection \<open>A concrete cluster\<close>

definition demo_world :: world where
  "demo_world = \<lparr>w_view = \<lparr>mv_version = 4, mv_hosts = [host_named ''s.a'', host_named ''s.b'']\<rparr>,
     w_dir = [(''cart'' @ nul # ''7'', \<lparr>de_host = ''s.b'', de_activation = ''s.b/1/1''\<rparr>)], w_alive = (\<lambda>_. True)\<rparr>"

definition demo_pol :: "string \<Rightarrow> js_error + strategy" where
  "demo_pol ty = Inr \<lparr>st_name = None, st_choose = prefer_local_policy\<rparr>"

text \<open>The owner answers wrong-host once, naming us, then serves.\<close>

definition demo_answer :: "nat \<Rightarrow> target \<Rightarrow> world \<Rightarrow> (js_error + nat) \<times> world" where
  "demo_answer n t w = (if n = 0 then Inl (Branded (unreachable_error ''s.b'')) else Inr 42, w)"

definition cart_ref :: actor_ref where
  "cart_ref = \<lparr>ref_type = ''cart'', ref_key = ''7''\<rparr>"

lemma demo_resolve:
  "resolve_target demo_pol cart_ref demo_world (new_router (host_named ''s.a''))
     = (Inr (Remote (host_named ''s.b'')), demo_world,
        cache_route (actor_id cart_ref) ''s.b'' (count N_DirectoryLookups (count N_RouteCacheMisses
          (forget_route (actor_id cart_ref) (new_router (host_named ''s.a''))))))"
  by (simp add: resolve_target_def resolve_directory_def cached_target_def new_router_def demo_world_def cart_ref_def
      actor_id_def dir_lookup_def self_id_def host_named_def member_by_id_def host_registers_def Let_def
      count_def forget_route_def)

theorem resolved_target_serves_witness:
  "hd_id (host_named ''s.b'') \<noteq> ''s.a''
   \<and> (\<exists>h \<in> set (mv_hosts (w_view demo_world)). hd_id h = ''s.b'' \<and> host_registers h ''cart'')"
proof -
  have "active_hosts (w_view demo_world) \<noteq> []" by (simp add: demo_world_def active_hosts_def host_named_def)
  from resolved_target_serves [OF demo_resolve this] show ?thesis
    by (simp add: host_named_def self_id_def new_router_def cart_ref_def)
qed

definition demo_outcome :: "(js_error + nat) \<times> route_event list \<times> world \<times> router" where
  "demo_outcome = routed_dispatch demo_pol Inr demo_answer 100 3 cart_ref demo_world (new_router (host_named ''s.a''))"

lemma demo_outcome_split: "routed_dispatch demo_pol Inr demo_answer 100 3 cart_ref demo_world (new_router (host_named ''s.a''))
    = (fst demo_outcome, fst (snd demo_outcome), fst (snd (snd demo_outcome)), snd (snd (snd demo_outcome)))"
  by (simp add: demo_outcome_def)

theorem routed_dispatch_resends_by_kind_witness:
  "length (calls (fst (snd demo_outcome))) \<le> 4 \<and> length (sleeps (fst (snd demo_outcome))) \<le> 3"
  using routed_dispatch_resends_by_kind [OF demo_outcome_split] by simp

theorem routed_dispatch_counts_once_witness:
  "ro_counters (snd (snd (snd demo_outcome))) N_RemoteInflight = 0"
  using routed_dispatch_counts_once [OF demo_outcome_split] by (simp add: new_router_def create_counters_def)

theorem route_cache_bounded_witness: "length (ro_cache (snd (snd (snd demo_outcome)))) \<le> 10000"
  using route_cache_bounded [OF demo_outcome_split, of "w_view demo_world"] by (simp add: new_router_def)

theorem fenced_dispatch_fails_fast_witness:
  "fst (routed_dispatch demo_pol Inr demo_answer 100 3 cart_ref demo_world ((new_router (host_named ''s.a''))\<lparr>ro_fenced := True\<rparr>))
     = Inl (Branded (fenced_error ''s.a''))"
  using fenced_dispatch_fails_fast [of "(new_router (host_named ''s.a''))\<lparr>ro_fenced := True\<rparr>" demo_pol Inr demo_answer 100 3
      cart_ref demo_world] by (simp add: new_router_def self_id_def host_named_def)

subsection \<open>The other entries\<close>

text \<open>\<open>dispatcherFor\<close>, given whether the type is stateless: run here, or through the loop.\<close>

datatype dispatcher = Use_Local | Use_Routing

definition dispatcher_for :: "bool \<Rightarrow> actor_ref \<Rightarrow> router \<Rightarrow> dispatcher \<times> router" where
  "dispatcher_for stateless ref r =
     (if jhas (ro_claimed r) (actor_id ref) then (Use_Local, count N_DispatchesLocal r)
      else if stateless then (Use_Local, r)
      else (Use_Routing, r))"

datatype location = Here | At owner_hint

definition locate :: "(string \<Rightarrow> js_error + strategy) \<Rightarrow> bool \<Rightarrow> actor_ref \<Rightarrow> world \<Rightarrow> router
    \<Rightarrow> (js_error + location) \<times> world \<times> router" where
  "locate pol stateless ref w r =
     (let r1 = count N_Locates r in
      if jhas (ro_claimed r1) (actor_id ref) then (Inr Here, w, r1)
      else if stateless then (Inr Here, w, r1)
      else case resolve_target pol ref w r1 of
        (Inl e, w2, r2) \<Rightarrow> (Inl e, w2, r2)
      | (Inr Local, w2, r2) \<Rightarrow> (Inr Here, w2, r2)
      | (Inr (Remote m), w2, r2) \<Rightarrow>
          (Inr (At (case member_by_id (w_view w2) (hd_id m) of
              None \<Rightarrow> \<lparr>oh_host = hd_id m, oh_address = None, oh_public = None\<rparr>
            | Some d \<Rightarrow> \<lparr>oh_host = hd_id m, oh_address = Some (hd_address d), oh_public = hd_public d\<rparr>)),
           w2, count N_LocateRemote r2))"

text \<open>The inbound guard: an unregistered type is refused as misplaced, with no owner hint.\<close>

definition inbound_refusal :: "bool \<Rightarrow> (string \<Rightarrow> bool) \<Rightarrow> actor_ref \<Rightarrow> actor_error option" where
  "inbound_refusal bound registered ref =
     (if bound \<and> \<not> registered (ref_type ref) then Some (wrong_host_error (actor_label ref) None) else None)"

definition dispatch_inbound ::
  "bool \<Rightarrow> (string \<Rightarrow> bool) \<Rightarrow> (actor_ref \<Rightarrow> js_error + 'v) \<Rightarrow> counter \<Rightarrow> actor_ref \<Rightarrow> router \<Rightarrow> (js_error + 'v) \<times> router" where
  "dispatch_inbound bound registered local k ref r =
     (case inbound_refusal bound registered ref of
        Some e \<Rightarrow> (Inl (Branded e), count k r)
      | None \<Rightarrow> (local ref, count k r))"

text \<open>
  The transport chain: each transport says whether it can reach a host. The entry that did is
  remembered; the answer is its index, or the error naming what was tried.
\<close>

record transport =
  tp_name :: string
  tp_reaches :: "host_desc \<Rightarrow> bool"

definition unreachable_by :: "transport list \<Rightarrow> host_desc \<Rightarrow> js_error" where
  "unreachable_by ts h = Branded (unreachable_error (hd_id h @ '' '' @ [CHR 0xE2, CHR 0x80, CHR 0x94]
     @ '' no configured transport reaches it (tried '' @ join_str '', '' (map tp_name ts) @ ''; it advertises ''
     @ (let adv = join_str '', '' (case hd_addresses h of None \<Rightarrow> [] | Some m \<Rightarrow> jkeys m)
        in if adv = [] then ''none'' else adv) @ '')''))"

fun first_reaching :: "nat \<Rightarrow> transport list \<Rightarrow> host_desc \<Rightarrow> nat option" where
  "first_reaching i [] h = None"
| "first_reaching i (t # ts) h = (if tp_reaches t h then Some i else first_reaching (Suc i) ts h)"

definition transport_dispatcher ::
  "transport list \<Rightarrow> host_desc \<Rightarrow> (string, nat) jmap \<Rightarrow> router \<Rightarrow> (js_error + nat) \<times> (string, nat) jmap \<times> router" where
  "transport_dispatcher ts h memo r =
     (case jget memo (hd_id h) of
        Some i \<Rightarrow>
          if tp_reaches (ts ! i) h then (Inr i, memo, r)
          else (let memo' = jdel memo (hd_id h) in
            case first_reaching 0 ts h of
              None \<Rightarrow> (Inl (unreachable_by ts h), memo', r)
            | Some j \<Rightarrow> (Inr j, jset memo' (hd_id h) j, if j > 0 then count N_TransportFallbacks r else r))
      | None \<Rightarrow>
          (case first_reaching 0 ts h of
              None \<Rightarrow> (Inl (unreachable_by ts h), memo, r)
            | Some j \<Rightarrow> (Inr j, jset memo (hd_id h) j, if j > 0 then count N_TransportFallbacks r else r)))"

lemma first_reaching_Some:
  "first_reaching i ts h = Some j \<Longrightarrow> i \<le> j \<and> j - i < length ts \<and> tp_reaches (ts ! (j - i)) h
     \<and> (\<forall>k < j - i. \<not> tp_reaches (ts ! k) h)"
proof (induction i ts h rule: first_reaching.induct)
  case (2 i t ts h)
  show ?case
  proof (cases "tp_reaches t h")
    case False
    with 2 have ih: "Suc i \<le> j" "j - Suc i < length ts" "tp_reaches (ts ! (j - Suc i)) h"
      "\<forall>k < j - Suc i. \<not> tp_reaches (ts ! k) h" by auto
    have d: "j - i = Suc (j - Suc i)" using ih(1) by simp
    show ?thesis using ih False by (auto simp: d nth_Cons split: nat.splits)
  qed (use 2 in auto)
qed simp

lemma first_reaching_None: "first_reaching i ts h = None \<longleftrightarrow> (\<forall>t \<in> set ts. \<not> tp_reaches t h)"
  by (induction i ts h rule: first_reaching.induct) auto

text \<open>
  The transport chain is strict and in order: with nothing remembered the first transport that
  reaches the host is used and remembered; what is used always reaches the host; and the
  chain fails exactly when none does, never falling back silently.
\<close>

theorem transport_chain_strict:
  assumes "\<forall>i \<in> ran (map_of memo). i < length ts"
    and "transport_dispatcher ts h memo r = (res, memo', r')"
  shows "(res = Inl (unreachable_by ts h)) = (\<forall>t \<in> set ts. \<not> tp_reaches t h)
     \<and> (\<forall>i. res = Inr i \<longrightarrow> i < length ts \<and> tp_reaches (ts ! i) h \<and> jget memo' (hd_id h) = Some i
            \<and> (jget memo (hd_id h) = None \<longrightarrow> (\<forall>k < i. \<not> tp_reaches (ts ! k) h)))"
proof (cases "jget memo (hd_id h)")
  case None
  then show ?thesis
    using assms(2) first_reaching_Some [of 0 ts h] first_reaching_None [of 0 ts h]
    by (auto simp: transport_dispatcher_def split: option.splits)
next
  case (Some i)
  then have "i < length ts" using assms(1) by (auto simp: ran_def)
  then show ?thesis
    using assms(2) Some first_reaching_Some [of 0 ts h] first_reaching_None [of 0 ts h]
    by (auto simp: transport_dispatcher_def Let_def split: option.splits if_splits)
qed

theorem transport_chain_strict_witness:
  "let ts = [\<lparr>tp_name = ''tcp'', tp_reaches = (\<lambda>h. hd_addresses h \<noteq> None)\<rparr>, \<lparr>tp_name = ''http'', tp_reaches = (\<lambda>_. True)\<rparr>]
   in fst (transport_dispatcher ts (host_named ''s.b'') [] (new_router (host_named ''s.a''))) = Inr 1"
proof -
  let ?ts = "[\<lparr>tp_name = ''tcp'', tp_reaches = (\<lambda>h. hd_addresses h \<noteq> None)\<rparr>, \<lparr>tp_name = ''http'', tp_reaches = (\<lambda>_. True)\<rparr>]"
  obtain res m r where t: "transport_dispatcher ?ts (host_named ''s.b'') [] (new_router (host_named ''s.a'')) = (res, m, r)"
    by (rule prod_cases3)
  from transport_chain_strict [OF _ t] t show ?thesis
    by (simp add: transport_dispatcher_def host_named_def)
qed

end
