(* ===== verification/Placement_Life.thy ===== *)
theory Placement_Life
  imports Placement_Policy Counters Complex_Main
begin

section \<open>The life of a placement: departures, presence, fencing, rebalancing\<close>

text \<open>
  \<open>cluster/placement.ts\<close> beside the routing loop: the identity a host mints, the sweep of a
  departed host's claims and the election of its one sweeper, the self-presence check, the
  fence and the rejoin, a rebalance round, and the guards of the ops surface.
\<close>

subsection \<open>The identity\<close>

text \<open>\<open>randBase36\<close> over the random bytes; a host id is \<open>s.\<close> and eight of them.\<close>

definition rand_base36 :: "nat list \<Rightarrow> string" where
  "rand_base36 bytes = map (\<lambda>b. digit_char (b mod 36)) bytes"

definition mint_host_id :: "nat list \<Rightarrow> string" where
  "mint_host_id bytes = ''s.'' @ rand_base36 bytes"

text \<open>A minted id never holds the separator of the activation ids.\<close>

lemma mint_host_id_no_slash: "CHR ''/'' \<notin> set (mint_host_id bytes)"
proof -
  have "digit_char d \<noteq> CHR ''/''" if "d < 36" for d
  proof
    assume e: "digit_char d = CHR ''/''"
    have "of_char (digit_char d) \<noteq> (47::nat)" using that by (simp add: digit_char_def of_char_of)
    with e show False by simp
  qed
  then show ?thesis by (auto simp: mint_host_id_def rand_base36_def) (metis mod_less_divisor zero_less_numeral)
qed

subsection \<open>Departed hosts\<close>

record sweeping =
  sw_self :: string
  sw_seen :: "string list"
  sw_leaving :: "string list"
  sw_dir :: directory
  sw_counters :: counters

definition add_new :: "string list \<Rightarrow> string list \<Rightarrow> string list" where
  "add_new xs ys = fold (\<lambda>y acc. if y \<in> set acc then acc else acc @ [y]) ys xs"

definition live_ids :: "member_view \<Rightarrow> string list" where
  "live_ids v = map hd_id (mv_hosts v)"

definition departed_hosts :: "member_view \<Rightarrow> string \<Rightarrow> string list \<Rightarrow> string list" where
  "departed_hosts v self seen = filter (\<lambda>h. h \<notin> set (live_ids v) \<and> h \<noteq> self) seen"

text \<open>The smallest id among the live hosts already seen, and this host.\<close>

definition elect_sweeper :: "member_view \<Rightarrow> string \<Rightarrow> string list \<Rightarrow> string" where
  "elect_sweeper v self seen = fold (\<lambda>h best. if h \<in> set seen \<and> h < best then h else best) (live_ids v) self"

definition forget_departed :: "string \<Rightarrow> sweeping \<Rightarrow> sweeping" where
  "forget_departed h s = s\<lparr>sw_seen := removeAll h (sw_seen s), sw_leaving := removeAll h (sw_leaving s)\<rparr>"

definition count_sweep :: "counter \<Rightarrow> nat \<Rightarrow> sweeping \<Rightarrow> sweeping" where
  "count_sweep k n s = s\<lparr>sw_counters := (sw_counters s)(k := sw_counters s k + n)\<rparr>"

text \<open>One departed host, with what the store answers: alive or not, or no answer at all.\<close>

definition sweep_one ::
  "(string \<Rightarrow> bool option) \<Rightarrow> (string \<Rightarrow> bool) \<Rightarrow> string \<Rightarrow> string \<Rightarrow> sweeping \<Rightarrow> sweeping" where
  "sweep_one alive evict_works sweeper h s =
     (if sweeper \<noteq> sw_self s then count_sweep N_SweepsDelegated 1 (forget_departed h s)
      else case alive h of
        None \<Rightarrow> s
      | Some True \<Rightarrow> s
      | Some False \<Rightarrow>
          if h \<in> set (sw_leaving s) then count_sweep N_SweepsSkippedGraceful 1 (forget_departed h s)
          else let s1 = count_sweep N_HostSweeps 1 s in
            if \<not> evict_works h then s1
            else let (n, d) = dir_evict_host (sw_dir s1) h in
              count_sweep N_SweptEntries n (s1\<lparr>sw_dir := d, sw_seen := removeAll h (sw_seen s1)\<rparr>))"

definition sweep_departed ::
  "(string \<Rightarrow> bool option) \<Rightarrow> (string \<Rightarrow> bool) \<Rightarrow> bool \<Rightarrow> member_view \<Rightarrow> sweeping \<Rightarrow> sweeping" where
  "sweep_departed alive evict_works can_sweep v s =
     (if mv_hosts v = [] then s
      else let
        leaving = map hd_id (filter (\<lambda>h. hd_status h = Leaving) (mv_hosts v));
        seen_before = sw_seen s;
        departed = departed_hosts v (sw_self s) seen_before;
        s1 = s\<lparr>sw_leaving := add_new (sw_leaving s) leaving, sw_seen := add_new seen_before (live_ids v)\<rparr>
      in if departed = [] \<or> \<not> can_sweep then s1
         else fold (sweep_one alive evict_works (elect_sweeper v (sw_self s) seen_before)) departed s1)"

lemma elect_fold:
  "fold (\<lambda>h best. if h \<in> S \<and> h < best then h else best) hs b = Min (insert b (set hs \<inter> S))" for b :: string
proof (induction hs arbitrary: b)
  case (Cons h hs)
  have fin: "finite (set hs \<inter> S)" by simp
  show ?case
  proof (cases "h \<in> S")
    case True
    have "insert b (set (h # hs) \<inter> S) = insert h (insert b (set hs \<inter> S))" using True by auto
    then have "Min (insert b (set (h # hs) \<inter> S)) = min h (Min (insert b (set hs \<inter> S)))" by simp
    also have "\<dots> = Min (insert (if h < b then h else b) (set hs \<inter> S))"
    proof -
      have "min h (min b M) = min (if h < b then h else b) M" for M by (auto simp: min_def)
      moreover have "Min (insert c (set hs \<inter> S)) = min c (Min (set hs \<inter> S))" if "set hs \<inter> S \<noteq> {}" for c
        using that by simp
      ultimately show ?thesis
      proof (cases "set hs \<inter> S = {}")
        case True
        then show ?thesis by (auto simp: min_def)
      qed (simp only: not_False_eq_True)
    qed
    finally show ?thesis using True Cons by simp
  next
    case False
    then show ?thesis using Cons by simp
  qed
qed simp

lemma elect_sweeper_Min: "elect_sweeper v self seen = Min (insert self (set (live_ids v) \<inter> set seen))"
  by (simp add: elect_sweeper_def elect_fold)

text \<open>
  One sweeper per departure: the live hosts that had seen the same members before the change all
  elect the same one of them, so exactly one of them sweeps a departed host.
\<close>

theorem one_sweeper:
  assumes "set (live_ids v) \<inter> set seen \<noteq> {}"
  shows "\<exists>h \<in> set (live_ids v) \<inter> set seen. \<forall>self \<in> set (live_ids v) \<inter> set seen.
           \<forall>seen'. set seen' = set seen \<longrightarrow>
           elect_sweeper v self seen' = h \<and> (elect_sweeper v self seen' = self) = (self = h)"
proof -
  let ?S = "set (live_ids v) \<inter> set seen"
  have "elect_sweeper v self seen' = Min ?S" if "self \<in> ?S" "set seen' = set seen" for self seen'
    using that by (simp add: elect_sweeper_Min insert_absorb)
  moreover have "Min ?S \<in> ?S" using assms by (intro Min_in) simp_all
  ultimately show ?thesis by (intro bexI [of _ "Min ?S"]) auto
qed

theorem one_sweeper_witness:
  "let v = \<lparr>mv_version = 9, mv_hosts = [host_named ''s.b'', host_named ''s.a'', host_named ''s.c'']\<rparr>;
       seen = [''s.d'', ''s.c'', ''s.b'']
   in \<exists>h \<in> {''s.b'', ''s.c''}. elect_sweeper v ''s.b'' seen = h \<and> elect_sweeper v ''s.c'' seen = h"
proof -
  let ?v = "\<lparr>mv_version = 9, mv_hosts = [host_named ''s.b'', host_named ''s.a'', host_named ''s.c'']\<rparr>"
  have "set (live_ids ?v) \<inter> set [''s.d'', ''s.c'', ''s.b''] = {''s.b'', ''s.c''}"
    by (auto simp: live_ids_def host_named_def)
  note T = one_sweeper [of ?v "[''s.d'', ''s.c'', ''s.b'']", unfolded this, OF insert_not_empty]
  show ?thesis
    unfolding Let_def
  proof (rule bexE [OF T])
    fix h
    assume h: "h \<in> {''s.b'', ''s.c''}" and H: "\<forall>self \<in> {''s.b'', ''s.c''}. \<forall>seen'.
        set seen' = set [''s.d'', ''s.c'', ''s.b''] \<longrightarrow>
        elect_sweeper ?v self seen' = h \<and> (elect_sweeper ?v self seen' = self) = (self = h)"
    have "elect_sweeper ?v self [''s.d'', ''s.c'', ''s.b''] = h" if "self \<in> {''s.b'', ''s.c''}" for self
      using bspec [OF H that] by (rule allE) (drule mp, rule refl, erule conjunct1)
    then show "\<exists>h \<in> {''s.b'', ''s.c''}. elect_sweeper ?v ''s.b'' [''s.d'', ''s.c'', ''s.b''] = h
        \<and> elect_sweeper ?v ''s.c'' [''s.d'', ''s.c'', ''s.b''] = h"
      using h by (intro bexI [of _ h] conjI) simp_all
  qed
qed

text \<open>A sweep takes only entries of hosts that are gone.\<close>

lemma sweep_one_lookup:
  assumes "dir_ok (sw_dir s)" "dir_lookup (sw_dir s) aid = Some e" "alive (de_host e) \<noteq> Some False \<or> de_host e \<noteq> h"
  shows "dir_lookup (sw_dir (sweep_one alive ew sw h s)) aid = Some e \<and> dir_ok (sw_dir (sweep_one alive ew sw h s))"
proof (cases "sw = sw_self s \<and> alive h = Some False \<and> h \<notin> set (sw_leaving s) \<and> ew h")
  case True
  obtain n d where d: "dir_evict_host (sw_dir s) h = (n, d)" by force
  have "de_host e \<noteq> h" using assms(3) True by auto
  then have "dir_lookup d aid = Some e" "dir_ok d"
    using hubdir.evict_host_lookup [OF assms(1), of h aid] hubdir.ok_evict_host [OF assms(1), of h] assms(2) d by simp_all
  then show ?thesis using True d by (simp add: sweep_one_def count_sweep_def Let_def)
next
  case False
  then have "sw_dir (sweep_one alive ew sw h s) = sw_dir s"
    by (auto simp: sweep_one_def count_sweep_def forget_departed_def Let_def split: option.splits bool.splits prod.splits)
  then show ?thesis using assms by simp
qed

text \<open>
  A sweep never takes a living host's claim: every entry whose host the store does not declare dead,
  or that is still in the view, survives it.
\<close>

theorem sweep_spares_the_living:
  assumes "dir_ok (sw_dir s)" and "dir_lookup (sw_dir s) aid = Some e"
    and "alive (de_host e) \<noteq> Some False \<or> de_host e \<in> set (live_ids v) \<or> de_host e = sw_self s"
  shows "dir_lookup (sw_dir (sweep_departed alive ew can v s)) aid = Some e"
proof -
  let ?sw = "elect_sweeper v (sw_self s) (sw_seen s)"
  have F: "dir_ok (sw_dir s') \<Longrightarrow> dir_lookup (sw_dir s') aid = Some e
      \<Longrightarrow> (\<And>h. h \<in> set hs \<Longrightarrow> alive (de_host e) \<noteq> Some False \<or> de_host e \<noteq> h)
      \<Longrightarrow> dir_lookup (sw_dir (fold (sweep_one alive ew ?sw) hs s')) aid = Some e" for hs s'
  proof (induction hs arbitrary: s')
    case (Cons h hs)
    then show ?case using sweep_one_lookup [of s' aid e alive h ew ?sw] by auto
  qed simp
  show ?thesis
    using assms by (auto simp: sweep_departed_def Let_def departed_hosts_def intro!: F)
qed

theorem sweep_spares_the_living_witness:
  "let s = \<lparr>sw_self = ''s.a'', sw_seen = [''s.b''], sw_leaving = [],
            sw_dir = [(''x'', \<lparr>de_host = ''s.c'', de_activation = ''s.c/1/1''\<rparr>)], sw_counters = create_counters\<rparr>
   in dir_lookup (sw_dir (sweep_departed (\<lambda>h. Some (h = ''s.c'')) (\<lambda>_. True) True
        \<lparr>mv_version = 2, mv_hosts = [host_named ''s.a'']\<rparr> s)) ''x'' = Some \<lparr>de_host = ''s.c'', de_activation = ''s.c/1/1''\<rparr>"
  unfolding Let_def
  by (rule sweep_spares_the_living) (simp_all add: dir_ok_def dir_lookup_def)

subsection \<open>Presence, fence and rejoin\<close>

record presence =
  pr_self :: string
  pr_fenced :: bool
  pr_fencing :: bool
  pr_rejoining :: bool
  pr_checking :: bool
  pr_status :: host_status
  pr_started :: bool
  pr_seen_self :: bool
  pr_claimed :: "string list"
  pr_types :: "string list option"
  pr_counters :: counters

definition in_view :: "member_view \<Rightarrow> string \<Rightarrow> bool" where
  "in_view v h \<longleftrightarrow> h \<in> set (live_ids v)"

definition registers_stateful :: "(string \<Rightarrow> bool) \<Rightarrow> presence \<Rightarrow> bool" where
  "registers_stateful stateless p =
     (if pr_claimed p \<noteq> [] then True
      else case pr_types p of None \<Rightarrow> True | Some ts \<Rightarrow> \<exists>t \<in> set ts. \<not> stateless t)"

text \<open>What a suspicion does: nothing, rejoin, or fence and deactivate the types it holds.\<close>

datatype fence_outcome = Ignored | Rejoins | Fences "string list"

definition claimed_types :: "string list \<Rightarrow> string list" where
  "claimed_types ids = remdups (List.map_filter (\<lambda>aid. case index_of nul aid of
      None \<Rightarrow> None | Some i \<Rightarrow> if i > 0 then Some (take i aid) else None) ids)"

text \<open>
  \<open>#fence\<close>. Its one await before the latch is the registry's answer; \<open>#fencing\<close> makes the rest a single
  decision, and is off again at the end.
\<close>

definition fence :: "(string \<Rightarrow> bool) \<Rightarrow> presence \<Rightarrow> fence_outcome \<times> presence" where
  "fence stateless p =
     (if pr_fenced p \<or> pr_fencing p \<or> pr_rejoining p then (Ignored, p)
      else if \<not> registers_stateful stateless p
      then (Rejoins, p\<lparr>pr_rejoining := True, pr_counters := bump N_RejoinAttempts (pr_counters p)\<rparr>)
      else (Fences (claimed_types (pr_claimed p)),
            p\<lparr>pr_fenced := True, pr_counters := bump N_SelfFences (pr_counters p)\<rparr>))"

text \<open>
  \<open>#checkSelfPresence\<close>, given the view announced and what a fresh read answers (\<open>None\<close> when it
  throws): what it did and the state after. The latch \<open>#checkingSelf\<close> is off again at the end.
\<close>

definition check_self_presence ::
  "(string \<Rightarrow> bool) \<Rightarrow> member_view \<Rightarrow> member_view option \<Rightarrow> presence \<Rightarrow> fence_outcome \<times> presence" where
  "check_self_presence stateless v fresh p =
     (if pr_fenced p \<or> pr_checking p then (Ignored, p)
      else if pr_status p \<noteq> Active \<or> \<not> pr_started p then (Ignored, p)
      else if mv_hosts v = [] then (Ignored, p)
      else if in_view v (pr_self p) then (Ignored, p\<lparr>pr_seen_self := True\<rparr>)
      else if \<not> pr_seen_self p then (Ignored, p)
      else (case fresh of
          None \<Rightarrow> (Ignored, p)
        | Some f \<Rightarrow> if mv_hosts f \<noteq> [] \<and> \<not> in_view f (pr_self p) then fence stateless p else (Ignored, p)))"

definition rejoin_backoff :: "nat \<Rightarrow> nat" where
  "rejoin_backoff attempt = min 30000 (500 * 2 ^ min attempt 6)"

text \<open>
  The rejoin loop, with whether \<open>stop()\<close> has begun at the top of an attempt and after its join, and
  whether the join succeeds. The events in order; \<open>Some True\<close> is back in, \<open>Some False\<close> stopped.
\<close>

datatype rejoin_event = RJ_Leave | RJ_Join bool | RJ_Wait nat

fun rejoin_loop ::
  "(nat \<Rightarrow> bool) \<Rightarrow> (nat \<Rightarrow> bool) \<Rightarrow> (nat \<Rightarrow> bool) \<Rightarrow> nat \<Rightarrow> nat \<Rightarrow> rejoin_event list \<times> bool option" where
  "rejoin_loop stop_before joins stop_after 0 attempt = ([], None)"
| "rejoin_loop stop_before joins stop_after (Suc fuel) attempt =
     (if stop_before attempt then ([], Some False)
      else if joins attempt then
        (if stop_after attempt then ([RJ_Leave, RJ_Join True, RJ_Leave], Some False)
         else ([RJ_Leave, RJ_Join True], Some True))
      else if stop_after attempt then ([RJ_Leave, RJ_Join False], Some False)
      else (let (evs, r) = rejoin_loop stop_before joins stop_after fuel (Suc attempt) in
        (RJ_Leave # RJ_Join False # RJ_Wait (rejoin_backoff attempt) # evs, r)))"

text \<open>\<open>#rejoin\<close> once its latch is set: the loop, and what its end does to the state.\<close>

definition rejoin ::
  "(nat \<Rightarrow> bool) \<Rightarrow> (nat \<Rightarrow> bool) \<Rightarrow> (nat \<Rightarrow> bool) \<Rightarrow> nat \<Rightarrow> presence \<Rightarrow> (rejoin_event list \<times> presence) option" where
  "rejoin stop_before joins stop_after fuel p =
     (case rejoin_loop stop_before joins stop_after fuel 0 of
        (evs, None) \<Rightarrow> None
      | (evs, Some True) \<Rightarrow> Some (evs, p\<lparr>pr_rejoining := False, pr_seen_self := False,
            pr_counters := bump N_Rejoins (pr_counters p)\<rparr>)
      | (evs, Some False) \<Rightarrow> Some (evs, p\<lparr>pr_rejoining := False\<rparr>))"

lemma rejoin_backoff_bounds: "500 \<le> rejoin_backoff n \<and> rejoin_backoff n \<le> 30000"
proof -
  have "(1::nat) \<le> 2 ^ min n 6" by (rule one_le_power) simp
  then show ?thesis by (simp add: rejoin_backoff_def)
qed

text \<open>Registered after these events, starting registered or not; the last join or leave decides.\<close>

definition registered_after :: "bool \<Rightarrow> rejoin_event list \<Rightarrow> bool" where
  "registered_after reg evs = fold (\<lambda>ev b. case ev of RJ_Leave \<Rightarrow> False | RJ_Join ok \<Rightarrow> ok | RJ_Wait _ \<Rightarrow> b) evs reg"

lemma registered_after_Cons [simp]:
  "registered_after reg [] = reg"
  "registered_after reg (RJ_Leave # evs) = registered_after False evs"
  "registered_after reg (RJ_Join ok # evs) = registered_after ok evs"
  "registered_after reg (RJ_Wait n # evs) = registered_after reg evs"
  by (simp_all add: registered_after_def)

lemma rejoin_loop_returns:
  "attempt \<le> n \<Longrightarrow> n - attempt < fuel \<Longrightarrow> stop_before n \<or> joins n \<or> stop_after n
     \<Longrightarrow> snd (rejoin_loop stop_before joins stop_after fuel attempt) \<noteq> None"
proof (induction fuel arbitrary: attempt)
  case (Suc fuel)
  then show ?case by (cases "attempt = n") (auto simp: split_def Let_def)
qed simp

lemma rejoin_loop_registered:
  "rejoin_loop sb js sa fuel attempt = (evs, Some b) \<Longrightarrow> (b \<or> \<not> reg \<or> evs \<noteq> []) \<Longrightarrow> registered_after reg evs = b"
proof (induction fuel arbitrary: attempt evs reg)
  case (Suc fuel)
  then show ?case by (auto simp: Let_def split: if_splits prod.splits)
qed simp

lemma rejoin_loop_leaves_first:
  "rejoin_loop sb js sa fuel attempt = (evs, r) \<Longrightarrow> i < length evs \<Longrightarrow> evs ! i = RJ_Join ok
     \<Longrightarrow> i > 0 \<and> evs ! (i - 1) = RJ_Leave"
proof (induction fuel arbitrary: attempt evs i)
  case (Suc fuel)
  show ?case
  proof (cases "sb attempt \<or> js attempt \<or> sa attempt")
    case True
    with Suc.prems show ?thesis
      by (auto simp: nth_Cons split: if_splits nat.splits)
  next
    case False
    then obtain evs' where e: "rejoin_loop sb js sa fuel (Suc attempt) = (evs', r)"
      "evs = RJ_Leave # RJ_Join False # RJ_Wait (rejoin_backoff attempt) # evs'"
      using Suc.prems(1) by (auto split: prod.splits)
    consider "i = 0" | "i = 1" | "i = 2" | k where "i = Suc (Suc (Suc k))"
      by (metis One_nat_def Suc_1 not0_implies_Suc)
    then show ?thesis
    proof cases
      case (4 k)
      then have "k < length evs'" "evs' ! k = RJ_Join ok" using Suc.prems e(2) by auto
      from Suc.IH [OF e(1) this] 4 e(2) show ?thesis by (cases k) auto
    qed (use Suc.prems e(2) in auto)
  qed
qed simp

lemma rejoin_loop_waits: "rejoin_loop sb js sa fuel attempt = (evs, r) \<Longrightarrow> RJ_Wait ms \<in> set evs \<Longrightarrow> ms \<le> 30000"
proof (induction fuel arbitrary: attempt evs)
  case (Suc fuel)
  then show ?case using rejoin_backoff_bounds [of attempt] by (auto split: if_splits prod.splits)
qed simp

lemma rejoin_loop_joined:
  "rejoin_loop sb js sa fuel attempt = (evs, Some True) \<Longrightarrow> \<exists>k < attempt + fuel. js k \<and> \<not> sa k \<and> \<not> sb k"
proof (induction fuel arbitrary: attempt evs)
  case (Suc fuel)
  show ?case
  proof (cases "sb attempt \<or> js attempt \<or> sa attempt")
    case True
    with Suc.prems show ?thesis by (intro exI [of _ attempt]) (auto split: if_splits)
  next
    case False
    with Suc.prems obtain evs' where "rejoin_loop sb js sa fuel (Suc attempt) = (evs', Some True)"
      by (auto split: prod.splits)
    from Suc.IH [OF this] show ?thesis by simp
  qed
qed simp

text \<open>
  Rejoining is safe and ends: it returns as soon as some attempt joins or finds the host stopping
  (that many attempts are enough), every join is right behind a leave, no wait is longer than
  thirty seconds, and a host that was stopping is never left registered: whatever join landed
  behind \<open>stop()\<close> is undone and not counted.
\<close>

theorem rejoin_never_outlives_stop:
  assumes "\<not> sb 0" and "sb n \<or> js n \<or> sa n" and "n < fuel"
  shows "\<exists>evs p'. rejoin sb js sa fuel p = Some (evs, p') \<and> \<not> pr_rejoining p'
     \<and> registered_after True evs = (pr_counters p' N_Rejoins = Suc (pr_counters p N_Rejoins))
     \<and> (registered_after True evs \<longrightarrow> \<not> pr_seen_self p' \<and> (\<exists>k < fuel. js k \<and> \<not> sa k \<and> \<not> sb k))
     \<and> (\<forall>ms. RJ_Wait ms \<in> set evs \<longrightarrow> ms \<le> 30000)
     \<and> (\<forall>i < length evs. (\<exists>ok. evs ! i = RJ_Join ok) \<longrightarrow> i > 0 \<and> evs ! (i - 1) = RJ_Leave)"
proof -
  obtain evs b where l: "rejoin_loop sb js sa fuel 0 = (evs, Some b)"
    using rejoin_loop_returns [of 0 n fuel sb js sa] assms by (cases "rejoin_loop sb js sa fuel 0") auto
  have ne: "evs \<noteq> []"
    using l assms(1,3) by (cases fuel) (auto split: if_splits prod.splits)
  have reg: "registered_after True evs = b" by (rule rejoin_loop_registered [OF l]) (simp add: ne)
  show ?thesis
    using l reg rejoin_loop_leaves_first [OF l] rejoin_loop_waits [OF l] rejoin_loop_joined [of sb js sa fuel 0 evs]
    by (cases b) (auto simp: rejoin_def bump_def)
qed

theorem rejoin_never_outlives_stop_witness:
  "\<exists>evs p'. rejoin (\<lambda>_. False) (\<lambda>n. n = 2) (\<lambda>_. True) 5
      \<lparr>pr_self = ''s.a'', pr_fenced = False, pr_fencing = False, pr_rejoining = True, pr_checking = False,
       pr_status = Active, pr_started = True, pr_seen_self = True, pr_claimed = [], pr_types = Some [],
       pr_counters = create_counters\<rparr> = Some (evs, p') \<and> \<not> pr_rejoining p'"
  using rejoin_never_outlives_stop [of "\<lambda>_. False" 2 "\<lambda>n. n = 2" "\<lambda>_. True" 5
      "\<lparr>pr_self = ''s.a'', pr_fenced = False, pr_fencing = False, pr_rejoining = True, pr_checking = False,
       pr_status = Active, pr_started = True, pr_seen_self = True, pr_claimed = [], pr_types = Some [],
       pr_counters = create_counters\<rparr>"]
  by simp blast

text \<open>
  Self-fencing needs positive evidence. The presence check acts only when this host had seen
  itself, an announced non-empty view omits it and a fresh non-empty read omits it too: an
  empty or failed read never fences. What it then does fences for good a host that may hold a
  claim; one that holds none and registers stateless workers alone rejoins and stays unfenced.
\<close>

theorem fence_needs_evidence:
  assumes "check_self_presence stateless v fresh p = (out, p')" and "\<not> pr_fencing p" "\<not> pr_rejoining p"
  shows "(out \<noteq> Ignored \<longleftrightarrow>
           \<not> pr_fenced p \<and> \<not> pr_checking p \<and> pr_status p = Active \<and> pr_started p \<and> pr_seen_self p
            \<and> mv_hosts v \<noteq> [] \<and> \<not> in_view v (pr_self p)
            \<and> (\<exists>f. fresh = Some f \<and> mv_hosts f \<noteq> [] \<and> \<not> in_view f (pr_self p)))
         \<and> (out = Rejoins \<longrightarrow> pr_claimed p = [] \<and> (\<exists>ts. pr_types p = Some ts \<and> (\<forall>t \<in> set ts. stateless t)))
         \<and> (pr_fenced p' \<longleftrightarrow> pr_fenced p \<or> (\<exists>ts. out = Fences ts))
         \<and> (pr_seen_self p \<longrightarrow> pr_seen_self p')"
  using assms by (auto simp: check_self_presence_def fence_def registers_stateful_def split: option.splits if_splits)

theorem fence_needs_evidence_witness:
  "fst (check_self_presence (\<lambda>_. False) \<lparr>mv_version = 1, mv_hosts = [host_named ''s.b'']\<rparr>
      (Some \<lparr>mv_version = 2, mv_hosts = [host_named ''s.b'']\<rparr>)
      \<lparr>pr_self = ''s.a'', pr_fenced = False, pr_fencing = False, pr_rejoining = False, pr_checking = False,
       pr_status = Active, pr_started = True, pr_seen_self = True, pr_claimed = [], pr_types = Some [''cart''],
       pr_counters = create_counters\<rparr>) \<noteq> Ignored"
proof -
  let ?v = "\<lparr>mv_version = 1, mv_hosts = [host_named ''s.b'']\<rparr>"
  let ?f = "\<lparr>mv_version = 2, mv_hosts = [host_named ''s.b'']\<rparr>"
  let ?p = "\<lparr>pr_self = ''s.a'', pr_fenced = False, pr_fencing = False, pr_rejoining = False, pr_checking = False,
       pr_status = Active, pr_started = True, pr_seen_self = True, pr_claimed = [], pr_types = Some [''cart''],
       pr_counters = create_counters\<rparr>"
  obtain out p' where c: "check_self_presence (\<lambda>_. False) ?v (Some ?f) ?p = (out, p')" by (rule prod.exhaust)
  from fence_needs_evidence [OF c] have "out \<noteq> Ignored" by (simp add: in_view_def live_ids_def host_named_def)
  with c show ?thesis by simp
qed

subsection \<open>Rebalancing\<close>

record activation_info =
  ai_type :: string
  ai_key :: string
  ai_kept_alive :: bool
  ai_queued :: nat
  ai_idle_ms :: int

record rebalance_report =
  rr_own :: nat
  rr_peers :: nat
  rr_mean :: rat
  rr_moved :: nat
  rr_reason :: "string option"

text \<open>The candidates of a round: idlest first, up to the budget, skipping what is busy or stateless.\<close>

fun pick_candidates :: "nat \<Rightarrow> int \<Rightarrow> (string \<Rightarrow> bool) \<Rightarrow> activation_info list \<Rightarrow> activation_info list" where
  "pick_candidates budget min_idle stateless [] = []"
| "pick_candidates budget min_idle stateless (a # rest) =
     (if budget = 0 then []
      else if ai_kept_alive a \<or> ai_queued a \<noteq> 0 \<or> ai_idle_ms a < min_idle then pick_candidates budget min_idle stateless rest
      else if stateless (ai_type a) then pick_candidates budget min_idle stateless rest
      else a # pick_candidates (budget - 1) min_idle stateless rest)"

definition mean_load :: "nat \<Rightarrow> nat list \<Rightarrow> rat" where
  "mean_load own answers = of_nat (own + sum_list answers) / of_nat (1 + length answers)"

text \<open>
  A round: \<open>answers\<close> are the loads of the peers that replied, \<open>idlest\<close> the listing the host gives for
  a limit, \<open>migrates\<close> whether draining one succeeds.
\<close>

definition rebalance ::
  "bool \<Rightarrow> nat \<Rightarrow> nat list \<Rightarrow> rat \<Rightarrow> nat \<Rightarrow> int \<Rightarrow> (nat \<Rightarrow> activation_info list) \<Rightarrow> (string \<Rightarrow> bool)
     \<Rightarrow> (activation_info \<Rightarrow> bool) \<Rightarrow> counters \<Rightarrow> rebalance_report \<times> counters" where
  "rebalance active own answers threshold max_moves0 min_idle idlest stateless migrates c =
     (let max_moves = max 1 max_moves0 in
      if \<not> active
      then (\<lparr>rr_own = 0, rr_peers = 0, rr_mean = 0, rr_moved = 0, rr_reason = Some ''not-active''\<rparr>, c)
      else let c1 = bump N_RebalanceRounds c; peers = length answers in
      if answers = []
      then (\<lparr>rr_own = own, rr_peers = 0, rr_mean = of_nat own, rr_moved = 0, rr_reason = Some ''no-peers''\<rparr>, c1)
      else let mean = mean_load own answers in
      if of_nat own \<le> threshold * mean \<or> of_nat own - mean < 1
      then (\<lparr>rr_own = own, rr_peers = peers, rr_mean = mean, rr_moved = 0, rr_reason = Some ''balanced''\<rparr>, c1)
      else let budget = min max_moves (nat \<lfloor>of_nat own - mean\<rfloor>);
               candidates = pick_candidates budget min_idle stateless (idlest (max_moves * 4)) in
      if candidates = []
      then (\<lparr>rr_own = own, rr_peers = peers, rr_mean = mean, rr_moved = 0, rr_reason = Some ''no-candidates''\<rparr>, c1)
      else let moved = length (filter migrates candidates) in
        (\<lparr>rr_own = own, rr_peers = peers, rr_mean = mean, rr_moved = moved, rr_reason = None\<rparr>,
         c1(N_RebalanceMigrations := c1 N_RebalanceMigrations + moved)))"

lemma pick_candidates_length: "length (pick_candidates b mi st as) \<le> b"
proof (induction b mi st as rule: pick_candidates.induct)
  case (2 budget mi st a rest)
  then show ?case by auto
qed simp

lemma pick_candidates_idle: "a \<in> set (pick_candidates b mi st as) \<Longrightarrow>
    a \<in> set as \<and> \<not> ai_kept_alive a \<and> ai_queued a = 0 \<and> mi \<le> ai_idle_ms a \<and> \<not> st (ai_type a)"
  by (induction b mi st as rule: pick_candidates.induct) (auto split: if_splits)

text \<open>
  A rebalance round is a bounded correction: it moves at most \<open>maxMoves\<close> actors, never takes the host
  below the mean of the loads that were answered, and moves nothing at all when no peer
  answered or the host is not active.
\<close>

theorem rebalance_never_overshoots:
  assumes "rebalance active own answers threshold mm mi idlest st mig c = (rep, c')"
  shows "rr_moved rep \<le> max 1 mm
         \<and> (rr_moved rep > 0 \<longrightarrow> active \<and> answers \<noteq> []
              \<and> of_nat (own - rr_moved rep) \<ge> mean_load own answers
              \<and> of_nat own > threshold * rr_mean rep)
         \<and> c' N_RebalanceMigrations = c N_RebalanceMigrations + rr_moved rep"
proof -
  let ?mean = "mean_load own answers"
  let ?b = "min (max 1 mm) (nat \<lfloor>of_nat own - ?mean\<rfloor>)"
  let ?cs = "pick_candidates ?b mi st (idlest (max 1 mm * 4))"
  consider "rr_moved rep = 0" "c' N_RebalanceMigrations = c N_RebalanceMigrations"
    | "active" "answers \<noteq> []" "of_nat own > threshold * ?mean" "of_nat own - ?mean \<ge> 1" "rr_mean rep = ?mean"
      "rr_moved rep = length (filter mig ?cs)" "c' N_RebalanceMigrations = c N_RebalanceMigrations + rr_moved rep"
  proof (cases "active \<and> answers \<noteq> [] \<and> \<not> (of_nat own \<le> threshold * ?mean \<or> of_nat own - ?mean < 1) \<and> ?cs \<noteq> []")
    case True
    then have "rep = \<lparr>rr_own = own, rr_peers = length answers, rr_mean = ?mean, rr_moved = length (filter mig ?cs), rr_reason = None\<rparr>"
      "c' = (bump N_RebalanceRounds c)(N_RebalanceMigrations := bump N_RebalanceRounds c N_RebalanceMigrations + length (filter mig ?cs))"
      using assms unfolding rebalance_def Let_def by simp_all
    with True that(2) show ?thesis by (simp add: not_le not_less)
  next
    case False
    then have "rr_moved rep = 0 \<and> c' N_RebalanceMigrations = c N_RebalanceMigrations"
      using assms unfolding rebalance_def Let_def by (auto split: if_splits)
    with that(1) show ?thesis by simp
  qed
  then show ?thesis
  proof cases
    case 2
    have m: "rr_moved rep \<le> ?b"
      using 2(6) pick_candidates_length [of ?b mi st "idlest (max 1 mm * 4)"]
        length_filter_le [of mig ?cs] by linarith
    have "(of_nat (rr_moved rep) :: rat) \<le> of_nat (nat \<lfloor>of_nat own - ?mean\<rfloor>)" using m by simp
    also have "\<dots> \<le> of_nat own - ?mean" using 2(4) by simp
    finally have le: "of_nat (rr_moved rep) \<le> of_nat own - ?mean" .
    have "?mean \<ge> 0" by (simp add: mean_load_def)
    with le have "(of_nat (rr_moved rep) :: rat) \<le> of_nat own" by linarith
    then have "rr_moved rep \<le> own" by (simp only: of_nat_le_iff)
    then have "(of_nat (own - rr_moved rep) :: rat) = of_nat own - of_nat (rr_moved rep)" by (rule of_nat_diff)
    with le have "of_nat (own - rr_moved rep) \<ge> ?mean" by linarith
    moreover have "rr_moved rep \<le> max 1 mm" using m by simp
    ultimately show ?thesis using 2(1-3,5,7) by simp
  qed simp
qed

theorem rebalance_never_overshoots_witness:
  "rr_moved (fst (rebalance True 9 [3] (6 / 5) 10 60000
      (\<lambda>_. [\<lparr>ai_type = ''cart'', ai_key = ''1'', ai_kept_alive = False, ai_queued = 0, ai_idle_ms = 90000\<rparr>])
      (\<lambda>_. False) (\<lambda>_. True) create_counters)) \<le> 10"
  using rebalance_never_overshoots [OF prod.collapse [symmetric], of True 9 "[3]" "6 / 5" 10 60000
      "\<lambda>_. [\<lparr>ai_type = ''cart'', ai_key = ''1'', ai_kept_alive = False, ai_queued = 0, ai_idle_ms = 90000\<rparr>]"
      "\<lambda>_. False" "\<lambda>_. True" create_counters]
  by simp

subsection \<open>The ops surface\<close>

text \<open>A requested limit that is a finite number, clamped to \<open>[0, ceiling]\<close>; anything else is the default.\<close>

definition clamp_request :: "rat option \<Rightarrow> int \<Rightarrow> int \<Rightarrow> int" where
  "clamp_request value fallback ceil =
     (case value of None \<Rightarrow> fallback | Some x \<Rightarrow> max 0 (min ceil \<lfloor>x\<rfloor>))"

lemma clamp_request_bounds: "0 \<le> fallback \<Longrightarrow> fallback \<le> ceil \<Longrightarrow>
    0 \<le> clamp_request x fallback ceil \<and> clamp_request x fallback ceil \<le> ceil"
  by (auto simp: clamp_request_def split: option.splits)

datatype reported_status = Member host_status | Self_Fenced

definition reported_status :: "bool \<Rightarrow> host_status \<Rightarrow> reported_status" where
  "reported_status fenced st = (if fenced then Self_Fenced else Member st)"

text \<open>\<open>counters()\<close>: the gauges are read at the call.\<close>

definition counters_snapshot :: "nat \<Rightarrow> nat \<Rightarrow> counters \<Rightarrow> counters" where
  "counters_snapshot claimed routes c = c(N_Claimed := claimed, N_RouteCacheSize := routes)"

text \<open>\<open>dispatchOn\<close>: where a targeted call goes, or why it is refused.\<close>

datatype targeted = No_Member | Stateful_Type | Run_Local | Send_To host_desc

definition dispatch_on :: "host_desc \<Rightarrow> member_view \<Rightarrow> string \<Rightarrow> bool option \<Rightarrow> counters \<Rightarrow> targeted \<times> counters" where
  "dispatch_on self v host stateless c =
     (case (if host = hd_id self then Some self else member_by_id v host) of
        None \<Rightarrow> (No_Member, c)
      | Some m \<Rightarrow>
          if stateless = Some False then (Stateful_Type, c)
          else (if hd_id m = hd_id self then Run_Local else Send_To m, bump N_TargetedDispatches c))"

end
