(* ===== verification/Frames.thy ===== *)
theory Frames
  imports Prelude "HOL-Library.Word"
begin

section \<open>The frame codec and its incremental reader\<close>

text \<open>
  \<open>cluster/frames.ts\<close>: the twelve-byte header, a frame as bytes with and without the length
  prefix, and \<open>FrameReader\<close>, which keeps the chunks it was pushed and cuts frames across them.
  The payload's JSON text is a parameter: \<open>json\<close> prints it as UTF-8 bytes, \<open>parse\<close> revives it or
  throws. The reader is proved to be a function of the bytes alone.
\<close>

type_synonym byte = "8 word"
type_synonym bytes = "8 word list"

named_theorems frame_simps \<open>the byte layout of a frame\<close>

subsection \<open>Big-endian integers\<close>

definition be16 :: "16 word \<Rightarrow> bytes" where
  "be16 w = [of_nat (unat w div 256), of_nat (unat w)]"

definition be32 :: "32 word \<Rightarrow> bytes" where
  "be32 w = [of_nat (unat w div 2 ^ 24), of_nat (unat w div 2 ^ 16), of_nat (unat w div 2 ^ 8), of_nat (unat w)]"

definition get16 :: "bytes \<Rightarrow> nat \<Rightarrow> 16 word" where
  "get16 bs i = of_nat (unat (bs ! i) * 256 + unat (bs ! (i + 1)))"

definition get32 :: "bytes \<Rightarrow> nat \<Rightarrow> 32 word" where
  "get32 bs i = of_nat (((unat (bs ! i) * 256 + unat (bs ! (i + 1))) * 256 + unat (bs ! (i + 2))) * 256 + unat (bs ! (i + 3)))"

lemma unat_byte: "unat (of_nat n :: byte) = n mod 256"
  by (simp add: unat_of_nat take_bit_eq_mod)

lemma length_be [frame_simps, simp]: "length (be16 s) = 2" "length (be32 w) = 4"
  by (simp_all add: be16_def be32_def)

lemma get16_be16: "get16 (be16 w) 0 = w"
proof -
  have "unat w < 65536" using unsigned_less [of w] by simp
  then have e: "unat (of_nat (unat w div 256) :: byte) * 256 + unat (of_nat (unat w) :: byte) = unat w"
    unfolding unat_byte by simp
  have "get16 (be16 w) 0 = of_nat (unat (of_nat (unat w div 256) :: byte) * 256 + unat (of_nat (unat w) :: byte))"
    by (simp only: get16_def be16_def) simp
  also have "\<dots> = w" unfolding e by simp
  finally show ?thesis .
qed

lemma base256: "n < 2 ^ 32 \<Longrightarrow>
    ((n div 2 ^ 24 mod 256 * 256 + n div 2 ^ 16 mod 256) * 256 + n div 2 ^ 8 mod 256) * 256 + n mod 256 = n" for n :: nat
proof -
  assume n: "n < 2 ^ 32"
  have d: "n div 2 ^ 16 = n div 256 div 256" "n div 2 ^ 24 = n div 256 div 256 div 256"
    by (simp_all add: div_mult2_eq [symmetric])
  have "n div 256 div 256 div 256 < 256" using n by simp
  then have "(n div 256 div 256 div 256 mod 256 * 256 + n div 256 div 256 mod 256) = n div 256 div 256"
    by simp
  then show ?thesis unfolding d by simp
qed

lemma get32_be32: "get32 (be32 w) 0 = w"
proof -
  have n: "unat w < 2 ^ 32" using unsigned_less [of w] by simp
  have e: "((unat (of_nat (unat w div 2 ^ 24) :: byte) * 256 + unat (of_nat (unat w div 2 ^ 16) :: byte)) * 256
      + unat (of_nat (unat w div 2 ^ 8) :: byte)) * 256 + unat (of_nat (unat w) :: byte) = unat w"
    unfolding unat_byte by (rule base256 [OF n])
  have "get32 (be32 w) 0 = of_nat (((unat (of_nat (unat w div 2 ^ 24) :: byte) * 256
      + unat (of_nat (unat w div 2 ^ 16) :: byte)) * 256 + unat (of_nat (unat w div 2 ^ 8) :: byte)) * 256
      + unat (of_nat (unat w) :: byte))"
    by (simp only: get32_def be32_def) simp
  also have "\<dots> = w" unfolding e by simp
  finally show ?thesis .
qed

lemma get_shift: "get16 (xs @ bs) (length xs + i) = get16 bs i" "get32 (xs @ bs) (length xs + i) = get32 bs i"
  by (simp_all add: get16_def get32_def nth_append)

lemma get_prefix: "i + 1 < length bs \<Longrightarrow> get16 (bs @ ys) i = get16 bs i" "i + 3 < length bs \<Longrightarrow> get32 (bs @ ys) i = get32 bs i"
  by (simp_all add: get16_def get32_def nth_append)

subsection \<open>One frame\<close>

definition header_bytes :: nat where
  "header_bytes = 8"

definition t_HELLO :: byte where "t_HELLO = 0x01"
definition t_WELCOME :: byte where "t_WELCOME = 0x02"
definition t_CALL :: byte where "t_CALL = 0x10"
definition t_REPLY :: byte where "t_REPLY = 0x11"
definition t_CHUNK :: byte where "t_CHUNK = 0x12"
definition t_END :: byte where "t_END = 0x13"
definition t_ERROR :: byte where "t_ERROR = 0x14"
definition t_CANCEL :: byte where "t_CANCEL = 0x15"
definition t_CREDIT :: byte where "t_CREDIT = 0x16"
definition t_PING :: byte where "t_PING = 0x20"
definition t_PONG :: byte where "t_PONG = 0x21"
definition t_GOAWAY :: byte where "t_GOAWAY = 0x7F"
definition flag_stream :: byte where "flag_stream = 0x01"

record 'v frame =
  fr_type :: byte
  fr_flags :: byte
  fr_status :: "16 word"
  fr_corr :: "32 word"
  fr_payload :: "'v option"

datatype frame_error = Short_Frame nat | Bad_Payload | Frame_Too_Large nat

definition encode_frame_body :: "('v \<Rightarrow> bytes) \<Rightarrow> 'v frame \<Rightarrow> bytes" where
  "encode_frame_body json f =
     fr_type f # fr_flags f # be16 (fr_status f) @ be32 (fr_corr f)
       @ (case fr_payload f of None \<Rightarrow> [] | Some v \<Rightarrow> json v)"

definition encode_frame :: "('v \<Rightarrow> bytes) \<Rightarrow> 'v frame \<Rightarrow> bytes" where
  "encode_frame json f = (let body = encode_frame_body json f in be32 (of_nat (length body)) @ body)"

definition decode_frame_body :: "(bytes \<Rightarrow> 'v option) \<Rightarrow> bytes \<Rightarrow> frame_error + 'v frame" where
  "decode_frame_body parse body =
     (if length body < header_bytes then Inl (Short_Frame (length body))
      else let f = \<lparr>fr_type = body ! 0, fr_flags = body ! 1, fr_status = get16 body 2, fr_corr = get32 body 4,
                    fr_payload = None\<rparr> in
        if length body > header_bytes
        then (case parse (drop header_bytes body) of
                None \<Rightarrow> Inl Bad_Payload
              | Some v \<Rightarrow> Inr (f\<lparr>fr_payload := Some v\<rparr>))
        else Inr f)"

text \<open>What the JSON printer and the reviving parser owe each other.\<close>

definition json_inverse :: "('v \<Rightarrow> bytes) \<Rightarrow> (bytes \<Rightarrow> 'v option) \<Rightarrow> bool" where
  "json_inverse json parse \<longleftrightarrow> (\<forall>v. json v \<noteq> [] \<and> parse (json v) = Some v)"

lemma decode_encode_body:
  assumes "json_inverse json parse"
  shows "decode_frame_body parse (encode_frame_body json f) = Inr f"
proof -
  obtain ty fl st co pl where f: "f = \<lparr>fr_type = ty, fr_flags = fl, fr_status = st, fr_corr = co, fr_payload = pl\<rparr>"
    by (cases f)
  let ?p = "case pl of None \<Rightarrow> [] | Some v \<Rightarrow> json v"
  have e: "encode_frame_body json f = ([ty, fl] @ be16 st @ be32 co) @ ?p"
    by (simp add: encode_frame_body_def f)
  have l: "length ([ty, fl] @ be16 st @ be32 co) = header_bytes" by (simp add: header_bytes_def)
  have s: "get16 (([ty, fl] @ be16 st @ be32 co) @ ?p) 2 = st"
    using get_shift(1) [of "[ty, fl]" "be16 st @ be32 co @ ?p" 0] get_prefix(1) [of 0 "be16 st" "be32 co @ ?p"] get16_be16 [of st]
    by (simp add: numeral_2_eq_2)
  have c: "get32 (([ty, fl] @ be16 st @ be32 co) @ ?p) 4 = co"
    using get_shift(2) [of "[ty, fl] @ be16 st" "be32 co @ ?p" 0] get_prefix(2) [of 0 "be32 co" ?p] get32_be32 [of co]
    by (simp add: eval_nat_numeral)
  have d: "drop header_bytes (encode_frame_body json f) = ?p" by (simp add: e l [symmetric])
  have n: "length (encode_frame_body json f) = header_bytes + length ?p" by (simp only: e length_append l [simplified])
     (use l in simp)
  define body where "body = encode_frame_body json f"
  have b: "body ! 0 = ty" "body ! 1 = fl" "get16 body 2 = st" "get32 body 4 = co" "drop header_bytes body = ?p"
    "length body = header_bytes + length ?p"
    using s c d n unfolding body_def [symmetric] by (simp_all add: body_def e)
  show ?thesis
    using assms unfolding body_def [symmetric] decode_frame_body_def b
    by (cases pl) (simp_all add: json_inverse_def f)
qed

subsection \<open>The reader\<close>

record reader =
  rd_chunks :: "bytes list"
  rd_buffered :: nat

definition new_reader :: reader where
  "new_reader = \<lparr>rd_chunks = [], rd_buffered = 0\<rparr>"

definition reader_push :: "bytes \<Rightarrow> reader \<Rightarrow> reader" where
  "reader_push c r = \<lparr>rd_chunks = rd_chunks r @ [c], rd_buffered = rd_buffered r + length c\<rparr>"

definition reader_coalesce :: "reader \<Rightarrow> reader" where
  "reader_coalesce r = r\<lparr>rd_chunks := [concat (rd_chunks r)]\<rparr>"

definition reader_peek :: "nat \<Rightarrow> reader \<Rightarrow> bytes \<times> reader" where
  "reader_peek n r =
     (if length (hd (rd_chunks r)) \<ge> n then (take n (hd (rd_chunks r)), r)
      else (take n (hd (rd_chunks (reader_coalesce r))), reader_coalesce r))"

fun skip_chunks :: "nat \<Rightarrow> bytes list \<Rightarrow> bytes list" where
  "skip_chunks n [] = []"
| "skip_chunks n (c # cs) =
     (if n = 0 then c # cs
      else if length c \<le> n then skip_chunks (n - length c) cs
      else drop n c # cs)"

definition reader_skip :: "nat \<Rightarrow> reader \<Rightarrow> reader" where
  "reader_skip n r = \<lparr>rd_chunks = skip_chunks n (rd_chunks r), rd_buffered = rd_buffered r - n\<rparr>"

definition reader_take :: "nat \<Rightarrow> reader \<Rightarrow> bytes \<times> reader" where
  "reader_take n r =
     (if n = 0 then ([], r)
      else if length (hd (rd_chunks r)) \<ge> n then (take n (hd (rd_chunks r)), reader_skip n r)
      else (let r' = reader_coalesce r in (take n (hd (rd_chunks r')), reader_skip n r')))"

text \<open>
  \<open>drain\<close>: the frames it yields before it returns or throws. The fuel is the number of buffered
  bytes, of which every frame takes at least four.
\<close>

fun reader_drain :: "nat \<Rightarrow> nat \<Rightarrow> (bytes \<Rightarrow> 'v option) \<Rightarrow> reader \<Rightarrow> 'v frame list \<times> frame_error option \<times> reader" where
  "reader_drain fuel mx parse r =
     (if rd_buffered r < 4 then ([], None, r)
      else let (header, r1) = reader_peek 4 r; len = unat (get32 header 0) in
        if len > mx then ([], Some (Frame_Too_Large len), r1)
        else if rd_buffered r1 < 4 + len then ([], None, r1)
        else let (body, r2) = reader_take len (reader_skip 4 r1) in
          (case decode_frame_body parse body of
             Inl e \<Rightarrow> ([], Some e, r2)
           | Inr f \<Rightarrow>
               (case fuel of
                  0 \<Rightarrow> ([f], None, r2)
                | Suc n \<Rightarrow> let (fs, e, r3) = reader_drain n mx parse r2 in (f # fs, e, r3))))"

declare reader_drain.simps [simp del]

subsection \<open>The bytes a reader holds\<close>

definition reader_bytes :: "reader \<Rightarrow> bytes" where
  "reader_bytes r = concat (rd_chunks r)"

definition reader_ok :: "reader \<Rightarrow> bool" where
  "reader_ok r \<longleftrightarrow> rd_buffered r = length (reader_bytes r)"

lemma reader_push_bytes: "reader_ok r \<Longrightarrow> reader_ok (reader_push c r) \<and> reader_bytes (reader_push c r) = reader_bytes r @ c"
  by (simp add: reader_ok_def reader_bytes_def reader_push_def)

lemma reader_coalesce_bytes:
  "reader_bytes (reader_coalesce r) = reader_bytes r" "rd_buffered (reader_coalesce r) = rd_buffered r"
  "hd (rd_chunks (reader_coalesce r)) = reader_bytes r"
  by (simp_all add: reader_bytes_def reader_coalesce_def)

lemma take_hd_concat: "n \<le> length (hd cs) \<Longrightarrow> cs \<noteq> [] \<Longrightarrow> take n (hd cs) = take n (concat cs)"
  by (cases cs) auto

lemma reader_peek_bytes:
  assumes "reader_ok r" "0 < n" "n \<le> rd_buffered r" "reader_peek n r = (p, r')"
  shows "p = take n (reader_bytes r) \<and> reader_ok r' \<and> reader_bytes r' = reader_bytes r \<and> rd_buffered r' = rd_buffered r"
proof -
  have "rd_chunks r \<noteq> []" using assms(1-3) by (auto simp: reader_ok_def reader_bytes_def)
  then show ?thesis
    using assms take_hd_concat [of n "rd_chunks r"]
    by (auto simp: reader_peek_def reader_coalesce_bytes reader_ok_def split: if_splits) (simp add: reader_bytes_def)
qed

lemma skip_chunks_concat: "concat (skip_chunks n cs) = drop n (concat cs)"
  by (induction n cs rule: skip_chunks.induct) auto

lemma reader_skip_bytes:
  "reader_ok r \<Longrightarrow> reader_ok (reader_skip n r) \<and> reader_bytes (reader_skip n r) = drop n (reader_bytes r)"
  by (simp add: reader_ok_def reader_bytes_def reader_skip_def skip_chunks_concat)

lemma reader_take_bytes:
  assumes "reader_ok r" "n \<le> rd_buffered r" "reader_take n r = (b, r')"
  shows "b = take n (reader_bytes r) \<and> reader_ok r' \<and> reader_bytes r' = drop n (reader_bytes r)"
proof (cases "n = 0")
  case False
  then have ne: "rd_chunks r \<noteq> []" using assms(1,2) by (auto simp: reader_ok_def reader_bytes_def)
  have ok: "reader_ok (reader_coalesce r)" using assms(1) by (simp add: reader_ok_def reader_coalesce_bytes)
  show ?thesis
    using assms False take_hd_concat [OF _ ne, of n] reader_skip_bytes [OF assms(1), of n] reader_skip_bytes [OF ok, of n]
    by (auto simp: reader_take_def Let_def reader_coalesce_bytes split: if_splits) (simp add: reader_bytes_def)
qed (use assms in \<open>auto simp: reader_take_def\<close>)

subsection \<open>The specification: cutting a byte string\<close>

function cut :: "nat \<Rightarrow> (bytes \<Rightarrow> 'v option) \<Rightarrow> bytes \<Rightarrow> 'v frame list \<times> frame_error option \<times> bytes" where
  "cut mx parse bs =
     (if length bs < 4 then ([], None, bs)
      else let len = unat (get32 bs 0) in
        if len > mx then ([], Some (Frame_Too_Large len), bs)
        else if length bs < 4 + len then ([], None, bs)
        else (case decode_frame_body parse (take len (drop 4 bs)) of
             Inl e \<Rightarrow> ([], Some e, drop (4 + len) bs)
           | Inr f \<Rightarrow> let (fs, e, rest) = cut mx parse (drop (4 + len) bs) in (f # fs, e, rest)))"
  by pat_completeness auto
termination by (relation "measure (\<lambda>(_, _, bs). length bs)") auto

declare cut.simps [simp del]

lemma reader_drain_cut:
  "reader_ok r \<Longrightarrow> rd_buffered r \<le> fuel \<Longrightarrow> reader_drain fuel mx parse r = (fs, e, r')
     \<Longrightarrow> cut mx parse (reader_bytes r) = (fs, e, reader_bytes r') \<and> reader_ok r'"
proof (induction fuel arbitrary: r fs e r')
  case 0
  then show ?case by (simp add: reader_drain.simps reader_ok_def cut.simps)
next
  case (Suc n)
  have len: "rd_buffered r = length (reader_bytes r)" using Suc.prems(1) by (simp add: reader_ok_def)
  show ?case
  proof (cases "rd_buffered r < 4")
    case True
    then show ?thesis using Suc.prems len by (simp add: reader_drain.simps cut.simps)
  next
    case False
    obtain header r1 where pk: "reader_peek 4 r = (header, r1)" by force
    have r1: "header = take 4 (reader_bytes r)" "reader_ok r1" "reader_bytes r1 = reader_bytes r" "rd_buffered r1 = rd_buffered r"
      using reader_peek_bytes [OF Suc.prems(1) _ _ pk] False by auto
    let ?len = "unat (get32 header 0)"
    have g: "get32 header 0 = get32 (reader_bytes r) 0"
      using False len by (simp add: r1(1) get32_def)
    show ?thesis
    proof (cases "?len > mx \<or> rd_buffered r < 4 + ?len")
      case True
      then show ?thesis using Suc.prems False pk r1 g len
        by (subst cut.simps) (auto simp: reader_drain.simps Let_def)
    next
      case nb: False
      obtain body r2 where tk: "reader_take ?len (reader_skip 4 r1) = (body, r2)" by force
      have sk: "reader_ok (reader_skip 4 r1)" "reader_bytes (reader_skip 4 r1) = drop 4 (reader_bytes r)"
        using reader_skip_bytes [OF r1(2), of 4] r1 by auto
      have lb: "?len \<le> rd_buffered (reader_skip 4 r1)" using nb r1(4) by (auto simp: reader_skip_def)
      have r2: "body = take ?len (drop 4 (reader_bytes r))" "reader_ok r2" "reader_bytes r2 = drop (4 + ?len) (reader_bytes r)"
        using reader_take_bytes [OF sk(1) lb tk] sk(2) by (auto simp: add.commute)
      show ?thesis
      proof (cases "decode_frame_body parse body")
        case (Inl err)
        then show ?thesis using Suc.prems False nb pk r1 g len tk r2
          by (subst cut.simps) (auto simp: reader_drain.simps Let_def)
      next
        case (Inr f)
        obtain fs3 e3 r3 where rec: "reader_drain n mx parse r2 = (fs3, e3, r3)" by (rule prod_cases3)
        have "rd_buffered r2 \<le> n" using r2 len Suc.prems(2) nb False by (auto simp: reader_ok_def)
        from Suc.IH [OF r2(2) this rec] Inr show ?thesis
          using Suc.prems(3) False nb pk r1 g len tk r2 rec
          by (subst cut.simps) (auto simp: reader_drain.simps [of "Suc n"] Let_def)
      qed
    qed
  qed
qed

lemma cut_append:
  "cut mx parse (a @ b) = (case cut mx parse a of
       (fs, Some e, rest) \<Rightarrow> (fs, Some e, rest @ b)
     | (fs, None, rest) \<Rightarrow> (let (fs', e, rest') = cut mx parse (rest @ b) in (fs @ fs', e, rest')))"
proof (induction mx parse a rule: cut.induct)
  case (1 mx parse a)
  let ?len = "unat (get32 a 0)"
  show ?case
  proof (cases "length a < 4")
    case True
    then show ?thesis by (simp add: cut.simps [of mx parse a] split_def Let_def)
  next
    case a4: False
    then have g: "get32 (a @ b) 0 = get32 a 0" by (auto simp: get32_def nth_append)
    show ?thesis
    proof (cases "?len > mx")
      case True
      then show ?thesis using a4 g by (simp add: cut.simps [of mx parse a] cut.simps [of mx parse "a @ b"])
    next
      case mx: False
      show ?thesis
      proof (cases "length a < 4 + ?len")
        case True
        then show ?thesis using a4 mx by (simp add: cut.simps [of mx parse a] split_def Let_def)
      next
        case full: False
        have t: "take ?len (drop 4 (a @ b)) = take ?len (drop 4 a)" "drop (4 + ?len) (a @ b) = drop (4 + ?len) a @ b"
          using full by simp_all
        show ?thesis
        proof (cases "decode_frame_body parse (take ?len (drop 4 a))")
          case (Inl e)
          then show ?thesis using a4 mx full g t
            by (simp add: cut.simps [of mx parse a] cut.simps [of mx parse "a @ b"])
        next
          case (Inr f)
          note ih = "1.IH" [OF a4 refl mx full Inr]
          have "cut mx parse (a @ b) = (let (fs, e, rest) = cut mx parse (drop (4 + ?len) a @ b) in (f # fs, e, rest))"
            using a4 mx full g t Inr by (subst cut.simps) (simp add: Let_def)
          moreover have "cut mx parse a = (let (fs, e, rest) = cut mx parse (drop (4 + ?len) a) in (f # fs, e, rest))"
            using a4 mx full Inr by (subst cut.simps) (simp add: Let_def)
          ultimately show ?thesis using ih by (simp add: split_def Let_def split: option.splits)
        qed
      qed
    qed
  qed
qed

text \<open>A transport feeds what arrives, draining after each chunk, until an error ends the connection.\<close>

fun feed :: "nat \<Rightarrow> (bytes \<Rightarrow> 'v option) \<Rightarrow> bytes list \<Rightarrow> reader \<Rightarrow> 'v frame list \<times> frame_error option \<times> reader" where
  "feed mx parse [] r = ([], None, r)"
| "feed mx parse (c # cs) r =
     (let r1 = reader_push c r; (fs, e, r2) = reader_drain (rd_buffered r1) mx parse r1 in
      case e of
        Some _ \<Rightarrow> (fs, e, r2)
      | None \<Rightarrow> let (fs', e', r3) = feed mx parse cs r2 in (fs @ fs', e', r3))"

lemma feed_cut:
  "reader_ok r \<Longrightarrow> cut mx parse (reader_bytes r) = ([], None, reader_bytes r) \<Longrightarrow> feed mx parse cs r = (fs, e, r') \<Longrightarrow>
     fst (cut mx parse (reader_bytes r @ concat cs)) = fs
     \<and> fst (snd (cut mx parse (reader_bytes r @ concat cs))) = e
     \<and> (e = None \<longrightarrow> snd (snd (cut mx parse (reader_bytes r @ concat cs))) = reader_bytes r')"
proof (induction cs arbitrary: r fs e r')
  case (Cons c cs)
  obtain fs1 e1 r1 where d: "reader_drain (rd_buffered (reader_push c r)) mx parse (reader_push c r) = (fs1, e1, r1)"
    by (rule prod_cases3)
  have p: "reader_ok (reader_push c r)" "reader_bytes (reader_push c r) = reader_bytes r @ c"
    using reader_push_bytes [OF Cons.prems(1)] by auto
  have D: "cut mx parse (reader_bytes r @ c) = (fs1, e1, reader_bytes r1)" "reader_ok r1"
    using reader_drain_cut [OF p(1) order_refl d] p(2) by auto
  note A = cut_append [of mx parse "reader_bytes r @ c" "concat cs"]
  show ?case
  proof (cases e1)
    case (Some x)
    then show ?thesis using Cons.prems d D A by (auto simp: Let_def)
  next
    case None
    obtain fs2 e2 r2 where f: "feed mx parse cs r1 = (fs2, e2, r2)" by (rule prod_cases3)
    have "cut mx parse (reader_bytes r1) = ([], None, reader_bytes r1)"
      using cut_append [of mx parse "reader_bytes r @ c" "[]"] D None
      by (cases "cut mx parse (reader_bytes r1)") (auto simp: Let_def)
    from Cons.IH [OF D(2) this f] show ?thesis
      using Cons.prems d D A None f by (auto simp: Let_def split_def)
  qed
qed simp

lemma new_reader_bytes [simp]: "reader_bytes new_reader = []" "reader_ok new_reader"
  by (simp_all add: new_reader_def reader_bytes_def reader_ok_def)

lemma cut_Nil [simp]: "cut mx parse [] = ([], None, [])"
  by (simp add: cut.simps)

text \<open>
  C34. The reader is a function of the bytes, not of how they arrived: pushing any chunks and draining
  after each yields the frames, and the error, that cutting their concatenation yields.
\<close>

theorem reader_chunking_irrelevant:
  assumes "feed mx parse cs new_reader = (fs, e, r')"
  shows "fst (cut mx parse (concat cs)) = fs \<and> fst (snd (cut mx parse (concat cs))) = e
         \<and> (e = None \<longrightarrow> snd (snd (cut mx parse (concat cs))) = reader_bytes r')"
  using feed_cut [of new_reader mx parse cs fs e r'] assms by simp

lemma cut_encoded:
  assumes "json_inverse json parse" and "\<forall>f \<in> set fs. length (encode_frame_body json f) \<le> mx" and "mx < 2 ^ 32"
  shows "cut mx parse (concat (map (encode_frame json) fs)) = (fs, None, [])"
  using assms(2)
proof (induction fs)
  case (Cons f fs)
  let ?b = "encode_frame_body json f" and ?rest = "concat (map (encode_frame json) fs)"
  have l: "length ?b \<le> mx" using Cons.prems by simp
  then have u: "unat (of_nat (length ?b) :: 32 word) = length ?b"
    using assms(3) by (simp add: unat_of_nat take_bit_eq_mod)
  have e: "encode_frame json f @ ?rest = be32 (of_nat (length ?b)) @ ?b @ ?rest"
    by (simp add: encode_frame_def Let_def)
  have g: "get32 (be32 (of_nat (length ?b)) @ ?b @ ?rest) 0 = of_nat (length ?b)"
    using get_prefix(2) [of 0 "be32 (of_nat (length ?b))" "?b @ ?rest"] get32_be32 by simp
  have ih: "cut mx parse ?rest = (fs, None, [])" using Cons by simp
  have "drop 4 (be32 (of_nat (length ?b)) @ ?b @ ?rest) = ?b @ ?rest"
    "drop (4 + length ?b) (be32 (of_nat (length ?b)) @ ?b @ ?rest) = ?rest"
    using length_be(2) [of "of_nat (length ?b)"] by simp_all
  then show ?case
    using l u g ih decode_encode_body [OF assms(1), of f]
    by (simp add: e) (subst cut.simps, simp add: Let_def)
qed simp

text \<open>
  What a peer writes is what the reader yields: the frames of a byte stream come back whole, in
  order and unchanged, through any split into chunks, with nothing left over.
\<close>

theorem frames_roundtrip:
  assumes "json_inverse json parse" and "\<forall>f \<in> set fs. length (encode_frame_body json f) \<le> mx" and "mx < 2 ^ 32"
    and "concat cs = concat (map (encode_frame json) fs)" and "feed mx parse cs new_reader = (out, e, r')"
  shows "out = fs \<and> e = None \<and> reader_bytes r' = []"
  using feed_cut [of new_reader mx parse cs out e r'] cut_encoded [OF assms(1-3)] assms(4,5) by simp

lemma cut_rest_small: "cut mx parse bs = (fs, None, rest) \<Longrightarrow> length rest < 4 + mx"
proof (induction mx parse bs arbitrary: fs rest rule: cut.induct)
  case (1 mx parse bs)
  let ?len = "unat (get32 bs 0)"
  show ?case
  proof (cases "length bs < 4 \<or> ?len > mx \<or> length bs < 4 + ?len")
    case True
    then show ?thesis using "1.prems" by (subst (asm) cut.simps) (auto simp: Let_def split: if_splits)
  next
    case False
    then obtain f where f: "decode_frame_body parse (take ?len (drop 4 bs)) = Inr f"
      using "1.prems" by (subst (asm) cut.simps) (auto simp: Let_def split: sum.splits)
    obtain fs2 where "cut mx parse (drop (4 + ?len) bs) = (fs2, None, rest)"
      using False f "1.prems" by (subst (asm) cut.simps) (auto simp: Let_def split: prod.splits)
    from "1.IH" [OF _ refl _ _ f this] False show ?thesis by auto
  qed
qed

lemma reader_ok_feed: "reader_ok r \<Longrightarrow> feed mx parse cs r = (fs, e, r') \<Longrightarrow> reader_ok r'"
proof (induction cs arbitrary: r fs e r')
  case (Cons c cs)
  obtain fs1 e1 r1 where d: "reader_drain (rd_buffered (reader_push c r)) mx parse (reader_push c r) = (fs1, e1, r1)"
    by (rule prod_cases3)
  have "reader_ok r1"
    using reader_drain_cut [OF _ order_refl d] reader_push_bytes [OF Cons.prems(1)] by blast
  then show ?case using Cons d by (auto simp: Let_def split: option.splits prod.splits)
qed simp

text \<open>
  An oversized frame costs nothing: as soon as a length prefix over the cap is at the front, the
  reader refuses it, whatever of its body has or has not arrived; and between two chunks a reader
  that has not failed holds less than one frame of the allowed size.
\<close>

theorem reader_caps_memory:
  assumes "feed mx parse cs new_reader = (fs, e, r')"
  shows "(4 \<le> length (concat cs) \<and> mx < unat (get32 (concat cs) 0) \<longrightarrow>
            fs = [] \<and> e = Some (Frame_Too_Large (unat (get32 (concat cs) 0))))
         \<and> (e = None \<longrightarrow> rd_buffered r' < 4 + mx)"
proof -
  have F: "fst (cut mx parse (concat cs)) = fs" "fst (snd (cut mx parse (concat cs))) = e"
    "e = None \<longrightarrow> snd (snd (cut mx parse (concat cs))) = reader_bytes r'"
    using feed_cut [of new_reader mx parse cs fs e r'] assms by auto
  have "rd_buffered r' < 4 + mx" if "e = None"
  proof -
    have "cut mx parse (concat cs) = (fs, None, reader_bytes r')"
      using F that by (metis prod.collapse)
    from cut_rest_small [OF this] show ?thesis
      using reader_ok_feed [OF new_reader_bytes(2) assms] by (simp add: reader_ok_def)
  qed
  moreover have "fs = [] \<and> e = Some (Frame_Too_Large (unat (get32 (concat cs) 0)))"
    if "4 \<le> length (concat cs)" "mx < unat (get32 (concat cs) 0)"
    using F that by (simp add: cut.simps [of mx parse "concat cs"] Let_def del: length_concat)
  ultimately show ?thesis by blast
qed

subsection \<open>A concrete stream\<close>

text \<open>Payloads that are single letters, printed between quotes.\<close>

definition demo_json :: "byte \<Rightarrow> bytes" where
  "demo_json v = [0x22, v, 0x22]"

definition demo_parse :: "bytes \<Rightarrow> byte option" where
  "demo_parse bs = (if length bs = 3 then Some (bs ! 1) else None)"

lemma demo_json_inverse: "json_inverse demo_json demo_parse"
  by (simp add: json_inverse_def demo_json_def demo_parse_def)

definition demo_frames :: "byte frame list" where
  "demo_frames = [\<lparr>fr_type = t_CALL, fr_flags = flag_stream, fr_status = 0, fr_corr = 7, fr_payload = Some 0x61\<rparr>,
                  \<lparr>fr_type = t_ERROR, fr_flags = 0, fr_status = 503, fr_corr = 9, fr_payload = None\<rparr>]"

definition demo_chunks :: "bytes list" where
  "demo_chunks = map (\<lambda>b. [b]) (concat (map (encode_frame demo_json) demo_frames))"

lemma demo_chunks_concat: "concat demo_chunks = concat (map (encode_frame demo_json) demo_frames)"
  by (simp add: demo_chunks_def)

theorem frames_roundtrip_witness:
  "fst (feed 1000 demo_parse demo_chunks new_reader) = demo_frames"
proof -
  have "\<forall>f \<in> set demo_frames. length (encode_frame_body demo_json f) \<le> 1000"
    by (simp add: demo_frames_def encode_frame_body_def demo_json_def)
  from frames_roundtrip [OF demo_json_inverse this _ demo_chunks_concat, of "fst (feed 1000 demo_parse demo_chunks new_reader)"
      "fst (snd (feed 1000 demo_parse demo_chunks new_reader))" "snd (snd (feed 1000 demo_parse demo_chunks new_reader))"]
  show ?thesis by simp
qed

theorem reader_chunking_irrelevant_witness:
  "fst (cut 1000 demo_parse (concat demo_chunks)) = fst (feed 1000 demo_parse demo_chunks new_reader)"
  using reader_chunking_irrelevant [of 1000 demo_parse demo_chunks "fst (feed 1000 demo_parse demo_chunks new_reader)"
      "fst (snd (feed 1000 demo_parse demo_chunks new_reader))" "snd (snd (feed 1000 demo_parse demo_chunks new_reader))"]
  by simp

theorem reader_caps_memory_witness:
  "fst (snd (feed 100 demo_parse [[0, 0], [1, 0]] new_reader)) = Some (Frame_Too_Large 256)"
  using reader_caps_memory [of 100 demo_parse "[[0, 0], [1, 0]]" "fst (feed 100 demo_parse [[0, 0], [1, 0]] new_reader)"
      "fst (snd (feed 100 demo_parse [[0, 0], [1, 0]] new_reader))" "snd (snd (feed 100 demo_parse [[0, 0], [1, 0]] new_reader))"]
  by (simp add: get32_def)

end
