(* ===== verification/Connection.thy ===== *)
theory Connection
  imports Actor_Errors
begin

section \<open>One multiplexed host-to-host connection\<close>

text \<open>
  \<open>cluster/connection.ts\<close>: calls multiplexed by correlation id over one link, streams with
  credit, cancellation, retirement and close. What a method does between two awaits is one
  definition; what the peer, the callers and the link do is the step relation. A promise
  settled is an entry of \<open>cn_settled\<close>; a frame written is an entry of \<open>cn_wire\<close>.
\<close>

named_theorems conn_simps \<open>equations of the connection's operations\<close>

subsection \<open>State\<close>

datatype 'v out_frame =
    O_Call nat bool
  | O_Cancel nat string
  | O_Credit nat nat
  | O_Reply nat 'v
  | O_Error nat int
  | O_Chunk nat 'v
  | O_End nat
  | O_Pong nat
  | O_Goaway int

text \<open>How a unary call ended: answered, failed by the peer, given up by its caller, or lost.\<close>

datatype 'v outcome = Replied 'v | Peer_Error js_error | Caller_Abort js_error | Lost string

record 'v consumer =
  cs_queue :: "'v list"
  cs_done :: bool
  cs_failure :: "js_error option"
  cs_taken :: nat
  cs_returned :: bool

record inbound =
  ib_credit :: int
  ib_granted :: int
  ib_sent :: nat

record 'v conn =
  cn_dialer :: bool
  cn_next :: nat
  cn_wrapped :: bool
  cn_link_up :: bool
  cn_closed :: bool
  cn_retiring :: "string option"
  cn_sent_done :: bool
  cn_peer_done :: bool
  cn_peer :: string
  cn_unary :: "nat list"
  cn_streams :: "nat list"
  cn_consumers :: "(nat, 'v consumer) jmap"
  cn_inbound :: "(nat, inbound) jmap"
  cn_settled :: "(nat \<times> 'v outcome) list"
  cn_wire :: "'v out_frame list"

definition first_id :: "bool \<Rightarrow> nat" where
  "first_id dialer = (if dialer then 2 else 3)"

definition new_conn :: "bool \<Rightarrow> 'v conn" where
  "new_conn dialer = \<lparr>cn_dialer = dialer, cn_next = first_id dialer, cn_wrapped = False, cn_link_up = True,
     cn_closed = False, cn_retiring = None, cn_sent_done = False, cn_peer_done = False, cn_peer = [],
     cn_unary = [], cn_streams = [], cn_consumers = [], cn_inbound = [], cn_settled = [], cn_wire = []\<rparr>"

definition conn_unreachable :: "string \<Rightarrow> js_error" where
  "conn_unreachable reason = Branded ((base_error Unreachable (''host connection unavailable ('' @ reason @ '')'')))"

definition lost_error :: "string \<Rightarrow> js_error" where
  "lost_error reason = Plain (''[sigx actors] host connection closed with this call in flight ('' @ reason
     @ ''): outcome unknown, not retried'') None None"

definition outcome_error :: "'v outcome \<Rightarrow> js_error option" where
  "outcome_error r = (case r of Replied _ \<Rightarrow> None | Peer_Error e \<Rightarrow> Some e | Caller_Abort e \<Rightarrow> Some e
     | Lost reason \<Rightarrow> Some (lost_error reason))"

subsection \<open>Close, send, retire\<close>

definition consumer_of :: "'v conn \<Rightarrow> nat \<Rightarrow> 'v consumer" where
  "consumer_of c i = (case jget (cn_consumers c) i of
     Some s \<Rightarrow> s | None \<Rightarrow> \<lparr>cs_queue = [], cs_done = False, cs_failure = None, cs_taken = 0, cs_returned = False\<rparr>)"

definition fail_consumer :: "js_error \<Rightarrow> nat \<Rightarrow> 'v conn \<Rightarrow> 'v conn" where
  "fail_consumer e i c = c\<lparr>cn_consumers := jset (cn_consumers c) i ((consumer_of c i)\<lparr>cs_failure := Some e, cs_done := True\<rparr>)\<rparr>"

definition close_conn :: "string \<Rightarrow> 'v conn \<Rightarrow> 'v conn" where
  "close_conn reason c =
     (if cn_closed c then c
      else fold (fail_consumer (conn_unreachable reason)) (cn_streams c)
        (c\<lparr>cn_closed := True,
           cn_settled := cn_settled c @ map (\<lambda>i. (i, Lost reason)) (cn_unary c),
           cn_unary := [], cn_streams := [], cn_inbound := []\<rparr>))"

definition send_frame :: "'v out_frame \<Rightarrow> 'v conn \<Rightarrow> bool \<times> 'v conn" where
  "send_frame f c =
     (if cn_closed c then (False, c)
      else if cn_link_up c then (True, c\<lparr>cn_wire := cn_wire c @ [f]\<rparr>)
      else (False, close_conn ''write failed'' c))"

definition settle_retirement :: "'v conn \<Rightarrow> 'v conn" where
  "settle_retirement c =
     (case cn_retiring c of
        None \<Rightarrow> c
      | Some why \<Rightarrow>
          if cn_closed c then c
          else let c1 = (if \<not> cn_sent_done c \<and> cn_unary c = [] \<and> cn_streams c = []
                         then snd (send_frame (O_Goaway 0) (c\<lparr>cn_sent_done := True\<rparr>)) else c) in
            if cn_sent_done c1 \<and> cn_peer_done c1 then close_conn (''retired: '' @ why) c1 else c1)"

definition retire :: "string \<Rightarrow> 'v conn \<Rightarrow> 'v conn" where
  "retire reason c =
     (if cn_closed c \<or> cn_retiring c \<noteq> None then c else settle_retirement (c\<lparr>cn_retiring := Some reason\<rparr>))"

definition allocate_id :: "'v conn \<Rightarrow> nat \<times> 'v conn" where
  "allocate_id c =
     (if cn_next c + 2 > 0xFFFFFFFF
      then (cn_next c, c\<lparr>cn_next := first_id (cn_dialer c), cn_wrapped := True\<rparr>)
      else (cn_next c, c\<lparr>cn_next := cn_next c + 2\<rparr>))"

definition forget_unary :: "nat \<Rightarrow> 'v conn \<Rightarrow> bool \<times> 'v conn" where
  "forget_unary i c =
     (if i \<in> set (cn_unary c) then (True, settle_retirement (c\<lparr>cn_unary := removeAll i (cn_unary c)\<rparr>)) else (False, c))"

definition forget_stream :: "nat \<Rightarrow> 'v conn \<Rightarrow> bool \<times> 'v conn" where
  "forget_stream i c =
     (if i \<in> set (cn_streams c) then (True, settle_retirement (c\<lparr>cn_streams := removeAll i (cn_streams c)\<rparr>)) else (False, c))"

definition settle :: "nat \<Rightarrow> 'v outcome \<Rightarrow> 'v conn \<Rightarrow> 'v conn" where
  "settle i r c = c\<lparr>cn_settled := cn_settled c @ [(i, r)]\<rparr>"

subsection \<open>Unary calls\<close>

text \<open>\<open>dispatch\<close>: refused before anything is written, or written and then registered.\<close>

definition dispatch :: "js_error option \<Rightarrow> 'v conn \<Rightarrow> (js_error + nat) \<times> 'v conn" where
  "dispatch aborted c =
     (if cn_closed c then (Inl (conn_unreachable ''closed''), c)
      else case cn_retiring c of
        Some why \<Rightarrow> (Inl (conn_unreachable why), c)
      | None \<Rightarrow>
          (case aborted of
             Some e \<Rightarrow> (Inl e, c)
           | None \<Rightarrow>
               let (i, c1) = allocate_id c; (sent, c2) = send_frame (O_Call i False) c1 in
               if \<not> sent then (Inl (conn_unreachable ''frame not written''), c2)
               else (Inr i, c2\<lparr>cn_unary := cn_unary c2 @ [i]\<rparr>)))"

definition abort_call :: "nat \<Rightarrow> js_error \<Rightarrow> 'v conn \<Rightarrow> 'v conn" where
  "abort_call i e c =
     (case forget_unary i c of
        (False, c1) \<Rightarrow> c1
      | (True, c1) \<Rightarrow> settle i (Caller_Abort e) (snd (send_frame (O_Cancel i ''caller-abort'') c1)))"

subsection \<open>Outbound streams\<close>

definition dispatch_stream :: "nat \<Rightarrow> js_error option \<Rightarrow> 'v conn \<Rightarrow> nat \<times> 'v conn" where
  "dispatch_stream credit aborted c =
     (let refusal = (if cn_closed c then Some (conn_unreachable ''closed'')
                     else case cn_retiring c of Some why \<Rightarrow> Some (conn_unreachable why) | None \<Rightarrow> aborted);
          (i, c1) = allocate_id c;
          c2 = c1\<lparr>cn_streams := cn_streams c1 @ [i],
                  cn_consumers := jset (cn_consumers c1) i
                    \<lparr>cs_queue = [], cs_done = False, cs_failure = None, cs_taken = 0, cs_returned = False\<rparr>\<rparr>;
          (sent, c3) = (if refusal = None then send_frame (O_Call i True) c2 else (False, c2)) in
      if sent then (i, c3)
      else (i, fail_consumer (case refusal of Some e \<Rightarrow> e | None \<Rightarrow> conn_unreachable ''frame not written'') i
                 (snd (forget_stream i c3))))"

text \<open>
  One pull of the consumer's generator: a value, with a credit top-up when half the window is
  spent; the failure; the end; or nothing yet. A generator that ends runs its \<open>finally\<close>.
\<close>

datatype 'v pull = Pulled 'v | Threw js_error | Ended | Waits

definition consumer_return :: "nat \<Rightarrow> 'v conn \<Rightarrow> 'v conn" where
  "consumer_return i c =
     (let (had, c1) = forget_stream i (c\<lparr>cn_consumers := jset (cn_consumers c) i ((consumer_of c i)\<lparr>cs_returned := True\<rparr>)\<rparr>) in
      if had \<and> \<not> cn_closed c1 then snd (send_frame (O_Cancel i ''consumer-return'') c1) else c1)"

definition pull_stream :: "nat \<Rightarrow> nat \<Rightarrow> 'v conn \<Rightarrow> 'v pull \<times> 'v conn" where
  "pull_stream window i c =
     (let s = consumer_of c i in
      case cs_queue s of
        v # rest \<Rightarrow>
          (let taken = Suc (cs_taken s);
               top_up = window \<le> 2 * taken;
               s' = s\<lparr>cs_queue := rest, cs_taken := (if top_up then 0 else taken)\<rparr>;
               c1 = (if top_up then snd (send_frame (O_Credit i taken) c) else c);
               s1 = consumer_of c1 i in
           (Pulled v, c1\<lparr>cn_consumers := jset (cn_consumers c1) i
              (s1\<lparr>cs_queue := rest, cs_taken := (if top_up then 0 else taken)\<rparr>)\<rparr>))
      | [] \<Rightarrow>
          (case cs_failure s of
             Some e \<Rightarrow> (Threw e, consumer_return i c)
           | None \<Rightarrow> if cs_done s then (Ended, consumer_return i c) else (Waits, c)))"

definition abort_stream :: "nat \<Rightarrow> js_error \<Rightarrow> 'v conn \<Rightarrow> 'v conn" where
  "abort_stream i e c =
     (let (had, c1) = forget_stream i c;
          c2 = (if had \<and> \<not> cn_closed c1 then snd (send_frame (O_Cancel i ''caller-abort'') c1) else c1);
          s = consumer_of c2 i in
      c2\<lparr>cn_consumers := jset (cn_consumers c2) i
          (s\<lparr>cs_failure := (case cs_failure s of Some x \<Rightarrow> Some x | None \<Rightarrow> Some e), cs_done := True\<rparr>)\<rparr>)"

subsection \<open>Inbound streams\<close>

definition cancel_inbound :: "nat \<Rightarrow> 'v conn \<Rightarrow> 'v conn" where
  "cancel_inbound i c = c\<lparr>cn_inbound := jdel (cn_inbound c) i\<rparr>"

definition serve_stream :: "nat \<Rightarrow> int \<Rightarrow> 'v conn \<Rightarrow> 'v conn" where
  "serve_stream i credit c =
     c\<lparr>cn_inbound := jset (cn_inbound c) i \<lparr>ib_credit = credit, ib_granted = credit, ib_sent = 0\<rparr>\<rparr>"

text \<open>One turn of the producer, with what the generator answers; nothing happens without credit.\<close>

datatype 'v produced = Yields 'v | Finishes | Fails int

definition pump_stream :: "nat \<Rightarrow> 'v produced \<Rightarrow> 'v conn \<Rightarrow> 'v conn" where
  "pump_stream i p c =
     (case jget (cn_inbound c) i of
        None \<Rightarrow> c
      | Some s \<Rightarrow>
          if ib_credit s \<le> 0 then c
          else (case p of
              Yields v \<Rightarrow> snd (send_frame (O_Chunk i v)
                (c\<lparr>cn_inbound := jset (cn_inbound c) i (s\<lparr>ib_credit := ib_credit s - 1, ib_sent := Suc (ib_sent s)\<rparr>)\<rparr>))
            | Finishes \<Rightarrow> cancel_inbound i (snd (send_frame (O_End i) c))
            | Fails st \<Rightarrow> cancel_inbound i (snd (send_frame (O_Error i st) c))))"

subsection \<open>Frames from the peer\<close>

datatype 'v in_frame =
    I_Hello string
  | I_Ping nat
  | I_Pong nat
  | I_Goaway int
  | I_Reply nat 'v
  | I_Error nat js_error
  | I_Chunk nat 'v
  | I_End nat
  | I_Cancel nat
  | I_Credit nat int
  | I_Call nat bool int

text \<open>
  \<open>#onFrame\<close>. The answer to an inbound unary call, or the refusal of any call, is a later
  \<open>answer\<close> step; an accepted stream call registers its credit.
\<close>

fun on_frame :: "'v in_frame \<Rightarrow> 'v conn \<Rightarrow> 'v conn" where
  "on_frame (I_Hello h) c = c\<lparr>cn_peer := h\<rparr>"
| "on_frame (I_Ping i) c = snd (send_frame (O_Pong i) c)"
| "on_frame (I_Pong i) c = c"
| "on_frame (I_Goaway st) c =
     (if st = 0 then settle_retirement (retire ''peer retired it'' (c\<lparr>cn_peer_done := True\<rparr>))
      else close_conn (''peer sent GOAWAY '' @ show_int st) c)"
| "on_frame (I_Reply i v) c =
     (case forget_unary i c of (True, c1) \<Rightarrow> settle i (Replied v) c1 | (False, c1) \<Rightarrow> c1)"
| "on_frame (I_Error i e) c =
     (case forget_unary i c of
        (True, c1) \<Rightarrow> settle i (Peer_Error e) c1
      | (False, c1) \<Rightarrow> if i \<in> set (cn_streams c1) then fail_consumer e i c1 else c1)"
| "on_frame (I_Chunk i v) c =
     (if i \<in> set (cn_streams c)
      then c\<lparr>cn_consumers := jset (cn_consumers c) i ((consumer_of c i)\<lparr>cs_queue := cs_queue (consumer_of c i) @ [v]\<rparr>)\<rparr>
      else c)"
| "on_frame (I_End i) c =
     (if i \<in> set (cn_streams c)
      then c\<lparr>cn_consumers := jset (cn_consumers c) i ((consumer_of c i)\<lparr>cs_done := True\<rparr>)\<rparr> else c)"
| "on_frame (I_Cancel i) c = cancel_inbound i c"
| "on_frame (I_Credit i n) c =
     (case jget (cn_inbound c) i of
        None \<Rightarrow> c
      | Some s \<Rightarrow> c\<lparr>cn_inbound := jset (cn_inbound c) i (s\<lparr>ib_credit := ib_credit s + n, ib_granted := ib_granted s + n\<rparr>)\<rparr>)"
| "on_frame (I_Call i stream credit) c = (if stream \<and> \<not> cn_closed c then serve_stream i credit c else c)"

text \<open>A batch: a frame that closes the connection stops the ones behind it.\<close>

fun on_frames :: "'v in_frame list \<Rightarrow> 'v conn \<Rightarrow> 'v conn" where
  "on_frames [] c = c"
| "on_frames (f # fs) c = (if cn_closed c then c else on_frames fs (on_frame f c))"

definition on_bad_bytes :: "bool \<Rightarrow> 'v conn \<Rightarrow> 'v conn" where
  "on_bad_bytes oversized c =
     close_conn (if oversized then ''frame too large'' else ''malformed frame'')
       (snd (send_frame (O_Goaway (if oversized then 413 else 400)) c))"

subsection \<open>Steps\<close>

inductive conn_step :: "'v conn \<Rightarrow> 'v conn \<Rightarrow> bool" where
  call: "dispatch ab c = (r, c') \<Longrightarrow> conn_step c c'"
| abort: "conn_step c (abort_call i e c)"
| stream: "dispatch_stream cr ab c = (i, c') \<Longrightarrow> conn_step c c'"
| pull: "pull_stream w i c = (p, c') \<Longrightarrow> conn_step c c'"
| stream_return: "conn_step c (consumer_return i c)"
| stream_abort: "conn_step c (abort_stream i e c)"
| pump: "conn_step c (pump_stream i p c)"
| answer: "f \<in> {O_Reply i v, O_Error i st} \<Longrightarrow> conn_step c (snd (send_frame f c))"
| data: "conn_step c (on_frames fs c)"
| bad_data: "conn_step c (on_bad_bytes big c)"
| retired: "conn_step c (retire why c)"
| closed: "conn_step c (close_conn why c)"
| link_breaks: "conn_step c (c\<lparr>cn_link_up := False\<rparr>)"

inductive conn_reachable :: "'v conn \<Rightarrow> bool" where
  start: "conn_reachable (new_conn d)"
| step: "conn_reachable c \<Longrightarrow> conn_step c c' \<Longrightarrow> conn_reachable c'"
subsection \<open>What an operation keeps\<close>

definition unary_calls :: "'v conn \<Rightarrow> nat list" where
  "unary_calls c = List.map_filter (\<lambda>f. case f of O_Call i False \<Rightarrow> Some i | _ \<Rightarrow> None) (cn_wire c)"

definition accounted :: "'v conn \<Rightarrow> nat list" where
  "accounted c = map fst (cn_settled c) @ cn_unary c"

definition keeps :: "'v conn \<Rightarrow> 'v conn \<Rightarrow> bool" where
  "keeps c c' \<longleftrightarrow> unary_calls c' = unary_calls c \<and> cn_wrapped c' = cn_wrapped c \<and> cn_next c' = cn_next c
     \<and> set (accounted c') = set (accounted c) \<and> (distinct (accounted c) \<longrightarrow> distinct (accounted c'))
     \<and> ((cn_closed c \<longrightarrow> cn_unary c = [] \<and> cn_streams c = []) \<longrightarrow> (cn_closed c' \<longrightarrow> cn_unary c' = [] \<and> cn_streams c' = []))
     \<and> (cn_retiring c \<noteq> None \<longrightarrow> cn_retiring c' \<noteq> None)
     \<and> ((cn_sent_done c \<longrightarrow> cn_retiring c \<noteq> None \<and> cn_unary c = [] \<and> cn_streams c = [])
        \<longrightarrow> (cn_sent_done c' \<longrightarrow> cn_retiring c' \<noteq> None \<and> cn_unary c' = [] \<and> cn_streams c' = []))"

lemma keeps_refl [intro, simp]: "keeps c c"
  by (simp add: keeps_def)

lemma keeps_trans [trans]: "keeps a b \<Longrightarrow> keeps b c \<Longrightarrow> keeps a c"
  unfolding keeps_def by metis

lemma keeps_frame:
  assumes "cn_wire c' = cn_wire c" "cn_wrapped c' = cn_wrapped c" "cn_next c' = cn_next c" "cn_settled c' = cn_settled c"
    "cn_unary c' = cn_unary c" "cn_streams c' = cn_streams c" "cn_closed c' = cn_closed c" "cn_retiring c' = cn_retiring c"
    "cn_sent_done c' = cn_sent_done c"
  shows "keeps c c'"
  using assms by (simp add: keeps_def unary_calls_def accounted_def)

lemma fail_fold_sel [simp]:
  fixes ids :: "nat list" and c :: "'v conn"
  shows "cn_wire (fold (fail_consumer e) ids c) = cn_wire c" "cn_wrapped (fold (fail_consumer e) ids c) = cn_wrapped c"
    "cn_next (fold (fail_consumer e) ids c) = cn_next c" "cn_settled (fold (fail_consumer e) ids c) = cn_settled c"
    "cn_unary (fold (fail_consumer e) ids c) = cn_unary c" "cn_streams (fold (fail_consumer e) ids c) = cn_streams c"
    "cn_closed (fold (fail_consumer e) ids c) = cn_closed c" "cn_retiring (fold (fail_consumer e) ids c) = cn_retiring c"
    "cn_sent_done (fold (fail_consumer e) ids c) = cn_sent_done c" "cn_inbound (fold (fail_consumer e) ids c) = cn_inbound c"
  by (induction ids arbitrary: c) (auto simp: fail_consumer_def)

lemma fail_consumer_keeps [intro, simp]: "keeps c (fail_consumer e i c)"
  by (rule keeps_frame) (simp_all add: fail_consumer_def)

lemma close_accounted: "accounted (close_conn reason c) = accounted c"
  by (simp add: close_conn_def accounted_def comp_def)

lemma close_keeps [intro, simp]: "keeps c (close_conn reason c)"
  unfolding keeps_def close_accounted by (auto simp: close_conn_def unary_calls_def)

lemma close_closed: "cn_closed (close_conn reason c)"
  by (simp add: close_conn_def)

definition quiet :: "'v out_frame \<Rightarrow> bool" where
  "quiet f \<longleftrightarrow> (\<forall>i. f \<noteq> O_Call i False)"

lemma quiet_simps [simp]:
  "quiet (O_Call i s) = s" "quiet (O_Cancel i r)" "quiet (O_Credit i n)" "quiet (O_Reply i v)" "quiet (O_Error i st)"
  "quiet (O_Chunk i v)" "quiet (O_End i)" "quiet (O_Pong i)" "quiet (O_Goaway st)"
  by (auto simp: quiet_def)

lemma send_keeps: "quiet f \<Longrightarrow> keeps c (snd (send_frame f c))"
proof -
  assume "quiet f"
  then have "(case f of O_Call i False \<Rightarrow> Some i | _ \<Rightarrow> None) = None"
    by (auto simp: quiet_def split: out_frame.splits bool.splits)
  then have "keeps c (c\<lparr>cn_wire := cn_wire c @ [f]\<rparr>)"
    by (auto simp: keeps_def unary_calls_def accounted_def List.map_filter_def)
  then show ?thesis by (simp add: send_frame_def)
qed

lemma keeps_snd_send: "quiet f \<Longrightarrow> keeps c d \<Longrightarrow> keeps c (snd (send_frame f d))"
  using send_keeps keeps_trans by blast

lemma settle_retirement_keeps [intro, simp]: "keeps c (settle_retirement c)"
proof (cases "cn_retiring c = None \<or> cn_closed c")
  case True
  then show ?thesis by (auto simp: settle_retirement_def split: option.split)
next
  case False
  then obtain why where why: "cn_retiring c = Some why" by auto
  define c1 where "c1 = (if \<not> cn_sent_done c \<and> cn_unary c = [] \<and> cn_streams c = []
      then snd (send_frame (O_Goaway 0) (c\<lparr>cn_sent_done := True\<rparr>)) else c)"
  have "keeps c c1"
  proof (cases "\<not> cn_sent_done c \<and> cn_unary c = [] \<and> cn_streams c = []")
    case True
    then have "keeps c (c\<lparr>cn_sent_done := True\<rparr>)" using False by (simp add: keeps_def unary_calls_def accounted_def)
    then show ?thesis using True keeps_snd_send [of "O_Goaway 0" c "c\<lparr>cn_sent_done := True\<rparr>"] by (simp add: c1_def)
  qed (auto simp: c1_def)
  moreover have "settle_retirement c = (if cn_sent_done c1 \<and> cn_peer_done c1 then close_conn (''retired: '' @ why) c1 else c1)"
    using False by (simp add: settle_retirement_def why c1_def Let_def)
  ultimately show ?thesis by (auto intro: keeps_trans [OF _ close_keeps])
qed

lemma retire_keeps [intro, simp]: "keeps c (retire why c)"
proof -
  have "keeps c (c\<lparr>cn_retiring := Some why\<rparr>)" by (auto simp: keeps_def unary_calls_def accounted_def)
  then show ?thesis using keeps_trans [OF _ settle_retirement_keeps] by (auto simp: retire_def)
qed

lemma forget_stream_keeps: "keeps c (snd (forget_stream i c))"
proof -
  have "keeps c (c\<lparr>cn_streams := removeAll i (cn_streams c)\<rparr>)" by (auto simp: keeps_def unary_calls_def accounted_def)
  then show ?thesis using keeps_trans [OF _ settle_retirement_keeps] by (auto simp: forget_stream_def)
qed

text \<open>A call taken off the pending map is settled in the same stretch.\<close>

lemma forget_settle_keeps:
  assumes "forget_unary i c = (True, c1)" and "keeps c1 c2"
  shows "keeps c (settle i r c2)"
proof -
  let ?c0 = "c\<lparr>cn_unary := removeAll i (cn_unary c)\<rparr>"
  have i: "i \<in> set (cn_unary c)" and c1: "c1 = settle_retirement ?c0"
    using assms(1) by (auto simp: forget_unary_def split: if_splits)
  have K: "keeps ?c0 c2" using c1 assms(2) keeps_trans [OF settle_retirement_keeps] by blast
  have u: "unary_calls ?c0 = unary_calls c" by (simp add: unary_calls_def)
  have a: "accounted (settle i r c2) = map fst (cn_settled c2) @ i # cn_unary c2" by (simp add: settle_def accounted_def)
  have s: "set (accounted (settle i r c2)) = insert i (set (accounted c2))" unfolding a by (auto simp: accounted_def)
  have d: "distinct (accounted (settle i r c2)) = (distinct (accounted c2) \<and> i \<notin> set (accounted c2))"
    unfolding a by (auto simp: accounted_def)
  have 0: "set (accounted c) = insert i (set (accounted ?c0))" using i by (auto simp: accounted_def)
  have 1: "distinct (accounted c) \<Longrightarrow> distinct (accounted ?c0) \<and> i \<notin> set (accounted ?c0)"
    using i by (auto simp: accounted_def distinct_removeAll)
  have F: "cn_closed (settle i r c2) = cn_closed c2" "cn_unary (settle i r c2) = cn_unary c2"
    "cn_streams (settle i r c2) = cn_streams c2" "cn_retiring (settle i r c2) = cn_retiring c2"
    "cn_sent_done (settle i r c2) = cn_sent_done c2" "cn_wrapped (settle i r c2) = cn_wrapped c2"
    "cn_next (settle i r c2) = cn_next c2" "unary_calls (settle i r c2) = unary_calls c2"
    by (simp_all add: settle_def unary_calls_def)
  have ne: "cn_unary c \<noteq> []" using i by auto
  show ?thesis
    using K 0 1 s d u ne unfolding keeps_def F by simp
qed

lemma forget_unary_cases:
  obtains c1 where "forget_unary i c = (True, c1)" | "forget_unary i c = (False, c)"
  by (cases "i \<in> set (cn_unary c)") (auto simp: forget_unary_def)

lemma abort_call_keeps: "keeps c (abort_call i e c)"
proof (cases rule: forget_unary_cases [of i c])
  case (1 c1)
  then show ?thesis
    using forget_settle_keeps [OF 1 send_keeps [of "O_Cancel i ''caller-abort''" c1]] by (simp add: abort_call_def)
qed (simp add: abort_call_def)

lemma keeps_consumers [intro, simp]: "keeps c (c\<lparr>cn_consumers := x\<rparr>)" "keeps c (c\<lparr>cn_inbound := y\<rparr>)"
    "keeps c (c\<lparr>cn_peer := z\<rparr>)" "keeps c (c\<lparr>cn_peer_done := w\<rparr>)" "keeps c (c\<lparr>cn_link_up := l\<rparr>)"
  by (rule keeps_frame; simp)+

lemma on_frame_keeps: "keeps c (on_frame f c)"
proof (cases f)
  case (I_Goaway st)
  have "keeps c (settle_retirement (retire ''peer retired it'' (c\<lparr>cn_peer_done := True\<rparr>)))"
    by (rule keeps_trans [OF keeps_trans [OF keeps_consumers(4) retire_keeps] settle_retirement_keeps])
  then show ?thesis by (simp add: I_Goaway)
next
  case (I_Reply i v)
  show ?thesis
    by (cases rule: forget_unary_cases [of i c]) (auto simp: I_Reply dest: forget_settle_keeps [OF _ keeps_refl])
next
  case (I_Error i e)
  show ?thesis
    by (cases rule: forget_unary_cases [of i c]) (auto simp: I_Error dest: forget_settle_keeps [OF _ keeps_refl])
next
  case (I_Cancel i)
  then show ?thesis by (simp add: cancel_inbound_def)
qed (auto simp: send_keeps serve_stream_def split: option.split)

lemma on_frames_keeps: "keeps c (on_frames fs c)"
  by (induction fs c rule: on_frames.induct) (auto intro: keeps_trans on_frame_keeps)

lemma consumer_return_keeps: "keeps c (consumer_return i c)"
proof -
  let ?c = "c\<lparr>cn_consumers := jset (cn_consumers c) i ((consumer_of c i)\<lparr>cs_returned := True\<rparr>)\<rparr>"
  have "keeps c (snd (forget_stream i ?c))" by (rule keeps_trans [OF keeps_consumers(1) forget_stream_keeps])
  then show ?thesis by (auto simp: consumer_return_def split_def Let_def intro: keeps_snd_send)
qed

lemma abort_stream_keeps: "keeps c (abort_stream i e c)"
proof -
  obtain had c1 where f: "forget_stream i c = (had, c1)" by force
  then have 1: "keeps c c1" using forget_stream_keeps [of c i] by simp
  have 2: "keeps c (if had \<and> \<not> cn_closed c1 then snd (send_frame (O_Cancel i ''caller-abort'') c1) else c1)"
    using 1 by (auto intro: keeps_snd_send)
  show ?thesis unfolding abort_stream_def f Let_def prod.case by (rule keeps_trans [OF 2 keeps_consumers(1)])
qed

lemma pull_stream_keeps: "pull_stream w i c = (p, c') \<Longrightarrow> keeps c c'"
  by (auto simp: pull_stream_def Let_def consumer_return_keeps split: list.splits option.splits if_splits
      intro: keeps_trans [OF send_keeps keeps_consumers(1)])

lemma pump_stream_keeps: "keeps c (pump_stream i p c)"
  by (auto simp: pump_stream_def cancel_inbound_def split: option.split produced.split
      intro: keeps_trans [OF send_keeps keeps_consumers(2)] keeps_trans [OF keeps_consumers(2) send_keeps])

lemma on_bad_bytes_keeps: "keeps c (on_bad_bytes big c)"
  unfolding on_bad_bytes_def by (rule keeps_trans [OF send_keeps close_keeps]) simp

subsection \<open>The invariant\<close>

definition conn_inv :: "'v conn \<Rightarrow> bool" where
  "conn_inv c \<longleftrightarrow>
     (\<not> cn_wrapped c \<longrightarrow> distinct (accounted c) \<and> set (accounted c) = set (unary_calls c)
        \<and> (\<forall>i \<in> set (unary_calls c). i < cn_next c))
     \<and> (cn_closed c \<longrightarrow> cn_unary c = [] \<and> cn_streams c = [])
     \<and> (cn_sent_done c \<longrightarrow> cn_retiring c \<noteq> None \<and> cn_unary c = [] \<and> cn_streams c = [])"

lemma conn_inv_keeps: "conn_inv c \<Longrightarrow> keeps c c' \<Longrightarrow> conn_inv c'"
  unfolding conn_inv_def keeps_def by simp

lemma allocate_inv:
  assumes "conn_inv c" "allocate_id c = (i, c1)"
  shows "conn_inv c1 \<and> (\<not> cn_wrapped c1 \<longrightarrow> i \<notin> set (unary_calls c1) \<and> i < cn_next c1)
    \<and> cn_closed c1 = cn_closed c \<and> cn_retiring c1 = cn_retiring c \<and> cn_sent_done c1 = cn_sent_done c
    \<and> cn_wire c1 = cn_wire c \<and> cn_link_up c1 = cn_link_up c"
proof -
  have u: "unary_calls (c\<lparr>cn_next := n\<rparr>) = unary_calls c" "accounted (c\<lparr>cn_next := n\<rparr>) = accounted c"
    "unary_calls (c\<lparr>cn_next := n, cn_wrapped := w\<rparr>) = unary_calls c" for n w
    by (simp_all add: unary_calls_def accounted_def)
  have F: "unary_calls c1 = unary_calls c" "accounted c1 = accounted c" "cn_unary c1 = cn_unary c" "cn_streams c1 = cn_streams c"
    "cn_closed c1 = cn_closed c" "cn_retiring c1 = cn_retiring c" "cn_sent_done c1 = cn_sent_done c"
    "cn_wire c1 = cn_wire c" "cn_link_up c1 = cn_link_up c" "i = cn_next c"
    "\<not> cn_wrapped c1 \<Longrightarrow> \<not> cn_wrapped c \<and> cn_next c1 = cn_next c + 2"
    using assms(2) by (auto simp: allocate_id_def unary_calls_def accounted_def split: if_splits)
  have lt: "j < cn_next c" if "\<not> cn_wrapped c" "j \<in> set (unary_calls c)" for j
    using assms(1) that by (simp add: conn_inv_def)
  have "i \<notin> set (unary_calls c1) \<and> i < cn_next c1" if "\<not> cn_wrapped c1"
    using F(11) [OF that] lt [of i] by (auto simp: F)
  moreover have "conn_inv c1"
    using assms(1) F(11) lt unfolding conn_inv_def F(1-9) by fastforce
  ultimately show ?thesis using F by simp
qed

lemma dispatch_inv:
  assumes I: "conn_inv c" and d: "dispatch ab c = (r, c')"
  shows "conn_inv c'"
proof (cases "cn_closed c \<or> cn_retiring c \<noteq> None \<or> ab \<noteq> None")
  case True
  then have "c' = c" using d by (auto simp: dispatch_def split: option.splits if_splits)
  with I show ?thesis by simp
next
  case False
  obtain i c1 where al: "allocate_id c = (i, c1)" by force
  note A = allocate_inv [OF I al]
  show ?thesis
  proof (cases "cn_link_up c1")
    case up: True
    have c': "c' = c1\<lparr>cn_wire := cn_wire c1 @ [O_Call i False], cn_unary := cn_unary c1 @ [i]\<rparr>"
      using d al A up False by (simp add: dispatch_def send_frame_def Let_def)
    have u: "unary_calls c' = unary_calls c1 @ [i]" "accounted c' = accounted c1 @ [i]"
      by (simp_all add: c' unary_calls_def accounted_def List.map_filter_def)
    have "\<not> cn_sent_done c1" using A False I by (auto simp: conn_inv_def)
    then show ?thesis using A False unfolding conn_inv_def u by (auto simp: c')
  next
    case False
    then have "c' = close_conn ''write failed'' c1"
      using d al A \<open>\<not> (cn_closed c \<or> _)\<close> by (simp add: dispatch_def send_frame_def Let_def)
    then show ?thesis using A conn_inv_keeps [OF _ close_keeps] by blast
  qed
qed

lemma dispatch_stream_inv:
  assumes I: "conn_inv c" and d: "dispatch_stream cr ab c = (j, c')"
  shows "conn_inv c'"
proof -
  obtain i c1 where al: "allocate_id c = (i, c1)" by force
  note A = allocate_inv [OF I al]
  define k where "k = jset (cn_consumers c1) i
      \<lparr>cs_queue = [], cs_done = False, cs_failure = None, cs_taken = 0, cs_returned = False\<rparr>"
  define c2 where "c2 = c1\<lparr>cn_streams := cn_streams c1 @ [i], cn_consumers := k\<rparr>"
  have comm: "c1\<lparr>cn_consumers := k, cn_streams := x\<rparr> = c1\<lparr>cn_streams := x, cn_consumers := k\<rparr>" for x
    by simp
  define refusal where "refusal = (if cn_closed c then Some (conn_unreachable ''closed'')
      else case cn_retiring c of Some why \<Rightarrow> Some (conn_unreachable why) | None \<Rightarrow> ab)"
  define sc where "sc = (if refusal = None then send_frame (O_Call i True) c2 else (False, c2))"
  have c': "c' = (if fst sc then snd sc
      else fail_consumer (case refusal of Some e \<Rightarrow> e | None \<Rightarrow> conn_unreachable ''frame not written'') i
             (snd (forget_stream i (snd sc))))"
    using d by (auto simp: dispatch_stream_def al k_def c2_def refusal_def sc_def Let_def split_def split: if_splits)
  show ?thesis
  proof (cases "refusal = None")
    case False
    let ?c3 = "c1\<lparr>cn_streams := removeAll i (cn_streams c1), cn_consumers := k\<rparr>"
    have "snd (forget_stream i c2) = settle_retirement ?c3" by (simp add: forget_stream_def c2_def comm)
    moreover have "keeps c1 ?c3" by (auto simp: keeps_def unary_calls_def accounted_def)
    ultimately have "keeps c1 (snd (forget_stream i c2))" using keeps_trans [OF _ settle_retirement_keeps] by simp
    from keeps_trans [OF this fail_consumer_keeps] have "keeps c1 c'" using False by (auto simp: c' sc_def)
    then show ?thesis using A conn_inv_keeps by blast
  next
    case True
    then have open': "\<not> cn_closed c1" "\<not> cn_sent_done c1"
      using A I by (auto simp: refusal_def conn_inv_def split: if_splits option.splits)
    then have k2: "keeps c1 c2" by (simp add: c2_def keeps_def unary_calls_def accounted_def)
    then have k3: "keeps c1 (snd sc)" using True keeps_snd_send [OF _ k2, of "O_Call i True"] by (simp add: sc_def)
    then have "keeps c1 c'"
      using keeps_trans [OF k3 keeps_trans [OF forget_stream_keeps fail_consumer_keeps]] by (simp add: c')
    then show ?thesis using A conn_inv_keeps by blast
  qed
qed

lemma conn_step_inv: "conn_step c c' \<Longrightarrow> conn_inv c \<Longrightarrow> conn_inv c'"
proof (induction rule: conn_step.induct)
  case (call ab c r c')
  then show ?case by (blast intro: dispatch_inv)
next
  case (stream cr ab c i c')
  then show ?case by (blast intro: dispatch_stream_inv)
next
  case (answer f i v st c)
  then have "quiet f" by auto
  then show ?case by (rule conn_inv_keeps [OF answer.prems send_keeps])
next
  case (abort c i e)
  then show ?case by (rule conn_inv_keeps [OF _ abort_call_keeps])
next
  case (pull w i c p c')
  then show ?case by (blast intro: conn_inv_keeps pull_stream_keeps)
next
  case (stream_return c i)
  then show ?case by (rule conn_inv_keeps [OF _ consumer_return_keeps])
next
  case (stream_abort c i e)
  then show ?case by (rule conn_inv_keeps [OF _ abort_stream_keeps])
next
  case (pump c i p)
  then show ?case by (rule conn_inv_keeps [OF _ pump_stream_keeps])
next
  case (data c fs)
  then show ?case by (rule conn_inv_keeps [OF _ on_frames_keeps])
next
  case (bad_data c big)
  then show ?case by (rule conn_inv_keeps [OF _ on_bad_bytes_keeps])
next
  case (retired c why)
  then show ?case by (rule conn_inv_keeps [OF _ retire_keeps])
next
  case (closed c why)
  then show ?case by (rule conn_inv_keeps [OF _ close_keeps])
next
  case (link_breaks c)
  then show ?case by (rule conn_inv_keeps [OF _ keeps_consumers(5)])
qed

lemma conn_reachable_inv: "conn_reachable c \<Longrightarrow> conn_inv c"
proof (induction rule: conn_reachable.induct)
  case (start d)
  show ?case by (simp add: new_conn_def conn_inv_def accounted_def unary_calls_def List.map_filter_def)
next
  case (step c c')
  then show ?case by (blast intro: conn_step_inv)
qed

lemma unary_calls_iff: "i \<in> set (unary_calls c) \<longleftrightarrow> O_Call i False \<in> set (cn_wire c)"
proof -
  have "i \<in> set (List.map_filter (\<lambda>f. case f of O_Call i False \<Rightarrow> Some i | _ \<Rightarrow> None) w) \<longleftrightarrow> O_Call i False \<in> set w"
    for w :: "'a out_frame list"
  proof (induction w)
    case (Cons f w)
    then show ?case by (cases f) (auto simp: List.map_filter_def split: bool.splits)
  qed (simp add: List.map_filter_def)
  then show ?thesis by (simp add: unary_calls_def)
qed

text \<open>
  C35. Every unary call that was written is settled exactly once: in any interleaving of calls, aborts,
  frames, broken links, retirements and closes, and until the ids wrap, each written call is
  either still pending or has one outcome, never both and never two; a closed connection leaves
  none pending; and the retirement GOAWAY is only said when nothing outbound is left.
\<close>

theorem unary_calls_settle_once:
  assumes "conn_reachable c" and "\<not> cn_wrapped c"
  shows "distinct (map fst (cn_settled c))
     \<and> (\<forall>i. O_Call i False \<in> set (cn_wire c)
              = ((i \<in> set (cn_unary c)) \<noteq> (i \<in> set (map fst (cn_settled c)))))
     \<and> (\<forall>i \<in> set (cn_unary c). i \<notin> set (map fst (cn_settled c)))
     \<and> (cn_closed c \<or> cn_sent_done c \<longrightarrow> cn_unary c = [] \<and> cn_streams c = [])"
proof -
  have "conn_inv c" by (rule conn_reachable_inv [OF assms(1)])
  then have d: "distinct (map fst (cn_settled c) @ cn_unary c)"
    "set (map fst (cn_settled c)) \<union> set (cn_unary c) = set (unary_calls c)"
    "cn_closed c \<or> cn_sent_done c \<longrightarrow> cn_unary c = [] \<and> cn_streams c = []"
    using assms(2) by (auto simp: conn_inv_def accounted_def)
  have 1: "distinct (map fst (cn_settled c))" "set (map fst (cn_settled c)) \<inter> set (cn_unary c) = {}"
    using d(1) unfolding distinct_append by blast+
  have "O_Call i False \<in> set (cn_wire c) = ((i \<in> set (cn_unary c)) \<noteq> (i \<in> set (map fst (cn_settled c))))" for i
    unfolding unary_calls_iff [symmetric] d(2) [symmetric] using 1(2) by blast
  then show ?thesis using 1 d(3) by blast
qed

lemma lost_not_unreachable: "outcome_error r = Some e \<Longrightarrow> is_actor_error_kind e Unreachable
    \<Longrightarrow> r = Peer_Error e \<or> r = Caller_Abort e"
  by (cases r) (auto simp: outcome_error_def lost_error_def is_actor_error_kind_def)

text \<open>
  \<open>unreachable\<close> means provably not sent. A call refused at dispatch has written nothing; a call that was
  written never ends as \<open>unreachable\<close> on this side's own account: only the peer's error or the
  caller's own abort reason can carry that kind, and a connection that dies under it answers
  "outcome unknown", which the placement does not retry.
\<close>

theorem unreachable_means_unsent:
  assumes "conn_reachable c"
  shows "(dispatch ab c = (Inl e, c') \<longrightarrow> cn_wire c' = cn_wire c)
     \<and> (dispatch ab c = (Inr i, c') \<longrightarrow> cn_wire c' = cn_wire c @ [O_Call i False])
     \<and> (\<forall>(i, r) \<in> set (cn_settled c). \<forall>x. outcome_error r = Some x \<and> is_actor_error_kind x Unreachable
           \<longrightarrow> r = Peer_Error x \<or> r = Caller_Abort x)
     \<and> (\<forall>i \<in> set (cn_unary c). \<not> cn_closed c \<longrightarrow> (i, Lost why) \<in> set (cn_settled (close_conn why c)))"
proof -
  have W: "cn_wire (close_conn s d) = cn_wire d" for s and d :: "'a conn"
    by (simp add: close_conn_def)
  have A: "cn_wire (snd (allocate_id c)) = cn_wire c" "cn_closed (snd (allocate_id c)) = cn_closed c"
    by (simp_all add: allocate_id_def)
  have D: "(dispatch ab c = (Inl e, c') \<longrightarrow> cn_wire c' = cn_wire c)
     \<and> (dispatch ab c = (Inr i, c') \<longrightarrow> cn_wire c' = cn_wire c @ [O_Call i False])"
    using A by (auto simp: dispatch_def send_frame_def Let_def split_def W split: if_splits option.splits)
  have L: "(i, Lost why) \<in> set (cn_settled (close_conn why c))" if "i \<in> set (cn_unary c)" "\<not> cn_closed c" for i
    using that by (simp add: close_conn_def)
  show ?thesis using D L lost_not_unreachable by blast
qed

definition demo_conn :: "nat conn" where
  "demo_conn = snd (dispatch None (on_frame (I_Reply 2 41) (snd (dispatch None (new_conn True)))))"

lemma demo_conn_reachable: "conn_reachable demo_conn"
proof -
  have "conn_reachable (snd (dispatch None (new_conn True :: nat conn)))"
    by (rule conn_reachable.step [OF conn_reachable.start conn_step.call [OF prod.collapse [symmetric]]])
  then have "conn_reachable (on_frames [I_Reply 2 41] (snd (dispatch None (new_conn True :: nat conn))))"
    by (rule conn_reachable.step [OF _ conn_step.data])
  moreover have "\<not> cn_closed (snd (dispatch None (new_conn True :: nat conn)))"
    by (simp add: dispatch_def new_conn_def allocate_id_def send_frame_def Let_def)
  ultimately have "conn_reachable (on_frame (I_Reply 2 41) (snd (dispatch None (new_conn True :: nat conn))))" by simp
  then show ?thesis unfolding demo_conn_def
    by (rule conn_reachable.step [OF _ conn_step.call [OF prod.collapse [symmetric]]])
qed

lemma demo_conn_state:
  "cn_settled demo_conn = [(2, Replied 41)]" "cn_unary demo_conn = [4]" "\<not> cn_wrapped demo_conn" "\<not> cn_closed demo_conn"
  by (simp_all add: demo_conn_def dispatch_def new_conn_def first_id_def allocate_id_def send_frame_def Let_def
      forget_unary_def settle_retirement_def settle_def)

theorem unary_calls_settle_once_witness:
  "O_Call 4 False \<in> set (cn_wire demo_conn) \<and> O_Call 6 False \<notin> set (cn_wire demo_conn)"
  using unary_calls_settle_once [OF demo_conn_reachable demo_conn_state(3)] demo_conn_state by auto

theorem unreachable_means_unsent_witness:
  "(4, Lost ''link closed'') \<in> set (cn_settled (close_conn ''link closed'' demo_conn))"
  using unreachable_means_unsent [OF demo_conn_reachable, of None _ _ _ "''link closed''"] demo_conn_state by auto

subsection \<open>Credit\<close>

text \<open>A producer sends no chunk beyond what its consumer has granted.\<close>

definition credit_inv :: "'v conn \<Rightarrow> bool" where
  "credit_inv c \<longleftrightarrow> (\<forall>i s. jget (cn_inbound c) i = Some s \<longrightarrow> ib_credit s = ib_granted s - int (ib_sent s))"

lemma pump_within_credit:
  assumes "credit_inv c" "jget (cn_inbound c) i = Some s" "pump_stream i (Yields v) c \<noteq> c"
  shows "int (Suc (ib_sent s)) \<le> ib_granted s"
  using assms by (auto simp: pump_stream_def credit_inv_def split: if_splits)

text \<open>A stream that has ended normally is still registered, so its last pull writes a CANCEL.\<close>

lemma ended_stream_still_cancels:
  "cn_wire (snd (pull_stream 32 2 (on_frame (I_End 2) (snd (dispatch_stream 32 None (new_conn True :: nat conn))))))
     = [O_Call 2 True, O_Cancel 2 ''consumer-return'']"
  by (simp add: pull_stream_def dispatch_stream_def new_conn_def first_id_def allocate_id_def send_frame_def Let_def
      consumer_of_def consumer_return_def forget_stream_def settle_retirement_def)

end
