(* ===== verification/Envelope.thy ===== *)
theory Envelope
  imports Actor_Ids
begin

section \<open>The call envelope, the context bag and the cluster authentication\<close>

text \<open>
  \<open>cluster/envelope.ts\<close>, \<open>call-bag-core.ts\<close> and the merge of \<open>call-context-bag.ts\<close>. The
  envelope is a JSON value; its text (\<open>asciiJson\<close>, \<open>JSON.parse\<close>) is the platform's. The keyed
  hash is a parameter. Times are milliseconds of the clock of the host that reads them.
\<close>

named_theorems envelope_simps \<open>the envelope's fields and bag checks\<close>

datatype json = JNull | JBool bool | JNum int | JStr string | JArr "json list" | JObj "(string \<times> json) list"

subsection \<open>The context bag\<close>

definition call_bag_max_entries :: nat where "call_bag_max_entries = 8"
definition call_bag_max_key_bytes :: nat where "call_bag_max_key_bytes = 64"
definition call_bag_max_value_bytes :: nat where "call_bag_max_value_bytes = 256"
definition call_bag_max_total_bytes :: nat where "call_bag_max_total_bytes = 1024"

text \<open>The UTF-8 length of a string of code units below 0x100.\<close>

definition utf8_len :: "string \<Rightarrow> nat" where
  "utf8_len s = sum_list (map (\<lambda>c. if of_char c < (128::nat) then 1 else 2) s)"

definition bag_entry_ok :: "string \<Rightarrow> json \<Rightarrow> bool" where
  "bag_entry_ok key v \<longleftrightarrow>
     key \<noteq> [] \<and> key \<noteq> ''__proto__'' \<and> key \<noteq> ''constructor'' \<and> key \<noteq> ''prototype''
     \<and> (case v of JStr s \<Rightarrow> utf8_len key \<le> call_bag_max_key_bytes \<and> utf8_len s \<le> call_bag_max_value_bytes | _ \<Rightarrow> False)"

definition json_bytes :: "json \<Rightarrow> nat" where
  "json_bytes v = (case v of JStr s \<Rightarrow> utf8_len s | _ \<Rightarrow> 0)"

definition bag_totals_ok :: "(string \<times> json) list \<Rightarrow> bool" where
  "bag_totals_ok entries \<longleftrightarrow>
     length entries \<le> call_bag_max_entries
     \<and> sum_list (map (\<lambda>(k, v). utf8_len k + json_bytes v) entries) \<le> call_bag_max_total_bytes"

definition is_valid_call_bag :: "json \<Rightarrow> bool" where
  "is_valid_call_bag v = (case v of
      JObj entries \<Rightarrow> (\<forall>(k, e) \<in> set entries. bag_entry_ok k e) \<and> bag_totals_ok entries
    | _ \<Rightarrow> False)"

definition sanitize_wire_bag :: "json option \<Rightarrow> (string \<times> json) list option" where
  "sanitize_wire_bag v = (case v of
      None \<Rightarrow> None
    | Some j \<Rightarrow> if \<not> is_valid_call_bag j then None
               else (case j of JObj entries \<Rightarrow> if entries = [] then None else Some entries | _ \<Rightarrow> None))"

text \<open>\<open>mergeCallBag\<close>: an invalid base is dropped, an invalid explicit entry or total is refused.\<close>

datatype bag_error = Bag_Entry string | Bag_Totals

definition merge_entries :: "(string \<times> json) list \<Rightarrow> (string \<times> json) list \<Rightarrow> (string, json) jmap" where
  "merge_entries base extra = fold (\<lambda>(k, v) m. jset m k v) extra (fold (\<lambda>(k, v) m. jset m k v) base [])"

definition merge_call_bag :: "json option \<Rightarrow> (string \<times> json) list option \<Rightarrow> bag_error + (string \<times> json) list option" where
  "merge_call_bag base extra =
     (let clean = sanitize_wire_bag base in
      case extra of
        None \<Rightarrow> Inr clean
      | Some ex \<Rightarrow>
          if ex = [] then Inr clean
          else (case List.find (\<lambda>(k, v). \<not> bag_entry_ok k v) ex of
              Some (k, _) \<Rightarrow> Inl (Bag_Entry k)
            | None \<Rightarrow>
                let merged = merge_entries (case clean of None \<Rightarrow> [] | Some es \<Rightarrow> es) ex in
                if bag_totals_ok merged then Inr (Some merged) else Inl Bag_Totals))"

lemma merge_get: "distinct (jkeys xs) \<Longrightarrow> jget (fold (\<lambda>(k, v) m. jset m k v) xs m) a
    = (case jget xs a of Some v \<Rightarrow> Some v | None \<Rightarrow> jget m a)"
proof (induction xs arbitrary: m)
  case (Cons p xs)
  obtain k v where p: "p = (k, v)" by force
  have "jget xs k = None" using Cons.prems p by (simp add: map_of_eq_None_iff)
  then show ?case using Cons p by (auto split: option.split)
qed simp

lemma merge_keys: "distinct (jkeys m) \<Longrightarrow> distinct (jkeys (fold (\<lambda>(k, v) m. jset m k v) xs m))"
  by (induction xs arbitrary: m) (auto simp: distinct_update split: prod.splits)

lemma sanitize_ok: "sanitize_wire_bag v = Some es \<Longrightarrow> (\<forall>(k, e) \<in> set es. bag_entry_ok k e) \<and> bag_totals_ok es \<and> es \<noteq> []"
  by (auto simp: sanitize_wire_bag_def is_valid_call_bag_def split: option.splits json.splits if_splits)

text \<open>
  C40. A merged bag is always one a receiver accepts, whatever was in the base object (its characters below 0x100): every entry valid,
  within the caps and with the explicit entries winning over the inherited ones.
\<close>

theorem merged_bag_is_valid:
  assumes "merge_call_bag (Some (JObj base)) extra = Inr (Some es)" and "distinct (jkeys base)"
    and "\<And>ex. extra = Some ex \<Longrightarrow> distinct (jkeys ex)"
  shows "is_valid_call_bag (JObj es) \<and> sanitize_wire_bag (Some (JObj es)) = Some es
     \<and> (\<forall>k. jget es k = (case extra of
            Some ex \<Rightarrow> (case jget ex k of
                Some v \<Rightarrow> Some v
              | None \<Rightarrow> if is_valid_call_bag (JObj base) then jget base k else None)
          | None \<Rightarrow> jget base k))"
proof -
  define b where "b = (case sanitize_wire_bag (Some (JObj base)) of None \<Rightarrow> [] | Some xs \<Rightarrow> xs)"
  have b: "b = (if is_valid_call_bag (JObj base) then base else [])"
    by (auto simp: b_def sanitize_wire_bag_def)
  show ?thesis
  proof (cases "\<exists>ex. extra = Some ex \<and> ex \<noteq> []")
    case False
    then have s: "sanitize_wire_bag (Some (JObj base)) = Some es"
      using assms(1) by (auto simp: merge_call_bag_def Let_def split: option.splits)
    then have "es = base" "is_valid_call_bag (JObj base)" "es \<noteq> []"
      by (auto simp: sanitize_wire_bag_def split: if_splits)
    then show ?thesis using False s by (auto split: option.splits)
  next
    case True
    then obtain ex where ex: "extra = Some ex" "ex \<noteq> []" by blast
    then have f: "List.find (\<lambda>(k, v). \<not> bag_entry_ok k v) ex = None" and es: "es = merge_entries b ex" and t: "bag_totals_ok es"
      using assms(1) by (auto simp: merge_call_bag_def Let_def b_def split: option.splits if_splits)
    have dx: "distinct (jkeys ex)" using assms(3) ex by blast
    have db: "distinct (jkeys b)" using assms(2) by (simp add: b)
    have g: "jget es k = (case jget ex k of Some v \<Rightarrow> Some v | None \<Rightarrow> jget b k)" for k
      by (simp add: es merge_entries_def merge_get [OF dx] merge_get [OF db] split: option.split)
    have de: "distinct (jkeys es)" unfolding es merge_entries_def by (intro merge_keys) simp
    have ok: "bag_entry_ok k v" if "(k, v) \<in> set es" for k v
    proof -
      have "jget es k = Some v" using that de by (simp add: map_of_is_SomeI)
      then have "(k, v) \<in> set ex \<or> (k, v) \<in> set b" using g [of k] by (auto dest: map_of_SomeD split: option.splits)
      then show ?thesis
        using f by (auto simp: b find_None_iff is_valid_call_bag_def split: if_splits)
    qed
    have ne: "es \<noteq> []"
    proof
      assume "es = []"
      then have "jget ex (fst (hd ex)) = None" using g [of "fst (hd ex)"] by (auto split: option.splits)
      then show False using ex(2) by (cases ex) auto
    qed
    show ?thesis using ok t ne g ex by (auto simp: is_valid_call_bag_def sanitize_wire_bag_def b split: option.splits)
  qed
qed

theorem merged_bag_is_valid_witness:
  "is_valid_call_bag (JObj [(''user'', JStr ''ada''), (''tenant'', JStr ''x'')])"
proof -
  have "merge_call_bag (Some (JObj [(''user'', JStr ''bob'')])) (Some [(''user'', JStr ''ada''), (''tenant'', JStr ''x'')])
      = Inr (Some [(''user'', JStr ''ada''), (''tenant'', JStr ''x'')])"
    by code_simp
  from merged_bag_is_valid [OF this] show ?thesis by simp
qed

subsection \<open>The envelope\<close>

record call_ctx =
  cc_chain :: "string list"
  cc_id :: string
  cc_deadline :: "int option"
  cc_trace :: "string option"
  cc_one_way :: bool
  cc_bag :: "json option"
  cc_principal :: "string option"

definition host_proto :: int where "host_proto = 1"
definition max_hops :: int where "max_hops = 8"

definition opt_field :: "string \<Rightarrow> json option \<Rightarrow> (string \<times> json) list" where
  "opt_field k v = (case v of None \<Rightarrow> [] | Some x \<Rightarrow> [(k, x)])"

definition wire_bag :: "json option \<Rightarrow> json option" where
  "wire_bag b = (case b of
      Some (JObj es) \<Rightarrow> if is_valid_call_bag (JObj es) \<and> es \<noteq> [] then Some (JObj es) else None
    | _ \<Rightarrow> None)"

definition encode_envelope :: "int \<Rightarrow> call_ctx \<Rightarrow> string \<Rightarrow> json" where
  "encode_envelope now call from' = JObj (
     [(''v'', JNum host_proto), (''callId'', JStr (cc_id call)), (''chain'', JArr (map JStr (cc_chain call)))]
     @ opt_field ''remainingMs'' (map_option (\<lambda>d. JNum (max 0 (d - now))) (cc_deadline call))
     @ [(''from'', JStr from'), (''hops'', JNum 1)]
     @ opt_field ''tp'' (case cc_trace call of Some t \<Rightarrow> if is_traceparent t then Some (JStr t) else None | None \<Rightarrow> None)
     @ opt_field ''ow'' (if cc_one_way call then Some (JNum 1) else None)
     @ opt_field ''bag'' (wire_bag (cc_bag call))
     @ opt_field ''pr'' (case cc_principal call of Some p \<Rightarrow> if p \<noteq> [] then Some (JStr p) else None | None \<Rightarrow> None))"

datatype envelope_error = Type_Error | Version_Skew | Malformed_Header | Too_Many_Hops

definition json_strings :: "json list \<Rightarrow> string list option" where
  "json_strings js = (if \<forall>j \<in> set js. case j of JStr _ \<Rightarrow> True | _ \<Rightarrow> False
                      then Some (map (\<lambda>j. case j of JStr s \<Rightarrow> s | _ \<Rightarrow> []) js) else None)"

definition decode_envelope :: "int \<Rightarrow> json \<Rightarrow> envelope_error + call_ctx \<times> string" where
  "decode_envelope now j =
     (case j of
        JNull \<Rightarrow> Inl Type_Error
      | _ \<Rightarrow>
        let fs = (case j of JObj es \<Rightarrow> es | _ \<Rightarrow> []); f = map_of fs in
        if f ''v'' \<noteq> Some (JNum host_proto) then Inl Version_Skew
        else (case (f ''callId'', f ''chain'', f ''from'', f ''hops'') of
            (Some (JStr cid), Some (JArr ch), Some (JStr fr), Some (JNum hops)) \<Rightarrow>
              (case json_strings ch of
                 None \<Rightarrow> Inl Malformed_Header
               | Some chain \<Rightarrow>
                   if \<not> (case f ''remainingMs'' of None \<Rightarrow> True | Some (JNum _) \<Rightarrow> True | _ \<Rightarrow> False)
                   then Inl Malformed_Header
                   else if hops > max_hops then Inl Too_Many_Hops
                   else Inr (\<lparr>cc_chain = chain, cc_id = cid,
                       cc_deadline = (case f ''remainingMs'' of Some (JNum r) \<Rightarrow> Some (now + max 0 r) | _ \<Rightarrow> None),
                       cc_trace = (case f ''tp'' of Some (JStr t) \<Rightarrow> if is_traceparent t then Some t else None | _ \<Rightarrow> None),
                       cc_one_way = (f ''ow'' = Some (JNum 1)),
                       cc_bag = map_option JObj (sanitize_wire_bag (f ''bag'')),
                       cc_principal = (case f ''pr'' of Some (JStr p) \<Rightarrow> if p \<noteq> [] then Some p else None | _ \<Rightarrow> None)\<rparr>, fr))
          | _ \<Rightarrow> Inl Malformed_Header))"

text \<open>What a call looks like on the other side: the same, with the deadline moved to the other clock.\<close>

definition arrives_as :: "int \<Rightarrow> int \<Rightarrow> call_ctx \<Rightarrow> call_ctx" where
  "arrives_as now now' call = call\<lparr>
     cc_deadline := map_option (\<lambda>d. now' + max 0 (d - now)) (cc_deadline call),
     cc_trace := (case cc_trace call of Some t \<Rightarrow> if is_traceparent t then Some t else None | None \<Rightarrow> None),
     cc_bag := wire_bag (cc_bag call),
     cc_principal := (case cc_principal call of Some p \<Rightarrow> if p \<noteq> [] then Some p else None | None \<Rightarrow> None)\<rparr>"

lemma json_strings_map: "json_strings (map JStr ss) = Some ss"
  by (simp add: json_strings_def comp_def)

lemma opt_field_map: "map_of (opt_field k v @ rest) a = (if a = k \<and> v \<noteq> None then v else map_of rest a)"
  by (auto simp: opt_field_def split: option.split)

lemma sanitize_wire_bag_wire: "map_option JObj (sanitize_wire_bag (wire_bag b)) = wire_bag b"
  by (auto simp: wire_bag_def sanitize_wire_bag_def split: option.split json.split)

text \<open>
  The envelope round trip: a receiver reads exactly the call that was sent, with the deadline moved to
  its own clock with the same time left, so clock skew never changes a call's budget; only a
  malformed traceparent, an invalid bag or an empty principal is dropped, and nothing else.
\<close>

theorem envelope_roundtrip:
  "decode_envelope now' (encode_envelope now call from') = Inr (arrives_as now now' call, from')"
proof -
  let ?f = "map_of (case encode_envelope now call from' of JObj es \<Rightarrow> es | _ \<Rightarrow> [])"
  have o: "opt_field k v = opt_field k v @ []" for k v by simp
  have f: "?f ''v'' = Some (JNum host_proto)" "?f ''callId'' = Some (JStr (cc_id call))"
    "?f ''chain'' = Some (JArr (map JStr (cc_chain call)))" "?f ''from'' = Some (JStr from')" "?f ''hops'' = Some (JNum 1)"
    "?f ''remainingMs'' = map_option (\<lambda>d. JNum (max 0 (d - now))) (cc_deadline call)"
    "?f ''tp'' = (case cc_trace call of Some t \<Rightarrow> if is_traceparent t then Some (JStr t) else None | None \<Rightarrow> None)"
    "?f ''ow'' = (if cc_one_way call then Some (JNum 1) else None)"
    "?f ''bag'' = wire_bag (cc_bag call)"
    "?f ''pr'' = (case cc_principal call of Some p \<Rightarrow> if p \<noteq> [] then Some (JStr p) else None | None \<Rightarrow> None)"
    unfolding encode_envelope_def json.case
    by (simp_all add: opt_field_map map_add_def opt_field_def split: option.split)
  have e: "encode_envelope now call from' = JObj (case encode_envelope now call from' of JObj es \<Rightarrow> es | _ \<Rightarrow> [])"
    by (simp add: encode_envelope_def)
  show ?thesis
    by (subst e, unfold decode_envelope_def json.case Let_def f)
       (simp add: json_strings_map max_hops_def arrives_as_def sanitize_wire_bag_wire split: option.split)
qed

subsection \<open>The cluster authentication\<close>

definition auth_window_ms :: int where "auth_window_ms = 300000"

definition nl :: char where "nl = CHR 0x0A"

definition auth_message :: "string \<Rightarrow> string \<Rightarrow> nat \<Rightarrow> string" where
  "auth_message symbol call_id ts = show_int host_proto @ [nl] @ symbol @ [nl] @ call_id @ [nl] @ show_nat ts"

definition sign_auth :: "(string \<Rightarrow> string \<Rightarrow> string) \<Rightarrow> nat \<Rightarrow> string \<Rightarrow> string \<Rightarrow> string \<Rightarrow> string" where
  "sign_auth hmac now secret symbol call_id = ''v1.'' @ show_nat now @ ''.'' @ hmac secret (auth_message symbol call_id now)"

definition verify_auth :: "(string \<Rightarrow> string \<Rightarrow> string) \<Rightarrow> nat \<Rightarrow> string \<Rightarrow> string option \<Rightarrow> string \<Rightarrow> string \<Rightarrow> bool" where
  "verify_auth hmac now secret header symbol call_id =
     (case header of
        None \<Rightarrow> False
      | Some h \<Rightarrow>
          if h = [] then False
          else (case split_on (CHR ''.'') h of
              [version, raw, signature] \<Rightarrow>
                if version \<noteq> ''v1'' \<or> \<not> (list_all is_digit raw \<and> 1 \<le> length raw \<and> length raw \<le> 15) then False
                else if \<not> hex_run 64 signature then False
                else (let ts = read_base 10 0 raw in
                  if \<bar>int now - int ts\<bar> > auth_window_ms then False
                  else timing_safe_equals signature (hmac secret (auth_message symbol call_id ts)))
            | _ \<Rightarrow> False))"

lemma nl_not_digit: "nl \<notin> set (show_nat n)" "nl \<notin> set (show_int i)"
  by (auto simp: show_int_def nl_def not_digit_not_in_show is_digit_def)

lemma auth_message_inject:
  assumes "nl \<notin> set s" "nl \<notin> set c" "nl \<notin> set s'" "nl \<notin> set c'"
    and "auth_message s c t = auth_message s' c' t'"
  shows "s = s' \<and> c = c' \<and> t = t'"
proof -
  have S: "split_on nl (auth_message x y n) = [show_int host_proto, x, y, show_nat n]"
    if "nl \<notin> set x" "nl \<notin> set y" for x y n
  proof -
    have "split_on nl (auth_message x y n) = show_int host_proto # split_on nl (x @ nl # y @ nl # show_nat n)"
      unfolding auth_message_def by (simp add: split_on_append [OF nl_not_digit(2)])
    also have "\<dots> = show_int host_proto # x # y # split_on nl (show_nat n)"
      by (simp only: split_on_append [OF that(1)] split_on_append [OF that(2)])
    finally show ?thesis by (simp only: split_on_free [OF nl_not_digit(1)])
  qed
  have "[show_int host_proto, s, c, show_nat t] = [show_int host_proto, s', c', show_nat t']"
    unfolding S [OF assms(1,2), symmetric] S [OF assms(3,4), symmetric] by (rule arg_cong [OF assms(5)])
  then show ?thesis by simp
qed

lemma hex_no_dot: "hex_run n s \<Longrightarrow> CHR ''.'' \<notin> set s"
  by (auto simp: hex_run_def list_all_iff is_lower_hex_def is_digit_def)

lemma show_nat_read: "read_base 10 0 (show_nat n) = n"
  by (simp add: show_nat_def read_show_base)

text \<open>
  The authentication header authorizes its own call and no other: within the window the receiver accepts
  what the sender signed; outside it, or under a different keyed hash of the claimed call, it does
  not; and the signed messages of two calls whose symbols and ids hold no newline are different
  texts, so accepting the header for another call takes a collision of the keyed hash.
\<close>

theorem auth_binds_the_call:
  assumes "\<And>k m. hex_run 64 (hmac k m)" and "length (show_nat t) \<le> 15"
    and "nl \<notin> set s" "nl \<notin> set c" "nl \<notin> set s'" "nl \<notin> set c'"
  shows "verify_auth hmac now k' (Some (sign_auth hmac t k s c)) s' c'
           = (\<bar>int now - int t\<bar> \<le> auth_window_ms
              \<and> hmac k (auth_message s c t) = hmac k' (auth_message s' c' t))
       \<and> (auth_message s c t = auth_message s' c' t) = (s = s' \<and> c = c')"
proof -
  have h: "hex_run 64 (hmac k (auth_message s c t))" by (rule assms(1))
  have v1: "CHR ''.'' \<notin> set ''v1''" by simp
  have d: "CHR ''.'' \<notin> set (show_nat t)" by (rule not_digit_not_in_show) (simp add: is_digit_def)
  have "split_on (CHR ''.'') (sign_auth hmac t k s c)
      = ''v1'' # split_on (CHR ''.'') (show_nat t @ CHR ''.'' # hmac k (auth_message s c t))"
    using split_on_append [OF v1, of "show_nat t @ CHR ''.'' # hmac k (auth_message s c t)"] by (simp add: sign_auth_def)
  also have "\<dots> = [''v1'', show_nat t, hmac k (auth_message s c t)]"
    by (simp only: split_on_append [OF d] split_on_free [OF hex_no_dot [OF h]])
  finally have sp: "split_on (CHR ''.'') (sign_auth hmac t k s c) = [''v1'', show_nat t, hmac k (auth_message s c t)]" .
  have ne: "sign_auth hmac t k s c \<noteq> []" by (simp add: sign_auth_def)
  have len: "1 \<le> length (show_nat t)" by (cases "show_nat t") (simp_all add: show_nat_ne [simplified])
  have "verify_auth hmac now k' (Some (sign_auth hmac t k s c)) s' c'
           = (\<bar>int now - int t\<bar> \<le> auth_window_ms
              \<and> hmac k (auth_message s c t) = hmac k' (auth_message s' c' t))"
    using ne h assms(2) len show_nat_digits [of t]
    by (simp add: verify_auth_def sp show_nat_read timing_safe_equals_iff Let_def not_less)
  moreover have "(auth_message s c t = auth_message s' c' t) = (s = s' \<and> c = c')"
    using auth_message_inject [OF assms(3-6)] by blast
  ultimately show ?thesis by blast
qed

theorem auth_binds_the_call_witness:
  "verify_auth (\<lambda>k m. replicate 64 (CHR ''a'')) 1000 ''k'' (Some (sign_auth (\<lambda>k m. replicate 64 (CHR ''a'')) 2000 ''k'' ''s'' ''c'')) ''s'' ''c''"
proof -
  have "hex_run 64 (replicate 64 (CHR ''a''))" by (simp add: hex_run_def is_lower_hex_def list_all_iff)
  moreover have "length (show_nat 2000) \<le> 15" by code_simp
  ultimately show ?thesis
    using auth_binds_the_call [of "\<lambda>k m. replicate 64 (CHR ''a'')" 2000 "''s''" "''c''" "''s''" "''c''" 1000 "''k''" "''k''"]
    by (simp add: nl_def auth_window_ms_def)
qed

end
