(* ===== verification/Reminders.thy ===== *)
theory Reminders
  imports Cas_Storage
begin

section \<open>Durable reminders\<close>

text \<open>
  \<open>host/reminders.ts\<close>: reminders of many actors in sixteen shard records, each edited under the storage
  CAS from a cached table or a fresh load, and a tick that advances what is due before it
  delivers it. As in \<^verbatim>\<open>Task_Ledger\<close> the definitions take the storage operations as arguments, the
  lemmas use the contract of \<^verbatim>\<open>Cas_Storage\<close>, and \<open>env i\<close> is what everybody else does during attempt
  \<open>i\<close>: other writers to the store, and this host's own \<open>list\<close> calls to the cache. A record is a
  map in insertion order, so a name that is an array index may be visited later than in the
  code, and the name \<open>__proto__\<close> is not modelled.
\<close>

subsection \<open>State\<close>

record reminder_entry =
  rm_due :: int
  rm_period :: "int option"

type_synonym reminder_table = "(string, (string, reminder_entry) jmap) jmap"

record shard_record =
  sr_table :: reminder_table
  sr_etag :: "string option"

record rem_service =
  rs_cache :: "(string, shard_record) jmap"
  rs_contended :: "(string, int) jmap"

record due_reminder =
  du_id :: string
  du_ref :: actor_ref
  du_name :: string
  du_advanced :: "reminder_entry option"

definition new_service :: rem_service where
  "new_service = \<lparr>rs_cache = [], rs_contended = []\<rparr>"

definition reminder_type :: string where
  "reminder_type = ''$sigx:reminders''"

definition min_period_ms :: int where
  "min_period_ms = 60000"

definition rem_attempts :: nat where
  "rem_attempts = 3"

subsection \<open>One shard record\<close>

definition shard_loaded ::
  "('s \<Rightarrow> string \<Rightarrow> string \<Rightarrow> ('r \<times> string) option) \<Rightarrow> ('r \<Rightarrow> reminder_table) \<Rightarrow> string \<Rightarrow> 's \<Rightarrow> shard_record" where
  "shard_loaded ld revive shard s =
     (case ld s reminder_type shard of
        None \<Rightarrow> \<lparr>sr_table = [], sr_etag = None\<rparr>
      | Some (r, et) \<Rightarrow> \<lparr>sr_table = revive r, sr_etag = Some et\<rparr>)"

definition shard_load ::
  "('s \<Rightarrow> string \<Rightarrow> string \<Rightarrow> ('r \<times> string) option) \<Rightarrow> ('r \<Rightarrow> reminder_table) \<Rightarrow> string \<Rightarrow> 's \<Rightarrow> rem_service
     \<Rightarrow> shard_record \<times> rem_service" where
  "shard_load ld revive shard s svc =
     (let r = shard_loaded ld revive shard s in (r, svc\<lparr>rs_cache := jset (rs_cache svc) shard r\<rparr>))"

text \<open>\<open>#isContended\<close>: an expired mark is dropped on the way.\<close>

definition is_contended :: "int \<Rightarrow> string \<Rightarrow> rem_service \<Rightarrow> bool \<times> rem_service" where
  "is_contended now shard svc =
     (case jget (rs_contended svc) shard of
        None \<Rightarrow> (False, svc)
      | Some until \<Rightarrow>
          if now < until then (True, svc)
          else (False, svc\<lparr>rs_contended := jdel (rs_contended svc) shard\<rparr>))"

text \<open>Where an attempt starts from: the cache, unless it may not; else the store.\<close>

definition shard_start ::
  "('s \<Rightarrow> string \<Rightarrow> string \<Rightarrow> ('r \<times> string) option) \<Rightarrow> ('r \<Rightarrow> reminder_table) \<Rightarrow> bool \<Rightarrow> int \<Rightarrow> string \<Rightarrow> 's \<Rightarrow> rem_service
     \<Rightarrow> bool \<times> shard_record \<times> rem_service" where
  "shard_start ld revive fresh now shard s svc =
     (let (contended, svc1) = (if fresh then (True, svc) else is_contended now shard svc) in
      case (if contended then None else jget (rs_cache svc1) shard) of
        Some r \<Rightarrow> (True, r, svc1)
      | None \<Rightarrow>
          (let (r, svc2) = shard_load ld revive shard s svc1 in
           (False, r, if fresh then svc2\<lparr>rs_contended := jdel (rs_contended svc2) shard\<rparr> else svc2)))"

text \<open>
  \<open>#mutateNow\<close>, with the attempts left as the recursion's argument. An edit reads the clock, so it
  depends on the attempt; it answers the new table when it changed something, and whatever it
  collects on the way.
\<close>

fun mutate_shard ::
  "('s \<Rightarrow> string \<Rightarrow> string \<Rightarrow> ('r \<times> string) option)
     \<Rightarrow> ('s \<Rightarrow> string \<Rightarrow> string \<Rightarrow> 'v \<Rightarrow> string option \<Rightarrow> storage_error + (string \<times> 's))
     \<Rightarrow> (reminder_table \<Rightarrow> 'v) \<Rightarrow> ('r \<Rightarrow> reminder_table) \<Rightarrow> int \<Rightarrow> (nat \<Rightarrow> int) \<Rightarrow> bool \<Rightarrow> string
     \<Rightarrow> (nat \<Rightarrow> reminder_table \<Rightarrow> reminder_table option \<times> 'o)
     \<Rightarrow> (nat \<Rightarrow> rem_service \<times> 's \<Rightarrow> rem_service \<times> 's) \<Rightarrow> nat \<Rightarrow> rem_service \<Rightarrow> 's
     \<Rightarrow> (storage_error + 'o) \<times> rem_service \<times> 's" where
  "mutate_shard ld sv encode revive tick_ms clock fresh shard edit env left svc s =
     (let (from_cache, r, svc1) = shard_start ld revive fresh (clock left) shard s svc in
      case edit left (sr_table r) of
        (None, out) \<Rightarrow> (Inr out, svc1, s)
      | (Some tbl, out) \<Rightarrow>
          (let (svc2, s1) = env left (svc1, s) in
           case sv s1 reminder_type shard (encode tbl) (sr_etag r) of
             Inr (et, s2) \<Rightarrow>
               (Inr out, svc2\<lparr>rs_cache := jset (rs_cache svc2) shard \<lparr>sr_table = tbl, sr_etag = Some et\<rparr>\<rparr>, s2)
           | Inl e \<Rightarrow>
               (let svc3 = svc2\<lparr>rs_cache := jdel (rs_cache svc2) shard\<rparr> in
                case left of
                  0 \<Rightarrow> (Inl e, svc3, s1)
                | Suc n \<Rightarrow>
                    if \<not> is_storage_conflict e then (Inl e, svc3, s1)
                    else mutate_shard ld sv encode revive tick_ms clock fresh shard edit env n
                           (if from_cache
                            then svc3\<lparr>rs_contended := jset (rs_contended svc3) shard (clock left + tick_ms)\<rparr>
                            else svc3) s1)))"

declare mutate_shard.simps [simp del]

subsection \<open>The actor's API\<close>

definition entries_of :: "reminder_table \<Rightarrow> string \<Rightarrow> (string, reminder_entry) jmap" where
  "entries_of t aid = (case jget t aid of None \<Rightarrow> [] | Some es \<Rightarrow> es)"

text \<open>The refusal of \<open>set\<close>, before anything is read.\<close>

definition period_refused :: "int option \<Rightarrow> bool" where
  "period_refused period = (case period of None \<Rightarrow> False | Some p \<Rightarrow> p < min_period_ms)"

definition set_reminder ::
  "string \<Rightarrow> string \<Rightarrow> int \<Rightarrow> int option \<Rightarrow> int \<Rightarrow> reminder_table \<Rightarrow> reminder_table option \<times> unit" where
  "set_reminder aid name due period now t =
     (Some (jset t aid (jset (entries_of t aid) name \<lparr>rm_due = now + due, rm_period = period\<rparr>)), ())"

definition clear_reminder :: "string \<Rightarrow> string \<Rightarrow> reminder_table \<Rightarrow> reminder_table option \<times> unit" where
  "clear_reminder aid name t =
     (if \<not> jhas (entries_of t aid) name then (None, ())
      else let es = jdel (entries_of t aid) name in
        (Some (if es = [] then jdel t aid else jset t aid es), ()))"

definition list_reminders ::
  "('s \<Rightarrow> string \<Rightarrow> string \<Rightarrow> ('r \<times> string) option) \<Rightarrow> ('r \<Rightarrow> reminder_table) \<Rightarrow> actor_ref \<Rightarrow> 's \<Rightarrow> rem_service
     \<Rightarrow> string list \<times> rem_service" where
  "list_reminders ld revive ref s svc =
     (let (r, svc') = shard_load ld revive (reminder_shard_of (actor_id ref)) s svc in
      (jkeys (entries_of (sr_table r) (actor_id ref)), svc'))"

subsection \<open>The tick\<close>

definition next_due :: "int \<Rightarrow> int \<Rightarrow> int \<Rightarrow> int" where
  "next_due now due period = (let n = due + period in if n \<le> now then now + period else n)"

definition advance_entry :: "int \<Rightarrow> reminder_entry \<Rightarrow> reminder_entry option" where
  "advance_entry now e =
     (if now < rm_due e then Some e
      else case rm_period e of None \<Rightarrow> None | Some p \<Rightarrow> Some (e\<lparr>rm_due := next_due now (rm_due e) p\<rparr>))"

definition tick_entries :: "int \<Rightarrow> (string, reminder_entry) jmap \<Rightarrow> (string, reminder_entry) jmap" where
  "tick_entries now es = List.map_filter (\<lambda>(n, e). map_option (Pair n) (advance_entry now e)) es"

definition due_entries :: "int \<Rightarrow> string \<Rightarrow> actor_ref \<Rightarrow> (string, reminder_entry) jmap \<Rightarrow> due_reminder list" where
  "due_entries now aid ref es =
     map (\<lambda>(n, e). \<lparr>du_id = aid, du_ref = ref, du_name = n, du_advanced = advance_entry now e\<rparr>)
       (filter (\<lambda>(n, e). rm_due e \<le> now) es)"

text \<open>The edit of \<open>#tickShard\<close>: an id that does not parse is left alone, an emptied record goes.\<close>

definition tick_table :: "int \<Rightarrow> reminder_table \<Rightarrow> reminder_table" where
  "tick_table now t = List.map_filter (\<lambda>(aid, es). case ref_of aid of
       None \<Rightarrow> Some (aid, es)
     | Some _ \<Rightarrow> let es' = tick_entries now es in if es' = [] then None else Some (aid, es')) t"

definition due_in_table :: "int \<Rightarrow> reminder_table \<Rightarrow> due_reminder list" where
  "due_in_table now t = concat (map (\<lambda>(aid, es). case ref_of aid of
       None \<Rightarrow> [] | Some ref \<Rightarrow> due_entries now aid ref es) t)"

definition entries_in_record :: "reminder_table \<Rightarrow> nat" where
  "entries_in_record t = sum_list (map (\<lambda>(_, es). length es) t)"

definition tick_edit :: "int \<Rightarrow> reminder_table \<Rightarrow> reminder_table option \<times> due_reminder list \<times> nat" where
  "tick_edit now t =
     (let due = due_in_table now t in
      (if due = [] then None else Some (tick_table now t), due, entries_in_record t))"

text \<open>\<open>#rearm\<close>: what the tick left untouched goes back, due one tick out.\<close>

definition rearm_one :: "int \<Rightarrow> due_reminder \<Rightarrow> bool \<times> reminder_table \<Rightarrow> bool \<times> reminder_table" where
  "rearm_one next d st = (case st of (changed, t) \<Rightarrow>
     (let es = entries_of t (du_id d); current = jget es (du_name d) in
      case du_advanced d of
        None \<Rightarrow>
          (case current of
             Some _ \<Rightarrow> (changed, t)
           | None \<Rightarrow> (True, jset t (du_id d) (jset es (du_name d) \<lparr>rm_due = next, rm_period = None\<rparr>)))
      | Some adv \<Rightarrow>
          (case current of
             None \<Rightarrow> (changed, t)
           | Some cur \<Rightarrow>
               if cur = adv \<and> next < rm_due cur
               then (True, jset t (du_id d) (jset es (du_name d) (cur\<lparr>rm_due := next\<rparr>)))
               else (changed, t))))"

definition rearm_edit :: "int \<Rightarrow> due_reminder list \<Rightarrow> reminder_table \<Rightarrow> reminder_table option \<times> unit" where
  "rearm_edit next failed t =
     (let (changed, t') = fold (rearm_one next) failed (False, t) in (if changed then Some t' else None, ()))"

text \<open>
  \<open>#tickShard\<close>: advance and persist, deliver, re-arm what failed. \<open>delivers\<close> is what a delivery
  answers; \<open>tick_env\<close> and \<open>rearm_env\<close> are the others during the two edits, and \<open>between\<close> while the
  deliveries run. The re-arm's own failure is swallowed.
\<close>

definition tick_shard ::
  "('s \<Rightarrow> string \<Rightarrow> string \<Rightarrow> ('r \<times> string) option)
     \<Rightarrow> ('s \<Rightarrow> string \<Rightarrow> string \<Rightarrow> 'v \<Rightarrow> string option \<Rightarrow> storage_error + (string \<times> 's))
     \<Rightarrow> (reminder_table \<Rightarrow> 'v) \<Rightarrow> ('r \<Rightarrow> reminder_table) \<Rightarrow> int \<Rightarrow> int \<Rightarrow> (nat \<Rightarrow> int)
     \<Rightarrow> (due_reminder \<Rightarrow> bool) \<Rightarrow> (nat \<Rightarrow> rem_service \<times> 's \<Rightarrow> rem_service \<times> 's)
     \<Rightarrow> (rem_service \<times> 's \<Rightarrow> rem_service \<times> 's) \<Rightarrow> (nat \<Rightarrow> rem_service \<times> 's \<Rightarrow> rem_service \<times> 's)
     \<Rightarrow> string \<Rightarrow> rem_service \<Rightarrow> 's
     \<Rightarrow> (storage_error + due_reminder list \<times> nat) \<times> rem_service \<times> 's" where
  "tick_shard ld sv encode revive tick_ms now later delivers tick_env between rearm_env shard svc s =
     (case mutate_shard ld sv encode revive tick_ms (\<lambda>_. now) True shard (\<lambda>_. tick_edit now) tick_env (rem_attempts - 1) svc s of
        (Inl e, svc1, s1) \<Rightarrow> (Inl e, svc1, s1)
      | (Inr (due, size'), svc1, s1) \<Rightarrow>
          (let (svc2, s2) = between (svc1, s1);
               failed = filter (\<lambda>d. \<not> delivers d) due
           in if failed = [] then (Inr (due, size'), svc2, s2)
              else (case mutate_shard ld sv encode revive tick_ms later False shard
                           (\<lambda>k. rearm_edit (later k + tick_ms) failed) rearm_env (rem_attempts - 1) svc2 s2 of
                      (_, svc3, s3) \<Rightarrow> (Inr (due, size'), svc3, s3))))"


subsection \<open>The cache never costs an update\<close>

text \<open>What is cached was once in the store, possibly long ago.\<close>

definition cache_fits ::
  "('s \<Rightarrow> string \<Rightarrow> string \<Rightarrow> ('r \<times> string) option) \<Rightarrow> ('r \<Rightarrow> reminder_table) \<Rightarrow> ('s \<Rightarrow> bool) \<Rightarrow> ('s \<Rightarrow> 's \<Rightarrow> bool)
     \<Rightarrow> rem_service \<Rightarrow> 's \<Rightarrow> bool" where
  "cache_fits ld revive ok evolves svc s \<longleftrightarrow> (\<forall>shard r. jget (rs_cache svc) shard = Some r
      \<longrightarrow> (\<exists>s0. ok s0 \<and> evolves s0 s \<and> r = shard_loaded ld revive shard s0))"

text \<open>An edit that applied: to the shard as the store had it at the write, which left its result.\<close>

definition rem_applied ::
  "('s \<Rightarrow> string \<Rightarrow> string \<Rightarrow> ('r \<times> string) option) \<Rightarrow> ('r \<Rightarrow> reminder_table) \<Rightarrow> string
     \<Rightarrow> (reminder_table \<Rightarrow> reminder_table option \<times> 'o) \<Rightarrow> 's \<Rightarrow> 's \<Rightarrow> 'o \<Rightarrow> bool" where
  "rem_applied ld revive shard edit before after out \<longleftrightarrow>
     snd (edit (sr_table (shard_loaded ld revive shard before))) = out
     \<and> (case fst (edit (sr_table (shard_loaded ld revive shard before))) of
          None \<Rightarrow> after = before
        | Some t \<Rightarrow> sr_table (shard_loaded ld revive shard after) = t)"

lemma cache_fits_new: "cache_fits ld revive ok evolves new_service s"
  by (simp add: cache_fits_def new_service_def)

context cas_storage
begin

lemma shard_loaded_etag: "sr_etag (shard_loaded load revive shard s) = map_option snd (load s reminder_type shard)"
  by (simp add: shard_loaded_def split: option.splits prod.splits)

lemma shard_loaded_cong:
  "load s' reminder_type shard = load s reminder_type shard
     \<Longrightarrow> shard_loaded load revive shard s' = shard_loaded load revive shard s"
  by (simp add: shard_loaded_def)

lemma cache_fits_evolves:
  "cache_fits load revive ok evolves svc s \<Longrightarrow> evolves s s' \<Longrightarrow> cache_fits load revive ok evolves svc s'"
  unfolding cache_fits_def by (meson evolves_trans)

lemma cache_fits_prime:
  "cache_fits load revive ok evolves svc s \<Longrightarrow> ok s0 \<Longrightarrow> evolves s0 s
     \<Longrightarrow> cache_fits load revive ok evolves (svc\<lparr>rs_cache := jset (rs_cache svc) shard (shard_loaded load revive shard s0)\<rparr>) s"
  unfolding cache_fits_def by auto

lemma cache_fits_drop:
  "cache_fits load revive ok evolves svc s
     \<Longrightarrow> cache_fits load revive ok evolves (svc\<lparr>rs_cache := jdel (rs_cache svc) shard\<rparr>) s"
  by (simp add: cache_fits_def)

lemma cache_fits_contended [simp]:
  "cache_fits load revive ok evolves (svc\<lparr>rs_contended := c\<rparr>) s \<longleftrightarrow> cache_fits load revive ok evolves svc s"
  by (simp add: cache_fits_def)

lemma shard_start_fits:
  assumes "shard_start load revive fresh now shard s svc = (from_cache, r, svc')"
    and "cache_fits load revive ok evolves svc s" and "ok s"
  shows "(\<exists>s0. ok s0 \<and> evolves s0 s \<and> r = shard_loaded load revive shard s0)
     \<and> cache_fits load revive ok evolves svc' s \<and> (fresh \<longrightarrow> \<not> from_cache \<and> r = shard_loaded load revive shard s)"
proof -
  obtain contended svc1 where c: "(if fresh then (True, svc) else is_contended now shard svc) = (contended, svc1)"
    by (rule prod.exhaust)
  have f1: "cache_fits load revive ok evolves svc1 s"
    using c assms(2) by (auto simp: is_contended_def split: if_splits option.splits)
  show ?thesis
  proof (cases "if contended then None else jget (rs_cache svc1) shard")
    case None
    then have "r = shard_loaded load revive shard s"
      "svc' = (let svc2 = svc1\<lparr>rs_cache := jset (rs_cache svc1) shard r\<rparr>
               in if fresh then svc2\<lparr>rs_contended := jdel (rs_contended svc2) shard\<rparr> else svc2)" "\<not> from_cache"
      using assms(1) by (auto simp: shard_start_def c shard_load_def Let_def split: if_splits)
    with cache_fits_prime [OF f1 assms(3) evolves_refl, of shard] assms(3) evolves_refl [of s] show ?thesis
      by (auto simp: Let_def)
  next
    case (Some x)
    then have "r = x" "svc' = svc1" "\<not> fresh" "jget (rs_cache svc1) shard = Some x"
      using assms(1) c by (auto simp: shard_start_def split: if_splits)
    with f1 show ?thesis by (auto simp: cache_fits_def)
  qed
qed

lemma shard_save_applied:
  assumes rt: "\<And>t. revive (wrap (encode t)) = t"
    and s0: "ok s0" "evolves s0 s1" and r: "r = shard_loaded load revive shard s0"
    and ed: "edit (sr_table r) = (Some tbl, out)"
    and sv: "save s1 reminder_type shard (encode tbl) (sr_etag r) = Inr (et, s2)"
  shows "rem_applied load revive shard edit s1 s2 out \<and> evolves s1 s2
     \<and> shard_loaded load revive shard s2 = \<lparr>sr_table = tbl, sr_etag = Some et\<rparr>"
proof -
  have sv': "save s1 reminder_type shard (encode tbl) (map_option snd (load s0 reminder_type shard)) = Inr (et, s2)"
    using sv r by (simp add: shard_loaded_etag)
  from cas_save_sees_read [OF s0 sv'] have l: "load s1 reminder_type shard = load s0 reminder_type shard"
    "load s2 reminder_type shard = Some (wrap (encode tbl), et)" by auto
  have "shard_loaded load revive shard s1 = r" using shard_loaded_cong [OF l(1)] r by simp
  with l(2) ed save_evolves [OF sv] show ?thesis
    by (simp add: rem_applied_def shard_loaded_def [of load revive shard s2] rt)
qed

lemma mutate_shard_applied:
  assumes rt: "\<And>t. revive (wrap (encode t)) = t"
    and env: "\<And>i c s. evolves s (snd (env i (c, s)))"
             "\<And>i c s. cache_fits load revive ok evolves c s \<Longrightarrow> cache_fits load revive ok evolves (fst (env i (c, s))) (snd (env i (c, s)))"
  shows "ok s \<Longrightarrow> cache_fits load revive ok evolves svc s \<Longrightarrow>
         mutate_shard load save encode revive tick clock fresh shard edit env n svc s = (Inr out, svc', s') \<Longrightarrow>
         \<exists>before k. k \<le> n \<and> evolves s before \<and> evolves before s'
           \<and> (rem_applied load revive shard (edit k) before s' out
              \<or> \<not> fresh \<and> (\<exists>s0. ok s0 \<and> evolves s0 before \<and> s' = before
                    \<and> edit k (sr_table (shard_loaded load revive shard s0)) = (None, out)))
           \<and> cache_fits load revive ok evolves svc' s'"
proof (induction n arbitrary: svc s rule: less_induct)
  case (less n svc s)
  obtain fc r svc1 where st: "shard_start load revive fresh (clock n) shard s svc = (fc, r, svc1)"
    by (rule prod_cases3)
  from shard_start_fits [OF st less.prems(2,1)] obtain s0 where
    s0: "ok s0" "evolves s0 s" "r = shard_loaded load revive shard s0" and f1: "cache_fits load revive ok evolves svc1 s"
    and fr: "fresh \<Longrightarrow> r = shard_loaded load revive shard s" by blast
  note run = less.prems(3) [unfolded mutate_shard.simps [of load save encode revive tick clock fresh shard edit env n] st]
  obtain w o' where ed: "edit n (sr_table r) = (w, o')" by (rule prod.exhaust)
  show ?case
  proof (cases w)
    case None
    with run ed have "out = o'" "svc' = svc1" "s' = s" by simp_all
    moreover have "rem_applied load revive shard (edit n) s s out" if fresh
      using fr [OF that] ed None \<open>out = o'\<close> by (simp add: rem_applied_def)
    ultimately show ?thesis
      using s0 f1 ed None by (intro exI [of _ s] exI [of _ n]) (auto simp: evolves_refl)
  next
    case (Some tbl)
    obtain svc2 s1 where e: "env n (svc1, s) = (svc2, s1)" by (rule prod.exhaust)
    have ev: "evolves s s1" using env(1) [of s n svc1] by (simp add: e)
    have f2: "cache_fits load revive ok evolves svc2 s1" using env(2) [OF f1, of n] by (simp add: e)
    have s0': "evolves s0 s1" by (rule evolves_trans [OF s0(2) ev])
    show ?thesis
    proof (cases "save s1 reminder_type shard (encode tbl) (sr_etag r)")
      case (Inr p)
      obtain et s2 where p: "p = (et, s2)" by (rule prod.exhaust)
      have res: "out = o'" "svc' = svc2\<lparr>rs_cache := jset (rs_cache svc2) shard \<lparr>sr_table = tbl, sr_etag = Some et\<rparr>\<rparr>" "s' = s2"
        using run ed Some e Inr p by simp_all
      note ap = shard_save_applied [where edit = "edit n" and tbl = tbl and out = out and encode = encode and revive = revive,
        OF rt s0(1) s0' s0(3) _ Inr [unfolded p]]
      have ap': "rem_applied load revive shard (edit n) s1 s' out" "evolves s1 s'"
        "shard_loaded load revive shard s2 = \<lparr>sr_table = tbl, sr_etag = Some et\<rparr>"
        using ap ed Some res by auto
      have ok2: "ok s2" using evolves_ok [OF ap'(2) evolves_ok [OF ev less.prems(1)]] res(3) by simp
      have "cache_fits load revive ok evolves svc' s'"
        using cache_fits_prime [OF cache_fits_evolves [OF f2 ap'(2)] ok2, of shard] ap'(3) res by (simp add: evolves_refl)
      with ap' ev show ?thesis by blast
    next
      case (Inl err)
      let ?svc3 = "svc2\<lparr>rs_cache := jdel (rs_cache svc2) shard\<rparr>"
      obtain m where m: "n = Suc m"
        and rec: "mutate_shard load save encode revive tick clock fresh shard edit env m
          (if fc then ?svc3\<lparr>rs_contended := jset (rs_contended ?svc3) shard (clock n + tick)\<rparr> else ?svc3) s1 = (Inr out, svc', s')"
        using run ed Some e Inl by (cases n) (auto simp: Let_def split: if_splits)
      have "cache_fits load revive ok evolves
          (if fc then ?svc3\<lparr>rs_contended := jset (rs_contended ?svc3) shard (clock n + tick)\<rparr> else ?svc3) s1"
        using cache_fits_drop [OF f2] by (auto simp: cache_fits_def)
      from less.IH [OF _ evolves_ok [OF ev less.prems(1)] this rec] m obtain before k where
        b: "k \<le> m" "evolves s1 before" "evolves before s'" "cache_fits load revive ok evolves svc' s'"
        "rem_applied load revive shard (edit k) before s' out
              \<or> \<not> fresh \<and> (\<exists>s0. ok s0 \<and> evolves s0 before \<and> s' = before
                    \<and> edit k (sr_table (shard_loaded load revive shard s0)) = (None, out))" by auto
      show ?thesis
        using b m evolves_trans [OF ev b(2)] by (intro exI [of _ before] exI [of _ k]) auto
    qed
  qed
qed

end


subsection \<open>The table as a map of armed reminders\<close>

text \<open>The abstract view of a shard: which reminder of which actor is armed, and for when.\<close>

definition armed :: "reminder_table \<Rightarrow> string \<Rightarrow> string \<Rightarrow> reminder_entry option" where
  "armed t aid name = jget (entries_of t aid) name"

definition table_ok :: "reminder_table \<Rightarrow> bool" where
  "table_ok t \<longleftrightarrow> distinct (jkeys t) \<and> (\<forall>(aid, es) \<in> set t. distinct (jkeys es)
      \<and> (\<forall>(n, e) \<in> set es. \<forall>p. rm_period e = Some p \<longrightarrow> min_period_ms \<le> p))"

lemma entries_of_simps [simp]:
  "entries_of [] aid = []"
  "entries_of (jset t aid es) aid' = (if aid' = aid then es else entries_of t aid')"
  "entries_of (jdel t aid) aid' = (if aid' = aid then [] else entries_of t aid')"
  by (auto simp: entries_of_def)

lemma armed_set:
  "set_reminder aid name due period now t = (Some t', ())
     \<Longrightarrow> armed t' aid' n = (if aid' = aid \<and> n = name then Some \<lparr>rm_due = now + due, rm_period = period\<rparr> else armed t aid' n)"
  by (auto simp: set_reminder_def armed_def)

lemma armed_clear:
  "clear_reminder aid name t = (w, ()) \<Longrightarrow>
     armed (case w of None \<Rightarrow> t | Some t' \<Rightarrow> t') aid' n = (if aid' = aid \<and> n = name then None else armed t aid' n)
     \<and> (w = None \<longleftrightarrow> armed t aid name = None)"
proof -
  assume c: "clear_reminder aid name t = (w, ())"
  have none: "jget (entries_of t aid) n = None" if "jdel (entries_of t aid) name = []" "n \<noteq> name"
    using that by (metis jget_jdel map_of.simps(1))
  show ?thesis
    using c none by (auto simp: clear_reminder_def armed_def jhas_def Let_def split: if_splits)
qed

lemma jget_map_filter:
  "distinct (jkeys es) \<Longrightarrow> jget (List.map_filter (\<lambda>(n, e). map_option (Pair n) (f n e)) es) n
     = (case jget es n of None \<Rightarrow> None | Some e \<Rightarrow> f n e)"
proof (induction es)
  case (Cons x es)
  obtain m e where x: "x = (m, e)" by (rule prod.exhaust)
  show ?case
  proof (cases "n = m")
    case True
    with Cons.prems x have "jget es n = None" by (simp add: map_of_eq_None_iff)
    then have "f m e = None \<Longrightarrow> jget (List.map_filter (\<lambda>(n, e). map_option (Pair n) (f n e)) es) n = None"
      using Cons x by simp
    with True x show ?thesis by (cases "f m e") (auto simp: List.map_filter_simps)
  next
    case False
    with Cons x show ?thesis by (cases "f m e") (auto simp: List.map_filter_simps)
  qed
qed (simp add: List.map_filter_simps)

lemma jget_tick_entries:
  "distinct (jkeys es) \<Longrightarrow> jget (tick_entries now es) n = (case jget es n of None \<Rightarrow> None | Some e \<Rightarrow> advance_entry now e)"
  unfolding tick_entries_def by (rule jget_map_filter)

lemma tick_table_map_filter:
  "tick_table now t = List.map_filter (\<lambda>(aid, es). map_option (Pair aid)
     (if ref_of aid = None then Some es else if tick_entries now es = [] then None else Some (tick_entries now es))) t"
  unfolding tick_table_def
  by (rule arg_cong [where f = "\<lambda>f. List.map_filter f t"]) (auto simp: Let_def fun_eq_iff split: option.splits)

lemma table_ok_entries: "table_ok t \<Longrightarrow> distinct (jkeys (entries_of t aid))"
  by (auto simp: table_ok_def entries_of_def split: option.splits dest: map_of_SomeD)

lemma table_ok_period: "table_ok t \<Longrightarrow> armed t aid n = Some e \<Longrightarrow> rm_period e = Some p \<Longrightarrow> min_period_ms \<le> p"
  by (fastforce simp: table_ok_def entries_of_def armed_def split: option.splits dest: map_of_SomeD)

lemma armed_tick:
  assumes "table_ok t"
  shows "armed (tick_table now t) aid n =
     (if ref_of aid = None then armed t aid n
      else case armed t aid n of None \<Rightarrow> None | Some e \<Rightarrow> advance_entry now e)"
proof -
  have d: "distinct (jkeys t)" using assms by (simp add: table_ok_def)
  have es: "distinct (jkeys es)" if "jget t aid = Some es" for es
    using table_ok_entries [OF assms, of aid] that by (simp add: entries_of_def)
  show ?thesis
  proof (cases "jget t aid")
    case None
    then show ?thesis
      by (simp add: armed_def entries_of_def tick_table_map_filter jget_map_filter [OF d])
  next
    case (Some es)
    have e: "tick_entries now es = [] \<Longrightarrow> (case jget es n of None \<Rightarrow> None | Some e \<Rightarrow> advance_entry now e) = None"
      using jget_tick_entries [OF es [OF Some], of now n] by simp
    show ?thesis
      using Some e jget_tick_entries [OF es [OF Some], of now n]
      by (simp add: armed_def entries_of_def tick_table_map_filter jget_map_filter [OF d])
  qed
qed

lemma due_in_table_iff:
  assumes "table_ok t"
  shows "d \<in> set (due_in_table now t) \<longleftrightarrow>
     ref_of (du_id d) = Some (du_ref d)
     \<and> (\<exists>e. armed t (du_id d) (du_name d) = Some e \<and> rm_due e \<le> now \<and> du_advanced d = advance_entry now e)"
proof -
  have d: "distinct (jkeys t)" using assms by (simp add: table_ok_def)
  have es: "distinct (jkeys es)" if "(aid, es) \<in> set t" for aid es
    using assms that by (auto simp: table_ok_def)
  have m1: "(aid, es) \<in> set t \<longleftrightarrow> jget t aid = Some es" for aid es
    using map_of_eq_Some_iff [OF d] by simp
  have m2: "(n, e) \<in> set es \<longleftrightarrow> jget es n = Some e" if "(aid, es) \<in> set t" for aid es n e
    using map_of_eq_Some_iff [OF es [OF that]] by simp
  have "d \<in> set (due_in_table now t) \<longleftrightarrow>
     (\<exists>aid es ref. (aid, es) \<in> set t \<and> ref_of aid = Some ref \<and> d \<in> set (due_entries now aid ref es))"
    by (force simp: due_in_table_def split: option.splits)
  also have "\<dots> \<longleftrightarrow> (\<exists>es n e. jget t (du_id d) = Some es \<and> ref_of (du_id d) = Some (du_ref d)
      \<and> jget es n = Some e \<and> rm_due e \<le> now \<and> du_name d = n \<and> du_advanced d = advance_entry now e)"
    using m1 m2 by (cases d) (fastforce simp: due_entries_def)
  finally show ?thesis by (auto simp: armed_def entries_of_def split: option.splits)
qed

lemma advance_entry_later:
  assumes "advance_entry now e = Some e'" and "\<And>p. rm_period e = Some p \<Longrightarrow> 0 < p"
  shows "now < rm_due e' \<and> rm_period e' = rm_period e"
  using assms by (auto simp: advance_entry_def next_due_def Let_def split: if_splits option.splits)

lemma tick_table_idle:
  assumes "table_ok t" "now' \<le> now" "armed (tick_table now t) aid n = Some e" "ref_of aid \<noteq> None"
  shows "now' < rm_due e"
proof -
  from assms(3,4) obtain e0 where e0: "armed t aid n = Some e0" "advance_entry now e0 = Some e"
    by (auto simp: armed_tick [OF assms(1)] split: option.splits)
  have "0 < p" if "rm_period e0 = Some p" for p
    using table_ok_period [OF assms(1) e0(1) that] by (simp add: min_period_ms_def)
  from advance_entry_later [OF e0(2) this] assms(2) show ?thesis by simp
qed


lemma distinct_due_in_table:
  assumes "table_ok t"
  shows "distinct (map (\<lambda>d. (du_id d, du_name d)) (due_in_table now t))"
  using assms
proof (induction t)
  case Nil
  then show ?case by (simp add: due_in_table_def)
next
  case (Cons x t)
  obtain aid es where x: "x = (aid, es)" by (rule prod.exhaust)
  have ok: "table_ok t" "aid \<notin> set (jkeys t)" "distinct (jkeys es)"
    using Cons.prems x by (auto simp: table_ok_def)
  have ids: "du_id d \<in> set (jkeys t)" if "d \<in> set (due_in_table now t)" for d
    using that by (force simp: due_in_table_def due_entries_def split: option.splits)
  have one: "distinct (map (\<lambda>d. (du_id d, du_name d)) (due_entries now aid ref es))" for ref
    using ok(3) by (induction es) (force simp: due_entries_def)+
  have aids: "du_id d = aid" if "d \<in> set (due_entries now aid ref es)" for d ref
    using that by (auto simp: due_entries_def)
  have s: "due_in_table now (x # t) = (case ref_of aid of None \<Rightarrow> [] | Some ref \<Rightarrow> due_entries now aid ref es) @ due_in_table now t"
    by (simp add: due_in_table_def x)
  show ?case
    using Cons.IH [OF ok(1)] one ids aids ok(2) by (force simp: s split: option.splits)
qed

text \<open>What the re-arm of one failed delivery makes of an entry.\<close>

definition rearmed :: "int \<Rightarrow> due_reminder \<Rightarrow> reminder_entry option \<Rightarrow> reminder_entry option" where
  "rearmed next d cur =
     (case du_advanced d of
        None \<Rightarrow> (case cur of Some x \<Rightarrow> Some x | None \<Rightarrow> Some \<lparr>rm_due = next, rm_period = None\<rparr>)
      | Some adv \<Rightarrow> (case cur of None \<Rightarrow> None
          | Some c \<Rightarrow> if c = adv \<and> next < rm_due c then Some (c\<lparr>rm_due := next\<rparr>) else Some c))"

lemma armed_rearm_one:
  assumes "rearm_one next d (c, t) = (c', t')"
  shows "armed t' aid n = (if aid = du_id d \<and> n = du_name d then rearmed next d (armed t aid n) else armed t aid n)
     \<and> (c \<longrightarrow> c') \<and> (\<not> c' \<longrightarrow> t' = t)"
  using assms
  by (auto simp: rearm_one_def rearmed_def armed_def Let_def split: option.splits if_splits)

lemma armed_rearm_fold:
  "fold (rearm_one next) failed (c, t) = (c', t') \<Longrightarrow> distinct (map (\<lambda>d. (du_id d, du_name d)) failed)
     \<Longrightarrow> armed t' aid n = (case List.find (\<lambda>d. du_id d = aid \<and> du_name d = n) failed of
           None \<Rightarrow> armed t aid n | Some d \<Rightarrow> rearmed next d (armed t aid n))
       \<and> (c \<longrightarrow> c') \<and> (\<not> c' \<longrightarrow> t' = t)"
proof (induction failed arbitrary: c t)
  case (Cons d ds)
  obtain c1 t1 where one: "rearm_one next d (c, t) = (c1, t1)" by (rule prod.exhaust)
  note o = armed_rearm_one [OF one]
  have rest: "fold (rearm_one next) ds (c1, t1) = (c', t')" using Cons.prems(1) one by simp
  note ih = Cons.IH [OF rest]
  have none: "List.find (\<lambda>x. du_id x = aid \<and> du_name x = n) ds = None" if "du_id d = aid" "du_name d = n"
    using Cons.prems(2) that by (auto simp: find_None_iff image_iff)
  show ?case
    using o ih Cons.prems(2) none by (auto split: option.splits)
qed simp

lemma armed_rearm:
  assumes "rearm_edit next failed t = (w, ())" and "distinct (map (\<lambda>d. (du_id d, du_name d)) failed)"
  shows "armed (case w of None \<Rightarrow> t | Some t' \<Rightarrow> t') aid n
     = (case List.find (\<lambda>d. du_id d = aid \<and> du_name d = n) failed of
           None \<Rightarrow> armed t aid n | Some d \<Rightarrow> rearmed next d (armed t aid n))"
proof -
  obtain c' t' where f: "fold (rearm_one next) failed (False, t) = (c', t')" by (rule prod.exhaust)
  from armed_rearm_fold [OF f assms(2)] assms(1) f show ?thesis
    by (auto simp: rearm_edit_def split: if_splits)
qed


subsection \<open>With nobody else writing\<close>

definition cache_current ::
  "('s \<Rightarrow> string \<Rightarrow> string \<Rightarrow> ('r \<times> string) option) \<Rightarrow> ('r \<Rightarrow> reminder_table) \<Rightarrow> string \<Rightarrow> rem_service \<Rightarrow> 's \<Rightarrow> bool" where
  "cache_current ld revive shard svc s \<longleftrightarrow>
     (case jget (rs_cache svc) shard of None \<Rightarrow> True | Some r \<Rightarrow> r = shard_loaded ld revive shard s)"

context cas_storage
begin

lemma shard_start_current:
  assumes "shard_start load revive fresh now shard s svc = (fc, r, svc')"
    and "fresh \<or> cache_current load revive shard svc s"
  shows "r = shard_loaded load revive shard s \<and> cache_current load revive shard svc' s"
  using assms
  by (auto simp: shard_start_def shard_load_def is_contended_def cache_current_def Let_def
        split: if_splits option.splits)

lemma mutate_shard_alone:
  assumes rt: "\<And>t. revive (wrap (encode t)) = t"
    and cur: "fresh \<or> cache_current load revive shard svc s"
    and run: "mutate_shard load save encode revive tick clock fresh shard edit (\<lambda>_ x. x) n svc s = (res, svc', s')"
  shows "res = Inr (snd (edit n (sr_table (shard_loaded load revive shard s))))
     \<and> sr_table (shard_loaded load revive shard s')
         = (case fst (edit n (sr_table (shard_loaded load revive shard s))) of
              None \<Rightarrow> sr_table (shard_loaded load revive shard s) | Some t \<Rightarrow> t)
     \<and> cache_current load revive shard svc' s'"
proof -
  obtain fc r svc1 where st: "shard_start load revive fresh (clock n) shard s svc = (fc, r, svc1)"
    by (rule prod_cases3)
  note r = shard_start_current [OF st cur]
  obtain w o' where ed: "edit n (sr_table r) = (w, o')" by (rule prod.exhaust)
  show ?thesis
  proof (cases w)
    case None
    with run r ed show ?thesis by (simp add: mutate_shard.simps [of _ _ _ _ _ _ _ _ _ _ n] st)
  next
    case (Some tbl)
    obtain et s2 where sv: "save s reminder_type shard (encode tbl) (sr_etag r) = Inr (et, s2)"
      using save_accepts [of s reminder_type shard "sr_etag r" "encode tbl"] r shard_loaded_etag by auto
    have l: "shard_loaded load revive shard s2 = \<lparr>sr_table = tbl, sr_etag = Some et\<rparr>"
      using save_load [OF sv] rt by (simp add: shard_loaded_def)
    show ?thesis
      using run r ed Some sv l
      by (simp add: mutate_shard.simps [of _ _ _ _ _ _ _ _ _ _ n] st) (auto simp: cache_current_def)
  qed
qed

text \<open>A whole tick, alone: the reminders afterwards, entry by entry.\<close>

lemma tick_shard_alone:
  assumes rt: "\<And>t. revive (wrap (encode t)) = t"
    and ok: "table_ok (sr_table (shard_loaded load revive shard s))"
    and run: "tick_shard load save encode revive tick now later delivers (\<lambda>_ x. x) (\<lambda>x. x) (\<lambda>_ x. x) shard svc s = (res, svc', s')"
    and ref: "ref_of aid = Some ref"
    and e: "armed (sr_table (shard_loaded load revive shard s)) aid n = Some e"
  shows "(\<exists>due size'. res = Inr (due, size') \<and> distinct (map (\<lambda>d. (du_id d, du_name d)) due)
           \<and> (rm_due e \<le> now \<longleftrightarrow> (aid, n) \<in> (\<lambda>d. (du_id d, du_name d)) ` set due))
     \<and> armed (sr_table (shard_loaded load revive shard s')) aid n
       = (let d = \<lparr>du_id = aid, du_ref = ref, du_name = n, du_advanced = advance_entry now e\<rparr> in
          if now < rm_due e then Some e
          else if delivers d then advance_entry now e
          else rearmed (later (rem_attempts - 1) + tick) d (advance_entry now e))"
proof -
  let ?t = "sr_table (shard_loaded load revive shard s)"
  let ?due = "due_in_table now ?t"
  let ?d = "\<lparr>du_id = aid, du_ref = ref, du_name = n, du_advanced = advance_entry now e\<rparr>"
  obtain r1 svc1 s1 where m1: "mutate_shard load save encode revive tick (\<lambda>_. now) True shard (\<lambda>_. tick_edit now) (\<lambda>_ x. x)
      (rem_attempts - 1) svc s = (r1, svc1, s1)" by (rule prod_cases3)
  note t1 = mutate_shard_alone [where edit = "\<lambda>_. tick_edit now" and revive = revive and encode = encode, OF rt _ m1]
  have r1: "r1 = Inr (?due, entries_in_record ?t)"
    and a1: "sr_table (shard_loaded load revive shard s1) = (if ?due = [] then ?t else tick_table now ?t)"
    and c1: "cache_current load revive shard svc1 s1"
    using t1 by (auto simp: tick_edit_def Let_def)
  have same: "?due = [] \<Longrightarrow> now < rm_due e"
    using due_in_table_iff [OF ok, of ?d now] ref e by (auto simp: not_less [symmetric])
  have arm1: "armed (sr_table (shard_loaded load revive shard s1)) aid n = advance_entry now e"
    using a1 e same ref by (auto simp: armed_tick [OF ok] advance_entry_def)
  have du: "?d \<in> set ?due \<longleftrightarrow> rm_due e \<le> now"
    using due_in_table_iff [OF ok, of ?d now] ref e by auto
  have key: "d = ?d" if "d \<in> set ?due" "du_id d = aid" "du_name d = n" for d
    using that due_in_table_iff [OF ok, of d now] ref e by (cases d) auto
  have dist: "distinct (map (\<lambda>d. (du_id d, du_name d)) ?due)" by (rule distinct_due_in_table [OF ok])
  have mem: "rm_due e \<le> now \<longleftrightarrow> (aid, n) \<in> (\<lambda>d. (du_id d, du_name d)) ` set ?due"
    using du key by force
  let ?failed = "filter (\<lambda>d. \<not> delivers d) ?due"
  show ?thesis
  proof (cases "?failed = []")
    case True
    with run m1 r1 have res: "res = Inr (?due, entries_in_record ?t)" "s' = s1"
      by (simp_all add: tick_shard_def)
    have "rm_due e \<le> now \<Longrightarrow> delivers ?d" using True du by (auto simp: filter_empty_conv)
    with res arm1 mem dist show ?thesis
      by (auto simp: Let_def advance_entry_def not_less)
  next
    case False
    obtain r2 svc2 s2 where m2: "mutate_shard load save encode revive tick later False shard
        (\<lambda>k. rearm_edit (later k + tick) ?failed) (\<lambda>_ x. x) (rem_attempts - 1) svc1 s1 = (r2, svc2, s2)"
      by (rule prod_cases3)
    let ?next = "later (rem_attempts - 1) + tick"
    from run m1 r1 False m2 have res: "res = Inr (?due, entries_in_record ?t)" "s' = s2"
      by (simp_all add: tick_shard_def)
    note t2 = mutate_shard_alone [where edit = "\<lambda>k. rearm_edit (later k + tick) ?failed" and revive = revive
        and encode = encode, OF rt _ m2]
    obtain w where w: "rearm_edit ?next ?failed (sr_table (shard_loaded load revive shard s1)) = (w, ())"
      by (metis old.unit.exhaust prod.exhaust)
    have a2: "sr_table (shard_loaded load revive shard s2)
        = (case w of None \<Rightarrow> sr_table (shard_loaded load revive shard s1) | Some t \<Rightarrow> t)"
      using t2 c1 w by simp
    have df: "distinct (map (\<lambda>d. (du_id d, du_name d)) ?failed)" by (rule distinct_map_filter [OF dist])
    have find: "List.find (\<lambda>d. du_id d = aid \<and> du_name d = n) ?failed
        = (if rm_due e \<le> now \<and> \<not> delivers ?d then Some ?d else None)"
    proof (cases "List.find (\<lambda>d. du_id d = aid \<and> du_name d = n) ?failed")
      case None
      have "?d \<notin> set ?failed" using find_None_mem [OF None, of ?d] by auto
      with du None show ?thesis by auto
    next
      case (Some d)
      then have "d \<in> set ?failed" "du_id d = aid" "du_name d = n" using find_Some_mem [OF Some] by auto
      with key [of d] du Some show ?thesis by auto
    qed
    have "armed (sr_table (shard_loaded load revive shard s2)) aid n
        = (if rm_due e \<le> now \<and> \<not> delivers ?d then rearmed ?next ?d (advance_entry now e) else advance_entry now e)"
      using armed_rearm [OF w df, of aid n] a2 find arm1 by (simp split: if_splits)
    with res dist mem show ?thesis
      by (auto simp: Let_def advance_entry_def not_less)
  qed
qed

end


subsection \<open>On the in-memory adapter\<close>

definition mem_shard :: "string \<Rightarrow> reminder_table mem_storage \<Rightarrow> reminder_table" where
  "mem_shard shard s = sr_table (shard_loaded mem_view fst shard s)"

definition mem_reminders ::
  "int \<Rightarrow> (nat \<Rightarrow> int) \<Rightarrow> bool \<Rightarrow> string \<Rightarrow> (nat \<Rightarrow> reminder_table \<Rightarrow> reminder_table option \<times> 'o)
     \<Rightarrow> (nat \<Rightarrow> rem_service \<times> reminder_table mem_storage \<Rightarrow> rem_service \<times> reminder_table mem_storage) \<Rightarrow> nat
     \<Rightarrow> rem_service \<Rightarrow> reminder_table mem_storage
     \<Rightarrow> (storage_error + 'o) \<times> rem_service \<times> reminder_table mem_storage" where
  "mem_reminders tick clock fresh shard edit env n svc s =
     mutate_shard mem_view mem_save id fst tick clock fresh shard edit env n svc s"

definition mem_fits :: "rem_service \<Rightarrow> reminder_table mem_storage \<Rightarrow> bool" where
  "mem_fits = cache_fits mem_view fst mem_ok mem_evolves"

text \<open>What the others may do: any storage operations, and cache entries that were once in the store.\<close>

definition others_ok ::
  "(nat \<Rightarrow> rem_service \<times> reminder_table mem_storage \<Rightarrow> rem_service \<times> reminder_table mem_storage) \<Rightarrow> bool" where
  "others_ok env \<longleftrightarrow> (\<forall>i c s. mem_evolves s (snd (env i (c, s)))
      \<and> (mem_fits c s \<longrightarrow> mem_fits (fst (env i (c, s))) (snd (env i (c, s)))))"

lemma mem_reminders_applied:
  assumes "mem_ok s" "mem_fits svc s" "others_ok env"
    and "mem_reminders tick clock fresh shard edit env n svc s = (Inr out, svc', s')"
  shows "\<exists>before k. k \<le> n \<and> mem_evolves s before \<and> mem_evolves before s'
           \<and> (snd (edit k (mem_shard shard before)) = out
                \<and> (case fst (edit k (mem_shard shard before)) of None \<Rightarrow> s' = before | Some t \<Rightarrow> mem_shard shard s' = t)
              \<or> \<not> fresh \<and> (\<exists>s0. mem_ok s0 \<and> mem_evolves s0 before \<and> s' = before
                    \<and> edit k (mem_shard shard s0) = (None, out)))
           \<and> mem_fits svc' s'"
proof -
  have rt: "fst (fresh_record (id t)) = t" for t :: reminder_table by (simp add: fresh_record_def)
  note env = assms(3) [unfolded others_ok_def mem_fits_def]
  have e1: "mem_evolves s (snd (env i (c, s)))" for i c s using env by blast
  have e2: "cache_fits mem_view fst mem_ok mem_evolves (fst (env i (c, s))) (snd (env i (c, s)))"
    if "cache_fits mem_view fst mem_ok mem_evolves c s" for i c s using env that by blast
  note fits = assms(2) [unfolded mem_fits_def]
  from mem.mutate_shard_applied [where revive = fst and encode = id, OF rt e1 e2 assms(1) fits assms(4) [unfolded mem_reminders_def]]
  show ?thesis
    unfolding rem_applied_def mem_shard_def mem_fits_def .
qed

text \<open>
  A reminder set is never lost. Whatever other hosts write and this host caches meanwhile, a \<open>set\<close> that
  reports success was applied to the shard as it was in the store at the moment of the write:
  the store then holds the new reminder and every other reminder of that moment.
\<close>

theorem reminder_set_lands:
  assumes "mem_ok s" "mem_fits svc s" "others_ok env"
    and "mem_reminders tick clock False shard (\<lambda>k. set_reminder aid name due period (clock k)) env n svc s = (Inr u, svc', s')"
  shows "\<exists>before k. k \<le> n \<and> mem_evolves s before \<and> mem_evolves before s' \<and> mem_fits svc' s'
     \<and> (\<forall>a m. armed (mem_shard shard s') a m
          = (if a = aid \<and> m = name then Some \<lparr>rm_due = clock k + due, rm_period = period\<rparr>
             else armed (mem_shard shard before) a m))"
proof -
  from mem_reminders_applied [OF assms] obtain before k where b: "k \<le> n" "mem_evolves s before"
    "mem_evolves before s'" "mem_fits svc' s'"
    "case fst (set_reminder aid name due period (clock k) (mem_shard shard before)) of
       None \<Rightarrow> s' = before | Some t \<Rightarrow> mem_shard shard s' = t"
    by (auto simp: set_reminder_def)
  then have "set_reminder aid name due period (clock k) (mem_shard shard before) = (Some (mem_shard shard s'), ())"
    by (simp add: set_reminder_def)
  from armed_set [OF this] b show ?thesis by blast
qed

text \<open>
  A tick fires a reminder at most once. A tick's edit that reports success was applied to the shard as
  it was in the store at the moment of the write: it collects exactly the reminders due then, each
  once, and the store it leaves holds none that is due at the tick's time or before, so whoever
  ticks next without a later decision of an actor collects none of them.
\<close>

theorem reminder_tick_fires_once:
  assumes "mem_ok s" "mem_fits svc s" "others_ok env"
    and "mem_reminders tick clock True shard (\<lambda>_. tick_edit now) env n svc s = (Inr (due, size'), svc', s')"
  shows "\<exists>before. mem_evolves s before \<and> mem_evolves before s'
     \<and> (table_ok (mem_shard shard before) \<longrightarrow>
          distinct (map (\<lambda>d. (du_id d, du_name d)) due)
          \<and> (\<forall>d. d \<in> set due \<longleftrightarrow> ref_of (du_id d) = Some (du_ref d)
               \<and> (\<exists>e. armed (mem_shard shard before) (du_id d) (du_name d) = Some e \<and> rm_due e \<le> now
                     \<and> du_advanced d = advance_entry now e))
          \<and> (\<forall>aid name e. ref_of aid \<noteq> None \<and> armed (mem_shard shard s') aid name = Some e \<longrightarrow> now < rm_due e))"
proof -
  from mem_reminders_applied [OF assms] obtain before where b: "mem_evolves s before" "mem_evolves before s'"
    "snd (tick_edit now (mem_shard shard before)) = (due, size')"
    "case fst (tick_edit now (mem_shard shard before)) of None \<Rightarrow> s' = before | Some t \<Rightarrow> mem_shard shard s' = t"
    by auto
  let ?t = "mem_shard shard before"
  have due: "due = due_in_table now ?t" using b(3) by (simp add: tick_edit_def Let_def)
  have after: "if due = [] then mem_shard shard s' = ?t else mem_shard shard s' = tick_table now ?t"
    using b(4) due by (simp add: tick_edit_def Let_def split: if_splits)
  have "now < rm_due e" if ok: "table_ok ?t" and r: "ref_of aid \<noteq> None"
    and e: "armed (mem_shard shard s') aid name = Some e" for aid name e
  proof (cases "due = []")
    case True
    obtain ref where "ref_of aid = Some ref" using r by auto
    with True after e due
      due_in_table_iff [OF ok, of "\<lparr>du_id = aid, du_ref = ref, du_name = name, du_advanced = advance_entry now e\<rparr>" now]
    show ?thesis by (simp add: not_less [symmetric])
  next
    case False
    with after e tick_table_idle [OF ok order_refl _ r] show ?thesis by simp
  qed
  then show ?thesis
    using b(1,2) due distinct_due_in_table due_in_table_iff by blast
qed


text \<open>
  A clear that finds nothing in a stale cache is lost. When the cached table of the shard does not hold
  the reminder (another host armed it since), the clear answers success without asking the store:
  nothing is written, the reminder stays armed and will fire. The etag check that guards a write
  never happens, because there is no write.
\<close>

theorem clear_trusts_stale_cache:
  assumes "jget (rs_cache svc) shard = Some r" and "armed (sr_table r) aid name = None"
    and "jget (rs_contended svc) shard = None"
    and "armed (mem_shard shard s) aid name = Some e"
  shows "mem_reminders tick clock False shard (\<lambda>_. clear_reminder aid name) env n svc s = (Inr (), svc, s)
     \<and> armed (mem_shard shard (snd (snd (mem_reminders tick clock False shard (\<lambda>_. clear_reminder aid name) env n svc s)))) aid name = Some e"
proof -
  have "clear_reminder aid name (sr_table r) = (None, ())"
    using assms(2) by (simp add: clear_reminder_def armed_def jhas_def)
  then have "mem_reminders tick clock False shard (\<lambda>_. clear_reminder aid name) env n svc s = (Inr (), svc, s)"
    using assms(1,3)
    by (simp add: mem_reminders_def mutate_shard.simps [of _ _ _ _ _ _ _ _ _ _ n] shard_start_def is_contended_def)
  with assms(4) show ?thesis by simp
qed

text \<open>Host one reads the empty shard, host two arms the reminder, host one clears it.\<close>

definition cart1 :: actor_ref where
  "cart1 = \<lparr>ref_type = ''cart'', ref_key = ''1''\<rparr>"

definition host1_lists :: rem_service where
  "host1_lists = snd (list_reminders mem_view fst cart1 (memory_storage :: reminder_table mem_storage) new_service)"

definition host2_armed :: "reminder_table mem_storage" where
  "host2_armed = snd (snd (mem_reminders 60000 (\<lambda>_. 1000) False (reminder_shard_of (actor_id cart1))
     (\<lambda>_. set_reminder (actor_id cart1) ''wake'' 5000 None 1000) (\<lambda>_ x. x) 2 new_service memory_storage))"

lemma host2_table: "mem_shard (reminder_shard_of (actor_id cart1)) host2_armed
    = [(actor_id cart1, [(''wake'', \<lparr>rm_due = 6000, rm_period = None\<rparr>)])]"
proof -
  let ?sh = "reminder_shard_of (actor_id cart1)"
  let ?set = "set_reminder (actor_id cart1) ''wake'' 5000 None 1000"
  obtain res svc s where m: "mem_reminders 60000 (\<lambda>_. 1000) False ?sh (\<lambda>_. ?set) (\<lambda>_ x. x) 2 new_service memory_storage = (res, svc, s)"
    by (rule prod_cases3)
  have rt: "fst (fresh_record (id t)) = t" for t :: reminder_table by (simp add: fresh_record_def)
  have cur: "False \<or> cache_current mem_view fst ?sh new_service (memory_storage :: reminder_table mem_storage)"
    by (simp add: cache_current_def new_service_def)
  have none: "mem_shard ?sh memory_storage = []"
    by (simp add: mem_shard_def shard_loaded_def mem_view_def mem_load_def memory_storage_def)
  from mem.mutate_shard_alone [where edit = "\<lambda>_. ?set" and revive = fst and encode = id, OF rt cur m [unfolded mem_reminders_def]]
  have "mem_shard ?sh s = (case fst (?set (mem_shard ?sh memory_storage)) of None \<Rightarrow> mem_shard ?sh memory_storage | Some t \<Rightarrow> t)"
    by (simp only: mem_shard_def)
  then show ?thesis by (simp add: none set_reminder_def host2_armed_def m)
qed

lemma host2_armed_wake:
  "armed (mem_shard (reminder_shard_of (actor_id cart1)) host2_armed) (actor_id cart1) ''wake''
     = Some \<lparr>rm_due = 6000, rm_period = None\<rparr>"
  by (simp add: host2_table armed_def entries_of_def)

theorem clear_trusts_stale_cache_witness:
  "armed (mem_shard (reminder_shard_of (actor_id cart1)) (snd (snd (mem_reminders 60000 (\<lambda>_. 2000) False
      (reminder_shard_of (actor_id cart1)) (\<lambda>_. clear_reminder (actor_id cart1) ''wake'') (\<lambda>_ x. x) 2 host1_lists host2_armed))))
     (actor_id cart1) ''wake'' = Some \<lparr>rm_due = 6000, rm_period = None\<rparr>"
proof -
  have c: "jget (rs_cache host1_lists) (reminder_shard_of (actor_id cart1)) = Some \<lparr>sr_table = [], sr_etag = None\<rparr>"
    by (simp add: host1_lists_def list_reminders_def shard_load_def Let_def shard_loaded_def new_service_def
        mem_view_def mem_load_def memory_storage_def)
  have k: "jget (rs_contended host1_lists) (reminder_shard_of (actor_id cart1)) = None"
    by (simp add: host1_lists_def list_reminders_def shard_load_def Let_def new_service_def)
  have a: "armed (sr_table \<lparr>sr_table = [], sr_etag = None\<rparr>) (actor_id cart1) ''wake'' = None"
    by (simp add: armed_def)
  show ?thesis by (rule clear_trusts_stale_cache [THEN conjunct2, OF c a k host2_armed_wake])
qed

text \<open>
  A failed wake costs a tick, not the wake. After a tick with no other writer, every entry is as it
  should be: not yet due, untouched; delivered, a one-shot is gone and a periodic one is past now;
  not delivered, it is armed again one tick from the re-arm, a periodic one never later than its next
  regular firing.
\<close>

theorem failed_wake_returns:
  assumes "table_ok (mem_shard shard s)"
    and "tick_shard mem_view mem_save id fst tick now later delivers (\<lambda>_ x. x) (\<lambda>x. x) (\<lambda>_ x. x) shard svc s = (res, svc', s')"
    and "ref_of aid = Some ref" and "armed (mem_shard shard s) aid n = Some e"
    and "d = \<lparr>du_id = aid, du_ref = ref, du_name = n, du_advanced = advance_entry now e\<rparr>"
    and "retry = later (rem_attempts - 1) + tick"
  shows "armed (mem_shard shard s') aid n =
     (if now < rm_due e then Some e
      else case rm_period e of
        None \<Rightarrow> if delivers d then None else Some \<lparr>rm_due = retry, rm_period = None\<rparr>
      | Some p \<Rightarrow> Some (e\<lparr>rm_due := (if delivers d then next_due now (rm_due e) p
                                   else min retry (next_due now (rm_due e) p))\<rparr>))"
proof -
  have rt: "fst (fresh_record (id t)) = t" for t :: reminder_table by (simp add: fresh_record_def)
  from mem.tick_shard_alone [where revive = fst and encode = id, OF rt assms(1) [unfolded mem_shard_def] assms(2,3)
      assms(4) [unfolded mem_shard_def]]
  have "armed (mem_shard shard s') aid n
      = (if now < rm_due e then Some e else if delivers d then advance_entry now e
         else rearmed retry d (advance_entry now e))"
    by (simp add: mem_shard_def Let_def assms(5,6))
  then show ?thesis
    by (auto simp: assms(5) advance_entry_def rearmed_def min_def split: option.splits)
qed


subsection \<open>Witnesses\<close>

lemma mem_reminders_alone:
  assumes "fresh \<or> cache_current mem_view fst shard svc s"
  shows "\<exists>svc' s'. mem_reminders tick clock fresh shard edit (\<lambda>_ x. x) n svc s
      = (Inr (snd (edit n (mem_shard shard s))), svc', s')"
proof -
  have rt: "fst (fresh_record (id t)) = t" for t :: reminder_table by (simp add: fresh_record_def)
  obtain res svc' s' where m: "mem_reminders tick clock fresh shard edit (\<lambda>_ x. x) n svc s = (res, svc', s')"
    by (rule prod_cases3)
  from mem.mutate_shard_alone [where revive = fst and encode = id, OF rt assms m [unfolded mem_reminders_def]] m
  show ?thesis by (simp add: mem_shard_def)
qed

lemma others_ok_nobody: "others_ok (\<lambda>_ x. x)"
  by (simp add: others_ok_def)

lemma mem_fits_new: "mem_fits new_service s"
  by (simp add: mem_fits_def cache_fits_new)

theorem reminder_set_lands_witness:
  "\<exists>s'. armed (mem_shard ''p3'' s') ''cart'' ''wake'' = Some \<lparr>rm_due = 6000, rm_period = None\<rparr>"
proof -
  have cur: "False \<or> cache_current mem_view fst ''p3'' new_service (memory_storage :: reminder_table mem_storage)"
    by (simp add: cache_current_def new_service_def)
  obtain u svc' s' where "mem_reminders 60000 (\<lambda>_. 1000) False ''p3'' (\<lambda>k. set_reminder ''cart'' ''wake'' 5000 None ((\<lambda>_. 1000) k))
      (\<lambda>_ x. x) 2 new_service memory_storage = (Inr u, svc', s')"
    using mem_reminders_alone [OF cur] by blast
  from reminder_set_lands [OF mem_ok_memory_storage mem_fits_new others_ok_nobody this]
  have "armed (mem_shard ''p3'' s') ''cart'' ''wake'' = Some \<lparr>rm_due = 1000 + 5000, rm_period = None\<rparr>" by auto
  then show ?thesis by (intro exI [of _ s']) simp
qed

theorem reminder_tick_fires_once_witness:
  "\<exists>due size' svc' s' before. mem_reminders 60000 (\<lambda>_. 9000) True ''p3'' (\<lambda>_. tick_edit 9000) (\<lambda>_ x. x) 2 new_service host2_armed
       = (Inr (due, size'), svc', s')
     \<and> mem_evolves host2_armed before \<and> mem_evolves before s'"
proof -
  have ok: "mem_ok host2_armed"
  proof -
    have cur: "False \<or> cache_current mem_view fst (reminder_shard_of (actor_id cart1)) new_service (memory_storage :: reminder_table mem_storage)"
      by (simp add: cache_current_def new_service_def)
    obtain svc' s' where m: "mem_reminders 60000 (\<lambda>_. 1000) False (reminder_shard_of (actor_id cart1))
      (\<lambda>_. set_reminder (actor_id cart1) ''wake'' 5000 None 1000) (\<lambda>_ x. x) 2 new_service memory_storage = (Inr (), svc', s')"
      using mem_reminders_alone [OF cur] by (metis old.unit.exhaust)
    from mem_reminders_applied [OF mem_ok_memory_storage mem_fits_new others_ok_nobody m]
    have "mem_evolves memory_storage s'" by (auto intro: rtranclp_trans)
    then show ?thesis by (simp add: host2_armed_def m mem_evolves_ok)
  qed
  obtain due size' where d: "snd (tick_edit 9000 (mem_shard ''p3'' host2_armed)) = (due, size')" by (rule prod.exhaust)
  obtain svc' s' where m: "mem_reminders 60000 (\<lambda>_. 9000) True ''p3'' (\<lambda>_. tick_edit 9000) (\<lambda>_ x. x) 2 new_service host2_armed
       = (Inr (due, size'), svc', s')"
    using mem_reminders_alone [of True] d by metis
  from reminder_tick_fires_once [OF ok mem_fits_new others_ok_nobody m] m show ?thesis by blast
qed

theorem failed_wake_returns_witness:
  "\<exists>svc' s' res. tick_shard mem_view mem_save id fst 60000 9000 (\<lambda>_. 9500) (\<lambda>_. False) (\<lambda>_ x. x) (\<lambda>x. x) (\<lambda>_ x. x)
        (reminder_shard_of (actor_id cart1)) new_service host2_armed = (res, svc', s')
      \<and> armed (mem_shard (reminder_shard_of (actor_id cart1)) s') (actor_id cart1) ''wake'' = Some \<lparr>rm_due = 69500, rm_period = None\<rparr>"
proof -
  let ?sh = "reminder_shard_of (actor_id cart1)"
  obtain res svc' s' where t: "tick_shard mem_view mem_save id fst 60000 9000 (\<lambda>_. 9500) (\<lambda>_. False) (\<lambda>_ x. x) (\<lambda>x. x) (\<lambda>_ x. x)
        ?sh new_service host2_armed = (res, svc', s')" by (rule prod_cases3)
  have ok: "table_ok (mem_shard ?sh host2_armed)" by (simp add: host2_table table_ok_def)
  have ref: "ref_of (actor_id cart1) = Some cart1" by (rule ref_of_actor_id) (simp add: cart1_def)
  from failed_wake_returns [OF ok t ref host2_armed_wake refl refl] t show ?thesis by simp
qed

end
