(* ===== verification/Task_Liveness.thy ===== *)
theory Task_Liveness
  imports Cas_Storage
begin

section \<open>How a detached run survives its host\<close>

text \<open>
  \<open>host/task-liveness.ts\<close>: the roster of the runs on each host, written by that host alone in group
  commits, the index of the hosts that have one, and the adoption of a dead host's roster. The
  definitions take the storage operations as arguments; the lemmas use the contract of
  \<^verbatim>\<open>Cas_Storage\<close>. \<open>env i\<close> is what other hosts do to the store before the write of attempt \<open>i\<close>.
\<close>

subsection \<open>State\<close>

type_synonym roster = "(string, int) jmap"

datatype roster_edit = Tracks string | Untracks string

record roster_shard =
  rsh_table :: roster
  rsh_etag :: "string option"
  rsh_pending :: "roster_edit list"

record roster_host =
  rh_id :: string
  rh_shards :: "(string, roster_shard) jmap"
  rh_registered :: bool

definition roster_type :: string where
  "roster_type = ''$sigx:tasks-roster''"

definition roster_index_key :: string where
  "roster_index_key = ''$hosts''"

definition roster_attempts :: nat where
  "roster_attempts = 8"

text \<open>\<open>bind\<close> refuses an id that would alias the index.\<close>

definition roster_id_ok :: "string \<Rightarrow> bool" where
  "roster_id_ok h \<longleftrightarrow> h \<noteq> [] \<and> \<not> starts_with h ''$''"

definition new_roster_host :: "string \<Rightarrow> roster_host option" where
  "new_roster_host h = (if roster_id_ok h then Some \<lparr>rh_id = h, rh_shards = [], rh_registered = False\<rparr> else None)"

definition roster_key :: "string \<Rightarrow> string \<Rightarrow> string" where
  "roster_key h shard = h @ ''/'' @ shard"

definition shard_of_host :: "roster_host \<Rightarrow> string \<Rightarrow> roster_shard" where
  "shard_of_host h key = (case jget (rh_shards h) key of
     Some s \<Rightarrow> s | None \<Rightarrow> \<lparr>rsh_table = [], rsh_etag = None, rsh_pending = []\<rparr>)"

definition put_shard :: "string \<Rightarrow> roster_shard \<Rightarrow> roster_host \<Rightarrow> roster_host" where
  "put_shard key s h = h\<lparr>rh_shards := jset (rh_shards h) key s\<rparr>"

definition apply_roster_edit :: "int \<Rightarrow> roster_edit \<Rightarrow> roster \<Rightarrow> roster" where
  "apply_roster_edit now e t = (case e of Tracks aid \<Rightarrow> jset t aid now | Untracks aid \<Rightarrow> jdel t aid)"

subsection \<open>A host's own roster\<close>

text \<open>\<open>#mutate\<close> up to its flush: the edit is queued on its shard.\<close>

definition roster_queue :: "string \<Rightarrow> roster_edit \<Rightarrow> roster_host \<Rightarrow> roster_host" where
  "roster_queue aid e h =
     (let key = roster_key (rh_id h) (reminder_shard_of aid); s = shard_of_host h key in
      put_shard key (s\<lparr>rsh_pending := rsh_pending s @ [e]\<rparr>) h)"

definition roster_loaded ::
  "('s \<Rightarrow> string \<Rightarrow> string \<Rightarrow> ('r \<times> string) option) \<Rightarrow> ('r \<Rightarrow> roster) \<Rightarrow> string \<Rightarrow> 's \<Rightarrow> roster option" where
  "roster_loaded ld revive key s = map_option (\<lambda>(r, _). revive r) (ld s roster_type key)"

text \<open>\<open>#register\<close>: the index entry, once per host.\<close>

fun register_host ::
  "('s \<Rightarrow> string \<Rightarrow> string \<Rightarrow> ('r \<times> string) option)
     \<Rightarrow> ('s \<Rightarrow> string \<Rightarrow> string \<Rightarrow> 'v \<Rightarrow> string option \<Rightarrow> storage_error + (string \<times> 's))
     \<Rightarrow> (roster \<Rightarrow> 'v) \<Rightarrow> ('r \<Rightarrow> roster) \<Rightarrow> int \<Rightarrow> (nat \<Rightarrow> 's \<Rightarrow> 's) \<Rightarrow> string \<Rightarrow> nat \<Rightarrow> 's
     \<Rightarrow> (storage_error + unit) \<times> 's" where
  "register_host ld sv encode revive now env h left s =
     (let rec' = ld s roster_type roster_index_key;
          index = (case rec' of None \<Rightarrow> [] | Some (r, _) \<Rightarrow> revive r) in
      if jhas index h then (Inr (), s)
      else let s1 = env left s in
        case sv s1 roster_type roster_index_key (encode (jset index h now)) (map_option snd rec') of
          Inr (_, s2) \<Rightarrow> (Inr (), s2)
        | Inl e \<Rightarrow>
            (case left of
               0 \<Rightarrow> (Inl e, s1)
             | Suc n \<Rightarrow> if is_storage_conflict e then register_host ld sv encode revive now env h n s1
                        else (Inl e, s1)))"

declare register_host.simps [simp del]

text \<open>The loop of \<open>#write\<close>: re-anchor on the stored etag and write the table back whole.\<close>

fun roster_write_loop ::
  "('s \<Rightarrow> string \<Rightarrow> string \<Rightarrow> ('r \<times> string) option)
     \<Rightarrow> ('s \<Rightarrow> string \<Rightarrow> string \<Rightarrow> 'v \<Rightarrow> string option \<Rightarrow> storage_error + (string \<times> 's))
     \<Rightarrow> (roster \<Rightarrow> 'v) \<Rightarrow> (nat \<Rightarrow> 's \<Rightarrow> 's) \<Rightarrow> string \<Rightarrow> roster \<Rightarrow> nat \<Rightarrow> string option \<Rightarrow> 's
     \<Rightarrow> (storage_error + unit) \<times> string option \<times> 's" where
  "roster_write_loop ld sv encode env key t left etag s =
     (let s1 = env left s in
      case sv s1 roster_type key (encode t) etag of
        Inr (et, s2) \<Rightarrow> (Inr (), Some et, s2)
      | Inl e \<Rightarrow>
          (case left of
             0 \<Rightarrow> (Inl e, etag, s1)
           | Suc n \<Rightarrow>
               if is_storage_conflict e
               then roster_write_loop ld sv encode env key t n (map_option snd (ld s1 roster_type key)) s1
               else (Inl e, etag, s1)))"

declare roster_write_loop.simps [simp del]

definition roster_write ::
  "('s \<Rightarrow> string \<Rightarrow> string \<Rightarrow> ('r \<times> string) option)
     \<Rightarrow> ('s \<Rightarrow> string \<Rightarrow> string \<Rightarrow> 'v \<Rightarrow> string option \<Rightarrow> storage_error + (string \<times> 's))
     \<Rightarrow> (roster \<Rightarrow> 'v) \<Rightarrow> (nat \<Rightarrow> 's \<Rightarrow> 's) \<Rightarrow> string \<Rightarrow> roster \<Rightarrow> string option \<Rightarrow> 's
     \<Rightarrow> (storage_error + unit) \<times> string option \<times> 's" where
  "roster_write ld sv encode env key t etag s =
     (if etag = None \<and> t = [] then (Inr (), None, s)
      else roster_write_loop ld sv encode env key t (roster_attempts - 1) etag s)"

text \<open>
  One batch of \<open>#flush\<close>: the index entry if it is not there yet, then everything queued so far in one
  write. The answer is what the batch's callers get; \<open>reg_env\<close> and \<open>env\<close> are the others meanwhile.
\<close>

definition roster_flush ::
  "('s \<Rightarrow> string \<Rightarrow> string \<Rightarrow> ('r \<times> string) option)
     \<Rightarrow> ('s \<Rightarrow> string \<Rightarrow> string \<Rightarrow> 'v \<Rightarrow> string option \<Rightarrow> storage_error + (string \<times> 's))
     \<Rightarrow> (roster \<Rightarrow> 'v) \<Rightarrow> ('r \<Rightarrow> roster) \<Rightarrow> int \<Rightarrow> (nat \<Rightarrow> 's \<Rightarrow> 's) \<Rightarrow> (nat \<Rightarrow> 's \<Rightarrow> 's) \<Rightarrow> string \<Rightarrow> roster_host \<Rightarrow> 's
     \<Rightarrow> (storage_error + unit) \<times> roster_host \<times> 's" where
  "roster_flush ld sv encode revive now reg_env env key h s =
     (let sh = shard_of_host h key; taken = put_shard key (sh\<lparr>rsh_pending := []\<rparr>) h in
      case (if rh_registered h then (Inr (), s)
            else register_host ld sv encode revive now reg_env (rh_id h) (roster_attempts - 1) s) of
        (Inl e, s1) \<Rightarrow> (Inl e, taken, s1)
      | (Inr _, s1) \<Rightarrow>
          (let h1 = taken\<lparr>rh_registered := True\<rparr>;
               t = fold (apply_roster_edit now) (rsh_pending sh) (rsh_table sh) in
           case roster_write ld sv encode env key t (rsh_etag sh) s1 of
             (Inr _, et, s2) \<Rightarrow> (Inr (), put_shard key \<lparr>rsh_table = t, rsh_etag = et, rsh_pending = []\<rparr> h1, s2)
           | (Inl e, et, s2) \<Rightarrow> (Inl e, put_shard key (sh\<lparr>rsh_etag := et, rsh_pending := []\<rparr>) h1, s2)))"

subsection \<open>Adoption\<close>

text \<open>One sub-shard of a dead host: touch every actor, keep what failed, write or delete the rest.\<close>

definition adopt_shard ::
  "('s \<Rightarrow> string \<Rightarrow> string \<Rightarrow> ('r \<times> string) option)
     \<Rightarrow> ('s \<Rightarrow> string \<Rightarrow> string \<Rightarrow> 'v \<Rightarrow> string option \<Rightarrow> storage_error + (string \<times> 's))
     \<Rightarrow> ('s \<Rightarrow> string \<Rightarrow> string \<Rightarrow> string option \<Rightarrow> storage_error + 's)
     \<Rightarrow> (roster \<Rightarrow> 'v) \<Rightarrow> ('r \<Rightarrow> roster) \<Rightarrow> (actor_ref \<Rightarrow> bool) \<Rightarrow> ('s \<Rightarrow> 's) \<Rightarrow> string \<Rightarrow> 's
     \<Rightarrow> (storage_error + bool) \<times> actor_ref list \<times> 's" where
  "adopt_shard ld sv cl encode revive touch env key s =
     (case ld s roster_type key of
        None \<Rightarrow> (Inr True, [], s)
      | Some (r, et) \<Rightarrow>
          let t = revive r;
              refs = List.map_filter (\<lambda>(aid, _). ref_of aid) t;
              remaining = filter (\<lambda>(aid, _). case ref_of aid of None \<Rightarrow> False | Some ref \<Rightarrow> \<not> touch ref) t;
              s1 = env s in
          if remaining = [] then
            (case cl s1 roster_type key (Some et) of
               Inr s2 \<Rightarrow> (Inr True, refs, s2)
             | Inl e \<Rightarrow> (if is_storage_conflict e then Inr False else Inl e, refs, s1))
          else
            (case sv s1 roster_type key (encode remaining) (Some et) of
               Inr (_, s2) \<Rightarrow> (Inr False, refs, s2)
             | Inl e \<Rightarrow> (if is_storage_conflict e then Inr False else Inl e, refs, s1)))"

fun adopt_shards ::
  "('s \<Rightarrow> string \<Rightarrow> string \<Rightarrow> ('r \<times> string) option)
     \<Rightarrow> ('s \<Rightarrow> string \<Rightarrow> string \<Rightarrow> 'v \<Rightarrow> string option \<Rightarrow> storage_error + (string \<times> 's))
     \<Rightarrow> ('s \<Rightarrow> string \<Rightarrow> string \<Rightarrow> string option \<Rightarrow> storage_error + 's)
     \<Rightarrow> (roster \<Rightarrow> 'v) \<Rightarrow> ('r \<Rightarrow> roster) \<Rightarrow> (actor_ref \<Rightarrow> bool) \<Rightarrow> (string \<Rightarrow> 's \<Rightarrow> 's) \<Rightarrow> string \<Rightarrow> string list \<Rightarrow> 's
     \<Rightarrow> (storage_error + bool) \<times> actor_ref list \<times> 's" where
  "adopt_shards ld sv cl encode revive touch env h [] s = (Inr True, [], s)"
| "adopt_shards ld sv cl encode revive touch env h (k # ks) s =
     (case adopt_shard ld sv cl encode revive touch (env k) (roster_key h k) s of
        (Inl e, refs, s1) \<Rightarrow> (Inl e, refs, s1)
      | (Inr d, refs, s1) \<Rightarrow>
          (case adopt_shards ld sv cl encode revive touch env h ks s1 of
             (Inl e, refs', s2) \<Rightarrow> (Inl e, refs @ refs', s2)
           | (Inr d', refs', s2) \<Rightarrow> (Inr (d \<and> d'), refs @ refs', s2)))"

definition adopt_host ::
  "('s \<Rightarrow> string \<Rightarrow> string \<Rightarrow> ('r \<times> string) option)
     \<Rightarrow> ('s \<Rightarrow> string \<Rightarrow> string \<Rightarrow> 'v \<Rightarrow> string option \<Rightarrow> storage_error + (string \<times> 's))
     \<Rightarrow> ('s \<Rightarrow> string \<Rightarrow> string \<Rightarrow> string option \<Rightarrow> storage_error + 's)
     \<Rightarrow> (roster \<Rightarrow> 'v) \<Rightarrow> ('r \<Rightarrow> roster) \<Rightarrow> (actor_ref \<Rightarrow> bool) \<Rightarrow> (string \<Rightarrow> 's \<Rightarrow> 's) \<Rightarrow> string \<Rightarrow> 's
     \<Rightarrow> (storage_error + bool) \<times> actor_ref list \<times> 's" where
  "adopt_host ld sv cl encode revive touch env h s =
     adopt_shards ld sv cl encode revive touch env h reminder_shard_keys s"

text \<open>\<open>#forgetHost\<close>: the index without the drained host.\<close>

fun forget_host ::
  "('s \<Rightarrow> string \<Rightarrow> string \<Rightarrow> ('r \<times> string) option)
     \<Rightarrow> ('s \<Rightarrow> string \<Rightarrow> string \<Rightarrow> 'v \<Rightarrow> string option \<Rightarrow> storage_error + (string \<times> 's))
     \<Rightarrow> (roster \<Rightarrow> 'v) \<Rightarrow> ('r \<Rightarrow> roster) \<Rightarrow> (nat \<Rightarrow> 's \<Rightarrow> 's) \<Rightarrow> string \<Rightarrow> nat \<Rightarrow> 's
     \<Rightarrow> (storage_error + unit) \<times> 's" where
  "forget_host ld sv encode revive env h left s =
     (case ld s roster_type roster_index_key of
        None \<Rightarrow> (Inr (), s)
      | Some (r, et) \<Rightarrow>
          if \<not> jhas (revive r) h then (Inr (), s)
          else let s1 = env left s in
            case sv s1 roster_type roster_index_key (encode (jdel (revive r) h)) (Some et) of
              Inr (_, s2) \<Rightarrow> (Inr (), s2)
            | Inl e \<Rightarrow>
                (case left of
                   0 \<Rightarrow> (Inl e, s1)
                 | Suc n \<Rightarrow> if is_storage_conflict e then forget_host ld sv encode revive env h n s1
                            else (Inl e, s1)))"

declare forget_host.simps [simp del]

text \<open>
  \<open>#adopt\<close> over the index as it was read: every host gone from membership, if this host owns its
  reminder shard. The first error ends the pass. \<open>env\<close> and \<open>forgot\<close> are the others meanwhile, per host.
\<close>

fun adopt_pass ::
  "('s \<Rightarrow> string \<Rightarrow> string \<Rightarrow> ('r \<times> string) option)
     \<Rightarrow> ('s \<Rightarrow> string \<Rightarrow> string \<Rightarrow> 'v \<Rightarrow> string option \<Rightarrow> storage_error + (string \<times> 's))
     \<Rightarrow> ('s \<Rightarrow> string \<Rightarrow> string \<Rightarrow> string option \<Rightarrow> storage_error + 's)
     \<Rightarrow> (roster \<Rightarrow> 'v) \<Rightarrow> ('r \<Rightarrow> roster) \<Rightarrow> (actor_ref \<Rightarrow> bool) \<Rightarrow> (string \<Rightarrow> string \<Rightarrow> 's \<Rightarrow> 's) \<Rightarrow> (string \<Rightarrow> nat \<Rightarrow> 's \<Rightarrow> 's)
     \<Rightarrow> (string \<Rightarrow> bool) \<Rightarrow> (string \<Rightarrow> bool) \<Rightarrow> string
     \<Rightarrow> string list \<Rightarrow> 's \<Rightarrow> (storage_error + unit) \<times> actor_ref list \<times> 's" where
  "adopt_pass ld sv cl encode revive touch env forgot live owns self [] s = (Inr (), [], s)"
| "adopt_pass ld sv cl encode revive touch env forgot live owns self (h # hs) s =
     (if h = self \<or> live h \<or> \<not> owns (reminder_shard_of h)
      then adopt_pass ld sv cl encode revive touch env forgot live owns self hs s
      else case adopt_host ld sv cl encode revive touch (env h) h s of
        (Inl e, refs, s1) \<Rightarrow> (Inl e, refs, s1)
      | (Inr drained, refs, s1) \<Rightarrow>
          (case (if drained then forget_host ld sv encode revive (forgot h) h (roster_attempts - 1) s1 else (Inr (), s1)) of
             (Inl e, s2) \<Rightarrow> (Inl e, refs, s2)
           | (Inr _, s2) \<Rightarrow>
               (case adopt_pass ld sv cl encode revive touch env forgot live owns self hs s2 of
                  (r, refs', s3) \<Rightarrow> (r, refs @ refs', s3))))"

definition adopt ::
  "('s \<Rightarrow> string \<Rightarrow> string \<Rightarrow> ('r \<times> string) option)
     \<Rightarrow> ('s \<Rightarrow> string \<Rightarrow> string \<Rightarrow> 'v \<Rightarrow> string option \<Rightarrow> storage_error + (string \<times> 's))
     \<Rightarrow> ('s \<Rightarrow> string \<Rightarrow> string \<Rightarrow> string option \<Rightarrow> storage_error + 's)
     \<Rightarrow> (roster \<Rightarrow> 'v) \<Rightarrow> ('r \<Rightarrow> roster) \<Rightarrow> (actor_ref \<Rightarrow> bool) \<Rightarrow> (string \<Rightarrow> string \<Rightarrow> 's \<Rightarrow> 's) \<Rightarrow> (string \<Rightarrow> nat \<Rightarrow> 's \<Rightarrow> 's)
     \<Rightarrow> (string \<Rightarrow> bool) \<Rightarrow> (string \<Rightarrow> bool) \<Rightarrow> string \<Rightarrow> 's
     \<Rightarrow> (storage_error + unit) \<times> actor_ref list \<times> 's" where
  "adopt ld sv cl encode revive touch env forgot live owns self s =
     (case ld s roster_type roster_index_key of
        None \<Rightarrow> (Inr (), [], s)
      | Some (r, _) \<Rightarrow> adopt_pass ld sv cl encode revive touch env forgot live owns self (jkeys (revive r)) s)"


subsection \<open>A roster write lands whole\<close>

text \<open>What an adopter leaves of a shard when nobody else writes it.\<close>

definition unadopted :: "(actor_ref \<Rightarrow> bool) \<Rightarrow> roster \<Rightarrow> roster" where
  "unadopted touch t = filter (\<lambda>(aid, _). case ref_of aid of None \<Rightarrow> False | Some ref \<Rightarrow> \<not> touch ref) t"

definition roster_refs :: "roster \<Rightarrow> actor_ref list" where
  "roster_refs t = List.map_filter (\<lambda>(aid, _). ref_of aid) t"

lemma roster_refs_mem: "(aid, n) \<in> set t \<Longrightarrow> ref_of aid = Some ref \<Longrightarrow> ref \<in> set (roster_refs t)"
  by (force simp: roster_refs_def List.map_filter_def)

lemma record_id_key_inject: "record_id t k = record_id t k' \<longleftrightarrow> k = k'"
  by (simp add: record_id_def)

lemma roster_key_shard_inject: "roster_key h k = roster_key h k' \<longleftrightarrow> k = k'"
  by (simp add: roster_key_def)

context cas_storage
begin

lemma roster_write_loop_lands:
  assumes rt: "\<And>t. revive (wrap (encode t)) = t" and env: "\<And>i s. evolves s (env i s)"
  shows "roster_write_loop load save encode env key t left etag s = (Inr u, et, s')
     \<Longrightarrow> roster_loaded load revive key s' = Some t \<and> evolves s s' \<and> map_option snd (load s' roster_type key) = et"
proof (induction left arbitrary: etag s rule: less_induct)
  case (less left etag s)
  let ?s1 = "env left s"
  note run = less.prems [unfolded roster_write_loop.simps [of load save encode env key t left etag s] Let_def]
  show ?case
  proof (cases "save ?s1 roster_type key (encode t) etag")
    case (Inr p)
    obtain e s2 where p: "p = (e, s2)" by (rule prod.exhaust)
    with run Inr have "s' = s2" "et = Some e" by simp_all
    with save_load [OF Inr [unfolded p]] evolves_trans [OF env [of s left] save_evolves [OF Inr [unfolded p]]] show ?thesis
      by (auto simp: roster_loaded_def rt)
  next
    case (Inl e)
    with run obtain n where
      "left = Suc n" "roster_write_loop load save encode env key t n (map_option snd (load ?s1 roster_type key)) ?s1 = (Inr u, et, s')"
      by (cases left) (auto split: if_splits)
    with less.IH [of n] env [of s left] show ?thesis by (auto intro: evolves_trans)
  qed
qed

lemma register_host_indexes:
  assumes rt: "\<And>t. revive (wrap (encode t)) = t" and env: "\<And>i s. evolves s (env i s)"
  shows "register_host load save encode revive now env h left s = (Inr u, s')
     \<Longrightarrow> evolves s s' \<and> (\<exists>t. roster_loaded load revive roster_index_key s' = Some t \<and> jhas t h)"
proof (induction left arbitrary: s rule: less_induct)
  case (less left s)
  let ?rec = "load s roster_type roster_index_key"
  let ?index = "case ?rec of None \<Rightarrow> [] | Some (r, _) \<Rightarrow> revive r"
  note run = less.prems [unfolded register_host.simps [of load save encode revive now env h left s] Let_def]
  show ?case
  proof (cases "jhas ?index h")
    case True
    with run have "s' = s" by simp
    with True show ?thesis
      by (cases ?rec) (auto simp: roster_loaded_def evolves_refl)
  next
    case False
    show ?thesis
    proof (cases "save (env left s) roster_type roster_index_key (encode (jset ?index h now)) (map_option snd ?rec)")
      case (Inr p)
      obtain e s2 where p: "p = (e, s2)" by (rule prod.exhaust)
      with run False Inr have "s' = s2" by simp
      with save_load [OF Inr [unfolded p]] evolves_trans [OF env [of s left] save_evolves [OF Inr [unfolded p]]] show ?thesis
        by (auto simp: roster_loaded_def rt)
    next
      case (Inl e)
      with run False obtain n where "left = Suc n" "register_host load save encode revive now env h n (env left s) = (Inr u, s')"
        by (cases left) (auto split: if_splits)
      with less.IH [of n "env left s"] env [of s left] show ?thesis by (auto intro: evolves_trans)
    qed
  qed
qed

lemma roster_flush_durable:
  assumes rt: "\<And>t. revive (wrap (encode t)) = t"
    and env: "\<And>i s. evolves s (env i s)" "\<And>i s. evolves s (reg_env i s)"
    and run: "roster_flush load save encode revive now reg_env env key h s = (Inr u, h', s')"
  shows "rh_registered h' \<and> rsh_pending (shard_of_host h' key) = []
     \<and> rsh_table (shard_of_host h' key) = fold (apply_roster_edit now) (rsh_pending (shard_of_host h key)) (rsh_table (shard_of_host h key))
     \<and> (rsh_table (shard_of_host h' key) = [] \<and> rsh_etag (shard_of_host h key) = None
        \<or> roster_loaded load revive key s' = Some (rsh_table (shard_of_host h' key)))
     \<and> (\<exists>s1. evolves s s1 \<and> evolves s1 s' \<and>
          (\<not> rh_registered h \<longrightarrow> (\<exists>t. roster_loaded load revive roster_index_key s1 = Some t \<and> jhas t (rh_id h))))"
proof -
  let ?sh = "shard_of_host h key"
  let ?t = "fold (apply_roster_edit now) (rsh_pending ?sh) (rsh_table ?sh)"
  obtain s1 where reg: "(if rh_registered h then (Inr (), s)
      else register_host load save encode revive now reg_env (rh_id h) (roster_attempts - 1) s) = (Inr (), s1)"
    using run by (auto simp: roster_flush_def Let_def split: prod.splits sum.splits)
  obtain et where wr: "roster_write load save encode env key ?t (rsh_etag ?sh) s1 = (Inr (), et, s')"
    and h': "h' = put_shard key \<lparr>rsh_table = ?t, rsh_etag = et, rsh_pending = []\<rparr> ((put_shard key (?sh\<lparr>rsh_pending := []\<rparr>) h)\<lparr>rh_registered := True\<rparr>)"
    using run reg by (auto simp: roster_flush_def Let_def split: prod.splits sum.splits)
  have g: "shard_of_host h' key = \<lparr>rsh_table = ?t, rsh_etag = et, rsh_pending = []\<rparr>" "rh_registered h'"
    by (simp_all add: h' shard_of_host_def put_shard_def)
  have w: "evolves s1 s' \<and> (?t = [] \<and> rsh_etag ?sh = None \<or> roster_loaded load revive key s' = Some ?t)"
    using wr roster_write_loop_lands [where revive = revive and encode = encode and env = env, OF rt env(1)]
    by (auto simp: roster_write_def evolves_refl split: if_splits)
  have r: "evolves s s1 \<and> (\<not> rh_registered h \<longrightarrow> (\<exists>t. roster_loaded load revive roster_index_key s1 = Some t \<and> jhas t (rh_id h)))"
    using reg register_host_indexes [where revive = revive and encode = encode and env = reg_env, OF rt env(2)]
    by (auto simp: evolves_refl split: if_splits)
  from g w r show ?thesis by auto
qed

end


subsection \<open>Adoption\<close>

context cas_storage
begin

lemma roster_loaded_other:
  "save s roster_type k v e = Inr (et, s') \<Longrightarrow> k' \<noteq> k \<Longrightarrow> roster_loaded load revive k' s' = roster_loaded load revive k' s"
  "clear s roster_type k e = Inr s' \<Longrightarrow> k' \<noteq> k \<Longrightarrow> roster_loaded load revive k' s' = roster_loaded load revive k' s"
  by (simp_all add: roster_loaded_def other_save other_clear record_id_key_inject)

text \<open>
  One sub-shard, whatever the others do before the write. If the record is then still the one that was read, the failures
  stay and the rest goes; if not, the write is refused and what the others left is left.
\<close>

lemma adopt_shard_contended:
  assumes rt: "\<And>t. revive (wrap (encode t)) = t" and ok: "ok s" "evolves s (env s)"
    and l: "load s roster_type key = Some (r, et)"
    and run: "adopt_shard load save clear encode revive touch env key s = (res, refs, s')"
  shows "refs = roster_refs (revive r)
     \<and> (if load (env s) roster_type key = load s roster_type key
        then res = Inr (unadopted touch (revive r) = [])
          \<and> roster_loaded load revive key s' = (if unadopted touch (revive r) = [] then None else Some (unadopted touch (revive r)))
        else s' = env s \<and> (\<exists>e. res = (if is_storage_conflict e then Inr False else Inl e)
          \<and> (clear (env s) roster_type key (Some et) = Inl e \<or> save (env s) roster_type key (encode (unadopted touch (revive r))) (Some et) = Inl e)))"
proof (cases "load (env s) roster_type key = load s roster_type key")
  case True
  then have et: "map_option snd (load (env s) roster_type key) = Some et" using l by simp
  show ?thesis
  proof (cases "unadopted touch (revive r) = []")
    case un: True
    obtain s2 where c: "clear (env s) roster_type key (Some et) = Inr s2" using clear_accepts [OF et] by auto
    with run l un have "res = Inr True" "refs = roster_refs (revive r)" "s' = s2"
      by (auto simp: adopt_shard_def unadopted_def roster_refs_def Let_def)
    with True un clear_load [OF c] show ?thesis by (simp add: roster_loaded_def)
  next
    case un: False
    obtain e2 s2 where c: "save (env s) roster_type key (encode (unadopted touch (revive r))) (Some et) = Inr (e2, s2)"
      using save_accepts [OF et] by blast
    with run l un have "res = Inr False" "refs = roster_refs (revive r)" "s' = s2"
      by (auto simp: adopt_shard_def unadopted_def roster_refs_def Let_def)
    with True un save_load [OF c] show ?thesis by (simp add: roster_loaded_def rt)
  qed
next
  case False
  then have et: "map_option snd (load (env s) roster_type key) \<noteq> Some et"
    using matching_etag_same_record [OF ok, of roster_type key] l by auto
  obtain e where c: "clear (env s) roster_type key (Some et) = Inl e"
    using clear_ok [of "env s" roster_type key "Some et"] et by (cases "clear (env s) roster_type key (Some et)") auto
  obtain e' where v: "save (env s) roster_type key (encode (unadopted touch (revive r))) (Some et) = Inl e'"
    using save_ok [of "env s" roster_type key "encode (unadopted touch (revive r))" "Some et"] et
    by (cases "save (env s) roster_type key (encode (unadopted touch (revive r))) (Some et)") auto
  from run l c v False show ?thesis
    by (auto simp: adopt_shard_def unadopted_def [symmetric] roster_refs_def Let_def split: if_splits)
qed

end


subsection \<open>On the in-memory adapter\<close>

definition mem_roster :: "string \<Rightarrow> roster mem_storage \<Rightarrow> roster option" where
  "mem_roster key s = roster_loaded mem_view fst key s"

definition mem_flush ::
  "int \<Rightarrow> (nat \<Rightarrow> roster mem_storage \<Rightarrow> roster mem_storage) \<Rightarrow> (nat \<Rightarrow> roster mem_storage \<Rightarrow> roster mem_storage)
     \<Rightarrow> string \<Rightarrow> roster_host \<Rightarrow> roster mem_storage \<Rightarrow> (storage_error + unit) \<times> roster_host \<times> roster mem_storage" where
  "mem_flush now reg_env env key h s = roster_flush mem_view mem_save id fst now reg_env env key h s"

definition mem_adopt_shard ::
  "(actor_ref \<Rightarrow> bool) \<Rightarrow> (roster mem_storage \<Rightarrow> roster mem_storage) \<Rightarrow> string \<Rightarrow> roster mem_storage
     \<Rightarrow> (storage_error + bool) \<times> actor_ref list \<times> roster mem_storage" where
  "mem_adopt_shard touch env key s = adopt_shard mem_view mem_save mem_clear id fst touch env key s"

definition mem_adopt_host ::
  "(actor_ref \<Rightarrow> bool) \<Rightarrow> (string \<Rightarrow> roster mem_storage \<Rightarrow> roster mem_storage) \<Rightarrow> string \<Rightarrow> roster mem_storage
     \<Rightarrow> (storage_error + bool) \<times> actor_ref list \<times> roster mem_storage" where
  "mem_adopt_host touch env h s = adopt_host mem_view mem_save mem_clear id fst touch env h s"

text \<open>The store in which the adoption reads sub-shard \<open>k\<close>, after the ones before it.\<close>

definition store_for :: "(actor_ref \<Rightarrow> bool) \<Rightarrow> (string \<Rightarrow> roster mem_storage \<Rightarrow> roster mem_storage) \<Rightarrow> string \<Rightarrow> string list \<Rightarrow> string
     \<Rightarrow> roster mem_storage \<Rightarrow> roster mem_storage" where
  "store_for touch env h ks k s =
     fold (\<lambda>j s. snd (snd (mem_adopt_shard touch (env j) (roster_key h j) s))) (takeWhile (\<lambda>j. j \<noteq> k) ks) s"

lemma fst_fresh_record: "fst (fresh_record (id t)) = t"
  by (simp add: fresh_record_def)

text \<open>
  A run is tracked durably. A flush that reports success, whatever adopters and other hosts write
  meanwhile, has the whole table of the shard in the store with every queued edit applied in
  order; and a host's first flush had the host in the index before its roster was written.
\<close>

theorem tracked_runs_are_durable:
  assumes "\<And>i s. mem_evolves s (env i s)" and "\<And>i s. mem_evolves s (reg_env i s)"
    and "mem_flush now reg_env env key h s = (Inr u, h', s')"
    and "t = fold (apply_roster_edit now) (rsh_pending (shard_of_host h key)) (rsh_table (shard_of_host h key))"
  shows "rsh_table (shard_of_host h' key) = t
     \<and> (t \<noteq> [] \<longrightarrow> mem_roster key s' = Some t)
     \<and> (\<exists>s1. mem_evolves s s1 \<and> mem_evolves s1 s'
          \<and> (\<not> rh_registered h \<longrightarrow> (\<exists>index. mem_roster roster_index_key s1 = Some index \<and> jhas index (rh_id h))))"
  using mem.roster_flush_durable [where revive = fst and encode = id, OF fst_fresh_record assms(1,2) assms(3) [unfolded mem_flush_def]]
    assms(4) unfolding mem_roster_def by auto

text \<open>What one sub-shard's adoption did, given the store it read.\<close>

definition shard_adopted :: "(actor_ref \<Rightarrow> bool) \<Rightarrow> (roster mem_storage \<Rightarrow> roster mem_storage) \<Rightarrow> string \<Rightarrow> roster mem_storage \<Rightarrow> actor_ref list \<Rightarrow> bool" where
  "shard_adopted touch env key s refs \<longleftrightarrow>
     (let s' = snd (snd (mem_adopt_shard touch env key s)) in
      case mem_roster key s of
        None \<Rightarrow> s' = s
      | Some t \<Rightarrow> (\<forall>(aid, since) \<in> set t. \<forall>ref. ref_of aid = Some ref \<longrightarrow> ref \<in> set refs)
          \<and> (if mem_view (env s) roster_type key = mem_view s roster_type key
             then mem_roster key s' = (if unadopted touch t = [] then None else Some (unadopted touch t))
             else s' = env s))"

text \<open>A sub-shard counts as drained when nothing was listed, or every touch succeeded and nobody wrote it meanwhile.\<close>

definition shard_drained :: "(actor_ref \<Rightarrow> bool) \<Rightarrow> (roster mem_storage \<Rightarrow> roster mem_storage) \<Rightarrow> string \<Rightarrow> roster mem_storage \<Rightarrow> bool" where
  "shard_drained touch env key s \<longleftrightarrow>
     (case mem_roster key s of None \<Rightarrow> True
      | Some t \<Rightarrow> unadopted touch t = [] \<and> mem_view (env s) roster_type key = mem_view s roster_type key)"

lemma mem_errors_conflict: "mem_save s t k v e = Inl x \<Longrightarrow> is_storage_conflict x" "mem_clear s t k e = Inl x \<Longrightarrow> is_storage_conflict x"
  by (auto simp: mem_save_def mem_clear_def Let_def split: if_splits)

lemma mem_adopt_shard_run:
  assumes "mem_ok s" "mem_evolves s (env s)"
  shows "\<exists>refs s'. mem_adopt_shard touch env key s = (Inr (shard_drained touch env key s), refs, s') \<and> shard_adopted touch env key s refs \<and> mem_ok s'"
proof -
  obtain res refs s' where run: "mem_adopt_shard touch env key s = (res, refs, s')" by (rule prod_cases3)
  have ok': "mem_ok s'"
    using run mem_evolves_ok [OF assms(2,1)] mem_evolves_intros(1,3) [THEN mem_evolves_ok] assms(1)
    by (auto simp: mem_adopt_shard_def adopt_shard_def Let_def split: option.splits if_splits sum.splits)
  show ?thesis
  proof (cases "mem_view s roster_type key")
    case None
    with run ok' show ?thesis
      by (simp add: mem_adopt_shard_def adopt_shard_def shard_drained_def shard_adopted_def mem_roster_def roster_loaded_def)
  next
    case (Some p)
    obtain r et where p: "p = (r, et)" by (rule prod.exhaust)
    have t: "mem_roster key s = Some (fst r)" using Some p by (simp add: mem_roster_def roster_loaded_def)
    note C = mem.adopt_shard_contended [where revive = fst and encode = id, OF fst_fresh_record assms Some [unfolded p] run [unfolded mem_adopt_shard_def]]
    from C have refs: "refs = roster_refs (fst r)" ..
    have "res = Inr (shard_drained touch env key s) \<and>
       (if mem_view (env s) roster_type key = mem_view s roster_type key
        then mem_roster key s' = (if unadopted touch (fst r) = [] then None else Some (unadopted touch (fst r))) else s' = env s)"
      using C t by (auto simp: shard_drained_def mem_roster_def split: if_splits dest: mem_errors_conflict)
    then show ?thesis using run t refs roster_refs_mem ok' by (auto simp: shard_adopted_def)
  qed
qed

lemma shard_adopted_more: "shard_adopted touch env key s refs \<Longrightarrow> set refs \<subseteq> set refs' \<Longrightarrow> shard_adopted touch env key s refs'"
  by (fastforce simp: shard_adopted_def Let_def split: option.splits)

lemma adopt_shards_run:
  assumes env: "\<And>k s. mem_evolves s (env k s)"
  shows "distinct ks \<Longrightarrow> mem_ok s \<Longrightarrow> \<exists>refs s'.
     adopt_shards mem_view mem_save mem_clear id fst touch env h ks s
       = (Inr (\<forall>k \<in> set ks. shard_drained touch (env k) (roster_key h k) (store_for touch env h ks k s)), refs, s')
     \<and> (\<forall>k \<in> set ks. shard_adopted touch (env k) (roster_key h k) (store_for touch env h ks k s) refs)"
proof (induction ks arbitrary: s)
  case (Cons k ks)
  obtain refs1 s1 where one: "mem_adopt_shard touch (env k) (roster_key h k) s = (Inr (shard_drained touch (env k) (roster_key h k) s), refs1, s1)"
    "shard_adopted touch (env k) (roster_key h k) s refs1" "mem_ok s1"
    using mem_adopt_shard_run [OF Cons.prems(2), of "env k"] env by blast
  have here: "store_for touch env h (k # ks) k s = s" by (simp add: store_for_def)
  have later: "store_for touch env h (k # ks) j s = store_for touch env h ks j s1" if "j \<in> set ks" for j
    using that Cons.prems(1) one(1) by (auto simp: store_for_def)
  obtain refs2 s2 where two: "adopt_shards mem_view mem_save mem_clear id fst touch env h ks s1
       = (Inr (\<forall>k \<in> set ks. shard_drained touch (env k) (roster_key h k) (store_for touch env h ks k s1)), refs2, s2)"
    "\<forall>k \<in> set ks. shard_adopted touch (env k) (roster_key h k) (store_for touch env h ks k s1) refs2"
    using Cons.IH [OF _ one(3)] Cons.prems(1) by (simp del: id_apply) blast
  have "adopt_shards mem_view mem_save mem_clear id fst touch env h (k # ks) s
      = (Inr (\<forall>k' \<in> set (k # ks). shard_drained touch (env k') (roster_key h k') (store_for touch env h (k # ks) k' s)), refs1 @ refs2, s2)"
    using one(1) two(1) by (simp add: here later mem_adopt_shard_def)
  moreover have "\<forall>k' \<in> set (k # ks). shard_adopted touch (env k') (roster_key h k') (store_for touch env h (k # ks) k' s) (refs1 @ refs2)"
    using one(2) two(2) by (auto simp: here later intro: shard_adopted_more)
  ultimately show ?case by blast
qed simp

text \<open>
  C39. Adoption reaches what is listed, and loses nothing. Whatever other hosts write meanwhile, adopting a host's roster touches every actor
  listed in each sub-shard it reads; it takes off the list exactly those whose touch succeeded, and a sub-shard that
  somebody wrote in between is left as they left it; and the roster counts as drained exactly when each sub-shard was empty, or
  every touch in it succeeded and nobody wrote it.
\<close>

theorem adoption_touches_every_listed_actor:
  assumes "mem_ok s" "\<And>k s. mem_evolves s (env k s)" "mem_adopt_host touch env h s = (res, refs, s')"
  shows "res = Inr (\<forall>k \<in> set reminder_shard_keys. shard_drained touch (env k) (roster_key h k) (store_for touch env h reminder_shard_keys k s))
     \<and> (\<forall>k \<in> set reminder_shard_keys. shard_adopted touch (env k) (roster_key h k) (store_for touch env h reminder_shard_keys k s) refs)"
proof -
  have "distinct reminder_shard_keys" by code_simp
  from adopt_shards_run [where env = env and touch = touch and h = h, OF assms(2) this assms(1)] assms(3) show ?thesis
    by (auto simp: mem_adopt_host_def adopt_host_def)
qed


text \<open>The other records of the store, under a quiet write loop.\<close>

context cas_storage
begin

lemma roster_write_loop_other:
  "roster_write_loop load save encode (\<lambda>_ x. x) key t left etag s = (r, et, s') \<Longrightarrow> k' \<noteq> key
     \<Longrightarrow> roster_loaded load revive k' s' = roster_loaded load revive k' s"
proof (induction left arbitrary: etag s rule: less_induct)
  case (less left etag s)
  note run = less.prems(1) [unfolded roster_write_loop.simps [of load save encode "\<lambda>_ x. x" key t left etag s] Let_def]
  show ?case
  proof (cases "save s roster_type key (encode t) etag")
    case (Inr p)
    obtain e s2 where p: "p = (e, s2)" by (rule prod.exhaust)
    with run Inr roster_loaded_other(1) [OF Inr [unfolded p] less.prems(2)] show ?thesis by simp
  next
    case (Inl e)
    with run less show ?thesis by (cases left) (auto split: if_splits)
  qed
qed

end

text \<open>
  A live host that was adopted by mistake is never adopted again. An adopter that took a registered host
  for dead has dropped it from the index; the host's next track writes its roster back whole,
  but the registration is remembered and not repeated, so the index still lacks the host: when it
  really dies, an adoption pass, which visits the hosts of the index, does not find its runs.
\<close>

theorem mistaken_adoption_unindexes:
  assumes "rh_registered h" and "mem_roster roster_index_key s = Some index" and "\<not> jhas index (rh_id h)"
    and "key \<noteq> roster_index_key"
    and "mem_flush now (\<lambda>_ x. x) (\<lambda>_ x. x) key h s = (Inr u, h', s')"
    and "t = fold (apply_roster_edit now) (rsh_pending (shard_of_host h key)) (rsh_table (shard_of_host h key))" and "t \<noteq> []"
  shows "mem_roster key s' = Some t \<and> rh_registered h' \<and> mem_roster roster_index_key s' = Some index
     \<and> rh_id h \<notin> set (jkeys index)"
proof -
  have ev: "\<And>i s. mem_evolves s ((\<lambda>_ x. x) i s)" by simp
  note dur = mem.roster_flush_durable [where revive = fst and encode = id, OF fst_fresh_record ev ev assms(5) [unfolded mem_flush_def]]
  obtain et where "roster_write mem_view mem_save id (\<lambda>_ x. x) key t (rsh_etag (shard_of_host h key)) s = (Inr (), et, s')"
    using assms(1,5,6) by (auto simp: mem_flush_def roster_flush_def Let_def split: prod.splits sum.splits)
  then obtain left where "roster_write_loop mem_view mem_save id (\<lambda>_ x. x) key t left (rsh_etag (shard_of_host h key)) s = (Inr (), et, s')"
    using assms(7) by (auto simp: roster_write_def)
  from mem.roster_write_loop_other [OF this, of roster_index_key fst] assms(4) dur assms(2,3,6,7) show ?thesis
    by (auto simp: mem_roster_def jhas_iff_key)
qed

text \<open>
  Host \<open>s.a\<close> is registered and has a run; \<open>s.b\<close> adopts it while it lives; \<open>s.a\<close> tracks another run.
\<close>

definition demo_queue :: "string \<Rightarrow> roster_host \<Rightarrow> roster_host" where
  "demo_queue aid h = put_shard ''s.a/p3'' ((shard_of_host h ''s.a/p3'')\<lparr>rsh_pending := [Tracks aid]\<rparr>) h"

definition demo_first :: "roster_host \<times> roster mem_storage" where
  "demo_first = snd (mem_flush 100 (\<lambda>_ x. x) (\<lambda>_ x. x) ''s.a/p3''
     (demo_queue (actor_id \<lparr>ref_type = ''job'', ref_key = ''1''\<rparr>) \<lparr>rh_id = ''s.a'', rh_shards = [], rh_registered = False\<rparr>) memory_storage)"

definition demo_adopted :: "actor_ref list \<times> roster mem_storage" where
  "demo_adopted = snd (adopt mem_view mem_save mem_clear id fst (\<lambda>_. True) (\<lambda>_ _ x. x) (\<lambda>_ _ x. x) (\<lambda>_. False) (\<lambda>_. True) ''s.b'' (snd demo_first))"

definition demo_second :: "(storage_error + unit) \<times> roster_host \<times> roster mem_storage" where
  "demo_second = mem_flush 200 (\<lambda>_ x. x) (\<lambda>_ x. x) ''s.a/p3''
     (demo_queue (actor_id \<lparr>ref_type = ''job'', ref_key = ''2''\<rparr>) (fst demo_first)) (snd demo_adopted)"

lemma demo_first_runs: "rh_registered (fst demo_first)" "rh_id (fst demo_first) = ''s.a''"
  by code_simp+

lemma demo_adopted_index: "mem_roster roster_index_key (snd demo_adopted) = Some []"
  by code_simp

lemma demo_second_runs: "fst demo_second = Inr ()"
  by code_simp

lemma demo_second_touched:
  "fst (snd (adopt mem_view mem_save mem_clear id fst (\<lambda>_. True) (\<lambda>_ _ x. x) (\<lambda>_ _ x. x) (\<lambda>_. False) (\<lambda>_. True) ''s.b'' (snd (snd demo_second)))) = []"
  by code_simp


theorem mistaken_adoption_unindexes_witness:
  "mem_roster ''s.a/p3'' (snd (snd demo_second)) = Some [(actor_id \<lparr>ref_type = ''job'', ref_key = ''1''\<rparr>, 100),
      (actor_id \<lparr>ref_type = ''job'', ref_key = ''2''\<rparr>, 200)]
   \<and> mem_roster roster_index_key (snd (snd demo_second)) = Some []"
proof -
  let ?h = "demo_queue (actor_id \<lparr>ref_type = ''job'', ref_key = ''2''\<rparr>) (fst demo_first)"
  let ?t = "[(actor_id \<lparr>ref_type = ''job'', ref_key = ''1''\<rparr>, 100::int), (actor_id \<lparr>ref_type = ''job'', ref_key = ''2''\<rparr>, 200)]"
  have t: "?t = fold (apply_roster_edit 200) (rsh_pending (shard_of_host ?h ''s.a/p3'')) (rsh_table (shard_of_host ?h ''s.a/p3''))"
    by code_simp
  have reg: "rh_registered ?h" by code_simp
  have k: "''s.a/p3'' \<noteq> roster_index_key" by (simp add: roster_index_key_def)
  obtain h' s' where run: "mem_flush 200 (\<lambda>_ x. x) (\<lambda>_ x. x) ''s.a/p3'' ?h (snd demo_adopted) = (Inr (), h', s')"
    using demo_second_runs by (cases demo_second) (auto simp: demo_second_def)
  have "\<not> jhas ([] :: roster) (rh_id ?h)" by simp
  from mistaken_adoption_unindexes [OF reg demo_adopted_index this k run t] run show ?thesis
    by (simp add: demo_second_def)
qed

theorem tracked_runs_are_durable_witness:
  "\<exists>s1. mem_evolves memory_storage s1
     \<and> (\<exists>index. mem_roster roster_index_key s1 = Some index \<and> jhas index ''s.a'')"
proof -
  let ?h = "demo_queue (actor_id \<lparr>ref_type = ''job'', ref_key = ''1''\<rparr>) \<lparr>rh_id = ''s.a'', rh_shards = [], rh_registered = False\<rparr>"
  have "fst (mem_flush 100 (\<lambda>_ x. x) (\<lambda>_ x. x) ''s.a/p3'' ?h memory_storage) = Inr ()" by code_simp
  then obtain h' s' where "mem_flush 100 (\<lambda>_ x. x) (\<lambda>_ x. x) ''s.a/p3'' ?h memory_storage = (Inr (), h', s')"
    by (cases "mem_flush 100 (\<lambda>_ x. x) (\<lambda>_ x. x) ''s.a/p3'' ?h memory_storage") auto
  from tracked_runs_are_durable [OF _ _ this refl] show ?thesis
    by (auto simp: demo_queue_def put_shard_def)
qed

lemma jget_mem: "jget m k = Some v \<Longrightarrow> (k, v) \<in> set m"
  by (rule map_of_SomeD)

lemma mem_ok_listed: "list_all (\<lambda>(k, r). list_ex (\<lambda>n. mr_etag r = show_nat n) [1..<Suc (ms_counter s)]) (ms_records s) \<Longrightarrow> mem_ok s"
  by (fastforce simp: mem_ok_def list_all_iff list_ex_iff dest!: jget_mem)

theorem adoption_touches_every_listed_actor_witness:
  "mem_adopt_host (\<lambda>_. True) (\<lambda>_ x. x) ''s.a'' (snd demo_first)
     = (Inr True, [\<lparr>ref_type = ''job'', ref_key = ''1''\<rparr>], snd (snd (mem_adopt_host (\<lambda>_. True) (\<lambda>_ x. x) ''s.a'' (snd demo_first))))"
proof -
  let ?m = "mem_adopt_host (\<lambda>_. True) (\<lambda>_ x. x) ''s.a'' (snd demo_first)"
  have ok: "mem_ok (snd demo_first)" by (rule mem_ok_listed) code_simp
  obtain res refs s' where m: "?m = (res, refs, s')" by (rule prod_cases3)
  have "list_all (\<lambda>k. shard_drained (\<lambda>_. True) (\<lambda>x. x) (roster_key ''s.a'' k)
      (store_for (\<lambda>_. True) (\<lambda>_ x. x) ''s.a'' reminder_shard_keys k (snd demo_first))) reminder_shard_keys" by code_simp
  with adoption_touches_every_listed_actor [OF ok _ m] have "res = Inr True" by (auto simp: list_all_iff)
  moreover have "fst (snd ?m) = [\<lparr>ref_type = ''job'', ref_key = ''1''\<rparr>]" by code_simp
  ultimately show ?thesis using m by simp
qed

end
