(* ===== verification/Machines.thy ===== *)
theory Machines
  imports Prelude
begin

section \<open>Transition systems\<close>

text \<open>
  What the components that are state machines share: reachable states, invariants by rule induction,
  and the argument that a system which cannot run for ever gets to its end.
\<close>

inductive reach :: "('s \<Rightarrow> bool) \<Rightarrow> ('s \<Rightarrow> 's \<Rightarrow> bool) \<Rightarrow> 's \<Rightarrow> bool" for init step where
  reach_init: "init s \<Longrightarrow> reach init step s"
| reach_step: "reach init step s \<Longrightarrow> step s s' \<Longrightarrow> reach init step s'"

locale invariant_machine =
  fixes init :: "'s \<Rightarrow> bool" and step :: "'s \<Rightarrow> 's \<Rightarrow> bool" and inv :: "'s \<Rightarrow> bool"
  assumes inv_init: "init s \<Longrightarrow> inv s"
    and inv_step: "inv s \<Longrightarrow> step s s' \<Longrightarrow> inv s'"
begin

lemma reach_inv: "reach init step s \<Longrightarrow> inv s"
  by (induction rule: reach.induct) (auto intro: inv_init inv_step)

lemma run_inv: "step\<^sup>*\<^sup>* s s' \<Longrightarrow> inv s \<Longrightarrow> inv s'"
  by (induction rule: rtranclp_induct) (auto intro: inv_step)

end

text \<open>
  A machine that finishes: every step takes a measure down, and a state whose measure is not zero has
  a step. The steps an outside party must take (a promise that settles) are steps too.
\<close>

locale finishing_machine =
  fixes step :: "'s \<Rightarrow> 's \<Rightarrow> bool" and size' :: "'s \<Rightarrow> nat" and ok :: "'s \<Rightarrow> bool"
  assumes decreases: "ok s \<Longrightarrow> step s s' \<Longrightarrow> size' s' < size' s"
    and keeps_ok: "ok s \<Longrightarrow> step s s' \<Longrightarrow> ok s'"
    and progress: "ok s \<Longrightarrow> size' s \<noteq> 0 \<Longrightarrow> \<exists>s'. step s s'"
begin

lemma run_bounded: "(step ^^ n) s s' \<Longrightarrow> ok s \<Longrightarrow> size' s' + n \<le> size' s \<and> ok s'"
proof (induction n arbitrary: s')
  case (Suc n)
  then obtain t where "(step ^^ n) s t" "step t s'" by auto
  with Suc decreases [of t s'] keeps_ok [of t s'] show ?case by fastforce
qed simp

lemma stuck_is_finished: "ok s \<Longrightarrow> \<nexists>s'. step s s' \<Longrightarrow> size' s = 0"
  using progress by blast

lemma finishes: "ok s \<Longrightarrow> \<exists>s'. step\<^sup>*\<^sup>* s s' \<and> size' s' = 0"
proof (induction "size' s" arbitrary: s rule: less_induct)
  case less
  show ?case
  proof (cases "size' s = 0")
    case False
    then obtain t where t: "step s t" using progress less.prems by blast
    from less.hyps [OF decreases [OF less.prems t] keeps_ok [OF less.prems t]] t show ?thesis
      by (meson converse_rtranclp_into_rtranclp)
  qed blast
qed

end

end
