(* ===== verification/Turns.thy ===== *)
theory Turns
  imports Machines
begin

section \<open>One activation's turns\<close>

text \<open>
  \<open>host/turns.ts\<close>. A serial turn is chained on the tail: it starts once the serial turn before it has
  settled. An interleaved turn starts on a microtask of its own. A turn is a number; what it does
  is outside, only that it settles, well or badly, is a step. The promise chain is the queue of the
  serial turns not yet started. The load is the counter all turns of one host share.
\<close>

subsection \<open>State\<close>

datatype turn_event = Started nat | Settled nat bool

record turns =
  tn_closed :: bool
  tn_queue :: "nat list"
  tn_running :: "nat option"
  tn_inflight :: "nat list"
  tn_depth :: nat
  tn_log :: "turn_event list"
  tn_accepted :: "nat list"

definition new_turns :: turns where
  "new_turns = \<lparr>tn_closed = False, tn_queue = [], tn_running = None, tn_inflight = [], tn_depth = 0,
                tn_log = [], tn_accepted = []\<rparr>"

record host_turns =
  ht_load :: nat
  ht_lanes :: "turns list"

subsection \<open>Operations\<close>

text \<open>\<open>run\<close>: refused when closed, else counted and queued in its lane.\<close>

definition turns_run :: "bool \<Rightarrow> nat \<Rightarrow> turns \<times> nat \<Rightarrow> bool \<times> turns \<times> nat" where
  "turns_run interleave i st = (case st of (t, load) \<Rightarrow>
     if tn_closed t then (False, t, load)
     else if interleave
     then (True, t\<lparr>tn_depth := Suc (tn_depth t), tn_inflight := tn_inflight t @ [i]\<rparr>, Suc load)
     else (True, t\<lparr>tn_depth := Suc (tn_depth t), tn_queue := tn_queue t @ [i], tn_accepted := tn_accepted t @ [i]\<rparr>, Suc load))"

text \<open>The tail has settled: the next serial turn starts.\<close>

definition turns_start :: "turns \<Rightarrow> turns option" where
  "turns_start t = (case (tn_running t, tn_queue t) of
     (None, i # q) \<Rightarrow> Some (t\<lparr>tn_running := Some i, tn_queue := q, tn_log := tn_log t @ [Started i]\<rparr>)
   | _ \<Rightarrow> None)"

text \<open>The running serial turn settles, with a value or an error: the same bookkeeping.\<close>

definition turns_settle :: "bool \<Rightarrow> turns \<times> nat \<Rightarrow> (turns \<times> nat) option" where
  "turns_settle good st = (case st of (t, load) \<Rightarrow> (case tn_running t of
     None \<Rightarrow> None
   | Some i \<Rightarrow> Some (t\<lparr>tn_running := None, tn_depth := tn_depth t - 1, tn_log := tn_log t @ [Settled i good]\<rparr>, load - 1)))"

definition turns_settle_inter :: "nat \<Rightarrow> turns \<times> nat \<Rightarrow> (turns \<times> nat) option" where
  "turns_settle_inter i st = (case st of (t, load) \<Rightarrow>
     if i \<in> set (tn_inflight t)
     then Some (t\<lparr>tn_inflight := remove1 i (tn_inflight t), tn_depth := tn_depth t - 1\<rparr>, load - 1)
     else None)"

definition turns_close :: "turns \<Rightarrow> turns" where
  "turns_close t = t\<lparr>tn_closed := True\<rparr>"

text \<open>What \<open>drain\<close> waits for: both lanes empty.\<close>

definition turns_drained :: "turns \<Rightarrow> bool" where
  "turns_drained t \<longleftrightarrow> tn_running t = None \<and> tn_queue t = [] \<and> tn_inflight t = []"

subsection \<open>Steps of a host\<close>

text \<open>A turn that was scheduled makes progress: it starts, or it settles.\<close>

inductive turns_progress :: "turns \<times> nat \<Rightarrow> turns \<times> nat \<Rightarrow> bool" where
  starts: "turns_start t = Some t' \<Longrightarrow> turns_progress (t, load) (t', load)"
| settles: "turns_settle good (t, load) = Some st' \<Longrightarrow> turns_progress (t, load) st'"
| settles_inter: "turns_settle_inter i (t, load) = Some st' \<Longrightarrow> turns_progress (t, load) st'"

inductive host_step :: "host_turns \<Rightarrow> host_turns \<Rightarrow> bool" where
  runs: "k < length (ht_lanes h) \<Longrightarrow> turns_run il i (ht_lanes h ! k, ht_load h) = (ok, t', load')
    \<Longrightarrow> host_step h \<lparr>ht_load = load', ht_lanes = (ht_lanes h)[k := t']\<rparr>"
| progresses: "k < length (ht_lanes h) \<Longrightarrow> turns_progress (ht_lanes h ! k, ht_load h) (t', load')
    \<Longrightarrow> host_step h \<lparr>ht_load = load', ht_lanes = (ht_lanes h)[k := t']\<rparr>"
| closes: "k < length (ht_lanes h) \<Longrightarrow> host_step h (h\<lparr>ht_lanes := (ht_lanes h)[k := turns_close (ht_lanes h ! k)]\<rparr>)"
| activates: "host_step h (h\<lparr>ht_lanes := ht_lanes h @ [new_turns]\<rparr>)"

definition host_start :: "host_turns \<Rightarrow> bool" where
  "host_start h \<longleftrightarrow> h = \<lparr>ht_load = 0, ht_lanes = []\<rparr>"

subsection \<open>The invariant\<close>

text \<open>The whole history of a lane: the settled turns one after another, then the running one.\<close>

fun serial_log :: "(nat \<times> bool) list \<Rightarrow> turn_event list" where
  "serial_log [] = []"
| "serial_log ((i, good) # xs) = Started i # Settled i good # serial_log xs"

lemma serial_log_append: "serial_log (xs @ ys) = serial_log xs @ serial_log ys"
  by (induction xs rule: serial_log.induct) auto

definition lane_inv :: "turns \<Rightarrow> bool" where
  "lane_inv t \<longleftrightarrow>
     (\<exists>over. tn_log t = serial_log over @ (case tn_running t of None \<Rightarrow> [] | Some i \<Rightarrow> [Started i])
        \<and> tn_accepted t = map fst over @ (case tn_running t of None \<Rightarrow> [] | Some i \<Rightarrow> [i]) @ tn_queue t)
     \<and> tn_depth t = length (tn_queue t) + (if tn_running t = None then 0 else 1) + length (tn_inflight t)"

definition host_inv :: "host_turns \<Rightarrow> bool" where
  "host_inv h \<longleftrightarrow> (\<forall>t \<in> set (ht_lanes h). lane_inv t) \<and> ht_load h = sum_list (map tn_depth (ht_lanes h))"

lemma lane_inv_new [simp]: "lane_inv new_turns"
  by (simp add: lane_inv_def new_turns_def)

lemma turns_run_inv:
  "turns_run il i (t, load) = (ok, t', load') \<Longrightarrow> lane_inv t
     \<Longrightarrow> lane_inv t' \<and> int load' - int load = int (tn_depth t') - int (tn_depth t)"
  by (auto simp: turns_run_def lane_inv_def split: if_splits)

lemma turns_progress_inv:
  assumes "turns_progress (t, load) (t', load')" "lane_inv t" "tn_depth t \<le> load"
  shows "lane_inv t' \<and> int load' - int load = int (tn_depth t') - int (tn_depth t)"
  using assms(1)
proof cases
  case starts
  then obtain i q where r: "tn_running t = None" "tn_queue t = i # q"
    "t' = t\<lparr>tn_running := Some i, tn_queue := q, tn_log := tn_log t @ [Started i]\<rparr>" "load' = load"
    by (auto simp: turns_start_def split: option.splits list.splits)
  with assms(2) show ?thesis by (simp add: lane_inv_def)
next
  case (settles good)
  then obtain i where r: "tn_running t = Some i" "load' = load - 1"
    "t' = t\<lparr>tn_running := None, tn_depth := tn_depth t - 1, tn_log := tn_log t @ [Settled i good]\<rparr>"
    by (auto simp: turns_settle_def split: option.splits)
  from assms(2) r obtain over where o: "tn_log t = serial_log over @ [Started i]"
    "tn_accepted t = map fst over @ [i] @ tn_queue t" by (auto simp: lane_inv_def)
  have "tn_log t' = serial_log (over @ [(i, good)])" "tn_accepted t' = map fst (over @ [(i, good)]) @ tn_queue t'"
    using o r by (simp_all add: serial_log_append)
  with assms(2,3) r show ?thesis
    by (auto simp: lane_inv_def intro!: exI [of _ "over @ [(i, good)]"])
next
  case (settles_inter i)
  then have m: "i \<in> set (tn_inflight t)" and r: "load' = load - 1"
    "t' = t\<lparr>tn_inflight := remove1 i (tn_inflight t), tn_depth := tn_depth t - 1\<rparr>"
    by (auto simp: turns_settle_inter_def split: if_splits)
  from m obtain n where "length (tn_inflight t) = Suc n" by (cases "tn_inflight t") auto
  then show ?thesis using assms(2,3) m r by (auto simp: lane_inv_def length_remove1)
qed

lemma sum_list_update_depth:
  "k < length ts \<Longrightarrow> int (sum_list (map tn_depth (ts[k := t']))) = int (sum_list (map tn_depth ts)) + int (tn_depth t') - int (tn_depth (ts ! k))"
proof (induction ts arbitrary: k)
  case (Cons t ts)
  then show ?case by (cases k) auto
qed simp

lemma depth_le_load: "k < length ts \<Longrightarrow> tn_depth (ts ! k) \<le> sum_list (map tn_depth ts)"
  by (rule member_le_sum_list) auto

interpretation host_machine: invariant_machine host_start host_step host_inv
proof
  show "host_inv h" if "host_start h" for h
    using that by (simp add: host_start_def host_inv_def)
next
  have put: "host_inv \<lparr>ht_load = load', ht_lanes = (ht_lanes h)[k := t']\<rparr>"
    if "host_inv h" "k < length (ht_lanes h)" "lane_inv t'"
      "int load' - int (ht_load h) = int (tn_depth t') - int (tn_depth (ht_lanes h ! k))" for h k t' load'
  proof -
    have "int load' = int (sum_list (map tn_depth ((ht_lanes h)[k := t'])))"
      using that sum_list_update_depth [OF that(2), of t'] by (simp add: host_inv_def)
    with that show ?thesis
      by (auto simp: host_inv_def dest: set_update_subset_insert [THEN subsetD])
  qed
  show "host_inv h'" if inv: "host_inv h" and "host_step h h'" for h h'
    using that(2)
  proof cases
    case (runs k il i ok t' load')
    have "lane_inv (ht_lanes h ! k)" using inv runs(2) by (auto simp: host_inv_def)
    from turns_run_inv [OF runs(3) this] show ?thesis using put [OF inv runs(2)] runs(1) by blast
  next
    case (progresses k t' load')
    have "lane_inv (ht_lanes h ! k)" "tn_depth (ht_lanes h ! k) \<le> ht_load h"
      using inv progresses(2) depth_le_load by (auto simp: host_inv_def)
    from turns_progress_inv [OF progresses(3) this] show ?thesis using put [OF inv progresses(2)] progresses(1) by blast
  next
    case (closes k)
    have "lane_inv (turns_close (ht_lanes h ! k))" using inv closes(2) by (auto simp: host_inv_def lane_inv_def turns_close_def)
    moreover have "h' = \<lparr>ht_load = ht_load h, ht_lanes = (ht_lanes h)[k := turns_close (ht_lanes h ! k)]\<rparr>"
      using closes(1) by (cases h) simp
    ultimately show ?thesis using put [OF inv closes(2)] by (simp add: turns_close_def)
  next
    case activates
    moreover have "tn_depth new_turns = 0" by (simp add: new_turns_def)
    ultimately show ?thesis using inv by (auto simp: host_inv_def)
  qed
qed

subsection \<open>Draining\<close>

text \<open>What is left to do in a lane: a queued turn has to start and to settle, a started one to settle.\<close>

definition lane_work :: "turns \<Rightarrow> nat" where
  "lane_work t = 2 * length (tn_queue t) + (if tn_running t = None then 0 else 1) + length (tn_inflight t)"

definition lane_ok :: "nat \<Rightarrow> nat list \<Rightarrow> turns \<times> nat \<Rightarrow> bool" where
  "lane_ok others accepted st \<longleftrightarrow> lane_inv (fst st) \<and> tn_depth (fst st) + others = snd st \<and> tn_accepted (fst st) = accepted"

lemma lane_work_0: "lane_work t = 0 \<longleftrightarrow> turns_drained t"
  by (auto simp: lane_work_def turns_drained_def)

lemma turns_progress_accepted: "turns_progress (t, load) (t', load') \<Longrightarrow> tn_accepted t' = tn_accepted t"
  by (erule turns_progress.cases)
    (auto simp: turns_start_def turns_settle_def turns_settle_inter_def split: option.splits list.splits if_splits)

lemma turns_progress_work: "turns_progress (t, load) (t', load') \<Longrightarrow> lane_work t' < lane_work t"
proof (erule turns_progress.cases, goal_cases)
  case (3 i u l st)
  then have "length (tn_inflight t) \<noteq> 0" by (auto simp: turns_settle_inter_def split: if_splits)
  with 3 show ?case by (auto simp: turns_settle_inter_def lane_work_def length_remove1 split: if_splits)
qed (auto simp: turns_start_def turns_settle_def lane_work_def split: option.splits list.splits)

lemma turns_progress_exists: "lane_work t \<noteq> 0 \<Longrightarrow> \<exists>st'. turns_progress (t, load) st'"
proof (cases "tn_inflight t")
  case (Cons i js)
  then obtain st' where "turns_settle_inter i (t, load) = Some st'" by (simp add: turns_settle_inter_def)
  then show ?thesis by (blast intro: turns_progress.settles_inter)
next
  case Nil
  assume w: "lane_work t \<noteq> 0"
  show ?thesis
  proof (cases "tn_running t")
    case None
    with Nil w obtain t' where "turns_start t = Some t'"
      by (cases "tn_queue t") (auto simp: lane_work_def turns_start_def)
    then show ?thesis by (blast intro: turns_progress.starts)
  next
    case (Some i)
    then obtain st' where "turns_settle True (t, load) = Some st'" by (simp add: turns_settle_def)
    then show ?thesis by (blast intro: turns_progress.settles)
  qed
qed

interpretation lane_machine: finishing_machine turns_progress "\<lambda>st. lane_work (fst st)" "lane_ok others accepted"
  for others accepted
proof
  fix st st' assume ok: "lane_ok others accepted st" and step: "turns_progress st st'"
  obtain t load t' load' where st: "st = (t, load)" "st' = (t', load')" by force
  show "lane_work (fst st') < lane_work (fst st)" using turns_progress_work step st by simp
  from ok st have "lane_inv t" "tn_depth t \<le> load" by (auto simp: lane_ok_def)
  from turns_progress_inv [OF step [unfolded st] this] turns_progress_accepted [OF step [unfolded st]] ok
  show "lane_ok others accepted st'" by (auto simp: st lane_ok_def)
next
  fix st :: "turns \<times> nat" assume "lane_work (fst st) \<noteq> 0"
  then show "\<exists>st'. turns_progress st st'" using turns_progress_exists by (cases st) simp
qed

subsection \<open>Properties\<close>

text \<open>
  C3. Serial turns never overlap and run in arrival order. On every reachable host and every lane, the
  history is a sequence of turns that each settled before the next one started, followed by at most
  one running turn; the turns that ran, the running one and the queue are together exactly the accepted
  turns in the order they were accepted, and a failed turn changes nothing for the next. The shared
  load is the number of turns queued or running over all lanes and both kinds.
\<close>

theorem serial_turns_exclusive:
  assumes "reach host_start host_step h" "t \<in> set (ht_lanes h)"
  shows "(\<exists>over. tn_log t = serial_log over @ (case tn_running t of None \<Rightarrow> [] | Some i \<Rightarrow> [Started i])
        \<and> tn_accepted t = map fst over @ (case tn_running t of None \<Rightarrow> [] | Some i \<Rightarrow> [i]) @ tn_queue t)
     \<and> tn_depth t = length (tn_queue t) + (if tn_running t = None then 0 else 1) + length (tn_inflight t)
     \<and> ht_load h = sum_list (map tn_depth (ht_lanes h))"
  using host_machine.reach_inv [OF assms(1)] assms(2) by (auto simp: host_inv_def lane_inv_def)

text \<open>
  Draining ends, and everything accepted has run by then. From any lane whose counter is right, no
  schedule of starts and settlements is longer than the work that was left; one reaches the drained
  lane; and in every drained lane the turns that were accepted have all run and settled, in the order
  they were accepted, failed or not, the depth is 0 and exactly the lane's share of the load was given back.
\<close>

theorem drain_finishes:
  assumes "lane_inv t" "tn_depth t \<le> load"
  shows "(\<forall>n st'. (turns_progress ^^ n) (t, load) st' \<longrightarrow> n \<le> lane_work t)
    \<and> (\<exists>t' load'. turns_progress\<^sup>*\<^sup>* (t, load) (t', load') \<and> turns_drained t')
    \<and> (\<forall>t' load'. turns_progress\<^sup>*\<^sup>* (t, load) (t', load') \<and> turns_drained t' \<longrightarrow>
         tn_depth t' = 0 \<and> load' + tn_depth t = load
         \<and> (\<exists>over. tn_log t' = serial_log over \<and> map fst over = tn_accepted t))"
proof (intro conjI allI impI)
  have ok: "lane_ok (load - tn_depth t) (tn_accepted t) (t, load)" using assms by (simp add: lane_ok_def)
  show "n \<le> lane_work t" if "(turns_progress ^^ n) (t, load) st'" for n st'
    using lane_machine.run_bounded [OF that ok] by simp
  show "\<exists>t' load'. turns_progress\<^sup>*\<^sup>* (t, load) (t', load') \<and> turns_drained t'"
    using lane_machine.finishes [OF ok] lane_work_0 by auto
  fix t' load' assume a: "turns_progress\<^sup>*\<^sup>* (t, load) (t', load') \<and> turns_drained t'"
  then obtain n where "(turns_progress ^^ n) (t, load) (t', load')" using rtranclp_imp_relpowp by fastforce
  from lane_machine.run_bounded [OF this ok] have "lane_ok (load - tn_depth t) (tn_accepted t) (t', load')" by simp
  with a assms show "tn_depth t' = 0" "load' + tn_depth t = load"
    "\<exists>over. tn_log t' = serial_log over \<and> map fst over = tn_accepted t"
    by (auto simp: lane_ok_def lane_inv_def turns_drained_def)
qed

subsection \<open>Witnesses\<close>

text \<open>Two serial turns and an interleaved one on one lane; the first serial turn is running.\<close>

definition lane3 :: "turns \<times> nat" where
  "lane3 = (let st = snd (turns_run False 7 (new_turns, 0)); st = snd (turns_run True 8 st); st = snd (turns_run False 9 st)
            in (the (turns_start (fst st)), snd st))"

lemma lane3_reached: "reach host_start host_step \<lparr>ht_load = snd lane3, ht_lanes = [fst lane3]\<rparr>"
proof -
  let ?h = "\<lambda>st. \<lparr>ht_load = snd st, ht_lanes = [fst st]\<rparr> :: host_turns"
  have run: "reach host_start host_step (?h (snd (turns_run il i st)))" if "reach host_start host_step (?h st)" for il i st
  proof -
    obtain ok t' load' where r: "turns_run il i st = (ok, t', load')" by (rule prod_cases3)
    from r have "turns_run il i (ht_lanes (?h st) ! 0, ht_load (?h st)) = (ok, t', load')" by simp
    from reach_step [OF that host_step.runs [OF _ this]] show ?thesis by (simp add: r)
  qed
  have base: "reach host_start host_step (?h (new_turns, 0))"
    by (rule reach_step [OF reach_init [of host_start "\<lparr>ht_load = 0, ht_lanes = []\<rparr>"]])
      (use host_step.activates [of "\<lparr>ht_load = 0, ht_lanes = []\<rparr>"] in \<open>simp_all add: host_start_def\<close>)
  define st where "st = snd (turns_run False 9 (snd (turns_run True 8 (snd (turns_run False 7 (new_turns, 0))))))"
  from run [OF run [OF run [OF base]]] have r: "reach host_start host_step (?h st)" by (simp add: st_def)
  have "turns_start (fst st) = Some (fst lane3)" and l: "snd st = snd lane3"
    by (simp_all add: st_def lane3_def turns_run_def new_turns_def turns_start_def Let_def)
  from turns_progress.starts [OF this(1), of "snd st"] l
  have "turns_progress (ht_lanes (?h st) ! 0, ht_load (?h st)) (fst lane3, snd lane3)" by simp
  from reach_step [OF r host_step.progresses [OF _ this]] show ?thesis by simp
qed

theorem serial_turns_exclusive_witness:
  "fst lane3 \<in> set [fst lane3] \<and> tn_running (fst lane3) = Some 7 \<and> snd lane3 = 3 \<and> tn_depth (fst lane3) = 3"
proof -
  from serial_turns_exclusive [OF lane3_reached, of "fst lane3"]
  have "snd lane3 = tn_depth (fst lane3)" by simp
  then show ?thesis by (simp add: lane3_def turns_run_def new_turns_def turns_start_def Let_def)
qed

theorem drain_finishes_witness:
  "\<exists>t' load'. turns_progress\<^sup>*\<^sup>* (fst lane3, snd lane3) (t', load') \<and> turns_drained t' \<and> tn_depth t' = 0 \<and> load' = 0"
proof -
  have "lane_inv (fst lane3)" using host_machine.reach_inv [OF lane3_reached] by (simp add: host_inv_def)
  moreover have d: "tn_depth (fst lane3) = snd lane3" "snd lane3 = 3"
    by (simp_all add: lane3_def turns_run_def new_turns_def turns_start_def Let_def)
  ultimately show ?thesis using drain_finishes [of "fst lane3" "snd lane3"] by fastforce
qed

end
