(* ===== verification/Deadlines.thy ===== *)
theory Deadlines
  imports Machines
begin

section \<open>Call deadlines\<close>

text \<open>
  \<open>host/deadlines.ts\<close>. Times are milliseconds. The registry of far deadlines is a map from a tick index
  to the list of its entries; an entry is addressed by its number, and its \<open>bucket\<close> pointer is its key
  together with the flag that says it is still in the registry. Each call is one entry of the store,
  with what its caller's promise settled with, and when. Near deadlines have a timer of their own.
\<close>

definition coarse_tick_ms :: nat where "coarse_tick_ms = 1000"

definition exact_below_ms :: nat where "exact_below_ms = 10000"

subsection \<open>State\<close>

datatype call_outcome = Timed_Out nat | Work_Settled bool

record pending =
  pd_at :: nat
  pd_deadline :: nat
  pd_remaining :: nat
  pd_key :: nat
  pd_index :: nat
  pd_live :: bool
  pd_exact :: "nat option"
  pd_outcome :: "(call_outcome \<times> nat) option"

record call_deadlines =
  cd_calls :: "pending list"
  cd_buckets :: "(nat, nat list) jmap"
  cd_size :: nat
  cd_timer :: "nat option"

definition new_deadlines :: call_deadlines where
  "new_deadlines = \<lparr>cd_calls = [], cd_buckets = [], cd_size = 0, cd_timer = None\<rparr>"

subsection \<open>Operations\<close>

text \<open>\<open>Math.ceil\<close>: the boundary of a bucket is not before any deadline in it.\<close>

definition bucket_of :: "nat \<Rightarrow> nat" where
  "bucket_of deadline = (deadline + (coarse_tick_ms - 1)) div coarse_tick_ms"

definition arm :: "nat \<Rightarrow> call_deadlines \<Rightarrow> call_deadlines" where
  "arm now cd = cd\<lparr>cd_timer := Some (now + coarse_tick_ms)\<rparr>"

text \<open>\<open>#add\<close>: at the end of its bucket, the recurring timer armed if it is not.\<close>

definition deadline_add :: "nat \<Rightarrow> nat \<Rightarrow> nat \<Rightarrow> call_deadlines \<Rightarrow> call_deadlines" where
  "deadline_add now deadline remaining cd =
     (let key = bucket_of deadline;
          bucket = (case jget (cd_buckets cd) key of None \<Rightarrow> [] | Some b \<Rightarrow> b);
          entry = \<lparr>pd_at = now, pd_deadline = deadline, pd_remaining = remaining, pd_key = key,
                   pd_index = length bucket, pd_live = True, pd_exact = None, pd_outcome = None\<rparr>;
          cd = cd\<lparr>cd_buckets := jset (cd_buckets cd) key (bucket @ [length (cd_calls cd)]),
                  cd_calls := cd_calls cd @ [entry], cd_size := Suc (cd_size cd)\<rparr>
      in if cd_timer cd = None then arm now cd else cd)"

text \<open>\<open>race\<close>, when the call is made: spent budgets are refused, near ones get a timer of their own.\<close>

definition race_call :: "nat \<Rightarrow> nat \<Rightarrow> call_deadlines \<Rightarrow> call_deadlines" where
  "race_call now deadline cd =
     (let entry = \<lparr>pd_at = now, pd_deadline = deadline, pd_remaining = deadline - now, pd_key = 0, pd_index = 0,
                   pd_live = False, pd_exact = None, pd_outcome = None\<rparr>
      in if deadline \<le> now
         then cd\<lparr>cd_calls := cd_calls cd @ [entry\<lparr>pd_outcome := Some (Timed_Out 0, now)\<rparr>]\<rparr>
         else if deadline - now < exact_below_ms
         then cd\<lparr>cd_calls := cd_calls cd @ [entry\<lparr>pd_exact := Some (now + (deadline - now))\<rparr>]\<rparr>
         else deadline_add now deadline (deadline - now) cd)"

text \<open>\<open>#remove\<close>: swap-pop, and an emptied bucket leaves the map.\<close>

definition deadline_remove :: "nat \<Rightarrow> call_deadlines \<Rightarrow> call_deadlines" where
  "deadline_remove i cd =
     (let e = cd_calls cd ! i
      in if \<not> pd_live e then cd
         else let bucket = (case jget (cd_buckets cd) (pd_key e) of None \<Rightarrow> [] | Some b \<Rightarrow> b);
                  calls = (cd_calls cd)[i := e\<lparr>pd_live := False\<rparr>];
                  final = last bucket;
                  rest = butlast bucket;
                  swap = (bucket \<noteq> [] \<and> final \<noteq> i);
                  rest = (if swap then rest[pd_index e := final] else rest);
                  calls = (if swap then calls[final := (calls ! final)\<lparr>pd_index := pd_index e\<rparr>] else calls)
              in cd\<lparr>cd_calls := calls, cd_size := cd_size cd - 1,
                    cd_buckets := (if rest = [] then jdel (cd_buckets cd) (pd_key e)
                                   else jset (cd_buckets cd) (pd_key e) rest)\<rparr>)"

text \<open>A promise settles once: what comes later changes nothing.\<close>

definition outcome_once :: "call_outcome \<Rightarrow> nat \<Rightarrow> pending \<Rightarrow> pending" where
  "outcome_once out now e = (if pd_outcome e = None then e\<lparr>pd_outcome := Some (out, now)\<rparr> else e)"

text \<open>The work settles: its own timer or its registry entry goes, and the caller has the result.\<close>

definition work_settles :: "nat \<Rightarrow> bool \<Rightarrow> nat \<Rightarrow> call_deadlines \<Rightarrow> call_deadlines" where
  "work_settles i good now cd =
     (let cd = deadline_remove i cd
      in cd\<lparr>cd_calls := (cd_calls cd)[i := outcome_once (Work_Settled good) now ((cd_calls cd ! i)\<lparr>pd_exact := None\<rparr>)]\<rparr>)"

definition exact_fires :: "nat \<Rightarrow> nat \<Rightarrow> call_deadlines \<Rightarrow> call_deadlines" where
  "exact_fires i now cd =
     cd\<lparr>cd_calls := (cd_calls cd)[i := outcome_once (Timed_Out (pd_remaining (cd_calls cd ! i))) now
                                       ((cd_calls cd ! i)\<lparr>pd_exact := None\<rparr>)]\<rparr>"

text \<open>\<open>#tick\<close>: every bucket whose boundary has passed is fired, entry by entry.\<close>

definition fire_entry :: "nat \<Rightarrow> nat \<Rightarrow> call_deadlines \<Rightarrow> call_deadlines" where
  "fire_entry now i cd =
     (let e = cd_calls cd ! i
      in if \<not> pd_live e then cd
         else cd\<lparr>cd_size := cd_size cd - 1,
                 cd_calls := (cd_calls cd)[i := outcome_once (Timed_Out (pd_remaining e)) now (e\<lparr>pd_live := False\<rparr>)]\<rparr>)"

definition due_bucket :: "nat \<Rightarrow> nat \<times> nat list \<Rightarrow> bool" where
  "due_bucket now kb \<longleftrightarrow> fst kb * coarse_tick_ms \<le> now"

definition deadline_tick :: "nat \<Rightarrow> call_deadlines \<Rightarrow> call_deadlines" where
  "deadline_tick now cd =
     (let due = concat (map snd (filter (due_bucket now) (cd_buckets cd)));
          cd = fold (fire_entry now) due
                 (cd\<lparr>cd_timer := None, cd_buckets := filter (\<lambda>kb. \<not> due_bucket now kb) (cd_buckets cd)\<rparr>)
      in if 0 < cd_size cd then arm now cd else cd)"

definition deadlines_dispose :: "call_deadlines \<Rightarrow> call_deadlines" where
  "deadlines_dispose cd = cd\<lparr>cd_timer := None\<rparr>"

subsection \<open>The registry under time\<close>

text \<open>
  Time passes up to the next timer, and a timer fires when its time has come. What is late here is
  only what the code itself makes late; a host that does not run its timers is later still.
\<close>

inductive deadline_step :: "nat \<times> call_deadlines \<Rightarrow> nat \<times> call_deadlines \<Rightarrow> bool" where
  time_passes: "\<forall>d. cd_timer cd = Some d \<longrightarrow> now < d \<Longrightarrow> \<forall>e \<in> set (cd_calls cd). \<forall>d. pd_exact e = Some d \<longrightarrow> now < d
     \<Longrightarrow> deadline_step (now, cd) (Suc now, cd)"
| call_made: "deadline_step (now, cd) (now, race_call now deadline cd)"
| work_done: "i < length (cd_calls cd) \<Longrightarrow> deadline_step (now, cd) (now, work_settles i good now cd)"
| exact_timer: "i < length (cd_calls cd) \<Longrightarrow> pd_exact (cd_calls cd ! i) = Some d \<Longrightarrow> d \<le> now
     \<Longrightarrow> deadline_step (now, cd) (now, exact_fires i now cd)"
| coarse_timer: "cd_timer cd = Some d \<Longrightarrow> d \<le> now \<Longrightarrow> deadline_step (now, cd) (now, deadline_tick now cd)"

definition deadlines_start :: "nat \<times> call_deadlines \<Rightarrow> bool" where
  "deadlines_start st \<longleftrightarrow> snd st = new_deadlines"

subsection \<open>The registry is coherent\<close>

definition bucket_ok :: "pending list \<Rightarrow> nat \<Rightarrow> nat list \<Rightarrow> bool" where
  "bucket_ok calls k b \<longleftrightarrow> b \<noteq> []
     \<and> (\<forall>j < length b. b ! j < length calls \<and> pd_live (calls ! (b ! j)) \<and> pd_key (calls ! (b ! j)) = k \<and> pd_index (calls ! (b ! j)) = j)"

definition filed :: "(nat, nat list) jmap \<Rightarrow> pending list \<Rightarrow> nat \<Rightarrow> bool" where
  "filed m calls i \<longleftrightarrow> (\<exists>b. jget m (pd_key (calls ! i)) = Some b \<and> pd_index (calls ! i) < length b \<and> b ! pd_index (calls ! i) = i)"

definition registry_ok :: "call_deadlines \<Rightarrow> bool" where
  "registry_ok cd \<longleftrightarrow> distinct (jkeys (cd_buckets cd))
     \<and> (\<forall>k b. jget (cd_buckets cd) k = Some b \<longrightarrow> bucket_ok (cd_calls cd) k b)
     \<and> (\<forall>i < length (cd_calls cd). pd_live (cd_calls cd ! i) \<longrightarrow> filed (cd_buckets cd) (cd_calls cd) i)
     \<and> cd_size cd = length (filter pd_live (cd_calls cd))"

lemma length_filter_update:
  "i < length xs \<Longrightarrow> length (filter P (xs[i := x])) + (if P (xs ! i) then 1 else 0) = length (filter P xs) + (if P x then 1 else 0)"
proof (induction xs arbitrary: i)
  case (Cons y ys)
  then show ?case by (cases i) auto
qed simp

lemma registry_okD:
  assumes "registry_ok cd"
  shows "distinct (jkeys (cd_buckets cd))"
    and "jget (cd_buckets cd) k = Some b \<Longrightarrow> bucket_ok (cd_calls cd) k b"
    and "i < length (cd_calls cd) \<Longrightarrow> pd_live (cd_calls cd ! i) \<Longrightarrow> filed (cd_buckets cd) (cd_calls cd) i"
    and "cd_size cd = length (filter pd_live (cd_calls cd))"
  using assms by (auto simp: registry_ok_def)

lemma registry_okI:
  assumes "distinct (jkeys (cd_buckets cd))"
    and "\<And>k b. jget (cd_buckets cd) k = Some b \<Longrightarrow> bucket_ok (cd_calls cd) k b"
    and "\<And>i. i < length (cd_calls cd) \<Longrightarrow> pd_live (cd_calls cd ! i) \<Longrightarrow> filed (cd_buckets cd) (cd_calls cd) i"
    and "cd_size cd = length (filter pd_live (cd_calls cd))"
  shows "registry_ok cd"
  using assms unfolding registry_ok_def by blast

lemma registry_ok_timer [simp]: "registry_ok (cd\<lparr>cd_timer := t\<rparr>) = registry_ok cd"
  by (simp add: registry_ok_def)

text \<open>An update that leaves the place of every entry and what is live alone.\<close>

lemma registry_ok_update:
  assumes "registry_ok cd" "i < length (cd_calls cd)" "pd_live e = pd_live (cd_calls cd ! i)"
    "pd_key e = pd_key (cd_calls cd ! i)" "pd_index e = pd_index (cd_calls cd ! i)"
  shows "registry_ok (cd\<lparr>cd_calls := (cd_calls cd)[i := e]\<rparr>)"
proof -
  have "bucket_ok ((cd_calls cd)[i := e]) k b" if "jget (cd_buckets cd) k = Some b" for k b
    using registry_okD(2) [OF assms(1) that] assms(2-) by (auto simp: bucket_ok_def nth_list_update)
  moreover have "filed (cd_buckets cd) ((cd_calls cd)[i := e]) j"
    if "j < length (cd_calls cd)" "pd_live ((cd_calls cd)[i := e] ! j)" for j
    using registry_okD(3) [OF assms(1) that(1)] that assms(2-) by (auto simp: filed_def nth_list_update split: if_splits)
  moreover have "length (filter pd_live ((cd_calls cd)[i := e])) = length (filter pd_live (cd_calls cd))"
    using length_filter_update [OF assms(2), of pd_live e] assms(3) by (simp split: if_splits)
  ultimately show ?thesis using assms(1) by (simp add: registry_ok_def)
qed

lemma registry_ok_append:
  assumes "registry_ok cd" "\<not> pd_live e"
  shows "registry_ok (cd\<lparr>cd_calls := cd_calls cd @ [e]\<rparr>)"
proof -
  have "bucket_ok (cd_calls cd @ [e]) k b" if "jget (cd_buckets cd) k = Some b" for k b
    using registry_okD(2) [OF assms(1) that] by (auto simp: bucket_ok_def nth_append)
  moreover have "filed (cd_buckets cd) (cd_calls cd @ [e]) j"
    if "j < Suc (length (cd_calls cd))" "pd_live ((cd_calls cd @ [e]) ! j)" for j
  proof -
    have "j < length (cd_calls cd)" using that assms(2) by (cases "j = length (cd_calls cd)") auto
    with registry_okD(3) [OF assms(1) this] that show ?thesis by (simp add: filed_def nth_append)
  qed
  ultimately show ?thesis using assms by (simp add: registry_ok_def)
qed

lemma registry_ok_add:
  assumes "registry_ok cd"
  shows "registry_ok (deadline_add now deadline remaining cd)"
proof -
  let ?k = "bucket_of deadline" and ?n = "length (cd_calls cd)"
  define b where "b = (case jget (cd_buckets cd) ?k of None \<Rightarrow> [] | Some b \<Rightarrow> b)"
  define e where "e = \<lparr>pd_at = now, pd_deadline = deadline, pd_remaining = remaining, pd_key = ?k,
     pd_index = length b, pd_live = True, pd_exact = None, pd_outcome = None\<rparr>"
  have old: "bucket_ok (cd_calls cd) ?k b" if "b \<noteq> []"
    using that registry_okD(2) [OF assms, of ?k] by (auto simp: b_def split: option.splits)
  have "bucket_ok (cd_calls cd @ [e]) k b'" if "jget (jset (cd_buckets cd) ?k (b @ [?n])) k = Some b'" for k b'
  proof (cases "k = ?k")
    case True
    then have "b' = b @ [?n]" using that by simp
    with old True show ?thesis by (cases "b = []") (auto simp: bucket_ok_def nth_append e_def less_Suc_eq)
  next
    case False
    with that registry_okD(2) [OF assms, of k b'] show ?thesis by (auto simp: bucket_ok_def nth_append)
  qed
  moreover have "filed (jset (cd_buckets cd) ?k (b @ [?n])) (cd_calls cd @ [e]) j"
    if "j < Suc ?n" "pd_live ((cd_calls cd @ [e]) ! j)" for j
  proof (cases "j = ?n")
    case True
    then show ?thesis by (simp add: filed_def e_def)
  next
    case False
    with registry_okD(3) [OF assms, of j] that show ?thesis by (auto simp: filed_def nth_append b_def)
  qed
  moreover have "distinct (jkeys (jset (cd_buckets cd) ?k (b @ [?n])))"
    using registry_okD(1) [OF assms] by (rule distinct_jset)
  moreover have "pd_live e" by (simp add: e_def)
  ultimately have ok: "registry_ok (cd\<lparr>cd_buckets := jset (cd_buckets cd) ?k (b @ [?n]), cd_calls := cd_calls cd @ [e],
      cd_size := Suc (cd_size cd)\<rparr>)" (is "registry_ok ?cd")
    using registry_okD(4) [OF assms] by (intro registry_okI) simp_all
  have "deadline_add now deadline remaining cd = (if cd_timer cd = None then arm now ?cd else ?cd)"
    unfolding deadline_add_def Let_def b_def [symmetric] e_def [symmetric] by simp
  with ok show ?thesis by (simp add: arm_def)
qed

text \<open>Swap-pop keeps the registry coherent: the last entry moves to the hole and learns its new index.\<close>

definition swap_pop :: "nat \<Rightarrow> nat list \<Rightarrow> nat list" where
  "swap_pop k b = (if k = length b - 1 then butlast b else (butlast b)[k := last b])"

lemma swap_pop_nth:
  "k < length b \<Longrightarrow> j < length b - 1 \<Longrightarrow> swap_pop k b ! j = (if j = k then last b else b ! j)"
  by (auto simp: swap_pop_def nth_butlast nth_list_update)

lemma length_swap_pop [simp]: "length (swap_pop k b) = length b - 1"
  by (simp add: swap_pop_def)

lemma swap_pop_empty: "swap_pop k b = [] \<longleftrightarrow> length b \<le> 1"
  by (metis length_swap_pop length_0_conv diff_is_0_eq)

definition removed_calls :: "nat \<Rightarrow> nat list \<Rightarrow> pending list \<Rightarrow> pending list" where
  "removed_calls i b calls = (let calls' = calls[i := (calls ! i)\<lparr>pd_live := False\<rparr>]
     in if last b = i then calls' else calls'[last b := (calls' ! last b)\<lparr>pd_index := pd_index (calls ! i)\<rparr>])"

lemma length_removed_calls [simp]: "length (removed_calls i b calls) = length calls"
  by (simp add: removed_calls_def Let_def)

lemma removed_calls_nth:
  "i < length calls \<Longrightarrow> last b < length calls \<Longrightarrow> x < length calls \<Longrightarrow> removed_calls i b calls ! x =
     (if x = i then (calls ! i)\<lparr>pd_live := False\<rparr>
      else if x = last b then (calls ! x)\<lparr>pd_index := pd_index (calls ! i)\<rparr> else calls ! x)"
  by (auto simp: removed_calls_def Let_def nth_list_update)

lemma deadline_remove_eq:
  assumes ok: "registry_ok cd" and i: "i < length (cd_calls cd)" and live: "pd_live (cd_calls cd ! i)"
  obtains b where "jget (cd_buckets cd) (pd_key (cd_calls cd ! i)) = Some b" "pd_index (cd_calls cd ! i) < length b"
    "b ! pd_index (cd_calls cd ! i) = i" "bucket_ok (cd_calls cd) (pd_key (cd_calls cd ! i)) b"
    "last b < length (cd_calls cd)" "last b = i \<longleftrightarrow> pd_index (cd_calls cd ! i) = length b - 1"
    "deadline_remove i cd = cd\<lparr>cd_calls := removed_calls i b (cd_calls cd), cd_size := cd_size cd - 1,
       cd_buckets := (let rest = swap_pop (pd_index (cd_calls cd ! i)) b; k = pd_key (cd_calls cd ! i)
                      in if rest = [] then jdel (cd_buckets cd) k else jset (cd_buckets cd) k rest)\<rparr>"
proof -
  let ?e = "cd_calls cd ! i"
  from registry_okD(3) [OF ok i live] obtain b where
    b: "jget (cd_buckets cd) (pd_key ?e) = Some b" "pd_index ?e < length b" "b ! pd_index ?e = i"
    by (auto simp: filed_def)
  from registry_okD(2) [OF ok b(1)] have bok: "bucket_ok (cd_calls cd) (pd_key ?e) b" .
  then have ne: "b \<noteq> []" by (simp add: bucket_ok_def)
  then have l: "last b = b ! (length b - 1)" "length b - 1 < length b" by (simp_all add: last_conv_nth)
  with bok have ll: "last b < length (cd_calls cd)" "pd_index (cd_calls cd ! last b) = length b - 1"
    by (simp_all add: bucket_ok_def)
  have li: "last b = i \<longleftrightarrow> pd_index ?e = length b - 1"
    using l ll b(3) by metis
  have sw: "swap_pop (pd_index ?e) b = (if b \<noteq> [] \<and> last b \<noteq> i then (butlast b)[pd_index ?e := last b] else butlast b)"
    using ne li by (simp add: swap_pop_def)
  have "deadline_remove i cd = cd\<lparr>cd_calls := removed_calls i b (cd_calls cd), cd_size := cd_size cd - 1,
       cd_buckets := (let rest = swap_pop (pd_index (cd_calls cd ! i)) b; k = pd_key (cd_calls cd ! i)
                      in if rest = [] then jdel (cd_buckets cd) k else jset (cd_buckets cd) k rest)\<rparr>"
    unfolding sw using live ne by (auto simp: deadline_remove_def b(1) Let_def removed_calls_def)
  with b bok ll li show ?thesis using that by blast
qed

lemma registry_ok_remove:
  assumes ok: "registry_ok cd" and i: "i < length (cd_calls cd)"
  shows "registry_ok (deadline_remove i cd)"
proof (cases "pd_live (cd_calls cd ! i)")
  case False
  with ok show ?thesis by (simp add: deadline_remove_def)
next
  case live: True
  define p where "p = pd_index (cd_calls cd ! i)"
  define k where "k = pd_key (cd_calls cd ! i)"
  from deadline_remove_eq [OF ok i live] obtain b where
    b: "jget (cd_buckets cd) k = Some b" "p < length b" "b ! p = i" "bucket_ok (cd_calls cd) k b"
    and ll: "last b < length (cd_calls cd)" and li: "last b = i \<longleftrightarrow> p = length b - 1"
    and eq: "deadline_remove i cd = cd\<lparr>cd_calls := removed_calls i b (cd_calls cd), cd_size := cd_size cd - 1,
       cd_buckets := (let rest = swap_pop p b in if rest = [] then jdel (cd_buckets cd) k else jset (cd_buckets cd) k rest)\<rparr>"
    unfolding p_def k_def Let_def by metis
  define m where "m = (let rest = swap_pop p b in if rest = [] then jdel (cd_buckets cd) k else jset (cd_buckets cd) k rest)"
  define calls where "calls = removed_calls i b (cd_calls cd)"
  have get: "jget m k' = (if k' = k then if length b \<le> 1 then None else Some (swap_pop p b) else jget (cd_buckets cd) k')" for k'
    by (simp add: m_def Let_def swap_pop_empty)
  have nth: "calls ! x = (if x = i then (cd_calls cd ! i)\<lparr>pd_live := False\<rparr>
      else if x = last b then (cd_calls cd ! x)\<lparr>pd_index := p\<rparr> else cd_calls cd ! x)" if "x < length (cd_calls cd)" for x
    using removed_calls_nth [OF i ll that] by (simp add: calls_def p_def)
  have last_b: "b \<noteq> []" "last b = b ! (length b - 1)" using b(2) by (cases b; simp add: last_conv_nth)+
  have entry: "b ! j < length (cd_calls cd)" "pd_live (cd_calls cd ! (b ! j))" "pd_key (cd_calls cd ! (b ! j)) = k"
    "pd_index (cd_calls cd ! (b ! j)) = j" if "j < length b" for j
    using b(4) that by (auto simp: bucket_ok_def)
  show ?thesis unfolding eq m_def [symmetric] calls_def [symmetric]
  proof (rule registry_okI; simp)
    show "distinct (jkeys m)" using registry_okD(1) [OF ok] by (auto simp: m_def Let_def distinct_jset distinct_jdel)
    show "cd_size cd - Suc 0 = length (filter pd_live calls)"
    proof -
      let ?c1 = "(cd_calls cd)[i := (cd_calls cd ! i)\<lparr>pd_live := False\<rparr>]"
      have 1: "Suc (length (filter pd_live ?c1)) = length (filter pd_live (cd_calls cd))"
        using length_filter_update [OF i, of pd_live "(cd_calls cd ! i)\<lparr>pd_live := False\<rparr>"] live by simp
      have "length (filter pd_live calls) = length (filter pd_live ?c1)"
        using length_filter_update [of "last b" ?c1 pd_live "(?c1 ! last b)\<lparr>pd_index := pd_index (cd_calls cd ! i)\<rparr>"] ll
        by (auto simp: calls_def removed_calls_def Let_def split: if_splits)
      with 1 registry_okD(4) [OF ok] show ?thesis by simp
    qed
    show "bucket_ok calls k' b'" if "jget m k' = Some b'" for k' b'
    proof (cases "k' = k")
      case True
      with that get have b': "b' = swap_pop p b" "1 < length b" by (auto split: if_splits)
      have "b' ! j < length calls \<and> pd_live (calls ! (b' ! j)) \<and> pd_key (calls ! (b' ! j)) = k \<and> pd_index (calls ! (b' ! j)) = j"
        if j: "j < length b - 1" for j
      proof (cases "j = p")
        case True
        then have "last b \<noteq> i" using j li by simp
        with True show ?thesis using swap_pop_nth [OF b(2) j] b' nth [OF ll] entry [of "length b - 1"] last_b ll
          by (simp add: calls_def)
      next
        case False
        have jl: "j < length b" "length b - 1 < length b" "j \<noteq> length b - 1" using j by auto
        from False jl have "b ! j \<noteq> i" "b ! j \<noteq> last b"
          using entry(4) [OF jl(1)] entry(4) [OF jl(2)] entry(4) [OF b(2)] b(3) last_b(2) by metis+
        with False show ?thesis using swap_pop_nth [OF b(2) j] b' nth entry [of j] j
          by (simp add: calls_def)
      qed
      moreover have "b' \<noteq> []" using b' swap_pop_empty [of p b] by simp
      ultimately show ?thesis using b' True unfolding bucket_ok_def by simp
    next
      case False
      with that get have "jget (cd_buckets cd) k' = Some b'" by simp
      from registry_okD(2) [OF ok this] False show ?thesis
        using nth entry(3) [of "length b - 1"] last_b by (auto simp: bucket_ok_def calls_def k_def)
    qed
    show "filed m calls x" if x: "x < length calls" "pd_live (calls ! x)" for x
    proof -
      have xl: "x < length (cd_calls cd)" using x(1) by (simp add: calls_def)
      have xi: "x \<noteq> i" using x(2) nth [OF xl] by auto
      show ?thesis
      proof (cases "x = last b")
        case True
        then have "p < length b - 1" using xi li b(2) by linarith
        with True show ?thesis using xi nth [OF xl] get entry [of "length b - 1"] last_b swap_pop_nth [OF b(2), of p]
          by (auto simp: filed_def)
      next
        case False
        then have same: "calls ! x = cd_calls cd ! x" using nth [OF xl] xi by simp
        with registry_okD(3) [OF ok xl] x(2) obtain b' where
          b': "jget (cd_buckets cd) (pd_key (cd_calls cd ! x)) = Some b'" "pd_index (cd_calls cd ! x) < length b'"
            "b' ! pd_index (cd_calls cd ! x) = x" by (auto simp: filed_def)
        show ?thesis
        proof (cases "pd_key (cd_calls cd ! x) = k")
          case True
          with b' b(1) have "b' = b" by simp
          with b' xi False b(3) last_b have "pd_index (cd_calls cd ! x) \<noteq> p" "pd_index (cd_calls cd ! x) < length b - 1"
            by (auto simp: less_diff_conv2 nat_less_le)
          with True same get b' \<open>b' = b\<close> swap_pop_nth [OF b(2)] show ?thesis by (auto simp: filed_def)
        next
          case False
          with same get b' show ?thesis by (auto simp: filed_def)
        qed
      qed
    qed
  qed
qed

subsection \<open>A tick\<close>

definition fired :: "nat \<Rightarrow> pending \<Rightarrow> pending" where
  "fired now e = (if pd_live e then outcome_once (Timed_Out (pd_remaining e)) now (e\<lparr>pd_live := False\<rparr>) else e)"

lemma outcome_once_simps [simp]:
  "pd_live (outcome_once out now e) = pd_live e" "pd_key (outcome_once out now e) = pd_key e"
  "pd_index (outcome_once out now e) = pd_index e" "pd_exact (outcome_once out now e) = pd_exact e"
  "pd_at (outcome_once out now e) = pd_at e" "pd_deadline (outcome_once out now e) = pd_deadline e"
  "pd_outcome (outcome_once out now e) = (if pd_outcome e = None then Some (out, now) else pd_outcome e)"
  by (simp_all add: outcome_once_def)

lemma fired_simps [simp]:
  "\<not> pd_live (fired now e)" "pd_key (fired now e) = pd_key e" "pd_index (fired now e) = pd_index e"
  "fired now (fired now e) = fired now e" "\<not> pd_live e \<Longrightarrow> fired now e = e"
  by (simp_all add: fired_def)

text \<open>Firing a batch of entries: each is fired once, nothing else moves, and the size follows.\<close>

lemma fold_fire:
  assumes "\<forall>i \<in> set due. i < length (cd_calls cd)" "cd_size cd = length (filter pd_live (cd_calls cd))"
  shows "cd_buckets (fold (fire_entry now) due cd) = cd_buckets cd
    \<and> cd_timer (fold (fire_entry now) due cd) = cd_timer cd
    \<and> length (cd_calls (fold (fire_entry now) due cd)) = length (cd_calls cd)
    \<and> (\<forall>x < length (cd_calls cd). cd_calls (fold (fire_entry now) due cd) ! x
          = (if x \<in> set due then fired now (cd_calls cd ! x) else cd_calls cd ! x))
    \<and> cd_size (fold (fire_entry now) due cd) = length (filter pd_live (cd_calls (fold (fire_entry now) due cd)))"
  using assms
proof (induction due arbitrary: cd)
  case (Cons i due)
  let ?cd = "fire_entry now i cd"
  have i: "i < length (cd_calls cd)" using Cons.prems by simp
  have one: "cd_buckets ?cd = cd_buckets cd" "cd_timer ?cd = cd_timer cd"
    "cd_calls ?cd = (cd_calls cd)[i := fired now (cd_calls cd ! i)]"
    by (simp_all add: fire_entry_def Let_def fired_def)
  have size: "cd_size ?cd = length (filter pd_live (cd_calls ?cd))"
    using length_filter_update [OF i, of pd_live "fired now (cd_calls cd ! i)"] Cons.prems
    unfolding one(3) by (auto simp: fire_entry_def Let_def split: if_splits)
  from Cons.IH [OF _ size] Cons.prems show ?case
    unfolding fold_simps(2) using one by (auto simp: nth_list_update)
qed simp

lemma registry_ok_tick:
  assumes ok: "registry_ok cd"
  shows "registry_ok (deadline_tick now cd)"
    and "length (cd_calls (deadline_tick now cd)) = length (cd_calls cd)"
    and "x < length (cd_calls cd) \<Longrightarrow> cd_calls (deadline_tick now cd) ! x
           = (if pd_live (cd_calls cd ! x) \<and> pd_key (cd_calls cd ! x) * coarse_tick_ms \<le> now
              then fired now (cd_calls cd ! x) else cd_calls cd ! x)"
    and "cd_timer (deadline_tick now cd) = (if cd_size (deadline_tick now cd) = 0 then None else Some (now + coarse_tick_ms))"
proof -
  define due where "due = concat (map snd (filter (due_bucket now) (cd_buckets cd)))"
  define m where "m = filter (\<lambda>kb. \<not> due_bucket now kb) (cd_buckets cd)"
  define cd1 where "cd1 = fold (fire_entry now) due (cd\<lparr>cd_timer := None, cd_buckets := m\<rparr>)"
  have tick: "deadline_tick now cd = (if 0 < cd_size cd1 then arm now cd1 else cd1)"
    by (simp add: deadline_tick_def Let_def due_def m_def cd1_def)
  have due_iff: "x \<in> set due \<longleftrightarrow> x < length (cd_calls cd) \<and> pd_live (cd_calls cd ! x) \<and> pd_key (cd_calls cd ! x) * coarse_tick_ms \<le> now" for x
  proof
    assume "x \<in> set due"
    then obtain k b where kb: "(k, b) \<in> set (cd_buckets cd)" "k * coarse_tick_ms \<le> now" "x \<in> set b"
      by (auto simp: due_def due_bucket_def)
    then have "bucket_ok (cd_calls cd) k b" using registry_okD(1,2) [OF ok] by (auto intro: map_of_is_SomeI)
    with kb show "x < length (cd_calls cd) \<and> pd_live (cd_calls cd ! x) \<and> pd_key (cd_calls cd ! x) * coarse_tick_ms \<le> now"
      by (auto simp: bucket_ok_def in_set_conv_nth)
  next
    assume x: "x < length (cd_calls cd) \<and> pd_live (cd_calls cd ! x) \<and> pd_key (cd_calls cd ! x) * coarse_tick_ms \<le> now"
    with registry_okD(3) [OF ok, of x] obtain b where
      b: "jget (cd_buckets cd) (pd_key (cd_calls cd ! x)) = Some b" "x \<in> set b"
      unfolding filed_def using nth_mem by metis
    from map_of_SomeD [OF b(1)] b(2) x show "x \<in> set due" by (force simp: due_def due_bucket_def)
  qed
  have all: "cd_buckets cd1 = m" "cd_timer cd1 = None" "length (cd_calls cd1) = length (cd_calls cd)"
    "\<And>x. x < length (cd_calls cd) \<Longrightarrow> cd_calls cd1 ! x = (if x \<in> set due then fired now (cd_calls cd ! x) else cd_calls cd ! x)"
    "cd_size cd1 = length (filter pd_live (cd_calls cd1))"
    using fold_fire [of due "cd\<lparr>cd_timer := None, cd_buckets := m\<rparr>" now] due_iff registry_okD(4) [OF ok]
    by (simp_all add: cd1_def)
  have get: "jget m k = (case jget (cd_buckets cd) k of None \<Rightarrow> None | Some b \<Rightarrow> if k * coarse_tick_ms \<le> now then None else Some b)" for k
    unfolding m_def by (subst jget_filter [OF registry_okD(1) [OF ok]]) (simp add: due_bucket_def split: option.splits)
  have "registry_ok cd1"
  proof (rule registry_okI)
    show "distinct (jkeys (cd_buckets cd1))" unfolding all(1) m_def by (rule distinct_map_filter) (rule registry_okD(1) [OF ok])
    show "cd_size cd1 = length (filter pd_live (cd_calls cd1))" by (rule all(5))
    show "bucket_ok (cd_calls cd1) k b" if "jget (cd_buckets cd1) k = Some b" for k b
    proof -
      from that have g: "jget (cd_buckets cd) k = Some b" "now < k * coarse_tick_ms"
        unfolding all(1) get by (auto split: option.splits if_splits)
      from registry_okD(2) [OF ok g(1)] g(2) show ?thesis
        by (auto simp: bucket_ok_def all(3) all(4) due_iff)
    qed
    show "filed (cd_buckets cd1) (cd_calls cd1) i" if i: "i < length (cd_calls cd1)" "pd_live (cd_calls cd1 ! i)" for i
    proof -
      have il: "i < length (cd_calls cd)" using i(1) by (simp add: all(3))
      then have "i \<notin> set due" and same: "cd_calls cd1 ! i = cd_calls cd ! i" using i(2) all(4) [OF il] by (auto split: if_splits)
      with due_iff il i(2) have "now < pd_key (cd_calls cd ! i) * coarse_tick_ms" by simp
      with registry_okD(3) [OF ok il] i(2) same show ?thesis by (auto simp: filed_def all(1) get)
    qed
  qed
  then show "registry_ok (deadline_tick now cd)" by (simp add: tick arm_def)
  show "length (cd_calls (deadline_tick now cd)) = length (cd_calls cd)" using all(3) by (simp add: tick arm_def)
  show "cd_timer (deadline_tick now cd) = (if cd_size (deadline_tick now cd) = 0 then None else Some (now + coarse_tick_ms))"
    using all(2) by (simp add: tick arm_def)
  show "cd_calls (deadline_tick now cd) ! x
           = (if pd_live (cd_calls cd ! x) \<and> pd_key (cd_calls cd ! x) * coarse_tick_ms \<le> now
              then fired now (cd_calls cd ! x) else cd_calls cd ! x)" if "x < length (cd_calls cd)"
    using all(4) [OF that] due_iff that by (simp add: tick arm_def)
qed

subsection \<open>Deadlines in time\<close>

definition call_timed :: "nat \<Rightarrow> nat option \<Rightarrow> pending \<Rightarrow> bool" where
  "call_timed now timer e \<longleftrightarrow> pd_at e \<le> now
     \<and> (pd_live e \<longrightarrow> pd_exact e = None \<and> pd_outcome e = None \<and> pd_deadline e \<le> pd_key e * coarse_tick_ms
          \<and> pd_key e * coarse_tick_ms < pd_deadline e + coarse_tick_ms
          \<and> (\<exists>d. timer = Some d \<and> d < pd_key e * coarse_tick_ms + coarse_tick_ms))
     \<and> (\<forall>d. pd_exact e = Some d \<longrightarrow> pd_outcome e = None \<and> d = pd_deadline e \<and> now \<le> d)
     \<and> (pd_outcome e = None \<longrightarrow> pd_live e \<or> pd_exact e \<noteq> None)
     \<and> (\<forall>r t. pd_outcome e = Some (Timed_Out r, t) \<longrightarrow> pd_deadline e \<le> t \<and> (t = pd_at e \<or> t < pd_deadline e + 2 * coarse_tick_ms))"

definition deadlines_inv :: "nat \<times> call_deadlines \<Rightarrow> bool" where
  "deadlines_inv st \<longleftrightarrow> registry_ok (snd st) \<and> (\<forall>e \<in> set (cd_calls (snd st)). call_timed (fst st) (cd_timer (snd st)) e)
     \<and> (cd_timer (snd st) = None \<longrightarrow> cd_size (snd st) = 0)
     \<and> (\<forall>d. cd_timer (snd st) = Some d \<longrightarrow> fst st \<le> d \<and> d \<le> fst st + coarse_tick_ms)"

lemma deadlines_invI:
  assumes "registry_ok cd" "\<And>x. x < length (cd_calls cd) \<Longrightarrow> call_timed now (cd_timer cd) (cd_calls cd ! x)"
    "cd_timer cd = None \<Longrightarrow> cd_size cd = 0" "\<And>d. cd_timer cd = Some d \<Longrightarrow> now \<le> d \<and> d \<le> now + coarse_tick_ms"
  shows "deadlines_inv (now, cd)"
  using assms by (auto simp: deadlines_inv_def in_set_conv_nth)

lemma deadlines_invD:
  assumes "deadlines_inv (now, cd)"
  shows "registry_ok cd" and "x < length (cd_calls cd) \<Longrightarrow> call_timed now (cd_timer cd) (cd_calls cd ! x)"
    and "cd_timer cd = None \<Longrightarrow> cd_size cd = 0" and "cd_timer cd = Some d \<Longrightarrow> now \<le> d \<and> d \<le> now + coarse_tick_ms"
  using assms by (auto simp: deadlines_inv_def)

lemma call_timed_index [simp]: "call_timed now timer (e\<lparr>pd_index := p\<rparr>) = call_timed now timer e"
  by (simp add: call_timed_def)

lemma call_timed_dead: "\<not> pd_live e \<Longrightarrow> call_timed now timer e = call_timed now timer' e"
  by (simp add: call_timed_def)

lemma bucket_of_bounds:
  "deadline \<le> bucket_of deadline * coarse_tick_ms" "bucket_of deadline * coarse_tick_ms < deadline + coarse_tick_ms"
  by (simp_all add: bucket_of_def coarse_tick_ms_def)

lemma none_live: "registry_ok cd \<Longrightarrow> cd_size cd = 0 \<Longrightarrow> x < length (cd_calls cd) \<Longrightarrow> \<not> pd_live (cd_calls cd ! x)"
  by (auto simp: registry_ok_def filter_empty_conv)

lemma deadline_add_parts:
  "\<exists>p. cd_calls (deadline_add now deadline remaining cd) = cd_calls cd @
      [\<lparr>pd_at = now, pd_deadline = deadline, pd_remaining = remaining, pd_key = bucket_of deadline, pd_index = p,
        pd_live = True, pd_exact = None, pd_outcome = None\<rparr>]"
  "cd_timer (deadline_add now deadline remaining cd) = (if cd_timer cd = None then Some (now + coarse_tick_ms) else cd_timer cd)"
  by (auto simp: deadline_add_def Let_def arm_def)

lemma race_call_inv:
  assumes inv: "deadlines_inv (now, cd)"
  shows "deadlines_inv (now, race_call now deadline cd)"
proof -
  note D = deadlines_invD [OF inv]
  have app: "deadlines_inv (now, cd\<lparr>cd_calls := cd_calls cd @ [e]\<rparr>)" if "call_timed now (cd_timer cd) e" "\<not> pd_live e" for e
    using that D registry_ok_append [OF D(1)] by (intro deadlines_invI) (auto simp: nth_append less_Suc_eq)
  consider "deadline \<le> now" | "now < deadline" "deadline - now < exact_below_ms" | "now < deadline" "\<not> deadline - now < exact_below_ms"
    by linarith
  then show ?thesis
  proof cases
    case 1
    then show ?thesis by (simp add: race_call_def Let_def) (rule app; simp add: call_timed_def)
  next
    case 2
    then show ?thesis by (simp add: race_call_def Let_def) (rule app; simp add: call_timed_def)
  next
    case 3
    let ?cd = "deadline_add now deadline (deadline - now) cd"
    obtain p where calls: "cd_calls ?cd = cd_calls cd @ [\<lparr>pd_at = now, pd_deadline = deadline, pd_remaining = deadline - now,
        pd_key = bucket_of deadline, pd_index = p, pd_live = True, pd_exact = None, pd_outcome = None\<rparr>]"
      using deadline_add_parts(1) by blast
    obtain d where d: "cd_timer ?cd = Some d" "now \<le> d" "d \<le> now + coarse_tick_ms" "cd_timer cd = None \<or> cd_timer cd = Some d"
      using D(4) by (cases "cd_timer cd") (auto simp: deadline_add_parts(2))
    have far: "now + 10000 \<le> deadline" using 3 by (simp add: exact_below_ms_def)
    have "deadlines_inv (now, ?cd)"
    proof (rule deadlines_invI)
      show "registry_ok ?cd" by (rule registry_ok_add [OF D(1)])
      show "call_timed now (cd_timer ?cd) (cd_calls ?cd ! x)" if "x < length (cd_calls ?cd)" for x
      proof (cases "x = length (cd_calls cd)")
        case True
        then show ?thesis using calls d bucket_of_bounds [of deadline] far by (simp add: call_timed_def coarse_tick_ms_def)
      next
        case False
        with that calls have x: "x < length (cd_calls cd)" "cd_calls ?cd ! x = cd_calls cd ! x" by (simp_all add: nth_append)
        from d(4) show ?thesis
        proof
          assume "cd_timer cd = None"
          then have "\<not> pd_live (cd_calls cd ! x)" using none_live D(1,3) x by simp
          with D(2) [OF x(1)] show ?thesis using call_timed_dead x(2) by metis
        next
          assume "cd_timer cd = Some d"
          with D(2) [OF x(1)] x d show ?thesis by simp
        qed
      qed
    qed (use d in auto)
    with 3 show ?thesis by (simp add: race_call_def Let_def)
  qed
qed

lemma deadline_remove_parts:
  assumes ok: "registry_ok cd" and i: "i < length (cd_calls cd)"
  shows "length (cd_calls (deadline_remove i cd)) = length (cd_calls cd)"
    and "cd_calls (deadline_remove i cd) ! i = (cd_calls cd ! i)\<lparr>pd_live := False\<rparr>"
    and "x < length (cd_calls cd) \<Longrightarrow> x \<noteq> i \<Longrightarrow> \<exists>p. cd_calls (deadline_remove i cd) ! x = (cd_calls cd ! x)\<lparr>pd_index := p\<rparr>"
    and "cd_timer (deadline_remove i cd) = cd_timer cd" and "cd_size (deadline_remove i cd) \<le> cd_size cd"
proof -
  have "length (cd_calls (deadline_remove i cd)) = length (cd_calls cd)
     \<and> cd_calls (deadline_remove i cd) ! i = (cd_calls cd ! i)\<lparr>pd_live := False\<rparr>
     \<and> (\<forall>x < length (cd_calls cd). x \<noteq> i \<longrightarrow> (\<exists>p. cd_calls (deadline_remove i cd) ! x = (cd_calls cd ! x)\<lparr>pd_index := p\<rparr>))
     \<and> cd_timer (deadline_remove i cd) = cd_timer cd \<and> cd_size (deadline_remove i cd) \<le> cd_size cd"
  proof (cases "pd_live (cd_calls cd ! i)")
    case False
    then have "(cd_calls cd ! i)\<lparr>pd_live := False\<rparr> = cd_calls cd ! i" by (cases "cd_calls cd ! i") simp
    moreover have "\<exists>p. e = e\<lparr>pd_index := p\<rparr>" for e :: pending by (rule exI [of _ "pd_index e"]) simp
    ultimately show ?thesis using False by (simp add: deadline_remove_def)
  next
    case True
    from deadline_remove_eq [OF ok i True] obtain b where "last b < length (cd_calls cd)" and
      eq: "cd_calls (deadline_remove i cd) = removed_calls i b (cd_calls cd)"
        "cd_timer (deadline_remove i cd) = cd_timer cd" "cd_size (deadline_remove i cd) = cd_size cd - 1"
      by (metis (no_types, lifting) call_deadlines.select_convs call_deadlines.surjective call_deadlines.update_convs)
    note n = removed_calls_nth [OF i this(1)]
    have "\<exists>p. removed_calls i b (cd_calls cd) ! x = (cd_calls cd ! x)\<lparr>pd_index := p\<rparr>" if "x < length (cd_calls cd)" "x \<noteq> i" for x
      using n [OF that(1)] that(2) by (cases "x = last b") (auto intro: exI [of _ "pd_index (cd_calls cd ! x)"])
    then show ?thesis using n [OF i] by (simp add: eq)
  qed
  then show "length (cd_calls (deadline_remove i cd)) = length (cd_calls cd)"
    "cd_calls (deadline_remove i cd) ! i = (cd_calls cd ! i)\<lparr>pd_live := False\<rparr>"
    "x < length (cd_calls cd) \<Longrightarrow> x \<noteq> i \<Longrightarrow> \<exists>p. cd_calls (deadline_remove i cd) ! x = (cd_calls cd ! x)\<lparr>pd_index := p\<rparr>"
    "cd_timer (deadline_remove i cd) = cd_timer cd" "cd_size (deadline_remove i cd) \<le> cd_size cd" by blast+
qed

lemma call_timed_update:
  "x < length xs \<Longrightarrow> call_timed now t e \<Longrightarrow> (x \<noteq> i \<Longrightarrow> call_timed now t (xs ! x)) \<Longrightarrow> call_timed now t (xs[i := e] ! x)"
  by (cases "x = i") auto

lemma deadlines_inv_update:
  assumes inv: "deadlines_inv (now, cd)" and i: "i < length (cd_calls cd)"
    and e: "call_timed now (cd_timer cd) e" "pd_live e = pd_live (cd_calls cd ! i)"
      "pd_key e = pd_key (cd_calls cd ! i)" "pd_index e = pd_index (cd_calls cd ! i)"
  shows "deadlines_inv (now, cd\<lparr>cd_calls := (cd_calls cd)[i := e]\<rparr>)"
  using registry_ok_update [OF deadlines_invD(1) [OF inv] i e(2-)] deadlines_invD [OF inv] e(1)
  by (intro deadlines_invI) (auto intro: call_timed_update)

lemma work_settles_inv:
  assumes inv: "deadlines_inv (now, cd)" and i: "i < length (cd_calls cd)"
  shows "deadlines_inv (now, work_settles i good now cd)"
proof -
  note D = deadlines_invD [OF inv]
  note P = deadline_remove_parts [OF D(1) i]
  define cd' where "cd' = deadline_remove i cd"
  define e where "e = outcome_once (Work_Settled good) now ((cd_calls cd' ! i)\<lparr>pd_exact := None\<rparr>)"
  have w: "work_settles i good now cd = cd'\<lparr>cd_calls := (cd_calls cd')[i := e]\<rparr>"
    by (simp add: work_settles_def Let_def cd'_def e_def)
  have ok: "registry_ok cd'" unfolding cd'_def by (rule registry_ok_remove [OF D(1) i])
  have ok': "registry_ok (cd'\<lparr>cd_calls := (cd_calls cd')[i := e]\<rparr>)"
    by (rule registry_ok_update [OF ok]) (use i P in \<open>simp_all add: cd'_def e_def\<close>)
  have e: "call_timed now t e" for t
    using D(2) [OF i] P(2) by (auto simp: call_timed_def e_def cd'_def)
  have others: "call_timed now (cd_timer cd) (cd_calls cd' ! x)" if "x < length (cd_calls cd)" "x \<noteq> i" for x
    using P(3) [OF that] D(2) [OF that(1)] by (auto simp: cd'_def)
  show ?thesis unfolding w
    by (rule deadlines_invI [OF ok']) (use e others D(3,4) P(1,4,5) in \<open>auto simp: cd'_def intro!: call_timed_update\<close>)
qed

lemma exact_fires_inv:
  assumes inv: "deadlines_inv (now, cd)" and i: "i < length (cd_calls cd)" and d: "pd_exact (cd_calls cd ! i) = Some d" "d \<le> now"
  shows "deadlines_inv (now, exact_fires i now cd)"
  unfolding exact_fires_def
  by (rule deadlines_inv_update [OF inv i])
    (use deadlines_invD(2) [OF inv i] d in \<open>auto simp: call_timed_def coarse_tick_ms_def\<close>)

lemma deadline_tick_inv:
  assumes inv: "deadlines_inv (now, cd)" and d: "cd_timer cd = Some d" "d \<le> now"
  shows "deadlines_inv (now, deadline_tick now cd)"
proof -
  note D = deadlines_invD [OF inv]
  note T = registry_ok_tick [OF D(1), where now = now]
  have dn: "d = now" using D(4) [OF d(1)] d(2) by simp
  have timed: "call_timed now (cd_timer (deadline_tick now cd)) (cd_calls (deadline_tick now cd) ! x)"
    if x: "x < length (cd_calls cd)" for x
  proof -
    let ?e = "cd_calls cd ! x"
    have t: "call_timed now (Some now) ?e" using D(2) [OF x] d dn by simp
    show ?thesis
    proof (cases "pd_live ?e \<and> pd_key ?e * coarse_tick_ms \<le> now")
      case True
      have "call_timed now timer (fired now ?e)" for timer
        using True t by (auto simp: fired_def call_timed_def)
      with True T(3) [OF x] show ?thesis by simp
    next
      case False
      then have same: "cd_calls (deadline_tick now cd) ! x = ?e" using T(3) [OF x] by auto
      show ?thesis
      proof (cases "pd_live ?e")
        case live: True
        then have "cd_size (deadline_tick now cd) \<noteq> 0"
          using none_live [OF T(1), of x] same x T(2) by auto
        with T(4) live False t same show ?thesis by (auto simp: call_timed_def)
      next
        case dead: False
        with same t show ?thesis using call_timed_dead by metis
      qed
    qed
  qed
  show ?thesis
    by (rule deadlines_invI [OF T(1)]) (use timed T(2,4) in \<open>auto split: if_splits\<close>)
qed

interpretation deadline_machine: invariant_machine deadlines_start deadline_step deadlines_inv
proof
  show "deadlines_inv st" if "deadlines_start st" for st
    using that by (cases st) (simp add: deadlines_start_def deadlines_inv_def new_deadlines_def registry_ok_def)
  show "deadlines_inv st'" if "deadlines_inv st" "deadline_step st st'" for st st'
    using that(2)
  proof cases
    case (time_passes cd now)
    note D = deadlines_invD [OF that(1) [unfolded time_passes]]
    have "call_timed (Suc now) (cd_timer cd) (cd_calls cd ! x)" if x: "x < length (cd_calls cd)" for x
      using D(2) [OF x] time_passes(4) x by (auto simp: call_timed_def Suc_le_eq)
    with D time_passes(2,3) show ?thesis by (auto intro!: deadlines_invI simp: Suc_le_eq)
  qed (use that(1) in \<open>auto intro: race_call_inv work_settles_inv exact_fires_inv deadline_tick_inv\<close>)
qed

subsection \<open>Properties\<close>

text \<open>
  A deadline is never enforced early and at most two ticks late, and the registry holds only calls
  that wait. Whatever calls are made, settle and time out in whatever order: a caller told of a timeout
  was told at or after the deadline, and, unless the budget was spent when the call was made, less
  than two ticks after it; a caller told nothing yet is less than two ticks past the deadline; and every
  entry of every bucket is at the index it carries and belongs to a call that is not settled, so settled
  calls take no memory in the registry.
\<close>

theorem deadlines_enforced:
  assumes "reach deadlines_start deadline_step (now, cd)" "e \<in> set (cd_calls cd)"
  shows "(\<forall>r t. pd_outcome e = Some (Timed_Out r, t) \<longrightarrow>
            pd_deadline e \<le> t \<and> (t = pd_at e \<or> t < pd_deadline e + 2 * coarse_tick_ms))
    \<and> (pd_outcome e = None \<longrightarrow> now < pd_deadline e + 2 * coarse_tick_ms)
    \<and> (\<forall>k b j. jget (cd_buckets cd) k = Some b \<and> j < length b \<longrightarrow>
          pd_index (cd_calls cd ! (b ! j)) = j \<and> pd_outcome (cd_calls cd ! (b ! j)) = None)"
proof -
  have inv: "deadlines_inv (now, cd)" by (rule deadline_machine.reach_inv [OF assms(1)])
  note D = deadlines_invD [OF inv]
  obtain x where x: "x < length (cd_calls cd)" "e = cd_calls cd ! x" using assms(2) by (auto simp: in_set_conv_nth)
  have t: "call_timed now (cd_timer cd) e" using D(2) [OF x(1)] x(2) by simp
  then have 1: "\<forall>r t. pd_outcome e = Some (Timed_Out r, t) \<longrightarrow>
            pd_deadline e \<le> t \<and> (t = pd_at e \<or> t < pd_deadline e + 2 * coarse_tick_ms)" by (simp add: call_timed_def)
  have 2: "now < pd_deadline e + 2 * coarse_tick_ms" if none: "pd_outcome e = None"
  proof (cases "pd_live e")
    case True
    with t obtain d where d: "cd_timer cd = Some d" "d < pd_key e * coarse_tick_ms + coarse_tick_ms"
      "pd_key e * coarse_tick_ms < pd_deadline e + coarse_tick_ms" by (auto simp: call_timed_def)
    from D(4) [OF d(1)] d(2,3) show ?thesis by linarith
  next
    case False
    with t none have "pd_exact e \<noteq> None" unfolding call_timed_def by blast
    then obtain d where "pd_exact e = Some d" by blast
    with t have "d = pd_deadline e" "now \<le> d" unfolding call_timed_def by blast+
    then show ?thesis by (simp add: coarse_tick_ms_def)
  qed
  have 3: "pd_index (cd_calls cd ! (b ! j)) = j \<and> pd_outcome (cd_calls cd ! (b ! j)) = None"
    if "jget (cd_buckets cd) k = Some b" "j < length b" for k b j
    using registry_okD(2) [OF D(1) that(1)] that(2) D(2) by (auto simp: bucket_ok_def call_timed_def)
  from 1 2 3 show ?thesis by blast
qed

subsection \<open>Witnesses\<close>

text \<open>One call whose budget was spent, one far call that waits and one that finished.\<close>

definition three_calls :: call_deadlines where
  "three_calls = work_settles 1 True 500 (race_call 500 30500 (race_call 500 30400 (race_call 500 500 new_deadlines)))"

lemma three_calls_reached: "reach deadlines_start deadline_step (500, three_calls)"
proof -
  have "reach deadlines_start deadline_step (500, new_deadlines)" by (rule reach_init) (simp add: deadlines_start_def)
  from reach_step [OF reach_step [OF reach_step [OF this call_made] call_made] call_made]
  have r: "reach deadlines_start deadline_step (500, race_call 500 30500 (race_call 500 30400 (race_call 500 500 new_deadlines)))" .
  show ?thesis unfolding three_calls_def
    by (rule reach_step [OF r work_done]) (simp add: race_call_def deadline_add_def Let_def exact_below_ms_def new_deadlines_def arm_def)
qed

lemma three_calls_eval:
  "three_calls = \<lparr>cd_calls =
     [\<lparr>pd_at = 500, pd_deadline = 500, pd_remaining = 0, pd_key = 0, pd_index = 0, pd_live = False, pd_exact = None,
       pd_outcome = Some (Timed_Out 0, 500)\<rparr>,
      \<lparr>pd_at = 500, pd_deadline = 30400, pd_remaining = 29900, pd_key = 31, pd_index = 0, pd_live = False, pd_exact = None,
       pd_outcome = Some (Work_Settled True, 500)\<rparr>,
      \<lparr>pd_at = 500, pd_deadline = 30500, pd_remaining = 30000, pd_key = 31, pd_index = 0, pd_live = True, pd_exact = None,
       pd_outcome = None\<rparr>],
     cd_buckets = [(31, [2])], cd_size = 1, cd_timer = Some 1500\<rparr>"
  by (simp add: three_calls_def race_call_def deadline_add_def Let_def exact_below_ms_def new_deadlines_def arm_def
      work_settles_def deadline_remove_def outcome_once_def bucket_of_def coarse_tick_ms_def)

theorem deadlines_enforced_witness:
  "pd_outcome (cd_calls three_calls ! 0) = Some (Timed_Out 0, 500)
    \<and> cd_buckets three_calls = [(31, [2])] \<and> pd_index (cd_calls three_calls ! 2) = 0
    \<and> pd_outcome (cd_calls three_calls ! 2) = None"
proof -
  have e: "cd_calls three_calls ! 0 \<in> set (cd_calls three_calls)" by (simp add: three_calls_eval)
  have "jget (cd_buckets three_calls) 31 = Some [2] \<and> 0 < length [2::nat]" by (simp add: three_calls_eval)
  with deadlines_enforced [OF three_calls_reached e] have "pd_index (cd_calls three_calls ! ([2] ! 0)) = 0" by blast
  then show ?thesis by (simp add: three_calls_eval)
qed

end
