(* ===== verification/Reentrancy.thy ===== *)
theory Reentrancy
  imports Prelude
begin

section \<open>Reentrancy modes\<close>

text \<open>
  \<open>host/reentrancy.ts\<close>: the mode of one method, and the validation of the two declarations. The values
  an application hands in are not typed at run time, so both options are what the checks tell apart.
  Loading \<open>AsyncLocalStorage\<close> is the runtime's.
\<close>

datatype reentrancy_mode = Mode_None | Call_Chain | Always

text \<open>The modes in the order of what they admit.\<close>

instantiation reentrancy_mode :: linorder
begin

fun mode_rank :: "reentrancy_mode \<Rightarrow> nat" where
  "mode_rank Mode_None = 0"
| "mode_rank Call_Chain = 1"
| "mode_rank Always = 2"

definition less_eq_reentrancy_mode :: "reentrancy_mode \<Rightarrow> reentrancy_mode \<Rightarrow> bool" where
  "less_eq_reentrancy_mode a b \<longleftrightarrow> mode_rank a \<le> mode_rank b"

definition less_reentrancy_mode :: "reentrancy_mode \<Rightarrow> reentrancy_mode \<Rightarrow> bool" where
  "less_reentrancy_mode a b \<longleftrightarrow> mode_rank a < mode_rank b"

instance
proof
  fix a b c :: reentrancy_mode
  show "a < b \<longleftrightarrow> a \<le> b \<and> \<not> b \<le> a" by (auto simp: less_eq_reentrancy_mode_def less_reentrancy_mode_def)
  show "a \<le> a" by (simp add: less_eq_reentrancy_mode_def)
  show "a \<le> c" if "a \<le> b" "b \<le> c" using that by (simp add: less_eq_reentrancy_mode_def)
  show "a = b" if "a \<le> b" "b \<le> a" using that by (cases a; cases b) (simp_all add: less_eq_reentrancy_mode_def)
  show "a \<le> b \<or> b \<le> a" by (auto simp: less_eq_reentrancy_mode_def)
qed

end

datatype declared_value = D_Undefined | D_Bool bool | D_String string | D_Other

datatype declared_map = M_Undefined | M_Not_An_Object | M_Object "(string, declared_value) jmap"

record reentrancy_options =
  ro_reentrant :: declared_value
  ro_methods :: declared_map

definition mapped_methods :: "reentrancy_options \<Rightarrow> string list" where
  "mapped_methods o' = (case ro_methods o' of M_Object m \<Rightarrow> jkeys m | _ \<Rightarrow> [])"

definition actor_mode :: "reentrancy_options \<Rightarrow> reentrancy_mode" where
  "actor_mode o' = (if ro_reentrant o' = D_String ''always'' then Always
     else if ro_reentrant o' = D_Bool True \<or> ro_reentrant o' = D_String ''call-chain'' then Call_Chain else Mode_None)"

definition effective_reentrancy :: "reentrancy_options \<Rightarrow> string \<Rightarrow> reentrancy_mode" where
  "effective_reentrancy o' mtd = (if mtd \<in> set (mapped_methods o') then Always else actor_mode o')"

definition declares_interleaving :: "reentrancy_options \<Rightarrow> bool" where
  "declares_interleaving o' \<longleftrightarrow> ro_reentrant o' = D_String ''always'' \<or> mapped_methods o' \<noteq> []"

text \<open>The activation's own test, on fields it set when it was built (\<open>enqueueSystem\<close>).\<close>

definition interleaves :: "reentrancy_options \<Rightarrow> string \<Rightarrow> bool" where
  "interleaves o' mtd \<longleftrightarrow> ro_reentrant o' = D_String ''always'' \<or> mtd \<in> set (mapped_methods o')"

datatype reentrancy_error = Bad_Reentrant | Bad_Method_Map | Redundant_Map
  | Not_Always string | Stream_Method string | Reserved_Name string

fun validate_methods :: "string list \<Rightarrow> (string, declared_value) jmap \<Rightarrow> reentrancy_error + unit" where
  "validate_methods streams [] = Inr ()"
| "validate_methods streams ((mtd, v) # m) =
     (if v \<noteq> D_String ''always'' then Inl (Not_Always mtd)
      else if mtd \<in> set streams then Inl (Stream_Method mtd)
      else if starts_with mtd ''$'' then Inl (Reserved_Name mtd)
      else validate_methods streams m)"

definition validate_reentrancy :: "reentrancy_options \<Rightarrow> string list \<Rightarrow> reentrancy_error + unit" where
  "validate_reentrancy o' streams =
     (let r = ro_reentrant o'
      in if \<not> (case r of D_Undefined \<Rightarrow> True | D_Bool _ \<Rightarrow> True
                 | D_String s \<Rightarrow> s = ''call-chain'' \<or> s = ''always'' | D_Other \<Rightarrow> False) then Inl Bad_Reentrant
         else case ro_methods o' of
           M_Undefined \<Rightarrow> Inr ()
         | M_Not_An_Object \<Rightarrow> Inl Bad_Method_Map
         | M_Object m \<Rightarrow> if r = D_String ''always'' then Inl Redundant_Map else validate_methods streams m)"

subsection \<open>What validation promises\<close>

lemma interleaves_iff: "interleaves o' mtd \<longleftrightarrow> effective_reentrancy o' mtd = Always"
  by (auto simp: interleaves_def effective_reentrancy_def actor_mode_def)

lemma declares_interleaving_iff: "declares_interleaving o' \<longleftrightarrow> (\<exists>mtd. effective_reentrancy o' mtd = Always)"
proof
  assume "declares_interleaving o'"
  then show "\<exists>mtd. effective_reentrancy o' mtd = Always"
    by (cases "mapped_methods o'") (auto simp: declares_interleaving_def effective_reentrancy_def actor_mode_def)
qed (auto simp: declares_interleaving_def effective_reentrancy_def actor_mode_def split: if_splits)

lemma effective_at_least_actor: "actor_mode o' \<le> effective_reentrancy o' mtd"
  by (cases "actor_mode o'") (simp_all add: effective_reentrancy_def less_eq_reentrancy_mode_def)

lemma validate_methods_ok:
  "validate_methods streams m = Inr () \<longleftrightarrow>
     (\<forall>(mtd, v) \<in> set m. v = D_String ''always'' \<and> mtd \<notin> set streams \<and> \<not> starts_with mtd ''$'')"
  by (induction streams m rule: validate_methods.induct) auto

lemma validated_reserved:
  assumes "validate_reentrancy o' streams = Inr ()" "starts_with mtd ''$'' \<or> mtd \<in> set streams"
  shows "effective_reentrancy o' mtd = actor_mode o'"
proof (rule ccontr)
  assume "effective_reentrancy o' mtd \<noteq> actor_mode o'"
  then have "mtd \<in> set (mapped_methods o')" by (auto simp: effective_reentrancy_def split: if_splits)
  then obtain m v where "ro_methods o' = M_Object m" "(mtd, v) \<in> set m"
    by (cases "ro_methods o'") (auto simp: mapped_methods_def)
  with assms show False by (auto simp: validate_reentrancy_def Let_def validate_methods_ok split: if_splits)
qed

end
