(* ===== verification/Local_Host.thy ===== *)
theory Local_Host
  imports Turns Reentrancy Actor_Ids Actor_Errors
begin

section \<open>The local host\<close>

text \<open>
  \<open>host/local-host.ts\<close>, with admission from \<open>host/activation.ts\<close>: the directory of activation slots, the
  pools of stateless workers, dispatch, deactivation, the sweep and the stop. The code is cut at its
  awaits: a function of a stretch that runs without interruption, and a step of the host for each
  promise that settles. A slot object is its phase and the number of its activation. What an
  activation does between its turns (loading state, draining) is a step that succeeds or fails. Definitions
  are resolved by \<open>defs\<close>; awaiting a lazy one re-enters the same loop.
\<close>

subsection \<open>State\<close>

record actor_def =
  df_stateless :: "nat option option"
  df_reentrancy :: reentrancy_options
  df_streams :: "string list"
  df_idle_after :: "nat option"
  df_max_queued :: "nat option"

datatype slot = Activating nat | Active nat | Deactivating nat

fun slot_activation :: "slot \<Rightarrow> nat" where
  "slot_activation (Activating n) = n"
| "slot_activation (Active n) = n"
| "slot_activation (Deactivating n) = n"

record worker_pool =
  wp_cap :: nat
  wp_seq :: nat
  wp_members :: "string list"

record activation =
  av_id :: string
  av_ref :: actor_ref
  av_turns :: turns
  av_kept :: nat
  av_last :: nat

text \<open>\<open>lh_alive\<close> is what runs: the activations that were built and have not ended.\<close>

record local_host =
  lh_directory :: "(string, slot) jmap"
  lh_pools :: "(string, worker_pool) jmap"
  lh_activations :: "activation list"
  lh_alive :: "nat list"
  lh_load :: nat
  lh_refusals :: nat
  lh_shutting :: bool

record host_limits =
  hl_strict :: bool
  hl_max_queued :: nat
  hl_max_inflight :: nat
  hl_cores :: "nat option"

definition new_local_host :: local_host where
  "new_local_host = \<lparr>lh_directory = [], lh_pools = [], lh_activations = [], lh_alive = [], lh_load = 0,
                     lh_refusals = 0, lh_shutting = False\<rparr>"

subsection \<open>Directory ids\<close>

definition member_id :: "string \<Rightarrow> nat \<Rightarrow> string" where
  "member_id aid n = nul # aid @ nul # show_nat n"

definition is_member_id :: "string \<Rightarrow> bool" where
  "is_member_id s \<longleftrightarrow> s \<noteq> [] \<and> hd s = nul"

definition base_id_of :: "string \<Rightarrow> string" where
  "base_id_of mid = (case last_index_of nul mid of None \<Rightarrow> [] | Some i \<Rightarrow> drop 1 (take i mid))"

definition default_max_local :: "nat option \<Rightarrow> nat" where
  "default_max_local cores = (case cores of None \<Rightarrow> 4 | Some n \<Rightarrow> if 1 \<le> n then min (max n 4) 16 else 4)"

subsection \<open>Reserving an activation\<close>

text \<open>A fresh activation, in the slot of its directory id.\<close>

definition reserve :: "string \<Rightarrow> actor_ref \<Rightarrow> nat \<Rightarrow> local_host \<Rightarrow> local_host" where
  "reserve did ref now lh =
     (let n = length (lh_activations lh)
      in lh\<lparr>lh_directory := jset (lh_directory lh) did (Activating n),
            lh_activations := lh_activations lh @ [\<lparr>av_id = did, av_ref = ref, av_turns = new_turns, av_kept = 0, av_last = now\<rparr>],
            lh_alive := lh_alive lh @ [n]\<rparr>)"

definition ensure_pool :: "host_limits \<Rightarrow> string \<Rightarrow> actor_def \<Rightarrow> local_host \<Rightarrow> local_host" where
  "ensure_pool hl aid def lh = (case jget (lh_pools lh) aid of
       Some _ \<Rightarrow> lh
     | None \<Rightarrow> lh\<lparr>lh_pools := jset (lh_pools lh) aid
         \<lparr>wp_cap = (case df_stateless def of Some (Some n) \<Rightarrow> n | _ \<Rightarrow> default_max_local (hl_cores hl)), wp_seq = 0, wp_members = []\<rparr>\<rparr>)"

text \<open>\<open>#spinMember\<close>: the next number of the pool, appended to its members, and reserved.\<close>

definition spin_member :: "string \<Rightarrow> worker_pool \<Rightarrow> actor_ref \<Rightarrow> nat \<Rightarrow> local_host \<Rightarrow> nat \<times> local_host" where
  "spin_member aid pool ref now lh =
     (let mid = member_id aid (wp_seq pool);
          pool' = pool\<lparr>wp_seq := Suc (wp_seq pool), wp_members := wp_members pool @ [mid]\<rparr>
      in (length (lh_activations lh), reserve mid ref now (lh\<lparr>lh_pools := jset (lh_pools lh) aid pool'\<rparr>)))"

definition forget_member :: "string \<Rightarrow> local_host \<Rightarrow> local_host" where
  "forget_member mid lh = (case jget (lh_pools lh) (base_id_of mid) of
       None \<Rightarrow> lh
     | Some pool \<Rightarrow> let ms = remove1 mid (wp_members pool)
         in if ms = [] then lh\<lparr>lh_pools := jdel (lh_pools lh) (base_id_of mid)\<rparr>
            else lh\<lparr>lh_pools := jset (lh_pools lh) (base_id_of mid) (pool\<lparr>wp_members := ms\<rparr>)\<rparr>)"

subsection \<open>The pool pick\<close>

definition depth_of :: "local_host \<Rightarrow> nat \<Rightarrow> nat" where
  "depth_of lh n = tn_depth (av_turns (lh_activations lh ! n))"

text \<open>One walk over the members: the first least loaded active one, the first activating one, and how many are live.\<close>

fun pool_scan :: "local_host \<Rightarrow> string list \<Rightarrow> nat option \<Rightarrow> nat option \<Rightarrow> nat \<Rightarrow> nat option \<times> nat option \<times> nat" where
  "pool_scan lh [] best coming live = (best, coming, live)"
| "pool_scan lh (mid # ms) best coming live = (case jget (lh_directory lh) mid of
       None \<Rightarrow> pool_scan lh ms best coming live
     | Some (Deactivating n) \<Rightarrow> pool_scan lh ms best coming live
     | Some (Active n) \<Rightarrow>
         pool_scan lh ms (case best of None \<Rightarrow> Some n | Some b \<Rightarrow> if depth_of lh n < depth_of lh b then Some n else Some b)
           coming (Suc live)
     | Some (Activating n) \<Rightarrow> pool_scan lh ms best (case coming of None \<Rightarrow> Some n | Some c \<Rightarrow> Some c) (Suc live))"

datatype target = Ready nat | Joins nat | Parks nat

definition pool_target :: "string \<Rightarrow> worker_pool \<Rightarrow> actor_ref \<Rightarrow> nat \<Rightarrow> local_host \<Rightarrow> target \<times> local_host" where
  "pool_target aid pool ref now lh =
     (let (best, coming, live) = pool_scan lh (wp_members pool) None None 0;
          spin = (let (n, lh') = spin_member aid pool ref now lh in (Joins n, lh'))
      in case best of
           Some b \<Rightarrow> if depth_of lh b = 0 then (Ready b, lh)
                      else if live < wp_cap pool then spin else (Ready b, lh)
         | None \<Rightarrow> if live < wp_cap pool then spin
                    else (case coming of Some c \<Rightarrow> (Joins c, lh) | None \<Rightarrow> spin))"

text \<open>\<open>#activationFor\<close> up to its await: a pool, a slot to use, to join or to wait out, or a fresh reservation.\<close>

definition unknown_type_error :: "actor_ref \<Rightarrow> actor_error" where
  "unknown_type_error ref = activation_error (ref_type ref @ ''/?'')"

definition activation_for ::
  "host_limits \<Rightarrow> (string \<Rightarrow> actor_def option) \<Rightarrow> actor_ref \<Rightarrow> nat \<Rightarrow> local_host \<Rightarrow> (actor_error + target) \<times> local_host" where
  "activation_for hl defs ref now lh =
     (let aid = actor_id ref in
      case jget (lh_pools lh) aid of
        Some pool \<Rightarrow> (let (t, lh') = pool_target aid pool ref now lh in (Inr t, lh'))
      | None \<Rightarrow> (case jget (lh_directory lh) aid of
          Some (Activating n) \<Rightarrow> (Inr (Joins n), lh)
        | Some (Active n) \<Rightarrow> (Inr (Ready n), lh)
        | Some (Deactivating n) \<Rightarrow> (Inr (Parks n), lh)
        | None \<Rightarrow> (case defs (ref_type ref) of
            None \<Rightarrow> (Inl (unknown_type_error ref), lh)
          | Some def \<Rightarrow>
              if df_stateless def \<noteq> None
              then (let lh = ensure_pool hl aid def lh;
                        (t, lh') = pool_target aid (the (jget (lh_pools lh) aid)) ref now lh
                    in (Inr t, lh'))
              else (Inr (Joins (length (lh_activations lh))), reserve aid ref now lh))))"

text \<open>The reservation settles: activated, or failed and forgotten.\<close>

definition activated :: "nat \<Rightarrow> local_host \<Rightarrow> local_host" where
  "activated n lh = (let did = av_id (lh_activations lh ! n)
     in if jget (lh_directory lh) did = Some (Activating n)
        then lh\<lparr>lh_directory := jset (lh_directory lh) did (Active n)\<rparr> else lh)"

definition activation_failed :: "nat \<Rightarrow> local_host \<Rightarrow> local_host" where
  "activation_failed n lh = (let did = av_id (lh_activations lh ! n);
       lh = (if jget (lh_directory lh) did = Some (Activating n)
             then lh\<lparr>lh_directory := jdel (lh_directory lh) did\<rparr> else lh);
       lh = lh\<lparr>lh_alive := removeAll n (lh_alive lh)\<rparr>
     in if is_member_id did then forget_member did lh else lh)"

subsection \<open>Deactivation\<close>

datatype draining = Nothing_To_Drain | Drains nat | Drains_After nat

definition deactivate_by_id :: "string \<Rightarrow> local_host \<Rightarrow> draining \<times> local_host" where
  "deactivate_by_id did lh = (case jget (lh_directory lh) did of
       None \<Rightarrow> (Nothing_To_Drain, lh)
     | Some (Deactivating n) \<Rightarrow> (Drains n, lh)
     | Some (Activating n) \<Rightarrow> (Drains_After n, lh)
     | Some (Active n) \<Rightarrow> (Drains n, lh\<lparr>lh_directory := jset (lh_directory lh) did (Deactivating n)\<rparr>))"

text \<open>\<open>activation.deactivate\<close> has settled.\<close>

definition deactivated :: "nat \<Rightarrow> local_host \<Rightarrow> local_host" where
  "deactivated n lh = (let did = av_id (lh_activations lh ! n);
       lh = (if jget (lh_directory lh) did = Some (Deactivating n)
             then lh\<lparr>lh_directory := jdel (lh_directory lh) did\<rparr> else lh);
       lh = lh\<lparr>lh_alive := removeAll n (lh_alive lh)\<rparr>
     in if is_member_id did then forget_member did lh else lh)"

text \<open>\<open>deactivate(ref)\<close>: of a pool, every member.\<close>

definition deactivate_ref :: "actor_ref \<Rightarrow> local_host \<Rightarrow> local_host" where
  "deactivate_ref ref lh = (case jget (lh_pools lh) (actor_id ref) of
       Some pool \<Rightarrow> fold (\<lambda>mid lh. snd (deactivate_by_id mid lh)) (wp_members pool) lh
     | None \<Rightarrow> snd (deactivate_by_id (actor_id ref) lh))"

text \<open>\<open>#idFor\<close>: the directory id of one activation.\<close>

definition id_for :: "nat \<Rightarrow> local_host \<Rightarrow> string" where
  "id_for n lh = (let aid = actor_id (av_ref (lh_activations lh ! n)) in
     case jget (lh_pools lh) aid of
       None \<Rightarrow> aid
     | Some pool \<Rightarrow> (case List.find (\<lambda>mid. jget (lh_directory lh) mid = Some (Active n)) (wp_members pool) of
         Some mid \<Rightarrow> mid | None \<Rightarrow> aid))"

definition deactivate_one :: "nat \<Rightarrow> local_host \<Rightarrow> draining \<times> local_host" where
  "deactivate_one n lh = deactivate_by_id (id_for n lh) lh"

definition deactivate_type :: "string \<Rightarrow> local_host \<Rightarrow> local_host" where
  "deactivate_type type lh = fold (\<lambda>(did, s) lh. case s of
       Active n \<Rightarrow> if ref_type (av_ref (lh_activations lh ! n)) = type then snd (deactivate_by_id did lh) else lh
     | _ \<Rightarrow> lh) (lh_directory lh) lh"

subsection \<open>The sweep\<close>

definition idle_now :: "local_host \<Rightarrow> nat \<Rightarrow> bool" where
  "idle_now lh n \<longleftrightarrow> depth_of lh n = 0 \<and> av_kept (lh_activations lh ! n) = 0"

definition active_slots :: "local_host \<Rightarrow> (string \<times> nat) list" where
  "active_slots lh = concat (map (\<lambda>(did, s). case s of Active n \<Rightarrow> [(did, n)] | _ \<Rightarrow> []) (lh_directory lh))"

definition idle_due :: "(string \<Rightarrow> actor_def option) \<Rightarrow> nat \<Rightarrow> nat \<Rightarrow> local_host \<Rightarrow> nat \<Rightarrow> bool" where
  "idle_due defs now default_idle lh n \<longleftrightarrow>
     (let a = lh_activations lh ! n;
          after = (case defs (ref_type (av_ref a)) of None \<Rightarrow> default_idle
                   | Some d \<Rightarrow> (case df_idle_after d of None \<Rightarrow> default_idle | Some ms \<Rightarrow> ms))
      in idle_now lh n \<and> av_last a + after \<le> now)"

definition drop_all :: "string list \<Rightarrow> local_host \<Rightarrow> local_host" where
  "drop_all dids lh = fold (\<lambda>did lh. snd (deactivate_by_id did lh)) dids lh"

definition sweep_idle :: "(string \<Rightarrow> actor_def option) \<Rightarrow> nat \<Rightarrow> nat \<Rightarrow> local_host \<Rightarrow> string list" where
  "sweep_idle defs now default_idle lh =
     map fst (filter (\<lambda>(did, n). idle_due defs now default_idle lh n) (active_slots lh))"

text \<open>The least recently used idle activations, as many as there are active ones over the cap.\<close>

definition sweep_capacity :: "nat \<Rightarrow> local_host \<Rightarrow> string list" where
  "sweep_capacity cap lh =
     (if cap = 0 then []
      else let active = active_slots lh;
               candidates = filter (\<lambda>(did, n). idle_now lh n) active
           in map fst (take (length active - cap) (sort_key (\<lambda>(did, n). av_last (lh_activations lh ! n)) candidates)))"

definition sweep :: "(string \<Rightarrow> actor_def option) \<Rightarrow> nat \<Rightarrow> nat \<Rightarrow> nat \<Rightarrow> local_host \<Rightarrow> local_host" where
  "sweep defs now default_idle cap lh =
     (let lh = drop_all (sweep_idle defs now default_idle lh) lh
      in drop_all (sweep_capacity cap lh) lh)"

subsection \<open>The stop\<close>

definition stop_begin :: "local_host \<Rightarrow> local_host" where
  "stop_begin lh = drop_all (map fst (active_slots lh)) (lh\<lparr>lh_shutting := True\<rparr>)"

text \<open>At the deadline: what is active is stopped by force, and every slot and pool is dropped.\<close>

definition force_stop :: "nat \<Rightarrow> local_host \<Rightarrow> local_host" where
  "force_stop n lh = lh\<lparr>lh_activations := (lh_activations lh)[n := (lh_activations lh ! n)\<lparr>av_turns := turns_close (av_turns (lh_activations lh ! n))\<rparr>],
                        lh_alive := removeAll n (lh_alive lh)\<rparr>"

definition stop_timeout :: "local_host \<Rightarrow> local_host" where
  "stop_timeout lh = (fold force_stop (map snd (active_slots lh)) lh)\<lparr>lh_directory := [], lh_pools := []\<rparr>"

subsection \<open>Dispatch\<close>

record local_call =
  lc_chain :: "string list"
  lc_method :: string
  lc_one_way :: bool

datatype dispatched = Refused actor_error | Enqueued nat | Inlined nat | Waits_For nat | Waits_Out nat

text \<open>\<open>Activation.enqueue\<close>: admission for what enters the host, then a turn in the lane of its method.\<close>

definition admission ::
  "host_limits \<Rightarrow> actor_def \<Rightarrow> local_call \<Rightarrow> nat \<Rightarrow> local_host \<Rightarrow> actor_error option" where
  "admission hl def call n lh =
     (let label = actor_label (av_ref (lh_activations lh ! n));
          cap = (case df_max_queued def of Some c \<Rightarrow> c | None \<Rightarrow> hl_max_queued hl);
          depth = depth_of lh n
      in if lc_chain call = []
         then if 0 < cap \<and> cap \<le> depth then Some (overloaded_error Actor_Scope label depth cap)
              else if 0 < hl_max_inflight hl \<and> hl_max_inflight hl \<le> lh_load lh
              then Some (overloaded_error Host_Scope label (lh_load lh) (hl_max_inflight hl))
              else None
         else None)"

definition enqueue ::
  "host_limits \<Rightarrow> actor_def \<Rightarrow> nat \<Rightarrow> local_call \<Rightarrow> nat \<Rightarrow> local_host \<Rightarrow> dispatched \<times> local_host" where
  "enqueue hl def i call n lh =
     (case admission hl def call n lh of
        Some e \<Rightarrow> (Refused e, lh\<lparr>lh_refusals := Suc (lh_refusals lh)\<rparr>)
      | None \<Rightarrow>
          let a = lh_activations lh ! n;
              (ok, t, load) = turns_run (interleaves (df_reentrancy def) (lc_method call)) i (av_turns a, lh_load lh)
          in (if ok then Enqueued n else Refused host_shutdown_error,
              lh\<lparr>lh_activations := (lh_activations lh)[n := a\<lparr>av_turns := t\<rparr>], lh_load := load\<rparr>))"

definition check_shutdown :: "local_call \<Rightarrow> local_host \<Rightarrow> bool" where
  "check_shutdown call lh \<longleftrightarrow> lh_shutting lh \<and> lc_chain call = []"

text \<open>\<open>#checkReentrancy\<close>: nothing to do, inline on the activation, or an error.\<close>

definition moved_error :: "actor_ref \<Rightarrow> actor_error" where
  "moved_error ref = base_error Deadlock (''[sigx actors] '' @ actor_label ref @
     '' is mid-turn in this call chain but has no activation on this host '' @ [CHR 0xE2, CHR 0x80, CHR 0x94] @
     '' the activation moved mid-call. Retry.'')"

definition check_reentrancy ::
  "host_limits \<Rightarrow> (string \<Rightarrow> actor_def option) \<Rightarrow> actor_ref \<Rightarrow> local_call \<Rightarrow> local_host \<Rightarrow> actor_error + nat option" where
  "check_reentrancy hl defs ref call lh =
     (let aid = actor_id ref in
      if aid \<notin> set (lc_chain call) then Inr None
      else let active = (case jget (lh_directory lh) aid of Some (Active n) \<Rightarrow> Some n | _ \<Rightarrow> None)
      in case defs (ref_type ref) of
           None \<Rightarrow> Inl (unknown_type_error ref)
         | Some def \<Rightarrow> (case effective_reentrancy (df_reentrancy def) (lc_method call) of
             Mode_None \<Rightarrow> Inl (deadlock_error (lc_chain call @ [aid]))
           | mode \<Rightarrow> (case active of
               None \<Rightarrow> if hl_strict hl then Inl (moved_error ref) else Inr None
             | Some n \<Rightarrow> Inr (if mode = Always then None else Some n))))"

text \<open>What a call does on the target the directory gave it; a promise to wait for is a later step.\<close>

definition on_target ::
  "host_limits \<Rightarrow> (string \<Rightarrow> actor_def option) \<Rightarrow> actor_ref \<Rightarrow> nat \<Rightarrow> local_call \<Rightarrow> (actor_error + target) \<times> local_host
     \<Rightarrow> dispatched \<times> local_host" where
  "on_target hl defs ref i call r = (case r of
       (Inl e, lh) \<Rightarrow> (Refused e, lh)
     | (Inr (Joins n), lh) \<Rightarrow> (Waits_For n, lh)
     | (Inr (Parks n), lh) \<Rightarrow> (Waits_Out n, lh)
     | (Inr (Ready n), lh) \<Rightarrow> (case defs (ref_type ref) of
         None \<Rightarrow> (Refused (unknown_type_error ref), lh)
       | Some def \<Rightarrow> enqueue hl def i call n lh))"

definition dispatch_slow ::
  "host_limits \<Rightarrow> (string \<Rightarrow> actor_def option) \<Rightarrow> actor_ref \<Rightarrow> nat \<Rightarrow> nat \<Rightarrow> local_call \<Rightarrow> local_host \<Rightarrow> dispatched \<times> local_host" where
  "dispatch_slow hl defs ref now i call lh =
     (case check_reentrancy hl defs ref call lh of
        Inl e \<Rightarrow> (Refused e, lh)
      | Inr (Some n) \<Rightarrow> (Inlined n, lh)
      | Inr None \<Rightarrow> on_target hl defs ref i call (activation_for hl defs ref now lh))"

text \<open>\<open>#dispatchWarmOrSlow\<close>: the shortcut for an active slot or a pool, outside a cycle only.\<close>

definition local_dispatch ::
  "host_limits \<Rightarrow> (string \<Rightarrow> actor_def option) \<Rightarrow> actor_ref \<Rightarrow> nat \<Rightarrow> nat \<Rightarrow> local_call \<Rightarrow> local_host \<Rightarrow> dispatched \<times> local_host" where
  "local_dispatch hl defs ref now i call lh =
     (let aid = actor_id ref in
      if check_shutdown call lh then (Refused host_shutdown_error, lh)
      else if aid \<notin> set (lc_chain call)
      then (case jget (lh_directory lh) aid of
              Some (Active n) \<Rightarrow> on_target hl defs ref i call (Inr (Ready n), lh)
            | _ \<Rightarrow> (case jget (lh_pools lh) aid of
                Some pool \<Rightarrow> (let (t, lh') = pool_target aid pool ref now lh in on_target hl defs ref i call (Inr t, lh'))
              | None \<Rightarrow> dispatch_slow hl defs ref now i call lh))
      else dispatch_slow hl defs ref now i call lh)"

text \<open>\<open>#dispatchOneWay\<close>: no reentrancy check, and closed turns refuse before acceptance.\<close>

definition local_one_way ::
  "host_limits \<Rightarrow> (string \<Rightarrow> actor_def option) \<Rightarrow> actor_ref \<Rightarrow> nat \<Rightarrow> nat \<Rightarrow> local_call \<Rightarrow> local_host \<Rightarrow> dispatched \<times> local_host" where
  "local_one_way hl defs ref now i call lh =
     (if check_shutdown call lh then (Refused host_shutdown_error, lh)
      else case activation_for hl defs ref now lh of
        (Inr (Ready n), lh') \<Rightarrow> if tn_closed (av_turns (lh_activations lh' ! n)) then (Refused host_shutdown_error, lh')
                               else on_target hl defs ref i call (Inr (Ready n), lh')
      | r \<Rightarrow> on_target hl defs ref i call r)"

text \<open>\<open>dispatchStream\<close> and \<open>dispatchWatch\<close>, up to the open on the activation.\<close>

datatype opened = Open_Refused actor_error | Opens_On target bool

definition local_stream ::
  "host_limits \<Rightarrow> (string \<Rightarrow> actor_def option) \<Rightarrow> actor_ref \<Rightarrow> nat \<Rightarrow> local_call \<Rightarrow> local_host \<Rightarrow> opened \<times> local_host" where
  "local_stream hl defs ref now call lh =
     (if check_shutdown call lh then (Open_Refused host_shutdown_error, lh)
      else case check_reentrancy hl defs ref call lh of
        Inl e \<Rightarrow> (Open_Refused e, lh)
      | Inr (Some n) \<Rightarrow> (Opens_On (Ready n) True, lh)
      | Inr None \<Rightarrow> (case activation_for hl defs ref now lh of
          (Inl e, lh') \<Rightarrow> (Open_Refused e, lh')
        | (Inr t, lh') \<Rightarrow> (Opens_On t False, lh')))"

definition stateless_watch_error :: "actor_ref \<Rightarrow> actor_error" where
  "stateless_watch_error ref = base_error Method_Not_Found (''[sigx actors] '' @ actor_label ref @
     '' is a stateless worker '' @ [CHR 0xE2, CHR 0x80, CHR 0x94] @ '' workers have no state to watch.'')"

definition watch_reentry_error :: "actor_ref \<Rightarrow> string \<Rightarrow> actor_error" where
  "watch_reentry_error ref mtd = base_error Deadlock (''[sigx actors] '' @ actor_label ref @ ''.'' @ mtd @ ''() '' @
     [CHR 0xE2, CHR 0x80, CHR 0x94] @ '' a watch cannot re-enter an up-stack turn: a watch is a long-lived subscription '' @
     ''whose reads are turns of their own, so only its first read could ever run inline. Open the watch outside the turn.'')"

definition local_watch ::
  "host_limits \<Rightarrow> (string \<Rightarrow> actor_def option) \<Rightarrow> actor_ref \<Rightarrow> nat \<Rightarrow> local_call \<Rightarrow> local_host \<Rightarrow> opened \<times> local_host" where
  "local_watch hl defs ref now call lh =
     (if check_shutdown call lh then (Open_Refused host_shutdown_error, lh)
      else case defs (ref_type ref) of
        None \<Rightarrow> (Open_Refused (unknown_type_error ref), lh)
      | Some def \<Rightarrow>
          if df_stateless def \<noteq> None then (Open_Refused (stateless_watch_error ref), lh)
          else (case check_reentrancy hl defs ref call lh of
            Inl e \<Rightarrow> (Open_Refused e, lh)
          | Inr (Some n) \<Rightarrow> (Open_Refused (watch_reentry_error ref (lc_method call)), lh)
          | Inr None \<Rightarrow> (case activation_for hl defs ref now lh of
              (Inl e, lh') \<Rightarrow> (Open_Refused e, lh')
            | (Inr t, lh') \<Rightarrow> (Opens_On t False, lh'))))"

subsection \<open>What an operator sees\<close>

record host_stats =
  hs_activations :: nat
  hs_queued :: nat
  hs_activating :: nat
  hs_deactivating :: nat
  hs_per_type :: "(string, nat) jmap"

definition count_slot :: "local_host \<Rightarrow> string \<times> slot \<Rightarrow> host_stats \<Rightarrow> host_stats" where
  "count_slot lh ds hs = (case snd ds of
       Activating n \<Rightarrow> hs\<lparr>hs_activating := Suc (hs_activating hs)\<rparr>
     | Deactivating n \<Rightarrow> hs\<lparr>hs_deactivating := Suc (hs_deactivating hs)\<rparr>
     | Active n \<Rightarrow> let type = ref_type (av_ref (lh_activations lh ! n))
         in hs\<lparr>hs_activations := Suc (hs_activations hs), hs_queued := hs_queued hs + depth_of lh n,
               hs_per_type := jset (hs_per_type hs) type
                 (Suc (case jget (hs_per_type hs) type of None \<Rightarrow> 0 | Some k \<Rightarrow> k))\<rparr>)"

definition host_stats_of :: "local_host \<Rightarrow> host_stats" where
  "host_stats_of lh = fold (count_slot lh) (lh_directory lh)
     \<lparr>hs_activations = 0, hs_queued = 0, hs_activating = 0, hs_deactivating = 0, hs_per_type = []\<rparr>"

text \<open>\<open>resolveLimit\<close>: what is absent or not finite is \<open>None\<close>.\<close>

definition resolve_limit :: "int option \<Rightarrow> nat \<Rightarrow> nat" where
  "resolve_limit value fallback = (case value of None \<Rightarrow> fallback | Some v \<Rightarrow> nat v)"

datatype sort_by = By_Queued | By_Age | By_Idle

text \<open>
  \<open>activations()\<close>: the rows of one type or of all, the interesting end first, ties in the order of type and
  key. The age is read off a clock of its own, so it is given; stable sorts compose from the least
  significant key on.
\<close>

definition row_value :: "sort_by \<Rightarrow> nat \<Rightarrow> (nat \<Rightarrow> nat) \<Rightarrow> local_host \<Rightarrow> nat \<Rightarrow> nat" where
  "row_value sb now age lh n = (case sb of By_Queued \<Rightarrow> depth_of lh n | By_Age \<Rightarrow> age n
     | By_Idle \<Rightarrow> now - av_last (lh_activations lh ! n))"

definition top_activations ::
  "int option \<Rightarrow> sort_by \<Rightarrow> string option \<Rightarrow> nat \<Rightarrow> (nat \<Rightarrow> nat) \<Rightarrow> local_host \<Rightarrow> nat list" where
  "top_activations limit sb wanted now age lh =
     (let rows = filter (\<lambda>n. case wanted of None \<Rightarrow> True | Some t \<Rightarrow> ref_type (av_ref (lh_activations lh ! n)) = t)
                   (map snd (active_slots lh))
      in take (resolve_limit limit 100)
           (sort_key (\<lambda>n. - int (row_value sb now age lh n))
             (sort_key (\<lambda>n. ref_type (av_ref (lh_activations lh ! n)))
               (sort_key (\<lambda>n. ref_key (av_ref (lh_activations lh ! n))) rows))))"

subsection \<open>Failing activations\<close>

text \<open>\<open>#noteActivationFailure\<close>: the streak of one actor, a new one after its window, and whether it warns now.\<close>

definition retry_storm_threshold :: nat where "retry_storm_threshold = 3"

definition retry_storm_window_ms :: nat where "retry_storm_window_ms = 30000"

definition note_activation_failure :: "string \<Rightarrow> nat \<Rightarrow> (string, nat \<times> nat) jmap \<Rightarrow> bool \<times> (string, nat \<times> nat) jmap" where
  "note_activation_failure aid now m =
     (let expired = (\<lambda>since. since + retry_storm_window_ms < now);
          streak = jget m aid;
          fresh = (case streak of None \<Rightarrow> True | Some (c, since) \<Rightarrow> expired since);
          m = (if streak = None \<and> 256 \<le> length m then filter (\<lambda>(k, c, since). \<not> expired since) m else m);
          (count, since) = (if fresh then (0, now) else the streak);
          count = Suc count
      in (count = retry_storm_threshold, jset m aid (count, since)))"

subsection \<open>What holds of the directory\<close>

definition wf_ref :: "actor_ref \<Rightarrow> bool" where
  "wf_ref ref \<longleftrightarrow> ref_type ref \<noteq> [] \<and> nul \<notin> set (ref_type ref)"

definition stateless_ref :: "(string \<Rightarrow> actor_def option) \<Rightarrow> actor_ref \<Rightarrow> bool" where
  "stateless_ref defs ref \<longleftrightarrow> (case defs (ref_type ref) of None \<Rightarrow> False | Some d \<Rightarrow> df_stateless d \<noteq> None)"

text \<open>\<open>defineWorker\<close> refuses a cap below one.\<close>

definition wf_defs :: "(string \<Rightarrow> actor_def option) \<Rightarrow> bool" where
  "wf_defs defs \<longleftrightarrow> (\<forall>type d. defs type = Some d \<longrightarrow> df_stateless d \<noteq> Some (Some 0))"

fun live_slot :: "slot option \<Rightarrow> bool" where
  "live_slot (Some (Activating n)) = True"
| "live_slot (Some (Active n)) = True"
| "live_slot _ = False"

definition live_members :: "(string, slot) jmap \<Rightarrow> string list \<Rightarrow> nat" where
  "live_members dir ms = length (filter (\<lambda>mid. live_slot (jget dir mid)) ms)"

definition slots_ok :: "local_host \<Rightarrow> bool" where
  "slots_ok lh \<longleftrightarrow> distinct (lh_alive lh) \<and> distinct (jkeys (lh_directory lh))
     \<and> (\<forall>n \<in> set (lh_alive lh). n < length (lh_activations lh)
          \<and> (\<exists>s. jget (lh_directory lh) (av_id (lh_activations lh ! n)) = Some s \<and> slot_activation s = n))
     \<and> (\<forall>did s. jget (lh_directory lh) did = Some s \<longrightarrow>
          slot_activation s \<in> set (lh_alive lh) \<and> av_id (lh_activations lh ! slot_activation s) = did)"

definition id_ok :: "(string \<Rightarrow> actor_def option) \<Rightarrow> local_host \<Rightarrow> string \<Rightarrow> actor_ref \<Rightarrow> bool" where
  "id_ok defs lh did ref \<longleftrightarrow> wf_ref ref \<and>
     (if stateless_ref defs ref
      then (\<exists>k p. did = member_id (actor_id ref) k \<and> jget (lh_pools lh) (actor_id ref) = Some p \<and> did \<in> set (wp_members p))
      else did = actor_id ref)"

definition pool_ok :: "(string, slot) jmap \<Rightarrow> string \<Rightarrow> worker_pool \<Rightarrow> bool" where
  "pool_ok dir aid p \<longleftrightarrow> distinct (wp_members p) \<and> 1 \<le> wp_cap p
     \<and> (\<forall>m \<in> set (wp_members p). jhas dir m \<and> (\<exists>k < wp_seq p. m = member_id aid k))
     \<and> live_members dir (wp_members p) \<le> wp_cap p"

definition host_ok :: "(string \<Rightarrow> actor_def option) \<Rightarrow> local_host \<Rightarrow> bool" where
  "host_ok defs lh \<longleftrightarrow> slots_ok lh
     \<and> (\<forall>did s. jget (lh_directory lh) did = Some s \<longrightarrow> id_ok defs lh did (av_ref (lh_activations lh ! slot_activation s)))
     \<and> (\<forall>aid p. jget (lh_pools lh) aid = Some p \<longrightarrow> pool_ok (lh_directory lh) aid p
          \<and> (\<exists>ref. wf_ref ref \<and> stateless_ref defs ref \<and> aid = actor_id ref))"

subsection \<open>Ids do not collide\<close>

lemma nul_not_in_show [simp]: "nul \<notin> set (show_nat n)"
  by (rule not_digit_not_in_show) (simp add: is_digit_def)

lemma base_id_of_member [simp]: "base_id_of (member_id aid n) = aid"
  using last_index_of_append [of nul "show_nat n" "nul # aid"] by (simp add: base_id_of_def member_id_def)

lemma member_id_inject [simp]: "member_id a m = member_id b n \<longleftrightarrow> a = b \<and> m = n"
proof
  assume eq: "member_id a m = member_id b n"
  then have "a = b" by (metis base_id_of_member)
  with eq show "a = b \<and> m = n" by (simp add: member_id_def)
qed simp

lemma is_member_id_member [simp]: "is_member_id (member_id aid n)"
  by (simp add: is_member_id_def member_id_def)

lemma actor_id_not_member: "wf_ref ref \<Longrightarrow> \<not> is_member_id (actor_id ref)"
  by (cases "ref_type ref") (auto simp: wf_ref_def is_member_id_def actor_id_def)

lemma actor_id_ne_member [simp]: "wf_ref ref \<Longrightarrow> actor_id ref \<noteq> member_id aid n"
  using actor_id_not_member by fastforce

lemma wf_ref_inject: "wf_ref r \<Longrightarrow> wf_ref q \<Longrightarrow> actor_id r = actor_id q \<longleftrightarrow> r = q"
  by (rule actor_id_inject) (auto simp: wf_ref_def)

subsection \<open>Every operation keeps it\<close>

lemma slots_okD:
  assumes "slots_ok lh"
  shows "distinct (lh_alive lh)"
    and "n \<in> set (lh_alive lh) \<Longrightarrow> n < length (lh_activations lh)"
    and "n \<in> set (lh_alive lh) \<Longrightarrow> \<exists>s. jget (lh_directory lh) (av_id (lh_activations lh ! n)) = Some s \<and> slot_activation s = n"
    and "jget (lh_directory lh) did = Some s \<Longrightarrow> slot_activation s \<in> set (lh_alive lh)"
    and "jget (lh_directory lh) did = Some s \<Longrightarrow> av_id (lh_activations lh ! slot_activation s) = did"
    and "distinct (jkeys (lh_directory lh))"
  using assms unfolding slots_ok_def by blast+

lemma slots_okI:
  assumes "distinct (lh_alive lh)"
    and "\<And>n. n \<in> set (lh_alive lh) \<Longrightarrow> n < length (lh_activations lh)
          \<and> (\<exists>s. jget (lh_directory lh) (av_id (lh_activations lh ! n)) = Some s \<and> slot_activation s = n)"
    and "\<And>did s. jget (lh_directory lh) did = Some s \<Longrightarrow>
          slot_activation s \<in> set (lh_alive lh) \<and> av_id (lh_activations lh ! slot_activation s) = did"
    and "distinct (jkeys (lh_directory lh))"
  shows "slots_ok lh"
  using assms unfolding slots_ok_def by blast

lemma host_okD:
  assumes "host_ok defs lh"
  shows "slots_ok lh"
    and "jget (lh_directory lh) did = Some s \<Longrightarrow> id_ok defs lh did (av_ref (lh_activations lh ! slot_activation s))"
    and "jget (lh_pools lh) aid = Some p \<Longrightarrow> pool_ok (lh_directory lh) aid p"
    and "jget (lh_pools lh) aid = Some p \<Longrightarrow> \<exists>ref. wf_ref ref \<and> stateless_ref defs ref \<and> aid = actor_id ref"
  using assms unfolding host_ok_def by blast+

lemma host_okI:
  assumes "slots_ok lh"
    and "\<And>did s. jget (lh_directory lh) did = Some s \<Longrightarrow> id_ok defs lh did (av_ref (lh_activations lh ! slot_activation s))"
    and "\<And>aid p. jget (lh_pools lh) aid = Some p \<Longrightarrow> pool_ok (lh_directory lh) aid p"
    and "\<And>aid p. jget (lh_pools lh) aid = Some p \<Longrightarrow> \<exists>ref. wf_ref ref \<and> stateless_ref defs ref \<and> aid = actor_id ref"
  shows "host_ok defs lh"
  using assms unfolding host_ok_def by blast

lemma id_ok_pools: "lh_pools lh' = lh_pools lh \<Longrightarrow> id_ok defs lh' did ref = id_ok defs lh did ref"
  by (simp add: id_ok_def)

text \<open>What only touches turns, load and bookkeeping keeps the slots.\<close>

definition same_slots :: "local_host \<Rightarrow> local_host \<Rightarrow> bool" where
  "same_slots lh lh' \<longleftrightarrow> lh_directory lh' = lh_directory lh \<and> lh_pools lh' = lh_pools lh \<and> lh_alive lh' = lh_alive lh
     \<and> length (lh_activations lh') = length (lh_activations lh)
     \<and> (\<forall>n < length (lh_activations lh). av_id (lh_activations lh' ! n) = av_id (lh_activations lh ! n)
          \<and> av_ref (lh_activations lh' ! n) = av_ref (lh_activations lh ! n))"

lemma host_ok_frame:
  assumes ok: "host_ok defs lh" and same: "same_slots lh lh'"
  shows "host_ok defs lh'"
proof (rule host_okI)
  note S = slots_okD [OF host_okD(1) [OF ok]]
  show "slots_ok lh'" using same S by (intro slots_okI) (auto simp: same_slots_def)
  show "id_ok defs lh' did (av_ref (lh_activations lh' ! slot_activation s))" if "jget (lh_directory lh') did = Some s" for did s
  proof -
    have g: "jget (lh_directory lh) did = Some s" and p: "lh_pools lh' = lh_pools lh" using that same by (simp_all add: same_slots_def)
    have "av_ref (lh_activations lh' ! slot_activation s) = av_ref (lh_activations lh ! slot_activation s)"
      using S(2) [OF S(4) [OF g]] same by (simp add: same_slots_def)
    with host_okD(2) [OF ok g] show ?thesis by (simp add: id_ok_pools [OF p])
  qed
  show "pool_ok (lh_directory lh') aid p" if "jget (lh_pools lh') aid = Some p" for aid p
    using host_okD(3) [OF ok, of aid p] that same by (simp add: same_slots_def)
  show "\<exists>ref. wf_ref ref \<and> stateless_ref defs ref \<and> aid = actor_id ref" if "jget (lh_pools lh') aid = Some p" for aid p
    using host_okD(4) [OF ok, of aid p] that same by (simp add: same_slots_def)
qed

lemma live_members_mono:
  "\<forall>m \<in> set ms. live_slot (jget dir' m) \<longrightarrow> live_slot (jget dir m) \<Longrightarrow> live_members dir' ms \<le> live_members dir ms"
  by (induction ms) (auto simp: live_members_def)

lemma pool_ok_mono:
  assumes "pool_ok dir aid p" "\<forall>m \<in> set (wp_members p). jhas dir' m \<and> (live_slot (jget dir' m) \<longrightarrow> live_slot (jget dir m))"
  shows "pool_ok dir' aid p"
  using assms live_members_mono [of "wp_members p" dir' dir] by (auto simp: pool_ok_def)

text \<open>A slot moves to its next phase.\<close>

lemma host_ok_phase:
  assumes ok: "host_ok defs lh" and s: "jget (lh_directory lh) did = Some s" "slot_activation s' = slot_activation s"
    "live_slot (Some s') \<Longrightarrow> live_slot (Some s)"
  shows "host_ok defs (lh\<lparr>lh_directory := jset (lh_directory lh) did s'\<rparr>)"
proof -
  note S = slots_okD [OF host_okD(1) [OF ok]]
  define lh' where "lh' = lh\<lparr>lh_directory := jset (lh_directory lh) did s'\<rparr>"
  have p: "lh_pools lh' = lh_pools lh" and a: "lh_activations lh' = lh_activations lh" "lh_alive lh' = lh_alive lh"
    and g: "jget (lh_directory lh') did' = (if did' = did then Some s' else jget (lh_directory lh) did')" for did'
    by (simp_all add: lh'_def)
  have "host_ok defs lh'"
  proof (rule host_okI)
    show "slots_ok lh'"
    proof (rule slots_okI)
      show "distinct (lh_alive lh')" using S(1) by (simp add: a)
      show "distinct (jkeys (lh_directory lh'))" using S(6) by (simp add: lh'_def distinct_jset)
      show "n < length (lh_activations lh')
          \<and> (\<exists>t. jget (lh_directory lh') (av_id (lh_activations lh' ! n)) = Some t \<and> slot_activation t = n)"
        if n: "n \<in> set (lh_alive lh')" for n
      proof -
        have n': "n \<in> set (lh_alive lh)" using n by (simp add: a)
        from S(3) [OF n'] obtain t where t: "jget (lh_directory lh) (av_id (lh_activations lh ! n)) = Some t" "slot_activation t = n"
          by blast
        show ?thesis
        proof (cases "av_id (lh_activations lh ! n) = did")
          case True
          with t s(1) have "t = s" by simp
          with True t(2) S(2) [OF n'] s(2) show ?thesis by (simp add: a g)
        next
          case False
          with t S(2) [OF n'] show ?thesis by (simp add: a g)
        qed
      qed
      show "slot_activation t \<in> set (lh_alive lh') \<and> av_id (lh_activations lh' ! slot_activation t) = did'"
        if "jget (lh_directory lh') did' = Some t" for did' t
        using that S(4,5) [of did'] S(4,5) [OF s(1)] s(2) by (auto simp: a g split: if_splits)
    qed
    show "id_ok defs lh' did' (av_ref (lh_activations lh' ! slot_activation t))" if "jget (lh_directory lh') did' = Some t" for did' t
      unfolding id_ok_pools [OF p] a using host_okD(2) [OF ok, of did'] that s by (auto simp: g split: if_splits)
    show "pool_ok (lh_directory lh') aid q" if q: "jget (lh_pools lh') aid = Some q" for aid q
    proof -
      have q': "pool_ok (lh_directory lh) aid q" using host_okD(3) [OF ok] q by (simp add: p)
      show ?thesis by (rule pool_ok_mono [OF q']) (use q' s(1,3) in \<open>auto simp: g jhas_def pool_ok_def\<close>)
    qed
    show "\<exists>ref. wf_ref ref \<and> stateless_ref defs ref \<and> aid = actor_id ref" if "jget (lh_pools lh') aid = Some q" for aid q
      using host_okD(4) [OF ok] that by (simp add: p)
  qed
  then show ?thesis by (simp add: lh'_def)
qed

lemma reserve_slots_ok:
  assumes ok: "slots_ok lh" and free: "jget (lh_directory lh) did = None"
  shows "slots_ok (reserve did ref now lh)"
proof (rule slots_okI)
  note S = slots_okD [OF ok]
  have fresh: "length (lh_activations lh) \<notin> set (lh_alive lh)" using S(2) by blast
  show "distinct (lh_alive (reserve did ref now lh))" using S(1) fresh by (simp add: reserve_def Let_def)
  show "distinct (jkeys (lh_directory (reserve did ref now lh)))" using S(6) by (simp add: reserve_def Let_def distinct_jset)
  show "n < length (lh_activations (reserve did ref now lh))
      \<and> (\<exists>s. jget (lh_directory (reserve did ref now lh)) (av_id (lh_activations (reserve did ref now lh) ! n)) = Some s
            \<and> slot_activation s = n)"
    if n: "n \<in> set (lh_alive (reserve did ref now lh))" for n
  proof (cases "n = length (lh_activations lh)")
    case False
    with n have a: "n \<in> set (lh_alive lh)" by (simp add: reserve_def Let_def)
    from S(3) [OF a] obtain s where s: "jget (lh_directory lh) (av_id (lh_activations lh ! n)) = Some s" "slot_activation s = n" by blast
    then have "av_id (lh_activations lh ! n) \<noteq> did" using free by auto
    with s S(2) [OF a] show ?thesis by (simp add: reserve_def Let_def nth_append)
  qed (simp add: reserve_def Let_def)
  show "slot_activation s \<in> set (lh_alive (reserve did ref now lh))
      \<and> av_id (lh_activations (reserve did ref now lh) ! slot_activation s) = did'"
    if "jget (lh_directory (reserve did ref now lh)) did' = Some s" for did' s
    using that S(2,4,5) [of _] S(4) [of did' s] S(5) [of did' s] S(2) [of "slot_activation s"]
    by (auto simp: reserve_def Let_def nth_append split: if_splits)
qed

lemma host_ok_reserve:
  assumes ok: "host_ok defs lh" and r: "wf_ref ref" "\<not> stateless_ref defs ref" and free: "jget (lh_directory lh) (actor_id ref) = None"
  shows "host_ok defs (reserve (actor_id ref) ref now lh)"
proof (rule host_okI)
  note S = slots_okD [OF host_okD(1) [OF ok]]
  show "slots_ok (reserve (actor_id ref) ref now lh)" by (rule reserve_slots_ok [OF host_okD(1) [OF ok] free])
  show "id_ok defs (reserve (actor_id ref) ref now lh) did (av_ref (lh_activations (reserve (actor_id ref) ref now lh) ! slot_activation s))"
    if g: "jget (lh_directory (reserve (actor_id ref) ref now lh)) did = Some s" for did s
  proof (cases "did = actor_id ref")
    case True
    with g have "s = Activating (length (lh_activations lh))" by (simp add: reserve_def Let_def)
    with True r show ?thesis by (simp add: reserve_def Let_def id_ok_def)
  next
    case False
    with g have g': "jget (lh_directory lh) did = Some s" by (simp add: reserve_def Let_def)
    have "slot_activation s < length (lh_activations lh)" by (rule S(2) [OF S(4) [OF g']])
    then have "av_ref (lh_activations (reserve (actor_id ref) ref now lh) ! slot_activation s) = av_ref (lh_activations lh ! slot_activation s)"
      and p: "lh_pools (reserve (actor_id ref) ref now lh) = lh_pools lh" by (simp_all add: reserve_def Let_def nth_append)
    with host_okD(2) [OF ok g'] show ?thesis unfolding id_ok_pools [OF p] by simp
  qed
  show "pool_ok (lh_directory (reserve (actor_id ref) ref now lh)) aid p"
    if p: "jget (lh_pools (reserve (actor_id ref) ref now lh)) aid = Some p" for aid p
  proof -
    have p': "jget (lh_pools lh) aid = Some p" using p by (simp add: reserve_def Let_def)
    note P = host_okD(3) [OF ok p']
    have "m \<noteq> actor_id ref \<and> jhas (lh_directory lh) m" if "m \<in> set (wp_members p)" for m
      using P that r(1) unfolding pool_ok_def by (metis actor_id_ne_member)
    then have "\<forall>m \<in> set (wp_members p). jhas (lh_directory (reserve (actor_id ref) ref now lh)) m
        \<and> (live_slot (jget (lh_directory (reserve (actor_id ref) ref now lh)) m) \<longrightarrow> live_slot (jget (lh_directory lh) m))"
      by (simp add: reserve_def Let_def)
    from pool_ok_mono [OF P this] show ?thesis .
  qed
  show "\<exists>ref. wf_ref ref \<and> stateless_ref defs ref \<and> aid = actor_id ref"
    if p: "jget (lh_pools (reserve (actor_id ref) ref now lh)) aid = Some p" for aid p
    using host_okD(4) [OF ok, of aid p] p by (simp add: reserve_def Let_def)
qed

text \<open>A fresh member of a pool with room.\<close>

lemma fresh_member:
  assumes ok: "host_ok defs lh" and p: "jget (lh_pools lh) aid = Some p"
  shows "jget (lh_directory lh) (member_id aid (wp_seq p)) = None"
proof (rule ccontr)
  assume "jget (lh_directory lh) (member_id aid (wp_seq p)) \<noteq> None"
  then obtain s where s: "jget (lh_directory lh) (member_id aid (wp_seq p)) = Some s" by auto
  from host_okD(2) [OF ok s] have "member_id aid (wp_seq p) \<in> set (wp_members p)"
    using p unfolding id_ok_def by (auto split: if_splits dest!: actor_id_ne_member [THEN not_sym])
  with host_okD(3) [OF ok p] show False unfolding pool_ok_def by fastforce
qed

lemma host_ok_spin:
  assumes ok: "host_ok defs lh" and p: "jget (lh_pools lh) aid = Some p" "live_members (lh_directory lh) (wp_members p) < wp_cap p"
    and r: "wf_ref ref" "stateless_ref defs ref" "aid = actor_id ref"
  shows "host_ok defs (snd (spin_member aid p ref now lh))"
proof -
  define mid where "mid = member_id aid (wp_seq p)"
  define p' where "p' = p\<lparr>wp_seq := Suc (wp_seq p), wp_members := wp_members p @ [mid]\<rparr>"
  define lh1 where "lh1 = lh\<lparr>lh_pools := jset (lh_pools lh) aid p'\<rparr>"
  define lh' where "lh' = reserve mid ref now lh1"
  have eq: "snd (spin_member aid p ref now lh) = lh'"
    by (simp add: spin_member_def Let_def mid_def p'_def lh1_def lh'_def)
  note S = slots_okD [OF host_okD(1) [OF ok]]
  note P = host_okD(3) [OF ok p(1), unfolded pool_ok_def]
  have free: "jget (lh_directory lh) mid = None" unfolding mid_def by (rule fresh_member [OF ok p(1)])
  have slots1: "slots_ok lh1" using S by (intro slots_okI) (auto simp: lh1_def)
  have pools: "jget (lh_pools lh') b = (if b = aid then Some p' else jget (lh_pools lh) b)" for b
    by (simp add: lh'_def lh1_def reserve_def Let_def)
  have dir: "jget (lh_directory lh') d = (if d = mid then Some (Activating (length (lh_activations lh))) else jget (lh_directory lh) d)" for d
    by (simp add: lh'_def lh1_def reserve_def Let_def)
  have mid_in: "mid \<notin> set (wp_members p)" using P by (fastforce simp: mid_def)
  have "host_ok defs lh'"
  proof (rule host_okI)
    show "slots_ok lh'" unfolding lh'_def by (rule reserve_slots_ok [OF slots1]) (simp add: lh1_def free)
    show "id_ok defs lh' did (av_ref (lh_activations lh' ! slot_activation s))" if g: "jget (lh_directory lh') did = Some s" for did s
    proof (cases "did = mid")
      case True
      with g dir have "s = Activating (length (lh_activations lh))" by simp
      then have "av_ref (lh_activations lh' ! slot_activation s) = ref" by (simp add: lh'_def lh1_def reserve_def Let_def)
      with True r show ?thesis by (simp add: id_ok_def pools p'_def) (simp add: mid_def)
    next
      case False
      with g dir have g': "jget (lh_directory lh) did = Some s" by simp
      have "slot_activation s < length (lh_activations lh)" by (rule S(2) [OF S(4) [OF g']])
      then have "av_ref (lh_activations lh' ! slot_activation s) = av_ref (lh_activations lh ! slot_activation s)"
        by (simp add: lh'_def lh1_def reserve_def Let_def nth_append)
      with host_okD(2) [OF ok g'] p(1) show ?thesis by (auto simp: id_ok_def pools p'_def split: if_splits)
    qed
    show "pool_ok (lh_directory lh') b q" if q: "jget (lh_pools lh') b = Some q" for b q
    proof (cases "b = aid")
      case True
      have rest: "live_members (lh_directory lh') (wp_members p) = live_members (lh_directory lh) (wp_members p)"
        using mid_in by (auto simp: live_members_def dir intro!: arg_cong [where f = length] filter_cong)
      have "live_members (lh_directory lh') (wp_members p') = Suc (live_members (lh_directory lh) (wp_members p))"
        unfolding rest [symmetric] by (simp add: live_members_def p'_def dir)
      moreover have "q = p'" using True q pools by simp
      moreover have "jhas (lh_directory lh') m \<and> (\<exists>k < Suc (wp_seq p). m = member_id aid k)" if "m \<in> set (wp_members p')" for m
        using that P by (auto simp: p'_def jhas_def dir mid_def less_Suc_eq)
      ultimately show ?thesis using p(2) P mid_in True unfolding pool_ok_def by (auto simp: p'_def)
    next
      case False
      with q pools have q': "pool_ok (lh_directory lh) b q" using host_okD(3) [OF ok] by simp
      then have "m \<noteq> mid \<and> jhas (lh_directory lh) m" if "m \<in> set (wp_members q)" for m
        using that False unfolding pool_ok_def mid_def by (metis member_id_inject)
      then show ?thesis by (intro pool_ok_mono [OF q']) (simp add: dir jhas_def)
    qed
    show "\<exists>ref. wf_ref ref \<and> stateless_ref defs ref \<and> b = actor_id ref" if q: "jget (lh_pools lh') b = Some q" for b q
      using q pools r host_okD(4) [OF ok] by (auto split: if_splits)
  qed
  then show ?thesis by (simp add: eq)
qed

text \<open>An activation ends: its slot goes, and a pool forgets its member.\<close>

definition end_slot :: "nat \<Rightarrow> local_host \<Rightarrow> local_host" where
  "end_slot n lh = (let did = av_id (lh_activations lh ! n);
       lh = lh\<lparr>lh_directory := jdel (lh_directory lh) did, lh_alive := removeAll n (lh_alive lh)\<rparr>
     in if is_member_id did then forget_member did lh else lh)"

lemma ends_are_end_slot:
  "jget (lh_directory lh) (av_id (lh_activations lh ! n)) = Some (Activating n) \<Longrightarrow> activation_failed n lh = end_slot n lh"
  "jget (lh_directory lh) (av_id (lh_activations lh ! n)) = Some (Deactivating n) \<Longrightarrow> deactivated n lh = end_slot n lh"
  by (simp_all add: activation_failed_def deactivated_def end_slot_def Let_def)

lemma forget_member_frame [simp]:
  "lh_directory (forget_member mid lh) = lh_directory lh" "lh_alive (forget_member mid lh) = lh_alive lh"
  "lh_activations (forget_member mid lh) = lh_activations lh" "lh_shutting (forget_member mid lh) = lh_shutting lh"
  by (auto simp: forget_member_def Let_def split: option.splits)

lemma forget_member_pools:
  "jget (lh_pools (forget_member (member_id aid k) lh)) b =
     (if b \<noteq> aid then jget (lh_pools lh) b
      else case jget (lh_pools lh) aid of None \<Rightarrow> None
        | Some p \<Rightarrow> if remove1 (member_id aid k) (wp_members p) = [] then None
                    else Some (p\<lparr>wp_members := remove1 (member_id aid k) (wp_members p)\<rparr>))"
  by (auto simp: forget_member_def Let_def split: option.splits)

lemma live_members_remove1: "live_members dir (remove1 m ms) \<le> live_members dir ms"
  by (induction ms) (auto simp: live_members_def)

lemma host_ok_end:
  assumes ok: "host_ok defs lh" and s: "jget (lh_directory lh) (av_id (lh_activations lh ! n)) = Some s" "slot_activation s = n"
  shows "host_ok defs (end_slot n lh)"
proof -
  note S = slots_okD [OF host_okD(1) [OF ok]]
  define did where "did = av_id (lh_activations lh ! n)"
  have dir: "jget (lh_directory (end_slot n lh)) d = (if d = did then None else jget (lh_directory lh) d)" for d
    by (simp add: end_slot_def Let_def did_def)
  have fr: "lh_activations (end_slot n lh) = lh_activations lh" "lh_alive (end_slot n lh) = removeAll n (lh_alive lh)"
    by (simp_all add: end_slot_def Let_def)
  have slots: "slots_ok (end_slot n lh)"
  proof (rule slots_okI)
    show "distinct (lh_alive (end_slot n lh))" using S(1) by (simp add: fr distinct_removeAll)
    show "distinct (jkeys (lh_directory (end_slot n lh)))" using S(6) by (simp add: end_slot_def Let_def distinct_jdel)
    show "m < length (lh_activations (end_slot n lh))
        \<and> (\<exists>t. jget (lh_directory (end_slot n lh)) (av_id (lh_activations (end_slot n lh) ! m)) = Some t \<and> slot_activation t = m)"
      if m: "m \<in> set (lh_alive (end_slot n lh))" for m
    proof -
      from m have m': "m \<in> set (lh_alive lh)" "m \<noteq> n" by (simp_all add: fr)
      from S(3) [OF m'(1)] obtain t where t: "jget (lh_directory lh) (av_id (lh_activations lh ! m)) = Some t" "slot_activation t = m" by blast
      with s m'(2) have "av_id (lh_activations lh ! m) \<noteq> did" unfolding did_def by auto
      with t S(2) [OF m'(1)] show ?thesis by (simp add: fr dir)
    qed
    show "slot_activation t \<in> set (lh_alive (end_slot n lh)) \<and> av_id (lh_activations (end_slot n lh) ! slot_activation t) = d"
      if t: "jget (lh_directory (end_slot n lh)) d = Some t" for d t
    proof -
      from t have t': "d \<noteq> did" "jget (lh_directory lh) d = Some t" by (simp_all add: dir split: if_splits)
      with S(5) [OF t'(2)] have "slot_activation t \<noteq> n" by (auto simp: did_def)
      with S(4,5) [OF t'(2)] show ?thesis by (simp add: fr)
    qed
  qed
  from host_okD(2) [OF ok s(1)] s(2) have idn: "id_ok defs lh did (av_ref (lh_activations lh ! n))" by (simp add: did_def)
  show ?thesis
  proof (cases "stateless_ref defs (av_ref (lh_activations lh ! n))")
    case False
    with idn have d: "did = actor_id (av_ref (lh_activations lh ! n))" "wf_ref (av_ref (lh_activations lh ! n))" by (simp_all add: id_ok_def)
    then have pools: "lh_pools (end_slot n lh) = lh_pools lh"
      using actor_id_not_member [OF d(2)] by (simp add: end_slot_def Let_def did_def [symmetric])
    show ?thesis
    proof (rule host_okI [OF slots])
      show "id_ok defs (end_slot n lh) e (av_ref (lh_activations (end_slot n lh) ! slot_activation t))"
        if "jget (lh_directory (end_slot n lh)) e = Some t" for e t
        unfolding id_ok_pools [OF pools] fr using host_okD(2) [OF ok] that by (simp add: dir split: if_splits)
      show "pool_ok (lh_directory (end_slot n lh)) aid p" if q: "jget (lh_pools (end_slot n lh)) aid = Some p" for aid p
      proof -
        from q have q': "pool_ok (lh_directory lh) aid p" using host_okD(3) [OF ok] by (simp add: pools)
        then have "m \<noteq> did \<and> jhas (lh_directory lh) m" if "m \<in> set (wp_members p)" for m
          using that d unfolding pool_ok_def by (metis actor_id_ne_member)
        then show ?thesis by (intro pool_ok_mono [OF q']) (simp add: dir jhas_def)
      qed
      show "\<exists>ref. wf_ref ref \<and> stateless_ref defs ref \<and> aid = actor_id ref" if "jget (lh_pools (end_slot n lh)) aid = Some p" for aid p
        using host_okD(4) [OF ok] that by (simp add: pools)
    qed
  next
    case True
    define aid where "aid = actor_id (av_ref (lh_activations lh ! n))"
    from True idn obtain k p where k: "did = member_id aid k" "jget (lh_pools lh) aid = Some p" "did \<in> set (wp_members p)"
      by (auto simp: id_ok_def aid_def)
    have pools: "jget (lh_pools (end_slot n lh)) b = (if b \<noteq> aid then jget (lh_pools lh) b
        else if remove1 did (wp_members p) = [] then None else Some (p\<lparr>wp_members := remove1 did (wp_members p)\<rparr>))" for b
      using k forget_member_pools [of aid k] by (simp add: end_slot_def Let_def did_def [symmetric])
    note P = host_okD(3) [OF ok k(2), unfolded pool_ok_def]
    show ?thesis
    proof (rule host_okI [OF slots])
      show "id_ok defs (end_slot n lh) e (av_ref (lh_activations (end_slot n lh) ! slot_activation t))"
        if t: "jget (lh_directory (end_slot n lh)) e = Some t" for e t
      proof -
        from t have t': "e \<noteq> did" "jget (lh_directory lh) e = Some t" by (simp_all add: dir split: if_splits)
        let ?r = "av_ref (lh_activations lh ! slot_activation t)"
        from host_okD(2) [OF ok t'(2)] have i: "id_ok defs lh e ?r" .
        have "id_ok defs (end_slot n lh) e ?r"
        proof (cases "stateless_ref defs ?r \<and> actor_id ?r = aid")
          case True
          with i k(2) obtain j where j: "e = member_id aid j" "e \<in> set (wp_members p)" by (auto simp: id_ok_def)
          then have "e \<in> set (remove1 did (wp_members p))" using t'(1) by simp
          then have "remove1 did (wp_members p) \<noteq> []" by auto
          with True i j t'(1) show ?thesis by (simp add: id_ok_def pools)
        next
          case False
          with i show ?thesis by (auto simp: id_ok_def pools)
        qed
        then show ?thesis by (simp add: fr)
      qed
      show "pool_ok (lh_directory (end_slot n lh)) b q" if q: "jget (lh_pools (end_slot n lh)) b = Some q" for b q
      proof (cases "b = aid")
        case True
        with q pools have q': "q = p\<lparr>wp_members := remove1 did (wp_members p)\<rparr>" by (simp split: if_splits)
        have "live_members (lh_directory (end_slot n lh)) (remove1 did (wp_members p))
            \<le> live_members (lh_directory lh) (remove1 did (wp_members p))" by (rule live_members_mono) (simp add: dir)
        also have "\<dots> \<le> live_members (lh_directory lh) (wp_members p)" by (rule live_members_remove1)
        finally have "live_members (lh_directory (end_slot n lh)) (remove1 did (wp_members p)) \<le> wp_cap p" using P by simp
        moreover have "jhas (lh_directory (end_slot n lh)) m \<and> (\<exists>k < wp_seq p. m = member_id aid k)"
          if "m \<in> set (remove1 did (wp_members p))" for m
          using that P by (auto simp: jhas_def dir)
        ultimately show ?thesis using P True q' by (simp add: pool_ok_def distinct_remove1)
      next
        case False
        with q pools have q': "pool_ok (lh_directory lh) b q" using host_okD(3) [OF ok] by simp
        then have "m \<noteq> did \<and> jhas (lh_directory lh) m" if "m \<in> set (wp_members q)" for m
          using that False k(1) unfolding pool_ok_def by (metis member_id_inject)
        then show ?thesis by (intro pool_ok_mono [OF q']) (simp add: dir jhas_def)
      qed
      show "\<exists>ref. wf_ref ref \<and> stateless_ref defs ref \<and> b = actor_id ref" if "jget (lh_pools (end_slot n lh)) b = Some q" for b q
        using host_okD(4) [OF ok] that k(2) by (auto simp: pools split: if_splits)
    qed
  qed
qed

subsection \<open>The pick\<close>

definition active_members :: "local_host \<Rightarrow> string list \<Rightarrow> nat list" where
  "active_members lh ms = concat (map (\<lambda>m. case jget (lh_directory lh) m of Some (Active n) \<Rightarrow> [n] | _ \<Rightarrow> []) ms)"

definition coming_members :: "local_host \<Rightarrow> string list \<Rightarrow> nat list" where
  "coming_members lh ms = concat (map (\<lambda>m. case jget (lh_directory lh) m of Some (Activating n) \<Rightarrow> [n] | _ \<Rightarrow> []) ms)"

lemma arg_min_list_pair: "arg_min_list f (x # y # zs) = arg_min_list f ((if f y < f x then y else x) # zs)"
  for f :: "'a \<Rightarrow> 'b :: linorder"
  by (cases zs) (auto simp: Let_def)

lemma pool_scan_live:
  "snd (snd (pool_scan lh ms best coming live)) = live + live_members (lh_directory lh) ms"
proof (induction ms arbitrary: best coming live)
  case (Cons m ms)
  then show ?case by (auto simp: live_members_def split: option.splits slot.splits)
qed (simp add: live_members_def)

lemma pool_scan_coming:
  "fst (snd (pool_scan lh ms best coming live)) = (case coming of Some c \<Rightarrow> Some c
     | None \<Rightarrow> (case coming_members lh ms of [] \<Rightarrow> None | c # _ \<Rightarrow> Some c))"
proof (induction ms arbitrary: best coming live)
  case (Cons m ms)
  then show ?case by (auto simp: coming_members_def split: option.splits slot.splits)
qed (auto simp: coming_members_def split: option.splits)

lemma pool_scan_best_Some:
  "fst (pool_scan lh ms (Some b) coming live) = Some (arg_min_list (depth_of lh) (b # active_members lh ms))"
proof (induction ms arbitrary: b coming live)
  case (Cons m ms)
  show ?case
  proof (cases "\<exists>n. jget (lh_directory lh) m = Some (Active n)")
    case True
    then obtain n where n: "jget (lh_directory lh) m = Some (Active n)" by blast
    then have "active_members lh (m # ms) = n # active_members lh ms" by (simp add: active_members_def)
    with n show ?thesis
      by (simp only: pool_scan.simps arg_min_list_pair option.case slot.case) (simp add: Cons.IH)
  next
    case False
    then have "active_members lh (m # ms) = active_members lh ms"
      by (auto simp: active_members_def split: option.splits slot.splits)
    with False show ?thesis by (auto simp: Cons.IH split: option.splits slot.splits)
  qed
qed (simp add: active_members_def)

lemma pool_scan_best:
  "fst (pool_scan lh ms None coming live) =
     (case active_members lh ms of [] \<Rightarrow> None | a # as \<Rightarrow> Some (arg_min_list (depth_of lh) (a # as)))"
proof (induction ms arbitrary: coming live)
  case (Cons m ms)
  then show ?case
    by (auto simp: active_members_def pool_scan_best_Some split: option.splits slot.splits list.splits)
qed (simp add: active_members_def)

lemma live_members_split: "live_members (lh_directory lh) ms = length (active_members lh ms) + length (coming_members lh ms)"
proof (induction ms)
  case (Cons m ms)
  then show ?case
    by (cases "jget (lh_directory lh) m")
      (auto simp: live_members_def active_members_def coming_members_def split: slot.splits)
qed (simp add: live_members_def active_members_def coming_members_def)

text \<open>The pick in one equation, with the lists of the members in their phases.\<close>

lemma pool_target_eq:
  "pool_target aid p ref now lh =
     (let act = active_members lh (wp_members p); com = coming_members lh (wp_members p);
          spin = (Joins (length (lh_activations lh)), snd (spin_member aid p ref now lh))
      in if \<exists>n \<in> set act. depth_of lh n = 0 then (Ready (hd (filter (\<lambda>n. depth_of lh n = 0) act)), lh)
         else if length act + length com < wp_cap p then spin
         else if act \<noteq> [] then (Ready (arg_min_list (depth_of lh) act), lh)
         else if com \<noteq> [] then (Joins (hd com), lh) else spin)"
proof -
  have am: "depth_of lh (arg_min_list (depth_of lh) act) = 0 \<longleftrightarrow> (\<exists>n \<in> set act. depth_of lh n = 0)"
    and am2: "\<exists>n \<in> set act. depth_of lh n = 0 \<Longrightarrow> arg_min_list (depth_of lh) act = hd (filter (\<lambda>n. depth_of lh n = 0) act)"
    if "act \<noteq> []" for act
  proof -
    show "depth_of lh (arg_min_list (depth_of lh) act) = 0 \<longleftrightarrow> (\<exists>n \<in> set act. depth_of lh n = 0)"
      using that f_arg_min_list_f [OF that, of "depth_of lh"] arg_min_list_in [OF that, of "depth_of lh"] Min_le [of "depth_of lh ` set act"]
      by (metis finite_imageI finite_set image_eqI le_zero_eq)
    show "\<exists>n \<in> set act. depth_of lh n = 0 \<Longrightarrow> arg_min_list (depth_of lh) act = hd (filter (\<lambda>n. depth_of lh n = 0) act)"
      using that
    proof (induction act rule: induct_list012)
      case (3 x y zs)
      let ?m = "arg_min_list (depth_of lh) (y # zs)"
      have eq: "arg_min_list (depth_of lh) (x # y # zs) = (if depth_of lh x \<le> depth_of lh ?m then x else ?m)" by (simp add: Let_def)
      show ?case
      proof (cases "depth_of lh x = 0")
        case True
        then show ?thesis by (simp add: Let_def)
      next
        case False
        with 3 have ex: "\<exists>n \<in> set (y # zs). depth_of lh n = 0" by auto
        then have m0: "depth_of lh ?m = 0"
          using f_arg_min_list_f [of "y # zs" "depth_of lh"] Min_le [of "depth_of lh ` set (y # zs)"]
          by (metis finite_imageI finite_set image_eqI le_zero_eq list.discI)
        have "?m = hd (filter (\<lambda>n. depth_of lh n = 0) (y # zs))" using "3.IH"(2) [OF ex] by simp
        with False m0 show ?thesis unfolding eq by simp
      qed
    qed auto
  qed
  obtain best coming live where s: "pool_scan lh (wp_members p) None None 0 = (best, coming, live)" by (rule prod_cases3)
  let ?act = "active_members lh (wp_members p)" and ?com = "coming_members lh (wp_members p)"
  have b: "best = (if ?act = [] then None else Some (arg_min_list (depth_of lh) ?act))"
    using pool_scan_best [of lh "wp_members p" None 0] s by (simp split: list.splits)
  have c: "coming = (if ?com = [] then None else Some (hd ?com))"
    using pool_scan_coming [of lh "wp_members p" None None 0] s by (simp split: list.splits)
  have l: "live = length ?act + length ?com"
    using pool_scan_live [of lh "wp_members p" None None 0] s by (simp add: live_members_split)
  have spin: "(case spin_member aid p ref now lh of (n, lh') \<Rightarrow> (Joins n, lh')) = (Joins (length (lh_activations lh)), snd (spin_member aid p ref now lh))"
    by (simp add: spin_member_def Let_def)
  show ?thesis
  proof (cases "?act = []")
    case True
    then show ?thesis unfolding pool_target_def s by (simp add: b c l spin Let_def)
  next
    case False
    then show ?thesis unfolding pool_target_def s using am [OF False] am2 [OF False] by (simp add: b c l spin Let_def)
  qed
qed

subsection \<open>Steps of a local host\<close>

lemma host_ok_pool_target:
  assumes ok: "host_ok defs lh" and p: "jget (lh_pools lh) (actor_id ref) = Some p" and r: "wf_ref ref"
  shows "host_ok defs (snd (pool_target (actor_id ref) p ref now lh))"
proof -
  from host_okD(4) [OF ok p] r have st: "stateless_ref defs ref" by (metis wf_ref_inject)
  have "1 \<le> wp_cap p" using host_okD(3) [OF ok p] by (simp add: pool_ok_def)
  moreover have "host_ok defs (snd (spin_member (actor_id ref) p ref now lh))"
    if "length (active_members lh (wp_members p)) + length (coming_members lh (wp_members p)) < wp_cap p"
    by (rule host_ok_spin [OF ok p _ r st refl]) (use that live_members_split [of lh] in simp)
  ultimately show ?thesis using ok by (simp add: pool_target_eq Let_def)
qed

lemma host_ok_ensure_pool:
  assumes ok: "host_ok defs lh" and r: "wf_ref ref" "defs (ref_type ref) = Some d" "df_stateless d \<noteq> None" and wf: "wf_defs defs"
  shows "host_ok defs (ensure_pool hl (actor_id ref) d lh)"
proof (cases "jget (lh_pools lh) (actor_id ref)")
  case None
  define p0 where "p0 = \<lparr>wp_cap = (case df_stateless d of Some (Some n) \<Rightarrow> n | _ \<Rightarrow> default_max_local (hl_cores hl)), wp_seq = 0, wp_members = []\<rparr>"
  have eq: "ensure_pool hl (actor_id ref) d lh = lh\<lparr>lh_pools := jset (lh_pools lh) (actor_id ref) p0\<rparr>"
    using None by (simp add: ensure_pool_def p0_def)
  have "df_stateless d \<noteq> Some (Some 0)" using wf r(2) by (auto simp: wf_defs_def)
  then have cap: "1 \<le> wp_cap p0" using r(3)
    by (auto simp: p0_def default_max_local_def split: option.splits)
  show ?thesis unfolding eq
  proof (rule host_okI)
    show "slots_ok (lh\<lparr>lh_pools := jset (lh_pools lh) (actor_id ref) p0\<rparr>)"
      using slots_okD [OF host_okD(1) [OF ok]] by (intro slots_okI) auto
    show "id_ok defs (lh\<lparr>lh_pools := jset (lh_pools lh) (actor_id ref) p0\<rparr>) did
        (av_ref (lh_activations (lh\<lparr>lh_pools := jset (lh_pools lh) (actor_id ref) p0\<rparr>) ! slot_activation s))"
      if "jget (lh_directory (lh\<lparr>lh_pools := jset (lh_pools lh) (actor_id ref) p0\<rparr>)) did = Some s" for did s
      using host_okD(2) [OF ok, of did s] that None by (auto simp: id_ok_def)
    show "pool_ok (lh_directory (lh\<lparr>lh_pools := jset (lh_pools lh) (actor_id ref) p0\<rparr>)) aid p"
      if "jget (lh_pools (lh\<lparr>lh_pools := jset (lh_pools lh) (actor_id ref) p0\<rparr>)) aid = Some p" for aid p
      using host_okD(3) [OF ok, of aid p] that cap by (auto simp: pool_ok_def live_members_def p0_def split: if_splits)
    show "\<exists>ref. wf_ref ref \<and> stateless_ref defs ref \<and> aid = actor_id ref"
      if "jget (lh_pools (lh\<lparr>lh_pools := jset (lh_pools lh) (actor_id ref) p0\<rparr>)) aid = Some p" for aid p
      using host_okD(4) [OF ok, of aid p] that r by (auto simp: stateless_ref_def split: if_splits)
  qed
qed (use ok in \<open>simp add: ensure_pool_def\<close>)

lemma ensure_pool_there: "jget (lh_pools (ensure_pool hl aid d lh)) aid \<noteq> None"
  by (auto simp: ensure_pool_def split: option.splits)

lemma host_ok_activation_for:
  assumes ok: "host_ok defs lh" and r: "wf_ref ref" and wf: "wf_defs defs"
  shows "host_ok defs (snd (activation_for hl defs ref now lh))"
proof (cases "jget (lh_pools lh) (actor_id ref)")
  case (Some p)
  with host_ok_pool_target [OF ok Some r, of now] show ?thesis by (simp add: activation_for_def Let_def case_prod_unfold)
next
  case no_pool: None
  show ?thesis
  proof (cases "jget (lh_directory lh) (actor_id ref)")
    case no_slot: None
    show ?thesis
    proof (cases "defs (ref_type ref)")
      case d: (Some d)
      show ?thesis
      proof (cases "df_stateless d = None")
        case True
        then have "\<not> stateless_ref defs ref" using d by (simp add: stateless_ref_def)
        from host_ok_reserve [OF ok r this no_slot] True d no_pool no_slot show ?thesis by (simp add: activation_for_def Let_def)
      next
        case False
        from host_ok_ensure_pool [OF ok r d False wf] have ok1: "host_ok defs (ensure_pool hl (actor_id ref) d lh)" .
        obtain p where p: "jget (lh_pools (ensure_pool hl (actor_id ref) d lh)) (actor_id ref) = Some p"
          using ensure_pool_there by blast
        from host_ok_pool_target [OF ok1 p r, of now] p False d no_pool no_slot show ?thesis
          by (auto simp: activation_for_def Let_def case_prod_unfold)
      qed
    qed (use ok no_pool no_slot in \<open>simp add: activation_for_def Let_def\<close>)
  qed (use ok no_pool in \<open>auto simp: activation_for_def Let_def split: slot.splits\<close>)
qed

lemma same_slots_turns:
  "same_slots lh (lh\<lparr>lh_activations := (lh_activations lh)[n := (lh_activations lh ! n)\<lparr>av_turns := t\<rparr>], lh_load := l\<rparr>)"
  by (cases "n < length (lh_activations lh)") (auto simp: same_slots_def nth_list_update)

lemma same_slots_enqueue: "same_slots lh (snd (enqueue hl d i call n lh))"
proof -
  have "same_slots lh (lh\<lparr>lh_refusals := x\<rparr>)" for x by (simp add: same_slots_def)
  then show ?thesis using same_slots_turns
    by (auto simp: enqueue_def Let_def split: option.splits prod.splits)
qed

lemma host_ok_on_target:
  "host_ok defs (snd r) \<Longrightarrow> host_ok defs (snd (on_target hl defs ref i call r))"
  by (cases r) (auto simp: on_target_def intro: host_ok_frame same_slots_enqueue split: sum.splits target.splits option.splits)

lemma host_ok_deactivate:
  assumes "host_ok defs lh"
  shows "host_ok defs (snd (deactivate_by_id did lh))"
proof -
  have "host_ok defs (lh\<lparr>lh_directory := jset (lh_directory lh) did (Deactivating n)\<rparr>)"
    if "jget (lh_directory lh) did = Some (Active n)" for n
    by (rule host_ok_phase [OF assms that]) simp_all
  with assms show ?thesis by (auto simp: deactivate_by_id_def split: option.splits slot.splits)
qed

lemma host_ok_drop_all: "host_ok defs lh \<Longrightarrow> host_ok defs (drop_all dids lh)"
  by (induction dids arbitrary: lh) (auto simp: drop_all_def host_ok_deactivate)

lemma host_ok_activated:
  assumes "host_ok defs lh"
  shows "host_ok defs (activated n lh)"
  using assms host_ok_phase [OF assms, of "av_id (lh_activations lh ! n)" "Activating n" "Active n"]
  by (auto simp: activated_def Let_def)

text \<open>
  Everything a host does outside a forced stop: calls of the four shapes, a waiting call that goes on,
  activations that succeed and fail, turns, deactivations, sweeps and the beginning of a stop.
\<close>

inductive local_step :: "host_limits \<Rightarrow> (string \<Rightarrow> actor_def option) \<Rightarrow> local_host \<Rightarrow> local_host \<Rightarrow> bool" for hl defs where
  is_called: "wf_ref ref \<Longrightarrow> local_step hl defs lh (snd (local_dispatch hl defs ref now i call lh))"
| is_told: "wf_ref ref \<Longrightarrow> local_step hl defs lh (snd (local_one_way hl defs ref now i call lh))"
| is_streamed: "wf_ref ref \<Longrightarrow> local_step hl defs lh (snd (local_stream hl defs ref now call lh))"
| is_watched: "wf_ref ref \<Longrightarrow> local_step hl defs lh (snd (local_watch hl defs ref now call lh))"
| goes_on: "wf_ref ref \<Longrightarrow> local_step hl defs lh (snd (on_target hl defs ref i call (Inr (Ready n), lh)))"
| looks_again: "wf_ref ref \<Longrightarrow> local_step hl defs lh (snd (on_target hl defs ref i call (activation_for hl defs ref now lh)))"
| succeeds: "local_step hl defs lh (activated n lh)"
| breaks: "jget (lh_directory lh) (av_id (lh_activations lh ! n)) = Some (Activating n) \<Longrightarrow> local_step hl defs lh (activation_failed n lh)"
| winds_down: "local_step hl defs lh (snd (deactivate_by_id did lh))"
| has_drained: "jget (lh_directory lh) (av_id (lh_activations lh ! n)) = Some (Deactivating n) \<Longrightarrow> local_step hl defs lh (deactivated n lh)"
| has_turn: "turns_progress (av_turns (lh_activations lh ! n), lh_load lh) (t, l)
    \<Longrightarrow> local_step hl defs lh (lh\<lparr>lh_activations := (lh_activations lh)[n := (lh_activations lh ! n)\<lparr>av_turns := t\<rparr>], lh_load := l\<rparr>)"
| is_held: "local_step hl defs lh (lh\<lparr>lh_activations := (lh_activations lh)[n := (lh_activations lh ! n)\<lparr>av_kept := k, av_last := w\<rparr>]\<rparr>)"
| is_swept: "local_step hl defs lh (sweep defs now default_idle cap lh)"
| is_stopped: "local_step hl defs lh (stop_begin lh)"

definition local_start :: "local_host \<Rightarrow> bool" where
  "local_start lh \<longleftrightarrow> lh = new_local_host"

interpretation local_machine: invariant_machine local_start "local_step hl defs" "\<lambda>lh. wf_defs defs \<longrightarrow> host_ok defs lh"
  for hl defs
proof
  show "wf_defs defs \<longrightarrow> host_ok defs lh" if "local_start lh" for lh
    using that by (auto simp: local_start_def new_local_host_def intro!: host_okI slots_okI)
  show "wf_defs defs \<longrightarrow> host_ok defs lh'" if inv: "wf_defs defs \<longrightarrow> host_ok defs lh" and step: "local_step hl defs lh lh'" for lh lh'
  proof
    assume wf: "wf_defs defs"
    with inv have ok: "host_ok defs lh" by blast
    note act = host_ok_activation_for [OF ok _ wf]
    have open_ok: "host_ok defs (snd (case activation_for hl defs ref now lh of
          (Inl e, l) \<Rightarrow> (Open_Refused e, l) | (Inr t, l) \<Rightarrow> (Opens_On t False, l)))" if "wf_ref ref" for ref now
      using act [OF that, of hl now] by (auto split: prod.splits sum.splits)
    have slow: "host_ok defs (snd (dispatch_slow hl defs ref now i call lh))" if "wf_ref ref" for ref now i call
      using ok host_ok_on_target [OF act [OF that]] by (auto simp: dispatch_slow_def split: sum.splits option.splits)
    from step show "host_ok defs lh'"
    proof cases
      case (is_called ref now i call)
      have "host_ok defs (snd (pool_target (actor_id ref) p ref now lh))" if "jget (lh_pools lh) (actor_id ref) = Some p" for p
        by (rule host_ok_pool_target [OF ok that is_called(2)])
      then have pool: "host_ok defs (snd (on_target hl defs ref i call (Inr (fst (pool_target (actor_id ref) p ref now lh)),
          snd (pool_target (actor_id ref) p ref now lh))))" if "jget (lh_pools lh) (actor_id ref) = Some p" for p
        using that host_ok_on_target [of defs "(Inr (fst (pool_target (actor_id ref) p ref now lh)),
          snd (pool_target (actor_id ref) p ref now lh))" hl ref i call] by simp
      show ?thesis
        unfolding is_called(1)
        using ok slow [OF is_called(2)] pool host_ok_on_target [of defs "(Inr (Ready _), lh)"]
        by (auto simp: local_dispatch_def Let_def case_prod_unfold split: option.splits slot.splits)
    next
      case (is_told ref now i call)
      show ?thesis
        unfolding is_told(1) using ok act [OF is_told(2), of hl now] host_ok_on_target
        by (auto simp: local_one_way_def split: prod.splits sum.splits target.splits)
    next
      case (is_streamed ref now call)
      then show ?thesis using ok open_ok by (auto simp: local_stream_def split: sum.splits option.splits)
    next
      case (is_watched ref now call)
      then show ?thesis using ok open_ok by (auto simp: local_watch_def split: sum.splits option.splits)
    next
      case (goes_on ref i call n)
      then show ?thesis using host_ok_on_target [of defs "(Inr (Ready n), lh)"] ok by simp
    next
      case (looks_again ref i call now)
      then show ?thesis using host_ok_on_target act by blast
    next
      case (breaks n)
      then show ?thesis using host_ok_end [OF ok breaks(2)] ends_are_end_slot(1) [OF breaks(2)] by simp
    next
      case (has_drained n)
      then show ?thesis using host_ok_end [OF ok has_drained(2)] ends_are_end_slot(2) [OF has_drained(2)] by simp
    next
      case (has_turn n t l)
      then show ?thesis using host_ok_frame [OF ok same_slots_turns] by simp
    next
      case (is_held n k w)
      have "same_slots lh lh'"
        unfolding is_held by (cases "n < length (lh_activations lh)") (auto simp: same_slots_def nth_list_update)
      then show ?thesis using host_ok_frame [OF ok] by blast
    next
      case is_stopped
      have "same_slots lh (lh\<lparr>lh_shutting := True\<rparr>)" by (simp add: same_slots_def)
      with is_stopped show ?thesis using host_ok_frame [OF ok] host_ok_drop_all by (simp add: stop_begin_def)
    qed (use ok host_ok_activated host_ok_deactivate host_ok_drop_all in \<open>auto simp: sweep_def Let_def\<close>)
  qed
qed

subsection \<open>What a sweep leaves\<close>

definition active_of :: "(string, slot) jmap \<Rightarrow> (string \<times> nat) list" where
  "active_of dir = concat (map (\<lambda>(did, s). case s of Active n \<Rightarrow> [(did, n)] | _ \<Rightarrow> []) dir)"

lemma active_slots_of: "active_slots lh = active_of (lh_directory lh)"
  by (simp add: active_slots_def active_of_def)

lemma active_of_Cons: "active_of ((did, s) # dir) = (case s of Active n \<Rightarrow> [(did, n)] | _ \<Rightarrow> []) @ active_of dir"
  by (simp add: active_of_def)

lemma active_of_keys: "fst ` set (active_of dir) \<subseteq> set (jkeys dir)"
proof (induction dir)
  case (Cons p dir)
  then show ?case by (cases p; cases "snd p") (auto simp: active_of_Cons)
qed (simp add: active_of_def)

lemma distinct_active_of: "distinct (jkeys dir) \<Longrightarrow> distinct (map fst (active_of dir))"
proof (induction dir)
  case (Cons p dir)
  then show ?case using active_of_keys [of dir] by (cases p; cases "snd p") (auto simp: active_of_Cons)
qed (simp add: active_of_def)

lemma active_of_mem: "distinct (jkeys dir) \<Longrightarrow> (did, n) \<in> set (active_of dir) \<longleftrightarrow> jget dir did = Some (Active n)"
proof (induction dir)
  case (Cons p dir)
  have k: "(did, n) \<in> set (active_of dir) \<Longrightarrow> did \<in> set (jkeys dir)" using active_of_keys [of dir] by force
  from Cons k show ?case by (cases p; cases "snd p") (auto simp: active_of_Cons)
qed (simp add: active_of_def)

lemma active_of_dropped:
  "distinct (jkeys dir) \<Longrightarrow> jget dir did = Some (Active n)
     \<Longrightarrow> active_of (jset dir did (Deactivating n)) = filter (\<lambda>p. fst p \<noteq> did) (active_of dir)"
proof (induction dir)
  case (Cons p dir)
  obtain d s where p: "p = (d, s)" by force
  show ?case
  proof (cases "d = did")
    case True
    with Cons.prems p have "did \<notin> fst ` set (active_of dir)" using active_of_keys [of dir] by auto
    then have "filter (\<lambda>p. fst p \<noteq> did) (active_of dir) = active_of dir" by (auto simp: filter_id_conv)
    with True p Cons.prems show ?thesis by (simp add: active_of_Cons)
  next
    case False
    with Cons p show ?thesis by (cases s) (auto simp: active_of_Cons)
  qed
qed simp

lemma deactivate_frame [simp]:
  "lh_activations (snd (deactivate_by_id did lh)) = lh_activations lh"
  "lh_pools (snd (deactivate_by_id did lh)) = lh_pools lh"
  "lh_alive (snd (deactivate_by_id did lh)) = lh_alive lh"
  by (auto simp: deactivate_by_id_def split: option.splits slot.splits)

lemma drop_all_frame [simp]: "lh_activations (drop_all dids lh) = lh_activations lh" "lh_alive (drop_all dids lh) = lh_alive lh"
  by (induction dids arbitrary: lh) (auto simp: drop_all_def)

lemma distinct_deactivate: "distinct (jkeys (lh_directory lh)) \<Longrightarrow> distinct (jkeys (lh_directory (snd (deactivate_by_id did lh))))"
  by (auto simp: deactivate_by_id_def distinct_jset split: option.splits slot.splits)

lemma distinct_drop_all: "distinct (jkeys (lh_directory lh)) \<Longrightarrow> distinct (jkeys (lh_directory (drop_all dids lh)))"
  by (induction dids arbitrary: lh) (auto simp: drop_all_def distinct_deactivate)

lemma active_slots_deactivate:
  assumes "distinct (jkeys (lh_directory lh))"
  shows "active_slots (snd (deactivate_by_id did lh)) = filter (\<lambda>p. fst p \<noteq> did) (active_slots lh)"
proof (cases "\<exists>n. jget (lh_directory lh) did = Some (Active n)")
  case True
  then show ?thesis using active_of_dropped [OF assms] by (auto simp: deactivate_by_id_def active_slots_of)
next
  case False
  then have "did \<notin> fst ` set (active_slots lh)" using active_of_mem [OF assms] by (auto simp: active_slots_of)
  then have "filter (\<lambda>p. fst p \<noteq> did) (active_slots lh) = active_slots lh" by (auto simp: filter_id_conv)
  with False show ?thesis by (auto simp: deactivate_by_id_def split: option.splits slot.splits)
qed

lemma active_slots_drop_all:
  "distinct (jkeys (lh_directory lh)) \<Longrightarrow> active_slots (drop_all dids lh) = filter (\<lambda>p. fst p \<notin> set dids) (active_slots lh)"
proof (induction dids arbitrary: lh)
  case (Cons did dids)
  have "drop_all (did # dids) lh = drop_all dids (snd (deactivate_by_id did lh))" by (simp add: drop_all_def)
  with Cons.IH [OF distinct_deactivate [OF Cons.prems]] active_slots_deactivate [OF Cons.prems, of did]
  show ?case by (auto intro!: filter_cong)
qed (simp add: drop_all_def)

lemma sorted_take_le:
  fixes f :: "'a \<Rightarrow> 'b :: linorder"
  assumes "x \<in> set (take k (sort_key f xs))" "y \<in> set xs" "y \<notin> set (take k (sort_key f xs))"
  shows "f x \<le> f y"
proof -
  let ?s = "sort_key f xs"
  have "y \<in> set (drop k ?s)" using assms(2,3) append_take_drop_id [of k ?s] by (metis set_append set_sort Un_iff)
  moreover have "sorted (map f (take k ?s) @ map f (drop k ?s))"
    by (metis append_take_drop_id map_append sorted_sort_key)
  ultimately show ?thesis using assms(1) by (auto simp: sorted_append)
qed

text \<open>The capacity pass alone, on a directory with distinct keys.\<close>

lemma capacity_pass:
  assumes d: "distinct (jkeys (lh_directory lh))" and v: "victims = sweep_capacity cap lh" and cap: "0 < cap"
  shows "did \<in> set victims \<Longrightarrow> \<exists>n. (did, n) \<in> set (active_slots lh) \<and> idle_now lh n"
    and "did \<in> set victims \<Longrightarrow> (did, n) \<in> set (active_slots lh) \<Longrightarrow> (did', n') \<in> set (active_slots lh) \<Longrightarrow> did' \<notin> set victims
       \<Longrightarrow> idle_now lh n' \<Longrightarrow> av_last (lh_activations lh ! n) \<le> av_last (lh_activations lh ! n')"
    and "length (filter (\<lambda>p. fst p \<notin> set victims) (active_slots lh)) \<le> cap
       \<or> (\<forall>p \<in> set (filter (\<lambda>p. fst p \<notin> set victims) (active_slots lh)). \<not> idle_now lh (snd p))"
proof -
  define active where "active = active_slots lh"
  define f where "f = (\<lambda>p :: string \<times> nat. av_last (lh_activations lh ! snd p))"
  define cands where "cands = filter (\<lambda>p. idle_now lh (snd p)) active"
  define k where "k = length active - cap"
  have vic: "victims = map fst (take k (sort_key f cands))"
    unfolding v sweep_capacity_def Let_def active_def cands_def k_def f_def using cap by (simp add: case_prod_unfold)
  have da: "distinct (map fst active)" unfolding active_def active_slots_of by (rule distinct_active_of [OF d])
  have dc: "distinct (map fst (sort_key f cands))"
    unfolding distinct_map using da by (auto simp: cands_def distinct_map inj_on_def)
  have mem: "p \<in> set (take k (sort_key f cands)) \<longleftrightarrow> p \<in> set active \<and> fst p \<in> set victims" for p
  proof
    assume "p \<in> set (take k (sort_key f cands))"
    then show "p \<in> set active \<and> fst p \<in> set victims" using set_take_subset [of k "sort_key f cands"]
      by (auto simp: vic cands_def)
  next
    assume p: "p \<in> set active \<and> fst p \<in> set victims"
    then obtain q where q: "q \<in> set (take k (sort_key f cands))" "fst q = fst p" by (auto simp: vic)
    then have "q \<in> set active" using set_take_subset [of k "sort_key f cands"] by (auto simp: cands_def)
    with q p da show "p \<in> set (take k (sort_key f cands))" by (metis distinct_map inj_onD)
  qed
  show "\<exists>n. (did, n) \<in> set (active_slots lh) \<and> idle_now lh n" if did: "did \<in> set victims"
  proof -
    from did obtain n where "(did, n) \<in> set (take k (sort_key f cands))" by (auto simp: vic)
    then have "(did, n) \<in> set cands" using set_take_subset [of k "sort_key f cands"] by auto
    then show ?thesis by (auto simp: cands_def active_def)
  qed
  show "av_last (lh_activations lh ! n) \<le> av_last (lh_activations lh ! n')"
    if "did \<in> set victims" "(did, n) \<in> set (active_slots lh)" "(did', n') \<in> set (active_slots lh)" "did' \<notin> set victims" "idle_now lh n'"
    using sorted_take_le [of "(did, n)" k f cands "(did', n')"] mem [of "(did, n)"] mem [of "(did', n')"] that
    by (auto simp: f_def cands_def active_def)
  show "length (filter (\<lambda>p. fst p \<notin> set victims) (active_slots lh)) \<le> cap
       \<or> (\<forall>p \<in> set (filter (\<lambda>p. fst p \<notin> set victims) (active_slots lh)). \<not> idle_now lh (snd p))"
  proof (cases "k \<le> length cands")
    case True
    have "set (map fst (filter (\<lambda>p. fst p \<in> set victims) active)) = set victims"
    proof
      show "set (map fst (filter (\<lambda>p. fst p \<in> set victims) active)) \<subseteq> set victims" by auto
      show "set victims \<subseteq> set (map fst (filter (\<lambda>p. fst p \<in> set victims) active))"
      proof
        fix did assume did: "did \<in> set victims"
        then obtain p where p: "p \<in> set (take k (sort_key f cands))" "did = fst p" unfolding vic by auto
        with mem [of p] did show "did \<in> set (map fst (filter (\<lambda>p. fst p \<in> set victims) active))" by simp
      qed
    qed
    moreover have "distinct (map fst (filter (\<lambda>p. fst p \<in> set victims) active))" "distinct victims"
      using da dc by (auto simp: distinct_map_filter vic take_map [symmetric])
    ultimately have "length (filter (\<lambda>p. fst p \<in> set victims) active) = length victims"
      by (metis distinct_card length_map)
    moreover have "length victims = k" using True by (simp add: vic)
    ultimately have "length (filter (\<lambda>p. fst p \<notin> set victims) active) = length active - k"
      using sum_length_filter_compl [of "\<lambda>p. fst p \<in> set victims" active] by simp
    also have "\<dots> \<le> cap" unfolding k_def by linarith
    finally show ?thesis unfolding active_def by (rule disjI1)
  next
    case False
    then have "take k (sort_key f cands) = sort_key f cands" by simp
    then have "\<not> idle_now lh (snd p)" if "p \<in> set active" "fst p \<notin> set victims" for p
      using mem [of p] that by (auto simp: cands_def)
    then show ?thesis by (auto simp: active_def)
  qed
qed

subsection \<open>What the operator's views show\<close>

lemma top_activations_bounded: "length (top_activations limit sb wanted now age lh) \<le> resolve_limit limit 100"
  by (simp add: top_activations_def Let_def)

lemma top_activations_rank:
  assumes "n \<in> set (top_activations limit sb None now age lh)" "(did, m) \<in> set (active_slots lh)"
    "m \<notin> set (top_activations limit sb None now age lh)"
  shows "row_value sb now age lh m \<le> row_value sb now age lh n"
proof -
  let ?rows = "sort_key (\<lambda>n. ref_type (av_ref (lh_activations lh ! n))) (sort_key (\<lambda>n. ref_key (av_ref (lh_activations lh ! n)))
     (map snd (active_slots lh)))"
  have "m \<in> set ?rows" using assms(2) by force
  from sorted_take_le [OF _ this, of n "resolve_limit limit 100" "\<lambda>n. - int (row_value sb now age lh n)"] assms(1,3)
  show ?thesis by (simp add: top_activations_def Let_def)
qed

lemma storm_warns_once:
  assumes "jget m aid = Some (retry_storm_threshold, since)" "now \<le> since + retry_storm_window_ms"
  shows "\<not> fst (note_activation_failure aid now m)"
  using assms by (simp add: note_activation_failure_def Let_def)

subsection \<open>Properties\<close>

lemma reach_host_ok: "reach local_start (local_step hl defs) lh \<Longrightarrow> wf_defs defs \<Longrightarrow> host_ok defs lh"
  using local_machine.reach_inv by blast

text \<open>
  C2. At most one activation of a stateful actor runs on a host, and a worker pool never exceeds its cap.
  Whatever calls, streams, watches, failed and successful activations, deactivations, sweeps and turns
  happen in whatever order (short of the forced drop at the end of a stop): two running activations have
  different directory ids, two of one stateful actor are the same activation, and of every pool at most
  its cap of members are activating or active, each under an id no other activation has.
\<close>

theorem one_activation_per_actor:
  assumes "reach local_start (local_step hl defs) lh" "wf_defs defs"
  shows "(\<forall>n m. n \<in> set (lh_alive lh) \<and> m \<in> set (lh_alive lh) \<and> av_id (lh_activations lh ! n) = av_id (lh_activations lh ! m) \<longrightarrow> n = m)
    \<and> (\<forall>n m. n \<in> set (lh_alive lh) \<and> m \<in> set (lh_alive lh) \<and> av_ref (lh_activations lh ! n) = av_ref (lh_activations lh ! m)
          \<and> \<not> stateless_ref defs (av_ref (lh_activations lh ! n)) \<longrightarrow> n = m)
    \<and> (\<forall>aid p. jget (lh_pools lh) aid = Some p \<longrightarrow> live_members (lh_directory lh) (wp_members p) \<le> wp_cap p)"
proof -
  note ok = reach_host_ok [OF assms]
  note S = slots_okD [OF host_okD(1) [OF ok]]
  have same: "n = m" if "n \<in> set (lh_alive lh)" "m \<in> set (lh_alive lh)" "av_id (lh_activations lh ! n) = av_id (lh_activations lh ! m)" for n m
    using S(3) [OF that(1)] S(3) [OF that(2)] that(3) by (metis option.inject)
  have aid: "av_id (lh_activations lh ! n) = actor_id (av_ref (lh_activations lh ! n))"
    if n: "n \<in> set (lh_alive lh)" "\<not> stateless_ref defs (av_ref (lh_activations lh ! n))" for n
  proof -
    from S(3) [OF n(1)] obtain s where "jget (lh_directory lh) (av_id (lh_activations lh ! n)) = Some s" "slot_activation s = n" by blast
    with host_okD(2) [OF ok this(1)] n(2) show ?thesis by (simp add: id_ok_def)
  qed
  have "n = m" if "n \<in> set (lh_alive lh)" "m \<in> set (lh_alive lh)" "av_ref (lh_activations lh ! n) = av_ref (lh_activations lh ! m)"
    "\<not> stateless_ref defs (av_ref (lh_activations lh ! n))" for n m
    using same [OF that(1,2)] aid [of n] aid [of m] that by simp
  with same host_okD(3) [OF ok] show ?thesis unfolding pool_ok_def by blast
qed

text \<open>
  The pool pick. An idle member is taken, the first in creation order; with every member busy and
  room under the cap a fresh member is activated, under an id nothing else has; at the cap the
  call queues on an active member none of which has a shorter queue; with none active it joins the
  first that is coming. A pick that does not activate leaves the host as it was.
\<close>

theorem pool_pick:
  assumes "reach local_start (local_step hl defs) lh" "wf_defs defs" "jget (lh_pools lh) aid = Some p"
    and "pool_target aid p ref now lh = (t, lh')"
  defines "act \<equiv> active_members lh (wp_members p)" and "com \<equiv> coming_members lh (wp_members p)"
  shows "if \<exists>n \<in> set act. depth_of lh n = 0 then t = Ready (hd (filter (\<lambda>n. depth_of lh n = 0) act)) \<and> lh' = lh
    else if length act + length com < wp_cap p
    then t = Joins (length (lh_activations lh)) \<and> jget (lh_directory lh) (member_id aid (wp_seq p)) = None
         \<and> jget (lh_directory lh') (member_id aid (wp_seq p)) = Some (Activating (length (lh_activations lh)))
    else if act \<noteq> [] then lh' = lh \<and> (\<exists>n \<in> set act. t = Ready n \<and> (\<forall>m \<in> set act. depth_of lh n \<le> depth_of lh m))
    else t = Joins (hd com) \<and> lh' = lh"
proof -
  note ok = reach_host_ok [OF assms(1,2)]
  have cap: "1 \<le> wp_cap p" using host_okD(3) [OF ok assms(3)] by (simp add: pool_ok_def)
  have spin: "jget (lh_directory (snd (spin_member aid p ref now lh))) (member_id aid (wp_seq p)) = Some (Activating (length (lh_activations lh)))"
    by (simp add: spin_member_def Let_def reserve_def)
  have least: "\<exists>n \<in> set act. arg_min_list (depth_of lh) act = n \<and> (\<forall>m \<in> set act. depth_of lh n \<le> depth_of lh m)" if "act \<noteq> []"
    using that f_arg_min_list_f [OF that, of "depth_of lh"] arg_min_list_in [OF that] Min_le [of "depth_of lh ` set act"] by auto
  from assms(4) have "(t, lh') = (if \<exists>n \<in> set act. depth_of lh n = 0 then (Ready (hd (filter (\<lambda>n. depth_of lh n = 0) act)), lh)
     else if length act + length com < wp_cap p then (Joins (length (lh_activations lh)), snd (spin_member aid p ref now lh))
     else if act \<noteq> [] then (Ready (arg_min_list (depth_of lh) act), lh)
     else if com \<noteq> [] then (Joins (hd com), lh) else (Joins (length (lh_activations lh)), snd (spin_member aid p ref now lh)))"
    unfolding pool_target_eq Let_def act_def com_def by (rule sym)
  then show ?thesis using cap spin fresh_member [OF ok assms(3)] least by (auto split: if_splits)
qed

lemma slot_no_pool:
  assumes ok: "host_ok defs lh" and "wf_ref ref" and s: "jget (lh_directory lh) (actor_id ref) = Some s"
  shows "jget (lh_pools lh) (actor_id ref) = None"
proof -
  let ?a = "av_ref (lh_activations lh ! slot_activation s)"
  from host_okD(2) [OF ok s] have "\<not> stateless_ref defs ?a" "actor_id ref = actor_id ?a" "wf_ref ?a"
    using assms(2) by (auto simp: id_ok_def split: if_splits)
  then have "\<not> stateless_ref defs ref" using wf_ref_inject assms(2) by metis
  then show ?thesis using host_okD(4) [OF ok, of "actor_id ref"] wf_ref_inject assms(2) by (cases "jget (lh_pools lh) (actor_id ref)") auto
qed

text \<open>
  C4. Where a call back into an actor up-stack goes. A method that is not reentrant is refused with the whole chain.
  When the target is active, a call-chain method runs inline, and an interleaving one is launched beside the running turn: it joins the
  in-flight turns, unless the turns are closed, and is never put in the serial queue nor refused by
  admission. When no active slot of it is here, a strict placement refuses every mode. On any other host a
  target that is deactivating makes the call wait for the drain, which waits for the turn that awaits the
  call; a target that is starting is joined.
\<close>

theorem call_cycle_outcomes:
  assumes "reach local_start (local_step hl defs) lh" "wf_defs defs" "wf_ref ref"
    and d: "defs (ref_type ref) = Some d" and c: "actor_id ref \<in> set (lc_chain call)"
    and r: "local_dispatch hl defs ref now i call lh = (r, lh')"
  defines "mode \<equiv> effective_reentrancy (df_reentrancy d) (lc_method call)"
  shows "if mode = Mode_None then r = Refused (deadlock_error (lc_chain call @ [actor_id ref])) \<and> lh' = lh
    else if hl_strict hl \<and> (\<forall>n. jget (lh_directory lh) (actor_id ref) \<noteq> Some (Active n)) then r = Refused (moved_error ref) \<and> lh' = lh
    else case jget (lh_directory lh) (actor_id ref) of
      Some (Active n) \<Rightarrow>
        if mode = Call_Chain then r = Inlined n \<and> lh' = lh
        else if tn_closed (av_turns (lh_activations lh ! n)) then r = Refused host_shutdown_error
        else r = Enqueued n \<and> i \<in> set (tn_inflight (av_turns (lh_activations lh' ! n)))
             \<and> tn_queue (av_turns (lh_activations lh' ! n)) = tn_queue (av_turns (lh_activations lh ! n))
    | Some (Deactivating n) \<Rightarrow> r = Waits_Out n \<and> lh' = lh
    | Some (Activating n) \<Rightarrow> r = Waits_For n \<and> lh' = lh
    | None \<Rightarrow> True"
proof -
  note ok = reach_host_ok [OF assms(1,2)]
  have chain: "lc_chain call \<noteq> []" using c by auto
  have slow: "local_dispatch hl defs ref now i call lh = dispatch_slow hl defs ref now i call lh"
    using c chain by (simp add: local_dispatch_def check_shutdown_def Let_def)
  show ?thesis
  proof (cases "mode = Mode_None")
    case True
    with r d c show ?thesis
      by (auto simp: slow dispatch_slow_def check_reentrancy_def Let_def mode_def split: reentrancy_mode.splits)
  next
    case m: False
    show ?thesis
    proof (cases "\<exists>n. jget (lh_directory lh) (actor_id ref) = Some (Active n)")
      case True
      then obtain n where n: "jget (lh_directory lh) (actor_id ref) = Some (Active n)" by blast
      note S = slots_okD [OF host_okD(1) [OF ok]]
      have nl: "n < length (lh_activations lh)" using S(2) S(4) [OF n] by simp
      have no_pool: "jget (lh_pools lh) (actor_id ref) = None" by (rule slot_no_pool [OF ok assms(3) n])
      have always: "mode \<noteq> Call_Chain \<Longrightarrow> mode = Always" using m by (cases mode) auto
      have act: "activation_for hl defs ref now lh = (Inr (Ready n), lh)"
        using n no_pool by (simp add: activation_for_def Let_def)
      have enq: "mode = Always \<Longrightarrow> (r, lh') = enqueue hl d i call n lh"
        using r d c n act by (simp add: slow dispatch_slow_def check_reentrancy_def Let_def mode_def on_target_def)
      have inter: "mode = Always \<Longrightarrow> interleaves (df_reentrancy d) (lc_method call)" by (simp add: interleaves_iff mode_def)
      show ?thesis
      proof (cases "mode = Call_Chain")
        case True
        with r d c n show ?thesis by (simp add: slow dispatch_slow_def check_reentrancy_def Let_def mode_def)
      next
        case False
        from enq [OF always [OF False]] inter [OF always [OF False]] False m n nl chain show ?thesis
          by (auto simp: enqueue_def admission_def Let_def turns_run_def split: if_splits)
      qed
    next
      case False
      with r d c m slot_no_pool [OF ok assms(3)] show ?thesis
        by (auto simp: slow dispatch_slow_def check_reentrancy_def activation_for_def on_target_def Let_def mode_def
            split: option.splits slot.splits reentrancy_mode.splits)
    qed
  qed
qed

text \<open>
  A sweep sheds exactly what it may. Nothing becomes active; an activation that leaves was idle and
  not held, and idle for its time or least recently used: no idle one that stays was used longer ago
  than one shed for capacity. With a cap, at most that many remain active, or every one that remains
  is busy or held.
\<close>

theorem sweep_is_lru:
  assumes "reach local_start (local_step hl defs) lh" "wf_defs defs" and lh': "lh' = sweep defs now idle cap lh"
  shows "set (active_slots lh') \<subseteq> set (active_slots lh)
    \<and> (\<forall>did n. (did, n) \<in> set (active_slots lh) \<and> (did, n) \<notin> set (active_slots lh') \<longrightarrow> idle_now lh n
         \<and> (idle_due defs now idle lh n
            \<or> (\<forall>did' n'. (did', n') \<in> set (active_slots lh') \<and> idle_now lh n' \<longrightarrow>
                 av_last (lh_activations lh ! n) \<le> av_last (lh_activations lh ! n'))))
    \<and> (0 < cap \<longrightarrow> length (active_slots lh') \<le> cap \<or> (\<forall>(did, n) \<in> set (active_slots lh'). \<not> idle_now lh n))"
proof -
  have d: "distinct (jkeys (lh_directory lh))" using slots_okD(6) [OF host_okD(1) [OF reach_host_ok [OF assms(1,2)]]] .
  define lh1 where "lh1 = drop_all (sweep_idle defs now idle lh) lh"
  from d have d1: "distinct (jkeys (lh_directory lh1))" unfolding lh1_def by (rule distinct_drop_all)
  have idle1: "idle_now lh1 n = idle_now lh n" and acts1: "lh_activations lh1 = lh_activations lh" for n
    by (simp_all add: lh1_def idle_now_def depth_of_def)
  define dropped where "dropped = sweep_idle defs now idle lh"
  define victims where "victims = sweep_capacity cap lh1"
  have a1: "active_slots lh1 = filter (\<lambda>p. fst p \<notin> set dropped) (active_slots lh)"
    unfolding lh1_def dropped_def by (rule active_slots_drop_all [OF d])
  have a': "active_slots lh' = filter (\<lambda>p. fst p \<notin> set victims) (active_slots lh1)"
    unfolding lh' sweep_def Let_def lh1_def [symmetric] victims_def by (rule active_slots_drop_all [OF d1])
  have uniq: "n = n'" if "(did, n) \<in> set (active_slots lh)" "(did, n') \<in> set (active_slots lh)" for did n n'
    using that active_of_mem [OF d] by (simp add: active_slots_of)
  have due: "idle_due defs now idle lh n" if "(did, n) \<in> set (active_slots lh)" "did \<in> set dropped" for did n
  proof -
    from that(2) obtain b where "(did, b) \<in> set (active_slots lh)" "idle_due defs now idle lh b"
      by (auto simp: dropped_def sweep_idle_def)
    with uniq [OF that(1), of b] show ?thesis by simp
  qed
  have novic: "victims = []" if "cap = 0" using that by (simp add: victims_def sweep_capacity_def)
  note cap = capacity_pass [OF d1 victims_def]
  have vic: "idle_now lh n \<and> (\<forall>did' n'. (did', n') \<in> set (active_slots lh') \<and> idle_now lh n' \<longrightarrow>
                 av_last (lh_activations lh ! n) \<le> av_last (lh_activations lh ! n'))"
    if m: "(did, n) \<in> set (active_slots lh1)" "did \<in> set victims" for did n
  proof -
    have c: "0 < cap" using novic m(2) by (cases cap) auto
    from cap(1) [OF c m(2)] obtain n0 where n0: "(did, n0) \<in> set (active_slots lh1)" "idle_now lh1 n0" by blast
    with uniq [of did n n0] m(1) a1 have "idle_now lh n" by (simp add: idle1)
    moreover have "av_last (lh_activations lh ! n) \<le> av_last (lh_activations lh ! n')"
      if "(did', n') \<in> set (active_slots lh')" "idle_now lh n'" for did' n'
      using cap(2) [OF c m(2,1), of did' n'] that by (simp add: a' idle1 acts1)
    ultimately show ?thesis by blast
  qed
  show ?thesis
  proof (intro conjI allI impI)
    show "set (active_slots lh') \<subseteq> set (active_slots lh)" by (auto simp: a' a1)
    fix did n assume m: "(did, n) \<in> set (active_slots lh) \<and> (did, n) \<notin> set (active_slots lh')"
    show "idle_now lh n"
      using m due [of did n] vic [of did n] by (auto simp: a' a1 idle_due_def Let_def)
    show "idle_due defs now idle lh n \<or> (\<forall>did' n'. (did', n') \<in> set (active_slots lh') \<and> idle_now lh n' \<longrightarrow>
                 av_last (lh_activations lh ! n) \<le> av_last (lh_activations lh ! n'))"
      using m due [of did n] vic [of did n] by (auto simp: a' a1)
  next
    assume "0 < cap"
    from cap(3) [OF this] show "length (active_slots lh') \<le> cap \<or> (\<forall>(did, n) \<in> set (active_slots lh'). \<not> idle_now lh n)"
      unfolding a' [symmetric] by (auto simp: idle1 case_prod_beta)
  qed
qed

text \<open>
  An activation that completes after the deadline of a stop is never stopped. The forced drop empties the
  directory and stops what is active, but an activation still loading is only forgotten: when it
  completes it runs, its turns open, in no slot, and no deactivation of the host finds it.
\<close>

theorem late_activation_survives_stop:
  assumes "jget (lh_directory lh) (av_id (lh_activations lh ! n)) = Some (Activating n)" "n \<in> set (lh_alive lh)"
    "\<not> tn_closed (av_turns (lh_activations lh ! n))" "n \<notin> snd ` set (active_slots (stop_begin lh))"
  defines "late \<equiv> activated n (stop_timeout (stop_begin lh))"
  shows "n \<in> set (lh_alive late) \<and> \<not> tn_closed (av_turns (lh_activations late ! n))
    \<and> active_slots late = [] \<and> (\<forall>did. deactivate_by_id did late = (Nothing_To_Drain, late))"
proof -
  have force: "lh_alive (fold force_stop ns l) = filter (\<lambda>m. m \<notin> set ns) (lh_alive l)
     \<and> (n \<notin> set ns \<longrightarrow> lh_activations (fold force_stop ns l) ! n = lh_activations l ! n)" for ns l
  proof (induction ns arbitrary: l)
    case (Cons m ns)
    have "removeAll m xs = filter (\<lambda>x. x \<noteq> m) xs" for xs :: "nat list" by (induction xs) auto
    with Cons [of "force_stop m l"] show ?case by (auto simp: force_stop_def intro!: filter_cong)
  qed simp
  let ?l = "stop_begin lh"
  have l: "lh_alive ?l = lh_alive lh" "lh_activations ?l = lh_activations lh" by (simp_all add: stop_begin_def)
  have dropped: "lh_directory (stop_timeout ?l) = []" by (simp add: stop_timeout_def)
  have "late = stop_timeout ?l" unfolding late_def activated_def Let_def dropped by simp
  with force [of "map snd (active_slots ?l)" ?l] assms(2,3,4) l dropped show ?thesis
    by (auto simp: stop_timeout_def active_slots_def deactivate_by_id_def)
qed

subsection \<open>Witnesses\<close>

text \<open>A host with a stateful actor and a worker of two members; the first member is busy.\<close>

definition demo_defs :: "string \<Rightarrow> actor_def option" where
  "demo_defs type =
     (if type = ''cart'' then Some \<lparr>df_stateless = None, df_reentrancy = \<lparr>ro_reentrant = D_Bool True, ro_methods = M_Undefined\<rparr>,
        df_streams = [], df_idle_after = None, df_max_queued = None\<rparr>
      else if type = ''calc'' then Some \<lparr>df_stateless = Some (Some 2), df_reentrancy = \<lparr>ro_reentrant = D_Undefined, ro_methods = M_Undefined\<rparr>,
        df_streams = [], df_idle_after = None, df_max_queued = None\<rparr>
      else None)"

definition demo_limits :: host_limits where
  "demo_limits = \<lparr>hl_strict = True, hl_max_queued = 0, hl_max_inflight = 0, hl_cores = None\<rparr>"

definition cart_ref :: actor_ref where "cart_ref = \<lparr>ref_type = ''cart'', ref_key = ''7''\<rparr>"

definition calc_ref :: actor_ref where "calc_ref = \<lparr>ref_type = ''calc'', ref_key = ''x''\<rparr>"

definition entering :: local_call where
  "entering = \<lparr>lc_chain = [], lc_method = ''m'', lc_one_way = False\<rparr>"

definition demo_busy :: local_host where
  "demo_busy = snd (on_target demo_limits demo_defs calc_ref 1 entering
     (Inr (Ready 0), activated 0 (snd (local_dispatch demo_limits demo_defs calc_ref 0 1 entering new_local_host))))"

definition demo_loading :: local_host where
  "demo_loading = snd (local_dispatch demo_limits demo_defs cart_ref 5 2 entering demo_busy)"

lemma demo_refs: "wf_ref cart_ref" "wf_ref calc_ref" "wf_defs demo_defs"
  by (auto simp: wf_ref_def cart_ref_def calc_ref_def wf_defs_def demo_defs_def)

lemma demo_busy_reached: "reach local_start (local_step demo_limits demo_defs) demo_busy"
proof -
  have "reach local_start (local_step demo_limits demo_defs) new_local_host" by (rule reach_init) (simp add: local_start_def)
  from reach_step [OF reach_step [OF reach_step [OF this is_called [OF demo_refs(2)]] succeeds] goes_on [OF demo_refs(2)]]
  show ?thesis unfolding demo_busy_def .
qed

lemma demo_loading_reached: "reach local_start (local_step demo_limits demo_defs) demo_loading"
  unfolding demo_loading_def by (rule reach_step [OF demo_busy_reached is_called [OF demo_refs(1)]])

lemma demo_active_reached: "reach local_start (local_step demo_limits demo_defs) (activated 1 demo_loading)"
  by (rule reach_step [OF demo_loading_reached succeeds])

theorem one_activation_per_actor_witness:
  "lh_alive demo_loading = [0, 1] \<and> av_id (lh_activations demo_loading ! 0) \<noteq> av_id (lh_activations demo_loading ! 1)"
proof -
  have a: "lh_alive demo_loading = [0, 1]" by code_simp
  have "(0::nat) \<noteq> 1" by simp
  with a one_activation_per_actor [OF demo_loading_reached demo_refs(3)] have "av_id (lh_activations demo_loading ! 0) \<noteq> av_id (lh_activations demo_loading ! 1)"
    by (metis list.set_intros(1,2))
  with a show ?thesis by blast
qed

theorem pool_pick_witness:
  "\<exists>p lh'. jget (lh_pools demo_busy) (actor_id calc_ref) = Some p
     \<and> pool_target (actor_id calc_ref) p calc_ref 9 demo_busy = (Joins 1, lh')
     \<and> jget (lh_directory lh') (member_id (actor_id calc_ref) 1) = Some (Activating 1)"
proof -
  define p where "p = \<lparr>wp_cap = 2, wp_seq = 1, wp_members = [member_id (actor_id calc_ref) 0]\<rparr>"
  have p: "jget (lh_pools demo_busy) (actor_id calc_ref) = Some p" unfolding p_def by code_simp
  obtain t lh' where t: "pool_target (actor_id calc_ref) p calc_ref 9 demo_busy = (t, lh')" by (rule prod.exhaust)
  have "active_members demo_busy (wp_members p) = [0]" "coming_members demo_busy (wp_members p) = []" "depth_of demo_busy 0 = 1"
    "length (lh_activations demo_busy) = 1" unfolding p_def by code_simp+
  with pool_pick [OF demo_busy_reached demo_refs(3) p t] p t show ?thesis
    by (intro exI [of _ p] exI [of _ lh']) (simp add: p_def)
qed

theorem call_cycle_outcomes_witness:
  "fst (local_dispatch demo_limits demo_defs cart_ref 9 3 (entering\<lparr>lc_chain := [actor_id cart_ref]\<rparr>) (activated 1 demo_loading)) = Inlined 1"
proof -
  let ?call = "entering\<lparr>lc_chain := [actor_id cart_ref]\<rparr>"
  obtain r lh' where r: "local_dispatch demo_limits demo_defs cart_ref 9 3 ?call (activated 1 demo_loading) = (r, lh')" by (rule prod.exhaust)
  obtain d where d: "demo_defs (ref_type cart_ref) = Some d"
    "effective_reentrancy (df_reentrancy d) (lc_method ?call) = Call_Chain"
    by (simp add: demo_defs_def cart_ref_def effective_reentrancy_def mapped_methods_def actor_mode_def)
  have slot: "jget (lh_directory (activated 1 demo_loading)) (actor_id cart_ref) = Some (Active 1)" by code_simp
  from call_cycle_outcomes [OF demo_active_reached demo_refs(3,1) d(1) _ r] d(2) slot r show ?thesis by simp
qed

theorem sweep_is_lru_witness:
  "active_slots (activated 1 demo_loading) = [(member_id (actor_id calc_ref) 0, 0), (actor_id cart_ref, 1)]
     \<and> active_slots (sweep demo_defs 10 1000 1 (activated 1 demo_loading)) = [(member_id (actor_id calc_ref) 0, 0)]
     \<and> idle_now (activated 1 demo_loading) 1"
proof -
  have a: "active_slots (activated 1 demo_loading) = [(member_id (actor_id calc_ref) 0, 0), (actor_id cart_ref, 1)]"
    "active_slots (sweep demo_defs 10 1000 1 (activated 1 demo_loading)) = [(member_id (actor_id calc_ref) 0, 0)]" by code_simp+
  have "(actor_id cart_ref, 1) \<in> set (active_slots (activated 1 demo_loading))
      \<and> (actor_id cart_ref, 1) \<notin> set (active_slots (sweep demo_defs 10 1000 1 (activated 1 demo_loading)))" unfolding a using demo_refs(1) by simp
  with sweep_is_lru [OF demo_active_reached demo_refs(3) refl, of 10 1000 1] have "idle_now (activated 1 demo_loading) 1" by blast
  with a show ?thesis by blast
qed

theorem late_activation_survives_stop_witness:
  "1 \<in> set (lh_alive (activated 1 (stop_timeout (stop_begin demo_loading))))
    \<and> active_slots (activated 1 (stop_timeout (stop_begin demo_loading))) = []"
proof -
  have "jget (lh_directory demo_loading) (av_id (lh_activations demo_loading ! 1)) = Some (Activating 1)" "1 \<in> set (lh_alive demo_loading)"
    "\<not> tn_closed (av_turns (lh_activations demo_loading ! 1))" "1 \<notin> snd ` set (active_slots (stop_begin demo_loading))"
    by code_simp+
  from late_activation_survives_stop [OF this] show ?thesis by blast
qed



end
