(* ===== verification/Save_Gate.thy ===== *)
theory Save_Gate
  imports Machines Cas_Storage
begin

section \<open>How an activation's state reaches storage\<close>

text \<open>
  \<open>host/activation.ts\<close>: versions and dirty marks, \<open>ctx.save\<close>, \<open>ctx.append\<close>, \<open>ctx.clearState\<close>, the single-flight gate
  and the one storage write, the write-behind flush, the reload after a lost write, and the flush at
  deactivation. Turns of an interleaving actor may call them at any time, so each stretch of code between two
  awaits is a step. A state is any value and \<open>app\<close> the actor's reducer. What is only there to state the
  properties: \<open>ga_pos\<close> counts the writes to the state, \<open>ga_marks\<close> are the versions that stand for a request to
  save everything up to a position, \<open>ga_landed\<close> the whole-state writes that succeeded, \<open>ga_entries\<close> the
  appended ones, \<open>ga_seen\<close> the record the etag was read with.
\<close>

subsection \<open>An append beside the whole-state write\<close>

locale append_storage = cas_storage load save clear wrap evolves ok
  for load :: "'s \<Rightarrow> string \<Rightarrow> string \<Rightarrow> (('v \<times> 'v list) \<times> string) option"
    and save :: "'s \<Rightarrow> string \<Rightarrow> string \<Rightarrow> 'v \<Rightarrow> string option \<Rightarrow> storage_error + (string \<times> 's)"
    and clear :: "'s \<Rightarrow> string \<Rightarrow> string \<Rightarrow> string option \<Rightarrow> storage_error + 's"
    and wrap :: "'v \<Rightarrow> 'v \<times> 'v list"
    and evolves :: "'s \<Rightarrow> 's \<Rightarrow> bool"
    and ok :: "'s \<Rightarrow> bool" +
  fixes append :: "'s \<Rightarrow> string \<Rightarrow> string \<Rightarrow> 'v \<Rightarrow> string \<Rightarrow> storage_error + (string \<times> 's)"
  assumes append_load: "append s t k v e = Inr (et, s') \<Longrightarrow>
      \<exists>v0 l. load s t k = Some ((v0, l), e) \<and> load s' t k = Some ((v0, l @ [v]), et)"
    and append_evolves: "append s t k v e = Inr (et, s') \<Longrightarrow> evolves s s'"

interpretation mem_app: append_storage mem_view mem_save mem_clear fresh_record mem_evolves mem_ok mem_append_text
proof unfold_locales
  show "\<exists>v0 l. mem_view s t k = Some ((v0, l), e) \<and> mem_view s' t k = Some ((v0, l @ [v]), et)"
    if "mem_append_text s t k v e = Inr (et, s')" for s s' :: "'a mem_storage" and t k v e et
    using that by (auto simp: mem_append_text_def mem_view_def mem_load_def Let_def split: option.splits if_splits)
  show "mem_evolves s s'" if "mem_append_text s t k v e = Inr (et, s')" for s s' :: "'a mem_storage" and t k v e et
    using that by (rule mem_evolves_intros(2))
qed

subsection \<open>State\<close>

record 'e saver =
  sv_id :: nat
  sv_wanted :: nat
  sv_pos :: nat
  sv_asked :: bool
  sv_entry :: "'e option"

record ('st, 'e) in_flight =
  fl_saver :: "'e saver"
  fl_version :: nat
  fl_pos :: nat
  fl_state :: 'st
  fl_entry :: "('e \<times> nat) option"

record ('st, 'e, 'v) gate =
  ga_state :: 'st
  ga_etag :: "string option"
  ga_version :: nat
  ga_saved :: nat
  ga_eventual :: nat
  ga_dirty :: bool
  ga_armed :: bool
  ga_flushes :: nat
  ga_notified :: nat
  ga_faulted :: bool
  ga_reload :: bool
  ga_pending :: "('st, 'e) in_flight option"
  ga_savers :: "'e saver list"
  ga_pos :: nat
  ga_marks :: "(nat \<times> nat) list"
  ga_landed :: "(nat \<times> nat) list"
  ga_entries :: "nat list"
  ga_done :: "'e saver list"
  ga_seen :: "(('v \<times> 'v list) \<times> string) option"

text \<open>What the definition and the host fix: write-behind mode, change tracking, the conflict option, the append seam.\<close>

record save_mode =
  sm_write_behind :: bool
  sm_tracking :: bool
  sm_retry :: bool
  sm_append :: bool

subsection \<open>Writes and versions\<close>

definition state_write :: "save_mode \<Rightarrow> ('st \<Rightarrow> 'st) \<Rightarrow> ('st, 'e, 'v) gate \<Rightarrow> ('st, 'e, 'v) gate" where
  "state_write sm f a = a\<lparr>ga_state := f (ga_state a), ga_pos := Suc (ga_pos a), ga_dirty := ga_dirty a \<or> sm_tracking sm\<rparr>"

definition mark_version :: "('st, 'e, 'v) gate \<Rightarrow> ('st, 'e, 'v) gate" where
  "mark_version a = a\<lparr>ga_version := Suc (ga_version a), ga_marks := (Suc (ga_version a), ga_pos a) # ga_marks a\<rparr>"

definition consume_dirty :: "('st, 'e, 'v) gate \<Rightarrow> ('st, 'e, 'v) gate" where
  "consume_dirty a = (if ga_dirty a then mark_version (a\<lparr>ga_dirty := False\<rparr>) else a)"

text \<open>\<open>ctx.save\<close>: immediate through the gate, or left to the debounce.\<close>

definition ctx_save :: "nat \<Rightarrow> bool \<Rightarrow> ('st, 'e, 'v) gate \<Rightarrow> ('st, 'e, 'v) gate" where
  "ctx_save i eventual a =
     (let a = mark_version (consume_dirty a)
      in if eventual then a\<lparr>ga_eventual := ga_version a, ga_armed := True\<rparr>
         else a\<lparr>ga_savers := ga_savers a @ [\<lparr>sv_id = i, sv_wanted = ga_version a, sv_pos = ga_pos a, sv_asked = True, sv_entry = None\<rparr>]\<rparr>)"

text \<open>\<open>ctx.append\<close>: the reducer's own writes are one version, and it stands for the entry alone.\<close>

definition ctx_append :: "save_mode \<Rightarrow> ('e \<Rightarrow> 'st \<Rightarrow> 'st) \<Rightarrow> nat \<Rightarrow> 'e \<Rightarrow> ('st, 'e, 'v) gate \<Rightarrow> ('st, 'e, 'v) gate" where
  "ctx_append sm app i e a =
     (let a = state_write sm (app e) (consume_dirty a);
          a = a\<lparr>ga_dirty := False, ga_version := Suc (ga_version a)\<rparr>
      in a\<lparr>ga_savers := ga_savers a @ [\<lparr>sv_id = i, sv_wanted = ga_version a, sv_pos = ga_pos a, sv_asked = True, sv_entry = Some e\<rparr>]\<rparr>)"

text \<open>The timer queues a system turn, whose flush and the flush at deactivation join the same gate; what they
  ask for is already a version.\<close>

definition flush_wanted :: "save_mode \<Rightarrow> ('st, 'e, 'v) gate \<Rightarrow> nat" where
  "flush_wanted sm a = (if sm_write_behind sm then ga_version a else ga_eventual a)"

definition debounce_fires :: "('st, 'e, 'v) gate \<Rightarrow> ('st, 'e, 'v) gate" where
  "debounce_fires a = a\<lparr>ga_armed := False, ga_flushes := Suc (ga_flushes a)\<rparr>"

definition flush_turn :: "save_mode \<Rightarrow> nat \<Rightarrow> ('st, 'e, 'v) gate \<Rightarrow> ('st, 'e, 'v) gate" where
  "flush_turn sm i a = a\<lparr>ga_flushes := ga_flushes a - 1,
     ga_savers := ga_savers a @ [\<lparr>sv_id = i, sv_wanted = flush_wanted sm a, sv_pos = 0, sv_asked = False, sv_entry = None\<rparr>]\<rparr>"

definition final_flush_due :: "save_mode \<Rightarrow> bool \<Rightarrow> ('st, 'e, 'v) gate \<Rightarrow> bool" where
  "final_flush_due sm conflict a \<longleftrightarrow> \<not> conflict \<and> \<not> ga_reload a \<and> ga_saved a < ga_version a
     \<and> (sm_write_behind sm \<or> ga_saved a < ga_eventual a)"

definition deactivation_flush :: "save_mode \<Rightarrow> bool \<Rightarrow> nat \<Rightarrow> ('st, 'e, 'v) gate \<Rightarrow> ('st, 'e, 'v) gate" where
  "deactivation_flush sm conflict i a =
     (let a = consume_dirty (a\<lparr>ga_armed := False\<rparr>)
      in if final_flush_due sm conflict a
         then a\<lparr>ga_savers := ga_savers a @ [\<lparr>sv_id = i, sv_wanted = ga_version a, sv_pos = 0, sv_asked = False, sv_entry = None\<rparr>]\<rparr>
         else a)"

text \<open>The end of a turn: fold, and on a new version arm the debounce of a write-behind actor that has something unsaved.\<close>

definition turn_boundary :: "save_mode \<Rightarrow> ('st, 'e, 'v) gate \<Rightarrow> ('st, 'e, 'v) gate" where
  "turn_boundary sm a = (let a = consume_dirty a
     in if ga_notified a < ga_version a \<and> \<not> ga_reload a
        then a\<lparr>ga_notified := ga_version a, ga_armed := ga_armed a \<or> sm_write_behind sm \<and> ga_saved a < ga_version a\<rparr> else a)"

subsection \<open>The gate\<close>

definition saver_settles :: "'e saver \<Rightarrow> ('st, 'e, 'v) gate \<Rightarrow> ('st, 'e, 'v) gate" where
  "saver_settles w a = a\<lparr>ga_savers := remove1 w (ga_savers a)\<rparr>"

definition saver_done :: "'e saver \<Rightarrow> ('st, 'e, 'v) gate \<Rightarrow> ('st, 'e, 'v) gate" where
  "saver_done w a = a\<lparr>ga_savers := remove1 w (ga_savers a), ga_done := w # ga_done a\<rparr>"

text \<open>The head of the loop of \<open>#gatedSave\<close>: satisfied, or this saver's write begins (\<open>#doSave\<close>).\<close>

definition gate_begin :: "save_mode \<Rightarrow> 'e saver \<Rightarrow> ('st, 'e, 'v) gate \<Rightarrow> ('st, 'e, 'v) gate" where
  "gate_begin sm w a =
     (if sv_wanted w \<le> ga_saved a then saver_done w a
      else if ga_faulted a then saver_settles w a
      else a\<lparr>ga_pending := Some \<lparr>fl_saver = w, fl_version = ga_version a, fl_pos = ga_pos a, fl_state = ga_state a,
               fl_entry = (case sv_entry w of Some e \<Rightarrow> if sm_append sm \<and> ga_etag a \<noteq> None then Some (e, sv_wanted w) else None
                           | None \<Rightarrow> None)\<rparr>\<rparr>)"

text \<open>The rest of \<open>#doSave\<close> and of the loop, on the answer of the storage.\<close>

definition write_landed :: "('st, 'e) in_flight \<Rightarrow> string \<Rightarrow> (('v \<times> 'v list) \<times> string) option \<Rightarrow> ('st, 'e, 'v) gate
    \<Rightarrow> ('st, 'e, 'v) gate" where
  "write_landed fl et record a =
     (let w = fl_saver fl; a = a\<lparr>ga_pending := None, ga_etag := Some et, ga_seen := record\<rparr>
      in case fl_entry fl of
           Some (e, wanted) \<Rightarrow> saver_done w (a\<lparr>ga_saved := (if Suc (ga_saved a) = wanted then wanted else ga_saved a),
                                              ga_entries := wanted # ga_entries a\<rparr>)
         | None \<Rightarrow> let a = a\<lparr>ga_saved := fl_version fl, ga_landed := (fl_version fl, fl_pos fl) # ga_landed a\<rparr>
                   in if sv_entry w \<noteq> None then saver_done w a else a)"

definition write_failed :: "save_mode \<Rightarrow> 'e saver \<Rightarrow> storage_error \<Rightarrow> ('st, 'e, 'v) gate \<Rightarrow> ('st, 'e, 'v) gate" where
  "write_failed sm w e a =
     (let a = saver_settles w (a\<lparr>ga_pending := None\<rparr>)
      in if is_storage_conflict e then (if sm_retry sm then a\<lparr>ga_reload := True\<rparr> else a\<lparr>ga_faulted := True\<rparr>) else a)"

subsection \<open>Reload and clear\<close>

text \<open>\<open>#resetState\<close> of the loaded or the initial state; what was asked for before is for a record that is gone.\<close>

definition reload_done :: "save_mode \<Rightarrow> 'st \<Rightarrow> (('v \<times> 'v list) \<times> string) option \<Rightarrow> ('st, 'e, 'v) gate \<Rightarrow> ('st, 'e, 'v) gate" where
  "reload_done sm st record a =
     (let a = consume_dirty (state_write sm (\<lambda>_. st) (a\<lparr>ga_reload := False, ga_etag := map_option snd record, ga_seen := record\<rparr>))
      in a\<lparr>ga_version := Suc (ga_version a), ga_saved := Suc (ga_version a), ga_eventual := 0, ga_marks := []\<rparr>)"

definition reload_failed :: "('st, 'e, 'v) gate \<Rightarrow> ('st, 'e, 'v) gate" where
  "reload_failed a = a\<lparr>ga_reload := False, ga_faulted := True\<rparr>"

definition clear_done :: "save_mode \<Rightarrow> 'st \<Rightarrow> ('st, 'e, 'v) gate \<Rightarrow> ('st, 'e, 'v) gate" where
  "clear_done sm st a = state_write sm (\<lambda>_. st) (a\<lparr>ga_etag := None, ga_seen := None, ga_eventual := 0, ga_marks := [],
     ga_armed := (ga_armed a \<and> sm_write_behind sm)\<rparr>)"

text \<open>A fresh activation, on the record it was seeded from.\<close>

definition new_gate :: "'st \<Rightarrow> (('v \<times> 'v list) \<times> string) option \<Rightarrow> ('st, 'e, 'v) gate" where
  "new_gate st record = \<lparr>ga_state = st, ga_etag = map_option snd record, ga_version = 0, ga_saved = 0, ga_eventual = 0,
     ga_dirty = False, ga_armed = False, ga_flushes = 0, ga_notified = 0, ga_faulted = False, ga_reload = False, ga_pending = None, ga_savers = [], ga_pos = 0,
     ga_marks = [], ga_landed = [], ga_entries = [], ga_done = [], ga_seen = record\<rparr>"

subsection \<open>Steps\<close>

text \<open>
  Every stretch between two awaits, in any order, with other writers of the store in between. A write is at
  the store when it lands or fails; a rejection that is no conflict may come at any time, also for
  a write that did reach the store (which is then another writer's step). Clearing holds the gate, so nothing of
  this activation is in flight when it lands. A reload starts a serial turn, when no save of the actor waits.
\<close>

inductive gate_step ::
  "save_mode \<Rightarrow> ('e \<Rightarrow> 'st \<Rightarrow> 'st) \<Rightarrow> ('st \<Rightarrow> 'v) \<Rightarrow> ('e \<Rightarrow> 'v)
   \<Rightarrow> ('s \<Rightarrow> string \<Rightarrow> string \<Rightarrow> (('v \<times> 'v list) \<times> string) option)
   \<Rightarrow> ('s \<Rightarrow> string \<Rightarrow> string \<Rightarrow> 'v \<Rightarrow> string option \<Rightarrow> storage_error + (string \<times> 's))
   \<Rightarrow> ('s \<Rightarrow> string \<Rightarrow> string \<Rightarrow> string option \<Rightarrow> storage_error + 's)
   \<Rightarrow> ('s \<Rightarrow> string \<Rightarrow> string \<Rightarrow> 'v \<Rightarrow> string \<Rightarrow> storage_error + (string \<times> 's))
   \<Rightarrow> ('s \<Rightarrow> 's \<Rightarrow> bool) \<Rightarrow> string \<Rightarrow> string
   \<Rightarrow> ('st, 'e, 'v) gate \<times> 's \<Rightarrow> ('st, 'e, 'v) gate \<times> 's \<Rightarrow> bool"
  for sm app enc ence ld sv cl ap ev t k where
  state_written: "gate_step sm app enc ence ld sv cl ap ev t k (a, s) (state_write sm f a, s)"
| saves: "gate_step sm app enc ence ld sv cl ap ev t k (a, s) (ctx_save i eventual a, s)"
| appends: "gate_step sm app enc ence ld sv cl ap ev t k (a, s) (ctx_append sm app i e a, s)"
| boundary: "gate_step sm app enc ence ld sv cl ap ev t k (a, s) (turn_boundary sm a, s)"
| fires: "ga_armed a \<Longrightarrow> gate_step sm app enc ence ld sv cl ap ev t k (a, s) (debounce_fires a, s)"
| flushes: "0 < ga_flushes a \<Longrightarrow> \<not> ga_reload a \<Longrightarrow> gate_step sm app enc ence ld sv cl ap ev t k (a, s) (flush_turn sm i a, s)"
| winds_up: "gate_step sm app enc ence ld sv cl ap ev t k (a, s) (deactivation_flush sm conflict i a, s)"
| begins: "ga_pending a = None \<Longrightarrow> w \<in> set (ga_savers a)
    \<Longrightarrow> gate_step sm app enc ence ld sv cl ap ev t k (a, s) (gate_begin sm w a, s)"
| lands: "ga_pending a = Some fl \<Longrightarrow> fl_entry fl = None \<Longrightarrow> sv s t k (enc (fl_state fl)) (ga_etag a) = Inr (et, s')
    \<Longrightarrow> gate_step sm app enc ence ld sv cl ap ev t k (a, s) (write_landed fl et (ld s' t k) a, s')"
| lands_entry: "ga_pending a = Some fl \<Longrightarrow> fl_entry fl = Some (e, wanted) \<Longrightarrow> ga_etag a = Some et0
    \<Longrightarrow> ap s t k (ence e) et0 = Inr (et, s')
    \<Longrightarrow> gate_step sm app enc ence ld sv cl ap ev t k (a, s) (write_landed fl et (ld s' t k) a, s')"
| fails: "ga_pending a = Some fl \<Longrightarrow> fl_entry fl = None \<Longrightarrow> sv s t k (enc (fl_state fl)) (ga_etag a) = Inl err
    \<Longrightarrow> gate_step sm app enc ence ld sv cl ap ev t k (a, s) (write_failed sm (fl_saver fl) err a, s)"
| fails_entry: "ga_pending a = Some fl \<Longrightarrow> fl_entry fl = Some (e, wanted) \<Longrightarrow> ga_etag a = Some et0
    \<Longrightarrow> ap s t k (ence e) et0 = Inl err
    \<Longrightarrow> gate_step sm app enc ence ld sv cl ap ev t k (a, s) (write_failed sm (fl_saver fl) err a, s)"
| breaks_off: "ga_pending a = Some fl
    \<Longrightarrow> gate_step sm app enc ence ld sv cl ap ev t k (a, s) (write_failed sm (fl_saver fl) (StorageFailure m) a, s)"
| reloads: "ga_reload a \<Longrightarrow> ga_pending a = None \<Longrightarrow> ga_savers a = [] \<Longrightarrow> ev s s'
    \<Longrightarrow> gate_step sm app enc ence ld sv cl ap ev t k (a, s) (reload_done sm st (ld s' t k) a, s')"
| reload_fails: "ga_reload a \<Longrightarrow> ga_pending a = None
    \<Longrightarrow> gate_step sm app enc ence ld sv cl ap ev t k (a, s) (reload_failed a, s)"
| clears: "ga_pending a = None \<Longrightarrow> cl s t k (ga_etag a) = Inr s'
    \<Longrightarrow> gate_step sm app enc ence ld sv cl ap ev t k (a, s) (clear_done sm st a, s')"
| others_write: "ev s s' \<Longrightarrow> gate_step sm app enc ence ld sv cl ap ev t k (a, s) (a, s')"

definition gate_start ::
  "('s \<Rightarrow> string \<Rightarrow> string \<Rightarrow> (('v \<times> 'v list) \<times> string) option) \<Rightarrow> ('s \<Rightarrow> bool) \<Rightarrow> string \<Rightarrow> string
     \<Rightarrow> ('st, 'e, 'v) gate \<times> 's \<Rightarrow> bool" where
  "gate_start ld ok t k st \<longleftrightarrow> ok (snd st) \<and> (\<exists>x. fst st = new_gate x (ld (snd st) t k))"

subsection \<open>The invariant\<close>

text \<open>What an activation has asked for, and what of it has landed.\<close>

definition covered :: "('st, 'e, 'v) gate \<Rightarrow> nat \<Rightarrow> nat \<Rightarrow> bool" where
  "covered a w p \<longleftrightarrow> (\<exists>(v, q) \<in> set (ga_landed a). w \<le> v \<and> p \<le> q)"

text \<open>The requests that stand: of every mark and of every save and append that waits.\<close>

definition asked :: "('st, 'e, 'v) gate \<Rightarrow> 'e saver list" where
  "asked a = filter sv_asked (ga_savers a)"

definition claims :: "('st, 'e, 'v) gate \<Rightarrow> (nat \<times> nat) set" where
  "claims a = set (ga_marks a) \<union> (\<lambda>w. (sv_wanted w, sv_pos w)) ` set (asked a)"

definition claims_ok :: "('st, 'e, 'v) gate \<Rightarrow> bool" where
  "claims_ok a \<longleftrightarrow> (\<forall>(w, p) \<in> claims a. w \<le> ga_version a \<and> p \<le> ga_pos a \<and> (w \<le> ga_saved a \<longrightarrow> covered a w p)
        \<and> (\<forall>fl. ga_pending a = Some fl \<longrightarrow> w \<le> fl_version fl \<longrightarrow> p \<le> fl_pos fl))"

definition versions_ok :: "('st, 'e, 'v) gate \<Rightarrow> bool" where
  "versions_ok a \<longleftrightarrow> ga_saved a \<le> ga_version a \<and> ga_eventual a \<le> ga_version a \<and> (\<forall>w \<in> set (ga_savers a). sv_wanted w \<le> ga_version a)
     \<and> distinct (map sv_wanted (asked a))
     \<and> (\<forall>w \<in> set (ga_savers a). sv_entry w \<noteq> None \<longrightarrow> sv_asked w \<and> sv_wanted w \<notin> fst ` set (ga_marks a))
     \<and> (\<forall>fl. ga_pending a = Some fl \<longrightarrow> ga_saved a \<le> fl_version fl \<and> fl_version fl \<le> ga_version a \<and> fl_saver fl \<in> set (ga_savers a)
          \<and> \<not> ga_faulted a \<and> ga_saved a < sv_wanted (fl_saver fl) \<and> sv_wanted (fl_saver fl) \<le> fl_version fl
          \<and> (\<forall>e wanted. fl_entry fl = Some (e, wanted) \<longrightarrow> sv_entry (fl_saver fl) = Some e \<and> wanted = sv_wanted (fl_saver fl) \<and> ga_etag a \<noteq> None))"

definition done_ok :: "('st, 'e, 'v) gate \<Rightarrow> bool" where
  "done_ok a \<longleftrightarrow> (\<forall>w \<in> set (ga_done a). sv_asked w \<longrightarrow>
     covered a (sv_wanted w) (sv_pos w) \<or> sv_entry w \<noteq> None \<and> sv_wanted w \<in> set (ga_entries a))"

definition gate_ok :: "('st, 'e, 'v) gate \<Rightarrow> bool" where
  "gate_ok a \<longleftrightarrow> claims_ok a \<and> versions_ok a \<and> done_ok a"

subsection \<open>Every step keeps it\<close>

lemma covered_mono: "set (ga_landed a) \<subseteq> set (ga_landed a') \<Longrightarrow> covered a w p \<Longrightarrow> covered a' w p"
  by (auto simp: covered_def)

lemma covered_cong [simp]:
  "covered (a\<lparr>ga_state := x1\<rparr>) = covered a" "covered (a\<lparr>ga_etag := x2\<rparr>) = covered a" "covered (a\<lparr>ga_version := n\<rparr>) = covered a"
  "covered (a\<lparr>ga_saved := n\<rparr>) = covered a" "covered (a\<lparr>ga_eventual := n\<rparr>) = covered a" "covered (a\<lparr>ga_dirty := b\<rparr>) = covered a"
  "covered (a\<lparr>ga_armed := b\<rparr>) = covered a" "covered (a\<lparr>ga_faulted := b\<rparr>) = covered a" "covered (a\<lparr>ga_reload := b\<rparr>) = covered a"
  "covered (a\<lparr>ga_pending := x3\<rparr>) = covered a" "covered (a\<lparr>ga_savers := x4\<rparr>) = covered a" "covered (a\<lparr>ga_pos := n\<rparr>) = covered a"
  "covered (a\<lparr>ga_marks := x5\<rparr>) = covered a" "covered (a\<lparr>ga_entries := x6\<rparr>) = covered a" "covered (a\<lparr>ga_done := x7\<rparr>) = covered a"
  "covered (a\<lparr>ga_seen := x8\<rparr>) = covered a" "covered (a\<lparr>ga_flushes := n\<rparr>) = covered a" "covered (a\<lparr>ga_notified := n\<rparr>) = covered a"
  by (simp_all add: covered_def fun_eq_iff)

lemma claims_okD:
  assumes "claims_ok a" "(w, p) \<in> claims a"
  shows "w \<le> ga_version a" "p \<le> ga_pos a" "w \<le> ga_saved a \<Longrightarrow> covered a w p"
    "ga_pending a = Some fl \<Longrightarrow> w \<le> fl_version fl \<Longrightarrow> p \<le> fl_pos fl"
  using assms by (auto simp: claims_ok_def)

lemma claims_okI:
  assumes "\<And>w p. (w, p) \<in> claims a \<Longrightarrow> w \<le> ga_version a \<and> p \<le> ga_pos a \<and> (w \<le> ga_saved a \<longrightarrow> covered a w p)
        \<and> (\<forall>fl. ga_pending a = Some fl \<longrightarrow> w \<le> fl_version fl \<longrightarrow> p \<le> fl_pos fl)"
  shows "claims_ok a"
  using assms by (auto simp: claims_ok_def)

lemma gate_ok_parts: "gate_ok a \<longleftrightarrow> claims_ok a \<and> versions_ok a \<and> done_ok a"
  by (simp add: gate_ok_def)

lemma state_write_ok: "gate_ok a \<Longrightarrow> gate_ok (state_write sm f a)"
proof -
  assume ok: "gate_ok a"
  have c: "claims (state_write sm f a) = claims a" by (simp add: claims_def asked_def state_write_def)
  have "claims_ok (state_write sm f a)"
  proof (rule claims_okI)
    fix w p assume "(w, p) \<in> claims (state_write sm f a)"
    with c claims_okD [of a w p] ok
    show "w \<le> ga_version (state_write sm f a) \<and> p \<le> ga_pos (state_write sm f a) \<and> (w \<le> ga_saved (state_write sm f a) \<longrightarrow> covered (state_write sm f a) w p)
        \<and> (\<forall>fl. ga_pending (state_write sm f a) = Some fl \<longrightarrow> w \<le> fl_version fl \<longrightarrow> p \<le> fl_pos fl)"
      by (auto simp: gate_ok_def state_write_def)
  qed
  with ok show ?thesis by (simp add: gate_ok_def versions_ok_def done_ok_def asked_def state_write_def)
qed

lemma clean_ok: "gate_ok (a\<lparr>ga_dirty := d\<rparr>) = gate_ok a" "gate_ok (a\<lparr>ga_armed := d\<rparr>) = gate_ok a"
  "gate_ok (a\<lparr>ga_flushes := n\<rparr>) = gate_ok a" "gate_ok (a\<lparr>ga_notified := n\<rparr>) = gate_ok a"
  by (simp_all add: gate_ok_def claims_ok_def versions_ok_def done_ok_def claims_def asked_def)

lemma mark_version_ok:
  assumes "gate_ok a"
  shows "gate_ok (mark_version a)"
proof -
  have c: "claims (mark_version a) = insert (Suc (ga_version a), ga_pos a) (claims a)"
    by (auto simp: claims_def asked_def mark_version_def)
  have "claims_ok (mark_version a)"
  proof (rule claims_okI)
    fix w p assume "(w, p) \<in> claims (mark_version a)"
    with c consider "w = Suc (ga_version a)" "p = ga_pos a" | "(w, p) \<in> claims a" by auto
    then show "w \<le> ga_version (mark_version a) \<and> p \<le> ga_pos (mark_version a) \<and> (w \<le> ga_saved (mark_version a) \<longrightarrow> covered (mark_version a) w p)
        \<and> (\<forall>fl. ga_pending (mark_version a) = Some fl \<longrightarrow> w \<le> fl_version fl \<longrightarrow> p \<le> fl_pos fl)"
    proof cases
      case 1
      with assms show ?thesis by (auto simp: mark_version_def gate_ok_def versions_ok_def)
    next
      case 2
      with assms claims_okD [of a w p] show ?thesis by (auto simp: mark_version_def gate_ok_def)
    qed
  qed
  moreover have "versions_ok (mark_version a)"
    using assms by (fastforce simp: gate_ok_def versions_ok_def mark_version_def asked_def)
  moreover have "done_ok (mark_version a)" using assms by (simp add: gate_ok_def done_ok_def mark_version_def)
  ultimately show ?thesis by (simp add: gate_ok_def)
qed

lemma consume_dirty_ok: "gate_ok a \<Longrightarrow> gate_ok (consume_dirty a)"
  by (simp add: consume_dirty_def mark_version_ok clean_ok)

text \<open>A saver joins: what it asks for is marked, or is a version of its own, or is nothing new.\<close>

lemma join_ok:
  assumes ok: "gate_ok a" and w: "sv_wanted w \<le> ga_version a" "sv_pos w \<le> ga_pos a"
    and new: "sv_asked w \<Longrightarrow> \<forall>v \<in> set (ga_savers a). sv_wanted v < sv_wanted w"
      "sv_asked w \<Longrightarrow> ga_saved a < sv_wanted w"
      "sv_asked w \<Longrightarrow> ga_pending a \<noteq> None \<Longrightarrow> fl_version (the (ga_pending a)) < sv_wanted w"
    and entry: "sv_entry w \<noteq> None \<Longrightarrow> sv_asked w \<and> sv_wanted w \<notin> fst ` set (ga_marks a)"
  shows "gate_ok (a\<lparr>ga_savers := ga_savers a @ [w]\<rparr>)"
proof -
  have c: "claims (a\<lparr>ga_savers := ga_savers a @ [w]\<rparr>) = claims a \<union> (if sv_asked w then {(sv_wanted w, sv_pos w)} else {})"
    by (auto simp: claims_def asked_def)
  have "claims_ok (a\<lparr>ga_savers := ga_savers a @ [w]\<rparr>)"
  proof (rule claims_okI)
    fix x p assume "(x, p) \<in> claims (a\<lparr>ga_savers := ga_savers a @ [w]\<rparr>)"
    with c consider "sv_asked w" "x = sv_wanted w" "p = sv_pos w" | "(x, p) \<in> claims a" by (auto split: if_splits)
    then show "x \<le> ga_version (a\<lparr>ga_savers := ga_savers a @ [w]\<rparr>) \<and> p \<le> ga_pos (a\<lparr>ga_savers := ga_savers a @ [w]\<rparr>)
        \<and> (x \<le> ga_saved (a\<lparr>ga_savers := ga_savers a @ [w]\<rparr>) \<longrightarrow> covered (a\<lparr>ga_savers := ga_savers a @ [w]\<rparr>) x p)
        \<and> (\<forall>fl. ga_pending (a\<lparr>ga_savers := ga_savers a @ [w]\<rparr>) = Some fl \<longrightarrow> x \<le> fl_version fl \<longrightarrow> p \<le> fl_pos fl)"
    proof cases
      case 1
      with w new show ?thesis by auto
    next
      case 2
      with ok claims_okD [of a x p] show ?thesis by (auto simp: gate_ok_def)
    qed
  qed
  moreover have "versions_ok (a\<lparr>ga_savers := ga_savers a @ [w]\<rparr>)"
    using ok w(1) new(1) entry unfolding gate_ok_def versions_ok_def asked_def by auto
  moreover have "done_ok (a\<lparr>ga_savers := ga_savers a @ [w]\<rparr>)" using ok by (simp add: gate_ok_def done_ok_def)
  ultimately show ?thesis by (simp add: gate_ok_def)
qed

lemma versions_okD:
  assumes "gate_ok a"
  shows "ga_saved a \<le> ga_version a" "ga_eventual a \<le> ga_version a" "w \<in> set (ga_savers a) \<Longrightarrow> sv_wanted w \<le> ga_version a"
    "ga_pending a = Some fl \<Longrightarrow> fl_version fl \<le> ga_version a"
  using assms by (auto simp: gate_ok_def versions_ok_def)

lemma ctx_save_ok:
  assumes "gate_ok a"
  shows "gate_ok (ctx_save i eventual a)"
proof -
  define b where "b = consume_dirty a"
  have b: "gate_ok b" unfolding b_def by (rule consume_dirty_ok [OF assms])
  note V = versions_okD [OF b]
  have m: "gate_ok (mark_version b)" by (rule mark_version_ok [OF b])
  have "gate_ok ((mark_version b)\<lparr>ga_eventual := ga_version (mark_version b), ga_armed := True\<rparr>)"
    using m unfolding gate_ok_def claims_ok_def versions_ok_def done_ok_def claims_def asked_def by simp
  moreover have "gate_ok ((mark_version b)\<lparr>ga_savers := ga_savers (mark_version b) @
      [\<lparr>sv_id = i, sv_wanted = ga_version (mark_version b), sv_pos = ga_pos (mark_version b), sv_asked = True, sv_entry = None\<rparr>]\<rparr>)"
    by (rule join_ok [OF m]) (use V in \<open>fastforce simp: mark_version_def\<close>)+
  ultimately show ?thesis by (simp add: ctx_save_def b_def [symmetric] Let_def)
qed

lemma bump_ok:
  assumes ok: "gate_ok a"
  shows "gate_ok (a\<lparr>ga_dirty := d, ga_version := Suc (ga_version a)\<rparr>)"
proof -
  let ?b = "a\<lparr>ga_dirty := d, ga_version := Suc (ga_version a)\<rparr>"
  have "claims_ok ?b"
  proof (rule claims_okI)
    fix w p assume "(w, p) \<in> claims ?b"
    then have "(w, p) \<in> claims a" by (simp add: claims_def asked_def)
    with claims_okD [of a w p] ok
    show "w \<le> ga_version ?b \<and> p \<le> ga_pos ?b \<and> (w \<le> ga_saved ?b \<longrightarrow> covered ?b w p)
        \<and> (\<forall>fl. ga_pending ?b = Some fl \<longrightarrow> w \<le> fl_version fl \<longrightarrow> p \<le> fl_pos fl)"
      by (auto simp: gate_ok_def)
  qed
  moreover have "versions_ok ?b" using ok by (auto simp: gate_ok_def versions_ok_def asked_def le_SucI)
  ultimately show ?thesis using ok by (simp add: gate_ok_def done_ok_def)
qed

lemma ctx_append_ok:
  assumes "gate_ok a"
  shows "gate_ok (ctx_append sm app i e a)"
proof -
  define b where "b = state_write sm (app e) (consume_dirty a)"
  have b: "gate_ok b" unfolding b_def by (intro state_write_ok consume_dirty_ok assms)
  note V = versions_okD [OF b]
  define c where "c = b\<lparr>ga_dirty := False, ga_version := Suc (ga_version b)\<rparr>"
  have marks: "w \<le> ga_version b" if "w \<in> fst ` set (ga_marks b)" for w
  proof -
    from that obtain p where "(w, p) \<in> set (ga_marks b)" by auto
    then have "(w, p) \<in> claims b" by (simp add: claims_def)
    with b claims_okD(1) show ?thesis by (auto simp: gate_ok_def)
  qed
  have c: "gate_ok c" unfolding c_def by (rule bump_ok [OF b])
  have "gate_ok (c\<lparr>ga_savers := ga_savers c @ [\<lparr>sv_id = i, sv_wanted = ga_version c, sv_pos = ga_pos c, sv_asked = True, sv_entry = Some e\<rparr>]\<rparr>)"
  proof (rule join_ok [OF c]; simp)
    show "\<forall>v \<in> set (ga_savers c). sv_wanted v < ga_version c" using V(3) by (auto simp: c_def less_Suc_eq_le)
    show "ga_saved c < ga_version c" using V(1) by (simp add: c_def)
    show "\<exists>y. ga_pending c = Some y \<Longrightarrow> fl_version (the (ga_pending c)) < ga_version c" using V(4) by (auto simp: c_def less_Suc_eq_le)
    show "ga_version c \<notin> fst ` set (ga_marks c)" using marks by (fastforce simp: c_def)
  qed
  then show ?thesis unfolding ctx_append_def Let_def b_def [symmetric] c_def [symmetric] .
qed

lemma flush_join_ok: "gate_ok a \<Longrightarrow> n \<le> ga_version a
    \<Longrightarrow> gate_ok (a\<lparr>ga_savers := ga_savers a @ [\<lparr>sv_id = i, sv_wanted = n, sv_pos = 0, sv_asked = False, sv_entry = None\<rparr>]\<rparr>)"
  by (rule join_ok) simp_all

lemma debounce_fires_ok: "gate_ok a \<Longrightarrow> gate_ok (debounce_fires a)"
  by (simp add: debounce_fires_def clean_ok)

lemma flush_turn_ok:
  assumes "gate_ok a"
  shows "gate_ok (flush_turn sm i a)"
proof -
  have "flush_wanted sm a \<le> ga_version a" using versions_okD(2) [OF assms] by (simp add: flush_wanted_def)
  with flush_join_ok [of "a\<lparr>ga_flushes := ga_flushes a - 1\<rparr>" "flush_wanted sm a" i] assms show ?thesis
    by (simp add: clean_ok flush_turn_def)
qed

lemma deactivation_flush_ok:
  assumes "gate_ok a"
  shows "gate_ok (deactivation_flush sm conflict i a)"
proof -
  have "gate_ok (consume_dirty (a\<lparr>ga_armed := False\<rparr>))" using assms by (simp add: clean_ok consume_dirty_ok)
  with flush_join_ok [OF this order_refl, of i] show ?thesis by (simp add: deactivation_flush_def Let_def)
qed

lemma turn_boundary_ok: "gate_ok a \<Longrightarrow> gate_ok (turn_boundary sm a)"
  by (simp add: turn_boundary_def Let_def clean_ok consume_dirty_ok)

text \<open>A saver leaves.\<close>

lemma leave_claims: "claims (a\<lparr>ga_savers := remove1 w (ga_savers a)\<rparr>) \<subseteq> claims a"
  using set_remove1_subset [of w "ga_savers a"] by (auto simp: claims_def asked_def)

lemma leave_ok:
  assumes ok: "gate_ok a" and p: "ga_pending a = None"
  shows "gate_ok (saver_settles w a)"
proof -
  have "claims_ok (saver_settles w a)"
  proof (rule claims_okI)
    fix x q assume "(x, q) \<in> claims (saver_settles w a)"
    with leave_claims have "(x, q) \<in> claims a" by (auto simp: saver_settles_def)
    with claims_okD [of a x q] ok show "x \<le> ga_version (saver_settles w a) \<and> q \<le> ga_pos (saver_settles w a)
        \<and> (x \<le> ga_saved (saver_settles w a) \<longrightarrow> covered (saver_settles w a) x q)
        \<and> (\<forall>fl. ga_pending (saver_settles w a) = Some fl \<longrightarrow> x \<le> fl_version fl \<longrightarrow> q \<le> fl_pos fl)"
      by (auto simp: saver_settles_def gate_ok_def p)
  qed
  moreover have "distinct (map sv_wanted (filter sv_asked (remove1 w xs)))" if "distinct (map sv_wanted (filter sv_asked xs))" for xs :: "'b saver list"
    using that by (auto simp: filter_remove1 distinct_map distinct_remove1 intro: inj_on_subset)
  then have "versions_ok (saver_settles w a)"
    using ok p set_remove1_subset [of w "ga_savers a"] unfolding gate_ok_def versions_ok_def asked_def
    by (auto simp: saver_settles_def)
  ultimately show ?thesis using ok by (simp add: gate_ok_def done_ok_def saver_settles_def)
qed

lemma saver_done_ok:
  assumes ok: "gate_ok a" and p: "ga_pending a = None"
    and d: "sv_asked w \<Longrightarrow> covered a (sv_wanted w) (sv_pos w) \<or> sv_entry w \<noteq> None \<and> sv_wanted w \<in> set (ga_entries a)"
  shows "gate_ok (saver_done w a)"
proof -
  have "saver_done w a = (saver_settles w a)\<lparr>ga_done := w # ga_done a\<rparr>" by (simp add: saver_done_def saver_settles_def)
  moreover have "gate_ok ((saver_settles w a)\<lparr>ga_done := w # ga_done a\<rparr>)"
    using leave_ok [OF ok p, of w] d unfolding gate_ok_def claims_ok_def versions_ok_def done_ok_def claims_def asked_def
    by (simp add: saver_settles_def)
  ultimately show ?thesis by simp
qed

lemma asked_claims: "w \<in> set (ga_savers a) \<Longrightarrow> sv_asked w \<Longrightarrow> (sv_wanted w, sv_pos w) \<in> claims a"
  by (auto simp: claims_def asked_def)

lemma gate_begin_ok:
  assumes ok: "gate_ok a" and p: "ga_pending a = None" and w: "w \<in> set (ga_savers a)"
  shows "gate_ok (gate_begin sm w a)"
proof -
  consider "sv_wanted w \<le> ga_saved a" | "\<not> sv_wanted w \<le> ga_saved a" "ga_faulted a" | "\<not> sv_wanted w \<le> ga_saved a" "\<not> ga_faulted a"
    by blast
  then show ?thesis
  proof cases
    case 1
    have "gate_ok (saver_done w a)"
      by (rule saver_done_ok [OF ok p]) (use 1 ok asked_claims [OF w] claims_okD(3) [of a "sv_wanted w" "sv_pos w"] in \<open>auto simp: gate_ok_def\<close>)
    with 1 show ?thesis by (simp add: gate_begin_def)
  next
    case 2
    with leave_ok [OF ok p] show ?thesis by (simp add: gate_begin_def)
  next
    case 3
    define fl where "fl = \<lparr>fl_saver = w, fl_version = ga_version a, fl_pos = ga_pos a, fl_state = ga_state a,
        fl_entry = (case sv_entry w of Some e \<Rightarrow> if sm_append sm \<and> ga_etag a \<noteq> None then Some (e, sv_wanted w) else None | None \<Rightarrow> None)\<rparr>"
    have "claims_ok (a\<lparr>ga_pending := Some fl\<rparr>)"
    proof (rule claims_okI)
      fix x q assume "(x, q) \<in> claims (a\<lparr>ga_pending := Some fl\<rparr>)"
      then have "(x, q) \<in> claims a" by (simp add: claims_def asked_def)
      with claims_okD [of a x q] ok show "x \<le> ga_version (a\<lparr>ga_pending := Some fl\<rparr>) \<and> q \<le> ga_pos (a\<lparr>ga_pending := Some fl\<rparr>)
        \<and> (x \<le> ga_saved (a\<lparr>ga_pending := Some fl\<rparr>) \<longrightarrow> covered (a\<lparr>ga_pending := Some fl\<rparr>) x q)
        \<and> (\<forall>fl'. ga_pending (a\<lparr>ga_pending := Some fl\<rparr>) = Some fl' \<longrightarrow> x \<le> fl_version fl' \<longrightarrow> q \<le> fl_pos fl')"
        by (auto simp: gate_ok_def fl_def)
    qed
    moreover have "versions_ok (a\<lparr>ga_pending := Some fl\<rparr>)"
      using ok 3 w unfolding gate_ok_def versions_ok_def asked_def by (auto simp: fl_def split: option.splits if_splits)
    ultimately have "gate_ok (a\<lparr>ga_pending := Some fl\<rparr>)" using ok by (simp add: gate_ok_def done_ok_def)
    with 3 show ?thesis by (simp add: gate_begin_def fl_def)
  qed
qed

lemma settled_write_ok:
  assumes ok: "gate_ok a"
  shows "gate_ok (a\<lparr>ga_pending := None, ga_etag := et, ga_seen := r, ga_entries := es @ ga_entries a\<rparr>)"
proof -
  let ?b = "a\<lparr>ga_pending := None, ga_etag := et, ga_seen := r, ga_entries := es @ ga_entries a\<rparr>"
  have "claims_ok ?b"
  proof (rule claims_okI)
    fix w p assume "(w, p) \<in> claims ?b"
    then have "(w, p) \<in> claims a" by (simp add: claims_def asked_def)
    with claims_okD [of a w p] ok
    show "w \<le> ga_version ?b \<and> p \<le> ga_pos ?b \<and> (w \<le> ga_saved ?b \<longrightarrow> covered ?b w p)
        \<and> (\<forall>fl. ga_pending ?b = Some fl \<longrightarrow> w \<le> fl_version fl \<longrightarrow> p \<le> fl_pos fl)"
      by (auto simp: gate_ok_def)
  qed
  moreover have "versions_ok ?b" using ok by (simp add: gate_ok_def versions_ok_def asked_def)
  moreover have "done_ok ?b" using ok by (auto simp: gate_ok_def done_ok_def)
  ultimately show ?thesis by (simp add: gate_ok_def)
qed

lemma entry_alone:
  assumes ok: "gate_ok a" and w: "w \<in> set (ga_savers a)" "sv_entry w \<noteq> None"
  shows "sv_asked w" and "(sv_wanted w, p) \<notin> claims (saver_done w a)"
proof -
  from ok w have W: "sv_asked w" "sv_wanted w \<notin> fst ` set (ga_marks a)" "distinct (map sv_wanted (asked a))"
    by (auto simp: gate_ok_def versions_ok_def)
  then show "sv_asked w" by blast
  from w(1) W(1) have wa: "w \<in> set (asked a)" by (simp add: asked_def)
  have "v \<notin> set (asked (saver_done w a))" if "sv_wanted v = sv_wanted w" for v
  proof
    assume v: "v \<in> set (asked (saver_done w a))"
    then have "v \<in> set (remove1 w (asked a))" by (simp add: asked_def saver_done_def filter_remove1)
    moreover have "distinct (asked a)" using W(3) by (simp add: distinct_map)
    ultimately have "v \<in> set (asked a)" "v \<noteq> w" by auto
    with wa W(3) that show False by (auto simp: distinct_map inj_on_def)
  qed
  moreover have "ga_marks (saver_done w a) = ga_marks a" by (simp add: saver_done_def)
  ultimately show "(sv_wanted w, p) \<notin> claims (saver_done w a)"
    using W(2) by (force simp: claims_def)
qed

lemma write_landed_ok:
  assumes ok: "gate_ok a" and p: "ga_pending a = Some fl"
  shows "gate_ok (write_landed fl et r a)"
proof -
  define w where "w = fl_saver fl"
  from ok p have W: "w \<in> set (ga_savers a)" "sv_wanted w \<le> fl_version fl" "ga_saved a \<le> fl_version fl" "fl_version fl \<le> ga_version a"
    by (auto simp: gate_ok_def versions_ok_def w_def)
  show ?thesis
  proof (cases "fl_entry fl")
    case None
    define b where "b = a\<lparr>ga_pending := None, ga_etag := Some et, ga_seen := r, ga_saved := fl_version fl,
        ga_landed := (fl_version fl, fl_pos fl) # ga_landed a\<rparr>"
    have cb: "claims b = claims a" by (simp add: claims_def asked_def b_def)
    have cov: "covered b x q" if "(x, q) \<in> claims a" "x \<le> fl_version fl" for x q
      using claims_okD(4) [of a x q fl] ok that p by (auto simp: gate_ok_def covered_def b_def)
    have "claims_ok b"
    proof (rule claims_okI)
      fix x q assume x: "(x, q) \<in> claims b"
      with cb claims_okD [of a x q] ok cov [of x q]
      show "x \<le> ga_version b \<and> q \<le> ga_pos b \<and> (x \<le> ga_saved b \<longrightarrow> covered b x q)
          \<and> (\<forall>fl. ga_pending b = Some fl \<longrightarrow> x \<le> fl_version fl \<longrightarrow> q \<le> fl_pos fl)"
        by (auto simp: gate_ok_def b_def)
    qed
    moreover have "versions_ok b" using ok W by (simp add: gate_ok_def versions_ok_def asked_def b_def)
    moreover have "done_ok b" using ok by (auto simp: gate_ok_def done_ok_def covered_def b_def)
    ultimately have bok: "gate_ok b" by (simp add: gate_ok_def)
    have "gate_ok (saver_done w b)" if "sv_entry w \<noteq> None"
    proof (rule saver_done_ok [OF bok])
      show "ga_pending b = None" by (simp add: b_def)
      show "covered b (sv_wanted w) (sv_pos w) \<or> sv_entry w \<noteq> None \<and> sv_wanted w \<in> set (ga_entries b)" if "sv_asked w"
        using cov asked_claims [OF W(1) that] W(2) by blast
    qed
    with bok None show ?thesis unfolding write_landed_def Let_def w_def [symmetric] by (simp add: b_def)
  next
    case (Some ew)
    obtain e wanted where ew: "ew = (e, wanted)" by force
    from ok p Some ew have E: "sv_entry w = Some e" "wanted = sv_wanted w"
      by (auto simp: gate_ok_def versions_ok_def w_def)
    define b where "b = a\<lparr>ga_pending := None, ga_etag := Some et, ga_seen := r, ga_entries := [wanted] @ ga_entries a\<rparr>"
    have bok: "gate_ok b" unfolding b_def by (rule settled_write_ok [OF ok])
    define c where "c = saver_done w b"
    have cok: "gate_ok c" unfolding c_def
      by (rule saver_done_ok [OF bok]) (use E in \<open>simp_all add: b_def\<close>)
    have wb: "w \<in> set (ga_savers b)" using W(1) by (simp add: b_def)
    note alone = entry_alone(2) [OF bok wb]
    have "gate_ok (c\<lparr>ga_saved := wanted\<rparr>)" if s: "Suc (ga_saved a) = wanted"
    proof -
      have sc: "ga_saved c = ga_saved a" "ga_version c = ga_version a" "ga_pending c = None" by (simp_all add: c_def b_def saver_done_def)
      have "claims_ok (c\<lparr>ga_saved := wanted\<rparr>)"
      proof (rule claims_okI)
        fix x q assume "(x, q) \<in> claims (c\<lparr>ga_saved := wanted\<rparr>)"
        then have x: "(x, q) \<in> claims c" by (simp add: claims_def asked_def)
        with alone E have "x \<noteq> wanted" by (auto simp: c_def)
        then have "x \<le> wanted \<Longrightarrow> x \<le> ga_saved c" using s sc by simp
        with x claims_okD [of c x q] cok sc
        show "x \<le> ga_version (c\<lparr>ga_saved := wanted\<rparr>) \<and> q \<le> ga_pos (c\<lparr>ga_saved := wanted\<rparr>)
          \<and> (x \<le> ga_saved (c\<lparr>ga_saved := wanted\<rparr>) \<longrightarrow> covered (c\<lparr>ga_saved := wanted\<rparr>) x q)
          \<and> (\<forall>fl. ga_pending (c\<lparr>ga_saved := wanted\<rparr>) = Some fl \<longrightarrow> x \<le> fl_version fl \<longrightarrow> q \<le> fl_pos fl)"
          by (auto simp: gate_ok_def)
      qed
      moreover have "versions_ok (c\<lparr>ga_saved := wanted\<rparr>)"
        using cok W E sc by (simp add: gate_ok_def versions_ok_def asked_def)
      ultimately show ?thesis using cok by (simp add: gate_ok_def done_ok_def)
    qed
    moreover have "write_landed fl et r a = (if Suc (ga_saved a) = wanted then c\<lparr>ga_saved := wanted\<rparr> else c)"
      using Some ew by (simp add: write_landed_def Let_def c_def b_def saver_done_def w_def)
    ultimately show ?thesis using cok by simp
  qed
qed

lemma write_failed_ok:
  assumes "gate_ok a"
  shows "gate_ok (write_failed sm w err a)"
proof -
  have "gate_ok (a\<lparr>ga_pending := None\<rparr>)" using settled_write_ok [OF assms, where et = "ga_etag a" and r = "ga_seen a" and es = "[]"] by (cases a) simp
  from leave_ok [OF this] have l: "gate_ok (saver_settles w (a\<lparr>ga_pending := None\<rparr>))" by simp
  have "ga_pending b = None \<Longrightarrow> gate_ok b \<Longrightarrow> gate_ok (b\<lparr>ga_reload := True\<rparr>) \<and> gate_ok (b\<lparr>ga_faulted := True\<rparr>)" for b :: "('a, 'b, 'c) gate"
    by (simp add: gate_ok_def claims_ok_def versions_ok_def done_ok_def claims_def asked_def)
  from this [OF _ l] l show ?thesis by (simp add: write_failed_def Let_def saver_settles_def)
qed

lemma no_claims_ok:
  assumes "gate_ok a" "ga_pending a = None" "ga_savers a = []" "s \<le> v" "e \<le> v"
  shows "gate_ok (a\<lparr>ga_version := v, ga_saved := s, ga_eventual := e, ga_marks := []\<rparr>)"
  using assms by (simp add: gate_ok_def claims_ok_def versions_ok_def done_ok_def claims_def asked_def)

lemma reload_ok:
  assumes ok: "gate_ok a" and p: "ga_pending a = None" "ga_savers a = []"
  shows "gate_ok (reload_done sm st r a)"
proof -
  let ?a = "a\<lparr>ga_reload := False, ga_etag := map_option snd r, ga_seen := r\<rparr>"
  have "gate_ok ?a" using ok p by (simp add: gate_ok_def claims_ok_def versions_ok_def done_ok_def claims_def asked_def)
  then have b: "gate_ok (consume_dirty (state_write sm (\<lambda>_. st) ?a))" by (intro consume_dirty_ok state_write_ok)
  moreover have "ga_pending (consume_dirty (state_write sm (\<lambda>_. st) ?a)) = None" "ga_savers (consume_dirty (state_write sm (\<lambda>_. st) ?a)) = []"
    using p by (simp_all add: consume_dirty_def mark_version_def state_write_def)
  ultimately show ?thesis
    unfolding reload_done_def Let_def by (intro no_claims_ok) simp_all
qed

lemma reload_failed_ok: "gate_ok a \<Longrightarrow> ga_pending a = None \<Longrightarrow> gate_ok (reload_failed a)"
  by (simp add: reload_failed_def gate_ok_def claims_ok_def versions_ok_def done_ok_def claims_def asked_def)

lemma clear_done_ok:
  assumes ok: "gate_ok a" and p: "ga_pending a = None"
  shows "gate_ok (clear_done sm st a)"
proof -
  let ?a = "a\<lparr>ga_etag := None, ga_seen := None, ga_eventual := 0, ga_marks := [], ga_armed := (ga_armed a \<and> sm_write_behind sm)\<rparr>"
  have "claims_ok ?a"
  proof (rule claims_okI)
    fix w q assume "(w, q) \<in> claims ?a"
    then have "(w, q) \<in> claims a" by (auto simp: claims_def asked_def)
    with claims_okD [of a w q] ok
    show "w \<le> ga_version ?a \<and> q \<le> ga_pos ?a \<and> (w \<le> ga_saved ?a \<longrightarrow> covered ?a w q)
        \<and> (\<forall>fl. ga_pending ?a = Some fl \<longrightarrow> w \<le> fl_version fl \<longrightarrow> q \<le> fl_pos fl)"
      by (auto simp: gate_ok_def)
  qed
  then have "gate_ok ?a" using ok p by (simp add: gate_ok_def versions_ok_def done_ok_def asked_def)
  then show ?thesis unfolding clear_done_def by (rule state_write_ok)
qed

subsection \<open>Against the contract of the storage\<close>

definition seen_ok ::
  "('s \<Rightarrow> string \<Rightarrow> string \<Rightarrow> (('v \<times> 'v list) \<times> string) option) \<Rightarrow> ('s \<Rightarrow> 's \<Rightarrow> bool) \<Rightarrow> ('s \<Rightarrow> bool) \<Rightarrow> string \<Rightarrow> string
     \<Rightarrow> ('st, 'e, 'v) gate \<times> 's \<Rightarrow> bool" where
  "seen_ok ld ev ok t k st \<longleftrightarrow> ok (snd st) \<and> ga_etag (fst st) = map_option snd (ga_seen (fst st))
     \<and> (\<exists>s0. ok s0 \<and> ev s0 (snd st) \<and> ld s0 t k = ga_seen (fst st))"

definition gate_inv ::
  "('s \<Rightarrow> string \<Rightarrow> string \<Rightarrow> (('v \<times> 'v list) \<times> string) option) \<Rightarrow> ('s \<Rightarrow> 's \<Rightarrow> bool) \<Rightarrow> ('s \<Rightarrow> bool) \<Rightarrow> string \<Rightarrow> string
     \<Rightarrow> ('st, 'e, 'v) gate \<times> 's \<Rightarrow> bool" where
  "gate_inv ld ev ok t k st \<longleftrightarrow> gate_ok (fst st) \<and> seen_ok ld ev ok t k st"

lemma gate_seen_writes [simp]:
  "ga_seen (state_write sm f a) = ga_seen a" "ga_etag (state_write sm f a) = ga_etag a"
  "ga_seen (mark_version a) = ga_seen a" "ga_etag (mark_version a) = ga_etag a"
  "ga_seen (consume_dirty a) = ga_seen a" "ga_etag (consume_dirty a) = ga_etag a"
  by (simp_all add: state_write_def consume_dirty_def mark_version_def)

lemma gate_seen_simps [simp]:
  "ga_seen (ctx_save i ev a) = ga_seen a" "ga_etag (ctx_save i ev a) = ga_etag a"
  "ga_seen (ctx_append sm app i e a) = ga_seen a" "ga_etag (ctx_append sm app i e a) = ga_etag a"
  "ga_seen (turn_boundary sm a) = ga_seen a" "ga_etag (turn_boundary sm a) = ga_etag a"
  "ga_seen (debounce_fires a) = ga_seen a" "ga_etag (debounce_fires a) = ga_etag a"
  "ga_seen (flush_turn sm i a) = ga_seen a" "ga_etag (flush_turn sm i a) = ga_etag a"
  "ga_seen (deactivation_flush sm c i a) = ga_seen a" "ga_etag (deactivation_flush sm c i a) = ga_etag a"
  "ga_seen (gate_begin sm w a) = ga_seen a" "ga_etag (gate_begin sm w a) = ga_etag a"
  "ga_seen (write_failed sm w err a) = ga_seen a" "ga_etag (write_failed sm w err a) = ga_etag a"
  "ga_seen (write_landed fl et r a) = r" "ga_etag (write_landed fl et r a) = Some et"
  "ga_seen (reload_done sm st r a) = r" "ga_etag (reload_done sm st r a) = map_option snd r"
  "ga_seen (reload_failed a) = ga_seen a" "ga_etag (reload_failed a) = ga_etag a"
  "ga_seen (clear_done sm st a) = None" "ga_etag (clear_done sm st a) = None"
  by (auto simp: ctx_save_def ctx_append_def turn_boundary_def debounce_fires_def flush_turn_def deactivation_flush_def gate_begin_def
      write_failed_def write_landed_def reload_done_def reload_failed_def clear_done_def saver_done_def saver_settles_def Let_def
      split: option.splits prod.splits)

context append_storage
begin

lemma seen_stays: "seen_ok load evolves ok t k (a, s) \<Longrightarrow> ga_seen a' = ga_seen a \<Longrightarrow> ga_etag a' = ga_etag a \<Longrightarrow> evolves s s'
    \<Longrightarrow> seen_ok load evolves ok t k (a', s')"
  unfolding seen_ok_def fst_conv snd_conv by (metis evolves_ok evolves_trans)

lemma seen_fresh: "ok s \<Longrightarrow> evolves s s' \<Longrightarrow> ga_seen a' = load s' t k \<Longrightarrow> ga_etag a' = map_option snd (load s' t k)
    \<Longrightarrow> seen_ok load evolves ok t k (a', s')"
  unfolding seen_ok_def fst_conv snd_conv by (metis evolves_ok evolves_refl)

text \<open>The record under the etag is the one this activation read or wrote last.\<close>

lemma etag_names_seen:
  assumes "seen_ok load evolves ok t k (a, s)" "map_option snd (load s t k) = ga_etag a"
  shows "load s t k = ga_seen a"
proof -
  from assms(1) obtain s0 where "ok s0" "evolves s0 s" "load s0 t k = ga_seen a" "ga_etag a = map_option snd (ga_seen a)"
    by (auto simp: seen_ok_def)
  with matching_etag_same_record [of s0 s t k] assms(2) show ?thesis by simp
qed

lemma gate_step_seen:
  assumes "gate_step sm app enc ence load save clear append evolves t k (a, s) (a', s')" "seen_ok load evolves ok t k (a, s)"
  shows "seen_ok load evolves ok t k (a', s')"
proof -
  have ok: "ok s" using assms(2) by (simp add: seen_ok_def)
  note same = seen_stays [OF assms(2) _ _ evolves_refl]
  note fresh = seen_fresh [OF ok]
  from assms(1) show ?thesis
  proof cases
    case (lands fl et)
    show ?thesis unfolding lands
      by (rule fresh) (use save_load [OF lands(4)] save_evolves [OF lands(4)] in simp_all)
  next
    case (lands_entry fl e wanted et0 et)
    show ?thesis unfolding lands_entry
      by (rule fresh) (use append_load [OF lands_entry(5)] append_evolves [OF lands_entry(5)] in auto)
  next
    case (reloads st)
    then show ?thesis by (auto intro: fresh)
  next
    case (clears st)
    show ?thesis unfolding clears
      by (rule fresh) (use clear_load [OF clears(3)] clear_evolves [OF clears(3)] in simp_all)
  next
    case others_write
    then show ?thesis using seen_stays [OF assms(2) refl refl] by simp
  qed (auto intro: same)
qed

lemma gate_step_inv:
  assumes "gate_inv load evolves ok t k (a, s)" "gate_step sm app enc ence load save clear append evolves t k (a, s) (a', s')"
  shows "gate_inv load evolves ok t k (a', s')"
proof -
  from assms(1) have g: "gate_ok a" by (simp add: gate_inv_def)
  from assms(2) have "gate_ok a'"
    by cases (use g in \<open>simp_all add: state_write_ok ctx_save_ok ctx_append_ok turn_boundary_ok debounce_fires_ok flush_turn_ok deactivation_flush_ok
      gate_begin_ok write_landed_ok write_failed_ok reload_ok reload_failed_ok clear_done_ok\<close>)
  with gate_step_seen [OF assms(2)] assms(1) show ?thesis by (simp add: gate_inv_def)
qed

lemma gate_start_inv: "gate_start load ok t k (a, s) \<Longrightarrow> gate_inv load evolves ok t k (a, s)"
  unfolding gate_start_def gate_inv_def seen_ok_def
  by (auto simp: new_gate_def gate_ok_def claims_ok_def versions_ok_def done_ok_def claims_def asked_def intro: evolves_refl)

end

interpretation mem_gate: invariant_machine "gate_start mem_view mem_ok t k"
  "gate_step sm app enc ence mem_view mem_save mem_clear mem_append_text mem_evolves t k" "gate_inv mem_view mem_evolves mem_ok t k"
  for sm app enc ence t k
proof (unfold_locales, goal_cases)
  case (1 st)
  then show ?case using mem_app.gate_start_inv by (cases st) blast
next
  case (2 st st')
  then show ?case using mem_app.gate_step_inv by (cases st; cases st') blast
qed

subsection \<open>The gate on its own\<close>

text \<open>The steps of the gate once nothing new is asked: savers begin, writes land or fail.\<close>

inductive gate_turn ::
  "save_mode \<Rightarrow> ('st \<Rightarrow> 'v) \<Rightarrow> ('e \<Rightarrow> 'v)
   \<Rightarrow> ('s \<Rightarrow> string \<Rightarrow> string \<Rightarrow> (('v \<times> 'v list) \<times> string) option)
   \<Rightarrow> ('s \<Rightarrow> string \<Rightarrow> string \<Rightarrow> 'v \<Rightarrow> string option \<Rightarrow> storage_error + (string \<times> 's))
   \<Rightarrow> ('s \<Rightarrow> string \<Rightarrow> string \<Rightarrow> 'v \<Rightarrow> string \<Rightarrow> storage_error + (string \<times> 's)) \<Rightarrow> string \<Rightarrow> string
   \<Rightarrow> ('st, 'e, 'v) gate \<times> 's \<Rightarrow> ('st, 'e, 'v) gate \<times> 's \<Rightarrow> bool"
  for sm enc ence ld sv ap t k where
  turn_begins: "ga_pending a = None \<Longrightarrow> w \<in> set (ga_savers a) \<Longrightarrow> gate_turn sm enc ence ld sv ap t k (a, s) (gate_begin sm w a, s)"
| turn_lands: "ga_pending a = Some fl \<Longrightarrow> fl_entry fl = None \<Longrightarrow> sv s t k (enc (fl_state fl)) (ga_etag a) = Inr (et, s')
    \<Longrightarrow> gate_turn sm enc ence ld sv ap t k (a, s) (write_landed fl et (ld s' t k) a, s')"
| turn_lands_entry: "ga_pending a = Some fl \<Longrightarrow> fl_entry fl = Some (e, wanted) \<Longrightarrow> ga_etag a = Some et0
    \<Longrightarrow> ap s t k (ence e) et0 = Inr (et, s') \<Longrightarrow> gate_turn sm enc ence ld sv ap t k (a, s) (write_landed fl et (ld s' t k) a, s')"
| turn_fails: "ga_pending a = Some fl \<Longrightarrow> fl_entry fl = None \<Longrightarrow> sv s t k (enc (fl_state fl)) (ga_etag a) = Inl err
    \<Longrightarrow> gate_turn sm enc ence ld sv ap t k (a, s) (write_failed sm (fl_saver fl) err a, s)"
| turn_fails_entry: "ga_pending a = Some fl \<Longrightarrow> fl_entry fl = Some (e, wanted) \<Longrightarrow> ga_etag a = Some et0
    \<Longrightarrow> ap s t k (ence e) et0 = Inl err \<Longrightarrow> gate_turn sm enc ence ld sv ap t k (a, s) (write_failed sm (fl_saver fl) err a, s)"
| turn_breaks_off: "ga_pending a = Some fl
    \<Longrightarrow> gate_turn sm enc ence ld sv ap t k (a, s) (write_failed sm (fl_saver fl) (StorageFailure m) a, s)"

lemma gate_turn_is_step: "gate_turn sm enc ence ld sv ap t k st st' \<Longrightarrow> gate_step sm app enc ence ld sv cl ap ev t k st st'"
  by (erule gate_turn.cases) (auto intro: gate_step.intros)

definition saver_weight :: "nat \<Rightarrow> 'e saver \<Rightarrow> nat" where
  "saver_weight saved w = (if saved < sv_wanted w then 3 else 1)"

definition gate_work :: "('st, 'e, 'v) gate \<Rightarrow> nat" where
  "gate_work a = (if ga_savers a = [] then 0
     else sum_list (map (saver_weight (ga_saved a)) (ga_savers a)) + (if ga_pending a = None then 1 else 0))"

lemma gate_work_0: "gate_work a = 0 \<longleftrightarrow> ga_savers a = []"
  by (cases "ga_savers a") (auto simp: gate_work_def saver_weight_def)

lemma saver_leaves_work:
  assumes "w \<in> set ws"
  shows "sum_list (map (saver_weight n) (remove1 w ws)) + saver_weight n w = sum_list (map (saver_weight n) ws)"
  using sum_list_map_remove1 [OF assms, of "saver_weight n"] by simp

lemma saver_weight_mono: "m \<le> n \<Longrightarrow> saver_weight n w \<le> saver_weight m w"
  by (simp add: saver_weight_def)

lemma saved_work:
  assumes "m \<le> n" "w \<in> set ws" "m < sv_wanted w" "sv_wanted w \<le> n"
  shows "sum_list (map (saver_weight n) ws) + 2 \<le> sum_list (map (saver_weight m) ws)"
proof -
  have "sum_list (map (saver_weight n) (remove1 w ws)) \<le> sum_list (map (saver_weight m) (remove1 w ws))"
    by (rule sum_list_mono) (rule saver_weight_mono [OF assms(1)])
  moreover have "saver_weight n w + 2 = saver_weight m w" using assms(3,4) by (simp add: saver_weight_def)
  ultimately show ?thesis using saver_leaves_work [OF assms(2), of n] saver_leaves_work [OF assms(2), of m] by linarith
qed

lemma gate_turn_work:
  assumes ok: "gate_ok a" and step: "gate_turn sm enc ence ld sv ap t k (a, s) (a', s')"
  shows "gate_work a' < gate_work a"
proof -
  have pend: "ga_pending a = Some fl \<Longrightarrow> fl_saver fl \<in> set (ga_savers a) \<and> ga_saved a < sv_wanted (fl_saver fl)
      \<and> sv_wanted (fl_saver fl) \<le> fl_version fl \<and> ga_saved a \<le> fl_version fl" for fl
    using ok by (auto simp: gate_ok_def versions_ok_def)
  have failed: "gate_work (write_failed sm (fl_saver fl) err a) < gate_work a" if p: "ga_pending a = Some fl" for fl err
  proof -
    have "saver_weight (ga_saved a) (fl_saver fl) = 3" using pend [OF p] by (simp add: saver_weight_def)
    then show ?thesis using pend [OF p] p saver_leaves_work [of "fl_saver fl" "ga_savers a" "ga_saved a"]
      by (auto simp: gate_work_def write_failed_def saver_settles_def Let_def)
  qed
  have landed: "gate_work (write_landed fl et r a) < gate_work a" if p: "ga_pending a = Some fl" for fl et r
  proof (cases "fl_entry fl")
    case None
    have le: "sum_list (map (saver_weight (fl_version fl)) (ga_savers a)) + 2 \<le> sum_list (map (saver_weight (ga_saved a)) (ga_savers a))"
      using saved_work pend [OF p] by blast
    have "ga_savers a \<noteq> []" using pend [OF p] by auto
    with le pend [OF p] p None saver_leaves_work [of "fl_saver fl" "ga_savers a" "fl_version fl"] show ?thesis
      by (auto simp: gate_work_def write_landed_def saver_done_def Let_def)
  next
    case (Some ew)
    obtain e wanted where ew: "ew = (e, wanted)" by force
    let ?n = "if Suc (ga_saved a) = wanted then wanted else ga_saved a" and ?rest = "remove1 (fl_saver fl) (ga_savers a)"
    have "sum_list (map (saver_weight ?n) ?rest) \<le> sum_list (map (saver_weight (ga_saved a)) ?rest)"
      by (rule sum_list_mono) (auto intro: saver_weight_mono)
    moreover have "saver_weight (ga_saved a) (fl_saver fl) = 3" using pend [OF p] by (simp add: saver_weight_def)
    ultimately have "sum_list (map (saver_weight ?n) ?rest) + 3 \<le> sum_list (map (saver_weight (ga_saved a)) (ga_savers a))"
      using saver_leaves_work [of "fl_saver fl" "ga_savers a" "ga_saved a"] pend [OF p] by linarith
    moreover have "ga_savers a \<noteq> []" using pend [OF p] by auto
    ultimately show ?thesis using Some ew p by (auto simp: gate_work_def write_landed_def saver_done_def Let_def)
  qed
  have begins: "gate_work (gate_begin sm w a) < gate_work a" if p: "ga_pending a = None" and w: "w \<in> set (ga_savers a)" for w
  proof -
    have "ga_savers a \<noteq> []" using w by auto
    moreover have "1 \<le> saver_weight (ga_saved a) w" by (simp add: saver_weight_def)
    ultimately show ?thesis using saver_leaves_work [OF w, of "ga_saved a"] p
      by (auto simp: gate_work_def gate_begin_def saver_done_def saver_settles_def)
  qed
  from step show ?thesis by cases (use failed landed begins in auto)
qed

lemma gate_turn_exists:
  assumes ok: "gate_ok a" and w: "gate_work a \<noteq> 0"
  shows "\<exists>st'. gate_turn sm enc ence ld sv ap t k (a, s) st'"
proof (cases "ga_pending a")
  case None
  from w obtain v where "v \<in> set (ga_savers a)" unfolding gate_work_0 by (cases "ga_savers a") auto
  with None show ?thesis by (blast intro: gate_turn.intros)
next
  case (Some fl)
  show ?thesis
  proof (cases "fl_entry fl")
    case None
    with Some show ?thesis
      by (cases "sv s t k (enc (fl_state fl)) (ga_etag a)") (auto intro: turn_fails turn_lands)
  next
    case (Some ew)
    obtain e wanted where ew: "ew = (e, wanted)" by force
    from ok Some ew \<open>ga_pending a = Some fl\<close> obtain et0 where "ga_etag a = Some et0" by (auto simp: gate_ok_def versions_ok_def)
    with Some ew \<open>ga_pending a = Some fl\<close> show ?thesis
      by (cases "ap s t k (ence e) et0") (auto intro: turn_fails_entry turn_lands_entry)
  qed
qed

interpretation mem_gate_turns: finishing_machine "gate_turn sm enc ence mem_view mem_save mem_append_text t k"
  "\<lambda>st. gate_work (fst st)" "gate_inv mem_view mem_evolves mem_ok t k"
  for sm enc ence t k
proof (unfold_locales, goal_cases)
  case (1 st st')
  then show ?case using gate_turn_work by (cases st; cases st') (auto simp: gate_inv_def)
next
  case (2 st st')
  have "gate_step sm undefined enc ence mem_view mem_save mem_clear mem_append_text mem_evolves t k st st'"
    by (rule gate_turn_is_step [OF 2(2)])
  with 2(1) show ?case by (cases st; cases st') (blast intro: mem_app.gate_step_inv)
next
  case (3 st)
  then show ?case using gate_turn_exists by (cases st) (auto simp: gate_inv_def)
qed

subsection \<open>Properties\<close>

abbreviation mem_gate_step where
  "mem_gate_step sm app enc ence t k \<equiv> gate_step sm app enc ence mem_view mem_save mem_clear mem_append_text mem_evolves t k"

text \<open>
  C5. A save that returned is in storage. However the turns of an actor interleave their writes, saves, appends,
  clears and reloads with each other, with the debounced flush and with other writers: of every \<open>save\<close> that
  resolved, a whole-state write landed that was begun at or after it and shows every write made before it;
  of every \<open>append\<close> that resolved, its entry landed or such a write did; and every version the activation holds for saved,
  an eventual save and a write-behind boundary included, was landed in the same sense.
\<close>

theorem acknowledged_saves_landed:
  assumes "reach (gate_start mem_view mem_ok t k) (mem_gate_step sm app enc ence t k) (a, s)"
  shows "(\<forall>w \<in> set (ga_done a). sv_asked w \<longrightarrow>
       (\<exists>(v, q) \<in> set (ga_landed a). sv_wanted w \<le> v \<and> sv_pos w \<le> q) \<or> sv_entry w \<noteq> None \<and> sv_wanted w \<in> set (ga_entries a))
    \<and> (\<forall>(w, p) \<in> set (ga_marks a). w \<le> ga_saved a \<longrightarrow> (\<exists>(v, q) \<in> set (ga_landed a). w \<le> v \<and> p \<le> q))"
proof -
  from mem_gate.reach_inv [OF assms] have ok: "gate_ok a" by (simp add: gate_inv_def)
  have "\<forall>w \<in> set (ga_done a). sv_asked w \<longrightarrow> covered a (sv_wanted w) (sv_pos w) \<or> sv_entry w \<noteq> None \<and> sv_wanted w \<in> set (ga_entries a)"
    using ok by (simp add: gate_ok_def done_ok_def)
  moreover have "covered a w p" if "(w, p) \<in> set (ga_marks a)" "w \<le> ga_saved a" for w p
    using ok claims_okD(3) [of a w p] that by (simp add: gate_ok_def claims_def)
  ultimately show ?thesis unfolding covered_def by blast
qed

text \<open>
  C6. An activation never overwrites what it has not read. When a write in flight lands, the record it
  replaces is the one this activation read or wrote last, whatever other writers did meanwhile: a whole-state
  write leaves exactly the state it carries and an empty log, an append leaves that record's snapshot and log
  with the entry at the end.
\<close>

theorem writes_never_clobber:
  assumes "reach (gate_start mem_view mem_ok t k) (mem_gate_step sm app enc ence t k) (a, s)" "ga_pending a = Some fl"
  shows "(\<forall>et s'. mem_save s t k (enc (fl_state fl)) (ga_etag a) = Inr (et, s') \<longrightarrow>
        mem_view s t k = ga_seen a \<and> mem_view s' t k = Some ((enc (fl_state fl), []), et))
    \<and> (\<forall>e et0 et s'. ga_etag a = Some et0 \<and> mem_append_text s t k (ence e) et0 = Inr (et, s') \<longrightarrow>
        mem_view s t k = ga_seen a
        \<and> (\<exists>v l. ga_seen a = Some ((v, l), et0) \<and> mem_view s' t k = Some ((v, l @ [ence e]), et)))"
proof -
  from mem_gate.reach_inv [OF assms(1)] have seen: "seen_ok mem_view mem_evolves mem_ok t k (a, s)" by (simp add: gate_inv_def)
  have "mem_view s t k = ga_seen a \<and> mem_view s' t k = Some ((enc (fl_state fl), []), et)"
    if "mem_save s t k (enc (fl_state fl)) (ga_etag a) = Inr (et, s')" for et s'
    using mem_app.etag_names_seen [OF seen mem.save_ok [OF that]] mem.save_load [OF that] by (simp add: fresh_record_def)
  moreover have "mem_view s t k = ga_seen a \<and> (\<exists>v l. ga_seen a = Some ((v, l), et0) \<and> mem_view s' t k = Some ((v, l @ [ence e]), et))"
    if "ga_etag a = Some et0" "mem_append_text s t k (ence e) et0 = Inr (et, s')" for e et0 et s'
  proof -
    from mem_app.append_load [OF that(2)] obtain v l where v: "mem_view s t k = Some ((v, l), et0)" "mem_view s' t k = Some ((v, l @ [ence e]), et)"
      by blast
    with mem_app.etag_names_seen [OF seen] that(1) have "mem_view s t k = ga_seen a" by simp
    with v show ?thesis by simp
  qed
  ultimately show ?thesis by blast
qed

text \<open>
  A lost write is final. Once an activation is faulted by a conflict nothing it does afterwards, neither a
  save that waits nor a flush, an append or the flush at deactivation, writes to storage again.
\<close>

theorem conflict_is_final:
  assumes "reach (gate_start mem_view mem_ok t k) (mem_gate_step sm app enc ence t k) (a, s)" "ga_faulted a"
    and "(mem_gate_step sm app enc ence t k)\<^sup>*\<^sup>* (a, s) (a', s')"
  shows "ga_faulted a' \<and> ga_pending a' = None \<and> ga_landed a' = ga_landed a \<and> ga_entries a' = ga_entries a"
proof -
  have none: "ga_pending b = None" if "gate_inv mem_view mem_evolves mem_ok t k (b, u)" "ga_faulted b" for b u
    using that by (cases "ga_pending b") (auto simp: gate_inv_def gate_ok_def versions_ok_def)
  have inv: "gate_inv mem_view mem_evolves mem_ok t k (a, s)" by (rule mem_gate.reach_inv [OF assms(1)])
  from assms(3) have "gate_inv mem_view mem_evolves mem_ok t k (a', s') \<and> ga_faulted a' \<and> ga_landed a' = ga_landed a \<and> ga_entries a' = ga_entries a"
  proof (induction rule: rtranclp_induct2)
    case refl
    with inv assms(2) show ?case by simp
  next
    case (step b u b' u')
    then have i: "gate_inv mem_view mem_evolves mem_ok t k (b, u)" and f: "ga_faulted b" by blast+
    have p: "ga_pending b = None" by (rule none [OF i f])
    have i': "gate_inv mem_view mem_evolves mem_ok t k (b', u')" by (rule mem_app.gate_step_inv [OF i step.hyps(2)])
    from step.hyps(2) have "ga_faulted b' \<and> ga_landed b' = ga_landed b \<and> ga_entries b' = ga_entries b"
      by cases (use f p in \<open>auto simp: state_write_def ctx_save_def ctx_append_def turn_boundary_def debounce_fires_def flush_turn_def deactivation_flush_def
        gate_begin_def saver_done_def saver_settles_def reload_done_def reload_failed_def clear_done_def consume_dirty_def mark_version_def Let_def\<close>)
    with step.IH i' show ?case by simp
  qed
  with none show ?thesis by blast
qed

text \<open>
  C7. Every save settles. From any reachable state the gate's own steps come to an end, in no more than three for
  each waiting save and one more, and then none waits and nothing is in flight: each has been
  acknowledged or has failed, however many writes conflict or break off.
\<close>

theorem saves_settle:
  assumes "reach (gate_start mem_view mem_ok t k) (mem_gate_step sm app enc ence t k) (a, s)"
  shows "(\<forall>n st'. (gate_turn sm enc ence mem_view mem_save mem_append_text t k ^^ n) (a, s) st' \<longrightarrow> n \<le> 3 * length (ga_savers a) + 1)
    \<and> (\<exists>a' s'. (gate_turn sm enc ence mem_view mem_save mem_append_text t k)\<^sup>*\<^sup>* (a, s) (a', s') \<and> ga_savers a' = [] \<and> ga_pending a' = None)"
proof
  have inv: "gate_inv mem_view mem_evolves mem_ok t k (a, s)" by (rule mem_gate.reach_inv [OF assms])
  have bound: "gate_work a \<le> 3 * length (ga_savers a) + 1"
  proof -
    have "sum_list (map (saver_weight n) ws) \<le> 3 * length ws" for n and ws :: "'e saver list"
      by (induction ws) (auto simp: saver_weight_def)
    from this [of "ga_saved a" "ga_savers a"] show ?thesis by (simp add: gate_work_def)
  qed
  show "\<forall>n st'. (gate_turn sm enc ence mem_view mem_save mem_append_text t k ^^ n) (a, s) st' \<longrightarrow> n \<le> 3 * length (ga_savers a) + 1"
    using mem_gate_turns.run_bounded [OF _ inv] bound by fastforce
  obtain a' s' where r: "(gate_turn sm enc ence mem_view mem_save mem_append_text t k)\<^sup>*\<^sup>* (a, s) (a', s')" "gate_work a' = 0"
    using mem_gate_turns.finishes [OF inv] by force
  then obtain n where "(gate_turn sm enc ence mem_view mem_save mem_append_text t k ^^ n) (a, s) (a', s')"
    using rtranclp_imp_relpowp by fastforce
  from mem_gate_turns.run_bounded [OF this inv] have "gate_ok a'" by (simp add: gate_inv_def)
  moreover have "ga_savers a' = []" using r(2) by (simp add: gate_work_0)
  ultimately have "ga_pending a' = None" by (cases "ga_pending a'") (auto simp: gate_ok_def versions_ok_def)
  with r \<open>ga_savers a' = []\<close> show "\<exists>a' s'. (gate_turn sm enc ence mem_view mem_save mem_append_text t k)\<^sup>*\<^sup>* (a, s) (a', s')
      \<and> ga_savers a' = [] \<and> ga_pending a' = None" by blast
qed

subsection \<open>Witnesses\<close>

text \<open>A counter that keeps a list: one save that landed, and an append in flight.\<close>

type_synonym demo_gate = "(nat list, nat, nat list) gate"

definition demo_mode :: save_mode where
  "demo_mode = \<lparr>sm_write_behind = False, sm_tracking = False, sm_retry = False, sm_append = True\<rparr>"

definition demo_app :: "nat \<Rightarrow> nat list \<Rightarrow> nat list" where "demo_app n xs = xs @ [n]"

definition demo_enc :: "nat list \<Rightarrow> nat list" where "demo_enc xs = xs"

definition demo_ence :: "nat \<Rightarrow> nat list" where "demo_ence n = [n]"

abbreviation demo_step :: "demo_gate \<times> nat list mem_storage \<Rightarrow> demo_gate \<times> nat list mem_storage \<Rightarrow> bool" where
  "demo_step \<equiv> mem_gate_step demo_mode demo_app demo_enc demo_ence ''cart'' ''7''"

definition demo_saving :: demo_gate where
  "demo_saving = (let a = ctx_save 1 False (new_gate [] None) in gate_begin demo_mode (hd (ga_savers a)) a)"

definition demo_stored :: "nat list mem_storage" where
  "demo_stored = \<lparr>ms_records = [(record_id ''cart'' ''7'', \<lparr>mr_state = [], mr_etag = ''1'', mr_log = []\<rparr>)], ms_counter = 1\<rparr>"

definition demo_saved :: demo_gate where
  "demo_saved = (let a = write_landed (the (ga_pending demo_saving)) ''1'' (mem_view demo_stored ''cart'' ''7'') demo_saving
                 in gate_begin demo_mode (hd (ga_savers a)) a)"

definition demo_appending :: demo_gate where
  "demo_appending = (let a = ctx_append demo_mode demo_app 2 5 demo_saved in gate_begin demo_mode (hd (ga_savers a)) a)"

lemma demo_saving_reached: "reach (gate_start mem_view mem_ok ''cart'' ''7'') demo_step (demo_saving, memory_storage)"
proof -
  let ?new = "new_gate [] None :: demo_gate"
  have "mem_view memory_storage ''cart'' ''7'' = (None :: ((nat list \<times> nat list list) \<times> string) option)"
    by (simp add: mem_view_def mem_load_def memory_storage_def)
  then have "gate_start mem_view mem_ok ''cart'' ''7'' (?new, memory_storage)" by (auto simp: gate_start_def)
  then have "reach (gate_start mem_view mem_ok ''cart'' ''7'') demo_step (?new, memory_storage)" by (rule reach_init)
  then have "reach (gate_start mem_view mem_ok ''cart'' ''7'') demo_step (ctx_save 1 False ?new, memory_storage)"
    by (rule reach_step) (rule saves)
  then have "reach (gate_start mem_view mem_ok ''cart'' ''7'') demo_step
      (gate_begin demo_mode (hd (ga_savers (ctx_save 1 False ?new))) (ctx_save 1 False ?new), memory_storage)"
    by (rule reach_step) (rule begins; simp add: ctx_save_def mark_version_def consume_dirty_def new_gate_def)
  then show ?thesis by (simp add: demo_saving_def Let_def)
qed

lemma demo_saved_reached: "reach (gate_start mem_view mem_ok ''cart'' ''7'') demo_step (demo_saved, demo_stored)"
proof -
  let ?fl = "the (ga_pending demo_saving)"
  let ?a = "write_landed ?fl ''1'' (mem_view demo_stored ''cart'' ''7'') demo_saving"
  have p: "ga_pending demo_saving = Some ?fl" "fl_entry ?fl = None" by code_simp+
  have s: "mem_save memory_storage ''cart'' ''7'' (demo_enc (fl_state ?fl)) (ga_etag demo_saving) = Inr (''1'', demo_stored)"
    by code_simp
  have "demo_step (demo_saving, memory_storage) (?a, demo_stored)" by (rule lands) (rule p s)+
  with demo_saving_reached have r: "reach (gate_start mem_view mem_ok ''cart'' ''7'') demo_step (?a, demo_stored)" by (rule reach_step)
  have "ga_pending ?a = None" "hd (ga_savers ?a) \<in> set (ga_savers ?a)" by code_simp+
  then have "demo_step (?a, demo_stored) (gate_begin demo_mode (hd (ga_savers ?a)) ?a, demo_stored)" by (rule begins)
  with r show ?thesis unfolding demo_saved_def Let_def by (rule reach_step)
qed

lemma demo_appending_reached: "reach (gate_start mem_view mem_ok ''cart'' ''7'') demo_step (demo_appending, demo_stored)"
proof -
  let ?a = "ctx_append demo_mode demo_app 2 5 demo_saved"
  have "demo_step (demo_saved, demo_stored) (?a, demo_stored)" by (rule appends)
  with demo_saved_reached have r: "reach (gate_start mem_view mem_ok ''cart'' ''7'') demo_step (?a, demo_stored)" by (rule reach_step)
  have "ga_pending ?a = None" "hd (ga_savers ?a) \<in> set (ga_savers ?a)" by code_simp+
  then have "demo_step (?a, demo_stored) (gate_begin demo_mode (hd (ga_savers ?a)) ?a, demo_stored)" by (rule begins)
  with r show ?thesis unfolding demo_appending_def Let_def by (rule reach_step)
qed

theorem acknowledged_saves_landed_witness:
  "map sv_wanted (ga_done demo_saved) = [1] \<and> ga_landed demo_saved \<noteq> []"
proof -
  have d: "map sv_wanted (ga_done demo_saved) = [1]" "sv_asked (hd (ga_done demo_saved))" "sv_entry (hd (ga_done demo_saved)) = None"
    "hd (ga_done demo_saved) \<in> set (ga_done demo_saved)" by code_simp+
  with acknowledged_saves_landed [OF demo_saved_reached] have "ga_landed demo_saved \<noteq> []" by fastforce
  with d(1) show ?thesis by blast
qed

theorem writes_never_clobber_witness:
  "\<exists>fl et s'. ga_pending demo_appending = Some fl \<and> mem_append_text demo_stored ''cart'' ''7'' [5] ''1'' = Inr (et, s')
     \<and> mem_view s' ''cart'' ''7'' = Some (([], [[5]]), et)"
proof -
  obtain fl where fl: "ga_pending demo_appending = Some fl" by (cases "ga_pending demo_appending") (code_simp, blast)
  have e: "ga_etag demo_appending = Some ''1''" "ga_seen demo_appending = Some (([], []), ''1'')" by code_simp+
  obtain et s' where a: "mem_append_text demo_stored ''cart'' ''7'' [5] ''1'' = Inr (et, s')"
    by (auto simp: mem_append_text_def demo_stored_def Let_def)
  then have "mem_append_text demo_stored ''cart'' ''7'' (demo_ence 5) ''1'' = Inr (et, s')" by (simp add: demo_ence_def)
  with writes_never_clobber [OF demo_appending_reached fl] e have "mem_view s' ''cart'' ''7'' = Some (([], [] @ [demo_ence 5]), et)" by fastforce
  then have "mem_view s' ''cart'' ''7'' = Some (([], [[5]]), et)" by (simp add: demo_ence_def)
  with fl a show ?thesis by blast
qed

theorem conflict_is_final_witness:
  "ga_landed (ctx_save 9 False (write_failed demo_mode (fl_saver (the (ga_pending demo_appending))) (StorageConflict ''cart'' ''7'') demo_appending)) = [(1, 0)]"
proof -
  let ?b = "write_failed demo_mode (fl_saver (the (ga_pending demo_appending))) (StorageConflict ''cart'' ''7'') demo_appending"
  define others where "others = (demo_stored\<lparr>ms_records := []\<rparr>)"
  have c: "mem_clear demo_stored ''cart'' ''7'' (Some ''1'') = Inr others" unfolding others_def by code_simp
  have ev: "mem_evolves demo_stored others" by (rule mem_evolves_intros(3) [OF c])
  have fl: "ga_pending demo_appending = Some (the (ga_pending demo_appending))" "fl_entry (the (ga_pending demo_appending)) = Some (5, 2)"
    "ga_etag demo_appending = Some ''1''" by code_simp+
  have x: "mem_append_text others ''cart'' ''7'' (demo_ence 5) ''1'' = Inl (StorageConflict ''cart'' ''7'')" unfolding others_def by code_simp
  have "demo_step (demo_appending, demo_stored) (demo_appending, others)" using ev by (rule others_write)
  with demo_appending_reached have "reach (gate_start mem_view mem_ok ''cart'' ''7'') demo_step (demo_appending, others)" by (rule reach_step)
  moreover have "demo_step (demo_appending, others) (?b, others)" by (rule fails_entry) (rule fl x)+
  ultimately have r: "reach (gate_start mem_view mem_ok ''cart'' ''7'') demo_step (?b, others)" by (rule reach_step)
  have f: "ga_faulted ?b" "ga_landed ?b = [(1, 0)]" by code_simp+
  have "demo_step\<^sup>*\<^sup>* (?b, others) (ctx_save 9 False ?b, others)" by (rule r_into_rtranclp) (rule saves)
  from conflict_is_final [OF r f(1) this] f(2) show ?thesis by simp
qed

theorem saves_settle_witness:
  "\<exists>a' s'. (gate_turn demo_mode demo_enc demo_ence mem_view mem_save mem_append_text ''cart'' ''7'')\<^sup>*\<^sup>* (demo_appending, demo_stored) (a', s')
     \<and> ga_savers a' = []"
  using saves_settle [OF demo_appending_reached] by blast

end
