(* ===== verification/Activation_Seed.thy ===== *)
theory Activation_Seed
  imports Save_Gate
begin

section \<open>The state an activation starts from\<close>

text \<open>
  \<open>seedFromStorage\<close>, \<open>replayLog\<close> and \<open>checkMigrated\<close> of \<open>host/activation.ts\<close>. What decodes a stored value and an
  entry, the initial state, the hook and the reducer belong to the definition or the codec and are parameters; the
  hook's answer is what \<open>checkMigrated\<close> and the identity test tell apart.
\<close>

datatype 'st migrated = Unchanged | Migrated 'st | Not_An_Object | A_Promise

datatype seed_error = No_Reducer nat | Migration_Not_An_Object | Migration_A_Promise | Seed_Storage storage_error

datatype 'st migration = No_Migration | Lazy_Migration "'st \<Rightarrow> 'st migrated" | Eager_Migration "'st \<Rightarrow> 'st migrated"

definition replay_log :: "('e \<Rightarrow> 'st \<Rightarrow> 'st) option \<Rightarrow> 'e list \<Rightarrow> 'st \<Rightarrow> seed_error + 'st" where
  "replay_log app log st = (if log = [] then Inr st
     else case app of None \<Rightarrow> Inl (No_Reducer (length log)) | Some f \<Rightarrow> Inr (fold f log st))"

definition check_migrated :: "'st \<Rightarrow> 'st migrated \<Rightarrow> seed_error + 'st" where
  "check_migrated st m = (case m of Unchanged \<Rightarrow> Inr st | Migrated st' \<Rightarrow> Inr st'
     | Not_An_Object \<Rightarrow> Inl Migration_Not_An_Object | A_Promise \<Rightarrow> Inl Migration_A_Promise)"

definition seeded :: "('e \<Rightarrow> 'st \<Rightarrow> 'st) option \<Rightarrow> 'e list \<Rightarrow> string \<Rightarrow> 'st \<Rightarrow> seed_error + ('st \<times> string option)" where
  "seeded app log et st = res_bind (replay_log app log st) (\<lambda>st'. Inr (st', Some et))"

text \<open>The reload of a lost eager write-back: adopt the winner, run the hook on it, write nothing.\<close>

definition adopt_winner ::
  "('st \<Rightarrow> 'st migrated) \<Rightarrow> 'st \<Rightarrow> ('v \<Rightarrow> 'st) \<Rightarrow> ('v \<Rightarrow> 'e) \<Rightarrow> ('e \<Rightarrow> 'st \<Rightarrow> 'st) option
     \<Rightarrow> (('v \<times> 'v list) \<times> string) option \<Rightarrow> seed_error + ('st \<times> string option)" where
  "adopt_winner hook fresh dec dece app stored = (case stored of
       None \<Rightarrow> Inr (fresh, None)
     | Some ((v, log), et) \<Rightarrow> res_bind (check_migrated (dec v) (hook (dec v))) (seeded app (map dece log) et))"

definition seed_from_storage ::
  "('s \<Rightarrow> string \<Rightarrow> string \<Rightarrow> (('v \<times> 'v list) \<times> string) option)
     \<Rightarrow> ('s \<Rightarrow> string \<Rightarrow> string \<Rightarrow> 'v \<Rightarrow> string option \<Rightarrow> storage_error + (string \<times> 's))
     \<Rightarrow> 'st migration \<Rightarrow> 'st \<Rightarrow> ('st \<Rightarrow> 'v) \<Rightarrow> ('v \<Rightarrow> 'st) \<Rightarrow> ('v \<Rightarrow> 'e) \<Rightarrow> ('e \<Rightarrow> 'st \<Rightarrow> 'st) option
     \<Rightarrow> string \<Rightarrow> string \<Rightarrow> ('s \<Rightarrow> 's) \<Rightarrow> ('s \<Rightarrow> 's) \<Rightarrow> 's \<Rightarrow> (seed_error + ('st \<times> string option)) \<times> 's" where
  "seed_from_storage ld sv spec fresh enc dec dece app t k others others' s =
     (case ld s t k of
        None \<Rightarrow> (Inr (fresh, None), s)
      | Some ((v, log), et) \<Rightarrow>
          let st = dec v; entries = map dece log;
              migrate = (\<lambda>hook eager. case check_migrated st (hook st) of
                  Inl e \<Rightarrow> (Inl e, s)
                | Inr st' \<Rightarrow>
                    if hook st = Unchanged then (seeded app entries et st, s)
                    else (case replay_log app entries st' of
                        Inl e \<Rightarrow> (Inl e, s)
                      | Inr st'' \<Rightarrow>
                          if \<not> eager then (Inr (st'', Some et), s)
                          else (case sv (others s) t k (enc st'') (Some et) of
                              Inr (et', s') \<Rightarrow> (Inr (st'', Some et'), s')
                            | Inl e \<Rightarrow> if \<not> is_storage_conflict e then (Inl (Seed_Storage e), others s)
                                       else (adopt_winner hook fresh dec dece app (ld (others' (others s)) t k), others' (others s)))))
          in case spec of
               No_Migration \<Rightarrow> (seeded app entries et st, s)
             | Lazy_Migration hook \<Rightarrow> migrate hook False
             | Eager_Migration hook \<Rightarrow> migrate hook True)"

subsection \<open>Reading back what was appended\<close>

text \<open>Appends one after another, each under the etag the last one minted.\<close>

fun append_all :: "'v mem_storage \<Rightarrow> string \<Rightarrow> string \<Rightarrow> 'v list \<Rightarrow> string \<Rightarrow> storage_error + (string \<times> 'v mem_storage)" where
  "append_all s t k [] et = Inr (et, s)"
| "append_all s t k (e # es) et = res_bind (mem_append_text s t k e et) (\<lambda>(et', s'). append_all s' t k es et')"

lemma append_all_view:
  "mem_view s t k = Some ((v, l), et) \<Longrightarrow>
     \<exists>et' s'. append_all s t k es et = Inr (et', s') \<and> mem_view s' t k = Some ((v, l @ es), et')"
proof (induction es arbitrary: s l et)
  case (Cons e es)
  from Cons.prems obtain et1 s1 where a: "mem_append_text s t k e et = Inr (et1, s1)"
    by (auto simp: mem_append_text_def mem_view_def mem_load_def Let_def)
  from mem_app.append_load [OF a] Cons.prems have "mem_view s1 t k = Some ((v, l @ [e]), et1)" by auto
  from Cons.IH [OF this] a show ?case by simp
qed simp

text \<open>
  C8. A state that was saved and then grew by appends is read back whole. After a successful save and any
  number of appends under the etags they return, the next activation starts from the saved state with
  every entry folded in, in order, under the etag of the last append, so it can write at once.
\<close>

theorem appended_state_replays:
  assumes "mem_save s t k (enc st) e0 = Inr (et0, s1)" "append_all s1 t k (map ence es) et0 = Inr (et, s2)"
    and "\<And>x. dec (enc x) = x" "\<And>e. dece (ence e) = e"
  shows "seed_from_storage mem_view mem_save No_Migration fresh enc dec dece (Some app) t k others others' s2
           = (Inr (fold app es st, Some et), s2)
    \<and> (\<exists>et' s3. mem_save s2 t k (enc (fold app es st)) (Some et) = Inr (et', s3))"
proof -
  have "mem_view s1 t k = Some ((enc st, []), et0)" using mem.save_load [OF assms(1)] by (simp add: fresh_record_def)
  from append_all_view [OF this, of "map ence es"] assms(2) have v: "mem_view s2 t k = Some ((enc st, map ence es), et)" by auto
  have m: "map dece (map ence es) = es" by (simp add: assms(4) comp_def)
  have "replay_log (Some app) es st = Inr (fold app es st)" by (simp add: replay_log_def)
  with v m assms(3) have "seed_from_storage mem_view mem_save No_Migration fresh enc dec dece (Some app) t k others others' s2
           = (Inr (fold app es st, Some et), s2)"
    by (simp add: seed_from_storage_def seeded_def Let_def)
  moreover have "\<exists>et' s3. mem_save s2 t k (enc (fold app es st)) (Some et) = Inr (et', s3)"
    by (rule mem.save_accepts) (simp add: v)
  ultimately show ?thesis by blast
qed

text \<open>
  Seeding never loses a record. An activation that is seeded holds the etag of a record it has read or
  written itself: without an eager migration nothing is written; an eager write-back that wins replaced exactly the record
  it was derived from; one that loses writes nothing, and the winner is what is read.
\<close>

theorem seeding_is_safe:
  assumes "mem_ok s" "mem_evolves s (others s)"
    and "seed_from_storage mem_view mem_save spec fresh enc dec dece app t k others others' s = (Inr (st, et), s')"
  shows "(s' = s \<and> et = map_option snd (mem_view s t k))
    \<or> (mem_view (others s) t k = mem_view s t k \<and> (\<exists>et'. et = Some et' \<and> mem_view s' t k = Some ((enc st, []), et')))
    \<or> (s' = others' (others s) \<and> et = map_option snd (mem_view s' t k) \<and> map_option snd (mem_view (others s) t k) \<noteq> map_option snd (mem_view s t k))"
proof (cases "mem_view s t k")
  case None
  with assms(3) show ?thesis by (auto simp: seed_from_storage_def)
next
  case (Some r)
  obtain v log et0 where r: "r = ((v, log), et0)" by (metis prod.exhaust)
  have seeded: "seeded app xs e x = Inr (st, et) \<Longrightarrow> et = Some e" for xs e x by (auto simp: seeded_def res_bind_eq_Inr)
  have lost: "map_option snd (mem_view (others s) t k) \<noteq> Some et0" if "mem_save (others s) t k x (Some et0) = Inl e" for x e
    using that mem.save_accepts [of "others s" t k "Some et0" x] by auto
  have winner: "adopt_winner hook fresh dec dece app (mem_view u t k) = Inr (st, et) \<Longrightarrow> et = map_option snd (mem_view u t k)" for hook u
    using seeded by (auto simp: adopt_winner_def res_bind_eq_Inr split: option.splits prod.splits)
  have won: "mem_view (others s) t k = mem_view s t k \<and> mem_view s'' t k = Some ((enc x, []), et'')"
    if "mem_save (others s) t k (enc x) (Some et0) = Inr (et'', s'')" for x et'' s''
    using mem.cas_save_sees_read [OF assms(1,2), of t k "enc x" et'' s''] that Some r by (simp add: fresh_record_def)
  show ?thesis
  proof (cases spec)
    case No_Migration
    with assms(3) Some r seeded show ?thesis by (auto simp: seed_from_storage_def Let_def)
  next
    case (Lazy_Migration hook)
    with assms(3) Some r seeded show ?thesis
      by (auto simp: seed_from_storage_def Let_def split: sum.splits if_splits)
  next
    case (Eager_Migration hook)
    with assms(3) Some r seeded won lost winner show ?thesis
      by (auto simp: seed_from_storage_def Let_def split: sum.splits if_splits prod.splits)
  qed
qed

subsection \<open>Witnesses\<close>

lemma first_etag: "\<exists>s1. mem_save memory_storage ''cart'' ''7'' v None = Inr (''1'', s1)"
proof -
  have "show_nat (Suc 0) = ''1''" by code_simp
  then show ?thesis by (simp add: mem_save_def memory_storage_def etag_of_def Let_def)
qed

theorem appended_state_replays_witness:
  "\<exists>et s2. append_all (snd (the (case mem_save memory_storage ''cart'' ''7'' [1] None of Inr p \<Rightarrow> Some p | Inl _ \<Rightarrow> None))) ''cart'' ''7'' [[2], [3]] ''1'' = Inr (et, s2)
     \<and> fst (seed_from_storage mem_view mem_save No_Migration [] (\<lambda>x. x) (\<lambda>x. x) (\<lambda>x. x) (Some (\<lambda>e st. st @ e)) ''cart'' ''7'' (\<lambda>x. x) (\<lambda>x. x) s2)
       = Inr ([1, 2, 3 :: nat], Some et)"
proof -
  obtain s1 where s: "mem_save memory_storage ''cart'' ''7'' [1 :: nat] None = Inr (''1'', s1)" using first_etag [of "[1 :: nat]"] ..
  have v: "mem_view s1 ''cart'' ''7'' = Some (([1 :: nat], []), ''1'')" using mem.save_load [OF s] by (simp add: fresh_record_def)
  obtain et s2 where "append_all s1 ''cart'' ''7'' [[2], [3]] ''1'' = Inr (et, s2)" using append_all_view [OF v, of "[[2], [3]]"] by auto
  then have a: "append_all s1 ''cart'' ''7'' (map (\<lambda>x. x) [[2], [3]]) ''1'' = Inr (et, s2)" by (simp only: map_ident)
  from appended_state_replays [OF _ a, of memory_storage "\<lambda>x. x" "[1]" None "\<lambda>x. x" "\<lambda>x. x" "[]" "\<lambda>e st. st @ e" "\<lambda>x. x" "\<lambda>x. x"] s a
  show ?thesis by (intro exI [of _ et] exI [of _ s2]) simp
qed

theorem seeding_is_safe_witness:
  "\<exists>s1 s2 et. mem_save memory_storage ''cart'' ''7'' (3 :: nat) None = Inr (''1'', s1)
    \<and> seed_from_storage mem_view mem_save (Eager_Migration (\<lambda>x. Migrated (x + 1))) 0 (\<lambda>x. x) (\<lambda>x. x) (\<lambda>x. x :: nat) None ''cart'' ''7'' (\<lambda>x. x) (\<lambda>x. x) s1
      = (Inr (4, Some et), s2)
    \<and> mem_view s2 ''cart'' ''7'' = Some ((4, []), et)"
proof -
  obtain s1 where s: "mem_save memory_storage ''cart'' ''7'' (3 :: nat) None = Inr (''1'', s1)" using first_etag [of "3 :: nat"] ..
  then have v: "mem_view s1 ''cart'' ''7'' = Some ((3, []), ''1'')" using mem.save_load [OF s] by (simp add: fresh_record_def)
  then have "map_option snd (mem_view s1 ''cart'' ''7'') = Some ''1''" by simp
  from mem.save_accepts [OF this, of 4] obtain et s2 where w: "mem_save s1 ''cart'' ''7'' 4 (Some ''1'') = Inr (et, s2)" by blast
  have e: "seed_from_storage mem_view mem_save (Eager_Migration (\<lambda>x. Migrated (x + 1))) 0 (\<lambda>x. x) (\<lambda>x. x) (\<lambda>x. x :: nat) None ''cart'' ''7'' (\<lambda>x. x) (\<lambda>x. x) s1
      = (Inr (4, Some et), s2)"
    using v w by (simp add: seed_from_storage_def check_migrated_def replay_log_def)
  have ok: "mem_ok s1" by (rule mem.evolves_ok [OF mem.save_evolves [OF s]]) simp
  have "s1 \<noteq> s2"
    using w v mem.save_load [OF w] by (auto simp: fresh_record_def)
  with seeding_is_safe [OF ok _ e] have "\<exists>et'. Some et = Some et' \<and> mem_view s2 ''cart'' ''7'' = Some ((4, []), et')"
    using v mem.save_load [OF w] by (auto simp: fresh_record_def)
  with s e show ?thesis by blast
qed

end
