(* ===== verification/Detached_Tasks.thy ===== *)
theory Detached_Tasks
  imports Machines Task_Ledger
begin

section \<open>Detached tasks of an activation\<close>

text \<open>
  \<open>host/activation.ts\<close>: \<open>#startTask\<close>, \<open>#resumeTask\<close>, \<open>#launch\<close>, \<open>#taskBody\<close>, \<open>#forgetTask\<close>, \<open>#cancelTask\<close>, the
  resume loop of \<open>create\<close>, the self-heal of the liveness reminder, and what deactivation does to runs. A run is
  an asynchronous function; \<open>rn_stage\<close> is where it waits. An edit of the ledger is one step at its write, which
  \<open>ledger_no_lost_update\<close> of \<^verbatim>\<open>Task_Ledger\<close> justifies, in the order of the writer chain; a roster edit likewise,
  in the order of its group commit. A failing write may still have landed. One actor is modelled, on the hosts it
  moves between. \<open>tw_owed\<close> is there for the properties: the names whose start was acknowledged and whose body
  has not ended on its own since. A start from \<open>onActivate\<close> is not modelled.
\<close>

datatype stage = Start_Writing | Start_Tracking | Rolling_Back | Resume_Writing | Running | Forgetting | Untracking | Over

datatype ledger_op = Put_Start | Take_Back | Bump_Restarts | Drop_Entry

datatype abort_reason = Cancelled | Going_Away string

datatype task_error = Task_Faulted | Task_Shutdown | Task_Unknown string

record 'i task_run =
  rn_name :: string
  rn_started :: int
  rn_restarts :: nat
  rn_input :: "'i option"
  rn_signal :: "abort_reason option"
  rn_launched :: bool
  rn_stage :: stage

text \<open>The fields of the activation, with the writer chain of its ledger and its roster edits in flight.\<close>

record 'i jobs =
  jb_host :: string
  jb_runs :: "nat \<Rightarrow> 'i task_run"
  jb_next :: nat
  jb_tasks :: "(string, nat) jmap"
  jb_settling :: "nat list"
  jb_keep :: int
  jb_aborted :: bool
  jb_faulted :: bool
  jb_creating :: bool
  jb_resuming :: "(string \<times> 'i task_entry) list"
  jb_chain :: "(nat \<times> ledger_op) list"
  jb_roster :: "(nat \<times> bool) list"

record 'i task_world =
  tw_ledger :: "'i task_ledger"
  tw_rosters :: "string list"
  tw_jobs :: "'i jobs option"
  tw_dead :: "string list"
  tw_owed :: "string list"

text \<open>The definition: the names of its \<open>tasks:\<close> section, and whether \<open>resumeTasks\<close> derives the ledger from state.\<close>

record task_def =
  td_names :: "string list"
  td_derived :: bool

subsection \<open>Operations\<close>

definition new_task_run :: "string \<Rightarrow> int \<Rightarrow> nat \<Rightarrow> 'i option \<Rightarrow> stage \<Rightarrow> 'i task_run" where
  "new_task_run name started restarts input st = \<lparr>rn_name = name, rn_started = started, rn_restarts = restarts,
     rn_input = input, rn_signal = None, rn_launched = False, rn_stage = st\<rparr>"

definition reserve_run :: "'i task_run \<Rightarrow> 'i jobs \<Rightarrow> 'i jobs" where
  "reserve_run r j = j\<lparr>jb_runs := (jb_runs j)(jb_next j := r), jb_next := Suc (jb_next j),
     jb_tasks := jset (jb_tasks j) (rn_name r) (jb_next j), jb_settling := jb_settling j @ [jb_next j], jb_keep := jb_keep j + 1\<rparr>"

definition release_run :: "nat \<Rightarrow> 'i jobs \<Rightarrow> 'i jobs" where
  "release_run i j = (let n = rn_name (jb_runs j i)
     in j\<lparr>jb_tasks := (if jget (jb_tasks j) n = Some i then jdel (jb_tasks j) n else jb_tasks j), jb_keep := jb_keep j - 1\<rparr>)"

definition set_stage :: "nat \<Rightarrow> stage \<Rightarrow> 'i jobs \<Rightarrow> 'i jobs" where
  "set_stage i st j = j\<lparr>jb_runs := (jb_runs j)(i := (jb_runs j i)\<lparr>rn_stage := st\<rparr>)\<rparr>"

definition settle_run :: "nat \<Rightarrow> 'i jobs \<Rightarrow> 'i jobs" where
  "settle_run i j = set_stage i Over (j\<lparr>jb_settling := removeAll i (jb_settling j)\<rparr>)"

definition launch_run :: "nat \<Rightarrow> 'i jobs \<Rightarrow> 'i jobs" where
  "launch_run i j = j\<lparr>jb_runs := (jb_runs j)(i := (jb_runs j i)\<lparr>rn_launched := True, rn_stage := Running\<rparr>)\<rparr>"

definition abort_run :: "abort_reason \<Rightarrow> 'i task_run \<Rightarrow> 'i task_run" where
  "abort_run why r = (if rn_signal r = None then r\<lparr>rn_signal := Some why\<rparr> else r)"

text \<open>\<open>#startTask\<close> up to its first await: \<open>Inr None\<close> returns at once, \<open>Inr (Some i)\<close> waits for its durable writes.\<close>

definition start_task :: "task_def \<Rightarrow> string \<Rightarrow> 'i option \<Rightarrow> int \<Rightarrow> 'i jobs \<Rightarrow> (task_error + nat option) \<times> 'i jobs" where
  "start_task d name input now j =
     (if jb_faulted j then (Inl Task_Faulted, j)
      else if jb_aborted j then (Inl Task_Shutdown, j)
      else if jhas (jb_tasks j) name then (Inr None, j)
      else if name \<notin> set (td_names d) then (Inl (Task_Unknown name), j)
      else let i = jb_next j;
               j = reserve_run (new_task_run name now 0 input (if td_derived d then Start_Tracking else Start_Writing)) j
           in (Inr (Some i), if td_derived d then j\<lparr>jb_roster := jb_roster j @ [(i, True)]\<rparr>
                             else j\<lparr>jb_chain := jb_chain j @ [(i, Put_Start)]\<rparr>))"

text \<open>\<open>#forgetTask\<close>: a derived ledger is only read, a stored one edited.\<close>

definition forget_task :: "task_def \<Rightarrow> 'i task_ledger \<Rightarrow> nat \<Rightarrow> 'i jobs \<Rightarrow> 'i jobs" where
  "forget_task d ledger i j =
     (if td_derived d then (if ledger = [] then set_stage i Untracking (j\<lparr>jb_roster := jb_roster j @ [(i, False)]\<rparr>) else settle_run i j)
      else set_stage i Forgetting (j\<lparr>jb_chain := jb_chain j @ [(i, Drop_Entry)]\<rparr>))"

definition resume_task :: "task_def \<Rightarrow> 'i task_ledger \<Rightarrow> string \<Rightarrow> 'i task_entry \<Rightarrow> 'i jobs \<Rightarrow> 'i jobs" where
  "resume_task d ledger name e j =
     (if jb_faulted j \<or> jb_aborted j \<or> jhas (jb_tasks j) name then j
      else let i = jb_next j; r = new_task_run name (te_started e) (Suc (te_restarts e)) (te_input e) Resume_Writing
           in if name \<notin> set (td_names d)
              then forget_task d ledger i (j\<lparr>jb_runs := (jb_runs j)(i := r\<lparr>rn_stage := Forgetting\<rparr>), jb_next := Suc i\<rparr>)
              else if td_derived d then launch_run i (reserve_run r j)
              else (reserve_run r j)\<lparr>jb_chain := jb_chain j @ [(i, Bump_Restarts)]\<rparr>)"

text \<open>\<open>#taskBody\<close> after the body: an interrupted run keeps its entry.\<close>

definition interrupted :: "'i task_run \<Rightarrow> bool" where
  "interrupted r \<longleftrightarrow> rn_signal r \<noteq> None \<and> rn_signal r \<noteq> Some Cancelled"

definition body_ends :: "task_def \<Rightarrow> 'i task_ledger \<Rightarrow> nat \<Rightarrow> 'i jobs \<Rightarrow> 'i jobs" where
  "body_ends d ledger i j = (let j = release_run i j
     in if interrupted (jb_runs j i) then settle_run i j else forget_task d ledger i j)"

definition cancel_task :: "string \<Rightarrow> 'i jobs \<Rightarrow> 'i jobs" where
  "cancel_task name j = (case jget (jb_tasks j) name of None \<Rightarrow> j
     | Some i \<Rightarrow> j\<lparr>jb_runs := (jb_runs j)(i := abort_run Cancelled (jb_runs j i))\<rparr>)"

definition abort_all :: "string \<Rightarrow> 'i jobs \<Rightarrow> 'i jobs" where
  "abort_all why j = j\<lparr>jb_aborted := True,
     jb_runs := (\<lambda>i. if i \<in> snd ` set (jb_tasks j) then abort_run (Going_Away why) (jb_runs j i) else jb_runs j i)\<rparr>"

definition list_tasks :: "'i jobs \<Rightarrow> (string \<times> int \<times> nat) list" where
  "list_tasks j = map (\<lambda>(n, i). (rn_name (jb_runs j i), rn_started (jb_runs j i), rn_restarts (jb_runs j i))) (jb_tasks j)"

subsection \<open>The durable halves\<close>

definition apply_op :: "ledger_op \<Rightarrow> 'i task_run \<Rightarrow> 'i task_ledger \<Rightarrow> 'i task_ledger" where
  "apply_op oper r l = (case oper of
       Put_Start \<Rightarrow> ledger_start (rn_name r) (rn_input r) (rn_started r) l
     | Take_Back \<Rightarrow> (case jget l (rn_name r) of None \<Rightarrow> l
          | Some e \<Rightarrow> if te_started e = rn_started r \<and> te_restarts e = 0 then ledger_finish (rn_name r) l else l)
     | Bump_Restarts \<Rightarrow> (case jget l (rn_name r) of None \<Rightarrow> l | Some e \<Rightarrow> jset l (rn_name r) (e\<lparr>te_restarts := rn_restarts r\<rparr>))
     | Drop_Entry \<Rightarrow> ledger_finish (rn_name r) l)"

definition write_lands :: "nat \<Rightarrow> ledger_op \<Rightarrow> (nat \<times> ledger_op) list \<Rightarrow> 'i jobs \<Rightarrow> 'i task_world \<Rightarrow> 'i task_world" where
  "write_lands i oper q j w =
     (let l = apply_op oper (jb_runs j i) (tw_ledger w); j = j\<lparr>jb_chain := q\<rparr>
      in w\<lparr>tw_ledger := l, tw_jobs := Some (case oper of
             Put_Start \<Rightarrow> set_stage i Start_Tracking (j\<lparr>jb_roster := jb_roster j @ [(i, True)]\<rparr>)
           | Take_Back \<Rightarrow> settle_run i j
           | Bump_Restarts \<Rightarrow> launch_run i j
           | Drop_Entry \<Rightarrow> if l = [] then set_stage i Untracking (j\<lparr>jb_roster := jb_roster j @ [(i, False)]\<rparr>) else settle_run i j)\<rparr>)"

definition write_fails :: "bool \<Rightarrow> nat \<Rightarrow> ledger_op \<Rightarrow> (nat \<times> ledger_op) list \<Rightarrow> 'i jobs \<Rightarrow> 'i task_world \<Rightarrow> 'i task_world" where
  "write_fails landed i oper q j w =
     (let l = (if landed then apply_op oper (jb_runs j i) (tw_ledger w) else tw_ledger w); j = j\<lparr>jb_chain := q\<rparr>
      in w\<lparr>tw_ledger := l, tw_jobs := Some (case oper of
             Put_Start \<Rightarrow> set_stage i Rolling_Back ((release_run i j)\<lparr>jb_chain := q @ [(i, Take_Back)]\<rparr>)
           | Bump_Restarts \<Rightarrow> settle_run i (release_run i j)
           | _ \<Rightarrow> settle_run i j)\<rparr>)"

definition roster_lands :: "nat \<Rightarrow> bool \<Rightarrow> (nat \<times> bool) list \<Rightarrow> 'i jobs \<Rightarrow> 'i task_world \<Rightarrow> 'i task_world" where
  "roster_lands i track q j w =
     (let j' = j\<lparr>jb_roster := q\<rparr>
      in if track then w\<lparr>tw_rosters := List.insert (jb_host j) (tw_rosters w), tw_jobs := Some (launch_run i j'),
                         tw_owed := List.insert (rn_name (jb_runs j i)) (tw_owed w)\<rparr>
         else w\<lparr>tw_rosters := removeAll (jb_host j) (tw_rosters w), tw_jobs := Some (settle_run i j')\<rparr>)"

definition roster_fails :: "task_def \<Rightarrow> bool \<Rightarrow> nat \<Rightarrow> bool \<Rightarrow> (nat \<times> bool) list \<Rightarrow> 'i jobs \<Rightarrow> 'i task_world \<Rightarrow> 'i task_world" where
  "roster_fails d landed i track q j w =
     (let j' = j\<lparr>jb_roster := q\<rparr>; rs = (if track then List.insert (jb_host j) (tw_rosters w) else removeAll (jb_host j) (tw_rosters w))
      in w\<lparr>tw_rosters := (if landed then rs else tw_rosters w),
           tw_jobs := Some (if track
             then (if td_derived d then settle_run i (release_run i j')
                   else set_stage i Rolling_Back ((release_run i j')\<lparr>jb_chain := jb_chain j @ [(i, Take_Back)]\<rparr>))
             else settle_run i j')\<rparr>)"

subsection \<open>Steps\<close>

definition blank_run :: "'i task_run" where
  "blank_run = new_task_run [] 0 0 None Over"

definition new_jobs :: "string \<Rightarrow> 'i task_ledger \<Rightarrow> 'i jobs" where
  "new_jobs h ledger = \<lparr>jb_host = h, jb_runs = (\<lambda>_. blank_run), jb_next = 0, jb_tasks = [], jb_settling = [], jb_keep = 0,
     jb_aborted = False, jb_faulted = False, jb_creating = True, jb_resuming = ledger, jb_chain = [], jb_roster = []\<rparr>"

definition with_jobs :: "'i task_world \<Rightarrow> 'i jobs \<Rightarrow> 'i task_world" where
  "with_jobs w j = w\<lparr>tw_jobs := Some j\<rparr>"

text \<open>
  The activation on a host that is up, its resume loop, calls and reminders, the outcomes of the writes, and the
  ways an activation goes away: wound down, or with its host. A resume that fails while the actor is activating fails
  the activation; \<open>fork_step\<close> below adds it, and what is left of the activation. An adopter drops a dead host's roster once its touch has been
  answered, that is, once the actor is active.
\<close>

inductive task_step :: "task_def \<Rightarrow> 'i task_world \<Rightarrow> 'i task_world \<Rightarrow> bool" for d where
  activates: "tw_jobs w = None \<Longrightarrow> h \<notin> set (tw_dead w) \<Longrightarrow> task_step d w (with_jobs w (new_jobs h (tw_ledger w)))"
| resumes: "tw_jobs w = Some j \<Longrightarrow> jb_resuming j = (n, e) # q
    \<Longrightarrow> task_step d w (with_jobs w (resume_task d (tw_ledger w) n e (j\<lparr>jb_resuming := q\<rparr>)))"
| created: "tw_jobs w = Some j \<Longrightarrow> jb_creating j \<Longrightarrow> jb_resuming j = [] \<Longrightarrow> (\<forall>i < jb_next j. rn_stage (jb_runs j i) \<noteq> Resume_Writing)
    \<Longrightarrow> task_step d w (with_jobs w (j\<lparr>jb_creating := False\<rparr>))"
| self_heals: "tw_jobs w = Some j \<Longrightarrow> \<not> jb_creating j
    \<Longrightarrow> task_step d w (with_jobs w (j\<lparr>jb_resuming := jb_resuming j @ tw_ledger w\<rparr>))"
| starts: "tw_jobs w = Some j \<Longrightarrow> \<not> jb_creating j \<Longrightarrow> task_step d w (with_jobs w (snd (start_task d n input now j)))"
| cancels: "tw_jobs w = Some j \<Longrightarrow> task_step d w (with_jobs w (cancel_task n j))"
| ends: "tw_jobs w = Some j \<Longrightarrow> rn_stage (jb_runs j i) = Running
    \<Longrightarrow> task_step d w ((with_jobs w (body_ends d (tw_ledger w) i j))\<lparr>tw_owed := (if interrupted (jb_runs j i) then tw_owed w
          else removeAll (rn_name (jb_runs j i)) (tw_owed w))\<rparr>)"
| writes: "tw_jobs w = Some j \<Longrightarrow> jb_chain j = (i, oper) # q \<Longrightarrow> task_step d w (write_lands i oper q j w)"
| write_breaks: "tw_jobs w = Some j \<Longrightarrow> jb_chain j = (i, oper) # q \<Longrightarrow> \<not> (jb_creating j \<and> oper = Bump_Restarts)
    \<Longrightarrow> task_step d w (write_fails landed i oper q j w)"
| tracks: "tw_jobs w = Some j \<Longrightarrow> jb_roster j = (i, t) # q \<Longrightarrow> task_step d w (roster_lands i t q j w)"
| track_breaks: "tw_jobs w = Some j \<Longrightarrow> jb_roster j = (i, t) # q \<Longrightarrow> task_step d w (roster_fails d landed i t q j w)"
| faults: "tw_jobs w = Some j \<Longrightarrow> task_step d w (with_jobs w (j\<lparr>jb_faulted := True\<rparr>))"
| deactivates: "tw_jobs w = Some j \<Longrightarrow> task_step d w (with_jobs w (abort_all why j))"
| gone: "tw_jobs w = Some j \<Longrightarrow> jb_aborted j \<Longrightarrow> jb_settling j = [] \<Longrightarrow> jb_chain j = [] \<Longrightarrow> jb_roster j = []
    \<Longrightarrow> task_step d w (w\<lparr>tw_jobs := None\<rparr>)"
| crashes: "tw_jobs w = Some j \<Longrightarrow> task_step d w (w\<lparr>tw_jobs := None, tw_dead := jb_host j # tw_dead w\<rparr>)"
| adopts: "tw_jobs w = Some j \<Longrightarrow> \<not> jb_creating j \<Longrightarrow> h \<in> set (tw_dead w) \<Longrightarrow> h \<noteq> jb_host j
    \<Longrightarrow> task_step d w (w\<lparr>tw_rosters := removeAll h (tw_rosters w)\<rparr>)"
| state_changes: "td_derived d \<Longrightarrow> task_step d w (w\<lparr>tw_ledger := l\<rparr>)"

definition task_start :: "'i task_world \<Rightarrow> bool" where
  "task_start w \<longleftrightarrow> tw_jobs w = None \<and> tw_owed w = [] \<and> tw_dead w = [] \<and> tw_rosters w = []"


subsection \<open>Who is reserved\<close>

text \<open>A run is in \<open>#tasks\<close> from its reservation to the end of its body; its stage says so.\<close>

definition held :: "stage \<Rightarrow> bool" where
  "held st \<longleftrightarrow> st \<in> {Start_Writing, Start_Tracking, Resume_Writing, Running}"

definition tasks_ok :: "'i jobs \<Rightarrow> bool" where
  "tasks_ok j \<longleftrightarrow> distinct (jkeys (jb_tasks j)) \<and> jb_keep j = int (length (jb_tasks j))
     \<and> (\<forall>n i. jget (jb_tasks j) n = Some i \<longrightarrow> rn_name (jb_runs j i) = n \<and> held (rn_stage (jb_runs j i)))
     \<and> (\<forall>i. held (rn_stage (jb_runs j i)) \<longrightarrow> jget (jb_tasks j) (rn_name (jb_runs j i)) = Some i)
     \<and> (\<forall>i \<ge> jb_next j. rn_stage (jb_runs j i) = Over)"

definition stage_of :: "ledger_op \<Rightarrow> stage" where
  "stage_of oper = (case oper of Put_Start \<Rightarrow> Start_Writing | Take_Back \<Rightarrow> Rolling_Back | Bump_Restarts \<Rightarrow> Resume_Writing | Drop_Entry \<Rightarrow> Forgetting)"

definition queues_ok :: "'i jobs \<Rightarrow> bool" where
  "queues_ok j \<longleftrightarrow> distinct (map fst (jb_chain j)) \<and> distinct (map fst (jb_roster j))
     \<and> (\<forall>(i, oper) \<in> set (jb_chain j). rn_stage (jb_runs j i) = stage_of oper)
     \<and> (\<forall>(i, t) \<in> set (jb_roster j). rn_stage (jb_runs j i) = (if t then Start_Tracking else Untracking))"

definition settling_ok :: "'i jobs \<Rightarrow> bool" where
  "settling_ok j \<longleftrightarrow> (\<forall>i. held (rn_stage (jb_runs j i)) \<or> rn_stage (jb_runs j i) = Rolling_Back \<longrightarrow> i \<in> set (jb_settling j))"

definition jobs_ok :: "'i jobs \<Rightarrow> bool" where
  "jobs_ok j \<longleftrightarrow> tasks_ok j \<and> queues_ok j \<and> settling_ok j"

named_theorems job_ops \<open>the operations on the runs of an activation\<close>

lemmas [job_ops] = reserve_run_def release_run_def set_stage_def settle_run_def launch_run_def Let_def

lemma held_simps [simp]:
  "held Start_Writing" "held Start_Tracking" "held Resume_Writing" "held Running"
  "\<not> held Rolling_Back" "\<not> held Forgetting" "\<not> held Untracking" "\<not> held Over"
  by (simp_all add: held_def)

lemma stage_of_simps [simp]:
  "stage_of Put_Start = Start_Writing" "stage_of Take_Back = Rolling_Back" "stage_of Bump_Restarts = Resume_Writing"
  "stage_of Drop_Entry = Forgetting"
  by (simp_all add: stage_of_def)

text \<open>What depends on which fields.\<close>

lemma tasks_ok_cong:
  assumes "tasks_ok j" "jb_tasks j' = jb_tasks j" "jb_keep j' = jb_keep j" "jb_next j' = jb_next j"
    "\<And>i. rn_name (jb_runs j' i) = rn_name (jb_runs j i) \<and> rn_stage (jb_runs j' i) = rn_stage (jb_runs j i)"
  shows "tasks_ok j'"
  using assms unfolding tasks_ok_def by simp

lemma tasks_okD:
  assumes "tasks_ok j"
  shows "held (rn_stage (jb_runs j i)) \<Longrightarrow> jget (jb_tasks j) (rn_name (jb_runs j i)) = Some i"
    "jget (jb_tasks j) n = Some i \<Longrightarrow> rn_name (jb_runs j i) = n \<and> held (rn_stage (jb_runs j i))"
    "jb_next j \<le> i \<Longrightarrow> rn_stage (jb_runs j i) = Over"
    "rn_stage (jb_runs j i) \<noteq> Over \<Longrightarrow> i < jb_next j"
  using assms unfolding tasks_ok_def by (auto simp: not_less [symmetric])

lemma tasks_ok_size: "tasks_ok j \<Longrightarrow> distinct (jkeys (jb_tasks j))" "tasks_ok j \<Longrightarrow> jb_keep j = int (length (jb_tasks j))"
  unfolding tasks_ok_def by blast+

lemma tasks_okI:
  assumes "distinct (jkeys (jb_tasks j))" "jb_keep j = int (length (jb_tasks j))"
    "\<And>n i. jget (jb_tasks j) n = Some i \<Longrightarrow> rn_name (jb_runs j i) = n \<and> held (rn_stage (jb_runs j i))"
    "\<And>i. held (rn_stage (jb_runs j i)) \<Longrightarrow> jget (jb_tasks j) (rn_name (jb_runs j i)) = Some i"
    "\<And>i. jb_next j \<le> i \<Longrightarrow> rn_stage (jb_runs j i) = Over"
  shows "tasks_ok j"
  using assms unfolding tasks_ok_def by simp

lemma tasks_ok_reserve:
  assumes "tasks_ok j" "held (rn_stage r)" "\<not> jhas (jb_tasks j) (rn_name r)"
  shows "tasks_ok (reserve_run r j)"
proof (rule tasks_okI)
  show "distinct (jkeys (jb_tasks (reserve_run r j)))" using assms(1) by (simp add: reserve_run_def tasks_ok_def distinct_jset)
  show "jb_keep (reserve_run r j) = int (length (jb_tasks (reserve_run r j)))"
    using assms(1,3) by (simp add: reserve_run_def tasks_ok_def length_jset)
next
  fix n i assume a: "jget (jb_tasks (reserve_run r j)) n = Some i"
  show "rn_name (jb_runs (reserve_run r j) i) = n \<and> held (rn_stage (jb_runs (reserve_run r j) i))"
  proof (cases "n = rn_name r")
    case True
    with a assms(2) show ?thesis by (simp add: reserve_run_def)
  next
    case False
    with a have g: "jget (jb_tasks j) n = Some i" by (simp add: reserve_run_def)
    from tasks_okD(2) [OF assms(1) g] tasks_okD(3) [OF assms(1), of i] have "i \<noteq> jb_next j" by auto
    with g tasks_okD(2) [OF assms(1) g] show ?thesis by (simp add: reserve_run_def)
  qed
next
  fix i assume a: "held (rn_stage (jb_runs (reserve_run r j) i))"
  show "jget (jb_tasks (reserve_run r j)) (rn_name (jb_runs (reserve_run r j) i)) = Some i"
  proof (cases "i = jb_next j")
    case False
    with a have "held (rn_stage (jb_runs j i))" by (simp add: reserve_run_def)
    from tasks_okD(1) [OF assms(1) this] assms(3) False show ?thesis by (auto simp: reserve_run_def jhas_def)
  qed (simp add: reserve_run_def)
next
  fix i assume "jb_next (reserve_run r j) \<le> i"
  with tasks_okD(3) [OF assms(1), of i] show "rn_stage (jb_runs (reserve_run r j) i) = Over" by (simp add: reserve_run_def)
qed

lemma tasks_ok_move:
  assumes "tasks_ok j" "held (rn_stage (jb_runs j i)) = held (rn_stage r)" "rn_name r = rn_name (jb_runs j i)" "i < jb_next j"
  shows "tasks_ok (j\<lparr>jb_runs := (jb_runs j)(i := r)\<rparr>)"
  using assms unfolding tasks_ok_def by auto

lemma tasks_ok_leave:
  assumes "tasks_ok j" "held (rn_stage (jb_runs j i))" "\<not> held st"
  shows "tasks_ok (set_stage i st (release_run i j))"
proof (rule tasks_okI)
  let ?n = "rn_name (jb_runs j i)"
  have g: "jget (jb_tasks j) ?n = Some i" by (rule tasks_okD(1) [OF assms(1,2)])
  then have "jhas (jb_tasks j) ?n" by (simp add: jhas_def)
  moreover note d = tasks_ok_size [OF assms(1)]
  ultimately have "Suc (length (jdel (jb_tasks j) ?n)) = length (jb_tasks j)" by (intro length_jdel)
  then show "jb_keep (set_stage i st (release_run i j)) = int (length (jb_tasks (set_stage i st (release_run i j))))"
    using d(2) g by (simp add: job_ops)
  show "distinct (jkeys (jb_tasks (set_stage i st (release_run i j))))" using d(1) g by (simp add: job_ops distinct_jdel)
  show "rn_name (jb_runs (set_stage i st (release_run i j)) k) = n \<and> held (rn_stage (jb_runs (set_stage i st (release_run i j)) k))"
    if "jget (jb_tasks (set_stage i st (release_run i j))) n = Some k" for n k
    using that g tasks_okD(2) [OF assms(1), of n k] by (auto simp: job_ops split: if_splits)
  show "jget (jb_tasks (set_stage i st (release_run i j))) (rn_name (jb_runs (set_stage i st (release_run i j)) k)) = Some k"
    if "held (rn_stage (jb_runs (set_stage i st (release_run i j)) k))" for k
    using that g assms(3) tasks_okD(1) [OF assms(1), of k] by (auto simp: job_ops split: if_splits)
  show "rn_stage (jb_runs (set_stage i st (release_run i j)) k) = Over" if "jb_next (set_stage i st (release_run i j)) \<le> k" for k
    using that assms(2) tasks_okD(3) [OF assms(1), of k] by (auto simp: job_ops split: if_splits)
qed


lemma queues_ok_change:
  assumes "queues_ok j" "\<And>k. k \<noteq> i \<Longrightarrow> rn_stage (jb_runs j' k) = rn_stage (jb_runs j k)"
    "\<And>k oper. (k, oper) \<in> set (jb_chain j') \<Longrightarrow> k \<noteq> i \<and> (k, oper) \<in> set (jb_chain j) \<or> k = i \<and> rn_stage (jb_runs j' i) = stage_of oper"
    "\<And>k t. (k, t) \<in> set (jb_roster j') \<Longrightarrow> k \<noteq> i \<and> (k, t) \<in> set (jb_roster j)
       \<or> k = i \<and> rn_stage (jb_runs j' i) = (if t then Start_Tracking else Untracking)"
    "distinct (map fst (jb_chain j'))" "distinct (map fst (jb_roster j'))"
  shows "queues_ok j'"
proof -
  have "rn_stage (jb_runs j' k) = stage_of oper" if "(k, oper) \<in> set (jb_chain j')" for k oper
    using assms(3) [OF that] assms(2) [of k] assms(1) by (auto simp: queues_ok_def)
  moreover have "rn_stage (jb_runs j' k) = (if t then Start_Tracking else Untracking)" if "(k, t) \<in> set (jb_roster j')" for k t
    using assms(4) [OF that] assms(2) [of k] assms(1) unfolding queues_ok_def by fastforce
  ultimately show ?thesis using assms(5,6) unfolding queues_ok_def by blast
qed

lemma queues_okD:
  assumes "queues_ok j"
  shows "(k, oper) \<in> set (jb_chain j) \<Longrightarrow> rn_stage (jb_runs j k) = stage_of oper"
    "(k, t) \<in> set (jb_roster j) \<Longrightarrow> rn_stage (jb_runs j k) = (if t then Start_Tracking else Untracking)"
    "distinct (map fst (jb_chain j))" "distinct (map fst (jb_roster j))"
  using assms unfolding queues_ok_def by blast+

lemma not_queued:
  assumes "queues_ok j"
  shows "rn_stage (jb_runs j i) \<notin> {Start_Writing, Rolling_Back, Resume_Writing, Forgetting} \<Longrightarrow> i \<notin> fst ` set (jb_chain j)"
    "rn_stage (jb_runs j i) \<notin> {Start_Tracking, Untracking} \<Longrightarrow> i \<notin> fst ` set (jb_roster j)"
proof -
  have "stage_of oper \<in> {Start_Writing, Rolling_Back, Resume_Writing, Forgetting}" for oper by (cases oper) simp_all
  then show "rn_stage (jb_runs j i) \<notin> {Start_Writing, Rolling_Back, Resume_Writing, Forgetting} \<Longrightarrow> i \<notin> fst ` set (jb_chain j)"
    using queues_okD(1) [OF assms] by fastforce
  show "rn_stage (jb_runs j i) \<notin> {Start_Tracking, Untracking} \<Longrightarrow> i \<notin> fst ` set (jb_roster j)"
  proof (rule ccontr)
    assume a: "rn_stage (jb_runs j i) \<notin> {Start_Tracking, Untracking}" "\<not> i \<notin> fst ` set (jb_roster j)"
    then obtain t where "(i, t) \<in> set (jb_roster j)" by force
    from queues_okD(2) [OF assms this] a(1) show False by (cases t) simp_all
  qed
qed

lemma queues_ok_sub:
  assumes "queues_ok j" "\<And>k. rn_stage (jb_runs j' k) = rn_stage (jb_runs j k)"
    "jb_chain j' = jb_chain j" "jb_roster j' = jb_roster j"
  shows "queues_ok j'"
  using assms unfolding queues_ok_def by simp

lemma fst_memI: "(a, b) \<in> set xs \<Longrightarrow> a \<in> fst ` set xs"
  by force

text \<open>A run that waits in no queue changes its stage and may join one.\<close>

lemma queues_ok_enter:
  assumes q: "queues_ok j" and i: "i \<notin> fst ` set (jb_chain j)" "i \<notin> fst ` set (jb_roster j)"
    and j': "\<And>k. k \<noteq> i \<Longrightarrow> rn_stage (jb_runs j' k) = rn_stage (jb_runs j k)" "jb_chain j' = jb_chain j @ c" "jb_roster j' = jb_roster j @ r"
    and new: "c = [] \<or> (\<exists>oper. c = [(i, oper)] \<and> rn_stage (jb_runs j' i) = stage_of oper)"
      "r = [] \<or> (\<exists>t. r = [(i, t)] \<and> rn_stage (jb_runs j' i) = (if t then Start_Tracking else Untracking))"
  shows "queues_ok j'"
proof (rule queues_ok_change [OF q j'(1)])
  show "k \<noteq> i \<and> (k, oper) \<in> set (jb_chain j) \<or> k = i \<and> rn_stage (jb_runs j' i) = stage_of oper" if "(k, oper) \<in> set (jb_chain j')" for k oper
    using that i(1) new(1) by (auto simp: j'(2) dest: fst_memI)
  show "k \<noteq> i \<and> (k, t) \<in> set (jb_roster j) \<or> k = i \<and> rn_stage (jb_runs j' i) = (if t then Start_Tracking else Untracking)"
    if "(k, t) \<in> set (jb_roster j')" for k t
    using that i(2) new(2) by (auto simp: j'(3) dest: fst_memI split: if_splits)
  show "distinct (map fst (jb_chain j'))" using queues_okD(3) [OF q] i(1) new(1) by (auto simp: j'(2) dest: fst_memI)
  show "distinct (map fst (jb_roster j'))" using queues_okD(4) [OF q] i(2) new(2) by (auto simp: j'(3) dest: fst_memI)
qed simp_all

text \<open>The head of a queue leaves it.\<close>

lemma queues_ok_pop:
  assumes "queues_ok j"
  shows "jb_chain j = (i, oper) # q \<Longrightarrow> queues_ok (j\<lparr>jb_chain := q\<rparr>) \<and> i \<notin> fst ` set q \<and> i \<notin> fst ` set (jb_roster j) \<and> rn_stage (jb_runs j i) = stage_of oper"
    "jb_roster j = (i, t) # q' \<Longrightarrow> queues_ok (j\<lparr>jb_roster := q'\<rparr>) \<and> i \<notin> fst ` set q' \<and> i \<notin> fst ` set (jb_chain j)
       \<and> rn_stage (jb_runs j i) = (if t then Start_Tracking else Untracking)"
proof -
  assume c: "jb_chain j = (i, oper) # q"
  then have s: "rn_stage (jb_runs j i) = stage_of oper" using queues_okD(1) [OF assms, of i oper] by simp
  then have "rn_stage (jb_runs j i) \<notin> {Start_Tracking, Untracking}" by (cases oper) simp_all
  from not_queued(2) [OF assms this] have "i \<notin> fst ` set (jb_roster j)" .
  moreover have "queues_ok (j\<lparr>jb_chain := q\<rparr>)" "i \<notin> fst ` set q" using assms c unfolding queues_ok_def by auto
  ultimately show "queues_ok (j\<lparr>jb_chain := q\<rparr>) \<and> i \<notin> fst ` set q \<and> i \<notin> fst ` set (jb_roster j) \<and> rn_stage (jb_runs j i) = stage_of oper"
    using s by blast
next
  assume c: "jb_roster j = (i, t) # q'"
  then have s: "rn_stage (jb_runs j i) = (if t then Start_Tracking else Untracking)" using queues_okD(2) [OF assms, of i t] by simp
  then have "rn_stage (jb_runs j i) \<notin> {Start_Writing, Rolling_Back, Resume_Writing, Forgetting}" by (cases t) simp_all
  from not_queued(1) [OF assms this] have "i \<notin> fst ` set (jb_chain j)" .
  moreover have "queues_ok (j\<lparr>jb_roster := q'\<rparr>)" "i \<notin> fst ` set q'" using assms c unfolding queues_ok_def by auto
  ultimately show "queues_ok (j\<lparr>jb_roster := q'\<rparr>) \<and> i \<notin> fst ` set q' \<and> i \<notin> fst ` set (jb_chain j)
       \<and> rn_stage (jb_runs j i) = (if t then Start_Tracking else Untracking)"
    using s by blast
qed


text \<open>The two kinds of change of one run: it stays where it is in \<open>#tasks\<close>, or it leaves.\<close>

definition unqueued :: "nat \<Rightarrow> 'i jobs \<Rightarrow> bool" where
  "unqueued i j \<longleftrightarrow> i \<notin> fst ` set (jb_chain j) \<and> i \<notin> fst ` set (jb_roster j)"

definition joins :: "nat \<Rightarrow> stage \<Rightarrow> 'i jobs \<Rightarrow> 'i jobs \<Rightarrow> bool" where
  "joins i st j j' \<longleftrightarrow> (\<exists>c r. jb_chain j' = jb_chain j @ c \<and> jb_roster j' = jb_roster j @ r
     \<and> (c = [] \<or> (\<exists>oper. c = [(i, oper)] \<and> st = stage_of oper))
     \<and> (r = [] \<or> (\<exists>t. r = [(i, t)] \<and> st = (if t then Start_Tracking else Untracking))))"

lemma joinsI:
  "jb_chain j' = jb_chain j \<Longrightarrow> jb_roster j' = jb_roster j \<Longrightarrow> joins i st j j'"
  "jb_chain j' = jb_chain j @ [(i, oper)] \<Longrightarrow> jb_roster j' = jb_roster j \<Longrightarrow> st = stage_of oper \<Longrightarrow> joins i st j j'"
  "jb_chain j' = jb_chain j \<Longrightarrow> jb_roster j' = jb_roster j @ [(i, t)] \<Longrightarrow> st = (if t then Start_Tracking else Untracking) \<Longrightarrow> joins i st j j'"
  unfolding joins_def by auto

lemma joins_ok:
  assumes "queues_ok j" "unqueued i j" "joins i st j j'"
    "\<And>k. k \<noteq> i \<Longrightarrow> rn_stage (jb_runs j' k) = rn_stage (jb_runs j k)" "rn_stage (jb_runs j' i) = st"
  shows "queues_ok j'"
proof -
  from assms(3) obtain c r where cr: "jb_chain j' = jb_chain j @ c" "jb_roster j' = jb_roster j @ r"
    "c = [] \<or> (\<exists>oper. c = [(i, oper)] \<and> st = stage_of oper)"
    "r = [] \<or> (\<exists>t. r = [(i, t)] \<and> st = (if t then Start_Tracking else Untracking))"
    unfolding joins_def by blast
  from assms(2) show ?thesis
    by (intro queues_ok_enter [OF assms(1) _ _ assms(4) cr(1,2)]) (use cr(3,4) assms(5) in \<open>auto simp: unqueued_def\<close>)
qed

lemma jobs_ok_stay:
  assumes ok: "jobs_ok j" and i: "unqueued i j" "rn_stage (jb_runs j i) \<noteq> Over"
    and runs: "jb_runs j' = (jb_runs j)(i := r)" "rn_name r = rn_name (jb_runs j i)" "held (rn_stage r) = held (rn_stage (jb_runs j i))"
    and rest: "jb_tasks j' = jb_tasks j" "jb_keep j' = jb_keep j" "jb_next j' = jb_next j" "joins i (rn_stage r) j j'"
      "set (jb_settling j') = set (jb_settling j) \<or> set (jb_settling j') = set (jb_settling j) - {i} \<and> rn_stage r \<notin> {Rolling_Back} \<and> \<not> held (rn_stage r)"
      "rn_stage r = Rolling_Back \<Longrightarrow> i \<in> set (jb_settling j')"
  shows "jobs_ok j'"
proof -
  from ok have t: "tasks_ok j" and q: "queues_ok j" and s: "settling_ok j" by (simp_all add: jobs_ok_def)
  have "tasks_ok (j\<lparr>jb_runs := (jb_runs j)(i := r)\<rparr>)"
    by (rule tasks_ok_move [OF t]) (use runs tasks_okD(4) [OF t i(2)] in simp_all)
  then have "tasks_ok j'" by (rule tasks_ok_cong) (simp_all add: runs(1) rest)
  moreover have "queues_ok j'" by (rule joins_ok [OF q i(1) rest(4)]) (simp_all add: runs(1))
  moreover have "settling_ok j'"
    using s runs(3) rest(5,6) unfolding settling_ok_def runs(1) by (auto split: if_splits)
  ultimately show ?thesis by (simp add: jobs_ok_def)
qed

lemma jobs_ok_leave:
  assumes ok: "jobs_ok j" and i: "unqueued i j" "held (rn_stage (jb_runs j i))"
    and runs: "jb_runs j' = (jb_runs j)(i := (jb_runs j i)\<lparr>rn_stage := st\<rparr>)" "\<not> held st"
    and rest: "jb_tasks j' = jb_tasks (release_run i j)" "jb_keep j' = jb_keep (release_run i j)" "jb_next j' = jb_next j" "joins i st j j'"
      "set (jb_settling j') = set (jb_settling j) \<or> set (jb_settling j') = set (jb_settling j) - {i} \<and> st \<noteq> Rolling_Back"
  shows "jobs_ok j'"
proof -
  from ok have t: "tasks_ok j" and q: "queues_ok j" and s: "settling_ok j" by (simp_all add: jobs_ok_def)
  from tasks_ok_leave [OF t i(2) runs(2)] have "tasks_ok (set_stage i st (release_run i j))" .
  then have "tasks_ok j'" by (rule tasks_ok_cong) (simp_all add: runs(1) rest(1,2,3), simp_all add: job_ops)
  moreover have "queues_ok j'" by (rule joins_ok [OF q i(1) rest(4)]) (simp_all add: runs(1))
  moreover have "settling_ok j'"
    using s i(2) runs(2) rest(5) unfolding settling_ok_def runs(1) by (auto split: if_splits)
  ultimately show ?thesis by (simp add: jobs_ok_def)
qed

lemma jobs_ok_reserve:
  assumes ok: "jobs_ok j" and r: "held (rn_stage r)" "\<not> jhas (jb_tasks j) (rn_name r)"
    and j': "jb_runs j' = jb_runs (reserve_run r j)" "jb_tasks j' = jb_tasks (reserve_run r j)" "jb_keep j' = jb_keep (reserve_run r j)"
      "jb_next j' = jb_next (reserve_run r j)" "joins (jb_next j) (rn_stage r) j j'" "jb_settling j' = jb_settling (reserve_run r j)"
  shows "jobs_ok j'"
proof -
  from ok have t: "tasks_ok j" and q: "queues_ok j" and s: "settling_ok j" by (simp_all add: jobs_ok_def)
  from tasks_ok_reserve [OF t r] have "tasks_ok (reserve_run r j)" .
  then have "tasks_ok j'" by (rule tasks_ok_cong) (simp_all add: j')
  moreover have "queues_ok j'"
  proof (rule joins_ok [OF q _ j'(5)])
    have "rn_stage (jb_runs j (jb_next j)) = Over" using tasks_okD(3) [OF t] by simp
    with not_queued [OF q, of "jb_next j"] show "unqueued (jb_next j) j" by (simp add: unqueued_def)
  qed (simp_all add: j'(1) reserve_run_def)
  moreover have "settling_ok j'"
    using s unfolding settling_ok_def j'(1,6) reserve_run_def by auto
  ultimately show ?thesis by (simp add: jobs_ok_def)
qed

lemma jobs_ok_same:
  assumes "jobs_ok j" "jb_tasks j' = jb_tasks j" "jb_keep j' = jb_keep j" "jb_next j' = jb_next j" "jb_chain j' = jb_chain j"
    "jb_roster j' = jb_roster j" "jb_settling j' = jb_settling j"
    "\<And>i. rn_name (jb_runs j' i) = rn_name (jb_runs j i) \<and> rn_stage (jb_runs j' i) = rn_stage (jb_runs j i)"
  shows "jobs_ok j'"
  using assms tasks_ok_cong [of j j'] queues_ok_sub [of j j'] by (simp add: jobs_ok_def settling_ok_def)

lemma tasks_ok_queues [simp]: "tasks_ok (j\<lparr>jb_chain := c\<rparr>) = tasks_ok j" "tasks_ok (j\<lparr>jb_roster := r\<rparr>) = tasks_ok j"
  by (simp_all add: tasks_ok_def)

lemma jobs_ok_pop:
  assumes "jobs_ok j"
  shows "jb_chain j = (i, oper) # q \<Longrightarrow> jobs_ok (j\<lparr>jb_chain := q\<rparr>) \<and> unqueued i (j\<lparr>jb_chain := q\<rparr>) \<and> rn_stage (jb_runs j i) = stage_of oper"
    "jb_roster j = (i, t) # q' \<Longrightarrow> jobs_ok (j\<lparr>jb_roster := q'\<rparr>) \<and> unqueued i (j\<lparr>jb_roster := q'\<rparr>)
       \<and> rn_stage (jb_runs j i) = (if t then Start_Tracking else Untracking)"
  using assms queues_ok_pop [of j i] by (auto simp: jobs_ok_def unqueued_def settling_ok_def)


lemma jobs_ok_settle: "jobs_ok j \<Longrightarrow> unqueued i j \<Longrightarrow> rn_stage (jb_runs j i) \<noteq> Over \<Longrightarrow> \<not> held (rn_stage (jb_runs j i)) \<Longrightarrow> jobs_ok (settle_run i j)"
  by (rule jobs_ok_stay [where i = i and r = "(jb_runs j i)\<lparr>rn_stage := Over\<rparr>"]) (auto simp: job_ops intro: joinsI)

lemma jobs_ok_launch: "jobs_ok j \<Longrightarrow> unqueued i j \<Longrightarrow> held (rn_stage (jb_runs j i)) \<Longrightarrow> jobs_ok (launch_run i j)"
  by (rule jobs_ok_stay [where i = i and r = "(jb_runs j i)\<lparr>rn_launched := True, rn_stage := Running\<rparr>"]) (auto simp: job_ops intro: joinsI)

lemma jobs_ok_release_settle: "jobs_ok j \<Longrightarrow> unqueued i j \<Longrightarrow> held (rn_stage (jb_runs j i)) \<Longrightarrow> jobs_ok (settle_run i (release_run i j))"
  by (rule jobs_ok_leave [where i = i and st = Over and j = j]) (auto simp: job_ops intro: joinsI)

lemma jobs_ok_roll_back:
  "jobs_ok j \<Longrightarrow> unqueued i j \<Longrightarrow> held (rn_stage (jb_runs j i)) \<Longrightarrow> c = jb_chain j @ [(i, Take_Back)]
     \<Longrightarrow> jobs_ok (set_stage i Rolling_Back ((release_run i j)\<lparr>jb_chain := c\<rparr>))"
  by (rule jobs_ok_leave [where i = i and st = Rolling_Back and j = j]) (auto simp: job_ops intro: joinsI)

lemma jobs_ok_forget:
  assumes "jobs_ok j" "unqueued i j" "rn_stage (jb_runs j i) \<noteq> Over" "\<not> held (rn_stage (jb_runs j i))"
  shows "jobs_ok (forget_task d l i j)" "jobs_ok (set_stage i Untracking (j\<lparr>jb_roster := jb_roster j @ [(i, False)]\<rparr>))"
proof -
  show u: "jobs_ok (set_stage i Untracking (j\<lparr>jb_roster := jb_roster j @ [(i, False)]\<rparr>))"
    by (rule jobs_ok_stay [OF assms(1-3), where r = "(jb_runs j i)\<lparr>rn_stage := Untracking\<rparr>"]) (use assms(4) in \<open>auto simp: job_ops intro: joinsI\<close>)
  have "jobs_ok (set_stage i Forgetting (j\<lparr>jb_chain := jb_chain j @ [(i, Drop_Entry)]\<rparr>))"
    by (rule jobs_ok_stay [OF assms(1-3), where r = "(jb_runs j i)\<lparr>rn_stage := Forgetting\<rparr>"]) (use assms(4) in \<open>auto simp: job_ops intro: joinsI\<close>)
  with u jobs_ok_settle [OF assms] show "jobs_ok (forget_task d l i j)" by (simp add: forget_task_def)
qed

lemma jobs_ok_body_ends:
  assumes "jobs_ok j" "rn_stage (jb_runs j i) = Running"
  shows "jobs_ok (body_ends d l i j)"
proof -
  have u: "unqueued i j" using assms not_queued [of j i] by (simp add: unqueued_def jobs_ok_def)
  have h: "held (rn_stage (jb_runs j i))" using assms(2) by simp
  have "jobs_ok (set_stage i Untracking ((release_run i j)\<lparr>jb_roster := jb_roster (release_run i j) @ [(i, False)]\<rparr>))"
    by (rule jobs_ok_leave [OF assms(1) u h, where st = Untracking]) (auto simp: job_ops intro: joinsI)
  moreover have "jobs_ok (set_stage i Forgetting ((release_run i j)\<lparr>jb_chain := jb_chain (release_run i j) @ [(i, Drop_Entry)]\<rparr>))"
    by (rule jobs_ok_leave [OF assms(1) u h, where st = Forgetting]) (auto simp: job_ops intro: joinsI)
  ultimately show ?thesis
    using jobs_ok_release_settle [OF assms(1) u h] by (simp add: body_ends_def forget_task_def Let_def)
qed

lemma jobs_ok_start:
  assumes "jobs_ok j"
  shows "jobs_ok (snd (start_task d n input now j))"
proof -
  let ?r = "\<lambda>st. new_task_run n now 0 input st"
  have "jobs_ok ((reserve_run (?r Start_Tracking) j)\<lparr>jb_roster := jb_roster (reserve_run (?r Start_Tracking) j) @ [(jb_next j, True)]\<rparr>)"
    if "\<not> jhas (jb_tasks j) n"
    by (rule jobs_ok_reserve [OF assms, where r = "?r Start_Tracking"]) (use that in \<open>auto simp: new_task_run_def reserve_run_def intro: joinsI\<close>)
  moreover have "jobs_ok ((reserve_run (?r Start_Writing) j)\<lparr>jb_chain := jb_chain (reserve_run (?r Start_Writing) j) @ [(jb_next j, Put_Start)]\<rparr>)"
    if "\<not> jhas (jb_tasks j) n"
    by (rule jobs_ok_reserve [OF assms, where r = "?r Start_Writing"]) (use that in \<open>auto simp: new_task_run_def reserve_run_def intro: joinsI\<close>)
  ultimately show ?thesis using assms by (auto simp: start_task_def Let_def)
qed

lemma jobs_ok_resume:
  assumes "jobs_ok j"
  shows "jobs_ok (resume_task d l n e j)"
proof -
  let ?r = "new_task_run n (te_started e) (Suc (te_restarts e)) (te_input e) Resume_Writing"
  let ?f = "?r\<lparr>rn_stage := Forgetting\<rparr>" and ?i = "jb_next j"
  let ?u = "j\<lparr>jb_runs := (jb_runs j)(?i := ?f), jb_next := Suc ?i\<rparr>"
  from assms have t: "tasks_ok j" and q: "queues_ok j" and s: "settling_ok j" by (simp_all add: jobs_ok_def)
  have over: "rn_stage (jb_runs j ?i) = Over" using tasks_okD(3) [OF t] by simp
  with not_queued [OF q, of ?i] have un: "unqueued ?i j" by (simp add: unqueued_def)
  have "jobs_ok ?u"
  proof -
    have no: "jget (jb_tasks j) n' \<noteq> Some ?i" for n' using tasks_okD(2) [OF t, of n' ?i] over by auto
    have "tasks_ok ?u"
    proof (rule tasks_okI)
      show "rn_name (jb_runs ?u k) = n' \<and> held (rn_stage (jb_runs ?u k))" if "jget (jb_tasks ?u) n' = Some k" for n' k
        using that no [of n'] tasks_okD(2) [OF t, of n' k] by (cases "k = ?i") simp_all
      show "jget (jb_tasks ?u) (rn_name (jb_runs ?u k)) = Some k" if "held (rn_stage (jb_runs ?u k))" for k
        using that tasks_okD(1) [OF t, of k] by (cases "k = ?i") (simp_all add: new_task_run_def)
      show "rn_stage (jb_runs ?u k) = Over" if "jb_next ?u \<le> k" for k
        using that tasks_okD(3) [OF t, of k] by simp
    qed (use tasks_ok_size [OF t] in simp_all)
    moreover have "queues_ok ?u" by (rule joins_ok [OF q un]) (auto simp: new_task_run_def intro: joinsI)
    moreover have "settling_ok ?u" using s over by (auto simp: settling_ok_def new_task_run_def)
    ultimately show ?thesis by (simp add: jobs_ok_def)
  qed
  then have "jobs_ok (forget_task d l ?i ?u)"
    by (rule jobs_ok_forget) (use un in \<open>auto simp: unqueued_def new_task_run_def\<close>)
  moreover have "jobs_ok (reserve_run ?r j)" "jobs_ok ((reserve_run ?r j)\<lparr>jb_chain := jb_chain j @ [(?i, Bump_Restarts)]\<rparr>)" if "\<not> jhas (jb_tasks j) n"
    by (rule jobs_ok_reserve [OF assms, where r = ?r]; use that in \<open>auto simp: new_task_run_def reserve_run_def intro: joinsI\<close>)+
  moreover have "jobs_ok (launch_run ?i (reserve_run ?r j))" if "jobs_ok (reserve_run ?r j)"
    by (rule jobs_ok_launch [OF that]) (use un in \<open>auto simp: unqueued_def reserve_run_def new_task_run_def\<close>)
  ultimately show ?thesis using assms by (auto simp: resume_task_def Let_def)
qed

lemma jobs_ok_signals:
  assumes "jobs_ok j"
  shows "jobs_ok (cancel_task n j)" "jobs_ok (abort_all why j)"
  by (rule jobs_ok_same [OF assms]; auto simp: cancel_task_def abort_all_def abort_run_def split: option.splits)+


text \<open>Every step keeps it.\<close>

definition jobs_fine :: "'i task_world \<Rightarrow> bool" where
  "jobs_fine w \<longleftrightarrow> (\<forall>j. tw_jobs w = Some j \<longrightarrow> jobs_ok j)"

lemma jobs_fine_simps [simp]:
  "jobs_fine (with_jobs w j) = jobs_ok j" "jobs_fine (w\<lparr>tw_jobs := None\<rparr>)" "jobs_fine (w\<lparr>tw_rosters := r\<rparr>) = jobs_fine w"
  "jobs_fine (w\<lparr>tw_ledger := l\<rparr>) = jobs_fine w" "jobs_fine (w\<lparr>tw_owed := ns\<rparr>) = jobs_fine w" "jobs_fine (w\<lparr>tw_dead := hs\<rparr>) = jobs_fine w"
  by (simp_all add: jobs_fine_def with_jobs_def)

lemma jobs_ok_new: "jobs_ok (new_jobs h l)"
  by (simp add: jobs_ok_def tasks_ok_def queues_ok_def settling_ok_def new_jobs_def blank_run_def new_task_run_def)

lemma write_lands_ok:
  assumes "jobs_ok j" "jb_chain j = (i, oper) # q"
  shows "jobs_fine (write_lands i oper q j w)"
proof -
  let ?j = "j\<lparr>jb_chain := q\<rparr>"
  from jobs_ok_pop(1) [OF assms] have p: "jobs_ok ?j" "unqueued i ?j" "rn_stage (jb_runs ?j i) = stage_of oper" by simp_all
  have ne: "rn_stage (jb_runs ?j i) \<noteq> Over" using p(3) by (cases oper) simp_all
  have "jobs_ok (set_stage i Start_Tracking (?j\<lparr>jb_roster := jb_roster ?j @ [(i, True)]\<rparr>))" if "oper = Put_Start"
    by (rule jobs_ok_stay [OF p(1,2) ne, where r = "(jb_runs ?j i)\<lparr>rn_stage := Start_Tracking\<rparr>"]) (use p(3) that in \<open>auto simp: job_ops intro: joinsI\<close>)
  with jobs_ok_settle [OF p(1,2) ne] jobs_ok_launch [OF p(1,2)] jobs_ok_forget(2) [OF p(1,2) ne] p(3)
  show ?thesis by (cases oper) (simp_all add: write_lands_def jobs_fine_def Let_def)
qed

lemma write_fails_ok:
  assumes "jobs_ok j" "jb_chain j = (i, oper) # q"
  shows "jobs_fine (write_fails landed i oper q j w)"
proof -
  let ?j = "j\<lparr>jb_chain := q\<rparr>"
  from jobs_ok_pop(1) [OF assms] have p: "jobs_ok ?j" "unqueued i ?j" "rn_stage (jb_runs ?j i) = stage_of oper" by simp_all
  have ne: "rn_stage (jb_runs ?j i) \<noteq> Over" using p(3) by (cases oper) simp_all
  show ?thesis
    using jobs_ok_roll_back [OF p(1,2)] jobs_ok_settle [OF p(1,2) ne] jobs_ok_release_settle [OF p(1,2)] p(3)
    by (cases oper) (simp_all add: write_fails_def jobs_fine_def Let_def)
qed

lemma roster_lands_ok:
  assumes "jobs_ok j" "jb_roster j = (i, t) # q"
  shows "jobs_fine (roster_lands i t q j w)"
proof -
  let ?j = "j\<lparr>jb_roster := q\<rparr>"
  from jobs_ok_pop(2) [OF assms] have p: "jobs_ok ?j" "unqueued i ?j" "rn_stage (jb_runs ?j i) = (if t then Start_Tracking else Untracking)" by simp_all
  show ?thesis using jobs_ok_launch [OF p(1,2)] jobs_ok_settle [OF p(1,2)] p(3)
    by (cases t) (simp_all add: roster_lands_def jobs_fine_def Let_def)
qed

lemma roster_fails_ok:
  assumes "jobs_ok j" "jb_roster j = (i, t) # q"
  shows "jobs_fine (roster_fails d landed i t q j w)"
proof -
  let ?j = "j\<lparr>jb_roster := q\<rparr>"
  from jobs_ok_pop(2) [OF assms] have p: "jobs_ok ?j" "unqueued i ?j" "rn_stage (jb_runs ?j i) = (if t then Start_Tracking else Untracking)" by simp_all
  show ?thesis using jobs_ok_roll_back [OF p(1,2)] jobs_ok_settle [OF p(1,2)] jobs_ok_release_settle [OF p(1,2)] p(3)
    by (cases t) (simp_all add: roster_fails_def jobs_fine_def Let_def)
qed

lemma task_step_jobs:
  assumes "jobs_fine w" "task_step d w w'"
  shows "jobs_fine w'"
proof -
  have ok: "jobs_ok j" if "tw_jobs w = Some j" for j using assms(1) that by (simp add: jobs_fine_def)
  have same: "jobs_ok (j\<lparr>jb_resuming := x\<rparr>)" "jobs_ok (j\<lparr>jb_creating := b\<rparr>)" "jobs_ok (j\<lparr>jb_faulted := b\<rparr>)" if "jobs_ok j" for j :: "'a jobs" and x b
    by (rule jobs_ok_same [OF that]; simp)+
  from assms(2) show ?thesis
    by cases (simp_all add: ok same jobs_ok_new jobs_ok_resume jobs_ok_start jobs_ok_signals jobs_ok_body_ends write_lands_ok write_fails_ok
      roster_lands_ok roster_fails_ok assms(1))
qed

interpretation task_jobs: invariant_machine task_start "task_step d" jobs_fine
  by unfold_locales (auto simp: task_start_def jobs_fine_def intro: task_step_jobs [unfolded jobs_fine_def, rule_format])


subsection \<open>What was acknowledged stays in the ledger\<close>

definition names_of :: "'i jobs \<Rightarrow> nat \<Rightarrow> string" where
  "names_of j i = rn_name (jb_runs j i)"

definition del_op :: "ledger_op \<Rightarrow> bool" where
  "del_op oper \<longleftrightarrow> oper = Take_Back \<or> oper = Drop_Entry"

text \<open>The names whose entry a queued edit may still take away.\<close>

definition deleting :: "(nat \<Rightarrow> string) \<Rightarrow> (nat \<times> ledger_op) list \<Rightarrow> string set" where
  "deleting nm c = {nm i |i oper. (i, oper) \<in> set c \<and> del_op oper}"

text \<open>No deletion of a name is queued behind its start, and no untracking behind a tracking.\<close>

fun put_safe :: "(nat \<Rightarrow> string) \<Rightarrow> (nat \<times> ledger_op) list \<Rightarrow> bool" where
  "put_safe nm [] \<longleftrightarrow> True"
| "put_safe nm ((i, oper) # q) \<longleftrightarrow> (oper = Put_Start \<longrightarrow> nm i \<notin> deleting nm q) \<and> put_safe nm q"


lemma deleting_simps [simp]:
  "deleting nm [] = {}" "deleting nm ((i, oper) # q) = (if del_op oper then insert (nm i) (deleting nm q) else deleting nm q)"
  "deleting nm (c @ q) = deleting nm c \<union> deleting nm q"
  by (auto simp: deleting_def)

lemma deleting_cong: "(\<And>i. i \<in> fst ` set c \<Longrightarrow> nm i = nm' i) \<Longrightarrow> deleting nm c = deleting nm' c"
  by (auto simp: deleting_def) (metis fst_conv image_eqI)+


lemma put_safe_cong: "(\<And>i. i \<in> fst ` set c \<Longrightarrow> nm i = nm' i) \<Longrightarrow> put_safe nm c = put_safe nm' c"
  by (induction nm c rule: put_safe.induct) (auto intro!: arg_cong2 [where f = "(\<notin>)"] cong: deleting_cong)


lemma del_op_simps [simp]: "del_op Take_Back" "del_op Drop_Entry" "\<not> del_op Put_Start" "\<not> del_op Bump_Restarts"
  by (simp_all add: del_op_def)







text \<open>One run changes: all but it is as before.\<close>

lemma deleting_other [simp]: "i \<notin> fst ` set c \<Longrightarrow> deleting (nm(i := x)) c = deleting nm c"
  by (rule deleting_cong) auto

lemma put_safe_other [simp]: "i \<notin> fst ` set c \<Longrightarrow> put_safe (nm(i := x)) c = put_safe nm c"
  by (rule put_safe_cong) auto




lemma held_name: "jobs_ok j \<Longrightarrow> held (rn_stage (jb_runs j k)) \<Longrightarrow> jget (jb_tasks j) (names_of j k) = Some k"
  using tasks_okD(1) [of j k] by (simp add: jobs_ok_def names_of_def)

lemma held_unique: "jobs_ok j \<Longrightarrow> held (rn_stage (jb_runs j k)) \<Longrightarrow> held (rn_stage (jb_runs j i)) \<Longrightarrow> names_of j k = names_of j i \<Longrightarrow> k = i"
  by (metis held_name option.inject)




lemma release_run_simps [simp]:
  "jb_runs (release_run i j) = jb_runs j" "jb_chain (release_run i j) = jb_chain j" "jb_roster (release_run i j) = jb_roster j"
  "jb_aborted (release_run i j) = jb_aborted j" "jb_faulted (release_run i j) = jb_faulted j" "jb_creating (release_run i j) = jb_creating j"
  "jb_resuming (release_run i j) = jb_resuming j" "jb_settling (release_run i j) = jb_settling j" "jb_next (release_run i j) = jb_next j"
  "jb_host (release_run i j) = jb_host j"
  by (simp_all add: release_run_def Let_def)

text \<open>Names under a change that keeps the name of the run.\<close>

lemma names_same [simp]: "(names_of j)(i := rn_name (jb_runs j i)) = names_of j"
  by (simp add: names_of_def fun_upd_idem)





text \<open>What an edit does to the names of the ledger.\<close>

abbreviation ledger_names :: "'i task_ledger \<Rightarrow> string set" where
  "ledger_names l \<equiv> {n. jhas l n}"

lemma ledger_names_Nil [simp]: "ledger_names [] = {}"
  by simp













lemma op_hosts [simp]:
  "jb_host (cancel_task n j) = jb_host j" "jb_host (abort_all why j) = jb_host j" "jb_host (settle_run i j) = jb_host j"
  "jb_host (launch_run i j) = jb_host j" "jb_host (set_stage i st j) = jb_host j" "jb_host (reserve_run r j) = jb_host j"
  "jb_host (forget_task d l i j) = jb_host j" "jb_host (body_ends d l i j) = jb_host j" "jb_host (resume_task d l n e j) = jb_host j"
  "jb_host (snd (start_task d n input now j)) = jb_host j" "jb_host (new_jobs h l) = h"
  by (auto simp: cancel_task_def abort_all_def settle_run_def launch_run_def set_stage_def reserve_run_def forget_task_def body_ends_def
      resume_task_def start_task_def new_jobs_def Let_def split: option.splits)







subsection \<open>Properties\<close>

text \<open>
  C10. A task name never runs twice on one activation. Whatever starts, resumes, self-heals, cancellations and
  failures come in whatever order, two runs that are reserved, being started, being resumed or running have
  different names, each is the one its name stands for in the table, and the activation is kept alive by
  its tasks exactly while there is such a run.
\<close>

theorem one_run_per_task:
  assumes "reach task_start (task_step d) w" "tw_jobs w = Some j"
  shows "(\<forall>i k. held (rn_stage (jb_runs j i)) \<and> held (rn_stage (jb_runs j k)) \<and> rn_name (jb_runs j i) = rn_name (jb_runs j k) \<longrightarrow> i = k)
    \<and> (\<forall>i. held (rn_stage (jb_runs j i)) \<longrightarrow> jget (jb_tasks j) (rn_name (jb_runs j i)) = Some i)
    \<and> (jb_keep j = 0 \<longleftrightarrow> (\<nexists>i. held (rn_stage (jb_runs j i))))"
proof -
  from task_jobs.reach_inv [OF assms(1)] assms(2) have ok: "jobs_ok j" by (simp add: jobs_fine_def)
  then have t: "tasks_ok j" by (simp add: jobs_ok_def)
  have "\<exists>i. held (rn_stage (jb_runs j i))" if "jb_tasks j \<noteq> []"
  proof -
    from that obtain n i q where "jb_tasks j = (n, i) # q" by (cases "jb_tasks j") auto
    then have "jget (jb_tasks j) n = Some i" by simp
    with tasks_okD(2) [OF t this] show ?thesis by blast
  qed
  moreover have "jb_tasks j \<noteq> []" if "held (rn_stage (jb_runs j i))" for i
    using tasks_okD(1) [OF t that] by (cases "jb_tasks j") simp_all
  ultimately have "jb_keep j = 0 \<longleftrightarrow> (\<nexists>i. held (rn_stage (jb_runs j i)))" using tasks_ok_size(2) [OF t] by fastforce
  moreover have "i = k" if "held (rn_stage (jb_runs j i))" "held (rn_stage (jb_runs j k))" "rn_name (jb_runs j i) = rn_name (jb_runs j k)" for i k
    using held_unique [OF ok that(1,2)] that(3) by (simp add: names_of_def)
  ultimately show ?thesis using tasks_okD(1) [OF t] by blast
qed


subsection \<open>What a resumed run lacks\<close>

text \<open>Tasks started on host \<open>a\<close>; the host dies, \<open>b\<close> resumes them and adopts the roster.\<close>

definition demo_def :: task_def where "demo_def = \<lparr>td_names = [''sync'', ''mail''], td_derived = False\<rparr>"

definition no_world :: "nat task_world" where
  "no_world = \<lparr>tw_ledger = [], tw_rosters = [], tw_jobs = None, tw_dead = [], tw_owed = []\<rparr>"

definition up_on :: "string \<Rightarrow> nat task_world \<Rightarrow> nat task_world" where
  "up_on h w = with_jobs w (new_jobs h (tw_ledger w))"

definition the_jobs :: "nat task_world \<Rightarrow> nat jobs" where "the_jobs w = the (tw_jobs w)"

definition ready :: "nat task_world \<Rightarrow> nat task_world" where "ready w = with_jobs w ((the_jobs w)\<lparr>jb_creating := False\<rparr>)"

definition resume_head :: "nat task_world \<Rightarrow> nat task_world" where
  "resume_head w = (let j = the_jobs w; (n, e) = hd (jb_resuming j)
                    in with_jobs w (resume_task demo_def (tw_ledger w) n e (j\<lparr>jb_resuming := tl (jb_resuming j)\<rparr>)))"

definition land_write :: "nat task_world \<Rightarrow> nat task_world" where
  "land_write w = (let j = the_jobs w; (i, oper) = hd (jb_chain j) in write_lands i oper (tl (jb_chain j)) j w)"

definition land_track :: "nat task_world \<Rightarrow> nat task_world" where
  "land_track w = (let j = the_jobs w; (i, t) = hd (jb_roster j) in roster_lands i t (tl (jb_roster j)) j w)"

definition crashed :: "nat task_world \<Rightarrow> nat task_world" where
  "crashed w = w\<lparr>tw_jobs := None, tw_dead := jb_host (the_jobs w) # tw_dead w\<rparr>"

definition started :: "string \<Rightarrow> nat task_world \<Rightarrow> nat task_world" where
  "started n w = with_jobs w (snd (start_task demo_def n None 5 (the_jobs w)))"

lemma demo_steps:
  "tw_jobs w = None \<Longrightarrow> h \<notin> set (tw_dead w) \<Longrightarrow> task_step demo_def w (up_on h w)"
  "tw_jobs w = Some j \<Longrightarrow> jb_creating j \<Longrightarrow> jb_resuming j = [] \<Longrightarrow> list_all (\<lambda>i. rn_stage (jb_runs j i) \<noteq> Resume_Writing) [0..<jb_next j]
     \<Longrightarrow> task_step demo_def w (ready w)"
  "tw_jobs w = Some j \<Longrightarrow> jb_resuming j \<noteq> [] \<Longrightarrow> task_step demo_def w (resume_head w)"
  "tw_jobs w = Some j \<Longrightarrow> jb_chain j \<noteq> [] \<Longrightarrow> task_step demo_def w (land_write w)"
  "tw_jobs w = Some j \<Longrightarrow> jb_roster j \<noteq> [] \<Longrightarrow> task_step demo_def w (land_track w)"
  "tw_jobs w = Some j \<Longrightarrow> task_step demo_def w (crashed w)"
  "tw_jobs w = Some j \<Longrightarrow> \<not> jb_creating j \<Longrightarrow> task_step demo_def w (started n w)"
proof -
  show "tw_jobs w = Some j \<Longrightarrow> jb_resuming j \<noteq> [] \<Longrightarrow> task_step demo_def w (resume_head w)"
    using resumes [of w j "fst (hd (jb_resuming j))" "snd (hd (jb_resuming j))" "tl (jb_resuming j)" demo_def]
    by (simp add: resume_head_def the_jobs_def Let_def split_beta)
  show "tw_jobs w = Some j \<Longrightarrow> jb_chain j \<noteq> [] \<Longrightarrow> task_step demo_def w (land_write w)"
    using writes [of w j "fst (hd (jb_chain j))" "snd (hd (jb_chain j))" "tl (jb_chain j)" demo_def]
    by (simp add: land_write_def the_jobs_def Let_def split_beta)
  show "tw_jobs w = Some j \<Longrightarrow> jb_roster j \<noteq> [] \<Longrightarrow> task_step demo_def w (land_track w)"
    using tracks [of w j "fst (hd (jb_roster j))" "snd (hd (jb_roster j))" "tl (jb_roster j)" demo_def]
    by (simp add: land_track_def the_jobs_def Let_def split_beta)
qed (auto simp: up_on_def ready_def crashed_def started_def the_jobs_def list_all_iff intro: task_step.intros)


text \<open>The run of \<open>sync\<close> up to the crash of \<open>a\<close>, and what follows on \<open>b\<close>.\<close>

definition demo_up :: "nat task_world" where "demo_up = ready (up_on ''a'' no_world)"

definition demo_synced :: "nat task_world" where "demo_synced = land_track (land_write (started ''sync'' demo_up))"

definition demo_on_b :: "nat task_world" where "demo_on_b = ready (land_write (resume_head (up_on ''b'' (crashed demo_synced))))"

definition demo_adopted :: "nat task_world" where
  "demo_adopted = demo_on_b\<lparr>tw_rosters := removeAll ''a'' (tw_rosters demo_on_b)\<rparr>"

lemma the_jobsI: "\<not> Option.is_none (tw_jobs w) \<Longrightarrow> tw_jobs w = Some (the_jobs w)"
  by (auto simp: the_jobs_def Option.is_none_def)

lemma demo_crash [simp]: "tw_jobs (crashed w) = None" "tw_jobs no_world = None" "tw_dead no_world = []"
  by (simp_all add: crashed_def no_world_def)

lemma demo_up_reached: "reach task_start (task_step demo_def) demo_up"
proof -
  have "reach task_start (task_step demo_def) no_world" by (rule reach_init) (simp add: task_start_def no_world_def)
  then have u: "reach task_start (task_step demo_def) (up_on ''a'' no_world)" by (rule reach_step) (rule demo_steps(1); simp)
  have "tw_jobs (up_on ''a'' no_world) = Some (the_jobs (up_on ''a'' no_world))" by (rule the_jobsI) code_simp
  then have "task_step demo_def (up_on ''a'' no_world) demo_up" unfolding demo_up_def by (rule demo_steps(2)) code_simp+
  with u show ?thesis by (rule reach_step)
qed

lemma demo_synced_reached: "reach task_start (task_step demo_def) demo_synced"
proof -
  let ?s = "started ''sync'' demo_up"
  have "tw_jobs demo_up = Some (the_jobs demo_up)" by (rule the_jobsI) code_simp
  then have "task_step demo_def demo_up ?s" by (rule demo_steps(7)) code_simp+
  with demo_up_reached have 1: "reach task_start (task_step demo_def) ?s" by (rule reach_step)
  have "tw_jobs ?s = Some (the_jobs ?s)" by (rule the_jobsI) code_simp
  then have "task_step demo_def ?s (land_write ?s)" by (rule demo_steps(4)) code_simp+
  with 1 have 2: "reach task_start (task_step demo_def) (land_write ?s)" by (rule reach_step)
  have "tw_jobs (land_write ?s) = Some (the_jobs (land_write ?s))" by (rule the_jobsI) code_simp
  then have "task_step demo_def (land_write ?s) demo_synced" unfolding demo_synced_def by (rule demo_steps(5)) code_simp+
  with 2 show ?thesis by (rule reach_step)
qed


lemma demo_on_b_reached: "reach task_start (task_step demo_def) demo_on_b"
proof -
  let ?b = "up_on ''b'' (crashed demo_synced)" and ?r = "resume_head (up_on ''b'' (crashed demo_synced))"
  have "tw_jobs demo_synced = Some (the_jobs demo_synced)" by (rule the_jobsI) code_simp
  then have "task_step demo_def demo_synced (crashed demo_synced)" by (rule demo_steps(6))
  with demo_synced_reached have 1: "reach task_start (task_step demo_def) (crashed demo_synced)" by (rule reach_step)
  have "''b'' \<notin> set (tw_dead (crashed demo_synced))" by code_simp
  then have "task_step demo_def (crashed demo_synced) ?b" by (intro demo_steps(1)) simp_all
  with 1 have 2: "reach task_start (task_step demo_def) ?b" by (rule reach_step)
  have "tw_jobs ?b = Some (the_jobs ?b)" by (rule the_jobsI) code_simp
  then have "task_step demo_def ?b ?r" by (rule demo_steps(3)) code_simp+
  with 2 have 3: "reach task_start (task_step demo_def) ?r" by (rule reach_step)
  have "tw_jobs ?r = Some (the_jobs ?r)" by (rule the_jobsI) code_simp
  then have "task_step demo_def ?r (land_write ?r)" by (rule demo_steps(4)) code_simp+
  with 3 have 4: "reach task_start (task_step demo_def) (land_write ?r)" by (rule reach_step)
  have "tw_jobs (land_write ?r) = Some (the_jobs (land_write ?r))" by (rule the_jobsI) code_simp
  then have "task_step demo_def (land_write ?r) demo_on_b" unfolding demo_on_b_def by (rule demo_steps(2)) code_simp+
  with 4 show ?thesis by (rule reach_step)
qed

text \<open>
  A resumed run is on no roster. After its first host has died, a survivor has resumed the run and adopted the
  dead host's roster, the acknowledged run is running on the survivor while no host's roster names the actor and no
  edit that would add it is queued: if the survivor dies as well, nobody touches the actor and the run waits for
  the next caller. The documentation of the roster says the adopting host's own roster tracks it.
\<close>

theorem resumed_run_untracked:
  "\<exists>(w :: nat task_world) j i. reach task_start (task_step demo_def) w \<and> tw_jobs w = Some j \<and> jb_host j = ''b'' \<and> tw_dead w = [''a'']
     \<and> rn_stage (jb_runs j i) = Running \<and> rn_name (jb_runs j i) \<in> set (tw_owed w) \<and> tw_rosters w = [] \<and> jb_roster j = [] \<and> jb_chain j = []"
proof (intro exI conjI)
  let ?j = "the_jobs demo_on_b"
  have b: "tw_jobs demo_on_b = Some ?j" by (rule the_jobsI) code_simp
  have "''a'' \<in> set (tw_dead demo_on_b)" "\<not> jb_creating ?j" "''a'' \<noteq> jb_host ?j" by code_simp+
  then have "task_step demo_def demo_on_b demo_adopted" unfolding demo_adopted_def by (intro adopts [OF b])
  with demo_on_b_reached show "reach task_start (task_step demo_def) demo_adopted" by (rule reach_step)
  show "tw_jobs demo_adopted = Some ?j" using b by (simp add: demo_adopted_def)
  show "jb_host ?j = ''b''" "tw_dead demo_adopted = [''a'']" "rn_stage (jb_runs ?j 0) = Running"
    "rn_name (jb_runs ?j 0) \<in> set (tw_owed demo_adopted)" "tw_rosters demo_adopted = []" "jb_roster ?j = []" "jb_chain ?j = []" by code_simp+
qed

text \<open>
  The catch of \<open>create\<close> stops the effect scope and throws: the run whose resume failed is released and settled, the resume loop is
  over and the slot is free, but the runs already launched are neither aborted nor awaited. They go on in an activation
  nobody holds, beside whatever is created next. \<open>landed\<close> is whether the failing edit was stored.
\<close>

record 'i forked =
  fk_world :: "'i task_world"
  fk_left :: "'i jobs list"

definition left_behind :: "nat \<Rightarrow> (nat \<times> ledger_op) list \<Rightarrow> 'i jobs \<Rightarrow> 'i jobs" where
  "left_behind i q j = (settle_run i (release_run i (j\<lparr>jb_chain := q\<rparr>)))\<lparr>jb_resuming := []\<rparr>"

definition activation_fails :: "bool \<Rightarrow> nat \<Rightarrow> (nat \<times> ledger_op) list \<Rightarrow> 'i jobs \<Rightarrow> 'i forked \<Rightarrow> 'i forked" where
  "activation_fails landed i q j f = (let w = fk_world f in
     f\<lparr>fk_world := w\<lparr>tw_jobs := None, tw_ledger := (if landed then apply_op Bump_Restarts (jb_runs j i) (tw_ledger w) else tw_ledger w)\<rparr>,
       fk_left := left_behind i q j # fk_left f\<rparr>)"

definition forget_dead :: "'i forked \<Rightarrow> 'i forked" where
  "forget_dead f = f\<lparr>fk_left := filter (\<lambda>j. jb_host j \<notin> set (tw_dead (fk_world f))) (fk_left f)\<rparr>"

text \<open>
  The steps of the actor with what failed activations have left of it: those of the present activation, the failure of one that is
  being created, those of a left one (its bodies end, their edits land or fail; nobody deactivates it or calls it), and the death
  of a left one's host. A host that dies takes all its activations with it.
\<close>

inductive fork_step :: "task_def \<Rightarrow> 'i forked \<Rightarrow> 'i forked \<Rightarrow> bool" for d where
  present: "task_step d (fk_world f) w \<Longrightarrow> fork_step d f (forget_dead (f\<lparr>fk_world := w\<rparr>))"
| create_fails: "tw_jobs (fk_world f) = Some j \<Longrightarrow> jb_creating j \<Longrightarrow> jb_chain j = (i, Bump_Restarts) # q
    \<Longrightarrow> fork_step d f (activation_fails landed i q j f)"
| left_on: "k < length (fk_left f) \<Longrightarrow> task_step d (with_jobs (fk_world f) (fk_left f ! k)) w \<Longrightarrow> tw_jobs w = Some j
    \<Longrightarrow> jb_creating j \<Longrightarrow> jb_aborted j = jb_aborted (fk_left f ! k)
    \<Longrightarrow> fork_step d f (f\<lparr>fk_world := w\<lparr>tw_jobs := tw_jobs (fk_world f)\<rparr>, fk_left := (fk_left f)[k := j]\<rparr>)"
| left_host_dies: "j \<in> set (fk_left f) \<Longrightarrow> w = fk_world f
    \<Longrightarrow> fork_step d f (forget_dead (f\<lparr>fk_world := w\<lparr>tw_dead := jb_host j # tw_dead w,
          tw_jobs := (case tw_jobs w of Some p \<Rightarrow> if jb_host p = jb_host j then None else Some p | None \<Rightarrow> None)\<rparr>\<rparr>))"

definition fork_start :: "'i forked \<Rightarrow> bool" where
  "fork_start f \<longleftrightarrow> task_start (fk_world f) \<and> fk_left f = []"

definition demo_both :: "nat task_world" where
  "demo_both = land_track (land_write (started ''mail'' demo_synced))"

definition demo_half :: "nat task_world" where
  "demo_half = resume_head (land_write (resume_head (up_on ''b'' (crashed demo_both))))"

lemma demo_half_reached: "reach task_start (task_step demo_def) demo_half"
proof -
  let ?s = "started ''mail'' demo_synced"
  have "tw_jobs demo_synced = Some (the_jobs demo_synced)" by (rule the_jobsI) code_simp
  then have "task_step demo_def demo_synced ?s" by (rule demo_steps(7)) code_simp+
  with demo_synced_reached have 1: "reach task_start (task_step demo_def) ?s" by (rule reach_step)
  have "tw_jobs ?s = Some (the_jobs ?s)" by (rule the_jobsI) code_simp
  then have "task_step demo_def ?s (land_write ?s)" by (rule demo_steps(4)) code_simp+
  with 1 have 2: "reach task_start (task_step demo_def) (land_write ?s)" by (rule reach_step)
  have "tw_jobs (land_write ?s) = Some (the_jobs (land_write ?s))" by (rule the_jobsI) code_simp
  then have "task_step demo_def (land_write ?s) demo_both" unfolding demo_both_def by (rule demo_steps(5)) code_simp+
  with 2 have 3: "reach task_start (task_step demo_def) demo_both" by (rule reach_step)
  have "tw_jobs demo_both = Some (the_jobs demo_both)" by (rule the_jobsI) code_simp
  then have "task_step demo_def demo_both (crashed demo_both)" by (rule demo_steps(6))
  with 3 have 4: "reach task_start (task_step demo_def) (crashed demo_both)" by (rule reach_step)
  let ?b = "up_on ''b'' (crashed demo_both)"
  have "''b'' \<notin> set (tw_dead (crashed demo_both))" by code_simp
  then have "task_step demo_def (crashed demo_both) ?b" by (intro demo_steps(1)) simp_all
  with 4 have 5: "reach task_start (task_step demo_def) ?b" by (rule reach_step)
  have "tw_jobs ?b = Some (the_jobs ?b)" by (rule the_jobsI) code_simp
  then have "task_step demo_def ?b (resume_head ?b)" by (rule demo_steps(3)) code_simp+
  with 5 have 6: "reach task_start (task_step demo_def) (resume_head ?b)" by (rule reach_step)
  have "tw_jobs (resume_head ?b) = Some (the_jobs (resume_head ?b))" by (rule the_jobsI) code_simp
  then have "task_step demo_def (resume_head ?b) (land_write (resume_head ?b))" by (rule demo_steps(4)) code_simp+
  with 6 have 7: "reach task_start (task_step demo_def) (land_write (resume_head ?b))" by (rule reach_step)
  have "tw_jobs (land_write (resume_head ?b)) = Some (the_jobs (land_write (resume_head ?b)))" by (rule the_jobsI) code_simp
  then have "task_step demo_def (land_write (resume_head ?b)) demo_half" unfolding demo_half_def by (rule demo_steps(3)) code_simp+
  with 7 show ?thesis by (rule reach_step)
qed

text \<open>A resume loop on its way to a name that nothing in the activation holds yet.\<close>

definition resume_loop :: "string \<Rightarrow> string \<Rightarrow> (string \<times> 'i task_entry) list \<Rightarrow> 'i task_world \<Rightarrow> bool" where
  "resume_loop h n rest w \<longleftrightarrow> (\<exists>j. tw_jobs w = Some j \<and> jb_host j = h \<and> \<not> jb_faulted j \<and> \<not> jb_aborted j \<and> jb_chain j = []
     \<and> jb_resuming j = rest \<and> \<not> jhas (jb_tasks j) n)"

lemma resume_one:
  assumes "resume_loop h n ((m, e) # rest) w" "m \<noteq> n" "\<not> td_derived d"
  shows "\<exists>w'. (task_step d)\<^sup>*\<^sup>* w w' \<and> resume_loop h n rest w' \<and> tw_dead w' = tw_dead w"
proof -
  from assms(1) obtain j where j: "tw_jobs w = Some j" "jb_host j = h" "\<not> jb_faulted j" "\<not> jb_aborted j" "jb_chain j = []"
    "jb_resuming j = (m, e) # rest" "\<not> jhas (jb_tasks j) n" by (auto simp: resume_loop_def)
  define j1 where "j1 = resume_task d (tw_ledger w) m e (j\<lparr>jb_resuming := rest\<rparr>)"
  have step: "task_step d w (with_jobs w j1)" unfolding j1_def by (rule resumes [OF j(1,6)])
  show ?thesis
  proof (cases "jhas (jb_tasks j) m")
    case True
    with j have "j1 = j\<lparr>jb_resuming := rest\<rparr>" by (simp add: j1_def resume_task_def)
    with j step show ?thesis
      by (intro exI [of _ "with_jobs w j1"]) (auto simp: resume_loop_def with_jobs_def)
  next
    case False
    define oper where "oper = (if m \<in> set (td_names d) then Bump_Restarts else Drop_Entry)"
    have j1: "jb_chain j1 = [(jb_next j, oper)]" "jb_host j1 = h" "\<not> jb_faulted j1" "\<not> jb_aborted j1" "jb_resuming j1 = rest" "\<not> jhas (jb_tasks j1) n"
      using False j assms(2,3)
      by (simp_all add: j1_def oper_def resume_task_def forget_task_def set_stage_def reserve_run_def new_task_run_def Let_def jhas_jset)
    let ?w = "write_lands (jb_next j) oper [] j1 (with_jobs w j1)"
    have "task_step d (with_jobs w j1) ?w" by (rule writes) (simp_all add: with_jobs_def j1)
    moreover have "resume_loop h n rest ?w" "tw_dead ?w = tw_dead w"
      using j1 by (simp_all add: resume_loop_def write_lands_def oper_def launch_run_def settle_run_def set_stage_def Let_def with_jobs_def)
    ultimately show ?thesis using step by (meson r_into_rtranclp rtranclp.rtrancl_into_rtrancl)
  qed
qed

lemma resume_up_to:
  assumes "\<not> td_derived d"
  shows "resume_loop h n (pre @ rest) w \<Longrightarrow> n \<notin> fst ` set pre
    \<Longrightarrow> \<exists>w'. (task_step d)\<^sup>*\<^sup>* w w' \<and> resume_loop h n rest w' \<and> tw_dead w' = tw_dead w"
proof (induction pre arbitrary: w)
  case (Cons p pre)
  obtain m e where p: "p = (m, e)" by force
  from Cons.prems p have "resume_loop h n ((m, e) # pre @ rest) w" "m \<noteq> n" by auto
  from resume_one [OF this assms] obtain w1 where w1: "(task_step d)\<^sup>*\<^sup>* w w1" "resume_loop h n (pre @ rest) w1" "tw_dead w1 = tw_dead w" by blast
  from Cons.prems(2) have "n \<notin> fst ` set pre" by simp
  from Cons.IH [OF w1(2) this] obtain w2 where "(task_step d)\<^sup>*\<^sup>* w1 w2" "resume_loop h n rest w2" "tw_dead w2 = tw_dead w1" by blast
  with w1 show ?case by (intro exI [of _ w2]) (simp add: rtranclp_trans [OF w1(1)])
qed auto

lemma resume_this:
  assumes "resume_loop h n ((n, e) # rest) w" "n \<in> set (td_names d)" "\<not> td_derived d"
  shows "\<exists>w' j' m. (task_step d)\<^sup>*\<^sup>* w w' \<and> tw_dead w' = tw_dead w \<and> tw_jobs w' = Some j' \<and> jb_host j' = h
    \<and> rn_stage (jb_runs j' m) = Running \<and> rn_signal (jb_runs j' m) = None \<and> rn_name (jb_runs j' m) = n"
proof -
  from assms(1) obtain j where j: "tw_jobs w = Some j" "jb_host j = h" "\<not> jb_faulted j" "\<not> jb_aborted j" "jb_chain j = []"
    "jb_resuming j = (n, e) # rest" "\<not> jhas (jb_tasks j) n" by (auto simp: resume_loop_def)
  let ?j = "resume_task d (tw_ledger w) n e (j\<lparr>jb_resuming := rest\<rparr>)"
  let ?w = "write_lands (jb_next j) Bump_Restarts [] ?j (with_jobs w ?j)"
  have step: "task_step d w (with_jobs w ?j)" by (rule resumes [OF j(1,6)])
  have "task_step d (with_jobs w ?j) ?w"
    by (rule writes) (use j assms(2,3) in \<open>simp_all add: with_jobs_def resume_task_def reserve_run_def Let_def\<close>)
  with step have "(task_step d)\<^sup>*\<^sup>* w ?w" by (meson r_into_rtranclp rtranclp.rtrancl_into_rtrancl)
  moreover have "tw_dead ?w = tw_dead w" by (simp add: write_lands_def with_jobs_def Let_def)
  moreover have "\<exists>j'. tw_jobs ?w = Some j' \<and> jb_host j' = h \<and> rn_stage (jb_runs j' (jb_next j)) = Running
      \<and> rn_signal (jb_runs j' (jb_next j)) = None \<and> rn_name (jb_runs j' (jb_next j)) = n"
    using j assms(2,3) by (simp add: write_lands_def launch_run_def resume_task_def reserve_run_def new_task_run_def Let_def)
  ultimately show ?thesis by blast
qed

lemma jhas_split:
  assumes "jhas m k" obtains pre e post where "m = pre @ (k, e) # post" "k \<notin> fst ` set pre"
proof -
  from assms have "k \<in> set (map fst m)" by (simp add: jhas_iff_key)
  then obtain as bs where "map fst m = as @ k # bs" "k \<notin> set as" by (meson split_list_first)
  with that show ?thesis by (auto simp: map_eq_append_conv map_eq_Cons_conv)
qed

text \<open>What is left goes on while the present activation moves.\<close>

lemma dead_grow: "task_step d w w' \<Longrightarrow> set (tw_dead w) \<subseteq> set (tw_dead w')"
  by (induction rule: task_step.induct)
    (auto simp: with_jobs_def write_lands_def write_fails_def roster_lands_def roster_fails_def Let_def split: ledger_op.splits)

lemma present_moves:
  assumes "(task_step d)\<^sup>*\<^sup>* (fk_world f) w"
  shows "\<exists>f'. (fork_step d)\<^sup>*\<^sup>* f f' \<and> fk_world f' = w \<and> {j \<in> set (fk_left f). jb_host j \<notin> set (tw_dead w)} \<subseteq> set (fk_left f')"
  using assms
proof (induction rule: rtranclp_induct)
  case (step w1 w2)
  then obtain f1 where f1: "(fork_step d)\<^sup>*\<^sup>* f f1" "fk_world f1 = w1" "{j \<in> set (fk_left f). jb_host j \<notin> set (tw_dead w1)} \<subseteq> set (fk_left f1)" by blast
  let ?f = "forget_dead (f1\<lparr>fk_world := w2\<rparr>)"
  have "fork_step d f1 ?f" using step.hyps(2) f1(2) by (intro present) simp
  with f1(1) have "(fork_step d)\<^sup>*\<^sup>* f ?f" by simp
  moreover have "{j \<in> set (fk_left f). jb_host j \<notin> set (tw_dead w2)} \<subseteq> set (fk_left ?f)"
    using f1(3) dead_grow [OF step.hyps(2)] by (auto simp: forget_dead_def)
  ultimately show ?case by (intro exI [of _ ?f]) (simp add: forget_dead_def)
qed auto

text \<open>
  C11. A failed activation leaves its runs behind. When the write that resumes one ledgered task fails, the activation fails, but a run it has
  launched already goes on unaborted in what is left of it; when the actor is activated again on whatever host is up, its resume
  loop takes the same entry, and the task runs twice at the same time.
\<close>

theorem failed_resume_runs_twice:
  assumes "tw_jobs (fk_world f) = Some j" "jb_creating j" "jb_chain j = (i, Bump_Restarts) # q"
    and "k \<noteq> i" "rn_stage (jb_runs j k) = Running" "rn_signal (jb_runs j k) = None"
    and "jhas (tw_ledger (fk_world f)) (rn_name (jb_runs j k))" "rn_name (jb_runs j k) \<in> set (td_names d)" "\<not> td_derived d"
    and "jb_host j \<notin> set (tw_dead (fk_world f))" "h \<notin> set (tw_dead (fk_world f))"
  shows "fork_step d f (activation_fails False i q j f)
    \<and> (\<exists>f' left present m. (fork_step d)\<^sup>*\<^sup>* (activation_fails False i q j f) f'
       \<and> left \<in> set (fk_left f') \<and> rn_stage (jb_runs left k) = Running \<and> rn_signal (jb_runs left k) = None \<and> rn_name (jb_runs left k) = rn_name (jb_runs j k)
       \<and> tw_jobs (fk_world f') = Some present \<and> jb_host present = h
       \<and> rn_stage (jb_runs present m) = Running \<and> rn_signal (jb_runs present m) = None \<and> rn_name (jb_runs present m) = rn_name (jb_runs j k))"
proof -
  let ?f = "activation_fails False i q j f" and ?n = "rn_name (jb_runs j k)" and ?l = "tw_ledger (fk_world f)"
  have failed: "tw_jobs (fk_world ?f) = None" "tw_ledger (fk_world ?f) = ?l" "tw_dead (fk_world ?f) = tw_dead (fk_world f)"
    "left_behind i q j \<in> set (fk_left ?f)" by (simp_all add: activation_fails_def Let_def)
  have left: "jb_runs (left_behind i q j) k = jb_runs j k" "jb_host (left_behind i q j) = jb_host j"
    using assms(4) by (simp_all add: left_behind_def settle_run_def release_run_def set_stage_def Let_def)
  let ?w = "with_jobs (fk_world ?f) (new_jobs h ?l)"
  have up: "task_step d (fk_world ?f) ?w" using activates [OF failed(1), of h d] assms(11) failed by simp
  obtain pre e post where l: "?l = pre @ (?n, e) # post" "?n \<notin> fst ` set pre"
    using assms(7) by (rule jhas_split)
  have "resume_loop h ?n (pre @ (?n, e) # post) ?w" by (simp add: resume_loop_def with_jobs_def new_jobs_def l)
  from resume_up_to [OF assms(9) this l(2)] obtain w1 where w1: "(task_step d)\<^sup>*\<^sup>* ?w w1" "resume_loop h ?n ((?n, e) # post) w1" "tw_dead w1 = tw_dead ?w" by blast
  from resume_this [OF w1(2) assms(8,9)] obtain w2 present m where w2: "(task_step d)\<^sup>*\<^sup>* w1 w2" "tw_dead w2 = tw_dead w1" "tw_jobs w2 = Some present"
    "jb_host present = h" "rn_stage (jb_runs present m) = Running" "rn_signal (jb_runs present m) = None" "rn_name (jb_runs present m) = ?n" by blast
  from up w1(1) w2(1) have "(task_step d)\<^sup>*\<^sup>* (fk_world ?f) w2" by (meson converse_rtranclp_into_rtranclp rtranclp_trans)
  from present_moves [OF this] obtain f' where f': "(fork_step d)\<^sup>*\<^sup>* ?f f'" "fk_world f' = w2"
    "{j \<in> set (fk_left ?f). jb_host j \<notin> set (tw_dead w2)} \<subseteq> set (fk_left f')" by blast
  have "tw_dead w2 = tw_dead (fk_world f)" using w1(3) w2(2) failed(3) by (simp add: with_jobs_def)
  with f'(3) failed(4) left(2) assms(10) have "left_behind i q j \<in> set (fk_left f')" by auto
  with f'(1,2) w2(3-7) left(1) assms(5,6) create_fails [OF assms(1-3), of d False] show ?thesis by metis
qed

lemma fork_reached: "reach task_start (task_step d) w \<Longrightarrow> reach fork_start (fork_step d) \<lparr>fk_world = w, fk_left = []\<rparr>"
proof (induction rule: reach.induct)
  case (reach_init w)
  then show ?case by (intro reach.reach_init) (simp add: fork_start_def)
next
  case (reach_step w w')
  from present [of d "\<lparr>fk_world = w, fk_left = []\<rparr>" w'] reach_step.hyps have "fork_step d \<lparr>fk_world = w, fk_left = []\<rparr> \<lparr>fk_world = w', fk_left = []\<rparr>"
    by (simp add: forget_dead_def)
  with reach_step.IH show ?case by (rule reach.reach_step)
qed

theorem failed_resume_runs_twice_witness:
  "reach fork_start (fork_step demo_def) \<lparr>fk_world = demo_half, fk_left = []\<rparr>
    \<and> (\<exists>f' left present m. (fork_step demo_def)\<^sup>*\<^sup>* (activation_fails False 1 [] (the_jobs demo_half) \<lparr>fk_world = demo_half, fk_left = []\<rparr>) f'
       \<and> left \<in> set (fk_left f') \<and> rn_stage (jb_runs left 0) = Running \<and> rn_name (jb_runs left 0) = ''sync''
       \<and> tw_jobs (fk_world f') = Some present \<and> rn_stage (jb_runs present m) = Running \<and> rn_name (jb_runs present m) = ''sync'')"
proof -
  let ?j = "the_jobs demo_half" and ?f = "\<lparr>fk_world = demo_half, fk_left = []\<rparr> :: nat forked"
  have j: "tw_jobs (fk_world ?f) = Some ?j" by (simp, rule the_jobsI) code_simp
  have state: "jb_creating ?j" "jb_chain ?j = [(1, Bump_Restarts)]" "(0 :: nat) \<noteq> 1" "rn_stage (jb_runs ?j 0) = Running" "rn_signal (jb_runs ?j 0) = None" by code_simp+
  have name: "rn_name (jb_runs ?j 0) = ''sync''" by code_simp
  have rest: "jhas (tw_ledger (fk_world ?f)) (rn_name (jb_runs ?j 0))" "rn_name (jb_runs ?j 0) \<in> set (td_names demo_def)" "\<not> td_derived demo_def"
    "jb_host ?j \<notin> set (tw_dead (fk_world ?f))" "''b'' \<notin> set (tw_dead (fk_world ?f))" by code_simp+
  from failed_resume_runs_twice [OF j state rest] fork_reached [OF demo_half_reached] show ?thesis unfolding name by blast
qed

text \<open>A second start of a name answers while the first is not durable yet, and stays answered if the first fails.\<close>

lemma second_start_answers_early:
  "\<exists>(w :: nat task_world) j. reach task_start (task_step demo_def) w \<and> tw_jobs w = Some j \<and> fst (start_task demo_def ''sync'' None 6 j) = Inr None
     \<and> tw_ledger w = [] \<and> tw_owed w = []"
proof (intro exI conjI)
  let ?s = "started ''sync'' demo_up"
  have "tw_jobs demo_up = Some (the_jobs demo_up)" by (rule the_jobsI) code_simp
  then have "task_step demo_def demo_up ?s" by (rule demo_steps(7)) code_simp+
  with demo_up_reached show "reach task_start (task_step demo_def) ?s" by (rule reach_step)
  show "tw_jobs ?s = Some (the_jobs ?s)" by (rule the_jobsI) code_simp
  show "fst (start_task demo_def ''sync'' None 6 (the_jobs ?s)) = Inr None" "tw_ledger ?s = []" "tw_owed ?s = []" by code_simp+
qed

subsection \<open>Witnesses\<close>

theorem one_run_per_task_witness: "jget (jb_tasks (the_jobs demo_half)) ''sync'' = Some 0 \<and> jb_keep (the_jobs demo_half) \<noteq> 0"
proof -
  have j: "tw_jobs demo_half = Some (the_jobs demo_half)" by (rule the_jobsI) code_simp
  have s: "rn_stage (jb_runs (the_jobs demo_half) 0) = Running" "rn_name (jb_runs (the_jobs demo_half) 0) = ''sync''" by code_simp+
  have "held (rn_stage (jb_runs (the_jobs demo_half) 0))" by (simp add: s(1))
  with one_run_per_task [OF demo_half_reached j] s(2) show ?thesis by metis
qed


end
