(* ===== verification/Change_Feeds.thy ===== *)
theory Change_Feeds
  imports Machines
begin

section \<open>Change feeds of an activation\<close>

text \<open>
  \<open>ctx.changes()\<close> of \<open>host/activation.ts\<close>: \<open>#openChanges\<close>, \<open>#changeFeed\<close>, the fan-out of \<open>#afterTurn\<close>, the throttle
  windows and the closing of subscriptions. \<open>snap\<close> is the snapshot codec, which may throw (\<open>None\<close>). A
  snapshot that the save of the same version has prepared equals a fresh one and is not told apart. What is there only for the
  properties: \<open>cs_log\<close>, every delivery with its time and version, newest first; \<open>cs_seed\<close> and \<open>cs_from\<close>, the seed and the
  boundary a feed was opened with; \<open>cf_settled\<close>, the states at the turn
  boundaries; \<open>cs_lost\<close>, that the codec threw for the latest boundary.
\<close>

datatype 'v change = Change_Tick | Snapshot 'v

record 'v change_sub =
  cs_queue :: "'v change list"
  cs_done :: bool
  cs_ticks :: bool
  cs_throttle :: int
  cs_pending :: bool
  cs_window :: "int option"
  cs_log :: "(int \<times> nat \<times> 'v change) list"
  cs_seed :: "'v change list"
  cs_from :: nat
  cs_lost :: bool

record ('st, 'v) feeds =
  cf_now :: int
  cf_state :: 'st
  cf_dirty :: bool
  cf_tracking :: bool
  cf_version :: nat
  cf_notified :: nat
  cf_reload :: bool
  cf_turn :: bool
  cf_subs :: "(nat, 'v change_sub) jmap"
  cf_next :: nat
  cf_settled :: "'st list"

definition change_buffer :: nat where "change_buffer = 16"

subsection \<open>One subscriber\<close>

text \<open>\<open>normalizeThrottleMs\<close>: a negative window is refused (a value that is no finite number cannot be written here).\<close>

definition normalize_throttle :: "int option \<Rightarrow> unit + int" where
  "normalize_throttle v = (case v of None \<Rightarrow> Inr 0 | Some n \<Rightarrow> if n < 0 then Inl () else Inr n)"

definition deliver :: "int \<Rightarrow> nat \<Rightarrow> 'v change \<Rightarrow> 'v change_sub \<Rightarrow> 'v change_sub" where
  "deliver now ver v s = (let q = cs_queue s @ [v]
     in s\<lparr>cs_queue := (if length q > change_buffer then tl q else q), cs_log := (now, ver, v) # cs_log s, cs_lost := False\<rparr>)"

definition open_window :: "int \<Rightarrow> 'v change_sub \<Rightarrow> 'v change_sub" where
  "open_window now s = s\<lparr>cs_window := Some (now + cs_throttle s)\<rparr>"

definition close_window :: "'v change_sub \<Rightarrow> 'v change_sub" where
  "close_window s = s\<lparr>cs_window := None, cs_pending := False\<rparr>"

definition defer_to_window :: "int \<Rightarrow> 'v change_sub \<Rightarrow> bool \<times> 'v change_sub" where
  "defer_to_window now s =
     (if cs_throttle s \<le> 0 then (False, s)
      else if cs_window s \<noteq> None then (True, s\<lparr>cs_pending := True\<rparr>)
      else (False, open_window now s))"

text \<open>The timer of a window. \<open>snap st\<close> may throw out of the timer; the emit is lost then.\<close>

definition window_closes :: "('st \<Rightarrow> 'v option) \<Rightarrow> int \<Rightarrow> nat \<Rightarrow> 'st \<Rightarrow> 'v change_sub \<Rightarrow> 'v change_sub" where
  "window_closes snap now ver st s =
     (let s = s\<lparr>cs_window := None\<rparr>
      in if \<not> cs_pending s \<or> cs_done s then s
         else let s = s\<lparr>cs_pending := False\<rparr>
              in if cs_ticks s then open_window now (deliver now ver Change_Tick s)
                 else (case snap st of None \<Rightarrow> s\<lparr>cs_lost := True\<rparr> | Some v \<Rightarrow> open_window now (deliver now ver (Snapshot v) s)))"

subsection \<open>The boundary\<close>

text \<open>The loop of \<open>#afterTurn\<close>: the snapshot is built at most once, and a throw does not take the boundary from the ticks behind it.\<close>

fun fan_out :: "'v option \<Rightarrow> int \<Rightarrow> nat \<Rightarrow> bool \<Rightarrow> (nat, 'v change_sub) jmap \<Rightarrow> (nat, 'v change_sub) jmap \<times> bool" where
  "fan_out sn now ver err [] = ([], err)"
| "fan_out sn now ver err ((i, s) # q) =
     (if err \<and> \<not> cs_ticks s then (let (r, e) = fan_out sn now ver err q in ((i, s\<lparr>cs_lost := True\<rparr>) # r, e))
      else let (deferred, s') = defer_to_window now s
           in if deferred then (let (r, e) = fan_out sn now ver err q in ((i, s') # r, e))
              else if cs_ticks s then (let (r, e) = fan_out sn now ver err q in ((i, deliver now ver Change_Tick s') # r, e))
              else (case sn of
                  None \<Rightarrow> let (r, e) = fan_out sn now ver True q in ((i, (close_window s')\<lparr>cs_lost := True\<rparr>) # r, e)
                | Some v \<Rightarrow> let (r, e) = fan_out sn now ver err q in ((i, deliver now ver (Snapshot v) s') # r, e)))"

definition fold_dirty :: "('st, 'v) feeds \<Rightarrow> ('st, 'v) feeds" where
  "fold_dirty f = (if cf_dirty f then f\<lparr>cf_dirty := False, cf_version := Suc (cf_version f)\<rparr> else f)"

text \<open>The end of a turn; the flag says that the snapshot's error is rethrown to the caller.\<close>

definition boundary :: "('st \<Rightarrow> 'v option) \<Rightarrow> ('st, 'v) feeds \<Rightarrow> ('st, 'v) feeds \<times> bool" where
  "boundary snap f =
     (let f = fold_dirty f
      in if cf_version f > cf_notified f \<and> \<not> cf_reload f
         then (let (subs, e) = fan_out (snap (cf_state f)) (cf_now f) (cf_version f) False (cf_subs f)
               in (f\<lparr>cf_notified := cf_version f, cf_subs := subs, cf_turn := False, cf_settled := cf_state f # cf_settled f\<rparr>, e))
         else (f\<lparr>cf_turn := False, cf_settled := cf_state f # cf_settled f\<rparr>, False))"

subsection \<open>Opening, reading and closing\<close>

definition new_sub :: "bool \<Rightarrow> int \<Rightarrow> nat \<Rightarrow> 'v change_sub" where
  "new_sub ticks throttle from = \<lparr>cs_queue = [], cs_done = False, cs_ticks = ticks, cs_throttle = throttle, cs_pending = False,
     cs_window = None, cs_log = [], cs_seed = [], cs_from = from, cs_lost = False\<rparr>"

text \<open>A feed of a body whose consumer is gone is born spent and is not registered. A throwing seed opens nothing.\<close>

definition open_changes :: "('st \<Rightarrow> 'v option) \<Rightarrow> bool \<Rightarrow> bool \<Rightarrow> bool \<Rightarrow> int \<Rightarrow> ('st, 'v) feeds \<Rightarrow> 'v change_sub option \<times> ('st, 'v) feeds" where
  "open_changes snap closed initial ticks throttle f =
     (if closed then (Some ((new_sub ticks throttle (cf_notified f))\<lparr>cs_done := True\<rparr>), f)
      else let f = f\<lparr>cf_tracking := True\<rparr>
           in case (if \<not> initial then Some [] else if ticks then Some [Change_Tick] else map_option (\<lambda>v. [Snapshot v]) (snap (cf_state f))) of
                None \<Rightarrow> (None, f)
              | Some q \<Rightarrow> let s = (new_sub ticks throttle (cf_notified f))\<lparr>cs_queue := q, cs_seed := q\<rparr>
                          in (Some s, f\<lparr>cf_subs := jset (cf_subs f) (cf_next f) s, cf_next := Suc (cf_next f)\<rparr>))"

datatype 'v pulled = Pulled 'v | Ended | Parked

definition feed_next :: "'v change_sub \<Rightarrow> 'v change pulled \<times> 'v change_sub" where
  "feed_next s = (case cs_queue s of v # q \<Rightarrow> (Pulled v, s\<lparr>cs_queue := q\<rparr>)
     | [] \<Rightarrow> (if cs_done s then Ended else Parked, s))"

definition feed_return :: "nat \<Rightarrow> ('st, 'v) feeds \<Rightarrow> ('st, 'v) feeds" where
  "feed_return i f = f\<lparr>cf_subs := jdel (cf_subs f) i\<rparr>"

text \<open>\<open>#closeSubs\<close> on one subscription: what its window owes is delivered before it ends.\<close>

definition close_sub :: "('st \<Rightarrow> 'v option) \<Rightarrow> int \<Rightarrow> nat \<Rightarrow> 'st \<Rightarrow> 'v change_sub \<Rightarrow> 'v change_sub" where
  "close_sub snap now ver st s =
     (let s = (if cs_pending s \<and> \<not> cs_done s
               then (if cs_ticks s then deliver now ver Change_Tick s
                     else (case snap st of None \<Rightarrow> s | Some v \<Rightarrow> deliver now ver (Snapshot v) s)) else s)
      in (close_window s)\<lparr>cs_done := True\<rparr>)"

definition close_subs :: "('st \<Rightarrow> 'v option) \<Rightarrow> ('st, 'v) feeds \<Rightarrow> (nat, 'v change_sub) jmap \<times> ('st, 'v) feeds" where
  "close_subs snap f = (map (\<lambda>(i, s). (i, close_sub snap (cf_now f) (cf_version f) (cf_state f) s)) (cf_subs f), f\<lparr>cf_subs := []\<rparr>)"

subsection \<open>Steps\<close>

text \<open>
  A serial activation: a turn begins when none runs, its writes and its saves are steps of their own, for it may await in
  between; a timer fires at its time or late, whatever runs. The latest snapshot of a subscriber is of the version it was taken at.
\<close>

inductive feed_step :: "('st \<Rightarrow> 'v option) \<Rightarrow> ('st, 'v) feeds \<Rightarrow> ('st, 'v) feeds \<Rightarrow> bool" for snap where
  turn_begins: "\<not> cf_turn f \<Longrightarrow> feed_step snap f (f\<lparr>cf_turn := True\<rparr>)"
| turn_writes: "cf_turn f \<Longrightarrow> feed_step snap f (f\<lparr>cf_state := g (cf_state f), cf_dirty := cf_dirty f \<or> cf_tracking f\<rparr>)"
| turn_saves: "cf_turn f \<Longrightarrow> f1 = fold_dirty f \<Longrightarrow> feed_step snap f (f1\<lparr>cf_version := Suc (cf_version f1), cf_reload := lost\<rparr>)"
| turn_reloads: "cf_turn f \<Longrightarrow> cf_reload f \<Longrightarrow> f1 = fold_dirty (f\<lparr>cf_state := st, cf_dirty := cf_dirty f \<or> cf_tracking f\<rparr>)
    \<Longrightarrow> feed_step snap f (f1\<lparr>cf_version := Suc (cf_version f1), cf_reload := False\<rparr>)"
| turn_ends: "cf_turn f \<Longrightarrow> feed_step snap f (fst (boundary snap f))"
| time_passes: "0 \<le> t \<Longrightarrow> feed_step snap f (f\<lparr>cf_now := cf_now f + t\<rparr>)"
| window_fires: "jget (cf_subs f) i = Some s \<Longrightarrow> cs_window s = Some d \<Longrightarrow> d \<le> cf_now f
    \<Longrightarrow> feed_step snap f (f\<lparr>cf_subs := jset (cf_subs f) i (window_closes snap (cf_now f) (cf_version f) (cf_state f) s)\<rparr>)"
| opens: "normalize_throttle v = Inr throttle \<Longrightarrow> feed_step snap f (snd (open_changes snap closed initial ticks throttle f))"
| pulls: "jget (cf_subs f) i = Some s \<Longrightarrow> feed_step snap f (f\<lparr>cf_subs := jset (cf_subs f) i (snd (feed_next s))\<rparr>)"
| returns: "feed_step snap f (feed_return i f)"

definition feed_start :: "('st, 'v) feeds \<Rightarrow> bool" where
  "feed_start f \<longleftrightarrow> cf_subs f = [] \<and> cf_next f = 0 \<and> \<not> cf_turn f \<and> cf_settled f = [cf_state f] \<and> cf_notified f \<le> cf_version f"


subsection \<open>The invariant\<close>

definition sub_ok :: "int \<Rightarrow> nat \<Rightarrow> nat \<Rightarrow> 'v change_sub \<Rightarrow> bool" where
  "sub_ok now notified ver s \<longleftrightarrow>
     \<not> cs_done s \<and> length (cs_queue s) \<le> change_buffer \<and> 0 \<le> cs_throttle s
     \<and> (\<exists>p. cs_seed s @ rev (map (snd \<circ> snd) (cs_log s)) = p @ cs_queue s)
     \<and> sorted_wrt (\<lambda>a b. fst b + cs_throttle s \<le> fst a) (cs_log s)
     \<and> (case cs_window s of None \<Rightarrow> (\<forall>e \<in> set (cs_log s). fst e + cs_throttle s \<le> now)
          | Some d \<Rightarrow> 0 < cs_throttle s \<and> cs_log s \<noteq> [] \<and> d = fst (hd (cs_log s)) + cs_throttle s)
     \<and> (\<forall>e \<in> set (cs_log s). fst e \<le> now \<and> fst (snd e) \<le> ver)
     \<and> (cs_pending s \<longrightarrow> cs_window s \<noteq> None) \<and> (cs_ticks s \<longrightarrow> \<not> cs_lost s)
     \<and> (cs_lost s \<or> cs_pending s \<or> notified \<le> cs_from s \<or> cs_log s \<noteq> [] \<and> notified \<le> fst (snd (hd (cs_log s))))"

definition feeds_ok :: "('st, 'v) feeds \<Rightarrow> bool" where
  "feeds_ok f \<longleftrightarrow> cf_notified f \<le> cf_version f \<and> (\<forall>p \<in> set (cf_subs f). sub_ok (cf_now f) (cf_notified f) (cf_version f) (snd p))"

lemma in_set_jset: "p \<in> set (jset m k v) \<Longrightarrow> p = (k, v) \<or> p \<in> set m"
  by (induction m) (auto split: if_splits)

lemma in_set_jdel: "p \<in> set (jdel m k) \<Longrightarrow> p \<in> set m"
  by (induction m) (auto split: if_splits)

lemma change_buffer_pos: "0 < change_buffer" "change_buffer = Suc 15"
  by (simp_all add: change_buffer_def)

text \<open>A delivery with no window open, before a window is.\<close>

lemma deliver_queue:
  assumes "\<exists>p. sd @ rev (map (snd \<circ> snd) l) = p @ q"
  shows "\<exists>p. sd @ rev (map (snd \<circ> snd) ((now, ver, v) # l)) = p @ (if length (q @ [v]) > change_buffer then tl (q @ [v]) else q @ [v])"
proof -
  from assms obtain p where p: "sd @ rev (map (snd \<circ> snd) l) = p @ q" ..
  show ?thesis
  proof (cases "length (q @ [v]) > change_buffer")
    case True
    then have "q \<noteq> []" by (auto simp: change_buffer_def)
    then have "q = hd q # tl q" by simp
    with p have "sd @ rev (map (snd \<circ> snd) ((now, ver, v) # l)) = (p @ [hd q]) @ tl (q @ [v])" by (cases q) simp_all
    with True show ?thesis by (auto intro!: exI [of _ "p @ [hd q]"])
  next
    case False
    with p have "sd @ rev (map (snd \<circ> snd) ((now, ver, v) # l)) = p @ (q @ [v])" by simp
    with False show ?thesis by auto
  qed
qed

lemma deliver_ok:
  assumes "sub_ok now notified ver s" "cs_window s = None" "\<not> cs_pending s" "notified' \<le> ver'" "ver \<le> ver'"
  shows "sub_ok now notified' ver' (if 0 < cs_throttle s then open_window now (deliver now ver' v s) else deliver now ver' v s)"
proof -
  have q: "length (if length (cs_queue s @ [v]) > change_buffer then tl (cs_queue s @ [v]) else cs_queue s @ [v]) \<le> change_buffer"
    using assms(1) by (auto simp: sub_ok_def)
  have s: "\<exists>p. cs_seed s @ rev (map (snd \<circ> snd) (cs_log s)) = p @ cs_queue s" using assms(1) by (simp add: sub_ok_def)
  note d = deliver_queue [OF s, of now ver' v]
  have "sorted_wrt (\<lambda>a b. fst b + cs_throttle s \<le> fst a) ((now, ver', v) # cs_log s)"
    "\<forall>e \<in> set ((now, ver', v) # cs_log s). fst e \<le> now \<and> fst (snd e) \<le> ver'"
    using assms by (auto simp: sub_ok_def)
  with assms q d show ?thesis
    by (auto simp: sub_ok_def deliver_def open_window_def Let_def)
qed


lemma sub_ok_mono: "sub_ok now notified ver s \<Longrightarrow> now \<le> now' \<Longrightarrow> ver \<le> ver' \<Longrightarrow> sub_ok now' notified ver' s"
  by (fastforce simp: sub_ok_def split: option.splits)

lemma sub_ok_lost:
  "sub_ok now notified ver s \<Longrightarrow> \<not> cs_ticks s \<Longrightarrow> ver \<le> ver' \<Longrightarrow> sub_ok now notified' ver' (s\<lparr>cs_lost := True\<rparr>)"
  by (fastforce simp: sub_ok_def split: option.splits)

lemma sub_ok_defer:
  "sub_ok now notified ver s \<Longrightarrow> cs_window s \<noteq> None \<Longrightarrow> ver \<le> ver' \<Longrightarrow> sub_ok now notified' ver' (s\<lparr>cs_pending := True\<rparr>)"
  by (fastforce simp: sub_ok_def split: option.splits)

lemma open_then_deliver: "deliver now ver v (open_window now s) = open_window now (deliver now ver v s)"
  by (simp add: deliver_def open_window_def Let_def)

lemma defer_cases:
  assumes "sub_ok now notified ver s"
  shows "defer_to_window now s =
    (if cs_window s \<noteq> None then (True, s\<lparr>cs_pending := True\<rparr>) else (False, if 0 < cs_throttle s then open_window now s else s))"
  using assms by (auto simp: defer_to_window_def sub_ok_def split: option.splits)

lemma fan_out_ok:
  "\<forall>p \<in> set subs. sub_ok now notified ver (snd p) \<Longrightarrow> ver \<le> ver' \<Longrightarrow> fan_out sn now ver' err subs = (subs', e)
     \<Longrightarrow> \<forall>p \<in> set subs'. sub_ok now ver' ver' (snd p)"
proof (induction subs arbitrary: err subs' e)
  case (Cons p q)
  obtain i s where p: "p = (i, s)" by force
  with Cons.prems(1) have s: "sub_ok now notified ver s" and q: "\<forall>p \<in> set q. sub_ok now notified ver (snd p)" by auto
  have IH: "fan_out sn now ver' err' q = (r, e') \<Longrightarrow> x \<in> set r \<Longrightarrow> sub_ok now ver' ver' (snd x)" for err' r e' x
    using Cons.IH [OF q Cons.prems(2)] by blast
  have w: "cs_window s = None \<Longrightarrow> \<not> cs_pending s" using s by (auto simp: sub_ok_def)
  note del = deliver_ok [OF s _ w order_refl Cons.prems(2)]
  have clo: "\<not> cs_ticks s \<Longrightarrow> cs_window s = None \<Longrightarrow> sub_ok now ver' ver' ((close_window (if 0 < cs_throttle s then open_window now s else s))\<lparr>cs_lost := True\<rparr>)"
    using sub_ok_lost [OF s _ Cons.prems(2), of ver'] w by (auto simp: close_window_def open_window_def sub_ok_def)
  show ?case
    using Cons.prems(3) IH sub_ok_lost [OF s _ Cons.prems(2), of ver'] sub_ok_defer [OF s _ Cons.prems(2), of ver'] del [of Change_Tick] del clo
    by (auto simp: p defer_cases [OF s] open_then_deliver split: if_splits option.splits prod.splits dest: IH)
qed simp

lemma window_closes_ok:
  assumes s: "sub_ok now notified ver s" and d: "cs_window s = Some d" "d \<le> now" and n: "notified \<le> ver"
  shows "sub_ok now notified ver (window_closes snap now ver st s)"
proof -
  let ?s = "s\<lparr>cs_window := None, cs_pending := False\<rparr>"
  have old: "\<forall>e \<in> set (cs_log s). fst e + cs_throttle s \<le> now"
    using s d by (cases "cs_log s") (auto simp: sub_ok_def)
  have pos: "0 < cs_throttle s" using s d by (simp add: sub_ok_def)
  have shut: "sub_ok now notified ver (?s\<lparr>cs_lost := cs_lost s \<or> cs_pending s\<rparr>)" if "\<not> cs_ticks s \<or> \<not> cs_pending s"
    using s old that by (auto simp: sub_ok_def)
  have ok0: "sub_ok now 0 ver ?s" using s old by (auto simp: sub_ok_def)
  have emit: "sub_ok now notified ver (open_window now (deliver now ver v ?s))" for v
    using deliver_ok [OF ok0, of notified ver v] n pos by simp
  show ?thesis
  proof (cases "cs_pending s \<and> \<not> cs_done s")
    case True
    with emit shut show ?thesis by (auto simp: window_closes_def Let_def split: option.splits)
  next
    case False
    then show ?thesis using shut s d old by (auto simp: window_closes_def Let_def sub_ok_def)
  qed
qed


lemma boundary_ok:
  assumes "feeds_ok f"
  shows "feeds_ok (fst (boundary snap f))"
proof -
  let ?g = "fold_dirty f"
  have g: "cf_now ?g = cf_now f" "cf_subs ?g = cf_subs f" "cf_notified ?g = cf_notified f" "cf_version f \<le> cf_version ?g"
    by (auto simp: fold_dirty_def)
  show ?thesis
  proof (cases "cf_version ?g > cf_notified ?g \<and> \<not> cf_reload ?g")
    case True
    obtain subs e where r: "fan_out (snap (cf_state ?g)) (cf_now ?g) (cf_version ?g) False (cf_subs ?g) = (subs, e)" by force
    from assms have "\<forall>p \<in> set (cf_subs f). sub_ok (cf_now f) (cf_notified f) (cf_version f) (snd p)" by (simp add: feeds_ok_def)
    from fan_out_ok [OF this g(4) r [unfolded g(1,2)]]
    have "\<forall>p \<in> set subs. sub_ok (cf_now f) (cf_version ?g) (cf_version ?g) (snd p)" .
    with True r g show ?thesis by (simp add: boundary_def Let_def feeds_ok_def)
  next
    case False
    then have e: "fst (boundary snap f) = ?g\<lparr>cf_turn := False, cf_settled := cf_state ?g # cf_settled ?g\<rparr>"
      by (auto simp: boundary_def Let_def)
    show ?thesis unfolding e using assms g by (auto simp: feeds_ok_def intro: sub_ok_mono)
  qed
qed

lemma open_ok:
  assumes "feeds_ok f" "normalize_throttle v = Inr throttle"
  shows "feeds_ok (snd (open_changes snap closed initial ticks throttle f))"
proof -
  have "0 \<le> throttle" using assms(2) by (auto simp: normalize_throttle_def split: option.splits if_splits)
  then have new: "sub_ok (cf_now f) (cf_notified f) (cf_version f) ((new_sub ticks throttle (cf_notified f))\<lparr>cs_queue := q, cs_seed := q\<rparr>)" if "length q \<le> 1" for q :: "'b change list"
    using that by (simp add: sub_ok_def new_sub_def change_buffer_def)
  show ?thesis
    using assms(1) new [of "[]"] new [of "[Change_Tick]"] new [of "[Snapshot x]" for x]
    by (auto simp: open_changes_def Let_def feeds_ok_def dest!: in_set_jset split: option.splits)
qed

lemma feed_next_ok: "sub_ok now notified ver s \<Longrightarrow> sub_ok now notified ver (snd (feed_next s))"
proof (cases "cs_queue s")
  case (Cons v q)
  assume s: "sub_ok now notified ver s"
  then obtain p where "cs_seed s @ rev (map (snd \<circ> snd) (cs_log s)) = p @ cs_queue s" unfolding sub_ok_def by blast
  with Cons have "cs_seed s @ rev (map (snd \<circ> snd) (cs_log s)) = (p @ [v]) @ q" by simp
  then have "\<exists>p. cs_seed s @ rev (map (snd \<circ> snd) (cs_log s)) = p @ q" ..
  with s Cons show ?thesis by (auto simp: feed_next_def sub_ok_def split: option.splits)
qed (simp add: feed_next_def)

lemma feed_step_ok:
  assumes "feeds_ok f" "feed_step snap f f'"
  shows "feeds_ok f'"
proof -
  have fold: "feeds_ok (fold_dirty g)" if "feeds_ok g" for g :: "('a, 'b) feeds"
    using that by (auto simp: feeds_ok_def fold_dirty_def intro: sub_ok_mono)
  have bump: "feeds_ok (g\<lparr>cf_version := Suc (cf_version g), cf_reload := b\<rparr>)" if "feeds_ok g" for g :: "('a, 'b) feeds" and b
    using that by (auto simp: feeds_ok_def intro: sub_ok_mono)
  have sub: "jget (cf_subs f) i = Some s \<Longrightarrow> sub_ok (cf_now f) (cf_notified f) (cf_version f) s" for i s
    using assms(1) by (fastforce simp: feeds_ok_def dest: map_of_SomeD)
  have put: "feeds_ok (f\<lparr>cf_subs := jset (cf_subs f) i s\<rparr>)" if "sub_ok (cf_now f) (cf_notified f) (cf_version f) s" for i s
    using that assms(1) by (auto simp: feeds_ok_def dest!: in_set_jset)
  from assms(2) show ?thesis
  proof cases
    case (window_fires i s d)
    then show ?thesis using put [OF window_closes_ok [OF sub [OF window_fires(2)] window_fires(3,4)]] assms(1) by (simp add: feeds_ok_def)
  next
    case (turn_reloads f1 st)
    have "feeds_ok (f\<lparr>cf_state := st, cf_dirty := cf_dirty f \<or> cf_tracking f\<rparr>)" using assms(1) by (simp add: feeds_ok_def)
    with turn_reloads show ?thesis using bump [OF fold] by simp
  next
    case (turn_saves f1 lost)
    with assms(1) show ?thesis using bump [OF fold] by simp
  next
    case (time_passes t)
    with assms(1) show ?thesis by (auto simp: feeds_ok_def intro: sub_ok_mono)
  next
    case (returns i)
    with assms(1) show ?thesis by (auto simp: feeds_ok_def feed_return_def dest: in_set_jdel)
  next
    case (pulls i s)
    then show ?thesis using put [OF feed_next_ok [OF sub]] by simp
  next
    case (opens v throttle closed initial ticks)
    then show ?thesis using open_ok assms(1) by simp
  qed (use assms(1) boundary_ok in \<open>simp_all add: feeds_ok_def\<close>)
qed

interpretation change_feed: invariant_machine feed_start "feed_step snap" feeds_ok
proof unfold_locales
  show "feeds_ok f" if "feed_start f" for f :: "('a, 'b) feeds" using that by (simp add: feed_start_def feeds_ok_def)
qed (rule feed_step_ok)

subsection \<open>Properties\<close>

text \<open>
  C12. A subscriber is never left behind. For every open feed, whatever its throttle: the newest thing delivered is of the
  latest turn boundary or later, or its window owes it an emit and is open, or the feed was opened after that boundary, or the snapshot
  codec threw for it, which never happens to a feed that takes ticks. What waits in the queue is the end of
  everything that was delivered, in order, and never more than the buffer.
\<close>

theorem feed_never_left_behind:
  assumes "reach feed_start (feed_step snap) f" "(i, s) \<in> set (cf_subs f)"
  shows "(cs_lost s \<and> \<not> cs_ticks s \<or> cs_pending s \<and> cs_window s \<noteq> None \<or> cf_notified f \<le> cs_from s
      \<or> (\<exists>t v x l. cs_log s = (t, v, x) # l \<and> cf_notified f \<le> v))
    \<and> (\<exists>p. cs_seed s @ rev (map (snd \<circ> snd) (cs_log s)) = p @ cs_queue s) \<and> length (cs_queue s) \<le> change_buffer"
proof -
  have "sub_ok (cf_now f) (cf_notified f) (cf_version f) s"
    using change_feed.reach_inv [OF assms(1)] assms(2) by (auto simp: feeds_ok_def)
  then show ?thesis by (cases "cs_log s") (auto simp: sub_ok_def)
qed

text \<open>
  A throttled feed keeps its rate. Between two deliveries to a subscriber at least its throttle window passes,
  at leading and trailing edges alike and in every order of boundaries and timers, so that its consumer gets no
  more than one value per window.
\<close>

theorem throttle_spaces_deliveries:
  assumes "reach feed_start (feed_step snap) f" "(i, s) \<in> set (cf_subs f)" "a < b" "b < length (cs_log s)"
  shows "fst (cs_log s ! b) + cs_throttle s \<le> fst (cs_log s ! a)"
proof -
  have "sub_ok (cf_now f) (cf_notified f) (cf_version f) s"
    using change_feed.reach_inv [OF assms(1)] assms(2) by (auto simp: feeds_ok_def)
  then have "sorted_wrt (\<lambda>a b. fst b + cs_throttle s \<le> fst a) (cs_log s)" by (simp add: sub_ok_def)
  from sorted_wrt_nth_less [OF this assms(3,4)] show ?thesis .
qed


subsection \<open>What a trailing emit may show\<close>

text \<open>An account with two balances; a transfer writes one, awaits, and writes the other.\<close>

type_synonym accounts = "(nat \<times> nat, nat \<times> nat) feeds"

definition bank :: accounts where
  "bank = \<lparr>cf_now = 0, cf_state = (5, 5), cf_dirty = False, cf_tracking = False, cf_version = 0, cf_notified = 0, cf_reload = False,
     cf_turn = False, cf_subs = [], cf_next = 0, cf_settled = [(5, 5)]\<rparr>"

definition turn_on :: "accounts \<Rightarrow> accounts" where "turn_on f = f\<lparr>cf_turn := True\<rparr>"

definition wrote :: "(nat \<times> nat \<Rightarrow> nat \<times> nat) \<Rightarrow> accounts \<Rightarrow> accounts" where
  "wrote g f = f\<lparr>cf_state := g (cf_state f), cf_dirty := cf_dirty f \<or> cf_tracking f\<rparr>"

definition ended :: "accounts \<Rightarrow> accounts" where "ended f = fst (boundary Some f)"

definition watched :: accounts where "watched = snd (open_changes Some False False False 50 bank)"

definition transferred :: "accounts \<Rightarrow> accounts" where
  "transferred f = ended (wrote (\<lambda>(a, b). (a, b + 1)) (wrote (\<lambda>(a, b). (a - 1, b)) (turn_on f)))"

definition half_way :: accounts where
  "half_way = (wrote (\<lambda>(a, b). (a - 1, b)) (turn_on (transferred (transferred watched))))\<lparr>cf_now := 50\<rparr>"

definition fired :: "nat \<Rightarrow> accounts \<Rightarrow> accounts" where
  "fired i f = f\<lparr>cf_subs := jset (cf_subs f) i (window_closes Some (cf_now f) (cf_version f) (cf_state f) (the (jget (cf_subs f) i)))\<rparr>"

abbreviation bank_reach :: "accounts \<Rightarrow> bool" where "bank_reach \<equiv> reach feed_start (feed_step Some)"

lemma wrote_reached: "bank_reach f \<Longrightarrow> cf_turn f \<Longrightarrow> bank_reach (wrote g f)"
  unfolding wrote_def by (erule reach_step) (rule turn_writes)

lemma turn_on_reached: "bank_reach f \<Longrightarrow> \<not> cf_turn f \<Longrightarrow> bank_reach (turn_on f)"
  unfolding turn_on_def by (erule reach_step) (rule turn_begins)

lemma transferred_reached: "bank_reach f \<Longrightarrow> \<not> cf_turn f \<Longrightarrow> bank_reach (transferred f)"
  unfolding transferred_def ended_def
  by (rule reach_step [OF wrote_reached [OF wrote_reached [OF turn_on_reached]] turn_ends]) (simp_all add: wrote_def turn_on_def)

lemma watched_reached: "bank_reach watched"
proof -
  have "bank_reach bank" by (rule reach_init) (simp add: bank_def feed_start_def)
  moreover have "feed_step Some bank watched" unfolding watched_def by (rule opens [of "Some 50"]) code_simp
  ultimately show ?thesis by (rule reach_step)
qed

lemma half_way_reached: "bank_reach half_way"
proof -
  have t: "\<not> cf_turn watched" "\<not> cf_turn (transferred watched)" "\<not> cf_turn (transferred (transferred watched))"
    "cf_turn (turn_on (transferred (transferred watched)))" by code_simp+
  let ?f = "wrote (\<lambda>(a, b). (a - 1, b)) (turn_on (transferred (transferred watched)))"
  have "bank_reach ?f" by (intro wrote_reached turn_on_reached transferred_reached watched_reached t)
  moreover have "feed_step Some ?f (?f\<lparr>cf_now := cf_now ?f + 50\<rparr>)" by (rule time_passes) simp
  moreover have "cf_now ?f + 50 = 50" by code_simp
  ultimately show ?thesis unfolding half_way_def by (metis reach_step)
qed

text \<open>
  A throttled feed of a serial actor can see half a turn. The trailing emit of a window is taken by the timer, not in a
  turn: when the window closes while a turn awaits between two writes, the subscriber is handed a state that
  is the state of no turn boundary, here a transfer that has left one account and not reached the other. The code's comment
  says the emit lands between turns and the snapshot is a settled state.
\<close>

theorem throttled_feed_sees_half_turn:
  "\<exists>f. reach feed_start (feed_step Some) f \<and> cf_turn f \<and> (\<exists>i s t v x. (i, s) \<in> set (cf_subs f) \<and> cs_log s \<noteq> []
     \<and> hd (cs_log s) = (t, v, Snapshot x) \<and> x \<notin> set (cf_settled f) \<and> fst x + snd x = (9 :: nat))
     \<and> list_all (\<lambda>x. fst x + snd x = 10) (cf_settled f)"
proof (intro exI conjI)
  let ?f = "fired 0 half_way" and ?s = "the (jget (cf_subs half_way) 0)"
  have s: "jget (cf_subs half_way) 0 = Some ?s" "cs_window ?s = Some 50" "50 \<le> cf_now half_way" by code_simp+
  have "feed_step Some half_way ?f" unfolding fired_def by (rule window_fires [OF s])
  with half_way_reached show "reach feed_start (feed_step Some) ?f" by (rule reach_step)
  show "cf_turn ?f" "list_all (\<lambda>x. fst x + snd x = 10) (cf_settled ?f)" by code_simp+
  show "(0, the (jget (cf_subs ?f) 0)) \<in> set (cf_subs ?f)" "cs_log (the (jget (cf_subs ?f) 0)) \<noteq> []"
    "hd (cs_log (the (jget (cf_subs ?f) 0))) = (50, 2, Snapshot (2, 7))" "(2, 7) \<notin> set (cf_settled ?f)" "fst (2 :: nat, 7 :: nat) + snd (2 :: nat, 7 :: nat) = 9"
    by code_simp+
qed

subsection \<open>Witnesses\<close>

theorem feed_never_left_behind_witness: "cs_pending (the (jget (cf_subs half_way) 0)) \<and> length (cs_queue (the (jget (cf_subs half_way) 0))) \<le> change_buffer"
proof -
  have m: "(0, the (jget (cf_subs half_way) 0)) \<in> set (cf_subs half_way)" "cs_pending (the (jget (cf_subs half_way) 0))" by code_simp+
  from feed_never_left_behind [OF half_way_reached m(1)] m(2) show ?thesis by blast
qed

definition two_emits :: accounts where "two_emits = fired 0 half_way"

theorem throttle_spaces_deliveries_witness: "fst (cs_log (the (jget (cf_subs two_emits) 0)) ! 1) + 50 \<le> fst (cs_log (the (jget (cf_subs two_emits) 0)) ! 0)"
proof -
  let ?s = "the (jget (cf_subs half_way) 0)"
  have s: "jget (cf_subs half_way) 0 = Some ?s" "cs_window ?s = Some 50" "50 \<le> cf_now half_way" by code_simp+
  have "feed_step Some half_way two_emits" unfolding two_emits_def fired_def by (rule window_fires [OF s])
  with half_way_reached have r: "reach feed_start (feed_step Some) two_emits" by (rule reach_step)
  have m: "(0, the (jget (cf_subs two_emits) 0)) \<in> set (cf_subs two_emits)" "1 < length (cs_log (the (jget (cf_subs two_emits) 0)))"
    "cs_throttle (the (jget (cf_subs two_emits) 0)) = 50" by code_simp+
  from throttle_spaces_deliveries [OF r m(1) _ m(2), of 0] m(3) show ?thesis by simp
qed

end
