(* ===== verification/Watch_Loop.thy ===== *)
theory Watch_Loop
  imports Machines
begin

section \<open>A shared watch\<close>

text \<open>
  \<open>createFanOut\<close> of \<open>watch-core.ts\<close> and \<open>createSharedWatch\<close> of \<open>host/watch.ts\<close>: the fan-out of one value stream, the pump on
  the change feed, the loop that reads again, and the teardown. The read is \<open>rd\<close>, taken on the actor's state at the moment its turn
  runs; the fingerprint is \<open>fp\<close>, \<open>None\<close> where it throws or the watch has none. The feed is the number of ticks
  it holds and whether it has ended (\<open>Change_Feeds\<close> has the feed itself). Subscribers keep their place in the list after they have left
  the set (\<open>ws_in\<close>), for their consumer may still pull. \<open>ws_took\<close> is the newest value handed over, \<open>sw_entry\<close> that the
  owner's map still holds the watch; both are there for the properties, like the count of \<open>mc_empties\<close>.
\<close>

named_theorems watch_simps \<open>the fields and the operations of a shared watch\<close>

definition watch_buffer :: nat where "watch_buffer = 16"

subsection \<open>The fan-out\<close>

record ('v, 'e) wsub =
  ws_queue :: "'v list"
  ws_fail :: "'e option"
  ws_done :: bool
  ws_in :: bool
  ws_took :: "'v option"

record ('v, 'e) multicast =
  mc_last :: "'v option"
  mc_subs :: "('v, 'e) wsub list"
  mc_empties :: nat

definition new_multicast :: "('v, 'e) multicast" where
  "new_multicast = \<lparr>mc_last = None, mc_subs = [], mc_empties = 0\<rparr>"

definition on_live :: "(('v, 'e) wsub \<Rightarrow> ('v, 'e) wsub) \<Rightarrow> ('v, 'e) multicast \<Rightarrow> ('v, 'e) multicast" where
  "on_live g f = f\<lparr>mc_subs := map (\<lambda>s. if ws_in s then g s else s) (mc_subs f)\<rparr>"

definition push_one :: "'v \<Rightarrow> ('v, 'e) wsub \<Rightarrow> ('v, 'e) wsub" where
  "push_one v s = (let q = ws_queue s @ [v] in s\<lparr>ws_queue := (if length q > watch_buffer then tl q else q)\<rparr>)"

definition mc_push :: "'v \<Rightarrow> ('v, 'e) multicast \<Rightarrow> ('v, 'e) multicast" where
  "mc_push v f = on_live (push_one v) (f\<lparr>mc_last := Some v\<rparr>)"

definition mc_fail :: "'e \<Rightarrow> ('v, 'e) multicast \<Rightarrow> ('v, 'e) multicast" where
  "mc_fail e f = on_live (\<lambda>s. s\<lparr>ws_fail := Some e\<rparr>) f"

definition mc_finish :: "('v, 'e) multicast \<Rightarrow> ('v, 'e) multicast" where
  "mc_finish f = on_live (\<lambda>s. s\<lparr>ws_done := True\<rparr>) f"

definition mc_size :: "('v, 'e) multicast \<Rightarrow> nat" where
  "mc_size f = length (filter ws_in (mc_subs f))"

text \<open>\<open>drop\<close>, idempotent; the flag says that \<open>onEmpty\<close> is called.\<close>

definition mc_drop :: "nat \<Rightarrow> ('v, 'e) multicast \<Rightarrow> bool \<times> ('v, 'e) multicast" where
  "mc_drop i f = (let s = mc_subs f ! i; f' = f\<lparr>mc_subs := (mc_subs f)[i := s\<lparr>ws_done := True, ws_in := False\<rparr>]\<rparr>
     in if \<not> ws_in s then (False, f')
        else if mc_size f' > 0 then (False, f')
        else (True, f'\<lparr>mc_empties := Suc (mc_empties f')\<rparr>))"

definition new_wsub :: "'v option \<Rightarrow> ('v, 'e) wsub" where
  "new_wsub latest = \<lparr>ws_queue = (case latest of None \<Rightarrow> [] | Some v \<Rightarrow> [v]), ws_fail = None, ws_done = False, ws_in = True, ws_took = None\<rparr>"

definition mc_subscribe :: "bool \<Rightarrow> ('v, 'e) multicast \<Rightarrow> bool \<times> ('v, 'e) multicast" where
  "mc_subscribe aborted f = (let f' = f\<lparr>mc_subs := mc_subs f @ [new_wsub (mc_last f)]\<rparr>
     in if aborted then mc_drop (length (mc_subs f)) f' else (False, f'))"

datatype ('v, 'e) handed = Handed 'v | Thrown 'e | Closed | Waiting

text \<open>One pass of the loop of \<open>next\<close>. A parked \<open>next\<close> that is woken takes another.\<close>

definition mc_next :: "nat \<Rightarrow> ('v, 'e) multicast \<Rightarrow> ('v, 'e) handed \<times> bool \<times> ('v, 'e) multicast" where
  "mc_next i f = (let s = mc_subs f ! i in case ws_queue s of
      v # q \<Rightarrow> (Handed v, False, f\<lparr>mc_subs := (mc_subs f)[i := s\<lparr>ws_queue := q, ws_took := Some v\<rparr>]\<rparr>)
    | [] \<Rightarrow> (case ws_fail s of
        Some e \<Rightarrow> (Thrown e, mc_drop i (f\<lparr>mc_subs := (mc_subs f)[i := s\<lparr>ws_fail := None\<rparr>]\<rparr>))
      | None \<Rightarrow> if ws_done s then (Closed, mc_drop i f) else (Waiting, False, f)))"

subsection \<open>The watch\<close>

datatype ('v, 'e) looping = Reading bool | Read_Back bool "'e + 'v" | Asleep | Woken | Settling | Loop_Over

record ('st, 'v, 'e, 'p) watch =
  sw_state :: 'st
  sw_closed :: bool
  sw_ticks :: nat
  sw_feed_done :: bool
  sw_fan :: "('v, 'e) multicast"
  sw_stopped :: bool
  sw_dirty :: bool
  sw_print :: "'p option"
  sw_loop :: "('v, 'e) looping"
  sw_pumping :: bool
  sw_held :: bool
  sw_entry :: bool

definition wake_loop :: "('st, 'v, 'e, 'p) watch \<Rightarrow> ('st, 'v, 'e, 'p) watch" where
  "wake_loop w = (if sw_loop w = Asleep then w\<lparr>sw_loop := Woken\<rparr> else w)"

text \<open>The callback of the fan-out: the last subscriber is gone.\<close>

definition last_out :: "('st, 'v, 'e, 'p) watch \<Rightarrow> ('st, 'v, 'e, 'p) watch" where
  "last_out w = (wake_loop (w\<lparr>sw_stopped := True\<rparr>))\<lparr>sw_feed_done := True, sw_held := False, sw_entry := False\<rparr>"

definition with_fan :: "bool \<times> ('v, 'e) multicast \<Rightarrow> ('st, 'v, 'e, 'p) watch \<Rightarrow> ('st, 'v, 'e, 'p) watch" where
  "with_fan r w = (case r of (gone, f) \<Rightarrow> if gone then last_out (w\<lparr>sw_fan := f\<rparr>) else w\<lparr>sw_fan := f\<rparr>)"

definition new_watch :: "'st \<Rightarrow> bool \<Rightarrow> ('st, 'v, 'e, 'p) watch" where
  "new_watch st closed = \<lparr>sw_state = st, sw_closed = closed, sw_ticks = 0, sw_feed_done = False, sw_fan = new_multicast, sw_stopped = False,
     sw_dirty = False, sw_print = None, sw_loop = Reading True, sw_pumping = True, sw_held = True, sw_entry = True\<rparr>"

definition watch_join :: "bool \<Rightarrow> ('st, 'v, 'e, 'p) watch \<Rightarrow> ('st, 'v, 'e, 'p) watch" where
  "watch_join aborted w = with_fan (mc_subscribe aborted (sw_fan w)) w"

definition watch_pull :: "nat \<Rightarrow> ('st, 'v, 'e, 'p) watch \<Rightarrow> ('v, 'e) handed \<times> ('st, 'v, 'e, 'p) watch" where
  "watch_pull i w = (case mc_next i (sw_fan w) of (h, r) \<Rightarrow> (h, with_fan r w))"

text \<open>\<open>return()\<close> and the subscriber's abort signal alike.\<close>

definition watch_leave :: "nat \<Rightarrow> ('st, 'v, 'e, 'p) watch \<Rightarrow> ('st, 'v, 'e, 'p) watch" where
  "watch_leave i w = with_fan (mc_drop i (sw_fan w)) w"

text \<open>\<open>finally\<close> of the loop.\<close>

definition loop_ends :: "('st, 'v, 'e, 'p) watch \<Rightarrow> ('st, 'v, 'e, 'p) watch" where
  "loop_ends w = w\<lparr>sw_loop := Loop_Over, sw_fan := mc_finish (sw_fan w)\<rparr>"

definition watch_deliver :: "('v \<Rightarrow> 'p option) \<Rightarrow> 'v \<Rightarrow> bool \<Rightarrow> ('st, 'v, 'e, 'p) watch \<Rightarrow> ('st, 'v, 'e, 'p) watch" where
  "watch_deliver fp v initial w = (let print = fp v
     in if \<not> initial \<and> print \<noteq> None \<and> print = sw_print w then w
        else w\<lparr>sw_print := print, sw_fan := mc_push v (sw_fan w)\<rparr>)"

text \<open>The loop's frame between two awaits, from each point it can be parked at.\<close>

definition after_wait :: "('st, 'v, 'e, 'p) watch \<Rightarrow> ('st, 'v, 'e, 'p) watch" where
  "after_wait w = (if sw_stopped w then loop_ends w else w\<lparr>sw_loop := Settling\<rparr>)"

definition after_settle :: "('st, 'v, 'e, 'p) watch \<Rightarrow> ('st, 'v, 'e, 'p) watch" where
  "after_settle w = (if sw_stopped w then loop_ends w else w\<lparr>sw_dirty := False, sw_loop := Reading False\<rparr>)"

definition after_read :: "('v \<Rightarrow> 'p option) \<Rightarrow> bool \<Rightarrow> 'e + 'v \<Rightarrow> ('st, 'v, 'e, 'p) watch \<Rightarrow> ('st, 'v, 'e, 'p) watch" where
  "after_read fp initial r w = (case r of
      Inl e \<Rightarrow> loop_ends (if sw_stopped w then w else w\<lparr>sw_fan := mc_fail e (sw_fan w)\<rparr>)
    | Inr v \<Rightarrow> let w = watch_deliver fp v initial w
              in if sw_stopped w then loop_ends w else if sw_dirty w then after_wait w else w\<lparr>sw_loop := Asleep\<rparr>)"

text \<open>One \<open>next()\<close> of the pump on the feed.\<close>

definition pump_takes :: "('st, 'v, 'e, 'p) watch \<Rightarrow> ('st, 'v, 'e, 'p) watch" where
  "pump_takes w = (if sw_ticks w = 0 then w\<lparr>sw_pumping := False, sw_feed_done := True\<rparr>
     else let w = w\<lparr>sw_ticks := sw_ticks w - 1\<rparr>
          in if sw_stopped w then w\<lparr>sw_pumping := False, sw_feed_done := True\<rparr>
             else wake_loop (w\<lparr>sw_dirty := True\<rparr>))"

definition feed_tick :: "('st, 'v, 'e, 'p) watch \<Rightarrow> ('st, 'v, 'e, 'p) watch" where
  "feed_tick w = (if sw_feed_done w then w else w\<lparr>sw_ticks := min watch_buffer (Suc (sw_ticks w))\<rparr>)"

text \<open>What runs by itself: timers fire, turns run, promises settle.\<close>

inductive watch_moves :: "('st \<Rightarrow> 'e + 'v) \<Rightarrow> ('v \<Rightarrow> 'p option) \<Rightarrow> 'e \<Rightarrow> ('st, 'v, 'e, 'p) watch \<Rightarrow> ('st, 'v, 'e, 'p) watch \<Rightarrow> bool" for rd fp shut where
  pump_runs: "sw_pumping w \<Longrightarrow> 0 < sw_ticks w \<or> sw_feed_done w \<Longrightarrow> watch_moves rd fp shut w (pump_takes w)"
| loop_wakes: "sw_loop w = Woken \<Longrightarrow> watch_moves rd fp shut w (after_wait w)"
| window_over: "sw_loop w = Settling \<Longrightarrow> watch_moves rd fp shut w (after_settle w)"
| read_runs: "sw_loop w = Reading ini \<Longrightarrow> watch_moves rd fp shut w (w\<lparr>sw_loop := Read_Back ini (rd (sw_state w))\<rparr>)"
| read_refused: "sw_loop w = Reading ini \<Longrightarrow> sw_closed w \<Longrightarrow> watch_moves rd fp shut w (w\<lparr>sw_loop := Read_Back ini (Inl shut)\<rparr>)"
| read_lands: "sw_loop w = Read_Back ini r \<Longrightarrow> watch_moves rd fp shut w (after_read fp ini r w)"

inductive watch_step :: "('st \<Rightarrow> 'e + 'v) \<Rightarrow> ('v \<Rightarrow> 'p option) \<Rightarrow> 'e \<Rightarrow> ('st, 'v, 'e, 'p) watch \<Rightarrow> ('st, 'v, 'e, 'p) watch \<Rightarrow> bool" for rd fp shut where
  moves: "watch_moves rd fp shut w w' \<Longrightarrow> watch_step rd fp shut w w'"
| joins: "sw_entry w \<Longrightarrow> watch_step rd fp shut w (watch_join aborted w)"
| pulls: "i < length (mc_subs (sw_fan w)) \<Longrightarrow> watch_step rd fp shut w (snd (watch_pull i w))"
| leaves: "i < length (mc_subs (sw_fan w)) \<Longrightarrow> watch_step rd fp shut w (watch_leave i w)"
| mutates: "watch_step rd fp shut w (feed_tick (w\<lparr>sw_state := st\<rparr>))"
| closes: "watch_step rd fp shut w (w\<lparr>sw_closed := True\<rparr>)"
| deactivates: "sw_closed w \<Longrightarrow> watch_step rd fp shut w (w\<lparr>sw_feed_done := True\<rparr>)"

definition watch_start :: "('st, 'v, 'e, 'p) watch \<Rightarrow> bool" where
  "watch_start w \<longleftrightarrow> (\<exists>st closed aborted. w = watch_join aborted (new_watch st closed))"


subsection \<open>The invariant\<close>

text \<open>The newest value a subscriber has, waiting or handed over.\<close>

definition newest :: "('v, 'e) wsub \<Rightarrow> 'v option" where
  "newest s = (if ws_queue s = [] then ws_took s else Some (last (ws_queue s)))"

definition same_print :: "('v \<Rightarrow> 'p option) \<Rightarrow> 'v \<Rightarrow> 'v \<Rightarrow> bool" where
  "same_print fp v w \<longleftrightarrow> v = w \<or> fp v = fp w \<and> fp v \<noteq> None"

definition fan_ok :: "('v, 'e) multicast \<Rightarrow> bool" where
  "fan_ok f \<longleftrightarrow> (\<forall>s \<in> set (mc_subs f). length (ws_queue s) \<le> watch_buffer \<and> (ws_in s \<longrightarrow> newest s = mc_last f))"

text \<open>Where the loop stands with respect to the actor's state: it has work to do, or what it pushed last is the state's.\<close>

fun caught_up :: "('st \<Rightarrow> 'e + 'v) \<Rightarrow> ('v \<Rightarrow> 'p option) \<Rightarrow> 'st \<Rightarrow> 'v option \<Rightarrow> ('v, 'e) looping \<Rightarrow> bool" where
  "caught_up rd fp st l (Read_Back ini r) \<longleftrightarrow> r = rd st"
| "caught_up rd fp st l Asleep \<longleftrightarrow> (\<exists>x v. rd st = Inr x \<and> l = Some v \<and> same_print fp x v)"
| "caught_up rd fp st l _ \<longleftrightarrow> True"

definition loop_fresh :: "('st \<Rightarrow> 'e + 'v) \<Rightarrow> ('v \<Rightarrow> 'p option) \<Rightarrow> ('st, 'v, 'e, 'p) watch \<Rightarrow> bool" where
  "loop_fresh rd fp w \<longleftrightarrow> 0 < sw_ticks w \<or> sw_dirty w \<or> caught_up rd fp (sw_state w) (mc_last (sw_fan w)) (sw_loop w)"

text \<open>The first read is the one that has no value before it.\<close>

fun phase_ok :: "'v option \<Rightarrow> ('v, 'e) looping \<Rightarrow> bool" where
  "phase_ok l (Reading ini) \<longleftrightarrow> ini = (l = None)"
| "phase_ok l (Read_Back ini r) \<longleftrightarrow> ini = (l = None)"
| "phase_ok l Loop_Over \<longleftrightarrow> True"
| "phase_ok l _ \<longleftrightarrow> l \<noteq> None"

text \<open>The keep-alive, the owner's entry, the feed and the calls of \<open>onEmpty\<close> follow the set of subscribers.\<close>

definition held_ok :: "('st, 'v, 'e, 'p) watch \<Rightarrow> bool" where
  "held_ok w \<longleftrightarrow> (mc_size (sw_fan w) = 0 \<longleftrightarrow> sw_stopped w) \<and> (sw_entry w \<longleftrightarrow> \<not> sw_stopped w) \<and> (sw_held w \<longleftrightarrow> \<not> sw_stopped w)
     \<and> mc_empties (sw_fan w) = (if sw_stopped w then 1 else 0)"

definition watch_ok :: "('st \<Rightarrow> 'e + 'v) \<Rightarrow> ('v \<Rightarrow> 'p option) \<Rightarrow> ('st, 'v, 'e, 'p) watch \<Rightarrow> bool" where
  "watch_ok rd fp w \<longleftrightarrow> fan_ok (sw_fan w) \<and> held_ok w \<and> phase_ok (mc_last (sw_fan w)) (sw_loop w)
     \<and> (sw_stopped w \<longrightarrow> sw_feed_done w \<and> sw_loop w \<noteq> Asleep) \<and> (sw_feed_done w \<longrightarrow> sw_closed w \<or> sw_stopped w)
     \<and> (\<not> sw_pumping w \<longrightarrow> sw_feed_done w) \<and> (sw_loop w = Asleep \<longrightarrow> \<not> sw_dirty w)
     \<and> (mc_last (sw_fan w) \<noteq> None \<longrightarrow> sw_print w = fp (the (mc_last (sw_fan w))))
     \<and> (sw_closed w \<or> sw_stopped w \<or> loop_fresh rd fp w)"

lemma watch_buffer_pos [watch_simps]: "0 < watch_buffer" "watch_buffer = Suc 15"
  by (simp_all add: watch_buffer_def)

lemma live_size: "mc_size f = 0 \<longleftrightarrow> (\<forall>s \<in> set (mc_subs f). \<not> ws_in s)"
  by (auto simp: mc_size_def filter_empty_conv)

lemma on_live_size [watch_simps]:
  "(\<And>s. ws_in (g s) = ws_in s) \<Longrightarrow> mc_size (on_live g f) = mc_size f"
  by (simp add: mc_size_def on_live_def filter_map comp_def if_distrib cong: if_cong)

lemma push_size [simp]: "mc_size (mc_push v f) = mc_size f" "mc_size (mc_fail e f) = mc_size f" "mc_size (mc_finish f) = mc_size f"
proof -
  have "mc_size (f\<lparr>mc_last := l\<rparr>) = mc_size f" for l by (simp add: mc_size_def)
  then show "mc_size (mc_push v f) = mc_size f" "mc_size (mc_fail e f) = mc_size f" "mc_size (mc_finish f) = mc_size f"
    by (simp_all add: mc_push_def mc_fail_def mc_finish_def on_live_size push_one_def Let_def)
qed

lemma fan_fields [simp]:
  "mc_last (mc_push v f) = Some v" "mc_last (mc_fail e f) = mc_last f" "mc_last (mc_finish f) = mc_last f"
  "mc_empties (mc_push v f) = mc_empties f" "mc_empties (mc_fail e f) = mc_empties f" "mc_empties (mc_finish f) = mc_empties f"
  by (simp_all add: mc_push_def mc_fail_def mc_finish_def on_live_def)

lemma newest_push [simp]: "newest (push_one v s) = Some v"
  by (cases "ws_queue s") (auto simp: newest_def push_one_def Let_def watch_buffer_def)

lemma fan_ok_push [intro]: "fan_ok f \<Longrightarrow> fan_ok (mc_push v f)"
  by (auto simp: fan_ok_def mc_push_def on_live_def) (auto simp: push_one_def Let_def)

lemma fan_ok_marks [intro]: "fan_ok f \<Longrightarrow> fan_ok (mc_fail e f)" "fan_ok f \<Longrightarrow> fan_ok (mc_finish f)"
  by (auto simp: fan_ok_def mc_fail_def mc_finish_def on_live_def newest_def)

text \<open>What the consumers' operations do to the set, \<open>gone\<close> being the call of \<open>onEmpty\<close>.\<close>

definition fan_moved :: "('v, 'e) multicast \<Rightarrow> bool \<Rightarrow> ('v, 'e) multicast \<Rightarrow> bool" where
  "fan_moved f gone f' \<longleftrightarrow> fan_ok f' \<and> mc_last f' = mc_last f \<and> (gone \<longrightarrow> 0 < mc_size f \<or> length (mc_subs f) < length (mc_subs f'))
     \<and> mc_empties f' = mc_empties f + (if gone then 1 else 0) \<and> (mc_size f' = 0 \<longleftrightarrow> gone \<or> mc_size f = 0 \<and> length (mc_subs f') = length (mc_subs f))"

lemma live_update: "i < length xs \<Longrightarrow> ws_in x = ws_in (xs ! i) \<Longrightarrow> length (filter ws_in (xs[i := x])) = length (filter ws_in xs)"
proof (induction xs arbitrary: i)
  case (Cons a xs)
  then show ?case by (cases i) auto
qed simp

lemma live_out: "i < length xs \<Longrightarrow> ws_in (xs ! i) \<Longrightarrow> \<not> ws_in x \<Longrightarrow> Suc (length (filter ws_in (xs[i := x]))) = length (filter ws_in xs)"
proof (induction xs arbitrary: i)
  case (Cons a xs)
  then show ?case by (cases i) auto
qed simp

lemma fan_ok_update:
  "fan_ok f \<Longrightarrow> length (ws_queue x) \<le> watch_buffer \<Longrightarrow> (ws_in x \<Longrightarrow> newest x = mc_last f) \<Longrightarrow> fan_ok (f\<lparr>mc_subs := (mc_subs f)[i := x]\<rparr>)"
  by (auto simp: fan_ok_def dest: set_update_subset_insert [THEN subsetD])

lemma fan_okD: "fan_ok f \<Longrightarrow> i < length (mc_subs f) \<Longrightarrow> length (ws_queue (mc_subs f ! i)) \<le> watch_buffer \<and> (ws_in (mc_subs f ! i) \<longrightarrow> newest (mc_subs f ! i) = mc_last f)"
  by (auto simp: fan_ok_def)

lemma drop_moved:
  assumes "fan_ok f" "i < length (mc_subs f)" "mc_drop i f = (gone, f')"
  shows "fan_moved f gone f'"
proof -
  let ?s = "mc_subs f ! i"
  let ?x = "?s\<lparr>ws_done := True, ws_in := False\<rparr>"
  have ok: "fan_ok (f\<lparr>mc_subs := (mc_subs f)[i := ?x]\<rparr>)"
    using fan_okD [OF assms(1,2)] by (intro fan_ok_update [OF assms(1)]) simp_all
  show ?thesis
  proof (cases "ws_in ?s")
    case True
    have "Suc (length (filter ws_in ((mc_subs f)[i := ?x]))) = length (filter ws_in (mc_subs f))"
      using live_out [OF assms(2) True, of ?x] by simp
    with True ok assms(2,3) show ?thesis
      by (auto simp: fan_moved_def mc_drop_def Let_def mc_size_def fan_ok_def split: if_splits)
  next
    case False
    have "length (filter ws_in ((mc_subs f)[i := ?x])) = length (filter ws_in (mc_subs f))"
      using live_update [OF assms(2), of ?x] False by simp
    with False ok assms(3) show ?thesis by (auto simp: fan_moved_def mc_drop_def Let_def mc_size_def)
  qed
qed

lemma subscribe_moved:
  assumes "fan_ok f" "mc_subscribe aborted f = (gone, f')"
  shows "fan_moved f gone f'"
proof -
  let ?f = "f\<lparr>mc_subs := mc_subs f @ [new_wsub (mc_last f)]\<rparr>"
  have ok: "fan_ok ?f" using assms(1) by (auto simp: fan_ok_def new_wsub_def newest_def watch_buffer_def split: option.splits)
  have size: "mc_size ?f = Suc (mc_size f)" by (simp add: mc_size_def new_wsub_def)
  show ?thesis
  proof (cases aborted)
    case True
    then have d: "mc_drop (length (mc_subs f)) ?f = (gone, f')" using assms(2) by (simp add: mc_subscribe_def Let_def)
    have "fan_moved ?f gone f'" by (rule drop_moved [OF ok _ d]) simp
    moreover have "length (mc_subs f') = Suc (length (mc_subs f))" using d by (auto simp: mc_drop_def Let_def split: if_splits)
    moreover have "mc_size f' = mc_size f" if "\<not> gone"
      using d that by (auto simp: mc_drop_def Let_def mc_size_def new_wsub_def split: if_splits)
    ultimately show ?thesis using size by (auto simp: fan_moved_def)
  next
    case False
    with ok size assms(2) show ?thesis by (auto simp: mc_subscribe_def Let_def fan_moved_def)
  qed
qed


lemma next_moved:
  assumes "fan_ok f" "i < length (mc_subs f)" "mc_next i f = (h, gone, f')"
  shows "fan_moved f gone f'"
proof -
  let ?s = "mc_subs f ! i"
  show ?thesis
  proof (cases "ws_queue ?s")
    case (Cons v q)
    let ?x = "?s\<lparr>ws_queue := q, ws_took := Some v\<rparr>"
    have "newest ?x = newest ?s" using Cons by (simp add: newest_def)
    with fan_okD [OF assms(1,2)] Cons have "fan_ok (f\<lparr>mc_subs := (mc_subs f)[i := ?x]\<rparr>)"
      by (intro fan_ok_update [OF assms(1)]) simp_all
    moreover have "length (filter ws_in ((mc_subs f)[i := ?x])) = length (filter ws_in (mc_subs f))"
      using live_update [OF assms(2), of ?x] by simp
    ultimately show ?thesis using assms(3) Cons by (auto simp: mc_next_def Let_def fan_moved_def mc_size_def)
  next
    case Nil
    show ?thesis
    proof (cases "ws_fail ?s")
      case (Some e)
      let ?x = "?s\<lparr>ws_fail := None\<rparr>"
      let ?f = "f\<lparr>mc_subs := (mc_subs f)[i := ?x]\<rparr>"
      have n: "newest ?x = newest ?s" by (simp add: newest_def)
      have "fan_ok ?f" using fan_okD [OF assms(1,2)] n by (intro fan_ok_update [OF assms(1)]) simp_all
      moreover have "length (filter ws_in ((mc_subs f)[i := ?x])) = length (filter ws_in (mc_subs f))"
        using live_update [OF assms(2), of ?x] by simp
      ultimately show ?thesis using assms(2,3) Nil Some drop_moved [of ?f i gone f']
        by (auto simp: mc_next_def Let_def fan_moved_def mc_size_def)
    next
      case None
      with Nil assms drop_moved [OF assms(1,2)] show ?thesis
        by (auto simp: mc_next_def Let_def split: if_splits) (auto simp: fan_moved_def)
    qed
  qed
qed

text \<open>A consumer's operation, then the teardown where it was the last one.\<close>

lemma with_fan_ok:
  assumes "watch_ok rd fp w" "fan_moved (sw_fan w) gone f" "length (mc_subs f) = length (mc_subs (sw_fan w)) \<or> \<not> sw_stopped w"
  shows "watch_ok rd fp (with_fan (gone, f) w)"
proof (cases gone)
  case True
  have "\<not> sw_stopped w" using assms True by (auto simp: watch_ok_def held_ok_def fan_moved_def)
  with assms True show ?thesis
    by (cases "sw_loop w") (simp_all add: watch_ok_def held_ok_def fan_moved_def with_fan_def last_out_def wake_loop_def)
next
  case False
  with assms show ?thesis
    by (auto simp: watch_ok_def held_ok_def fan_moved_def with_fan_def loop_fresh_def)
qed

lemma watch_okD:
  "watch_ok rd fp w \<Longrightarrow> fan_ok (sw_fan w)" "watch_ok rd fp w \<Longrightarrow> sw_entry w \<longleftrightarrow> \<not> sw_stopped w"
  by (simp_all add: watch_ok_def held_ok_def)

lemma drop_length: "mc_drop i f = (gone, f') \<Longrightarrow> length (mc_subs f') = length (mc_subs f)"
  by (auto simp: mc_drop_def Let_def split: if_splits)

lemma next_length: "mc_next i f = (h, gone, f') \<Longrightarrow> length (mc_subs f') = length (mc_subs f)"
  by (auto simp: mc_next_def Let_def split: list.splits option.splits if_splits dest: drop_length)

lemma loop_ends_ok: "watch_ok rd fp w \<Longrightarrow> watch_ok rd fp (loop_ends w)"
  by (auto simp: watch_ok_def held_ok_def loop_ends_def loop_fresh_def)

lemma after_wait_ok: "watch_ok rd fp w \<Longrightarrow> mc_last (sw_fan w) \<noteq> None \<Longrightarrow> watch_ok rd fp (after_wait w)"
  using loop_ends_ok [of rd fp w] by (auto simp: after_wait_def) (auto simp: watch_ok_def held_ok_def loop_fresh_def)

lemma after_settle_ok: "watch_ok rd fp w \<Longrightarrow> mc_last (sw_fan w) \<noteq> None \<Longrightarrow> watch_ok rd fp (after_settle w)"
  using loop_ends_ok [of rd fp w] by (auto simp: after_settle_def) (auto simp: watch_ok_def held_ok_def loop_fresh_def)

lemma pump_ok:
  assumes "watch_ok rd fp w" "0 < sw_ticks w \<or> sw_feed_done w"
  shows "watch_ok rd fp (pump_takes w)"
proof (cases "sw_ticks w = 0")
  case True
  with assms show ?thesis by (simp add: pump_takes_def watch_ok_def held_ok_def loop_fresh_def)
next
  case False
  show ?thesis
  proof (cases "sw_stopped w")
    case True
    with False assms(1) show ?thesis by (simp add: pump_takes_def Let_def watch_ok_def held_ok_def)
  next
    case going: False
    with False assms(1) show ?thesis
      by (cases "sw_loop w") (simp_all add: pump_takes_def Let_def wake_loop_def watch_ok_def held_ok_def loop_fresh_def)
  qed
qed

lemma feed_tick_ok: "watch_ok rd fp w \<Longrightarrow> watch_ok rd fp (feed_tick (w\<lparr>sw_state := st\<rparr>))"
  by (auto simp: feed_tick_def watch_ok_def held_ok_def loop_fresh_def watch_buffer_def)

lemma deliver_same:
  "watch_ok rd fp w \<Longrightarrow> initial = (mc_last (sw_fan w) = None) \<Longrightarrow>
     \<exists>u. mc_last (sw_fan (watch_deliver fp v initial w)) = Some u \<and> same_print fp v u"
  by (auto simp: watch_deliver_def Let_def watch_ok_def same_print_def)

lemma read_lands_ok:
  assumes "watch_ok rd fp w" "sw_loop w = Read_Back ini r"
  shows "watch_ok rd fp (after_read fp ini r w)"
proof (cases r)
  case (Inl e)
  have "watch_ok rd fp (w\<lparr>sw_fan := mc_fail e (sw_fan w)\<rparr>)" using assms(1)
    by (auto simp: watch_ok_def held_ok_def loop_fresh_def)
  with assms(1) Inl loop_ends_ok show ?thesis by (auto simp: after_read_def)
next
  case (Inr v)
  let ?w = "watch_deliver fp v ini w"
  have ini: "ini = (mc_last (sw_fan w) = None)" using assms by (simp add: watch_ok_def)
  obtain u where u: "mc_last (sw_fan ?w) = Some u" "same_print fp v u" using deliver_same [OF assms(1) ini] by blast
  have f: "sw_loop ?w = Read_Back ini r" "sw_stopped ?w = sw_stopped w" "sw_dirty ?w = sw_dirty w" "sw_state ?w = sw_state w"
    "sw_closed ?w = sw_closed w" "sw_ticks ?w = sw_ticks w" "sw_pumping ?w = sw_pumping w" "sw_feed_done ?w = sw_feed_done w"
    "sw_entry ?w = sw_entry w" "sw_held ?w = sw_held w"
    using assms(2) by (simp_all add: watch_deliver_def Let_def)
  have fan: "fan_ok (sw_fan ?w)" "mc_size (sw_fan ?w) = mc_size (sw_fan w)" "mc_empties (sw_fan ?w) = mc_empties (sw_fan w)"
    using assms(1) by (auto simp: watch_deliver_def Let_def watch_ok_def)
  have pr: "sw_print ?w = fp u" using assms(1) u(1) by (auto simp: watch_deliver_def Let_def watch_ok_def split: if_splits)
  note facts = assms Inr f fan pr u
  show ?thesis
  proof (cases "sw_stopped w")
    case True
    then have "watch_ok rd fp (loop_ends ?w)" using facts by (simp add: watch_ok_def held_ok_def loop_ends_def) auto
    with True Inr f show ?thesis by (simp add: after_read_def Let_def)
  next
    case False
    have "watch_ok rd fp (?w\<lparr>sw_loop := Settling\<rparr>)" if "sw_dirty w"
      using facts False that by (auto simp: watch_ok_def held_ok_def loop_fresh_def)
    moreover have "watch_ok rd fp (?w\<lparr>sw_loop := Asleep\<rparr>)" if "\<not> sw_dirty w"
      using facts False that by (auto simp: watch_ok_def held_ok_def loop_fresh_def)
    ultimately show ?thesis using False Inr f by (simp add: after_read_def after_wait_def Let_def)
  qed
qed

lemma watch_moves_ok: "watch_moves rd fp shut w w' \<Longrightarrow> watch_ok rd fp w \<Longrightarrow> watch_ok rd fp w'"
proof (induction rule: watch_moves.induct)
  case (loop_wakes w)
  then show ?case by (intro after_wait_ok) (auto simp: watch_ok_def)
next
  case (window_over w)
  then show ?case by (intro after_settle_ok) (auto simp: watch_ok_def)
next
  case (pump_runs w)
  then show ?case by (intro pump_ok)
next
  case (read_lands w ini r)
  then show ?case by (intro read_lands_ok)
qed (simp_all add: watch_ok_def held_ok_def loop_fresh_def)

lemma watch_step_ok: "watch_step rd fp shut w w' \<Longrightarrow> watch_ok rd fp w \<Longrightarrow> watch_ok rd fp w'"
proof (induction rule: watch_step.induct)
  case (moves w w')
  then show ?case by (rule watch_moves_ok)
next
  case (joins w aborted)
  obtain gone f where r: "mc_subscribe aborted (sw_fan w) = (gone, f)" by force
  have "fan_moved (sw_fan w) gone f" by (rule subscribe_moved [OF watch_okD(1) r]) (rule joins)
  with joins watch_okD(2) [OF joins(2)] show ?case unfolding watch_join_def r by (intro with_fan_ok) simp_all
next
  case (pulls i w)
  obtain h gone f where r: "mc_next i (sw_fan w) = (h, gone, f)" by (metis surj_pair)
  have "fan_moved (sw_fan w) gone f" by (rule next_moved [OF watch_okD(1) _ r]) (rule pulls)+
  with pulls next_length [OF r] show ?case by (auto simp: watch_pull_def r intro!: with_fan_ok)
next
  case (leaves i w)
  obtain gone f where r: "mc_drop i (sw_fan w) = (gone, f)" by force
  have "fan_moved (sw_fan w) gone f" by (rule drop_moved [OF watch_okD(1) _ r]) (rule leaves)+
  with leaves drop_length [OF r] show ?case by (auto simp: watch_leave_def r intro!: with_fan_ok)
next
  case (mutates w st)
  then show ?case by (simp add: feed_tick_ok)
qed (auto simp: watch_ok_def held_ok_def loop_fresh_def)

lemma watch_start_ok: "watch_start w \<Longrightarrow> watch_ok rd fp w"
proof -
  assume "watch_start w"
  then obtain st closed aborted where w: "w = watch_join aborted (new_watch st closed)" by (auto simp: watch_start_def)
  show ?thesis
    by (cases aborted) (simp_all add: w watch_join_def mc_subscribe_def mc_drop_def new_watch_def new_multicast_def with_fan_def last_out_def
      wake_loop_def watch_ok_def held_ok_def fan_ok_def loop_fresh_def new_wsub_def newest_def mc_size_def)
qed

interpretation shared_watch: invariant_machine watch_start "watch_step rd fp shut" "watch_ok rd fp"
  by unfold_locales (auto intro: watch_start_ok watch_step_ok)


subsection \<open>Coming to rest\<close>

text \<open>How much the watch has left to do by itself. A tick costs a whole round of the loop, a change seen during a read another.\<close>

fun loop_work :: "bool \<Rightarrow> ('v, 'e) looping \<Rightarrow> nat" where
  "loop_work dirty Woken = 5"
| "loop_work dirty Settling = 4"
| "loop_work dirty (Reading ini) = 3 + (if dirty then 10 else 0)"
| "loop_work dirty (Read_Back ini r) = 2 + (if dirty then 10 else 0)"
| "loop_work dirty _ = 0"

definition watch_work :: "('st, 'v, 'e, 'p) watch \<Rightarrow> nat" where
  "watch_work w = (if sw_pumping w then 20 * sw_ticks w + (if sw_feed_done w then 1 else 0) else 0) + loop_work (sw_dirty w) (sw_loop w)"

lemma watch_moves_work: "watch_moves rd fp shut w w' \<Longrightarrow> watch_work w' < watch_work w"
proof (induction rule: watch_moves.induct)
  case (pump_runs w)
  then show ?case
    by (cases "sw_loop w") (auto simp: pump_takes_def wake_loop_def watch_work_def Let_def)
next
  case (read_lands w ini r)
  then show ?case
    by (auto simp: after_read_def after_wait_def watch_deliver_def loop_ends_def watch_work_def Let_def split: sum.split)
qed (auto simp: after_wait_def after_settle_def loop_ends_def watch_work_def)

lemma no_work_no_move: "watch_work w = 0 \<Longrightarrow> \<nexists>w'. watch_moves rd fp shut w w'"
  using watch_moves_work by fastforce

lemma watch_work_move: "watch_work w \<noteq> 0 \<Longrightarrow> \<exists>w'. watch_moves rd fp shut w w'"
proof -
  assume "watch_work w \<noteq> 0"
  then consider "sw_pumping w" "0 < sw_ticks w \<or> sw_feed_done w" | "loop_work (sw_dirty w) (sw_loop w) \<noteq> 0"
    by (auto simp: watch_work_def split: if_splits)
  then show ?thesis
  proof cases
    case 2
    then show ?thesis by (cases "sw_loop w") (auto intro: watch_moves.intros)
  qed (blast intro: pump_runs)
qed

interpretation watch_rests: finishing_machine "watch_moves rd fp shut" watch_work "watch_ok rd fp"
  by unfold_locales (auto intro: watch_moves_work watch_moves_ok watch_work_move)

lemma at_rest:
  assumes "\<nexists>w'. watch_moves rd fp shut w w'"
  shows "sw_loop w = Asleep \<or> sw_loop w = Loop_Over" "sw_pumping w \<Longrightarrow> sw_ticks w = 0 \<and> \<not> sw_feed_done w"
proof -
  have "watch_work w = 0" using watch_work_move [where rd = rd and fp = fp and shut = shut and w = w] assms by fastforce
  then show "sw_loop w = Asleep \<or> sw_loop w = Loop_Over" "sw_pumping w \<Longrightarrow> sw_ticks w = 0 \<and> \<not> sw_feed_done w"
    by (cases "sw_loop w"; simp add: watch_work_def split: if_splits)+
qed

lemma live_not_stopped: "watch_ok rd fp w \<Longrightarrow> i < length (mc_subs (sw_fan w)) \<Longrightarrow> ws_in (mc_subs (sw_fan w) ! i) \<Longrightarrow> \<not> sw_stopped w"
  unfolding watch_ok_def held_ok_def live_size by (metis nth_mem)

subsection \<open>What becomes of a subscriber nobody serves\<close>

definition unserved :: "nat \<Rightarrow> 'v set \<Rightarrow> ('st, 'v, 'e, 'p) watch \<Rightarrow> bool" where
  "unserved i vs w \<longleftrightarrow> i < length (mc_subs (sw_fan w)) \<and> (let s = mc_subs (sw_fan w) ! i in ws_in s \<longrightarrow>
     (sw_loop w = Loop_Over \<or> sw_feed_done w \<and> \<not> sw_pumping w \<and> sw_loop w = Asleep)
     \<and> set (ws_queue s) \<subseteq> vs \<and> ws_fail s = None \<and> \<not> ws_done s)"

lemma unserved_pull: "unserved i vs w \<Longrightarrow> ws_in (mc_subs (sw_fan w) ! i) \<Longrightarrow> fst (watch_pull i w) = Waiting \<or> (\<exists>v \<in> vs. fst (watch_pull i w) = Handed v)"
  by (auto simp: unserved_def watch_pull_def mc_next_def Let_def split: list.splits prod.splits)

text \<open>A consumer's operation at another place, or one that does not touch the marks.\<close>

definition sub_kept :: "nat \<Rightarrow> ('v, 'e) multicast \<Rightarrow> ('v, 'e) multicast \<Rightarrow> bool" where
  "sub_kept i f f' \<longleftrightarrow> i < length (mc_subs f') \<and> (ws_in (mc_subs f' ! i) \<longrightarrow> (let s = mc_subs f ! i; s' = mc_subs f' ! i in
     ws_in s \<and> set (ws_queue s') \<subseteq> set (ws_queue s) \<and> ws_fail s' = ws_fail s \<and> ws_done s' = ws_done s))"

lemma drop_kept: "i < length (mc_subs f) \<Longrightarrow> mc_drop j f = (gone, f') \<Longrightarrow> sub_kept i f f'"
  by (cases "i = j") (auto simp: sub_kept_def mc_drop_def Let_def split: if_splits)

lemma next_kept: "i < length (mc_subs f) \<Longrightarrow> mc_next j f = (h, gone, f') \<Longrightarrow> sub_kept i f f'"
proof (cases "i = j")
  case True
  assume "i < length (mc_subs f)" "mc_next j f = (h, gone, f')"
  with True show ?thesis
    by (auto simp: sub_kept_def mc_next_def mc_drop_def Let_def split: list.splits option.splits if_splits)
next
  case False
  assume "i < length (mc_subs f)" "mc_next j f = (h, gone, f')"
  with False show ?thesis
    by (auto simp: sub_kept_def mc_next_def mc_drop_def Let_def split: list.splits option.splits if_splits)
qed

lemma subscribe_kept: "i < length (mc_subs f) \<Longrightarrow> mc_subscribe aborted f = (gone, f') \<Longrightarrow> sub_kept i f f'"
  by (auto simp: sub_kept_def mc_subscribe_def mc_drop_def Let_def nth_append nth_list_update split: if_splits)

lemma unserved_with_fan:
  assumes "unserved i vs w" "sub_kept i (sw_fan w) f" "watch_ok rd fp (with_fan (gone, f) w)"
  shows "unserved i vs (with_fan (gone, f) w)"
proof (cases "gone \<and> ws_in (mc_subs f ! i)")
  case True
  then have "sw_fan (with_fan (gone, f) w) = f" "sw_stopped (with_fan (gone, f) w)" by (simp_all add: with_fan_def last_out_def wake_loop_def)
  with live_not_stopped [OF assms(3), of i] assms(2) True show ?thesis by (simp add: sub_kept_def)
next
  case False
  with assms(1,2) show ?thesis
    by (auto simp: unserved_def sub_kept_def with_fan_def last_out_def wake_loop_def Let_def)
qed

lemma marks_live:
  "length (mc_subs (mc_push v f)) = length (mc_subs f)" "i < length (mc_subs f) \<Longrightarrow> ws_in (mc_subs (mc_push v f) ! i) = ws_in (mc_subs f ! i)"
  "length (mc_subs (mc_fail e f)) = length (mc_subs f)" "i < length (mc_subs f) \<Longrightarrow> ws_in (mc_subs (mc_fail e f) ! i) = ws_in (mc_subs f ! i)"
  "length (mc_subs (mc_finish f)) = length (mc_subs f)" "i < length (mc_subs f) \<Longrightarrow> ws_in (mc_subs (mc_finish f) ! i) = ws_in (mc_subs f ! i)"
  by (simp_all add: mc_push_def mc_fail_def mc_finish_def on_live_def push_one_def Let_def)

lemmas loop_frames = pump_takes_def wake_loop_def after_wait_def after_settle_def after_read_def watch_deliver_def loop_ends_def Let_def

lemma moves_live:
  "watch_moves rd fp shut w w' \<Longrightarrow> i < length (mc_subs (sw_fan w)) \<Longrightarrow>
     i < length (mc_subs (sw_fan w')) \<and> ws_in (mc_subs (sw_fan w') ! i) = ws_in (mc_subs (sw_fan w) ! i)"
  by (induction rule: watch_moves.induct) (auto simp: loop_frames marks_live split: sum.split)

lemma unserved_moves:
  assumes "watch_moves rd fp shut w w'" "unserved i vs w"
  shows "unserved i vs w'"
proof (cases "ws_in (mc_subs (sw_fan w) ! i)")
  case True
  with assms(2) have l: "sw_loop w = Loop_Over \<or> \<not> sw_pumping w \<and> sw_loop w = Asleep" by (auto simp: unserved_def Let_def)
  with assms(1) have "w' = pump_takes w \<and> sw_loop w = Loop_Over" by (auto elim: watch_moves.cases)
  with assms(2) show ?thesis by (auto simp: unserved_def pump_takes_def wake_loop_def Let_def)
next
  case False
  with moves_live [OF assms(1)] assms(2) show ?thesis by (simp add: unserved_def)
qed

lemma unserved_step: "watch_step rd fp shut w w' \<Longrightarrow> watch_ok rd fp w \<Longrightarrow> unserved i vs w \<Longrightarrow> unserved i vs w'"
proof (induction rule: watch_step.induct)
  case (moves w w')
  then show ?case by (blast intro: unserved_moves)
next
  case (joins w aborted)
  obtain gone f where r: "mc_subscribe aborted (sw_fan w) = (gone, f)" by force
  have "watch_ok rd fp (watch_join aborted w)" using joins by (intro watch_step_ok [OF watch_step.joins])
  with joins subscribe_kept [OF _ r, of i] show ?case unfolding watch_join_def r
    by (intro unserved_with_fan) (simp_all add: unserved_def)
next
  case (pulls j w)
  obtain h gone f where r: "mc_next j (sw_fan w) = (h, gone, f)" by (metis surj_pair)
  have "watch_ok rd fp (snd (watch_pull j w))" using pulls by (intro watch_step_ok [OF watch_step.pulls])
  then have "watch_ok rd fp (with_fan (gone, f) w)" by (simp add: watch_pull_def r)
  moreover have "sub_kept i (sw_fan w) f" using pulls by (intro next_kept [OF _ r]) (simp add: unserved_def)
  ultimately have "unserved i vs (with_fan (gone, f) w)" by (intro unserved_with_fan [OF pulls(3)])
  then show ?case by (simp add: watch_pull_def r)
next
  case (leaves j w)
  obtain gone f where r: "mc_drop j (sw_fan w) = (gone, f)" by force
  have "watch_ok rd fp (watch_leave j w)" using leaves by (intro watch_step_ok [OF watch_step.leaves])
  with leaves drop_kept [OF _ r, of i] show ?case unfolding watch_leave_def r
    by (intro unserved_with_fan) (simp_all add: unserved_def)
qed (auto simp: unserved_def feed_tick_def Let_def)


lemma unserved_run: "(watch_step rd fp shut)\<^sup>*\<^sup>* w w' \<Longrightarrow> watch_ok rd fp w \<Longrightarrow> unserved i vs w \<Longrightarrow> unserved i vs w'"
proof (induction rule: rtranclp_induct)
  case (step v w')
  moreover have "watch_ok rd fp v" by (rule shared_watch.run_inv [OF step(1) step(4)])
  ultimately show ?case by (blast intro: unserved_step)
qed simp

subsection \<open>Properties\<close>

text \<open>
  C14. A watch shows the truth when it rests. Whatever joined, left, pulled or changed and in whatever order: when an active
  activation's watch has nothing more to do and its loop is not over, the newest value every subscriber has
  waiting or has taken is the read of the actor's present state, or one of the same fingerprint, the mutation that landed
  during a read, a throttle window or a wake-up included.
\<close>

theorem watch_rests_on_the_truth:
  assumes "reach watch_start (watch_step rd fp shut) w" "\<not> sw_closed w" "\<nexists>w'. watch_moves rd fp shut w w'" "sw_loop w \<noteq> Loop_Over"
    "i < length (mc_subs (sw_fan w))" "ws_in (mc_subs (sw_fan w) ! i)"
  shows "\<exists>x v. rd (sw_state w) = Inr x \<and> newest (mc_subs (sw_fan w) ! i) = Some v \<and> same_print fp x v"
proof -
  have ok: "watch_ok rd fp w" by (rule shared_watch.reach_inv [OF assms(1)])
  have "\<not> sw_stopped w" by (rule live_not_stopped [OF ok assms(5,6)])
  with ok assms(2) have "loop_fresh rd fp w" "sw_pumping w" "sw_loop w = Asleep \<longrightarrow> \<not> sw_dirty w" by (auto simp: watch_ok_def)
  moreover have "sw_loop w = Asleep" "sw_pumping w \<Longrightarrow> sw_ticks w = 0" using at_rest [OF assms(3)] assms(4) by blast+
  moreover have "newest (mc_subs (sw_fan w) ! i) = mc_last (sw_fan w)" using fan_okD [OF watch_okD(1) [OF ok] assms(5)] assms(6) by blast
  ultimately show ?thesis by (auto simp: loop_fresh_def)
qed

text \<open>
  C15. A watch comes to rest: from every reachable state the steps it takes by itself, in any order, are at most its
  measure of work many, and taking them leads to a state with none left, on the same actor state.
\<close>

theorem watch_comes_to_rest:
  assumes "reach watch_start (watch_step rd fp shut) w"
  shows "(\<exists>w'. (watch_moves rd fp shut)\<^sup>*\<^sup>* w w' \<and> (\<nexists>w''. watch_moves rd fp shut w' w'') \<and> sw_state w' = sw_state w)
    \<and> (\<forall>n w'. (watch_moves rd fp shut ^^ n) w w' \<longrightarrow> n \<le> watch_work w)"
proof -
  have ok: "watch_ok rd fp w" by (rule shared_watch.reach_inv [OF assms])
  obtain w' where w': "(watch_moves rd fp shut)\<^sup>*\<^sup>* w w'" "watch_work w' = 0" using watch_rests.finishes [OF ok] by blast
  have "sw_state w' = sw_state w" using w'(1)
    by (induction rule: rtranclp_induct) (auto elim!: watch_moves.cases simp: loop_frames split: sum.split)
  moreover have "\<nexists>w''. watch_moves rd fp shut w' w''" by (rule no_work_no_move [OF w'(2)])
  moreover have "n \<le> watch_work w" if "(watch_moves rd fp shut ^^ n) w w'" for n w'
    using watch_rests.run_bounded [OF that ok] by simp
  ultimately show ?thesis using w'(1) by blast
qed

text \<open>
  The activation is kept alive exactly while somebody watches: the keep-alive and the owner's map entry are held if and
  only if a subscriber is in the set, and the teardown runs at most once, whatever races of an abort, a return and
  a pull that they wake drop the same subscriber again.
\<close>

theorem held_while_watched:
  assumes "reach watch_start (watch_step rd fp shut) w"
  shows "(sw_held w \<longleftrightarrow> mc_size (sw_fan w) > 0) \<and> (sw_entry w \<longleftrightarrow> mc_size (sw_fan w) > 0)
    \<and> mc_empties (sw_fan w) = (if mc_size (sw_fan w) = 0 then 1 else 0)"
  using shared_watch.reach_inv [OF assms] by (auto simp: watch_ok_def held_ok_def)

text \<open>
  C16. A watch outlives its activation without a word. When an activation with a quiet watch is deactivated, its change feed ends and the
  pump goes home, but the loop is left asleep: from then on, whatever happens, every subscriber that was waiting
  waits for ever, neither ended nor failed, until it leaves by itself. The comment of \<open>openWatch\<close> says that an end by
  deactivation passes through to the subscriber.
\<close>

theorem deactivation_strands_watchers:
  assumes "reach watch_start (watch_step rd fp shut) w" "sw_loop w = Asleep" "sw_ticks w = 0" "sw_pumping w"
    "i < length (mc_subs (sw_fan w))" "fst (watch_pull i w) = Waiting"
  shows "\<exists>d. (watch_step rd fp shut)\<^sup>*\<^sup>* w d \<and> sw_closed d \<and> sw_feed_done d \<and> (\<nexists>w'. watch_moves rd fp shut d w')
    \<and> (\<forall>w'. (watch_step rd fp shut)\<^sup>*\<^sup>* d w' \<longrightarrow> ws_in (mc_subs (sw_fan w') ! i) \<longrightarrow> fst (watch_pull i w') = Waiting)"
proof -
  let ?d = "pump_takes (w\<lparr>sw_closed := True, sw_feed_done := True\<rparr>)"
  have "watch_step rd fp shut w (w\<lparr>sw_closed := True\<rparr>)" by (rule closes)
  moreover have "watch_step rd fp shut (w\<lparr>sw_closed := True\<rparr>) (w\<lparr>sw_closed := True, sw_feed_done := True\<rparr>)"
    using deactivates [of "w\<lparr>sw_closed := True\<rparr>" rd fp shut] by simp
  moreover have "watch_step rd fp shut (w\<lparr>sw_closed := True, sw_feed_done := True\<rparr>) ?d"
    by (intro moves pump_runs) (simp_all add: assms(4))
  ultimately have run: "(watch_step rd fp shut)\<^sup>*\<^sup>* w ?d" by (meson rtranclp.rtrancl_refl rtranclp.rtrancl_into_rtrancl)
  have d: "sw_closed ?d" "sw_feed_done ?d" "\<not> sw_pumping ?d" "sw_loop ?d = Asleep" "sw_fan ?d = sw_fan w"
    using assms(2,3) by (simp_all add: pump_takes_def)
  have "watch_work ?d = 0" using d by (simp add: watch_work_def)
  then have rest: "\<nexists>w'. watch_moves rd fp shut ?d w'" by (rule no_work_no_move)
  have u: "unserved i {} ?d"
    using assms(5,6) d by (auto simp: unserved_def watch_pull_def mc_next_def Let_def split: list.splits option.splits if_splits prod.splits)
  have "fst (watch_pull i w') = Waiting" if "(watch_step rd fp shut)\<^sup>*\<^sup>* ?d w'" "ws_in (mc_subs (sw_fan w') ! i)" for w'
    using unserved_pull [OF unserved_run [OF that(1) _ u] that(2)] shared_watch.run_inv [OF run] shared_watch.reach_inv [OF assms(1)] by blast
  with run d rest show ?thesis by blast
qed

text \<open>
  A watch whose loop is over still takes subscribers. While one of those it failed has not pulled yet, the owner's entry stays, and
  whoever joins then is handed at most the last value and waits for ever after it, neither failed nor ended.
\<close>

theorem late_joiner_waits_for_ever:
  assumes "reach watch_start (watch_step rd fp shut) w" "sw_loop w = Loop_Over" "sw_entry w"
    "(watch_step rd fp shut)\<^sup>*\<^sup>* (watch_join False w) w'" "ws_in (mc_subs (sw_fan w') ! length (mc_subs (sw_fan w)))"
  shows "fst (watch_pull (length (mc_subs (sw_fan w))) w') = Waiting
    \<or> (\<exists>v. mc_last (sw_fan w) = Some v \<and> fst (watch_pull (length (mc_subs (sw_fan w))) w') = Handed v)"
proof -
  let ?i = "length (mc_subs (sw_fan w))" and ?vs = "set_option (mc_last (sw_fan w))"
  have j: "watch_step rd fp shut w (watch_join False w)" by (rule joins [OF assms(3)])
  have u: "unserved ?i ?vs (watch_join False w)"
    using assms(2) by (auto simp: unserved_def watch_join_def mc_subscribe_def with_fan_def new_wsub_def Let_def split: option.splits)
  have "watch_ok rd fp (watch_join False w)" by (rule shared_watch.reach_inv [OF reach_step [OF assms(1) j]])
  from unserved_pull [OF unserved_run [OF assms(4) this u] assms(5)] show ?thesis by auto
qed


subsection \<open>Witnesses\<close>

text \<open>A counter that is read as it is; a read of a counter that is not zero fails in the second.\<close>

type_synonym counter_watch = "(nat, nat, string, nat) watch"

definition fresh :: counter_watch where "fresh = watch_join False (new_watch 0 False)"

definition read_now :: "(nat \<Rightarrow> string + nat) \<Rightarrow> bool \<Rightarrow> counter_watch \<Rightarrow> counter_watch" where
  "read_now rd ini w = after_read Some ini (rd (sw_state w)) (w\<lparr>sw_loop := Read_Back ini (rd (sw_state w))\<rparr>)"

definition quiet_watch :: counter_watch where "quiet_watch = snd (watch_pull 0 (read_now Inr True fresh))"

definition bumped :: counter_watch where
  "bumped = read_now Inr False (after_settle (after_wait (pump_takes (feed_tick (quiet_watch\<lparr>sw_state := 7\<rparr>)))))"

abbreviation counter_reach :: "(nat \<Rightarrow> string + nat) \<Rightarrow> counter_watch \<Rightarrow> bool" where
  "counter_reach rd \<equiv> reach watch_start (watch_step rd Some ''shutdown'')"

lemma fresh_reached: "counter_reach rd fresh"
  by (rule reach_init) (auto simp: watch_start_def fresh_def)

lemma read_now_reached:
  assumes "counter_reach rd w" "sw_loop w = Reading ini"
  shows "counter_reach rd (read_now rd ini w)"
proof -
  let ?r = "w\<lparr>sw_loop := Read_Back ini (rd (sw_state w))\<rparr>"
  have "watch_step rd Some ''shutdown'' w ?r" by (rule watch_step.moves, rule watch_moves.read_runs) (rule assms(2))
  with assms(1) have "counter_reach rd ?r" by (rule reach_step)
  moreover have "watch_step rd Some ''shutdown'' ?r (read_now rd ini w)"
    unfolding read_now_def by (rule watch_step.moves, rule watch_moves.read_lands) simp
  ultimately show ?thesis by (rule reach_step)
qed

lemma quiet_watch_reached: "counter_reach Inr quiet_watch"
proof -
  have "sw_loop fresh = Reading True" "0 < length (mc_subs (sw_fan (read_now Inr True fresh)))" by code_simp+
  then show ?thesis unfolding quiet_watch_def
    by (intro reach_step [OF read_now_reached [OF fresh_reached] watch_step.pulls])
qed

lemma bumped_reached: "counter_reach Inr bumped"
proof -
  let ?t = "feed_tick (quiet_watch\<lparr>sw_state := 7\<rparr>)"
  have t: "sw_pumping ?t" "0 < sw_ticks ?t" "sw_loop (pump_takes ?t) = Woken" "sw_loop (after_wait (pump_takes ?t)) = Settling"
    "sw_loop (after_settle (after_wait (pump_takes ?t))) = Reading False" by code_simp+
  have "counter_reach Inr ?t" by (rule reach_step [OF quiet_watch_reached watch_step.mutates])
  then have "counter_reach Inr (pump_takes ?t)" using t(1,2) by (elim reach_step) (blast intro: watch_step.moves watch_moves.pump_runs)
  then have "counter_reach Inr (after_wait (pump_takes ?t))" using t(3) by (elim reach_step) (blast intro: watch_step.moves watch_moves.loop_wakes)
  then have "counter_reach Inr (after_settle (after_wait (pump_takes ?t)))" using t(4)
    by (elim reach_step) (blast intro: watch_step.moves watch_moves.window_over)
  then show ?thesis unfolding bumped_def using t(5) by (intro read_now_reached)
qed

theorem watch_rests_on_the_truth_witness: "newest (mc_subs (sw_fan bumped) ! 0) = Some 7"
proof -
  have b: "\<not> sw_closed bumped" "watch_work bumped = 0" "sw_loop bumped \<noteq> Loop_Over" "0 < length (mc_subs (sw_fan bumped))"
    "ws_in (mc_subs (sw_fan bumped) ! 0)" "sw_state bumped = 7" by code_simp+
  from watch_rests_on_the_truth [OF bumped_reached b(1) no_work_no_move [OF b(2)] b(3-5)] b(6)
  show ?thesis by (auto simp: same_print_def)
qed

theorem watch_comes_to_rest_witness: "\<exists>w'. (watch_moves Inr Some ''shutdown'')\<^sup>*\<^sup>* (feed_tick (quiet_watch\<lparr>sw_state := 7\<rparr>)) w' \<and> sw_state w' = 7"
proof -
  let ?t = "feed_tick (quiet_watch\<lparr>sw_state := 7\<rparr>)"
  have "counter_reach Inr ?t" by (rule reach_step [OF quiet_watch_reached watch_step.mutates])
  moreover have "sw_state ?t = 7" by code_simp
  ultimately show ?thesis using watch_comes_to_rest [of Inr Some "''shutdown''" ?t] by metis
qed

theorem held_while_watched_witness: "\<not> sw_held (watch_leave 0 quiet_watch) \<and> mc_empties (sw_fan (watch_leave 0 quiet_watch)) = 1"
proof -
  have "0 < length (mc_subs (sw_fan quiet_watch))" "mc_size (sw_fan (watch_leave 0 quiet_watch)) = 0" by code_simp+
  with held_while_watched [OF reach_step [OF quiet_watch_reached watch_step.leaves [of 0]]] show ?thesis by simp
qed

theorem deactivation_strands_watchers_witness:
  "\<exists>d. (watch_step Inr Some ''shutdown'')\<^sup>*\<^sup>* quiet_watch d \<and> sw_closed d \<and> sw_feed_done d"
proof -
  have q: "sw_loop quiet_watch = Asleep" "sw_ticks quiet_watch = 0" "sw_pumping quiet_watch" "0 < length (mc_subs (sw_fan quiet_watch))"
    "fst (watch_pull 0 quiet_watch) = Waiting" by code_simp+
  from deactivation_strands_watchers [OF quiet_watch_reached q] show ?thesis by blast
qed

definition failed :: counter_watch where "failed = read_now (\<lambda>_. Inl ''broken'') True fresh"

theorem late_joiner_waits_for_ever_witness: "fst (watch_pull 1 (watch_join False failed)) = Waiting"
proof -
  have "sw_loop fresh = Reading True" by code_simp
  then have r: "counter_reach (\<lambda>_. Inl ''broken'') failed" unfolding failed_def by (rule read_now_reached [OF fresh_reached])
  have f: "sw_loop failed = Loop_Over" "sw_entry failed" "length (mc_subs (sw_fan failed)) = 1"
    "ws_in (mc_subs (sw_fan (watch_join False failed)) ! 1)" "mc_last (sw_fan failed) = None" by code_simp+
  from late_joiner_waits_for_ever [OF r f(1,2) rtranclp.rtrancl_refl] f(3-5) show ?thesis by simp
qed

end
