(* ===== verification/Watch_Pump.thy ===== *)
theory Watch_Pump
  imports Machines "HOL-Library.Multiset"
begin

section \<open>The watch read pump\<close>

text \<open>
  \<open>host/watch-pump.ts\<close>: the reads of all watch loops of an activation share one turn of its serial queue. A read is a number;
  what it does is outside, only that its promise settles, well or badly, is a step. The queue
  is what the pump sees of it (\<open>Turns\<close> has the queue itself): a turn that was accepted runs some time, also after the queue
  has closed, and a turn offered to a closed queue is refused, a moment later. \<open>rp_scheduled\<close> and \<open>rp_settled\<close> are the
  histories the properties speak of.
\<close>

datatype settlement = Settled_With bool | Shut_Down | Turned_Away

datatype drain_turn = No_Turn | Turn_Refused | Turn_Queued | Draining nat "nat list"

record read_pump =
  rp_slice :: nat
  rp_seeds :: "nat list"
  rp_reads :: "nat list"
  rp_queued :: bool
  rp_turn :: drain_turn
  rp_closed :: bool
  rp_scheduled :: "nat list"
  rp_settled :: "(nat \<times> settlement) list"

definition default_slice :: nat where "default_slice = 32"

text \<open>The configured size, rounded down; \<open>None\<close> for one that is absent or not finite.\<close>

definition slice_size :: "int option \<Rightarrow> nat" where
  "slice_size n = (case n of None \<Rightarrow> default_slice | Some i \<Rightarrow> nat (max 1 i))"

definition new_pump :: "int option \<Rightarrow> bool \<Rightarrow> read_pump" where
  "new_pump n closed = \<lparr>rp_slice = slice_size n, rp_seeds = [], rp_reads = [], rp_queued = False, rp_turn = No_Turn, rp_closed = closed,
     rp_scheduled = [], rp_settled = []\<rparr>"

definition settle_job :: "nat \<Rightarrow> settlement \<Rightarrow> read_pump \<Rightarrow> read_pump" where
  "settle_job j how p = p\<lparr>rp_settled := rp_settled p @ [(j, how)]\<rparr>"

definition reject_all :: "settlement \<Rightarrow> read_pump \<Rightarrow> read_pump" where
  "reject_all how p = (let p = fold (\<lambda>j. settle_job j how) (rp_seeds p) p; p = fold (\<lambda>j. settle_job j how) (rp_reads p) p
     in p\<lparr>rp_seeds := [], rp_reads := []\<rparr>)"

definition pump_enqueue :: "read_pump \<Rightarrow> read_pump" where
  "pump_enqueue p = p\<lparr>rp_queued := True, rp_turn := (if rp_closed p then Turn_Refused else Turn_Queued)\<rparr>"

definition schedule_read :: "nat \<Rightarrow> bool \<Rightarrow> read_pump \<Rightarrow> read_pump" where
  "schedule_read j seed p = (let p = p\<lparr>rp_scheduled := rp_scheduled p @ [j]\<rparr>;
       p = (if seed then p\<lparr>rp_seeds := rp_seeds p @ [j]\<rparr> else p\<lparr>rp_reads := rp_reads p @ [j]\<rparr>)
     in if rp_queued p then p else pump_enqueue p)"

text \<open>The \<open>catch\<close> of a refused turn.\<close>

definition refusal_lands :: "read_pump \<Rightarrow> read_pump" where
  "refusal_lands p = reject_all Turned_Away (p\<lparr>rp_queued := False, rp_turn := No_Turn\<rparr>)"

definition drain_over :: "read_pump \<Rightarrow> read_pump" where
  "drain_over p = (if rp_seeds p \<noteq> [] \<or> rp_reads p \<noteq> [] then pump_enqueue p else p\<lparr>rp_queued := False, rp_turn := No_Turn\<rparr>)"

text \<open>The head of the drain's loop: the queue may have died, else the next job runs.\<close>

definition drain_next :: "nat list \<Rightarrow> read_pump \<Rightarrow> read_pump" where
  "drain_next slice p = (case slice of
      [] \<Rightarrow> drain_over p
    | j # rest \<Rightarrow> if rp_closed p then drain_over (reject_all Shut_Down (fold (\<lambda>j. settle_job j Shut_Down) slice p))
                 else p\<lparr>rp_turn := Draining j rest\<rparr>)"

definition take_slice :: "nat \<Rightarrow> nat list \<Rightarrow> nat list \<Rightarrow> nat list \<times> nat list \<times> nat list" where
  "take_slice n seeds reads = (let slice = take n seeds; seeds' = drop n seeds
     in if length slice < n then (slice @ take (n - length slice) reads, seeds', drop (n - length slice) reads)
        else (slice, seeds', reads))"

definition drain_starts :: "read_pump \<Rightarrow> read_pump" where
  "drain_starts p = (case take_slice (rp_slice p) (rp_seeds p) (rp_reads p) of (slice, seeds, reads) \<Rightarrow>
     drain_next slice (p\<lparr>rp_seeds := seeds, rp_reads := reads\<rparr>))"

definition job_settles :: "bool \<Rightarrow> nat \<Rightarrow> nat list \<Rightarrow> read_pump \<Rightarrow> read_pump" where
  "job_settles good j rest p = drain_next rest (settle_job j (Settled_With good) p)"

inductive pump_moves :: "read_pump \<Rightarrow> read_pump \<Rightarrow> bool" where
  turned_away: "rp_turn p = Turn_Refused \<Longrightarrow> pump_moves p (refusal_lands p)"
| turn_starts: "rp_turn p = Turn_Queued \<Longrightarrow> pump_moves p (drain_starts p)"
| read_settles: "rp_turn p = Draining j rest \<Longrightarrow> pump_moves p (job_settles good j rest p)"

inductive pump_step :: "read_pump \<Rightarrow> read_pump \<Rightarrow> bool" where
  pump_moves: "pump_moves p p' \<Longrightarrow> pump_step p p'"
| schedules: "j \<notin> set (rp_scheduled p) \<Longrightarrow> pump_step p (schedule_read j seed p)"
| queue_closes: "pump_step p (p\<lparr>rp_closed := True\<rparr>)"

definition pump_start :: "read_pump \<Rightarrow> bool" where
  "pump_start p \<longleftrightarrow> (\<exists>n closed. p = new_pump n closed)"

subsection \<open>The slice\<close>

text \<open>Seeds first, then re-reads, up to the size: the front of the two queues one after the other.\<close>

lemma take_slice_front:
  "take_slice n seeds reads = (take n (seeds @ reads), drop n seeds, drop (n - length seeds) reads)"
  by (auto simp: take_slice_def Let_def min_def)

lemma slice_size_pos: "0 < slice_size n"
  by (auto simp: slice_size_def default_slice_def split: option.split)

subsection \<open>The invariant\<close>

definition in_turn :: "read_pump \<Rightarrow> nat list" where
  "in_turn p = (case rp_turn p of Draining j rest \<Rightarrow> j # rest | _ \<Rightarrow> [])"

definition unsettled :: "read_pump \<Rightarrow> nat list" where
  "unsettled p = in_turn p @ rp_seeds p @ rp_reads p"

definition pump_ok :: "read_pump \<Rightarrow> bool" where
  "pump_ok p \<longleftrightarrow> 0 < rp_slice p \<and> distinct (map fst (rp_settled p) @ unsettled p)
     \<and> set (map fst (rp_settled p)) \<union> set (unsettled p) = set (rp_scheduled p)
     \<and> (rp_queued p \<longleftrightarrow> rp_turn p \<noteq> No_Turn) \<and> (rp_turn p = No_Turn \<longrightarrow> rp_seeds p @ rp_reads p = [])
     \<and> (rp_turn p = Turn_Queued \<or> rp_turn p = Turn_Refused \<longrightarrow> rp_seeds p @ rp_reads p \<noteq> [])"

lemma settle_fold: "fold (\<lambda>j. settle_job j how) js p = p\<lparr>rp_settled := rp_settled p @ map (\<lambda>j. (j, how)) js\<rparr>"
  by (induction js arbitrary: p) (simp_all add: settle_job_def)

lemma reject_all_eq: "reject_all how p = p\<lparr>rp_settled := rp_settled p @ map (\<lambda>j. (j, how)) (rp_seeds p @ rp_reads p), rp_seeds := [], rp_reads := []\<rparr>"
  by (simp add: reject_all_def settle_fold)

lemma tagged_mset [simp]: "image_mset fst (image_mset (\<lambda>j. (j, how)) M) = M"
  by (simp add: multiset.map_comp comp_def)

text \<open>What every operation does to the reads: it moves them from the unsettled to the settled, none twice and none lost.\<close>

definition carries :: "nat list \<Rightarrow> read_pump \<Rightarrow> read_pump \<Rightarrow> bool" where
  "carries left p p' \<longleftrightarrow> rp_slice p' = rp_slice p \<and> rp_scheduled p' = rp_scheduled p
     \<and> (\<exists>new. rp_settled p' = rp_settled p @ new \<and> mset (left @ rp_seeds p @ rp_reads p) = mset (map fst new @ unsettled p'))
     \<and> (rp_queued p' \<longleftrightarrow> rp_turn p' \<noteq> No_Turn) \<and> (rp_turn p' = No_Turn \<longrightarrow> rp_seeds p' @ rp_reads p' = [])
     \<and> (rp_turn p' = Turn_Queued \<or> rp_turn p' = Turn_Refused \<longrightarrow> rp_seeds p' @ rp_reads p' \<noteq> [])"

lemma drain_over_carries: "carries [] p (drain_over p)"
  by (auto simp: drain_over_def carries_def pump_enqueue_def unsettled_def in_turn_def)

lemma drain_next_carries: "rp_queued p \<Longrightarrow> carries slice p (drain_next slice p)"
proof (cases slice)
  case Nil
  then show ?thesis by (simp add: drain_next_def drain_over_carries)
next
  case (Cons j rest)
  assume q: "rp_queued p"
  show ?thesis
  proof (cases "rp_closed p")
    case True
    with Cons show ?thesis
      by (simp add: drain_next_def settle_job_def settle_fold reject_all_eq drain_over_def carries_def unsettled_def in_turn_def comp_def)
  next
    case False
    with Cons q show ?thesis by (simp add: drain_next_def carries_def unsettled_def in_turn_def)
  qed
qed

lemma carries_ok:
  assumes "carries left q p'" "pump_ok p" "rp_slice q = rp_slice p" "rp_scheduled q = rp_scheduled p"
    "rp_settled q = rp_settled p @ now" "mset (unsettled p) = mset (map fst now @ left @ rp_seeds q @ rp_reads q)"
  shows "pump_ok p'"
proof -
  from assms(1) obtain new where new: "rp_settled p' = rp_settled q @ new" "mset (left @ rp_seeds q @ rp_reads q) = mset (map fst new @ unsettled p')"
    by (auto simp: carries_def)
  have m: "mset (map fst (rp_settled p') @ unsettled p') = mset (map fst (rp_settled p) @ unsettled p)"
    using new assms(5,6) by simp
  have "distinct (map fst (rp_settled p') @ unsettled p')"
    using assms(2) mset_eq_imp_distinct_iff [OF m] by (simp only: pump_ok_def)
  moreover have "set (map fst (rp_settled p')) \<union> set (unsettled p') = set (rp_scheduled p')"
    using mset_eq_setD [OF m] assms(1,2,4) by (simp add: pump_ok_def carries_def)
  ultimately show ?thesis using assms(1,2,3) by (simp add: pump_ok_def carries_def)
qed

lemma pump_moves_ok:
  assumes "pump_moves p p'" "pump_ok p"
  shows "pump_ok p'"
  using assms(1)
proof (cases rule: pump_moves.cases)
  case turned_away
  have "carries [] (p\<lparr>rp_queued := False, rp_turn := No_Turn\<rparr>) p'"
    by (simp add: turned_away refusal_lands_def reject_all_eq carries_def unsettled_def in_turn_def comp_def)
  from carries_ok [OF this assms(2), of "[]"] turned_away(2) show ?thesis by (simp add: unsettled_def in_turn_def)
next
  case turn_starts
  let ?q = "p\<lparr>rp_seeds := drop (rp_slice p) (rp_seeds p), rp_reads := drop (rp_slice p - length (rp_seeds p)) (rp_reads p)\<rparr>"
    and ?s = "take (rp_slice p) (rp_seeds p @ rp_reads p)"
  have "carries ?s ?q p'" unfolding turn_starts(1) drain_starts_def take_slice_front prod.case
    using assms(2) turn_starts(2) by (intro drain_next_carries) (simp add: pump_ok_def)
  moreover have "mset (unsettled p) = mset (?s @ rp_seeds ?q @ rp_reads ?q)"
  proof -
    have "mset (take n xs) + mset (drop n xs) = mset xs" for n and xs :: "nat list"
      by (metis append_take_drop_id mset_append)
    from this [of "rp_slice p" "rp_seeds p"] this [of "rp_slice p - length (rp_seeds p)" "rp_reads p"]
    have "mset (rp_seeds p @ rp_reads p) = mset (?s @ rp_seeds ?q @ rp_reads ?q)" by (simp add: ac_simps)
    then show ?thesis using turn_starts(2) by (simp add: unsettled_def in_turn_def)
  qed
  ultimately show ?thesis using carries_ok [OF _ assms(2), of ?s ?q p' "[]"] by simp
next
  case (read_settles j rest good)
  have "carries rest (settle_job j (Settled_With good) p) p'" unfolding read_settles(1) job_settles_def
    using assms(2) read_settles(2) by (intro drain_next_carries) (simp add: pump_ok_def settle_job_def)
  from carries_ok [OF this assms(2), of "[(j, Settled_With good)]"] read_settles(2)
  show ?thesis by (simp add: settle_job_def unsettled_def in_turn_def)
qed

lemma schedule_ok:
  assumes "pump_ok p" "j \<notin> set (rp_scheduled p)"
  shows "pump_ok (schedule_read j seed p)"
proof -
  have j: "j \<notin> set (map fst (rp_settled p)) \<union> set (unsettled p)" using assms by (simp add: pump_ok_def)
  have t: "in_turn (p\<lparr>rp_scheduled := a, rp_seeds := b\<rparr>) = in_turn p" "in_turn (p\<lparr>rp_scheduled := a, rp_reads := b\<rparr>) = in_turn p" for a b
    by (simp_all add: in_turn_def)
  show ?thesis
  proof (cases "rp_queued p")
    case True
    with assms(1) j t show ?thesis by (cases seed) (auto simp: pump_ok_def schedule_read_def unsettled_def)
  next
    case False
    with assms(1) have "rp_turn p = No_Turn" "rp_seeds p = []" "rp_reads p = []" by (auto simp: pump_ok_def)
    with assms(1) j False show ?thesis
      by (cases seed; cases "rp_closed p") (auto simp: pump_ok_def schedule_read_def pump_enqueue_def unsettled_def in_turn_def)
  qed
qed

lemma pump_step_ok: "pump_step p p' \<Longrightarrow> pump_ok p \<Longrightarrow> pump_ok p'"
proof (induction rule: pump_step.induct)
  case (queue_closes p)
  then show ?case by (simp add: pump_ok_def unsettled_def in_turn_def)
qed (auto intro: pump_moves_ok schedule_ok)

interpretation watch_pump: invariant_machine pump_start pump_step pump_ok
proof unfold_locales
  show "pump_ok p" if "pump_start p" for p
    using that by (auto simp: pump_start_def new_pump_def pump_ok_def slice_size_pos unsettled_def in_turn_def)
qed (rule pump_step_ok)

subsection \<open>Every read settles\<close>

definition pump_work :: "read_pump \<Rightarrow> nat" where
  "pump_work p = 2 * length (unsettled p) + (if rp_turn p = Turn_Queued \<or> rp_turn p = Turn_Refused then 1 else 0)"

lemma drain_next_work:
  assumes "rp_queued p" "slice \<noteq> [] \<or> rp_seeds p @ rp_reads p = []"
  shows "pump_work (drain_next slice p) \<le> 2 * (length slice + length (rp_seeds p) + length (rp_reads p))"
proof (cases slice)
  case Nil
  with assms show ?thesis by (simp add: drain_next_def drain_over_def pump_work_def unsettled_def in_turn_def)
next
  case (Cons j rest)
  then show ?thesis
    by (simp add: drain_next_def settle_fold reject_all_eq drain_over_def pump_work_def unsettled_def in_turn_def)
qed

lemma pump_moves_work:
  assumes "pump_moves p p'" "pump_ok p"
  shows "pump_work p' < pump_work p"
  using assms(1)
proof (cases rule: pump_moves.cases)
  case turned_away
  then show ?thesis by (simp add: refusal_lands_def reject_all_eq pump_work_def unsettled_def in_turn_def)
next
  case turn_starts
  let ?q = "p\<lparr>rp_seeds := drop (rp_slice p) (rp_seeds p), rp_reads := drop (rp_slice p - length (rp_seeds p)) (rp_reads p)\<rparr>"
    and ?s = "take (rp_slice p) (rp_seeds p @ rp_reads p)"
  have "?s \<noteq> []" "rp_queued p" using assms(2) turn_starts(2) by (simp_all add: pump_ok_def)
  then have "pump_work p' \<le> 2 * (length ?s + length (rp_seeds ?q) + length (rp_reads ?q))"
    unfolding turn_starts(1) drain_starts_def take_slice_front prod.case by (intro drain_next_work) simp_all
  moreover have "length ?s + length (rp_seeds ?q) + length (rp_reads ?q) = length (unsettled p)"
    using turn_starts(2) by (simp add: unsettled_def in_turn_def min_def)
  ultimately show ?thesis using turn_starts(2) by (simp add: pump_work_def)
next
  case (read_settles j rest good)
  let ?q = "settle_job j (Settled_With good) p"
  have q: "rp_queued p" using assms(2) read_settles(2) by (simp add: pump_ok_def)
  show ?thesis
  proof (cases rest)
    case Nil
    then show ?thesis using read_settles
      by (simp add: job_settles_def drain_next_def drain_over_def settle_job_def pump_enqueue_def pump_work_def unsettled_def in_turn_def)
  next
    case (Cons k r)
    then have "pump_work p' \<le> 2 * (length rest + length (rp_seeds ?q) + length (rp_reads ?q))"
      unfolding read_settles(1) job_settles_def using q by (intro drain_next_work) (simp_all add: settle_job_def)
    then show ?thesis using read_settles(2) by (simp add: pump_work_def unsettled_def in_turn_def settle_job_def)
  qed
qed

lemma pump_work_move: "pump_ok p \<Longrightarrow> pump_work p \<noteq> 0 \<Longrightarrow> \<exists>p'. pump_moves p p'"
  by (cases "rp_turn p") (auto simp: pump_ok_def pump_work_def unsettled_def in_turn_def intro: pump_moves.intros)

interpretation pump_drains: finishing_machine pump_moves pump_work pump_ok
  by unfold_locales (auto intro: pump_moves_work pump_moves_ok pump_work_move)

subsection \<open>Properties\<close>

text \<open>
  A watch read settles once. Whatever is scheduled, settles, throws or closes the queue, no read ever has two outcomes;
  every scheduled read either has one or is held by the pump; and reads are held only while a turn of the pump is on the
  queue, of which there is one at most. The order of service is seeds before re-reads.
\<close>

theorem watch_read_settles_once:
  assumes "reach pump_start pump_step p"
  shows "distinct (map fst (rp_settled p) @ unsettled p) \<and> set (rp_scheduled p) = fst ` set (rp_settled p) \<union> set (unsettled p)
    \<and> (unsettled p \<noteq> [] \<longrightarrow> rp_turn p \<noteq> No_Turn)
    \<and> (\<forall>slice seeds reads. take_slice (rp_slice p) (rp_seeds p) (rp_reads p) = (slice, seeds, reads) \<longrightarrow>
          slice @ seeds @ reads = take (rp_slice p) (rp_seeds p @ rp_reads p) @ drop (rp_slice p) (rp_seeds p @ rp_reads p))"
proof -
  have ok: "pump_ok p" by (rule watch_pump.reach_inv [OF assms])
  then have "unsettled p \<noteq> [] \<longrightarrow> rp_turn p \<noteq> No_Turn" by (auto simp: pump_ok_def unsettled_def in_turn_def)
  with ok show ?thesis by (auto simp: pump_ok_def take_slice_front)
qed

text \<open>
  No watch read is left hanging: the reads the pump holds are drained in at most twice their number of steps and one, however the
  reads behave, and at the end each has its outcome and the pump gives its turn back, also when the queue
  closes on a turn it had accepted or refuses the turn.
\<close>

theorem watch_reads_drain:
  assumes "reach pump_start pump_step p"
  shows "(\<exists>p'. pump_moves\<^sup>*\<^sup>* p p' \<and> rp_turn p' = No_Turn \<and> fst ` set (rp_settled p') = set (rp_scheduled p))
    \<and> (\<forall>n p'. (pump_moves ^^ n) p p' \<longrightarrow> n \<le> 2 * length (unsettled p) + 1)"
proof -
  have ok: "pump_ok p" by (rule watch_pump.reach_inv [OF assms])
  obtain p' where p': "pump_moves\<^sup>*\<^sup>* p p'" "pump_work p' = 0" using pump_drains.finishes [OF ok] by blast
  have "pump_ok p' \<and> rp_scheduled p' = rp_scheduled p" using p'(1)
  proof (induction rule: rtranclp_induct)
    case (step q r)
    moreover have "rp_scheduled r = rp_scheduled q" using step(2)
      by (cases rule: pump_moves.cases)
        (auto simp: refusal_lands_def reject_all_eq drain_starts_def job_settles_def drain_next_def settle_fold settle_job_def drain_over_def
          pump_enqueue_def split: list.split prod.split)
    ultimately show ?case using pump_moves_ok by metis
  qed (simp add: ok)
  moreover have "unsettled p' = []" "rp_turn p' = No_Turn"
  proof -
    show u: "unsettled p' = []" using p'(2) by (simp add: pump_work_def)
    show "rp_turn p' = No_Turn" using p'(2) u by (cases "rp_turn p'") (simp_all add: pump_work_def unsettled_def in_turn_def)
  qed
  ultimately have "rp_turn p' = No_Turn \<and> fst ` set (rp_settled p') = set (rp_scheduled p)" by (simp add: pump_ok_def)
  moreover have "n \<le> 2 * length (unsettled p) + 1" if "(pump_moves ^^ n) p q" for n q
    using pump_drains.run_bounded [OF that ok] by (simp add: pump_work_def split: if_splits)
  ultimately show ?thesis using p'(1) by blast
qed

subsection \<open>Witnesses\<close>

definition busy_pump :: read_pump where
  "busy_pump = schedule_read 3 True (schedule_read 2 False (schedule_read 1 False (new_pump (Some 2) False)))"

lemma busy_reached: "reach pump_start pump_step busy_pump"
  unfolding busy_pump_def
proof -
  have s: "reach pump_start pump_step (schedule_read j seed p)" if "reach pump_start pump_step p" "j \<notin> set (rp_scheduled p)" for j seed p
    using that(1) schedules [OF that(2)] by (rule reach_step)
  have "reach pump_start pump_step (new_pump (Some 2) False)" by (rule reach_init) (auto simp: pump_start_def)
  then show "reach pump_start pump_step (schedule_read 3 True (schedule_read 2 False (schedule_read 1 False (new_pump (Some 2) False))))"
    by (intro s) (simp_all add: new_pump_def schedule_read_def pump_enqueue_def)
qed

theorem watch_read_settles_once_witness: "distinct (unsettled busy_pump) \<and> rp_turn busy_pump \<noteq> No_Turn \<and> rp_turn (drain_starts busy_pump) = Draining 3 [1]"
proof -
  have "unsettled busy_pump \<noteq> []" "rp_turn (drain_starts busy_pump) = Draining 3 [1]" by code_simp+
  with watch_read_settles_once [OF busy_reached] show ?thesis by auto
qed

theorem watch_reads_drain_witness: "\<exists>p'. pump_moves\<^sup>*\<^sup>* busy_pump p' \<and> fst ` set (rp_settled p') = {1, 2, 3}"
proof -
  have "set (rp_scheduled busy_pump) = {1, 2, 3}" by code_simp
  with watch_reads_drain [OF busy_reached] show ?thesis by auto
qed

end
