(* ===== verification/Watch_Keys.thy ===== *)
theory Watch_Keys
  imports Actor_Ids
begin

section \<open>The identity of a watch\<close>

text \<open>
  The key grammar and the declarations of \<open>watch-core.ts\<close> and \<open>host/watch.ts\<close>: \<open>canonicalKey\<close>, \<open>watchKey\<close>,
  \<open>qualifyWatchKey\<close>, \<open>watchFingerprint\<close>, \<open>validateWatchDeclarations\<close> and the two readers of a declaration, with the
  key of a coalesced stream of \<open>cluster/placement.ts\<close>. A number is given by the text \<open>String\<close> prints, which tells
  all numbers apart but the two zeros; a record by its own keys in insertion order.
\<close>

datatype js_number = Minus_Zero | Other_Number string

datatype js_value = V_Null | V_Undefined | V_Bool bool | V_Number js_number | V_String string
  | V_Bigint int | V_Array "js_value list" | V_Record "(string \<times> js_value) list" | V_Instance string | V_Other string

datatype key_fault = Instance_Survived string | Type_Survived string

fun first_fault :: "('e + 'a) list \<Rightarrow> 'e + 'a list" where
  "first_fault [] = Inr []"
| "first_fault (r # rs) = res_bind r (\<lambda>x. res_bind (first_fault rs) (\<lambda>xs. Inr (x # xs)))"

subsection \<open>The grammar\<close>

definition sized :: "char \<Rightarrow> string \<Rightarrow> string" where
  "sized tag s = tag # show_nat (length s) @ CHR '':'' # s"

definition counted :: "char \<Rightarrow> nat \<Rightarrow> string" where
  "counted tag n = tag # show_nat n @ '':''"

fun key_number :: "js_number \<Rightarrow> string" where
  "key_number Minus_Zero = ''-0''"
| "key_number (Other_Number t) = t"

text \<open>A throw loses what was written so far, so the text is built where the code pushes it.\<close>

primrec write_canonical :: "js_value \<Rightarrow> key_fault + string" where
  "write_canonical V_Null = Inr ''z''"
| "write_canonical V_Undefined = Inr ''u''"
| "write_canonical (V_Bool b) = Inr (if b then ''t'' else ''f'')"
| "write_canonical (V_Number n) = Inr (sized (CHR ''n'') (key_number n))"
| "write_canonical (V_String s) = Inr (sized (CHR ''s'') s)"
| "write_canonical (V_Bigint i) = Inl (Type_Survived ''bigint'')"
| "write_canonical (V_Array vs) = res_bind (first_fault (map write_canonical vs)) (\<lambda>ts. Inr (counted (CHR ''a'') (length vs) @ concat ts))"
| "write_canonical (V_Record kvs) =
     res_bind (first_fault (map (\<lambda>(k, r). res_bind r (\<lambda>t. Inr (sized (CHR ''k'') k @ t)))
                             (sort_key fst (map (map_prod (\<lambda>k. k) write_canonical) kvs))))
       (\<lambda>ts. Inr (counted (CHR ''o'') (length kvs) @ concat ts))"
| "write_canonical (V_Instance c) = Inl (Instance_Survived c)"
| "write_canonical (V_Other t) = Inl (Type_Survived t)"

definition canonical_key :: "js_value list \<Rightarrow> key_fault + string" where
  "canonical_key parts = res_bind (first_fault (map write_canonical parts)) (\<lambda>ts. Inr (concat ts))"

definition watch_key :: "string \<Rightarrow> js_number \<Rightarrow> js_value \<Rightarrow> key_fault + string" where
  "watch_key method throttle encoded_args = canonical_key [V_String method, V_Number throttle, encoded_args]"

definition qualify_watch_key :: "string \<Rightarrow> string option \<Rightarrow> key_fault + string" where
  "qualify_watch_key base who =
     res_bind (canonical_key [case who of None \<Rightarrow> V_Undefined | Some p \<Rightarrow> V_String p]) (\<lambda>t. Inr (base @ CHR ''P'' # t))"

text \<open>The key under which the relay of another host shares one stream: \<open>true\<close> in the place of the principal when the read is declared independent of it.\<close>

definition coalesced_key :: "string \<Rightarrow> string \<Rightarrow> js_number \<Rightarrow> js_value \<Rightarrow> bool \<Rightarrow> string option \<Rightarrow> key_fault + string" where
  "coalesced_key actor method throttle encoded_args shared who =
     canonical_key [V_String actor, V_String method, V_Number throttle, encoded_args,
       if shared then V_Bool True else (case who of None \<Rightarrow> V_Null | Some p \<Rightarrow> V_String p)]"

subsection \<open>The fingerprint\<close>

text \<open>\<open>wire v\<close> is the JSON text of the codec's encoding; it throws (\<open>None\<close>) for what the codec refuses.\<close>

definition watch_fingerprint :: "(js_value \<Rightarrow> string option) \<Rightarrow> js_value \<Rightarrow> string option" where
  "watch_fingerprint wire v = (case v of
      V_Number n \<Rightarrow> Some (''n:'' @ key_number n)
    | V_String s \<Rightarrow> Some (''s:'' @ s)
    | V_Bool b \<Rightarrow> Some (if b then ''t'' else ''f'')
    | V_Undefined \<Rightarrow> Some ''u''
    | V_Bigint i \<Rightarrow> Some (''b:'' @ show_int i)
    | V_Null \<Rightarrow> Some ''z''
    | _ \<Rightarrow> map_option (\<lambda>t. ''o:'' @ t) (wire v))"

subsection \<open>The declarations\<close>

datatype flag = F_True | F_False | F_Else

datatype watch_decl = Not_An_Object | Flags "(string, flag) jmap"

datatype watches_map = Watches_Absent | Watches_Not_A_Map | Watches "(string, watch_decl) jmap"

datatype decl_fault = Not_A_Map | Ill_Formed string | Is_A_Stream string | Is_Reserved string

definition well_formed_decl :: "watch_decl \<Rightarrow> bool" where
  "well_formed_decl d = (case d of
      Not_An_Object \<Rightarrow> False
    | Flags fs \<Rightarrow> fs \<noteq> [] \<and> list_all (\<lambda>(k, v). k = ''principalIndependent'' \<and> v = F_True \<or> k = ''distinct'' \<and> v = F_False) fs)"

definition check_watch :: "string list \<Rightarrow> string \<times> watch_decl \<Rightarrow> decl_fault + unit" where
  "check_watch streams e = (case e of (method, d) \<Rightarrow>
     if \<not> well_formed_decl d then Inl (Ill_Formed method)
     else if method \<in> set streams then Inl (Is_A_Stream method)
     else if starts_with method ''$'' then Inl (Is_Reserved method)
     else Inr ())"

text \<open>The result is the list of the methods a development build warns of.\<close>

definition validate_watch_declarations :: "string list \<Rightarrow> string list \<Rightarrow> watches_map \<Rightarrow> decl_fault + string list" where
  "validate_watch_declarations streams methods w = (case w of
      Watches_Absent \<Rightarrow> Inr []
    | Watches_Not_A_Map \<Rightarrow> Inl Not_A_Map
    | Watches m \<Rightarrow> res_bind (first_fault (map (check_watch streams) m))
        (\<lambda>_. Inr (filter (\<lambda>k. k \<notin> set methods) (jkeys m))))"

definition flag_of :: "watch_decl \<Rightarrow> string \<Rightarrow> flag option" where
  "flag_of d k = (case d of Not_An_Object \<Rightarrow> None | Flags fs \<Rightarrow> jget fs k)"

definition declares_distinct :: "watches_map \<Rightarrow> string \<Rightarrow> bool" where
  "declares_distinct w method = (case w of
      Watches m \<Rightarrow> (case jget m method of None \<Rightarrow> True | Some d \<Rightarrow> flag_of d ''distinct'' \<noteq> Some F_False)
    | _ \<Rightarrow> True)"

definition declares_principal_independent :: "watches_map \<Rightarrow> string \<Rightarrow> bool" where
  "declares_principal_independent w method = (case w of
      Watches m \<Rightarrow> (case jget m method of None \<Rightarrow> False | Some d \<Rightarrow> flag_of d ''principalIndependent'' = Some F_True)
    | _ \<Rightarrow> False)"

subsection \<open>What a key is of\<close>

text \<open>Two records are the same value whatever the order their keys came in.\<close>

primrec sorted_value :: "js_value \<Rightarrow> js_value" where
  "sorted_value V_Null = V_Null"
| "sorted_value V_Undefined = V_Undefined"
| "sorted_value (V_Bool b) = V_Bool b"
| "sorted_value (V_Number n) = V_Number n"
| "sorted_value (V_String s) = V_String s"
| "sorted_value (V_Bigint i) = V_Bigint i"
| "sorted_value (V_Array vs) = V_Array (map sorted_value vs)"
| "sorted_value (V_Record kvs) = V_Record (sort_key fst (map (map_prod (\<lambda>k. k) sorted_value) kvs))"
| "sorted_value (V_Instance c) = V_Instance c"
| "sorted_value (V_Other t) = V_Other t"

text \<open>No number prints as the text kept for the negative zero.\<close>

primrec numbers_ok :: "js_value \<Rightarrow> bool" where
  "numbers_ok V_Null = True"
| "numbers_ok V_Undefined = True"
| "numbers_ok (V_Bool b) = True"
| "numbers_ok (V_Number n) = (n \<noteq> Other_Number ''-0'')"
| "numbers_ok (V_String s) = True"
| "numbers_ok (V_Bigint i) = True"
| "numbers_ok (V_Array vs) = list_all (\<lambda>b. b) (map numbers_ok vs)"
| "numbers_ok (V_Record kvs) = list_all (\<lambda>p. snd p) (map (map_prod (\<lambda>k. k) numbers_ok) kvs)"
| "numbers_ok (V_Instance c) = True"
| "numbers_ok (V_Other t) = True"

text \<open>The text of a value that has one, without the faults.\<close>

primrec emit :: "js_value \<Rightarrow> string" where
  "emit V_Null = ''z''"
| "emit V_Undefined = ''u''"
| "emit (V_Bool b) = (if b then ''t'' else ''f'')"
| "emit (V_Number n) = sized (CHR ''n'') (key_number n)"
| "emit (V_String s) = sized (CHR ''s'') s"
| "emit (V_Bigint i) = []"
| "emit (V_Array vs) = counted (CHR ''a'') (length vs) @ concat (map emit vs)"
| "emit (V_Record kvs) = counted (CHR ''o'') (length kvs)
     @ concat (map (\<lambda>(k, t). sized (CHR ''k'') k @ t) (sort_key fst (map (map_prod (\<lambda>k. k) emit) kvs)))"
| "emit (V_Instance c) = []"
| "emit (V_Other t) = []"

lemma first_fault_Inr: "first_fault rs = Inr xs \<longleftrightarrow> rs = map Inr xs"
  by (induction rs arbitrary: xs) (auto simp: res_bind_eq_Inr)

lemma insort_key_map: "insort_key fst (map_prod (\<lambda>k. k) f p) (map (map_prod (\<lambda>k. k) f) xs) = map (map_prod (\<lambda>k. k) f) (insort_key fst p xs)"
  by (induction xs) auto

lemma sort_key_map_prod: "sort_key fst (map (map_prod (\<lambda>k. k) f) xs) = map (map_prod (\<lambda>k. k) f) (sort_key fst xs)"
  by (induction xs) (auto simp: insort_key_map)

lemma all_through:
  assumes "\<And>x s. x \<in> set xs \<Longrightarrow> f x = Inr s \<Longrightarrow> s = g x"
  shows "map f xs = map Inr ts \<Longrightarrow> ts = map g xs \<and> (\<forall>x \<in> set xs. f x = Inr (g x))"
  using assms
proof (induction xs arbitrary: ts)
  case (Cons x xs)
  from Cons.prems(1) obtain t ts' where t: "ts = t # ts'" by (cases ts) auto
  with Cons.prems(1) have m: "f x = Inr t" "map f xs = map Inr ts'" by simp_all
  have g: "t = g x" by (rule Cons.prems(2) [OF _ m(1)]) simp
  have "ts' = map g xs \<and> (\<forall>x \<in> set xs. f x = Inr (g x))"
    by (rule Cons.IH [OF m(2)], rule Cons.prems(2)) simp_all
  with t m(1) g show ?case by simp
qed simp

lemma write_emit: "write_canonical v = Inr s \<Longrightarrow> s = emit v"
proof (induction v arbitrary: s)
  case (V_Array vs)
  then obtain ts where ts: "map write_canonical vs = map Inr ts" "s = counted (CHR ''a'') (length vs) @ concat ts"
    by (auto simp: res_bind_eq_Inr first_fault_Inr)
  from all_through [OF V_Array.IH ts(1)] ts(2) show ?case by simp
next
  case (V_Record kvs)
  let ?ks = "sort_key fst kvs"
  let ?w = "\<lambda>p. res_bind (write_canonical (snd p)) (\<lambda>t. Inr (sized (CHR ''k'') (fst p) @ t))"
  from V_Record.prems obtain ts where ts: "map ?w ?ks = map Inr ts" "s = counted (CHR ''o'') (length kvs) @ concat ts"
    by (auto simp: res_bind_eq_Inr first_fault_Inr sort_key_map_prod comp_def case_prod_beta)
  have "t = sized (CHR ''k'') (fst p) @ emit (snd p)" if "p \<in> set ?ks" "?w p = Inr t" for p t
    using that V_Record.IH [of p "snd p"] by (auto simp: res_bind_eq_Inr snds.simps split: prod.splits)
  from all_through [OF this ts(1)] ts(2) show ?case by (simp add: sort_key_map_prod comp_def case_prod_beta)
qed simp_all

lemma canonical_key_emit:
  assumes "canonical_key ps = Inr k"
  shows "k = concat (map emit ps) \<and> (\<forall>p \<in> set ps. write_canonical p = Inr (emit p))"
proof -
  from assms obtain ts where ts: "map write_canonical ps = map Inr ts" "k = concat ts"
    by (auto simp: canonical_key_def res_bind_eq_Inr first_fault_Inr)
  from all_through [OF write_emit ts(1)] ts(2) show ?thesis by simp
qed


subsection \<open>Every node carries its own length\<close>

lemma sep_unique: "c \<notin> set p \<Longrightarrow> c \<notin> set q \<Longrightarrow> p @ c # s = q @ c # t \<Longrightarrow> p = q \<and> s = t"
proof (induction p arbitrary: q)
  case Nil
  then show ?case by (cases q) auto
next
  case (Cons a p)
  then show ?case by (cases q) auto
qed

lemma counted_unique: "counted c m @ x = counted c n @ y \<Longrightarrow> m = n \<and> x = y"
  using sep_unique [of "CHR '':''" "show_nat m" "show_nat n" x y] not_digit_not_in_show [of "CHR '':''"]
  by (simp add: counted_def is_digit_def)

lemma sized_unique: "sized c s @ x = sized c t @ y \<Longrightarrow> s = t \<and> x = y"
proof -
  assume "sized c s @ x = sized c t @ y"
  then have "length s = length t" "s @ x = t @ y"
    using counted_unique [of c "length s" "s @ x" "length t" "t @ y"] by (simp_all add: sized_def counted_def)
  then show ?thesis by simp
qed

lemma sized_inject: "sized c s = sized c t \<longleftrightarrow> s = t"
  using sized_unique [of c s "[]" t "[]"] by auto

lemma array_written:
  assumes "write_canonical (V_Array vs) = Inr s" "v \<in> set vs"
  shows "write_canonical v = Inr (emit v)"
proof -
  from assms(1) obtain ts where "map write_canonical vs = map Inr ts" by (auto simp: res_bind_eq_Inr first_fault_Inr)
  from all_through [OF write_emit this] assms(2) show ?thesis by simp
qed

lemma record_written:
  assumes "write_canonical (V_Record kvs) = Inr s" "p \<in> set kvs"
  shows "write_canonical (snd p) = Inr (emit (snd p))"
proof -
  let ?w = "\<lambda>p. res_bind (write_canonical (snd p)) (\<lambda>t. Inr (sized (CHR ''k'') (fst p) @ t))"
  from assms(1) obtain ts where ts: "map ?w (sort_key fst kvs) = map Inr ts"
    by (auto simp: res_bind_eq_Inr first_fault_Inr sort_key_map_prod comp_def case_prod_beta)
  have "set (map ?w (sort_key fst kvs)) = Inr ` set ts" by (simp only: ts list.set_map)
  moreover have "?w p \<in> set (map ?w (sort_key fst kvs))" using assms(2) by simp
  ultimately obtain t where "?w p = Inr t" by auto
  then show ?thesis by (auto simp: res_bind_eq_Inr dest: write_emit)
qed

lemma pieces_unique:
  assumes "\<And>a b x y. a \<in> set as \<Longrightarrow> b \<in> set bs \<Longrightarrow> enc a @ x = enc b @ y \<Longrightarrow> key a = key b \<and> x = y" "length as = length bs"
    "concat (map enc as) @ x = concat (map enc bs) @ y"
  shows "map key as = map key bs \<and> x = y"
  using assms(2,1,3)
proof (induction as bs rule: list_induct2)
  case (Cons a as b bs)
  have h: "key a = key b \<and> concat (map enc as) @ x = concat (map enc bs) @ y"
    by (rule Cons.prems(1)) (use Cons.prems(2) in simp_all)
  have "map key as = map key bs \<and> x = y"
  proof (rule Cons.IH)
    show "key a = key b \<and> x = y" if "a \<in> set as" "b \<in> set bs" "enc a @ x = enc b @ y" for a b x y
      by (rule Cons.prems(1) [OF _ _ that(3)]) (simp_all add: that)
  qed (use h in simp)
  with h show ?case by simp
qed simp

lemma key_number_inject: "m \<noteq> Other_Number ''-0'' \<Longrightarrow> n \<noteq> Other_Number ''-0'' \<Longrightarrow> key_number m = key_number n \<Longrightarrow> m = n"
  by (cases m; cases n) simp_all

definition written :: "js_value \<Rightarrow> bool" where
  "written v \<longleftrightarrow> write_canonical v = Inr (emit v) \<and> numbers_ok v"

lemma written_array: "written (V_Array vs) \<Longrightarrow> v \<in> set vs \<Longrightarrow> written v"
  unfolding written_def by (auto dest: array_written simp: list_all_iff simp del: write_canonical.simps)

lemma written_record: "written (V_Record kvs) \<Longrightarrow> p \<in> set kvs \<Longrightarrow> written (snd p)"
  unfolding written_def by (auto dest: record_written simp: list_all_iff simp del: write_canonical.simps)

lemmas node_text = written_def sized_def counted_def

lemma emit_unique: "written v \<Longrightarrow> written w \<Longrightarrow> emit v @ x = emit w @ y \<Longrightarrow> sorted_value v = sorted_value w \<and> x = y"
proof (induction v arbitrary: w x y)
  case (V_Number n)
  then show ?case
  proof (cases w)
    case (V_Number m)
    then show ?thesis using V_Number.prems sized_unique [of _ "key_number n" x "key_number m" y] key_number_inject [of n m]
      by (simp add: written_def)
  qed (simp_all add: node_text split: if_splits)
next
  case (V_String n)
  then show ?case
  proof (cases w)
    case (V_String m)
    then show ?thesis using V_String.prems sized_unique [of _ n x m y] by simp
  qed (simp_all add: node_text split: if_splits)
next
  case (V_Array vs)
  then show ?case
  proof (cases w)
    case (V_Array ws)
    have e: "length vs = length ws" "concat (map emit vs) @ x = concat (map emit ws) @ y"
      using counted_unique [of _ "length vs" "concat (map emit vs) @ x"] V_Array.prems(3) V_Array by auto
    have "map sorted_value vs = map sorted_value ws \<and> x = y"
    proof (rule pieces_unique [OF _ e])
      show "sorted_value a = sorted_value b \<and> x = y" if "a \<in> set vs" "b \<in> set ws" "emit a @ x = emit b @ y" for a b x y
        using V_Array.IH [OF that(1) written_array [OF V_Array.prems(1) that(1)] written_array that(3)] V_Array.prems(2) V_Array that(2)
        by blast
    qed
    with V_Array show ?thesis by simp
  qed (simp_all add: node_text split: if_splits)
next
  case (V_Record kvs)
  then show ?case
  proof (cases w)
    case (V_Record ls)
    let ?enc = "\<lambda>p. sized (CHR ''k'') (fst p) @ emit (snd p)" and ?key = "\<lambda>p. (fst p, sorted_value (snd p))"
    have e: "length kvs = length ls" "concat (map ?enc (sort_key fst kvs)) @ x = concat (map ?enc (sort_key fst ls)) @ y"
      using counted_unique [of _ "length kvs"] V_Record.prems(3) V_Record
      by (auto simp: sort_key_map_prod comp_def case_prod_beta)
    have "map ?key (sort_key fst kvs) = map ?key (sort_key fst ls) \<and> x = y"
    proof (rule pieces_unique [OF _ _ e(2)])
      show "?key p = ?key q \<and> x = y" if "p \<in> set (sort_key fst kvs)" "q \<in> set (sort_key fst ls)" "?enc p @ x = ?enc q @ y" for p q x y
      proof -
        have k: "fst p = fst q" "emit (snd p) @ x = emit (snd q) @ y"
          using sized_unique [of _ "fst p" "emit (snd p) @ x" "fst q" "emit (snd q) @ y"] that(3) by simp_all
        have "written (snd p)" "written (snd q)" using written_record V_Record.prems(1,2) V_Record that(1,2) by simp_all
        with V_Record.IH [OF _ _ this k(2)] that(1) k(1) show ?thesis by (auto simp: snds.simps)
      qed
    qed (simp add: e(1))
    with V_Record show ?thesis by (simp add: sort_key_map_prod) (simp add: map_prod_def case_prod_beta')
  qed (simp_all add: node_text split: if_splits)
qed (case_tac w; simp add: node_text split: if_splits)+


text \<open>A text depends on the sorted value only.\<close>

lemma emit_sorted: "emit (sorted_value v) = emit v"
proof (induction v)
  case (V_Array vs)
  then have "map (emit \<circ> sorted_value) vs = map emit vs" by simp
  then show ?case by (simp only: emit.simps sorted_value.simps list.map_comp length_map)
next
  case (V_Record kvs)
  let ?m = "\<lambda>f. map (map_prod (\<lambda>k. k) f)"
  have i: "sort_key fst (sort_key fst kvs) = sort_key fst kvs" by (rule sort_key_id_if_sorted) simp
  have "?m emit (?m sorted_value (sort_key fst kvs)) = ?m emit (sort_key fst kvs)"
    using V_Record.IH by (auto simp: snds.simps)
  then have "sort_key fst (?m emit (sort_key fst (?m sorted_value kvs))) = sort_key fst (?m emit kvs)"
    by (simp only: sort_key_map_prod i)
  then show ?case by (simp only: emit.simps sorted_value.simps length_sort length_map)
qed simp_all

lemma emit_eq: "written v \<Longrightarrow> written w \<Longrightarrow> emit v = emit w \<longleftrightarrow> sorted_value v = sorted_value w"
  using emit_unique [of v w "[]" "[]"] emit_sorted by (metis append_Nil2)

lemma emit_ne: "written v \<Longrightarrow> emit v \<noteq> []"
  by (cases v) (auto simp: node_text)

lemma parts_unique:
  assumes "list_all written ps" "list_all written qs"
  shows "concat (map emit ps) = concat (map emit qs) \<longleftrightarrow> map sorted_value ps = map sorted_value qs"
proof
  assume "concat (map emit ps) = concat (map emit qs)"
  then show "map sorted_value ps = map sorted_value qs" using assms
  proof (induction ps arbitrary: qs)
    case Nil
    then show ?case using emit_ne by (cases qs) auto
  next
    case (Cons p ps)
    then obtain q qs' where q: "qs = q # qs'" using emit_ne by (cases qs) auto
    with Cons emit_unique [of p q "concat (map emit ps)" "concat (map emit qs')"] show ?case by simp
  qed
next
  assume m: "map sorted_value ps = map sorted_value qs"
  have "map emit ps = map emit (map sorted_value ps)" "map emit qs = map emit (map sorted_value qs)" by (simp_all add: emit_sorted)
  then show "concat (map emit ps) = concat (map emit qs)" by (simp only: m)
qed

lemma canonical_written: "canonical_key ps = Inr k \<Longrightarrow> list_all numbers_ok ps \<Longrightarrow> list_all written ps \<and> k = concat (map emit ps)"
  using canonical_key_emit by (auto simp: list_all_iff written_def)

lemma qualified_keys:
  assumes "watch_key m t a = Inr b" "watch_key m' t' a' = Inr b'" "numbers_ok (V_Number t)" "numbers_ok (V_Number t')" "numbers_ok a" "numbers_ok a'"
  shows "\<exists>k. qualify_watch_key b p = Inr k \<and> k \<noteq> b' \<and> (\<forall>p'. qualify_watch_key b' p' = Inr k \<longleftrightarrow> b = b' \<and> p = p')"
proof -
  let ?ps = "[V_String m, V_Number t, a]" and ?qs = "[V_String m', V_Number t', a']"
  let ?who = "\<lambda>p. case p of None \<Rightarrow> V_Undefined | Some p \<Rightarrow> V_String p"
  have w: "list_all written ?ps" "list_all written ?qs" and b: "b = concat (map emit ?ps)" "b' = concat (map emit ?qs)"
    using assms canonical_written [of ?ps b] canonical_written [of ?qs b'] by (simp_all add: watch_key_def)
  have q: "qualify_watch_key c p = Inr (c @ CHR ''P'' # emit (?who p))" for c p
    by (simp add: qualify_watch_key_def canonical_key_def split: option.split)
  have who: "emit (?who p) = emit (?who p') \<longleftrightarrow> p = p'" for p p'
    by (cases p; cases p') (simp_all add: sized_inject, simp_all add: sized_def)
  have split: "b = b' \<and> x = y" if "b @ x = b' @ y" for x y
  proof -
    have "map sorted_value ?ps = map sorted_value ?qs \<and> x = y"
    proof (rule pieces_unique)
      show "sorted_value v = sorted_value u \<and> x = y" if "v \<in> set ?ps" "u \<in> set ?qs" "emit v @ x = emit u @ y" for v u x y
        using emit_unique [OF _ _ that(3)] that(1,2) w by (auto simp: list_all_iff)
    qed (use that b in simp_all)
    with parts_unique [OF w] b show ?thesis by simp
  qed
  have "b @ CHR ''P'' # emit (?who p) \<noteq> b'" using split [of "CHR ''P'' # emit (?who p)" "[]"] by auto
  moreover have "b' @ CHR ''P'' # emit (?who p') = b @ CHR ''P'' # emit (?who p) \<longleftrightarrow> b = b' \<and> p = p'" for p'
    using split [of "CHR ''P'' # emit (?who p)" "CHR ''P'' # emit (?who p')"] who by fastforce
  ultimately show ?thesis unfolding q by blast
qed

lemma qualify_total: "\<exists>k. qualify_watch_key b p = Inr k"
  by (simp add: qualify_watch_key_def canonical_key_def split: option.split)

lemma canonical_exact:
  assumes "canonical_key ps = Inr k" "canonical_key qs = Inr k'" "list_all numbers_ok ps" "list_all numbers_ok qs"
  shows "k = k' \<longleftrightarrow> map sorted_value ps = map sorted_value qs"
  using parts_unique canonical_written [OF assms(1,3)] canonical_written [OF assms(2,4)] by simp

subsection \<open>Properties\<close>

text \<open>
  The key of a shared watch tells subscriptions apart and nothing more: two lists of encoded
  values have the same key exactly when they are the same values, records compared by their fields whatever order the
  fields were written in. No argument can forge another's key by what its strings contain.
\<close>

theorem canonical_key_exact:
  assumes "canonical_key ps = Inr k" "canonical_key qs = Inr k'" "list_all numbers_ok ps" "list_all numbers_ok qs"
  shows "k = k' \<longleftrightarrow> map sorted_value ps = map sorted_value qs"
  by (rule canonical_exact [OF assms])

text \<open>
  A key qualified by a principal is never a plain key, and two qualified keys are equal exactly when the plain key and
  the principal are, an absent principal being no principal's name. Entries of different identities cannot meet in the watch map.
\<close>

theorem qualified_keys_apart:
  assumes "watch_key m t a = Inr b" "watch_key m' t' a' = Inr b'" "numbers_ok (V_Number t)" "numbers_ok (V_Number t')" "numbers_ok a" "numbers_ok a'"
  shows "\<exists>k. qualify_watch_key b p = Inr k \<and> k \<noteq> b' \<and> (\<forall>p'. qualify_watch_key b' p' = Inr k \<longleftrightarrow> b = b' \<and> p = p')"
  by (rule qualified_keys [OF assms])


text \<open>
  A relay never merges two identities on a stream of an undeclared read: two subscriptions that share a
  coalesced stream agree on actor, method, throttle and arguments, on whether the read is declared independent of the
  principal, and, unless it is, on the principal.
\<close>

theorem coalesced_streams_apart:
  assumes "coalesced_key i m t a sh p = Inr k" "coalesced_key i' m' t' a' sh' p' = Inr k"
    "numbers_ok (V_Number t)" "numbers_ok (V_Number t')" "numbers_ok a" "numbers_ok a'"
  shows "i = i' \<and> m = m' \<and> t = t' \<and> sorted_value a = sorted_value a' \<and> sh = sh' \<and> (sh \<or> p = p')"
proof -
  let ?who = "\<lambda>sh p. if sh then V_Bool True else (case p of None \<Rightarrow> V_Null | Some p \<Rightarrow> V_String p)"
  have "map sorted_value [V_String i, V_String m, V_Number t, a, ?who sh p] = map sorted_value [V_String i', V_String m', V_Number t', a', ?who sh' p']"
    using assms by (intro canonical_exact [THEN iffD1, of _ k _ k]) (auto simp: coalesced_key_def split: option.split)
  then show ?thesis by (auto split: if_splits option.splits)
qed

definition composite :: "js_value \<Rightarrow> bool" where
  "composite v \<longleftrightarrow> (case v of V_Array vs \<Rightarrow> True | V_Record kvs \<Rightarrow> True | V_Instance c \<Rightarrow> True | V_Other t \<Rightarrow> True | _ \<Rightarrow> False)"

text \<open>
  A distinct watch never swallows a change of a result: two results have one fingerprint exactly when
  they are the same primitive, or both go through the codec and the wire would carry the same text for them. The two
  zeros, a bigint and a number, a number and its text all have different ones.
\<close>

theorem fingerprint_exact:
  assumes "watch_fingerprint wire v = Some s" "watch_fingerprint wire w = Some s'" "numbers_ok v" "numbers_ok w"
  shows "s = s' \<longleftrightarrow> v = w \<or> composite v \<and> composite w \<and> wire v = wire w"
proof (cases "composite v \<or> composite w")
  case True
  then show ?thesis using assms(1,2)
    by (cases v; cases w) (auto simp: composite_def watch_fingerprint_def split: if_splits)
next
  case False
  then show ?thesis using assms key_number_inject
    by (cases v; cases w) (auto simp: composite_def watch_fingerprint_def split: if_splits)
qed

lemma first_fault_units: "first_fault (map f xs) = Inr ts \<Longrightarrow> x \<in> set xs \<Longrightarrow> \<exists>t. f x = Inr t"
proof -
  assume "first_fault (map f xs) = Inr ts" "x \<in> set xs"
  then have "f x \<in> set (map Inr ts)" by (metis first_fault_Inr image_eqI list.set_map)
  then show ?thesis by auto
qed

text \<open>
  A declaration that passes the check says something the readers see: every entry of it belongs to a method that is no stream
  and has no reserved name, and turns off distinct deliveries or lets identities share. A method without an entry keeps both defaults.
\<close>

theorem valid_declarations_take_effect:
  assumes "validate_watch_declarations streams methods (Watches m) = Inr warned"
  shows "(if jhas m k then (\<not> declares_distinct (Watches m) k \<or> declares_principal_independent (Watches m) k) \<and> k \<notin> set streams \<and> \<not> starts_with k ''$''
          else declares_distinct (Watches m) k \<and> \<not> declares_principal_independent (Watches m) k)
     \<and> (k \<in> set warned \<longleftrightarrow> jhas m k \<and> k \<notin> set methods)"
proof -
  from assms(1) obtain ts where c: "first_fault (map (check_watch streams) m) = Inr ts" and w: "warned = filter (\<lambda>k. k \<notin> set methods) (jkeys m)"
    by (auto simp: validate_watch_declarations_def res_bind_eq_Inr)
  have "(\<not> declares_distinct (Watches m) k \<or> declares_principal_independent (Watches m) k) \<and> k \<notin> set streams \<and> \<not> starts_with k ''$''"
    if d: "jget m k = Some d" for d
  proof -
    obtain t where "check_watch streams (k, d) = Inr t" using first_fault_units [OF c map_of_SomeD [OF d]] by blast
    then have wf: "well_formed_decl d" and rest: "k \<notin> set streams" "\<not> starts_with k ''$''" by (auto simp: check_watch_def split: if_splits)
    from wf obtain f fs where fs: "d = Flags (f # fs)"
      "fst f = ''principalIndependent'' \<and> snd f = F_True \<or> fst f = ''distinct'' \<and> snd f = F_False"
      by (auto simp: well_formed_decl_def neq_Nil_conv split: watch_decl.splits)
    then have "flag_of d ''principalIndependent'' = Some F_True \<or> flag_of d ''distinct'' = Some F_False"
      by (cases f) (auto simp: flag_of_def)
    with d rest show ?thesis by (auto simp: declares_distinct_def declares_principal_independent_def)
  qed
  moreover have "declares_distinct (Watches m) k \<and> \<not> declares_principal_independent (Watches m) k" if "jget m k = None"
    using that by (simp add: declares_distinct_def declares_principal_independent_def)
  moreover have "k \<in> set warned \<longleftrightarrow> jhas m k \<and> k \<notin> set methods" by (auto simp: w jhas_iff_key)
  ultimately show ?thesis by (cases "jget m k") (simp_all add: jhas_def)
qed

subsection \<open>Witnesses\<close>

definition some_args :: "js_value list" where
  "some_args = [V_Record [(''b'', V_Number (Other_Number ''1'')), (''a'', V_Array [V_Null])], V_String ''1:x'']"

theorem canonical_key_exact_witness:
  "canonical_key some_args = canonical_key [V_Record [(''a'', V_Array [V_Null]), (''b'', V_Number (Other_Number ''1''))], V_String ''1:x'']"
proof -
  let ?qs = "[V_Record [(''a'', V_Array [V_Null]), (''b'', V_Number (Other_Number ''1''))], V_String ''1:x'']"
  have k: "canonical_key some_args = Inr ''o2:k1:aa1:zk1:bn1:1s3:1:x''" "canonical_key ?qs = Inr ''o2:k1:aa1:zk1:bn1:1s3:1:x''" by code_simp+
  have n: "list_all numbers_ok some_args" "list_all numbers_ok ?qs" "map sorted_value some_args = map sorted_value ?qs" by code_simp+
  from canonical_key_exact [OF k n(1,2)] n(3) k show ?thesis by simp
qed

theorem qualified_keys_apart_witness:
  "\<exists>k. qualify_watch_key ''s5:totaln2:50a0:'' None = Inr k \<and> k \<noteq> ''s5:totaln2:50a0:''"
proof -
  have k: "watch_key ''total'' (Other_Number ''50'') (V_Array []) = Inr ''s5:totaln2:50a0:''" by code_simp
  from qualified_keys_apart [OF k k] show ?thesis by auto
qed

theorem coalesced_streams_apart_witness:
  "coalesced_key ''c/1'' ''mine'' (Other_Number ''50'') (V_Array []) False (Some ''ada'')
     \<noteq> coalesced_key ''c/1'' ''mine'' (Other_Number ''50'') (V_Array []) False (Some ''bob'')"
proof
  let ?k = "\<lambda>p. coalesced_key ''c/1'' ''mine'' (Other_Number ''50'') (V_Array []) False (Some p)"
  have k: "?k ''ada'' = Inr ''s3:c/1s4:minen2:50a0:s3:ada''" by code_simp
  assume "?k ''ada'' = ?k ''bob''"
  with k have "?k ''bob'' = Inr ''s3:c/1s4:minen2:50a0:s3:ada''" by simp
  from coalesced_streams_apart [OF k this] show False by simp
qed

theorem fingerprint_exact_witness:
  "watch_fingerprint (\<lambda>v. None) (V_Bigint 1) \<noteq> watch_fingerprint (\<lambda>v. None) (V_Number (Other_Number ''1''))"
proof -
  have s: "watch_fingerprint (\<lambda>v. None) (V_Bigint 1) = Some ''b:1''" "watch_fingerprint (\<lambda>v. None) (V_Number (Other_Number ''1'')) = Some ''n:1''"
    by code_simp+
  from fingerprint_exact [OF s] s show ?thesis by simp
qed

theorem valid_declarations_take_effect_witness:
  "declares_principal_independent (Watches [(''total'', Flags [(''principalIndependent'', F_True)])]) ''total''"
proof -
  let ?m = "[(''total'', Flags [(''principalIndependent'', F_True)])]"
  have v: "validate_watch_declarations [''feed''] [''total''] (Watches ?m) = Inr []" by code_simp
  have "declares_distinct (Watches ?m) ''total''" "jhas ?m ''total''" by code_simp+
  with valid_declarations_take_effect [OF v, of "''total''"] show ?thesis by simp
qed

end
