(* ===== verification/Watch_Entries.thy ===== *)
theory Watch_Entries
  imports Machines Watch_Keys
begin

section \<open>Who shares a watch\<close>

text \<open>
  The watch table of an activation, \<open>openWatch\<close>, \<open>#resolveWatch\<close> and \<open>#createWatchEntry\<close> of \<open>host/activation.ts\<close>, with the
  getter of \<open>ctx.principal\<close>: an entry is one loop that reads under its creator's principal for all its subscribers, until a read is seen
  consulting the principal. A read is a function of the base key, the principal it runs under and the actor's state; what a subscriber's
  queue receives is logged. A read that throws ends the loop; it and the fan-out behind an entry are in \<open>Watch_Loop\<close>.
\<close>

record 'v read_run =
  rr_touched :: bool
  rr_wrote :: bool
  rr_value :: 'v

datatype 'v shown = Shown 'v | Declared_Lie | Self_Writing

record wclient =
  wc_base :: string
  wc_who :: "string option"
  wc_at :: "nat option"
  wc_over :: bool

record 'v wentry =
  we_base :: string
  we_who :: "string option"
  we_plain :: bool
  we_settled :: bool
  we_subs :: "nat list"
  we_last :: "'v shown option"
  we_pending :: "'v shown option"
  we_violated :: bool
  we_wrote :: bool

record 'v watch_table =
  wt_map :: "(string, nat) jmap"
  wt_entries :: "'v wentry list"
  wt_dependent :: "string list"
  wt_clients :: "wclient list"
  wt_log :: "(nat \<times> 'v shown) list"

subsection \<open>Keys\<close>

definition slot_key :: "bool \<Rightarrow> string \<Rightarrow> string option \<Rightarrow> string" where
  "slot_key dependent base who = (if dependent then (case qualify_watch_key base who of Inr k \<Rightarrow> k | Inl e \<Rightarrow> []) else base)"

definition entry_key :: "'v wentry \<Rightarrow> string" where
  "entry_key e = slot_key (\<not> we_plain e) (we_base e) (we_who e)"

definition is_base_key :: "string \<Rightarrow> bool" where
  "is_base_key b \<longleftrightarrow> (\<exists>m t a. numbers_ok (V_Number t) \<and> numbers_ok a \<and> watch_key m t a = Inr b)"

subsection \<open>Operations\<close>

definition join_entry :: "nat \<Rightarrow> nat \<Rightarrow> 'v watch_table \<Rightarrow> 'v watch_table" where
  "join_entry c i t = (let e = wt_entries t ! i in
     t\<lparr>wt_entries := (wt_entries t)[i := e\<lparr>we_subs := we_subs e @ [c]\<rparr>],
       wt_clients := (wt_clients t)[c := (wt_clients t ! c)\<lparr>wc_at := Some i\<rparr>],
       wt_log := (case we_last e of None \<Rightarrow> wt_log t | Some v \<Rightarrow> (c, v) # wt_log t)\<rparr>)"

definition new_entry :: "string \<Rightarrow> string option \<Rightarrow> bool \<Rightarrow> 'v wentry" where
  "new_entry base who qual = \<lparr>we_base = base, we_who = who, we_plain = \<not> qual, we_settled = qual, we_subs = [],
     we_last = None, we_pending = None, we_violated = False, we_wrote = False\<rparr>"

text \<open>\<open>attach\<close>: find the entry this principal belongs on, or make it.\<close>

definition attach_client :: "nat \<Rightarrow> 'v watch_table \<Rightarrow> 'v watch_table" where
  "attach_client c t = (let base = wc_base (wt_clients t ! c); who = wc_who (wt_clients t ! c);
       dependent = base \<in> set (wt_dependent t); key = slot_key dependent base who
     in case jget (wt_map t) key of
          Some i \<Rightarrow> join_entry c i t
        | None \<Rightarrow> join_entry c (length (wt_entries t))
            (t\<lparr>wt_entries := wt_entries t @ [new_entry base who dependent], wt_map := jset (wt_map t) key (length (wt_entries t))\<rparr>))"

definition open_watch :: "string \<Rightarrow> string option \<Rightarrow> 'v watch_table \<Rightarrow> 'v watch_table" where
  "open_watch base who t = attach_client (length (wt_clients t))
     (t\<lparr>wt_clients := wt_clients t @ [\<lparr>wc_base = base, wc_who = who, wc_at = None, wc_over = False\<rparr>]\<rparr>)"

text \<open>The drop of subscribers from an entry; the entry leaves the map, by its own key, when the last one goes.\<close>

definition drop_subs :: "(nat \<Rightarrow> bool) \<Rightarrow> nat \<Rightarrow> 'v watch_table \<Rightarrow> 'v watch_table" where
  "drop_subs P i t = (let e = wt_entries t ! i; stay = filter (\<lambda>c. \<not> P c) (we_subs e) in
     t\<lparr>wt_entries := (wt_entries t)[i := e\<lparr>we_subs := stay\<rparr>],
       wt_map := (if we_subs e \<noteq> [] \<and> stay = [] then jdel (wt_map t) (entry_key e) else wt_map t),
       wt_clients := map (\<lambda>(c, cl). if P c \<and> c \<in> set (we_subs e) then cl\<lparr>wc_at := None\<rparr> else cl) (enumerate 0 (wt_clients t))\<rparr>)"

definition leave_watch :: "nat \<Rightarrow> 'v watch_table \<Rightarrow> 'v watch_table" where
  "leave_watch c t = (let t = (case wc_at (wt_clients t ! c) of None \<Rightarrow> t | Some i \<Rightarrow> drop_subs (\<lambda>d. d = c) i t)
     in t\<lparr>wt_clients := (wt_clients t)[c := (wt_clients t ! c)\<lparr>wc_over := True\<rparr>]\<rparr>)"

text \<open>
  A read of an entry. The getter marks the base key, or fails the read for good where the method is declared
  independent of the principal; a second read in a row that wrote fails.
\<close>

definition read_entry :: "'v read_run \<Rightarrow> bool \<Rightarrow> nat \<Rightarrow> 'v watch_table \<Rightarrow> 'v watch_table" where
  "read_entry r declared i t = (let e = wt_entries t ! i; violated = we_violated e \<or> declared \<and> rr_touched r;
       twice = rr_wrote r \<and> we_wrote e
     in t\<lparr>wt_dependent := (if rr_touched r \<and> \<not> declared then we_base e # wt_dependent t else wt_dependent t),
          wt_entries := (wt_entries t)[i := e\<lparr>we_violated := violated,
            we_wrote := (if violated \<or> twice then we_wrote e else rr_wrote r),
            we_pending := Some (if violated then Declared_Lie else if twice then Self_Writing else Shown (rr_value r))\<rparr>]\<rparr>)"

text \<open>The sweep in the read's \<open>finally\<close>, then the push.\<close>

definition sweep_entry :: "nat \<Rightarrow> 'v watch_table \<Rightarrow> 'v watch_table" where
  "sweep_entry i t = (let e = wt_entries t ! i in
     if \<not> we_settled e \<and> we_base e \<in> set (wt_dependent t)
     then (let t = drop_subs (\<lambda>c. wc_who (wt_clients t ! c) \<noteq> we_who e) i t
           in t\<lparr>wt_entries := (wt_entries t)[i := (wt_entries t ! i)\<lparr>we_settled := True\<rparr>]\<rparr>)
     else t)"

definition push_entry :: "'v shown \<Rightarrow> nat \<Rightarrow> 'v watch_table \<Rightarrow> 'v watch_table" where
  "push_entry v i t = (let e = wt_entries t ! i in
     t\<lparr>wt_entries := (wt_entries t)[i := e\<lparr>we_last := Some v, we_pending := None\<rparr>], wt_log := map (\<lambda>c. (c, v)) (we_subs e) @ wt_log t\<rparr>)"

inductive table_step :: "(string \<Rightarrow> string option \<Rightarrow> 'st \<Rightarrow> 'v read_run) \<Rightarrow> (string \<Rightarrow> bool) \<Rightarrow> 'v watch_table \<Rightarrow> 'v watch_table \<Rightarrow> bool" for rd decl where
  opens: "is_base_key b \<Longrightarrow> table_step rd decl t (open_watch b who t)"
| reattaches: "c < length (wt_clients t) \<Longrightarrow> wc_at (wt_clients t ! c) = None \<Longrightarrow> \<not> wc_over (wt_clients t ! c)
    \<Longrightarrow> table_step rd decl t (attach_client c t)"
| leaves: "c < length (wt_clients t) \<Longrightarrow> table_step rd decl t (leave_watch c t)"
| reads: "i < length (wt_entries t) \<Longrightarrow> e = wt_entries t ! i \<Longrightarrow> we_pending e = None
    \<Longrightarrow> table_step rd decl t (read_entry (rd (we_base e) (we_who e) st) (decl (we_base e)) i t)"
| lands: "i < length (wt_entries t) \<Longrightarrow> we_pending (wt_entries t ! i) = Some v
    \<Longrightarrow> table_step rd decl t (push_entry v i (sweep_entry i t))"

definition table_start :: "'v watch_table \<Rightarrow> bool" where
  "table_start t \<longleftrightarrow> t = \<lparr>wt_map = [], wt_entries = [], wt_dependent = [], wt_clients = [], wt_log = []\<rparr>"

subsection \<open>The key space\<close>

text \<open>What the table relies on: a plain key and the keys qualified by a principal are all different.\<close>

locale key_space =
  fixes is_base :: "'k \<Rightarrow> bool" and qual :: "'k \<Rightarrow> 'p \<Rightarrow> 'k"
  assumes qualified_inject: "is_base b \<Longrightarrow> is_base b' \<Longrightarrow> qual b p = qual b' p' \<longleftrightarrow> b = b' \<and> p = p'"
    and qualified_not_base: "is_base b \<Longrightarrow> is_base b' \<Longrightarrow> qual b p \<noteq> b'"
begin

lemma slots_apart:
  "is_base b \<Longrightarrow> is_base b' \<Longrightarrow> (if q then qual b p else b) = (if q' then qual b' p' else b') \<longleftrightarrow> b = b' \<and> q = q' \<and> (q \<longrightarrow> p = p')"
  using qualified_inject [of b b' p p'] qualified_not_base [of b b' p] qualified_not_base [of b' b p'] by auto

end

interpretation watch_keys: key_space is_base_key "slot_key True"
proof
  fix b b' p p' assume "is_base_key b" "is_base_key b'"
  then obtain m t a m' t' a' where
    "watch_key m t a = Inr b" "numbers_ok (V_Number t)" "numbers_ok a"
    "watch_key m' t' a' = Inr b'" "numbers_ok (V_Number t')" "numbers_ok a'" unfolding is_base_key_def by blast
  then obtain k where k: "qualify_watch_key b p = Inr k" "k \<noteq> b'" "\<And>p'. qualify_watch_key b' p' = Inr k \<longleftrightarrow> b = b' \<and> p = p'"
    using qualified_keys [of m t a b m' t' a' b' p] by blast
  obtain k' where "qualify_watch_key b' p' = Inr k'" using qualify_total by blast
  with k show "slot_key True b p = slot_key True b' p' \<longleftrightarrow> b = b' \<and> p = p'" "slot_key True b p \<noteq> b'" 
    by (auto simp: slot_key_def)
qed


lemma slot_key_eq:
  "is_base_key b \<Longrightarrow> is_base_key b' \<Longrightarrow> slot_key q b p = slot_key q' b' p' \<longleftrightarrow> b = b' \<and> q = q' \<and> (q \<longrightarrow> p = p')"
  using watch_keys.slots_apart [of b b' q p q' p'] by (simp add: slot_key_def cong: if_cong)

subsection \<open>The invariant\<close>

text \<open>A read that does not consult the principal is the same under every principal, and a value is the view of a principal when some read under it gave it.\<close>

definition honest :: "(string \<Rightarrow> string option \<Rightarrow> 'st \<Rightarrow> 'v read_run) \<Rightarrow> bool" where
  "honest rd \<longleftrightarrow> (\<forall>b p st p'. \<not> rr_touched (rd b p st) \<longrightarrow> rd b p' st = rd b p st)"

definition own_view :: "(string \<Rightarrow> string option \<Rightarrow> 'st \<Rightarrow> 'v read_run) \<Rightarrow> string \<Rightarrow> string option \<Rightarrow> 'v shown \<Rightarrow> bool" where
  "own_view rd b p v \<longleftrightarrow> (case v of Shown x \<Rightarrow> \<exists>st. x = rr_value (rd b p st) | _ \<Rightarrow> True)"

definition views_ok :: "(string \<Rightarrow> string option \<Rightarrow> 'st \<Rightarrow> 'v read_run) \<Rightarrow> string set \<Rightarrow> 'v wentry \<Rightarrow> bool" where
  "views_ok rd dependent e \<longleftrightarrow> (\<forall>v p. we_last e = Some v \<or> we_pending e = Some v \<longrightarrow>
     p = we_who e \<or> we_base e \<notin> dependent \<longrightarrow> own_view rd (we_base e) p v)"

definition subs_ok :: "wclient list \<Rightarrow> nat \<Rightarrow> 'v wentry \<Rightarrow> bool" where
  "subs_ok clients i e \<longleftrightarrow> (\<forall>c \<in> set (we_subs e). c < length clients \<and> wc_base (clients ! c) = we_base e \<and> wc_at (clients ! c) = Some i
     \<and> (we_settled e \<longrightarrow> wc_who (clients ! c) = we_who e))"

definition entry_ok :: "(string \<Rightarrow> string option \<Rightarrow> 'st \<Rightarrow> 'v read_run) \<Rightarrow> 'v watch_table \<Rightarrow> nat \<Rightarrow> bool" where
  "entry_ok rd t i \<longleftrightarrow> (let e = wt_entries t ! i in
     is_base_key (we_base e) \<and> (\<not> we_plain e \<longrightarrow> we_settled e) \<and> (we_settled e \<longrightarrow> we_base e \<in> set (wt_dependent t))
     \<and> views_ok rd (set (wt_dependent t)) e \<and> (we_subs e \<noteq> [] \<longrightarrow> jget (wt_map t) (entry_key e) = Some i) \<and> subs_ok (wt_clients t) i e)"

definition watches_ok :: "(string \<Rightarrow> string option \<Rightarrow> 'st \<Rightarrow> 'v read_run) \<Rightarrow> 'v watch_table \<Rightarrow> bool" where
  "watches_ok rd t \<longleftrightarrow> (\<forall>i < length (wt_entries t). entry_ok rd t i)
     \<and> (\<forall>k i. jget (wt_map t) k = Some i \<longrightarrow> i < length (wt_entries t) \<and> k = entry_key (wt_entries t ! i))
     \<and> (\<forall>c < length (wt_clients t). is_base_key (wc_base (wt_clients t ! c))
          \<and> (\<forall>i. wc_at (wt_clients t ! c) = Some i \<longrightarrow> i < length (wt_entries t) \<and> c \<in> set (we_subs (wt_entries t ! i))))
     \<and> (\<forall>p \<in> set (wt_log t). fst p < length (wt_clients t) \<and> own_view rd (wc_base (wt_clients t ! fst p)) (wc_who (wt_clients t ! fst p)) (snd p))"

lemma watches_okD:
  assumes "watches_ok rd t"
  shows "i < length (wt_entries t) \<Longrightarrow> entry_ok rd t i"
    and "jget (wt_map t) k = Some i \<Longrightarrow> i < length (wt_entries t) \<and> k = entry_key (wt_entries t ! i)"
    and "c < length (wt_clients t) \<Longrightarrow> is_base_key (wc_base (wt_clients t ! c))"
    and "c < length (wt_clients t) \<Longrightarrow> wc_at (wt_clients t ! c) = Some i \<Longrightarrow> i < length (wt_entries t) \<and> c \<in> set (we_subs (wt_entries t ! i))"
    and "p \<in> set (wt_log t) \<Longrightarrow> fst p < length (wt_clients t) \<and> own_view rd (wc_base (wt_clients t ! fst p)) (wc_who (wt_clients t ! fst p)) (snd p)"
  using assms unfolding watches_ok_def by blast+

lemma watches_okI:
  assumes "\<And>i. i < length (wt_entries t) \<Longrightarrow> entry_ok rd t i"
    and "\<And>k i. jget (wt_map t) k = Some i \<Longrightarrow> i < length (wt_entries t) \<and> k = entry_key (wt_entries t ! i)"
    and "\<And>c. c < length (wt_clients t) \<Longrightarrow> is_base_key (wc_base (wt_clients t ! c))"
    and "\<And>c i. c < length (wt_clients t) \<Longrightarrow> wc_at (wt_clients t ! c) = Some i \<Longrightarrow> i < length (wt_entries t) \<and> c \<in> set (we_subs (wt_entries t ! i))"
    and "\<And>p. p \<in> set (wt_log t) \<Longrightarrow> fst p < length (wt_clients t) \<and> own_view rd (wc_base (wt_clients t ! fst p)) (wc_who (wt_clients t ! fst p)) (snd p)"
  shows "watches_ok rd t"
  using assms unfolding watches_ok_def by blast

lemma entry_okD:
  assumes "entry_ok rd t i"
  shows "is_base_key (we_base (wt_entries t ! i))" "\<not> we_plain (wt_entries t ! i) \<Longrightarrow> we_settled (wt_entries t ! i)"
    "we_settled (wt_entries t ! i) \<Longrightarrow> we_base (wt_entries t ! i) \<in> set (wt_dependent t)"
    "views_ok rd (set (wt_dependent t)) (wt_entries t ! i)"
    "we_subs (wt_entries t ! i) \<noteq> [] \<Longrightarrow> jget (wt_map t) (entry_key (wt_entries t ! i)) = Some i"
    "subs_ok (wt_clients t) i (wt_entries t ! i)"
  using assms by (simp_all add: entry_ok_def Let_def)

text \<open>The operations change few of the fields of an entry.\<close>

lemma views_fields [simp]:
  "views_ok rd D (e\<lparr>we_subs := s\<rparr>) = views_ok rd D e" "views_ok rd D (e\<lparr>we_settled := b\<rparr>) = views_ok rd D e"
  by (simp_all add: views_ok_def)

lemma key_fields [simp]:
  "entry_key (e\<lparr>we_subs := s\<rparr>) = entry_key e" "entry_key (e\<lparr>we_settled := b\<rparr>) = entry_key e"
  "entry_key (e\<lparr>we_last := l, we_pending := q\<rparr>) = entry_key e" "entry_key (e\<lparr>we_violated := x, we_wrote := y, we_pending := q\<rparr>) = entry_key e"
  "entry_key (e\<lparr>we_pending := q, we_violated := x, we_wrote := y\<rparr>) = entry_key e"
  by (simp_all add: entry_key_def)

lemma entry_key_new: "entry_key (new_entry b w d) = slot_key d b w"
  by (simp add: entry_key_def new_entry_def)

lemma not_sub: "watches_ok rd t \<Longrightarrow> j < length (wt_entries t) \<Longrightarrow> wc_at (wt_clients t ! c) \<noteq> Some j \<Longrightarrow> c \<notin> set (we_subs (wt_entries t ! j))"
  using entry_okD(6) [OF watches_okD(1)] unfolding subs_ok_def by blast

lemma entry_join_ok:
  assumes "watches_ok rd t" "i < length (wt_entries t)" "c < length (wt_clients t)" "wc_at (wt_clients t ! c) = None"
    "jget (wt_map t) (entry_key (wt_entries t ! i)) = Some i" "we_base (wt_entries t ! i) = wc_base (wt_clients t ! c)"
    "we_settled (wt_entries t ! i) \<or> wc_base (wt_clients t ! c) \<in> set (wt_dependent t) \<longrightarrow> we_who (wt_entries t ! i) = wc_who (wt_clients t ! c)"
  shows "watches_ok rd (join_entry c i t)"
proof -
  let ?e = "wt_entries t ! i" and ?t = "join_entry c i t"
  have f: "wt_entries ?t = (wt_entries t)[i := ?e\<lparr>we_subs := we_subs ?e @ [c]\<rparr>]" "wt_map ?t = wt_map t" "wt_dependent ?t = wt_dependent t"
    "wt_clients ?t = (wt_clients t)[c := (wt_clients t ! c)\<lparr>wc_at := Some i\<rparr>]"
    "wt_log ?t = (case we_last ?e of None \<Rightarrow> wt_log t | Some v \<Rightarrow> (c, v) # wt_log t)"
    by (simp_all add: join_entry_def Let_def)
  have notin: "c \<notin> set (we_subs (wt_entries t ! j))" if "j < length (wt_entries t)" for j
    using not_sub [OF assms(1) that] assms(4) by simp
  have "entry_ok rd ?t j" if j: "j < length (wt_entries t)" for j
  proof (cases "j = i")
    case True
    have e: "entry_ok rd t i" by (rule watches_okD(1) [OF assms(1,2)])
    have "subs_ok (wt_clients ?t) i (?e\<lparr>we_subs := we_subs ?e @ [c]\<rparr>)"
      unfolding subs_ok_def f
    proof
      fix d assume "d \<in> set (we_subs (?e\<lparr>we_subs := we_subs ?e @ [c]\<rparr>))"
      then consider "d = c" | "d \<noteq> c" "d \<in> set (we_subs ?e)" by auto
      then show "d < length ((wt_clients t)[c := (wt_clients t ! c)\<lparr>wc_at := Some i\<rparr>]) \<and>
          wc_base ((wt_clients t)[c := (wt_clients t ! c)\<lparr>wc_at := Some i\<rparr>] ! d) = we_base (?e\<lparr>we_subs := we_subs ?e @ [c]\<rparr>) \<and>
          wc_at ((wt_clients t)[c := (wt_clients t ! c)\<lparr>wc_at := Some i\<rparr>] ! d) = Some i \<and>
          (we_settled (?e\<lparr>we_subs := we_subs ?e @ [c]\<rparr>) \<longrightarrow>
             wc_who ((wt_clients t)[c := (wt_clients t ! c)\<lparr>wc_at := Some i\<rparr>] ! d) = we_who (?e\<lparr>we_subs := we_subs ?e @ [c]\<rparr>))"
      proof cases
        case 1
        with assms(3,6,7) show ?thesis by simp
      next
        case 2
        with entry_okD(6) [OF e] show ?thesis by (simp add: subs_ok_def)
      qed
    qed
    with True e assms(2,5) show ?thesis by (simp add: entry_ok_def f Let_def)
  next
    case False
    have e: "entry_ok rd t j" by (rule watches_okD(1) [OF assms(1) j])
    have "subs_ok (wt_clients ?t) j (wt_entries t ! j)"
      using entry_okD(6) [OF e] notin [OF j] unfolding subs_ok_def f by (metis length_list_update nth_list_update_neq)
    with False e show ?thesis by (simp add: entry_ok_def f Let_def)
  qed
  note entries = this
  have view: "own_view rd (wc_base (wt_clients t ! c)) (wc_who (wt_clients t ! c)) v" if "we_last ?e = Some v" for v
    using entry_okD(4) [OF watches_okD(1) [OF assms(1,2)]] assms(6,7) that unfolding views_ok_def by metis
  have same: "wc_base (wt_clients ?t ! d) = wc_base (wt_clients t ! d) \<and> wc_who (wt_clients ?t ! d) = wc_who (wt_clients t ! d)"
    if "d < length (wt_clients t)" for d using that by (cases "d = c") (simp_all add: f)
  show ?thesis
  proof (rule watches_okI)
    show "entry_ok rd ?t j" if "j < length (wt_entries ?t)" for j using entries that by (simp add: f)
    show "j < length (wt_entries ?t) \<and> k' = entry_key (wt_entries ?t ! j)" if "jget (wt_map ?t) k' = Some j" for k' j
      using watches_okD(2) [OF assms(1), of k' j] that by (cases "j = i") (simp_all add: f)
    show "is_base_key (wc_base (wt_clients ?t ! d))" if "d < length (wt_clients ?t)" for d
      using watches_okD(3) [OF assms(1), of d] same [of d] that by (simp add: f)
    show "j < length (wt_entries ?t) \<and> d \<in> set (we_subs (wt_entries ?t ! j))"
      if "d < length (wt_clients ?t)" "wc_at (wt_clients ?t ! d) = Some j" for d j
      using watches_okD(4) [OF assms(1), of d j] that assms(2,3) by (cases "d = c"; cases "j = i") (simp_all add: f)
    show "fst p < length (wt_clients ?t) \<and> own_view rd (wc_base (wt_clients ?t ! fst p)) (wc_who (wt_clients ?t ! fst p)) (snd p)"
      if p: "p \<in> set (wt_log ?t)" for p
    proof (cases "p \<in> set (wt_log t)")
      case True
      with watches_okD(5) [OF assms(1) True] same show ?thesis by (simp add: f)
    next
      case False
      with p obtain v where "we_last ?e = Some v" "p = (c, v)" by (auto simp: f split: option.splits)
      with view same [OF assms(3)] assms(3) show ?thesis by (simp add: f)
    qed
  qed
qed

lemma attach_ok:
  assumes "watches_ok rd t" "c < length (wt_clients t)" "wc_at (wt_clients t ! c) = None"
  shows "watches_ok rd (attach_client c t)"
proof -
  let ?b = "wc_base (wt_clients t ! c)" and ?w = "wc_who (wt_clients t ! c)"
  let ?d = "?b \<in> set (wt_dependent t)"
  let ?k = "slot_key ?d ?b ?w"
  have b: "is_base_key ?b" by (rule watches_okD(3) [OF assms(1,2)])
  show ?thesis
  proof (cases "jget (wt_map t) ?k")
    case (Some i)
    then have i: "i < length (wt_entries t)" "?k = entry_key (wt_entries t ! i)" using watches_okD(2) [OF assms(1)] by blast+
    have e: "entry_ok rd t i" by (rule watches_okD(1) [OF assms(1) i(1)])
    then have "is_base_key (we_base (wt_entries t ! i))" by (simp add: entry_ok_def Let_def)
    note slot = slot_key_eq [OF b this, THEN iffD1, OF i(2) [unfolded entry_key_def]]
    have eq: "?b = we_base (wt_entries t ! i)" "?d = (\<not> we_plain (wt_entries t ! i))" "?d \<longrightarrow> ?w = we_who (wt_entries t ! i)"
      by (rule slot [THEN conjunct1], rule slot [THEN conjunct2, THEN conjunct1], rule slot [THEN conjunct2, THEN conjunct2])
    moreover have "we_settled (wt_entries t ! i) \<longrightarrow> ?d" using entry_okD(3) [OF e] unfolding eq(1) by blast
    moreover have "jget (wt_map t) (entry_key (wt_entries t ! i)) = Some i" using Some unfolding i(2) .
    ultimately have "watches_ok rd (join_entry c i t)" by (metis entry_join_ok [OF assms(1) i(1) assms(2,3)])
    with Some show ?thesis by (simp add: attach_client_def Let_def)
  next
    case None
    let ?n = "length (wt_entries t)" and ?e = "new_entry ?b ?w ?d"
    let ?t = "t\<lparr>wt_entries := wt_entries t @ [?e], wt_map := jset (wt_map t) ?k ?n\<rparr>"
    have "entry_ok rd ?t j" if "j < Suc ?n" for j
    proof (cases "j = ?n")
      case True
      then show ?thesis using b by (simp add: entry_ok_def new_entry_def views_ok_def subs_ok_def)
    next
      case False
      with that have j: "j < ?n" by simp
      have "we_subs (wt_entries t ! j) \<noteq> [] \<longrightarrow> entry_key (wt_entries t ! j) \<noteq> ?k"
        using entry_okD(5) [OF watches_okD(1) [OF assms(1) j]] None by auto
      with watches_okD(1) [OF assms(1) j] j show ?thesis by (simp add: entry_ok_def Let_def nth_append)
    qed
    note entries = this
    have "watches_ok rd ?t"
    proof (rule watches_okI)
      show "entry_ok rd ?t j" if "j < length (wt_entries ?t)" for j using entries that by simp
      show "j < length (wt_entries ?t) \<and> k = entry_key (wt_entries ?t ! j)" if "jget (wt_map ?t) k = Some j" for k j
        using watches_okD(2) [OF assms(1), of k j] that by (auto simp: nth_append entry_key_new split: if_splits)
      show "j < length (wt_entries ?t) \<and> d \<in> set (we_subs (wt_entries ?t ! j))"
        if "d < length (wt_clients ?t)" "wc_at (wt_clients ?t ! d) = Some j" for d j
        using watches_okD(4) [OF assms(1), of d j] that by (simp add: nth_append)
    qed (use watches_okD(3,5) [OF assms(1)] in simp_all)
    then have "watches_ok rd (join_entry c ?n ?t)" using assms by (intro entry_join_ok) (simp_all add: entry_key_new, simp_all add: new_entry_def)
    with None show ?thesis by (simp add: attach_client_def Let_def)
  qed
qed

lemma entry_open_ok:
  assumes "watches_ok rd t" "is_base_key b"
  shows "watches_ok rd (open_watch b who t)"
proof -
  let ?t = "t\<lparr>wt_clients := wt_clients t @ [\<lparr>wc_base = b, wc_who = who, wc_at = None, wc_over = False\<rparr>]\<rparr>"
  have "entry_ok rd ?t i" if "i < length (wt_entries t)" for i
    using watches_okD(1) [OF assms(1) that] by (auto simp: entry_ok_def subs_ok_def Let_def nth_append)
  note entries = this
  have "watches_ok rd ?t"
  proof (rule watches_okI)
    show "fst p < length (wt_clients ?t) \<and> own_view rd (wc_base (wt_clients ?t ! fst p)) (wc_who (wt_clients ?t ! fst p)) (snd p)"
      if "p \<in> set (wt_log ?t)" for p using watches_okD(5) [OF assms(1), of p] that by (simp add: nth_append)
    show "is_base_key (wc_base (wt_clients ?t ! d))" if "d < length (wt_clients ?t)" for d
      using watches_okD(3) [OF assms(1), of d] assms(2) that by (auto simp: nth_append)
    show "j < length (wt_entries ?t) \<and> d \<in> set (we_subs (wt_entries ?t ! j))"
      if "d < length (wt_clients ?t)" "wc_at (wt_clients ?t ! d) = Some j" for d j
      using watches_okD(4) [OF assms(1), of d j] that by (auto simp: nth_append split: if_splits)
  qed (use entries watches_okD(2) [OF assms(1)] in simp_all)
  then show ?thesis unfolding open_watch_def by (intro attach_ok) simp_all
qed


lemma drop_clients:
  "length (wt_clients (drop_subs P i t)) = length (wt_clients t)"
  "c < length (wt_clients t) \<Longrightarrow> wt_clients (drop_subs P i t) ! c
     = (if P c \<and> c \<in> set (we_subs (wt_entries t ! i)) then (wt_clients t ! c)\<lparr>wc_at := None\<rparr> else wt_clients t ! c)"
  by (simp_all add: drop_subs_def Let_def nth_enumerate_eq)

lemma drop_client_fields:
  assumes "c < length (wt_clients t)"
  shows "wc_base (wt_clients (drop_subs P i t) ! c) = wc_base (wt_clients t ! c)" "wc_who (wt_clients (drop_subs P i t) ! c) = wc_who (wt_clients t ! c)"
    "wc_at (wt_clients (drop_subs P i t) ! c) = (if P c \<and> c \<in> set (we_subs (wt_entries t ! i)) then None else wc_at (wt_clients t ! c))"
  by (simp_all add: drop_clients(2) [OF assms])

lemma drop_fields:
  "wt_entries (drop_subs P i t) = (wt_entries t)[i := (wt_entries t ! i)\<lparr>we_subs := filter (\<lambda>c. \<not> P c) (we_subs (wt_entries t ! i))\<rparr>]"
  "wt_dependent (drop_subs P i t) = wt_dependent t" "wt_log (drop_subs P i t) = wt_log t"
  "wt_map (drop_subs P i t) = (if we_subs (wt_entries t ! i) \<noteq> [] \<and> filter (\<lambda>c. \<not> P c) (we_subs (wt_entries t ! i)) = []
     then jdel (wt_map t) (entry_key (wt_entries t ! i)) else wt_map t)"
  by (simp_all add: drop_subs_def Let_def)

lemma drop_ok:
  assumes "watches_ok rd t" "i < length (wt_entries t)"
  shows "watches_ok rd (drop_subs P i t)"
proof -
  let ?e = "wt_entries t ! i" and ?t = "drop_subs P i t"
  have e: "entry_ok rd t i" by (rule watches_okD(1) [OF assms])
  show ?thesis
  proof (rule watches_okI)
    fix j assume "j < length (wt_entries ?t)"
    then have j: "j < length (wt_entries t)" by (simp add: drop_fields)
    show "entry_ok rd ?t j"
    proof (cases "j = i")
      case True
      have "subs_ok (wt_clients ?t) i (?e\<lparr>we_subs := filter (\<lambda>c. \<not> P c) (we_subs ?e)\<rparr>)"
        using entry_okD(6) [OF e] by (auto simp: subs_ok_def drop_client_fields drop_clients(1))
      with True e assms(2) show ?thesis by (simp add: entry_ok_def drop_fields Let_def) (metis filter.simps(1))
    next
      case False
      have ej: "entry_ok rd t j" by (rule watches_okD(1) [OF assms(1) j])
      have "c \<notin> set (we_subs ?e)" if "c \<in> set (we_subs (wt_entries t ! j))" for c
        using entry_okD(6) [OF ej] that False not_sub [OF assms, of c] by (auto simp: subs_ok_def)
      then have "subs_ok (wt_clients ?t) j (wt_entries t ! j)"
        using entry_okD(6) [OF ej] by (simp add: subs_ok_def drop_client_fields drop_clients(1))
      moreover have "jget (wt_map ?t) (entry_key (wt_entries t ! j)) = Some j" if "we_subs (wt_entries t ! j) \<noteq> []"
        using entry_okD(5) [OF ej that] entry_okD(5) [OF e] False by (auto simp: drop_fields)
      ultimately show ?thesis using ej False by (simp add: entry_ok_def drop_fields Let_def)
    qed
  next
    fix k j assume "jget (wt_map ?t) k = Some j"
    then have "jget (wt_map t) k = Some j" by (auto simp: drop_fields split: if_splits)
    from watches_okD(2) [OF assms(1) this] show "j < length (wt_entries ?t) \<and> k = entry_key (wt_entries ?t ! j)"
      by (cases "j = i") (simp_all add: drop_fields)
  next
    fix d j assume d: "d < length (wt_clients ?t)" and at: "wc_at (wt_clients ?t ! d) = Some j"
    then have "d < length (wt_clients t)" by (simp add: drop_clients)
    with at have "wc_at (wt_clients t ! d) = Some j" "\<not> (P d \<and> d \<in> set (we_subs ?e))" by (auto simp: drop_client_fields split: if_splits)
    with watches_okD(4) [OF assms(1) \<open>d < length (wt_clients t)\<close>, of j]
    show "j < length (wt_entries ?t) \<and> d \<in> set (we_subs (wt_entries ?t ! j))" by (cases "j = i") (auto simp: drop_fields)
  next
    fix p assume "p \<in> set (wt_log ?t)"
    with watches_okD(5) [OF assms(1), of p]
    show "fst p < length (wt_clients ?t) \<and> own_view rd (wc_base (wt_clients ?t ! fst p)) (wc_who (wt_clients ?t ! fst p)) (snd p)"
      by (simp add: drop_fields drop_clients drop_client_fields)
  qed (use watches_okD(3) [OF assms(1)] in \<open>simp add: drop_clients(1) drop_client_fields\<close>)
qed

text \<open>An operation that changes one entry, its subscribers and key apart, and the set of the dependent keys upward.\<close>

lemma entry_change_ok:
  assumes "watches_ok rd t" "i < length (wt_entries t)" "wt_entries t' = (wt_entries t)[i := e']" "wt_map t' = wt_map t" "wt_clients t' = wt_clients t"
    "set (wt_dependent t) \<subseteq> set (wt_dependent t')" "we_base e' = we_base (wt_entries t ! i)" "we_who e' = we_who (wt_entries t ! i)"
    "we_plain e' = we_plain (wt_entries t ! i)" "we_subs e' = we_subs (wt_entries t ! i)" "we_settled (wt_entries t ! i) \<longrightarrow> we_settled e'"
    "we_settled e' \<longrightarrow> we_base e' \<in> set (wt_dependent t')" "subs_ok (wt_clients t) i e'" "views_ok rd (set (wt_dependent t')) e'"
    "\<And>p. p \<in> set (wt_log t') \<Longrightarrow> p \<notin> set (wt_log t) \<Longrightarrow> fst p < length (wt_clients t)
       \<and> own_view rd (wc_base (wt_clients t ! fst p)) (wc_who (wt_clients t ! fst p)) (snd p)"
  shows "watches_ok rd t'"
proof (rule watches_okI)
  have k: "entry_key e' = entry_key (wt_entries t ! i)" using assms(7-9) by (simp add: entry_key_def)
  have e: "entry_ok rd t i" by (rule watches_okD(1) [OF assms(1,2)])
  fix j assume "j < length (wt_entries t')"
  then have j: "j < length (wt_entries t)" by (simp add: assms(3))
  show "entry_ok rd t' j"
  proof (cases "j = i")
    case True
    then have "wt_entries t' ! j = e'" using assms(2,3) by simp
    with True k e assms(4-14) show ?thesis by (simp add: entry_ok_def Let_def)
  next
    case False
    have v: "views_ok rd (set (wt_dependent t')) (wt_entries t ! j)"
      using entry_okD(4) [OF watches_okD(1) [OF assms(1) j]] assms(6) unfolding views_ok_def by blast
    with False watches_okD(1) [OF assms(1) j] assms(6) show ?thesis by (auto simp: entry_ok_def assms(3-5) Let_def)
  qed
next
  have k: "entry_key e' = entry_key (wt_entries t ! i)" using assms(7-9) by (simp add: entry_key_def)
  fix k' j assume "jget (wt_map t') k' = Some j"
  then show "j < length (wt_entries t') \<and> k' = entry_key (wt_entries t' ! j)"
    using watches_okD(2) [OF assms(1), of k' j] k by (cases "j = i") (simp_all add: assms(3,4))
next
  fix c j assume "c < length (wt_clients t')" "wc_at (wt_clients t' ! c) = Some j"
  then show "j < length (wt_entries t') \<and> c \<in> set (we_subs (wt_entries t' ! j))"
    using watches_okD(4) [OF assms(1), of c j] assms(2,10) by (cases "j = i") (simp_all add: assms(3,5))
next
  fix p assume "p \<in> set (wt_log t')"
  then show "fst p < length (wt_clients t') \<and> own_view rd (wc_base (wt_clients t' ! fst p)) (wc_who (wt_clients t' ! fst p)) (snd p)"
    using watches_okD(5) [OF assms(1), of p] assms(15) [of p] unfolding assms(5) by blast
qed (use watches_okD(3) [OF assms(1)] in \<open>simp add: assms(5)\<close>)


lemma read_ok:
  assumes "watches_ok rd t" "i < length (wt_entries t)" "honest rd" "r = rd (we_base (wt_entries t ! i)) (we_who (wt_entries t ! i)) st"
  shows "watches_ok rd (read_entry r declared i t)"
proof -
  let ?e = "wt_entries t ! i" and ?t = "read_entry r declared i t"
  let ?v = "we_violated ?e \<or> declared \<and> rr_touched r" and ?tw = "rr_wrote r \<and> we_wrote ?e"
  define e' where "e' = ?e\<lparr>we_violated := ?v, we_wrote := (if ?v \<or> ?tw then we_wrote ?e else rr_wrote r),
    we_pending := Some (if ?v then Declared_Lie else if ?tw then Self_Writing else Shown (rr_value r))\<rparr>"
  have f: "wt_entries ?t = (wt_entries t)[i := e']" "wt_map ?t = wt_map t" "wt_clients ?t = wt_clients t" "wt_log ?t = wt_log t"
    "wt_dependent ?t = (if rr_touched r \<and> \<not> declared then we_base ?e # wt_dependent t else wt_dependent t)"
    by (simp_all add: read_entry_def e'_def Let_def)
  have e: "entry_ok rd t i" by (rule watches_okD(1) [OF assms(1,2)])
  have same: "we_base e' = we_base ?e" "we_who e' = we_who ?e" "we_plain e' = we_plain ?e" "we_subs e' = we_subs ?e" "we_settled e' = we_settled ?e"
    "we_last e' = we_last ?e" by (simp_all add: e'_def)
  have "own_view rd (we_base ?e) p v" if "we_last ?e = Some v" "p = we_who ?e \<or> we_base ?e \<notin> set (wt_dependent ?t)" for v p
    using entry_okD(4) [OF e] that unfolding views_ok_def by (auto simp: f(5) split: if_splits)
  moreover have "own_view rd (we_base ?e) p v" if "we_pending e' = Some v" "p = we_who ?e \<or> we_base ?e \<notin> set (wt_dependent ?t)" for v p
  proof (cases "?v \<or> ?tw")
    case True
    with that(1) show ?thesis by (auto simp: e'_def own_view_def split: if_splits)
  next
    case False
    then have v: "v = Shown (rr_value r)" using that(1) by (auto simp: e'_def)
    have "rd (we_base ?e) p st = r"
    proof (cases "p = we_who ?e")
      case False
      with that(2) have "\<not> (rr_touched r \<and> \<not> declared)" by (auto simp: f(5) split: if_splits)
      with \<open>\<not> (?v \<or> ?tw)\<close> have "\<not> rr_touched r" by blast
      then have "\<not> rr_touched (rd (we_base ?e) (we_who ?e) st)" by (simp only: assms(4) [symmetric] simp_thms)
      with assms(3) have "rd (we_base ?e) p st = rd (we_base ?e) (we_who ?e) st" unfolding honest_def by blast
      then show ?thesis by (simp only: assms(4))
    qed (simp only: assms(4))
    then have "\<exists>st. rr_value r = rr_value (rd (we_base ?e) p st)" by (intro exI [of _ st]) (simp only:)
    then show ?thesis unfolding v own_view_def by simp
  qed
  ultimately have "views_ok rd (set (wt_dependent ?t)) e'" by (auto simp: views_ok_def same)
  moreover have "subs_ok (wt_clients t) i e'" using entry_okD(6) [OF e] by (simp add: subs_ok_def same)
  ultimately show ?thesis using entry_okD(3) [OF e]
    by (intro entry_change_ok [OF assms(1,2) f(1-3)]) (simp_all add: same f(4), auto simp: f(5))
qed

lemma sweep_ok:
  assumes "watches_ok rd t" "i < length (wt_entries t)"
  shows "watches_ok rd (sweep_entry i t) \<and> i < length (wt_entries (sweep_entry i t))
    \<and> we_pending (wt_entries (sweep_entry i t) ! i) = we_pending (wt_entries t ! i)
    \<and> (we_base (wt_entries (sweep_entry i t) ! i) \<in> set (wt_dependent (sweep_entry i t)) \<longrightarrow> we_settled (wt_entries (sweep_entry i t) ! i))"
proof (cases "\<not> we_settled (wt_entries t ! i) \<and> we_base (wt_entries t ! i) \<in> set (wt_dependent t)")
  case True
  let ?e = "wt_entries t ! i" and ?P = "\<lambda>c. wc_who (wt_clients t ! c) \<noteq> we_who (wt_entries t ! i)"
  let ?d = "drop_subs ?P i t"
  let ?t = "?d\<lparr>wt_entries := (wt_entries ?d)[i := (wt_entries ?d ! i)\<lparr>we_settled := True\<rparr>]\<rparr>"
  have s: "sweep_entry i t = ?t" using True by (simp add: sweep_entry_def Let_def)
  have d: "watches_ok rd ?d" by (rule drop_ok [OF assms])
  have i: "i < length (wt_entries ?d)" using assms(2) by (simp add: drop_fields)
  have ed: "wt_entries ?d ! i = ?e\<lparr>we_subs := filter (\<lambda>c. \<not> ?P c) (we_subs ?e)\<rparr>" using assms(2) by (simp add: drop_fields)
  have e: "entry_ok rd ?d i" by (rule watches_okD(1) [OF d i])
  have "subs_ok (wt_clients ?d) i ((wt_entries ?d ! i)\<lparr>we_settled := True\<rparr>)"
    using entry_okD(6) [OF e] by (auto simp: subs_ok_def ed drop_client_fields drop_clients(1))
  moreover have "views_ok rd (set (wt_dependent ?d)) ((wt_entries ?d ! i)\<lparr>we_settled := True\<rparr>)"
    using entry_okD(4) [OF e] by simp
  ultimately have "watches_ok rd ?t" using True
    by (intro entry_change_ok [OF d i, where e' = "(wt_entries ?d ! i)\<lparr>we_settled := True\<rparr>"]) (simp_all add: drop_fields(2), simp_all add: ed)
  with s i ed show ?thesis by simp
next
  case False
  then have "sweep_entry i t = t" by (simp only: sweep_entry_def Let_def if_False)
  with False assms show ?thesis by auto
qed

lemma push_ok:
  assumes "watches_ok rd t" "i < length (wt_entries t)" "we_pending (wt_entries t ! i) = Some v"
    "we_base (wt_entries t ! i) \<in> set (wt_dependent t) \<longrightarrow> we_settled (wt_entries t ! i)"
  shows "watches_ok rd (push_entry v i t)"
proof -
  let ?e = "wt_entries t ! i" and ?t = "push_entry v i t"
  let ?e' = "?e\<lparr>we_last := Some v, we_pending := None\<rparr>"
  have f: "wt_entries ?t = (wt_entries t)[i := ?e']" "wt_map ?t = wt_map t" "wt_clients ?t = wt_clients t" "wt_dependent ?t = wt_dependent t"
    "wt_log ?t = map (\<lambda>c. (c, v)) (we_subs ?e) @ wt_log t" by (simp_all add: push_entry_def Let_def)
  have e: "entry_ok rd t i" by (rule watches_okD(1) [OF assms(1,2)])
  have "views_ok rd (set (wt_dependent ?t)) ?e'" using entry_okD(4) [OF e] assms(3) by (auto simp: views_ok_def f)
  moreover have "subs_ok (wt_clients t) i ?e'" using entry_okD(6) [OF e] by (simp add: subs_ok_def)
  moreover have "fst p < length (wt_clients t) \<and> own_view rd (wc_base (wt_clients t ! fst p)) (wc_who (wt_clients t ! fst p)) (snd p)"
    if "p \<in> set (wt_log ?t)" "p \<notin> set (wt_log t)" for p
  proof -
    from that obtain c where c: "c \<in> set (we_subs ?e)" "p = (c, v)" by (auto simp: f)
    with entry_okD(6) [OF e] have b: "c < length (wt_clients t)" "wc_base (wt_clients t ! c) = we_base ?e"
      and w: "we_settled ?e \<longrightarrow> wc_who (wt_clients t ! c) = we_who ?e" by (auto simp: subs_ok_def)
    have "own_view rd (we_base ?e) (wc_who (wt_clients t ! c)) v"
      using entry_okD(4) [OF e] assms(3,4) w unfolding views_ok_def by blast
    with b c show ?thesis by simp
  qed
  ultimately show ?thesis using entry_okD(3) [OF e]
    by (intro entry_change_ok [OF assms(1,2) f(1-3)]) (simp_all add: f(4))
qed

lemma entry_leave_ok:
  assumes "watches_ok rd t" "c < length (wt_clients t)"
  shows "watches_ok rd (leave_watch c t)"
proof -
  have over: "watches_ok rd (u\<lparr>wt_clients := (wt_clients u)[c := (wt_clients u ! c)\<lparr>wc_over := True\<rparr>]\<rparr>)" if "watches_ok rd u" for u :: "'b watch_table"
  proof (rule watches_okI)
    let ?cs = "(wt_clients u)[c := (wt_clients u ! c)\<lparr>wc_over := True\<rparr>]"
    let ?u = "u\<lparr>wt_clients := ?cs\<rparr>"
    have s: "wc_base (?cs ! d) = wc_base (wt_clients u ! d)" "wc_who (?cs ! d) = wc_who (wt_clients u ! d)"
      "wc_at (?cs ! d) = wc_at (wt_clients u ! d)" if "d < length (wt_clients u)" for d using that by (cases "d = c"; simp)+
    show "entry_ok rd ?u i" if "i < length (wt_entries ?u)" for i
      using watches_okD(1) [OF \<open>watches_ok rd u\<close>, of i] that s by (auto simp: entry_ok_def subs_ok_def Let_def)
    show "is_base_key (wc_base (wt_clients ?u ! d))" if "d < length (wt_clients ?u)" for d
      using watches_okD(3) [OF \<open>watches_ok rd u\<close>, of d] that s by simp
    show "i < length (wt_entries ?u) \<and> d \<in> set (we_subs (wt_entries ?u ! i))" if "d < length (wt_clients ?u)" "wc_at (wt_clients ?u ! d) = Some i" for d i
      using watches_okD(4) [OF \<open>watches_ok rd u\<close>, of d i] that s by simp
    show "fst p < length (wt_clients ?u) \<and> own_view rd (wc_base (wt_clients ?u ! fst p)) (wc_who (wt_clients ?u ! fst p)) (snd p)"
      if "p \<in> set (wt_log ?u)" for p
      using watches_okD(5) [OF \<open>watches_ok rd u\<close>, of p] that s by simp
  qed (use watches_okD(2) [OF \<open>watches_ok rd u\<close>] in simp)
  show ?thesis
  proof (cases "wc_at (wt_clients t ! c)")
    case None
    with over [OF assms(1)] show ?thesis by (simp add: leave_watch_def)
  next
    case (Some i)
    have "i < length (wt_entries t)" using watches_okD(4) [OF assms Some] by simp
    from over [OF drop_ok [OF assms(1) this]] Some show ?thesis by (simp add: leave_watch_def Let_def)
  qed
qed

lemma table_step_ok: "table_step rd decl t t' \<Longrightarrow> honest rd \<Longrightarrow> watches_ok rd t \<Longrightarrow> watches_ok rd t'"
proof (induction rule: table_step.induct)
  case (lands i t v)
  then show ?case using sweep_ok [of rd t i] by (intro push_ok) simp_all
next
  case (reads i t e st)
  then show ?case by (intro read_ok) simp_all
qed (auto intro: entry_open_ok attach_ok entry_leave_ok)

lemma table_start_ok: "table_start t \<Longrightarrow> watches_ok rd t"
  by (simp add: table_start_def watches_ok_def)


interpretation watch_sharing: invariant_machine table_start "table_step rd decl" "\<lambda>t. honest rd \<longrightarrow> watches_ok rd t"
  by unfold_locales (auto intro: table_start_ok table_step_ok)

subsection \<open>Properties\<close>

text \<open>
  C13. No subscriber is shown another's view. Where a read that does not consult the principal is indeed the same under every
  principal, whatever joined, migrated, left and was discovered in whatever order: every value that reaches a subscriber's queue,
  the one replayed when it joins included, is what the read gives under that subscriber's own principal.
\<close>

theorem no_foreign_view:
  assumes "honest rd" "reach table_start (table_step rd decl) t" "(c, Shown x) \<in> set (wt_log t)"
  shows "\<exists>st. x = rr_value (rd (wc_base (wt_clients t ! c)) (wc_who (wt_clients t ! c)) st)"
proof -
  have "watches_ok rd t" using watch_sharing.reach_inv [OF assms(2)] assms(1) by blast
  from watches_okD(5) [OF this assms(3)] show ?thesis by (simp add: own_view_def)
qed

text \<open>
  One loop per read. Two subscribers of the same method, arguments and throttle are on the same entry as long as no
  read of theirs has consulted the principal; afterwards, those of one principal share the entry qualified by it.
\<close>

theorem one_loop_per_read:
  assumes "honest rd" "reach table_start (table_step rd decl) t" "c < length (wt_clients t)" "c' < length (wt_clients t)"
    "wc_at (wt_clients t ! c) = Some i" "wc_at (wt_clients t ! c') = Some j" "wc_base (wt_clients t ! c) = wc_base (wt_clients t ! c')"
    "wc_base (wt_clients t ! c) \<notin> set (wt_dependent t)
     \<or> wc_who (wt_clients t ! c) = wc_who (wt_clients t ! c') \<and> \<not> we_plain (wt_entries t ! i) \<and> \<not> we_plain (wt_entries t ! j)"
  shows "i = j"
proof -
  have ok: "watches_ok rd t" using watch_sharing.reach_inv [OF assms(2)] assms(1) by blast
  have at: "i < length (wt_entries t)" "c \<in> set (we_subs (wt_entries t ! i))" "j < length (wt_entries t)" "c' \<in> set (we_subs (wt_entries t ! j))"
    using watches_okD(4) [OF ok assms(3,5)] watches_okD(4) [OF ok assms(4,6)] by blast+
  note e = watches_okD(1) [OF ok at(1)] and e' = watches_okD(1) [OF ok at(3)]
  have m: "jget (wt_map t) (entry_key (wt_entries t ! i)) = Some i" "jget (wt_map t) (entry_key (wt_entries t ! j)) = Some j"
    by (rule entry_okD(5) [OF e], use at(2) in force, rule entry_okD(5) [OF e'], use at(4) in force)
  have b: "we_base (wt_entries t ! i) = wc_base (wt_clients t ! c)" "we_base (wt_entries t ! j) = wc_base (wt_clients t ! c)"
    "we_settled (wt_entries t ! i) \<Longrightarrow> we_who (wt_entries t ! i) = wc_who (wt_clients t ! c)"
    "we_settled (wt_entries t ! j) \<Longrightarrow> we_who (wt_entries t ! j) = wc_who (wt_clients t ! c')"
    using entry_okD(6) [OF e] entry_okD(6) [OF e'] at(2,4) assms(7) unfolding subs_ok_def by metis+
  have "entry_key (wt_entries t ! i) = entry_key (wt_entries t ! j)"
  proof (cases "wc_base (wt_clients t ! c) \<in> set (wt_dependent t)")
    case True
    with assms(8) have q: "wc_who (wt_clients t ! c) = wc_who (wt_clients t ! c')" "\<not> we_plain (wt_entries t ! i)" "\<not> we_plain (wt_entries t ! j)" by blast+
    have "we_who (wt_entries t ! i) = we_who (wt_entries t ! j)"
      using b(3) [OF entry_okD(2) [OF e q(2)]] b(4) [OF entry_okD(2) [OF e' q(3)]] q(1) by simp
    with q(2,3) b(1,2) show ?thesis by (simp add: entry_key_def)
  next
    case False
    have "we_plain (wt_entries t ! i)" using False entry_okD(3) [OF e, OF entry_okD(2) [OF e]] unfolding b(1) by blast
    moreover have "we_plain (wt_entries t ! j)" using False entry_okD(3) [OF e', OF entry_okD(2) [OF e']] unfolding b(2) by blast
    ultimately show ?thesis unfolding entry_key_def slot_key_def b(1,2) by simp
  qed
  with m show ?thesis by (metis option.inject)
qed

subsection \<open>Runs\<close>

definition demo_key :: string where "demo_key = ''s5:totaln2:50a0:''"

lemma demo_base: "is_base_key demo_key"
proof -
  have "watch_key ''total'' (Other_Number ''50'') (V_Array []) = Inr demo_key" by code_simp
  moreover have "numbers_ok (V_Number (Other_Number ''50''))" "numbers_ok (V_Array [])" by code_simp+
  ultimately show ?thesis unfolding is_base_key_def by blast
qed

definition whoami :: "string \<Rightarrow> string option \<Rightarrow> unit \<Rightarrow> string option read_run" where
  "whoami b who st = \<lparr>rr_touched = True, rr_wrote = False, rr_value = who\<rparr>"

type_synonym names = "string option watch_table"

definition nobody :: names where "nobody = \<lparr>wt_map = [], wt_entries = [], wt_dependent = [], wt_clients = [], wt_log = []\<rparr>"

definition round0 :: "(string \<Rightarrow> string option \<Rightarrow> unit \<Rightarrow> string option read_run) \<Rightarrow> names \<Rightarrow> names" where
  "round0 rd t = (let t' = read_entry (rd (we_base (wt_entries t ! 0)) (we_who (wt_entries t ! 0)) ()) False 0 t
     in push_entry (the (we_pending (wt_entries t' ! 0))) 0 (sweep_entry 0 t'))"

abbreviation names_reach :: "(string \<Rightarrow> string option \<Rightarrow> unit \<Rightarrow> string option read_run) \<Rightarrow> names \<Rightarrow> bool" where
  "names_reach rd \<equiv> reach table_start (table_step rd (\<lambda>b. False))"

lemma nobody_reached: "names_reach rd nobody"
  by (rule reach_init) (simp add: table_start_def nobody_def)

lemma opened_reached: "names_reach rd t \<Longrightarrow> names_reach rd (open_watch demo_key who t)"
  by (erule reach_step) (rule table_step.opens [OF demo_base])

lemma round0_reached:
  assumes "names_reach rd t" "0 < length (wt_entries t)" "we_pending (wt_entries t ! 0) = None"
  shows "names_reach rd (round0 rd t)"
proof -
  let ?r = "rd (we_base (wt_entries t ! 0)) (we_who (wt_entries t ! 0)) ()"
  let ?t = "read_entry ?r False 0 t"
  have "table_step rd (\<lambda>b. False) t ?t" by (rule table_step.reads [OF assms(2) refl assms(3)])
  with assms(1) have r: "names_reach rd ?t" by (rule reach_step)
  obtain v where v: "0 < length (wt_entries ?t)" "we_pending (wt_entries ?t ! 0) = Some v" using assms(2) by (simp add: read_entry_def Let_def)
  have "table_step rd (\<lambda>b. False) ?t (push_entry v 0 (sweep_entry 0 ?t))" by (rule table_step.lands [OF v])
  with r have "names_reach rd (push_entry v 0 (sweep_entry 0 ?t))" by (rule reach_step)
  with v(2) show ?thesis by (simp add: round0_def Let_def)
qed

definition two_names :: "(string \<Rightarrow> string option \<Rightarrow> unit \<Rightarrow> string option read_run) \<Rightarrow> names" where
  "two_names rd = open_watch demo_key (Some ''bob'') (round0 rd (open_watch demo_key (Some ''ada'') nobody))"

lemma two_names_reached: "names_reach rd (two_names rd)"
proof -
  have "0 < length (wt_entries (open_watch demo_key (Some ''ada'') nobody))" "we_pending (wt_entries (open_watch demo_key (Some ''ada'') nobody) ! 0) = None"
    by code_simp+
  then show ?thesis unfolding two_names_def by (intro opened_reached round0_reached nobody_reached)
qed

subsection \<open>Witnesses\<close>

lemma whoami_honest: "honest whoami"
  by (simp add: honest_def whoami_def)

theorem no_foreign_view_witness: "\<exists>st :: unit. Some ''ada'' = rr_value (whoami demo_key (Some ''ada'') st)"
proof -
  let ?t = "two_names whoami"
  have l: "(0, Shown (Some ''ada'')) \<in> set (wt_log ?t)" "wc_base (wt_clients ?t ! 0) = demo_key" "wc_who (wt_clients ?t ! 0) = Some ''ada''" by code_simp+
  from no_foreign_view [OF whoami_honest two_names_reached l(1)] l(2,3) show ?thesis by simp
qed

definition both_here :: names where "both_here = open_watch demo_key (Some ''bob'') (open_watch demo_key (Some ''ada'') nobody)"

theorem one_loop_per_read_witness: "wc_at (wt_clients both_here ! 0) = wc_at (wt_clients both_here ! 1) \<and> wc_at (wt_clients both_here ! 1) = Some 0"
proof -
  have r: "names_reach whoami both_here" unfolding both_here_def by (intro opened_reached nobody_reached)
  have c: "0 < length (wt_clients both_here)" "1 < length (wt_clients both_here)" "wc_at (wt_clients both_here ! 1) = Some 0"
    "wc_base (wt_clients both_here ! 0) = wc_base (wt_clients both_here ! 1)" "wc_base (wt_clients both_here ! 0) \<notin> set (wt_dependent both_here)"
    by code_simp+
  obtain i where i: "wc_at (wt_clients both_here ! 0) = Some i" by (simp add: both_here_def open_watch_def attach_client_def join_entry_def nobody_def Let_def split: option.splits)
  from one_loop_per_read [OF whoami_honest r c(1,2) i c(3,4)] c(3,5) i show ?thesis by simp
qed

end
