(* ===== verification/Topics.thy ===== *)
theory Topics
  imports Machines Actor_Ids "HOL-Library.Multiset"
begin

section \<open>Topics\<close>

text \<open>
  \<open>topics.ts\<close>, \<open>host/topics.ts\<close> and the publish path of \<open>host/host.ts\<close>: topic names, the subscriber index derived from the
  registry, the fan-out of one event with its report, the delivery to a subscriber, and the memo of the index. What a
  JavaScript value may be where the code looks at its type is a datatype; a call of a \<open>key\<close> mapper and a dispatch are parameters with their outcome.
\<close>

subsection \<open>Names\<close>

datatype js_prop = Text string | Not_Text

record topic =
  tp_name :: string
  tp_key :: string

datatype objection = Needs_Name | Bad_Characters | Reserved_Prefix

datatype topic_error = Bad_Topic_Name objection | Bad_Topic_Key

definition topic_name_objection :: "js_prop \<Rightarrow> objection option" where
  "topic_name_objection v = (case v of
      Not_Text \<Rightarrow> Some Needs_Name
    | Text name \<Rightarrow> if name = [] then Some Needs_Name
        else if CHR ''#'' \<in> set name \<or> nul \<in> set name then Some Bad_Characters
        else if starts_with name ''$'' \<or> starts_with name ''@'' then Some Reserved_Prefix
        else None)"

definition valid_topic_key :: "js_prop \<Rightarrow> bool" where
  "valid_topic_key v = (case v of Not_Text \<Rightarrow> False | Text key \<Rightarrow> key \<noteq> [] \<and> nul \<notin> set key)"

definition make_topic :: "string \<Rightarrow> string option \<Rightarrow> topic_error + topic" where
  "make_topic name key = (let k = (case key of None \<Rightarrow> ''default'' | Some k \<Rightarrow> k) in
     case topic_name_objection (Text name) of
       Some o' \<Rightarrow> Inl (Bad_Topic_Name o')
     | None \<Rightarrow> if \<not> valid_topic_key (Text k) then Inl Bad_Topic_Key else Inr \<lparr>tp_name = name, tp_key = k\<rparr>)"

definition assert_topic :: "js_prop \<Rightarrow> js_prop \<Rightarrow> topic_error option" where
  "assert_topic name key = (case topic_name_objection name of
      Some o' \<Rightarrow> Some (Bad_Topic_Name o')
    | None \<Rightarrow> if \<not> valid_topic_key key then Some Bad_Topic_Key else None)"

subsection \<open>Subscriptions\<close>

text \<open>An entry of \<open>subscriptions:\<close>: a function, an object with an optional mapper and perhaps a handler, or a shape that should have been refused.\<close>

datatype mapped = Maps_To string | Maps_To_No_Text | Mapper_Throws

datatype 'h subscription = Plain_Handler 'h | Sub_Object "(string \<Rightarrow> mapped) option" "'h option" | Sub_Malformed

record 'h topic_def =
  td_type :: string
  td_subs :: "(string, 'h subscription) jmap option"

record subscriber =
  sb_type :: string
  sb_map :: "(string \<Rightarrow> mapped) option"

definition subscription_handler :: "'h subscription option \<Rightarrow> 'h option" where
  "subscription_handler s = (case s of Some (Plain_Handler h) \<Rightarrow> Some h | Some (Sub_Object m h) \<Rightarrow> h | _ \<Rightarrow> None)"

definition subscription_for :: "'h topic_def \<Rightarrow> string \<Rightarrow> 'h subscription option" where
  "subscription_for d name = (case td_subs d of None \<Rightarrow> None | Some t \<Rightarrow> jget t name)"

definition sub_mapper :: "'h subscription \<Rightarrow> (string \<Rightarrow> mapped) option" where
  "sub_mapper s = (case s of Sub_Object m h \<Rightarrow> m | _ \<Rightarrow> None)"

type_synonym topic_index = "(string, subscriber list) jmap"

definition index_one :: "string \<Rightarrow> string \<times> 'h subscription \<Rightarrow> topic_index \<Rightarrow> topic_index" where
  "index_one type p idx = (let e = \<lparr>sb_type = type, sb_map = sub_mapper (snd p)\<rparr>
     in jset idx (fst p) (case jget idx (fst p) of Some es \<Rightarrow> es @ [e] | None \<Rightarrow> [e]))"

text \<open>Definitions that resolved, in registry order (\<open>Promise.all\<close>): a loader that failed rejects the build (with the first error there, where the code takes the first in time), a type without a definition is skipped.\<close>

definition build_topic_index :: "('e + 'h topic_def option) list \<Rightarrow> 'e + topic_index" where
  "build_topic_index defs = (case List.find (\<lambda>r. isl r) defs of
      Some (Inl e) \<Rightarrow> Inl e
    | _ \<Rightarrow> Inr (fold (\<lambda>r idx. case r of
          Inr (Some d) \<Rightarrow> (case td_subs d of None \<Rightarrow> idx | Some t \<Rightarrow> fold (index_one (td_type d)) t idx)
        | _ \<Rightarrow> idx) defs []))"

subsection \<open>The fan-out\<close>

record 'p topic_event =
  te_topic :: topic
  te_payload :: 'p
  te_at :: int
  te_publisher :: "actor_ref option"

datatype delivery = Settled_Delivery | Accepted_Delivery

datatype 'e why = Key_Failed | Dispatch_Failed 'e

record 'e delivery_failure =
  df_type :: string
  df_key :: "string option"
  df_why :: "'e why"

record 'e publish_report =
  pr_subscribers :: nat
  pr_delivered :: nat
  pr_failures :: "'e delivery_failure list"
  pr_delivery :: delivery

definition mapped_key :: "subscriber \<Rightarrow> string \<Rightarrow> string option" where
  "mapped_key s key = (case (case sb_map s of None \<Rightarrow> Maps_To key | Some m \<Rightarrow> m key) of
      Maps_To k \<Rightarrow> if k = [] then None else Some k | _ \<Rightarrow> None)"

text \<open>One subscriber's delivery: the ref that is dispatched to, one-way in the accepted mode, and its failure if there is one.\<close>

definition deliver_one :: "(actor_ref \<Rightarrow> 'p topic_event \<Rightarrow> bool \<Rightarrow> 'e option) \<Rightarrow> 'p topic_event \<Rightarrow> delivery \<Rightarrow> subscriber \<Rightarrow> 'e delivery_failure option" where
  "deliver_one dispatch ev mode s = (case mapped_key s (tp_key (te_topic ev)) of
      None \<Rightarrow> Some \<lparr>df_type = sb_type s, df_key = None, df_why = Key_Failed\<rparr>
    | Some k \<Rightarrow> map_option (\<lambda>e. \<lparr>df_type = sb_type s, df_key = Some k, df_why = Dispatch_Failed e\<rparr>)
        (dispatch \<lparr>ref_type = sb_type s, ref_key = k\<rparr> ev (mode = Accepted_Delivery)))"

definition count_delivery :: "'e delivery_failure option \<Rightarrow> 'e publish_report \<Rightarrow> 'e publish_report" where
  "count_delivery r rep = (case r of None \<Rightarrow> rep\<lparr>pr_delivered := Suc (pr_delivered rep)\<rparr> | Some f \<Rightarrow> rep\<lparr>pr_failures := pr_failures rep @ [f]\<rparr>)"

text \<open>The deliveries settle in some order of the entries, \<open>order\<close>.\<close>

definition publish_to :: "(actor_ref \<Rightarrow> 'p topic_event \<Rightarrow> bool \<Rightarrow> 'e option) \<Rightarrow> 'p topic_event \<Rightarrow> delivery \<Rightarrow> subscriber list \<Rightarrow> 'e publish_report" where
  "publish_to dispatch ev mode order =
     fold (\<lambda>s. count_delivery (deliver_one dispatch ev mode s)) order
       \<lparr>pr_subscribers = length order, pr_delivered = 0, pr_failures = [], pr_delivery = mode\<rparr>"

definition publish_event :: "topic \<Rightarrow> 'p \<Rightarrow> int \<Rightarrow> actor_ref option \<Rightarrow> 'p topic_event" where
  "publish_event t payload now publisher = \<lparr>te_topic = t, te_payload = payload, te_at = now, te_publisher = publisher\<rparr>"

definition index_entries :: "topic_index \<Rightarrow> string \<Rightarrow> subscriber list" where
  "index_entries idx name = (case jget idx name of None \<Rightarrow> [] | Some es \<Rightarrow> es)"

text \<open>The branch of \<open>#invoke\<close> for a topic event: a subscription this build does not have is dropped.\<close>

definition invoke_topic :: "'h topic_def \<Rightarrow> 'p topic_event \<Rightarrow> 'h option" where
  "invoke_topic d ev = subscription_handler (subscription_for d (tp_name (te_topic ev)))"

subsection \<open>The memo of the index\<close>

text \<open>Builds are numbered; \<open>im_failed\<close> are those whose rejection has landed.\<close>

record index_memo =
  im_memo :: "nat option"
  im_next :: nat
  im_building :: "nat list"
  im_failed :: "nat list"

definition subscriber_index :: "index_memo \<Rightarrow> nat \<times> index_memo" where
  "subscriber_index m = (case im_memo m of
      Some b \<Rightarrow> (b, m)
    | None \<Rightarrow> (im_next m, m\<lparr>im_memo := Some (im_next m), im_next := Suc (im_next m), im_building := im_next m # im_building m\<rparr>))"

definition build_fails :: "nat \<Rightarrow> index_memo \<Rightarrow> index_memo" where
  "build_fails b m = m\<lparr>im_memo := (if im_memo m = Some b then None else im_memo m), im_building := removeAll b (im_building m), im_failed := b # im_failed m\<rparr>"

definition build_done :: "nat \<Rightarrow> index_memo \<Rightarrow> index_memo" where
  "build_done b m = m\<lparr>im_building := removeAll b (im_building m)\<rparr>"

inductive memo_step :: "index_memo \<Rightarrow> index_memo \<Rightarrow> bool" where
  publishes: "memo_step m (snd (subscriber_index m))"
| rejects: "b \<in> set (im_building m) \<Longrightarrow> memo_step m (build_fails b m)"
| resolves: "b \<in> set (im_building m) \<Longrightarrow> memo_step m (build_done b m)"

definition memo_start :: "index_memo \<Rightarrow> bool" where
  "memo_start m \<longleftrightarrow> m = \<lparr>im_memo = None, im_next = 0, im_building = [], im_failed = []\<rparr>"

definition memo_ok :: "index_memo \<Rightarrow> bool" where
  "memo_ok m \<longleftrightarrow> (\<forall>b \<in> set (im_building m). b < im_next m \<and> b \<notin> set (im_failed m)) \<and> (\<forall>b \<in> set (im_failed m). b < im_next m)
     \<and> (\<forall>b. im_memo m = Some b \<longrightarrow> b < im_next m \<and> b \<notin> set (im_failed m))"

interpretation index_memo: invariant_machine memo_start memo_step memo_ok
proof unfold_locales
  show "memo_ok m'" if "memo_ok m" "memo_step m m'" for m m'
    using that(2,1) by (induction rule: memo_step.induct)
      (auto simp: memo_ok_def subscriber_index_def build_fails_def build_done_def less_Suc_eq split: option.splits)
qed (simp add: memo_start_def memo_ok_def)

subsection \<open>What the index holds\<close>

lemma index_table:
  "distinct (jkeys t) \<Longrightarrow> index_entries (fold (index_one type) t idx) name
     = index_entries idx name @ (case jget t name of None \<Rightarrow> [] | Some s \<Rightarrow> [\<lparr>sb_type = type, sb_map = sub_mapper s\<rparr>])"
proof (induction t arbitrary: idx)
  case (Cons p t)
  have "jget t (fst p) = None" using Cons.prems by (cases p) (simp add: map_of_eq_None_iff)
  with Cons show ?case by (cases p) (auto simp: index_one_def index_entries_def Let_def split: option.splits)
qed simp

text \<open>The subscribers a topic name has by the declarations alone.\<close>

definition declared_subscribers :: "'h topic_def list \<Rightarrow> string \<Rightarrow> subscriber list" where
  "declared_subscribers defs name = concat (map (\<lambda>d. case subscription_for d name of
      None \<Rightarrow> [] | Some s \<Rightarrow> [\<lparr>sb_type = td_type d, sb_map = sub_mapper s\<rparr>]) defs)"

definition loaded :: "('e + 'h topic_def option) list \<Rightarrow> 'h topic_def list" where
  "loaded defs = List.map_filter (\<lambda>r. case r of Inr (Some d) \<Rightarrow> Some d | _ \<Rightarrow> None) defs"

lemma index_fold:
  "\<forall>d \<in> set (loaded defs). \<forall>t. td_subs d = Some t \<longrightarrow> distinct (jkeys t) \<Longrightarrow>
   index_entries (fold (\<lambda>r idx. case r of
          Inr (Some d) \<Rightarrow> (case td_subs d of None \<Rightarrow> idx | Some t \<Rightarrow> fold (index_one (td_type d)) t idx)
        | _ \<Rightarrow> idx) defs idx) name = index_entries idx name @ declared_subscribers (loaded defs) name"
proof (induction defs arbitrary: idx)
  case Nil
  then show ?case by (simp add: loaded_def declared_subscribers_def List.map_filter_simps)
next
  case (Cons r defs)
  show ?case
  proof (cases "\<exists>d. r = Inr (Some d)")
    case True
    then obtain d where r: "r = Inr (Some d)" ..
    then have l: "loaded (r # defs) = d # loaded defs" by (simp add: loaded_def List.map_filter_simps)
    show ?thesis
    proof (cases "td_subs d")
      case None
      with Cons r l show ?thesis by (simp add: declared_subscribers_def subscription_for_def)
    next
      case (Some t)
      with Cons.prems l have "distinct (jkeys t)" by simp
      from index_table [OF this, of "td_type d" idx name] Cons.IH Cons.prems l r Some
      show ?thesis by (simp add: declared_subscribers_def subscription_for_def split: option.split)
    qed
  next
    case False
    then have l: "loaded (r # defs) = loaded defs" by (auto simp: loaded_def List.map_filter_simps split: sum.splits option.splits)
    with False Cons.IH [of idx] Cons.prems show ?thesis by (auto split: sum.splits option.splits)
  qed
qed

lemma count_fold:
  "fold (\<lambda>s. count_delivery (f s)) order rep
     = rep\<lparr>pr_delivered := pr_delivered rep + length (filter (\<lambda>s. f s = None) order), pr_failures := pr_failures rep @ List.map_filter f order\<rparr>"
  by (induction order arbitrary: rep) (auto simp: count_delivery_def List.map_filter_simps split: option.split)

lemma filter_split_length: "length (filter (\<lambda>s. f s = None) xs) + length (List.map_filter f xs) = length xs"
  by (induction xs) (auto simp: List.map_filter_simps split: option.split)

subsection \<open>Properties\<close>

text \<open>
  The index is the declarations. A build of the subscriber index either rejects with the error of a loader that failed, or lists
  under every topic name exactly the types that declare a subscription to it, in registry order and with their mappers, and the
  delivery to such a type finds the subscription the index listed.
\<close>

theorem index_is_the_declarations:
  assumes "\<forall>d \<in> set (loaded defs). \<forall>t. td_subs d = Some t \<longrightarrow> distinct (jkeys t)"
  shows "case build_topic_index defs of
      Inl e \<Rightarrow> Inl e \<in> set defs
    | Inr idx \<Rightarrow> (\<forall>r \<in> set defs. \<not> isl r) \<and> index_entries idx name = declared_subscribers (loaded defs) name
        \<and> (\<forall>s \<in> set (index_entries idx name). \<exists>d \<in> set (loaded defs). sb_type s = td_type d \<and> (\<exists>u. subscription_for d name = Some u \<and> sb_map s = sub_mapper u))"
proof (cases "List.find (\<lambda>r. isl r) defs")
  case None
  let ?idx = "fold (\<lambda>r idx. case r of
          Inr (Some d) \<Rightarrow> (case td_subs d of None \<Rightarrow> idx | Some t \<Rightarrow> fold (index_one (td_type d)) t idx)
        | _ \<Rightarrow> idx) defs []"
  have "index_entries ?idx name = declared_subscribers (loaded defs) name"
    using index_fold [OF assms, of "[]" name] by (simp add: index_entries_def)
  moreover have "\<forall>r \<in> set defs. \<not> isl r" using None find_None_mem by fastforce
  moreover have "\<forall>s \<in> set (declared_subscribers (loaded defs) name). \<exists>d \<in> set (loaded defs). sb_type s = td_type d
      \<and> (\<exists>u. subscription_for d name = Some u \<and> sb_map s = sub_mapper u)"
    by (auto simp: declared_subscribers_def split: option.splits) metis
  ultimately show ?thesis using None by (simp add: build_topic_index_def)
next
  case (Some r)
  then have "r \<in> set defs" "isl r" using find_Some_mem [OF Some] by simp_all
  with Some show ?thesis by (cases r) (simp_all add: build_topic_index_def)
qed

text \<open>
  C17. A publish accounts for everyone. Whatever order the deliveries settle in and whatever throws, a mapper, a handler or a hop, the
  report counts each subscriber once: the delivered are those without a failure, each of the others has one entry,
  and which ones these are depends on no other subscriber.
\<close>

theorem publish_accounts_for_everyone:
  assumes "mset order = mset entries"
  shows "let rep = publish_to dispatch ev mode order in
     pr_subscribers rep = length entries \<and> pr_delivered rep + length (pr_failures rep) = length entries \<and> pr_delivery rep = mode
     \<and> pr_delivered rep = length (filter (\<lambda>s. deliver_one dispatch ev mode s = None) entries)
     \<and> mset (pr_failures rep) = mset (List.map_filter (deliver_one dispatch ev mode) entries)"
proof -
  let ?f = "deliver_one dispatch ev mode"
  have l: "length order = length entries" by (rule mset_eq_length [OF assms])
  have "length (filter (\<lambda>s. ?f s = None) order) = length (filter (\<lambda>s. ?f s = None) entries)"
    by (metis assms mset_filter size_mset)
  moreover have "mset (List.map_filter ?f order) = mset (List.map_filter ?f entries)"
    using arg_cong [OF assms, of "\<lambda>m. image_mset (the \<circ> ?f) (filter_mset (\<lambda>s. ?f s \<noteq> None) m)"]
    by (simp add: List.map_filter_def)
  ultimately show ?thesis using l filter_split_length [of ?f order] by (simp add: publish_to_def count_fold Let_def)
qed

text \<open>
  A failed build of the index is never published from: in every interleaving of publishes with builds that resolve or
  reject, the build a publish is given has not been rejected before, and an old rejection leaves a newer build in the memo.
\<close>

theorem rejected_index_is_rebuilt:
  assumes "reach memo_start memo_step m"
  shows "fst (subscriber_index m) \<notin> set (im_failed m)
    \<and> (\<forall>b c. im_memo m = Some c \<longrightarrow> c \<noteq> b \<longrightarrow> fst (subscriber_index (build_fails b m)) = c)"
  using index_memo.reach_inv [OF assms] by (auto simp: memo_ok_def subscriber_index_def build_fails_def split: option.splits)

lemma made_topic_passes:
  "make_topic name key = Inr t \<Longrightarrow> assert_topic (Text (tp_name t)) (Text (tp_key t)) = None \<and> CHR ''#'' \<notin> set (tp_name t) \<and> nul \<notin> set (tp_name t @ tp_key t)"
  by (auto simp: make_topic_def assert_topic_def topic_name_objection_def valid_topic_key_def Let_def split: if_splits option.splits)

subsection \<open>Witnesses\<close>

definition topic_defs :: "(string + nat topic_def option) list" where
  "topic_defs = [Inr (Some \<lparr>td_type = ''audit'', td_subs = Some [(''paid'', Plain_Handler 1)]\<rparr>), Inr None,
     Inr (Some \<lparr>td_type = ''ledger'', td_subs = Some [(''paid'', Sub_Object (Some (\<lambda>k. Maps_To [])) (Some 2)), (''sent'', Plain_Handler 3)]\<rparr>)]"

theorem index_is_the_declarations_witness:
  "map sb_type (case build_topic_index topic_defs of Inl e \<Rightarrow> [] | Inr idx \<Rightarrow> index_entries idx ''paid'') = [''audit'', ''ledger'']"
proof -
  have d: "\<forall>d \<in> set (loaded topic_defs). \<forall>t. td_subs d = Some t \<longrightarrow> distinct (jkeys t)"
    by (simp add: topic_defs_def loaded_def List.map_filter_simps)
  have "map sb_type (declared_subscribers (loaded topic_defs) ''paid'') = [''audit'', ''ledger'']" 
    by (simp add: topic_defs_def loaded_def List.map_filter_simps declared_subscribers_def subscription_for_def)
  moreover have "\<not> isl (build_topic_index topic_defs)" by (simp add: build_topic_index_def topic_defs_def)
  ultimately show ?thesis using index_is_the_declarations [OF d, of "''paid''"] by (cases "build_topic_index topic_defs") simp_all
qed

definition demo_order :: "subscriber list" where
  "demo_order = [\<lparr>sb_type = ''ledger'', sb_map = Some (\<lambda>k. Maps_To [])\<rparr>, \<lparr>sb_type = ''audit'', sb_map = None\<rparr>]"

theorem publish_accounts_for_everyone_witness:
  "pr_delivered (publish_to (\<lambda>r e o'. None :: string option) (publish_event \<lparr>tp_name = ''paid'', tp_key = ''k''\<rparr> () 0 None) Settled_Delivery demo_order) = 1"
proof -
  let ?ev = "publish_event \<lparr>tp_name = ''paid'', tp_key = ''k''\<rparr> () 0 None"
  have m: "mset demo_order = mset (rev demo_order)" by simp
  have "length (filter (\<lambda>s. deliver_one (\<lambda>r e o'. None :: string option) ?ev Settled_Delivery s = None) (rev demo_order)) = 1"
    by (simp add: demo_order_def deliver_one_def mapped_key_def publish_event_def)
  with publish_accounts_for_everyone [OF m, of "\<lambda>r e o'. None :: string option" ?ev Settled_Delivery] show ?thesis by (simp add: Let_def)
qed

theorem rejected_index_is_rebuilt_witness:
  "fst (subscriber_index (build_fails 0 (snd (subscriber_index \<lparr>im_memo = None, im_next = 0, im_building = [], im_failed = []\<rparr>)))) \<notin> {0}"
proof -
  let ?m = "\<lparr>im_memo = None, im_next = 0, im_building = [], im_failed = []\<rparr>"
  have "reach memo_start memo_step ?m" by (rule reach_init) (simp add: memo_start_def)
  then have "reach memo_start memo_step (snd (subscriber_index ?m))" by (rule reach_step) (rule publishes)
  then have "reach memo_start memo_step (build_fails 0 (snd (subscriber_index ?m)))"
    by (rule reach_step) (rule rejects, simp add: subscriber_index_def)
  from rejected_index_is_rebuilt [OF this] show ?thesis by (simp add: build_fails_def subscriber_index_def)
qed

end
