(* ===== verification/Jobs.thy ===== *)
theory Jobs
  imports Machines
begin

section \<open>Durable jobs\<close>

text \<open>
  \<open>job/define-job.ts\<close>: the state machine \<open>defineJob\<close> puts over an actor with one detached task. Method bodies, the
  turns of the run and reminder deliveries are serialized turns, so each is one function of the world, every await
  inside it included; the run is what moves between them. The outcome of each call that reaches storage or the
  reminders is the next entry of \<open>jw_faults\<close> (an exhausted list answers): it may fail without effect, or fail after
  it landed. The runtime underneath is taken from \<^verbatim>\<open>Detached_Tasks\<close> (one run per name, resumed from the derived
  ledger on activation and by the liveness tick), \<^verbatim>\<open>Save_Gate\<close> (saves, appends, the debounced flush) and
  \<^verbatim>\<open>Activation_Seed\<close> (a record with its log replays to the folded state). User values are of one type; a field
  that starts as \<open>null\<close> is an option. The handler's own use of \<open>reminders\<close> and a body that keeps its handle
  after it has returned are not modelled.
\<close>

datatype job_status = Pending_Job | Running_Job | Paused_Job | Completed_Job | Failed_Job | Cancelled_Job

definition terminal :: "job_status \<Rightarrow> bool" where
  "terminal st \<longleftrightarrow> st \<in> {Completed_Job, Failed_Job, Cancelled_Job}"

lemma terminal_simps [simp]: "\<not> terminal Pending_Job" "\<not> terminal Running_Job" "\<not> terminal Paused_Job"
  "terminal Completed_Job" "terminal Failed_Job" "terminal Cancelled_Job"
  by (simp_all add: terminal_def)

datatype job_error = Job_State_Error job_status | Job_Not_Done job_status | Job_Failed "string option" | Job_Was_Cancelled
  | Runtime_Error string

record 'v job_state =
  js_status :: job_status
  js_input :: "'v option"
  js_checkpoint :: "'v option"
  js_result :: "'v option"
  js_error :: "string option"
  js_progress :: "'v option"
  js_attempts :: nat
  js_started :: "int option"
  js_finished :: "int option"
  js_resume_data :: "'v option"
  js_principal :: "string option"
  js_extra :: 'v

record 'v job_info =
  ji_key :: string
  ji_status :: job_status
  ji_progress :: "'v option"
  ji_attempts :: nat
  ji_started :: "int option"
  ji_finished :: "int option"
  ji_error :: "string option"
  ji_extra :: 'v

text \<open>
  \<open>JobOptions\<close>, with the key of the actor, the empty object, and whether the storage can append. \<open>jd_apply cp e\<close> is
  the checkpoint as the reducer's in-place writes left it, and what it returned.
\<close>

record 'v job_def =
  jd_key :: string
  jd_max :: nat
  jd_retain :: "int option"
  jd_settled :: bool
  jd_state :: "'v option"
  jd_empty :: 'v
  jd_apply :: "('v option \<Rightarrow> 'v \<Rightarrow> 'v option \<times> 'v option) option"
  jd_seam :: bool

datatype job_phase = Opening | Working nat | Ending

record 'v job_run =
  jr_restarts :: nat
  jr_input :: "'v option"
  jr_cancelled :: bool
  jr_phase :: job_phase

datatype io = Io_Ok | Io_Fails | Io_Lands_But_Fails

text \<open>
  The live state and the record, the task, the retention reminder, an eventual save outstanding, the abort signal
  of the activation and its wish to go. \<open>jw_told\<close> are the calls of \<open>onSettled\<close>; \<open>jw_resumed\<close>
  is there for the properties: the attempts that reached the body on a crash-resume of this record.
\<close>

record 'v job_world =
  jw_live :: "'v job_state"
  jw_stored :: "'v job_state option"
  jw_run :: "'v job_run option"
  jw_retained :: bool
  jw_owed :: bool
  jw_leaving :: bool
  jw_asked :: bool
  jw_faults :: "io list"
  jw_told :: "job_status list"
  jw_resumed :: "nat list"

type_synonym ('v, 'a) job_io = "'v job_world \<Rightarrow> (job_error + 'a) \<times> 'v job_world"

subsection \<open>Effects\<close>

named_theorems job_io \<open>the effects a turn is made of\<close>

definition then_io :: "('v, 'a) job_io \<Rightarrow> ('a \<Rightarrow> ('v, 'b) job_io) \<Rightarrow> ('v, 'b) job_io" where [job_io]:
  "then_io m k w = (case m w of (Inl e, w') \<Rightarrow> (Inl e, w') | (Inr x, w') \<Rightarrow> k x w')"

definition set_live :: "('v job_state \<Rightarrow> 'v job_state) \<Rightarrow> 'v job_world \<Rightarrow> 'v job_world" where [job_io]:
  "set_live f w = w\<lparr>jw_live := f (jw_live w)\<rparr>"

definition next_io :: "'v job_world \<Rightarrow> io \<times> 'v job_world" where [job_io]:
  "next_io w = (case jw_faults w of [] \<Rightarrow> (Io_Ok, w) | f # fs \<Rightarrow> (f, w\<lparr>jw_faults := fs\<rparr>))"

definition io_effect :: "('v job_world \<Rightarrow> 'v job_world) \<Rightarrow> ('v, unit) job_io" where [job_io]:
  "io_effect f w = (case next_io w of (Io_Ok, w') \<Rightarrow> (Inr (), f w') | (Io_Fails, w') \<Rightarrow> (Inl (Runtime_Error ''io''), w')
     | (Io_Lands_But_Fails, w') \<Rightarrow> (Inl (Runtime_Error ''io''), f w'))"

definition save_now :: "('v, unit) job_io" where [job_io]:
  "save_now = then_io (io_effect (\<lambda>w. w\<lparr>jw_stored := Some (jw_live w)\<rparr>)) (\<lambda>_ w. (Inr (), w\<lparr>jw_owed := False\<rparr>))"

definition save_job :: "bool \<Rightarrow> ('v, unit) job_io" where [job_io]:
  "save_job eventual w = (if eventual then (Inr (), w\<lparr>jw_owed := True\<rparr>) else save_now w)"

definition fresh_job :: "'v job_def \<Rightarrow> 'v job_state" where
  "fresh_job d = \<lparr>js_status = Pending_Job, js_input = None, js_checkpoint = None, js_result = None, js_error = None,
     js_progress = None, js_attempts = 0, js_started = None, js_finished = None, js_resume_data = None, js_principal = None,
     js_extra = (case jd_state d of None \<Rightarrow> jd_empty d | Some x \<Rightarrow> x)\<rparr>"

text \<open>\<open>ctx.clearState\<close>: the record is deleted first, and only then the live state is reset.\<close>

definition clear_job :: "'v job_def \<Rightarrow> ('v, unit) job_io" where [job_io]:
  "clear_job d = then_io (io_effect (\<lambda>w. w\<lparr>jw_stored := None, jw_resumed := []\<rparr>))
     (\<lambda>_ w. (Inr (), w\<lparr>jw_owed := False, jw_live := fresh_job d\<rparr>))"

definition set_retention :: "('v, unit) job_io" where [job_io]:
  "set_retention = io_effect (\<lambda>w. w\<lparr>jw_retained := True\<rparr>)"

definition clear_retention :: "('v, unit) job_io" where [job_io]:
  "clear_retention = io_effect (\<lambda>w. w\<lparr>jw_retained := False\<rparr>)"

text \<open>\<open>tasks.start(RUN, input)\<close> on a derived ledger: only the roster is written.\<close>

definition start_run :: "('v, unit) job_io" where [job_io]:
  "start_run w = (if jw_leaving w then (Inl (Runtime_Error ''shutdown''), w)
     else if jw_run w \<noteq> None then (Inr (), w)
     else case next_io w of
         (Io_Ok, w) \<Rightarrow> (Inr (), w\<lparr>jw_run := Some \<lparr>jr_restarts = 0, jr_input = js_input (jw_live w), jr_cancelled = False, jr_phase = Opening\<rparr>\<rparr>)
       | (_, w) \<Rightarrow> (Inl (Runtime_Error ''io''), w))"

definition cancel_run :: "'v job_world \<Rightarrow> 'v job_world" where [job_io]:
  "cancel_run w = w\<lparr>jw_run := map_option (\<lambda>r. r\<lparr>jr_cancelled := True\<rparr>) (jw_run w)\<rparr>"

subsection \<open>Transitions\<close>

definition to_info :: "'v job_def \<Rightarrow> 'v job_state \<Rightarrow> 'v job_info" where
  "to_info d s = \<lparr>ji_key = jd_key d, ji_status = js_status s, ji_progress = js_progress s, ji_attempts = js_attempts s,
     ji_started = js_started s, ji_finished = js_finished s, ji_error = js_error s, ji_extra = js_extra s\<rparr>"

definition live_info :: "'v job_def \<Rightarrow> 'v job_world \<Rightarrow> 'v job_info" where
  "live_info d w = (let s = jw_live w in
     \<lparr>ji_key = jd_key d, ji_status = js_status s, ji_progress = js_progress s, ji_attempts = js_attempts s,
      ji_started = js_started s, ji_finished = js_finished s, ji_error = js_error s,
      ji_extra = (if jd_state d \<noteq> None then js_extra s else jd_empty d)\<rparr>)"

definition finish :: "'v job_def \<Rightarrow> int \<Rightarrow> job_status \<Rightarrow> ('v job_state \<Rightarrow> 'v job_state) \<Rightarrow> ('v, unit) job_io" where [job_io]:
  "finish d now st patch w =
     then_io save_now (\<lambda>_. then_io (\<lambda>w. if jd_retain d \<noteq> None then set_retention w else (Inr (), w))
       (\<lambda>_ w. (Inr (), if jd_settled d then w\<lparr>jw_told := jw_told w @ [st]\<rparr> else w)))
     (set_live (\<lambda>s. patch (s\<lparr>js_status := st, js_finished := Some now, js_resume_data := None\<rparr>)) w)"

definition launch :: "('v job_state \<Rightarrow> 'v job_state) \<Rightarrow> ('v, unit) job_io" where [job_io]:
  "launch prior w = (case start_run w of
       (Inr _, w) \<Rightarrow> (Inr (), w)
     | (Inl e, w) \<Rightarrow> (case save_now (set_live prior w) of
           (Inr _, w') \<Rightarrow> (Inl e, w')
         | (Inl _, w') \<Rightarrow> (Inl e, w'\<lparr>jw_live := jw_live w\<rparr>)))"

definition do_cancel :: "'v job_def \<Rightarrow> int \<Rightarrow> ('v, unit) job_io" where [job_io]:
  "do_cancel d now w = (let st = js_status (jw_live w) in
     if st = Pending_Job \<or> terminal st then (Inr (), w)
     else then_io (finish d now Cancelled_Job id) (\<lambda>_ w. (Inr (), cancel_run w)) w)"

definition do_resume :: "'v option \<Rightarrow> bool \<Rightarrow> ('v, unit) job_io" where [job_io]:
  "do_resume data strict w = (let s = jw_live w in
     if js_status s \<noteq> Paused_Job then (if strict then Inl (Job_State_Error (js_status s)) else Inr (), w)
     else then_io save_now (\<lambda>_. launch (\<lambda>s'. s'\<lparr>js_status := Paused_Job, js_resume_data := js_resume_data s\<rparr>))
            (set_live (\<lambda>s. s\<lparr>js_status := Running_Job, js_resume_data := data\<rparr>) w))"

subsection \<open>Methods\<close>

definition start_job :: "'v job_def \<Rightarrow> int \<Rightarrow> 'v option \<Rightarrow> string option \<Rightarrow> ('v, 'v job_info) job_io" where [job_io]:
  "start_job d now input who w =
     (if js_status (jw_live w) \<noteq> Pending_Job then (Inr (live_info d w), w)
      else then_io save_now (\<lambda>_. then_io (launch (\<lambda>s. s\<lparr>js_status := Pending_Job, js_input := None, js_attempts := 0,
                                                     js_started := None, js_principal := None\<rparr>))
                                         (\<lambda>_ w. (Inr (live_info d w), w)))
             (set_live (\<lambda>s. s\<lparr>js_status := Running_Job, js_input := input, js_attempts := 1, js_started := Some now,
                                js_principal := who\<rparr>) w))"

definition cancel_job :: "'v job_def \<Rightarrow> int \<Rightarrow> ('v, 'v job_info) job_io" where [job_io]:
  "cancel_job d now = then_io (do_cancel d now) (\<lambda>_ w. (Inr (live_info d w), w))"

definition resume_job :: "'v job_def \<Rightarrow> 'v option \<Rightarrow> ('v, 'v job_info) job_io" where [job_io]:
  "resume_job d data = then_io (do_resume data True) (\<lambda>_ w. (Inr (live_info d w), w))"

definition result_job :: "'v job_state \<Rightarrow> job_error + 'v option" where
  "result_job s = (case js_status s of Completed_Job \<Rightarrow> Inr (js_result s) | Failed_Job \<Rightarrow> Inl (Job_Failed (js_error s))
     | Cancelled_Job \<Rightarrow> Inl Job_Was_Cancelled | st \<Rightarrow> Inl (Job_Not_Done st))"

definition discard_job :: "'v job_def \<Rightarrow> ('v, unit) job_io" where [job_io]:
  "discard_job d w = (let st = js_status (jw_live w) in
     if \<not> terminal st then (Inl (Job_State_Error st), w)
     else then_io (\<lambda>w. if jd_retain d \<noteq> None then clear_retention w else (Inr (), w))
            (\<lambda>_. then_io (clear_job d) (\<lambda>_ w. (Inr (), w\<lparr>jw_asked := True\<rparr>))) w)"

text \<open>\<open>onReminder\<close> for the retention reminder, which is one-shot: firing disarms it.\<close>

definition retention_fires :: "'v job_def \<Rightarrow> ('v, unit) job_io" where [job_io]:
  "retention_fires d w = (let w = w\<lparr>jw_retained := False\<rparr> in
     if terminal (js_status (jw_live w)) then then_io (clear_job d) (\<lambda>_ w. (Inr (), w\<lparr>jw_asked := True\<rparr>)) w
     else (Inr (), w))"

subsection \<open>The run\<close>

text \<open>The attempt this run counts as, and the resume data handed over.\<close>

definition attempt_counted :: "nat \<Rightarrow> 'v job_world \<Rightarrow> 'v job_world" where
  "attempt_counted n = set_live (\<lambda>s. if js_attempts s < Suc n then s\<lparr>js_attempts := Suc n\<rparr> else s)"

definition taken :: "'v job_world \<Rightarrow> 'v job_world" where
  "taken = set_live (\<lambda>s. s\<lparr>js_resume_data := None\<rparr>)"

definition gave_up_text :: "'v job_def \<Rightarrow> string" where
  "gave_up_text d = ''gave up after '' @ show_nat (jd_max d) @ '' attempts (crash-resume loop)''"

text \<open>
  The first turn of the task: \<open>Inr None\<close> refuses, \<open>Inr (Some \<dots>)\<close> is what the body is called with. An error
  leaves the task body.
\<close>

definition open_turn :: "'v job_def \<Rightarrow> int \<Rightarrow> nat \<Rightarrow> ('v, (nat \<times> 'v option \<times> 'v option \<times> string option) option) job_io" where [job_io]:
  "open_turn d now restarts w = (let attempt = Suc restarts in
     if js_status (jw_live w) \<noteq> Running_Job then (Inr None, w)
     else let w = attempt_counted restarts w
     in if jd_max d < js_attempts (jw_live w)
        then then_io (finish d now Failed_Job (\<lambda>s. s\<lparr>js_error := Some (gave_up_text d)\<rparr>)) (\<lambda>_ w. (Inr None, w)) w
        else let s = jw_live w; given = (attempt, js_checkpoint s, js_resume_data s, js_principal s);
                 w = taken w
        in if 1 < attempt then then_io save_now (\<lambda>_ w. (Inr (Some given), w)) w else (Inr (Some given), w))"

definition with_phase :: "job_phase \<Rightarrow> 'v job_world \<Rightarrow> 'v job_world" where [job_io]:
  "with_phase ph w = w\<lparr>jw_run := map_option (\<lambda>r. r\<lparr>jr_phase := ph\<rparr>) (jw_run w)\<rparr>"

definition open_run :: "'v job_def \<Rightarrow> int \<Rightarrow> nat \<Rightarrow> 'v job_world \<Rightarrow> 'v job_world" where [job_io]:
  "open_run d now restarts w = (case open_turn d now restarts w of
       (Inr (Some (a, _)), w) \<Rightarrow> with_phase (Working a) (if 1 < a then w\<lparr>jw_resumed := jw_resumed w @ [a]\<rparr> else w)
     | (_, w) \<Rightarrow> with_phase Ending w)"

text \<open>The handle: every member is a turn that does nothing unless the job is still running.\<close>

definition while_running :: "('v, unit) job_io \<Rightarrow> ('v, unit) job_io" where [job_io]:
  "while_running m w = (if js_status (jw_live w) = Running_Job then m w else (Inr (), w))"

definition progress_job :: "'v \<Rightarrow> ('v, unit) job_io" where [job_io]:
  "progress_job p = while_running (\<lambda>w. (Inr (), set_live (\<lambda>s. s\<lparr>js_progress := Some p\<rparr>) w))"

definition checkpoint_job :: "'v \<Rightarrow> bool \<Rightarrow> ('v, unit) job_io" where [job_io]:
  "checkpoint_job cp eventual = while_running (\<lambda>w. save_job eventual (set_live (\<lambda>s. s\<lparr>js_checkpoint := Some cp\<rparr>) w))"

definition apply_entry :: "('v option \<Rightarrow> 'v \<Rightarrow> 'v option \<times> 'v option) \<Rightarrow> 'v \<Rightarrow> 'v job_state \<Rightarrow> 'v job_state" where [job_io]:
  "apply_entry f e s = (case f (js_checkpoint s) e of (touched, Some cp) \<Rightarrow> s\<lparr>js_checkpoint := Some cp\<rparr>
     | (touched, None) \<Rightarrow> s\<lparr>js_checkpoint := touched\<rparr>)"

text \<open>\<open>ctx.append\<close>: the entry joins the log of the record where there is one and the storage has the seam, and
  the whole state is saved otherwise.\<close>

definition append_job :: "'v job_def \<Rightarrow> 'v \<Rightarrow> ('v, unit) job_io" where [job_io]:
  "append_job d e = while_running (\<lambda>w. case jd_apply d of
       None \<Rightarrow> (Inl (Runtime_Error ''no reducer''), w)
     | Some f \<Rightarrow> let w = set_live (apply_entry f e) w
         in if jd_seam d \<and> jw_stored w \<noteq> None then io_effect (\<lambda>w. w\<lparr>jw_stored := map_option (apply_entry f e) (jw_stored w)\<rparr>) w
            else save_now w)"

definition update_job :: "('v \<Rightarrow> 'v) \<Rightarrow> ('v, unit) job_io" where [job_io]:
  "update_job f = while_running (\<lambda>w. (Inr (), set_live (\<lambda>s. s\<lparr>js_extra := f (js_extra s)\<rparr>) w))"

definition pause_job :: "'v \<Rightarrow> ('v, unit) job_io" where [job_io]:
  "pause_job cp = while_running (\<lambda>w. save_now (set_live (\<lambda>s. s\<lparr>js_checkpoint := Some cp, js_status := Paused_Job\<rparr>) w))"

text \<open>What follows \<open>options.run\<close>, for a body that returned a value and for one that threw.\<close>

definition run_throws :: "'v job_def \<Rightarrow> int \<Rightarrow> string \<Rightarrow> bool \<Rightarrow> 'v job_world \<Rightarrow> 'v job_world" where [job_io]:
  "run_throws d now msg aborted w = (if aborted then w
     else snd (while_running (finish d now Failed_Job (\<lambda>s. s\<lparr>js_error := Some msg\<rparr>)) w))"

definition run_returns :: "'v job_def \<Rightarrow> int \<Rightarrow> 'v \<Rightarrow> bool \<Rightarrow> 'v job_world \<Rightarrow> 'v job_world" where [job_io]:
  "run_returns d now out aborted w = (if aborted then w
     else case while_running (\<lambda>w. finish d now Completed_Job (\<lambda>s. s\<lparr>js_result := Some out\<rparr>) (set_live (\<lambda>s. s\<lparr>js_progress := None\<rparr>) w)) w of
         (Inr _, w) \<Rightarrow> w
       | (Inl e, w) \<Rightarrow> run_throws d now (case e of Runtime_Error m \<Rightarrow> m | _ \<Rightarrow> ''job'') aborted w)"

text \<open>The derived ledger, what activation and the liveness tick start from it, and a new activation of the record.\<close>

definition resume_tasks :: "'v job_state \<Rightarrow> ('v option \<times> nat) option" where
  "resume_tasks s = (if js_status s = Running_Job then Some (js_input s, js_attempts s - 1) else None)"

definition resume_run :: "'v job_world \<Rightarrow> 'v job_world" where [job_io]:
  "resume_run w = (if jw_leaving w \<or> jw_run w \<noteq> None then w else case resume_tasks (jw_live w) of None \<Rightarrow> w
     | Some (input, restarts) \<Rightarrow>
         w\<lparr>jw_run := Some \<lparr>jr_restarts = Suc restarts, jr_input = input, jr_cancelled = False, jr_phase = Opening\<rparr>\<rparr>)"

definition reactivate :: "'v job_def \<Rightarrow> 'v job_world \<Rightarrow> 'v job_world" where [job_io]:
  "reactivate d w = resume_run (w\<lparr>jw_live := (case jw_stored w of None \<Rightarrow> fresh_job d | Some s \<Rightarrow> s), jw_run := None,
     jw_owed := False, jw_leaving := False, jw_asked := False\<rparr>)"

definition flush_job :: "'v job_world \<Rightarrow> 'v job_world" where [job_io]:
  "flush_job w = (if jw_owed w then snd (save_now w) else w)"

subsection \<open>A job over time\<close>

text \<open>
  What can happen to a job, one turn (or one move of its task) at a time: the calls of its clients, the controls of
  \<open>onReminder\<close>, the retention reminder, the turns the body asks for, its end and, a little later, the release of
  its name, the debounce, the liveness tick, a deactivation that begins, and the activation that replaces this one
  after a deactivation (which flushes) or the death of the host (which does not).
\<close>

datatype 'v job_event =
    Start_Call "'v option" "string option" | Cancel_Call | Resume_Call "'v option" | Discard_Call | Control_Resume "'v option"
  | Retention | Opens | Makes_Progress 'v | Checkpoints 'v bool | Appends 'v | Updates "'v \<Rightarrow> 'v" | Pauses 'v
  | Returns 'v | Returns_Paused | Throws string | Settles | Debounce | Tick | Leaves | Deactivates | Dies

definition in_body :: "'v job_world \<Rightarrow> bool" where
  "in_body w \<longleftrightarrow> (case jw_run w of Some r \<Rightarrow> (case jr_phase r of Working _ \<Rightarrow> True | _ \<Rightarrow> False) | None \<Rightarrow> False)"

definition run_aborted :: "'v job_world \<Rightarrow> bool" where
  "run_aborted w \<longleftrightarrow> jw_leaving w \<or> (case jw_run w of Some r \<Rightarrow> jr_cancelled r | None \<Rightarrow> False)"

definition run_phase :: "'v job_world \<Rightarrow> job_phase option" where
  "run_phase w = map_option jr_phase (jw_run w)"

fun job_does :: "'v job_def \<Rightarrow> int \<Rightarrow> 'v job_event \<Rightarrow> 'v job_world \<Rightarrow> 'v job_world" where
  "job_does d now (Start_Call input who) w = snd (start_job d now input who w)"
| "job_does d now Cancel_Call w = snd (cancel_job d now w)"
| "job_does d now (Resume_Call data) w = snd (resume_job d data w)"
| "job_does d now Discard_Call w = snd (discard_job d w)"
| "job_does d now (Control_Resume data) w = snd (do_resume data False w)"
| "job_does d now Retention w = (if jw_retained w then snd (retention_fires d w) else w)"
| "job_does d now Opens w = (case jw_run w of Some r \<Rightarrow> if jr_phase r = Opening then open_run d now (jr_restarts r) w else w | None \<Rightarrow> w)"
| "job_does d now (Makes_Progress p) w = (if in_body w then snd (progress_job p w) else w)"
| "job_does d now (Checkpoints cp eventual) w = (if in_body w then snd (checkpoint_job cp eventual w) else w)"
| "job_does d now (Appends e) w = (if in_body w then snd (append_job d e w) else w)"
| "job_does d now (Updates f) w = (if in_body w then snd (update_job f w) else w)"
| "job_does d now (Pauses cp) w = (if in_body w then snd (pause_job cp w) else w)"
| "job_does d now (Returns out) w = (if in_body w then with_phase Ending (run_returns d now out (run_aborted w) w) else w)"
| "job_does d now Returns_Paused w = (if in_body w then with_phase Ending w else w)"
| "job_does d now (Throws msg) w = (if in_body w then with_phase Ending (run_throws d now msg (run_aborted w) w) else w)"
| "job_does d now Settles w = (if run_phase w = Some Ending then w\<lparr>jw_run := None\<rparr> else w)"
| "job_does d now Debounce w = flush_job w"
| "job_does d now Tick w = resume_run w"
| "job_does d now Leaves w = w\<lparr>jw_leaving := True\<rparr>"
| "job_does d now Deactivates w = reactivate d (flush_job w)"
| "job_does d now Dies w = reactivate d w"

definition job_step :: "bool \<Rightarrow> 'v job_def \<Rightarrow> 'v job_world \<Rightarrow> 'v job_world \<Rightarrow> bool" where
  "job_step faulty d w w' \<longleftrightarrow> (\<exists>now ev fs. (fs = [] \<or> faulty) \<and> w' = job_does d now ev (w\<lparr>jw_faults := fs\<rparr>))"

definition new_job :: "'v job_def \<Rightarrow> 'v job_world" where
  "new_job d = \<lparr>jw_live = fresh_job d, jw_stored = None, jw_run = None, jw_retained = False, jw_owed = False,
     jw_leaving = False, jw_asked = False, jw_faults = [], jw_told = [], jw_resumed = []\<rparr>"

definition job_begin :: "'v job_def \<Rightarrow> 'v job_world \<Rightarrow> bool" where
  "job_begin d w \<longleftrightarrow> w = new_job d"

text \<open>A script of events, each with its clock and the outcomes of its storage calls.\<close>

definition job_run_script :: "'v job_def \<Rightarrow> (int \<times> 'v job_event \<times> io list) list \<Rightarrow> 'v job_world \<Rightarrow> 'v job_world" where
  "job_run_script d evs w = foldl (\<lambda>w (now, ev, fs). job_does d now ev (w\<lparr>jw_faults := fs\<rparr>)) w evs"

lemma job_script_reach:
  "reach (job_begin d) (job_step faulty d) w \<Longrightarrow> faulty \<or> (\<forall>(now, ev, fs) \<in> set evs. fs = [])
     \<Longrightarrow> reach (job_begin d) (job_step faulty d) (job_run_script d evs w)"
proof (induction evs arbitrary: w)
  case (Cons x evs)
  obtain now ev fs where x: "x = (now, ev, fs)" by (cases x) auto
  with Cons.prems have "job_step faulty d w (job_does d now ev (w\<lparr>jw_faults := fs\<rparr>))" by (auto simp: job_step_def)
  with Cons x show ?case by (auto simp: job_run_script_def intro: reach_step)
qed (simp add: job_run_script_def)

lemma new_job_reach: "reach (job_begin d) (job_step faulty d) (new_job d)"
  by (simp add: reach_init job_begin_def)

subsection \<open>What every turn keeps\<close>

text \<open>\<open>keeps P m\<close>: whatever the storage answers, \<open>m\<close> leaves the world in \<open>P\<close>; it follows the code's sequencing.\<close>

definition keeps :: "('v job_world \<Rightarrow> bool) \<Rightarrow> ('v, 'a) job_io \<Rightarrow> bool" where
  "keeps P m \<longleftrightarrow> (\<forall>w. P w \<longrightarrow> P (snd (m w)))"

named_theorems keeps \<open>operations that keep an invariant\<close>

lemma keepsD: "keeps P m \<Longrightarrow> P w \<Longrightarrow> P (snd (m w))"
  by (simp add: keeps_def)

lemma keeps_then [keeps]: "keeps P m \<Longrightarrow> (\<And>x. keeps P (k x)) \<Longrightarrow> keeps P (then_io m k)"
  by (auto simp: keeps_def then_io_def split: prod.splits sum.splits)

lemma snd_then: "P (snd (m w)) \<Longrightarrow> (\<And>x. keeps P (k x)) \<Longrightarrow> P (snd (then_io m k w))"
  by (auto simp: keeps_def then_io_def split: prod.splits sum.splits)

lemma then_io_assoc: "then_io (then_io m k) h w = then_io m (\<lambda>x. then_io (k x) h) w"
  by (auto simp: then_io_def split: prod.split sum.split)

lemma keeps_pure [keeps]: "keeps P (\<lambda>w. (r w, w))"
  by (simp add: keeps_def)

lemma keeps_if [keeps]: "keeps P m \<Longrightarrow> keeps P m' \<Longrightarrow> keeps P (\<lambda>w. if c then m w else m' w)"
  by (simp add: keeps_def)

lemma keeps_world: "(\<And>w. P w \<Longrightarrow> P (f w)) \<Longrightarrow> keeps P (\<lambda>w. (r w, f w))"
  by (simp add: keeps_def)

lemma keeps_effect:
  assumes "\<And>w fs. P w \<Longrightarrow> P (w\<lparr>jw_faults := fs\<rparr>)" "\<And>w. P w \<Longrightarrow> P (f w)"
  shows "keeps P (io_effect f)"
  using assms by (auto simp: keeps_def io_effect_def next_io_def split: io.splits list.splits prod.splits)

lemma keeps_while_running [keeps]: "keeps P m \<Longrightarrow> keeps P (while_running m)"
  by (simp add: keeps_def while_running_def)

subsection \<open>Attempts\<close>

text \<open>
  A running or paused job has been started and is within its attempts, a pending one holds nothing; the crash-resumes
  that reached the body are increasing and none is above what the record knows.
\<close>

definition state_ok :: "'v job_def \<Rightarrow> 'v job_state \<Rightarrow> bool" where
  "state_ok d s \<longleftrightarrow> js_attempts s \<le> Suc (jd_max d)
     \<and> (js_status s = Pending_Job \<longrightarrow> js_attempts s = 0 \<and> js_input s = None \<and> js_started s = None \<and> js_principal s = None)
     \<and> (js_status s \<in> {Running_Job, Paused_Job} \<longrightarrow> 1 \<le> js_attempts s \<and> js_attempts s \<le> jd_max d \<and> js_started s \<noteq> None)"

definition resumed_ok :: "'v job_def \<Rightarrow> nat list \<Rightarrow> nat \<Rightarrow> bool" where
  "resumed_ok d xs m \<longleftrightarrow> sorted_wrt (<) xs \<and> set xs \<subseteq> {2..jd_max d} \<and> set xs \<subseteq> {..m}"

fun phase_ok :: "'v job_def \<Rightarrow> nat list \<Rightarrow> nat \<Rightarrow> job_phase \<Rightarrow> bool" where
  "phase_ok d xs restarts Opening \<longleftrightarrow> restarts \<le> jd_max d \<and> (restarts = 0 \<or> set xs \<subseteq> {..restarts})"
| "phase_ok d xs restarts (Working a) \<longleftrightarrow> a \<le> jd_max d"
| "phase_ok d xs restarts Ending \<longleftrightarrow> True"

definition record_ok :: "'v job_def \<Rightarrow> nat list \<Rightarrow> 'v job_state option \<Rightarrow> bool" where
  "record_ok d xs s = (case s of None \<Rightarrow> xs = [] | Some s \<Rightarrow> state_ok d s \<and> resumed_ok d xs (js_attempts s))"

definition run_ok :: "'v job_def \<Rightarrow> nat list \<Rightarrow> 'v job_run option \<Rightarrow> bool" where
  "run_ok d xs r = (case r of None \<Rightarrow> True | Some r \<Rightarrow> phase_ok d xs (jr_restarts r) (jr_phase r))"

definition live_ok :: "'v job_def \<Rightarrow> nat list \<Rightarrow> 'v job_state \<Rightarrow> bool" where
  "live_ok d xs s \<longleftrightarrow> state_ok d s \<and> resumed_ok d xs (js_attempts s)"

definition rest_ok :: "'v job_def \<Rightarrow> 'v job_world \<Rightarrow> bool" where
  "rest_ok d w \<longleftrightarrow> 0 < jd_max d \<and> record_ok d (jw_resumed w) (jw_stored w) \<and> run_ok d (jw_resumed w) (jw_run w)"

definition job_ok :: "'v job_def \<Rightarrow> 'v job_world \<Rightarrow> bool" where
  "job_ok d w \<longleftrightarrow> live_ok d (jw_resumed w) (jw_live w) \<and> rest_ok d w"

lemma rest_ok_simps [simp]:
  "rest_ok d (w\<lparr>jw_live := s\<rparr>) = rest_ok d w" "rest_ok d (w\<lparr>jw_faults := fs\<rparr>) = rest_ok d w"
  "rest_ok d (w\<lparr>jw_retained := b\<rparr>) = rest_ok d w" "rest_ok d (w\<lparr>jw_owed := b\<rparr>) = rest_ok d w"
  "rest_ok d (w\<lparr>jw_leaving := b\<rparr>) = rest_ok d w" "rest_ok d (w\<lparr>jw_asked := b\<rparr>) = rest_ok d w"
  "rest_ok d (w\<lparr>jw_told := t\<rparr>) = rest_ok d w"
  by (simp_all add: rest_ok_def)

lemma job_ok_simps [simp]:
  "job_ok d (w\<lparr>jw_faults := fs\<rparr>) = job_ok d w"
  "job_ok d (w\<lparr>jw_retained := b\<rparr>) = job_ok d w" "job_ok d (w\<lparr>jw_owed := b\<rparr>) = job_ok d w"
  "job_ok d (w\<lparr>jw_leaving := b\<rparr>) = job_ok d w" "job_ok d (w\<lparr>jw_asked := b\<rparr>) = job_ok d w"
  "job_ok d (w\<lparr>jw_told := t\<rparr>) = job_ok d w"
  "job_ok d (w\<lparr>jw_live := s\<rparr>) \<longleftrightarrow> live_ok d (jw_resumed w) s \<and> rest_ok d w"
  by (simp_all add: job_ok_def)

lemma job_okD:
  assumes "job_ok d w"
  shows "live_ok d (jw_resumed w) (jw_live w)" "rest_ok d w" "state_ok d (jw_live w)"
    "resumed_ok d (jw_resumed w) (js_attempts (jw_live w))" "record_ok d (jw_resumed w) (jw_stored w)"
  using assms by (simp_all add: job_ok_def live_ok_def rest_ok_def)

lemma live_ok_same:
  "live_ok d xs s \<Longrightarrow> js_attempts s' = js_attempts s \<Longrightarrow> js_status s' = js_status s \<Longrightarrow> js_input s' = js_input s
     \<Longrightarrow> js_started s' = js_started s \<Longrightarrow> js_principal s' = js_principal s \<Longrightarrow> live_ok d xs s'"
  by (simp add: live_ok_def state_ok_def)

lemma live_ok_fresh: "live_ok d [] (fresh_job d)"
  by (simp add: live_ok_def state_ok_def fresh_job_def resumed_ok_def)

lemmas ok_then = snd_then [where P = "job_ok d" for d]

lemma save_now_ok [keeps]: "keeps (job_ok d) save_now"
  unfolding save_now_def
  by (intro keeps_then keeps_effect keeps_world) (simp_all add: job_ok_def live_ok_def rest_ok_def record_ok_def)

lemma retention_ok [keeps]: "keeps (job_ok d) set_retention" "keeps (job_ok d) clear_retention"
  unfolding set_retention_def clear_retention_def by (auto intro!: keeps_effect)

lemma run_ok_cleared: "run_ok d xs r \<Longrightarrow> run_ok d [] r"
  unfolding run_ok_def by (cases r; cases "jr_phase (the r)") auto

lemma forget_ok: "job_ok d w \<Longrightarrow> job_ok d (w\<lparr>jw_stored := None, jw_resumed := []\<rparr>)"
  using run_ok_cleared [of d "jw_resumed w"]
  by (auto simp: job_ok_def live_ok_def resumed_ok_def rest_ok_def record_ok_def split: option.splits)

lemma fresh_ok: "job_ok d w \<Longrightarrow> jw_resumed w = [] \<Longrightarrow> job_ok d (w\<lparr>jw_live := fresh_job d\<rparr>)"
  by (simp add: job_okD live_ok_fresh)

lemma clear_job_ok [keeps]: "keeps (job_ok d) (clear_job d)"
  using forget_ok [of d] fresh_ok [of d] live_ok_fresh [of d]
  by (auto simp: keeps_def clear_job_def then_io_def io_effect_def next_io_def split: io.splits list.splits)

lemma finish_ok:
  assumes "rest_ok d w" "resumed_ok d (jw_resumed w) (js_attempts (jw_live w))" "js_attempts (jw_live w) \<le> Suc (jd_max d)"
    and "terminal st" "\<And>s. js_status (patch s) = js_status s \<and> js_attempts (patch s) = js_attempts s"
  shows "job_ok d (snd (finish d now st patch w))"
  unfolding finish_def
proof (rule ok_then)
  have "job_ok d (set_live (\<lambda>s. patch (s\<lparr>js_status := st, js_finished := Some now, js_resume_data := None\<rparr>)) w)"
    using assms by (auto simp: set_live_def live_ok_def state_ok_def)
  then show "job_ok d (snd (save_now (set_live (\<lambda>s. patch (s\<lparr>js_status := st, js_finished := Some now, js_resume_data := None\<rparr>)) w)))"
    by (rule keepsD [OF save_now_ok])
qed (intro keeps_then keeps_if retention_ok keeps_pure keeps_world, simp)

lemma finish_job_ok: "job_ok d w \<Longrightarrow> terminal st
    \<Longrightarrow> (\<And>s. js_status (patch s) = js_status s \<and> js_attempts (patch s) = js_attempts s) \<Longrightarrow> job_ok d (snd (finish d now st patch w))"
  by (rule finish_ok) (auto simp: job_ok_def live_ok_def state_ok_def)

lemma start_run_ok [keeps]: "keeps (job_ok d) start_run"
  by (auto simp: keeps_def start_run_def next_io_def job_ok_def rest_ok_def run_ok_def split: io.splits list.splits)

lemma start_run_live: "jw_live (snd (start_run w)) = jw_live w" "jw_resumed (snd (start_run w)) = jw_resumed w"
  by (auto simp: start_run_def next_io_def split: io.splits list.splits)

lemma save_now_live: "jw_live (snd (save_now w)) = jw_live w" "jw_resumed (snd (save_now w)) = jw_resumed w"
  by (auto simp: job_io split: io.splits list.splits)

lemma launch_ok:
  assumes w: "job_ok d w" and prior: "live_ok d (jw_resumed w) (prior (jw_live w))"
  shows "job_ok d (snd (launch prior w))"
proof -
  obtain r w1 where s: "start_run w = (r, w1)" by force
  with start_run_live [of w] have live: "jw_live w1 = jw_live w" "jw_resumed w1 = jw_resumed w" by simp_all
  from s w have ok1: "job_ok d w1" using keepsD [OF start_run_ok] by fastforce
  with prior live have "job_ok d (set_live prior w1)" by (simp add: set_live_def job_okD)
  then have "job_ok d (snd (save_now (set_live prior w1)))" by (rule keepsD [OF save_now_ok])
  moreover have "jw_resumed (snd (save_now (set_live prior w1))) = jw_resumed w1" by (simp add: save_now_live set_live_def)
  ultimately have restored: "job_ok d ((snd (save_now (set_live prior w1)))\<lparr>jw_live := jw_live w1\<rparr>)" "job_ok d (snd (save_now (set_live prior w1)))"
    using ok1 by (simp_all add: job_okD)
  then show ?thesis
    using ok1 unfolding launch_def s by (cases r; cases "save_now (set_live prior w1)"; cases "fst (save_now (set_live prior w1))") simp_all
qed

lemma do_cancel_ok [keeps]: "keeps (job_ok d) (do_cancel d now)"
proof -
  have cancelled: "job_ok d w \<Longrightarrow> job_ok d (cancel_run w)" for w :: "'a job_world"
    by (auto simp: cancel_run_def job_ok_def rest_ok_def run_ok_def split: option.splits)
  have "job_ok d (snd (then_io (finish d now Cancelled_Job id) (\<lambda>_ w. (Inr (), cancel_run w)) w))"
    if "job_ok d w" for w :: "'a job_world"
    using that by (intro ok_then finish_job_ok keeps_world cancelled) simp_all
  then show ?thesis by (auto simp: keeps_def do_cancel_def Let_def)
qed

lemma save_then_launch_ok:
  assumes w: "job_ok d w" and prior: "live_ok d (jw_resumed w) (prior (jw_live w))"
  shows "job_ok d (snd (then_io save_now (\<lambda>_. launch prior) w))"
proof -
  obtain r w1 where s: "save_now w = (r, w1)" by force
  with save_now_live [of w] have live: "jw_live w1 = jw_live w" "jw_resumed w1 = jw_resumed w" by simp_all
  from s w have ok1: "job_ok d w1" using keepsD [OF save_now_ok] by fastforce
  with prior live launch_ok [of d w1 prior] s show ?thesis by (cases r) (simp_all add: then_io_def)
qed

lemma do_resume_ok [keeps]: "keeps (job_ok d) (do_resume data strict)"
proof -
  let ?run = "\<lambda>s. s\<lparr>js_status := Running_Job, js_resume_data := data\<rparr>"
  have "job_ok d (snd (then_io save_now (\<lambda>_. launch (\<lambda>s'. s'\<lparr>js_status := Paused_Job, js_resume_data := x\<rparr>)) (set_live ?run w)))"
    if "job_ok d w" "js_status (jw_live w) = Paused_Job" for w :: "'a job_world" and x
    using that by (intro save_then_launch_ok) (simp_all add: set_live_def job_ok_def live_ok_def state_ok_def)
  then show ?thesis by (auto simp: keeps_def do_resume_def Let_def)
qed

lemma pending_not_resumed: "live_ok d xs s \<Longrightarrow> js_status s = Pending_Job \<Longrightarrow> xs = []"
  by (cases xs) (auto simp: live_ok_def state_ok_def resumed_ok_def)

lemma start_job_ok [keeps]: "keeps (job_ok d) (start_job d now input who)"
proof -
  let ?run = "\<lambda>s. s\<lparr>js_status := Running_Job, js_input := input, js_attempts := 1, js_started := Some now, js_principal := who\<rparr>"
  let ?prior = "\<lambda>s. s\<lparr>js_status := Pending_Job, js_input := None, js_attempts := 0, js_started := None, js_principal := None\<rparr>"
  have "job_ok d (snd (then_io save_now (\<lambda>_. then_io (launch ?prior) (\<lambda>_ w. (Inr (live_info d w), w))) (set_live ?run w)))"
    if w: "job_ok d w" and st: "js_status (jw_live w) = Pending_Job" for w :: "'a job_world"
  proof -
    from pending_not_resumed w st have none: "jw_resumed w = []" by (auto simp: job_ok_def)
    have "job_ok d (set_live ?run w)" "live_ok d (jw_resumed (set_live ?run w)) (?prior (jw_live (set_live ?run w)))"
      using w none by (simp_all add: set_live_def job_ok_def live_ok_def state_ok_def resumed_ok_def rest_ok_def)
    from save_then_launch_ok [where prior = ?prior, OF this]
    have "job_ok d (snd (then_io (then_io save_now (\<lambda>_. launch ?prior)) (\<lambda>_ w. (Inr (live_info d w), w)) (set_live ?run w)))"
      by (rule ok_then) (rule keeps_pure)
    then show ?thesis by (simp only: then_io_assoc)
  qed
  then show ?thesis by (auto simp: keeps_def start_job_def)
qed

lemma job_calls_ok [keeps]:
  "keeps (job_ok d) (cancel_job d now)" "keeps (job_ok d) (resume_job d data)"
  unfolding cancel_job_def resume_job_def by (intro keeps_then do_cancel_ok do_resume_ok keeps_pure)+

lemma asked_ok: "keeps (job_ok d) (then_io (clear_job d) (\<lambda>_ w. (Inr (), w\<lparr>jw_asked := True\<rparr>)))"
  by (intro keeps_then clear_job_ok keeps_world) simp

lemma discard_job_ok [keeps]: "keeps (job_ok d) (discard_job d)"
proof -
  have "keeps (job_ok d) (then_io (\<lambda>w. if jd_retain d \<noteq> None then clear_retention w else (Inr (), w))
            (\<lambda>_. then_io (clear_job d) (\<lambda>_ w. (Inr (), w\<lparr>jw_asked := True\<rparr>))))"
    by (intro keeps_then keeps_if retention_ok keeps_pure asked_ok)
  then show ?thesis by (auto simp: keeps_def discard_job_def Let_def)
qed

lemma retention_fires_ok: "job_ok d w \<Longrightarrow> job_ok d (snd (retention_fires d w))"
  using keepsD [OF asked_ok, of d "w\<lparr>jw_retained := False\<rparr>"] by (simp add: retention_fires_def Let_def)

lemma job_ok_phase: "job_ok d w \<Longrightarrow> ph = Ending \<or> (\<exists>a \<le> jd_max d. ph = Working a) \<Longrightarrow> job_ok d (with_phase ph w)"
  by (auto simp: with_phase_def job_ok_def rest_ok_def run_ok_def split: option.splits)

lemma job_ok_live: "job_ok d w \<Longrightarrow> live_ok d (jw_resumed w) (f (jw_live w)) \<Longrightarrow> job_ok d (set_live f w)"
  by (simp add: set_live_def job_okD)

lemma keeps_live:
  assumes "\<And>s. js_attempts (f s) = js_attempts s \<and> js_status (f s) = js_status s \<and> js_input (f s) = js_input s
      \<and> js_started (f s) = js_started s \<and> js_principal (f s) = js_principal s" and "keeps (job_ok d) m"
  shows "keeps (job_ok d) (\<lambda>w. m (set_live f w))"
  unfolding keeps_def
  by (intro allI impI keepsD [OF assms(2)] job_ok_live live_ok_same [OF job_okD(1)]) (simp_all add: assms(1))

lemma apply_entry_same [simp]:
  "js_attempts (apply_entry f e s) = js_attempts s" "js_status (apply_entry f e s) = js_status s" "js_input (apply_entry f e s) = js_input s"
  "js_started (apply_entry f e s) = js_started s" "js_principal (apply_entry f e s) = js_principal s"
  "js_resume_data (apply_entry f e s) = js_resume_data s"
  by (simp_all add: apply_entry_def split: prod.splits option.splits)

lemma append_effect_ok:
  assumes "job_ok d w" shows "job_ok d (w\<lparr>jw_stored := map_option (apply_entry f e) (jw_stored w)\<rparr>)"
  using assms by (auto simp: job_ok_def rest_ok_def record_ok_def state_ok_def split: option.splits)

lemma pause_job_ok: "keeps (job_ok d) (pause_job cp)"
proof -
  have "job_ok d (set_live (\<lambda>s. s\<lparr>js_checkpoint := Some cp, js_status := Paused_Job\<rparr>) w)"
    if "job_ok d w" "js_status (jw_live w) = Running_Job" for w :: "'a job_world"
    using that by (auto simp: set_live_def job_ok_def live_ok_def state_ok_def)
  then show ?thesis by (auto simp: keeps_def pause_job_def while_running_def intro: keepsD [OF save_now_ok])
qed

lemma handle_ok [keeps]:
  "keeps (job_ok d) (progress_job p)" "keeps (job_ok d) (checkpoint_job cp eventual)" "keeps (job_ok d) (append_job d e)"
  "keeps (job_ok d) (update_job f)"
proof -
  show "keeps (job_ok d) (progress_job p)" "keeps (job_ok d) (update_job f)"
    unfolding progress_job_def update_job_def
    by (intro keeps_while_running; auto simp: keeps_def intro!: job_ok_live live_ok_same [OF job_okD(1)])+
  have save: "keeps (job_ok d) (save_job eventual)"
    using save_now_ok [of d] by (auto simp: keeps_def save_job_def)
  show "keeps (job_ok d) (checkpoint_job cp eventual)"
    unfolding checkpoint_job_def by (intro keeps_while_running keeps_live save) simp
  have ent: "keeps (job_ok d) (io_effect (\<lambda>w. w\<lparr>jw_stored := map_option (apply_entry f e) (jw_stored w)\<rparr>))" for f
    by (intro keeps_effect append_effect_ok) simp_all
  have both: "keeps (job_ok d) (\<lambda>w. if jd_seam d \<and> jw_stored w \<noteq> None
     then io_effect (\<lambda>w. w\<lparr>jw_stored := map_option (apply_entry f e) (jw_stored w)\<rparr>) w else save_now w)" for f
    using ent [of f] save_now_ok [of d] by (simp add: keeps_def)
  have "keeps (job_ok d) (\<lambda>w. case jd_apply d of None \<Rightarrow> (Inl (Runtime_Error ''no reducer''), w)
     | Some f \<Rightarrow> let w = set_live (apply_entry f e) w
         in if jd_seam d \<and> jw_stored w \<noteq> None then io_effect (\<lambda>w. w\<lparr>jw_stored := map_option (apply_entry f e) (jw_stored w)\<rparr>) w
            else save_now w)"
  proof (cases "jd_apply d")
    case (Some f)
    then show ?thesis using keeps_live [OF _ both, of "apply_entry f e" f] by (simp add: Let_def)
  qed (simp add: keeps_def)
  then show "keeps (job_ok d) (append_job d e)" unfolding append_job_def by (rule keeps_while_running)
qed

lemma run_ends_ok: "job_ok d w \<Longrightarrow> job_ok d (run_throws d now msg aborted w)" "job_ok d w \<Longrightarrow> job_ok d (run_returns d now out aborted w)"
proof -
  have throws: "job_ok d w \<Longrightarrow> job_ok d (run_throws d now msg aborted w)" for w :: "'a job_world" and msg
    unfolding run_throws_def while_running_def by (auto intro!: finish_job_ok)
  have clear: "job_ok d w \<Longrightarrow> job_ok d (set_live (\<lambda>s. s\<lparr>js_progress := None\<rparr>) w)" for w :: "'a job_world"
    by (intro job_ok_live live_ok_same [OF job_okD(1)]) simp_all
  have "keeps (job_ok d) (\<lambda>w. finish d now Completed_Job (\<lambda>s. s\<lparr>js_result := Some out\<rparr>) (set_live (\<lambda>s. s\<lparr>js_progress := None\<rparr>) w))"
    unfolding keeps_def by (auto intro!: finish_job_ok clear)
  then have ended: "job_ok d w \<Longrightarrow> job_ok d (snd (while_running (\<lambda>w. finish d now Completed_Job (\<lambda>s. s\<lparr>js_result := Some out\<rparr>)
      (set_live (\<lambda>s. s\<lparr>js_progress := None\<rparr>) w)) w))" for w :: "'a job_world"
    by (rule keepsD [OF keeps_while_running])
  show "job_ok d w \<Longrightarrow> job_ok d (run_throws d now msg aborted w)" by (rule throws)
  show "job_ok d w \<Longrightarrow> job_ok d (run_returns d now out aborted w)"
    unfolding run_returns_def using ended [of w] throws by (auto split: prod.splits sum.splits)
qed

lemma resume_run_ok: "job_ok d w \<Longrightarrow> job_ok d (resume_run w)"
  by (auto simp: resume_run_def resume_tasks_def job_ok_def rest_ok_def run_ok_def live_ok_def state_ok_def resumed_ok_def)

lemma reactivate_ok: "job_ok d w \<Longrightarrow> job_ok d (reactivate d w)"
  unfolding reactivate_def
  by (rule resume_run_ok)
    (auto simp: job_ok_def rest_ok_def record_ok_def run_ok_def live_ok_def [of d "jw_resumed w"] live_ok_fresh [unfolded live_ok_def] split: option.splits)

lemma resumed_ok_snoc: "resumed_ok d xs r \<Longrightarrow> set xs \<subseteq> {..n} \<Longrightarrow> 0 < n \<Longrightarrow> Suc n \<le> m \<Longrightarrow> m \<le> jd_max d \<Longrightarrow> resumed_ok d (xs @ [Suc n]) m"
  by (auto simp: resumed_ok_def sorted_wrt_append)

lemma resumed_ok_mono: "resumed_ok d xs m \<Longrightarrow> m \<le> n \<Longrightarrow> resumed_ok d xs n"
  by (auto simp: resumed_ok_def)

text \<open>The first turn, once its attempt is attempt_counted and there are attempts left.\<close>

lemma begin_body_ok:
  assumes w: "job_ok d w" and att: "Suc n \<le> js_attempts (jw_live w)" "js_attempts (jw_live w) \<le> jd_max d"
    and run: "n = 0 \<or> set (jw_resumed w) \<subseteq> {..n}" and saved: "0 < n \<Longrightarrow> jw_stored w = Some (jw_live w)"
  shows "job_ok d (with_phase (Working (Suc n)) (if 1 < Suc n then w\<lparr>jw_resumed := jw_resumed w @ [Suc n]\<rparr> else w))"
proof (cases "n = 0")
  case False
  with run att job_okD(4) [OF w] have xs: "resumed_ok d (jw_resumed w @ [Suc n]) (js_attempts (jw_live w))"
    by (intro resumed_ok_snoc) auto
  have "run_ok d (jw_resumed w @ [Suc n]) (map_option (\<lambda>r. r\<lparr>jr_phase := Working (Suc n)\<rparr>) (jw_run w))"
    using att by (auto simp: run_ok_def split: option.splits)
  with False xs w saved show ?thesis by (simp add: with_phase_def job_ok_def rest_ok_def record_ok_def live_ok_def)
next
  case True
  with att w show ?thesis by (simp add: job_ok_phase)
qed

lemma rest_ok_opened [simp]: "rest_ok d (attempt_counted n w) = rest_ok d w" "rest_ok d (taken w) = rest_ok d w"
  by (simp_all add: attempt_counted_def taken_def set_live_def)

abbreviation gave_up :: "'v job_def \<Rightarrow> int \<Rightarrow> ('v, unit) job_io" where
  "gave_up d now \<equiv> finish d now Failed_Job (\<lambda>s. s\<lparr>js_error := Some (gave_up_text d)\<rparr>)"

lemma attempt_counted_simps [simp]:
  "jw_live (attempt_counted n w) = (if js_attempts (jw_live w) < Suc n then (jw_live w)\<lparr>js_attempts := Suc n\<rparr> else jw_live w)"
  "jw_resumed (attempt_counted n w) = jw_resumed w" "jw_stored (attempt_counted n w) = jw_stored w" "jw_run (attempt_counted n w) = jw_run w"
  "jw_faults (attempt_counted n w) = jw_faults w"
  by (simp_all add: attempt_counted_def set_live_def)

lemma taken_simps [simp]:
  "jw_live (taken w) = (jw_live w)\<lparr>js_resume_data := None\<rparr>"
  "jw_resumed (taken w) = jw_resumed w" "jw_stored (taken w) = jw_stored w" "jw_run (taken w) = jw_run w"
  "jw_faults (taken w) = jw_faults w"
  by (simp_all add: taken_def set_live_def)

lemma open_run_cases:
  "open_run d now n w =
     (if js_status (jw_live w) \<noteq> Running_Job then with_phase Ending w
      else if jd_max d < js_attempts (jw_live (attempt_counted n w)) then with_phase Ending (snd (gave_up d now (attempt_counted n w)))
      else if n = 0 then with_phase (Working 1) (taken (attempt_counted n w))
      else case save_now (taken (attempt_counted n w)) of
          (Inl _, w') \<Rightarrow> with_phase Ending w'
        | (Inr _, w') \<Rightarrow> with_phase (Working (Suc n)) (w'\<lparr>jw_resumed := jw_resumed w' @ [Suc n]\<rparr>))"
  by (cases "n = 0")
    (simp_all add: open_run_def open_turn_def Let_def then_io_def del: attempt_counted_simps taken_simps split: prod.split sum.split option.split)

lemma open_run_ok:
  assumes w: "job_ok d w" and r: "jw_run w = Some r" "jr_phase r = Opening"
  shows "job_ok d (open_run d now (jr_restarts r) w)"
proof (cases "js_status (jw_live w) = Running_Job")
  case False
  with w show ?thesis by (simp add: open_run_cases job_ok_phase)
next
  case run: True
  let ?n = "jr_restarts r" and ?w = "attempt_counted (jr_restarts r) w"
  from w r have n: "?n \<le> jd_max d" "?n = 0 \<or> set (jw_resumed w) \<subseteq> {..?n}" by (auto simp: job_ok_def rest_ok_def run_ok_def)
  have xs: "resumed_ok d (jw_resumed ?w) (js_attempts (jw_live ?w))"
    using job_okD(4) [OF w] by (auto intro: resumed_ok_mono)
  from w run n have bound: "js_attempts (jw_live ?w) \<le> Suc (jd_max d)" "Suc ?n \<le> js_attempts (jw_live ?w)"
    by (auto simp: job_ok_def live_ok_def state_ok_def)
  show ?thesis
  proof (cases "jd_max d < js_attempts (jw_live ?w)")
    case True
    have "job_ok d (snd (gave_up d now ?w))" by (rule finish_ok) (use w xs bound in \<open>simp_all add: job_okD\<close>)
    then have "job_ok d (with_phase Ending (snd (gave_up d now ?w)))" by (rule job_ok_phase) simp
    with run True show ?thesis by (simp only: open_run_cases) simp
  next
    case False
    from w run False xs have "job_ok d ?w" by (auto simp: job_ok_def live_ok_def state_ok_def)
    then have ok: "job_ok d (taken ?w)"
      unfolding taken_def by (rule job_ok_live) (rule live_ok_same [OF job_okD(1)], rule \<open>job_ok d ?w\<close>, simp_all)
    show ?thesis
    proof (cases "?n = 0")
      case True
      have "job_ok d (with_phase (Working 1) (taken ?w))" by (rule job_ok_phase [OF ok]) (use False bound in simp)
      with True run False show ?thesis by (simp only: open_run_cases) simp
    next
      case pos: False
      obtain x w3 where s: "save_now (taken ?w) = (x, w3)" by force
      from s ok have ok3: "job_ok d w3" using keepsD [OF save_now_ok] by fastforce
      from s save_now_live [of "taken ?w"] have live3: "jw_live w3 = jw_live (taken ?w)" "jw_resumed w3 = jw_resumed w" by simp_all
      have stored3: "x = Inr u \<Longrightarrow> jw_stored w3 = Some (jw_live w3)" for u
        using s by (auto simp: job_io split: io.splits list.splits)
      have "job_ok d (case x of Inl _ \<Rightarrow> with_phase Ending w3 | Inr _ \<Rightarrow> with_phase (Working (Suc ?n)) (w3\<lparr>jw_resumed := jw_resumed w3 @ [Suc ?n]\<rparr>))"
      proof (cases x)
        case (Inr u)
        have "job_ok d (with_phase (Working (Suc ?n)) (if 1 < Suc ?n then w3\<lparr>jw_resumed := jw_resumed w3 @ [Suc ?n]\<rparr> else w3))"
          by (rule begin_body_ok [OF ok3]) (use bound False n live3 stored3 [OF Inr] in auto)
        with Inr pos show ?thesis by simp
      qed (simp add: job_ok_phase ok3)
      with run False pos s show ?thesis by (simp only: open_run_cases) simp
    qed
  qed
qed

text \<open>Every event keeps the invariant, whatever the storage answers.\<close>

lemma phase_ending_ok: "job_ok d w \<Longrightarrow> job_ok d (with_phase Ending w)"
  by (simp add: job_ok_phase)

lemma job_does_ok: "job_ok d w \<Longrightarrow> job_ok d (job_does d now ev w)"
proof (cases ev)
  case Opens
  assume "job_ok d w"
  with Opens show ?thesis by (auto split: option.split intro: open_run_ok)
next
  case Settles
  assume "job_ok d w"
  with Settles show ?thesis by (simp add: job_ok_def rest_ok_def run_ok_def)
next
  case Deactivates
  assume w: "job_ok d w"
  then have "job_ok d (flush_job w)" by (simp add: flush_job_def keepsD [OF save_now_ok])
  with Deactivates show ?thesis by (simp add: reactivate_ok)
qed (auto intro: keepsD [OF start_job_ok] keepsD [OF job_calls_ok(1)] keepsD [OF job_calls_ok(2)] keepsD [OF discard_job_ok]
    keepsD [OF do_resume_ok] retention_fires_ok keepsD [OF handle_ok(1)] keepsD [OF handle_ok(2)] keepsD [OF handle_ok(3)]
    keepsD [OF handle_ok(4)] keepsD [OF pause_job_ok] phase_ending_ok run_ends_ok resume_run_ok reactivate_ok keepsD [OF save_now_ok]
    simp: flush_job_def)

lemma job_begin_ok: "0 < jd_max d \<Longrightarrow> job_begin d w \<Longrightarrow> job_ok d w"
  by (simp add: job_begin_def new_job_def job_ok_def live_ok_fresh rest_ok_def record_ok_def run_ok_def)

definition attempts_left :: "'v job_def \<Rightarrow> 'v job_world \<Rightarrow> bool" where
  "attempts_left d w \<longleftrightarrow> 0 < jd_max d \<longrightarrow> job_ok d w"

interpretation job_attempts: invariant_machine "job_begin d" "job_step faulty d" "attempts_left d"
  by unfold_locales (auto simp: attempts_left_def job_step_def job_begin_ok intro: job_does_ok)

subsection \<open>What a host death cannot lose\<close>

text \<open>
  While the storage answers, the record agrees with the live state on everything but what a running body is allowed
  to keep in memory: its progress, its extra fields, an eventual checkpoint and the resume data it has been given.
\<close>

fun durable :: "'v job_def \<Rightarrow> 'v job_state \<Rightarrow> 'v job_state option \<Rightarrow> bool" where
  "durable d s None \<longleftrightarrow> s = fresh_job d"
| "durable d s (Some t) \<longleftrightarrow> (if js_status s = Running_Job
     then js_status t = Running_Job \<and> js_input t = js_input s \<and> js_attempts t = js_attempts s \<and> js_started t = js_started s
       \<and> js_principal t = js_principal s
     else t = s)"

lemma durable_same [simp]: "durable d s (Some s)"
  by simp

definition in_step :: "'v job_def \<Rightarrow> 'v job_world \<Rightarrow> bool" where
  "in_step d w \<longleftrightarrow> durable d (jw_live w) (jw_stored w)"

named_theorems answered \<open>effects on a storage that answers\<close>

lemma io_answers [answered]: "jw_faults w = [] \<Longrightarrow> io_effect f w = (Inr (), f w)"
  by (simp add: io_effect_def next_io_def)

lemma save_answers [answered]: "jw_faults w = [] \<Longrightarrow> save_now w = (Inr (), w\<lparr>jw_stored := Some (jw_live w), jw_owed := False\<rparr>)"
  by (simp add: save_now_def then_io_def answered)

lemma retention_answers [answered]:
  "jw_faults w = [] \<Longrightarrow> set_retention w = (Inr (), w\<lparr>jw_retained := True\<rparr>)"
  "jw_faults w = [] \<Longrightarrow> clear_retention w = (Inr (), w\<lparr>jw_retained := False\<rparr>)"
  by (simp_all add: set_retention_def clear_retention_def answered)

lemma clear_answers [answered]:
  "jw_faults w = [] \<Longrightarrow> clear_job d w = (Inr (), w\<lparr>jw_stored := None, jw_resumed := [], jw_owed := False, jw_live := fresh_job d\<rparr>)"
  by (simp add: clear_job_def then_io_def answered)

lemma set_live_simps [simp]:
  "jw_live (set_live f w) = f (jw_live w)" "jw_stored (set_live f w) = jw_stored w" "jw_run (set_live f w) = jw_run w"
  "jw_faults (set_live f w) = jw_faults w" "jw_leaving (set_live f w) = jw_leaving w" "jw_resumed (set_live f w) = jw_resumed w"
  by (simp_all add: set_live_def)

lemma finish_answers:
  assumes "jw_faults w = []"
  shows "fst (finish d now st patch w) = Inr ()" "jw_stored (snd (finish d now st patch w)) = Some (jw_live (snd (finish d now st patch w)))"
    "jw_live (snd (finish d now st patch w)) = patch ((jw_live w)\<lparr>js_status := st, js_finished := Some now, js_resume_data := None\<rparr>)"
  using assms by (simp_all add: finish_def then_io_def answered)

lemma start_run_fields [simp]: "jw_live (snd (start_run w)) = jw_live w" "jw_stored (snd (start_run w)) = jw_stored w"
  by (auto simp: start_run_def next_io_def split: io.splits list.splits)

lemma start_run_faults: "jw_faults w = [] \<Longrightarrow> jw_faults (snd (start_run w)) = []"
  by (auto simp: start_run_def next_io_def split: io.splits list.splits)

lemma launch_in_step:
  assumes "jw_faults w = []" "in_step d w" shows "in_step d (snd (launch prior w))"
proof -
  obtain r w1 where s: "start_run w = (r, w1)" by force
  with start_run_fields [of w] start_run_faults assms have "jw_live w1 = jw_live w" "jw_stored w1 = jw_stored w" "jw_faults w1 = []"
    by (metis snd_conv)+
  with s assms show ?thesis by (cases r) (simp_all add: launch_def answered in_step_def del: durable.simps)
qed

lemma saved_launch_in_step: "jw_faults w = [] \<Longrightarrow> in_step d (snd (then_io save_now (\<lambda>_. launch prior) w))"
  using launch_in_step [of "w\<lparr>jw_stored := Some (jw_live w), jw_owed := False\<rparr>" d prior]
  by (simp add: then_io_def answered in_step_def del: durable.simps)

lemma in_step_simps [simp]:
  "in_step d (with_phase ph w) = in_step d w" "in_step d (cancel_run w) = in_step d w" "in_step d (w\<lparr>jw_run := r\<rparr>) = in_step d w"
  "in_step d (w\<lparr>jw_leaving := b\<rparr>) = in_step d w" "in_step d (w\<lparr>jw_resumed := xs\<rparr>) = in_step d w"
  "in_step d (w\<lparr>jw_asked := b\<rparr>) = in_step d w" "in_step d (w\<lparr>jw_retained := b\<rparr>) = in_step d w" "in_step d (w\<lparr>jw_faults := fs\<rparr>) = in_step d w"
  by (simp_all add: with_phase_def cancel_run_def in_step_def)

lemma finish_in_step: "jw_faults w = [] \<Longrightarrow> in_step d (snd (finish d now st patch w))"
  by (simp add: in_step_def finish_answers del: durable.simps)

lemma then_in_step: "in_step d (snd (m w)) \<Longrightarrow> (\<And>x w. in_step d w \<Longrightarrow> in_step d (snd (k x w))) \<Longrightarrow> in_step d (snd (then_io m k w))"
  by (rule snd_then [where P = "in_step d"]) (simp_all add: keeps_def)

lemma calls_in_step:
  assumes "jw_faults w = []" "in_step d w"
  shows "in_step d (snd (start_job d now input who w))" "in_step d (snd (do_cancel d now w))" "in_step d (snd (do_resume data strict w))"
    "in_step d (snd (cancel_job d now w))" "in_step d (snd (resume_job d data w))" "in_step d (snd (discard_job d w))" "in_step d (snd (retention_fires d w))"
proof -
  show start: "in_step d (snd (start_job d now input who w))"
    unfolding start_job_def using assms
    by (simp add: then_io_assoc [symmetric] then_in_step saved_launch_in_step)
  show cancel: "in_step d (snd (do_cancel d now w))"
    unfolding do_cancel_def Let_def using assms by (auto intro: then_in_step finish_in_step)
  then show "in_step d (snd (cancel_job d now w))"
    unfolding cancel_job_def by (rule then_in_step) simp
  have resume: "in_step d (snd (do_resume data strict w))" for strict
    unfolding do_resume_def Let_def using assms by (auto intro: saved_launch_in_step)
  then show "in_step d (snd (do_resume data strict w))" .
  from resume show "in_step d (snd (resume_job d data w))"
    unfolding resume_job_def by (rule then_in_step) simp
  show "in_step d (snd (discard_job d w))"
    using assms by (simp add: discard_job_def Let_def then_io_def answered in_step_def)
  show "in_step d (snd (retention_fires d w))"
    using assms by (simp add: retention_fires_def Let_def then_io_def answered in_step_def)
qed

lemma handle_in_step:
  assumes "jw_faults w = []" "in_step d w"
  shows "in_step d (snd (progress_job p w))" "in_step d (snd (checkpoint_job cp eventual w))" "in_step d (snd (append_job d e w))"
    "in_step d (snd (update_job f w))" "in_step d (snd (pause_job cp w))"
  using assms
  by (cases "jw_stored w"; simp add: progress_job_def checkpoint_job_def append_job_def update_job_def pause_job_def while_running_def save_job_def
      answered in_step_def fresh_job_def Let_def split: option.split)+

lemma ends_in_step:
  assumes "jw_faults w = []" "in_step d w"
  shows "in_step d (run_throws d now msg aborted w)" "in_step d (run_returns d now out aborted w)"
proof -
  show "in_step d (run_throws d now msg aborted w)"
    using assms by (simp add: run_throws_def while_running_def finish_in_step)
  let ?w = "set_live (\<lambda>s. s\<lparr>js_progress := None\<rparr>) w"
  have "fst (finish d now Completed_Job (\<lambda>s. s\<lparr>js_result := Some out\<rparr>) ?w) = Inr ()"
    "in_step d (snd (finish d now Completed_Job (\<lambda>s. s\<lparr>js_result := Some out\<rparr>) ?w))"
    using assms by (simp_all add: finish_answers finish_in_step)
  then show "in_step d (run_returns d now out aborted w)"
    using assms by (auto simp: run_returns_def while_running_def split: prod.splits)
qed

lemma open_in_step:
  assumes "jw_faults w = []" "in_step d w" "job_ok d w"
  shows "in_step d (open_run d now n w)"
proof -
  have first: "in_step d (taken (attempt_counted 0 w))" if "js_status (jw_live w) = Running_Job"
    using assms that by (cases "jw_stored w") (auto simp: in_step_def fresh_job_def job_ok_def live_ok_def state_ok_def)
  moreover have "jw_faults (attempt_counted n w) = []" "jw_faults (taken (attempt_counted n w)) = []" using assms by simp_all
  moreover have "in_step d (w'\<lparr>jw_stored := Some (jw_live w'), jw_owed := False\<rparr>)" for w' :: "'a job_world"
    by (simp add: in_step_def)
  ultimately show ?thesis
    using assms by (simp add: open_run_cases finish_in_step answered del: attempt_counted_simps taken_simps)
qed

lemma resume_run_same [simp]: "jw_live (resume_run w) = jw_live w" "jw_stored (resume_run w) = jw_stored w"
  "in_step d (resume_run w) = in_step d w"
  by (auto simp: resume_run_def in_step_def split: option.splits)

lemma reactivate_same [simp]:
  "jw_live (reactivate d w) = (case jw_stored w of None \<Rightarrow> fresh_job d | Some s \<Rightarrow> s)" "jw_stored (reactivate d w) = jw_stored w"
  by (simp_all add: reactivate_def)

lemma reactivate_in_step: "in_step d (reactivate d w)"
  by (cases "jw_stored w") (simp_all add: in_step_def)

lemma job_does_in_step:
  assumes "jw_faults w = []" "in_step d w" "job_ok d w" shows "in_step d (job_does d now ev w)"
proof -
  have flushed: "in_step d (flush_job w)" using assms by (simp add: flush_job_def answered in_step_def)
  from assms show ?thesis
    by (cases ev) (auto simp: calls_in_step handle_in_step ends_in_step open_in_step reactivate_in_step flushed split: option.split)
qed

definition on_record :: "'v job_def \<Rightarrow> 'v job_world \<Rightarrow> bool" where
  "on_record d w \<longleftrightarrow> attempts_left d w \<and> (0 < jd_max d \<longrightarrow> in_step d w)"

interpretation job_records: invariant_machine "job_begin d" "job_step False d" "on_record d"
proof unfold_locales
  fix w w' :: "'a job_world"
  show "job_begin d w \<Longrightarrow> on_record d w"
    by (simp add: on_record_def job_attempts.inv_init) (simp add: job_begin_def new_job_def in_step_def)
  assume w: "on_record d w" and "job_step False d w w'"
  then obtain now ev where e: "w' = job_does d now ev (w\<lparr>jw_faults := []\<rparr>)" by (auto simp: job_step_def)
  from w show "on_record d w'"
    unfolding e on_record_def attempts_left_def by (auto intro!: job_does_in_step job_does_ok)
qed

subsection \<open>Properties\<close>

lemma increasing_bounded: "sorted_wrt (<) (xs :: nat list) \<Longrightarrow> set xs \<subseteq> {2..m} \<Longrightarrow> 0 < m \<Longrightarrow> length xs < m"
proof -
  assume xs: "sorted_wrt (<) xs" "set xs \<subseteq> {2..m}" and m: "0 < m"
  then have "length xs = card (set xs)" by (simp add: strict_sorted_iff distinct_card)
  also from xs have "\<dots> \<le> card {2..m}" by (intro card_mono) simp_all
  also have "\<dots> = m - 1" by simp
  finally show ?thesis using m by simp
qed

lemma job_reach_ok: "reach (job_begin d) (job_step faulty d) w \<Longrightarrow> 0 < jd_max d \<Longrightarrow> job_ok d w"
  using job_attempts.reach_inv [of d faulty w] by (simp add: attempts_left_def)

text \<open>
  C18. A crash loop ends: whatever the storage answers and however pauses, resumes and host deaths interleave, no run
  body is called with an attempt above \<open>maxAttempts\<close>, the crash-resumes of one record that reach the body have strictly
  increasing attempts, and there are fewer than \<open>maxAttempts\<close> of them.
\<close>

theorem crash_resumes_bounded:
  assumes "reach (job_begin d) (job_step faulty d) w" "0 < jd_max d"
  shows "run_phase w \<noteq> Some (Working (jd_max d + Suc k)) \<and> sorted_wrt (<) (jw_resumed w) \<and> length (jw_resumed w) < jd_max d"
proof -
  from assms have ok: "job_ok d w" by (rule job_reach_ok)
  then have "run_phase w \<noteq> Some (Working (jd_max d + Suc k))"
    by (auto simp: job_ok_def rest_ok_def run_ok_def run_phase_def split: option.splits)
  with job_okD(4) [OF ok] increasing_bounded assms(2) show ?thesis by (auto simp: resumed_ok_def)
qed

lemma job_reach_in_step: "reach (job_begin d) (job_step False d) w \<Longrightarrow> 0 < jd_max d \<Longrightarrow> in_step d w"
  using job_records.reach_inv [of d w] by (simp add: on_record_def)

text \<open>
  C19. While the storage answers, the death of the host loses nothing of a job: one that is pending, paused or
  terminal is found by the next activation exactly as it was, with no run; one that is running is found running with its
  input, start, principal and attempts, and its run is started again as the next attempt.
\<close>

theorem host_death_loses_nothing:
  assumes "reach (job_begin d) (job_step False d) w" "0 < jd_max d" "w' = job_does d now Dies w"
  shows "if js_status (jw_live w) = Running_Job
    then js_status (jw_live w') = Running_Job \<and> js_input (jw_live w') = js_input (jw_live w)
      \<and> js_attempts (jw_live w') = js_attempts (jw_live w) \<and> js_started (jw_live w') = js_started (jw_live w)
      \<and> js_principal (jw_live w') = js_principal (jw_live w)
      \<and> jw_run w' = Some \<lparr>jr_restarts = js_attempts (jw_live w), jr_input = js_input (jw_live w), jr_cancelled = False, jr_phase = Opening\<rparr>
    else jw_live w' = jw_live w \<and> jw_run w' = None"
proof -
  from assms have ok: "job_ok d w" "in_step d w" by (blast intro: job_reach_ok, blast intro: job_reach_in_step)
  then have "1 \<le> js_attempts (jw_live w)" if "js_status (jw_live w) = Running_Job"
    using that by (simp add: job_ok_def live_ok_def state_ok_def)
  with ok assms(3) show ?thesis
    by (cases "jw_stored w") (auto simp: in_step_def fresh_job_def reactivate_def resume_run_def resume_tasks_def split: if_splits)
qed

fun forgets :: "'v job_event \<Rightarrow> bool" where
  "forgets Discard_Call = True"
| "forgets Retention = True"
| "forgets _ = False"

lemma terminal_stays:
  assumes "in_step d w" "terminal (js_status (jw_live w))" "\<not> forgets ev" "jw_faults w = []"
  shows "jw_live (job_does d now ev w) = jw_live w"
proof -
  from assms have st: "js_status (jw_live w) \<noteq> Running_Job" "js_status (jw_live w) \<noteq> Pending_Job" "js_status (jw_live w) \<noteq> Paused_Job"
    by (auto simp: terminal_def)
  with assms have stored: "jw_stored w = Some (jw_live w)"
    by (cases "jw_stored w") (auto simp: in_step_def fresh_job_def)
  show ?thesis
    using assms(2-) st stored
    by (cases ev) (simp_all add: start_job_def cancel_job_def do_cancel_def resume_job_def do_resume_def then_io_def Let_def open_run_cases with_phase_def
        progress_job_def checkpoint_job_def append_job_def update_job_def pause_job_def while_running_def run_throws_def run_returns_def
        flush_job_def answered split: option.split)
qed

lemma terminal_stays_script:
  assumes "on_record d w" "0 < jd_max d" "terminal (js_status (jw_live w))" "list_all (\<lambda>(now, ev, fs). fs = [] \<and> \<not> forgets ev) evs"
  shows "jw_live (job_run_script d evs w) = jw_live w"
  using assms
proof (induction evs arbitrary: w)
  case (Cons x evs)
  obtain now ev fs where x: "x = (now, ev, fs)" by (cases x) auto
  let ?w = "job_does d now ev (w\<lparr>jw_faults := []\<rparr>)"
  from Cons.prems x have "jw_live ?w = jw_live w"
    by (subst terminal_stays) (auto simp: on_record_def)
  moreover have "on_record d ?w"
    by (rule job_records.inv_step [OF Cons.prems(1)]) (auto simp: job_step_def)
  ultimately show ?case using Cons x by (simp add: job_run_script_def)
qed (simp add: job_run_script_def)

text \<open>
  C20. The outcome of a job is final: while the storage answers, whatever calls, late writes of the winding-down body,
  reminders, ticks, deactivations and host deaths follow, a terminal job keeps its whole state, and with it what
  \<open>result()\<close> answers, until it is discarded or its retention ends.
\<close>

theorem job_outcome_is_final:
  assumes "reach (job_begin d) (job_step False d) w" "0 < jd_max d" "terminal (js_status (jw_live w))"
    and "list_all (\<lambda>(now, ev, fs). fs = [] \<and> \<not> forgets ev) evs"
  shows "jw_live (job_run_script d evs w) = jw_live w \<and> result_job (jw_live (job_run_script d evs w)) = result_job (jw_live w)"
  using terminal_stays_script [OF job_records.reach_inv] assms by metis

text \<open>A start whose launch is refused, with a storage that takes both saves, leaves the pending job as it was, on record.\<close>

theorem failed_launch_is_taken_back:
  assumes "job_ok d w" "js_status (jw_live w) = Pending_Job" "jw_run w = None" "f \<noteq> Io_Ok" "jw_faults w = [Io_Ok, f]" "\<not> jw_leaving w"
    and "start_job d now input who w = (r, w')"
  shows "r = Inl (Runtime_Error ''io'') \<and> jw_live w' = jw_live w \<and> jw_stored w' = Some (jw_live w) \<and> jw_run w' = None"
proof -
  from assms(1,2) have "(jw_live w)\<lparr>js_status := Pending_Job, js_input := None, js_attempts := 0, js_started := None, js_principal := None\<rparr> = jw_live w"
    by (simp add: job_ok_def live_ok_def state_ok_def)
  with assms(2-) show ?thesis by (cases f) (auto simp: start_job_def job_io)
qed

subsection \<open>The operations when the storage answers\<close>

named_theorems job_runs \<open>what each event does to a job on a storage that answers\<close>

lemma start_answers [job_runs]:
  assumes "jw_faults w = []" "js_status (jw_live w) = Pending_Job" "jw_run w = None" "\<not> jw_leaving w"
  shows "snd (start_job d now input who w) =
    (let s = (jw_live w)\<lparr>js_status := Running_Job, js_input := input, js_attempts := 1, js_started := Some now, js_principal := who\<rparr>
     in w\<lparr>jw_live := s, jw_stored := Some s, jw_owed := False,
          jw_run := Some \<lparr>jr_restarts = 0, jr_input = input, jr_cancelled = False, jr_phase = Opening\<rparr>\<rparr>)"
  using assms by (simp add: start_job_def then_io_def set_live_def answered launch_def start_run_def next_io_def Let_def)

lemma open_first [job_runs]:
  assumes "js_status (jw_live w) = Running_Job" "1 \<le> js_attempts (jw_live w)" "js_attempts (jw_live w) \<le> jd_max d"
  shows "open_run d now 0 w = with_phase (Working 1) (w\<lparr>jw_live := (jw_live w)\<lparr>js_resume_data := None\<rparr>\<rparr>)"
proof -
  from assms have "attempt_counted 0 w = w" by (simp add: attempt_counted_def set_live_def)
  with assms show ?thesis by (simp add: open_run_cases taken_def set_live_def)
qed

lemma open_again [job_runs]:
  assumes "jw_faults w = []" "js_status (jw_live w) = Running_Job" "js_attempts (jw_live w) = n" "0 < n"
  shows "open_run d now n w =
    (if jd_max d < Suc n then let s = (jw_live w)\<lparr>js_attempts := Suc n\<rparr> in with_phase Ending (snd (gave_up d now (w\<lparr>jw_live := s\<rparr>)))
     else let s = (jw_live w)\<lparr>js_attempts := Suc n, js_resume_data := None\<rparr>
          in with_phase (Working (Suc n)) (w\<lparr>jw_live := s, jw_stored := Some s, jw_owed := False, jw_resumed := jw_resumed w @ [Suc n]\<rparr>))"
proof -
  from assms have "attempt_counted n w = w\<lparr>jw_live := (jw_live w)\<lparr>js_attempts := Suc n\<rparr>\<rparr>" by (simp add: attempt_counted_def set_live_def)
  with assms show ?thesis by (simp add: open_run_cases taken_def set_live_def answered Let_def)
qed

lemma pause_answers [job_runs]:
  assumes "jw_faults w = []" "js_status (jw_live w) = Running_Job"
  shows "snd (pause_job cp w) = (let s = (jw_live w)\<lparr>js_checkpoint := Some cp, js_status := Paused_Job\<rparr>
    in w\<lparr>jw_live := s, jw_stored := Some s, jw_owed := False\<rparr>)"
  using assms by (simp add: pause_job_def while_running_def set_live_def answered Let_def)

lemma resume_answers [job_runs]:
  assumes "jw_faults w = []" "js_status (jw_live w) = Paused_Job" "jw_run w = None" "\<not> jw_leaving w"
  shows "resume_job d data w = (let s = (jw_live w)\<lparr>js_status := Running_Job, js_resume_data := data\<rparr>;
      w' = w\<lparr>jw_live := s, jw_stored := Some s, jw_owed := False,
             jw_run := Some \<lparr>jr_restarts = 0, jr_input = js_input s, jr_cancelled = False, jr_phase = Opening\<rparr>\<rparr>
    in (Inr (live_info d w'), w'))"
  using assms by (simp add: resume_job_def do_resume_def then_io_def set_live_def answered launch_def start_run_def next_io_def Let_def)

text \<open>While the name is held, the launch answers and starts nothing.\<close>

lemma resume_held [job_runs]:
  assumes "jw_faults w = []" "js_status (jw_live w) = Paused_Job" "jw_run w = Some r" "\<not> jw_leaving w"
  shows "resume_job d data w = (let s = (jw_live w)\<lparr>js_status := Running_Job, js_resume_data := data\<rparr>;
      w' = w\<lparr>jw_live := s, jw_stored := Some s, jw_owed := False\<rparr> in (Inr (live_info d w'), w'))"
  using assms by (simp add: resume_job_def do_resume_def then_io_def set_live_def answered launch_def start_run_def Let_def)

lemma resumes_running [job_runs]:
  assumes "js_status (jw_live w) = Running_Job" "1 \<le> js_attempts (jw_live w)" "jw_run w = None" "\<not> jw_leaving w"
  shows "resume_run w = w\<lparr>jw_run := Some \<lparr>jr_restarts = js_attempts (jw_live w), jr_input = js_input (jw_live w),
    jr_cancelled = False, jr_phase = Opening\<rparr>\<rparr>"
  using assms by (simp add: resume_run_def resume_tasks_def)

lemmas job_events = job_runs with_phase_def in_body_def run_phase_def run_aborted_def reactivate_def Let_def

subsection \<open>Where the state machine slips\<close>

text \<open>
  A start that could not be recorded is not retried: the transition to \<open>running\<close> is written to live state before
  its save and is not taken back when the save fails, so the same call made again answers \<open>running\<close> although no
  record exists and nothing runs, and the next activation finds the job pending.
\<close>

theorem retried_start_runs_nothing:
  "let w1 = snd (start_job d t input who ((new_job d)\<lparr>jw_faults := [Io_Fails]\<rparr>)); (r, w2) = start_job d t' input who (w1\<lparr>jw_faults := []\<rparr>)
   in r = Inr (live_info d w2) \<and> js_status (jw_live w2) = Running_Job \<and> jw_stored w2 = None \<and> jw_run w2 = None
     \<and> reach (job_begin d) (job_step True d) w2 \<and> js_status (jw_live (job_does d t'' Dies w2)) = Pending_Job"
proof -
  let ?w1 = "snd (start_job d t input who ((new_job d)\<lparr>jw_faults := [Io_Fails]\<rparr>))"
  have w1: "?w1 = (new_job d)\<lparr>jw_live := (fresh_job d)\<lparr>js_status := Running_Job, js_input := input, js_attempts := 1, js_started := Some t,
      js_principal := who\<rparr>, jw_faults := []\<rparr>"
    by (simp add: start_job_def new_job_def fresh_job_def job_io)
  then have again: "start_job d t' input who (?w1\<lparr>jw_faults := []\<rparr>) = (Inr (live_info d ?w1), ?w1)"
    by (simp add: start_job_def new_job_def)
  have "reach (job_begin d) (job_step True d) (job_run_script d [(t, Start_Call input who, [Io_Fails])] (new_job d))"
    by (rule job_script_reach [OF new_job_reach]) simp
  then have "reach (job_begin d) (job_step True d) ?w1" by (simp add: job_run_script_def)
  with w1 again show ?thesis by (simp add: Let_def new_job_def fresh_job_def)
qed

text \<open>
  A cancel can leave its run going for good: the terminal record is saved before the run is aborted, so when the
  retention reminder cannot be armed \<open>cancel()\<close> rejects with the run not aborted, and cancelling again returns at
  once, because the job is terminal.
\<close>

theorem cancel_leaves_run_going:
  assumes "js_status (jw_live w) = Running_Job" "run_phase w = Some (Working a)" "\<not> run_aborted w" "jd_retain d \<noteq> None"
  shows "let (r1, w1) = cancel_job d t (w\<lparr>jw_faults := [Io_Ok, Io_Fails]\<rparr>); (r2, w2) = cancel_job d t' (w1\<lparr>jw_faults := []\<rparr>)
   in r1 = Inl (Runtime_Error ''io'') \<and> r2 = Inr (live_info d w2) \<and> js_status (jw_live w2) = Cancelled_Job
     \<and> run_phase w2 = Some (Working a) \<and> \<not> run_aborted w2"
proof -
  let ?s = "(jw_live w)\<lparr>js_status := Cancelled_Job, js_finished := Some t, js_resume_data := None\<rparr>"
  let ?w1 = "w\<lparr>jw_live := ?s, jw_stored := Some ?s, jw_owed := False, jw_faults := []\<rparr>"
  from assms have "cancel_job d t (w\<lparr>jw_faults := [Io_Ok, Io_Fails]\<rparr>) = (Inl (Runtime_Error ''io''), ?w1)"
    by (simp add: cancel_job_def do_cancel_def finish_def then_io_def set_live_def save_now_def set_retention_def io_effect_def next_io_def Let_def)
  moreover have "cancel_job d t' (?w1\<lparr>jw_faults := []\<rparr>) = (Inr (live_info d ?w1), ?w1)"
    by (simp add: cancel_job_def do_cancel_def then_io_def)
  ultimately show ?thesis using assms by (simp add: run_phase_def run_aborted_def)
qed

text \<open>
  Resuming a paused job can leave it without a run, and pausing is not free: the paused body still holds the task's
  name until it has returned, so a \<open>resume()\<close> in between is answered \<open>running\<close> while \<open>tasks.start\<close> did nothing; the body
  then settles, nothing runs, and the next activation counts the run as a crash, which with one attempt
  fails the job. No storage call fails in this execution.
\<close>

theorem resume_races_pause:
  "let d = d0\<lparr>jd_max := 1\<rparr>;
       w1 = job_run_script d [(1, Start_Call input who, []), (2, Opens, []), (3, Pauses cp, [])] (new_job d);
       (r, w2) = resume_job d answer w1;
       w3 = job_run_script d [(5, Returns_Paused, []), (6, Settles, [])] w2;
       w4 = job_run_script d [(7, Dies, []), (8, Opens, [])] w3
   in r = Inr (live_info d w2) \<and> js_status (jw_live w3) = Running_Job \<and> jw_run w3 = None
     \<and> js_status (jw_live w4) = Failed_Job \<and> jw_stored w4 = Some (jw_live w4)"
  by (simp add: job_run_script_def new_job_def fresh_job_def job_events finish_answers)

text \<open>What a paused job was resumed with survives one crash of the run and not a second: the run
  that resumes after the first crash takes it and saves that before its body has seen it.\<close>

theorem answer_lost_in_second_crash:
  assumes "js_status (jw_live w) = Running_Job" "js_resume_data (jw_live w) = Some answer" "jw_run w = None" "jw_faults w = []"
    "js_attempts (jw_live w) = n" "0 < n" "n + 2 \<le> jd_max d"
  shows "\<exists>cp who. fst (open_turn d t n w) = Inr (Some (Suc n, cp, Some answer, who))
    \<and> (let w' = job_run_script d [(t', Dies, [])] (snd (open_turn d t n w)) in fst (open_turn d t'' (Suc n) w') = Inr (Some (n + 2, cp, None, who)))"
proof -
  from assms have attempt_counted: "attempt_counted n w = w\<lparr>jw_live := (jw_live w)\<lparr>js_attempts := Suc n\<rparr>\<rparr>" by (simp add: attempt_counted_def set_live_def)
  let ?s = "(jw_live w)\<lparr>js_attempts := Suc n, js_resume_data := None\<rparr>"
  have first: "open_turn d t n w = (Inr (Some (Suc n, js_checkpoint (jw_live w), Some answer, js_principal (jw_live w))),
      w\<lparr>jw_live := ?s, jw_stored := Some ?s, jw_owed := False\<rparr>)"
    using assms attempt_counted by (simp add: open_turn_def Let_def then_io_def answered taken_def set_live_def)
  have "fst (open_turn d t'' (Suc n) w') = Inr (Some (n + 2, js_checkpoint (jw_live w), None, js_principal (jw_live w)))"
    if "jw_live w' = ?s" "jw_faults w' = []" for w' :: "'a job_world"
    using assms that by (simp add: open_turn_def Let_def then_io_def answered)
  with first show ?thesis by (auto simp: job_run_script_def reactivate_def resume_run_def resume_tasks_def)
qed

text \<open>A completion whose save fails is answered by \<open>result()\<close>, while the record still says running.\<close>

theorem reported_result_not_recorded:
  assumes "js_status (jw_live w) = Running_Job" "jw_faults w = [Io_Fails]"
  shows "result_job (jw_live (run_returns d t out False w)) = Inr (Some out) \<and> jw_stored (run_returns d t out False w) = jw_stored w"
  using assms
  by (simp add: run_returns_def run_throws_def while_running_def finish_def then_io_def set_live_def save_now_def io_effect_def next_io_def result_job_def)

subsection \<open>Witnesses\<close>

definition demo_job :: "nat job_def" where
  "demo_job = \<lparr>jd_key = ''run-1'', jd_max = 3, jd_retain = Some 1000, jd_settled = True, jd_state = None, jd_empty = 0,
     jd_apply = Some (\<lambda>cp e. (cp, Some (case cp of None \<Rightarrow> e | Some n \<Rightarrow> n + e))), jd_seam = True\<rparr>"

definition demo_crashed :: "nat job_world" where
  "demo_crashed = job_run_script demo_job [(1, Start_Call (Some 5) (Some ''ann''), []), (2, Opens, []), (3, Appends 4, []), (4, Dies, []),
     (5, Opens, []), (6, Makes_Progress 7, [])] (new_job demo_job)"

definition demo_finished :: "nat job_world" where
  "demo_finished = job_run_script demo_job [(7, Returns 42, [])] demo_crashed"

lemma demo_crashed_reach: "reach (job_begin demo_job) (job_step faulty demo_job) demo_crashed"
  unfolding demo_crashed_def by (rule job_script_reach [OF new_job_reach]) simp

lemma demo_finished_reach: "reach (job_begin demo_job) (job_step faulty demo_job) demo_finished"
  unfolding demo_finished_def by (rule job_script_reach [OF demo_crashed_reach]) simp

lemma demo_max: "jd_max demo_job = 3"
  by (simp add: demo_job_def)

theorem crash_resumes_bounded_witness:
  "run_phase demo_crashed \<noteq> Some (Working 4) \<and> sorted_wrt (<) (jw_resumed demo_crashed) \<and> length (jw_resumed demo_crashed) < 3
     \<and> jw_resumed demo_crashed = [2] \<and> run_phase demo_crashed = Some (Working 2)"
proof -
  have "jw_resumed demo_crashed = [2] \<and> run_phase demo_crashed = Some (Working 2)" by code_simp
  with crash_resumes_bounded [OF demo_crashed_reach [of True], of 0] show ?thesis by (simp add: demo_max)
qed

theorem host_death_loses_nothing_witness:
  "js_status (jw_live (job_does demo_job 9 Dies demo_crashed)) = Running_Job
     \<and> js_attempts (jw_live (job_does demo_job 9 Dies demo_crashed)) = 2 \<and> js_checkpoint (jw_live (job_does demo_job 9 Dies demo_crashed)) = Some 4
     \<and> js_progress (jw_live (job_does demo_job 9 Dies demo_crashed)) = None \<and> js_progress (jw_live demo_crashed) = Some 7
     \<and> jw_run (job_does demo_job 9 Dies demo_crashed) = Some \<lparr>jr_restarts = 2, jr_input = Some 5, jr_cancelled = False, jr_phase = Opening\<rparr>"
proof -
  have live: "js_status (jw_live demo_crashed) = Running_Job" "js_attempts (jw_live demo_crashed) = 2" "js_input (jw_live demo_crashed) = Some 5"
    "js_progress (jw_live demo_crashed) = Some 7" "js_checkpoint (jw_live (job_does demo_job 9 Dies demo_crashed)) = Some 4"
    "js_progress (jw_live (job_does demo_job 9 Dies demo_crashed)) = None"
    by code_simp+
  from host_death_loses_nothing [OF demo_crashed_reach _ refl, of 9] live show ?thesis by (simp add: demo_max)
qed

theorem job_outcome_is_final_witness:
  "jw_live (job_run_script demo_job [(8, Cancel_Call, []), (9, Dies, []), (10, Resume_Call (Some 1), []), (11, Opens, [])] demo_finished) = jw_live demo_finished
     \<and> result_job (jw_live (job_run_script demo_job [(8, Cancel_Call, []), (9, Dies, []), (10, Resume_Call (Some 1), []), (11, Opens, [])] demo_finished)) = Inr (Some 42)"
proof -
  have fin: "terminal (js_status (jw_live demo_finished))" "result_job (jw_live demo_finished) = Inr (Some 42)" by code_simp+
  from job_outcome_is_final [OF demo_finished_reach _ fin(1),
      of "[(8, Cancel_Call, []), (9, Dies, []), (10, Resume_Call (Some 1), []), (11, Opens, [])]"] fin(2)
  show ?thesis by (simp add: demo_max)
qed

theorem cancel_leaves_run_going_witness:
  "let (r1, w1) = cancel_job demo_job 7 (demo_crashed\<lparr>jw_faults := [Io_Ok, Io_Fails]\<rparr>); (r2, w2) = cancel_job demo_job 8 (w1\<lparr>jw_faults := []\<rparr>)
   in r1 = Inl (Runtime_Error ''io'') \<and> r2 = Inr (live_info demo_job w2) \<and> js_status (jw_live w2) = Cancelled_Job
     \<and> run_phase w2 = Some (Working 2) \<and> \<not> run_aborted w2"
proof (rule cancel_leaves_run_going)
  show "js_status (jw_live demo_crashed) = Running_Job" "run_phase demo_crashed = Some (Working 2)" "\<not> run_aborted demo_crashed"
    by code_simp+
qed (simp add: demo_job_def)

end
