(* ===== verification/Histogram.thy ===== *)
theory Histogram
  imports Complex_Main Prelude "HOL-Library.Word"
begin

section \<open>Latency histograms and their digests\<close>

text \<open>
  \<open>host/histogram.ts\<close>: the log-linear buckets (found with \<open>Math.clz32\<close>, on 32-bit words), the live histogram, its sparse
  digest, the merge of digests from several hosts and the percentile walk both share. Sample counts are
  natural numbers and sums rationals: the sources keep them in doubles, which are exact up to 2 ^ 53. A number that came
  over a wire is a \<open>wire_num\<close>.
\<close>

unbundle bit_operations_syntax

subsection \<open>Buckets\<close>

definition sub_bits :: nat where "sub_bits = 4"

definition sub_buckets :: nat where "sub_buckets = 2 ^ sub_bits"

definition max_octave :: nat where "max_octave = 26"

definition bucket_count :: nat where "bucket_count = sub_buckets + (max_octave - sub_bits + 1) * sub_buckets"

lemma histogram_constants [simp]: "sub_bits = 4" "sub_buckets = 16" "max_octave = 26" "bucket_count = 384"
  by (simp_all add: sub_bits_def sub_buckets_def max_octave_def bucket_count_def)

fun leading_zeros :: "nat \<Rightarrow> 32 word \<Rightarrow> nat" where
  "leading_zeros 0 w = 0"
| "leading_zeros (Suc i) w = (if bit w i then 0 else Suc (leading_zeros i w))"

definition clz32 :: "32 word \<Rightarrow> nat" where
  "clz32 w = leading_zeros 32 w"

definition bucket_of_us :: "nat \<Rightarrow> nat" where
  "bucket_of_us us =
     (if us < sub_buckets then us
      else if 2 ^ 32 \<le> us then bucket_count - 1
      else let octave = 31 - clz32 (of_nat us)
           in if max_octave < octave then bucket_count - 1
              else (octave - sub_bits + 1) * sub_buckets + (unat (drop_bit (octave - sub_bits) (of_nat us :: 32 word)) - sub_buckets))"

definition value_of :: "nat \<Rightarrow> int" where
  "value_of b =
     (if b < sub_buckets then int b
      else let octave = (b - sub_buckets) div sub_buckets + sub_bits; sub = (b - sub_buckets) mod sub_buckets
           in sint (push_bit (octave - sub_bits) (of_nat (sub_buckets + sub) :: 32 word)))"

text \<open>The upper bounds a renderer uses: \<open>None\<close> inside is \<open>Infinity\<close>.\<close>

definition histogram_layout :: string where
  "histogram_layout = ''ll-'' @ show_nat sub_bits @ ''-'' @ show_nat max_octave"

definition bucket_upper_bounds :: "string \<Rightarrow> int option list option" where
  "bucket_upper_bounds layout = (if layout \<noteq> histogram_layout then None
     else Some (map (\<lambda>b. Some (value_of (b + 1))) [0..<bucket_count - 1] @ [None]))"

subsection \<open>The live histogram\<close>

record histogram =
  hg_buckets :: "nat list"
  hg_count :: nat
  hg_sum :: nat
  hg_min :: "nat option"
  hg_max :: nat

definition new_histogram :: histogram where
  "new_histogram = \<lparr>hg_buckets = replicate bucket_count 0, hg_count = 0, hg_sum = 0, hg_min = None, hg_max = 0\<rparr>"

text \<open>Durations arrive in milliseconds; a negative one is clamped. \<open>Math.round\<close> rounds a half up.\<close>

definition to_micros :: "rat \<Rightarrow> nat" where
  "to_micros ms = (if 0 < ms then nat \<lfloor>ms * 1000 + 1 / 2\<rfloor> else 0)"

definition record_us :: "nat \<Rightarrow> histogram \<Rightarrow> histogram" where
  "record_us us h = h\<lparr>hg_count := hg_count h + 1, hg_sum := hg_sum h + us,
     hg_min := Some (case hg_min h of None \<Rightarrow> us | Some m \<Rightarrow> if us < m then us else m),
     hg_max := (if hg_max h < us then us else hg_max h),
     hg_buckets := (hg_buckets h)[bucket_of_us us := hg_buckets h ! bucket_of_us us + 1]\<rparr>"

definition record_ms :: "rat \<Rightarrow> histogram \<Rightarrow> histogram" where
  "record_ms ms h = record_us (to_micros ms) h"

subsection \<open>Digests\<close>

datatype wire_num = Finite rat | Not_Finite

fun wire_val :: "wire_num \<Rightarrow> rat option" where
  "wire_val (Finite x) = Some x"
| "wire_val Not_Finite = None"

record hist_digest =
  hd_count :: wire_num
  hd_sum :: wire_num
  hd_min :: wire_num
  hd_max :: wire_num
  hd_idx :: "wire_num list option"
  hd_n :: "wire_num list option"

definition sparse_digest :: "rat \<Rightarrow> rat \<Rightarrow> rat \<Rightarrow> rat \<Rightarrow> rat list \<Rightarrow> hist_digest" where
  "sparse_digest count sumv low high buckets =
     (let idx = filter (\<lambda>i. 0 < buckets ! i) [0..<bucket_count]
      in \<lparr>hd_count = Finite count, hd_sum = Finite sumv, hd_min = Finite low, hd_max = Finite high,
          hd_idx = Some (map (\<lambda>i. Finite (of_nat i)) idx), hd_n = Some (map (\<lambda>i. Finite (buckets ! i)) idx)\<rparr>)"

definition digest_of :: "histogram \<Rightarrow> hist_digest" where
  "digest_of h = sparse_digest (of_nat (hg_count h)) (of_nat (hg_sum h))
     (if hg_count h = 0 then 0 else of_nat (case hg_min h of Some m \<Rightarrow> m | None \<Rightarrow> 0)) (of_nat (hg_max h)) (map of_nat (hg_buckets h))"

definition empty_digest :: hist_digest where
  "empty_digest = \<lparr>hd_count = Finite 0, hd_sum = Finite 0, hd_min = Finite 0, hd_max = Finite 0, hd_idx = Some [], hd_n = Some []\<rparr>"

text \<open>One bucket of a digest, added only when its index is in range and its count positive.\<close>

definition bucket_index :: "wire_num \<Rightarrow> nat option" where
  "bucket_index w = (case w of Not_Finite \<Rightarrow> None
     | Finite x \<Rightarrow> if of_int \<lfloor>x\<rfloor> = x \<and> 0 \<le> x \<and> x < of_nat bucket_count then Some (nat \<lfloor>x\<rfloor>) else None)"

definition add_pair :: "wire_num \<times> wire_num \<Rightarrow> rat list \<Rightarrow> rat list" where
  "add_pair p buckets = (case (bucket_index (fst p), wire_val (snd p)) of
       (Some b, Some v) \<Rightarrow> if 0 < v then buckets[b := buckets ! b + v] else buckets
     | _ \<Rightarrow> buckets)"

definition add_pairs :: "wire_num list \<Rightarrow> wire_num list \<Rightarrow> rat list \<Rightarrow> rat list" where
  "add_pairs idx n buckets = fold add_pair (zip idx n) buckets"

record merging =
  mg_buckets :: "rat list"
  mg_count :: rat
  mg_sum :: rat
  mg_min :: "rat option"
  mg_max :: rat
  mg_any :: bool

definition start_merge :: merging where
  "start_merge = \<lparr>mg_buckets = replicate bucket_count 0, mg_count = 0, mg_sum = 0, mg_min = None, mg_max = 0, mg_any = False\<rparr>"

definition merge_one :: "hist_digest option \<Rightarrow> merging \<Rightarrow> merging" where
  "merge_one od a = (case od of None \<Rightarrow> a | Some d \<Rightarrow>
     (case (hd_idx d, hd_n d, wire_val (hd_count d)) of
        (Some idx, Some n, Some c) \<Rightarrow>
          if c \<le> 0 then a
          else a\<lparr>mg_any := True, mg_count := mg_count a + c,
                 mg_sum := mg_sum a + (case wire_val (hd_sum d) of Some s \<Rightarrow> s | None \<Rightarrow> 0),
                 mg_min := (case wire_val (hd_min d) of None \<Rightarrow> mg_min a
                            | Some l \<Rightarrow> (case mg_min a of None \<Rightarrow> Some l | Some m \<Rightarrow> Some (if l < m then l else m))),
                 mg_max := (case wire_val (hd_max d) of Some h \<Rightarrow> if mg_max a < h then h else mg_max a | None \<Rightarrow> mg_max a),
                 mg_buckets := add_pairs idx n (mg_buckets a)\<rparr>
      | _ \<Rightarrow> a))"

definition merge_digests :: "hist_digest option list \<Rightarrow> hist_digest" where
  "merge_digests ds = (let a = fold merge_one ds start_merge
     in if \<not> mg_any a then empty_digest
        else sparse_digest (mg_count a) (mg_sum a) (case mg_min a of None \<Rightarrow> 0 | Some m \<Rightarrow> m) (mg_max a) (mg_buckets a))"

subsection \<open>Percentiles\<close>

record hist_snapshot =
  sn_count :: rat
  sn_min :: rat
  sn_max :: rat
  sn_mean :: rat
  sn_p50 :: rat
  sn_p90 :: rat
  sn_p99 :: rat

definition empty_snapshot :: hist_snapshot where
  "empty_snapshot = \<lparr>sn_count = 0, sn_min = 0, sn_max = 0, sn_mean = 0, sn_p50 = 0, sn_p90 = 0, sn_p99 = 0\<rparr>"

fun walk :: "(nat \<Rightarrow> rat) \<Rightarrow> rat \<Rightarrow> rat \<Rightarrow> nat list \<Rightarrow> nat option" where
  "walk count_at target seen [] = None"
| "walk count_at target seen (i # ix) =
     (if target \<le> seen + count_at i then Some i else walk count_at target (seen + count_at i) ix)"

definition percentile :: "(nat \<Rightarrow> rat) \<Rightarrow> rat \<Rightarrow> rat \<Rightarrow> rat \<Rightarrow> rat" where
  "percentile count_at count high q = (case walk count_at (q * count) 0 [0..<bucket_count] of
       Some i \<Rightarrow> of_int (value_of i) / 1000 | None \<Rightarrow> high / 1000)"

definition summarize :: "(nat \<Rightarrow> rat) \<Rightarrow> rat \<Rightarrow> rat \<Rightarrow> rat \<Rightarrow> rat \<Rightarrow> hist_snapshot" where
  "summarize count_at count sumv low high =
     \<lparr>sn_count = count, sn_min = low / 1000, sn_max = high / 1000, sn_mean = sumv / count / 1000,
      sn_p50 = percentile count_at count high (1 / 2), sn_p90 = percentile count_at count high (9 / 10),
      sn_p99 = percentile count_at count high (99 / 100)\<rparr>"

definition snapshot_of :: "histogram \<Rightarrow> hist_snapshot" where
  "snapshot_of h = (if hg_count h = 0 then empty_snapshot
     else summarize (\<lambda>b. of_nat (hg_buckets h ! b)) (of_nat (hg_count h)) (of_nat (hg_sum h))
            (of_nat (case hg_min h of Some m \<Rightarrow> m | None \<Rightarrow> 0)) (of_nat (hg_max h)))"

text \<open>The statistics of a digest whose sum, minimum and maximum are finite; others make \<open>NaN\<close>, here 0.\<close>

definition digest_snapshot :: "hist_digest option \<Rightarrow> hist_snapshot" where
  "digest_snapshot od = (case od of None \<Rightarrow> empty_snapshot | Some d \<Rightarrow>
     (case wire_val (hd_count d) of None \<Rightarrow> empty_snapshot | Some c \<Rightarrow>
        if c \<le> 0 then empty_snapshot
        else let counts = add_pairs (case hd_idx d of Some i \<Rightarrow> i | None \<Rightarrow> []) (case hd_n d of Some n \<Rightarrow> n | None \<Rightarrow> []) (replicate bucket_count 0);
                 num = (\<lambda>w. case wire_val w of Some x \<Rightarrow> x | None \<Rightarrow> 0)
             in summarize (\<lambda>b. counts ! b) c (num (hd_sum d)) (num (hd_min d)) (num (hd_max d))))"

subsection \<open>Buckets and their values\<close>

lemma leading_zeros_bounds:
  "unat w < 2 ^ i \<Longrightarrow> 0 < unat w \<Longrightarrow> leading_zeros i w < i \<and> 2 ^ (i - 1 - leading_zeros i w) \<le> unat w \<and> unat w < 2 ^ (i - leading_zeros i w)"
proof (induction i)
  case (Suc i)
  have bit: "bit w i \<longleftrightarrow> 2 ^ i \<le> unat w"
  proof -
    have "bit w i \<longleftrightarrow> odd (unat w div 2 ^ i)" using bit_iff_odd [of "unat w" i] by (simp add: bit_unsigned_iff)
    moreover from Suc.prems have "unat w div 2 ^ i < 2" by (simp add: less_mult_imp_div_less)
    ultimately show ?thesis
      by (metis One_nat_def div_less even_zero less_2_cases not_le odd_one div_eq_0_iff power_not_zero zero_neq_numeral)
  qed
  show ?case
  proof (cases "bit w i")
    case True
    with Suc.prems bit show ?thesis by simp
  next
    case False
    with bit Suc have "leading_zeros i w < i \<and> 2 ^ (i - 1 - leading_zeros i w) \<le> unat w \<and> unat w < 2 ^ (i - leading_zeros i w)" by simp
    with False show ?thesis by (simp add: Suc_diff_Suc diff_right_commute)
  qed
qed simp

lemma clz32_bounds:
  assumes "0 < us" "us < 2 ^ 32"
  shows "2 ^ (31 - clz32 (of_nat us)) \<le> us \<and> us < 2 ^ Suc (31 - clz32 (of_nat us))"
proof -
  from assms(2) have u: "unat (of_nat us :: 32 word) = us" by (simp add: unat_of_nat take_bit_eq_mod)
  from leading_zeros_bounds [of "of_nat us :: 32 word" 32] assms have b: "clz32 (of_nat us) < 32"
    "2 ^ (32 - 1 - clz32 (of_nat us)) \<le> us" "us < 2 ^ (32 - clz32 (of_nat us))"
    by (simp_all add: clz32_def u)
  moreover from b have "32 - clz32 (of_nat us) = Suc (31 - clz32 (of_nat us))" by simp
  ultimately show ?thesis by simp
qed

text \<open>The bucket of octave \<open>o\<close> and part \<open>s\<close> starts at \<open>(16 + s) * 2 ^ (o - 4)\<close>; \<open>cut b\<close> is that in natural numbers.\<close>

definition bucket_start :: "nat \<Rightarrow> nat" where
  "bucket_start b = (if b < 16 then b else (16 + (b - 16) mod 16) * 2 ^ ((b - 16) div 16))"

lemma bucket_start_octave: "s < 16 \<Longrightarrow> bucket_start (16 + k * 16 + s) = (16 + s) * 2 ^ k"
  by (simp add: bucket_start_def)

lemma bucket_cases:
  fixes b :: nat
  obtains "b < 16" | k s where "b = 16 + k * 16 + s" "s < 16"
proof (cases "b < 16")
  case False
  have "b = 16 + (b - 16) div 16 * 16 + (b - 16) mod 16" using False by simp
  then show ?thesis by (rule that(2)) simp
qed (rule that)

lemma bucket_start_Suc: "bucket_start b < bucket_start (Suc b) \<and> (16 \<le> b \<longrightarrow> 16 * (bucket_start (Suc b) - bucket_start b) \<le> bucket_start b)
    \<and> (b < 16 \<longrightarrow> bucket_start (Suc b) = Suc b)"
proof (cases b rule: bucket_cases)
  case 1
  then have "Suc b < 16 \<or> Suc b = 16" by auto
  with 1 show ?thesis by (auto simp: bucket_start_def)
next
  case (2 k s)
  show ?thesis
  proof (cases "s = 15")
    case True
    with 2 have "Suc b = 16 + Suc k * 16 + 0" by simp
    then have "bucket_start (Suc b) = 16 * 2 ^ Suc k" by (metis bucket_start_octave add.right_neutral zero_less_numeral)
    moreover have "bucket_start b = 31 * 2 ^ k" using 2 True bucket_start_octave [of s k] by simp
    ultimately show ?thesis using 2 by simp
  next
    case False
    with 2 have "Suc b = 16 + k * 16 + Suc s" "Suc s < 16" by simp_all
    then have "bucket_start (Suc b) = (16 + Suc s) * 2 ^ k" by (metis bucket_start_octave)
    moreover have "bucket_start b = (16 + s) * 2 ^ k" using 2 bucket_start_octave [of s k] by simp
    moreover have "(16 + Suc s) * 2 ^ k = (16 + s) * 2 ^ k + 2 ^ k" by (simp add: algebra_simps)
    ultimately show ?thesis using 2 by simp
  qed
qed

lemma bucket_start_mono: "a < b \<Longrightarrow> bucket_start a < bucket_start b"
  by (rule lift_Suc_mono_less [of bucket_start]) (use bucket_start_Suc in auto)

lemma bucket_start_mono': "a \<le> b \<Longrightarrow> bucket_start a \<le> bucket_start b"
  using bucket_start_mono [of a b] by (cases "a = b") auto

lemma value_of_start: "b < bucket_count \<Longrightarrow> value_of b = int (bucket_start b)"
proof (cases b rule: bucket_cases)
  case (2 k s)
  assume "b < bucket_count"
  with 2 have k: "k \<le> 22" by simp
  have small: "(16 + s) * 2 ^ k < 2 ^ 31"
  proof -
    have "(16 + s) * 2 ^ k \<le> 31 * 2 ^ 22" using 2 k by (intro mult_mono power_increasing) simp_all
    then show ?thesis by simp
  qed
  have signed: "n < 2 ^ 31 \<Longrightarrow> sint (of_nat n :: 32 word) = int n" for n
    by (simp add: signed_of_nat signed_take_bit_int_eq_self)
  have "push_bit k (of_nat (16 + s) :: 32 word) = of_nat ((16 + s) * 2 ^ k)" by (simp add: push_bit_eq_mult)
  with signed [OF small] have "sint (push_bit k (of_nat (16 + s) :: 32 word)) = int ((16 + s) * 2 ^ k)" by simp
  with 2 show ?thesis by (simp add: value_of_def Let_def bucket_start_octave [simplified add.assoc] bucket_start_def)
qed (simp add: value_of_def bucket_start_def)

lemma bucket_of_us_bounds:
  "bucket_of_us us < bucket_count \<and> (us < 2 ^ 27 \<longrightarrow> bucket_start (bucket_of_us us) \<le> us \<and> us < bucket_start (Suc (bucket_of_us us)))
     \<and> (2 ^ 27 \<le> us \<longrightarrow> bucket_of_us us = bucket_count - 1)"
proof (cases "us < 16")
  case True
  then show ?thesis using bucket_start_Suc [of us] by (simp add: bucket_of_us_def bucket_start_def)
next
  case ge: False
  show ?thesis
  proof (cases "us < 2 ^ 32")
    case lt: True
    define oc where "oc = 31 - clz32 (of_nat us)"
    from clz32_bounds ge lt have oc: "2 ^ oc \<le> us" "us < 2 ^ Suc oc" by (simp_all add: oc_def)
    from lt have u: "unat (of_nat us :: 32 word) = us" by (simp add: unat_of_nat take_bit_eq_mod)
    from ge oc(2) have oc4: "4 \<le> oc"
    proof -
      have "\<not> oc < 4"
      proof
        assume "oc < 4"
        then have "(2::nat) ^ Suc oc \<le> 2 ^ 4" by (intro power_increasing) simp_all
        with oc(2) ge show False by simp
      qed
      then show ?thesis by simp
    qed
    show ?thesis
    proof (cases "26 < oc")
      case True
      then have "(2::nat) ^ 27 \<le> 2 ^ oc" by (intro power_increasing) simp_all
      with oc ge lt True show ?thesis by (simp add: bucket_of_us_def oc_def [symmetric] Let_def)
    next
      case False
      define k where "k = oc - 4"
      from oc4 False have k: "oc = k + 4" "k \<le> 22" by (simp_all add: k_def)
      define q where "q = us div 2 ^ k"
      from oc k have q: "16 \<le> q" "q < 32"
        by (simp_all add: q_def power_add less_eq_div_iff_mult_less_eq div_less_iff_less_mult mult.commute)
      have shifted: "unat (drop_bit k (of_nat us :: 32 word)) = q"
      proof -
        have "unat (drop_bit k (of_nat us :: 32 word)) = drop_bit k us" by (simp only: unat_drop_bit_eq u)
        then show ?thesis by (simp only: q_def drop_bit_eq_div [of k us])
      qed
      have "bucket_of_us us = (k + 1) * 16 + (q - 16)"
        using ge lt False k by (simp add: bucket_of_us_def oc_def [symmetric] Let_def k_def [symmetric] shifted)
      then have b: "bucket_of_us us = 16 + k * 16 + (q - 16)" by simp
      with q have start: "bucket_start (bucket_of_us us) = q * 2 ^ k" by (simp only: bucket_start_octave) simp
      have "bucket_start (Suc (bucket_of_us us)) = Suc q * 2 ^ k"
      proof (cases "q = 31")
        case True
        with b have "Suc (bucket_of_us us) = 16 + Suc k * 16 + 0" by simp
        then show ?thesis using bucket_start_octave [of 0 "Suc k"] True by simp
      next
        case False
        with b q have "Suc (bucket_of_us us) = 16 + k * 16 + (Suc q - 16)" "Suc q - 16 < 16" by simp_all
        then show ?thesis using bucket_start_octave [of "Suc q - 16" k] q by simp
      qed
      moreover have "us < 2 ^ 27"
      proof -
        from k have "(2::nat) ^ Suc oc \<le> 2 ^ 27" by (intro power_increasing) simp_all
        with oc(2) show ?thesis by simp
      qed
      moreover have "q * 2 ^ k \<le> us" "us < Suc q * 2 ^ k"
        by (simp_all add: q_def div_times_less_eq_dividend dividend_less_div_times)
      ultimately show ?thesis using start b q k by simp
    qed
  qed (simp add: bucket_of_us_def)
qed

lemma bucket_of_less [simp]: "bucket_of_us us < 384"
  using bucket_of_us_bounds [of us] by simp

lemma bucket_of_mono:
  assumes "a \<le> b" shows "bucket_of_us a \<le> bucket_of_us b"
proof (cases "b < 2 ^ 27")
  case True
  show ?thesis
  proof (rule ccontr)
    assume "\<not> ?thesis"
    then have "bucket_start (Suc (bucket_of_us b)) \<le> bucket_start (bucket_of_us a)" by (intro bucket_start_mono') simp
    with assms True bucket_of_us_bounds [of a] bucket_of_us_bounds [of b] show False by linarith
  qed
next
  case False
  with bucket_of_us_bounds [of b] have "bucket_of_us b = 383" by simp
  with bucket_of_less [of a] show ?thesis by linarith
qed

lemma value_of_close:
  assumes "us < 2 ^ 27"
  shows "value_of (bucket_of_us us) \<le> int us \<and> 16 * (int us - value_of (bucket_of_us us)) \<le> value_of (bucket_of_us us)"
proof -
  let ?b = "bucket_of_us us"
  from assms bucket_of_us_bounds [of us] have b: "bucket_start ?b \<le> us" "us < bucket_start (Suc ?b)" by simp_all
  have "16 * (us - bucket_start ?b) \<le> bucket_start ?b"
  proof (cases "?b < 16")
    case True
    with bucket_start_Suc [of ?b] b have "us = bucket_start ?b" by (auto simp: bucket_start_def)
    then show ?thesis by simp
  next
    case False
    with bucket_start_Suc [of ?b] b show ?thesis by linarith
  qed
  with b show ?thesis by (simp add: value_of_start of_nat_diff)
qed

subsection \<open>What a histogram holds\<close>

definition record_all :: "nat list \<Rightarrow> histogram" where
  "record_all xs = fold record_us xs new_histogram"

definition in_bucket :: "nat list \<Rightarrow> nat \<Rightarrow> nat" where
  "in_bucket xs b = length (filter (\<lambda>u. bucket_of_us u = b) xs)"

definition lesser :: "nat \<Rightarrow> nat option \<Rightarrow> nat option" where
  "lesser u m = Some (case m of None \<Rightarrow> u | Some m \<Rightarrow> if u < m then u else m)"

definition least_of :: "nat list \<Rightarrow> nat option" where
  "least_of xs = fold lesser xs None"

definition most_of :: "nat list \<Rightarrow> nat" where
  "most_of xs = fold max xs 0"

lemma least_of_append: "least_of (xs @ ys) = (case least_of ys of None \<Rightarrow> least_of xs | Some k \<Rightarrow> lesser k (least_of xs))"
  by (induction ys rule: rev_induct) (auto simp: least_of_def lesser_def split: option.splits)

lemma least_of_None [simp]: "least_of xs = None \<longleftrightarrow> xs = []"
  by (cases xs rule: rev_cases) (simp_all add: least_of_def lesser_def)

lemma least_of_Nil [simp]: "least_of [] = None"
  by simp

lemma most_of_append: "most_of (xs @ ys) = max (most_of xs) (most_of ys)"
proof -
  have "fold max ys (max a b) = max a (fold max ys b)" for a b :: nat
    by (induction ys arbitrary: a b) (simp_all add: max.left_commute)
  from this [of "most_of xs" 0] show ?thesis by (simp add: most_of_def)
qed

lemma most_of_Nil [simp]: "most_of [] = 0"
  by (simp add: most_of_def)

lemma record_all_snoc: "record_all (xs @ [u]) = record_us u (record_all xs)"
  by (simp add: record_all_def)

lemma in_bucket_simps [simp]: "in_bucket [] b = 0" "in_bucket (xs @ ys) b = in_bucket xs b + in_bucket ys b"
  "in_bucket (u # xs) b = (if bucket_of_us u = b then Suc (in_bucket xs b) else in_bucket xs b)"
  by (simp_all add: in_bucket_def)

lemma in_bucket_none: "map (in_bucket []) [0..<n] = replicate n 0"
  by (induction n) (simp_all add: replicate_append_same)

lemma record_all_is:
  "hg_count (record_all xs) = length xs \<and> hg_sum (record_all xs) = sum_list xs \<and> hg_min (record_all xs) = least_of xs
     \<and> hg_max (record_all xs) = most_of xs \<and> hg_buckets (record_all xs) = map (in_bucket xs) [0..<384]"
proof (induction xs rule: rev_induct)
  case Nil
  show ?case by (simp add: record_all_def new_histogram_def least_of_def most_of_def in_bucket_none del: upt_rec_numeral in_bucket_simps)
next
  case (snoc u xs)
  have "map (in_bucket (xs @ [u])) [0..<384] = (map (in_bucket xs) [0..<384])[bucket_of_us u := Suc (in_bucket xs (bucket_of_us u))]"
    by (rule nth_equalityI) (auto simp: nth_list_update simp del: upt_rec_numeral)
  then show ?case
    using snoc by (auto simp: record_all_snoc record_us_def least_of_def lesser_def most_of_append most_of_def max_def simp del: upt_rec_numeral in_bucket_simps)
qed

subsection \<open>Merging\<close>

lemma bucket_index_nat [simp]: "i < 384 \<Longrightarrow> bucket_index (Finite (of_nat i)) = Some i"
  by (simp add: bucket_index_def)

lemma add_pairs_nth:
  "distinct idx \<Longrightarrow> \<forall>i \<in> set idx. i < 384 \<and> 0 < bs ! i \<Longrightarrow> length acc = 384
     \<Longrightarrow> length (add_pairs (map (\<lambda>i. Finite (of_nat i)) idx) (map (\<lambda>i. Finite (bs ! i)) idx) acc) = 384
       \<and> (\<forall>j < 384. add_pairs (map (\<lambda>i. Finite (of_nat i)) idx) (map (\<lambda>i. Finite (bs ! i)) idx) acc ! j
            = acc ! j + (if j \<in> set idx then bs ! j else 0))"
proof (induction idx arbitrary: acc)
  case (Cons i idx)
  from Cons.prems have "add_pair (Finite (of_nat i), Finite (bs ! i)) acc = acc[i := acc ! i + bs ! i]" by (simp add: add_pair_def)
  with Cons.IH [of "acc[i := acc ! i + bs ! i]"] Cons.prems show ?case by (auto simp: add_pairs_def nth_list_update)
qed (simp add: add_pairs_def)

definition sum_buckets :: "rat list \<Rightarrow> rat list \<Rightarrow> rat list" where
  "sum_buckets xs ys = map (\<lambda>i. xs ! i + ys ! i) [0..<384]"

lemma add_sparse:
  assumes "length bs = 384" "length acc = 384" "\<forall>i < 384. 0 \<le> bs ! i" "idx = filter (\<lambda>i. 0 < bs ! i) [0..<384]"
  shows "add_pairs (map (\<lambda>i. Finite (of_nat i)) idx) (map (\<lambda>i. Finite (bs ! i)) idx) acc = sum_buckets acc bs"
proof (rule nth_equalityI)
  have "distinct idx" "\<forall>i \<in> set idx. i < 384 \<and> 0 < bs ! i" using assms(4) by auto
  note added = add_pairs_nth [OF this assms(2)]
  from added show "length (add_pairs (map (\<lambda>i. Finite (of_nat i)) idx) (map (\<lambda>i. Finite (bs ! i)) idx) acc) = length (sum_buckets acc bs)"
    by (simp add: sum_buckets_def)
  fix j assume "j < length (add_pairs (map (\<lambda>i. Finite (of_nat i)) idx) (map (\<lambda>i. Finite (bs ! i)) idx) acc)"
  with added have j: "j < 384" by simp
  moreover from assms(3) j have "j \<notin> set idx \<Longrightarrow> bs ! j = 0" using assms(4) by force
  ultimately show "add_pairs (map (\<lambda>i. Finite (of_nat i)) idx) (map (\<lambda>i. Finite (bs ! i)) idx) acc ! j = sum_buckets acc bs ! j"
    using added by (simp add: sum_buckets_def del: upt_rec_numeral)
qed

definition rat_buckets :: "nat list \<Rightarrow> rat list" where
  "rat_buckets xs = map (\<lambda>b. of_nat (in_bucket xs b)) [0..<384]"

lemma rat_buckets_simps [simp]: "length (rat_buckets xs) = 384" "b < 384 \<Longrightarrow> rat_buckets xs ! b = of_nat (in_bucket xs b)"
  by (simp_all add: rat_buckets_def del: upt_rec_numeral)

lemma rat_buckets_append: "sum_buckets (rat_buckets xs) (rat_buckets ys) = rat_buckets (xs @ ys)"
  by (rule nth_equalityI) (simp_all add: sum_buckets_def del: upt_rec_numeral)

lemma digest_of_all: "digest_of (record_all xs) = sparse_digest (of_nat (length xs)) (of_nat (sum_list xs))
    (case least_of xs of None \<Rightarrow> 0 | Some m \<Rightarrow> of_nat m) (of_nat (most_of xs)) (rat_buckets xs)"
  using record_all_is [of xs] by (cases "xs = []") (auto simp: digest_of_def rat_buckets_def comp_def simp del: upt_rec_numeral split: option.splits)

definition merging_of :: "nat list \<Rightarrow> merging" where
  "merging_of xs = \<lparr>mg_buckets = rat_buckets xs, mg_count = of_nat (length xs), mg_sum = of_nat (sum_list xs),
     mg_min = map_option of_nat (least_of xs), mg_max = of_nat (most_of xs), mg_any = (xs \<noteq> [])\<rparr>"

lemma merge_one_all: "merge_one (Some (digest_of (record_all ys))) (merging_of xs) = merging_of (xs @ ys)"
proof (cases "ys = []")
  case True
  then show ?thesis by (simp add: merge_one_def digest_of_all sparse_digest_def Let_def)
next
  case False
  then obtain k where "least_of ys = Some k" by (cases "least_of ys") auto
  with False show ?thesis
    by (cases "least_of xs")
      (simp_all add: merge_one_def digest_of_all sparse_digest_def Let_def merging_of_def least_of_append lesser_def most_of_append max_def
        add_sparse rat_buckets_append del: upt_rec_numeral)
qed

lemma start_is_empty: "start_merge = merging_of []"
  by (simp add: start_merge_def merging_of_def least_of_def most_of_def rat_buckets_def map_replicate_const del: upt_rec_numeral)

lemma merge_all: "fold merge_one (map (\<lambda>xs. Some (digest_of (record_all xs))) xss) start_merge = merging_of (concat xss)"
  by (induction xss rule: rev_induct) (simp_all add: start_is_empty merge_one_all)

text \<open>Merging the digests of several hosts gives the digest of one histogram that saw every sample.\<close>

lemma finish_merge: "(if \<not> mg_any (merging_of xs) then empty_digest
    else sparse_digest (mg_count (merging_of xs)) (mg_sum (merging_of xs)) (case mg_min (merging_of xs) of None \<Rightarrow> 0 | Some m \<Rightarrow> m)
           (mg_max (merging_of xs)) (mg_buckets (merging_of xs))) = digest_of (record_all xs)"
proof (cases "xs = []")
  case True
  have none: "filter (\<lambda>i. 0 < rat_buckets [] ! i) [0..<384] = []" by (simp add: filter_empty_conv del: upt_rec_numeral)
  from True show ?thesis
    unfolding digest_of_all True by (simp add: merging_of_def empty_digest_def sparse_digest_def Let_def none del: upt_rec_numeral)
next
  case False
  then show ?thesis by (cases "least_of xs") (simp_all add: digest_of_all merging_of_def)
qed

lemma merge_is_recording: "merge_digests (map (\<lambda>xs. Some (digest_of (record_all xs))) xss) = digest_of (record_all (concat xss))"
  unfolding merge_digests_def merge_all Let_def by (rule finish_merge)

subsection \<open>Percentiles of what was recorded\<close>

lemma walk_cong: "(\<And>i. i \<in> set is' \<Longrightarrow> f i = g i) \<Longrightarrow> walk f t s is' = walk g t s is'"
  by (induction is' arbitrary: s) simp_all

lemma summarize_cong: "(\<And>i. i < 384 \<Longrightarrow> f i = g i) \<Longrightarrow> summarize f c s l h = summarize g c s l h"
proof -
  assume "\<And>i. i < 384 \<Longrightarrow> f i = g i"
  then have "walk f t 0 [0..<bucket_count] = walk g t 0 [0..<bucket_count]" for t by (intro walk_cong) (simp del: upt_rec_numeral)
  then show ?thesis by (simp add: summarize_def percentile_def del: upt_rec_numeral)
qed

lemma snapshot_of_all:
  "snapshot_of (record_all xs) = (if xs = [] then empty_snapshot
     else summarize (\<lambda>b. of_nat (in_bucket xs b)) (of_nat (length xs)) (of_nat (sum_list xs))
            (case least_of xs of Some m \<Rightarrow> of_nat m | None \<Rightarrow> 0) (of_nat (most_of xs)))"
proof (cases "xs = []")
  case False
  then obtain m where "least_of xs = Some m" by (cases "least_of xs") auto
  with False record_all_is [of xs] show ?thesis
    by (simp add: snapshot_of_def del: upt_rec_numeral) (rule summarize_cong, simp del: upt_rec_numeral)
qed (use record_all_is [of xs] in \<open>simp add: snapshot_of_def\<close>)

lemma no_buckets: "sum_buckets (replicate 384 0) (rat_buckets xs) = rat_buckets xs"
  by (rule nth_equalityI) (simp_all add: sum_buckets_def del: upt_rec_numeral)

lemma digest_snapshot_all: "digest_snapshot (Some (digest_of (record_all xs))) = snapshot_of (record_all xs)"
proof (cases "xs = []")
  case True
  then show ?thesis by (simp add: digest_snapshot_def digest_of_all sparse_digest_def Let_def snapshot_of_all)
next
  case False
  have "\<forall>i < 384. 0 \<le> rat_buckets xs ! i" by simp
  note sparse = add_sparse [OF _ _ this refl, of "replicate 384 0"]
  have "summarize (\<lambda>b. rat_buckets xs ! b) c s l h = summarize (\<lambda>b. of_nat (in_bucket xs b)) c s l h" for c s l h
    by (rule summarize_cong) simp
  with False sparse show ?thesis
    by (simp add: digest_snapshot_def digest_of_all sparse_digest_def Let_def snapshot_of_all no_buckets option.case_eq_if del: upt_rec_numeral)
qed

definition below :: "nat list \<Rightarrow> nat \<Rightarrow> nat" where
  "below xs b = length (filter (\<lambda>u. bucket_of_us u < b) xs)"

lemma below_Suc: "below xs (Suc b) = below xs b + in_bucket xs b"
  by (induction xs) (auto simp: below_def in_bucket_def)

lemma walk_finds:
  "m \<le> b \<Longrightarrow> b < n \<Longrightarrow> t \<le> of_nat (below xs (Suc b)) \<Longrightarrow> \<forall>i. m \<le> i \<and> i < b \<longrightarrow> \<not> t \<le> of_nat (below xs (Suc i))
     \<Longrightarrow> walk (\<lambda>i. of_nat (in_bucket xs i)) t (of_nat (below xs m)) [m..<n] = Some b"
proof (induction "b - m" arbitrary: m)
  case 0
  then have "m = b" by simp
  with 0 show ?case by (simp add: upt_conv_Cons below_Suc)
next
  case (Suc k)
  then have "m < b" by simp
  with Suc.prems Suc.hyps(1) [of "Suc m"] Suc.hyps(2) show ?case by (simp add: upt_conv_Cons below_Suc)
qed

definition rank :: "rat \<Rightarrow> nat list \<Rightarrow> nat" where
  "rank q xs = sort xs ! (nat \<lceil>q * of_nat (length xs)\<rceil> - 1)"

lemma count_sorted: "length (filter P xs) = length (filter P (sort xs))"
  by (metis filter_sort length_sort)

lemma walk_is_rank:
  assumes "xs \<noteq> []" "0 < q" "q \<le> 1"
  shows "walk (\<lambda>i. of_nat (in_bucket xs i)) (q * of_nat (length xs)) 0 [0..<384] = Some (bucket_of_us (rank q xs))"
proof -
  define k where "k = nat \<lceil>q * of_nat (length xs)\<rceil>"
  define ys where "ys = sort xs"
  let ?x = "ys ! (k - 1)"
  have pos: "0 < q * of_nat (length xs)" using assms by simp
  have "q * of_nat (length xs) \<le> of_nat (length xs)" using assms by (simp add: mult_le_cancel_right1)
  with pos have k: "1 \<le> k" "k \<le> length ys" by (simp_all add: k_def ys_def nat_le_iff ceiling_le_iff) linarith
  have target: "q * of_nat (length xs) \<le> of_nat m \<longleftrightarrow> k \<le> m" for m
    by (simp add: k_def nat_le_iff ceiling_le_iff)
  have sorted: "sorted ys" by (simp add: ys_def)
  have "k \<le> length (filter (\<lambda>u. bucket_of_us u < Suc (bucket_of_us ?x)) ys)"
  proof -
    have "\<forall>u \<in> set (take k ys). u \<le> ?x"
      using k sorted by (auto simp: in_set_conv_nth intro!: sorted_nth_mono) (use k in linarith)+
    then have "filter (\<lambda>u. bucket_of_us u < Suc (bucket_of_us ?x)) (take k ys) = take k ys"
      by (auto simp: filter_id_conv less_Suc_eq_le intro: bucket_of_mono)
    then have "length (filter (\<lambda>u. bucket_of_us u < Suc (bucket_of_us ?x)) (take k ys)) = k" using k by simp
    then have "k \<le> length (filter (\<lambda>u. bucket_of_us u < Suc (bucket_of_us ?x)) (take k ys @ drop k ys))" unfolding filter_append by simp
    then show ?thesis unfolding append_take_drop_id .
  qed
  then have hit: "k \<le> below xs (Suc (bucket_of_us ?x))" by (simp add: below_def count_sorted [of _ xs] ys_def)
  have miss: "\<not> k \<le> below xs (Suc i)" if "i < bucket_of_us ?x" for i
  proof -
    have "\<forall>u \<in> set (drop (k - 1) ys). ?x \<le> u"
      using k sorted by (auto simp: in_set_conv_nth intro!: sorted_nth_mono)
    then have "\<forall>u \<in> set (drop (k - 1) ys). bucket_of_us ?x \<le> bucket_of_us u" by (blast intro: bucket_of_mono)
    then have "\<forall>u \<in> set (drop (k - 1) ys). \<not> bucket_of_us u < Suc i" using that by fastforce
    then have "filter (\<lambda>u. bucket_of_us u < Suc i) (drop (k - 1) ys) = []" by (simp add: filter_empty_conv)
    moreover have "length (filter (\<lambda>u. bucket_of_us u < Suc i) (take (k - 1) ys)) \<le> k - 1"
      by (rule le_trans [OF length_filter_le]) simp
    ultimately have "length (filter (\<lambda>u. bucket_of_us u < Suc i) (take (k - 1) ys @ drop (k - 1) ys)) \<le> k - 1"
      unfolding filter_append by simp
    then have "length (filter (\<lambda>u. bucket_of_us u < Suc i) ys) \<le> k - 1" unfolding append_take_drop_id .
    then show ?thesis using k by (simp add: below_def count_sorted [of _ xs] ys_def)
  qed
  have "walk (\<lambda>i. of_nat (in_bucket xs i)) (q * of_nat (length xs)) (of_nat (below xs 0)) [0..<384] = Some (bucket_of_us ?x)"
    by (rule walk_finds) (use hit miss target in auto)
  then show ?thesis by (simp add: below_def rank_def k_def ys_def del: upt_rec_numeral)
qed

text \<open>A reported percentile is at most the sample of its rank, and short of it by at most a sixteenth of itself.\<close>

definition near :: "rat \<Rightarrow> nat \<Rightarrow> bool" where
  "near ms us \<longleftrightarrow> ms * 1000 \<le> of_nat us \<and> 16 * (of_nat us - ms * 1000) \<le> ms * 1000"

lemma percentile_near:
  assumes "xs \<noteq> []" "0 < q" "q \<le> 1" "rank q xs < 2 ^ 27"
  shows "near (percentile (\<lambda>b. of_nat (in_bucket xs b)) (of_nat (length xs)) h q) (rank q xs)"
proof -
  let ?v = "value_of (bucket_of_us (rank q xs))"
  from value_of_close [OF assms(4)] have close: "?v \<le> int (rank q xs)" "16 * (int (rank q xs) - ?v) \<le> ?v" by simp_all
  have "(of_int ?v :: rat) \<le> of_int (int (rank q xs))" "(of_int (16 * (int (rank q xs) - ?v)) :: rat) \<le> of_int ?v"
    using close by (simp_all only: of_int_le_iff)
  with walk_is_rank [OF assms(1-3)] show ?thesis by (simp add: percentile_def near_def del: upt_rec_numeral)
qed

subsection \<open>Properties\<close>

text \<open>
  C32. The merged statistics are the cluster's: whatever samples the hosts recorded, the statistics taken from the merge of
  their digests, as they cross the wire, are those of one histogram that recorded every sample itself.
\<close>

theorem cluster_statistics_are_exact:
  "digest_snapshot (Some (merge_digests (map (\<lambda>xs. Some (digest_of (fold record_us xs new_histogram))) xss)))
     = snapshot_of (fold record_us (concat xss) new_histogram)"
  using merge_is_recording [of xss] digest_snapshot_all [of "concat xss"] by (simp add: record_all_def)

text \<open>
  A reported percentile is the nearest-rank one to within a sixteenth: for any samples below 2 ^ 27 microseconds
  the reported 50th, 90th and 99th percentiles are at most the sample of that rank and short of it by at most
  a sixteenth of the reported value, while count, minimum, maximum and mean are exact.
\<close>

theorem percentiles_within_a_sixteenth:
  assumes "xs \<noteq> []" "\<forall>x \<in> set xs. x < 2 ^ 27" "s = snapshot_of (fold record_us xs new_histogram)"
  shows "near (sn_p50 s) (rank (1 / 2) xs) \<and> near (sn_p90 s) (rank (9 / 10) xs) \<and> near (sn_p99 s) (rank (99 / 100) xs)
    \<and> sn_count s = of_nat (length xs) \<and> sn_mean s = of_nat (sum_list xs) / of_nat (length xs) / 1000
    \<and> sn_min s = of_nat (Min (set xs)) / 1000 \<and> sn_max s = of_nat (Max (set xs)) / 1000"
proof -
  have ranked: "rank q xs < 2 ^ 27" if "0 < q" "q \<le> 1" for q
  proof -
    have "q * of_nat (length xs) \<le> of_nat (length xs)" using that mult_right_mono [of q 1 "of_nat (length xs)"] by simp
    then have "nat \<lceil>q * of_nat (length xs)\<rceil> \<le> length xs" by (simp add: nat_le_iff ceiling_le_iff)
    then have "nat \<lceil>q * of_nat (length xs)\<rceil> - 1 < length (sort xs)" using length_greater_0_conv [of xs] assms(1) unfolding length_sort by linarith
    then have "rank q xs \<in> set (sort xs)" unfolding rank_def by (rule nth_mem)
    with assms(2) show ?thesis by simp
  qed
  have "most_of ys = Max (set ys)" if "ys \<noteq> []" for ys
    using that
  proof (induction ys rule: rev_induct)
    case (snoc y ys)
    then show ?case by (cases "ys = []") (simp_all add: most_of_def max.commute)
  qed simp
  with assms(1) have most: "most_of xs = Max (set xs)" by simp
  have "least_of ys = Some (Min (set ys))" if "ys \<noteq> []" for ys
    using that
  proof (induction ys rule: rev_induct)
    case (snoc y ys)
    moreover have "lesser y (Some m) = Some (min y m)" for m by (simp add: lesser_def min_def)
    ultimately show ?case by (cases "ys = []") (simp_all add: least_of_def, simp add: lesser_def)
  qed simp
  with assms(1) have least: "least_of xs = Some (Min (set xs))" by simp
  from assms(1,3) have s: "s = summarize (\<lambda>b. of_nat (in_bucket xs b)) (of_nat (length xs)) (of_nat (sum_list xs)) (of_nat (Min (set xs))) (of_nat (Max (set xs)))"
    using snapshot_of_all [of xs] by (simp add: record_all_def least most)
  have "near (percentile (\<lambda>b. of_nat (in_bucket xs b)) (of_nat (length xs)) h q) (rank q xs)" if "0 < q" "q \<le> 1" for q h
    using that by (intro percentile_near assms(1) ranked) simp_all
  then show ?thesis by (simp add: s summarize_def)
qed

lemma walk_misses:
  "\<forall>i < n. \<not> t \<le> of_nat (below xs (Suc i)) \<Longrightarrow> m \<le> n \<Longrightarrow> walk (\<lambda>i. of_nat (in_bucket xs i)) t (of_nat (below xs m)) [m..<n] = None"
proof (induction "n - m" arbitrary: m)
  case (Suc k)
  then have "m < n" by simp
  with Suc.prems Suc.hyps(1) [of "Suc m"] Suc.hyps(2) show ?case by (simp add: upt_conv_Cons below_Suc)
qed simp

lemma spoiled_merge:
  assumes "ys \<noteq> []"
  shows "\<exists>bad. let s = digest_snapshot (Some (merge_digests [Some (digest_of (fold record_us ys new_histogram)), Some bad]))
         in sn_mean s < 0 \<and> sn_min s < 0 \<and> sn_p50 s = sn_max s \<and> sn_count s \<ge> of_nat (length ys)"
proof -
  let ?n = "rat_of_nat (length ys)"
  let ?bad = "\<lparr>hd_count = Finite (?n + 1), hd_sum = Finite (- of_nat (sum_list ys) - 1), hd_min = Finite (- 1), hd_max = Finite 0,
      hd_idx = Some [], hd_n = Some []\<rparr>"
  have first: "merge_one (Some (digest_of (fold record_us ys new_histogram))) start_merge = merging_of ys"
    using merge_one_all [of ys "[]"] by (simp add: start_is_empty record_all_def del: upt_rec_numeral)
  have n: "0 < ?n + 1" by (simp add: add_pos_nonneg)
  obtain m where m: "least_of ys = Some m" using assms by (cases "least_of ys") auto
  have second: "merge_one (Some ?bad) (merging_of ys) = (merging_of ys)\<lparr>mg_count := ?n + (?n + 1), mg_sum := - 1, mg_min := Some (- 1)\<rparr>"
    using n m assms by (simp add: merge_one_def merging_of_def add_pairs_def less_le_trans del: upt_rec_numeral)
  have merged: "merge_digests [Some (digest_of (fold record_us ys new_histogram)), Some ?bad]
      = sparse_digest (?n + (?n + 1)) (- 1) (- 1) (of_nat (most_of ys)) (rat_buckets ys)"
    using assms by (simp add: merge_digests_def first second Let_def) (simp add: merging_of_def)
  have "walk (\<lambda>i. of_nat (in_bucket ys i)) (1 / 2 * (?n + (?n + 1))) (of_nat (below ys 0)) [0..<384] = None"
  proof (rule walk_misses, intro allI impI)
    fix i
    have "below ys (Suc i) \<le> length ys" unfolding below_def by (rule length_filter_le)
    then have "rat_of_nat (below ys (Suc i)) \<le> ?n" by (simp only: of_nat_le_iff)
    then show "\<not> 1 / 2 * (?n + (?n + 1)) \<le> rat_of_nat (below ys (Suc i))" by (simp add: field_simps )
  qed simp
  moreover have "walk (\<lambda>b. rat_buckets ys ! b) t 0 [0..<384] = walk (\<lambda>i. of_nat (in_bucket ys i)) t 0 [0..<384]" for t
    by (rule walk_cong) (simp del: upt_rec_numeral)
  ultimately have median: "percentile (\<lambda>b. rat_buckets ys ! b) (?n + (?n + 1)) h (1 / 2) = h / 1000" for h
    by (simp add: percentile_def below_def del: upt_rec_numeral)
  have "\<forall>i < 384. 0 \<le> rat_buckets ys ! i" by simp
  note sparse = add_sparse [OF _ _ this refl, of "replicate 384 0"]
  have count: "\<not> ?n + (?n + 1) \<le> 0" using n by simp
  have "digest_snapshot (Some (sparse_digest (?n + (?n + 1)) (- 1) (- 1) (of_nat (most_of ys)) (rat_buckets ys)))
      = summarize (\<lambda>b. rat_buckets ys ! b) (?n + (?n + 1)) (- 1) (- 1) (of_nat (most_of ys))"
    using sparse count by (simp add: digest_snapshot_def sparse_digest_def Let_def no_buckets del: upt_rec_numeral)
  with merged median count have "let s = digest_snapshot (Some (merge_digests [Some (digest_of (fold record_us ys new_histogram)), Some ?bad]))
      in sn_mean s < 0 \<and> sn_min s < 0 \<and> sn_p50 s = sn_max s \<and> sn_count s \<ge> ?n"
    by (simp add: summarize_def Let_def divide_less_0_iff del: upt_rec_numeral)
  then show ?thesis by blast
qed

text \<open>
  One digest can spoil every other host's: indices and bucket counts are checked, but a digest's own count, sum and
  minimum are taken as they come, so a peer that sends a negative sum and a count its buckets do not
  cover makes the merged mean and minimum negative and the merged median the slowest call.
\<close>

theorem one_digest_spoils_the_merge:
  "\<exists>bad. let s = digest_snapshot (Some (merge_digests [Some (digest_of (fold record_us (x # xs) new_histogram)), Some bad]))
         in sn_mean s < 0 \<and> sn_min s < 0 \<and> sn_p50 s = sn_max s \<and> sn_count s \<ge> of_nat (length (x # xs))"
  by (rule spoiled_merge) simp

subsection \<open>Witnesses\<close>

theorem percentiles_within_a_sixteenth_witness:
  "near (sn_p50 (snapshot_of (fold record_us [7, 1000, 40] new_histogram))) 40
     \<and> near (sn_p99 (snapshot_of (fold record_us [7, 1000, 40] new_histogram))) 1000
     \<and> sn_mean (snapshot_of (fold record_us [7, 1000, 40] new_histogram)) = 349 / 1000"
proof -
  have "\<lceil>3 / 2 :: rat\<rceil> = 2" "\<lceil>297 / 100 :: rat\<rceil> = 3" by (simp_all add: ceiling_eq_iff)
  then have "rank (1 / 2) [7, 1000, 40] = 40" "rank (99 / 100) [7, 1000, 40] = 1000" by (simp_all add: rank_def)
  with percentiles_within_a_sixteenth [of "[7, 1000, 40]", OF _ _ refl] show ?thesis by simp
qed

end
