(* ===== verification/Metrics_Digest.thy ===== *)
theory Metrics_Digest
  imports Histogram "HOL-Library.Multiset"
begin

section \<open>Digests of metrics\<close>

text \<open>
  \<open>host/digest.ts\<close>: how the digests of several hosts fold into the numbers of the cluster, and how a breakdown is capped
  for the wire. A number that is missing, not finite or not positive counts as 0. Keys are not names of
  properties every JavaScript object inherits.
\<close>

subsection \<open>Digests and totals\<close>

record wire_calls =
  wc_calls :: wire_num
  wc_failed :: wire_num

record call_digest =
  cd_calls :: rat
  cd_failed :: rat

record metrics_digest =
  md_version :: nat
  md_layout :: string
  md_total :: wire_num
  md_failed :: wire_num
  md_streams :: wire_num
  md_one_way :: wire_num
  md_latency :: "hist_digest option"
  md_queue :: "hist_digest option"
  md_turn :: "hist_digest option"
  md_storage_latency :: "hist_digest option"
  md_kinds :: "(string, wire_num) jmap"
  md_created :: wire_num
  md_destroyed :: wire_num
  md_reasons :: "(string, wire_num) jmap"
  md_loads :: wire_num
  md_saves :: wire_num
  md_clears :: wire_num
  md_conflicts :: wire_num
  md_types :: "(string, wire_calls option) jmap"
  md_methods :: "(string, wire_calls option) jmap"

datatype fold_result = Folded | Counts_Only | Fold_Rejected

text \<open>The accumulator; the plain counters in the order the code lists them.\<close>

record metrics_acc =
  ma_counts :: "rat list"
  ma_reasons :: "(string, rat) jmap"
  ma_kinds :: "(string, rat) jmap"
  ma_types :: "(string, call_digest) jmap"
  ma_methods :: "(string, call_digest) jmap"
  ma_latency :: "hist_digest list"
  ma_queue :: "hist_digest list"
  ma_turn :: "hist_digest list"
  ma_storage :: "hist_digest list"

definition new_acc :: metrics_acc where
  "new_acc = \<lparr>ma_counts = replicate 10 0, ma_reasons = [], ma_kinds = [], ma_types = [], ma_methods = [],
     ma_latency = [], ma_queue = [], ma_turn = [], ma_storage = []\<rparr>"

definition wire_count :: "wire_num \<Rightarrow> rat" where
  "wire_count w = (case w of Finite x \<Rightarrow> if 0 < x then x else 0 | Not_Finite \<Rightarrow> 0)"

definition digest_counts :: "metrics_digest \<Rightarrow> rat list" where
  "digest_counts d = map wire_count [md_total d, md_failed d, md_streams d, md_one_way d, md_created d, md_destroyed d,
     md_loads d, md_saves d, md_clears d, md_conflicts d]"

definition add_count :: "string \<times> wire_num \<Rightarrow> (string, rat) jmap \<Rightarrow> (string, rat) jmap" where
  "add_count e m = jset m (fst e) ((case jget m (fst e) of Some x \<Rightarrow> x | None \<Rightarrow> 0) + wire_count (snd e))"

definition add_row :: "string \<times> wire_calls option \<Rightarrow> (string, call_digest) jmap \<Rightarrow> (string, call_digest) jmap" where
  "add_row e m = (case snd e of None \<Rightarrow> m | Some v \<Rightarrow>
     let b = (case jget m (fst e) of Some b \<Rightarrow> b | None \<Rightarrow> \<lparr>cd_calls = 0, cd_failed = 0\<rparr>)
     in jset m (fst e) \<lparr>cd_calls = cd_calls b + wire_count (wc_calls v), cd_failed = cd_failed b + wire_count (wc_failed v)\<rparr>)"

definition push_some :: "'a option \<Rightarrow> 'a list \<Rightarrow> 'a list" where
  "push_some x xs = (case x of None \<Rightarrow> xs | Some y \<Rightarrow> xs @ [y])"

definition add_digest :: "metrics_digest option \<Rightarrow> metrics_acc \<Rightarrow> fold_result \<times> metrics_acc" where
  "add_digest od a = (case od of None \<Rightarrow> (Fold_Rejected, a) | Some d \<Rightarrow>
     if md_version d \<noteq> 1 then (Fold_Rejected, a)
     else let a = a\<lparr>ma_counts := map2 (+) (ma_counts a) (digest_counts d), ma_reasons := fold add_count (md_reasons d) (ma_reasons a),
                    ma_kinds := fold add_count (md_kinds d) (ma_kinds a), ma_types := fold add_row (md_types d) (ma_types a),
                    ma_methods := fold add_row (md_methods d) (ma_methods a)\<rparr>
          in if md_layout d \<noteq> histogram_layout then (Counts_Only, a)
             else (Folded, a\<lparr>ma_latency := push_some (md_latency d) (ma_latency a), ma_queue := push_some (md_queue d) (ma_queue a),
                             ma_turn := push_some (md_turn d) (ma_turn a), ma_storage := push_some (md_storage_latency d) (ma_storage a)\<rparr>))"

definition fold_digests :: "metrics_digest option list \<Rightarrow> metrics_acc" where
  "fold_digests ds = fold (\<lambda>d a. snd (add_digest d a)) ds new_acc"

definition merged_latency :: "hist_digest list \<Rightarrow> hist_snapshot option" where
  "merged_latency parts = (if parts = [] then None else Some (digest_snapshot (Some (merge_digests (map Some parts)))))"

record merged_metrics =
  mm_counts :: "rat list"
  mm_latency :: "hist_snapshot option"
  mm_queue :: "hist_snapshot option"
  mm_turn :: "hist_snapshot option"
  mm_storage :: "hist_snapshot option"
  mm_kinds :: "string \<Rightarrow> rat option"
  mm_reasons :: "string \<Rightarrow> rat option"
  mm_types :: "string \<Rightarrow> call_digest option"
  mm_methods :: "string \<Rightarrow> call_digest option"

text \<open>The totals, a record of counters as the function its reader sees.\<close>

definition metrics_totals :: "metrics_acc \<Rightarrow> merged_metrics" where
  "metrics_totals a = \<lparr>mm_counts = ma_counts a, mm_latency = merged_latency (ma_latency a), mm_queue = merged_latency (ma_queue a),
     mm_turn = merged_latency (ma_turn a), mm_storage = merged_latency (ma_storage a), mm_kinds = jget (ma_kinds a),
     mm_reasons = jget (ma_reasons a), mm_types = jget (ma_types a), mm_methods = jget (ma_methods a)\<rparr>"

subsection \<open>Capping a breakdown\<close>

text \<open>The order of the rows: more calls first, then by name.\<close>

datatype row_rank = Row_Rank rat string

instantiation row_rank :: linorder
begin

fun less_eq_row_rank :: "row_rank \<Rightarrow> row_rank \<Rightarrow> bool" where
  "less_eq_row_rank (Row_Rank c k) (Row_Rank c' k') \<longleftrightarrow> c' < c \<or> c = c' \<and> k \<le> k'"

definition less_row_rank :: "row_rank \<Rightarrow> row_rank \<Rightarrow> bool" where
  "less_row_rank a b \<longleftrightarrow> a \<le> b \<and> \<not> b \<le> a"

instance
proof
  fix x y z :: row_rank
  show "(x < y) = (x \<le> y \<and> \<not> y \<le> x)" by (simp add: less_row_rank_def)
  show "x \<le> x" by (cases x) simp
  show "x \<le> y \<Longrightarrow> y \<le> z \<Longrightarrow> x \<le> z" by (cases x; cases y; cases z) auto
  show "x \<le> y \<Longrightarrow> y \<le> x \<Longrightarrow> x = y" by (cases x; cases y) auto
  show "x \<le> y \<or> y \<le> x" by (cases x; cases y) auto
qed

end

definition row_order :: "(string, call_digest) jmap \<Rightarrow> (string, call_digest) jmap" where
  "row_order rows = sort_key (\<lambda>(k, v). Row_Rank (cd_calls v) k) rows"

definition other_key :: string where
  "other_key = ''(other)''"

definition sum_rows :: "(string, call_digest) jmap \<Rightarrow> call_digest" where
  "sum_rows rows = \<lparr>cd_calls = sum_list (map (cd_calls \<circ> snd) rows), cd_failed = sum_list (map (cd_failed \<circ> snd) rows)\<rparr>"

definition fold_call_digests :: "(string, call_digest) jmap \<Rightarrow> int \<Rightarrow> (string, call_digest) jmap" where
  "fold_call_digests rows limit =
     (if limit \<le> 0 then []
      else if int (length rows) \<le> limit then rows
      else let entries = row_order rows; kept = take (nat limit) entries; other = sum_rows (drop (nat limit) entries)
           in jset kept other_key (case jget kept other_key of None \<Rightarrow> other
                | Some e \<Rightarrow> \<lparr>cd_calls = cd_calls e + cd_calls other, cd_failed = cd_failed e + cd_failed other\<rparr>))"

subsection \<open>Order does not matter\<close>

lemma add_pair_commutes: "add_pair p (add_pair q acc) = add_pair q (add_pair p acc)"
proof -
  have "acc[i := acc ! i + v, j := acc[i := acc ! i + v] ! j + w] = acc[j := acc ! j + w, i := acc[j := acc ! j + w] ! i + v]" for i j and v w :: rat
    by (cases "i = j"; cases "i < length acc") (simp_all add: list_update_swap nth_list_update add.commute add.left_commute list_update_beyond)
  then show ?thesis by (simp add: add_pair_def split: option.splits)
qed

lemma fold_commutes: "(\<And>x y a. f x (g y a) = g y (f x a)) \<Longrightarrow> fold f xs (g y a) = g y (fold f xs a)"
  by (induction xs arbitrary: a) simp_all

lemma folds_commute:
  assumes "\<And>x y a. f x (g y a) = g y (f x a)" shows "fold f xs (fold g ys a) = fold g ys (fold f xs a)"
proof (induction ys arbitrary: a)
  case (Cons y ys)
  have "fold f xs (g y a) = g y (fold f xs a)" by (rule fold_commutes) (rule assms)
  with Cons [of "g y a"] show ?case by simp
qed simp

lemma add_pairs_commutes: "add_pairs i n (add_pairs i' n' acc) = add_pairs i' n' (add_pairs i n acc)"
  unfolding add_pairs_def by (rule folds_commute) (rule add_pair_commutes)

definition lower_of :: "rat option \<Rightarrow> rat option \<Rightarrow> rat option" where
  "lower_of x m = (case x of None \<Rightarrow> m | Some l \<Rightarrow> (case m of None \<Rightarrow> Some l | Some m \<Rightarrow> Some (if l < m then l else m)))"

definition higher_of :: "rat option \<Rightarrow> rat \<Rightarrow> rat" where
  "higher_of x m = (case x of Some h \<Rightarrow> if m < h then h else m | None \<Rightarrow> m)"

definition absorb :: "wire_num list \<Rightarrow> wire_num list \<Rightarrow> rat \<Rightarrow> rat \<Rightarrow> rat option \<Rightarrow> rat option \<Rightarrow> merging \<Rightarrow> merging" where
  "absorb idx n c s l h a = a\<lparr>mg_any := True, mg_count := mg_count a + c, mg_sum := mg_sum a + s, mg_min := lower_of l (mg_min a),
     mg_max := higher_of h (mg_max a), mg_buckets := add_pairs idx n (mg_buckets a)\<rparr>"

lemma merge_one_cases: "merge_one od = id \<or> (\<exists>idx n c s l h. merge_one od = absorb idx n c s l h)"
proof (cases od)
  case None
  then show ?thesis by (simp add: merge_one_def fun_eq_iff)
next
  case (Some d)
  show ?thesis
  proof (cases "hd_idx d = None \<or> hd_n d = None \<or> wire_val (hd_count d) = None \<or> the (wire_val (hd_count d)) \<le> 0")
    case True
    then have "merge_one od = id" by (auto simp: Some merge_one_def fun_eq_iff split: option.splits)
    then show ?thesis ..
  next
    case False
    then have "merge_one od = absorb (the (hd_idx d)) (the (hd_n d)) (the (wire_val (hd_count d)))
        (case wire_val (hd_sum d) of Some s \<Rightarrow> s | None \<Rightarrow> 0) (wire_val (hd_min d)) (wire_val (hd_max d))"
      by (auto simp: Some merge_one_def absorb_def lower_of_def higher_of_def fun_eq_iff)
    then show ?thesis by blast
  qed
qed

lemma bounds_commute: "lower_of x (lower_of y m) = lower_of y (lower_of x m)" "higher_of h (higher_of h' k) = higher_of h' (higher_of h k)"
  by (auto simp: lower_of_def higher_of_def split: option.splits)

lemma absorb_commutes: "absorb i n c s l h (absorb i' n' c' s' l' h' a) = absorb i' n' c' s' l' h' (absorb i n c s l h a)"
  by (simp add: absorb_def add_pairs_commutes bounds_commute [of l] bounds_commute(2) [of h] add.commute add.left_commute)

lemma merge_one_commutes: "merge_one d (merge_one e a) = merge_one e (merge_one d a)"
  using merge_one_cases [of d] merge_one_cases [of e] absorb_commutes by fastforce

lemma merge_order_irrelevant: "mset ds = mset ds' \<Longrightarrow> merge_digests ds = merge_digests ds'"
  unfolding merge_digests_def
  by (subst fold_multiset_equiv [of ds merge_one ds']) (auto simp: fun_eq_iff merge_one_commutes)

text \<open>A part of the accumulator that moves on its own, by steps that commute.\<close>

lemma part_order_irrelevant:
  assumes part: "\<And>d a. part (snd (add_digest d a)) = g d (part a)" and "\<And>d e x. g d (g e x) = g e (g d x)" and "mset ds = mset ds'"
  shows "part (fold_digests ds) = part (fold_digests ds')"
proof -
  have "part (fold (\<lambda>d a. snd (add_digest d a)) ds a) = fold g ds (part a)" for ds a
    by (induction ds arbitrary: a) (simp_all add: part)
  moreover have "fold g ds = fold g ds'"
    by (rule fold_multiset_equiv) (simp_all add: fun_eq_iff assms(2) assms(3))
  ultimately show ?thesis by (simp add: fold_digests_def)
qed

definition accepted :: "metrics_digest option \<Rightarrow> bool" where
  "accepted od \<longleftrightarrow> (case od of None \<Rightarrow> False | Some d \<Rightarrow> md_version d = 1)"

definition comparable :: "metrics_digest option \<Rightarrow> bool" where
  "comparable od \<longleftrightarrow> accepted od \<and> md_layout (the od) = histogram_layout"

lemma add_digest_parts:
  "ma_counts (snd (add_digest od a)) = (if accepted od then map2 (+) (ma_counts a) (digest_counts (the od)) else ma_counts a)"
  "ma_reasons (snd (add_digest od a)) = (if accepted od then fold add_count (md_reasons (the od)) (ma_reasons a) else ma_reasons a)"
  "ma_kinds (snd (add_digest od a)) = (if accepted od then fold add_count (md_kinds (the od)) (ma_kinds a) else ma_kinds a)"
  "ma_types (snd (add_digest od a)) = (if accepted od then fold add_row (md_types (the od)) (ma_types a) else ma_types a)"
  "ma_methods (snd (add_digest od a)) = (if accepted od then fold add_row (md_methods (the od)) (ma_methods a) else ma_methods a)"
  "ma_latency (snd (add_digest od a)) = (if comparable od then push_some (md_latency (the od)) (ma_latency a) else ma_latency a)"
  "ma_queue (snd (add_digest od a)) = (if comparable od then push_some (md_queue (the od)) (ma_queue a) else ma_queue a)"
  "ma_turn (snd (add_digest od a)) = (if comparable od then push_some (md_turn (the od)) (ma_turn a) else ma_turn a)"
  "ma_storage (snd (add_digest od a)) = (if comparable od then push_some (md_storage_latency (the od)) (ma_storage a) else ma_storage a)"
  by (cases od; simp add: add_digest_def Let_def accepted_def comparable_def)+

lemma map2_add_commutes: "map2 (+) (map2 (+) xs ys) zs = map2 (+) (map2 (+) xs zs) (ys :: rat list)"
proof (induction xs arbitrary: ys zs)
  case (Cons x xs)
  then show ?case by (cases ys; cases zs) (simp_all add: add.commute add.left_commute)
qed simp

text \<open>The maps as functions.\<close>

definition count_into :: "string \<times> wire_num \<Rightarrow> (string \<Rightarrow> rat option) \<Rightarrow> (string \<Rightarrow> rat option)" where
  "count_into e f = f(fst e := Some ((case f (fst e) of Some x \<Rightarrow> x | None \<Rightarrow> 0) + wire_count (snd e)))"

definition row_into :: "string \<times> wire_calls option \<Rightarrow> (string \<Rightarrow> call_digest option) \<Rightarrow> (string \<Rightarrow> call_digest option)" where
  "row_into e f = (case snd e of None \<Rightarrow> f | Some v \<Rightarrow>
     let b = (case f (fst e) of Some b \<Rightarrow> b | None \<Rightarrow> \<lparr>cd_calls = 0, cd_failed = 0\<rparr>)
     in f(fst e := Some \<lparr>cd_calls = cd_calls b + wire_count (wc_calls v), cd_failed = cd_failed b + wire_count (wc_failed v)\<rparr>))"

lemma jget_add_counts: "jget (fold add_count es m) = fold count_into es (jget m)"
proof (induction es arbitrary: m)
  case (Cons e es)
  have "jget (add_count e m) = count_into e (jget m)" by (simp add: add_count_def count_into_def fun_eq_iff)
  with Cons show ?case by simp
qed simp

lemma jget_add_rows: "jget (fold add_row es m) = fold row_into es (jget m)"
proof (induction es arbitrary: m)
  case (Cons e es)
  have "jget (add_row e m) = row_into e (jget m)" by (simp add: add_row_def row_into_def Let_def fun_eq_iff split: option.split)
  with Cons show ?case by simp
qed simp

lemma count_into_commutes: "count_into d (count_into e f) = count_into e (count_into d f)"
  by (auto simp: count_into_def fun_eq_iff add.commute add.left_commute split: option.splits)

lemma row_into_commutes: "row_into d (row_into e f) = row_into e (row_into d f)"
  by (auto simp: row_into_def fun_eq_iff Let_def add.commute add.left_commute split: option.splits)

definition bag_of :: "'a option \<Rightarrow> 'a multiset" where
  "bag_of x = (case x of None \<Rightarrow> {#} | Some y \<Rightarrow> {#y#})"

lemma mset_push_some: "mset (push_some x xs) = mset xs + bag_of x"
  by (simp add: push_some_def bag_of_def split: option.split)

lemma merged_latency_order: "mset xs = mset ys \<Longrightarrow> merged_latency xs = merged_latency ys"
  using merge_order_irrelevant [of "map Some xs" "map Some ys"] by (auto simp: merged_latency_def)

lemma histories_order:
  assumes "\<And>d a. part (snd (add_digest d a)) = (if comparable d then push_some (f (the d)) (part a) else part a)" "mset ds = mset ds'"
  shows "merged_latency (part (fold_digests ds)) = merged_latency (part (fold_digests ds'))"
proof (rule merged_latency_order)
  show "mset (part (fold_digests ds)) = mset (part (fold_digests ds'))"
    by (rule part_order_irrelevant [where g = "\<lambda>d x. if comparable d then x + bag_of (f (the d)) else x"])
      (simp_all add: assms mset_push_some)
qed

lemma maps_order:
  assumes "\<And>d a. part (snd (add_digest d a)) = (if accepted d then fold put (entries (the d)) (part a) else part a)"
    and "\<And>es m. jget (fold put es m) = fold into es (jget m)" "\<And>d e f. into d (into e f) = into e (into d f)" "mset ds = mset ds'"
  shows "jget (part (fold_digests ds)) = jget (part (fold_digests ds'))"
proof (rule part_order_irrelevant [where part = "\<lambda>a. jget (part a)" and g = "\<lambda>d x. if accepted d then fold into (entries (the d)) x else x"])
  show "(if accepted d then fold into (entries (the d)) (if accepted e then fold into (entries (the e)) x else x) else (if accepted e then fold into (entries (the e)) x else x))
      = (if accepted e then fold into (entries (the e)) (if accepted d then fold into (entries (the d)) x else x) else (if accepted d then fold into (entries (the d)) x else x))" for d e x
    by (simp add: folds_commute [of into into, OF assms(3)])
qed (simp_all add: assms)

lemma counts_order: "mset ds = mset ds' \<Longrightarrow> ma_counts (fold_digests ds) = ma_counts (fold_digests ds')"
  by (rule part_order_irrelevant [where g = "\<lambda>d x. if accepted d then map2 (+) x (digest_counts (the d)) else x"])
    (simp_all add: add_digest_parts map2_add_commutes)

text \<open>
  The numbers of a cluster do not depend on the order its hosts answered in: any two orders of the same digests,
  rejected and differently laid out ones among them, give the same totals, maps and percentiles.
\<close>

theorem digest_order_irrelevant:
  assumes "mset ds = mset ds'"
  shows "metrics_totals (fold_digests ds) = metrics_totals (fold_digests ds')"
proof -
  note maps = maps_order [OF add_digest_parts(2) jget_add_counts count_into_commutes assms]
    maps_order [OF add_digest_parts(3) jget_add_counts count_into_commutes assms]
    maps_order [OF add_digest_parts(4) jget_add_rows row_into_commutes assms]
    maps_order [OF add_digest_parts(5) jget_add_rows row_into_commutes assms]
  note histories = add_digest_parts(6,7,8,9) [THEN histories_order, OF assms]
  from maps histories counts_order [OF assms] show ?thesis unfolding metrics_totals_def by simp
qed

subsection \<open>A capped breakdown still adds up\<close>

lemma sum_rows_append: "sum_rows (xs @ ys) = \<lparr>cd_calls = cd_calls (sum_rows xs) + cd_calls (sum_rows ys), cd_failed = cd_failed (sum_rows xs) + cd_failed (sum_rows ys)\<rparr>"
  by (simp add: sum_rows_def)

lemma sum_rows_order: "mset xs = mset ys \<Longrightarrow> sum_rows xs = sum_rows ys"
  unfolding sum_rows_def by (metis mset_map sum_mset_sum_list)

lemma sum_rows_jset:
  "distinct (jkeys m) \<Longrightarrow> sum_rows (jset m k v) = \<lparr>cd_calls = cd_calls (sum_rows m) + cd_calls v - (case jget m k of Some e \<Rightarrow> cd_calls e | None \<Rightarrow> 0),
     cd_failed = cd_failed (sum_rows m) + cd_failed v - (case jget m k of Some e \<Rightarrow> cd_failed e | None \<Rightarrow> 0)\<rparr>"
  by (induction m) (auto simp: sum_rows_def)

lemma row_order_props: "mset (row_order rows) = mset rows" "sorted (map (\<lambda>(k, v). Row_Rank (cd_calls v) k) (row_order rows))"
  by (simp_all add: row_order_def)

lemma fold_sums:
  assumes "0 < limit" "distinct (jkeys rows)"
  shows "sum_rows (fold_call_digests rows limit) = sum_rows rows"
proof (cases "int (length rows) \<le> limit")
  case False
  let ?es = "row_order rows" and ?n = "nat limit"
  have "distinct (jkeys ?es)" using assms(2) row_order_props(1) [of rows] by (metis mset_eq_imp_distinct_iff mset_map)
  then have "distinct (jkeys (take ?n ?es))" by (simp add: take_map [symmetric])
  note set_other = sum_rows_jset [OF this, of other_key]
  have "sum_rows rows = sum_rows (take ?n ?es @ drop ?n ?es)" using sum_rows_order [OF row_order_props(1)] by simp
  with False assms(1) show ?thesis
    by (cases "jget (take ?n ?es) other_key") (simp_all add: fold_call_digests_def Let_def set_other sum_rows_append del: append_take_drop_id)
qed (use assms in \<open>simp add: fold_call_digests_def\<close>)

lemma top_rows:
  assumes "distinct (jkeys rows)" "0 < limit" "k \<noteq> other_key" "jget (fold_call_digests rows limit) k = Some v"
  shows "jget rows k = Some v \<and> (jget (fold_call_digests rows limit) k' = None \<and> jget rows k' = Some v' \<longrightarrow> cd_calls v' \<le> cd_calls v)"
proof (cases "int (length rows) \<le> limit")
  case True
  with assms(2) have "fold_call_digests rows limit = rows" by (simp add: fold_call_digests_def)
  with assms(4) show ?thesis by auto
next
  case False
  let ?es = "row_order rows" and ?n = "nat limit"
  have dis: "distinct (jkeys ?es)" using assms(1) row_order_props(1) [of rows] by (metis mset_eq_imp_distinct_iff mset_map)
  have same: "jget ?es j = jget rows j" for j
    using assms(1) dis row_order_props(1) [of rows] by (metis map_of_eqI map_of_eq_Some_iff mset_eq_setD option.exhaust)
  have kept: "jget (fold_call_digests rows limit) j = (if j = other_key then jget (fold_call_digests rows limit) j else jget (take ?n ?es) j)" for j
    using False assms(2) by (simp add: fold_call_digests_def Let_def)
  from kept [of k] assms(3,4) have k: "(k, v) \<in> set (take ?n ?es)" by (simp add: map_of_SomeD)
  then have "(k, v) \<in> set ?es" by (rule in_set_takeD)
  then have v: "jget rows k = Some v" using dis same by (metis map_of_eq_Some_iff)
  moreover have "cd_calls v' \<le> cd_calls v" if gone: "jget (fold_call_digests rows limit) k' = None" and row: "jget rows k' = Some v'"
  proof -
    have "k' \<noteq> other_key" using gone False assms(2) by (auto simp: fold_call_digests_def Let_def split: if_splits)
    with gone kept [of k'] have "jget (take ?n ?es) k' = None" by simp
    then have "(k', v') \<notin> set (take ?n ?es)" unfolding map_of_eq_None_iff by force
    moreover have "(k', v') \<in> set (take ?n ?es @ drop ?n ?es)" using row same [of k'] by (simp add: map_of_SomeD)
    ultimately have "(k', v') \<in> set (drop ?n ?es)" unfolding set_append by blast
    moreover have "sorted (map (\<lambda>(k, v). Row_Rank (cd_calls v) k) (take ?n ?es @ drop ?n ?es))" using row_order_props(2) [of rows] by simp
    ultimately have "Row_Rank (cd_calls v) k \<le> Row_Rank (cd_calls v') k'" using k unfolding map_append sorted_append by fastforce
    then show ?thesis by auto
  qed
  ultimately show ?thesis by blast
qed

text \<open>
  A breakdown capped for the wire still adds up: its calls and failures sum to those of all rows, at most one row more than
  the limit is left, and every named row left is as it was and has at least the calls of every row folded away.
\<close>

theorem capped_breakdown_adds_up:
  assumes "0 < limit" "distinct (jkeys rows)"
  shows "sum_rows (fold_call_digests rows limit) = sum_rows rows \<and> int (length (fold_call_digests rows limit)) \<le> limit + 1
    \<and> (k \<noteq> other_key \<and> jget (fold_call_digests rows limit) k = Some v
         \<longrightarrow> jget rows k = Some v \<and> (jget (fold_call_digests rows limit) k' = None \<and> jget rows k' = Some v' \<longrightarrow> cd_calls v' \<le> cd_calls v))"
proof -
  have "length (jset m j x) \<le> Suc (length m)" for m :: "(string, call_digest) jmap" and j x by (simp add: length_jset)
  then have "length (jset (take (nat limit) (row_order rows)) other_key x) \<le> Suc (nat limit)" for x by (rule order_trans) simp
  with assms have "int (length (fold_call_digests rows limit)) \<le> limit + 1"
    by (auto simp: fold_call_digests_def Let_def) (smt (verit) int_nat_eq of_nat_Suc of_nat_mono)
  with fold_sums [OF assms] top_rows [OF assms(2,1)] show ?thesis by blast
qed

subsection \<open>Witnesses\<close>

definition demo_digest :: "string \<Rightarrow> nat list \<Rightarrow> metrics_digest" where
  "demo_digest layout xs = \<lparr>md_version = 1, md_layout = layout, md_total = Finite (of_nat (length xs)), md_failed = Finite (- 3), md_streams = Not_Finite,
     md_one_way = Finite 0, md_latency = Some (digest_of (fold record_us xs new_histogram)), md_queue = None, md_turn = None, md_storage_latency = None,
     md_kinds = [(''timeout'', Finite 1)], md_created = Finite 1, md_destroyed = Finite 0, md_reasons = [], md_loads = Finite 0, md_saves = Finite 0,
     md_clears = Finite 0, md_conflicts = Finite 0, md_types = [(''cart'', Some \<lparr>wc_calls = Finite 2, wc_failed = Finite 1\<rparr>)], md_methods = []\<rparr>"

theorem digest_order_irrelevant_witness:
  "metrics_totals (fold_digests [Some (demo_digest histogram_layout [5]), None, Some (demo_digest ''old'' [9, 7])])
     = metrics_totals (fold_digests [Some (demo_digest ''old'' [9, 7]), Some (demo_digest histogram_layout [5]), None])"
  by (rule digest_order_irrelevant) simp

definition demo_rows :: "(string, call_digest) jmap" where
  "demo_rows = [(''a'', \<lparr>cd_calls = 5, cd_failed = 0\<rparr>), (''b'', \<lparr>cd_calls = 9, cd_failed = 1\<rparr>), (''c'', \<lparr>cd_calls = 2, cd_failed = 2\<rparr>)]"

theorem capped_breakdown_adds_up_witness:
  "sum_rows (fold_call_digests demo_rows 1) = sum_rows demo_rows \<and> int (length (fold_call_digests demo_rows 1)) \<le> 2
     \<and> fold_call_digests demo_rows 1 = [(''b'', \<lparr>cd_calls = 9, cd_failed = 1\<rparr>), (''(other)'', \<lparr>cd_calls = 7, cd_failed = 2\<rparr>)]"
proof -
  have "fold_call_digests demo_rows 1 = [(''b'', \<lparr>cd_calls = 9, cd_failed = 1\<rparr>), (''(other)'', \<lparr>cd_calls = 7, cd_failed = 2\<rparr>)]"
    by (simp add: fold_call_digests_def demo_rows_def row_order_def sort_key_def sum_rows_def other_key_def)
  with capped_breakdown_adds_up [of 1 demo_rows] show ?thesis by (simp add: demo_rows_def)
qed

end
