(* ===== verification/Refresh_Coalescer.thy ===== *)
theory Refresh_Coalescer
  imports Machines
begin

section \<open>Coalescing of membership refreshes\<close>

text \<open>
  \<open>cluster/coalesce.ts\<close>: how a membership provider turns change notifications and demands into full refreshes of its view.
  Refreshes are numbered in the order they start; a promise the coalescer hands out is a number, too. The version
  of the view moves by itself. For the properties the state keeps what was noted and demanded, when, and which refresh
  answered which demand. A refresh that rejects and one that resolves settle alike.
\<close>

subsection \<open>State\<close>

record trailing =
  tr_versionless :: bool
  tr_max :: "nat option"
  tr_waiters :: "nat list"

record coalescer =
  co_flight :: "nat option"
  co_trailing :: "trailing option"
  co_quiet :: bool
  co_settle :: "nat list"
  co_joined :: "nat list"
  co_version :: nat
  co_started :: nat
  co_overlap :: bool
  co_asked :: "nat list"
  co_answered :: "(nat \<times> nat) list"
  co_noted :: "(nat option \<times> nat) list"
  co_resolved :: "nat list"

definition new_coalescer :: "nat \<Rightarrow> coalescer" where
  "new_coalescer v = \<lparr>co_flight = None, co_trailing = None, co_quiet = False, co_settle = [], co_joined = [], co_version = v,
     co_started = 0, co_overlap = False, co_asked = [], co_answered = [], co_noted = [], co_resolved = []\<rparr>"

definition no_trailing :: trailing where
  "no_trailing = \<lparr>tr_versionless = False, tr_max = None, tr_waiters = []\<rparr>"

subsection \<open>Operations\<close>

definition co_idle :: "coalescer \<Rightarrow> bool" where
  "co_idle c \<longleftrightarrow> co_flight c = None \<and> co_trailing c = None"

lemma co_idle_simps [simp]: "co_idle (c\<lparr>co_noted := ns\<rparr>) = co_idle c" "co_idle (c\<lparr>co_asked := as\<rparr>) = co_idle c"
  by (simp_all add: co_idle_def)

definition notify_settled :: "coalescer \<Rightarrow> coalescer" where
  "notify_settled c = (if co_idle c then c\<lparr>co_settle := [], co_resolved := co_resolved c @ co_settle c\<rparr> else c)"

definition start_refresh :: "nat list \<Rightarrow> coalescer \<Rightarrow> coalescer" where
  "start_refresh waiters c = c\<lparr>co_overlap := (co_overlap c \<or> co_flight c \<noteq> None), co_flight := Some (co_started c),
     co_started := Suc (co_started c), co_joined := waiters\<rparr>"

definition trailing_due :: "nat \<Rightarrow> trailing \<Rightarrow> bool" where
  "trailing_due version t \<longleftrightarrow> tr_waiters t \<noteq> [] \<or> tr_versionless t \<or> (case tr_max t of Some m \<Rightarrow> version < m | None \<Rightarrow> False)"

definition run_trailing :: "coalescer \<Rightarrow> coalescer" where
  "run_trailing c = (let pending = co_trailing c; c = c\<lparr>co_quiet := False, co_trailing := None\<rparr>
     in case pending of None \<Rightarrow> notify_settled c
        | Some t \<Rightarrow> if trailing_due (co_version c) t then start_refresh (tr_waiters t) c else notify_settled c)"

text \<open>\<open>onFlightSettled\<close>, and the answers to whoever awaited the flight; \<open>waits\<close> is \<open>quietMs > 0\<close>.\<close>

definition flight_settled :: "bool \<Rightarrow> coalescer \<Rightarrow> coalescer" where
  "flight_settled waits c = (let c = c\<lparr>co_flight := None, co_joined := [],
        co_answered := co_answered c @ map (\<lambda>i. (i, the (co_flight c))) (co_joined c)\<rparr>
     in if co_trailing c = None then notify_settled c
        else if waits then c\<lparr>co_quiet := True\<rparr> else run_trailing c)"

definition higher_version :: "nat \<Rightarrow> nat option \<Rightarrow> nat option" where
  "higher_version v m = (case m of None \<Rightarrow> Some v | Some m \<Rightarrow> if m < v then Some v else Some m)"

definition note_hint :: "nat option \<Rightarrow> coalescer \<Rightarrow> coalescer" where
  "note_hint noted c =
     (let c = c\<lparr>co_noted := co_noted c @ [(noted, co_started c)]\<rparr>
      in if (case noted of Some v \<Rightarrow> v \<le> co_version c | None \<Rightarrow> False) then c
         else if co_idle c then start_refresh [] c
         else let t = (case co_trailing c of Some t \<Rightarrow> t | None \<Rightarrow> no_trailing)
              in c\<lparr>co_trailing := Some (case noted of None \<Rightarrow> t\<lparr>tr_versionless := True\<rparr> | Some v \<Rightarrow> t\<lparr>tr_max := higher_version v (tr_max t)\<rparr>)\<rparr>)"

definition demand :: "coalescer \<Rightarrow> coalescer" where
  "demand c =
     (let i = length (co_asked c); c = c\<lparr>co_asked := co_asked c @ [co_started c]\<rparr>
      in if co_idle c then start_refresh [i] c
         else let t = (case co_trailing c of Some t \<Rightarrow> t | None \<Rightarrow> no_trailing);
                  c = c\<lparr>co_trailing := Some (t\<lparr>tr_waiters := tr_waiters t @ [i]\<rparr>)\<rparr>
              in if co_flight c = None \<and> co_quiet c then run_trailing c else c)"

definition ask_settled :: "nat \<Rightarrow> coalescer \<Rightarrow> coalescer" where
  "ask_settled i c = (if co_idle c then c\<lparr>co_resolved := co_resolved c @ [i]\<rparr> else c\<lparr>co_settle := co_settle c @ [i]\<rparr>)"

subsection \<open>Steps\<close>

inductive co_moves :: "bool \<Rightarrow> coalescer \<Rightarrow> coalescer \<Rightarrow> bool" for waits where
  lands: "co_flight c = Some f \<Longrightarrow> co_moves waits c (flight_settled waits c)"
| quiet_ends: "co_quiet c \<Longrightarrow> co_moves waits c (run_trailing c)"

inductive co_step :: "bool \<Rightarrow> coalescer \<Rightarrow> coalescer \<Rightarrow> bool" for waits where
  moves: "co_moves waits c c' \<Longrightarrow> co_step waits c c'"
| hints: "co_step waits c (note_hint noted c)"
| demands: "co_step waits c (demand c)"
| asks: "co_step waits c (ask_settled i c)"
| view_moves: "co_version c \<le> v \<Longrightarrow> co_step waits c (c\<lparr>co_version := v\<rparr>)"

inductive_cases co_movesE: "co_moves waits c c'"
inductive_cases co_stepE: "co_step waits c c'"

definition co_begin :: "coalescer \<Rightarrow> bool" where
  "co_begin c \<longleftrightarrow> (\<exists>v. c = new_coalescer v)"

subsection \<open>The invariant\<close>

text \<open>
  Where a demand is: answered by a refresh that did not start before it, awaiting the flight, which did not either,
  or a waiter of the trailing refresh. A hint is behind the view, or behind a later start, or pending.
\<close>

definition demand_ok :: "coalescer \<Rightarrow> nat \<Rightarrow> bool" where
  "demand_ok c i \<longleftrightarrow> (\<exists>f. (i, f) \<in> set (co_answered c) \<and> co_asked c ! i \<le> f)
     \<or> i \<in> set (co_joined c) \<and> (\<exists>f. co_flight c = Some f \<and> co_asked c ! i \<le> f)
     \<or> (\<exists>t. co_trailing c = Some t \<and> i \<in> set (tr_waiters t))"

definition hint_pending :: "trailing option \<Rightarrow> nat option \<Rightarrow> bool" where
  "hint_pending tr noted \<longleftrightarrow> (case tr of None \<Rightarrow> False | Some t \<Rightarrow>
     (case noted of None \<Rightarrow> tr_versionless t | Some v \<Rightarrow> (case tr_max t of None \<Rightarrow> False | Some m \<Rightarrow> v \<le> m)))"

fun hint_known :: "nat \<Rightarrow> nat option \<Rightarrow> bool" where
  "hint_known version None = False"
| "hint_known version (Some v) \<longleftrightarrow> v \<le> version"

definition hint_ok :: "coalescer \<Rightarrow> nat option \<times> nat \<Rightarrow> bool" where
  "hint_ok c n \<longleftrightarrow> snd n < co_started c \<or> hint_known (co_version c) (fst n) \<or> hint_pending (co_trailing c) (fst n)"

definition answers_fresh :: "coalescer \<Rightarrow> bool" where
  "answers_fresh c \<longleftrightarrow> (\<forall>(i, f) \<in> set (co_answered c). i < length (co_asked c) \<and> co_asked c ! i \<le> f)"

fun flight_ok :: "nat \<Rightarrow> nat list \<Rightarrow> nat list \<Rightarrow> nat option \<Rightarrow> bool" where
  "flight_ok started asked joined None \<longleftrightarrow> joined = []"
| "flight_ok started asked joined (Some f) \<longleftrightarrow> started = Suc f \<and> list_all (\<lambda>i. i < length asked \<and> asked ! i \<le> f) joined"

fun waiters_ok :: "nat \<Rightarrow> trailing option \<Rightarrow> bool" where
  "waiters_ok n None \<longleftrightarrow> True"
| "waiters_ok n (Some t) \<longleftrightarrow> list_all (\<lambda>i. i < n) (tr_waiters t)"

fun quiet_ok :: "nat option \<Rightarrow> trailing option \<Rightarrow> bool \<Rightarrow> bool" where
  "quiet_ok (Some f) t q \<longleftrightarrow> \<not> q"
| "quiet_ok None t q \<longleftrightarrow> (q \<longleftrightarrow> t \<noteq> None)"

definition settle_ok :: "coalescer \<Rightarrow> bool" where
  "settle_ok c \<longleftrightarrow> (co_idle c \<longrightarrow> co_settle c = [])"

definition co_shape :: "coalescer \<Rightarrow> bool" where
  "co_shape c \<longleftrightarrow> \<not> co_overlap c \<and> flight_ok (co_started c) (co_asked c) (co_joined c) (co_flight c)
     \<and> waiters_ok (length (co_asked c)) (co_trailing c) \<and> quiet_ok (co_flight c) (co_trailing c) (co_quiet c)
     \<and> list_all (\<lambda>a. a \<le> co_started c) (co_asked c) \<and> settle_ok c"

definition co_ok :: "coalescer \<Rightarrow> bool" where
  "co_ok c \<longleftrightarrow> co_shape c \<and> answers_fresh c \<and> (\<forall>i < length (co_asked c). demand_ok c i) \<and> (\<forall>n \<in> set (co_noted c). hint_ok c n)"

definition promises_ok :: "coalescer \<Rightarrow> bool" where
  "promises_ok c \<longleftrightarrow> answers_fresh c \<and> (\<forall>i < length (co_asked c). demand_ok c i)
     \<and> (\<forall>n \<in> set (co_noted c). hint_ok c n \<and> snd n \<le> co_started c)"

definition co_fine :: "coalescer \<Rightarrow> bool" where
  "co_fine c \<longleftrightarrow> co_shape c \<and> promises_ok c"

lemma promises_okI:
  "answers_fresh c \<Longrightarrow> (\<And>i. i < length (co_asked c) \<Longrightarrow> demand_ok c i) \<Longrightarrow> (\<And>n. n \<in> set (co_noted c) \<Longrightarrow> hint_ok c n \<and> snd n \<le> co_started c)
     \<Longrightarrow> promises_ok c"
  by (simp add: promises_ok_def)

lemma promises_okD:
  assumes "promises_ok c"
  shows "answers_fresh c" "i < length (co_asked c) \<Longrightarrow> demand_ok c i" "n \<in> set (co_noted c) \<Longrightarrow> hint_ok c n" "n \<in> set (co_noted c) \<Longrightarrow> snd n \<le> co_started c"
  using assms by (simp_all add: promises_ok_def)

lemma promises_ok_same:
  "co_answered c' = co_answered c \<Longrightarrow> co_joined c' = co_joined c \<Longrightarrow> co_flight c' = co_flight c \<Longrightarrow> co_trailing c' = co_trailing c
    \<Longrightarrow> co_asked c' = co_asked c \<Longrightarrow> co_noted c' = co_noted c \<Longrightarrow> co_started c' = co_started c \<Longrightarrow> co_version c' = co_version c
    \<Longrightarrow> promises_ok c' = promises_ok c"
  by (simp add: promises_ok_def demand_ok_def hint_ok_def answers_fresh_def)

text \<open>What holds between the operations' parts: nothing is in flight, and the trailing refresh may be due with no timer set.\<close>

definition co_mid :: "coalescer \<Rightarrow> bool" where
  "co_mid c \<longleftrightarrow> \<not> co_overlap c \<and> co_flight c = None \<and> co_joined c = [] \<and> waiters_ok (length (co_asked c)) (co_trailing c)
     \<and> list_all (\<lambda>a. a \<le> co_started c) (co_asked c) \<and> promises_ok c"

lemma not_due_covers: "hint_pending (Some t) noted \<Longrightarrow> \<not> trailing_due v t \<Longrightarrow> hint_known v noted"
  by (cases noted) (auto simp: hint_pending_def trailing_due_def split: option.splits)

lemma notify_fine:
  assumes "co_mid c" "co_trailing c = None" "\<not> co_quiet c" shows "co_fine (notify_settled c)"
proof -
  have "promises_ok (notify_settled c) = promises_ok c" by (rule promises_ok_same) (simp_all add: notify_settled_def)
  with assms show ?thesis by (simp add: co_mid_def co_fine_def co_shape_def notify_settled_def co_idle_def settle_ok_def)
qed

lemma start_fine:
  assumes c: "\<not> co_overlap c" "co_flight c = None" "co_joined c = []" "co_trailing c = None" "\<not> co_quiet c" "answers_fresh c"
    and asked: "list_all (\<lambda>a. a \<le> co_started c) (co_asked c)" and ws: "list_all (\<lambda>i. i < length (co_asked c)) ws"
    and demands: "\<And>i. i < length (co_asked c) \<Longrightarrow> demand_ok c i \<or> i \<in> set ws" and hints: "\<And>n. n \<in> set (co_noted c) \<Longrightarrow> snd n \<le> co_started c"
  shows "co_fine (start_refresh ws c)"
proof -
  have asked': "co_asked c ! i \<le> co_started c" if "i < length (co_asked c)" for i
    using asked that by (auto simp: list_all_iff)
  have "promises_ok (start_refresh ws c)"
  proof (rule promises_okI)
    fix i assume "i < length (co_asked (start_refresh ws c))"
    then show "demand_ok (start_refresh ws c) i"
      using demands [of i] asked' [of i] c by (auto simp: demand_ok_def start_refresh_def)
  next
    fix n assume "n \<in> set (co_noted (start_refresh ws c))"
    then have "snd n \<le> co_started c" using hints by (simp add: start_refresh_def)
    then show "hint_ok (start_refresh ws c) n \<and> snd n \<le> co_started (start_refresh ws c)" by (simp add: hint_ok_def start_refresh_def)
  qed (use c in \<open>simp add: start_refresh_def answers_fresh_def\<close>)
  moreover have "co_shape (start_refresh ws c)"
    using c ws asked asked' by (auto simp: co_shape_def start_refresh_def settle_ok_def co_idle_def list_all_iff intro: le_SucI)
  ultimately show ?thesis by (simp add: co_fine_def)
qed

lemma run_trailing_fine:
  assumes c: "co_mid c" shows "co_fine (run_trailing c)"
proof (cases "co_trailing c")
  case None
  let ?c = "c\<lparr>co_quiet := False, co_trailing := None\<rparr>"
  from None have "promises_ok ?c = promises_ok c" by (intro promises_ok_same) simp_all
  with c None have "co_mid ?c" by (simp add: co_mid_def)
  with None show ?thesis by (simp add: run_trailing_def Let_def notify_fine)
next
  case (Some t)
  let ?c = "c\<lparr>co_quiet := False, co_trailing := None\<rparr>"
  have demands: "demand_ok ?c i \<or> i \<in> set (tr_waiters t)" if "i < length (co_asked c)" for i
    using c that Some by (auto simp: co_mid_def promises_ok_def demand_ok_def)
  from c have fresh: "answers_fresh ?c" by (simp add: co_mid_def promises_ok_def answers_fresh_def)
  show ?thesis
  proof (cases "trailing_due (co_version c) t")
    case True
    have "co_fine (start_refresh (tr_waiters t) ?c)"
      by (rule start_fine) (use c Some demands fresh in \<open>simp_all add: co_mid_def promises_ok_def\<close>)
    with Some True show ?thesis by (simp add: run_trailing_def Let_def)
  next
    case False
    then have none: "tr_waiters t = []" by (simp add: trailing_due_def)
    have hints: "hint_ok ?c n" if "hint_ok c n" for n
      using that not_due_covers [OF _ False, of "fst n"] Some by (auto simp: hint_ok_def)
    have "promises_ok ?c"
      by (rule promises_okI) (use c demands none fresh hints in \<open>auto simp: co_mid_def dest: promises_okD\<close>)
    with c have "co_mid ?c" by (simp add: co_mid_def)
    with Some False show ?thesis by (simp add: run_trailing_def Let_def notify_fine)
  qed
qed

lemma flight_settled_fine:
  assumes c: "co_fine c" and f: "co_flight c = Some f" shows "co_fine (flight_settled waits c)"
proof -
  let ?c = "c\<lparr>co_flight := None, co_joined := [], co_answered := co_answered c @ map (\<lambda>i. (i, the (co_flight c))) (co_joined c)\<rparr>"
  from c f have joined: "list_all (\<lambda>i. i < length (co_asked c) \<and> co_asked c ! i \<le> f) (co_joined c)"
    by (simp add: co_fine_def co_shape_def)
  from c have prom: "promises_ok c" by (simp add: co_fine_def)
  have "promises_ok ?c"
  proof (rule promises_okI)
    show "answers_fresh ?c" using promises_okD(1) [OF prom] f joined by (auto simp: answers_fresh_def list_all_iff)
    show "demand_ok ?c i" if "i < length (co_asked ?c)" for i
      using promises_okD(2) [OF prom, of i] that f by (auto simp: demand_ok_def)
    show "hint_ok ?c n \<and> snd n \<le> co_started ?c" if "n \<in> set (co_noted ?c)" for n
      using promises_okD(3,4) [OF prom, of n] that by (simp add: hint_ok_def)
  qed
  with c f have mid: "co_mid ?c" by (auto simp: co_mid_def co_fine_def co_shape_def)
  have "promises_ok (?c\<lparr>co_quiet := True\<rparr>) = promises_ok ?c" by (rule promises_ok_same) simp_all
  with mid have "co_fine (?c\<lparr>co_quiet := True\<rparr>)" if "co_trailing c \<noteq> None"
    using that by (auto simp: co_mid_def co_fine_def co_shape_def settle_ok_def co_idle_def)
  moreover have "\<not> co_quiet c" using c f by (simp add: co_fine_def co_shape_def)
  ultimately show ?thesis
    using mid run_trailing_fine [OF mid] notify_fine [OF mid] by (simp add: flight_settled_def Let_def)
qed

lemma fine_mid: "co_fine c \<Longrightarrow> co_flight c = None \<Longrightarrow> co_mid c"
  by (simp add: co_mid_def co_fine_def co_shape_def)

lemma higher_version_le: "v \<le> x \<or> hint_pending (Some t) (Some v)
    \<Longrightarrow> v \<le> x \<or> hint_pending (Some (t\<lparr>tr_max := higher_version w (tr_max t)\<rparr>)) (Some v)"
  by (auto simp: hint_pending_def higher_version_def split: option.splits)

text \<open>A hint that joins the trailing refresh: what was pending stays pending, and so is the hint.\<close>

definition hinted :: "nat option \<Rightarrow> trailing \<Rightarrow> trailing" where
  "hinted noted t = (case noted of None \<Rightarrow> t\<lparr>tr_versionless := True\<rparr> | Some v \<Rightarrow> t\<lparr>tr_max := higher_version v (tr_max t)\<rparr>)"

lemma hinted_props [simp]: "tr_waiters (hinted noted t) = tr_waiters t" "hint_pending (Some (hinted noted t)) noted"
  "hint_pending (Some t) x \<Longrightarrow> hint_pending (Some (hinted noted t)) x" "tr_waiters no_trailing = []" "\<not> hint_pending (Some no_trailing) x"
  by (auto simp: hinted_def hint_pending_def higher_version_def no_trailing_def split: option.splits)

definition trailing_of :: "coalescer \<Rightarrow> trailing" where
  "trailing_of c = (case co_trailing c of Some t \<Rightarrow> t | None \<Rightarrow> no_trailing)"

lemma trailing_of_props: "hint_pending (co_trailing c) x \<Longrightarrow> hint_pending (Some (trailing_of c)) x"
  "waiters_ok n (co_trailing c) \<Longrightarrow> list_all (\<lambda>i. i < n) (tr_waiters (trailing_of c))"
  "co_trailing c = Some t \<Longrightarrow> trailing_of c = t"
  by (auto simp: trailing_of_def hint_pending_def split: option.splits)

lemma note_fine: "co_fine c \<Longrightarrow> co_fine (note_hint noted c)"
proof -
  assume c: "co_fine c"
  then have prom: "promises_ok c" and shape: "co_shape c" by (simp_all add: co_fine_def)
  let ?c = "c\<lparr>co_noted := co_noted c @ [(noted, co_started c)]\<rparr>"
  have dem: "demand_ok ?c i = demand_ok c i" "answers_fresh ?c = answers_fresh c" for i by (simp_all add: demand_ok_def answers_fresh_def)
  consider "hint_known (co_version c) noted" | "\<not> hint_known (co_version c) noted" "co_idle c" | "\<not> hint_known (co_version c) noted" "\<not> co_idle c" by blast
  then show ?thesis
  proof cases
    case 1
    then have "note_hint noted c = ?c" by (cases noted) (simp_all add: note_hint_def)
    moreover have "promises_ok ?c"
    proof (rule promises_okI)
      fix n assume "n \<in> set (co_noted ?c)"
      then show "hint_ok ?c n \<and> snd n \<le> co_started ?c" using promises_okD(3,4) [OF prom, of n] 1 by (auto simp: hint_ok_def)
    qed (use prom dem in \<open>simp_all add: promises_okD\<close>)
    ultimately show ?thesis using shape by (simp add: co_fine_def co_shape_def settle_ok_def co_idle_def)
  next
    case 2
    then have "note_hint noted c = start_refresh [] ?c" by (cases noted) (simp_all add: note_hint_def co_idle_def)
    moreover have "co_fine (start_refresh [] ?c)"
    proof (rule start_fine)
      fix n assume "n \<in> set (co_noted ?c)"
      then show "snd n \<le> co_started ?c" using promises_okD(4) [OF prom, of n] by auto
    qed (use prom shape 2 dem in \<open>simp_all add: co_shape_def co_idle_def promises_okD\<close>)
    ultimately show ?thesis by simp
  next
    case 3
    let ?d = "?c\<lparr>co_trailing := Some (hinted noted (trailing_of c))\<rparr>"
    from 3 have eq: "note_hint noted c = ?d" by (cases noted) (simp_all add: note_hint_def Let_def hinted_def trailing_of_def)
    have "promises_ok ?d"
    proof (rule promises_okI)
      show "answers_fresh ?d" using promises_okD(1) [OF prom] by (simp add: answers_fresh_def)
      show "demand_ok ?d i" if "i < length (co_asked ?d)" for i
        using promises_okD(2) [OF prom, of i] that by (auto simp: demand_ok_def trailing_of_props(3))
      show "hint_ok ?d n \<and> snd n \<le> co_started ?d" if "n \<in> set (co_noted ?d)" for n
        using promises_okD(3,4) [OF prom, of n] that trailing_of_props(1) [of c "fst n"] by (auto simp: hint_ok_def)
    qed
    moreover have "co_shape ?d"
      using shape trailing_of_props(2) 3(2) by (cases "co_flight c") (auto simp: co_shape_def settle_ok_def co_idle_def)
    ultimately show ?thesis by (simp add: eq co_fine_def)
  qed
qed

lemma nth_asked: "i < length xs \<Longrightarrow> (xs @ [x]) ! i = xs ! i"
  by (simp add: nth_append)

lemma demand_fine: "co_fine c \<Longrightarrow> co_fine (demand c)"
proof -
  assume c: "co_fine c"
  then have prom: "promises_ok c" and shape: "co_shape c" by (simp_all add: co_fine_def)
  let ?i = "length (co_asked c)"
  let ?c = "c\<lparr>co_asked := co_asked c @ [co_started c]\<rparr>"
  have fresh: "answers_fresh ?c" using promises_okD(1) [OF prom] by (auto simp: answers_fresh_def nth_asked)
  have old: "demand_ok ?c i" if "i < ?i" for i
    using promises_okD(2) [OF prom, of i] that by (auto simp: demand_ok_def nth_asked)
  show ?thesis
  proof (cases "co_idle c")
    case True
    then have "demand c = start_refresh [?i] ?c" by (simp add: demand_def Let_def)
    moreover have "co_fine (start_refresh [?i] ?c)"
    proof (rule start_fine)
      show "demand_ok ?c i \<or> i \<in> set [?i]" if "i < length (co_asked ?c)" for i using old [of i] that by (cases "i = ?i") simp_all
      show "snd n \<le> co_started ?c" if "n \<in> set (co_noted ?c)" for n using promises_okD(4) [OF prom, of n] that by simp
    qed (use shape True fresh in \<open>simp_all add: co_shape_def co_idle_def\<close>)
    ultimately show ?thesis by simp
  next
    case False
    let ?t = "(trailing_of c)\<lparr>tr_waiters := tr_waiters (trailing_of c) @ [?i]\<rparr>"
    let ?d = "?c\<lparr>co_trailing := Some ?t\<rparr>"
    have eq: "demand c = (if co_flight c = None \<and> co_quiet c then run_trailing ?d else ?d)"
      using False by (simp add: demand_def Let_def trailing_of_def)
    have pending: "hint_pending (Some ?t) x" if "hint_pending (co_trailing c) x" for x
      using trailing_of_props(1) [OF that] by (auto simp: hint_pending_def split: option.splits)
    have "promises_ok ?d"
    proof (rule promises_okI)
      show "answers_fresh ?d" using fresh by (simp add: answers_fresh_def)
      show "demand_ok ?d i" if "i < length (co_asked ?d)" for i
        using old [of i] that by (cases "i = ?i") (auto simp: demand_ok_def trailing_of_props(3))
      show "hint_ok ?d n \<and> snd n \<le> co_started ?d" if "n \<in> set (co_noted ?d)" for n
        using promises_okD(3,4) [OF prom, of n] that pending [of "fst n"] by (auto simp: hint_ok_def)
    qed
    moreover have wait: "list_all (\<lambda>i. i < Suc ?i) (tr_waiters ?t)"
      using shape trailing_of_props(2) [of ?i c] by (auto simp: co_shape_def list_all_iff less_SucI)
    moreover have flight: "flight_ok (co_started c) (co_asked ?c) (co_joined c) (co_flight c)"
      using shape by (cases "co_flight c") (auto simp: co_shape_def list_all_iff nth_asked)
    ultimately have "co_flight c = None \<Longrightarrow> co_mid ?d" and stays: "\<not> (co_flight c = None \<and> co_quiet c) \<Longrightarrow> co_fine ?d"
      using shape False by (auto simp: co_mid_def co_shape_def co_fine_def settle_ok_def co_idle_def)
        (cases "co_flight c"; auto simp: co_idle_def)+
    with run_trailing_fine show ?thesis by (simp add: eq)
  qed
qed

lemma ask_fine: "co_fine c \<Longrightarrow> co_fine (ask_settled i c)"
proof -
  assume c: "co_fine c"
  have "promises_ok (ask_settled i c) = promises_ok c" by (rule promises_ok_same) (simp_all add: ask_settled_def)
  with c show ?thesis by (auto simp: co_fine_def co_shape_def ask_settled_def settle_ok_def co_idle_def)
qed

lemma view_fine: "co_fine c \<Longrightarrow> co_version c \<le> v \<Longrightarrow> co_fine (c\<lparr>co_version := v\<rparr>)"
proof -
  assume c: "co_fine c" and v: "co_version c \<le> v"
  have known: "hint_known (co_version c) x \<Longrightarrow> hint_known v x" for x using v by (cases x) simp_all
  have "promises_ok (c\<lparr>co_version := v\<rparr>)"
  proof (rule promises_okI)
    fix n assume "n \<in> set (co_noted (c\<lparr>co_version := v\<rparr>))"
    then show "hint_ok (c\<lparr>co_version := v\<rparr>) n \<and> snd n \<le> co_started (c\<lparr>co_version := v\<rparr>)"
      using c known by (auto simp: co_fine_def promises_ok_def hint_ok_def)
  qed (use c in \<open>simp_all add: co_fine_def promises_ok_def answers_fresh_def demand_ok_def\<close>)
  with c show ?thesis by (simp add: co_fine_def co_shape_def settle_ok_def co_idle_def)
qed

lemma moves_fine: "co_moves waits c c' \<Longrightarrow> co_fine c \<Longrightarrow> co_fine c'"
proof (induction rule: co_moves.induct)
  case (quiet_ends c)
  then have "co_flight c = None" by (cases "co_flight c") (simp_all add: co_fine_def co_shape_def)
  with quiet_ends show ?case by (simp add: run_trailing_fine fine_mid)
qed (simp add: flight_settled_fine)

interpretation coalescing: invariant_machine co_begin "co_step waits" co_fine
proof unfold_locales
  show "co_begin c \<Longrightarrow> co_fine c" for c
    by (auto simp: co_begin_def new_coalescer_def co_fine_def co_shape_def promises_ok_def settle_ok_def answers_fresh_def)
  show "co_fine c \<Longrightarrow> co_step waits c c' \<Longrightarrow> co_fine c'" for c c'
    by (erule co_stepE) (auto intro: moves_fine note_fine demand_fine ask_fine view_fine)
qed

subsection \<open>Coming to rest\<close>

definition co_work :: "coalescer \<Rightarrow> nat" where
  "co_work c = (if co_flight c \<noteq> None then 1 else 0) + (if co_trailing c \<noteq> None then 3 else 0)"

lemma run_trailing_work: "co_flight c = None \<Longrightarrow> co_work (run_trailing c) \<le> 1"
  by (auto simp: run_trailing_def Let_def co_work_def notify_settled_def start_refresh_def co_idle_def split: option.splits)

lemma moves_work: "co_fine c \<Longrightarrow> co_moves waits c c' \<Longrightarrow> co_work c' < co_work c"
proof -
  assume c: "co_fine c" and m: "co_moves waits c c'"
  from m show ?thesis
  proof (cases rule: co_moves.cases)
    case (lands f)
    let ?c = "c\<lparr>co_flight := None, co_joined := [], co_answered := co_answered c @ map (\<lambda>i. (i, the (co_flight c))) (co_joined c)\<rparr>"
    have "co_work (run_trailing ?c) \<le> 1" by (rule run_trailing_work) simp
    with lands show ?thesis by (auto simp: flight_settled_def Let_def) (auto simp: co_work_def notify_settled_def)
  next
    case quiet_ends
    with c have "co_flight c = None" "co_trailing c \<noteq> None" by (cases "co_flight c"; simp add: co_fine_def co_shape_def)+
    with run_trailing_work [of c] quiet_ends show ?thesis by (simp add: co_work_def)
  qed
qed

interpretation coalescer_rests: finishing_machine "co_moves waits" co_work co_fine
proof unfold_locales
  show "\<exists>c'. co_moves waits c c'" if "co_fine c" "co_work c \<noteq> 0" for c
  proof (cases "co_flight c")
    case None
    with that have "co_quiet c" by (auto simp: co_fine_def co_shape_def co_work_def split: if_splits)
    then show ?thesis by (blast intro: co_moves.quiet_ends)
  qed (blast intro: co_moves.lands)
qed (auto intro: moves_work moves_fine)

subsection \<open>Properties\<close>

text \<open>
  C33. A demand is answered by a refresh that started at or after it, refreshes never overlap, and no demand and no hint is
  forgotten: in every order of hints, demands, settlements, timers and movements of the view, a demand is answered
  that way, or awaits such a flight, or waits for the trailing refresh; and a hint has a later start, or is
  not ahead of the view, or is pending.
\<close>

theorem demands_get_a_fresh_refresh:
  assumes "reach co_begin (co_step waits) c"
  shows "\<not> co_overlap c \<and> answers_fresh c \<and> (\<forall>i < length (co_asked c). demand_ok c i) \<and> (\<forall>n \<in> set (co_noted c). hint_ok c n)"
  using coalescing.reach_inv [OF assms] by (simp add: co_fine_def co_shape_def promises_ok_def)

lemma idle_work: "co_work c = 0 \<longleftrightarrow> co_idle c"
  by (auto simp: co_work_def co_idle_def)

text \<open>
  The coalescer comes to rest: once no more is asked of it, within four settlements and timers nothing is in flight or
  pending, everybody who awaits \<open>settled()\<close> has been told, every demand is answered by a refresh that started at or
  after it, and every hint is behind a later refresh or behind the view.
\<close>

theorem refreshes_come_to_rest:
  assumes "reach co_begin (co_step waits) c"
  shows "(\<forall>n c'. (co_moves waits ^^ n) c c' \<longrightarrow> n \<le> 4)
    \<and> (\<exists>c'. (co_moves waits)\<^sup>*\<^sup>* c c' \<and> co_idle c' \<and> co_settle c' = []
         \<and> (\<forall>i < length (co_asked c'). \<exists>f. (i, f) \<in> set (co_answered c') \<and> co_asked c' ! i \<le> f)
         \<and> (\<forall>n \<in> set (co_noted c'). snd n < co_started c' \<or> hint_known (co_version c') (fst n)))"
proof -
  from assms have ok: "co_fine c" by (rule coalescing.reach_inv)
  have "co_work c \<le> 4" by (simp add: co_work_def)
  moreover have "n \<le> co_work c" if "(co_moves waits ^^ n) c c'" for n c'
    using coalescer_rests.run_bounded [OF that ok] by simp
  moreover obtain c' where c': "(co_moves waits)\<^sup>*\<^sup>* c c'" "co_work c' = 0" using coalescer_rests.finishes [OF ok] by blast
  have "co_fine c'" using c'(1) ok by (induction rule: rtranclp_induct) (auto intro: moves_fine)
  moreover from c'(2) have idle: "co_idle c'" by (simp add: idle_work)
  ultimately have "co_settle c' = []" "\<forall>i < length (co_asked c'). \<exists>f. (i, f) \<in> set (co_answered c') \<and> co_asked c' ! i \<le> f"
      "\<forall>n \<in> set (co_noted c'). snd n < co_started c' \<or> hint_known (co_version c') (fst n)"
    by (auto simp: co_fine_def co_shape_def settle_ok_def promises_ok_def demand_ok_def hint_ok_def hint_pending_def co_idle_def)
  with \<open>co_work c \<le> 4\<close> \<open>\<And>n c'. (co_moves waits ^^ n) c c' \<Longrightarrow> n \<le> co_work c\<close> c'(1) idle show ?thesis by (meson le_trans)
qed

subsection \<open>Witnesses\<close>

definition demo_asked :: coalescer where
  "demo_asked = demand (note_hint (Some 5) (new_coalescer 3))"

lemma demo_asked_reach: "reach co_begin (co_step True) demo_asked"
proof -
  have "reach co_begin (co_step True) (new_coalescer 3)" by (rule reach_init) (auto simp: co_begin_def)
  then have "reach co_begin (co_step True) (note_hint (Some 5) (new_coalescer 3))" by (rule reach_step) (rule hints)
  then show ?thesis unfolding demo_asked_def by (rule reach_step) (rule demands)
qed

theorem demands_get_a_fresh_refresh_witness:
  "\<not> co_overlap demo_asked \<and> answers_fresh demo_asked \<and> demand_ok demo_asked 0 \<and> hint_ok demo_asked (Some 5, 0)
     \<and> co_flight demo_asked = Some 0 \<and> co_asked demo_asked = [1]"
proof -
  have "co_asked demo_asked = [1]" "co_noted demo_asked = [(Some 5, 0)]" "co_flight demo_asked = Some 0" by code_simp+
  with demands_get_a_fresh_refresh [OF demo_asked_reach] show ?thesis by simp
qed

theorem refreshes_come_to_rest_witness:
  "\<exists>c'. (co_moves True)\<^sup>*\<^sup>* demo_asked c' \<and> co_idle c' \<and> co_settle c' = []"
  using refreshes_come_to_rest [OF demo_asked_reach] by blast

end
