(* ===== verification/Heartbeat_Load.thy ===== *)
theory Heartbeat_Load
  imports Complex_Main Placement_Policy
begin

section \<open>The self-suspicion clock and the load policy\<close>

text \<open>
  \<open>cluster/heartbeat-clock.ts\<close>: when a host must suspect that its membership record expired, judged on a monotonic and a wall
  clock whose readings are arguments. \<open>cluster/load-policy.ts\<close>: the choice of the less loaded of two hosts, with the
  loads fetched by a refresh round and the placements made since; the two uniform draws are arguments.
\<close>

subsection \<open>The clock\<close>

record hb_clock =
  hc_armed :: bool
  hc_mono :: rat
  hc_wall :: rat
  hc_suspected :: bool
  hc_fired :: nat

definition new_clock :: hb_clock where
  "new_clock = \<lparr>hc_armed = False, hc_mono = 0, hc_wall = 0, hc_suspected = False, hc_fired = 0\<rparr>"

definition hb_open :: "rat \<Rightarrow> rat \<Rightarrow> hb_clock \<Rightarrow> hb_clock" where
  "hb_open m w c = c\<lparr>hc_armed := True, hc_mono := m, hc_wall := w, hc_suspected := False\<rparr>"

definition hb_lapsed :: "rat \<Rightarrow> rat \<Rightarrow> rat \<Rightarrow> hb_clock \<Rightarrow> bool" where
  "hb_lapsed ttl m w c \<longleftrightarrow> hc_armed c \<and> ttl < max (m - hc_mono c) (w - hc_wall c)"

definition hb_fire :: "hb_clock \<Rightarrow> hb_clock" where
  "hb_fire c = (if hc_suspected c \<or> \<not> hc_armed c then c else c\<lparr>hc_suspected := True, hc_fired := Suc (hc_fired c)\<rparr>)"

definition hb_suspect :: "rat \<Rightarrow> rat \<Rightarrow> rat \<Rightarrow> hb_clock \<Rightarrow> hb_clock" where
  "hb_suspect ttl m w c = (if hc_suspected c \<or> \<not> hb_lapsed ttl m w c then c else hb_fire c)"

datatype hb_call = Arm | Beat | Confirmed | Write_Failed | Lost

text \<open>A call with the readings of the two clocks.\<close>

fun hb_does :: "rat \<Rightarrow> hb_call \<times> rat \<times> rat \<Rightarrow> hb_clock \<Rightarrow> hb_clock" where
  "hb_does ttl (Arm, m, w) c = hb_open m w c"
| "hb_does ttl (Beat, m, w) c = hb_suspect ttl m w c"
| "hb_does ttl (Confirmed, m, w) c = hb_open m w (hb_suspect ttl m w c)"
| "hb_does ttl (Write_Failed, m, w) c = hb_suspect ttl m w c"
| "hb_does ttl (Lost, m, w) c = hb_fire c"

definition opens_window :: "hb_call \<times> rat \<times> rat \<Rightarrow> bool" where
  "opens_window e \<longleftrightarrow> fst e \<in> {Arm, Confirmed}"

lemma hb_quiet_call:
  assumes "\<not> opens_window e"
  shows "hc_armed (hb_does ttl e c) = hc_armed c \<and> hc_mono (hb_does ttl e c) = hc_mono c \<and> hc_wall (hb_does ttl e c) = hc_wall c
    \<and> hc_fired (hb_does ttl e c) = hc_fired c + (if hc_suspected (hb_does ttl e c) \<and> \<not> hc_suspected c then 1 else 0)
    \<and> (hc_suspected c \<longrightarrow> hc_suspected (hb_does ttl e c))"
proof -
  obtain k m w where e: "e = (k, m, w)" by (cases e) auto
  with assms show ?thesis by (cases k) (auto simp: opens_window_def hb_suspect_def hb_fire_def)
qed

lemma hb_quiet_calls:
  "list_all (\<lambda>e. \<not> opens_window e) es \<Longrightarrow> hc_armed (fold (hb_does ttl) es c) = hc_armed c
     \<and> hc_mono (fold (hb_does ttl) es c) = hc_mono c \<and> hc_wall (fold (hb_does ttl) es c) = hc_wall c
     \<and> hc_fired (fold (hb_does ttl) es c) = hc_fired c + (if hc_suspected (fold (hb_does ttl) es c) \<and> \<not> hc_suspected c then 1 else 0)
     \<and> (hc_suspected c \<longrightarrow> hc_suspected (fold (hb_does ttl) es c))"
proof (induction es arbitrary: c)
  case (Cons e es)
  from Cons.prems have "\<not> opens_window e" "list_all (\<lambda>e. \<not> opens_window e) es" by simp_all
  note calls = hb_quiet_call [OF this(1), of ttl c] Cons.IH [OF this(2), of "hb_does ttl e c"]
  show ?case
    unfolding fold_simps using calls
    by (cases "hc_suspected c"; cases "hc_suspected (hb_does ttl e c)") simp_all
qed simp

text \<open>
  A lapse is suspected exactly once: if a window opened at one pair of readings is next confirmed at another that
  is more than the TTL later by either clock, then whatever beats, failures and losses came in between, by the time the
  confirmation returns the host has been told exactly once.
\<close>

theorem lapse_is_suspected_once:
  assumes "list_all (\<lambda>e. \<not> opens_window e) es" "ttl < m' - m \<or> ttl < w' - w"
  shows "hc_fired (fold (hb_does ttl) (es @ [(Confirmed, m', w')]) (hb_open m w c)) = Suc (hc_fired c)"
proof -
  let ?c = "fold (hb_does ttl) es (hb_open m w c)"
  from hb_quiet_calls [OF assms(1), of ttl "hb_open m w c"] have same: "hc_armed ?c" "hc_mono ?c = m" "hc_wall ?c = w"
    "hc_fired ?c = hc_fired c + (if hc_suspected ?c then 1 else 0)"
    by (simp_all add: hb_open_def)
  with assms(2) have "hb_lapsed ttl m' w' ?c" by (auto simp: hb_lapsed_def max_def)
  with same show ?thesis by (auto simp: hb_open_def hb_suspect_def hb_fire_def)
qed

text \<open>Within the window and with no proof of loss the host is left alone, and before \<open>arm\<close> nothing fires.\<close>

theorem punctual_host_is_left_alone:
  assumes "list_all (\<lambda>(k, m', w'). k \<in> {Beat, Write_Failed} \<and> m' - m \<le> ttl \<and> w' - w \<le> ttl) es"
  shows "fold (hb_does ttl) es (hb_open m w c) = hb_open m w c"
  using assms
proof (induction es)
  case (Cons e es)
  obtain k m' w' where e: "e = (k, m', w')" by (cases e) auto
  with Cons.prems have "hb_does ttl e (hb_open m w c) = hb_open m w c"
    by (auto simp: hb_suspect_def hb_lapsed_def hb_open_def)
  with Cons show ?case by simp
qed simp

subsection \<open>The load policy\<close>

record load_policy =
  lp_loads :: "(string, nat) jmap"
  lp_pending :: "(string, nat) jmap"
  lp_runtimes :: "nat list"
  lp_busy :: bool

definition new_load_policy :: load_policy where
  "new_load_policy = \<lparr>lp_loads = [], lp_pending = [], lp_runtimes = [], lp_busy = False\<rparr>"

definition load_of :: "load_policy \<Rightarrow> string \<Rightarrow> nat" where
  "load_of p h = (case jget (lp_loads p) h of Some n \<Rightarrow> n | None \<Rightarrow> 0) + (case jget (lp_pending p) h of Some n \<Rightarrow> n | None \<Rightarrow> 0)"

text \<open>The second draw, shifted past the first.\<close>

definition other_draw :: "nat \<Rightarrow> nat \<Rightarrow> nat \<Rightarrow> nat" where
  "other_draw i r n = (let j = draw_index r (n - 1) in if i \<le> j then Suc j else j)"

definition choose_host :: "nat \<Rightarrow> nat \<Rightarrow> member_view \<Rightarrow> host_desc \<Rightarrow> load_policy \<Rightarrow> host_desc \<times> load_policy" where
  "choose_host r1 r2 v self p =
     (let active = active_hosts v in
      if active = [] then (self, p)
      else if length active = 1 then (active ! 0, p)
      else let i = draw_index r1 (length active); j = other_draw i r2 (length active); a = active ! i
           in if lp_runtimes p = [] then (a, p)
              else let b = active ! j; chosen = (if load_of p (hd_id b) < load_of p (hd_id a) then b else a)
                   in (chosen, p\<lparr>lp_pending := jset (lp_pending p) (hd_id chosen)
                                  ((case jget (lp_pending p) (hd_id chosen) of Some n \<Rightarrow> n | None \<Rightarrow> 0) + 1)\<rparr>))"

text \<open>
  A refresh round of one runtime: it begins unless another is under way, each peer's answer is taken while the runtime is
  attached (a probe that fails is no step), and the end keeps the hosts of the view and drops the predictions.
\<close>

definition begin_round :: "nat \<Rightarrow> string \<Rightarrow> nat \<Rightarrow> load_policy \<Rightarrow> load_policy" where
  "begin_round rt self_id self_load p =
     (if lp_busy p then p
      else if rt \<notin> set (lp_runtimes p) then p
      else p\<lparr>lp_busy := True, lp_loads := jset (lp_loads p) self_id self_load\<rparr>)"

definition peer_answers :: "nat \<Rightarrow> string \<Rightarrow> nat \<Rightarrow> load_policy \<Rightarrow> load_policy" where
  "peer_answers rt peer load p = (if rt \<notin> set (lp_runtimes p) then p else p\<lparr>lp_loads := jset (lp_loads p) peer load\<rparr>)"

definition end_round :: "nat \<Rightarrow> member_view \<Rightarrow> load_policy \<Rightarrow> load_policy" where
  "end_round rt v p =
     (let p' = p\<lparr>lp_busy := False\<rparr>
      in if rt \<notin> set (lp_runtimes p) then p'
         else p'\<lparr>lp_loads := filter (\<lambda>e. fst e \<in> set (map hd_id (mv_hosts v))) (lp_loads p), lp_pending := []\<rparr>)"

definition attach_runtime :: "nat \<Rightarrow> load_policy \<Rightarrow> load_policy" where
  "attach_runtime rt p = p\<lparr>lp_runtimes := List.insert rt (lp_runtimes p)\<rparr>"

definition detach_runtime :: "nat \<Rightarrow> load_policy \<Rightarrow> load_policy" where
  "detach_runtime rt p = (let rts = removeAll rt (lp_runtimes p)
     in if rts = [] then p\<lparr>lp_runtimes := rts, lp_loads := [], lp_pending := []\<rparr> else p\<lparr>lp_runtimes := rts\<rparr>)"

subsection \<open>The choice\<close>

text \<open>\<open>choose\<close> keeps the contract of every placement policy.\<close>

lemma draws: "1 < n \<Longrightarrow> draw_index r1 n < n" "1 < n \<Longrightarrow> other_draw i r2 n < n" "other_draw i r2 n \<noteq> i"
  using draw_index_less [of n r1] draw_index_less [of "n - 1" r2] by (auto simp: other_draw_def Let_def)

lemma choose_host_cases:
  "fst (choose_host r1 r2 v self p) = self \<or> fst (choose_host r1 r2 v self p) \<in> set (active_hosts v)"
proof (cases "length (active_hosts v) \<le> 1")
  case True
  then show ?thesis by (cases "active_hosts v") (auto simp: choose_host_def Let_def)
next
  case False
  then have n: "1 < length (active_hosts v)" by simp
  then have "active_hosts v ! draw_index r1 (length (active_hosts v)) \<in> set (active_hosts v)"
    "active_hosts v ! other_draw i r2 (length (active_hosts v)) \<in> set (active_hosts v)" for i
    by (auto intro!: nth_mem draws)
  with False show ?thesis by (auto simp: choose_host_def Let_def)
qed

interpretation activation_count: placement_policy "\<lambda>ref v self. fst (choose_host r1 r2 v self p)" for r1 r2 p
  by unfold_locales (rule choose_host_cases)

text \<open>
  With a runtime attached the host chosen is one of the two drawn, which differ, no more loaded than the other by what is
  known and predicted, and the placement counts against it at once.
\<close>

theorem choice_is_the_colder_draw:
  assumes "1 < length (active_hosts v)" "lp_runtimes p \<noteq> []" "choose_host r1 r2 v self p = (h, p')"
  shows "\<exists>i j. i < length (active_hosts v) \<and> j < length (active_hosts v) \<and> i \<noteq> j \<and> h = active_hosts v ! i
    \<and> load_of p (hd_id h) \<le> load_of p (hd_id (active_hosts v ! j)) \<and> load_of p' (hd_id h) = Suc (load_of p (hd_id h))"
proof -
  let ?n = "length (active_hosts v)" and ?i = "draw_index r1 (length (active_hosts v))"
  let ?j = "other_draw ?i r2 ?n"
  from assms(1) have i: "?i < ?n" "?j < ?n" "?j \<noteq> ?i" by (simp_all add: draws)
  let ?b = "load_of p (hd_id (active_hosts v ! ?j)) < load_of p (hd_id (active_hosts v ! ?i))"
  have counted: "load_of (p\<lparr>lp_pending := jset (lp_pending p) x ((case jget (lp_pending p) x of Some n \<Rightarrow> n | None \<Rightarrow> 0) + 1)\<rparr>) x = Suc (load_of p x)" for x
    by (simp add: load_of_def)
  from assms have h: "h = active_hosts v ! (if ?b then ?j else ?i)"
      "p' = p\<lparr>lp_pending := jset (lp_pending p) (hd_id h) ((case jget (lp_pending p) (hd_id h) of Some n \<Rightarrow> n | None \<Rightarrow> 0) + 1)\<rparr>"
    by (auto simp: choose_host_def Let_def split: if_splits)
  from h(2) counted have "load_of p' (hd_id h) = Suc (load_of p (hd_id h))" by simp
  moreover have "h = active_hosts v ! ?j \<and> load_of p (hd_id h) \<le> load_of p (hd_id (active_hosts v ! ?i))" if ?b using h(1) that by simp
  moreover have "h = active_hosts v ! ?i \<and> load_of p (hd_id h) \<le> load_of p (hd_id (active_hosts v ! ?j))" if "\<not> ?b" using h(1) that by simp
  ultimately show ?thesis using i by metis
qed

lemma map_of_kept: "k \<in> S \<Longrightarrow> map_of (filter (\<lambda>e. fst e \<in> S) m) k = map_of m k"
  by (induction m) auto

text \<open>
  The end of a round drops every prediction, also those of placements made after the host had answered its
  probe: a peer that answered first and was then given work looks as cold as it was before.
\<close>

theorem refresh_forgets_placements:
  assumes "rt \<in> set (lp_runtimes p)" "b \<in> set (map hd_id (mv_hosts v))"
    and "p1 = peer_answers rt b n p" "p2 = p1\<lparr>lp_pending := jset (lp_pending p1) b k\<rparr>"
  shows "load_of (end_round rt v p2) b = n"
  using assms by (simp add: end_round_def peer_answers_def load_of_def Let_def map_of_kept del: set_map)

end
