(* ===== verification/Wire_Paths.thy ===== *)
theory Wire_Paths
  imports Actor_Ids
begin

section \<open>Calls as URLs\<close>

text \<open>
  \<open>wire-url.ts\<close> (the writing half: a symbol as a path), \<open>wire-symbol.ts\<close> (the reading half) and \<open>route.ts\<close> (the routing
  token and the path that carries it). \<open>encodeURIComponent\<close> and \<open>decodeURIComponent\<close> are the standard's, on UTF-8;
  a string is over the code points up to 0xFF, and \<open>None\<close> is a throw (or, reading, a code point beyond those).
\<close>

subsection \<open>Percent-encoding\<close>

abbreviation percent :: char where "percent \<equiv> CHR 0x25"
abbreviation slash :: char where "slash \<equiv> CHR ''/''"
abbreviation hash_sign :: char where "hash_sign \<equiv> CHR 0x23"

definition unreserved :: "char \<Rightarrow> bool" where
  "unreserved c \<longleftrightarrow> (let n = of_char c :: nat in 48 \<le> n \<and> n \<le> 57 \<or> 65 \<le> n \<and> n \<le> 90 \<or> 97 \<le> n \<and> n \<le> 122)
     \<or> c \<in> set (CHR 0x27 # ''-_.!~*()'')"

definition hex_digit :: "nat \<Rightarrow> char" where
  "hex_digit d = char_of (if d < 10 then 48 + d else 55 + d)"

definition pct_byte :: "nat \<Rightarrow> string" where
  "pct_byte b = [percent, hex_digit (b div 16), hex_digit (b mod 16)]"

definition pct_char :: "char \<Rightarrow> string" where
  "pct_char c = (let n = of_char c in
     if unreserved c then [c] else if n < 128 then pct_byte n else pct_byte (192 + n div 64) @ pct_byte (128 + n mod 64))"

definition encode_uri_component :: "string \<Rightarrow> string" where
  "encode_uri_component s = concat (map pct_char s)"

definition hex_value :: "char \<Rightarrow> nat option" where
  "hex_value c = (let n = of_char c in if 48 \<le> n \<and> n \<le> 57 then Some (n - 48) else if 65 \<le> n \<and> n \<le> 70 then Some (n - 55)
     else if 97 \<le> n \<and> n \<le> 102 then Some (n - 87) else None)"

fun hex_byte :: "char \<Rightarrow> char \<Rightarrow> nat option" where
  "hex_byte a b = (case (hex_value a, hex_value b) of (Some x, Some y) \<Rightarrow> Some (16 * x + y) | _ \<Rightarrow> None)"

fun decode_uri_component :: "string \<Rightarrow> string option" where
  "decode_uri_component [] = Some []"
| "decode_uri_component (c # s) =
     (if c \<noteq> percent then map_option ((#) c) (decode_uri_component s)
      else (case s of
          a # b # s' \<Rightarrow> (case hex_byte a b of
              None \<Rightarrow> None
            | Some n \<Rightarrow>
                if n < 128 then map_option ((#) (char_of n)) (decode_uri_component s')
                else if n = 194 \<or> n = 195 then
                  (case s' of
                     p # x # y # s'' \<Rightarrow> (case hex_byte x y of
                         None \<Rightarrow> None
                       | Some k \<Rightarrow> if p = percent \<and> 128 \<le> k \<and> k < 192
                                   then map_option ((#) (char_of (64 * (n - 192) + (k - 128)))) (decode_uri_component s'') else None)
                   | _ \<Rightarrow> None)
                else None)
        | _ \<Rightarrow> None))"

subsection \<open>The path of a symbol\<close>

text \<open>The three escapes a segment gets back, replaced from left to right.\<close>

fun restore_escapes :: "string \<Rightarrow> string" where
  "restore_escapes [] = []"
| "restore_escapes (c # s) =
     (if take 3 (c # s) = percent # ''40'' then CHR ''@'' # restore_escapes (drop 2 s)
      else if take 3 (c # s) = percent # ''24'' then CHR ''$'' # restore_escapes (drop 2 s)
      else if take 3 (c # s) = percent # ''3A'' then CHR '':'' # restore_escapes (drop 2 s)
      else c # restore_escapes s)"

definition encode_segment :: "string \<Rightarrow> string" where
  "encode_segment s = restore_escapes (encode_uri_component s)"

definition encode_symbol_path :: "string \<Rightarrow> string option" where
  "encode_symbol_path symbol = (case last_index_of hash_sign symbol of
       None \<Rightarrow> Some (encode_segment symbol)
     | Some i \<Rightarrow> let type = take i symbol; mthd = drop (Suc i) symbol
                 in if slash \<in> set mthd then None
                    else Some (join_with slash (map encode_segment (split_on slash type)) @ slash # encode_segment mthd))"

subsection \<open>The symbol of a path\<close>

definition canonical_symbol :: "string \<Rightarrow> string" where
  "canonical_symbol wire =
     (case last_index_of hash_sign wire of
        Some i \<Rightarrow> if i = 0 \<or> i = length wire - 1 then [] else wire
      | None \<Rightarrow> (case last_index_of slash wire of
            None \<Rightarrow> []
          | Some i \<Rightarrow> if i = 0 \<or> i = length wire - 1 then [] else take i wire @ hash_sign # drop (Suc i) wire))"

definition with_slash :: "string \<Rightarrow> string" where
  "with_slash base = (if ends_with_char base slash then base else base @ [slash])"

definition symbol_from_pathname :: "string \<Rightarrow> string \<Rightarrow> string option" where
  "symbol_from_pathname pathname base =
     (let prefix = with_slash base
      in if \<not> starts_with pathname prefix then Some []
         else case those (map decode_uri_component (split_on slash (drop (length prefix) pathname))) of
             None \<Rightarrow> None
           | Some segments \<Rightarrow>
               let wire = join_with slash segments
               in if hash_sign \<notin> set wire \<and> list_ex (\<lambda>s. slash \<in> set s) segments then Some []
                  else Some (canonical_symbol wire))"

subsection \<open>Routing tokens\<close>

datatype route_mode = Route_Hash | Route_Key | Route_None | Route_By "actor_ref \<Rightarrow> string option"

definition route_token_for :: "route_mode \<Rightarrow> string \<Rightarrow> string \<Rightarrow> string option" where
  "route_token_for mode type key =
     (if starts_with type ''$'' then None
      else case mode of
          Route_None \<Rightarrow> None
        | Route_Hash \<Rightarrow> Some (hash_route_token type key)
        | Route_Key \<Rightarrow> (if key = [] then None else Some key)
        | Route_By f \<Rightarrow> (case f \<lparr>ref_type = type, ref_key = key\<rparr> of Some (c # t) \<Rightarrow> Some (c # t) | _ \<Rightarrow> None))"

definition encode_route_token :: "string \<Rightarrow> string" where
  "encode_route_token token = encode_uri_component token"

definition route_segment :: string where "route_segment = ''r''"

definition route_path :: "string \<Rightarrow> string option \<Rightarrow> string \<Rightarrow> string option" where
  "route_path base token symbol =
     (let trimmed = (if ends_with_char base slash then butlast base else base)
      in map_option (\<lambda>encoded. (case token of
             None \<Rightarrow> trimmed @ slash # encoded
           | Some t \<Rightarrow> trimmed @ slash # route_segment @ slash # encode_route_token t @ slash # encoded)) (encode_symbol_path symbol))"

text \<open>\<open>stripRoutePath\<close>; \<open>None\<close> is no token to strip.\<close>

definition strip_route_path :: "string \<Rightarrow> string \<Rightarrow> string option" where
  "strip_route_path pathname base =
     (let prefix = with_slash base; marker = route_segment @ [slash]
      in if \<not> starts_with pathname prefix then None
         else let rest = drop (length prefix) pathname
              in if \<not> starts_with rest marker then None
                 else map_option (\<lambda>i. prefix @ drop (length marker + i + 1) rest) (index_of slash (drop (length marker) rest)))"

subsection \<open>Paths as URLs\<close>

text \<open>
  What \<open>new URL\<close> makes of an absolute path, and what setting \<open>url.pathname\<close> does: a segment that is a dot, however it is
  spelt, is dropped, and one that is two dots takes the segment before it away; either of them in the last place leaves an
  empty segment. Over the characters the URL parser keeps as they are (\<open>url_char\<close>).
\<close>

definition url_char :: "char \<Rightarrow> bool" where
  "url_char c \<longleftrightarrow> unreserved c \<or> c \<in> set ''/@$:%&+,;=''"

definition single_dot :: "string \<Rightarrow> bool" where
  "single_dot s \<longleftrightarrow> s \<in> set [''.'', percent # ''2e'', percent # ''2E'']"

definition double_dot :: "string \<Rightarrow> bool" where
  "double_dot s \<longleftrightarrow> (\<exists>a \<in> set [''.'', percent # ''2e'', percent # ''2E'']. \<exists>b \<in> set [''.'', percent # ''2e'', percent # ''2E'']. s = a @ b)"

fun url_walk :: "string list \<Rightarrow> string list \<Rightarrow> string list" where
  "url_walk path [] = path"
| "url_walk path (s # rest) =
     (if double_dot s then url_walk (if rest = [] then butlast path @ [[]] else butlast path) rest
      else if single_dot s then url_walk (if rest = [] then path @ [[]] else path) rest
      else url_walk (path @ [s]) rest)"

definition path_segments :: "string \<Rightarrow> string list" where
  "path_segments p = split_on slash (case p of [] \<Rightarrow> [] | c # rest \<Rightarrow> if c = slash then rest else p)"

definition url_pathname :: "string \<Rightarrow> string" where
  "url_pathname p = slash # join_with slash (url_walk [] (path_segments p))"


text \<open>
  What the server mounts do with the path of a request: it becomes the pathname of a URL, a token is stripped (and what is left set as
  the pathname), and the symbol is read.
\<close>

definition mounted_symbol :: "string \<Rightarrow> string \<Rightarrow> string option" where
  "mounted_symbol path base =
     (let pathname = url_pathname path
      in symbol_from_pathname (case strip_route_path pathname base of Some p \<Rightarrow> url_pathname p | None \<Rightarrow> pathname) base)"

subsection \<open>Encoding and decoding are inverse\<close>

lemma hex_value_digit [simp]: "d < 16 \<Longrightarrow> hex_value (hex_digit d) = Some d"
  by (auto simp: hex_value_def hex_digit_def of_char_of Let_def)

lemma hex_digit_code: "d < 16 \<Longrightarrow> (of_char (hex_digit d) :: nat) = (if d < 10 then 48 + d else 55 + d)"
  by (simp add: hex_digit_def of_char_of)

lemma hex_digit_ne: "d < 16 \<Longrightarrow> hex_digit d \<noteq> percent \<and> hex_digit d \<noteq> slash \<and> hex_digit d \<noteq> hash_sign"
  using hex_digit_code [of d] by (auto split: if_splits)

lemma hex_byte_digits [simp]: "b < 256 \<Longrightarrow> hex_byte (hex_digit (b div 16)) (hex_digit (b mod 16)) = Some b"
  by (simp add: less_mult_imp_div_less)

lemma char_code: "(of_char c :: nat) < 256"
  by (metis of_char_of char_of_char mod_less_divisor zero_less_numeral)

lemma unreserved_ne: "unreserved c \<Longrightarrow> c \<noteq> percent \<and> c \<noteq> slash \<and> c \<noteq> hash_sign"
  by (auto simp: unreserved_def Let_def)

lemma decode_pct_byte: "n < 128 \<Longrightarrow> decode_uri_component (pct_byte n @ s) = map_option ((#) (char_of n)) (decode_uri_component s)"
  by (simp add: pct_byte_def del: hex_byte.simps)

lemma decode_pct_char: "decode_uri_component (pct_char c @ s) = map_option ((#) c) (decode_uri_component s)"
proof (cases "unreserved c")
  case True
  with unreserved_ne [OF True] show ?thesis by (simp add: pct_char_def Let_def)
next
  case reserved: False
  define n :: nat where "n = of_char c"
  have n: "n < 256" "char_of n = c" by (simp_all add: n_def char_code)
  show ?thesis
  proof (cases "n < 128")
    case True
    with reserved have "pct_char c = pct_byte n" by (simp add: pct_char_def n_def Let_def)
    then show ?thesis using decode_pct_byte [OF True] n by simp
  next
    case False
    with n have hi: "n div 64 = 2 \<or> n div 64 = 3" "192 + n div 64 < 256" "128 + n mod 64 < 256" "n mod 64 < 64" by auto
    from False reserved have "pct_char c = pct_byte (192 + n div 64) @ pct_byte (128 + n mod 64)" by (simp add: pct_char_def n_def Let_def)
    moreover have "64 * (n div 64) + n mod 64 = n" by simp
    moreover have "\<not> 192 + n div 64 < 128" "128 \<le> 128 + n mod 64" "128 + n mod 64 < 192" "192 + n div 64 = 194 \<or> 192 + n div 64 = 195" using hi by auto
    ultimately show ?thesis using n hi hex_byte_digits [OF hi(2)] hex_byte_digits [OF hi(3)]
      by (simp add: pct_byte_def del: hex_byte.simps hex_byte_digits)
  qed
qed

text \<open>A segment character by character, the three characters restored.\<close>

definition segment_char :: "char \<Rightarrow> string" where
  "segment_char c = (if c \<in> {CHR ''@'', CHR ''$'', CHR '':''} then [c] else pct_char c)"

lemma restore_other: "c \<noteq> percent \<Longrightarrow> restore_escapes (c # s) = c # restore_escapes s"
  by simp

lemma restore_byte:
  assumes "b < 256"
  shows "restore_escapes (pct_byte b @ s) = (if b = 64 then ''@'' else if b = 36 then ''$'' else if b = 58 then '':'' else pct_byte b) @ restore_escapes s"
proof -
  let ?x = "hex_digit (b div 16)" and ?y = "hex_digit (b mod 16)"
  have d: "b div 16 < 16" "b mod 16 < 16" using assms by (simp_all add: less_mult_imp_div_less)
  then have ne: "?x \<noteq> percent" "?y \<noteq> percent" using hex_digit_ne by blast+
  have digit: "hex_digit k = c \<longleftrightarrow> hex_value c = Some k" if "k < 16" "c \<in> set ''0248A3''" for k c
  proof
    assume "hex_value c = Some k"
    with that show "hex_digit k = c" by (auto simp: hex_value_def hex_digit_def Let_def char_of_eq_iff)
  qed (use that in \<open>metis hex_value_digit\<close>)
  have esc: "[?x, ?y] = [u, v] \<longleftrightarrow> hex_value u = Some (b div 16) \<and> hex_value v = Some (b mod 16)" if "u \<in> set ''0248A3''" "v \<in> set ''0248A3''" for u v
    using digit d that by simp
  have parts: "Some p = Some (b div 16) \<and> Some q = Some (b mod 16) \<longleftrightarrow> b = 16 * p + q" if "q < 16" for p q using that by auto
  have "[?x, ?y] = ''40'' \<longleftrightarrow> b = 64" using esc [of "CHR ''4''" "CHR ''0''"] parts [of 0 4] by (simp add: hex_value_def)
  moreover have "[?x, ?y] = ''24'' \<longleftrightarrow> b = 36" using esc [of "CHR ''2''" "CHR ''4''"] parts [of 4 2] by (simp add: hex_value_def)
  moreover have "[?x, ?y] = ''3A'' \<longleftrightarrow> b = 58" using esc [of "CHR ''3''" "CHR ''A''"] parts [of 10 3] by (simp add: hex_value_def)
  ultimately show ?thesis using ne by (simp add: pct_byte_def)
qed

lemma restore_pct_char: "restore_escapes (pct_char c @ s) = segment_char c @ restore_escapes s"
proof (cases "unreserved c")
  case True
  moreover from True have "c \<notin> {CHR ''@'', CHR ''$'', CHR '':''}" by (auto simp: unreserved_def Let_def)
  ultimately show ?thesis using restore_other [of c s] unreserved_ne [of c] by (simp add: pct_char_def segment_char_def Let_def)
next
  case reserved: False
  define n :: nat where "n = of_char c"
  have n: "n < 256" "char_of n = c" by (simp_all add: n_def char_code)
  have which: "c = CHR ''@'' \<longleftrightarrow> n = 64" "c = CHR ''$'' \<longleftrightarrow> n = 36" "c = CHR '':'' \<longleftrightarrow> n = 58"
    unfolding n_def by (subst of_char_eq_iff [where 'a = nat, symmetric]; simp)+
  show ?thesis
  proof (cases "n < 128")
    case True
    with reserved have "pct_char c = pct_byte n" by (simp add: pct_char_def n_def Let_def)
    then show ?thesis using restore_byte [OF n(1), of s] which by (auto simp: segment_char_def)
  next
    case False
    with n have "192 + n div 64 < 256" "128 + n mod 64 < 256" by auto
    moreover from False reserved have "pct_char c = pct_byte (192 + n div 64) @ pct_byte (128 + n mod 64)" by (simp add: pct_char_def n_def Let_def)
    ultimately show ?thesis using restore_byte which False by (simp add: segment_char_def)
  qed
qed

lemma encode_segment_chars: "encode_segment s = concat (map segment_char s)"
  by (induction s) (simp_all add: encode_segment_def encode_uri_component_def restore_pct_char)

lemma decode_segment_char: "decode_uri_component (segment_char c @ s) = map_option ((#) c) (decode_uri_component s)"
  using decode_pct_char [of c s] by (simp add: segment_char_def)

lemma decode_encode_component: "decode_uri_component (encode_uri_component s) = Some s"
  by (induction s) (simp_all add: encode_uri_component_def decode_pct_char)

lemma decode_encode_segment: "decode_uri_component (encode_segment s) = Some s"
  by (induction s) (simp_all add: encode_segment_chars decode_segment_char)

lemma pct_byte_free: "b < 256 \<Longrightarrow> slash \<notin> set (pct_byte b) \<and> hash_sign \<notin> set (pct_byte b)"
  using hex_digit_ne [of "b div 16"] hex_digit_ne [of "b mod 16"] by (auto simp: pct_byte_def less_mult_imp_div_less)

lemma pct_char_free: "slash \<notin> set (pct_char c) \<and> hash_sign \<notin> set (pct_char c)"
proof (cases "unreserved c")
  case True
  with unreserved_ne [OF True] show ?thesis by (auto simp: pct_char_def Let_def)
next
  case False
  have "(of_char c :: nat) < 256" by (rule char_code)
  then have "(of_char c :: nat) div 64 < 4" by (simp add: less_mult_imp_div_less)
  then have "192 + (of_char c :: nat) div 64 < 256" "128 + (of_char c :: nat) mod 64 < 256" by simp_all
  with False pct_byte_free [OF char_code [of c]] pct_byte_free [of "192 + of_char c div 64"] pct_byte_free [of "128 + of_char c mod 64"]
  show ?thesis by (simp add: pct_char_def Let_def)
qed

lemma encode_segment_free: "slash \<notin> set (encode_segment s) \<and> hash_sign \<notin> set (encode_segment s)"
  using pct_char_free by (induction s) (auto simp: encode_segment_chars segment_char_def)


subsection \<open>Paths and their symbols\<close>

lemma with_slash_trimmed: "with_slash base = (if ends_with_char base slash then butlast base else base) @ [slash]"
  by (auto simp: with_slash_def ends_with_char_def) (metis append_butlast_last_id)

lemma those_decoded: "those (map (decode_uri_component \<circ> encode_segment) ss) = Some ss"
  by (induction ss) (simp_all add: decode_encode_segment)

text \<open>
  The types \<open>defineActor\<close> lets through, as far as their path goes, and the methods that can be written into a path and keep
  their place there.
\<close>

definition type_ok :: "string \<Rightarrow> bool" where
  "type_ok t \<longleftrightarrow> t \<noteq> [] \<and> hash_sign \<notin> set t \<and> nul \<notin> set t
     \<and> list_all (\<lambda>segment. segment \<noteq> [] \<and> segment \<noteq> ''.'' \<and> segment \<noteq> ''..'') (split_on slash t)"

definition method_ok :: "string \<Rightarrow> bool" where
  "method_ok m \<longleftrightarrow> m \<noteq> [] \<and> hash_sign \<notin> set m \<and> slash \<notin> set m \<and> m \<noteq> ''.'' \<and> m \<noteq> ''..''"

text \<open>A mount's base: an absolute path that is its own URL.\<close>

definition base_ok :: "string \<Rightarrow> bool" where
  "base_ok base \<longleftrightarrow> starts_with (with_slash base) [slash] \<and> list_all url_char base
     \<and> list_all (\<lambda>s. \<not> single_dot s \<and> \<not> double_dot s) (path_segments base)"

definition symbol_tail :: "string \<Rightarrow> string \<Rightarrow> string" where
  "symbol_tail t m = join_with slash (map encode_segment (split_on slash t)) @ slash # encode_segment m"

lemma encode_symbol_path_of:
  assumes "hash_sign \<notin> set m" "slash \<notin> set m" shows "encode_symbol_path (t @ hash_sign # m) = Some (symbol_tail t m)"
  using assms by (simp add: encode_symbol_path_def last_index_of_append symbol_tail_def)

lemma split_symbol_tail: "split_on slash (symbol_tail t m) = map encode_segment (split_on slash t @ [m])"
proof -
  have "symbol_tail t m = join_with slash (map encode_segment (split_on slash t @ [m]))"
    by (simp add: symbol_tail_def join_with_snoc)
  then show ?thesis using encode_segment_free by (simp only:) (rule split_join; auto)
qed

lemma read_symbol_tail:
  assumes "type_ok t" "method_ok m" shows "symbol_from_pathname (with_slash base @ symbol_tail t m) base = Some (t @ hash_sign # m)"
proof -
  from assms have ok: "t \<noteq> []" "m \<noteq> []" "hash_sign \<notin> set t" "hash_sign \<notin> set m" "slash \<notin> set m" by (simp_all add: type_ok_def method_ok_def)
  have wire: "join_with slash (split_on slash t @ [m]) = t @ slash # m" by (simp add: join_with_snoc join_split)
  have "last_index_of hash_sign (t @ slash # m) = None" using ok by (simp add: last_index_of_None)
  moreover have "last_index_of slash (t @ slash # m) = Some (length t)" using ok(5) by (rule last_index_of_append)
  ultimately have "canonical_symbol (t @ slash # m) = t @ hash_sign # m" using ok by (simp add: canonical_symbol_def)
  moreover have "\<not> list_ex (\<lambda>s. slash \<in> set s) (split_on slash t @ [m])" using split_on_no_sep ok by (auto simp: list_ex_iff)
  ultimately show ?thesis
    unfolding symbol_from_pathname_def Let_def
    by (simp add: split_symbol_tail those_decoded wire del: map_append)
qed

lemma route_path_of:
  assumes "hash_sign \<notin> set m" "slash \<notin> set m"
  shows "route_path base None (t @ hash_sign # m) = Some (with_slash base @ symbol_tail t m)"
    "route_path base (Some k) (t @ hash_sign # m)
       = Some (with_slash base @ route_segment @ slash # encode_route_token k @ slash # symbol_tail t m)"
  using encode_symbol_path_of [OF assms, of t] by (simp_all add: route_path_def Let_def with_slash_trimmed)

lemma strip_marked:
  assumes "slash \<notin> set k"
  shows "strip_route_path (with_slash base @ route_segment @ slash # k @ slash # rest) base = Some (with_slash base @ rest)"
  using assms by (simp add: strip_route_path_def Let_def index_of_append starts_with_def route_segment_def)



subsection \<open>A path without dots is its own URL\<close>

abbreviation dotted :: "string \<Rightarrow> bool" where
  "dotted s \<equiv> single_dot s \<or> double_dot s"

lemma dotted_decodes: "dotted s \<Longrightarrow> decode_uri_component s = Some ''.'' \<or> decode_uri_component s = Some ''..''"
  by (auto simp: single_dot_def double_dot_def hex_value_def char_of_eq_iff)

lemma encoded_not_dotted: "s \<noteq> ''.'' \<Longrightarrow> s \<noteq> ''..'' \<Longrightarrow> \<not> dotted (encode_segment s)" "s \<noteq> ''.'' \<Longrightarrow> s \<noteq> ''..'' \<Longrightarrow> \<not> dotted (encode_uri_component s)"
  using dotted_decodes [of "encode_segment s"] dotted_decodes [of "encode_uri_component s"] decode_encode_segment [of s] decode_encode_component [of s] by auto

lemma url_walk_plain: "list_all (\<lambda>s. \<not> dotted s) a \<Longrightarrow> url_walk path (a @ b) = url_walk (path @ a) b"
  by (induction a arbitrary: path) simp_all

lemma split_on_join_append: "split_on c (p @ c # s) = split_on c p @ split_on c s"
  by (induction p) (simp_all split: list.split)

lemma join_with_append: "a \<noteq> [] \<Longrightarrow> b \<noteq> [] \<Longrightarrow> join_with c (a @ b) = join_with c a @ c # join_with c b"
  by (induction c a rule: join_with.induct) (auto simp: join_with_Cons)

lemma base_segments:
  assumes "base_ok base"
  obtains b where "list_all (\<lambda>s. \<not> dotted s) b" "\<And>tail. path_segments (with_slash base @ tail) = b @ split_on slash tail"
    "\<And>ss. ss \<noteq> [] \<Longrightarrow> slash # join_with slash (b @ ss) = with_slash base @ join_with slash ss"
proof -
  define trimmed where "trimmed = (if ends_with_char base slash then butlast base else base)"
  have ws: "with_slash base = trimmed @ [slash]" by (simp add: with_slash_trimmed trimmed_def)
  show ?thesis
  proof (cases trimmed)
    case Nil
    with ws that [of "[]"] show ?thesis by (simp add: path_segments_def)
  next
    case (Cons c rest)
    from assms ws Cons have c: "c = slash" by (simp add: base_ok_def starts_with_def)
    have "base = trimmed \<or> base = trimmed @ [slash]"
      by (simp add: trimmed_def ends_with_char_def) (metis append_butlast_last_id)
    then have "list_all (\<lambda>s. \<not> dotted s) (split_on slash rest)"
      using assms c Cons by (auto simp: base_ok_def path_segments_def split_on_join_append)
    with ws Cons c that [of "split_on slash rest"] show ?thesis
      by (simp add: path_segments_def split_on_join_append join_with_append join_split)
  qed
qed

lemma url_pathname_plain:
  assumes "base_ok base" "list_all (\<lambda>s. \<not> dotted s) (split_on slash tail)"
  shows "url_pathname (with_slash base @ tail) = with_slash base @ tail"
proof -
  from assms(1) obtain b where b: "list_all (\<lambda>s. \<not> dotted s) b" "path_segments (with_slash base @ tail) = b @ split_on slash tail"
    "slash # join_with slash (b @ split_on slash tail) = with_slash base @ join_with slash (split_on slash tail)" by (rule base_segments) simp
  have "url_walk [] (b @ split_on slash tail) = b @ split_on slash tail"
    using url_walk_plain [OF b(1), of "[]"] url_walk_plain [OF assms(2), of b "[]"] by simp
  with b show ?thesis by (simp add: url_pathname_def join_split)
qed

text \<open>A dot segment right behind the base and one segment is dropped.\<close>

lemma url_pathname_dot:
  assumes "base_ok base" "slash \<notin> set x" "\<not> dotted x" "list_all (\<lambda>s. \<not> dotted s) (split_on slash tail)"
  shows "url_pathname (with_slash base @ x @ slash # ''.'' @ slash # tail) = with_slash base @ x @ slash # tail"
proof -
  have tail: "split_on slash (x @ slash # ''.'' @ slash # tail) = x # ''.'' # split_on slash tail"
    using assms(2) by (simp add: split_on_append split_on_append [of slash "''.''"])
  from assms(1) obtain b where b: "list_all (\<lambda>s. \<not> dotted s) b"
    "path_segments (with_slash base @ x @ slash # ''.'' @ slash # tail) = b @ x # ''.'' # split_on slash tail"
    "slash # join_with slash (b @ x # split_on slash tail) = with_slash base @ join_with slash (x # split_on slash tail)"
    by (rule base_segments) (simp add: tail del: append_Cons append_Nil)
  have "\<not> double_dot ''.''" "single_dot ''.''" by (auto simp: double_dot_def single_dot_def)
  then have "url_walk [] (b @ x # ''.'' # split_on slash tail) = b @ x # split_on slash tail"
    using url_walk_plain [OF b(1), of "[]"] url_walk_plain [OF assms(4), of "b @ [x]" "[]"] assms(3) by simp
  with b show ?thesis by (simp add: url_pathname_def join_split join_with_Cons)
qed

subsection \<open>What the server reads\<close>

lemma type_segments: "type_ok t \<Longrightarrow> x \<in> set (split_on slash t) \<Longrightarrow> x \<noteq> [] \<and> x \<noteq> ''.'' \<and> x \<noteq> ''..''"
  by (auto simp: type_ok_def list_all_iff)

lemma symbol_tail_plain:
  assumes "type_ok t" "method_ok m" shows "list_all (\<lambda>s. \<not> dotted s) (split_on slash (symbol_tail t m))"
  using type_segments [OF assms(1)] assms(2) encoded_not_dotted by (fastforce simp: split_symbol_tail list_all_iff method_ok_def)

lemma type_ok_prefixed: "slash \<notin> set x \<Longrightarrow> type_ok (x @ slash # t) \<Longrightarrow> type_ok t \<and> x \<noteq> [] \<and> x \<noteq> ''.'' \<and> x \<noteq> ''..''"
  by (cases "t = []") (auto simp: type_ok_def split_on_append)

lemma symbol_tail_prefixed:
  assumes "slash \<notin> set x" shows "symbol_tail (x @ slash # t) m = encode_segment x @ slash # symbol_tail t m"
  using assms by (simp add: symbol_tail_def split_on_append join_with_Cons)

lemma route_segment_encoded: "encode_segment route_segment = route_segment"
  by (simp add: encode_segment_chars segment_char_def pct_char_def route_segment_def unreserved_def)

lemma route_segment_plain: "\<not> dotted route_segment" "slash \<notin> set route_segment"
  by (auto simp: single_dot_def double_dot_def route_segment_def)


lemma mounted_stripped:
  assumes "base_ok base" "slash \<notin> set x" "\<not> dotted x" "list_all (\<lambda>s. \<not> dotted s) (split_on slash tail)"
  shows "url_pathname (with_slash base @ route_segment @ slash # x @ slash # tail) = with_slash base @ route_segment @ slash # x @ slash # tail"
    "mounted_symbol (with_slash base @ route_segment @ slash # x @ slash # tail) base = symbol_from_pathname (with_slash base @ tail) base"
proof -
  show url: "url_pathname (with_slash base @ route_segment @ slash # x @ slash # tail) = with_slash base @ route_segment @ slash # x @ slash # tail"
    using url_pathname_plain [OF assms(1), of "route_segment @ slash # x @ slash # tail"] assms(2-4) route_segment_plain by (simp add: split_on_append)
  show "mounted_symbol (with_slash base @ route_segment @ slash # x @ slash # tail) base = symbol_from_pathname (with_slash base @ tail) base"
    using url strip_marked [OF assms(2)] url_pathname_plain [OF assms(1,4)] by (simp add: mounted_symbol_def Let_def)
qed

lemma read_single:
  assumes "slash \<notin> set m" "hash_sign \<notin> set m"
  shows "symbol_from_pathname (with_slash base @ encode_segment m) base = Some []"
proof -
  have "split_on slash (encode_segment m) = [encode_segment m]" using encode_segment_free by (simp add: split_on_free)
  moreover have "last_index_of hash_sign m = None" "last_index_of slash m = None" using assms by (simp_all add: last_index_of_None)
  ultimately show ?thesis using assms by (simp add: symbol_from_pathname_def Let_def decode_encode_segment canonical_symbol_def)
qed



text \<open>What is behind the marker \<open>r/\<close> and one segment of a type: a shorter type, or nothing.\<close>

lemma read_behind_marker:
  assumes "base_ok base" "type_ok t" "method_ok m"
  shows "mounted_symbol (with_slash base @ route_segment @ slash # symbol_tail t m) base
    = Some (case index_of slash t of None \<Rightarrow> [] | Some i \<Rightarrow> drop (Suc i) t @ hash_sign # m)"
proof (cases "index_of slash t")
  case None
  then have t: "slash \<notin> set t" by (simp add: index_of_None)
  with type_segments [OF assms(2), of t] have ne: "t \<noteq> ''.''" "t \<noteq> ''..''" by (simp_all add: split_on_free)
  have tail: "symbol_tail t m = encode_segment t @ slash # encode_segment m" using t by (simp add: symbol_tail_def split_on_free)
  have "list_all (\<lambda>s. \<not> dotted s) (split_on slash (encode_segment m))"
    using assms(3) encoded_not_dotted(1) [of m] encode_segment_free by (simp add: split_on_free method_ok_def)
  from mounted_stripped(2) [OF assms(1) _ encoded_not_dotted(1) [OF ne] this] encode_segment_free read_single [of m base] assms(3)
  show ?thesis by (simp add: None tail method_ok_def)
next
  case (Some i)
  then obtain x t' where t: "t = x @ slash # t'" "slash \<notin> set x" "length x = i"
    by (metis index_of_SomeD id_take_nth_drop length_take min.absorb2 order.strict_implies_order)
  from type_ok_prefixed [OF t(2)] assms(2) t(1) have ok: "type_ok t'" "x \<noteq> ''.''" "x \<noteq> ''..''" by simp_all
  from mounted_stripped(2) [OF assms(1) _ encoded_not_dotted(1) [OF ok(2,3)] symbol_tail_plain [OF ok(1) assms(3)]]
    encode_segment_free read_symbol_tail [OF ok(1) assms(3), of base] Some
  show ?thesis unfolding t(1) symbol_tail_prefixed [OF t(2)] by (simp add: t(3) [symmetric] split: option.splits)
qed

text \<open>
  C30. An actor whose type starts with \<open>r/\<close> is not reachable without a routing token: the path of a call to it is taken for a
  tokenised one, the segment behind \<open>r\<close> for the token, and the call is read as one to the rest of the type, \<open>t\<close> for
  \<open>r/x/t\<close>, or, for \<open>r/x\<close>, as no call at all. No check of \<open>defineActor\<close> refuses such a type.
\<close>

theorem untokenised_type_is_misrouted:
  assumes "base_ok base" "type_ok (route_segment @ slash # t)" "method_ok m"
  shows "\<exists>p. route_path base (route_token_for Route_None type key) ((route_segment @ slash # t) @ hash_sign # m) = Some p
    \<and> mounted_symbol p base = Some (case index_of slash t of None \<Rightarrow> [] | Some i \<Rightarrow> drop (Suc i) t @ hash_sign # m)"
proof -
  from assms(3) have m: "hash_sign \<notin> set m" "slash \<notin> set m" by (simp_all add: method_ok_def)
  have none: "route_token_for Route_None type key = None" by (simp add: route_token_for_def)
  have tail: "symbol_tail (route_segment @ slash # t) m = route_segment @ slash # symbol_tail t m"
    using symbol_tail_prefixed [OF route_segment_plain(2)] route_segment_encoded by simp
  from type_ok_prefixed [OF route_segment_plain(2) assms(2)] have "type_ok t" by simp
  from read_behind_marker [OF assms(1) this assms(3)] route_path_of(1) [OF m, of base "route_segment @ slash # t"] show ?thesis
    unfolding none tail by blast
qed

theorem untokenised_type_is_misrouted_witness:
  "\<exists>p. route_path ''/_sigx/actor'' None (''r/billing/Cart'' @ hash_sign # ''clear'') = Some p
     \<and> mounted_symbol p ''/_sigx/actor'' = Some (''Cart'' @ hash_sign # ''clear'')"
proof -
  have "base_ok ''/_sigx/actor''" "type_ok (route_segment @ slash # ''billing/Cart'')" "method_ok ''clear''" by code_simp+
  from untokenised_type_is_misrouted [OF this, of "[]" "[]"] show ?thesis
    by (simp add: route_token_for_def starts_with_def route_segment_def)
qed

text \<open>
  C31. An actor routed by its key loses the key \<open>.\<close>: the URL parser drops the token, the first segment of the type is taken for it, and
  the call is read as one to the rest of the type, or, where the type has one segment, as no call at all.
\<close>

theorem dot_key_is_misrouted:
  assumes "base_ok base" "type_ok t" "method_ok m" "\<not> starts_with t ''$''"
  shows "\<exists>q. route_path base (route_token_for Route_Key t ''.'') (t @ hash_sign # m) = Some q
    \<and> mounted_symbol q base = Some (case index_of slash t of None \<Rightarrow> [] | Some i \<Rightarrow> drop (Suc i) t @ hash_sign # m)"
proof -
  from assms(3) have m: "hash_sign \<notin> set m" "slash \<notin> set m" by (simp_all add: method_ok_def)
  have token: "route_token_for Route_Key t ''.'' = Some ''.''" using assms(4) by (simp add: route_token_for_def)
  have dot: "encode_route_token ''.'' = ''.''" by code_simp
  let ?q = "with_slash base @ route_segment @ slash # ''.'' @ slash # symbol_tail t m" and ?p = "with_slash base @ route_segment @ slash # symbol_tail t m"
  have plain: "list_all (\<lambda>s. \<not> dotted s) (split_on slash (symbol_tail t m))" by (rule symbol_tail_plain [OF assms(2,3)])
  have "url_pathname ?q = ?p" by (rule url_pathname_dot [OF assms(1) route_segment_plain(2,1) plain])
  moreover have "url_pathname ?p = ?p"
    using url_pathname_plain [OF assms(1), of "route_segment @ slash # symbol_tail t m"] plain route_segment_plain by (simp add: split_on_append)
  ultimately have "mounted_symbol ?q base = mounted_symbol ?p base" unfolding mounted_symbol_def by simp
  with read_behind_marker [OF assms(1-3)] route_path_of(2) [OF m, of base "''.''" t] dot show ?thesis unfolding token by simp
qed

theorem dot_key_is_misrouted_witness:
  "\<exists>q. route_path ''/_sigx/actor'' (Some ''.'') (''acme/greeter'' @ hash_sign # ''greet'') = Some q
     \<and> mounted_symbol q ''/_sigx/actor'' = Some (''greeter'' @ hash_sign # ''greet'')"
proof -
  have "base_ok ''/_sigx/actor''" "type_ok ''acme/greeter''" "method_ok ''greet''" "\<not> starts_with ''acme/greeter'' ''$''" by code_simp+
  from dot_key_is_misrouted [OF this] show ?thesis by (simp add: route_token_for_def starts_with_def)
qed

text \<open>The reading half is not one-to-one: an escaped letter is a second path of the same call.\<close>

theorem second_path_of_a_call:
  "symbol_from_pathname ''/_sigx/host/Cart/add'' ''/_sigx/host'' = Some (''Cart'' @ hash_sign # ''add'')
     \<and> symbol_from_pathname (''/_sigx/host/Cart/'' @ percent # ''61dd'') ''/_sigx/host'' = Some (''Cart'' @ hash_sign # ''add'')"
  by code_simp

end
