(* ===== verification/Client_Routing.thy ===== *)
theory Client_Routing
  imports Complex_Main Actor_Ids
begin

section \<open>Routing on the client\<close>

text \<open>
  \<open>client/routing.ts\<close>: reading a redirect, the bounded cache and the shipped routers, and the transport that lets a router choose
  the endpoint of each call. The inner transport and a router an application writes are arguments; a router callback
  may throw. Only the console warnings are left out.
\<close>

subsection \<open>Failures and redirects\<close>

text \<open>What is read off a failure: its status, and of its data the kind and the string fields of the owner.\<close>

datatype js_status = No_Status | Status int | Odd_Status

record call_failure =
  cf_status :: js_status
  cf_kind :: "string option"
  cf_endpoint :: "string option"
  cf_host :: "string option"

record route_redirect =
  rr_endpoint :: string
  rr_host :: "string option"

definition actor_redirect :: "call_failure \<Rightarrow> route_redirect option" where
  "actor_redirect f =
     (if cf_kind f \<noteq> Some ''wrong-host'' then None
      else case cf_endpoint f of
          None \<Rightarrow> None
        | Some e \<Rightarrow> if e = [] then None else Some \<lparr>rr_endpoint = e, rr_host = cf_host f\<rparr>)"

definition stale_route_failure :: "call_failure \<Rightarrow> bool" where
  "stale_route_failure f = (case cf_status f of No_Status \<Rightarrow> True | Status n \<Rightarrow> 500 \<le> n | Odd_Status \<Rightarrow> False)"

subsection \<open>The cache\<close>

definition default_max_entries :: int where "default_max_entries = 10000"

record route_cache =
  rk_routes :: "(string, string) jmap"
  rk_learned :: nat

definition new_route_cache :: route_cache where
  "new_route_cache = \<lparr>rk_routes = [], rk_learned = 0\<rparr>"

text \<open>\<open>None\<close> is a maximum that is absent or not finite.\<close>

definition cache_cap :: "rat option \<Rightarrow> int" where
  "cache_cap mx = (case mx of Some x \<Rightarrow> \<lfloor>x\<rfloor> | None \<Rightarrow> default_max_entries)"

definition cache_get :: "string \<Rightarrow> route_cache \<Rightarrow> string option" where
  "cache_get aid c = jget (rk_routes c) aid"

definition cache_set :: "int \<Rightarrow> string \<Rightarrow> string \<Rightarrow> route_cache \<Rightarrow> route_cache" where
  "cache_set cap aid endpoint c =
     (if cap \<le> 0 then c
      else let routes = rk_routes c;
               rest = (if jhas routes aid then jdel routes aid
                       else if cap \<le> int (length routes) then (case routes of [] \<Rightarrow> [] | (oldest, e) # _ \<Rightarrow> jdel routes oldest)
                       else routes)
           in c\<lparr>rk_learned := Suc (rk_learned c), rk_routes := jset rest aid endpoint\<rparr>)"

definition cache_prune :: "string option \<Rightarrow> route_cache \<Rightarrow> route_cache" where
  "cache_prune endpoint c = (case endpoint of
       None \<Rightarrow> c\<lparr>rk_routes := []\<rparr>
     | Some e \<Rightarrow> c\<lparr>rk_routes := filter (\<lambda>(aid, x). x \<noteq> e) (rk_routes c)\<rparr>)"

subsection \<open>The shipped routers\<close>

datatype shipped_router = Static_Router "string option" | Learning_Router int route_cache | Chain_Router "shipped_router list"

definition learning_router :: "rat option \<Rightarrow> shipped_router" where
  "learning_router mx = Learning_Router (cache_cap mx) new_route_cache"

definition first_answer :: "string option list \<Rightarrow> string option" where
  "first_answer xs = (case filter (\<lambda>x. x \<noteq> None) xs of [] \<Rightarrow> None | x # _ \<Rightarrow> x)"

fun router_resolve :: "shipped_router \<Rightarrow> actor_ref \<Rightarrow> string option" where
  "router_resolve (Static_Router e) ref = e"
| "router_resolve (Learning_Router cap c) ref = cache_get (actor_id ref) c"
| "router_resolve (Chain_Router rs) ref = first_answer (map (\<lambda>r. router_resolve r ref) rs)"

fun router_learn :: "actor_ref \<Rightarrow> string \<Rightarrow> shipped_router \<Rightarrow> shipped_router" where
  "router_learn ref e (Static_Router x) = Static_Router x"
| "router_learn ref e (Learning_Router cap c) = Learning_Router cap (cache_set cap (actor_id ref) e c)"
| "router_learn ref e (Chain_Router rs) = Chain_Router (map (router_learn ref e) rs)"

fun router_invalidate :: "string option \<Rightarrow> shipped_router \<Rightarrow> shipped_router" where
  "router_invalidate e (Static_Router x) = Static_Router x"
| "router_invalidate e (Learning_Router cap c) = Learning_Router cap (cache_prune e c)"
| "router_invalidate e (Chain_Router rs) = Chain_Router (map (router_invalidate e) rs)"

text \<open>\<open>stats()\<close>: entries and learn calls; a static router has none.\<close>

fun router_stats :: "shipped_router \<Rightarrow> nat \<times> nat" where
  "router_stats (Static_Router x) = (0, 0)"
| "router_stats (Learning_Router cap c) = (length (rk_routes c), rk_learned c)"
| "router_stats (Chain_Router rs) = (sum_list (map (fst \<circ> router_stats) rs), sum_list (map (snd \<circ> router_stats) rs))"

subsection \<open>The wrapper\<close>

record call_init =
  ci_ref :: "actor_ref option"
  ci_route :: "string option"
  ci_endpoint :: "string option"
  ci_headers :: "(string, string) jmap"

record route_context =
  rx_symbol :: string
  rx_method :: string
  rx_stream :: bool
  rx_endpoint :: string

text \<open>What a router's \<open>resolve\<close> may do, and a router as its callbacks on a state of its own; a callback says whether it threw.\<close>

datatype router_answer = Router_Threw | No_Opinion | Unusable | Endpoint string

record 'r router_ops =
  op_resolve :: "actor_ref \<Rightarrow> route_context \<Rightarrow> 'r \<Rightarrow> router_answer \<times> 'r"
  op_learn :: "actor_ref \<Rightarrow> string \<Rightarrow> 'r \<Rightarrow> bool \<times> 'r"
  op_invalidate :: "string \<Rightarrow> 'r \<Rightarrow> bool \<times> 'r"

record routing_stats =
  st_routed :: nat
  st_redirects :: nat
  st_invalidations :: nat
  st_router_errors :: nat

record 'r routed_transport =
  rt_router :: 'r
  rt_stats :: routing_stats

definition new_routed_transport :: "'r \<Rightarrow> 'r routed_transport" where
  "new_routed_transport r = \<lparr>rt_router = r, rt_stats = \<lparr>st_routed = 0, st_redirects = 0, st_invalidations = 0, st_router_errors = 0\<rparr>\<rparr>"

definition count_error :: "bool \<Rightarrow> routing_stats \<Rightarrow> routing_stats" where
  "count_error threw s = (if threw then s\<lparr>st_router_errors := Suc (st_router_errors s)\<rparr> else s)"

definition quietly :: "('r \<Rightarrow> bool \<times> 'r) \<Rightarrow> 'r routed_transport \<Rightarrow> 'r routed_transport" where
  "quietly run t = (let (threw, r) = run (rt_router t) in \<lparr>rt_router = r, rt_stats = count_error threw (rt_stats t)\<rparr>)"

definition safe_resolve :: "'r router_ops \<Rightarrow> actor_ref \<Rightarrow> route_context \<Rightarrow> 'r routed_transport \<Rightarrow> string option \<times> 'r routed_transport" where
  "safe_resolve ops ref ctx t =
     (let (answer, r) = op_resolve ops ref ctx (rt_router t); s = rt_stats t; failed = (None, \<lparr>rt_router = r, rt_stats = count_error True s\<rparr>)
      in case answer of
           No_Opinion \<Rightarrow> (None, \<lparr>rt_router = r, rt_stats = s\<rparr>)
         | Endpoint e \<Rightarrow> if e = [] then failed else (Some e, \<lparr>rt_router = r, rt_stats = s\<lparr>st_routed := Suc (st_routed s)\<rparr>\<rparr>)
         | _ \<Rightarrow> failed)"

definition follow_header :: string where "follow_header = ''x-sigx-actor-follow''"

definition hops_header :: string where "hops_header = ''x-sigx-actor-hops''"

definition init_for :: "call_init \<Rightarrow> string option \<Rightarrow> nat \<Rightarrow> call_init" where
  "init_for init route attempt =
     (let headers = jset (ci_headers init) follow_header ''1''
      in init\<lparr>ci_route := (case route of None \<Rightarrow> ci_route init | Some r \<Rightarrow> Some r),
              ci_headers := (if 0 < attempt then jset headers hops_header (show_nat attempt) else headers)\<rparr>)"

definition route_context_of :: "string \<Rightarrow> bool \<Rightarrow> call_init \<Rightarrow> route_context" where
  "route_context_of symbol stream init =
     \<lparr>rx_symbol = symbol,
      rx_method = (case last_index_of (CHR 0x23) symbol of Some (Suc i) \<Rightarrow> drop (Suc (Suc i)) symbol | _ \<Rightarrow> symbol),
      rx_stream = stream,
      rx_endpoint = (case ci_route init of Some r \<Rightarrow> r | None \<Rightarrow> (case ci_endpoint init of Some e \<Rightarrow> e | None \<Rightarrow> []))\<rparr>"

text \<open>What to do with a failure: \<open>Inl\<close> throws it on, \<open>Inr\<close> is the next route.\<close>

definition next_route :: "'r router_ops \<Rightarrow> nat \<Rightarrow> call_failure \<Rightarrow> actor_ref \<Rightarrow> string option \<Rightarrow> nat \<Rightarrow> 'r routed_transport
    \<Rightarrow> (call_failure + string option) \<times> 'r routed_transport" where
  "next_route ops mx f ref route attempt t =
     (case actor_redirect f of
        Some hint \<Rightarrow>
          if mx \<le> attempt then (Inl f, t)
          else (Inr (Some (rr_endpoint hint)),
                quietly (op_learn ops ref (rr_endpoint hint)) (t\<lparr>rt_stats := (rt_stats t)\<lparr>st_redirects := Suc (st_redirects (rt_stats t))\<rparr>\<rparr>))
      | None \<Rightarrow>
          (case route of
             Some r \<Rightarrow>
               if attempt < mx \<and> stale_route_failure f
               then (Inr None, quietly (op_invalidate ops r)
                       (t\<lparr>rt_stats := (rt_stats t)\<lparr>st_invalidations := Suc (st_invalidations (rt_stats t))\<rparr>\<rparr>))
               else (Inl f, t)
           | None \<Rightarrow> (Inl f, t)))"

lemma next_route_attempt: "next_route ops mx f ref route attempt t = (Inr route', t') \<Longrightarrow> attempt < mx"
  by (auto simp: next_route_def split: option.splits if_splits)

text \<open>
  The inner transport answers on a world of its own. The loops also return what was sent, with the failure each attempt
  came back with.
\<close>

function call_loop :: "'r router_ops \<Rightarrow> nat \<Rightarrow> ('w \<Rightarrow> call_init \<Rightarrow> (call_failure + 'v) \<times> 'w) \<Rightarrow> actor_ref \<Rightarrow> call_init \<Rightarrow> string option \<Rightarrow> nat
    \<Rightarrow> 'r routed_transport \<Rightarrow> 'w \<Rightarrow> (call_init \<times> call_failure option) list \<times> (call_failure + 'v) \<times> 'r routed_transport \<times> 'w" where
  "call_loop ops mx inner ref init route attempt t w =
     (let sent = init_for init route attempt in
      case inner w sent of
        (Inr v, w') \<Rightarrow> ([(sent, None)], Inr v, t, w')
      | (Inl f, w') \<Rightarrow>
          (case next_route ops mx f ref route attempt t of
             (Inl e, t') \<Rightarrow> ([(sent, Some f)], Inl e, t', w')
           | (Inr route', t') \<Rightarrow>
               (case call_loop ops mx inner ref init route' (Suc attempt) t' w' of
                  (later, result) \<Rightarrow> ((sent, Some f) # later, result))))"
  by pat_completeness auto
termination
  by (relation "measure (\<lambda>(ops, mx, inner, ref, init, route, attempt, t, w). Suc mx - attempt)")
     (auto dest!: sym [of "(Inr _, _)"] next_route_attempt)

definition routed_call :: "'r router_ops \<Rightarrow> nat \<Rightarrow> ('w \<Rightarrow> call_init \<Rightarrow> (call_failure + 'v) \<times> 'w) \<Rightarrow> string \<Rightarrow> call_init
    \<Rightarrow> 'r routed_transport \<Rightarrow> 'w \<Rightarrow> (call_init \<times> call_failure option) list \<times> (call_failure + 'v) \<times> 'r routed_transport \<times> 'w" where
  "routed_call ops mx inner symbol init t w =
     (case ci_ref init of
        None \<Rightarrow> (case inner w init of (Inr v, w') \<Rightarrow> ([(init, None)], Inr v, t, w') | (Inl f, w') \<Rightarrow> ([(init, Some f)], Inl f, t, w'))
      | Some ref \<Rightarrow> (case safe_resolve ops ref (route_context_of symbol False init) t of
            (route, t') \<Rightarrow> call_loop ops mx inner ref init route 0 t' w))"

text \<open>
  A stream: an inner stream is what it yields and how it ends (\<open>None\<close> is its end). The first pull decides
  about another endpoint; past it the failure is the stream's.
\<close>

function stream_loop :: "'r router_ops \<Rightarrow> nat \<Rightarrow> ('w \<Rightarrow> call_init \<Rightarrow> ('v list \<times> call_failure option) \<times> 'w) \<Rightarrow> actor_ref \<Rightarrow> call_init \<Rightarrow> string option
    \<Rightarrow> nat \<Rightarrow> 'r routed_transport \<Rightarrow> 'w \<Rightarrow> ('v list \<times> call_failure option) \<times> 'r routed_transport \<times> 'w" where
  "stream_loop ops mx inner ref init route attempt t w =
     (case inner w (init_for init route attempt) of
        (([], Some f), w') \<Rightarrow>
          (case next_route ops mx f ref route attempt t of
             (Inl e, t') \<Rightarrow> (([], Some e), t', w')
           | (Inr route', t') \<Rightarrow> stream_loop ops mx inner ref init route' (Suc attempt) t' w')
      | (run, w') \<Rightarrow> (run, t, w'))"
  by pat_completeness auto
termination
  by (relation "measure (\<lambda>(ops, mx, inner, ref, init, route, attempt, t, w). Suc mx - attempt)")
     (auto dest!: sym [of "(Inr _, _)"] next_route_attempt)

definition routed_stream :: "'r router_ops \<Rightarrow> nat \<Rightarrow> ('w \<Rightarrow> call_init \<Rightarrow> ('v list \<times> call_failure option) \<times> 'w) \<Rightarrow> string \<Rightarrow> call_init
    \<Rightarrow> 'r routed_transport \<Rightarrow> 'w \<Rightarrow> ('v list \<times> call_failure option) \<times> 'r routed_transport \<times> 'w" where
  "routed_stream ops mx inner symbol init t w =
     (case ci_ref init of
        None \<Rightarrow> (case inner w init of (run, w') \<Rightarrow> (run, t, w'))
      | Some ref \<Rightarrow> (case safe_resolve ops ref (route_context_of symbol True init) t of
            (route, t') \<Rightarrow> stream_loop ops mx inner ref init route 0 t' w))"

definition default_max_redirects :: nat where "default_max_redirects = 2"

text \<open>The shipped routers as callbacks; none of them throws.\<close>

definition shipped_ops :: "shipped_router router_ops" where
  "shipped_ops = \<lparr>op_resolve = (\<lambda>ref ctx r. (case router_resolve r ref of None \<Rightarrow> No_Opinion | Some e \<Rightarrow> Endpoint e, r)),
     op_learn = (\<lambda>ref e r. (False, router_learn ref e r)), op_invalidate = (\<lambda>e r. (False, router_invalidate (Some e) r))\<rparr>"

text \<open>\<open>routedFetchTransport\<close>: which router a configuration installs, and the bound on redirects.\<close>

datatype follow_option = Follow_Unset | Follow_Flag bool | Follow_With "nat option" "rat option"

definition chosen_router :: "shipped_router option \<Rightarrow> follow_option \<Rightarrow> (shipped_router \<times> nat) option" where
  "chosen_router router follow =
     (let mx = (case follow of Follow_With (Some n) c \<Rightarrow> n | _ \<Rightarrow> default_max_redirects)
      in case router of
           Some r \<Rightarrow> Some (r, mx)
         | None \<Rightarrow> (case follow of
               Follow_Unset \<Rightarrow> None
             | Follow_Flag b \<Rightarrow> if b then Some (learning_router None, mx) else None
             | Follow_With n c \<Rightarrow> Some (learning_router c, mx)))"

subsection \<open>What a router remembers\<close>

text \<open>
  The contract of anything that remembers endpoints: it answers only what it was last told, and nothing it was told to
  drop. Remembering may forget others, so a bounded cache has it, too.
\<close>

datatype 'e told = Told string 'e | Dropped 'e | All_Dropped

fun last_word :: "string \<Rightarrow> 'e told list \<Rightarrow> 'e option" where
  "last_word k [] = None"
| "last_word k (Told k' e # ts) = (if k' = k then Some e else last_word k ts)"
| "last_word k (Dropped e # ts) = (if last_word k ts = Some e then None else last_word k ts)"
| "last_word k (All_Dropped # ts) = None"

locale endpoint_memory =
  fixes look :: "'m \<Rightarrow> string \<Rightarrow> 'e option" and tell :: "string \<Rightarrow> 'e \<Rightarrow> 'm \<Rightarrow> 'm" and drop_all :: "'e option \<Rightarrow> 'm \<Rightarrow> 'm" and fresh :: 'm
    and sound :: "'m \<Rightarrow> bool"
  assumes fresh_knows_nothing: "sound fresh \<and> look fresh k = None"
    and tell_same: "sound m \<Longrightarrow> look (tell k e m) k = Some x \<Longrightarrow> x = e"
    and tell_other: "sound m \<Longrightarrow> k' \<noteq> k \<Longrightarrow> look (tell k e m) k' = Some x \<Longrightarrow> look m k' = Some x"
    and drop_one: "sound m \<Longrightarrow> look (drop_all (Some e) m) k = Some x \<Longrightarrow> look m k = Some x \<and> x \<noteq> e"
    and drop_every: "look (drop_all None m) k = None"
    and stays_sound: "sound m \<Longrightarrow> sound (tell k e m) \<and> sound (drop_all d m)"
begin

fun hear :: "'e told \<Rightarrow> 'm \<Rightarrow> 'm" where
  "hear (Told k e) m = tell k e m"
| "hear (Dropped e) m = drop_all (Some e) m"
| "hear All_Dropped m = drop_all None m"

lemma hear_sound: "sound (foldr hear ts fresh)"
proof (induction ts)
  case (Cons t ts)
  with stays_sound show ?case by (cases t) simp_all
qed (simp add: fresh_knows_nothing)

lemma answers_the_last_word: "look (foldr hear ts fresh) k = Some x \<Longrightarrow> last_word k ts = Some x"
proof (induction ts)
  case (Cons t ts)
  show ?case
  proof (cases t)
    case (Told k' e)
    with Cons tell_same [OF hear_sound] tell_other [OF hear_sound, of k k'] show ?thesis by (cases "k' = k") auto
  next
    case (Dropped e)
    with Cons drop_one [OF hear_sound] show ?thesis by auto
  next
    case All_Dropped
    with Cons.prems show ?thesis by (simp add: drop_every)
  qed
qed (simp add: fresh_knows_nothing)

end

lemma jget_filter_drop: "jget (filter (\<lambda>(k, x). x \<noteq> e) m) k = Some x \<Longrightarrow> distinct (jkeys m) \<Longrightarrow> jget m k = Some x \<and> x \<noteq> e"
  by (simp add: jget_filter split: option.splits if_splits)

definition cache_sound :: "int \<Rightarrow> route_cache \<Rightarrow> bool" where
  "cache_sound cap c \<longleftrightarrow> distinct (jkeys (rk_routes c)) \<and> int (length (rk_routes c)) \<le> max 0 cap"

lemma cache_set_get:
  "0 < cap \<Longrightarrow> cache_get k (cache_set cap k e c) = Some e"
  "k' \<noteq> k \<Longrightarrow> cache_get k' (cache_set cap k e c) = Some x \<Longrightarrow> cache_get k' c = Some x"
  by (auto simp: cache_set_def cache_get_def Let_def split: if_splits list.splits)

lemma cache_set_sound:
  assumes "cache_sound cap c" shows "cache_sound cap (cache_set cap k e c)"
proof (cases "cap \<le> 0")
  case False
  let ?m = "rk_routes c"
  from assms False have m: "distinct (jkeys ?m)" "int (length ?m) \<le> cap" by (simp_all add: cache_sound_def)
  consider (has) "jhas ?m k" | (full) "\<not> jhas ?m k" "cap \<le> int (length ?m)" | (room) "\<not> jhas ?m k" "int (length ?m) < cap" by linarith
  then show ?thesis
  proof cases
    case has
    with m length_jdel [of ?m k] False show ?thesis
      by (auto simp: cache_sound_def cache_set_def Let_def length_jset intro!: distinct_jset distinct_jdel)
  next
    case full
    with False obtain k0 e0 m' where c: "?m = (k0, e0) # m'" by (cases ?m) auto
    from m c have "jdel ?m k0 = m'" by (simp add: jdel_fresh)
    with full False c m show ?thesis
      by (auto simp: cache_sound_def cache_set_def Let_def length_jset intro!: distinct_jset)
  next
    case room
    with m False show ?thesis
      by (auto simp: cache_sound_def cache_set_def Let_def length_jset intro!: distinct_jset)
  qed
qed (use assms in \<open>simp add: cache_set_def\<close>)

lemma cache_prune_sound: "cache_sound cap c \<Longrightarrow> cache_sound cap (cache_prune d c)"
  by (cases d) (auto simp: cache_sound_def cache_prune_def distinct_map_filter intro: order_trans [OF of_nat_mono [OF length_filter_le]])

lemma cache_prune_get:
  "cache_sound cap c \<Longrightarrow> cache_get k (cache_prune (Some e) c) = Some x \<Longrightarrow> cache_get k c = Some x \<and> x \<noteq> e"
  "cache_get k (cache_prune None c) = None"
  using jget_filter_drop [of e "rk_routes c" k x] by (simp_all add: cache_prune_def cache_get_def cache_sound_def)

lemma cache_set_same: "cache_sound cap c \<Longrightarrow> cache_get k (cache_set cap k e c) = Some x \<Longrightarrow> x = e"
proof (cases "cap \<le> 0")
  case True
  then show "cache_sound cap c \<Longrightarrow> cache_get k (cache_set cap k e c) = Some x \<Longrightarrow> x = e"
    by (simp add: cache_sound_def cache_set_def cache_get_def)
qed (simp add: cache_set_get)

lemma new_route_cache_sound: "cache_sound cap new_route_cache \<and> cache_get k new_route_cache = None"
  by (simp add: cache_sound_def new_route_cache_def cache_get_def)

interpretation learned: endpoint_memory "\<lambda>c k. cache_get k c" "cache_set cap" cache_prune new_route_cache "cache_sound cap" for cap
  by unfold_locales
     (rule new_route_cache_sound, erule (1) cache_set_same, erule (1) cache_set_get(2), erule (1) cache_prune_get(1),
      rule cache_prune_get(2), simp add: cache_set_sound cache_prune_sound)

subsection \<open>Properties\<close>

definition cache_hear :: "int \<Rightarrow> string told \<Rightarrow> route_cache \<Rightarrow> route_cache" where
  "cache_hear cap t c = (case t of Told k e \<Rightarrow> cache_set cap k e c | Dropped e \<Rightarrow> cache_prune (Some e) c | All_Dropped \<Rightarrow> cache_prune None c)"

lemma cache_hear_is: "cache_hear cap = learned.hear cap"
proof (intro ext)
  show "cache_hear cap t c = learned.hear cap t c" for t c by (cases t) (simp_all add: cache_hear_def)
qed

text \<open>
  A learning router answers only what it was last told about that actor and was not told to drop since, and it never holds
  more endpoints than its maximum, whatever it is told.
\<close>

theorem router_answers_the_last_word:
  assumes "cache_get k (foldr (cache_hear cap) ts new_route_cache) = Some x"
  shows "last_word k ts = Some x \<and> int (length (rk_routes (foldr (cache_hear cap) ts new_route_cache))) \<le> cap"
proof -
  from learned.hear_sound [of cap ts] have "cache_sound cap (foldr (cache_hear cap) ts new_route_cache)" by (simp add: cache_hear_is)
  moreover from assms have "rk_routes (foldr (cache_hear cap) ts new_route_cache) \<noteq> []" by (auto simp: cache_get_def)
  ultimately have "int (length (rk_routes (foldr (cache_hear cap) ts new_route_cache))) \<le> cap" by (auto simp: cache_sound_def max_def split: if_splits)
  with learned.answers_the_last_word [where cap = cap and ts = ts and k = k and x = x] assms show ?thesis by (simp add: cache_hear_is)
qed

text \<open>Why an attempt is followed by another, and where that one goes.\<close>

definition resend_reason :: "call_init \<Rightarrow> call_failure \<Rightarrow> call_init \<Rightarrow> bool" where
  "resend_reason init f sent \<longleftrightarrow> (case actor_redirect f of
       Some h \<Rightarrow> ci_route sent = Some (rr_endpoint h)
     | None \<Rightarrow> stale_route_failure f \<and> ci_route sent = ci_route init)"

fun resends_ok :: "call_init \<Rightarrow> (call_init \<times> call_failure option) list \<Rightarrow> bool" where
  "resends_ok init ((a, oa) # (b, ob) # later) \<longleftrightarrow> (\<exists>f. oa = Some f \<and> resend_reason init f b) \<and> resends_ok init ((b, ob) # later)"
| "resends_ok init later \<longleftrightarrow> True"

definition marked :: "nat \<Rightarrow> call_init \<Rightarrow> bool" where
  "marked attempt sent \<longleftrightarrow> jget (ci_headers sent) follow_header = Some ''1'' \<and> (0 < attempt \<longrightarrow> jget (ci_headers sent) hops_header = Some (show_nat attempt))"

lemma headers_differ [simp]: "follow_header \<noteq> hops_header" "hops_header \<noteq> follow_header"
  by (simp_all add: follow_header_def hops_header_def)

lemma init_for_marked: "marked attempt (init_for init route attempt)"
  by (simp add: marked_def init_for_def Let_def)

lemma init_for_route: "ci_route (init_for init route attempt) = (case route of None \<Rightarrow> ci_route init | Some r \<Rightarrow> Some r)"
  by (simp add: init_for_def Let_def)

lemma next_route_reason:
  "next_route ops mx f ref route attempt t = (Inr route', t') \<Longrightarrow> resend_reason init f (init_for init route' n)"
  by (auto simp: next_route_def resend_reason_def init_for_route split: option.splits if_splits)

declare call_loop.simps [simp del] stream_loop.simps [simp del]

lemma call_loop_cases:
  obtains (returned) v w' where "inner w (init_for init route attempt) = (Inr v, w')"
      "call_loop ops mx inner ref init route attempt t w = ([(init_for init route attempt, None)], Inr v, t, w')"
    | (failed) f w' e t' where "inner w (init_for init route attempt) = (Inl f, w')" "next_route ops mx f ref route attempt t = (Inl e, t')"
      "call_loop ops mx inner ref init route attempt t w = ([(init_for init route attempt, Some f)], Inl e, t', w')"
    | (again) f w' route' t' later result where "inner w (init_for init route attempt) = (Inl f, w')" "next_route ops mx f ref route attempt t = (Inr route', t')"
      "call_loop ops mx inner ref init route' (Suc attempt) t' w' = (later, result)"
      "call_loop ops mx inner ref init route attempt t w = ((init_for init route attempt, Some f) # later, result)"
proof -
  obtain r w' where r: "inner w (init_for init route attempt) = (r, w')" by force
  show thesis
  proof (cases r)
    case (Inr v)
    with r returned show ?thesis by (simp add: call_loop.simps [of ops mx inner ref init route attempt])
  next
    case (Inl f)
    obtain n t' where n: "next_route ops mx f ref route attempt t = (n, t')" by force
    show ?thesis
    proof (cases n)
      case (Inl e)
      with r \<open>r = Inl f\<close> n failed show ?thesis by (simp add: call_loop.simps [of ops mx inner ref init route attempt])
    next
      case (Inr route')
      obtain later result where "call_loop ops mx inner ref init route' (Suc attempt) t' w' = (later, result)"
        by (cases "call_loop ops mx inner ref init route' (Suc attempt) t' w'") blast
      with r \<open>r = Inl f\<close> n Inr again show ?thesis by (simp add: call_loop.simps [of ops mx inner ref init route attempt])
    qed
  qed
qed

lemma call_loop_first:
  "\<exists>oc later. fst (call_loop ops mx inner ref init route attempt t w) = (init_for init route attempt, oc) # later"
  by (rule call_loop_cases [of inner w init route attempt ops mx ref t]) auto

lemma call_loop_log:
  "attempt \<le> mx \<Longrightarrow> length (fst (call_loop ops mx inner ref init route attempt t w)) \<le> Suc mx - attempt
     \<and> resends_ok init (fst (call_loop ops mx inner ref init route attempt t w))
     \<and> (\<forall>i < length (fst (call_loop ops mx inner ref init route attempt t w)). marked (attempt + i) (fst (fst (call_loop ops mx inner ref init route attempt t w) ! i)))"
proof (induction "Suc mx - attempt" arbitrary: route attempt t w rule: less_induct)
  case less
  show ?case
  proof (rule call_loop_cases [of inner w init route attempt ops mx ref t])
    fix f w' route' t' later result
    assume n: "next_route ops mx f ref route attempt t = (Inr route', t')"
      and rest: "call_loop ops mx inner ref init route' (Suc attempt) t' w' = (later, result)"
      and loop: "call_loop ops mx inner ref init route attempt t w = ((init_for init route attempt, Some f) # later, result)"
    from next_route_attempt [OF n] have lt: "attempt < mx" .
    with less.hyps [of "Suc attempt" route' t' w'] rest have ih: "length later \<le> mx - attempt" "resends_ok init later"
      "\<forall>i < length later. marked (Suc attempt + i) (fst (later ! i))" by auto
    obtain oc more where later: "later = (init_for init route' (Suc attempt), oc) # more"
      using call_loop_first [of ops mx inner ref init route' "Suc attempt" t' w'] rest by auto
    from next_route_reason [OF n] have "resends_ok init ((init_for init route attempt, Some f) # later)" using ih(2) later by simp
    moreover have "marked (attempt + i) (fst (((init_for init route attempt, Some f) # later) ! i))" if "i < Suc (length later)" for i
      using that ih(3) by (cases i) (simp_all add: init_for_marked)
    ultimately show ?thesis using ih(1) lt loop by simp
  qed (use less.prems in \<open>simp_all add: init_for_marked\<close>)
qed

text \<open>
  C27. A routed call is sent at most once more than the redirects allowed, each time marked as one that follows and with the
  number of hops so far; it is sent again only where a redirect pointed, or to the caller's own endpoint after an
  endpoint was unreachable or unwell.
\<close>

theorem routed_calls_are_bounded:
  assumes "ci_ref init = Some ref" "routed_call ops mx inner symbol init t w = (sent, result)"
  shows "length sent \<le> Suc mx \<and> resends_ok init sent \<and> (\<forall>i < length sent. marked i (fst (sent ! i)))"
proof -
  obtain route t' where "safe_resolve ops ref (route_context_of symbol False init) t = (route, t')" by force
  with assms have "sent = fst (call_loop ops mx inner ref init route 0 t' w)" by (simp add: routed_call_def)
  with call_loop_log [of 0 mx ops inner ref init route t' w] show ?thesis by simp
qed







lemma stream_loop_values:
  "fst (stream_loop ops mx inner ref init route attempt t w) = (vs, e) \<Longrightarrow> vs \<noteq> [] \<Longrightarrow> \<exists>w0 route0 n. fst (inner w0 (init_for init route0 n)) = (vs, e)"
proof (induction "Suc mx - attempt" arbitrary: route attempt t w rule: less_induct)
  case less
  obtain ws oe w' where r: "inner w (init_for init route attempt) = ((ws, oe), w')" by (metis surj_pair)
  show ?case
  proof (cases "ws = [] \<and> (\<exists>f. oe = Some f)")
    case True
    then obtain f where f: "inner w (init_for init route attempt) = (([], Some f), w')" using r by auto
    obtain n t' where n: "next_route ops mx f ref route attempt t = (n, t')" by force
    show ?thesis
    proof (cases n)
      case (Inl x)
      with less.prems f n show ?thesis by (simp add: stream_loop.simps [of ops mx inner ref init route attempt])
    next
      case (Inr route')
      with n next_route_attempt [of ops mx f ref route attempt t route' t'] have "attempt < mx" by simp
      with less.hyps [of "Suc attempt" route' t' w'] less.prems f n Inr show ?thesis
        by (simp add: stream_loop.simps [of ops mx inner ref init route attempt])
    qed
  next
    case False
    with r less.prems have "fst (inner w (init_for init route attempt)) = (vs, e)"
      by (auto simp: stream_loop.simps [of ops mx inner ref init route attempt] split: list.splits option.splits)
    then show ?thesis by blast
  qed
qed

text \<open>
  A routed stream never mixes endpoints: whatever it yields is the whole run of one inner stream, its end or its failure
  included, so no value is delivered twice however often it was redirected before the first one.
\<close>

theorem routed_stream_is_one_run:
  assumes "ci_ref init = Some ref" "fst (routed_stream ops mx inner symbol init t w) = (vs, e)" "vs \<noteq> []"
  shows "\<exists>w0 route n. fst (inner w0 (init_for init route n)) = (vs, e)"
proof -
  obtain route t' where "safe_resolve ops ref (route_context_of symbol True init) t = (route, t')" by force
  with assms have "fst (stream_loop ops mx inner ref init route 0 t' w) = (vs, e)" by (simp add: routed_stream_def)
  with assms(3) show ?thesis by (rule stream_loop_values [rotated])
qed

text \<open>
  An endpoint that runs the call and loses the reply, seen from the client as a failure without a status; the other
  endpoints reply. The world counts the runs.
\<close>

definition reply_lost :: call_failure where
  "reply_lost = \<lparr>cf_status = No_Status, cf_kind = None, cf_endpoint = None, cf_host = None\<rparr>"

definition losing_reply :: "string \<Rightarrow> nat \<Rightarrow> call_init \<Rightarrow> (call_failure + unit) \<times> nat" where
  "losing_reply e runs init = (if ci_route init = Some e then Inl reply_lost else Inr (), Suc runs)"

text \<open>
  C28. A call may run twice: when the endpoint a router learnt runs the call and its reply is lost, the failure without a status
  is taken for a dial that never landed, and the call is sent again to the default endpoint, which runs it
  once more and reports success.
\<close>

theorem lost_reply_runs_the_call_twice:
  assumes "0 < cap" "e \<noteq> []" "ci_ref init = Some ref" "ci_route init \<noteq> Some e"
    and "r = router_learn ref e (Learning_Router cap new_route_cache)"
    and "routed_call shipped_ops (Suc mx) (losing_reply e) symbol init (new_routed_transport r) 0 = (sent, answer, t', runs)"
  shows "runs = 2 \<and> answer = Inr () \<and> length sent = 2"
proof -
  let ?t = "\<lparr>rt_router = r, rt_stats = \<lparr>st_routed = 1, st_redirects = 0, st_invalidations = 0, st_router_errors = 0\<rparr>\<rparr>"
  from assms(1,5) have "router_resolve r ref = Some e" by (simp add: cache_set_get)
  with assms(2) have "safe_resolve shipped_ops ref (route_context_of symbol False init) (new_routed_transport r) = (Some e, ?t)"
    by (simp add: safe_resolve_def shipped_ops_def new_routed_transport_def)
  then have call: "routed_call shipped_ops (Suc mx) (losing_reply e) symbol init (new_routed_transport r) 0
      = call_loop shipped_ops (Suc mx) (losing_reply e) ref init (Some e) 0 ?t 0" using assms(3) by (simp add: routed_call_def)
  have first: "losing_reply e 0 (init_for init (Some e) 0) = (Inl reply_lost, 1)" by (simp add: losing_reply_def init_for_route)
  have second: "losing_reply e 1 (init_for init None 1) = (Inr (), 2)" using assms(4) by (simp add: losing_reply_def init_for_route)
  obtain t'' where "next_route shipped_ops (Suc mx) reply_lost ref (Some e) 0 ?t = (Inr None, t'')"
    by (simp add: next_route_def actor_redirect_def stale_route_failure_def reply_lost_def)
  with first second call assms(6) show ?thesis
    by (simp add: call_loop.simps [of shipped_ops "Suc mx" "losing_reply e" ref init "Some e" 0]
        call_loop.simps [of shipped_ops "Suc mx" "losing_reply e" ref init None "Suc 0"])
qed

text \<open>A redirect is remembered: the next call to that actor goes straight to where the last one was sent.\<close>

lemma followed_redirect_is_remembered:
  assumes "0 < cap" "actor_redirect f = Some h"
    and "next_route shipped_ops mx f ref route attempt (new_routed_transport (Learning_Router cap c)) = (Inr route', t')"
  shows "route' = Some (rr_endpoint h) \<and> router_resolve (rt_router t') ref = Some (rr_endpoint h)"
  using assms by (auto simp: next_route_def quietly_def shipped_ops_def new_routed_transport_def cache_set_get split: if_splits)

subsection \<open>Witnesses\<close>

definition demo_ref :: actor_ref where "demo_ref = \<lparr>ref_type = ''Cart'', ref_key = ''1''\<rparr>"

definition demo_init :: call_init where
  "demo_init = \<lparr>ci_ref = Some demo_ref, ci_route = None, ci_endpoint = Some ''/a'', ci_headers = []\<rparr>"

theorem router_answers_the_last_word_witness:
  "last_word ''x'' [Told ''y'' ''/b'', Told ''x'' ''/a''] = Some ''/a''"
proof -
  have "cache_get ''x'' (foldr (cache_hear 2) [Told ''y'' ''/b'', Told ''x'' ''/a''] new_route_cache) = Some ''/a''"
    by (simp add: cache_hear_def cache_set_def cache_get_def new_route_cache_def jhas_def)
  from router_answers_the_last_word [OF this] show ?thesis by blast
qed

theorem routed_calls_are_bounded_witness:
  "length (fst (routed_call shipped_ops 2 (losing_reply ''/b'') ''Cart#add'' demo_init
     (new_routed_transport (router_learn demo_ref ''/b'' (Learning_Router 5 new_route_cache))) 0)) \<le> 3"
proof -
  obtain sent result where r: "routed_call shipped_ops 2 (losing_reply ''/b'') ''Cart#add'' demo_init
     (new_routed_transport (router_learn demo_ref ''/b'' (Learning_Router 5 new_route_cache))) 0 = (sent, result)" by (metis surj_pair)
  have "ci_ref demo_init = Some demo_ref" by (simp add: demo_init_def)
  from routed_calls_are_bounded [OF this r] r show ?thesis by simp
qed



theorem routed_stream_is_one_run_witness:
  "fst (routed_stream shipped_ops 2 (\<lambda>w i. (([7::nat], None), w)) ''Cart#watch'' demo_init (new_routed_transport (Static_Router (Some ''/far''))) ()) = ([7], None)
     \<and> (\<exists>w0 :: unit. (\<lambda>w i. (([7::nat], None), w)) w0 demo_init = (([7], None), w0))"
proof -
  have ref: "ci_ref demo_init = Some demo_ref" by (simp add: demo_init_def)
  have run: "fst (routed_stream shipped_ops 2 (\<lambda>w i. (([7::nat], None), w)) ''Cart#watch'' demo_init (new_routed_transport (Static_Router (Some ''/far''))) ()) = ([7], None)"
    by (simp add: routed_stream_def ref stream_loop.simps split: prod.splits)
  from routed_stream_is_one_run [OF ref this] run show ?thesis by simp
qed

theorem lost_reply_runs_the_call_twice_witness:
  "snd (snd (snd (routed_call shipped_ops (Suc 1) (losing_reply ''/b'') ''Cart#add'' demo_init
     (new_routed_transport (router_learn demo_ref ''/b'' (Learning_Router 5 new_route_cache))) 0))) = 2"
proof -
  obtain sent answer t' runs where r: "routed_call shipped_ops (Suc 1) (losing_reply ''/b'') ''Cart#add'' demo_init
     (new_routed_transport (router_learn demo_ref ''/b'' (Learning_Router 5 new_route_cache))) 0 = (sent, answer, t', runs)" by (metis surj_pair)
  have "ci_ref demo_init = Some demo_ref" "ci_route demo_init \<noteq> Some ''/b''" by (simp_all add: demo_init_def)
  from lost_reply_runs_the_call_twice [OF _ _ this refl r] r show ?thesis by simp
qed

end
