(* ===== verification/Workflow_Log.thy ===== *)
theory Workflow_Log
  imports Complex_Main Envelope
begin

section \<open>Workflow definitions and the log of a run\<close>

text \<open>
  \<open>types.ts\<close> and \<open>log.ts\<close> of the workflow package, and the pure functions of its \<open>run.ts\<close>: definitions as data, the entries of a
  run and the reducer that folds them, substitution, comparison and backoff. A variable's name is not one every
  JavaScript object inherits; numbers are integers.
\<close>

subsection \<open>Definitions\<close>

record retry_policy =
  rp_attempts :: nat
  rp_backoff :: nat
  rp_max_backoff :: "nat option"

record task_node =
  tn_handler :: string
  tn_input :: "json option"
  tn_assign :: "string option"
  tn_retry :: "retry_policy option"
  tn_next :: "string option"

datatype compare_op = Op_Eq | Op_Ne | Op_Lt | Op_Lte | Op_Gt | Op_Gte | Op_Exists

datatype run_status = Running_Run | Sleeping_Run | Completed_Run | Failed_Run

datatype end_status = Completed | Failed

fun ended_run :: "end_status \<Rightarrow> run_status" where
  "ended_run Completed = Completed_Run"
| "ended_run Failed = Failed_Run"

datatype wf_node =
    Task_Node task_node
  | Delay_Node int "string option"
  | Branch_Node string compare_op "json option" string "string option"
  | End_Node "end_status option" "string option"

record workflow =
  wf_name :: string
  wf_version :: nat
  wf_start :: string
  wf_nodes :: "(string, wf_node) jmap"

text \<open>\<open>byKey\<close>, where a later definition of the same name and version replaces an earlier one, and \<open>latest\<close>.\<close>

definition by_key :: "workflow list \<Rightarrow> string \<Rightarrow> nat \<Rightarrow> workflow option" where
  "by_key defs name v = List.find (\<lambda>d. wf_name d = name \<and> wf_version d = v) (rev defs)"

definition latest_version :: "workflow list \<Rightarrow> string \<Rightarrow> nat option" where
  "latest_version defs name = fold (\<lambda>d seen. if wf_name d = name then
       (case seen of None \<Rightarrow> Some (wf_version d) | Some s \<Rightarrow> if s < wf_version d then Some (wf_version d) else seen) else seen) defs None"

subsection \<open>The reducer\<close>

record wake =
  wk_until :: int
  wk_seq :: nat
  wk_durable :: bool
  wk_after :: "string option"

record run_state =
  rs_def :: string
  rs_version :: nat
  rs_status :: run_status
  rs_cursor :: string
  rs_vars :: "(string, json) jmap"
  rs_started :: int
  rs_ended :: "int option"
  rs_error :: "string option"
  rs_transitions :: nat
  rs_attempt :: nat
  rs_wake :: "wake option"
  rs_seq :: nat

definition empty_run :: run_state where
  "empty_run = \<lparr>rs_def = [], rs_version = 0, rs_status = Running_Run, rs_cursor = [], rs_vars = [], rs_started = 0, rs_ended = None,
     rs_error = None, rs_transitions = 0, rs_attempt = 0, rs_wake = None, rs_seq = 0\<rparr>"

text \<open>An entry as it is read back; \<open>Strange_Entry\<close> is one this build does not know, and the two fields the reducer guards are any JSON.\<close>

datatype run_entry =
    Start_Entry string nat int json
  | Move_Entry string nat
  | Vars_Entry json
  | Attempt_Entry string nat
  | Sleep_Entry int nat bool "string option"
  | Wake_Entry nat
  | End_Entry end_status int "string option"
  | Strange_Entry

definition as_record :: "json \<Rightarrow> (string, json) jmap option" where
  "as_record v = (case v of JObj m \<Rightarrow> Some m | _ \<Rightarrow> None)"

definition assign_vars :: "(string, json) jmap \<Rightarrow> (string, json) jmap \<Rightarrow> (string, json) jmap" where
  "assign_vars vars new = fold (\<lambda>(k, v) m. jset m k v) new vars"

fun apply_run_entry :: "run_entry \<Rightarrow> run_state \<Rightarrow> run_state" where
  "apply_run_entry (Start_Entry name v at' vars) s =
     s\<lparr>rs_def := name, rs_version := v, rs_started := at', rs_vars := (case as_record vars of Some m \<Rightarrow> m | None \<Rightarrow> []), rs_status := Running_Run\<rparr>"
| "apply_run_entry (Move_Entry dest seq) s =
     s\<lparr>rs_cursor := dest, rs_seq := seq, rs_transitions := Suc (rs_transitions s), rs_attempt := 0, rs_wake := None, rs_status := Running_Run\<rparr>"
| "apply_run_entry (Vars_Entry new) s = (case as_record new of Some m \<Rightarrow> s\<lparr>rs_vars := assign_vars (rs_vars s) m\<rparr> | None \<Rightarrow> s)"
| "apply_run_entry (Attempt_Entry node n) s = s\<lparr>rs_attempt := n\<rparr>"
| "apply_run_entry (Sleep_Entry until seq durable after) s =
     s\<lparr>rs_status := Sleeping_Run, rs_seq := seq, rs_wake := Some \<lparr>wk_until = until, wk_seq = seq, wk_durable = durable, wk_after = after\<rparr>\<rparr>"
| "apply_run_entry (Wake_Entry seq) s =
     (case rs_wake s of Some w \<Rightarrow> if wk_seq w = seq then s\<lparr>rs_wake := None, rs_status := Running_Run\<rparr> else s | None \<Rightarrow> s)"
| "apply_run_entry (End_Entry status at' err) s =
     s\<lparr>rs_status := ended_run status, rs_ended := Some at', rs_wake := None, rs_error := (case err of Some e \<Rightarrow> Some e | None \<Rightarrow> rs_error s)\<rparr>"
| "apply_run_entry Strange_Entry s = s"

definition replay :: "run_entry list \<Rightarrow> run_state \<Rightarrow> run_state" where
  "replay es s = fold apply_run_entry es s"

lemma replay_simps [simp]: "replay [] s = s" "replay (e # es) s = replay es (apply_run_entry e s)"
  "replay (es @ fs) s = replay fs (replay es s)"
  by (simp_all add: replay_def)

definition finished :: "run_state \<Rightarrow> bool" where
  "finished s \<longleftrightarrow> rs_status s = Completed_Run \<or> rs_status s = Failed_Run"

subsection \<open>Substitution\<close>

text \<open>\<open>${name}\<close> at the head of a string, its name and what follows; a name is not empty and has no closing brace.\<close>

definition placeholder :: "string \<Rightarrow> (string \<times> string) option" where
  "placeholder s = (if take 2 s = ''${'' then (case index_of (CHR ''}'') (drop 2 s) of
        Some (Suc i) \<Rightarrow> Some (take (Suc i) (drop 2 s), drop (Suc (Suc i)) (drop 2 s)) | _ \<Rightarrow> None) else None)"

text \<open>\<open>String(v)\<close>; inside an array a null is empty.\<close>

fun js_string :: "json \<Rightarrow> string" where
  "js_string JNull = ''null''"
| "js_string (JBool b) = (if b then ''true'' else ''false'')"
| "js_string (JNum n) = show_int n"
| "js_string (JStr s) = s"
| "js_string (JArr vs) = join_with (CHR '','') (map (\<lambda>v. if v = JNull then [] else js_string v) vs)"
| "js_string (JObj m) = ''[object Object]''"

definition var_text :: "(string, json) jmap \<Rightarrow> string \<Rightarrow> string" where
  "var_text vars name = (case jget vars name of None \<Rightarrow> [] | Some JNull \<Rightarrow> [] | Some v \<Rightarrow> js_string v)"

lemma placeholder_shorter: "placeholder s = Some (name, rest) \<Longrightarrow> length rest < length s"
  by (auto simp: placeholder_def split: if_splits option.splits nat.splits dest!: index_of_SomeD)

function expand :: "(string, json) jmap \<Rightarrow> string \<Rightarrow> string" where
  "expand vars [] = []"
| "expand vars (c # s) = (case placeholder (c # s) of
       Some (name, rest) \<Rightarrow> var_text vars name @ expand vars rest
     | None \<Rightarrow> c # expand vars s)"
  by pat_completeness auto
termination
  by (relation "measure (\<lambda>(vars, s). length s)") (auto dest: placeholder_shorter)

fun substitute_in :: "(string, json) jmap \<Rightarrow> json \<Rightarrow> json" where
  "substitute_in vars (JStr s) = (case placeholder s of
       Some (name, []) \<Rightarrow> (case jget vars name of Some v \<Rightarrow> v | None \<Rightarrow> JNull)
     | _ \<Rightarrow> JStr (expand vars s))"
| "substitute_in vars (JArr vs) = JArr (map (substitute_in vars) vs)"
| "substitute_in vars (JObj m) = JObj (map (\<lambda>(k, v). (k, substitute_in vars v)) m)"
| "substitute_in vars v = v"

definition substitute :: "json option \<Rightarrow> (string, json) jmap \<Rightarrow> json" where
  "substitute input vars = (case input of None \<Rightarrow> JNull | Some v \<Rightarrow> substitute_in vars v)"

subsection \<open>Comparison and backoff\<close>

text \<open>\<open>===\<close> of two values that do not share an object; \<open>None\<close> is \<open>undefined\<close>.\<close>

fun strictly_equal :: "json option \<Rightarrow> json option \<Rightarrow> bool" where
  "strictly_equal (Some (JArr vs)) y = False"
| "strictly_equal (Some (JObj m)) y = False"
| "strictly_equal x y = (x = y)"

fun compare_vars :: "json option \<Rightarrow> compare_op \<Rightarrow> json option \<Rightarrow> bool" where
  "compare_vars l Op_Exists r = (l \<noteq> None \<and> l \<noteq> Some JNull)"
| "compare_vars l Op_Eq r = strictly_equal l r"
| "compare_vars l Op_Ne r = (\<not> strictly_equal l r)"
| "compare_vars (Some (JNum a)) Op_Lt (Some (JNum b)) = (a < b)"
| "compare_vars (Some (JNum a)) Op_Lte (Some (JNum b)) = (a \<le> b)"
| "compare_vars (Some (JNum a)) Op_Gt (Some (JNum b)) = (a > b)"
| "compare_vars (Some (JNum a)) Op_Gte (Some (JNum b)) = (a \<ge> b)"
| "compare_vars _ _ _ = False"

text \<open>\<open>draw\<close> is \<open>Math.random()\<close>.\<close>

definition backoff :: "rat \<Rightarrow> nat \<Rightarrow> nat \<Rightarrow> nat \<Rightarrow> nat" where
  "backoff draw attempt base mx = nat \<lfloor>draw * of_nat (min (base * 2 ^ (attempt - 1)) mx)\<rfloor>"

subsection \<open>Lemmas\<close>

lemma finished_simps [simp]:
  "finished (s\<lparr>rs_cursor := c\<rparr>) = finished s" "finished (s\<lparr>rs_vars := vs\<rparr>) = finished s" "finished (s\<lparr>rs_attempt := n\<rparr>) = finished s"
  by (simp_all add: finished_def)

lemma ended_status [simp]: "ended_run st \<noteq> Running_Run" "ended_run st \<noteq> Sleeping_Run" "finished (s\<lparr>rs_status := ended_run st\<rparr>)"
  by (cases st; simp add: finished_def)+

lemma backoff_bounded: "0 \<le> draw \<Longrightarrow> draw < 1 \<Longrightarrow> backoff draw n base mx \<le> min (base * 2 ^ (n - 1)) mx"
proof -
  assume d: "0 \<le> draw" "draw < 1"
  let ?w = "of_nat (min (base * 2 ^ (n - 1)) mx) :: rat"
  have "draw * ?w \<le> ?w" using d mult_right_mono [of draw 1 ?w] by simp
  then have "\<lfloor>draw * ?w\<rfloor> \<le> int (min (base * 2 ^ (n - 1)) mx)" by (metis floor_mono floor_of_nat)
  then show ?thesis unfolding backoff_def nat_le_iff .
qed

text \<open>A reference alone keeps the type of its variable, and a text without one is itself.\<close>

lemma substitute_reference:
  assumes "name \<noteq> []" "CHR ''}'' \<notin> set name"
  shows "substitute_in vars (JStr (''${'' @ name @ ''}'')) = (case jget vars name of Some v \<Rightarrow> v | None \<Rightarrow> JNull)"
proof -
  from assms(1) obtain i where i: "length name = Suc i" by (cases name) auto
  have "placeholder (''${'' @ name @ ''}'') = Some (name, [])"
    using index_of_append [OF assms(2), of "[]"] i by (simp add: placeholder_def)
  then show ?thesis by simp
qed

lemma expand_plain: "CHR ''$'' \<notin> set s \<Longrightarrow> expand vars s = s"
  by (induction s) (auto simp: placeholder_def)

end
