(* ===== verification/Workflow_Run.thy ===== *)
theory Workflow_Run
  imports Workflow_Log Machines
begin

section \<open>The engine of a workflow run\<close>

text \<open>
  \<open>run.ts\<close> of the workflow package: one actor per run, driven by calls, timers and a reminder. The state is that of the live
  activation beside what is recorded, with the writes in flight. A turn is cut at its awaits; at most one turn
  is under way, and beside it the recovery steps that \<open>nudge\<close> starts and nobody awaits. Entries are applied to the
  live state at once and written in that order (the save gate of the activation), to a storage that can append. An \<open>Activated\<close> event is the next
  activation after a deactivation or the death of the host: it finds what was recorded. Clock readings, draws of
  \<open>Math.random()\<close>, what handlers return and how each call of the storage and the reminders ends are inputs.
\<close>

subsection \<open>State\<close>

record wf_config =
  wf_defs :: "workflow list"
  wf_threshold :: int
  wf_handles :: "string \<Rightarrow> bool"

datatype wf_next = After_Start string | After_Move | After_Wake "string option" | After_Sleep nat int bool
  | After_Attempt string nat task_node | After_Vars "string option" | After_End | After_Save

datatype wf_write = Append_Entry run_entry | Save_State

text \<open>A write in flight: what its thread does next, whether the thread is the turn, and the try block of \<open>runTask\<close> around it.\<close>

record pending_write =
  pw_write :: wf_write
  pw_then :: wf_next
  pw_turn :: bool
  pw_task :: "(string \<times> nat \<times> task_node) option"

datatype turn_state = Free | Writing | Handling string nat task_node | Arming int

record wf_run =
  wr_live :: run_state
  wr_snap :: "run_state option"
  wr_log :: "run_entry list"
  wr_queue :: "pending_write list"
  wr_turn :: turn_state
  wr_armed :: "nat option"
  wr_timer :: "(nat \<times> int) option"
  wr_advance :: bool
  wr_reminder :: "int option"
  wr_leaving :: bool
  wr_calls :: "(string \<times> nat \<times> nat \<times> json) list"
  wr_failed :: bool
  wr_unset :: bool

definition new_run :: wf_run where
  "new_run = \<lparr>wr_live = empty_run, wr_snap = None, wr_log = [], wr_queue = [], wr_turn = Free, wr_armed = None, wr_timer = None,
     wr_advance = False, wr_reminder = None, wr_leaving = False, wr_calls = [], wr_failed = False, wr_unset = False\<rparr>"

text \<open>What the next activation reads: the snapshot and the entries appended to it.\<close>

definition recorded :: "wf_run \<Rightarrow> run_state" where
  "recorded w = replay (wr_log w) (case wr_snap w of None \<Rightarrow> empty_run | Some s \<Rightarrow> s)"

record run_info =
  ri_definition :: string
  ri_version :: nat
  ri_status :: run_status
  ri_cursor :: string
  ri_vars :: "(string, json) jmap"
  ri_started :: int
  ri_transitions :: nat
  ri_ended :: "int option"
  ri_error :: "string option"

definition info_of :: "run_state \<Rightarrow> run_info" where
  "info_of s = \<lparr>ri_definition = rs_def s, ri_version = rs_version s, ri_status = rs_status s, ri_cursor = rs_cursor s, ri_vars = rs_vars s,
     ri_started = rs_started s, ri_transitions = rs_transitions s, ri_ended = rs_ended s, ri_error = rs_error s\<rparr>"

subsection \<open>The pieces of the engine\<close>

text \<open>\<open>ctx.append\<close>: the reducer first, then the write; \<open>tn\<close> is whether the thread is the turn, \<open>tk\<close> the try block around it.\<close>

definition write_entry :: "run_entry \<Rightarrow> wf_next \<Rightarrow> bool \<Rightarrow> (string \<times> nat \<times> task_node) option \<Rightarrow> wf_run \<Rightarrow> wf_run" where
  "write_entry e next tn tk w = w\<lparr>wr_live := apply_run_entry e (wr_live w),
     wr_queue := wr_queue w @ [\<lparr>pw_write = Append_Entry e, pw_then = next, pw_turn = tn, pw_task = tk\<rparr>],
     wr_turn := (if tn then Writing else wr_turn w)\<rparr>"

definition end_thread :: "bool \<Rightarrow> wf_run \<Rightarrow> wf_run" where
  "end_thread tn w = (if tn then w\<lparr>wr_turn := Free\<rparr> else w)"

definition arm_advance :: "wf_run \<Rightarrow> wf_run" where
  "arm_advance w = w\<lparr>wr_advance := True\<rparr>"

definition clear_wake :: "wf_run \<Rightarrow> wf_run" where
  "clear_wake w = w\<lparr>wr_timer := None\<rparr>"

definition finish_run :: "end_status \<Rightarrow> string option \<Rightarrow> bool \<Rightarrow> (string \<times> nat \<times> task_node) option \<Rightarrow> int \<Rightarrow> wf_run \<Rightarrow> wf_run" where
  "finish_run status err tn tk now w = write_entry (End_Entry status now err) After_End tn tk (clear_wake w)"

definition move_to :: "string option \<Rightarrow> bool \<Rightarrow> (string \<times> nat \<times> task_node) option \<Rightarrow> int \<Rightarrow> wf_run \<Rightarrow> wf_run" where
  "move_to next tn tk now w = (case next of
       Some (c # n) \<Rightarrow> write_entry (Move_Entry (c # n) (rs_seq (wr_live w))) After_Move tn tk (clear_wake w)
     | _ \<Rightarrow> finish_run Completed None tn tk now w)"

definition go_to_sleep :: "wf_config \<Rightarrow> int \<Rightarrow> string option \<Rightarrow> int \<Rightarrow> wf_run \<Rightarrow> wf_run" where
  "go_to_sleep cfg ms after now w =
     (let seq = Suc (rs_seq (wr_live w)); until = now + ms; durable = (wf_threshold cfg \<le> ms)
      in write_entry (Sleep_Entry until seq durable after) (After_Sleep seq until durable) True None w)"

text \<open>The fence: a wake whose token is not the current one does nothing.\<close>

definition wake_run :: "nat \<Rightarrow> bool \<Rightarrow> wf_run \<Rightarrow> wf_run" where
  "wake_run seq tn w = (case rs_wake (wr_live w) of
       Some k \<Rightarrow> if wk_seq k \<noteq> seq then w
                 else write_entry (Wake_Entry seq) (After_Wake (wk_after k)) tn None (clear_wake w)
     | None \<Rightarrow> w)"

text \<open>\<open>nudge\<close>; \<open>set_ok\<close> is how the reminder call it does not await ends.\<close>

definition nudge :: "int \<Rightarrow> bool \<Rightarrow> wf_run \<Rightarrow> wf_run" where
  "nudge now set_ok w =
     (let s = wr_live w in
      if finished s then w
      else case rs_wake s of
          None \<Rightarrow> arm_advance w
        | Some k \<Rightarrow>
            if wk_until k - now \<le> 0 then wake_run (wk_seq k) False w
            else if wr_armed w = Some (wk_seq k) then w
            else if wk_durable k
            then w\<lparr>wr_armed := Some (wk_seq k), wr_leaving := True,
                   wr_reminder := (if set_ok then Some (wk_until k) else wr_reminder w), wr_unset := (wr_unset w \<or> \<not> set_ok)\<rparr>
            else (clear_wake w)\<lparr>wr_armed := Some (wk_seq k), wr_timer := Some (wk_seq k, wk_until k)\<rparr>)"

definition pinned :: "wf_config \<Rightarrow> run_state \<Rightarrow> workflow option" where
  "pinned cfg s = by_key (wf_defs cfg) (rs_def s) (rs_version s)"

definition no_handler :: "task_node \<Rightarrow> string" where
  "no_handler t = ''no handler registered for '' @ CHR 0x27 # tn_handler t @ [CHR 0x27]"

definition no_node :: "workflow \<Rightarrow> run_state \<Rightarrow> string" where
  "no_node d s = ''no node '' @ CHR 0x27 # rs_cursor s @ CHR 0x27 # '' in '' @ wf_name d @ CHR ''@'' # show_nat (wf_version d)"

definition run_task :: "wf_config \<Rightarrow> string \<Rightarrow> task_node \<Rightarrow> int \<Rightarrow> wf_run \<Rightarrow> wf_run" where
  "run_task cfg node t now w =
     (if \<not> wf_handles cfg (tn_handler t) then finish_run Failed (Some (no_handler t)) True None now w
      else let n = Suc (rs_attempt (wr_live w)) in write_entry (Attempt_Entry node n) (After_Attempt node n t) True None w)"

definition next_or_end :: "string option \<Rightarrow> string" where
  "next_or_end next = (case next of Some n \<Rightarrow> n | None \<Rightarrow> [])"

text \<open>One node per turn. A run pinned to a definition this deploy does not carry throws.\<close>

definition advance :: "wf_config \<Rightarrow> int \<Rightarrow> wf_run \<Rightarrow> wf_run" where
  "advance cfg now w =
     (let s = wr_live w in
      if rs_status s \<noteq> Running_Run then w
      else case pinned cfg s of
          None \<Rightarrow> w
        | Some d \<Rightarrow> (case jget (wf_nodes d) (rs_cursor s) of
              None \<Rightarrow> finish_run Failed (Some (no_node d s)) True None now w
            | Some (Task_Node t) \<Rightarrow> run_task cfg (rs_cursor s) t now w
            | Some (Delay_Node ms next) \<Rightarrow> go_to_sleep cfg ms (Some (next_or_end next)) now w
            | Some (Branch_Node v op val th el) \<Rightarrow>
                move_to (if compare_vars (jget (rs_vars s) v) op val then Some th else el) True None now w
            | Some (End_Node st reason) \<Rightarrow>
                finish_run (case st of Some x \<Rightarrow> x | None \<Rightarrow> Completed) reason True None now w))"

text \<open>The catch block of \<open>runTask\<close>.\<close>

definition catch_task :: "wf_config \<Rightarrow> nat \<Rightarrow> task_node \<Rightarrow> string \<Rightarrow> rat \<Rightarrow> int \<Rightarrow> wf_run \<Rightarrow> wf_run" where
  "catch_task cfg n t msg draw now w =
     (let attempts = (case tn_retry t of Some r \<Rightarrow> rp_attempts r | None \<Rightarrow> 1) in
      if attempts \<le> n then finish_run Failed (Some msg) True None now w
      else case tn_retry t of
          Some r \<Rightarrow> go_to_sleep cfg (int (backoff draw n (rp_backoff r) (case rp_max_backoff r of Some m \<Rightarrow> m | None \<Rightarrow> 30000))) None now w
        | None \<Rightarrow> end_thread True w)"

text \<open>What a thread does when its write has landed.\<close>

fun resume_thread :: "wf_next \<Rightarrow> bool \<Rightarrow> (string \<times> nat \<times> task_node) option \<Rightarrow> int \<Rightarrow> wf_run \<Rightarrow> wf_run" where
  "resume_thread (After_Start start) tn tk now w = write_entry (Move_Entry start (rs_seq (wr_live w))) After_Move tn tk w"
| "resume_thread After_Move tn tk now w = end_thread tn (arm_advance w)"
| "resume_thread (After_Wake after) tn tk now w =
     (case after of Some n \<Rightarrow> move_to (Some n) tn tk now w | None \<Rightarrow> end_thread tn (arm_advance w))"
| "resume_thread (After_Sleep seq until durable) tn tk now w =
     (let w = (clear_wake w)\<lparr>wr_armed := Some seq\<rparr>
      in if durable then w\<lparr>wr_turn := Arming until\<rparr> else end_thread tn (w\<lparr>wr_timer := Some (seq, until)\<rparr>))"
| "resume_thread (After_Attempt node n t) tn tk now w =
     w\<lparr>wr_calls := wr_calls w @ [(node, rs_transitions (wr_live w), n, substitute (tn_input t) (rs_vars (wr_live w)))], wr_turn := Handling node n t\<rparr>"
| "resume_thread (After_Vars next) tn tk now w = move_to next tn tk now w"
| "resume_thread After_End tn tk now w =
     w\<lparr>wr_queue := wr_queue w @ [\<lparr>pw_write = Save_State, pw_then = After_Save, pw_turn = tn, pw_task = tk\<rparr>]\<rparr>"
| "resume_thread After_Save tn tk now w = end_thread tn w"

definition record_write :: "wf_write \<Rightarrow> wf_run \<Rightarrow> wf_run" where
  "record_write wr w = (case wr of
       Append_Entry e \<Rightarrow> (case wr_snap w of None \<Rightarrow> w\<lparr>wr_snap := Some (wr_live w)\<rparr> | Some s \<Rightarrow> w\<lparr>wr_log := wr_log w @ [e]\<rparr>)
     | Save_State \<Rightarrow> w\<lparr>wr_snap := Some (wr_live w), wr_log := []\<rparr>)"

definition wf_write_lands :: "int \<Rightarrow> wf_run \<Rightarrow> wf_run" where
  "wf_write_lands now w = (case wr_queue w of [] \<Rightarrow> w
     | p # ps \<Rightarrow> resume_thread (pw_then p) (pw_turn p) (pw_task p) now (record_write (pw_write p) (w\<lparr>wr_queue := ps\<rparr>)))"

text \<open>A write that fails throws in its thread: into the catch block, out of the turn, or to nobody.\<close>

definition wf_write_fails :: "wf_config \<Rightarrow> string \<Rightarrow> rat \<Rightarrow> int \<Rightarrow> wf_run \<Rightarrow> wf_run" where
  "wf_write_fails cfg msg draw now w = (case wr_queue w of [] \<Rightarrow> w
     | p # ps \<Rightarrow> let w = w\<lparr>wr_queue := ps, wr_failed := True\<rparr>
         in case pw_task p of Some (node, n, t) \<Rightarrow> catch_task cfg n t msg draw now w | None \<Rightarrow> end_thread (pw_turn p) w)"

definition handler_returns :: "json \<Rightarrow> int \<Rightarrow> wf_run \<Rightarrow> wf_run" where
  "handler_returns out now w = (case wr_turn w of
       Handling node n t \<Rightarrow> (case tn_assign t of
           Some (c # v) \<Rightarrow> write_entry (Vars_Entry (JObj [(c # v, out)])) (After_Vars (tn_next t)) True (Some (node, n, t)) w
         | _ \<Rightarrow> move_to (tn_next t) True (Some (node, n, t)) now w)
     | _ \<Rightarrow> w)"

definition handler_throws :: "wf_config \<Rightarrow> string \<Rightarrow> rat \<Rightarrow> int \<Rightarrow> wf_run \<Rightarrow> wf_run" where
  "handler_throws cfg msg draw now w = (case wr_turn w of Handling node n t \<Rightarrow> catch_task cfg n t msg draw now w | _ \<Rightarrow> w)"

definition begin_run :: "wf_config \<Rightarrow> string \<Rightarrow> json \<Rightarrow> nat option \<Rightarrow> int \<Rightarrow> wf_run \<Rightarrow> wf_run" where
  "begin_run cfg name vars version now w =
     (let s = wr_live w in
      if rs_status s \<noteq> Running_Run \<or> rs_cursor s \<noteq> [] then w
      else case (case version of Some v \<Rightarrow> Some v | None \<Rightarrow> latest_version (wf_defs cfg) name) of
          None \<Rightarrow> w
        | Some v \<Rightarrow> (case by_key (wf_defs cfg) name v of None \<Rightarrow> w
            | Some d \<Rightarrow> write_entry (Start_Entry name v now vars) (After_Start (wf_start d)) True None w))"

subsection \<open>Events\<close>

datatype wf_event = Start_Call string json "nat option" int | Status_Call int bool | Advance_Tick int | Wake_Tick int
  | Reminder_Tick int bool | Reminder_Lost | Write_Lands int | Write_Fails string rat int | Handler_Returns json int
  | Handler_Throws string rat int | Reminder_Set | Reminder_Refused | Activated int bool

text \<open>A reminder or timer fires when it is due, and the reminder is consumed by firing.\<close>

fun wf_does :: "wf_config \<Rightarrow> wf_event \<Rightarrow> wf_run \<Rightarrow> wf_run" where
  "wf_does cfg (Start_Call name vars version now) w = (if wr_turn w = Free then begin_run cfg name vars version now w else w)"
| "wf_does cfg (Status_Call now set_ok) w = (if wr_turn w = Free then nudge now set_ok w else w)"
| "wf_does cfg (Advance_Tick now) w = (if wr_turn w = Free \<and> wr_advance w then advance cfg now (w\<lparr>wr_advance := False\<rparr>) else w)"
| "wf_does cfg (Wake_Tick now) w = (case wr_timer w of
       Some (seq, due) \<Rightarrow> if wr_turn w = Free \<and> due \<le> now then wake_run seq True (w\<lparr>wr_timer := None\<rparr>) else w
     | None \<Rightarrow> w)"
| "wf_does cfg (Reminder_Tick now set_ok) w = (case wr_reminder w of
       Some due \<Rightarrow>
         if wr_turn w = Free \<and> due \<le> now
         then let w = w\<lparr>wr_reminder := None\<rparr>
              in case rs_wake (wr_live w) of Some k \<Rightarrow> wake_run (wk_seq k) True w | None \<Rightarrow> nudge now set_ok w
         else w
     | None \<Rightarrow> w)"
| "wf_does cfg Reminder_Lost w = w\<lparr>wr_reminder := None, wr_unset := True\<rparr>"
| "wf_does cfg (Write_Lands now) w = wf_write_lands now w"
| "wf_does cfg (Write_Fails msg draw now) w = wf_write_fails cfg msg draw now w"
| "wf_does cfg (Handler_Returns out now) w = handler_returns out now w"
| "wf_does cfg (Handler_Throws msg draw now) w = handler_throws cfg msg draw now w"
| "wf_does cfg Reminder_Set w = (case wr_turn w of
       Arming until \<Rightarrow> w\<lparr>wr_turn := Free, wr_leaving := True, wr_reminder := Some until\<rparr> | _ \<Rightarrow> w)"
| "wf_does cfg Reminder_Refused w = (case wr_turn w of Arming until \<Rightarrow> w\<lparr>wr_turn := Free, wr_unset := True\<rparr> | _ \<Rightarrow> w)"
| "wf_does cfg (Activated now set_ok) w =
     nudge now set_ok (w\<lparr>wr_live := recorded w, wr_queue := [], wr_turn := Free, wr_armed := None, wr_timer := None, wr_advance := False, wr_leaving := False\<rparr>)"

inductive wf_step :: "wf_config \<Rightarrow> wf_run \<Rightarrow> wf_run \<Rightarrow> bool" for cfg where
  does: "wf_step cfg w (wf_does cfg ev w)"

inductive_cases wf_stepE: "wf_step cfg w w'"

definition wf_begin :: "wf_run \<Rightarrow> bool" where
  "wf_begin w \<longleftrightarrow> w = new_run"

subsection \<open>The invariant\<close>

definition node_at :: "wf_config \<Rightarrow> run_state \<Rightarrow> wf_node option" where
  "node_at cfg s = (case pinned cfg s of None \<Rightarrow> None | Some d \<Rightarrow> jget (wf_nodes d) (rs_cursor s))"

text \<open>No node is named by the empty string, which stands for not started.\<close>

definition nodes_named :: "wf_config \<Rightarrow> bool" where
  "nodes_named cfg \<longleftrightarrow> (\<forall>d \<in> set (wf_defs cfg). jget (wf_nodes d) [] = None)"

text \<open>A pending wake belongs to the node at the cursor: a delay moves on after it, a task is entered again.\<close>

definition after_fits :: "wf_config \<Rightarrow> run_state \<Rightarrow> string option \<Rightarrow> bool" where
  "after_fits cfg s after \<longleftrightarrow> (case after of
       None \<Rightarrow> (\<exists>t. node_at cfg s = Some (Task_Node t))
     | Some n \<Rightarrow> (\<exists>ms next. node_at cfg s = Some (Delay_Node ms next) \<and> n = next_or_end next))"

definition fits :: "wf_config \<Rightarrow> run_state \<Rightarrow> bool" where
  "fits cfg s \<longleftrightarrow> (case rs_wake s of
       None \<Rightarrow> rs_status s \<noteq> Sleeping_Run
     | Some k \<Rightarrow> rs_status s = Sleeping_Run \<and> wk_seq k = rs_seq s \<and> after_fits cfg s (wk_after k))"

text \<open>
  The states the recorded run will pass through as the entries in flight land, each entry made in a run that is not over, an
  attempt with the next number.
\<close>

fun entry_counted :: "run_entry \<Rightarrow> run_state \<Rightarrow> bool" where
  "entry_counted (Attempt_Entry node n) s \<longleftrightarrow> n = Suc (rs_attempt s)"
| "entry_counted _ s \<longleftrightarrow> True"

fun entries_fit :: "wf_config \<Rightarrow> run_entry list \<Rightarrow> run_state \<Rightarrow> bool" where
  "entries_fit cfg [] s \<longleftrightarrow> fits cfg s"
| "entries_fit cfg (e # es) s \<longleftrightarrow> fits cfg s \<and> \<not> finished s \<and> entry_counted e s \<and> entries_fit cfg es (apply_run_entry e s)"

lemma entries_fit_snoc:
  "entries_fit cfg (es @ [e]) s \<longleftrightarrow> entries_fit cfg es s \<and> \<not> finished (replay es s) \<and> entry_counted e (replay es s) \<and> fits cfg (apply_run_entry e (replay es s))"
  by (induction es arbitrary: s) auto

lemma entries_fit_last: "entries_fit cfg es s \<Longrightarrow> fits cfg (replay es s)"
  by (induction es arbitrary: s) simp_all

lemma entries_fit_head: "entries_fit cfg es s \<Longrightarrow> fits cfg s"
  by (cases es) simp_all

definition entry_of :: "pending_write \<Rightarrow> run_entry list" where
  "entry_of p = (case pw_write p of Append_Entry e \<Rightarrow> [e] | Save_State \<Rightarrow> [])"

definition wf_entries :: "pending_write list \<Rightarrow> run_entry list" where
  "wf_entries ps = concat (map entry_of ps)"

definition awake :: "run_state \<Rightarrow> bool" where
  "awake s \<longleftrightarrow> rs_status s = Running_Run \<and> rs_wake s = None"

definition at_task :: "wf_config \<Rightarrow> run_state \<Rightarrow> string \<Rightarrow> nat \<Rightarrow> task_node \<Rightarrow> bool" where
  "at_task cfg s node n t \<longleftrightarrow> awake s \<and> rs_cursor s = node \<and> rs_attempt s = n \<and> node_at cfg s = Some (Task_Node t)"

text \<open>What a write in flight says about the live state: one of the recovery steps, and one of the turn.\<close>

definition float_ok :: "wf_config \<Rightarrow> run_state \<Rightarrow> pending_write \<Rightarrow> bool" where
  "float_ok cfg s p \<longleftrightarrow> \<not> pw_turn p \<and> pw_task p = None \<and> rs_wake s = None \<and> (case pw_then p of
       After_Wake after \<Rightarrow> pw_write p \<noteq> Save_State \<and> awake s \<and> after_fits cfg s after
     | After_Move \<Rightarrow> pw_write p \<noteq> Save_State \<and> rs_cursor s \<noteq> []
     | After_End \<Rightarrow> pw_write p \<noteq> Save_State \<and> finished s
     | After_Save \<Rightarrow> pw_write p = Save_State \<and> finished s
     | _ \<Rightarrow> False)"

definition turn_ok :: "wf_config \<Rightarrow> run_state \<Rightarrow> pending_write \<Rightarrow> bool" where
  "turn_ok cfg s p \<longleftrightarrow> pw_turn p \<and> (pw_then p \<noteq> After_Save \<longrightarrow> pw_write p \<noteq> Save_State) \<and> (case pw_then p of
       After_Start start \<Rightarrow> awake s \<and> rs_cursor s = []
     | After_Move \<Rightarrow> rs_wake s = None
     | After_Wake after \<Rightarrow> awake s \<and> after_fits cfg s after
     | After_Sleep seq until durable \<Rightarrow> True
     | After_Attempt node n t \<Rightarrow> at_task cfg s node n t \<and> pw_write p = Append_Entry (Attempt_Entry node n)
     | After_Vars next \<Rightarrow> awake s
     | After_End \<Rightarrow> finished s
     | After_Save \<Rightarrow> finished s \<and> pw_write p = Save_State)"

fun is_sleep :: "wf_next \<Rightarrow> bool" where
  "is_sleep (After_Sleep seq until durable) = True"
| "is_sleep _ = False"

text \<open>A recovery step before the turn's write: its wake or its move.\<close>

definition both_ok :: "wf_config \<Rightarrow> run_state \<Rightarrow> pending_write \<Rightarrow> pending_write \<Rightarrow> bool" where
  "both_ok cfg s f p \<longleftrightarrow> \<not> pw_turn f \<and> pw_task f = None \<and> pw_write f \<noteq> Save_State \<and> turn_ok cfg s p \<and> pw_then p \<noteq> After_Save \<and> (case pw_then f of
       After_Wake None \<Rightarrow> True
     | After_Wake (Some n) \<Rightarrow> is_sleep (pw_then p) \<and> \<not> finished s \<and> after_fits cfg s (Some n)
     | After_Move \<Rightarrow> True
     | _ \<Rightarrow> False)"

inductive shape :: "wf_config \<Rightarrow> pending_write list \<Rightarrow> turn_state \<Rightarrow> run_state \<Rightarrow> bool" for cfg where
  sh_idle: "shape cfg [] Free s"
| sh_arming: "shape cfg [] (Arming until) s"
| sh_handling: "at_task cfg s node n t \<Longrightarrow> shape cfg [] (Handling node n t) s"
| sh_float: "float_ok cfg s f \<Longrightarrow> shape cfg [f] Free s"
| sh_float_arming: "float_ok cfg s f \<Longrightarrow> shape cfg [f] (Arming until) s"
| sh_turn: "turn_ok cfg s p \<Longrightarrow> shape cfg [p] Writing s"
| sh_both: "both_ok cfg s f p \<Longrightarrow> shape cfg [f, p] Writing s"
| sh_late: "turn_ok cfg s p \<Longrightarrow> is_sleep (pw_then p) \<Longrightarrow> float_ok cfg s f \<Longrightarrow> pw_then f = After_Move \<or> pw_then f = After_End \<Longrightarrow> shape cfg [p, f] Writing s"

inductive_cases shapeE: "shape cfg q t s"
inductive_cases shape_freeE: "shape cfg q Free s"
inductive_cases shape_handlingE: "shape cfg q (Handling node n t) s"
inductive_cases shape_armingE: "shape cfg q (Arming until) s"

definition recorded_yet :: "wf_run \<Rightarrow> bool" where
  "recorded_yet w \<longleftrightarrow> wr_snap w \<noteq> None \<or> wr_log w = [] \<and> (wr_queue w = [] \<and> wr_live w = empty_run \<and> wr_turn w = Free \<or> (\<exists>p. wr_queue w = [p] \<and> wr_turn w = Writing))"

definition wf_inv :: "wf_config \<Rightarrow> wf_run \<Rightarrow> bool" where
  "wf_inv cfg w \<longleftrightarrow> shape cfg (wr_queue w) (wr_turn w) (wr_live w)
     \<and> replay (wf_entries (wr_queue w)) (recorded w) = wr_live w
     \<and> entries_fit cfg (wf_entries (wr_queue w)) (recorded w) \<and> recorded_yet w"

lemma wf_entries_simps [simp]: "wf_entries [] = []" "wf_entries (p # ps) = entry_of p @ wf_entries ps" "wf_entries (ps @ qs) = wf_entries ps @ wf_entries qs"
  by (simp_all add: wf_entries_def)

lemma entry_of_simps [simp]: "pw_write p = Append_Entry e \<Longrightarrow> entry_of p = [e]" "pw_write p = Save_State \<Longrightarrow> entry_of p = []"
  by (simp_all add: entry_of_def)

text \<open>The invariant reads five fields of the state.\<close>

lemma recorded_same [simp]:
  "recorded (w\<lparr>wr_live := x0\<rparr>) = recorded w" "recorded (w\<lparr>wr_queue := x1\<rparr>) = recorded w" "recorded (w\<lparr>wr_turn := x2\<rparr>) = recorded w"
  "recorded (w\<lparr>wr_armed := x3\<rparr>) = recorded w" "recorded (w\<lparr>wr_timer := x4\<rparr>) = recorded w" "recorded (w\<lparr>wr_advance := x5\<rparr>) = recorded w"
  "recorded (w\<lparr>wr_reminder := x6\<rparr>) = recorded w" "recorded (w\<lparr>wr_leaving := x7\<rparr>) = recorded w" "recorded (w\<lparr>wr_calls := x8\<rparr>) = recorded w"
  "recorded (w\<lparr>wr_unset := x9\<rparr>) = recorded w" "recorded (w\<lparr>wr_failed := x10\<rparr>) = recorded w"
  by (simp_all add: recorded_def)

lemma inv_same [simp]:
  "wf_inv cfg (w\<lparr>wr_armed := x3\<rparr>) = wf_inv cfg w" "wf_inv cfg (w\<lparr>wr_timer := x4\<rparr>) = wf_inv cfg w" "wf_inv cfg (w\<lparr>wr_advance := x5\<rparr>) = wf_inv cfg w"
  "wf_inv cfg (w\<lparr>wr_reminder := x6\<rparr>) = wf_inv cfg w" "wf_inv cfg (w\<lparr>wr_leaving := x7\<rparr>) = wf_inv cfg w" "wf_inv cfg (w\<lparr>wr_calls := x8\<rparr>) = wf_inv cfg w"
  "wf_inv cfg (w\<lparr>wr_unset := x9\<rparr>) = wf_inv cfg w" "wf_inv cfg (w\<lparr>wr_failed := x10\<rparr>) = wf_inv cfg w"
  by (simp_all add: wf_inv_def recorded_yet_def)

lemma inv_same_turn [simp]:
  "wf_inv cfg (w\<lparr>wr_advance := x5, wr_turn := t\<rparr>) = wf_inv cfg (w\<lparr>wr_turn := t\<rparr>)"
  "wf_inv cfg (w\<lparr>wr_timer := x4, wr_armed := x3, wr_turn := t\<rparr>) = wf_inv cfg (w\<lparr>wr_turn := t\<rparr>)"
  "wf_inv cfg (w\<lparr>wr_armed := x3, wr_timer := x4, wr_turn := t\<rparr>) = wf_inv cfg (w\<lparr>wr_turn := t\<rparr>)"
  "wf_inv cfg (w\<lparr>wr_calls := x8, wr_turn := t\<rparr>) = wf_inv cfg (w\<lparr>wr_turn := t\<rparr>)"
  by (simp_all add: wf_inv_def recorded_yet_def)

lemma wf_invD:
  assumes "wf_inv cfg w"
  shows "shape cfg (wr_queue w) (wr_turn w) (wr_live w)" "replay (wf_entries (wr_queue w)) (recorded w) = wr_live w"
    "entries_fit cfg (wf_entries (wr_queue w)) (recorded w)" "recorded_yet w" "fits cfg (wr_live w)"
  using assms entries_fit_last [of cfg "wf_entries (wr_queue w)" "recorded w"] by (simp_all add: wf_inv_def)

text \<open>Another entry, in a run that is not over.\<close>

lemma write_inv:
  assumes "wf_inv cfg w" "\<not> finished (wr_live w)" "fits cfg (apply_run_entry e (wr_live w))" "wr_snap w \<noteq> None \<or> wr_queue w = [] \<and> tn"
    and count: "entry_counted e (wr_live w)"
    and "shape cfg (wr_queue w @ [\<lparr>pw_write = Append_Entry e, pw_then = next, pw_turn = tn, pw_task = tk\<rparr>]) (if tn then Writing else wr_turn w)
           (apply_run_entry e (wr_live w))"
  shows "wf_inv cfg (write_entry e next tn tk w)"
proof -
  let ?w = "write_entry e next tn tk w"
  have w: "wr_live ?w = apply_run_entry e (wr_live w)" "wr_turn ?w = (if tn then Writing else wr_turn w)" "wr_snap ?w = wr_snap w" "wr_log ?w = wr_log w"
    "wr_queue ?w = wr_queue w @ [\<lparr>pw_write = Append_Entry e, pw_then = next, pw_turn = tn, pw_task = tk\<rparr>]" "recorded ?w = recorded w"
    by (simp_all add: write_entry_def recorded_def)
  note inv = wf_invD(1-4) [OF assms(1)]
  have "recorded_yet ?w" unfolding recorded_yet_def w using inv(4) assms(4) by (auto simp: recorded_yet_def)
  moreover have "entries_fit cfg (wf_entries (wr_queue ?w)) (recorded ?w)"
    unfolding w using inv(2,3) assms(2,3) count by (simp add: entries_fit_snoc entry_of_def)
  moreover have "replay (wf_entries (wr_queue ?w)) (recorded ?w) = wr_live ?w"
    unfolding w using inv(2) by (simp add: entry_of_def)
  moreover have "shape cfg (wr_queue ?w) (wr_turn ?w) (wr_live ?w)" unfolding w by (rule assms(6))
  ultimately show ?thesis by (simp only: wf_inv_def)
qed

lemma free_snap:
  assumes "wf_inv cfg w" "wr_turn w = Free" shows "wr_snap w \<noteq> None \<or> wr_queue w = [] \<and> wr_live w = empty_run"
  using wf_invD(4) [OF assms(1)] assms(2) by (auto simp: recorded_yet_def)

lemma free_shape: "shape cfg q Free s \<Longrightarrow> q = [] \<or> (\<exists>f. q = [f] \<and> float_ok cfg s f)"
  by (erule shape_freeE) auto

lemma handling_shape: "shape cfg q (Handling node n t) s \<Longrightarrow> q = [] \<and> at_task cfg s node n t"
  by (erule shape_handlingE) auto

lemma arming_shape: "shape cfg q (Arming until) s \<Longrightarrow> q = [] \<or> (\<exists>f. q = [f] \<and> float_ok cfg s f)"
  by (erule shape_armingE) auto

text \<open>What the turn writes beside a recovery step in flight.\<close>

definition beside_ok :: "wf_config \<Rightarrow> run_state \<Rightarrow> pending_write list \<Rightarrow> wf_next \<Rightarrow> run_state \<Rightarrow> bool" where
  "beside_ok cfg s q next s' \<longleftrightarrow> (\<forall>n. after_fits cfg s (Some n) \<longrightarrow> is_sleep next \<and> \<not> finished s' \<and> after_fits cfg s' (Some n)) \<or> q = []"

lemma turn_write_inv:
  assumes inv: "wf_inv cfg w" and free: "wr_turn w = Free \<or> (\<exists>node n t. wr_turn w = Handling node n t)" and live: "\<not> finished (wr_live w)"
    and fit: "fits cfg (apply_run_entry e (wr_live w))" "entry_counted e (wr_live w)"
    and ok: "turn_ok cfg (apply_run_entry e (wr_live w)) \<lparr>pw_write = Append_Entry e, pw_then = next, pw_turn = True, pw_task = tk\<rparr>"
    and nx: "next \<noteq> After_Save" "beside_ok cfg (wr_live w) (wr_queue w) next (apply_run_entry e (wr_live w))"
  shows "wf_inv cfg (write_entry e next True tk w)"
proof -
  let ?s' = "apply_run_entry e (wr_live w)" and ?p = "\<lparr>pw_write = Append_Entry e, pw_then = next, pw_turn = True, pw_task = tk\<rparr>"
  have "(wr_queue w = [] \<or> (\<exists>f. wr_queue w = [f] \<and> wr_turn w = Free \<and> float_ok cfg (wr_live w) f))"
    using wf_invD(1) [OF inv] free free_shape handling_shape by metis
  then have "shape cfg (wr_queue w @ [?p]) Writing ?s'"
  proof (elim disjE exE conjE)
    assume "wr_queue w = []"
    with ok show ?thesis by (simp add: sh_turn)
  next
    fix f assume f: "wr_queue w = [f]" "float_ok cfg (wr_live w) f"
    with live have "pw_then f \<noteq> After_End" "pw_then f \<noteq> After_Save" by (auto simp: float_ok_def)
    with f ok nx have "both_ok cfg ?s' f ?p"
      by (auto simp: both_ok_def float_ok_def beside_ok_def split: wf_next.splits option.splits)
    with f show ?thesis by (simp add: sh_both)
  qed
  moreover have "wr_snap w \<noteq> None \<or> wr_queue w = []" using wf_invD(4) [OF inv] free by (auto simp: recorded_yet_def)
  ultimately show ?thesis by (intro write_inv [OF inv live fit(1) _ fit(2)]) simp_all
qed

lemma node_at_same [simp]:
  "node_at cfg (s\<lparr>rs_status := x\<rparr>) = node_at cfg s" "node_at cfg (s\<lparr>rs_wake := k\<rparr>) = node_at cfg s" "node_at cfg (s\<lparr>rs_attempt := n\<rparr>) = node_at cfg s"
  "node_at cfg (s\<lparr>rs_seq := q\<rparr>) = node_at cfg s" "node_at cfg (s\<lparr>rs_vars := vs\<rparr>) = node_at cfg s" "node_at cfg (s\<lparr>rs_ended := en\<rparr>) = node_at cfg s"
  "node_at cfg (s\<lparr>rs_error := er\<rparr>) = node_at cfg s"
  by (simp_all add: node_at_def pinned_def split: option.split)

lemma after_fits_same [simp]:
  "after_fits cfg (s\<lparr>rs_status := x\<rparr>) a = after_fits cfg s a" "after_fits cfg (s\<lparr>rs_wake := k\<rparr>) a = after_fits cfg s a"
  "after_fits cfg (s\<lparr>rs_attempt := n\<rparr>) a = after_fits cfg s a" "after_fits cfg (s\<lparr>rs_seq := q\<rparr>) a = after_fits cfg s a"
  "after_fits cfg (s\<lparr>rs_vars := vs\<rparr>) a = after_fits cfg s a"
  by (simp_all add: after_fits_def split: option.splits)

lemma node_at_unstarted: "nodes_named cfg \<Longrightarrow> rs_cursor s = [] \<Longrightarrow> node_at cfg s = None"
  by (auto simp: node_at_def pinned_def nodes_named_def by_key_def split: option.splits dest!: find_Some_mem)

text \<open>The entries of the engine keep a pending wake and the node at the cursor together.\<close>

lemma fits_entries:
  "fits cfg (apply_run_entry (Move_Entry dest seq) s)" "fits cfg (apply_run_entry (End_Entry st now err) s)"
  "fits cfg s \<Longrightarrow> fits cfg (apply_run_entry (Attempt_Entry node n) s)" "fits cfg s \<Longrightarrow> fits cfg (apply_run_entry (Vars_Entry v) s)"
  "rs_wake s = Some k \<Longrightarrow> fits cfg (apply_run_entry (Wake_Entry (wk_seq k)) s)"
  "rs_wake s = None \<Longrightarrow> fits cfg (apply_run_entry (Start_Entry name ver now vars) s)"
  "after_fits cfg s after \<Longrightarrow> fits cfg (apply_run_entry (Sleep_Entry until seq durable after) s)"
  by (simp_all add: fits_def split: option.splits)

lemma awake_entries [simp]:
  "awake s \<Longrightarrow> \<not> finished s" "awake s \<Longrightarrow> rs_wake s = None" "fits cfg s \<Longrightarrow> rs_status s = Running_Run \<Longrightarrow> awake s"
  by (auto simp: awake_def finished_def fits_def split: option.splits)

definition quiet_beside :: "wf_config \<Rightarrow> wf_run \<Rightarrow> bool" where
  "quiet_beside cfg w \<longleftrightarrow> wr_queue w = [] \<or> (\<forall>n. \<not> after_fits cfg (wr_live w) (Some n))"

definition turn_open :: "wf_run \<Rightarrow> bool" where
  "turn_open w \<longleftrightarrow> wr_turn w = Free \<or> (\<exists>node n t. wr_turn w = Handling node n t)"

lemma clear_wake_same [simp]:
  "wr_live (clear_wake w) = wr_live w" "wr_queue (clear_wake w) = wr_queue w" "wr_turn (clear_wake w) = wr_turn w" "wr_snap (clear_wake w) = wr_snap w"
  "wf_inv cfg (clear_wake w) = wf_inv cfg w" "quiet_beside cfg (clear_wake w) = quiet_beside cfg w" "turn_open (clear_wake w) = turn_open w"
  by (simp_all add: clear_wake_def quiet_beside_def turn_open_def)

lemma arm_advance_same [simp]:
  "wr_live (arm_advance w) = wr_live w" "wr_queue (arm_advance w) = wr_queue w" "wr_turn (arm_advance w) = wr_turn w" "wf_inv cfg (arm_advance w) = wf_inv cfg w"
  by (simp_all add: arm_advance_def)

lemma finish_inv:
  assumes "wf_inv cfg w" "turn_open w" "\<not> finished (wr_live w)" "quiet_beside cfg w" shows "wf_inv cfg (finish_run st err True tk now w)"
  unfolding finish_run_def using assms
  by (intro turn_write_inv fits_entries) (auto simp: turn_open_def quiet_beside_def beside_ok_def turn_ok_def finished_def; cases st; simp)+

lemma move_inv:
  assumes "wf_inv cfg w" "turn_open w" "\<not> finished (wr_live w)" "quiet_beside cfg w" shows "wf_inv cfg (move_to next True tk now w)"
proof -
  have "wf_inv cfg (write_entry (Move_Entry (c # n) (rs_seq (wr_live w))) After_Move True tk (clear_wake w))" for c n
    using assms by (intro turn_write_inv fits_entries) (auto simp: turn_open_def quiet_beside_def beside_ok_def turn_ok_def)
  with finish_inv [OF assms] show ?thesis by (simp add: move_to_def split: option.split list.split)
qed

lemma sleep_inv:
  assumes "wf_inv cfg w" "turn_open w" "\<not> finished (wr_live w)" "after_fits cfg (wr_live w) after"
    and "wr_queue w = [] \<or> after \<noteq> None"
  shows "wf_inv cfg (go_to_sleep cfg ms after now w)"
proof -
  have "beside_ok cfg (wr_live w) (wr_queue w) (After_Sleep seq until durable) (apply_run_entry (Sleep_Entry until seq durable after) (wr_live w))" for seq until durable
    by (auto simp: beside_ok_def finished_def)
  with assms show ?thesis
    unfolding go_to_sleep_def Let_def by (intro turn_write_inv fits_entries) (auto simp: turn_open_def turn_ok_def)
qed

lemma run_task_inv:
  assumes "wf_inv cfg w" "wr_turn w = Free" "awake (wr_live w)" "node_at cfg (wr_live w) = Some (Task_Node t)"
  shows "wf_inv cfg (run_task cfg (rs_cursor (wr_live w)) t now w)"
proof -
  from assms(4) have quiet: "quiet_beside cfg w" by (simp add: quiet_beside_def after_fits_def)
  have "wf_inv cfg (write_entry (Attempt_Entry (rs_cursor (wr_live w)) n) (After_Attempt (rs_cursor (wr_live w)) n t) True None w)"
    if "n = Suc (rs_attempt (wr_live w))" for n
    using assms quiet that wf_invD(5) [OF assms(1)]
    by (intro turn_write_inv fits_entries) (auto simp: quiet_beside_def beside_ok_def turn_ok_def at_task_def awake_def finished_def)
  moreover have "wf_inv cfg (finish_run Failed err True None now w)" for err
    using assms quiet by (intro finish_inv) (simp_all add: turn_open_def)
  ultimately show ?thesis by (simp add: run_task_def Let_def)
qed

lemma advance_inv:
  assumes "wf_inv cfg w" "wr_turn w = Free" shows "wf_inv cfg (advance cfg now w)"
proof (cases "rs_status (wr_live w) = Running_Run")
  case True
  let ?s = "wr_live w"
  from True wf_invD(5) [OF assms(1)] have awake: "awake ?s" by simp
  from assms(2) have topen: "turn_open w" by (simp add: turn_open_def)
  show ?thesis
  proof (cases "pinned cfg ?s")
    case (Some d)
    show ?thesis
    proof (cases "jget (wf_nodes d) (rs_cursor ?s)")
      case None
      with Some have "node_at cfg ?s = None" by (simp add: node_at_def)
      then have "quiet_beside cfg w" by (simp add: quiet_beside_def after_fits_def)
      with Some None True awake assms topen show ?thesis by (simp add: advance_def Let_def finish_inv)
    next
      case node: (Some nd)
      with Some have at: "node_at cfg ?s = Some nd" by (simp add: node_at_def)
      show ?thesis
      proof (cases nd)
        case (Task_Node t)
        with at Some node True awake assms show ?thesis by (simp add: advance_def Let_def run_task_inv)
      next
        case (Delay_Node ms nx)
        with at have "after_fits cfg ?s (Some (next_or_end nx))" by (simp add: after_fits_def)
        with Delay_Node Some node True awake assms topen show ?thesis by (simp add: advance_def Let_def sleep_inv)
      next
        case (Branch_Node v op val th el)
        with at have "quiet_beside cfg w" by (simp add: quiet_beside_def after_fits_def)
        with Branch_Node Some node True awake assms topen show ?thesis by (simp add: advance_def Let_def move_inv)
      next
        case (End_Node st reason)
        with at have "quiet_beside cfg w" by (simp add: quiet_beside_def after_fits_def)
        with End_Node Some node True awake assms topen show ?thesis by (simp add: advance_def Let_def finish_inv)
      qed
    qed
  qed (use assms True in \<open>simp add: advance_def\<close>)
qed (use assms in \<open>simp add: advance_def Let_def\<close>)

lemma start_inv:
  assumes "nodes_named cfg" "wf_inv cfg w" "wr_turn w = Free" shows "wf_inv cfg (begin_run cfg name vars version now w)"
proof (cases "rs_status (wr_live w) = Running_Run \<and> rs_cursor (wr_live w) = []")
  case True
  with wf_invD(5) [OF assms(2)] have awake: "awake (wr_live w)" by simp
  have "node_at cfg (wr_live w) = None" using node_at_unstarted assms(1) True by blast
  then have "beside_ok cfg (wr_live w) (wr_queue w) nx s'" for nx s' by (simp add: beside_ok_def after_fits_def)
  with assms awake True have "wf_inv cfg (write_entry (Start_Entry name ver now vars) (After_Start st) True None w)" for ver st
    by (intro turn_write_inv fits_entries) (auto simp: turn_ok_def awake_def finished_def)
  with assms show ?thesis by (simp add: begin_run_def Let_def split: option.split)
qed (use assms in \<open>auto simp: begin_run_def Let_def\<close>)

lemma wake_inv:
  assumes "wf_inv cfg w" "wr_turn w = Free" shows "wf_inv cfg (wake_run seq tn w)"
proof (cases "rs_wake (wr_live w)")
  case (Some k)
  note inv = wf_invD [OF assms(1)]
  from inv(5) Some have k: "rs_status (wr_live w) = Sleeping_Run" "after_fits cfg (wr_live w) (wk_after k)" by (simp_all add: fits_def)
  from inv(1) assms(2) Some have q: "wr_queue w = []" using free_shape [of cfg "wr_queue w" "wr_live w"] by (auto simp: float_ok_def)
  have snap: "wr_snap w \<noteq> None" using free_snap [OF assms] Some by (auto simp: empty_run_def)
  have "wf_inv cfg (write_entry (Wake_Entry (wk_seq k)) (After_Wake (wk_after k)) tn None (clear_wake w))"
  proof (rule write_inv)
    show "shape cfg (wr_queue (clear_wake w) @ [\<lparr>pw_write = Append_Entry (Wake_Entry (wk_seq k)), pw_then = After_Wake (wk_after k), pw_turn = tn, pw_task = None\<rparr>])
        (if tn then Writing else wr_turn (clear_wake w)) (apply_run_entry (Wake_Entry (wk_seq k)) (wr_live (clear_wake w)))"
      using Some k q assms(2) by (cases tn) (auto intro!: sh_turn sh_float simp: turn_ok_def float_ok_def awake_def)
  qed (use assms snap Some k in \<open>auto simp: finished_def intro: fits_entries simp del: apply_run_entry.simps\<close>)
  with Some assms show ?thesis by (auto simp: wake_run_def)
qed (use assms in \<open>simp add: wake_run_def\<close>)

lemma nudge_inv:
  assumes "wf_inv cfg w" "wr_turn w = Free" shows "wf_inv cfg (nudge now set_ok w)"
  using assms wake_inv [OF assms] by (simp add: nudge_def Let_def split: option.split)

lemma handler_returns_inv:
  assumes "wf_inv cfg w" shows "wf_inv cfg (handler_returns out now w)"
proof (cases "wr_turn w")
  case (Handling node n t)
  with wf_invD(1) [OF assms] handling_shape have q: "wr_queue w = []" "at_task cfg (wr_live w) node n t" by metis+
  then have live: "awake (wr_live w)" by (simp add: at_task_def)
  have topen: "turn_open w" "quiet_beside cfg w" using Handling q by (simp_all add: turn_open_def quiet_beside_def)
  have "wf_inv cfg (write_entry (Vars_Entry v) (After_Vars (tn_next t)) True tk w)" for v tk
    using assms live Handling q wf_invD(5) [OF assms]
    by (intro turn_write_inv fits_entries) (auto simp: beside_ok_def turn_ok_def awake_def finished_def split: option.splits)
  with Handling assms topen live show ?thesis
    by (auto simp: handler_returns_def intro: move_inv split: option.split list.split)
qed (use assms in \<open>simp_all add: handler_returns_def\<close>)

lemma catch_inv:
  assumes "wf_inv cfg w" "wr_turn w = Handling node n t" shows "wf_inv cfg (catch_task cfg n' t' msg draw now w)"
proof -
  from wf_invD(1) [OF assms(1)] assms(2) handling_shape have q: "wr_queue w = []" "at_task cfg (wr_live w) node n t" by metis+
  then have live: "awake (wr_live w)" "after_fits cfg (wr_live w) None" by (simp_all add: at_task_def after_fits_def)
  have topen: "turn_open w" "quiet_beside cfg w" using assms(2) q by (simp_all add: turn_open_def quiet_beside_def)
  have idle: "wf_inv cfg (w\<lparr>wr_turn := Free\<rparr>)"
    using assms q by (auto simp: wf_inv_def recorded_yet_def sh_idle)
  show ?thesis
    unfolding catch_task_def Let_def end_thread_def
    using assms(1) q live topen idle by (auto intro!: finish_inv sleep_inv split: option.split)
qed

lemma handler_throws_inv: "wf_inv cfg w \<Longrightarrow> wf_inv cfg (handler_throws cfg msg draw now w)"
  by (cases "wr_turn w") (auto simp: handler_throws_def intro: catch_inv)

lemma arming_inv:
  assumes "wf_inv cfg w" "wr_turn w = Arming until" shows "wf_inv cfg (w\<lparr>wr_turn := Free\<rparr>)"
proof -
  from wf_invD(1) [OF assms(1)] assms(2) have "shape cfg (wr_queue w) Free (wr_live w)"
    using arming_shape [of cfg "wr_queue w" until "wr_live w"] by (auto intro: sh_idle sh_float)
  with assms show ?thesis by (auto simp: wf_inv_def recorded_yet_def)
qed

lemma activated_inv:
  assumes "wf_inv cfg w"
  shows "wf_inv cfg (w\<lparr>wr_live := recorded w, wr_queue := [], wr_turn := Free, wr_armed := None, wr_timer := None, wr_advance := False, wr_leaving := False\<rparr>)"
  using wf_invD [OF assms] entries_fit_head [of cfg "wf_entries (wr_queue w)" "recorded w"]
  by (auto simp: wf_inv_def recorded_yet_def sh_idle recorded_def)

subsection \<open>A write lands\<close>

text \<open>\<open>Save_State\<close> is only ever alone in the queue.\<close>

lemma save_alone: "shape cfg (p # ps) turn s \<Longrightarrow> pw_write p = Save_State \<Longrightarrow> ps = []"
  by (erule shapeE) (auto simp: both_ok_def turn_ok_def split: wf_next.splits)

definition landed :: "wf_run \<Rightarrow> wf_run" where
  "landed w = (case wr_queue w of [] \<Rightarrow> w | p # ps \<Rightarrow> record_write (pw_write p) (w\<lparr>wr_queue := ps\<rparr>))"

lemma landed_fields:
  assumes "wf_inv cfg w" "wr_queue w = p # ps"
  shows "wr_queue (landed w) = ps" "wr_live (landed w) = wr_live w" "wr_turn (landed w) = wr_turn w" "wr_snap (landed w) \<noteq> None"
    "replay (wf_entries ps) (recorded (landed w)) = wr_live w" "entries_fit cfg (wf_entries ps) (recorded (landed w))"
    "wf_write_lands now w = resume_thread (pw_then p) (pw_turn p) (pw_task p) now (landed w)"
proof -
  note inv = wf_invD [OF assms(1)]
  show "wf_write_lands now w = resume_thread (pw_then p) (pw_turn p) (pw_task p) now (landed w)"
    using assms(2) by (simp add: wf_write_lands_def landed_def)
  have "wr_queue (landed w) = ps \<and> wr_live (landed w) = wr_live w \<and> wr_turn (landed w) = wr_turn w \<and> wr_snap (landed w) \<noteq> None
    \<and> replay (wf_entries ps) (recorded (landed w)) = wr_live w \<and> entries_fit cfg (wf_entries ps) (recorded (landed w))"
  proof (cases "pw_write p")
    case (Append_Entry e)
    show ?thesis
    proof (cases "wr_snap w")
      case None
      with inv(4) assms(2) have "ps = []" "wr_log w = []" by (auto simp: recorded_yet_def)
      with None Append_Entry assms(2) inv(5) show ?thesis by (simp add: landed_def record_write_def recorded_def)
    next
      case (Some s)
      with Append_Entry assms(2) inv(2,3) show ?thesis by (simp add: landed_def record_write_def recorded_def)
    qed
  next
    case Save_State
    with save_alone inv(1) assms(2) have "ps = []" by metis
    with Save_State assms(2) inv(5) show ?thesis by (simp add: landed_def record_write_def recorded_def)
  qed
  then show "wr_queue (landed w) = ps" "wr_live (landed w) = wr_live w" "wr_turn (landed w) = wr_turn w" "wr_snap (landed w) \<noteq> None"
    "replay (wf_entries ps) (recorded (landed w)) = wr_live w" "entries_fit cfg (wf_entries ps) (recorded (landed w))" by simp_all
qed

lemma landed_inv:
  assumes "wf_inv cfg w" "wr_queue w = p # ps" "shape cfg ps turn (wr_live w)"
  shows "wf_inv cfg ((landed w)\<lparr>wr_turn := turn\<rparr>)"
  using landed_fields [OF assms(1,2)] assms(3) by (simp add: wf_inv_def recorded_yet_def)

lemma turn_again: "wr_turn w = turn \<Longrightarrow> w\<lparr>wr_turn := turn\<rparr> = (w :: wf_run)"
  by simp

text \<open>The next write of the turn's thread does not depend on what the turn was.\<close>

lemma write_from_free: "write_entry e nx True tk (w\<lparr>wr_turn := x\<rparr>) = write_entry e nx True tk w"
  by (simp add: write_entry_def)

lemma move_from_free: "move_to nx True tk now (w\<lparr>wr_turn := x\<rparr>) = move_to nx True tk now w"
  by (simp add: move_to_def finish_run_def clear_wake_def write_entry_def split: option.split list.split)

text \<open>The move of a recovery step, beside at most a sleep of the turn.\<close>

lemma float_move_inv:
  assumes "wf_inv cfg (w\<lparr>wr_turn := turn\<rparr>)" "wr_turn w = turn" "wr_snap w \<noteq> None" "\<not> finished (wr_live w)"
    and "wr_queue w = [] \<and> (turn = Free \<or> (\<exists>until. turn = Arming until)) \<or> (\<exists>p. wr_queue w = [p] \<and> turn = Writing \<and> turn_ok cfg (wr_live w) p \<and> is_sleep (pw_then p))"
  shows "wf_inv cfg (move_to nx False None now w)"
proof -
  from assms(1,2) have inv: "wf_inv cfg w" by (simp add: turn_again)
  have entry: "wf_inv cfg (write_entry e ny False None (clear_wake w))"
    if e: "float_ok cfg (apply_run_entry e (wr_live w)) \<lparr>pw_write = Append_Entry e, pw_then = ny, pw_turn = False, pw_task = None\<rparr>"
      "ny = After_Move \<or> ny = After_End" "fits cfg (apply_run_entry e (wr_live w))" "entry_counted e (wr_live w)" for e ny
  proof (rule write_inv)
    have "turn_ok cfg (apply_run_entry e (wr_live w)) p" if "turn_ok cfg (wr_live w) p" "is_sleep (pw_then p)" for p
      using that by (cases "pw_then p") (simp_all add: turn_ok_def)
    with assms(2,5) e show "shape cfg (wr_queue (clear_wake w) @ [\<lparr>pw_write = Append_Entry e, pw_then = ny, pw_turn = False, pw_task = None\<rparr>])
        (if False then Writing else wr_turn (clear_wake w)) (apply_run_entry e (wr_live (clear_wake w)))"
      by (auto intro!: sh_float sh_float_arming sh_late)
  qed (use assms inv e in simp_all)
  have "wf_inv cfg (finish_run Completed None False None now w)"
    unfolding finish_run_def by (rule entry) (simp_all add: float_ok_def finished_def fits_entries del: apply_run_entry.simps, simp_all)
  moreover have "wf_inv cfg (write_entry (Move_Entry (c # n) (rs_seq (wr_live w))) After_Move False None (clear_wake w))" for c n
    by (rule entry) (simp_all add: float_ok_def fits_def)
  ultimately show ?thesis by (simp add: move_to_def split: option.split list.split)
qed

lemma float_lands:
  assumes inv: "wf_inv cfg w" and q: "wr_queue w = [f]" "float_ok cfg (wr_live w) f" and turn: "wr_turn w = Free \<or> (\<exists>until. wr_turn w = Arming until)"
  shows "wf_inv cfg (wf_write_lands now w)"
proof -
  note land = landed_fields [OF inv q(1)]
  have f: "\<not> pw_turn f" "pw_task f = None" using q(2) by (simp_all add: float_ok_def)
  have idle: "shape cfg [] (wr_turn w) s" for s using turn by (auto intro: sh_idle sh_arming)
  have w: "wf_inv cfg (landed w)" using landed_inv [OF inv q(1) idle] land(3) by (simp add: turn_again)
  show ?thesis
  proof (cases "pw_then f")
    case (After_Wake after)
    with q(2) have "awake (wr_live w)" by (simp add: float_ok_def)
    then have "wf_inv cfg (move_to (Some n) False None now (landed w))" for n
      using float_move_inv [where w = "landed w" and turn = "wr_turn w"] w land(1-4) turn by (auto simp: turn_again)
    with After_Wake f w land(7) show ?thesis by (simp add: end_thread_def split: option.split)
  next
    case After_End
    let ?s = "\<lparr>pw_write = Save_State, pw_then = After_Save, pw_turn = False, pw_task = None\<rparr>"
    have "float_ok cfg (wr_live w) ?s" using After_End q(2) by (simp add: float_ok_def)
    then have "shape cfg [?s] (wr_turn w) (wr_live w)" using turn by (auto intro: sh_float sh_float_arming)
    with After_End f land show ?thesis by (simp add: wf_inv_def recorded_yet_def entry_of_def)
  qed (use q(2) f w land(7) in \<open>simp_all add: float_ok_def end_thread_def\<close>)
qed

lemma turn_lands:
  assumes inv: "wf_inv cfg w" and q: "wr_queue w = [p]" "turn_ok cfg (wr_live w) p" and turn: "wr_turn w = Writing"
  shows "wf_inv cfg (wf_write_lands now w)"
proof -
  note land = landed_fields [OF inv q(1)]
  have p: "pw_turn p" using q(2) by (simp add: turn_ok_def)
  let ?w = "(landed w)\<lparr>wr_turn := Free\<rparr>"
  have w: "wf_inv cfg ?w" "turn_open ?w" "quiet_beside cfg ?w" "wr_live ?w = wr_live w"
    using landed_inv [OF inv q(1) sh_idle] land by (simp_all add: turn_open_def quiet_beside_def)
  have move: "wf_inv cfg (move_to nx True tk now (landed w))" if "\<not> finished (wr_live w)" for nx tk
    using move_inv [OF w(1,2) _ w(3), of nx tk now] that w(4) by (simp add: move_from_free)
  show ?thesis
  proof (cases "pw_then p")
    case (After_Start start)
    with q(2) have "awake (wr_live w)" by (simp add: turn_ok_def)
    then have "wf_inv cfg (write_entry (Move_Entry start (rs_seq (wr_live w))) After_Move True (pw_task p) ?w)"
      using w by (intro turn_write_inv fits_entries) (auto simp: turn_open_def turn_ok_def beside_ok_def land(1))
    with After_Start p land show ?thesis by (simp add: write_from_free)
  next
    case After_Move
    with p w land(7) show ?thesis by (simp add: end_thread_def arm_advance_def)
  next
    case (After_Wake after)
    with q(2) have "\<not> finished (wr_live w)" by (simp add: turn_ok_def)
    with After_Wake p w(1) land(7) move show ?thesis by (simp add: end_thread_def arm_advance_def split: option.split)
  next
    case (After_Sleep seq until durable)
    have "wf_inv cfg ((landed w)\<lparr>wr_turn := Arming until\<rparr>)" using landed_inv [OF inv q(1) sh_arming] .
    with After_Sleep p w(1) land(7) show ?thesis by (simp add: end_thread_def clear_wake_def Let_def)
  next
    case (After_Attempt node n t)
    with q(2) have "shape cfg [] (Handling node n t) (wr_live w)" by (simp add: turn_ok_def sh_handling)
    from landed_inv [OF inv q(1) this] After_Attempt land(7) show ?thesis by simp
  next
    case (After_Vars nx)
    with q(2) have "\<not> finished (wr_live w)" by (simp add: turn_ok_def)
    with After_Vars p land(7) move show ?thesis by simp
  next
    case After_End
    let ?s = "\<lparr>pw_write = Save_State, pw_then = After_Save, pw_turn = True, pw_task = pw_task p\<rparr>"
    have "turn_ok cfg (wr_live w) ?s" using After_End q(2) by (simp add: turn_ok_def)
    then have "shape cfg [?s] Writing (wr_live w)" by (rule sh_turn)
    with After_End p land turn show ?thesis by (simp add: wf_inv_def recorded_yet_def entry_of_def)
  next
    case After_Save
    with p w(1) land(7) show ?thesis by (simp add: end_thread_def)
  qed
qed

lemma both_lands:
  assumes inv: "wf_inv cfg w" and q: "wr_queue w = [f, p]" "both_ok cfg (wr_live w) f p" and turn: "wr_turn w = Writing"
  shows "wf_inv cfg (wf_write_lands now w)"
proof -
  note land = landed_fields [OF inv q(1)]
  have f: "\<not> pw_turn f" "pw_task f = None" "turn_ok cfg (wr_live w) p" using q(2) by (simp_all add: both_ok_def)
  have "shape cfg [p] Writing (wr_live w)" using f(3) by (rule sh_turn)
  from landed_inv [OF inv q(1) this] have w: "wf_inv cfg (landed w)" using land(3) turn by (simp add: turn_again)
  show ?thesis
  proof (cases "pw_then f")
    case (After_Wake after)
    show ?thesis
    proof (cases after)
      case (Some n)
      with q(2) After_Wake have "is_sleep (pw_then p)" "\<not> finished (wr_live w)" by (simp_all add: both_ok_def)
      then have "wf_inv cfg (move_to (Some n) False None now (landed w))"
        using float_move_inv [where w = "landed w" and turn = Writing] w land(1-4) turn f(3) by (simp add: turn_again)
      with After_Wake Some f land(7) show ?thesis by simp
    qed (use After_Wake f w land(7) in \<open>simp add: end_thread_def\<close>)
  qed (use q(2) f w land(7) in \<open>simp_all add: both_ok_def end_thread_def\<close>)
qed

lemma late_lands:
  assumes inv: "wf_inv cfg w" and q: "wr_queue w = [p, f]" "turn_ok cfg (wr_live w) p" "is_sleep (pw_then p)" "float_ok cfg (wr_live w) f"
  shows "wf_inv cfg (wf_write_lands now w)"
proof -
  note land = landed_fields [OF inv q(1)]
  have p: "pw_turn p" using q(2) by (simp add: turn_ok_def)
  have "wf_inv cfg ((landed w)\<lparr>wr_turn := Free\<rparr>)" "wf_inv cfg ((landed w)\<lparr>wr_turn := Arming until\<rparr>)" for until
    using landed_inv [OF inv q(1) sh_float [OF q(4)]] landed_inv [OF inv q(1) sh_float_arming [OF q(4)]] by blast+
  with q(3) p land(7) show ?thesis by (cases "pw_then p") (simp_all add: end_thread_def clear_wake_def Let_def)
qed

lemma write_lands_inv:
  assumes "wf_inv cfg w" shows "wf_inv cfg (wf_write_lands now w)"
  using wf_invD(1) [OF assms]
proof (cases rule: shape.cases)
  case (sh_float f)
  then show ?thesis using assms by (intro float_lands) simp_all
next
  case (sh_float_arming f until)
  then show ?thesis using assms by (intro float_lands) simp_all
next
  case (sh_turn p)
  then show ?thesis using assms by (intro turn_lands) simp_all
next
  case (sh_both f p)
  then show ?thesis using assms by (intro both_lands) simp_all
next
  case (sh_late p f)
  then show ?thesis using assms by (intro late_lands) simp_all
qed (use assms in \<open>simp_all add: wf_write_lands_def\<close>)

subsection \<open>Every event keeps the invariant\<close>

lemma does_inv:
  assumes "nodes_named cfg" "wf_inv cfg w" "\<nexists>msg draw now. ev = Write_Fails msg draw now" shows "wf_inv cfg (wf_does cfg ev w)"
proof (cases ev)
  case (Advance_Tick now)
  with assms show ?thesis by (simp add: advance_inv)
next
  case (Wake_Tick now)
  with assms show ?thesis by (auto simp: wake_inv split: option.split)
next
  case (Reminder_Tick now set_ok)
  with assms show ?thesis by (auto simp: wake_inv nudge_inv Let_def split: option.split)
next
  case (Activated now set_ok)
  with nudge_inv [OF activated_inv [OF assms(2)]] show ?thesis by simp
qed (use assms in \<open>simp_all add: start_inv nudge_inv write_lands_inv handler_returns_inv handler_throws_inv arming_inv split: turn_state.split\<close>)

text \<open>What no event takes back.\<close>

lemma failed_same [simp]:
  "wr_failed (write_entry e nx tn tk w) = wr_failed w" "wr_failed (end_thread tn w) = wr_failed w" "wr_failed (arm_advance w) = wr_failed w"
  "wr_failed (clear_wake w) = wr_failed w" "wr_failed (record_write wr w) = wr_failed w"
  by (simp_all add: write_entry_def end_thread_def arm_advance_def clear_wake_def record_write_def split: wf_write.split option.split)

lemma failed_same' [simp]:
  "wr_failed (finish_run st err tn tk now w) = wr_failed w" "wr_failed (move_to nx tn tk now w) = wr_failed w"
  "wr_failed (go_to_sleep cfg ms after now w) = wr_failed w" "wr_failed (wake_run seq tn w) = wr_failed w"
  "wr_failed (run_task cfg node t now w) = wr_failed w"
  by (simp_all add: finish_run_def move_to_def go_to_sleep_def wake_run_def run_task_def Let_def split: option.split list.split)

lemma failed_same'' [simp]:
  "wr_failed (nudge now ok w) = wr_failed w" "wr_failed (advance cfg now w) = wr_failed w" "wr_failed (catch_task cfg n t msg draw now w) = wr_failed w"
  "wr_failed (resume_thread nx tn tk now w) = wr_failed w" "wr_failed (begin_run cfg name vars version now w) = wr_failed w"
  "wr_failed (handler_returns out now w) = wr_failed w" "wr_failed (handler_throws cfg msg draw now w) = wr_failed w"
  "wr_failed (wf_write_lands now w) = wr_failed w"
proof -
  show r: "wr_failed (resume_thread nx tn tk now w) = wr_failed w" for nx tn tk w by (cases nx) (simp_all add: Let_def split: option.split)
  show "wr_failed (nudge now ok w) = wr_failed w" by (simp add: nudge_def Let_def split: option.split)
  show "wr_failed (advance cfg now w) = wr_failed w" by (simp add: advance_def Let_def split: option.split wf_node.split)
  show c: "wr_failed (catch_task cfg n t msg draw now w) = wr_failed w" for n t by (simp add: catch_task_def Let_def split: option.split)
  show "wr_failed (begin_run cfg name vars version now w) = wr_failed w" by (simp add: begin_run_def Let_def split: option.split)
  show "wr_failed (handler_returns out now w) = wr_failed w" by (simp add: handler_returns_def split: option.split list.split turn_state.split)
  show "wr_failed (handler_throws cfg msg draw now w) = wr_failed w" by (simp add: handler_throws_def c split: turn_state.split)
  show "wr_failed (wf_write_lands now w) = wr_failed w" by (simp add: wf_write_lands_def r split: list.split)
qed

lemma failed_stays: "wr_failed w \<Longrightarrow> wr_failed (wf_does cfg ev w)"
  by (cases ev) (simp_all add: wf_write_fails_def Let_def split: option.split list.split turn_state.split)

lemma write_fails_failed: "\<not> wr_failed (wf_write_fails cfg msg draw now w) \<Longrightarrow> wf_write_fails cfg msg draw now w = w"
  by (cases "wr_queue w") (auto simp: wf_write_fails_def Let_def split: option.splits)

definition wf_fine :: "wf_config \<Rightarrow> wf_run \<Rightarrow> bool" where
  "wf_fine cfg w \<longleftrightarrow> (nodes_named cfg \<longrightarrow> \<not> wr_failed w \<longrightarrow> wf_inv cfg w)"

lemma new_run_inv: "wf_inv cfg new_run"
  by (simp add: wf_inv_def new_run_def sh_idle recorded_def recorded_yet_def fits_def empty_run_def)

lemma does_fine: "wf_fine cfg w \<Longrightarrow> wf_fine cfg (wf_does cfg ev w)"
proof (cases "\<exists>msg draw now. ev = Write_Fails msg draw now")
  case True
  then show "wf_fine cfg w \<Longrightarrow> wf_fine cfg (wf_does cfg ev w)" using write_fails_failed by (fastforce simp: wf_fine_def)
next
  case False
  then show "wf_fine cfg w \<Longrightarrow> wf_fine cfg (wf_does cfg ev w)" using does_inv failed_stays by (auto simp: wf_fine_def)
qed

interpretation workflow: invariant_machine wf_begin "wf_step cfg" "wf_fine cfg" for cfg
  by unfold_locales (simp add: wf_begin_def wf_fine_def new_run_inv, auto elim!: wf_stepE intro: does_fine)

lemma steps_failed: "(wf_step cfg)\<^sup>*\<^sup>* w w' \<Longrightarrow> wr_failed w \<Longrightarrow> wr_failed w'"
  by (induction rule: rtranclp_induct) (auto elim: wf_stepE dest: failed_stays)

subsection \<open>A run that is over\<close>

text \<open>Nothing but its last save is in flight.\<close>

lemma over_shape:
  assumes "wf_inv cfg w" "finished (recorded w)"
  shows "wr_live w = recorded w" "wr_queue w = [] \<or> (\<exists>p. wr_queue w = [p] \<and> pw_write p = Save_State \<and> pw_then p = After_Save)"
    "\<And>node n t. wr_turn w \<noteq> Handling node n t" "rs_wake (wr_live w) = None"
proof -
  note inv = wf_invD [OF assms(1)]
  from inv(3) assms(2) have none: "wf_entries (wr_queue w) = []" by (cases "wf_entries (wr_queue w)") auto
  with inv(2) show live: "wr_live w = recorded w" by simp
  show "wr_queue w = [] \<or> (\<exists>p. wr_queue w = [p] \<and> pw_write p = Save_State \<and> pw_then p = After_Save)"
  proof (cases "wr_queue w")
    case (Cons p ps)
    with none have "pw_write p = Save_State" by (cases "pw_write p") (simp_all add: entry_of_def)
    moreover from this save_alone inv(1) Cons have "ps = []" by metis
    moreover from calculation Cons inv(1) have "pw_then p = After_Save"
      by (auto simp: float_ok_def turn_ok_def elim!: shapeE split: wf_next.splits)
    ultimately show ?thesis using Cons by blast
  qed simp
  from live assms(2) have over: "finished (wr_live w)" by simp
  show "wr_turn w \<noteq> Handling node n t" for node n t
  proof
    assume "wr_turn w = Handling node n t"
    with inv(1) handling_shape have "at_task cfg (wr_live w) node n t" by metis
    with over show False by (simp add: at_task_def)
  qed
  show "rs_wake (wr_live w) = None"
  proof (cases "rs_wake (wr_live w)")
    case (Some k)
    with inv(5) have "rs_status (wr_live w) = Sleeping_Run" by (simp add: fits_def)
    with over show ?thesis by (simp add: finished_def)
  qed
qed

lemma over_stays:
  assumes "wf_inv cfg w" "finished (recorded w)" "\<not> wr_failed (wf_does cfg ev w)"
  shows "recorded (wf_does cfg ev w) = recorded w \<and> wr_live (wf_does cfg ev w) = recorded w \<and> wr_calls (wf_does cfg ev w) = wr_calls w"
proof -
  note over = over_shape [OF assms(1,2)]
  have status: "rs_status (wr_live w) \<noteq> Running_Run" using assms(2) over(1) by (auto simp: finished_def)
  have nudge: "nudge now ok v = v" if "finished (wr_live v)" for now ok v using that by (simp add: nudge_def)
  have wake: "wake_run seq tn v = v" if "rs_wake (wr_live v) = None" for seq tn v using that by (simp add: wake_run_def)
  have lands: "recorded (wf_write_lands now w) = recorded w \<and> wr_live (wf_write_lands now w) = recorded w \<and> wr_calls (wf_write_lands now w) = wr_calls w" for now
    using over(1,2) by (auto simp: wf_write_lands_def record_write_def recorded_def end_thread_def)
  show ?thesis
  proof (cases ev)
    case (Start_Call name vars version now)
    with over(1) status show ?thesis by (simp add: begin_run_def Let_def)
  next
    case (Advance_Tick now)
    with over(1) status show ?thesis by (simp add: advance_def Let_def)
  next
    case (Write_Fails msg draw now)
    with assms(3) have "wf_write_fails cfg msg draw now w = w" by (intro write_fails_failed) simp
    with Write_Fails over(1) show ?thesis by simp
  next
    case (Handler_Returns out now)
    moreover have "handler_returns out now w = w" using over(3) by (auto simp: handler_returns_def split: turn_state.split)
    ultimately show ?thesis using over(1) by simp
  next
    case (Handler_Throws msg draw now)
    moreover have "handler_throws cfg msg draw now w = w" using over(3) by (auto simp: handler_throws_def split: turn_state.split)
    ultimately show ?thesis using over(1) by simp
  next
    case (Activated now ok)
    with assms(2) nudge show ?thesis by simp
  qed (use over(1,4) assms(2) lands in \<open>auto simp: nudge wake split: option.split turn_state.split\<close>)
qed

lemma run_over_stays:
  "(wf_step cfg)\<^sup>*\<^sup>* w w' \<Longrightarrow> nodes_named cfg \<Longrightarrow> wf_fine cfg w \<Longrightarrow> finished (recorded w) \<Longrightarrow> \<not> wr_failed w'
     \<Longrightarrow> recorded w' = recorded w \<and> wr_live w' = recorded w \<and> wr_calls w' = wr_calls w \<and> wf_fine cfg w'"
proof (induction rule: rtranclp_induct)
  case base
  then show ?case using over_shape(1) by (simp add: wf_fine_def)
next
  case (step y z)
  from step(2) obtain ev where z: "z = wf_does cfg ev y" by (auto elim: wf_stepE)
  with step.prems(4) have "\<not> wr_failed y" using failed_stays by blast
  with step have y: "recorded y = recorded w" "wr_calls y = wr_calls w" "wf_fine cfg y" by simp_all
  with \<open>\<not> wr_failed y\<close> step.prems(1) have "wf_inv cfg y" by (simp add: wf_fine_def)
  from over_stays [OF this, of ev] y step.prems(3,4) z does_fine [OF y(3)] show ?case by simp
qed

subsection \<open>Attempts\<close>

text \<open>A call of a handler is known by the visit of the node, entry_counted by the moves before it, and the attempt.\<close>

definition attempt_ids :: "wf_run \<Rightarrow> (nat \<times> nat) list" where
  "attempt_ids w = map (\<lambda>(node, visit, n, input). (visit, n)) (wr_calls w)"

definition not_after :: "nat \<times> nat \<Rightarrow> run_state \<Rightarrow> bool" where
  "not_after i s \<longleftrightarrow> fst i < rs_transitions s \<or> fst i = rs_transitions s \<and> snd i \<le> rs_attempt s"

definition wf_calls_ok :: "wf_run \<Rightarrow> bool" where
  "wf_calls_ok w \<longleftrightarrow> distinct (attempt_ids w) \<and> (\<forall>i \<in> set (attempt_ids w). not_after i (recorded w))"

lemma not_after_entry: "entry_counted e s \<Longrightarrow> not_after i s \<Longrightarrow> not_after i (apply_run_entry e s)"
  by (cases e) (auto simp: not_after_def split: option.splits)

lemma calls_same [simp]:
  "wr_calls (write_entry e nx tn tk w) = wr_calls w" "wr_calls (end_thread tn w) = wr_calls w" "wr_calls (arm_advance w) = wr_calls w"
  "wr_calls (clear_wake w) = wr_calls w" "wr_calls (record_write wr w) = wr_calls w"
  "recorded (write_entry e nx tn tk w) = recorded w" "recorded (end_thread tn w) = recorded w" "recorded (arm_advance w) = recorded w"
  "recorded (clear_wake w) = recorded w"
  by (simp_all add: write_entry_def end_thread_def arm_advance_def clear_wake_def record_write_def recorded_def split: wf_write.split option.split)

lemma calls_same' [simp]:
  "wr_calls (finish_run st err tn tk now w) = wr_calls w" "wr_calls (move_to nx tn tk now w) = wr_calls w"
  "wr_calls (go_to_sleep cfg ms after now w) = wr_calls w" "wr_calls (wake_run seq tn w) = wr_calls w" "wr_calls (run_task cfg node t now w) = wr_calls w"
  "recorded (finish_run st err tn tk now w) = recorded w" "recorded (move_to nx tn tk now w) = recorded w"
  "recorded (go_to_sleep cfg ms after now w) = recorded w" "recorded (wake_run seq tn w) = recorded w" "recorded (run_task cfg node t now w) = recorded w"
  by (simp_all add: finish_run_def move_to_def go_to_sleep_def wake_run_def run_task_def Let_def split: option.split list.split)

lemma calls_same'' [simp]:
  "wr_calls (nudge now ok w) = wr_calls w" "recorded (nudge now ok w) = recorded w"
  "wr_calls (advance cfg now w) = wr_calls w" "recorded (advance cfg now w) = recorded w"
  "wr_calls (begin_run cfg name vars version now w) = wr_calls w" "recorded (begin_run cfg name vars version now w) = recorded w"
  "wr_calls (catch_task cfg n t msg draw now w) = wr_calls w" "recorded (catch_task cfg n t msg draw now w) = recorded w"
  by (simp_all add: nudge_def advance_def begin_run_def catch_task_def Let_def split: option.split wf_node.split)

lemma calls_same_handlers [simp]:
  "wr_calls (handler_returns out now w) = wr_calls w" "recorded (handler_returns out now w) = recorded w"
  "wr_calls (handler_throws cfg msg draw now w) = wr_calls w" "recorded (handler_throws cfg msg draw now w) = recorded w"
  by (simp_all add: handler_returns_def handler_throws_def split: option.split list.split turn_state.split)

lemma resume_calls:
  "recorded (resume_thread nx tn tk now w) = recorded w"
  "\<nexists>node n t. nx = After_Attempt node n t \<Longrightarrow> wr_calls (resume_thread nx tn tk now w) = wr_calls w"
  by (cases nx; simp add: Let_def split: option.split)+

text \<open>The only event that calls a handler is the landing of its attempt, recorded then as the last thing that happened.\<close>

lemma lands_calls:
  assumes inv: "wf_inv cfg w" and q: "wr_queue w = p # ps" and nx: "pw_then p = After_Attempt node n t"
  shows "recorded (landed w) = wr_live w \<and> at_task cfg (wr_live w) node n t \<and> pw_write p = Append_Entry (Attempt_Entry node n)
     \<and> (\<exists>x. wr_calls (wf_write_lands now w) = wr_calls w @ [(node, rs_transitions (wr_live w), n, x)])"
proof -
  note land = landed_fields [OF inv q]
  have "ps = [] \<and> turn_ok cfg (wr_live w) p"
    using wf_invD(1) [OF inv] q nx by (auto simp: float_ok_def both_ok_def elim!: shapeE)
  with land nx have "recorded (landed w) = wr_live w" "at_task cfg (wr_live w) node n t" "pw_write p = Append_Entry (Attempt_Entry node n)" by (simp_all add: turn_ok_def)
  moreover have "wr_calls (landed w) = wr_calls w" using q by (simp add: landed_def)
  ultimately show ?thesis using land(2,7) nx by auto
qed

lemma landed_recorded:
  assumes inv: "wf_inv cfg w" and q: "wr_queue w = p # ps"
  shows "recorded (landed w) = replay (entry_of p) (recorded w)" "pw_write p = Append_Entry e \<Longrightarrow> entry_counted e (recorded w)"
proof -
  note i = wf_invD [OF inv]
  show "recorded (landed w) = replay (entry_of p) (recorded w)"
  proof (cases "pw_write p")
    case (Append_Entry e)
    show ?thesis
    proof (cases "wr_snap w")
      case None
      with i(4) q have "ps = []" "wr_log w = []" by (auto simp: recorded_yet_def)
      with None Append_Entry q i(2) show ?thesis by (simp add: landed_def record_write_def recorded_def)
    next
      case (Some s)
      with Append_Entry q show ?thesis by (simp add: landed_def record_write_def recorded_def)
    qed
  next
    case Save_State
    with save_alone i(1) q have "ps = []" by metis
    with Save_State q i(2) show ?thesis by (simp add: landed_def record_write_def recorded_def)
  qed
  show "pw_write p = Append_Entry e \<Longrightarrow> entry_counted e (recorded w)" using i(3) q by simp
qed

lemma landed_not_after:
  assumes "wf_inv cfg w" "wr_queue w = p # ps" "not_after i (recorded w)" shows "not_after i (recorded (landed w))"
  using landed_recorded [OF assms(1,2)] assms(3) by (cases "pw_write p") (auto intro: not_after_entry)

lemma write_lands_calls:
  assumes inv: "wf_inv cfg w" and ok: "wf_calls_ok w" shows "wf_calls_ok (wf_write_lands now w)"
proof (cases "wr_queue w")
  case (Cons p ps)
  note land = landed_fields [OF inv Cons]
  have calls: "wr_calls (landed w) = wr_calls w" using Cons by (simp add: landed_def)
  have before: "\<forall>i \<in> set (attempt_ids w). not_after i (recorded (landed w))"
    using ok landed_not_after [OF inv Cons] by (simp add: wf_calls_ok_def)
  have rec: "recorded (wf_write_lands now w) = recorded (landed w)" by (simp add: land(7) resume_calls(1))
  show ?thesis
  proof (cases "\<exists>node n t. pw_then p = After_Attempt node n t")
    case False
    then have "wr_calls (wf_write_lands now w) = wr_calls w" by (simp add: land(7) resume_calls(2) calls)
    with ok before rec show ?thesis by (simp add: wf_calls_ok_def attempt_ids_def)
  next
    case True
    then obtain node n t where "pw_then p = After_Attempt node n t" by blast
    from lands_calls [OF inv Cons this] obtain x where x: "recorded (landed w) = wr_live w" "at_task cfg (wr_live w) node n t"
      "pw_write p = Append_Entry (Attempt_Entry node n)" "wr_calls (wf_write_lands now w) = wr_calls w @ [(node, rs_transitions (wr_live w), n, x)]" by blast
    let ?i = "(rs_transitions (wr_live w), n)"
    from landed_recorded [OF inv Cons] x(3) have "recorded (landed w) = apply_run_entry (Attempt_Entry node n) (recorded w)" "n = Suc (rs_attempt (recorded w))"
      by (simp_all add: entry_of_def)
    with x(1) have "wr_live w = (recorded w)\<lparr>rs_attempt := n\<rparr>" by simp
    then have "rs_transitions (wr_live w) = rs_transitions (recorded w)" by simp
    with \<open>n = Suc (rs_attempt (recorded w))\<close> have "\<not> not_after ?i (recorded w)" by (simp add: not_after_def)
    with ok have "?i \<notin> set (attempt_ids w)" by (auto simp: wf_calls_ok_def)
    moreover have "not_after ?i (recorded (landed w))" using x(1,2) by (simp add: not_after_def at_task_def)
    moreover have "attempt_ids (wf_write_lands now w) = attempt_ids w @ [?i]" using x(4) by (simp add: attempt_ids_def)
    ultimately show ?thesis using ok before rec by (simp add: wf_calls_ok_def)
  qed
qed (use ok in \<open>simp add: wf_write_lands_def\<close>)

lemma calls_ok_same: "recorded w' = recorded w \<Longrightarrow> wr_calls w' = wr_calls w \<Longrightarrow> wf_calls_ok w' = wf_calls_ok w"
  by (simp add: wf_calls_ok_def attempt_ids_def)

lemma does_calls:
  assumes "wf_inv cfg w" "wf_calls_ok w" "\<nexists>msg draw now. ev = Write_Fails msg draw now" shows "wf_calls_ok (wf_does cfg ev w)"
proof (cases "\<exists>now. ev = Write_Lands now")
  case False
  with assms(3) have "recorded (wf_does cfg ev w) = recorded w \<and> wr_calls (wf_does cfg ev w) = wr_calls w"
    by (cases ev) (simp_all add: Let_def split: option.split turn_state.split)
  with assms(2) calls_ok_same show ?thesis by blast
qed (use assms write_lands_calls in auto)

definition calls_fine :: "wf_config \<Rightarrow> wf_run \<Rightarrow> bool" where
  "calls_fine cfg w \<longleftrightarrow> wf_fine cfg w \<and> (nodes_named cfg \<longrightarrow> \<not> wr_failed w \<longrightarrow> wf_calls_ok w)"

lemma does_calls_fine:
  assumes "calls_fine cfg w" shows "calls_fine cfg (wf_does cfg ev w)"
proof (cases "\<exists>msg draw now. ev = Write_Fails msg draw now")
  case True
  then obtain msg draw now where ev: "ev = Write_Fails msg draw now" by blast
  with assms write_fails_failed [of cfg msg draw now w] does_fine [of cfg w ev] show ?thesis
    by (cases "wr_failed (wf_write_fails cfg msg draw now w)") (simp_all add: calls_fine_def)
next
  case False
  with assms does_calls does_fine failed_stays show ?thesis by (auto simp: calls_fine_def wf_fine_def)
qed

lemma new_run_calls: "wf_calls_ok new_run"
  by (simp add: wf_calls_ok_def attempt_ids_def new_run_def)

interpretation attempts: invariant_machine wf_begin "wf_step cfg" "calls_fine cfg" for cfg
  by unfold_locales (simp add: calls_fine_def wf_begin_def wf_fine_def new_run_inv new_run_calls, auto elim!: wf_stepE intro: does_calls_fine)

text \<open>A workflow of a delay and a task that may be tried twice, for the runs below.\<close>

definition demo_task :: task_node where
  "demo_task = \<lparr>tn_handler = ''h'', tn_input = None, tn_assign = None, tn_retry = Some \<lparr>rp_attempts = 2, rp_backoff = 0, rp_max_backoff = None\<rparr>, tn_next = None\<rparr>"

definition demo_flow :: workflow where
  "demo_flow = \<lparr>wf_name = ''f'', wf_version = 1, wf_start = ''a'', wf_nodes = [(''a'', Delay_Node 1000 (Some ''b'')), (''b'', Task_Node demo_task)]\<rparr>"

definition demo_cfg :: wf_config where
  "demo_cfg = \<lparr>wf_defs = [demo_flow], wf_threshold = 30000, wf_handles = (\<lambda>h. h = ''h'')\<rparr>"

definition demo_evs :: "wf_event list" where
  "demo_evs = [Start_Call ''f'' (JObj []) None 0, Write_Lands 0, Write_Lands 0, Advance_Tick 0, Write_Lands 0]"

definition demo_task_evs :: "wf_event list" where
  "demo_task_evs = demo_evs @ [Wake_Tick 1000, Write_Lands 1000, Write_Lands 1000, Advance_Tick 1000, Write_Lands 1000]"

definition demo_end_evs :: "wf_event list" where
  "demo_end_evs = demo_task_evs @ [Handler_Returns JNull 1500, Write_Lands 1500, Write_Lands 1500]"

lemmas demo_defs = demo_task_def demo_flow_def demo_cfg_def demo_evs_def demo_task_evs_def demo_end_evs_def new_run_def

lemma events_reach: "reach wf_begin (wf_step cfg) (fold (wf_does cfg) evs new_run)"
  by (induction evs rule: rev_induct) (auto intro: reach.intros wf_step.intros simp: wf_begin_def)

lemma demo_named: "nodes_named demo_cfg"
  by (simp add: nodes_named_def demo_defs)

abbreviation demo_run :: "wf_event list \<Rightarrow> wf_run" where
  "demo_run evs \<equiv> fold (wf_does demo_cfg) evs new_run"

lemma demo_not_failed: "\<not> wr_failed (demo_run demo_evs)" "\<not> wr_failed (demo_run demo_task_evs)" "\<not> wr_failed (demo_run demo_end_evs)"
  by code_simp+

lemma demo_over: "finished (recorded (demo_run demo_end_evs))"
  by code_simp

subsection \<open>Properties\<close>

text \<open>
  C21. A replayed log and a live run do not diverge: while no write has failed, folding the entries in flight over what is
  recorded gives the live state, in every order of calls, timers, reminders, handler results, recovery steps and
  host deaths. With nothing in flight the next activation finds exactly the run.
\<close>

theorem replayed_log_is_the_run:
  assumes "nodes_named cfg" "reach wf_begin (wf_step cfg) w" "\<not> wr_failed w"
  shows "replay (wf_entries (wr_queue w)) (recorded w) = wr_live w"
  using workflow.reach_inv [OF assms(2)] assms(1,3) wf_invD(2) by (auto simp: wf_fine_def)

theorem replayed_log_is_the_run_witness:
  "replay (wf_entries (wr_queue (demo_run demo_task_evs))) (recorded (demo_run demo_task_evs)) = wr_live (demo_run demo_task_evs)"
  by (rule replayed_log_is_the_run [OF demo_named events_reach demo_not_failed(2)])

text \<open>
  C22. A run that is recorded as over stays over: as long as no write fails, no later call, timer, reminder, recovery or
  activation changes what is recorded or calls a handler again.
\<close>

theorem finished_run_stays_finished:
  assumes "nodes_named cfg" "reach wf_begin (wf_step cfg) w" "finished (recorded w)" "(wf_step cfg)\<^sup>*\<^sup>* w w'" "\<not> wr_failed w'"
  shows "recorded w' = recorded w \<and> wr_live w' = recorded w \<and> wr_calls w' = wr_calls w"
  using run_over_stays [OF assms(4,1) workflow.reach_inv [OF assms(2)] assms(3,5)] by blast

theorem finished_run_stays_finished_witness:
  "recorded (wf_does demo_cfg (Activated 9000 True) (demo_run demo_end_evs)) = recorded (demo_run demo_end_evs)"
proof -
  let ?w = "demo_run demo_end_evs"
  have run: "(wf_step demo_cfg)\<^sup>*\<^sup>* ?w (wf_does demo_cfg (Activated 9000 True) ?w)" by (blast intro: wf_step.intros)
  have "\<not> wr_failed (wf_does demo_cfg (Activated 9000 True) ?w)" by code_simp
  from finished_run_stays_finished [OF demo_named events_reach demo_over run this] show ?thesis by blast
qed

text \<open>
  C23. No attempt is made twice under one number and none before it is recorded: as long as no write fails, across any host deaths the calls of
  handlers are pairwise different in the visit of the node and the number of the attempt, and each of them is in the record when it is
  made. A task whose host died in the middle of an attempt is called again under the next number.
\<close>

theorem no_attempt_is_made_twice:
  assumes "nodes_named cfg" "reach wf_begin (wf_step cfg) w" "\<not> wr_failed w"
  shows "distinct (attempt_ids w) \<and> (\<forall>i \<in> set (attempt_ids w). not_after i (recorded w))"
  using attempts.reach_inv [OF assms(2)] assms(1,3) by (simp add: calls_fine_def wf_calls_ok_def)

theorem no_attempt_is_made_twice_witness:
  "distinct (attempt_ids (demo_run demo_task_evs)) \<and> wr_calls (demo_run demo_task_evs) = [(''b'', 2, 1, JNull)]"
proof -
  have "wr_calls (demo_run demo_task_evs) = [(''b'', 2, 1, JNull)]" by code_simp
  with no_attempt_is_made_twice [OF demo_named events_reach demo_not_failed(2)] show ?thesis by blast
qed

text \<open>
  A host that dies between the two entries of a start fails the run for good: any touch of the half-started run drives it
  from no node, the failure is recorded, and a retried start answers the failed run.
\<close>

theorem half_started_run_fails:
  assumes "by_key (wf_defs cfg) name v = Some d" "nodes_named cfg"
    and "w = fold (wf_does cfg) [Start_Call name vars (Some v) t0, Write_Lands t0, Activated t1 ok, Advance_Tick t2, Write_Lands t2] new_run"
  shows "rs_status (recorded w) = Failed_Run \<and> rs_transitions (recorded w) = 0 \<and> wr_live (wf_does cfg (Start_Call name vars (Some v) t3) w) = wr_live w
    \<and> wr_calls w = []"
proof -
  let ?s = "apply_run_entry (Start_Entry name v t0 vars) empty_run"
  let ?w1 = "fold (wf_does cfg) [Start_Call name vars (Some v) t0, Write_Lands t0] new_run"
  have w1: "wr_snap ?w1 = Some ?s" "wr_log ?w1 = []" "wr_calls ?w1 = []"
    using assms(1) by (simp_all add: begin_run_def new_run_def empty_run_def write_entry_def wf_write_lands_def record_write_def)
  let ?w2 = "wf_does cfg (Activated t1 ok) ?w1"
  have rec: "recorded ?w1 = ?s" using w1 by (simp add: recorded_def)
  have s: "rs_wake ?s = None" "rs_status ?s = Running_Run" "rs_cursor ?s = []" "pinned cfg ?s = Some d" "rs_transitions ?s = 0"
    using assms(1) by (simp_all add: empty_run_def pinned_def)
  have none: "jget (wf_nodes d) [] = None" using node_at_unstarted [OF assms(2) s(3)] s by (simp add: node_at_def)
  have w2: "wr_live ?w2 = ?s" "wr_queue ?w2 = []" "wr_turn ?w2 = Free" "wr_advance ?w2" "wr_snap ?w2 = Some ?s" "wr_log ?w2 = []" "wr_calls ?w2 = []"
    using rec s(1,2) w1 by (simp_all add: nudge_def finished_def arm_advance_def del: apply_run_entry.simps)
  let ?e = "End_Entry Failed t2 (Some (no_node d ?s))"
  let ?w3 = "wf_does cfg (Advance_Tick t2) ?w2"
  have "?w3 = finish_run Failed (Some (no_node d ?s)) True None t2 (?w2\<lparr>wr_advance := False\<rparr>)"
    using w2 s none by (simp add: advance_def del: apply_run_entry.simps wf_does.simps(13))
  then have w3: "wr_live ?w3 = apply_run_entry ?e ?s" "wr_snap ?w3 = Some ?s" "wr_log ?w3 = []" "wr_calls ?w3 = []"
    "wr_queue ?w3 = [\<lparr>pw_write = Append_Entry ?e, pw_then = After_End, pw_turn = True, pw_task = None\<rparr>]"
    using w2 by (simp_all add: finish_run_def write_entry_def clear_wake_def del: apply_run_entry.simps wf_does.simps)
  have w: "w = wf_does cfg (Write_Lands t2) ?w3" using assms(3) by (simp del: wf_does.simps)
  have "recorded w = apply_run_entry ?e ?s" "wr_calls w = []" "wr_live w = apply_run_entry ?e ?s"
    using w3 by (simp_all add: w wf_write_lands_def record_write_def recorded_def del: apply_run_entry.simps wf_does.simps(1-6,8-13))
  then show ?thesis using s(5) by (simp add: begin_run_def)
qed

theorem half_started_run_fails_witness:
  "rs_status (recorded (demo_run [Start_Call ''f'' (JObj []) (Some 1) 0, Write_Lands 0, Activated 5 True, Advance_Tick 6, Write_Lands 6])) = Failed_Run"
proof -
  have "by_key (wf_defs demo_cfg) ''f'' 1 = Some demo_flow" by code_simp
  from half_started_run_fails [OF this demo_named refl] show ?thesis by blast
qed

text \<open>A run that stands awake at a delay serves all of it.\<close>

lemma awake_at_delay_sleeps:
  assumes "node_at cfg (wr_live w) = Some (Delay_Node ms nx)" "rs_status (wr_live w) = Running_Run" "wr_turn w = Free" "wr_advance w"
  shows "\<exists>k. rs_wake (wr_live (wf_does cfg (Advance_Tick now) w)) = Some k \<and> wk_until k = now + ms
    \<and> rs_cursor (wr_live (wf_does cfg (Advance_Tick now) w)) = rs_cursor (wr_live w)"
  using assms by (auto simp: advance_def node_at_def go_to_sleep_def write_entry_def Let_def split: option.splits)

text \<open>
  A delay may be served again from the start: waking writes two entries, and when the host dies between them, or when the
  first fails during the recovery a touch started, the run stands awake at its delay and the next touch puts it to sleep for
  the whole of it once more.
\<close>

theorem interrupted_wake_restarts_the_delay:
  assumes "wr_snap w \<noteq> None" "rs_wake (recorded w) = Some k" "rs_status (recorded w) = Sleeping_Run" "wk_until k \<le> t1"
    and "node_at cfg (recorded w) = Some (Delay_Node ms nx)" "wk_after k = Some n"
    and "crashed = fold (wf_does cfg) [Activated t1 ok, Write_Lands t1, Activated t2 ok', Advance_Tick t2] w"
    and "refused = fold (wf_does cfg) [Activated t1 ok, Write_Fails msg draw t1, Status_Call t2 ok', Advance_Tick t2] w"
  shows "(\<exists>j. rs_wake (wr_live crashed) = Some j \<and> wk_until j = t2 + ms \<and> rs_cursor (wr_live crashed) = rs_cursor (recorded w))
    \<and> (\<exists>j. rs_wake (wr_live refused) = Some j \<and> wk_until j = t2 + ms \<and> rs_cursor (wr_live refused) = rs_cursor (recorded w))"
proof -
  let ?s = "recorded w" and ?e = "Wake_Entry (wk_seq k)"
  let ?s' = "apply_run_entry ?e ?s"
  have s': "?s' = ?s\<lparr>rs_wake := None, rs_status := Running_Run\<rparr>" using assms(2) by simp
  let ?w1 = "wf_does cfg (Activated t1 ok) w"
  have w1: "wr_live ?w1 = ?s'" "wr_turn ?w1 = Free" "wr_snap ?w1 = wr_snap w" "wr_log ?w1 = wr_log w"
    "wr_queue ?w1 = [\<lparr>pw_write = Append_Entry ?e, pw_then = After_Wake (Some n), pw_turn = False, pw_task = None\<rparr>]"
    using assms(2,3,4,6) by (simp_all add: nudge_def finished_def wake_run_def write_entry_def clear_wake_def)
  let ?w2 = "wf_does cfg (Write_Lands t1) ?w1"
  have "recorded ?w2 = recorded (landed ?w1)" using w1(5) by (simp add: wf_write_lands_def landed_def del: wf_does.simps(13))
  also have "\<dots> = ?s'" using w1 assms(1) by (auto simp: landed_def record_write_def recorded_def simp del: wf_does.simps apply_run_entry.simps)
  finally have rec: "recorded ?w2 = ?s'" .
  let ?w3 = "wf_does cfg (Activated t2 ok') ?w2" and ?v2 = "wf_does cfg (Write_Fails msg draw t1) ?w1"
  have w3: "wr_live ?w3 = ?s'" "wr_turn ?w3 = Free" "wr_advance ?w3"
    using rec s' by (simp_all add: nudge_def finished_def arm_advance_def del: apply_run_entry.simps wf_does.simps(1-12))
  have v2: "wr_live ?v2 = ?s'" "wr_turn ?v2 = Free" using w1 by (simp_all add: wf_write_fails_def Let_def end_thread_def del: apply_run_entry.simps wf_does.simps(13))
  let ?v3 = "wf_does cfg (Status_Call t2 ok') ?v2"
  have v3: "wr_live ?v3 = ?s'" "wr_turn ?v3 = Free" "wr_advance ?v3"
    using v2 s' by (simp_all add: nudge_def finished_def arm_advance_def del: apply_run_entry.simps wf_does.simps(1,3-13))
  have at: "node_at cfg ?s' = Some (Delay_Node ms nx)" "rs_status ?s' = Running_Run" "rs_cursor ?s' = rs_cursor ?s"
    using s' assms(5) by simp_all
  from awake_at_delay_sleeps [of cfg ?w3 ms nx t2] awake_at_delay_sleeps [of cfg ?v3 ms nx t2] w3 v3 at show ?thesis
    unfolding assms(7,8) by (simp del: apply_run_entry.simps wf_does.simps)
qed

theorem interrupted_wake_restarts_the_delay_witness:
  "\<exists>j. rs_wake (wr_live (fold (wf_does demo_cfg) [Activated 1000 True, Write_Lands 1000, Activated 1001 True, Advance_Tick 1001] (demo_run demo_evs))) = Some j
    \<and> wk_until j = 2001"
proof -
  let ?k = "\<lparr>wk_until = 1000, wk_seq = 1, wk_durable = False, wk_after = Some ''b''\<rparr>"
  have snap: "wr_snap (demo_run demo_evs) \<noteq> None" by code_simp
  have wake: "rs_wake (recorded (demo_run demo_evs)) = Some ?k" by code_simp
  have asleep: "rs_status (recorded (demo_run demo_evs)) = Sleeping_Run" by code_simp
  have node: "node_at demo_cfg (recorded (demo_run demo_evs)) = Some (Delay_Node 1000 (Some ''b''))" by code_simp
  have k: "wk_until ?k \<le> 1000" "wk_after ?k = Some ''b''" by simp_all
  from interrupted_wake_restarts_the_delay [where ?t2.0 = 1001 and ok = True and ok' = True, OF snap wake asleep k(1) node k(2) refl refl]
  show ?thesis by fastforce
qed

text \<open>
  C24. A run that completed is run again: where its last node is a task with retries left, and its end is recorded but the save that follows
  fails, the catch block of that task takes that for a failure of the handler, puts the finished run to sleep as a retry, and the
  handler is called once more.
\<close>

theorem completed_run_is_run_again:
  assumes "wr_turn w = Handling node n t" "at_task cfg (wr_live w) node n t" "wr_queue w = []" "wr_snap w \<noteq> None" "recorded w = wr_live w"
    and "tn_assign t = None" "tn_next t = None" "tn_retry t = Some r" "n < rp_attempts r" "wf_handles cfg (tn_handler t)" "0 < wf_threshold cfg"
    and "over = fold (wf_does cfg) [Handler_Returns out now, Write_Lands now] w"
    and "again = fold (wf_does cfg) [Write_Fails msg 0 now, Write_Lands now, Wake_Tick now, Write_Lands now, Advance_Tick now, Write_Lands now] over"
  shows "rs_status (recorded over) = Completed_Run \<and> (\<exists>visit x. wr_calls again = wr_calls w @ [(node, visit, Suc n, x)]) \<and> rs_status (recorded again) = Running_Run"
proof -
  let ?s = "wr_live w"
  obtain s0 where snap: "wr_snap w = Some s0" using assms(4) by blast
  from assms(2) have at: "rs_cursor ?s = node" "rs_attempt ?s = n" "node_at cfg ?s = Some (Task_Node t)" by (simp_all add: at_task_def)
  then obtain d where d: "by_key (wf_defs cfg) (rs_def ?s) (rs_version ?s) = Some d" "jget (wf_nodes d) node = Some (Task_Node t)"
    by (auto simp: node_at_def pinned_def split: option.splits)
  have zero: "backoff 0 a b c = 0" for a b c by (simp add: backoff_def)
  have rec: "replay (wr_log w) s0 = ?s" using assms(5) snap by (simp add: recorded_def)
  have over: "wr_live over = apply_run_entry (End_Entry Completed now None) ?s" "recorded over = wr_live over" "wr_snap over = Some s0"
    "wr_calls over = wr_calls w" "wr_turn over = Writing" "replay (wr_log over) s0 = wr_live over"
    "wr_queue over = [\<lparr>pw_write = Save_State, pw_then = After_Save, pw_turn = True, pw_task = Some (node, n, t)\<rparr>]"
    using assms(1,3,6,7,12) snap rec
    by (simp_all add: handler_returns_def move_to_def finish_run_def clear_wake_def write_entry_def wf_write_lands_def record_write_def recorded_def)
  let ?a1 = "wf_does cfg (Write_Fails msg 0 now) over"
  let ?e1 = "Sleep_Entry now (Suc (rs_seq ?s)) False None"
  have a1: "wr_live ?a1 = apply_run_entry ?e1 (wr_live over)" "wr_snap ?a1 = Some s0" "wr_log ?a1 = wr_log over" "wr_calls ?a1 = wr_calls w"
    "wr_queue ?a1 = [\<lparr>pw_write = Append_Entry ?e1, pw_then = After_Sleep (Suc (rs_seq ?s)) now False, pw_turn = True, pw_task = None\<rparr>]"
    using over assms(8,9,11) by (simp_all add: wf_write_fails_def catch_task_def go_to_sleep_def write_entry_def zero Let_def)
  let ?a2 = "wf_does cfg (Write_Lands now) ?a1"
  have a2: "wr_live ?a2 = wr_live ?a1" "wr_snap ?a2 = Some s0" "wr_log ?a2 = wr_log over @ [?e1]" "wr_calls ?a2 = wr_calls w" "wr_queue ?a2 = []"
    "wr_turn ?a2 = Free" "wr_timer ?a2 = Some (Suc (rs_seq ?s), now)"
    using a1 by (simp_all add: wf_write_lands_def record_write_def clear_wake_def end_thread_def Let_def del: wf_does.simps(8))
  let ?a3 = "wf_does cfg (Wake_Tick now) ?a2" and ?e3 = "Wake_Entry (Suc (rs_seq ?s))"
  have a3: "wr_live ?a3 = apply_run_entry ?e3 (wr_live ?a1)" "wr_snap ?a3 = Some s0" "wr_log ?a3 = wr_log over @ [?e1]" "wr_calls ?a3 = wr_calls w"
    "wr_queue ?a3 = [\<lparr>pw_write = Append_Entry ?e3, pw_then = After_Wake None, pw_turn = True, pw_task = None\<rparr>]"
    using a2 a1 by (simp_all add: wake_run_def write_entry_def clear_wake_def del: wf_does.simps(7,8))
  let ?a4 = "wf_does cfg (Write_Lands now) ?a3"
  have a4: "wr_live ?a4 = wr_live ?a3" "wr_snap ?a4 = Some s0" "wr_log ?a4 = wr_log over @ [?e1, ?e3]" "wr_calls ?a4 = wr_calls w" "wr_queue ?a4 = []"
    "wr_turn ?a4 = Free" "wr_advance ?a4"
    using a3 by (simp_all add: wf_write_lands_def record_write_def arm_advance_def end_thread_def del: wf_does.simps(4,8))
  let ?s4 = "wr_live ?a4"
  have s4: "?s4 = replay [?e1, ?e3] (wr_live over)" using a4(1) a3(1) a1(1) by (simp del: wf_does.simps apply_run_entry.simps)
  have s4': "rs_status ?s4 = Running_Run" "rs_cursor ?s4 = node" "rs_attempt ?s4 = n" "rs_def ?s4 = rs_def ?s" "rs_version ?s4 = rs_version ?s" "rs_transitions ?s4 = rs_transitions ?s"
    unfolding s4 over(1) using at by simp_all
  let ?a5 = "wf_does cfg (Advance_Tick now) ?a4" and ?e5 = "Attempt_Entry node (Suc n)"
  have a5: "wr_live ?a5 = apply_run_entry ?e5 ?s4" "wr_snap ?a5 = Some s0" "wr_log ?a5 = wr_log over @ [?e1, ?e3]" "wr_calls ?a5 = wr_calls w"
    "wr_queue ?a5 = [\<lparr>pw_write = Append_Entry ?e5, pw_then = After_Attempt node (Suc n) t, pw_turn = True, pw_task = None\<rparr>]"
    using a4 s4' d assms(10) by (simp_all add: advance_def pinned_def run_task_def write_entry_def Let_def del: wf_does.simps(4,7,8))
  have again: "again = wf_does cfg (Write_Lands now) ?a5" unfolding assms(13) by (simp del: wf_does.simps)
  have calls: "\<exists>visit x. wr_calls again = wr_calls w @ [(node, visit, Suc n, x)]"
    using a5 unfolding again by (simp add: wf_write_lands_def record_write_def del: wf_does.simps(3,4,8))
  have "recorded again = replay [?e1, ?e3, ?e5] (replay (wr_log over) s0)"
    using a5 unfolding again by (simp add: wf_write_lands_def record_write_def recorded_def del: wf_does.simps(3,4,8) apply_run_entry.simps)
  then have "rs_status (recorded again) = Running_Run" unfolding over(6) using s4'(1) s4 by (simp del: wf_does.simps)
  with calls over(1,2) show ?thesis by simp
qed

theorem completed_run_is_run_again_witness:
  "\<exists>visit x. wr_calls (fold (wf_does demo_cfg) [Handler_Returns JNull 1500, Write_Lands 1500, Write_Fails [] 0 1500, Write_Lands 1500, Wake_Tick 1500,
      Write_Lands 1500, Advance_Tick 1500, Write_Lands 1500] (demo_run demo_task_evs)) = wr_calls (demo_run demo_task_evs) @ [(''b'', visit, 2, x)]"
proof -
  let ?w = "demo_run demo_task_evs"
  have turn: "wr_turn ?w = Handling ''b'' 1 demo_task" by code_simp
  have at: "at_task demo_cfg (wr_live ?w) ''b'' 1 demo_task" unfolding at_task_def by code_simp
  have rest: "wr_queue ?w = []" "wr_snap ?w \<noteq> None" "recorded ?w = wr_live ?w" by code_simp+
  have task: "tn_assign demo_task = None" "tn_next demo_task = None" "tn_retry demo_task = Some \<lparr>rp_attempts = 2, rp_backoff = 0, rp_max_backoff = None\<rparr>"
    "wf_handles demo_cfg (tn_handler demo_task)" "0 < wf_threshold demo_cfg" by (simp_all add: demo_defs)
  from completed_run_is_run_again [OF turn at rest task(1,2,3) _ task(4,5) refl refl, of JNull 1500 "[]"] show ?thesis by (simp del: wf_does.simps add: numeral_2_eq_2)
qed

text \<open>Two delays in a row, the first long enough for a reminder and the second not.\<close>

definition two_delays :: wf_config where
  "two_delays = \<lparr>wf_defs = [\<lparr>wf_name = ''f'', wf_version = 1, wf_start = ''a'',
     wf_nodes = [(''a'', Delay_Node 60000 (Some ''b'')), (''b'', Delay_Node 20000 (Some ''c'')), (''c'', End_Node None None)]\<rparr>],
     wf_threshold = 30000, wf_handles = (\<lambda>h. False)\<rparr>"

definition second_delay :: "wf_event list" where
  "second_delay = [Start_Call ''f'' (JObj []) None 0, Write_Lands 0, Write_Lands 0, Advance_Tick 0, Write_Lands 0, Reminder_Set,
     Activated 60000 True, Write_Lands 60000, Write_Lands 60000, Advance_Tick 60000, Write_Lands 60000]"

text \<open>
  C25. A reminder that outlived its delay ends another sleep early: whenever, no write having failed, one is still set while the run, recorded and with nothing in
  flight, sleeps until later than the moment it fires (a touch had taken its delay over and the run went to sleep again), its
  tick wakes that sleep, since it is fenced with the token it finds in the state and not with the one it was set for. The
  run moves to the node behind a delay, or ends, or makes the attempt it was backing off from, before its time.
\<close>

theorem stale_reminder_ends_another_delay:
  assumes "nodes_named cfg" "reach wf_begin (wf_step cfg) w" "\<not> wr_failed w" "wr_turn w = Free" "wr_queue w = []"
    and "wr_reminder w = Some due" "due \<le> now" "rs_wake (recorded w) = Some k" "now < wk_until k"
    and "woken = fold (wf_does cfg) [Reminder_Tick now ok, Write_Lands now] w"
  shows "rs_wake (recorded woken) = None \<and> rs_status (recorded woken) = Running_Run
    \<and> (case wk_after k of
         None \<Rightarrow> wr_turn woken = Free \<and> wr_advance woken
       | Some [] \<Rightarrow> finished (recorded (wf_does cfg (Write_Lands now) woken))
       | Some (c # n) \<Rightarrow> rs_cursor (recorded (wf_does cfg (Write_Lands now) woken)) = c # n)"
proof -
  have inv: "wf_inv cfg w" using workflow.reach_inv [OF assms(2)] assms(1,3) by (auto simp: wf_fine_def)
  let ?e = "Wake_Entry (wk_seq k)" and ?wf = "wf_does cfg"
  define s where "s = recorded w"
  have live: "wr_live w = s" using wf_invD(2) [OF inv] assms(5) by (simp add: s_def)
  obtain s0 where snap: "wr_snap w = Some s0"
    using free_snap [OF inv assms(4)] live assms(8) by (auto simp: empty_run_def s_def)
  have rec: "replay (wr_log w) s0 = s" by (simp add: recorded_def snap s_def)
  define s1 where "s1 = apply_run_entry ?e s"
  have s1: "rs_wake s1 = None" "rs_status s1 = Running_Run" using assms(8) by (simp_all add: s1_def s_def)
  let ?t = "?wf (Reminder_Tick now ok) w" and ?p = "\<lparr>pw_write = Append_Entry ?e, pw_then = After_Wake (wk_after k), pw_turn = True, pw_task = None\<rparr>"
  have t: "wr_live ?t = s1" "wr_snap ?t = Some s0" "wr_log ?t = wr_log w" "wr_queue ?t = [?p]"
    using assms(4-8) live snap by (simp_all add: wake_run_def write_entry_def clear_wake_def s_def s1_def del: apply_run_entry.simps)
  have woken: "woken = ?wf (Write_Lands now) ?t" unfolding assms(10) by (simp del: wf_does.simps)
  have fields: "wr_snap woken = Some s0" "wr_log woken = wr_log w @ [?e]"
    unfolding woken using t
    by (auto simp: wf_write_lands_def record_write_def arm_advance_def end_thread_def move_to_def finish_run_def clear_wake_def write_entry_def
        simp del: wf_does.simps(5) split: option.split list.split)
  then have base: "recorded woken = s1" by (simp add: recorded_def rec s1_def del: apply_run_entry.simps)
  show ?thesis
  proof (cases "wk_after k")
    case None
    with t have "wr_turn woken = Free" "wr_advance woken"
      unfolding woken by (simp_all add: wf_write_lands_def record_write_def arm_advance_def end_thread_def del: wf_does.simps(5))
    with None base s1 show ?thesis by simp
  next
    case (Some n)
    define e where "e = (if n = [] then End_Entry Completed now None else Move_Entry n (rs_seq s1))"
    have "\<exists>nx. wr_queue woken = [\<lparr>pw_write = Append_Entry e, pw_then = nx, pw_turn = True, pw_task = None\<rparr>] \<and> (nx = After_Move \<or> nx = After_End)"
      unfolding woken e_def using t Some
      by (cases n) (simp_all add: wf_write_lands_def record_write_def move_to_def finish_run_def clear_wake_def write_entry_def del: wf_does.simps(5))
    then have "wr_snap (?wf (Write_Lands now) woken) = Some s0" "wr_log (?wf (Write_Lands now) woken) = wr_log w @ [?e, e]"
      using fields by (auto simp: wf_write_lands_def record_write_def arm_advance_def end_thread_def simp del: wf_does.simps(5))
    then have "recorded (?wf (Write_Lands now) woken) = apply_run_entry e s1" by (simp add: recorded_def rec s1_def del: apply_run_entry.simps)
    with Some base s1 show ?thesis by (cases n) (simp_all add: e_def finished_def del: wf_does.simps)
  qed
qed

theorem stale_reminder_ends_another_delay_witness:
  "rs_wake (recorded (fold (wf_does two_delays) second_delay new_run)) = Some \<lparr>wk_until = 80000, wk_seq = 2, wk_durable = False, wk_after = Some ''c''\<rparr>
     \<and> rs_cursor (recorded (wf_does two_delays (Write_Lands 61000) (fold (wf_does two_delays) [Reminder_Tick 61000 True, Write_Lands 61000]
          (fold (wf_does two_delays) second_delay new_run)))) = ''c''"
proof -
  let ?w = "fold (wf_does two_delays) second_delay new_run"
  let ?k = "\<lparr>wk_until = 80000, wk_seq = 2, wk_durable = False, wk_after = Some ''c''\<rparr>"
  have named: "nodes_named two_delays" by (simp add: nodes_named_def two_delays_def)
  have fine: "\<not> wr_failed ?w" and free: "wr_turn ?w = Free" and alone: "wr_queue ?w = []" and set: "wr_reminder ?w = Some 60000"
    and asleep: "rs_wake (recorded ?w) = Some ?k" by code_simp+
  have times: "(60000 :: int) \<le> 61000" "61000 < wk_until ?k" by simp_all
  from stale_reminder_ends_another_delay [where ok = True, OF named events_reach fine free alone set times(1) asleep times(2) refl] asleep show ?thesis
    by (simp del: fold.simps wf_does.simps)
qed

end
