(* ===== verification/Spec2Isabelle.thy ===== *)
theory Spec2Isabelle
  imports Prelude Actor_Ids Cas_Storage Task_Ledger Cluster_Directory Actor_Errors Claim_Protocol Counters
    Placement_Policy Placement_Routing Placement_Life Frames Connection Envelope Reminders Task_Liveness
    Turns Deadlines Reentrancy Local_Host Activation_Seed Detached_Tasks Change_Feeds
    Watch_Loop Watch_Pump Watch_Entries Topics Jobs
    Metrics_Digest Refresh_Coalescer Heartbeat_Load Wire_Paths Client_Routing Workflow_Log Workflow_Run
begin

text \<open>
  A verification library for the actor runtime under \<^verbatim>\<open>packages/actors/src\<close>: virtual actors, each
  activated on at most one host of a cluster, called through a placement that routes over
  transports, with state, tasks and reminders in a storage with optimistic concurrency.

  \<^bold>\<open>How the parts interact.\<close> A call finds its host through the placement (\<^verbatim>\<open>cluster/placement.ts\<close>): the
  claim this host holds, a route cache, the directory, or a policy over the membership view. A remote
  call is encoded in an envelope, framed and multiplexed over a connection; an error crosses back as
  a wire error. On its host an activation claims the actor in the directory, runs turns and
  releases the claim. Reminders and task runs are records in the storage that any host may edit.

  \<^bold>\<open>The theories, in the order of the imports.\<close>
  \<^item> \<^verbatim>\<open>Prelude\<close>: the JavaScript \<open>Map\<close> as an insertion-ordered association list, results, strings, numerals.
    \<^verbatim>\<open>Machines\<close>: reachable states, the locales \<open>invariant_machine\<close> and \<open>finishing_machine\<close> every step relation interprets.
  \<^item> \<^verbatim>\<open>Actor_Ids\<close>: actor ids and labels, the pinned hash, shards, route tokens, keys.
  \<^item> \<^verbatim>\<open>Actor_Errors\<close>: the branded errors (\<^verbatim>\<open>errors.ts\<close>) and their wire form (\<^verbatim>\<open>cluster/wire-errors.ts\<close>).
  \<^item> \<^verbatim>\<open>Cas_Storage\<close>: the in-memory adapter and the storage contract as the locale \<open>cas_storage\<close>.
  \<^item> \<^verbatim>\<open>Task_Ledger\<close>, \<^verbatim>\<open>Reminders\<close>, \<^verbatim>\<open>Task_Liveness\<close>: three clients of that contract
    (\<^verbatim>\<open>host/tasks.ts\<close>, \<^verbatim>\<open>host/reminders.ts\<close>, \<^verbatim>\<open>host/task-liveness.ts\<close>). Their lemmas are proved in the locale and
    put on the adapter by its interpretation \<open>mem\<close>.
  \<^item> \<^verbatim>\<open>Cluster_Directory\<close>: the in-memory directory (locale \<open>actor_directory\<close>) and membership hub.
  \<^item> \<^verbatim>\<open>Claim_Protocol\<close>: claims and releases of any number of hosts, cut at their awaits, as a step relation.
  \<^item> \<^verbatim>\<open>Counters\<close>, \<^verbatim>\<open>Placement_Policy\<close>, \<^verbatim>\<open>Placement_Routing\<close>, \<^verbatim>\<open>Placement_Life\<close>: the placement.
  \<^item> \<^verbatim>\<open>Frames\<close>, \<^verbatim>\<open>Connection\<close>, \<^verbatim>\<open>Envelope\<close>: the host-to-host wire.
  \<^item> \<^verbatim>\<open>Turns\<close>, \<^verbatim>\<open>Deadlines\<close>, \<^verbatim>\<open>Reentrancy\<close>, \<^verbatim>\<open>Local_Host\<close>: one host's side of a call (\<^verbatim>\<open>host/turns.ts\<close>,
    \<^verbatim>\<open>host/deadlines.ts\<close>, \<^verbatim>\<open>host/reentrancy.ts\<close>, \<^verbatim>\<open>host/local-host.ts\<close>): lanes, deadlines, the directory of
    activation slots, worker pools, sweep and stop.
  \<^item> \<^verbatim>\<open>Save_Gate\<close>, \<^verbatim>\<open>Activation_Seed\<close>, \<^verbatim>\<open>Detached_Tasks\<close>, \<^verbatim>\<open>Change_Feeds\<close>: parts of \<^verbatim>\<open>host/activation.ts\<close>: how state reaches storage
    (locale \<open>append_storage\<close>), what an activation starts from, its detached runs, those that a failed activation leaves
    behind included (\<open>fork_step\<close>), and its change feeds.
  \<^item> \<^verbatim>\<open>Watch_Keys\<close>, \<^verbatim>\<open>Watch_Loop\<close>, \<^verbatim>\<open>Watch_Pump\<close>, \<^verbatim>\<open>Watch_Entries\<close>: live reads that share one re-evaluation. The identity of a watch
    (\<^verbatim>\<open>host/watch-core.ts\<close>, \<^verbatim>\<open>host/watches.ts\<close>), its loop with the fan-out (\<^verbatim>\<open>host/watch.ts\<close>), the drain turns that run the reads
    (\<^verbatim>\<open>host/watch-pump.ts\<close>), and the table in \<^verbatim>\<open>host/activation.ts\<close> that decides who may share with whom. The loop is driven
    by a change feed and its reads are turns.
  \<^item> \<^verbatim>\<open>Topics\<close>: names, subscriber index, fan-out and delivery of published events (\<^verbatim>\<open>host/topics.ts\<close>, \<^verbatim>\<open>topics.ts\<close>).
  \<^item> \<^verbatim>\<open>Jobs\<close>: the state machine of \<^verbatim>\<open>job/define-job.ts\<close> on the activation, its storage and its runs; a state holds what is in
    memory, what is recorded and which run is alive, and a host death keeps only the record.
  \<^item> \<^verbatim>\<open>Histogram\<close>, \<^verbatim>\<open>Metrics_Digest\<close>: the latency buckets and how the numbers of several hosts merge (\<^verbatim>\<open>host/histogram.ts\<close>, \<^verbatim>\<open>host/digest.ts\<close>).
  \<^item> \<^verbatim>\<open>Refresh_Coalescer\<close>, \<^verbatim>\<open>Heartbeat_Load\<close>: what the membership providers and the placement share: the single-flight refresh
    (\<^verbatim>\<open>cluster/coalesce.ts\<close>), the self-suspicion clock (\<^verbatim>\<open>cluster/heartbeat-clock.ts\<close>) and the load-aware policy
    (\<^verbatim>\<open>cluster/load-policy.ts\<close>), an interpretation of the locale \<open>placement_policy\<close>.
  \<^item> \<^verbatim>\<open>Wire_Paths\<close>: calls as URLs (\<^verbatim>\<open>route.ts\<close>, \<^verbatim>\<open>wire-url.ts\<close>, \<^verbatim>\<open>wire-symbol.ts\<close>): a symbol's path, its routing token, and back, on bytes,
    with the dot segments that the URL parser resolves away.
  \<^item> \<^verbatim>\<open>Client_Routing\<close>: the client's choice of an endpoint (\<^verbatim>\<open>client/routing.ts\<close>): the learnt cache (locale \<open>endpoint_memory\<close>), the
    shipped routers, and the retry loops around an inner transport, which with the router is an argument.
  \<^item> \<^verbatim>\<open>Workflow_Log\<close>, \<^verbatim>\<open>Workflow_Run\<close>: the package \<^verbatim>\<open>packages/actors-workflow\<close>, an actor per run on this runtime: definitions, log entries
    and their reducer (\<^verbatim>\<open>types.ts\<close>, \<^verbatim>\<open>log.ts\<close>), and the engine (\<^verbatim>\<open>run.ts\<close>) as a step relation over calls, timers, the reminder, handlers, the
    end of each write and host deaths. A run has one activation at a time, so a write that fails is a storage error and no
    conflict; entries land in the order they were made.

  \<^bold>\<open>Conventions.\<close> An asynchronous function is cut at its awaits where other code may run in between;
  where a definition runs a retry loop, an argument \<open>env\<close> says what the others do during each attempt.
  A definition that calls an interface takes the interface's operations as arguments. Times are
  integers, JavaScript integers are \<open>int\<close> or \<open>nat\<close>, 32-bit hashes and header fields are machine words.
  Attempts left is the recursion argument of the retry loops, so that they are total.

  \<^bold>\<open>What the lemmas show.\<close> Each theory proves an invariant that every operation keeps, then its properties by a few
  steps over it; the numbered claims are the ones the manifest names, and each with a hypothesis has a witness that runs the
  definitions on a concrete input. The groups: single activation and single runs (claims, slots, detached runs, jobs);
  exclusion and ordering of turns; what an acknowledged write or start guarantees; freshness and rest of feeds,
  watches and refreshes, by measures on the steps left; isolation of principals; round trips of frames, errors, states and URLs; replay of a log, and attempts made once;
  routing that costs hops and no second run, where a refusal means that the call did not run;
  accounting of calls, publishes and statistics.

  Some theorems show what the code gets wrong: a claim that outlives a failed activation, a fence that misses a
  claim in flight, a clear that trusts a stale cache, a live host that leaves the roster index, an activation that
  survives the stop, resumed runs that nobody tracks or that run twice, a throttled feed that sees half a turn,
  watchers stranded by a deactivation or by a failed loop, job calls
  whose failed save or launch is not taken back, a peer's digest that spoils the cluster's percentiles, a completed workflow run
  that is run again, a stale reminder that ends another delay, a start or a wake cut in two, a call sent again after
  it ran, a call back into a deactivating actor that waits for the turn that makes it, and an actor type, or the key that is a
  dot, that shifts what is read as the routing token.

  \<^bold>\<open>Bounds.\<close> A retry loop recurses on the attempts left, which is the bound the code has. The runs of a step relation are
  unbounded; a claim that one comes to rest gives the number of steps by a measure of the state. Buckets of the
  histogram are exact below \<open>2 ^ 27\<close> microseconds, where the code stops to distinguish them.

  \<^bold>\<open>Not modelled.\<close> The platform (timers' drift, sockets, fetch, the JavaScript scheduler beyond the order of steps), the
  codecs of states and arguments, which are parameters, the reactive library behind change tracking, log lines and
  messages of errors, and the adapters to other products, which are other packages. The manifest lists each part.
\<close>

end
